(* ===== verification/Prelude.thy ===== *)
theory Prelude
  imports Main "HOL-Library.Word"
begin

text \<open>
  Shared vocabulary of the development: outcomes of C++ code that may throw, loops that stop at
  the first exception, the two machine integer types the simulator computes with
  (\<open>int\<close> of 32 bits and \<open>size_t\<close> of 64 bits) and list lemmas used by several components.
\<close>

unbundle bit_operations_syntax

section \<open>Outcomes\<close>

text \<open>
  Every exception class the sources throw is a constructor, with the message of the
  \<open>throw\<close>. \<open>Undefined\<close> is not an exception: it marks an evaluation whose behaviour the C++
  standard leaves undefined (signed overflow, an index past the end of a vector, a division
  by zero). A theorem that concludes \<open>Inr\<close> therefore also says that no undefined behaviour
  was met on the way.
\<close>

datatype sim_error =
    Out_of_range string
  | Runtime_error string
  | Invalid_argument string
  | Undefined string

type_synonym 'a result = "sim_error + 'a"

definition bindE :: "'e + 'a \<Rightarrow> ('a \<Rightarrow> 'e + 'b) \<Rightarrow> 'e + 'b" where
  "bindE m f = (case m of Inl e \<Rightarrow> Inl e | Inr x \<Rightarrow> f x)"

lemma bindE_Inl [simp]: "bindE (Inl e) f = Inl e"
  by (simp add: bindE_def)

lemma bindE_Inr [simp]: "bindE (Inr x) f = f x"
  by (simp add: bindE_def)

lemma bindE_Inr_right [simp]: "bindE m Inr = m"
  by (cases m) simp_all

lemma bindE_eq_Inr [simp]: "bindE m f = Inr y \<longleftrightarrow> (\<exists>x. m = Inr x \<and> f x = Inr y)"
  by (cases m) auto

lemma bindE_eq_Inl: "bindE m f = Inl e \<longleftrightarrow> m = Inl e \<or> (\<exists>x. m = Inr x \<and> f x = Inl e)"
  by (cases m) auto

lemma bindE_assoc: "bindE (bindE m f) g = bindE m (\<lambda>x. bindE (f x) g)"
  by (cases m) auto

lemma bindE_cong [fundef_cong]:
  assumes "m = m'" and "\<And>x. m' = Inr x \<Longrightarrow> f x = f' x"
  shows "bindE m f = bindE m' f'"
  using assms by (cases m') auto

text \<open>A \<open>for\<close> loop that threads a state and stops at the first exception.\<close>

fun foldE :: "('s \<Rightarrow> 'a \<Rightarrow> 'e + 's) \<Rightarrow> 's \<Rightarrow> 'a list \<Rightarrow> 'e + 's" where
  "foldE f s [] = Inr s"
| "foldE f s (x # xs) = bindE (f s x) (\<lambda>s'. foldE f s' xs)"

text \<open>A \<open>for\<close> loop that fills a vector, element by element.\<close>

fun mapE :: "('a \<Rightarrow> 'e + 'b) \<Rightarrow> 'a list \<Rightarrow> 'e + 'b list" where
  "mapE f [] = Inr []"
| "mapE f (x # xs) = bindE (f x) (\<lambda>y. bindE (mapE f xs) (\<lambda>ys. Inr (y # ys)))"

lemma foldE_append: "foldE f s (xs @ ys) = bindE (foldE f s xs) (\<lambda>s'. foldE f s' ys)"
  by (induction xs arbitrary: s) (auto simp: bindE_assoc)

lemma foldE_invariant:
  assumes "foldE f s xs = Inr s'" and "P s"
    and "\<And>s x s'. x \<in> set xs \<Longrightarrow> P s \<Longrightarrow> f s x = Inr s' \<Longrightarrow> P s'"
  shows "P s'"
  using assms by (induction xs arbitrary: s) auto

lemma foldE_total:
  assumes "P s" and "\<And>s x. x \<in> set xs \<Longrightarrow> P s \<Longrightarrow> \<exists>s'. f s x = Inr s' \<and> P s'"
  shows "\<exists>s'. foldE f s xs = Inr s' \<and> P s'"
  using assms
proof (induction xs arbitrary: s)
  case Nil
  then show ?case by simp
next
  case (Cons x xs)
  obtain s1 where s1: "f s x = Inr s1" "P s1"
    using Cons.prems(1) Cons.prems(2)[of x s] by auto
  obtain s2 where "foldE f s1 xs = Inr s2" "P s2"
    using Cons.IH[OF s1(2)] Cons.prems(2) by auto
  with s1 show ?case by simp
qed

lemma mapE_Inr_iff:
  "mapE f xs = Inr ys \<longleftrightarrow> list_all2 (\<lambda>x y. f x = Inr y) xs ys"
  by (induction xs arbitrary: ys) (auto simp: list_all2_Cons1)

lemma mapE_length: "mapE f xs = Inr ys \<Longrightarrow> length ys = length xs"
  by (simp add: mapE_Inr_iff list_all2_lengthD)

lemma mapE_nth: "mapE f xs = Inr ys \<Longrightarrow> i < length xs \<Longrightarrow> f (xs ! i) = Inr (ys ! i)"
  by (simp add: mapE_Inr_iff list_all2_conv_all_nth)

lemma mapE_Inr_map: "(\<And>x. x \<in> set xs \<Longrightarrow> f x = Inr (g x)) \<Longrightarrow> mapE f xs = Inr (map g xs)"
  by (induction xs) auto

lemma mapE_total: "(\<And>x. x \<in> set xs \<Longrightarrow> \<exists>y. f x = Inr y) \<Longrightarrow> \<exists>ys. mapE f xs = Inr ys"
  by (induction xs) force+

section \<open>Machine integers\<close>

text \<open>
  \<open>int\<close> is a 32-bit two's complement word, \<open>size_t\<close> an unsigned 64-bit quantity. A
  \<open>size_t\<close> is kept as a \<open>nat\<close>; the two places where the simulator lets it wrap (the
  address and the branch target, both the sum of a \<open>size_t\<close> and an \<open>int\<close>) go through
  64-bit words.
\<close>

type_synonym c_int = "32 word"
type_synonym size_t = nat

definition checked_int :: "int \<Rightarrow> c_int result" where
  "checked_int i =
     (if - (2 ^ 31) \<le> i \<and> i < 2 ^ 31 then Inr (word_of_int i)
      else Inl (Undefined ''signed integer overflow''))"

definition c_add :: "c_int \<Rightarrow> c_int \<Rightarrow> c_int result" where
  "c_add a b = checked_int (sint a + sint b)"

definition c_sub :: "c_int \<Rightarrow> c_int \<Rightarrow> c_int result" where
  "c_sub a b = checked_int (sint a - sint b)"

definition c_mul :: "c_int \<Rightarrow> c_int \<Rightarrow> c_int result" where
  "c_mul a b = checked_int (sint a * sint b)"

text \<open>Conversion of an \<open>int\<close> to \<open>size_t\<close> is modulo \<open>2 ^ 64\<close>: it sign-extends.\<close>

definition int_to_size :: "c_int \<Rightarrow> size_t" where
  "int_to_size i = unat (signed i :: 64 word)"

text \<open>\<open>n + i\<close> for a \<open>size_t\<close> and an \<open>int\<close>: the \<open>int\<close> is converted, the sum wraps.\<close>

definition size_add_int :: "size_t \<Rightarrow> c_int \<Rightarrow> size_t" where
  "size_add_int n i = unat (of_nat n + signed i :: 64 word)"

definition size_add :: "size_t \<Rightarrow> size_t \<Rightarrow> size_t" where
  "size_add m n = (m + n) mod 2 ^ 64"

definition size_mul :: "size_t \<Rightarrow> size_t \<Rightarrow> size_t" where
  "size_mul m n = m * n mod 2 ^ 64"

text \<open>A \<open>size_t\<close> subtraction wraps below zero.\<close>

definition size_sub :: "size_t \<Rightarrow> size_t \<Rightarrow> size_t" where
  "size_sub m n = (if n \<le> m then m - n else m + 2 ^ 64 - n)"

text \<open>\<open>static_cast<size_t>(-1)\<close>\<close>

definition size_max :: size_t where
  "size_max = 2 ^ 64 - 1"

text \<open>A \<open>size_t\<close> passed to an \<open>int\<close> parameter keeps its low 32 bits.\<close>

definition size_to_int :: "size_t \<Rightarrow> c_int" where
  "size_to_int n = of_nat n"

lemma sint_bounds32: "- (2 ^ 31) \<le> sint (a :: c_int)" "sint (a :: c_int) < 2 ^ 31"
  using sint_range_size[of a] by (auto simp: word_size)

lemma checked_int_Inr: "checked_int i = Inr w \<longleftrightarrow> - (2 ^ 31) \<le> i \<and> i < 2 ^ 31 \<and> w = word_of_int i"
  by (auto simp: checked_int_def)

lemma checked_int_sint: "checked_int i = Inr w \<Longrightarrow> sint w = i"
  by (auto simp: checked_int_Inr signed_of_int signed_take_bit_int_eq_self)

lemma checked_int_of_sint [simp]: "checked_int (sint w) = Inr w"
  using sint_bounds32[of w] by (simp add: checked_int_def)

lemma uint_signed64: "uint (signed (i :: c_int) :: 64 word) = sint i mod 2 ^ 64"
proof -
  have "(signed i :: 64 word) = word_of_int (sint i)"
    by (rule scast_eq)
  then have "uint (signed i :: 64 word) = uint (word_of_int (sint i) :: 64 word)"
    by (rule arg_cong)
  then show ?thesis by (simp only: unsigned_of_int take_bit_eq_mod) simp
qed

lemma int_to_size_eq: "int (int_to_size i) = sint i mod 2 ^ 64"
  by (simp add: int_to_size_def uint_signed64)

lemma int_to_size_nonneg: "0 \<le> sint i \<Longrightarrow> int_to_size i = nat (sint i)"
  using int_to_size_eq[of i] sint_bounds32[of i] by simp

lemma int_to_size_neg: "sint i < 0 \<Longrightarrow> int (int_to_size i) = 2 ^ 64 + sint i"
proof -
  assume neg: "sint i < 0"
  have "(2 ^ 64 + sint i) mod 2 ^ 64 = 2 ^ 64 + sint i"
    using neg sint_bounds32[of i] by (intro mod_pos_pos_trivial) auto
  then show ?thesis using int_to_size_eq[of i] by simp
qed

lemma size_add_int_eq: "int (size_add_int n i) = (int n + sint i) mod 2 ^ 64"
proof -
  have "int (size_add_int n i) = uint (word_of_nat n + signed i :: 64 word)"
    by (simp add: size_add_int_def)
  also have "\<dots> = (uint (word_of_nat n :: 64 word) + uint (signed i :: 64 word)) mod 2 ^ 64"
    by (simp add: uint_word_ariths)
  also have "\<dots> = (int n mod 2 ^ 64 + sint i mod 2 ^ 64) mod 2 ^ 64"
    by (simp add: uint_signed64 unsigned_of_nat take_bit_eq_mod zmod_int)
  also have "\<dots> = (int n + sint i) mod 2 ^ 64"
    by (rule mod_add_eq)
  finally show ?thesis .
qed

lemma size_add_int_exact:
  "0 \<le> int n + sint i \<Longrightarrow> int n + sint i < 2 ^ 64 \<Longrightarrow> size_add_int n i = nat (int n + sint i)"
  using size_add_int_eq[of n i] by (simp add: nat_eq_iff)

lemma size_add_int_lt: "size_add_int n i < 2 ^ 64"
  unfolding size_add_int_def using unsigned_less[of "word_of_nat n + signed i :: 64 word"] by simp

lemma size_sub_exact [simp]: "n \<le> m \<Longrightarrow> size_sub m n = m - n"
  by (simp add: size_sub_def)

lemma size_add_exact [simp]: "m + n < 2 ^ 64 \<Longrightarrow> size_add m n = m + n"
  by (simp add: size_add_def)

section \<open>Searching a vector\<close>

text \<open>The index at which a linear search stops.\<close>

fun first_index :: "('a \<Rightarrow> bool) \<Rightarrow> 'a list \<Rightarrow> nat option" where
  "first_index P [] = None"
| "first_index P (x # xs) = (if P x then Some 0 else map_option Suc (first_index P xs))"

lemma first_index_SomeD:
  "first_index P xs = Some i \<Longrightarrow> i < length xs \<and> P (xs ! i) \<and> (\<forall>j < i. \<not> P (xs ! j))"
proof (induction xs arbitrary: i)
  case Nil
  then show ?case by simp
next
  case (Cons x xs)
  then show ?case
    by (auto simp: nth_Cons split: if_splits nat.splits)
qed

lemma first_index_None_iff: "first_index P xs = None \<longleftrightarrow> (\<forall>x \<in> set xs. \<not> P x)"
  by (induction xs) auto

lemma first_index_eqI:
  "i < length xs \<Longrightarrow> P (xs ! i) \<Longrightarrow> (\<And>j. j < i \<Longrightarrow> \<not> P (xs ! j)) \<Longrightarrow> first_index P xs = Some i"
proof (induction xs arbitrary: i)
  case Nil
  then show ?case by simp
next
  case (Cons x xs)
  show ?case
  proof (cases i)
    case 0
    with Cons.prems show ?thesis by simp
  next
    case (Suc k)
    have "\<not> P x" using Cons.prems(3)[of 0] Suc by simp
    moreover have "first_index P xs = Some k"
      using Cons.prems Suc Cons.prems(3)[of "Suc _"] by (intro Cons.IH) auto
    ultimately show ?thesis using Suc by simp
  qed
qed

lemma first_index_ex: "\<exists>x \<in> set xs. P x \<Longrightarrow> \<exists>i. first_index P xs = Some i"
  using first_index_None_iff[of P xs] by (cases "first_index P xs") auto

lemma length_filter_update:
  "i < length xs \<Longrightarrow>
   length (filter P (xs[i := y])) + (if P (xs ! i) then 1 else 0) = length (filter P xs) + (if P y then 1 else 0)"
proof (induction xs arbitrary: i)
  case (Cons x xs)
  then show ?case by (cases i) auto
qed simp

text \<open>The largest element a loop \<open>m = max(m, x)\<close> leaves.\<close>

definition max_loop :: "nat \<Rightarrow> nat list \<Rightarrow> nat" where
  "max_loop m xs = foldl max m xs"

lemma max_loop_simps [simp]: "max_loop m [] = m" "max_loop m (x # xs) = max_loop (max m x) xs"
  by (simp_all add: max_loop_def)

lemma max_loop_ge: "m \<le> max_loop m xs" "x \<in> set xs \<Longrightarrow> x \<le> max_loop m xs"
proof -
  have ge: "m \<le> max_loop m ys" for m :: nat and ys
  proof (induction ys arbitrary: m)
    case (Cons y ys)
    show ?case using Cons.IH[of "max m y"] by simp
  qed simp
  then show "m \<le> max_loop m xs" .
  show "x \<in> set xs \<Longrightarrow> x \<le> max_loop m xs"
  proof (induction xs arbitrary: m)
    case (Cons y xs)
    then show ?case using ge[of "max m y" xs] by auto
  qed simp
qed

lemma max_loop_mem: "max_loop m xs = m \<or> max_loop m xs \<in> set xs"
proof (induction xs arbitrary: m)
  case (Cons x xs)
  show ?case using Cons.IH[of "max m x"] by (auto simp: max_def)
qed simp

lemma max_loop_le: "m \<le> b \<Longrightarrow> (\<And>x. x \<in> set xs \<Longrightarrow> x \<le> b) \<Longrightarrow> max_loop m xs \<le> b"
  using max_loop_mem[of m xs] by auto

section \<open>Counting maps\<close>

text \<open>\<open>counts[k]++\<close> on a map whose missing keys count as 0, kept as an association list.\<close>

fun bump :: "('k \<times> nat) list \<Rightarrow> 'k \<Rightarrow> ('k \<times> nat) list" where
  "bump [] k = [(k, 1)]"
| "bump ((k', n) # m) k = (if k' = k then (k', n + 1) # m else (k', n) # bump m k)"

definition count_of :: "('k \<times> nat) list \<Rightarrow> 'k \<Rightarrow> nat" where
  "count_of m k = (case map_of m k of Some n \<Rightarrow> n | None \<Rightarrow> 0)"

lemma bump_keys: "fst ` set (bump m k) = insert k (fst ` set m)"
  by (induction m k rule: bump.induct) auto

lemma bump_distinct: "distinct (map fst m) \<Longrightarrow> distinct (map fst (bump m k))"
proof (induction m)
  case (Cons p m)
  have "fst ` set (bump m k) = insert k (fst ` set m)" by (rule bump_keys)
  with Cons show ?case by (cases p) auto
qed simp

lemma count_of_bump: "count_of (bump m k) j = count_of m j + (if j = k then 1 else 0)"
  by (induction m k rule: bump.induct) (auto simp: count_of_def)

lemma count_of_mem: "distinct (map fst m) \<Longrightarrow> (k, n) \<in> set m \<Longrightarrow> count_of m k = n"
  by (simp add: count_of_def)

lemma bump_foldl:
  "distinct (map fst (foldl bump [] xs)) \<and> fst ` set (foldl bump [] xs) = set xs \<and>
   count_of (foldl bump [] xs) k = count_list xs k"
proof (induction xs rule: rev_induct)
  case Nil
  then show ?case by (simp add: count_of_def)
next
  case (snoc x xs)
  then show ?case by (simp add: bump_keys bump_distinct count_of_bump)
qed

lemma bump_total: "sum_list (map snd (bump m k)) = sum_list (map snd m) + 1"
  by (induction m k rule: bump.induct) auto

end
