(* ===== verification/Storage.thy ===== *)
theory Storage
  imports Prelude
begin

text \<open>
  The four word-addressed stores of the simulator: the register file of a thread
  (\<^verbatim>\<open>src/architecture/register_file.cpp\<close>), the flat memory
  (\<^verbatim>\<open>src/architecture/flat_memory.cpp\<close>), the global memory and the banked shared memory
  (\<^verbatim>\<open>include/memory/global_memory.hpp\<close>, \<^verbatim>\<open>include/memory/shared_memory.hpp\<close>). All of them
  are a \<open>std::vector<int>\<close> behind a bounds check that throws \<open>std::out_of_range\<close>; what
  their clients rely on is the locale \<open>bounded_store\<close>.
\<close>

section \<open>The stores\<close>

record register_file =
  rf_registers :: "c_int list"

definition new_register_file :: "size_t \<Rightarrow> register_file" where
  "new_register_file n = \<lparr>rf_registers = replicate n 0\<rparr>"

definition reg_read :: "register_file \<Rightarrow> size_t \<Rightarrow> c_int result" where
  "reg_read rf i =
     (if i \<ge> length (rf_registers rf) then Inl (Out_of_range ''Register read out of bounds'')
      else Inr (rf_registers rf ! i))"

definition reg_write :: "register_file \<Rightarrow> size_t \<Rightarrow> c_int \<Rightarrow> register_file result" where
  "reg_write rf i v =
     (if i \<ge> length (rf_registers rf) then Inl (Out_of_range ''Register write out of bounds'')
      else Inr (rf\<lparr>rf_registers := (rf_registers rf)[i := v]\<rparr>))"

record flat_memory =
  fm_data :: "c_int list"

definition new_flat_memory :: "size_t \<Rightarrow> flat_memory" where
  "new_flat_memory n = \<lparr>fm_data = replicate n 0\<rparr>"

definition fm_load :: "flat_memory \<Rightarrow> size_t \<Rightarrow> c_int result" where
  "fm_load m a =
     (if a \<ge> length (fm_data m) then Inl (Out_of_range ''Memory load out of bounds'')
      else Inr (fm_data m ! a))"

definition fm_store :: "flat_memory \<Rightarrow> size_t \<Rightarrow> c_int \<Rightarrow> flat_memory result" where
  "fm_store m a v =
     (if a \<ge> length (fm_data m) then Inl (Out_of_range ''Memory store out of bounds'')
      else Inr (m\<lparr>fm_data := (fm_data m)[a := v]\<rparr>))"

record global_memory =
  gm_data :: "c_int list"

definition new_global_memory :: "size_t \<Rightarrow> global_memory" where
  "new_global_memory n = \<lparr>gm_data = replicate n 0\<rparr>"

definition gm_load :: "global_memory \<Rightarrow> size_t \<Rightarrow> c_int result" where
  "gm_load m a =
     (if a \<ge> length (gm_data m) then Inl (Out_of_range ''GlobalMemory address out of bounds'')
      else Inr (gm_data m ! a))"

definition gm_store :: "global_memory \<Rightarrow> size_t \<Rightarrow> c_int \<Rightarrow> global_memory result" where
  "gm_store m a v =
     (if a \<ge> length (gm_data m) then Inl (Out_of_range ''GlobalMemory address out of bounds'')
      else Inr (m\<lparr>gm_data := (gm_data m)[a := v]\<rparr>))"

record shared_memory =
  shm_data :: "c_int list"
  shm_num_banks :: size_t

definition new_shared_memory :: "size_t \<Rightarrow> size_t \<Rightarrow> shared_memory" where
  "new_shared_memory n banks = \<lparr>shm_data = replicate n 0, shm_num_banks = banks\<rparr>"

definition shm_load :: "shared_memory \<Rightarrow> size_t \<Rightarrow> c_int result" where
  "shm_load m a =
     (if a \<ge> length (shm_data m) then Inl (Out_of_range ''SharedMemory address out of bounds'')
      else Inr (shm_data m ! a))"

definition shm_store :: "shared_memory \<Rightarrow> size_t \<Rightarrow> c_int \<Rightarrow> shared_memory result" where
  "shm_store m a v =
     (if a \<ge> length (shm_data m) then Inl (Out_of_range ''SharedMemory address out of bounds'')
      else Inr (m\<lparr>shm_data := (shm_data m)[a := v]\<rparr>))"

section \<open>Loops over a store\<close>

text \<open>
  The data loops of a warp memory instruction, one iteration per active lane in lane order:
  read every address, write every address, and the sequential read-modify-write of
  \<open>ATOMIC_ADD\<close>.
\<close>

definition load_each :: "('m \<Rightarrow> size_t \<Rightarrow> c_int result) \<Rightarrow> 'm \<Rightarrow> size_t list \<Rightarrow> c_int list result" where
  "load_each rd m addrs = mapE (rd m) addrs"

definition store_each ::
    "('m \<Rightarrow> size_t \<Rightarrow> c_int \<Rightarrow> 'm result) \<Rightarrow> 'm \<Rightarrow> (size_t \<times> c_int) list \<Rightarrow> 'm result" where
  "store_each wr m avs = foldE (\<lambda>m (a, v). wr m a v) m avs"

definition atomic_each ::
    "('m \<Rightarrow> size_t \<Rightarrow> c_int result) \<Rightarrow> ('m \<Rightarrow> size_t \<Rightarrow> c_int \<Rightarrow> 'm result) \<Rightarrow> 'm
      \<Rightarrow> (size_t \<times> c_int) list \<Rightarrow> 'm result" where
  "atomic_each rd wr m avs =
     foldE (\<lambda>m (a, v). bindE (rd m a) (\<lambda>cur. bindE (c_add cur v) (\<lambda>s. wr m a s))) m avs"

text \<open>What the loops leave at an address, as the specification a client reads.\<close>

definition last_value :: "(size_t \<times> c_int) list \<Rightarrow> size_t \<Rightarrow> c_int option" where
  "last_value avs b = map_of (rev avs) b"

fun added_at :: "(size_t \<times> c_int) list \<Rightarrow> size_t \<Rightarrow> int" where
  "added_at [] b = 0"
| "added_at ((a, v) # avs) b = (if a = b then sint v else 0) + added_at avs b"

section \<open>The contract of a store\<close>

locale bounded_store =
  fixes rd :: "'m \<Rightarrow> size_t \<Rightarrow> c_int result"
    and wr :: "'m \<Rightarrow> size_t \<Rightarrow> c_int \<Rightarrow> 'm result"
    and capacity :: "'m \<Rightarrow> size_t"
  assumes rd_in: "a < capacity m \<Longrightarrow> \<exists>v. rd m a = Inr v"
    and rd_out: "capacity m \<le> a \<Longrightarrow> \<exists>msg. rd m a = Inl (Out_of_range msg)"
    and wr_in: "a < capacity m \<Longrightarrow> \<exists>m'. wr m a v = Inr m'"
    and wr_out: "capacity m \<le> a \<Longrightarrow> \<exists>msg. wr m a v = Inl (Out_of_range msg)"
    and wr_capacity: "wr m a v = Inr m' \<Longrightarrow> capacity m' = capacity m"
    and rd_wr: "wr m a v = Inr m' \<Longrightarrow> rd m' b = (if b = a then Inr v else rd m b)"
begin

lemma wr_InrD: "wr m a v = Inr m' \<Longrightarrow> a < capacity m"
  using wr_out[of m a v] by (metis not_le sum.distinct(1))

lemma rd_InrD: "rd m a = Inr v \<Longrightarrow> a < capacity m"
  using rd_out[of m a] by (metis not_le sum.distinct(1))

lemma load_each_iff:
  "(\<exists>vs. load_each rd m addrs = Inr vs) \<longleftrightarrow> (\<forall>a \<in> set addrs. a < capacity m)"
proof
  assume "\<exists>vs. load_each rd m addrs = Inr vs"
  then obtain vs where "mapE (rd m) addrs = Inr vs" by (auto simp: load_each_def)
  then show "\<forall>a \<in> set addrs. a < capacity m"
    by (metis in_set_conv_nth mapE_nth rd_InrD)
next
  assume "\<forall>a \<in> set addrs. a < capacity m"
  then show "\<exists>vs. load_each rd m addrs = Inr vs"
    unfolding load_each_def by (intro mapE_total) (auto dest: rd_in)
qed

lemma store_each_capacity: "store_each wr m avs = Inr m' \<Longrightarrow> capacity m' = capacity m"
  unfolding store_each_def
  by (rule foldE_invariant[where P = "\<lambda>s. capacity s = capacity m"]) (auto dest: wr_capacity)

lemma store_each_total:
  "\<forall>(a, v) \<in> set avs. a < capacity m \<Longrightarrow> \<exists>m'. store_each wr m avs = Inr m'"
proof (induction avs arbitrary: m)
  case Nil
  then show ?case by (simp add: store_each_def)
next
  case (Cons p avs)
  obtain a v where p: "p = (a, v)" by (cases p)
  with Cons.prems obtain m1 where m1: "wr m a v = Inr m1" using wr_in[of a m v] by auto
  with Cons.prems have "\<exists>m'. store_each wr m1 avs = Inr m'"
    by (intro Cons.IH) (auto simp: wr_capacity[OF m1])
  with m1 p show ?case by (simp add: store_each_def)
qed

lemma store_each_in: "store_each wr m avs = Inr m' \<Longrightarrow> \<forall>(a, v) \<in> set avs. a < capacity m"
proof (induction avs arbitrary: m)
  case Nil
  then show ?case by simp
next
  case (Cons p avs)
  obtain a v where p: "p = (a, v)" by (cases p)
  with Cons.prems obtain m1 where m1: "wr m a v = Inr m1" "store_each wr m1 avs = Inr m'"
    by (auto simp: store_each_def)
  from Cons.IH[OF m1(2)] wr_capacity[OF m1(1)] wr_InrD[OF m1(1)] p show ?case
    by auto
qed

lemma store_each_rd:
  "store_each wr m avs = Inr m' \<Longrightarrow>
   rd m' b = (case last_value avs b of Some v \<Rightarrow> Inr v | None \<Rightarrow> rd m b)"
proof (induction avs arbitrary: m)
  case Nil
  then show ?case by (simp add: store_each_def last_value_def)
next
  case (Cons p avs)
  obtain a v where p: "p = (a, v)" by (cases p)
  with Cons.prems obtain m1 where m1: "wr m a v = Inr m1" "store_each wr m1 avs = Inr m'"
    by (auto simp: store_each_def)
  from Cons.IH[OF m1(2)] rd_wr[OF m1(1)] p show ?case
    by (auto simp: last_value_def map_add_def split: option.splits)
qed

lemma atomic_each_capacity: "atomic_each rd wr m avs = Inr m' \<Longrightarrow> capacity m' = capacity m"
  unfolding atomic_each_def
  by (rule foldE_invariant[where P = "\<lambda>s. capacity s = capacity m"]) (fastforce dest: wr_capacity)+

lemma atomic_each_rd:
  "atomic_each rd wr m avs = Inr m' \<Longrightarrow> rd m b = Inr x \<Longrightarrow>
   \<exists>y. rd m' b = Inr y \<and> sint y = sint x + added_at avs b"
proof (induction avs arbitrary: m x)
  case Nil
  then show ?case by (simp add: atomic_each_def)
next
  case (Cons p avs)
  obtain a v where p: "p = (a, v)" by (cases p)
  with Cons.prems(1) obtain cur s m1 where m1: "rd m a = Inr cur" "c_add cur v = Inr s"
      "wr m a s = Inr m1" "atomic_each rd wr m1 avs = Inr m'"
    by (auto simp: atomic_each_def)
  have s: "sint s = sint cur + sint v"
    using m1(2) by (simp add: c_add_def checked_int_sint)
  show ?case
  proof (cases "b = a")
    case True
    then have "rd m1 b = Inr s" using rd_wr[OF m1(3)] by simp
    from Cons.IH[OF m1(4) this] show ?thesis
      using True m1(1) s p Cons.prems(2) by auto
  next
    case False
    then have "rd m1 b = Inr x" using rd_wr[OF m1(3)] Cons.prems(2) by simp
    from Cons.IH[OF m1(4) this] show ?thesis using False p by auto
  qed
qed

end

interpretation regs: bounded_store reg_read reg_write "\<lambda>rf. length (rf_registers rf)"
  by unfold_locales (auto simp: reg_read_def reg_write_def split: if_splits)

interpretation flat: bounded_store fm_load fm_store "\<lambda>m. length (fm_data m)"
  by unfold_locales (auto simp: fm_load_def fm_store_def split: if_splits)

interpretation glob: bounded_store gm_load gm_store "\<lambda>m. length (gm_data m)"
  by unfold_locales (auto simp: gm_load_def gm_store_def split: if_splits)

interpretation shar: bounded_store shm_load shm_store "\<lambda>m. length (shm_data m)"
  by unfold_locales (auto simp: shm_load_def shm_store_def split: if_splits)

section \<open>Bank conflicts\<close>

text \<open>
  \<open>bank_words[bank].insert(word_addr)\<close> on the map from banks to sets of word addresses; the
  map and the sets are unordered containers whose order the code does not use, kept here as
  lists without repetition.
\<close>

fun insert_word :: "size_t \<Rightarrow> size_t \<Rightarrow> (size_t \<times> size_t list) list \<Rightarrow> (size_t \<times> size_t list) list" where
  "insert_word b w [] = [(b, [w])]"
| "insert_word b w ((b', ws) # m) =
     (if b' = b then (b', List.insert w ws) # m else (b', ws) # insert_word b w m)"

definition compute_bank_conflicts :: "shared_memory \<Rightarrow> size_t list \<Rightarrow> size_t" where
  "compute_bank_conflicts m addrs =
     (if addrs = [] \<or> shm_num_banks m = 0 then 0
      else
        let bank_words = foldl (\<lambda>bw addr. let word_addr = addr div 4;
                                             bank = word_addr mod shm_num_banks m
                                         in insert_word bank word_addr bw) [] addrs;
            max_unique = max_loop 0 (map (\<lambda>(bank, ws). length ws) bank_words)
        in if max_unique > 0 then max_unique - 1 else 0)"

text \<open>The words of a bank among the requested addresses.\<close>

definition words_in_bank :: "size_t \<Rightarrow> size_t list \<Rightarrow> size_t \<Rightarrow> size_t set" where
  "words_in_bank n addrs b = {w \<in> (\<lambda>a. a div 4) ` set addrs. w mod n = b}"

definition bank_table :: "size_t \<Rightarrow> (size_t \<times> size_t list) list \<Rightarrow> size_t list \<Rightarrow> bool" where
  "bank_table n bw addrs \<longleftrightarrow>
     distinct (map fst bw) \<and> fst ` set bw = (\<lambda>a. a div 4 mod n) ` set addrs \<and>
     (\<forall>(b, ws) \<in> set bw. distinct ws \<and> set ws = words_in_bank n addrs b)"

lemma insert_word_fst: "fst ` set (insert_word b w bw) = insert b (fst ` set bw)"
  by (induction b w bw rule: insert_word.induct) auto

lemma insert_word_distinct: "distinct (map fst bw) \<Longrightarrow> distinct (map fst (insert_word b w bw))"
proof (induction bw)
  case (Cons p bw)
  have "fst ` set (insert_word b w bw) = insert b (fst ` set bw)" by (rule insert_word_fst)
  with Cons show ?case by (cases p) auto
qed simp

lemma insert_word_mem:
  "distinct (map fst bw) \<Longrightarrow> (c, ws) \<in> set (insert_word b w bw) \<Longrightarrow>
   (c \<noteq> b \<and> (c, ws) \<in> set bw) \<or>
   (c = b \<and> ((\<exists>ws0. (b, ws0) \<in> set bw \<and> ws = List.insert w ws0) \<or> (b \<notin> fst ` set bw \<and> ws = [w])))"
proof (induction bw)
  case Nil
  then show ?case by auto
next
  case (Cons p bw)
  then show ?case by (cases p) (auto simp: image_iff split: if_splits)
qed

lemma bank_table_insert:
  assumes "bank_table n bw addrs"
  shows "bank_table n (insert_word (a div 4 mod n) (a div 4) bw) (addrs @ [a])"
proof -
  have wib: "words_in_bank n (addrs @ [a]) b =
      (if b = a div 4 mod n then insert (a div 4) (words_in_bank n addrs b) else words_in_bank n addrs b)"
    for b by (auto simp: words_in_bank_def)
  have "distinct ws \<and> set ws = words_in_bank n (addrs @ [a]) c"
    if mem: "(c, ws) \<in> set (insert_word (a div 4 mod n) (a div 4) bw)" for c ws
  proof -
    have "distinct (map fst bw)" using assms by (simp add: bank_table_def)
    from insert_word_mem[OF this mem] consider
        (old) "c \<noteq> a div 4 mod n" "(c, ws) \<in> set bw"
      | (upd) ws0 where "c = a div 4 mod n" "(c, ws0) \<in> set bw" "ws = List.insert (a div 4) ws0"
      | (new) "c = a div 4 mod n" "c \<notin> fst ` set bw" "ws = [a div 4]"
      by metis
    then show ?thesis
    proof cases
      case new
      then have "c \<notin> (\<lambda>a. a div 4 mod n) ` set addrs"
        using assms by (simp add: bank_table_def)
      then have "words_in_bank n addrs c = {}"
        by (auto simp: words_in_bank_def)
      with new show ?thesis by (simp add: wib)
    qed (use assms in \<open>auto simp: bank_table_def wib\<close>)
  qed
  then show ?thesis
    using assms by (auto simp: bank_table_def insert_word_fst insert_word_distinct)
qed

lemma bank_table_foldl:
  "bank_table n (foldl (\<lambda>bw addr. let word_addr = addr div 4; bank = word_addr mod n
                               in insert_word bank word_addr bw) [] addrs) addrs"
proof (induction addrs rule: rev_induct)
  case Nil
  then show ?case by (simp add: bank_table_def)
next
  case (snoc a addrs)
  from bank_table_insert[OF snoc.IH, of a] show ?case by (simp add: Let_def)
qed

text \<open>The conflict penalty is one less than the fullest bank, counting distinct words.\<close>

definition fullest_bank :: "size_t \<Rightarrow> size_t list \<Rightarrow> size_t" where
  "fullest_bank n addrs = Max ((\<lambda>a. card (words_in_bank n addrs (a div 4 mod n))) ` set addrs)"

lemma max_loop_eq_Max: "(xs :: nat list) \<noteq> [] \<Longrightarrow> max_loop 0 xs = Max (set xs)"
proof (rule Max_eqI[symmetric])
  assume "xs \<noteq> []"
  then have "hd xs \<in> set xs" by simp
  moreover from this have "hd xs \<le> max_loop 0 xs" by (rule max_loop_ge)
  ultimately show "max_loop 0 xs \<in> set xs"
    using max_loop_mem[of 0 xs] by (cases "max_loop 0 xs = 0") simp_all
qed (simp_all add: max_loop_ge(2))

lemma bank_conflicts_eq:
  assumes "addrs \<noteq> []" and "0 < shm_num_banks m"
  shows "compute_bank_conflicts m addrs = fullest_bank (shm_num_banks m) addrs - 1"
proof -
  let ?n = "shm_num_banks m"
  let ?bw = "foldl (\<lambda>bw addr. let word_addr = addr div 4; bank = word_addr mod ?n
                           in insert_word bank word_addr bw) [] addrs"
  have tab: "bank_table ?n ?bw addrs" by (rule bank_table_foldl)
  then have ne: "?bw \<noteq> []" using assms(1) by (auto simp: bank_table_def)
  have len: "(case p of (b, ws) \<Rightarrow> length ws) = card (words_in_bank ?n addrs (fst p))"
    if "p \<in> set ?bw" for p
    using tab that unfolding bank_table_def
    by (cases p) (metis (mono_tags, lifting) case_prodD case_prod_conv distinct_card fst_conv)
  have "set (map (\<lambda>(b, ws). length ws) ?bw) = (\<lambda>p. card (words_in_bank ?n addrs (fst p))) ` set ?bw"
    unfolding set_map by (rule image_cong[OF refl len])
  also have "\<dots> = (\<lambda>b. card (words_in_bank ?n addrs b)) ` (fst ` set ?bw)"
    by (simp add: image_image)
  also have "\<dots> = (\<lambda>a. card (words_in_bank ?n addrs (a div 4 mod ?n))) ` set addrs"
    using tab by (auto simp: bank_table_def image_image)
  finally have "Max (set (map (\<lambda>(b, ws). length ws) ?bw)) = fullest_bank ?n addrs"
    by (simp add: fullest_bank_def)
  then show ?thesis
    using assms ne max_loop_eq_Max[of "map (\<lambda>(b, ws). length ws) ?bw"]
    by (simp add: compute_bank_conflicts_def Let_def)
qed

lemma bank_conflicts_le: "compute_bank_conflicts m addrs \<le> length addrs - 1"
proof (cases "addrs = [] \<or> shm_num_banks m = 0")
  case True
  then show ?thesis by (auto simp: compute_bank_conflicts_def)
next
  case False
  have "card (words_in_bank n addrs b) \<le> length addrs" for n b
  proof -
    have "card (words_in_bank n addrs b) \<le> card ((\<lambda>a. a div 4) ` set addrs)"
      by (rule card_mono) (auto simp: words_in_bank_def)
    also have "\<dots> \<le> card (set addrs)" by (rule card_image_le) simp
    also have "\<dots> \<le> length addrs" by (rule card_length)
    finally show ?thesis .
  qed
  then have "fullest_bank (shm_num_banks m) addrs \<le> length addrs"
    using False unfolding fullest_bank_def by (subst Max_le_iff) auto
  then show ?thesis using False bank_conflicts_eq[of addrs m] by simp
qed

end
