(* ===== verification/Replacement.thy ===== *)
theory Replacement
  imports Prelude
begin

text \<open>
  The replacement policies of the caches (\<^verbatim>\<open>include/memory/replacement_policy.hpp\<close> and
  \<^verbatim>\<open>src/memory/{lru,fifo,random}_policy.cpp\<close>): the state of each policy, its two virtual
  methods, and the locale \<open>replacement_policy\<close> with the laws a cache set relies on.
  \<open>policy\<close> is the object behind the \<open>unique_ptr\<close>; its operations are the virtual dispatch.
\<close>

record cache_line =
  cl_valid :: bool
  cl_tag :: nat
  cl_dirty :: bool

definition new_cache_line :: cache_line where
  "new_cache_line = \<lparr>cl_valid = False, cl_tag = 0, cl_dirty = False\<rparr>"

section \<open>LRU\<close>

text \<open>Front of \<open>lru_list\<close> is the most recently used way.\<close>

record lru_policy =
  lru_associativity :: size_t
  lru_list :: "size_t list"

definition new_lru_policy :: "size_t \<Rightarrow> lru_policy" where
  "new_lru_policy n = \<lparr>lru_associativity = n, lru_list = [0..<n]\<rparr>"

definition lru_choose_victim :: "lru_policy \<Rightarrow> cache_line list \<Rightarrow> (size_t \<times> lru_policy) result" where
  "lru_choose_victim p ls =
     (if lru_list p = [] then Inl (Runtime_error ''LRU list is empty'')
      else case first_index (\<lambda>l. \<not> cl_valid l) ls of
             Some i \<Rightarrow> Inr (i, p)
           | None \<Rightarrow> Inr (last (lru_list p), p))"

definition lru_on_access :: "lru_policy \<Rightarrow> size_t \<Rightarrow> lru_policy result" where
  "lru_on_access p way =
     (if way \<in> set (lru_list p)
      then Inr (p\<lparr>lru_list := way # remove1 way (lru_list p)\<rparr>)
      else Inr p)"

section \<open>FIFO\<close>

record fifo_policy =
  fifo_associativity :: size_t
  fifo_queue :: "size_t list"
  fifo_in_queue :: "bool list"

definition new_fifo_policy :: "size_t \<Rightarrow> fifo_policy" where
  "new_fifo_policy n = \<lparr>fifo_associativity = n, fifo_queue = [], fifo_in_queue = replicate n False\<rparr>"

definition fifo_choose_victim :: "fifo_policy \<Rightarrow> cache_line list \<Rightarrow> (size_t \<times> fifo_policy) result" where
  "fifo_choose_victim p ls =
     (case first_index (\<lambda>l. \<not> cl_valid l) ls of
        Some i \<Rightarrow> Inr (i, p)
      | None \<Rightarrow>
          (case fifo_queue p of
             [] \<Rightarrow> Inl (Runtime_error ''FIFO queue is empty but cache is full'')
           | victim # rest \<Rightarrow>
               if victim < length (fifo_in_queue p)
               then Inr (victim, p\<lparr>fifo_queue := rest, fifo_in_queue := (fifo_in_queue p)[victim := False]\<rparr>)
               else Inl (Undefined ''in_queue_[victim]'')))"

definition fifo_on_access :: "fifo_policy \<Rightarrow> size_t \<Rightarrow> fifo_policy result" where
  "fifo_on_access p way =
     (if way < length (fifo_in_queue p)
      then Inr (if \<not> fifo_in_queue p ! way
                then p\<lparr>fifo_queue := fifo_queue p @ [way], fifo_in_queue := (fifo_in_queue p)[way := True]\<rparr>
                else p)
      else Inl (Undefined ''in_queue_[way]''))"

section \<open>Random\<close>

text \<open>
  \<open>std::uniform_int_distribution\<close> is implementation-defined: \<open>rng_dist k n\<close> stands for
  the value the \<open>k\<close>-th draw from \<open>[0, n - 1]\<close> returns, and \<open>rng_pos\<close> counts the draws
  made. Its documented range is the hypothesis \<open>random_range\<close>.
\<close>

record random_policy =
  rng_pos :: nat
  rng_dist :: "nat \<Rightarrow> nat \<Rightarrow> nat"

definition new_random_policy :: "(nat \<Rightarrow> nat \<Rightarrow> nat) \<Rightarrow> random_policy" where
  "new_random_policy dist = \<lparr>rng_pos = 0, rng_dist = dist\<rparr>"

definition random_range :: "(nat \<Rightarrow> nat \<Rightarrow> nat) \<Rightarrow> bool" where
  "random_range dist \<longleftrightarrow> (\<forall>k n. 0 < n \<longrightarrow> dist k n < n)"

definition random_choose_victim :: "random_policy \<Rightarrow> cache_line list \<Rightarrow> (size_t \<times> random_policy) result" where
  "random_choose_victim p ls =
     (if ls = [] then Inl (Runtime_error ''Cache set is empty'')
      else case first_index (\<lambda>l. \<not> cl_valid l) ls of
             Some i \<Rightarrow> Inr (i, p)
           | None \<Rightarrow>
               let valid_ways = [0..<length ls];
                   k = rng_dist p (rng_pos p) (length valid_ways)
               in if k < length valid_ways
                  then Inr (valid_ways ! k, p\<lparr>rng_pos := rng_pos p + 1\<rparr>)
                  else Inl (Undefined ''valid_ways[dist(rng)]''))"

definition random_on_access :: "random_policy \<Rightarrow> size_t \<Rightarrow> random_policy result" where
  "random_on_access p way = Inr p"

section \<open>Virtual dispatch\<close>

datatype policy = LRU lru_policy | FIFO fifo_policy | Random random_policy

fun choose_victim :: "policy \<Rightarrow> cache_line list \<Rightarrow> (size_t \<times> policy) result" where
  "choose_victim (LRU p) ls = bindE (lru_choose_victim p ls) (\<lambda>(w, p'). Inr (w, LRU p'))"
| "choose_victim (FIFO p) ls = bindE (fifo_choose_victim p ls) (\<lambda>(w, p'). Inr (w, FIFO p'))"
| "choose_victim (Random p) ls = bindE (random_choose_victim p ls) (\<lambda>(w, p'). Inr (w, Random p'))"

fun on_access :: "policy \<Rightarrow> size_t \<Rightarrow> policy result" where
  "on_access (LRU p) way = bindE (lru_on_access p way) (\<lambda>p'. Inr (LRU p'))"
| "on_access (FIFO p) way = bindE (fifo_on_access p way) (\<lambda>p'. Inr (FIFO p'))"
| "on_access (Random p) way = bindE (random_on_access p way) (\<lambda>p'. Inr (Random p'))"

section \<open>One set of a cache\<close>

text \<open>
  The part of \<open>Cache::lookup_and_fill\<close> that works on one set and its policy
  (\<^verbatim>\<open>src/memory/cache.cpp\<close>), for any pair of policy operations: linear search for a valid
  line with the tag; on a miss the policy's victim is overwritten.
\<close>

record cache_access_result =
  car_hit :: bool
  car_eviction :: bool
  car_dirty_eviction :: bool

definition set_access ::
    "('p \<Rightarrow> cache_line list \<Rightarrow> (size_t \<times> 'p) result) \<Rightarrow> ('p \<Rightarrow> size_t \<Rightarrow> 'p result)
     \<Rightarrow> 'p \<Rightarrow> cache_line list \<Rightarrow> nat \<Rightarrow> bool
     \<Rightarrow> (cache_access_result \<times> size_t \<times> 'p \<times> cache_line list) result" where
  "set_access pick acc p ls t is_write =
     (case first_index (\<lambda>l. cl_valid l \<and> cl_tag l = t) ls of
        Some way \<Rightarrow>
          bindE (acc p way) (\<lambda>p'.
            Inr (\<lparr>car_hit = True, car_eviction = False, car_dirty_eviction = False\<rparr>, way, p',
                 if is_write then ls[way := (ls ! way)\<lparr>cl_dirty := True\<rparr>] else ls))
      | None \<Rightarrow>
          bindE (pick p ls) (\<lambda>(victim_way, p').
            if victim_way < length ls then
              bindE (acc p' victim_way) (\<lambda>p2.
                Inr (\<lparr>car_hit = False,
                       car_eviction = cl_valid (ls ! victim_way),
                       car_dirty_eviction = (cl_valid (ls ! victim_way) \<and> cl_dirty (ls ! victim_way))\<rparr>,
                     victim_way, p2,
                     ls[victim_way := \<lparr>cl_valid = True, cl_tag = t, cl_dirty = is_write\<rparr>]))
            else Inl (Undefined ''set[victim_way]'')))"

text \<open>What a set holds: the tags of its valid lines, and no tag twice.\<close>

definition valid_tags :: "cache_line list \<Rightarrow> nat set" where
  "valid_tags ls = cl_tag ` {l \<in> set ls. cl_valid l}"

definition tags_distinct :: "cache_line list \<Rightarrow> bool" where
  "tags_distinct ls \<longleftrightarrow>
     (\<forall>i < length ls. \<forall>j < length ls.
        cl_valid (ls ! i) \<and> cl_valid (ls ! j) \<and> cl_tag (ls ! i) = cl_tag (ls ! j) \<longrightarrow> i = j)"

lemma tags_distinctD:
  "tags_distinct ls \<Longrightarrow> i < length ls \<Longrightarrow> j < length ls \<Longrightarrow> cl_valid (ls ! i) \<Longrightarrow> cl_valid (ls ! j) \<Longrightarrow>
   cl_tag (ls ! i) = cl_tag (ls ! j) \<Longrightarrow> i = j"
  by (auto simp: tags_distinct_def)

lemma tags_distinct_fill:
  assumes "tags_distinct ls" and "t \<notin> valid_tags ls"
  shows "tags_distinct (ls[w := \<lparr>cl_valid = True, cl_tag = t, cl_dirty = d\<rparr>])"
proof -
  have no: "cl_tag (ls ! i) \<noteq> t" if "i < length ls" "cl_valid (ls ! i)" for i
    using assms(2) that by (auto simp: valid_tags_def)
  show ?thesis
  proof (cases "w < length ls")
    case True
    then show ?thesis
      using tags_distinctD[OF assms(1)] no by (auto simp: tags_distinct_def nth_list_update)
  qed (simp add: assms(1) list_update_beyond)
qed

lemma tags_distinct_dirty:
  assumes "tags_distinct ls" shows "tags_distinct (ls[w := (ls ! w)\<lparr>cl_dirty := d\<rparr>])"
proof -
  let ?ls' = "ls[w := (ls ! w)\<lparr>cl_dirty := d\<rparr>]"
  have "cl_valid (?ls' ! i) = cl_valid (ls ! i) \<and> cl_tag (?ls' ! i) = cl_tag (ls ! i)" for i
    by (cases "w < length ls"; cases "i = w") (simp_all add: list_update_beyond)
  with assms show ?thesis by (simp add: tags_distinct_def)
qed

lemma set_lookup_None:
  "first_index (\<lambda>l. cl_valid l \<and> cl_tag l = t) ls = None \<longleftrightarrow> t \<notin> valid_tags ls"
  by (auto simp: first_index_None_iff valid_tags_def)

lemma set_lookup_Some:
  assumes "tags_distinct ls" and "w < length ls" and "cl_valid (ls ! w)" and "cl_tag (ls ! w) = t"
  shows "first_index (\<lambda>l. cl_valid l \<and> cl_tag l = t) ls = Some w"
proof -
  have "ls ! w \<in> set ls" using assms(2) by simp
  then obtain i where i: "first_index (\<lambda>l. cl_valid l \<and> cl_tag l = t) ls = Some i"
    using assms(3,4) first_index_ex[of ls "\<lambda>l. cl_valid l \<and> cl_tag l = t"] by blast
  from first_index_SomeD[OF i] tags_distinctD[OF assms(1)] assms(2-4) have "i = w" by metis
  with i show ?thesis by simp
qed

lemma valid_tags_nth: "u \<in> valid_tags ls \<longleftrightarrow> (\<exists>i < length ls. cl_valid (ls ! i) \<and> cl_tag (ls ! i) = u)"
  by (force simp: valid_tags_def in_set_conv_nth)

lemma valid_tags_dirty: "valid_tags (ls[w := (ls ! w)\<lparr>cl_dirty := d\<rparr>]) = valid_tags ls"
proof -
  let ?ls' = "ls[w := (ls ! w)\<lparr>cl_dirty := d\<rparr>]"
  have "cl_valid (?ls' ! i) = cl_valid (ls ! i) \<and> cl_tag (?ls' ! i) = cl_tag (ls ! i)" for i
    by (cases "w < length ls"; cases "i = w") (simp_all add: list_update_beyond)
  then show ?thesis by (simp add: set_eq_iff valid_tags_nth)
qed

section \<open>The contract of a policy\<close>

text \<open>
  \<open>inv p ls\<close> relates a policy to the lines of its set. It looks at the valid bits only. A
  policy must always name a way of the set, must prefer an empty way, and must be back in step
  with the set once the cache has filled the way and reported the access.
\<close>

locale replacement_policy =
  fixes pick :: "'p \<Rightarrow> cache_line list \<Rightarrow> (size_t \<times> 'p) result"
    and acc :: "'p \<Rightarrow> size_t \<Rightarrow> 'p result"
    and inv :: "'p \<Rightarrow> cache_line list \<Rightarrow> bool"
  assumes choose_total: "inv p ls \<Longrightarrow> ls \<noteq> [] \<Longrightarrow> \<exists>w p'. pick p ls = Inr (w, p') \<and> w < length ls"
    and choose_empty_way:
      "inv p ls \<Longrightarrow> pick p ls = Inr (w, p') \<Longrightarrow> \<exists>l \<in> set ls. \<not> cl_valid l \<Longrightarrow> \<not> cl_valid (ls ! w)"
    and fill: "inv p ls \<Longrightarrow> pick p ls = Inr (w, p') \<Longrightarrow> w < length ls \<Longrightarrow> cl_valid l \<Longrightarrow>
      \<exists>p2. acc p' w = Inr p2 \<and> inv p2 (ls[w := l])"
    and touch: "inv p ls \<Longrightarrow> w < length ls \<Longrightarrow> cl_valid (ls ! w) \<Longrightarrow> \<exists>p'. acc p w = Inr p' \<and> inv p' ls"
    and inv_valid_bits: "inv p ls \<Longrightarrow> map cl_valid ls' = map cl_valid ls \<Longrightarrow> inv p ls'"
begin

lemma set_access_total:
  assumes inv: "inv p ls" and ne: "ls \<noteq> []" and dist: "tags_distinct ls"
  shows "\<exists>r w p' ls'. set_access pick acc p ls t wr = Inr (r, w, p', ls') \<and> inv p' ls' \<and>
     length ls' = length ls \<and> tags_distinct ls' \<and> w < length ls \<and>
     cl_valid (ls' ! w) \<and> cl_tag (ls' ! w) = t"
proof (cases "first_index (\<lambda>l. cl_valid l \<and> cl_tag l = t) ls")
  case (Some w)
  note w = first_index_SomeD[OF Some]
  obtain p' where p': "acc p w = Inr p'" "inv p' ls"
    using touch[OF inv] w by blast
  let ?ls' = "if wr then ls[w := (ls ! w)\<lparr>cl_dirty := True\<rparr>] else ls"
  have "map cl_valid ?ls' = map cl_valid ls"
    using w by (auto simp: map_update intro: list_update_same_conv[THEN iffD2])
  then have "inv p' ?ls'" by (rule inv_valid_bits[OF p'(2)])
  then show ?thesis
    using Some p' w dist by (auto simp: set_access_def tags_distinct_dirty)
next
  case None
  obtain w p1 where w: "pick p ls = Inr (w, p1)" "w < length ls"
    using choose_total[OF inv ne] by blast
  obtain p2 where p2: "acc p1 w = Inr p2"
      "inv p2 (ls[w := \<lparr>cl_valid = True, cl_tag = t, cl_dirty = wr\<rparr>])"
    using fill[OF inv w, of "\<lparr>cl_valid = True, cl_tag = t, cl_dirty = wr\<rparr>"] by auto
  have "t \<notin> valid_tags ls" using None by (simp add: set_lookup_None)
  then show ?thesis
    using None w p2 tags_distinct_fill[OF dist] by (auto simp: set_access_def)
qed

lemma set_access_hit_iff:
  "set_access pick acc p ls t wr = Inr (r, w, p', ls') \<Longrightarrow> car_hit r \<longleftrightarrow> t \<in> valid_tags ls"
  using set_lookup_None[of t ls]
  by (auto simp: set_access_def split: option.splits prod.splits if_splits)

text \<open>A line is evicted only when every way of the set is taken.\<close>

lemma set_access_eviction:
  assumes "inv p ls" and "set_access pick acc p ls t wr = Inr (r, w, p', ls')" and "car_eviction r"
  shows "\<forall>l \<in> set ls. cl_valid l"
proof -
  obtain p1 where "pick p ls = Inr (w, p1)" "cl_valid (ls ! w)"
    using assms(2,3) by (auto simp: set_access_def split: option.splits if_splits)
  then show ?thesis using choose_empty_way[OF assms(1)] by blast
qed

text \<open>The tag is present afterwards, and a tag that was present is lost only by an eviction.\<close>

lemma set_access_tags:
  assumes "set_access pick acc p ls t wr = Inr (r, w, p', ls')"
  shows "t \<in> valid_tags ls'" and "valid_tags ls' \<subseteq> insert t (valid_tags ls)"
    and "\<not> car_eviction r \<Longrightarrow> valid_tags ls' = insert t (valid_tags ls)"
proof -
  have "t \<in> valid_tags ls' \<and> valid_tags ls' \<subseteq> insert t (valid_tags ls) \<and>
      (\<not> car_eviction r \<longrightarrow> valid_tags ls' = insert t (valid_tags ls))"
  proof (cases "first_index (\<lambda>l. cl_valid l \<and> cl_tag l = t) ls")
    case (Some i)
    then have "t \<in> valid_tags ls" using set_lookup_None[of t ls] by auto
    with Some assms show ?thesis
      by (auto simp: set_access_def valid_tags_dirty split: if_splits)
  next
    case None
    then have w: "w < length ls" and ls': "ls' = ls[w := \<lparr>cl_valid = True, cl_tag = t, cl_dirty = wr\<rparr>]"
      and ev: "car_eviction r = cl_valid (ls ! w)"
      using assms by (auto simp: set_access_def split: prod.splits if_splits)
    have mem: "t \<in> valid_tags ls'"
      using set_update_memI[OF w, of "\<lparr>cl_valid = True, cl_tag = t, cl_dirty = wr\<rparr>"]
      unfolding ls' valid_tags_def by force
    have sub: "valid_tags ls' \<subseteq> insert t (valid_tags ls)"
      unfolding ls' valid_tags_def using set_update_subset_insert[of ls w] by fastforce
    have "valid_tags ls \<subseteq> valid_tags ls'" if "\<not> cl_valid (ls ! w)"
    proof
      fix u assume "u \<in> valid_tags ls"
      then obtain i where i: "i < length ls" "cl_valid (ls ! i)" "cl_tag (ls ! i) = u"
        by (auto simp: valid_tags_nth)
      with that have "i \<noteq> w" by auto
      with i show "u \<in> valid_tags ls'"
        unfolding valid_tags_nth ls' by (intro exI[of _ i]) simp
    qed
    with mem sub ev show ?thesis by auto
  qed
  then show "t \<in> valid_tags ls'" "valid_tags ls' \<subseteq> insert t (valid_tags ls)"
    "\<not> car_eviction r \<Longrightarrow> valid_tags ls' = insert t (valid_tags ls)" by auto
qed

end

section \<open>The policies keep the contract\<close>

definition lru_inv :: "lru_policy \<Rightarrow> cache_line list \<Rightarrow> bool" where
  "lru_inv p ls \<longleftrightarrow> distinct (lru_list p) \<and> set (lru_list p) = {..<length ls}"

definition fifo_inv :: "fifo_policy \<Rightarrow> cache_line list \<Rightarrow> bool" where
  "fifo_inv p ls \<longleftrightarrow>
     fifo_in_queue p = map cl_valid ls \<and> distinct (fifo_queue p) \<and>
     set (fifo_queue p) = {i. i < length ls \<and> cl_valid (ls ! i)}"

definition random_inv :: "random_policy \<Rightarrow> cache_line list \<Rightarrow> bool" where
  "random_inv p ls \<longleftrightarrow> random_range (rng_dist p)"

fun policy_inv :: "policy \<Rightarrow> cache_line list \<Rightarrow> bool" where
  "policy_inv (LRU p) ls = lru_inv p ls"
| "policy_inv (FIFO p) ls = fifo_inv p ls"
| "policy_inv (Random p) ls = random_inv p ls"

lemma length_valid_bits: "map cl_valid ls' = map cl_valid ls \<Longrightarrow> length ls' = length ls"
  by (metis length_map)

lemma nth_valid_bits:
  "map cl_valid ls' = map cl_valid ls \<Longrightarrow> i < length ls \<Longrightarrow> cl_valid (ls' ! i) = cl_valid (ls ! i)"
  by (metis length_valid_bits nth_map)

lemma lru_list_ne:
  assumes "lru_inv p ls" and "ls \<noteq> []" shows "lru_list p \<noteq> []"
proof -
  have "0 \<in> set (lru_list p)" using assms by (simp add: lru_inv_def)
  then show ?thesis by auto
qed

lemma lru_on_access_inv:
  "lru_inv p ls \<Longrightarrow> w < length ls \<Longrightarrow> length ls' = length ls \<Longrightarrow>
   \<exists>p'. lru_on_access p w = Inr p' \<and> lru_inv p' ls'"
  by (auto simp: lru_inv_def lru_on_access_def)

interpretation lru: replacement_policy lru_choose_victim lru_on_access lru_inv
proof unfold_locales
  fix p ls assume "lru_inv p ls" and "ls \<noteq> []"
  then show "\<exists>w p'. lru_choose_victim p ls = Inr (w, p') \<and> w < length ls"
    using lru_list_ne[of p ls] last_in_set[of "lru_list p"]
    by (auto simp: lru_choose_victim_def lru_inv_def split: option.splits dest: first_index_SomeD)
next
  fix p ls w p' assume "lru_choose_victim p ls = Inr (w, p')" and "\<exists>l \<in> set ls. \<not> cl_valid l"
  then show "\<not> cl_valid (ls ! w)"
    by (auto simp: lru_choose_victim_def first_index_None_iff split: option.splits if_splits
        dest: first_index_SomeD)
next
  fix p ls w p' and l :: cache_line
  assume inv: "lru_inv p ls" and ch: "lru_choose_victim p ls = Inr (w, p')" and w: "w < length ls"
  have "p' = p" using ch by (auto simp: lru_choose_victim_def split: option.splits if_splits)
  with lru_on_access_inv[OF inv w, of "ls[w := l]"]
  show "\<exists>p2. lru_on_access p' w = Inr p2 \<and> lru_inv p2 (ls[w := l])" by simp
next
  fix p ls w assume "lru_inv p ls" and "w < length ls"
  then show "\<exists>p'. lru_on_access p w = Inr p' \<and> lru_inv p' ls"
    by (rule lru_on_access_inv) simp
next
  fix p and ls ls' :: "cache_line list" assume "lru_inv p ls" and "map cl_valid ls' = map cl_valid ls"
  then show "lru_inv p ls'"
    using length_valid_bits[of ls' ls] by (simp add: lru_inv_def)
qed

interpretation fifo: replacement_policy fifo_choose_victim fifo_on_access fifo_inv
proof unfold_locales
  fix p ls assume inv: "fifo_inv p ls" and ne: "ls \<noteq> []"
  show "\<exists>w p'. fifo_choose_victim p ls = Inr (w, p') \<and> w < length ls"
  proof (cases "first_index (\<lambda>l. \<not> cl_valid l) ls")
    case None
    then have "0 \<in> set (fifo_queue p)"
      using inv ne by (auto simp: fifo_inv_def first_index_None_iff)
    then obtain v vs where "fifo_queue p = v # vs" by (cases "fifo_queue p") auto
    moreover from this have "v < length ls" using inv by (auto simp: fifo_inv_def)
    ultimately show ?thesis using None inv by (auto simp: fifo_choose_victim_def fifo_inv_def)
  next
    case (Some i)
    then show ?thesis using first_index_SomeD[OF Some] by (auto simp: fifo_choose_victim_def)
  qed
next
  fix p ls w p' assume "fifo_choose_victim p ls = Inr (w, p')" and "\<exists>l \<in> set ls. \<not> cl_valid l"
  then show "\<not> cl_valid (ls ! w)"
    by (auto simp: fifo_choose_victim_def first_index_None_iff split: option.splits
        dest: first_index_SomeD)
next
  fix p ls w p' and l :: cache_line
  assume inv: "fifo_inv p ls" and ch: "fifo_choose_victim p ls = Inr (w, p')"
    and w: "w < length ls" and l: "cl_valid l"
  show "\<exists>p2. fifo_on_access p' w = Inr p2 \<and> fifo_inv p2 (ls[w := l])"
  proof (cases "first_index (\<lambda>l. \<not> cl_valid l) ls")
    case (Some i)
    then have "p' = p" "\<not> cl_valid (ls ! w)"
      using ch first_index_SomeD[OF Some] by (auto simp: fifo_choose_victim_def)
    then show ?thesis
      using inv w l by (auto simp: fifo_on_access_def fifo_inv_def map_update nth_list_update)
  next
    case None
    then obtain rest where q: "fifo_queue p = w # rest"
      and p': "p' = p\<lparr>fifo_queue := rest, fifo_in_queue := (fifo_in_queue p)[w := False]\<rparr>"
      using ch by (auto simp: fifo_choose_victim_def split: list.splits if_splits)
    have rest: "w \<notin> set rest" "distinct rest"
      "set rest = {i. i < length ls \<and> cl_valid (ls ! i)} - {w}"
      using inv q by (auto simp: fifo_inv_def)
    then show ?thesis
      using inv w l p' q
      by (auto simp: fifo_on_access_def fifo_inv_def map_update nth_list_update)
  qed
next
  fix p ls w assume "fifo_inv p ls" and "w < length ls" and "cl_valid (ls ! w)"
  then show "\<exists>p'. fifo_on_access p w = Inr p' \<and> fifo_inv p' ls"
    by (auto simp: fifo_on_access_def fifo_inv_def)
next
  fix p and ls ls' :: "cache_line list" assume "fifo_inv p ls" and bits: "map cl_valid ls' = map cl_valid ls"
  then show "fifo_inv p ls'"
    using length_valid_bits[OF bits] nth_valid_bits[OF bits] by (auto simp: fifo_inv_def)
qed

interpretation random: replacement_policy random_choose_victim random_on_access random_inv
proof unfold_locales
  fix p ls assume "random_inv p ls" and "ls \<noteq> []"
  then show "\<exists>w p'. random_choose_victim p ls = Inr (w, p') \<and> w < length ls"
    by (auto simp: random_choose_victim_def random_inv_def random_range_def Let_def
        split: option.splits dest: first_index_SomeD)
next
  fix p ls w p' assume "random_choose_victim p ls = Inr (w, p')" and "\<exists>l \<in> set ls. \<not> cl_valid l"
  then show "\<not> cl_valid (ls ! w)"
    by (auto simp: random_choose_victim_def first_index_None_iff split: option.splits if_splits
        dest: first_index_SomeD)
next
  fix p ls w p' and l :: cache_line
  assume "random_inv p ls" and "random_choose_victim p ls = Inr (w, p')"
  then show "\<exists>p2. random_on_access p' w = Inr p2 \<and> random_inv p2 (ls[w := l])"
    by (auto simp: random_choose_victim_def random_on_access_def random_inv_def Let_def
        split: option.splits if_splits)
qed (auto simp: random_on_access_def random_inv_def)

interpretation pol: replacement_policy choose_victim on_access policy_inv
proof unfold_locales
  fix p ls assume "policy_inv p ls" and "ls \<noteq> []"
  then show "\<exists>w p'. choose_victim p ls = Inr (w, p') \<and> w < length ls"
    using lru.choose_total fifo.choose_total random.choose_total
    by (cases p) (fastforce split: prod.splits)+
next
  fix p ls w p'
  assume "policy_inv p ls" and "choose_victim p ls = Inr (w, p')" and "\<exists>l \<in> set ls. \<not> cl_valid l"
  then show "\<not> cl_valid (ls ! w)"
    using lru.choose_empty_way[of _ ls w] fifo.choose_empty_way[of _ ls w]
      random.choose_empty_way[of _ ls w]
    by (cases p) (auto split: prod.splits; blast)+
next
  fix p ls w p' and l :: cache_line
  assume "policy_inv p ls" and "choose_victim p ls = Inr (w, p')" and "w < length ls" and "cl_valid l"
  then show "\<exists>p2. on_access p' w = Inr p2 \<and> policy_inv p2 (ls[w := l])"
    using lru.fill fifo.fill random.fill
    by (cases p) (fastforce split: prod.splits)+
next
  fix p ls w assume "policy_inv p ls" and "w < length ls" and "cl_valid (ls ! w)"
  then show "\<exists>p'. on_access p w = Inr p' \<and> policy_inv p' ls"
    using lru.touch fifo.touch random.touch by (cases p) fastforce+
next
  fix p and ls ls' :: "cache_line list" assume "policy_inv p ls" and "map cl_valid ls' = map cl_valid ls"
  then show "policy_inv p ls'"
    using lru.inv_valid_bits fifo.inv_valid_bits random.inv_valid_bits by (cases p) auto
qed

end
