(* ===== verification/Replacement_Spec.thy ===== *)
theory Replacement_Spec
  imports Replacement
begin

text \<open>
  What the policies promise, as abstract machines over the contents of one set: LRU is a stack
  of (tag, dirty) pairs ordered by recency, FIFO a queue of them in order of arrival. The
  refinement lemmas say that a set of the cache under each policy steps exactly like its
  machine, results included; the LRU machine then gives the stack inclusion property.
\<close>

definition hit_result :: cache_access_result where
  "hit_result = \<lparr>car_hit = True, car_eviction = False, car_dirty_eviction = False\<rparr>"

definition miss_result :: cache_access_result where
  "miss_result = \<lparr>car_hit = False, car_eviction = False, car_dirty_eviction = False\<rparr>"

definition evict_result :: "bool \<Rightarrow> cache_access_result" where
  "evict_result d = \<lparr>car_hit = False, car_eviction = True, car_dirty_eviction = d\<rparr>"

definition lru_spec ::
    "nat \<Rightarrow> nat \<Rightarrow> bool \<Rightarrow> (nat \<times> bool) list \<Rightarrow> cache_access_result \<times> (nat \<times> bool) list" where
  "lru_spec n t wr st =
     (case map_of st t of
        Some d \<Rightarrow> (hit_result, (t, d \<or> wr) # filter (\<lambda>(u, _). u \<noteq> t) st)
      | None \<Rightarrow>
          if length st < n then (miss_result, (t, wr) # st)
          else (evict_result (snd (last st)), (t, wr) # butlast st))"

definition fifo_spec ::
    "nat \<Rightarrow> nat \<Rightarrow> bool \<Rightarrow> (nat \<times> bool) list \<Rightarrow> cache_access_result \<times> (nat \<times> bool) list" where
  "fifo_spec n t wr st =
     (if t \<in> fst ` set st then (hit_result, map (\<lambda>(u, d). (u, d \<or> (u = t \<and> wr))) st)
      else if length st < n then (miss_result, st @ [(t, wr)])
      else (evict_result (snd (hd st)), tl st @ [(t, wr)]))"

definition line_view :: "cache_line list \<Rightarrow> size_t \<Rightarrow> nat \<times> bool" where
  "line_view ls w = (cl_tag (ls ! w), cl_dirty (ls ! w))"

definition lru_view :: "lru_policy \<Rightarrow> cache_line list \<Rightarrow> (nat \<times> bool) list" where
  "lru_view p ls = map (line_view ls) (filter (\<lambda>w. cl_valid (ls ! w)) (lru_list p))"

definition fifo_view :: "fifo_policy \<Rightarrow> cache_line list \<Rightarrow> (nat \<times> bool) list" where
  "fifo_view p ls = map (line_view ls) (fifo_queue p)"

lemma fst_line_view [simp]: "fst (line_view ls w) = cl_tag (ls ! w)"
  by (simp add: line_view_def)

lemma line_view_other: "v \<noteq> w \<Longrightarrow> line_view (ls[w := l]) v = line_view ls v"
  by (simp add: line_view_def)

lemma map_line_view_other: "w \<notin> set ws \<Longrightarrow> map (line_view (ls[w := l])) ws = map (line_view ls) ws"
  by (metis (no_types, lifting) line_view_other map_cong)

lemma distinct_views:
  assumes "tags_distinct ls" and "distinct ws" and "\<And>w. w \<in> set ws \<Longrightarrow> w < length ls \<and> cl_valid (ls ! w)"
  shows "distinct (map fst (map (line_view ls) ws))"
  using assms tags_distinctD[OF assms(1)]
  by (auto simp: distinct_map inj_on_def)

section \<open>LRU is a recency stack\<close>

lemma lru_list_props:
  assumes "lru_inv p ls"
  shows "distinct (lru_list p)" "\<And>w. w \<in> set (lru_list p) \<longleftrightarrow> w < length ls" "length (lru_list p) = length ls"
proof -
  show d: "distinct (lru_list p)" and "\<And>w. w \<in> set (lru_list p) \<longleftrightarrow> w < length ls"
    using assms by (auto simp: lru_inv_def)
  show "length (lru_list p) = length ls"
    using distinct_card[OF d] assms by (simp add: lru_inv_def)
qed

lemma lru_view_tags:
  assumes "lru_inv p ls"
  shows "fst ` set (lru_view p ls) = valid_tags ls"
  using lru_list_props(2)[OF assms]
  by (force simp: lru_view_def valid_tags_nth image_iff)

lemma lru_view_distinct:
  "lru_inv p ls \<Longrightarrow> tags_distinct ls \<Longrightarrow> distinct (map fst (lru_view p ls))"
  unfolding lru_view_def by (rule distinct_views) (auto simp: lru_inv_def)

lemma lru_view_length: "lru_inv p ls \<Longrightarrow> length (lru_view p ls) \<le> length ls"
  using length_filter_le[of "\<lambda>w. cl_valid (ls ! w)" "lru_list p"]
  by (simp add: lru_view_def lru_list_props(3))

lemma lru_acc_list:
  "w \<in> set (lru_list p) \<Longrightarrow> distinct (lru_list p) \<Longrightarrow>
   lru_on_access p w = Inr (p\<lparr>lru_list := w # filter (\<lambda>v. v \<noteq> w) (lru_list p)\<rparr>)"
  by (simp add: lru_on_access_def distinct_remove1_removeAll removeAll_filter_not_eq eq_commute)

lemma lru_view_after:
  assumes "distinct L" and "w < length ls" and "cl_valid l"
  shows "lru_view (p\<lparr>lru_list := w # filter (\<lambda>v. v \<noteq> w) L\<rparr>) (ls[w := l]) =
     (cl_tag l, cl_dirty l) # map (line_view ls) (filter (\<lambda>v. v \<noteq> w \<and> cl_valid (ls ! v)) L)"
proof -
  have "filter (\<lambda>v. cl_valid (ls[w := l] ! v)) (filter (\<lambda>v. v \<noteq> w) L)
      = filter (\<lambda>v. v \<noteq> w \<and> cl_valid (ls ! v)) L"
    by (auto intro!: filter_cong)
  moreover have "map (line_view (ls[w := l])) (filter (\<lambda>v. v \<noteq> w \<and> cl_valid (ls ! v)) L)
      = map (line_view ls) (filter (\<lambda>v. v \<noteq> w \<and> cl_valid (ls ! v)) L)"
    by (rule map_line_view_other) simp
  ultimately show ?thesis
    using assms by (simp add: lru_view_def line_view_def[of _ w])
qed

lemma lru_refines_hit:
  assumes inv: "lru_inv p ls" and dist: "tags_distinct ls"
    and w: "w < length ls" "cl_valid (ls ! w)" "cl_tag (ls ! w) = t"
    and l: "l = (if wr then (ls ! w)\<lparr>cl_dirty := True\<rparr> else ls ! w)"
  shows "lru_spec n t wr (lru_view p ls) =
    (hit_result, lru_view (p\<lparr>lru_list := w # filter (\<lambda>v. v \<noteq> w) (lru_list p)\<rparr>) (ls[w := l]))"
proof -
  note L = lru_list_props[OF inv]
  have "line_view ls w \<in> set (lru_view p ls)"
    using w L(2) by (auto simp: lru_view_def)
  then have mo: "map_of (lru_view p ls) t = Some (cl_dirty (ls ! w))"
    using lru_view_distinct[OF inv dist] w(3) by (simp add: line_view_def)
  have "cl_tag (ls ! v) = t \<longleftrightarrow> v = w" if "v \<in> set (lru_list p)" "cl_valid (ls ! v)" for v
    using that L(2) tags_distinctD[OF dist, of v w] w by auto
  then have "filter (\<lambda>v. cl_tag (ls ! v) \<noteq> t) (filter (\<lambda>v. cl_valid (ls ! v)) (lru_list p))
      = filter (\<lambda>v. v \<noteq> w \<and> cl_valid (ls ! v)) (lru_list p)"
    by (auto intro!: filter_cong)
  then have "filter (\<lambda>(u, _). u \<noteq> t) (lru_view p ls)
      = map (line_view ls) (filter (\<lambda>v. v \<noteq> w \<and> cl_valid (ls ! v)) (lru_list p))"
    by (simp add: lru_view_def filter_map comp_def line_view_def)
  then show ?thesis
    using mo l w lru_view_after[OF L(1) w(1), of l p] by (auto simp: lru_spec_def)
qed

lemma lru_refines_miss:
  assumes inv: "lru_inv p ls" and t: "t \<notin> valid_tags ls"
    and ch: "lru_choose_victim p ls = Inr (w, p')" and w: "w < length ls"
  shows "lru_spec (length ls) t wr (lru_view p ls) =
    (\<lparr>car_hit = False, car_eviction = cl_valid (ls ! w),
       car_dirty_eviction = (cl_valid (ls ! w) \<and> cl_dirty (ls ! w))\<rparr>,
     lru_view (p\<lparr>lru_list := w # filter (\<lambda>v. v \<noteq> w) (lru_list p)\<rparr>)
       (ls[w := \<lparr>cl_valid = True, cl_tag = t, cl_dirty = wr\<rparr>]))"
proof -
  note L = lru_list_props[OF inv]
  have mo: "map_of (lru_view p ls) t = None"
    using t lru_view_tags[OF inv] by (simp add: map_of_eq_None_iff)
  have after: "lru_view (p\<lparr>lru_list := w # filter (\<lambda>v. v \<noteq> w) (lru_list p)\<rparr>)
       (ls[w := \<lparr>cl_valid = True, cl_tag = t, cl_dirty = wr\<rparr>])
     = (t, wr) # map (line_view ls) (filter (\<lambda>v. v \<noteq> w \<and> cl_valid (ls ! v)) (lru_list p))"
    using lru_view_after[OF L(1) w] by simp
  show ?thesis
  proof (cases "cl_valid (ls ! w)")
    case False
    have "length (filter (\<lambda>v. cl_valid (ls ! v)) (lru_list p)) < length (lru_list p)"
      using False w L(2) by (intro length_filter_less) auto
    then have "length (lru_view p ls) < length ls" by (simp add: lru_view_def L(3))
    moreover have "filter (\<lambda>v. v \<noteq> w \<and> cl_valid (ls ! v)) (lru_list p)
        = filter (\<lambda>v. cl_valid (ls ! v)) (lru_list p)"
      using False by (auto intro!: filter_cong)
    ultimately show ?thesis
      using mo after False by (simp add: lru_spec_def miss_result_def lru_view_def)
  next
    case True
    then have none: "first_index (\<lambda>l. \<not> cl_valid l) ls = None" and last: "w = last (lru_list p)"
      and ne: "lru_list p \<noteq> []"
      using ch by (auto simp: lru_choose_victim_def split: option.splits if_splits
          dest: first_index_SomeD)
    have all: "filter (\<lambda>v. cl_valid (ls ! v)) (lru_list p) = lru_list p"
      using none L(2) by (auto simp: first_index_None_iff filter_id_conv)
    have split: "lru_list p = butlast (lru_list p) @ [w]" using ne last by simp
    then have "w \<notin> set (butlast (lru_list p))"
      using L(1) by (metis distinct_append disjoint_iff list.set_intros(1))
    then have "filter (\<lambda>v. v \<noteq> w) (lru_list p) = butlast (lru_list p)"
      by (subst split) (auto simp: filter_id_conv)
    moreover have "filter (\<lambda>v. v \<noteq> w \<and> cl_valid (ls ! v)) (lru_list p)
        = filter (\<lambda>v. v \<noteq> w) (filter (\<lambda>v. cl_valid (ls ! v)) (lru_list p))"
      by (simp add: filter_filter conj_commute)
    moreover have "\<not> length (lru_view p ls) < length ls"
      using all by (simp add: lru_view_def L(3))
    moreover have "snd (last (lru_view p ls)) = cl_dirty (ls ! w)"
      using ne last all by (simp add: lru_view_def last_map line_view_def)
    ultimately show ?thesis
      using mo after True all
      by (simp add: lru_spec_def evict_result_def lru_view_def map_butlast)
  qed
qed

lemma lru_set_refines:
  assumes inv: "lru_inv p ls" and dist: "tags_distinct ls"
    and run: "set_access lru_choose_victim lru_on_access p ls t wr = Inr (r, w, p', ls')"
  shows "lru_spec (length ls) t wr (lru_view p ls) = (r, lru_view p' ls')"
proof (cases "first_index (\<lambda>l. cl_valid l \<and> cl_tag l = t) ls")
  case (Some v)
  note v = first_index_SomeD[OF Some]
  have "v \<in> set (lru_list p)" using v lru_list_props[OF inv] by simp
  then have "p' = p\<lparr>lru_list := v # filter (\<lambda>u. u \<noteq> v) (lru_list p)\<rparr>" "r = hit_result"
    "ls' = ls[v := (if wr then (ls ! v)\<lparr>cl_dirty := True\<rparr> else ls ! v)]"
    using run Some lru_acc_list[of v p] lru_list_props(1)[OF inv]
    by (auto simp: set_access_def hit_result_def split: if_splits)
  then show ?thesis
    using lru_refines_hit[OF inv dist, of v t _ wr] v by simp
next
  case None
  then have t: "t \<notin> valid_tags ls" by (simp add: set_lookup_None)
  from run None obtain p1 where ch: "lru_choose_victim p ls = Inr (w, p1)" "w < length ls"
    and acc: "lru_on_access p1 w = Inr p'"
    and r: "r = \<lparr>car_hit = False, car_eviction = cl_valid (ls ! w),
       car_dirty_eviction = (cl_valid (ls ! w) \<and> cl_dirty (ls ! w))\<rparr>"
    and ls': "ls' = ls[w := \<lparr>cl_valid = True, cl_tag = t, cl_dirty = wr\<rparr>]"
    by (auto simp: set_access_def split: if_splits)
  have "p1 = p" using ch by (auto simp: lru_choose_victim_def split: option.splits if_splits)
  then have "p' = p\<lparr>lru_list := w # filter (\<lambda>u. u \<noteq> w) (lru_list p)\<rparr>"
    using acc lru_acc_list[of w p] lru_list_props[OF inv] ch(2) by simp
  then show ?thesis using lru_refines_miss[OF inv t ch] r ls' by simp
qed

text \<open>On tags alone one LRU step keeps the first \<open>n\<close> of the new recency order.\<close>

lemma lru_spec_tags:
  assumes "distinct (map fst st)" and "length st \<le> n" and "0 < n"
  shows "map fst (snd (lru_spec n t wr st)) = take n (t # filter (\<lambda>u. u \<noteq> t) (map fst st))"
proof (cases "map_of st t")
  case None
  then have t: "t \<notin> set (map fst st)" by (simp add: map_of_eq_None_iff)
  then have f: "filter (\<lambda>u. u \<noteq> t) (map fst st) = map fst st"
    by (auto simp: filter_id_conv)
  show ?thesis
  proof (cases "length st < n")
    case True
    with None f show ?thesis by (simp add: lru_spec_def)
  next
    case False
    then have "take n (t # map fst st) = t # butlast (map fst st)"
      using assms(2,3) by (cases n) (auto simp: butlast_conv_take)
    with False None f show ?thesis by (simp add: lru_spec_def map_butlast)
  qed
next
  case (Some d)
  then have t: "t \<in> set (map fst st)" by (metis map_of_eq_None_iff option.distinct(1) list.set_map)
  have "map fst (filter (\<lambda>(u, _). u \<noteq> t) st) = filter (\<lambda>u. u \<noteq> t) (map fst st)"
    by (induction st) auto
  moreover have "length (filter (\<lambda>u. u \<noteq> t) (map fst st)) < length (map fst st)"
    using t by (intro length_filter_less) auto
  ultimately show ?thesis using Some assms(2) by (simp add: lru_spec_def)
qed

lemma lru_spec_hit: "car_hit (fst (lru_spec n t wr st)) \<longleftrightarrow> t \<in> fst ` set st"
proof (cases "map_of st t")
  case None
  then have "t \<notin> fst ` set st" by (simp add: map_of_eq_None_iff)
  with None show ?thesis by (simp add: lru_spec_def miss_result_def evict_result_def)
next
  case (Some d)
  then have "t \<in> fst ` set st" by (metis fst_conv image_eqI map_of_SomeD)
  with Some show ?thesis by (simp add: lru_spec_def hit_result_def)
qed

lemma take_filter_take:
  assumes "distinct xs"
  shows "take k (filter (\<lambda>u. u \<noteq> t) (take (Suc k) xs)) = take k (filter (\<lambda>u. u \<noteq> t) xs)"
proof (cases "Suc k \<le> length xs")
  case True
  let ?ys = "take (Suc k) xs"
  have "length (filter (\<lambda>u. u = t) ?ys) = card (set (filter (\<lambda>u. u = t) ?ys))"
    using assms by (intro distinct_card[symmetric]) simp
  also have "\<dots> \<le> card {t}" by (rule card_mono) auto
  finally have "k \<le> length (filter (\<lambda>u. u \<noteq> t) ?ys)"
    using sum_length_filter_compl[of "\<lambda>u. u = t" ?ys] True by simp
  moreover have "filter (\<lambda>u. u \<noteq> t) xs = filter (\<lambda>u. u \<noteq> t) ?ys @ filter (\<lambda>u. u \<noteq> t) (drop (Suc k) xs)"
    by (metis append_take_drop_id filter_append)
  ultimately show ?thesis by simp
qed simp

text \<open>
  Stack inclusion: if the smaller stack holds the \<open>m\<close> most recent tags of the larger one, it
  still does after both have seen the same access.
\<close>

lemma lru_spec_inclusion:
  assumes "distinct (map fst st2)" and "length st2 \<le> n" and "0 < m" and "m \<le> n"
    and sub: "map fst st1 = take m (map fst st2)"
  shows "map fst (snd (lru_spec m t wr1 st1)) = take m (map fst (snd (lru_spec n t wr2 st2)))"
proof -
  let ?xs = "map fst st2"
  have "length st1 = length (take m ?xs)" using sub by (metis length_map)
  then have st1: "distinct (map fst st1)" "length st1 \<le> m"
    using assms(1) sub by simp_all
  obtain k where k: "m = Suc k" using assms(3) by (cases m) auto
  have "take k (filter (\<lambda>u. u \<noteq> t) (take m ?xs)) = take k (filter (\<lambda>u. u \<noteq> t) ?xs)"
    using take_filter_take[OF assms(1), of k t] k by simp
  then have "take m (t # filter (\<lambda>u. u \<noteq> t) (map fst st1)) = take m (t # filter (\<lambda>u. u \<noteq> t) ?xs)"
    using k sub by simp
  also have "\<dots> = take m (take n (t # filter (\<lambda>u. u \<noteq> t) ?xs))"
    using assms(4) by (simp add: min_def)
  finally show ?thesis
    using lru_spec_tags[OF st1 assms(3), of t wr1] lru_spec_tags[OF assms(1,2), of t wr2] assms(3,4)
    by simp
qed

section \<open>FIFO is an arrival queue\<close>

lemma fifo_view_tags:
  assumes "fifo_inv p ls"
  shows "fst ` set (fifo_view p ls) = valid_tags ls"
  using assms by (force simp: fifo_inv_def fifo_view_def valid_tags_nth image_iff)

lemma fifo_view_length:
  assumes "fifo_inv p ls"
  shows "length (fifo_view p ls) = card {i. i < length ls \<and> cl_valid (ls ! i)}"
  using assms distinct_card[of "fifo_queue p"] by (simp add: fifo_inv_def fifo_view_def)

lemma fifo_refines_hit:
  assumes inv: "fifo_inv p ls" and dist: "tags_distinct ls"
    and w: "w < length ls" "cl_valid (ls ! w)" "cl_tag (ls ! w) = t"
    and l: "l = (if wr then (ls ! w)\<lparr>cl_dirty := True\<rparr> else ls ! w)"
  shows "fifo_spec n t wr (fifo_view p ls) = (hit_result, fifo_view p (ls[w := l]))"
proof -
  have "t \<in> fst ` set (fifo_view p ls)"
    using w by (auto simp: fifo_view_tags[OF inv] valid_tags_nth)
  moreover have "line_view (ls[w := l]) v = (case line_view ls v of (u, d) \<Rightarrow> (u, d \<or> (u = t \<and> wr)))"
    if "v \<in> set (fifo_queue p)" for v
  proof -
    have "v < length ls" "cl_valid (ls ! v)" using inv that by (auto simp: fifo_inv_def)
    then have "cl_tag (ls ! v) = t \<longleftrightarrow> v = w"
      using tags_distinctD[OF dist, of v w] w by auto
    then show ?thesis using w l by (auto simp: line_view_def nth_list_update)
  qed
  ultimately show ?thesis by (simp add: fifo_spec_def fifo_view_def)
qed

lemma fifo_set_refines:
  assumes inv: "fifo_inv p ls" and dist: "tags_distinct ls"
    and run: "set_access fifo_choose_victim fifo_on_access p ls t wr = Inr (r, w, p', ls')"
  shows "fifo_spec (length ls) t wr (fifo_view p ls) = (r, fifo_view p' ls')"
proof (cases "first_index (\<lambda>l. cl_valid l \<and> cl_tag l = t) ls")
  case (Some v)
  note v = first_index_SomeD[OF Some]
  then have "p' = p" "r = hit_result"
    "ls' = ls[v := (if wr then (ls ! v)\<lparr>cl_dirty := True\<rparr> else ls ! v)]"
    using run Some inv
    by (auto simp: set_access_def hit_result_def fifo_on_access_def fifo_inv_def split: if_splits)
  then show ?thesis using fifo_refines_hit[OF inv dist, of v t _ wr] v by simp
next
  case None
  then have "t \<notin> valid_tags ls" by (simp add: set_lookup_None)
  then have t: "t \<notin> fst ` set (fifo_view p ls)" by (simp add: fifo_view_tags[OF inv])
  from run None obtain p1 where ch: "fifo_choose_victim p ls = Inr (w, p1)" "w < length ls"
    and acc: "fifo_on_access p1 w = Inr p'"
    and r: "r = \<lparr>car_hit = False, car_eviction = cl_valid (ls ! w),
       car_dirty_eviction = (cl_valid (ls ! w) \<and> cl_dirty (ls ! w))\<rparr>"
    and ls': "ls' = ls[w := \<lparr>cl_valid = True, cl_tag = t, cl_dirty = wr\<rparr>]"
    by (auto simp: set_access_def split: if_splits)
  have new: "line_view ls' w = (t, wr)" using ch(2) by (simp add: ls' line_view_def)
  show ?thesis
  proof (cases "first_index (\<lambda>l. \<not> cl_valid l) ls")
    case (Some i)
    then have inval: "\<not> cl_valid (ls ! w)" and p1: "p1 = p"
      using ch first_index_SomeD[OF Some] by (auto simp: fifo_choose_victim_def)
    have "w \<notin> set (fifo_queue p)" using inv inval by (simp add: fifo_inv_def)
    then have view: "fifo_view p' ls' = fifo_view p ls @ [(t, wr)]"
      using acc inv inval ch(2) new map_line_view_other[of w "fifo_queue p" ls]
      by (auto simp: p1 fifo_on_access_def fifo_inv_def fifo_view_def ls')
    have "card {i. i < length ls \<and> cl_valid (ls ! i)} < card {..<length ls}"
      using inval ch(2) by (intro psubset_card_mono) auto
    with t r view inval show ?thesis
      by (simp add: fifo_spec_def miss_result_def fifo_view_length[OF inv])
  next
    case all: None
    then obtain rest where q: "fifo_queue p = w # rest"
      and p1: "p1 = p\<lparr>fifo_queue := rest, fifo_in_queue := (fifo_in_queue p)[w := False]\<rparr>"
      using ch by (auto simp: fifo_choose_victim_def split: list.splits if_splits)
    have val: "\<forall>i < length ls. cl_valid (ls ! i)" using all by (auto simp: first_index_None_iff)
    then have "{i. i < length ls \<and> cl_valid (ls ! i)} = {..<length ls}" by auto
    then have len: "\<not> length (fifo_view p ls) < length ls" by (simp add: fifo_view_length[OF inv])
    have "w \<notin> set rest" using inv q by (simp add: fifo_inv_def)
    then have "fifo_view p' ls' = map (line_view ls) rest @ [(t, wr)]"
      using acc inv ch(2) new map_line_view_other[of w rest ls]
      by (auto simp: p1 fifo_on_access_def fifo_inv_def fifo_view_def ls')
    with t r len val ch(2) q show ?thesis
      by (simp add: fifo_spec_def evict_result_def fifo_view_def line_view_def)
  qed
qed

end
