(* ===== verification/Cache.thy ===== *)
theory Cache
  imports Replacement_Spec
begin

text \<open>
  The set-associative write-back cache of \<^verbatim>\<open>include/memory/cache.hpp\<close> and
  \<^verbatim>\<open>src/memory/cache.cpp\<close>: construction, \<open>lookup_and_fill\<close> with its statistics and event
  callback, \<open>access\<close> and \<open>write\<close>; the well-formedness invariant, the accounting laws of the
  statistics, and the cache-level form of the policy refinements.
\<close>

record cache_stats =
  cs_accesses :: nat
  cs_hits :: nat
  cs_misses :: nat
  cs_evictions :: nat
  cs_dirty_evictions :: nat

definition zero_cache_stats :: cache_stats where
  "zero_cache_stats = \<lparr>cs_accesses = 0, cs_hits = 0, cs_misses = 0, cs_evictions = 0, cs_dirty_evictions = 0\<rparr>"

record cache_event =
  ce_cycle :: size_t
  ce_cache_name :: string
  ce_set :: size_t
  ce_way :: size_t
  ce_hit :: bool

text \<open>
  \<open>ca_events\<close> is \<open>None\<close> while no callback is installed, and otherwise the list of the
  events handed to the callback so far, the first one first.
\<close>

record cache =
  ca_num_sets :: size_t
  ca_associativity :: size_t
  ca_line_size :: size_t
  ca_name :: string
  ca_events :: "cache_event list option"
  ca_stats :: cache_stats
  ca_sets :: "cache_line list list"
  ca_policies :: "policy list"

text \<open>The constructor. \<open>dist\<close> is the random distribution of the Random policy.\<close>

definition new_cache ::
    "(nat \<Rightarrow> nat \<Rightarrow> nat) \<Rightarrow> size_t \<Rightarrow> size_t \<Rightarrow> size_t \<Rightarrow> string \<Rightarrow> cache result" where
  "new_cache dist num_sets associativity line_size policy_name =
     (if num_sets = 0 \<or> associativity = 0 \<or> line_size = 0
      then Inl (Invalid_argument ''Cache dimensions must be strictly positive.'')
      else
        bindE (if policy_name = ''LRU'' then Inr (LRU (new_lru_policy associativity))
               else if policy_name = ''FIFO'' then Inr (FIFO (new_fifo_policy associativity))
               else if policy_name = ''Random'' then Inr (Random (new_random_policy dist))
               else Inl (Invalid_argument (''Unsupported replacement policy: '' @ policy_name)))
          (\<lambda>p. Inr \<lparr>ca_num_sets = num_sets, ca_associativity = associativity, ca_line_size = line_size,
                    ca_name = ''Cache'', ca_events = None, ca_stats = zero_cache_stats,
                    ca_sets = replicate num_sets (replicate associativity new_cache_line),
                    ca_policies = replicate num_sets p\<rparr>))"

definition set_cache_callback :: "cache \<Rightarrow> cache" where
  "set_cache_callback c = c\<lparr>ca_events := Some []\<rparr>"

definition ca_set_index :: "cache \<Rightarrow> size_t \<Rightarrow> size_t" where
  "ca_set_index c address = (address div ca_line_size c) mod ca_num_sets c"

definition ca_tag_of :: "cache \<Rightarrow> size_t \<Rightarrow> nat" where
  "ca_tag_of c address = (address div ca_line_size c) div ca_num_sets c"

definition count_access :: "cache_access_result \<Rightarrow> cache_stats \<Rightarrow> cache_stats" where
  "count_access r s =
     s\<lparr>cs_accesses := cs_accesses s + 1,
       cs_hits := cs_hits s + (if car_hit r then 1 else 0),
       cs_misses := cs_misses s + (if car_hit r then 0 else 1),
       cs_evictions := cs_evictions s + (if car_eviction r then 1 else 0),
       cs_dirty_evictions := cs_dirty_evictions s + (if car_dirty_eviction r then 1 else 0)\<rparr>"

text \<open>The writes of one access to the set, the policy, the statistics and the event callback.\<close>

definition commit_access ::
    "cache \<Rightarrow> size_t \<Rightarrow> size_t \<Rightarrow> cache_access_result \<Rightarrow> size_t \<Rightarrow> policy \<Rightarrow> cache_line list \<Rightarrow> cache" where
  "commit_access c cycle set_index r way p ls =
     c\<lparr>ca_stats := count_access r (ca_stats c),
       ca_sets := (ca_sets c)[set_index := ls],
       ca_policies := (ca_policies c)[set_index := p],
       ca_events := map_option
         (\<lambda>evs. evs @ [\<lparr>ce_cycle = cycle, ce_cache_name = ca_name c, ce_set = set_index,
                        ce_way = way, ce_hit = car_hit r\<rparr>]) (ca_events c)\<rparr>"

definition lookup_and_fill :: "cache \<Rightarrow> size_t \<Rightarrow> bool \<Rightarrow> size_t \<Rightarrow> (cache_access_result \<times> cache) result" where
  "lookup_and_fill c address is_write cycle =
     (let set_index = ca_set_index c address; tag = ca_tag_of c address
      in bindE (set_access choose_victim on_access (ca_policies c ! set_index) (ca_sets c ! set_index)
                  tag is_write)
           (\<lambda>(r, way, p, ls). Inr (r, commit_access c cycle set_index r way p ls)))"

definition cache_access :: "cache \<Rightarrow> size_t \<Rightarrow> size_t \<Rightarrow> (cache_access_result \<times> cache) result" where
  "cache_access c address cycle = lookup_and_fill c address False cycle"

definition cache_write :: "cache \<Rightarrow> size_t \<Rightarrow> size_t \<Rightarrow> (cache_access_result \<times> cache) result" where
  "cache_write c address cycle = lookup_and_fill c address True cycle"

text \<open>A sequence of accesses (address, is\_write), collecting the results.\<close>

fun cache_run :: "cache \<Rightarrow> (size_t \<times> bool) list \<Rightarrow> (cache_access_result list \<times> cache) result" where
  "cache_run c [] = Inr ([], c)"
| "cache_run c ((a, w) # ops) =
     bindE (lookup_and_fill c a w 0) (\<lambda>(r, c').
       bindE (cache_run c' ops) (\<lambda>(rs, c2). Inr (r # rs, c2)))"

section \<open>Invariant\<close>

definition resident_lines :: "cache \<Rightarrow> nat" where
  "resident_lines c = sum_list (map (\<lambda>ls. length (filter cl_valid ls)) (ca_sets c))"

text \<open>Every miss either filled an empty way or evicted a line, and only misses evict.\<close>

definition stats_inv :: "cache \<Rightarrow> bool" where
  "stats_inv c \<longleftrightarrow>
     cs_hits (ca_stats c) + cs_misses (ca_stats c) = cs_accesses (ca_stats c) \<and>
     cs_misses (ca_stats c) = cs_evictions (ca_stats c) + resident_lines c \<and>
     cs_dirty_evictions (ca_stats c) \<le> cs_evictions (ca_stats c)"

definition set_inv :: "size_t \<Rightarrow> policy \<Rightarrow> cache_line list \<Rightarrow> bool" where
  "set_inv n p ls \<longleftrightarrow> length ls = n \<and> tags_distinct ls \<and> policy_inv p ls"

definition cache_inv :: "cache \<Rightarrow> bool" where
  "cache_inv c \<longleftrightarrow>
     0 < ca_num_sets c \<and> 0 < ca_associativity c \<and> 0 < ca_line_size c \<and>
     length (ca_sets c) = ca_num_sets c \<and> length (ca_policies c) = ca_num_sets c \<and>
     (\<forall>i < ca_num_sets c. set_inv (ca_associativity c) (ca_policies c ! i) (ca_sets c ! i))"

definition cached :: "cache \<Rightarrow> size_t \<Rightarrow> bool" where
  "cached c a \<longleftrightarrow> ca_tag_of c a \<in> valid_tags (ca_sets c ! ca_set_index c a)"

lemma set_index_lt: "cache_inv c \<Longrightarrow> ca_set_index c a < ca_num_sets c"
  by (simp add: cache_inv_def ca_set_index_def)

lemma policy_inv_empty:
  "policy_inv (LRU (new_lru_policy n)) (replicate n new_cache_line)"
  "policy_inv (FIFO (new_fifo_policy n)) (replicate n new_cache_line)"
  "random_range dist \<Longrightarrow> policy_inv (Random (new_random_policy dist)) ls"
  by (auto simp: new_lru_policy_def new_fifo_policy_def new_random_policy_def new_cache_line_def
      lru_inv_def fifo_inv_def random_inv_def)

lemma tags_distinct_empty: "tags_distinct (replicate n new_cache_line)"
  by (simp add: tags_distinct_def new_cache_line_def)

lemma new_cache_inv:
  assumes "random_range dist" and "new_cache dist s n l pol = Inr c"
  shows "cache_inv c \<and> stats_inv c"
proof -
  have "policy_inv (ca_policies c ! i) (replicate n new_cache_line)" if "i < s" for i
    using assms that policy_inv_empty(1,2)[of n] policy_inv_empty(3)[of dist]
    by (auto simp: new_cache_def simp del: policy_inv.simps split: if_splits)
  then show ?thesis
    using assms(2) tags_distinct_empty
    by (auto simp: new_cache_def cache_inv_def set_inv_def stats_inv_def zero_cache_stats_def
        resident_lines_def new_cache_line_def sum_list_replicate split: if_splits)
qed

text \<open>What a step does to its own set; the other sets are not touched.\<close>

lemma lookup_and_fill_total:
  assumes "cache_inv c"
  shows "\<exists>r w p ls.
    lookup_and_fill c a wr cyc = Inr (r, commit_access c cyc (ca_set_index c a) r w p ls) \<and>
    set_access choose_victim on_access (ca_policies c ! ca_set_index c a)
       (ca_sets c ! ca_set_index c a) (ca_tag_of c a) wr = Inr (r, w, p, ls) \<and>
    set_inv (ca_associativity c) p ls"
proof -
  let ?i = "ca_set_index c a"
  have "set_inv (ca_associativity c) (ca_policies c ! ?i) (ca_sets c ! ?i)"
    using assms set_index_lt[OF assms] by (simp add: cache_inv_def)
  moreover from this have "ca_sets c ! ?i \<noteq> []"
    using assms by (auto simp: set_inv_def cache_inv_def)
  ultimately obtain r w p ls where
    "set_access choose_victim on_access (ca_policies c ! ?i) (ca_sets c ! ?i) (ca_tag_of c a) wr
       = Inr (r, w, p, ls)" "set_inv (ca_associativity c) p ls"
    using pol.set_access_total[of "ca_policies c ! ?i" "ca_sets c ! ?i" "ca_tag_of c a" wr]
    by (auto simp: set_inv_def)
  then show ?thesis by (auto simp: lookup_and_fill_def Let_def)
qed

lemma lookup_and_fill_InrE:
  assumes "cache_inv c" and "lookup_and_fill c a wr cyc = Inr (r, c')"
  shows "\<exists>w p ls. c' = commit_access c cyc (ca_set_index c a) r w p ls \<and>
    set_access choose_victim on_access (ca_policies c ! ca_set_index c a)
       (ca_sets c ! ca_set_index c a) (ca_tag_of c a) wr = Inr (r, w, p, ls) \<and>
    set_inv (ca_associativity c) p ls"
  using lookup_and_fill_total[OF assms(1), of a wr cyc] assms(2) by auto

lemma set_access_valid_count:
  assumes "set_access pick acc p ls t wr = Inr (r, w, p', ls')"
  shows "length (filter cl_valid ls') =
      length (filter cl_valid ls) + (if car_hit r \<or> car_eviction r then 0 else 1)"
    and "car_dirty_eviction r \<Longrightarrow> car_eviction r" and "car_hit r \<Longrightarrow> \<not> car_eviction r"
proof -
  show "length (filter cl_valid ls') =
      length (filter cl_valid ls) + (if car_hit r \<or> car_eviction r then 0 else 1)"
  proof (cases "first_index (\<lambda>l. cl_valid l \<and> cl_tag l = t) ls")
    case (Some i)
    from first_index_SomeD[OF Some] length_filter_update[of i ls cl_valid "(ls ! i)\<lparr>cl_dirty := True\<rparr>"]
    show ?thesis using assms Some by (auto simp: set_access_def split: if_splits)
  next
    case None
    then have "w < length ls" "ls' = ls[w := \<lparr>cl_valid = True, cl_tag = t, cl_dirty = wr\<rparr>]"
      "car_hit r = False" "car_eviction r = cl_valid (ls ! w)"
      using assms by (auto simp: set_access_def split: if_splits)
    with length_filter_update[of w ls cl_valid "\<lparr>cl_valid = True, cl_tag = t, cl_dirty = wr\<rparr>"]
    show ?thesis by (auto split: if_splits)
  qed
  show "car_dirty_eviction r \<Longrightarrow> car_eviction r" and "car_hit r \<Longrightarrow> \<not> car_eviction r"
    using assms by (auto simp: set_access_def split: option.splits prod.splits if_splits)
qed

definition same_geometry :: "cache \<Rightarrow> cache \<Rightarrow> bool" where
  "same_geometry c d \<longleftrightarrow> ca_num_sets d = ca_num_sets c \<and> ca_associativity d = ca_associativity c \<and>
     ca_line_size d = ca_line_size c"

lemma same_geometry_index:
  "same_geometry c d \<Longrightarrow> ca_set_index d a = ca_set_index c a \<and> ca_tag_of d a = ca_tag_of c a"
  by (simp add: same_geometry_def ca_set_index_def ca_tag_of_def)

lemma same_geometry_refl [simp]: "same_geometry c c"
  by (simp add: same_geometry_def)

lemma same_geometry_trans: "same_geometry c d \<Longrightarrow> same_geometry d e \<Longrightarrow> same_geometry c e"
  by (simp add: same_geometry_def)

lemma lookup_and_fill_inv:
  assumes inv: "cache_inv c" and run: "lookup_and_fill c a wr cyc = Inr (r, c')"
  shows "cache_inv c'" and "same_geometry c c'" and "ca_name c' = ca_name c"
    and "\<And>i. i \<noteq> ca_set_index c a \<Longrightarrow> ca_sets c' ! i = ca_sets c ! i \<and> ca_policies c' ! i = ca_policies c ! i"
    and "cached c' a" and "car_hit r \<longleftrightarrow> cached c a"
    and "stats_inv c \<Longrightarrow> stats_inv c'"
proof -
  let ?i = "ca_set_index c a"
  obtain w p ls where c': "c' = commit_access c cyc ?i r w p ls"
    and acc: "set_access choose_victim on_access (ca_policies c ! ?i) (ca_sets c ! ?i) (ca_tag_of c a) wr
      = Inr (r, w, p, ls)"
    and sinv: "set_inv (ca_associativity c) p ls"
    using lookup_and_fill_InrE[OF inv run] by blast
  note c' = c'[unfolded commit_access_def]
  have i: "?i < length (ca_sets c)" "?i < length (ca_policies c)"
    using set_index_lt[OF inv] inv by (auto simp: cache_inv_def)
  show "same_geometry c c'" by (simp add: c' same_geometry_def)
  show "ca_name c' = ca_name c" by (simp add: c')
  show "cache_inv c'"
    using inv sinv i by (auto simp: cache_inv_def c' nth_list_update)
  show "ca_sets c' ! j = ca_sets c ! j \<and> ca_policies c' ! j = ca_policies c ! j" if "j \<noteq> ?i" for j
    using that by (simp add: c')
  show "cached c' a"
    using pol.set_access_tags(1)[OF acc] i
    by (simp add: cached_def c' ca_set_index_def ca_tag_of_def)
  show "car_hit r \<longleftrightarrow> cached c a"
    using pol.set_access_hit_iff[OF acc] by (simp add: cached_def)
  note cnt = set_access_valid_count[OF acc]
  have "resident_lines c' = resident_lines c + (if car_hit r \<or> car_eviction r then 0 else 1)"
  proof -
    have "length (filter cl_valid (ca_sets c ! ?i)) \<le> resident_lines c"
      using i unfolding resident_lines_def by (intro member_le_sum_list) auto
    then show ?thesis
      using i cnt(1) by (simp add: resident_lines_def c' map_update sum_list_update)
  qed
  then show "stats_inv c \<Longrightarrow> stats_inv c'"
    using cnt(2,3) by (auto simp: stats_inv_def c' count_access_def)
qed

lemma lookup_and_fill_ok: "cache_inv c \<Longrightarrow> \<exists>r c'. lookup_and_fill c a wr cyc = Inr (r, c')"
  using lookup_and_fill_total[of c a wr cyc] by blast

lemma cache_run_inv:
  "cache_inv c \<Longrightarrow> stats_inv c \<Longrightarrow>
   \<exists>rs c'. cache_run c ops = Inr (rs, c') \<and> cache_inv c' \<and> stats_inv c' \<and> length rs = length ops"
proof (induction ops arbitrary: c)
  case Nil
  then show ?case by simp
next
  case (Cons op ops)
  obtain a w where op: "op = (a, w)" by (cases op)
  obtain r c1 where step: "lookup_and_fill c a w 0 = Inr (r, c1)"
    using lookup_and_fill_ok[OF Cons.prems(1)] by blast
  from Cons.IH[OF lookup_and_fill_inv(1,7)[OF Cons.prems(1) step]] Cons.prems(2)
  obtain rs c2 where "cache_run c1 ops = Inr (rs, c2)" "cache_inv c2" "stats_inv c2" "length rs = length ops"
    by blast
  then show ?case using op step by auto
qed

section \<open>Refinement of whole caches\<close>

definition all_lru :: "cache \<Rightarrow> bool" where
  "all_lru c \<longleftrightarrow> (\<forall>i < ca_num_sets c. \<exists>p. ca_policies c ! i = LRU p)"

definition all_fifo :: "cache \<Rightarrow> bool" where
  "all_fifo c \<longleftrightarrow> (\<forall>i < ca_num_sets c. \<exists>p. ca_policies c ! i = FIFO p)"

text \<open>The abstract content of set \<open>i\<close>: the recency stack or the arrival queue.\<close>

definition set_contents :: "cache \<Rightarrow> size_t \<Rightarrow> (nat \<times> bool) list" where
  "set_contents c i =
     (case ca_policies c ! i of
        LRU p \<Rightarrow> lru_view p (ca_sets c ! i)
      | FIFO p \<Rightarrow> fifo_view p (ca_sets c ! i)
      | Random p \<Rightarrow> [])"

lemma set_access_LRU:
  "set_access choose_victim on_access (LRU p) ls t wr = Inr (r, w, q, ls') \<longleftrightarrow>
   (\<exists>p'. q = LRU p' \<and> set_access lru_choose_victim lru_on_access p ls t wr = Inr (r, w, p', ls'))"
proof -
  have "set_access choose_victim on_access (LRU p) ls t wr =
      bindE (set_access lru_choose_victim lru_on_access p ls t wr) (\<lambda>(r, w, p', ls'). Inr (r, w, LRU p', ls'))"
    by (simp add: set_access_def bindE_def split: option.split sum.split prod.split)
  then show ?thesis by auto
qed

lemma set_access_FIFO:
  "set_access choose_victim on_access (FIFO p) ls t wr = Inr (r, w, q, ls') \<longleftrightarrow>
   (\<exists>p'. q = FIFO p' \<and> set_access fifo_choose_victim fifo_on_access p ls t wr = Inr (r, w, p', ls'))"
proof -
  have "set_access choose_victim on_access (FIFO p) ls t wr =
      bindE (set_access fifo_choose_victim fifo_on_access p ls t wr) (\<lambda>(r, w, p', ls'). Inr (r, w, FIFO p', ls'))"
    by (simp add: set_access_def bindE_def split: option.split sum.split prod.split)
  then show ?thesis by auto
qed

lemma all_lru_step:
  assumes inv: "cache_inv c" and lru: "all_lru c" and run: "lookup_and_fill c a wr cyc = Inr (r, c')"
  shows "all_lru c'" and
    "lru_spec (ca_associativity c) (ca_tag_of c a) wr (set_contents c (ca_set_index c a))
       = (r, set_contents c' (ca_set_index c a))" and
    "set_contents c' = (set_contents c)(ca_set_index c a := set_contents c' (ca_set_index c a))"
proof -
  let ?i = "ca_set_index c a"
  obtain w q ls where c': "c' = commit_access c cyc ?i r w q ls"
    and acc: "set_access choose_victim on_access (ca_policies c ! ?i) (ca_sets c ! ?i) (ca_tag_of c a) wr
      = Inr (r, w, q, ls)"
    using lookup_and_fill_InrE[OF inv run] by blast
  note c' = c'[unfolded commit_access_def]
  have i: "?i < ca_num_sets c" "?i < length (ca_sets c)" "?i < length (ca_policies c)"
    using set_index_lt[OF inv] inv by (auto simp: cache_inv_def)
  obtain p where p: "ca_policies c ! ?i = LRU p"
    using lru i(1) by (auto simp: all_lru_def)
  obtain p' where q: "q = LRU p'"
    and lacc: "set_access lru_choose_victim lru_on_access p (ca_sets c ! ?i) (ca_tag_of c a) wr = Inr (r, w, p', ls)"
    using acc by (auto simp: p set_access_LRU)
  have sinv: "set_inv (ca_associativity c) (LRU p) (ca_sets c ! ?i)"
    using inv i(1) p by (metis cache_inv_def)
  show "all_lru c'"
    using lru i q by (auto simp: all_lru_def c' nth_list_update)
  show "lru_spec (ca_associativity c) (ca_tag_of c a) wr (set_contents c ?i) = (r, set_contents c' ?i)"
    using lru_set_refines[OF _ _ lacc] sinv i p q
    by (simp add: set_inv_def set_contents_def c')
  show "set_contents c' = (set_contents c)(?i := set_contents c' ?i)"
  proof (rule ext)
    fix x
    show "set_contents c' x = ((set_contents c)(?i := set_contents c' ?i)) x"
      using lookup_and_fill_inv(4)[OF inv run, of x]
      by (cases "x = ?i") (simp_all add: set_contents_def split: policy.split)
  qed
qed

lemma all_fifo_step:
  assumes inv: "cache_inv c" and fifo: "all_fifo c" and run: "lookup_and_fill c a wr cyc = Inr (r, c')"
  shows "all_fifo c'" and
    "fifo_spec (ca_associativity c) (ca_tag_of c a) wr (set_contents c (ca_set_index c a))
       = (r, set_contents c' (ca_set_index c a))" and
    "set_contents c' = (set_contents c)(ca_set_index c a := set_contents c' (ca_set_index c a))"
proof -
  let ?i = "ca_set_index c a"
  obtain w q ls where c': "c' = commit_access c cyc ?i r w q ls"
    and acc: "set_access choose_victim on_access (ca_policies c ! ?i) (ca_sets c ! ?i) (ca_tag_of c a) wr
      = Inr (r, w, q, ls)"
    using lookup_and_fill_InrE[OF inv run] by blast
  note c' = c'[unfolded commit_access_def]
  have i: "?i < ca_num_sets c" "?i < length (ca_sets c)" "?i < length (ca_policies c)"
    using set_index_lt[OF inv] inv by (auto simp: cache_inv_def)
  obtain p where p: "ca_policies c ! ?i = FIFO p"
    using fifo i(1) by (auto simp: all_fifo_def)
  obtain p' where q: "q = FIFO p'"
    and facc: "set_access fifo_choose_victim fifo_on_access p (ca_sets c ! ?i) (ca_tag_of c a) wr = Inr (r, w, p', ls)"
    using acc by (auto simp: p set_access_FIFO)
  have sinv: "set_inv (ca_associativity c) (FIFO p) (ca_sets c ! ?i)"
    using inv i(1) p by (metis cache_inv_def)
  show "all_fifo c'"
    using fifo i q by (auto simp: all_fifo_def c' nth_list_update)
  show "fifo_spec (ca_associativity c) (ca_tag_of c a) wr (set_contents c ?i) = (r, set_contents c' ?i)"
    using fifo_set_refines[OF _ _ facc] sinv i p q
    by (simp add: set_inv_def set_contents_def c')
  show "set_contents c' = (set_contents c)(?i := set_contents c' ?i)"
  proof (rule ext)
    fix x
    show "set_contents c' x = ((set_contents c)(?i := set_contents c' ?i)) x"
      using lookup_and_fill_inv(4)[OF inv run, of x]
      by (cases "x = ?i") (simp_all add: set_contents_def split: policy.split)
  qed
qed

text \<open>Two LRU caches that differ in associativity only, the smaller holding the most recent tags.\<close>

definition lru_included :: "cache \<Rightarrow> cache \<Rightarrow> bool" where
  "lru_included c d \<longleftrightarrow>
     cache_inv c \<and> cache_inv d \<and> all_lru c \<and> all_lru d \<and>
     ca_num_sets c = ca_num_sets d \<and> ca_line_size c = ca_line_size d \<and>
     ca_associativity c \<le> ca_associativity d \<and>
     (\<forall>i < ca_num_sets c.
        map fst (set_contents c i) = take (ca_associativity c) (map fst (set_contents d i)))"

lemma set_contents_lru_props:
  assumes "cache_inv c" and "all_lru c" and "i < ca_num_sets c"
  shows "distinct (map fst (set_contents c i))" and "length (set_contents c i) \<le> ca_associativity c"
    and "fst ` set (set_contents c i) = valid_tags (ca_sets c ! i)"
proof -
  obtain p where p: "ca_policies c ! i = LRU p"
    using assms(2,3) by (auto simp: all_lru_def)
  have s: "set_inv (ca_associativity c) (LRU p) (ca_sets c ! i)"
    using assms(1,3) p by (metis cache_inv_def)
  then show "distinct (map fst (set_contents c i))" "length (set_contents c i) \<le> ca_associativity c"
    "fst ` set (set_contents c i) = valid_tags (ca_sets c ! i)"
    using lru_view_distinct[of p "ca_sets c ! i"] lru_view_length[of p "ca_sets c ! i"]
      lru_view_tags[of p "ca_sets c ! i"] p
    by (auto simp: set_inv_def set_contents_def)
qed

lemma lru_included_step:
  assumes inc: "lru_included c d"
    and c: "lookup_and_fill c a wr cyc = Inr (r1, c')" and d: "lookup_and_fill d a wr cyc = Inr (r2, d')"
  shows "lru_included c' d'" and "car_hit r1 \<Longrightarrow> car_hit r2"
proof -
  let ?i = "ca_set_index c a" and ?t = "ca_tag_of c a"
  have inv: "cache_inv c" "cache_inv d" "all_lru c" "all_lru d" and m: "ca_associativity c \<le> ca_associativity d"
    and idx: "ca_set_index d a = ?i" "ca_tag_of d a = ?t" and n: "ca_num_sets c = ca_num_sets d"
    using inc by (auto simp: lru_included_def ca_set_index_def ca_tag_of_def)
  have i: "?i < ca_num_sets c" using set_index_lt[OF inv(1)] .
  note sc = all_lru_step[OF inv(1,3) c] and sd = all_lru_step[OF inv(2,4) d, unfolded idx]
  note gc = lookup_and_fill_inv(1,2)[OF inv(1) c] and gd = lookup_and_fill_inv(1,2)[OF inv(2) d]
  have sub: "map fst (set_contents c ?i) = take (ca_associativity c) (map fst (set_contents d ?i))"
    using inc i by (simp add: lru_included_def)
  have pos: "0 < ca_associativity c" using inv(1) by (simp add: cache_inv_def)
  have new: "map fst (set_contents c' ?i) = take (ca_associativity c) (map fst (set_contents d' ?i))"
    using lru_spec_inclusion[OF set_contents_lru_props(1,2)[OF inv(2,4) i[unfolded n]] pos m sub, of ?t wr wr]
      sc(2) sd(2) by simp
  have "map fst (set_contents c' j) = take (ca_associativity c) (map fst (set_contents d' j))"
    if "j < ca_num_sets c" for j
  proof (cases "j = ?i")
    case True
    with new show ?thesis by simp
  next
    case False
    then have "set_contents c' j = set_contents c j" "set_contents d' j = set_contents d j"
      using sc(3) sd(3) by (metis fun_upd_other)+
    with inc that show ?thesis by (simp add: lru_included_def)
  qed
  then show "lru_included c' d'"
    using inc gc gd sc(1) sd(1) by (simp add: lru_included_def same_geometry_def)
  have "?t \<in> fst ` set (set_contents d ?i)" if "?t \<in> fst ` set (set_contents c ?i)"
  proof -
    have "?t \<in> set (map fst (set_contents c ?i))" using that by simp
    then have "?t \<in> set (map fst (set_contents d ?i))" unfolding sub by (rule in_set_takeD)
    then show ?thesis by simp
  qed
  then show "car_hit r1 \<Longrightarrow> car_hit r2"
    using lru_spec_hit[of "ca_associativity c" ?t wr "set_contents c ?i"]
      lru_spec_hit[of "ca_associativity d" ?t wr "set_contents d ?i"] sc(2) sd(2) by simp
qed

lemma lru_included_run:
  "lru_included c d \<Longrightarrow> cache_run c ops = Inr (rs1, c') \<Longrightarrow> cache_run d ops = Inr (rs2, d') \<Longrightarrow>
   list_all2 (\<lambda>r1 r2. car_hit r1 \<longrightarrow> car_hit r2) rs1 rs2"
proof (induction ops arbitrary: c d rs1 rs2)
  case Nil
  then show ?case by simp
next
  case (Cons op ops)
  obtain a w where op: "op = (a, w)" by (cases op)
  from Cons.prems(2) op obtain r1 c1 rs1' where 1: "lookup_and_fill c a w 0 = Inr (r1, c1)"
    "cache_run c1 ops = Inr (rs1', c')" "rs1 = r1 # rs1'" by auto
  from Cons.prems(3) op obtain r2 d1 rs2' where 2: "lookup_and_fill d a w 0 = Inr (r2, d1)"
    "cache_run d1 ops = Inr (rs2', d')" "rs2 = r2 # rs2'" by auto
  note step = lru_included_step[OF Cons.prems(1) 1(1) 2(1)]
  from Cons.IH[OF step(1) 1(2) 2(2)] step(2) 1(3) 2(3) show ?case by simp
qed

lemma lru_view_empty:
  assumes "lru_inv p (replicate n new_cache_line)"
  shows "lru_view p (replicate n new_cache_line) = []"
proof -
  have "\<not> cl_valid (replicate n new_cache_line ! w)" if "w \<in> set (lru_list p)" for w
    using that assms by (simp add: lru_inv_def new_cache_line_def)
  then have "filter (\<lambda>w. cl_valid (replicate n new_cache_line ! w)) (lru_list p) = []"
    by (simp add: filter_empty_conv)
  then show ?thesis by (simp add: lru_view_def)
qed

lemma new_lru_cache:
  assumes "new_cache dist s n l ''LRU'' = Inr c"
  shows "cache_inv c" "all_lru c" "\<And>i. i < s \<Longrightarrow> set_contents c i = []"
    "ca_num_sets c = s" "ca_line_size c = l" "ca_associativity c = n"
proof -
  have c: "0 < s" "0 < n" "0 < l" "ca_num_sets c = s" "ca_line_size c = l" "ca_associativity c = n"
    "ca_sets c = replicate s (replicate n new_cache_line)"
    "ca_policies c = replicate s (LRU (new_lru_policy n))"
    using assms by (auto simp: new_cache_def split: if_splits)
  have inv: "lru_inv (new_lru_policy n) (replicate n new_cache_line)"
    using policy_inv_empty(1)[of n] by simp
  show "cache_inv c"
    using c inv tags_distinct_empty by (auto simp: cache_inv_def set_inv_def)
  show "all_lru c" "ca_num_sets c = s" "ca_line_size c = l" "ca_associativity c = n"
    using c by (auto simp: all_lru_def)
  show "set_contents c i = []" if "i < s" for i
    using that c inv lru_view_empty[of "new_lru_policy n" n] by (simp add: set_contents_def)
qed

lemma new_lru_included:
  assumes "new_cache dist1 s m l ''LRU'' = Inr c" and "new_cache dist2 s n l ''LRU'' = Inr d" and "m \<le> n"
  shows "lru_included c d"
  using new_lru_cache[OF assms(1)] new_lru_cache[OF assms(2)] assms(3)
  by (simp add: lru_included_def)

section \<open>Counting a run\<close>

lemma lookup_and_fill_counts:
  assumes "lookup_and_fill c a wr cyc = Inr (r, c')"
  shows "ca_stats c' = count_access r (ca_stats c)"
  using assms by (auto simp: lookup_and_fill_def Let_def commit_access_def)

lemma cache_run_counts:
  "cache_run c ops = Inr (rs, c') \<Longrightarrow>
   cs_accesses (ca_stats c') = cs_accesses (ca_stats c) + length ops \<and>
   cs_hits (ca_stats c') = cs_hits (ca_stats c) + length (filter car_hit rs) \<and>
   cs_evictions (ca_stats c') = cs_evictions (ca_stats c) + length (filter car_eviction rs) \<and>
   cs_dirty_evictions (ca_stats c') = cs_dirty_evictions (ca_stats c) + length (filter car_dirty_eviction rs)"
proof (induction ops arbitrary: c rs)
  case (Cons op ops)
  obtain a w where op: "op = (a, w)" by (cases op)
  with Cons.prems obtain r c1 rs1 where 1: "lookup_and_fill c a w 0 = Inr (r, c1)"
    "cache_run c1 ops = Inr (rs1, c')" "rs = r # rs1" by auto
  show ?case
    using Cons.IH[OF 1(2)] lookup_and_fill_counts[OF 1(1)] 1(3) by (simp add: count_access_def)
qed simp

lemma new_cache_stats: "new_cache dist s n l pol = Inr c \<Longrightarrow> ca_stats c = zero_cache_stats"
  by (auto simp: new_cache_def split: if_splits)

end
