(* ===== verification/Coalescer.thy ===== *)
theory Coalescer
  imports Prelude
begin

text \<open>
  \<^verbatim>\<open>src/memory/memory_coalescer.cpp\<close>: the lane addresses of a warp access are grouped into
  one transaction per cache line. The \<open>std::set\<close> of line bases is a sorted list without
  repetition, built by insertion and read out in order.
\<close>

definition coalesce :: "size_t list \<Rightarrow> size_t \<Rightarrow> size_t list" where
  "coalesce addresses line_size =
     (if line_size = 0 then addresses
      else foldl (\<lambda>unique_lines addr. insort_insert ((addr div line_size) * line_size) unique_lines)
             [] addresses)"

lemma insort_insert_fold_props:
  "sorted s \<Longrightarrow> distinct s \<Longrightarrow>
   sorted (foldl (\<lambda>s a. insort_insert (f a) s) s xs) \<and> distinct (foldl (\<lambda>s a. insort_insert (f a) s) s xs) \<and>
   set (foldl (\<lambda>s a. insort_insert (f a) s) s xs) = set s \<union> f ` set xs"
  for s :: "nat list"
proof (induction xs arbitrary: s)
  case (Cons x xs)
  have "sorted (insort_insert (f x) s)" "distinct (insort_insert (f x) s)"
    using Cons.prems by (simp_all add: sorted_insort_insert distinct_insort_insert)
  from Cons.IH[OF this] show ?case by (auto simp: set_insort_insert)
qed simp

lemma coalesce_props:
  assumes "0 < line_size"
  shows "sorted (coalesce addrs line_size)" and "distinct (coalesce addrs line_size)"
    and "set (coalesce addrs line_size) = (\<lambda>a. a div line_size * line_size) ` set addrs"
  using insort_insert_fold_props[of "[]" "\<lambda>a. a div line_size * line_size" addrs] assms
  by (simp_all add: coalesce_def)

lemma length_coalesce:
  assumes "0 < line_size"
  shows "length (coalesce addrs line_size) = card ((\<lambda>a. a div line_size) ` set addrs)"
proof -
  have "length (coalesce addrs line_size) = card ((\<lambda>a. a div line_size * line_size) ` set addrs)"
    using distinct_card[OF coalesce_props(2)[OF assms, of addrs]] coalesce_props(3)[OF assms, of addrs] by simp
  also have "(\<lambda>a. a div line_size * line_size) ` set addrs = (\<lambda>q. q * line_size) ` (\<lambda>a. a div line_size) ` set addrs"
    by (simp add: image_image)
  also have "card \<dots> = card ((\<lambda>a. a div line_size) ` set addrs)"
    using assms by (intro card_image) (auto simp: inj_on_def)
  finally show ?thesis .
qed

lemma length_coalesce_le: "0 < line_size \<Longrightarrow> length (coalesce addrs line_size) \<le> length addrs"
  using card_image_le[of "set addrs" "\<lambda>a. a div line_size"] card_length[of addrs]
  by (simp add: length_coalesce)

lemma coalesce_ne: "0 < line_size \<Longrightarrow> addrs \<noteq> [] \<Longrightarrow> coalesce addrs line_size \<noteq> []"
  using coalesce_props(3)[of line_size addrs] by auto

text \<open>The line of an address: the transaction that starts at its base covers it.\<close>

lemma coalesce_covers:
  assumes "0 < line_size" and "a \<in> set addrs"
  shows "\<exists>!b. b \<in> set (coalesce addrs line_size) \<and> b \<le> a \<and> a < b + line_size"
proof (rule ex1I[of _ "a div line_size * line_size"])
  show "a div line_size * line_size \<in> set (coalesce addrs line_size) \<and>
      a div line_size * line_size \<le> a \<and> a < a div line_size * line_size + line_size"
    using assms mod_less_divisor[OF assms(1), of a] div_mult_mod_eq[of a line_size]
    unfolding coalesce_props(3)[OF assms(1)] by (intro conjI imageI) linarith+
next
  fix b assume b: "b \<in> set (coalesce addrs line_size) \<and> b \<le> a \<and> a < b + line_size"
  then obtain q where q: "b = q * line_size" using assms by (auto simp: coalesce_props(3))
  have "a div line_size = q"
    using b q by (intro div_nat_eqI) (auto simp: ac_simps)
  then show "b = a div line_size * line_size" using q by simp
qed

end
