(* ===== verification/Memory_System.thy ===== *)
theory Memory_System
  imports Complex_Main Storage Cache Coalescer
begin

text \<open>
  \<^verbatim>\<open>include/memory/memory_system.hpp\<close>, \<^verbatim>\<open>src/memory/memory_system.cpp\<close>: the timing path
  through the L1 and the L2 cache, and the load, store and atomic operations of a whole warp
  on the global and the shared address space. The record holds the objects the class
  references; L1 and L2 are two objects, as the GPU constructs them. Latencies are
  \<open>size_t\<close> sums far below \<open>2 ^ 64\<close> and are kept as natural numbers.
\<close>

record memory_access_config =
  mac_shared_memory_latency :: size_t
  mac_l1_latency :: size_t
  mac_l2_latency :: size_t
  mac_global_memory_latency :: size_t
  mac_writeback_latency :: size_t

definition default_access_config :: memory_access_config where
  "default_access_config = \<lparr>mac_shared_memory_latency = 1, mac_l1_latency = 5, mac_l2_latency = 20,
     mac_global_memory_latency = 100, mac_writeback_latency = 20\<rparr>"

record warp_memory_result =
  wmr_total_latency :: size_t
  wmr_num_transactions :: size_t
  wmr_bank_conflict_stalls :: size_t
  wmr_dirty_eviction_writebacks :: size_t

definition no_memory_result :: warp_memory_result where
  "no_memory_result = \<lparr>wmr_total_latency = 0, wmr_num_transactions = 0, wmr_bank_conflict_stalls = 0,
     wmr_dirty_eviction_writebacks = 0\<rparr>"

record memory_system =
  ms_shared :: shared_memory
  ms_l1 :: cache
  ms_l2 :: cache
  ms_global :: global_memory
  ms_config :: memory_access_config

definition SHARED_MEM_BASE :: size_t where
  "SHARED_MEM_BASE = 0x10000000"

definition get_l1_line_size :: "memory_system \<Rightarrow> size_t" where
  "get_l1_line_size m = ca_line_size (ms_l1 m)"

section \<open>Latency of one transaction\<close>

text \<open>Both return the latency, the number of dirty evictions (the out parameter) and the new state.\<close>

definition read_latency :: "memory_system \<Rightarrow> size_t \<Rightarrow> (size_t \<times> size_t \<times> memory_system) result" where
  "read_latency m address =
     bindE (cache_access (ms_l1 m) address 0) (\<lambda>(l1_result, l1).
       let cfg = ms_config m; m1 = m\<lparr>ms_l1 := l1\<rparr>
       in if car_hit l1_result then Inr (mac_l1_latency cfg, 0, m1)
          else bindE (cache_access (ms_l2 m1) address 0) (\<lambda>(l2_result, l2).
            let latency = mac_l1_latency cfg +
                  (if car_hit l2_result then mac_l2_latency cfg
                   else mac_l2_latency cfg + mac_global_memory_latency cfg);
                m2 = m1\<lparr>ms_l2 := l2\<rparr>
            in if car_dirty_eviction l1_result then Inr (latency + mac_writeback_latency cfg, 1, m2)
               else Inr (latency, 0, m2)))"

definition write_latency :: "memory_system \<Rightarrow> size_t \<Rightarrow> (size_t \<times> size_t \<times> memory_system) result" where
  "write_latency m address =
     bindE (cache_write (ms_l1 m) address 0) (\<lambda>(l1_result, l1).
       let cfg = ms_config m; m1 = m\<lparr>ms_l1 := l1\<rparr>
       in bindE (if \<not> car_hit l1_result
                 then bindE (cache_access (ms_l2 m1) address 0) (\<lambda>(l2_result, l2).
                        Inr (mac_l1_latency cfg +
                               (if car_hit l2_result then mac_l2_latency cfg
                                else mac_l2_latency cfg + mac_global_memory_latency cfg),
                             m1\<lparr>ms_l2 := l2\<rparr>))
                 else Inr (mac_l1_latency cfg, m1)) (\<lambda>(latency, m2).
            if car_dirty_eviction l1_result then Inr (latency + mac_writeback_latency cfg, 1, m2)
            else Inr (latency, 0, m2)))"

section \<open>Single accesses\<close>

definition shared_load :: "memory_system \<Rightarrow> size_t \<Rightarrow> (c_int \<times> size_t) result" where
  "shared_load m address =
     bindE (shm_load (ms_shared m) address) (\<lambda>v. Inr (v, mac_shared_memory_latency (ms_config m)))"

definition shared_store :: "memory_system \<Rightarrow> size_t \<Rightarrow> c_int \<Rightarrow> (size_t \<times> memory_system) result" where
  "shared_store m address v =
     bindE (shm_store (ms_shared m) address v) (\<lambda>s.
       Inr (mac_shared_memory_latency (ms_config m), m\<lparr>ms_shared := s\<rparr>))"

definition ms_load :: "memory_system \<Rightarrow> size_t \<Rightarrow> (c_int \<times> size_t \<times> memory_system) result" where
  "ms_load m address =
     (if address \<ge> SHARED_MEM_BASE
      then bindE (shared_load m (address - SHARED_MEM_BASE)) (\<lambda>(v, lat). Inr (v, lat, m))
      else bindE (read_latency m address) (\<lambda>(lat, _, m').
             bindE (gm_load (ms_global m') address) (\<lambda>v. Inr (v, lat, m'))))"

definition ms_store :: "memory_system \<Rightarrow> size_t \<Rightarrow> c_int \<Rightarrow> (size_t \<times> memory_system) result" where
  "ms_store m address v =
     (if address \<ge> SHARED_MEM_BASE then shared_store m (address - SHARED_MEM_BASE) v
      else bindE (write_latency m address) (\<lambda>(lat, _, m').
             bindE (gm_store (ms_global m') address v) (\<lambda>g. Inr (lat, m'\<lparr>ms_global := g\<rparr>))))"

section \<open>Warp accesses\<close>

text \<open>The transaction loop of the global path: maximal latency (at least 1) and dirty evictions.\<close>

fun one_transaction ::
    "(memory_system \<Rightarrow> size_t \<Rightarrow> (size_t \<times> size_t \<times> memory_system) result)
      \<Rightarrow> size_t \<times> size_t \<times> memory_system \<Rightarrow> size_t \<Rightarrow> (size_t \<times> size_t \<times> memory_system) result" where
  "one_transaction step (max_latency, total_dirty_evictions, m) line_base =
     bindE (step m line_base) (\<lambda>(latency, dirty_evictions, m').
       Inr (max max_latency latency, total_dirty_evictions + dirty_evictions, m'))"

definition run_transactions ::
    "(memory_system \<Rightarrow> size_t \<Rightarrow> (size_t \<times> size_t \<times> memory_system) result) \<Rightarrow> memory_system
      \<Rightarrow> size_t list \<Rightarrow> (size_t \<times> size_t \<times> memory_system) result" where
  "run_transactions step m lines =
     foldE (one_transaction step) (1, 0, m) lines"

definition mixed_spaces :: "size_t list \<Rightarrow> bool" where
  "mixed_spaces addresses \<longleftrightarrow>
     list_ex (\<lambda>a. (a \<ge> SHARED_MEM_BASE) \<noteq> (addresses ! 0 \<ge> SHARED_MEM_BASE)) addresses"

definition mixed_error :: sim_error where
  "mixed_error = Runtime_error ''Mixed shared/global address spaces within one warp memory instruction''"

text \<open>\<open>values[i]\<close> for every address: an index past the end of the vector is undefined.\<close>

definition with_values :: "size_t list \<Rightarrow> c_int list \<Rightarrow> (size_t \<times> c_int) list result" where
  "with_values addresses vals =
     (if length vals < length addresses then Inl (Undefined ''values[i] past the end'')
      else Inr (zip addresses vals))"

definition shared_result :: "memory_system \<Rightarrow> size_t list \<Rightarrow> size_t \<Rightarrow> warp_memory_result" where
  "shared_result m addresses max_latency =
     (let conflicts = compute_bank_conflicts (ms_shared m) (map (\<lambda>a. a - SHARED_MEM_BASE) addresses)
      in \<lparr>wmr_total_latency = max_latency + conflicts, wmr_num_transactions = length addresses,
          wmr_bank_conflict_stalls = conflicts, wmr_dirty_eviction_writebacks = 0\<rparr>)"

definition global_result :: "size_t list \<Rightarrow> size_t \<Rightarrow> size_t \<Rightarrow> warp_memory_result" where
  "global_result transactions max_latency dirty =
     \<lparr>wmr_total_latency = max_latency + (if length transactions > 0 then length transactions - 1 else 0),
      wmr_num_transactions = length transactions, wmr_bank_conflict_stalls = 0,
      wmr_dirty_eviction_writebacks = dirty\<rparr>"

definition warp_load ::
    "memory_system \<Rightarrow> size_t list \<Rightarrow> (warp_memory_result \<times> c_int list \<times> memory_system) result" where
  "warp_load m addresses =
     (if addresses = [] then Inr (no_memory_result, [], m)
      else if mixed_spaces addresses then Inl mixed_error
      else if addresses ! 0 \<ge> SHARED_MEM_BASE
      then bindE (mapE (\<lambda>a. shared_load m (a - SHARED_MEM_BASE)) addresses) (\<lambda>loaded.
             Inr (shared_result m addresses (max_loop 0 (map snd loaded)), map fst loaded, m))
      else let transactions = coalesce addresses (get_l1_line_size m)
           in bindE (run_transactions read_latency m transactions) (\<lambda>(max_latency, dirty, m').
                bindE (load_each gm_load (ms_global m') addresses) (\<lambda>vals.
                  Inr (global_result transactions max_latency dirty, vals, m'))))"

definition warp_store ::
    "memory_system \<Rightarrow> size_t list \<Rightarrow> c_int list \<Rightarrow> (warp_memory_result \<times> memory_system) result" where
  "warp_store m addresses vals =
     (if addresses = [] then Inr (no_memory_result, m)
      else if mixed_spaces addresses then Inl mixed_error
      else if addresses ! 0 \<ge> SHARED_MEM_BASE
      then bindE (with_values addresses vals) (\<lambda>avs.
             bindE (foldE (\<lambda>(max_latency, m) (a, v).
                      bindE (shared_store m (a - SHARED_MEM_BASE) v) (\<lambda>(lat, m').
                        Inr (max max_latency lat, m'))) (0, m) avs) (\<lambda>(max_latency, m').
               Inr (shared_result m addresses max_latency, m')))
      else let transactions = coalesce addresses (get_l1_line_size m)
           in bindE (run_transactions write_latency m transactions) (\<lambda>(max_latency, dirty, m').
                bindE (with_values addresses vals) (\<lambda>avs.
                  bindE (store_each gm_store (ms_global m') avs) (\<lambda>g.
                    Inr (global_result transactions max_latency dirty, m'\<lparr>ms_global := g\<rparr>)))))"

definition warp_atomic_add ::
    "memory_system \<Rightarrow> size_t list \<Rightarrow> c_int list \<Rightarrow> (warp_memory_result \<times> memory_system) result" where
  "warp_atomic_add m addresses vals =
     (if addresses = [] then Inr (no_memory_result, m)
      else if mixed_spaces addresses then Inl mixed_error
      else if addresses ! 0 \<ge> SHARED_MEM_BASE
      then bindE (with_values addresses vals) (\<lambda>avs.
             bindE (foldE (\<lambda>(max_latency, m) (a, v).
                      bindE (shm_load (ms_shared m) (a - SHARED_MEM_BASE)) (\<lambda>current_val.
                        bindE (c_add current_val v) (\<lambda>s.
                          bindE (shared_store m (a - SHARED_MEM_BASE) s) (\<lambda>(lat, m').
                            Inr (max max_latency lat, m'))))) (0, m) avs) (\<lambda>(max_latency, m').
               Inr (shared_result m addresses max_latency, m')))
      else let transactions = coalesce addresses (get_l1_line_size m)
           in bindE (run_transactions write_latency m transactions) (\<lambda>(max_latency, dirty, m').
                bindE (with_values addresses vals) (\<lambda>avs.
                  bindE (atomic_each gm_load gm_store (ms_global m') avs) (\<lambda>g.
                    Inr (global_result transactions max_latency dirty, m'\<lparr>ms_global := g\<rparr>)))))"

text \<open>
  \<open>compute_amat\<close> divides \<open>double\<close>s; the model computes the same formula in the rationals,
  without the rounding of the floating-point operations.
\<close>

definition compute_amat :: "memory_system \<Rightarrow> rat" where
  "compute_amat m =
     (let l1 = ca_stats (ms_l1 m); l2 = ca_stats (ms_l2 m); cfg = ms_config m;
          l1_accesses = cs_hits l1 + cs_misses l1;
          l2_accesses = cs_hits l2 + cs_misses l2;
          l1_miss_rate = (if l1_accesses > 0 then of_nat (cs_misses l1) / of_nat l1_accesses else 0);
          l2_miss_rate = (if l2_accesses > 0 then of_nat (cs_misses l2) / of_nat l2_accesses else 0);
          l1_dirty_eviction_rate =
            (if l1_accesses > 0 then of_nat (cs_dirty_evictions l1) / of_nat l1_accesses else 0);
          miss_penalty_l2 = of_nat (mac_global_memory_latency cfg);
          miss_penalty_l1 = of_nat (mac_l2_latency cfg) + l2_miss_rate * miss_penalty_l2
      in of_nat (mac_l1_latency cfg) + l1_miss_rate * miss_penalty_l1
           + l1_dirty_eviction_rate * of_nat (mac_writeback_latency cfg))"

section \<open>Invariant and the timing path\<close>

definition ms_inv :: "memory_system \<Rightarrow> bool" where
  "ms_inv m \<longleftrightarrow> cache_inv (ms_l1 m) \<and> stats_inv (ms_l1 m) \<and> cache_inv (ms_l2 m) \<and> stats_inv (ms_l2 m)"

text \<open>Equal up to the state of the caches.\<close>

definition same_data :: "memory_system \<Rightarrow> memory_system \<Rightarrow> bool" where
  "same_data m m' \<longleftrightarrow> ms_shared m' = ms_shared m \<and> ms_global m' = ms_global m \<and>
     ms_config m' = ms_config m \<and> same_geometry (ms_l1 m) (ms_l1 m') \<and> same_geometry (ms_l2 m) (ms_l2 m')"

definition worst_latency :: "memory_access_config \<Rightarrow> size_t" where
  "worst_latency cfg = mac_l1_latency cfg + mac_l2_latency cfg + mac_global_memory_latency cfg
     + mac_writeback_latency cfg"

lemma same_data_refl [simp]: "same_data m m"
  by (simp add: same_data_def)

lemma same_data_trans: "same_data m m1 \<Longrightarrow> same_data m1 m2 \<Longrightarrow> same_data m m2"
  by (auto simp: same_data_def intro: same_geometry_trans)

locale timing_path =
  fixes step :: "memory_system \<Rightarrow> size_t \<Rightarrow> (size_t \<times> size_t \<times> memory_system) result"
  assumes step_total: "ms_inv m \<Longrightarrow> \<exists>lat d m'. step m a = Inr (lat, d, m')"
    and step_inv: "ms_inv m \<Longrightarrow> step m a = Inr (lat, d, m') \<Longrightarrow> ms_inv m' \<and> same_data m m'"
    and step_bounds: "ms_inv m \<Longrightarrow> step m a = Inr (lat, d, m') \<Longrightarrow>
      mac_l1_latency (ms_config m) \<le> lat \<and> lat \<le> worst_latency (ms_config m) \<and> d \<le> 1"
    and step_hit: "ms_inv m \<Longrightarrow> step m a = Inr (lat, d, m') \<Longrightarrow> cached (ms_l1 m) a \<Longrightarrow>
      lat = mac_l1_latency (ms_config m) \<and> d = 0 \<and> ms_l2 m' = ms_l2 m"
    and step_caches: "ms_inv m \<Longrightarrow> step m a = Inr (lat, d, m') \<Longrightarrow> cached (ms_l1 m') a"
begin

lemma run_transactions_step:
  "foldE (one_transaction step) (mx, t, m) lines
    = Inr (mx', t', m') \<Longrightarrow> ms_inv m \<Longrightarrow>
   ms_inv m' \<and> same_data m m' \<and> mx \<le> mx' \<and> mx' \<le> max mx (worst_latency (ms_config m)) \<and>
   (lines \<noteq> [] \<longrightarrow> mac_l1_latency (ms_config m) \<le> mx') \<and> t' \<le> t + length lines"
proof (induction lines arbitrary: mx t m)
  case Nil
  then show ?case by simp
next
  case (Cons l lines)
  obtain lat d m1 where 1: "step m l = Inr (lat, d, m1)"
    using step_total[OF Cons.prems(2)] by blast
  note inv = step_inv[OF Cons.prems(2) 1] and bnd = step_bounds[OF Cons.prems(2) 1]
  have cfg: "ms_config m1 = ms_config m" using inv by (simp add: same_data_def)
  have "foldE (one_transaction step) (max mx lat, t + d, m1) lines
      = Inr (mx', t', m')"
    using Cons.prems(1) 1 by simp
  from Cons.IH[OF this conjunct1[OF inv]] inv bnd show ?case
    by (auto simp: cfg intro: same_data_trans)
qed

lemma run_transactions_total:
  assumes "ms_inv m" shows "\<exists>mx d m'. run_transactions step m lines = Inr (mx, d, m')"
proof -
  have "\<exists>s'. foldE (one_transaction step) (1, 0, m) lines = Inr s' \<and>
      ms_inv (snd (snd s'))"
  proof (rule foldE_total[where P = "\<lambda>s. ms_inv (snd (snd s))"])
    fix s l assume inv: "ms_inv (snd (snd (s :: nat \<times> nat \<times> memory_system)))"
    obtain mx t m1 where s: "s = (mx, t, m1)" by (cases s)
    then have inv1: "ms_inv m1" using inv by simp
    obtain lat d m2 where "step m1 l = Inr (lat, d, m2)" using step_total[OF inv1] by blast
    with step_inv[OF inv1 this] s
    show "\<exists>s'. one_transaction step s l = Inr s' \<and> ms_inv (snd (snd s'))" by simp
  qed (use assms in simp)
  then show ?thesis by (force simp: run_transactions_def)
qed

lemma run_transactions_inv:
  assumes "ms_inv m" and "run_transactions step m lines = Inr (mx, d, m')"
  shows "ms_inv m'" "same_data m m'" "1 \<le> mx" "mx \<le> max 1 (worst_latency (ms_config m))"
    "lines \<noteq> [] \<Longrightarrow> mac_l1_latency (ms_config m) \<le> mx" "d \<le> length lines"
  using run_transactions_step[OF assms(2)[unfolded run_transactions_def] assms(1)] by auto

lemma second_access_hits:
  assumes "ms_inv m" and "step m a = Inr (lat1, d1, m1)" and "step m1 a = Inr (lat2, d2, m2)"
  shows "lat2 = mac_l1_latency (ms_config m) \<and> d2 = 0"
  using step_hit[OF conjunct1[OF step_inv[OF assms(1,2)]] assms(3) step_caches[OF assms(1,2)]]
    step_inv[OF assms(1,2)] by (simp add: same_data_def)

end

lemma ms_inv_l1:
  assumes "ms_inv m" and "lookup_and_fill (ms_l1 m) a w 0 = Inr (r, l1)"
  shows "ms_inv (m\<lparr>ms_l1 := l1\<rparr>)" "same_data m (m\<lparr>ms_l1 := l1\<rparr>)" "cached l1 a"
    "car_hit r \<longleftrightarrow> cached (ms_l1 m) a"
proof -
  have inv: "cache_inv (ms_l1 m)" "stats_inv (ms_l1 m)" using assms(1) by (simp_all add: ms_inv_def)
  note p = lookup_and_fill_inv[OF inv(1) assms(2)]
  show "ms_inv (m\<lparr>ms_l1 := l1\<rparr>)" using assms(1) p(1,7) inv by (simp add: ms_inv_def)
  show "same_data m (m\<lparr>ms_l1 := l1\<rparr>)" using p(2) by (simp add: same_data_def)
  show "cached l1 a" "car_hit r \<longleftrightarrow> cached (ms_l1 m) a" using p(5,6) by simp_all
qed

lemma ms_inv_l2:
  assumes "ms_inv m" and "lookup_and_fill (ms_l2 m) a w 0 = Inr (r, l2)"
  shows "ms_inv (m\<lparr>ms_l2 := l2\<rparr>)" "same_data m (m\<lparr>ms_l2 := l2\<rparr>)"
proof -
  have inv: "cache_inv (ms_l2 m)" "stats_inv (ms_l2 m)" using assms(1) by (simp_all add: ms_inv_def)
  note p = lookup_and_fill_inv[OF inv(1) assms(2)]
  show "ms_inv (m\<lparr>ms_l2 := l2\<rparr>)" using assms(1) p(1,7) inv by (simp add: ms_inv_def)
  show "same_data m (m\<lparr>ms_l2 := l2\<rparr>)" using p(2) by (simp add: same_data_def)
qed

text \<open>Both operations are one L1 lookup, on a miss an L2 lookup, and the latency of the path taken.\<close>

definition path_latency ::
    "memory_access_config \<Rightarrow> cache_access_result \<Rightarrow> cache_access_result option \<Rightarrow> size_t" where
  "path_latency cfg r1 r2 =
     mac_l1_latency cfg +
     (case r2 of None \<Rightarrow> 0
      | Some r \<Rightarrow> mac_l2_latency cfg + (if car_hit r then 0 else mac_global_memory_latency cfg)) +
     (if car_dirty_eviction r1 then mac_writeback_latency cfg else 0)"

lemma dirty_eviction_misses:
  assumes "lookup_and_fill c a w cyc = Inr (r, c')"
  shows "car_hit r \<Longrightarrow> \<not> car_dirty_eviction r"
proof -
  obtain way p ls where acc: "set_access choose_victim on_access (ca_policies c ! ca_set_index c a)
      (ca_sets c ! ca_set_index c a) (ca_tag_of c a) w = Inr (r, way, p, ls)"
    using assms by (auto simp: lookup_and_fill_def Let_def)
  then show "car_hit r \<Longrightarrow> \<not> car_dirty_eviction r" using set_access_valid_count(2,3)[OF acc] by blast
qed

lemma latency_paths:
  assumes "ms_inv m"
    and "step = read_latency \<and> w = False \<or> step = write_latency \<and> w = True"
  shows "\<exists>r1 l1. lookup_and_fill (ms_l1 m) a w 0 = Inr (r1, l1) \<and>
    (if car_hit r1
     then step m a = Inr (path_latency (ms_config m) r1 None, 0, m\<lparr>ms_l1 := l1\<rparr>)
     else \<exists>r2 l2. lookup_and_fill (ms_l2 m) a False 0 = Inr (r2, l2) \<and>
       step m a = Inr (path_latency (ms_config m) r1 (Some r2),
                       (if car_dirty_eviction r1 then 1 else 0), m\<lparr>ms_l1 := l1, ms_l2 := l2\<rparr>))"
proof -
  have inv: "cache_inv (ms_l1 m)" "cache_inv (ms_l2 m)" using assms(1) by (simp_all add: ms_inv_def)
  obtain r1 l1 where 1: "lookup_and_fill (ms_l1 m) a w 0 = Inr (r1, l1)"
    using lookup_and_fill_ok[OF inv(1)] by blast
  obtain r2 l2 where 2: "lookup_and_fill (ms_l2 m) a False 0 = Inr (r2, l2)"
    using lookup_and_fill_ok[OF inv(2)] by blast
  have d: "car_hit r1 \<Longrightarrow> \<not> car_dirty_eviction r1" using dirty_eviction_misses[OF 1] .
  show ?thesis
  proof (cases "car_hit r1")
    case True
    then show ?thesis using assms(2) 1 d
      by (auto simp: read_latency_def write_latency_def cache_access_def cache_write_def Let_def path_latency_def)
  next
    case False
    then show ?thesis using assms(2) 1 2
      by (auto simp: read_latency_def write_latency_def cache_access_def cache_write_def Let_def path_latency_def)
  qed
qed

lemma timing_path_steps:
  assumes inv: "ms_inv m"
    and st: "step = read_latency \<and> w = False \<or> step = write_latency \<and> w = True"
    and run: "step m a = Inr (lat, d, m')"
  shows "ms_inv m' \<and> same_data m m'"
    and "mac_l1_latency (ms_config m) \<le> lat \<and> lat \<le> worst_latency (ms_config m) \<and> d \<le> 1"
    and "cached (ms_l1 m) a \<Longrightarrow> lat = mac_l1_latency (ms_config m) \<and> d = 0 \<and> ms_l2 m' = ms_l2 m"
    and "cached (ms_l1 m') a"
proof -
  obtain r1 l1 where 1: "lookup_and_fill (ms_l1 m) a w 0 = Inr (r1, l1)"
    and cs: "if car_hit r1
     then step m a = Inr (path_latency (ms_config m) r1 None, 0, m\<lparr>ms_l1 := l1\<rparr>)
     else \<exists>r2 l2. lookup_and_fill (ms_l2 m) a False 0 = Inr (r2, l2) \<and>
       step m a = Inr (path_latency (ms_config m) r1 (Some r2),
                       (if car_dirty_eviction r1 then 1 else 0), m\<lparr>ms_l1 := l1, ms_l2 := l2\<rparr>)"
    using latency_paths[OF inv st, of a] by blast
  note p1 = ms_inv_l1[OF inv 1] and d = dirty_eviction_misses[OF 1]
  have "ms_inv m' \<and> same_data m m' \<and>
    (mac_l1_latency (ms_config m) \<le> lat \<and> lat \<le> worst_latency (ms_config m) \<and> d \<le> 1) \<and>
    (cached (ms_l1 m) a \<longrightarrow> lat = mac_l1_latency (ms_config m) \<and> d = 0 \<and> ms_l2 m' = ms_l2 m) \<and>
    cached (ms_l1 m') a"
  proof (cases "car_hit r1")
    case True
    with cs run have e: "lat = path_latency (ms_config m) r1 None" "d = 0" "m' = m\<lparr>ms_l1 := l1\<rparr>" by auto
    show ?thesis using p1 d[OF True] by (simp add: e path_latency_def worst_latency_def)
  next
    case False
    with cs obtain r2 l2 where 2: "lookup_and_fill (ms_l2 m) a False 0 = Inr (r2, l2)"
      and "step m a = Inr (path_latency (ms_config m) r1 (Some r2),
                       (if car_dirty_eviction r1 then 1 else 0), m\<lparr>ms_l1 := l1, ms_l2 := l2\<rparr>)" by auto
    with run have e: "lat = path_latency (ms_config m) r1 (Some r2)"
      "d = (if car_dirty_eviction r1 then 1 else 0)" "m' = m\<lparr>ms_l1 := l1, ms_l2 := l2\<rparr>" by auto
    have "ms_l2 (m\<lparr>ms_l1 := l1\<rparr>) = ms_l2 m" by simp
    with ms_inv_l2[OF p1(1), of a False r2 l2] 2 same_data_trans[OF p1(2)] p1 False
    show ?thesis by (simp add: e path_latency_def worst_latency_def)
  qed
  then show "ms_inv m' \<and> same_data m m'"
    and "mac_l1_latency (ms_config m) \<le> lat \<and> lat \<le> worst_latency (ms_config m) \<and> d \<le> 1"
    and "cached (ms_l1 m) a \<Longrightarrow> lat = mac_l1_latency (ms_config m) \<and> d = 0 \<and> ms_l2 m' = ms_l2 m"
    and "cached (ms_l1 m') a"
    by blast+
qed

lemma timing_path_total:
  assumes "ms_inv m" and "step = read_latency \<and> w = False \<or> step = write_latency \<and> w = True"
  shows "\<exists>lat d m'. step m a = Inr (lat, d, m')"
  using latency_paths[OF assms, of a] by (metis (full_types))

lemmas read_path = timing_path_steps[of _ read_latency False, OF _ disjI1[OF conjI[OF refl refl]]]
  and write_path = timing_path_steps[of _ write_latency True, OF _ disjI2[OF conjI[OF refl refl]]]

interpretation rd_path: timing_path read_latency
proof unfold_locales
  show "\<exists>lat d m'. read_latency m a = Inr (lat, d, m')" if "ms_inv m" for m a
    using timing_path_total[OF that, of read_latency False] by simp
qed (rule read_path; assumption)+

interpretation wr_path: timing_path write_latency
proof unfold_locales
  show "\<exists>lat d m'. write_latency m a = Inr (lat, d, m')" if "ms_inv m" for m a
    using timing_path_total[OF that, of write_latency True] by simp
qed (rule write_path; assumption)+

section \<open>The address space a warp sees\<close>

text \<open>
  The specification of the data path: one flat array of words, the global memory below
  \<open>SHARED_MEM_BASE\<close> and the shared memory of the block from there on; no cache in sight.
\<close>

definition word_at :: "memory_system \<Rightarrow> size_t \<Rightarrow> c_int result" where
  "word_at m a = (if a \<ge> SHARED_MEM_BASE then shm_load (ms_shared m) (a - SHARED_MEM_BASE)
                  else gm_load (ms_global m) a)"

definition mapped :: "memory_system \<Rightarrow> size_t \<Rightarrow> bool" where
  "mapped m a \<longleftrightarrow> (if a \<ge> SHARED_MEM_BASE then a - SHARED_MEM_BASE < length (shm_data (ms_shared m))
                    else a < length (gm_data (ms_global m)))"

lemma word_at_mapped: "mapped m a \<longleftrightarrow> (\<exists>v. word_at m a = Inr v)"
  by (auto simp: mapped_def word_at_def shm_load_def gm_load_def)

lemma same_data_word_at: "same_data m m' \<Longrightarrow> word_at m' a = word_at m a"
  by (simp add: same_data_def word_at_def)

lemma same_space:
  "addrs \<noteq> [] \<Longrightarrow> \<not> mixed_spaces addrs \<Longrightarrow> a \<in> set addrs \<Longrightarrow>
   a \<ge> SHARED_MEM_BASE \<longleftrightarrow> addrs ! 0 \<ge> SHARED_MEM_BASE"
  unfolding mixed_spaces_def list_ex_iff by blast

lemma last_value_simps:
  "last_value [] b = None"
  "last_value ((a, v) # avs) b =
     (case last_value avs b of Some x \<Rightarrow> Some x | None \<Rightarrow> if a = b then Some v else None)"
  by (auto simp: last_value_def map_add_def split: option.splits)

lemma last_value_map:
  assumes "inj_on f (insert b (fst ` set avs))"
  shows "last_value (map (\<lambda>(a, v). (f a, v)) avs) (f b) = last_value avs b"
  using assms
proof (induction avs)
  case Nil
  then show ?case by (simp add: last_value_simps)
next
  case (Cons p avs)
  obtain a v where p: "p = (a, v)" by (cases p)
  have inj: "inj_on f (insert b (fst ` set avs))"
    using Cons.prems by (rule inj_on_subset) auto
  have "f a = f b \<longleftrightarrow> a = b"
    using inj_on_eq_iff[OF Cons.prems, of a b] p by simp
  with Cons.IH[OF inj] p show ?case by (simp add: last_value_simps)
qed

lemma added_at_map:
  assumes "inj_on f (insert b (fst ` set avs))"
  shows "added_at (map (\<lambda>(a, v). (f a, v)) avs) (f b) = added_at avs b"
  using assms
proof (induction avs)
  case (Cons p avs)
  obtain a v where p: "p = (a, v)" by (cases p)
  have "inj_on f (insert b (fst ` set avs))"
    using Cons.prems by (rule inj_on_subset) auto
  moreover have "f a = f b \<longleftrightarrow> a = b"
    using inj_on_eq_iff[OF Cons.prems, of a b] p by simp
  ultimately show ?case using Cons.IH p by simp
qed simp

definition local_pairs :: "(size_t \<times> c_int) list \<Rightarrow> (size_t \<times> c_int) list" where
  "local_pairs avs = map (\<lambda>(a, v). (a - SHARED_MEM_BASE, v)) avs"

lemma local_pairs_at:
  assumes "b \<ge> SHARED_MEM_BASE" and "\<forall>a \<in> fst ` set avs. a \<ge> SHARED_MEM_BASE"
  shows "last_value (local_pairs avs) (b - SHARED_MEM_BASE) = last_value avs b"
    and "added_at (local_pairs avs) (b - SHARED_MEM_BASE) = added_at avs b"
proof -
  have "inj_on (\<lambda>a. a - SHARED_MEM_BASE) (insert b (fst ` set avs))"
    using assms by (intro inj_on_diff_nat) auto
  then show "last_value (local_pairs avs) (b - SHARED_MEM_BASE) = last_value avs b"
    "added_at (local_pairs avs) (b - SHARED_MEM_BASE) = added_at avs b"
    unfolding local_pairs_def by (rule last_value_map, rule added_at_map)
qed

lemma not_written: "b \<notin> fst ` set avs \<Longrightarrow> last_value avs b = None" "b \<notin> fst ` set avs \<Longrightarrow> added_at avs b = 0"
proof -
  show "b \<notin> fst ` set avs \<Longrightarrow> last_value avs b = None"
    by (simp add: last_value_def map_of_eq_None_iff)
  show "b \<notin> fst ` set avs \<Longrightarrow> added_at avs b = 0" by (induction avs) auto
qed

text \<open>The loops of the shared paths are the store loops of the shared memory, at a fixed latency.\<close>

lemma shared_store_loop:
  "foldE (\<lambda>(mx, m) (a, v). bindE (shared_store m (a - SHARED_MEM_BASE) v) (\<lambda>(lat, m'). Inr (max mx lat, m')))
     (mx0, m) avs =
   bindE (store_each shm_store (ms_shared m) (local_pairs avs)) (\<lambda>s.
     Inr (if avs = [] then mx0 else max mx0 (mac_shared_memory_latency (ms_config m)), m\<lparr>ms_shared := s\<rparr>))"
proof (induction avs arbitrary: mx0 m)
  case Nil
  then show ?case by (simp add: store_each_def local_pairs_def)
next
  case (Cons p avs)
  then show ?case
    by (cases p, cases "shm_store (ms_shared m) (fst p - SHARED_MEM_BASE) (snd p)")
      (auto simp: store_each_def local_pairs_def shared_store_def bindE_assoc)
qed

lemma shared_atomic_loop:
  "foldE (\<lambda>(mx, m) (a, v). bindE (shm_load (ms_shared m) (a - SHARED_MEM_BASE)) (\<lambda>cur.
       bindE (c_add cur v) (\<lambda>s. bindE (shared_store m (a - SHARED_MEM_BASE) s) (\<lambda>(lat, m').
         Inr (max mx lat, m'))))) (mx0, m) avs =
   bindE (atomic_each shm_load shm_store (ms_shared m) (local_pairs avs)) (\<lambda>s.
     Inr (if avs = [] then mx0 else max mx0 (mac_shared_memory_latency (ms_config m)), m\<lparr>ms_shared := s\<rparr>))"
proof (induction avs arbitrary: mx0 m)
  case Nil
  then show ?case by (simp add: atomic_each_def local_pairs_def)
next
  case (Cons p avs)
  obtain a v where p: "p = (a, v)" by (cases p)
  show ?case
  proof (cases "bindE (shm_load (ms_shared m) (a - SHARED_MEM_BASE)) (\<lambda>cur. bindE (c_add cur v)
      (\<lambda>s. shm_store (ms_shared m) (a - SHARED_MEM_BASE) s))")
    case (Inl e)
    then show ?thesis
      by (auto simp: p bindE_eq_Inl atomic_each_def local_pairs_def shared_store_def)
  next
    case (Inr s1)
    then obtain cur s where "shm_load (ms_shared m) (a - SHARED_MEM_BASE) = Inr cur" "c_add cur v = Inr s"
      "shm_store (ms_shared m) (a - SHARED_MEM_BASE) s = Inr s1" by auto
    with Cons.IH show ?thesis
      by (auto simp: p atomic_each_def local_pairs_def shared_store_def bindE_assoc)
  qed
qed

lemma shared_load_loop:
  "mapE (\<lambda>a. shared_load m (a - SHARED_MEM_BASE)) addrs =
   bindE (load_each shm_load (ms_shared m) (map (\<lambda>a. a - SHARED_MEM_BASE) addrs)) (\<lambda>vs.
     Inr (map (\<lambda>v. (v, mac_shared_memory_latency (ms_config m))) vs))"
proof (induction addrs)
  case Nil
  then show ?case by (simp add: load_each_def)
next
  case (Cons a addrs)
  then show ?case
    by (cases "shm_load (ms_shared m) (a - SHARED_MEM_BASE)")
      (auto simp: load_each_def shared_load_def bindE_assoc)
qed

section \<open>Warp accesses on the address space\<close>

text \<open>The cost a warp access may report: conflicts on the shared path, lines on the global one.\<close>

definition access_cost_ok :: "memory_system \<Rightarrow> size_t list \<Rightarrow> warp_memory_result \<Rightarrow> bool" where
  "access_cost_ok m addrs r \<longleftrightarrow>
     (if addrs = [] then r = no_memory_result
      else if addrs ! 0 \<ge> SHARED_MEM_BASE
      then r = shared_result m addrs (mac_shared_memory_latency (ms_config m))
      else wmr_num_transactions r = card ((\<lambda>a. a div get_l1_line_size m) ` set addrs) \<and>
           wmr_bank_conflict_stalls r = 0 \<and>
           wmr_dirty_eviction_writebacks r \<le> wmr_num_transactions r \<and>
           mac_l1_latency (ms_config m) + wmr_num_transactions r \<le> wmr_total_latency r + 1 \<and>
           wmr_total_latency r + 1 \<le> max 1 (worst_latency (ms_config m)) + wmr_num_transactions r)"

lemma line_size_pos: "ms_inv m \<Longrightarrow> 0 < get_l1_line_size m"
  by (simp add: ms_inv_def cache_inv_def get_l1_line_size_def)

context timing_path begin

lemma transactions_cost:
  assumes "ms_inv m" and "addrs \<noteq> []" and "\<not> addrs ! 0 \<ge> SHARED_MEM_BASE"
    and "run_transactions step m (coalesce addrs (get_l1_line_size m)) = Inr (mx, d, m')"
  shows "access_cost_ok m addrs (global_result (coalesce addrs (get_l1_line_size m)) mx d)"
proof -
  let ?ts = "coalesce addrs (get_l1_line_size m)"
  note pos = line_size_pos[OF assms(1)]
  note ne = coalesce_ne[OF pos assms(2)] and len = length_coalesce[OF pos, of addrs]
  note inv = run_transactions_inv[OF assms(1,4)]
  obtain n where n: "length ?ts = Suc n" using ne by (cases ?ts) auto
  show ?thesis
    using assms(2,3) inv(4,6) inv(5)[OF ne] n
    by (simp add: access_cost_ok_def global_result_def n flip: len)
qed

end

lemma constant_max_loop: "max_loop m (map snd (map (\<lambda>v. (v, l)) xs)) = (if xs = [] then m else max m l)"
  by (induction xs arbitrary: m) auto

lemma warp_load_correct:
  assumes inv: "ms_inv m" and run: "warp_load m addrs = Inr (r, vals, m')"
  shows "ms_inv m' \<and> same_data m m' \<and> list_all2 (\<lambda>a v. word_at m a = Inr v) addrs vals \<and>
    access_cost_ok m addrs r"
proof -
  consider (empty) "addrs = []" | (mixed) "addrs \<noteq> []" "mixed_spaces addrs"
    | (shared) "addrs \<noteq> []" "\<not> mixed_spaces addrs" "addrs ! 0 \<ge> SHARED_MEM_BASE"
    | (glob) "addrs \<noteq> []" "\<not> mixed_spaces addrs" "\<not> addrs ! 0 \<ge> SHARED_MEM_BASE" by blast
  then show ?thesis
  proof cases
    case shared
    then obtain vs where vs: "load_each shm_load (ms_shared m) (map (\<lambda>a. a - SHARED_MEM_BASE) addrs) = Inr vs"
      and e: "vals = vs" "m' = m"
        "r = shared_result m addrs (max_loop 0 (map snd (map (\<lambda>v. (v, mac_shared_memory_latency (ms_config m))) vs)))"
      using run by (auto simp: warp_load_def shared_load_loop comp_def)
    have "list_all2 (\<lambda>a v. shm_load (ms_shared m) a = Inr v) (map (\<lambda>a. a - SHARED_MEM_BASE) addrs) vs"
      using vs by (simp add: load_each_def mapE_Inr_iff)
    then have all: "list_all2 (\<lambda>a v. word_at m a = Inr v) addrs vs"
      using same_space[OF shared(1,2)] shared(3)
      by (auto simp: list_all2_conv_all_nth word_at_def)
    then have "vs \<noteq> []" using shared(1) by auto
    then have "r = shared_result m addrs (mac_shared_memory_latency (ms_config m))"
      unfolding e(3) constant_max_loop by simp
    then show ?thesis
      using inv e(1,2) shared all by (simp add: access_cost_ok_def)
  next
    case glob
    then obtain mx d where t: "run_transactions read_latency m (coalesce addrs (get_l1_line_size m)) = Inr (mx, d, m')"
      and vs: "load_each gm_load (ms_global m') addrs = Inr vals"
      and r: "r = global_result (coalesce addrs (get_l1_line_size m)) mx d"
      using run by (auto simp: warp_load_def Let_def)
    note ti = rd_path.run_transactions_inv(1,2)[OF inv t]
    have "list_all2 (\<lambda>a v. word_at m a = Inr v) addrs vals"
      using vs same_space[OF glob(1,2)] glob(3) ti(2)
      by (auto simp: load_each_def mapE_Inr_iff list_all2_conv_all_nth word_at_def same_data_def)
    then show ?thesis
      using ti rd_path.transactions_cost[OF inv glob(1,3) t] r by simp
  qed (use inv run in \<open>simp_all add: warp_load_def access_cost_ok_def\<close>)
qed

text \<open>The data effect of a store or atomic loop, phrased on the address space.\<close>

definition writes_words :: "memory_system \<Rightarrow> (size_t \<times> c_int) list \<Rightarrow> memory_system \<Rightarrow> bool" where
  "writes_words m avs m' \<longleftrightarrow>
     (\<forall>b. word_at m' b = (case last_value avs b of Some v \<Rightarrow> Inr v | None \<Rightarrow> word_at m b))"

definition adds_words :: "memory_system \<Rightarrow> (size_t \<times> c_int) list \<Rightarrow> memory_system \<Rightarrow> bool" where
  "adds_words m avs m' \<longleftrightarrow>
     (\<forall>b x. word_at m b = Inr x \<longrightarrow> (\<exists>y. word_at m' b = Inr y \<and> sint y = sint x + added_at avs b))"

lemma with_values_Inr:
  assumes "with_values addrs vals = Inr avs"
  shows "avs = zip addrs vals" and "map fst avs = addrs"
proof -
  show "avs = zip addrs vals" using assms by (simp add: with_values_def split: if_splits)
  then show "map fst avs = addrs" using assms by (simp add: with_values_def map_fst_zip_take split: if_splits)
qed

lemma word_at_shared: "word_at (m\<lparr>ms_shared := s\<rparr>) b =
    (if b \<ge> SHARED_MEM_BASE then shm_load s (b - SHARED_MEM_BASE) else word_at m b)"
  and word_at_global: "word_at (m\<lparr>ms_global := g\<rparr>) b =
    (if b \<ge> SHARED_MEM_BASE then word_at m b else gm_load g b)"
  by (simp_all add: word_at_def)

lemma shared_write_words:
  assumes "store_each shm_store (ms_shared m) (local_pairs avs) = Inr s"
    and "\<forall>a \<in> fst ` set avs. a \<ge> SHARED_MEM_BASE"
  shows "writes_words m avs (m\<lparr>ms_shared := s\<rparr>)"
  unfolding writes_words_def
proof
  fix b
  show "word_at (m\<lparr>ms_shared := s\<rparr>) b = (case last_value avs b of Some v \<Rightarrow> Inr v | None \<Rightarrow> word_at m b)"
  proof (cases "b \<ge> SHARED_MEM_BASE")
    case True
    with shar.store_each_rd[OF assms(1), of "b - SHARED_MEM_BASE"] local_pairs_at(1)[OF True assms(2)]
    show ?thesis by (auto simp: word_at_def split: option.split)
  next
    case False
    then have "last_value avs b = None" using assms(2) by (intro not_written) auto
    then show ?thesis using False by (simp add: word_at_shared)
  qed
qed

lemma global_write_words:
  assumes "store_each gm_store (ms_global m) avs = Inr g"
    and "\<forall>a \<in> fst ` set avs. \<not> a \<ge> SHARED_MEM_BASE"
  shows "writes_words m avs (m\<lparr>ms_global := g\<rparr>)"
  unfolding writes_words_def
proof
  fix b
  show "word_at (m\<lparr>ms_global := g\<rparr>) b = (case last_value avs b of Some v \<Rightarrow> Inr v | None \<Rightarrow> word_at m b)"
  proof (cases "b \<ge> SHARED_MEM_BASE")
    case True
    then have "last_value avs b = None" using assms(2) by (intro not_written) auto
    then show ?thesis using True by (simp add: word_at_global)
  next
    case False
    with glob.store_each_rd[OF assms(1), of b] show ?thesis
      by (auto simp: word_at_def split: option.split)
  qed
qed

lemma shared_add_words:
  assumes "atomic_each shm_load shm_store (ms_shared m) (local_pairs avs) = Inr s"
    and "\<forall>a \<in> fst ` set avs. a \<ge> SHARED_MEM_BASE"
  shows "adds_words m avs (m\<lparr>ms_shared := s\<rparr>)"
  unfolding adds_words_def
proof (intro allI impI)
  fix b x assume x: "word_at m b = Inr x"
  show "\<exists>y. word_at (m\<lparr>ms_shared := s\<rparr>) b = Inr y \<and> sint y = sint x + added_at avs b"
  proof (cases "b \<ge> SHARED_MEM_BASE")
    case True
    then have "shm_load (ms_shared m) (b - SHARED_MEM_BASE) = Inr x" using x by (simp add: word_at_def)
    from shar.atomic_each_rd[OF assms(1) this] show ?thesis
      using True local_pairs_at(2)[OF True assms(2)] by (simp add: word_at_shared)
  next
    case False
    then have "added_at avs b = 0" using assms(2) by (intro not_written) auto
    then show ?thesis using False x by (simp add: word_at_shared)
  qed
qed

lemma global_add_words:
  assumes "atomic_each gm_load gm_store (ms_global m) avs = Inr g"
    and "\<forall>a \<in> fst ` set avs. \<not> a \<ge> SHARED_MEM_BASE"
  shows "adds_words m avs (m\<lparr>ms_global := g\<rparr>)"
  unfolding adds_words_def
proof (intro allI impI)
  fix b x assume x: "word_at m b = Inr x"
  show "\<exists>y. word_at (m\<lparr>ms_global := g\<rparr>) b = Inr y \<and> sint y = sint x + added_at avs b"
  proof (cases "b \<ge> SHARED_MEM_BASE")
    case True
    then have "added_at avs b = 0" using assms(2) by (intro not_written) auto
    then show ?thesis using True x by (simp add: word_at_global)
  next
    case False
    then have "gm_load (ms_global m) b = Inr x" using x by (simp add: word_at_def)
    from glob.atomic_each_rd[OF assms(1) this] show ?thesis
      using False by (simp add: word_at_global)
  qed
qed

lemma ms_inv_update [simp]:
  "ms_inv (m\<lparr>ms_shared := s\<rparr>) = ms_inv m" "ms_inv (m\<lparr>ms_global := g\<rparr>) = ms_inv m"
  by (simp_all add: ms_inv_def)

lemma writes_words_same: "same_data m m1 \<Longrightarrow> writes_words m1 avs m' \<Longrightarrow> writes_words m avs m'"
  and adds_words_same: "same_data m m1 \<Longrightarrow> adds_words m1 avs m' \<Longrightarrow> adds_words m avs m'"
  by (simp_all add: writes_words_def adds_words_def same_data_word_at cong: option.case_cong)

lemma writes_words_Nil [simp]: "writes_words m [] m" "adds_words m [] m"
  by (simp_all add: writes_words_def adds_words_def last_value_simps)

lemma warp_store_correct:
  assumes inv: "ms_inv m" and run: "warp_store m addrs vals = Inr (r, m')"
  shows "ms_inv m' \<and> writes_words m (zip addrs vals) m' \<and> access_cost_ok m addrs r"
proof -
  consider (empty) "addrs = []" | (mixed) "addrs \<noteq> []" "mixed_spaces addrs"
    | (shared) "addrs \<noteq> []" "\<not> mixed_spaces addrs" "addrs ! 0 \<ge> SHARED_MEM_BASE"
    | (glob) "addrs \<noteq> []" "\<not> mixed_spaces addrs" "\<not> addrs ! 0 \<ge> SHARED_MEM_BASE" by blast
  then show ?thesis
  proof cases
    case shared
    then obtain avs s where w: "with_values addrs vals = Inr avs"
      and s: "store_each shm_store (ms_shared m) (local_pairs avs) = Inr s"
      and e: "m' = m\<lparr>ms_shared := s\<rparr>"
        "r = shared_result m addrs (if avs = [] then 0 else max 0 (mac_shared_memory_latency (ms_config m)))"
      using run by (auto simp: warp_store_def shared_store_loop)
    note wv = with_values_Inr[OF w]
    have sp: "\<forall>a \<in> fst ` set avs. a \<ge> SHARED_MEM_BASE"
      using same_space[OF shared(1,2)] shared(3) wv(2) by (metis list.set_map)
    show ?thesis
      using shared_write_words[OF s sp] inv e shared wv by (auto simp: access_cost_ok_def)
  next
    case glob
    then obtain mx d m1 avs g where t: "run_transactions write_latency m (coalesce addrs (get_l1_line_size m)) = Inr (mx, d, m1)"
      and w: "with_values addrs vals = Inr avs" and g: "store_each gm_store (ms_global m1) avs = Inr g"
      and r: "r = global_result (coalesce addrs (get_l1_line_size m)) mx d" "m' = m1\<lparr>ms_global := g\<rparr>"
      using run by (auto simp: warp_store_def Let_def)
    note ti = wr_path.run_transactions_inv(1,2)[OF inv t] and wv = with_values_Inr[OF w]
    have sp: "\<forall>a \<in> fst ` set avs. \<not> a \<ge> SHARED_MEM_BASE"
      using same_space[OF glob(1,2)] glob(3) wv(2) by (metis list.set_map)
    show ?thesis
      using writes_words_same[OF ti(2) global_write_words[OF g sp]] ti(1) r wv(1)
        wr_path.transactions_cost[OF inv glob(1,3) t] by simp
  qed (use inv run in \<open>simp_all add: warp_store_def access_cost_ok_def\<close>)
qed

lemma warp_atomic_add_correct:
  assumes inv: "ms_inv m" and run: "warp_atomic_add m addrs vals = Inr (r, m')"
  shows "ms_inv m' \<and> adds_words m (zip addrs vals) m' \<and> access_cost_ok m addrs r"
proof -
  consider (empty) "addrs = []" | (mixed) "addrs \<noteq> []" "mixed_spaces addrs"
    | (shared) "addrs \<noteq> []" "\<not> mixed_spaces addrs" "addrs ! 0 \<ge> SHARED_MEM_BASE"
    | (glob) "addrs \<noteq> []" "\<not> mixed_spaces addrs" "\<not> addrs ! 0 \<ge> SHARED_MEM_BASE" by blast
  then show ?thesis
  proof cases
    case shared
    then obtain avs s where w: "with_values addrs vals = Inr avs"
      and s: "atomic_each shm_load shm_store (ms_shared m) (local_pairs avs) = Inr s"
      and e: "m' = m\<lparr>ms_shared := s\<rparr>"
        "r = shared_result m addrs (if avs = [] then 0 else max 0 (mac_shared_memory_latency (ms_config m)))"
      using run by (auto simp: warp_atomic_add_def shared_atomic_loop)
    note wv = with_values_Inr[OF w]
    have sp: "\<forall>a \<in> fst ` set avs. a \<ge> SHARED_MEM_BASE"
      using same_space[OF shared(1,2)] shared(3) wv(2) by (metis list.set_map)
    show ?thesis
      using shared_add_words[OF s sp] inv e shared wv by (auto simp: access_cost_ok_def)
  next
    case glob
    then obtain mx d m1 avs g where t: "run_transactions write_latency m (coalesce addrs (get_l1_line_size m)) = Inr (mx, d, m1)"
      and w: "with_values addrs vals = Inr avs" and g: "atomic_each gm_load gm_store (ms_global m1) avs = Inr g"
      and r: "r = global_result (coalesce addrs (get_l1_line_size m)) mx d" "m' = m1\<lparr>ms_global := g\<rparr>"
      using run by (auto simp: warp_atomic_add_def Let_def)
    note ti = wr_path.run_transactions_inv(1,2)[OF inv t] and wv = with_values_Inr[OF w]
    have sp: "\<forall>a \<in> fst ` set avs. \<not> a \<ge> SHARED_MEM_BASE"
      using same_space[OF glob(1,2)] glob(3) wv(2) by (metis list.set_map)
    show ?thesis
      using adds_words_same[OF ti(2) global_add_words[OF g sp]] ti(1) r wv(1)
        wr_path.transactions_cost[OF inv glob(1,3) t] by simp
  qed (use inv run in \<open>simp_all add: warp_atomic_add_def access_cost_ok_def\<close>)
qed

text \<open>Exactly the accesses to mapped words of one address space go through.\<close>

lemma global_mapped:
  assumes "addrs \<noteq> []" "\<not> mixed_spaces addrs" "\<not> addrs ! 0 \<ge> SHARED_MEM_BASE" and "\<forall>a \<in> set addrs. mapped m a"
  shows "\<forall>a \<in> set addrs. a < length (gm_data (ms_global m))"
proof
  fix a assume a: "a \<in> set addrs"
  show "a < length (gm_data (ms_global m))"
    using assms(4)[THEN bspec, OF a] same_space[OF assms(1,2) a] assms(3) by (simp add: mapped_def)
qed

lemma warp_load_total:
  assumes inv: "ms_inv m" and sp: "addrs = [] \<or> \<not> mixed_spaces addrs"
    and mapped: "\<forall>a \<in> set addrs. mapped m a"
  shows "\<exists>r vals m'. warp_load m addrs = Inr (r, vals, m')"
proof -
  consider (empty) "addrs = []"
    | (shared) "addrs \<noteq> []" "\<not> mixed_spaces addrs" "addrs ! 0 \<ge> SHARED_MEM_BASE"
    | (glob) "addrs \<noteq> []" "\<not> mixed_spaces addrs" "\<not> addrs ! 0 \<ge> SHARED_MEM_BASE" using sp by blast
  then show ?thesis
  proof cases
    case shared
    have "a - SHARED_MEM_BASE < length (shm_data (ms_shared m))" if "a \<in> set addrs" for a
      using mapped[THEN bspec, OF that] same_space[OF shared(1,2) that] shared(3) by (simp add: mapped_def)
    then have "\<forall>a \<in> set (map (\<lambda>a. a - SHARED_MEM_BASE) addrs). a < length (shm_data (ms_shared m))"
      by simp
    then obtain vs where "load_each shm_load (ms_shared m) (map (\<lambda>a. a - SHARED_MEM_BASE) addrs) = Inr vs"
      using shar.load_each_iff by blast
    then show ?thesis using shared by (simp add: warp_load_def shared_load_loop)
  next
    case glob
    obtain mx d m1 where t: "run_transactions read_latency m (coalesce addrs (get_l1_line_size m)) = Inr (mx, d, m1)"
      using rd_path.run_transactions_total[OF inv] by blast
    have "ms_global m1 = ms_global m"
      using rd_path.run_transactions_inv(2)[OF inv t] by (simp add: same_data_def)
    then have "\<forall>a \<in> set addrs. a < length (gm_data (ms_global m1))"
      using global_mapped[OF glob mapped] by simp
    then obtain vs where "load_each gm_load (ms_global m1) addrs = Inr vs"
      using glob.load_each_iff by blast
    then show ?thesis using glob t by (simp add: warp_load_def Let_def)
  qed (simp add: warp_load_def)
qed

lemma warp_store_total:
  assumes inv: "ms_inv m" and sp: "addrs = [] \<or> \<not> mixed_spaces addrs"
    and mapped: "\<forall>a \<in> set addrs. mapped m a" and len: "length vals = length addrs"
  shows "\<exists>r m'. warp_store m addrs vals = Inr (r, m')"
proof -
  have w: "with_values addrs vals = Inr (zip addrs vals)" using len by (simp add: with_values_def)
  consider (empty) "addrs = []"
    | (shared) "addrs \<noteq> []" "\<not> mixed_spaces addrs" "addrs ! 0 \<ge> SHARED_MEM_BASE"
    | (glob) "addrs \<noteq> []" "\<not> mixed_spaces addrs" "\<not> addrs ! 0 \<ge> SHARED_MEM_BASE" using sp by blast
  then show ?thesis
  proof cases
    case shared
    have "a - SHARED_MEM_BASE < length (shm_data (ms_shared m))" if "a \<in> set addrs" for a
      using mapped[THEN bspec, OF that] same_space[OF shared(1,2) that] shared(3) by (simp add: mapped_def)
    then have "\<forall>(a, v) \<in> set (local_pairs (zip addrs vals)). a < length (shm_data (ms_shared m))"
      by (auto simp: local_pairs_def dest: set_zip_leftD)
    then obtain s where "store_each shm_store (ms_shared m) (local_pairs (zip addrs vals)) = Inr s"
      using shar.store_each_total by blast
    then show ?thesis using shared w by (simp add: warp_store_def shared_store_loop)
  next
    case glob
    obtain mx d m1 where t: "run_transactions write_latency m (coalesce addrs (get_l1_line_size m)) = Inr (mx, d, m1)"
      using wr_path.run_transactions_total[OF inv] by blast
    have "ms_global m1 = ms_global m"
      using wr_path.run_transactions_inv(2)[OF inv t] by (simp add: same_data_def)
    then have "\<forall>(a, v) \<in> set (zip addrs vals). a < length (gm_data (ms_global m1))"
      using global_mapped[OF glob mapped] by (auto dest: set_zip_leftD)
    then obtain g where "store_each gm_store (ms_global m1) (zip addrs vals) = Inr g"
      using glob.store_each_total by blast
    then show ?thesis using glob t w by (simp add: warp_store_def Let_def)
  qed (simp add: warp_store_def)
qed

end
