(* ===== verification/Memory_Properties.thy ===== *)
theory Memory_Properties
  imports Memory_System
begin

text \<open>
  The properties of the memory hierarchy: the cache against its statistics and its replacement
  policies, bank conflicts and coalescing, and the warp accesses against the flat address
  space. Every property with a hypothesis is followed by a witness on concrete objects.
\<close>

section \<open>Concrete objects for the witnesses\<close>

definition ex_rng :: "nat \<Rightarrow> nat \<Rightarrow> nat" where
  "ex_rng k n = 0"

lemma ex_rng_range: "random_range ex_rng"
  by (simp add: random_range_def ex_rng_def)

text \<open>A fresh cache of one line size 4 and the given shape; the shapes used below are legal.\<close>

definition ex_cache :: "size_t \<Rightarrow> size_t \<Rightarrow> string \<Rightarrow> cache" where
  "ex_cache s n pol = (case new_cache ex_rng s n 4 pol of Inr c \<Rightarrow> c
     | Inl _ \<Rightarrow> \<lparr>ca_num_sets = 0, ca_associativity = 0, ca_line_size = 0, ca_name = '''', ca_events = None,
                ca_stats = zero_cache_stats, ca_sets = [], ca_policies = []\<rparr>)"

lemma ex_cache_new:
  "0 < s \<Longrightarrow> 0 < n \<Longrightarrow> pol \<in> {''LRU'', ''FIFO'', ''Random''} \<Longrightarrow> new_cache ex_rng s n 4 pol = Inr (ex_cache s n pol)"
  by (auto simp: ex_cache_def new_cache_def)

definition ex_memory :: memory_system where
  "ex_memory = \<lparr>ms_shared = new_shared_memory 8 2, ms_l1 = ex_cache 1 1 ''LRU'', ms_l2 = ex_cache 1 2 ''LRU'',
     ms_global = new_global_memory 16, ms_config = default_access_config\<rparr>"

lemma ex_memory_inv: "ms_inv ex_memory"
  using new_cache_inv[OF ex_rng_range ex_cache_new[of 1 1 "''LRU''"]]
    new_cache_inv[OF ex_rng_range ex_cache_new[of 1 2 "''LRU''"]]
  by (simp add: ms_inv_def ex_memory_def)

section \<open>The cache\<close>

text \<open>
  C27: A cache built by the constructor serves every sequence of reads and writes without an
  exception or undefined behaviour, and its statistics account for it exactly: one access per
  operation, hits and misses add up to the accesses, the misses are the evictions plus the
  lines now resident, and dirty evictions are evictions.
\<close>

theorem cache_statistics:
  assumes "random_range rng" and "new_cache rng sets ways line pol = Inr c"
  shows "\<exists>rs c'. cache_run c ops = Inr (rs, c') \<and> length rs = length ops \<and>
    cs_accesses (ca_stats c') = length ops \<and>
    cs_hits (ca_stats c') = length (filter car_hit rs) \<and>
    cs_hits (ca_stats c') + cs_misses (ca_stats c') = length ops \<and>
    cs_misses (ca_stats c') = cs_evictions (ca_stats c') + resident_lines c' \<and>
    cs_dirty_evictions (ca_stats c') \<le> cs_evictions (ca_stats c')"
proof -
  have inv: "cache_inv c" "stats_inv c" using new_cache_inv[OF assms] by blast+
  from cache_run_inv[OF inv, of ops] obtain rs c' where
    run: "cache_run c ops = Inr (rs, c')" "stats_inv c'" "length rs = length ops" by blast
  show ?thesis
    using cache_run_counts[OF run(1)] run new_cache_stats[OF assms(2)]
    by (simp add: stats_inv_def zero_cache_stats_def)
qed

theorem cache_statistics_witness:
  "\<exists>rs c'. cache_run (ex_cache 2 2 ''Random'') [(0, True), (4, False), (16, False), (40, False)] = Inr (rs, c') \<and>
    cs_accesses (ca_stats c') = 4 \<and> cs_misses (ca_stats c') = cs_evictions (ca_stats c') + resident_lines c'"
  using cache_statistics[OF ex_rng_range ex_cache_new[of 2 2 "''Random''"],
      of "[(0, True), (4, False), (16, False), (40, False)]"]
  by auto

text \<open>
  C28: An access leaves its line cached, reports a hit exactly when the line was cached before,
  and leaves every other set, lines and replacement state, as it was.
\<close>

theorem cache_access_effect:
  assumes "cache_inv c" and "lookup_and_fill c a wr cyc = Inr (r, c')"
  shows "cached c' a \<and> (car_hit r \<longleftrightarrow> cached c a) \<and> cache_inv c' \<and>
    (\<forall>i. i \<noteq> ca_set_index c a \<longrightarrow> ca_sets c' ! i = ca_sets c ! i \<and> ca_policies c' ! i = ca_policies c ! i)"
  using lookup_and_fill_inv[OF assms] by blast

theorem cache_access_effect_witness:
  "\<exists>r c'. lookup_and_fill (ex_cache 2 2 ''FIFO'') 8 True 0 = Inr (r, c') \<and> cached c' 8"
proof -
  have inv: "cache_inv (ex_cache 2 2 ''FIFO'')"
    using new_cache_inv[OF ex_rng_range ex_cache_new[of 2 2 "''FIFO''"]] by simp
  obtain r c' where run: "lookup_and_fill (ex_cache 2 2 ''FIFO'') 8 True 0 = Inr (r, c')"
    using lookup_and_fill_ok[OF inv] by blast
  from cache_access_effect[OF inv run] run show ?thesis by blast
qed

text \<open>
  C10: A set under the LRU policy is a recency stack: the access of the cache, which keeps a list
  of way numbers beside the lines, gives the result and the new contents of the abstract machine
  that moves the tag to the front and drops the last one when the set is full.
\<close>

theorem lru_refines_stack:
  assumes "cache_inv c" and "all_lru c" and "lookup_and_fill c a wr cyc = Inr (r, c')"
  shows "lru_spec (ca_associativity c) (ca_tag_of c a) wr (set_contents c (ca_set_index c a))
       = (r, set_contents c' (ca_set_index c a)) \<and> all_lru c'"
  using all_lru_step[OF assms] by blast

theorem lru_refines_stack_witness:
  "\<exists>r c'. lookup_and_fill (ex_cache 1 2 ''LRU'') 4 True 0 = Inr (r, c') \<and>
    lru_spec 2 1 True [] = (r, set_contents c' 0)"
proof -
  note n = new_lru_cache[OF ex_cache_new[of 1 2 "''LRU''"]]
  have inv: "cache_inv (ex_cache 1 2 ''LRU'')" "all_lru (ex_cache 1 2 ''LRU'')" using n(1,2) by simp_all
  have idx: "ca_set_index (ex_cache 1 2 ''LRU'') 4 = 0" "ca_tag_of (ex_cache 1 2 ''LRU'') 4 = 1"
    "ca_associativity (ex_cache 1 2 ''LRU'') = 2" "set_contents (ex_cache 1 2 ''LRU'') 0 = []"
    using n(3)[of 0] n(4,5,6) by (simp_all add: ca_set_index_def ca_tag_of_def)
  obtain r c' where run: "lookup_and_fill (ex_cache 1 2 ''LRU'') 4 True 0 = Inr (r, c')"
    using lookup_and_fill_ok[OF inv(1)] by blast
  from lru_refines_stack[OF inv run] run idx show ?thesis by auto
qed

text \<open>
  C33: A set under the FIFO policy is a queue: the access gives the result and the new contents
  of the abstract machine that enqueues a missing tag, dequeues the oldest one when the set is
  full, and does not reorder on a hit.
\<close>

theorem fifo_refines_queue:
  assumes "cache_inv c" and "all_fifo c" and "lookup_and_fill c a wr cyc = Inr (r, c')"
  shows "fifo_spec (ca_associativity c) (ca_tag_of c a) wr (set_contents c (ca_set_index c a))
       = (r, set_contents c' (ca_set_index c a)) \<and> all_fifo c'"
  using all_fifo_step[OF assms] by blast

theorem fifo_refines_queue_witness:
  "\<exists>r c'. lookup_and_fill (ex_cache 1 2 ''FIFO'') 4 True 0 = Inr (r, c') \<and> all_fifo c'"
proof -
  have inv: "cache_inv (ex_cache 1 2 ''FIFO'')"
    using new_cache_inv[OF ex_rng_range ex_cache_new[of 1 2 "''FIFO''"]] by simp
  have fifo: "all_fifo (ex_cache 1 2 ''FIFO'')"
    by (simp add: all_fifo_def ex_cache_def new_cache_def)
  obtain r c' where run: "lookup_and_fill (ex_cache 1 2 ''FIFO'') 4 True 0 = Inr (r, c')"
    using lookup_and_fill_ok[OF inv] by blast
  from fifo_refines_queue[OF inv fifo run] run show ?thesis by blast
qed

text \<open>
  C34: LRU has the stack inclusion property: on the same sequence of accesses, a cache with at
  least as many ways hits wherever the one with fewer ways does.
\<close>

theorem lru_inclusion:
  assumes "new_cache rng1 sets m line ''LRU'' = Inr c" and "new_cache rng2 sets n line ''LRU'' = Inr d" and "m \<le> n"
    and "cache_run c ops = Inr (rs1, c')" and "cache_run d ops = Inr (rs2, d')"
  shows "list_all2 (\<lambda>r1 r2. car_hit r1 \<longrightarrow> car_hit r2) rs1 rs2"
  using lru_included_run[OF new_lru_included[OF assms(1-3)] assms(4,5)] .

definition hit_bits :: "cache \<Rightarrow> (size_t \<times> bool) list \<Rightarrow> bool list option" where
  "hit_bits c ops = (case cache_run c ops of Inl _ \<Rightarrow> None | Inr (rs, c') \<Rightarrow> Some (map car_hit rs))"

lemma hit_bitsE:
  assumes "hit_bits c ops = Some bs"
  obtains rs c' where "cache_run c ops = Inr (rs, c')" and "map car_hit rs = bs"
  using assms by (auto simp: hit_bits_def split: sum.splits)

theorem lru_inclusion_witness:
  "\<exists>(rs1 :: cache_access_result list) (rs2 :: cache_access_result list).
    map car_hit rs1 = [False, False, False, False] \<and> map car_hit rs2 = [False, False, False, True] \<and>
    list_all2 (\<lambda>r1 r2. car_hit r1 \<longrightarrow> car_hit r2) rs1 rs2"
proof -
  let ?ops = "[(0, False), (4, False), (8, False), (0, False)]"
  have n: "new_cache ex_rng 1 2 4 ''LRU'' = Inr (ex_cache 1 2 ''LRU'')"
    "new_cache ex_rng 1 3 4 ''LRU'' = Inr (ex_cache 1 3 ''LRU'')" by (simp_all add: ex_cache_new)
  have "hit_bits (ex_cache 1 2 ''LRU'') ?ops = Some [False, False, False, False]" by code_simp
  then obtain rs1 c' where r1: "cache_run (ex_cache 1 2 ''LRU'') ?ops = Inr (rs1, c')"
    and h1: "map car_hit rs1 = [False, False, False, False]" by (elim hit_bitsE)
  have "hit_bits (ex_cache 1 3 ''LRU'') ?ops = Some [False, False, False, True]" by code_simp
  then obtain rs2 d' where r2: "cache_run (ex_cache 1 3 ''LRU'') ?ops = Inr (rs2, d')"
    and h2: "map car_hit rs2 = [False, False, False, True]" by (elim hit_bitsE)
  have "list_all2 (\<lambda>r1 r2. car_hit r1 \<longrightarrow> car_hit r2) rs1 rs2"
    by (rule lru_inclusion[OF n _ r1 r2]) simp
  with h1 h2 show ?thesis by (intro exI[of _ rs1] exI[of _ rs2] conjI)
qed

definition belady_string :: "(size_t \<times> bool) list" where
  "belady_string = map (\<lambda>t. (4 * t, False)) [1, 2, 3, 4, 1, 2, 5, 1, 2, 3, 4, 5]"

definition hits_of :: "cache \<Rightarrow> (size_t \<times> bool) list \<Rightarrow> nat option" where
  "hits_of c ops = (case cache_run c ops of Inl _ \<Rightarrow> None | Inr (rs, c') \<Rightarrow> Some (cs_hits (ca_stats c')))"

text \<open>
  FIFO has not: on the classical reference string, four ways hit less often than three
  (Belady's anomaly), which the model exhibits by evaluation.
\<close>

theorem fifo_belady:
  "hits_of (ex_cache 1 3 ''FIFO'') belady_string = Some 3 \<and> hits_of (ex_cache 1 4 ''FIFO'') belady_string = Some 2"
  by code_simp

section \<open>Warp accesses\<close>

lemma ex_memory_parts:
  "ms_config ex_memory = default_access_config" "get_l1_line_size ex_memory = 4"
  "shm_data (ms_shared ex_memory) = replicate 8 0" "gm_data (ms_global ex_memory) = replicate 16 0"
  by (simp_all add: ex_memory_def ex_cache_def new_cache_def get_l1_line_size_def
      new_shared_memory_def new_global_memory_def)

lemma ex_global_ok: "\<not> mixed_spaces [0, 5, 9, 5]" "\<forall>a \<in> set [0, 5, 9, 5]. mapped ex_memory a"
  by (simp_all add: mixed_spaces_def SHARED_MEM_BASE_def mapped_def ex_memory_parts)

text \<open>
  A warp load succeeds exactly when its addresses lie in one address space and every one
  of them is mapped; addresses of both spaces give the exception of the source.
\<close>

theorem warp_load_defined:
  assumes "ms_inv m"
  shows "((\<exists>r vals m'. warp_load m addrs = Inr (r, vals, m')) \<longleftrightarrow>
      (addrs = [] \<or> \<not> mixed_spaces addrs) \<and> (\<forall>a \<in> set addrs. mapped m a)) \<and>
    (addrs \<noteq> [] \<longrightarrow> mixed_spaces addrs \<longrightarrow> warp_load m addrs = Inl mixed_error)"
proof -
  have "(addrs = [] \<or> \<not> mixed_spaces addrs) \<and> (\<forall>a \<in> set addrs. mapped m a)"
    if run: "warp_load m addrs = Inr (r, vals, m')" for r vals m'
  proof -
    have "list_all2 (\<lambda>a v. word_at m a = Inr v) addrs vals" using warp_load_correct[OF assms run] by blast
    then have "\<forall>a \<in> set addrs. mapped m a"
      by (auto simp: word_at_mapped list_all2_conv_all_nth in_set_conv_nth)
    moreover have "addrs = [] \<or> \<not> mixed_spaces addrs" using run by (auto simp: warp_load_def)
    ultimately show ?thesis by blast
  qed
  moreover have "addrs \<noteq> [] \<Longrightarrow> mixed_spaces addrs \<Longrightarrow> warp_load m addrs = Inl mixed_error"
    by (simp add: warp_load_def)
  ultimately show ?thesis using warp_load_total[OF assms, of addrs] by blast
qed

theorem warp_load_defined_witness:
  "(\<exists>r vals m'. warp_load ex_memory [0, 5, 9, 5] = Inr (r, vals, m')) \<and>
   warp_load ex_memory [0, SHARED_MEM_BASE] = Inl mixed_error"
  using warp_load_defined[OF ex_memory_inv, of "[0, 5, 9, 5]"] ex_global_ok
    warp_load_defined[OF ex_memory_inv, of "[0, SHARED_MEM_BASE]"]
  by (simp add: mixed_spaces_def SHARED_MEM_BASE_def)

text \<open>
  C9: The caches are invisible to the data: a warp load returns, lane by lane, the words of the
  flat address space, changes nothing but the caches, keeps the memory invariant, and its cost
  is the bank conflicts of the shared path or the number of distinct lines of the global one,
  with a latency between the L1 latency and the worst path.
\<close>

theorem warp_load_reads_memory:
  assumes "ms_inv m" and "warp_load m addrs = Inr (r, vals, m')"
  shows "list_all2 (\<lambda>a v. word_at m a = Inr v) addrs vals \<and> same_data m m' \<and> ms_inv m' \<and>
    access_cost_ok m addrs r"
  using warp_load_correct[OF assms] by blast

theorem warp_load_reads_memory_witness:
  "\<exists>r m'. warp_load ex_memory [0, 5, 9, 5] = Inr (r, [0, 0, 0, 0], m') \<and> wmr_num_transactions r = 3"
proof -
  obtain r vals m' where run: "warp_load ex_memory [0, 5, 9, 5] = Inr (r, vals, m')"
    using warp_load_total[OF ex_memory_inv disjI2[OF ex_global_ok(1)] ex_global_ok(2)] by blast
  from warp_load_reads_memory[OF ex_memory_inv run]
  have "vals = [0, 0, 0, 0] \<and> wmr_num_transactions r = card {0, 1, 2::nat}"
    by (auto simp: list_all2_Cons1 word_at_def gm_load_def ex_memory_parts SHARED_MEM_BASE_def access_cost_ok_def card_insert_if)
  with run show ?thesis by simp
qed

text \<open>
  C16: A warp store writes the flat address space lane by lane: each address ends with the value
  of the last lane that names it, and every other word, shared or global, keeps its value.
\<close>

theorem warp_store_last_lane_wins:
  assumes "ms_inv m" and "warp_store m addrs vals = Inr (r, m')"
  shows "(\<forall>b. word_at m' b = (case last_value (zip addrs vals) b of Some v \<Rightarrow> Inr v | None \<Rightarrow> word_at m b)) \<and>
    ms_inv m' \<and> access_cost_ok m addrs r"
  using warp_store_correct[OF assms] by (simp add: writes_words_def)

theorem warp_store_last_lane_wins_witness:
  "\<exists>r m'. warp_store ex_memory [0, 5, 9, 5] [1, 2, 3, 4] = Inr (r, m') \<and>
    word_at m' 5 = Inr 4 \<and> word_at m' 9 = Inr 3 \<and> word_at m' 6 = Inr 0"
proof -
  obtain r m' where run: "warp_store ex_memory [0, 5, 9, 5] [1, 2, 3, 4] = Inr (r, m')"
    using warp_store_total[OF ex_memory_inv disjI2[OF ex_global_ok(1)] ex_global_ok(2), of "[1, 2, 3, 4]"] by auto
  have "last_value [(0, 1), (5, 2), (9, 3), (5, 4::c_int)] 5 = Some 4"
    "last_value [(0, 1), (5, 2), (9, 3), (5, 4::c_int)] 9 = Some 3"
    "last_value [(0, 1), (5, 2), (9, 3), (5, 4::c_int)] 6 = None" by (simp_all add: last_value_simps)
  moreover have "word_at ex_memory 6 = Inr 0"
    by (simp add: word_at_def gm_load_def ex_memory_parts SHARED_MEM_BASE_def)
  moreover have w: "word_at m' b = (case last_value [(0, 1), (5, 2), (9, 3), (5, 4)] b of Some v \<Rightarrow> Inr v
      | None \<Rightarrow> word_at ex_memory b)" for b
    using warp_store_last_lane_wins[OF ex_memory_inv run] by simp
  ultimately show ?thesis using run w[of 5] w[of 9] w[of 6] by simp
qed

text \<open>
  C17: A warp atomic adds without losing an update: when it returns, every word has grown by
  the sum of the values of the lanes that name it, in the integers, so nothing has wrapped.
\<close>

theorem warp_atomic_adds_all:
  assumes "ms_inv m" and "warp_atomic_add m addrs vals = Inr (r, m')" and "word_at m b = Inr x"
  shows "\<exists>y. word_at m' b = Inr y \<and> sint y = sint x + added_at (zip addrs vals) b"
  using warp_atomic_add_correct[OF assms(1,2)] assms(3) by (simp add: adds_words_def)

theorem warp_atomic_adds_all_witness:
  "\<exists>r m' y. warp_atomic_add ex_memory [5, 9, 5] [1, 2, 3] = Inr (r, m') \<and> word_at m' 5 = Inr y \<and> sint y = 4"
proof -
  obtain mx d m1 where t: "run_transactions write_latency ex_memory (coalesce [5, 9, 5] 4) = Inr (mx, d, m1)"
    using wr_path.run_transactions_total[OF ex_memory_inv] by blast
  have "ms_global m1 = ms_global ex_memory"
    using wr_path.run_transactions_inv(2)[OF ex_memory_inv t] by (simp add: same_data_def)
  then have "\<exists>g. atomic_each gm_load gm_store (ms_global m1) [(5, 1), (9, 2), (5, 3)] = Inr g"
    by (simp add: atomic_each_def gm_load_def gm_store_def c_add_def checked_int_def ex_memory_parts)
  then obtain r m' where run: "warp_atomic_add ex_memory [5, 9, 5] [1, 2, 3] = Inr (r, m')"
    using t by (auto simp: warp_atomic_add_def Let_def mixed_spaces_def SHARED_MEM_BASE_def with_values_def
        ex_memory_parts)
  have "word_at ex_memory 5 = Inr 0"
    by (simp add: word_at_def gm_load_def ex_memory_parts SHARED_MEM_BASE_def)
  from warp_atomic_adds_all[OF ex_memory_inv run this] run show ?thesis by auto
qed

text \<open>
  A second access to the line of an address costs the L1 latency alone and writes nothing
  back, for reads and for writes (the caches allocate on a write).
\<close>

theorem second_access_costs_l1:
  assumes "ms_inv m" and "step \<in> {read_latency, write_latency}"
    and "step m a = Inr (lat1, d1, m1)" and "step m1 a = Inr (lat2, d2, m2)"
  shows "lat2 = mac_l1_latency (ms_config m) \<and> d2 = 0 \<and>
    mac_l1_latency (ms_config m) \<le> lat1 \<and> lat1 \<le> worst_latency (ms_config m)"
  using assms(2) rd_path.second_access_hits[OF assms(1), of a lat1 d1 m1 lat2 d2 m2]
    wr_path.second_access_hits[OF assms(1), of a lat1 d1 m1 lat2 d2 m2]
    rd_path.step_bounds[OF assms(1), of a lat1 d1 m1] wr_path.step_bounds[OF assms(1), of a lat1 d1 m1]
    assms(3,4) by auto

theorem second_access_costs_l1_witness:
  "\<exists>lat1 d1 m1 lat2 d2 m2. write_latency ex_memory 4 = Inr (lat1, d1, m1) \<and>
    write_latency m1 4 = Inr (lat2, d2, m2) \<and> lat2 = 5 \<and> d2 = 0"
proof -
  obtain lat1 d1 m1 where 1: "write_latency ex_memory 4 = Inr (lat1, d1, m1)"
    using wr_path.step_total[OF ex_memory_inv] by blast
  obtain lat2 d2 m2 where 2: "write_latency m1 4 = Inr (lat2, d2, m2)"
    using wr_path.step_total[OF conjunct1[OF wr_path.step_inv[OF ex_memory_inv 1]]] by blast
  from second_access_costs_l1[of ex_memory write_latency, OF ex_memory_inv _ 1 2] 1 2 show ?thesis
    by (auto simp: ex_memory_parts default_access_config_def)
qed

text \<open>
  The number of bank conflicts is one less than the number of distinct words that the
  fullest bank is asked for; lanes that name the same word do not conflict.
\<close>

theorem bank_conflicts_fullest:
  assumes "addrs \<noteq> []" and "0 < shm_num_banks m"
  shows "compute_bank_conflicts m addrs = fullest_bank (shm_num_banks m) addrs - 1 \<and>
    compute_bank_conflicts m addrs < length addrs"
  using bank_conflicts_eq[OF assms] bank_conflicts_le[of m addrs] assms(1)
  by (cases addrs) auto

theorem bank_conflicts_fullest_witness:
  "fullest_bank 2 [0, 8, 9, 16, 4] = 3 \<and> compute_bank_conflicts (new_shared_memory 8 2) [0, 8, 9, 16, 4] = 2"
proof -
  have "compute_bank_conflicts (new_shared_memory 8 2) [0, 8, 9, 16, 4] = 2" by code_simp
  with bank_conflicts_fullest[of "[0, 8, 9, 16, 4]" "new_shared_memory 8 2"]
  show ?thesis by (simp add: new_shared_memory_def)
qed

text \<open>
  The coalescer emits each touched line once and in ascending order, every address lies in
  exactly one of the emitted lines, and there are as many as distinct line numbers.
\<close>

theorem coalescing_minimal:
  assumes "0 < line_size"
  shows "sorted (coalesce addrs line_size) \<and> distinct (coalesce addrs line_size) \<and>
    length (coalesce addrs line_size) = card ((\<lambda>a. a div line_size) ` set addrs) \<and>
    (\<forall>a \<in> set addrs. \<exists>!b. b \<in> set (coalesce addrs line_size) \<and> b \<le> a \<and> a < b + line_size)"
  using coalesce_props(1,2)[OF assms, of addrs] length_coalesce[OF assms, of addrs] coalesce_covers[OF assms] by blast

theorem coalescing_minimal_witness:
  "coalesce [9, 0, 5, 1] 4 = [0, 4, 8] \<and> card ((\<lambda>a. a div 4) ` set [9, 0, 5, 1::nat]) = 3"
proof -
  have "coalesce [9, 0, 5, 1] 4 = [0, 4, 8]" by code_simp
  with coalescing_minimal[of 4 "[9, 0, 5, 1]"] show ?thesis by simp
qed

text \<open>
  The average memory access time lies between the L1 latency and the latency of the worst
  path, whatever the counters, once they are a cache's.
\<close>

theorem amat_range:
  assumes "ms_inv m"
  shows "of_nat (mac_l1_latency (ms_config m)) \<le> compute_amat m \<and>
    compute_amat m \<le> of_nat (worst_latency (ms_config m))"
proof -
  define frac :: "nat \<Rightarrow> nat \<Rightarrow> rat" where "frac a b = (if b > 0 then of_nat a / of_nat b else 0)" for a b
  have frac: "0 \<le> frac a b \<and> frac a b \<le> 1" if "a \<le> b" for a b
    using that by (simp add: frac_def divide_le_eq)
  let ?l1 = "ca_stats (ms_l1 m)" and ?l2 = "ca_stats (ms_l2 m)" and ?cfg = "ms_config m"
  let ?L1 = "of_nat (mac_l1_latency ?cfg) :: rat" and ?L2 = "of_nat (mac_l2_latency ?cfg) :: rat"
    and ?G = "of_nat (mac_global_memory_latency ?cfg) :: rat" and ?W = "of_nat (mac_writeback_latency ?cfg) :: rat"
  define x where "x = frac (cs_misses ?l1) (cs_hits ?l1 + cs_misses ?l1)"
  define y where "y = frac (cs_misses ?l2) (cs_hits ?l2 + cs_misses ?l2)"
  define z where "z = frac (cs_dirty_evictions ?l1) (cs_hits ?l1 + cs_misses ?l1)"
  have amat: "compute_amat m = ?L1 + x * (?L2 + y * ?G) + z * ?W"
    by (simp add: compute_amat_def Let_def x_def y_def z_def frac_def)
  have "stats_inv (ms_l1 m)" using assms by (simp add: ms_inv_def)
  then have "cs_dirty_evictions ?l1 \<le> cs_hits ?l1 + cs_misses ?l1" by (simp add: stats_inv_def)
  then have b: "0 \<le> x" "x \<le> 1" "0 \<le> y" "y \<le> 1" "0 \<le> z" "z \<le> 1"
    using frac[of "cs_misses ?l1" "cs_hits ?l1 + cs_misses ?l1"] frac[of "cs_misses ?l2" "cs_hits ?l2 + cs_misses ?l2"]
      frac[of "cs_dirty_evictions ?l1" "cs_hits ?l1 + cs_misses ?l1"] by (simp_all add: x_def y_def z_def)
  have p: "0 \<le> ?L2" "0 \<le> ?G" "0 \<le> ?W" by simp_all
  have yG: "0 \<le> y * ?G" "y * ?G \<le> ?G" using b p by (auto intro: mult_left_le_one_le)
  then have "0 \<le> x * (?L2 + y * ?G)" "x * (?L2 + y * ?G) \<le> ?L2 + y * ?G"
    using b p by (auto intro: mult_left_le_one_le)
  moreover have "0 \<le> z * ?W" "z * ?W \<le> ?W" using b p by (auto intro: mult_left_le_one_le)
  ultimately show ?thesis using yG by (simp add: amat worst_latency_def)
qed

theorem amat_range_witness: "5 \<le> compute_amat ex_memory \<and> compute_amat ex_memory \<le> 145"
  using amat_range[OF ex_memory_inv] by (simp add: ex_memory_parts default_access_config_def worst_latency_def)

end
