(* ===== verification/Warp.thy ===== *)
theory Warp
  imports Storage
begin

text \<open>
  The instruction and kernel types (\<^verbatim>\<open>include/instruction/instruction.hpp\<close>,
  \<^verbatim>\<open>src/architecture/kernel.cpp\<close>), threads, warps, blocks and grids
  (\<^verbatim>\<open>src/architecture/thread.cpp\<close>, \<^verbatim>\<open>warp.cpp\<close>, \<^verbatim>\<open>thread_block.cpp\<close>, \<^verbatim>\<open>grid.cpp\<close>)
  with every operation of a warp: its SIMT stack, its scheduling state machine and its
  waiting and starvation counters.
\<close>

section \<open>Instructions and kernels\<close>

datatype opcode = ADD | SUB | MUL | MOV | LOAD | STORE | CMP | BRANCH | BARRIER | ATOMIC_ADD | SSY | SYNC

record instruction =
  inst_opcode :: opcode
  inst_dst :: c_int
  inst_src1 :: c_int
  inst_src2 :: c_int
  inst_immediate :: c_int

text \<open>\<open>{op, dst, src1, src2, immediate}\<close>\<close>

definition instr :: "opcode \<Rightarrow> c_int \<Rightarrow> c_int \<Rightarrow> c_int \<Rightarrow> c_int \<Rightarrow> instruction" where
  "instr oc d a b imm = \<lparr>inst_opcode = oc, inst_dst = d, inst_src1 = a, inst_src2 = b, inst_immediate = imm\<rparr>"

record kernel =
  k_name :: string
  k_instructions :: "instruction list"

section \<open>Threads\<close>

record thread =
  t_global_id :: size_t
  t_block_id :: size_t
  t_local_id :: size_t
  t_warp_id :: size_t
  t_lane_id :: size_t
  t_registers :: register_file
  t_pc :: c_int
  t_predicate :: bool

definition new_thread :: "size_t \<Rightarrow> size_t \<Rightarrow> size_t \<Rightarrow> size_t \<Rightarrow> size_t \<Rightarrow> thread" where
  "new_thread global_id block_id local_id warp_id lane_id =
     \<lparr>t_global_id = global_id, t_block_id = block_id, t_local_id = local_id, t_warp_id = warp_id,
      t_lane_id = lane_id, t_registers = new_register_file 32, t_pc = 0, t_predicate = False\<rparr>"

definition set_pc :: "thread \<Rightarrow> c_int \<Rightarrow> thread" where
  "set_pc t pc = t\<lparr>t_pc := pc\<rparr>"

definition set_predicate :: "thread \<Rightarrow> bool \<Rightarrow> thread" where
  "set_predicate t v = t\<lparr>t_predicate := v\<rparr>"

section \<open>Lane masks\<close>

text \<open>\<open>std::bitset<32>\<close>; \<open>test\<close> throws past the last bit.\<close>

type_synonym lane_mask = "32 word"

definition mask_test :: "lane_mask \<Rightarrow> size_t \<Rightarrow> bool result" where
  "mask_test m i = (if i \<ge> 32 then Inl (Out_of_range ''bitset::test'') else Inr (bit m i))"

definition mask_count :: "lane_mask \<Rightarrow> size_t" where
  "mask_count m = length (filter (bit m) [0..<32])"

lemma mask_test_Inr [simp]: "i < 32 \<Longrightarrow> mask_test m i = Inr (bit m i)"
  by (simp add: mask_test_def)

lemma mask_count_card: "mask_count m = card {i. bit m i}"
proof -
  have "set (filter (bit m) [0..<32]) = {i. bit m i}"
    by (auto dest: bit_imp_le_length)
  moreover have "distinct (filter (bit m) [0..<32])" by simp
  ultimately show ?thesis by (metis mask_count_def distinct_card)
qed

section \<open>Warps\<close>

datatype warp_state = Ready | Stalled | StalledAtBarrier | Completed

record simt_entry =
  se_active_mask :: lane_mask
  se_target_pc :: size_t
  se_reconvergence_pc :: size_t

text \<open>\<open>w_stack\<close> is \<open>simt_stack_\<close> with its back as the head of the list.\<close>

record warp =
  w_id :: size_t
  w_threads :: "thread list"
  w_state :: warp_state
  w_pc :: size_t
  w_stall_cycles :: size_t
  w_priority :: c_int
  w_ready_since :: size_t
  w_wait_cycles :: size_t
  w_starvation_recorded :: bool
  w_active_mask :: lane_mask
  w_reconvergence_pc :: size_t
  w_stack :: "simt_entry list"

definition new_warp :: "size_t \<Rightarrow> warp" where
  "new_warp warp_id =
     \<lparr>w_id = warp_id, w_threads = [], w_state = Ready, w_pc = 0, w_stall_cycles = 0, w_priority = 0,
      w_ready_since = 0, w_wait_cycles = 0, w_starvation_recorded = False, w_active_mask = 0,
      w_reconvergence_pc = size_max, w_stack = []\<rparr>"

definition add_thread :: "warp \<Rightarrow> thread \<Rightarrow> warp" where
  "add_thread w t =
     (let lane_id = length (w_threads w)
      in w\<lparr>w_active_mask := (if lane_id < 32 then set_bit lane_id (w_active_mask w) else w_active_mask w),
            w_threads := w_threads w @ [t]\<rparr>)"

definition set_warp_pc :: "warp \<Rightarrow> size_t \<Rightarrow> warp" where
  "set_warp_pc w pc = w\<lparr>w_pc := pc\<rparr>"

definition set_active_mask :: "warp \<Rightarrow> lane_mask \<Rightarrow> warp" where
  "set_active_mask w m = w\<lparr>w_active_mask := m\<rparr>"

definition set_reconvergence_pc :: "warp \<Rightarrow> size_t \<Rightarrow> warp" where
  "set_reconvergence_pc w pc = w\<lparr>w_reconvergence_pc := pc\<rparr>"

definition push_simt_stack :: "warp \<Rightarrow> simt_entry \<Rightarrow> warp" where
  "push_simt_stack w e = w\<lparr>w_stack := e # w_stack w\<rparr>"

definition pop_simt_stack :: "warp \<Rightarrow> (simt_entry \<times> warp) option" where
  "pop_simt_stack w = (case w_stack w of [] \<Rightarrow> None | e # es \<Rightarrow> Some (e, w\<lparr>w_stack := es\<rparr>))"

definition is_simt_stack_empty :: "warp \<Rightarrow> bool" where
  "is_simt_stack_empty w \<longleftrightarrow> w_stack w = []"

definition increment_wait_cycles :: "warp \<Rightarrow> warp" where
  "increment_wait_cycles w = w\<lparr>w_wait_cycles := w_wait_cycles w + 1\<rparr>"

definition reset_wait_cycles :: "warp \<Rightarrow> warp" where
  "reset_wait_cycles w = w\<lparr>w_wait_cycles := 0, w_starvation_recorded := False\<rparr>"

definition check_and_set_starvation :: "warp \<Rightarrow> bool \<times> warp" where
  "check_and_set_starvation w =
     (if \<not> w_starvation_recorded w \<and> w_wait_cycles w > 1000
      then (True, w\<lparr>w_starvation_recorded := True\<rparr>) else (False, w))"

definition stall :: "warp \<Rightarrow> size_t \<Rightarrow> warp" where
  "stall w cycles =
     (if cycles > 0 then reset_wait_cycles (w\<lparr>w_stall_cycles := cycles, w_state := Stalled\<rparr>) else w)"

definition tick_stall :: "warp \<Rightarrow> size_t \<Rightarrow> warp" where
  "tick_stall w current_cycle =
     (if w_state w = Stalled \<and> w_stall_cycles w > 0
      then let w1 = w\<lparr>w_stall_cycles := w_stall_cycles w - 1\<rparr>
           in if w_stall_cycles w1 = 0 then w1\<lparr>w_state := Ready, w_ready_since := current_cycle\<rparr> else w1
      else w)"

definition set_completed :: "warp \<Rightarrow> warp" where
  "set_completed w = w\<lparr>w_state := Completed\<rparr>"

definition set_stalled_at_barrier :: "warp \<Rightarrow> warp" where
  "set_stalled_at_barrier w = reset_wait_cycles (w\<lparr>w_state := StalledAtBarrier\<rparr>)"

definition set_ready :: "warp \<Rightarrow> size_t \<Rightarrow> warp" where
  "set_ready w current_cycle =
     (if w_state w \<noteq> Ready then w\<lparr>w_state := Ready, w_ready_since := current_cycle\<rparr> else w)"

definition set_priority :: "warp \<Rightarrow> c_int \<Rightarrow> warp" where
  "set_priority w p = w\<lparr>w_priority := p\<rparr>"

lemmas warp_updates = set_warp_pc_def set_active_mask_def set_reconvergence_pc_def push_simt_stack_def
  reset_wait_cycles_def increment_wait_cycles_def set_completed_def set_stalled_at_barrier_def

section \<open>Blocks and grids\<close>

record thread_block =
  tb_id :: size_t
  tb_warps :: "warp list"

definition new_thread_block :: "size_t \<Rightarrow> thread_block" where
  "new_thread_block block_id = \<lparr>tb_id = block_id, tb_warps = []\<rparr>"

definition add_warp :: "thread_block \<Rightarrow> warp \<Rightarrow> thread_block" where
  "add_warp b w = b\<lparr>tb_warps := tb_warps b @ [w]\<rparr>"

record grid =
  g_blocks :: "thread_block list"

definition add_block :: "grid \<Rightarrow> thread_block \<Rightarrow> grid" where
  "add_block g b = g\<lparr>g_blocks := g_blocks g @ [b]\<rparr>"

section \<open>The lanes of a warp\<close>

text \<open>A warp whose active lanes all have a thread; \<open>full_mask\<close> is the mask of all of them.\<close>

definition full_mask :: "size_t \<Rightarrow> lane_mask" where
  "full_mask n = mask n"

definition lanes_ok :: "warp \<Rightarrow> bool" where
  "lanes_ok w \<longleftrightarrow> length (w_threads w) \<le> 32 \<and> (\<forall>i. bit (w_active_mask w) i \<longrightarrow> i < length (w_threads w))"

lemma bit_full_mask: "bit (full_mask n) i \<longleftrightarrow> i < 32 \<and> i < n"
  by (auto simp: full_mask_def bit_mask_iff)

definition build_warp :: "size_t \<Rightarrow> thread list \<Rightarrow> warp" where
  "build_warp warp_id ts = foldl add_thread (new_warp warp_id) ts"

lemma foldl_add_thread:
  assumes "w_active_mask w = full_mask (length (w_threads w))"
  shows "w_threads (foldl add_thread w ts) = w_threads w @ ts \<and>
    w_active_mask (foldl add_thread w ts) = full_mask (length (w_threads w) + length ts) \<and>
    w_state (foldl add_thread w ts) = w_state w \<and> w_stack (foldl add_thread w ts) = w_stack w \<and>
    w_pc (foldl add_thread w ts) = w_pc w \<and> w_id (foldl add_thread w ts) = w_id w"
  using assms
proof (induction ts arbitrary: w)
  case Nil
  then show ?case by simp
next
  case (Cons t ts)
  let ?w = "add_thread w t"
  have "w_active_mask ?w = full_mask (length (w_threads ?w))"
    using Cons.prems
    by (intro bit_word_eqI) (auto simp: add_thread_def Let_def bit_full_mask bit_set_bit_iff less_Suc_eq)
  from Cons.IH[OF this] show ?case by (simp add: add_thread_def Let_def)
qed

lemma build_warp_props:
  "w_threads (build_warp i ts) = ts" "w_active_mask (build_warp i ts) = full_mask (length ts)"
  "w_state (build_warp i ts) = Ready" "w_stack (build_warp i ts) = []" "w_pc (build_warp i ts) = 0"
  "w_id (build_warp i ts) = i"
proof -
  have "w_active_mask (new_warp i) = full_mask (length (w_threads (new_warp i)))"
    by (simp add: new_warp_def full_mask_def)
  from foldl_add_thread[OF this, of ts]
  show "w_threads (build_warp i ts) = ts" "w_active_mask (build_warp i ts) = full_mask (length ts)"
    "w_state (build_warp i ts) = Ready" "w_stack (build_warp i ts) = []" "w_pc (build_warp i ts) = 0"
    "w_id (build_warp i ts) = i"
    by (simp_all add: build_warp_def new_warp_def)
qed

section \<open>The state machine of a warp\<close>

text \<open>
  The operations the SM applies to a warp between two issues. The transition relation is the
  diagram they implement: a stalled warp becomes ready when its last stall cycle is ticked, a
  warp at a barrier when the barrier releases it, and a completed warp stays completed.
\<close>

inductive warp_transition :: "size_t \<Rightarrow> warp \<Rightarrow> warp \<Rightarrow> bool" for now :: size_t where
  tick: "warp_transition now w (tick_stall w now)"
| arrive: "w_state w = Ready \<Longrightarrow> warp_transition now w (set_stalled_at_barrier w)"
| release: "w_state w = StalledAtBarrier \<Longrightarrow> warp_transition now w (set_ready w now)"
| latency: "w_state w = Ready \<Longrightarrow> warp_transition now w (stall w n)"
| complete: "w_state w = Ready \<Longrightarrow> warp_transition now w (set_completed w)"
| wait_cycle: "warp_transition now w (increment_wait_cycles w)"
| wait_reset: "warp_transition now w (reset_wait_cycles w)"
| starved: "warp_transition now w (snd (check_and_set_starvation w))"

inductive_cases warp_transitionE: "warp_transition now w w'"

definition stall_inv :: "warp \<Rightarrow> bool" where
  "stall_inv w \<longleftrightarrow> (w_state w = Stalled \<longrightarrow> 0 < w_stall_cycles w)"

lemmas transition_defs = tick_stall_def set_stalled_at_barrier_def set_ready_def stall_def set_completed_def
  increment_wait_cycles_def reset_wait_cycles_def check_and_set_starvation_def Let_def

lemma warp_transition_stall_inv: "warp_transition now w w' \<Longrightarrow> stall_inv w \<Longrightarrow> stall_inv w'"
  by (induction rule: warp_transition.induct) (auto simp: stall_inv_def transition_defs)

lemma warp_transition_completed: "warp_transition now w w' \<Longrightarrow> w_state w = Completed \<Longrightarrow> w_state w' = Completed"
  by (induction rule: warp_transition.induct) (auto simp: transition_defs)

lemma warp_transition_frame:
  "warp_transition now w w' \<Longrightarrow>
   w_threads w' = w_threads w \<and> w_pc w' = w_pc w \<and> w_active_mask w' = w_active_mask w \<and>
   w_stack w' = w_stack w \<and> w_id w' = w_id w \<and> w_reconvergence_pc w' = w_reconvergence_pc w"
  by (induction rule: warp_transition.induct) (auto simp: transition_defs)

lemma ticks_until_ready:
  assumes "w_state w = Stalled" and "n < w_stall_cycles w"
  shows "((\<lambda>w. tick_stall w now) ^^ n) w = w\<lparr>w_stall_cycles := w_stall_cycles w - n\<rparr>"
  using assms by (induction n) (simp_all add: tick_stall_def)

lemma stall_lasts:
  assumes "0 < n"
  shows "w_state (((\<lambda>w. tick_stall w now) ^^ k) (stall w n)) = (if k < n then Stalled else Ready)"
proof (induction k)
  case 0
  then show ?case using assms by (simp add: stall_def reset_wait_cycles_def)
next
  case (Suc k)
  have st: "w_state (stall w n) = Stalled" "w_stall_cycles (stall w n) = n"
    using assms by (simp_all add: stall_def reset_wait_cycles_def)
  show ?case
  proof (cases "k < n")
    case True
    then show ?thesis
      using ticks_until_ready[OF st(1), of k now] st by (auto simp: tick_stall_def Let_def)
  next
    case False
    then show ?thesis using Suc.IH by (simp add: tick_stall_def)
  qed
qed

end
