(* ===== verification/Executor.thy ===== *)
theory Executor
  imports Warp Memory_System
begin

text \<open>
  \<^verbatim>\<open>src/execution/instruction_executor.cpp\<close>: one instruction of a warp, over its active lanes,
  on the warp and the memory system it is given. The lemmas say what every instruction does
  to the lanes, what the SIMT stack keeps, and when an instruction throws.
\<close>

datatype execution_status = ExecCompleted | BranchTaken | BarrierReached

record execution_result =
  er_status :: execution_status
  er_latency :: size_t
  er_memory_transactions :: size_t
  er_memory_space :: string
  er_write_conflict_stalls :: size_t
  er_bank_conflicts :: size_t
  er_dirty_evictions :: size_t

text \<open>The result returned at the end of the switch when no memory was touched.\<close>

definition plain_result :: "execution_status \<Rightarrow> execution_result" where
  "plain_result s = \<lparr>er_status = s, er_latency = 1, er_memory_transactions = 0, er_memory_space = '''',
     er_write_conflict_stalls = 0, er_bank_conflicts = 0, er_dirty_evictions = 0\<rparr>"

section \<open>Lane loops\<close>

text \<open>
  \<open>for i in threads: if (!active_mask.test(i)) continue; ...\<close>, updating the thread of each
  active lane, or collecting a value per active lane.
\<close>

definition each_active :: "lane_mask \<Rightarrow> (thread \<Rightarrow> thread result) \<Rightarrow> thread list \<Rightarrow> thread list result" where
  "each_active m f ts =
     mapE (\<lambda>(i, t). bindE (mask_test m i) (\<lambda>active. if active then f t else Inr t)) (enumerate 0 ts)"

definition gather :: "lane_mask \<Rightarrow> (thread \<Rightarrow> 'b result) \<Rightarrow> thread list \<Rightarrow> (size_t \<times> 'b) list result" where
  "gather m f ts =
     foldE (\<lambda>acc (i, t). bindE (mask_test m i) (\<lambda>active.
              if active then bindE (f t) (\<lambda>x. Inr (acc @ [(i, x)])) else Inr acc)) [] (enumerate 0 ts)"

definition update_shadow_pcs :: "lane_mask \<Rightarrow> size_t \<Rightarrow> warp \<Rightarrow> warp result" where
  "update_shadow_pcs active_mask next_pc w =
     bindE (each_active active_mask (\<lambda>t. Inr (set_pc t (size_to_int next_pc))) (w_threads w))
       (\<lambda>ts. Inr (w\<lparr>w_threads := ts\<rparr>))"

text \<open>\<open>warp.set_warp_pc(pc); update_shadow_pcs(warp.get_warp_pc())\<close>\<close>

definition move_to :: "lane_mask \<Rightarrow> size_t \<Rightarrow> warp \<Rightarrow> warp result" where
  "move_to active_mask pc w = update_shadow_pcs active_mask pc (set_warp_pc w pc)"

section \<open>Per-thread operations\<close>

definition read_reg :: "thread \<Rightarrow> c_int \<Rightarrow> c_int result" where
  "read_reg t r = reg_read (t_registers t) (int_to_size r)"

definition write_reg :: "thread \<Rightarrow> c_int \<Rightarrow> c_int \<Rightarrow> thread result" where
  "write_reg t r v = bindE (reg_write (t_registers t) (int_to_size r) v) (\<lambda>rf. Inr (t\<lparr>t_registers := rf\<rparr>))"

definition alu :: "(c_int \<Rightarrow> c_int \<Rightarrow> c_int result) \<Rightarrow> instruction \<Rightarrow> thread \<Rightarrow> thread result" where
  "alu f inst t =
     bindE (read_reg t (inst_src1 inst)) (\<lambda>val1.
       bindE (read_reg t (inst_src2 inst)) (\<lambda>val2.
         bindE (f val1 val2) (\<lambda>v. write_reg t (inst_dst inst) v)))"

definition mov :: "instruction \<Rightarrow> thread \<Rightarrow> thread result" where
  "mov inst t =
     (if inst_src1 inst = -1 then write_reg t (inst_dst inst) (inst_immediate inst)
      else bindE (read_reg t (inst_src1 inst)) (\<lambda>val. write_reg t (inst_dst inst) val))"

definition cmp :: "instruction \<Rightarrow> thread \<Rightarrow> thread result" where
  "cmp inst t =
     bindE (read_reg t (inst_src1 inst)) (\<lambda>val1.
       bindE (read_reg t (inst_src2 inst)) (\<lambda>val2. Inr (set_predicate t (val1 = val2))))"

text \<open>\<open>size_t base = (r != -1) ? read(r) : 0; base + inst.immediate\<close>\<close>

definition lane_address :: "c_int \<Rightarrow> instruction \<Rightarrow> thread \<Rightarrow> size_t result" where
  "lane_address r inst t =
     bindE (if r \<noteq> -1 then bindE (read_reg t r) (\<lambda>v. Inr (int_to_size v)) else Inr 0)
       (\<lambda>base. Inr (size_add_int base (inst_immediate inst)))"

definition lane_store :: "instruction \<Rightarrow> thread \<Rightarrow> (size_t \<times> c_int) result" where
  "lane_store inst t =
     bindE (lane_address (inst_src2 inst) inst t) (\<lambda>addr.
       bindE (read_reg t (inst_src1 inst)) (\<lambda>v. Inr (addr, v)))"

text \<open>\<open>address_counts[addr]++\<close> for every lane, and the largest count.\<close>

definition max_collisions :: "size_t list \<Rightarrow> nat" where
  "max_collisions addresses = max_loop 0 (map snd (foldl bump [] addresses))"

section \<open>Memory instructions\<close>

definition memory_space_of :: "size_t list \<Rightarrow> string" where
  "memory_space_of addresses = (if addresses ! 0 \<ge> SHARED_MEM_BASE then ''SHARED'' else ''GLOBAL'')"

definition memory_result :: "size_t list \<Rightarrow> warp_memory_result \<Rightarrow> size_t \<Rightarrow> execution_result" where
  "memory_result addresses res conflict_stalls =
     \<lparr>er_status = ExecCompleted, er_latency = wmr_total_latency res + conflict_stalls,
      er_memory_transactions = wmr_num_transactions res, er_memory_space = memory_space_of addresses,
      er_write_conflict_stalls = conflict_stalls, er_bank_conflicts = wmr_bank_conflict_stalls res,
      er_dirty_evictions = wmr_dirty_eviction_writebacks res\<rparr>"

text \<open>\<open>registers().write(inst.dst, out_values[k])\<close> of the \<open>k\<close>-th active lane, in order.\<close>

definition write_back :: "instruction \<Rightarrow> (size_t \<times> c_int) list \<Rightarrow> thread list \<Rightarrow> thread list result" where
  "write_back inst lane_values ts =
     foldE (\<lambda>ts (i, v). bindE (write_reg (ts ! i) (inst_dst inst) v) (\<lambda>t. Inr (ts[i := t]))) ts lane_values"

definition exec_load ::
    "instruction \<Rightarrow> warp \<Rightarrow> memory_system \<Rightarrow> (execution_result \<times> warp \<times> memory_system) result" where
  "exec_load inst w m =
     bindE (gather (w_active_mask w) (lane_address (inst_src1 inst) inst) (w_threads w)) (\<lambda>lanes.
       if lanes = [] then Inr (plain_result ExecCompleted, w, m)
       else let addresses = map snd lanes
            in bindE (warp_load m addresses) (\<lambda>(res, out_values, m').
                 bindE (write_back inst (zip (map fst lanes) out_values) (w_threads w)) (\<lambda>ts.
                   Inr (memory_result addresses res 0, w\<lparr>w_threads := ts\<rparr>, m'))))"

text \<open>The common body of \<open>STORE\<close> and \<open>ATOMIC_ADD\<close>: they differ in the memory operation called.\<close>

definition exec_write ::
    "(memory_system \<Rightarrow> size_t list \<Rightarrow> c_int list \<Rightarrow> (warp_memory_result \<times> memory_system) result)
      \<Rightarrow> instruction \<Rightarrow> warp \<Rightarrow> memory_system \<Rightarrow> (execution_result \<times> memory_system) result" where
  "exec_write op inst w m =
     bindE (gather (w_active_mask w) (lane_store inst) (w_threads w)) (\<lambda>lanes.
       let addresses = map (fst \<circ> snd) lanes; vals = map (snd \<circ> snd) lanes; collisions = max_collisions addresses
       in if addresses = [] then Inr (plain_result ExecCompleted, m)
          else bindE (op m addresses vals) (\<lambda>(res, m').
                 Inr (memory_result addresses res (if collisions > 1 then collisions - 1 else 0), m')))"

section \<open>Control instructions\<close>

definition taken_mask :: "lane_mask \<Rightarrow> thread list \<Rightarrow> lane_mask result" where
  "taken_mask active_mask ts =
     foldE (\<lambda>taken (i, t). bindE (mask_test active_mask i) (\<lambda>active.
              Inr (if active \<and> t_predicate t then set_bit i taken else taken))) 0 (enumerate 0 ts)"

definition exec_branch :: "instruction \<Rightarrow> warp \<Rightarrow> (execution_result \<times> warp) result" where
  "exec_branch inst w =
     (let active_mask = w_active_mask w; pc = w_pc w; target = size_add_int pc (inst_immediate inst)
      in bindE (taken_mask active_mask (w_threads w)) (\<lambda>taken.
           if taken = 0
           then bindE (move_to active_mask (size_add pc 1) w) (\<lambda>w'. Inr (plain_result ExecCompleted, w'))
           else if taken = active_mask
           then bindE (move_to active_mask target w) (\<lambda>w'. Inr (plain_result BranchTaken, w'))
           else let deferred = \<lparr>se_active_mask = active_mask AND NOT taken,
                               se_target_pc = size_add pc 1,
                               se_reconvergence_pc = w_reconvergence_pc w\<rparr>;
                    w1 = set_active_mask (push_simt_stack w deferred) taken
                in bindE (move_to active_mask target w1) (\<lambda>w'. Inr (plain_result BranchTaken, w'))))"

definition exec_ssy :: "instruction \<Rightarrow> warp \<Rightarrow> (execution_result \<times> warp) result" where
  "exec_ssy inst w =
     (let active_mask = w_active_mask w; pc = w_pc w; target = size_add_int pc (inst_immediate inst);
          token = \<lparr>se_active_mask = active_mask, se_target_pc = target,
                   se_reconvergence_pc = w_reconvergence_pc w\<rparr>;
          w1 = set_reconvergence_pc (push_simt_stack w token) target
      in bindE (move_to active_mask (size_add pc 1) w1) (\<lambda>w'. Inr (plain_result ExecCompleted, w')))"

definition exec_sync :: "warp \<Rightarrow> (execution_result \<times> warp) result" where
  "exec_sync w =
     (let active_mask = w_active_mask w; pc = w_pc w
      in case pop_simt_stack w of
           None \<Rightarrow> Inl (Runtime_error ''SYNC executed with empty SIMT stack'')
         | Some (next_path, w1) \<Rightarrow>
             let w2 = set_reconvergence_pc (set_active_mask w1 (se_active_mask next_path))
                        (se_reconvergence_pc next_path)
             in bindE (if se_target_pc next_path = pc
                       then move_to active_mask (size_add pc 1) w2
                       else move_to active_mask (se_target_pc next_path) w2)
                  (\<lambda>w'. Inr (plain_result ExecCompleted, w')))"

definition exec_barrier :: "warp \<Rightarrow> (execution_result \<times> warp) result" where
  "exec_barrier w =
     (if mask_count (w_active_mask w) \<noteq> length (w_threads w)
      then Inl (Runtime_error ''Divergent barrier within warp'')
      else bindE (move_to (w_active_mask w) (size_add (w_pc w) 1) w) (\<lambda>w'. Inr (plain_result BarrierReached, w')))"

section \<open>The executor\<close>

text \<open>The body of an instruction that only touches registers and predicates.\<close>

definition lane_op :: "instruction \<Rightarrow> thread \<Rightarrow> thread result" where
  "lane_op inst =
     (case inst_opcode inst of
        ADD \<Rightarrow> alu c_add inst
      | SUB \<Rightarrow> alu c_sub inst
      | MUL \<Rightarrow> alu c_mul inst
      | CMP \<Rightarrow> cmp inst
      | _ \<Rightarrow> mov inst)"

definition exec_lanes :: "instruction \<Rightarrow> warp \<Rightarrow> (execution_result \<times> warp) result" where
  "exec_lanes inst w =
     bindE (each_active (w_active_mask w) (lane_op inst) (w_threads w)) (\<lambda>ts.
       bindE (move_to (w_active_mask w) (size_add (w_pc w) 1) (w\<lparr>w_threads := ts\<rparr>)) (\<lambda>w'.
         Inr (plain_result ExecCompleted, w')))"

definition keep_memory ::
    "memory_system \<Rightarrow> (execution_result \<times> warp) result \<Rightarrow> (execution_result \<times> warp \<times> memory_system) result" where
  "keep_memory m e = bindE e (\<lambda>(r, w). Inr (r, w, m))"

definition execute ::
    "instruction \<Rightarrow> warp \<Rightarrow> memory_system \<Rightarrow> (execution_result \<times> warp \<times> memory_system) result" where
  "execute inst w m =
     (let next_pc = size_add (w_pc w) 1; active_mask = w_active_mask w
      in case inst_opcode inst of
           LOAD \<Rightarrow> bindE (exec_load inst w m) (\<lambda>(r, w1, m').
                     bindE (move_to active_mask next_pc w1) (\<lambda>w'. Inr (r, w', m')))
         | STORE \<Rightarrow> bindE (exec_write warp_store inst w m) (\<lambda>(r, m').
                     bindE (move_to active_mask next_pc w) (\<lambda>w'. Inr (r, w', m')))
         | ATOMIC_ADD \<Rightarrow> bindE (exec_write warp_atomic_add inst w m) (\<lambda>(r, m').
                     bindE (move_to active_mask next_pc w) (\<lambda>w'. Inr (r, w', m')))
         | BRANCH \<Rightarrow> keep_memory m (exec_branch inst w)
         | SSY \<Rightarrow> keep_memory m (exec_ssy inst w)
         | SYNC \<Rightarrow> keep_memory m (exec_sync w)
         | BARRIER \<Rightarrow> keep_memory m (exec_barrier w)
         | _ \<Rightarrow> keep_memory m (exec_lanes inst w))"

section \<open>Lane loops: what they compute\<close>

lemma each_active_Inr:
  assumes "length ts \<le> 32"
  shows "each_active m f ts = Inr ts' \<longleftrightarrow>
    length ts' = length ts \<and>
    (\<forall>i < length ts. if bit m i then f (ts ! i) = Inr (ts' ! i) else ts' ! i = ts ! i)"
  using assms
  by (auto simp: each_active_def mapE_Inr_iff list_all2_conv_all_nth nth_enumerate_eq split: if_splits)

lemma each_active_total:
  assumes "length ts \<le> 32" and "\<And>i. i < length ts \<Longrightarrow> bit m i \<Longrightarrow> \<exists>t. f (ts ! i) = Inr t"
  shows "\<exists>ts'. each_active m f ts = Inr ts'"
proof -
  have "\<exists>y. (case p of (i, t) \<Rightarrow> bindE (mask_test m i) (\<lambda>active. if active then f t else Inr t)) = Inr y"
    if "p \<in> set (enumerate 0 ts)" for p
  proof -
    obtain i t where p: "p = (i, t)" by (cases p)
    then have "i < length ts" "t = ts ! i" using that by (auto simp: in_set_enumerate_eq)
    then show ?thesis using assms p by auto
  qed
  then show ?thesis unfolding each_active_def by (rule mapE_total)
qed

definition active_lanes :: "lane_mask \<Rightarrow> thread list \<Rightarrow> nat list" where
  "active_lanes m ts = filter (bit m) [0..<length ts]"

lemma gather_Inr:
  assumes "length ts \<le> 32"
  shows "gather m f ts = Inr lanes \<longleftrightarrow>
    map fst lanes = active_lanes m ts \<and> (\<forall>(i, x) \<in> set lanes. f (ts ! i) = Inr x)"
  using assms
proof (induction ts arbitrary: lanes rule: rev_induct)
  case Nil
  then show ?case by (auto simp: gather_def active_lanes_def)
next
  case (snoc t ts)
  let ?step = "\<lambda>acc (i, t). bindE (mask_test m i) (\<lambda>active.
              if active then bindE (f t) (\<lambda>x. Inr (acc @ [(i, x)])) else Inr acc)"
  have len: "length ts < 32" using snoc.prems by simp
  have unf: "gather m f (ts @ [t]) = bindE (gather m f ts) (\<lambda>acc. ?step acc (length ts, t))"
    by (simp add: gather_def enumerate_append_eq foldE_append)
  have act: "active_lanes m (ts @ [t]) = active_lanes m ts @ (if bit m (length ts) then [length ts] else [])"
    by (simp add: active_lanes_def)
  have old: "(\<forall>(i, x) \<in> set acc. f ((ts @ [t]) ! i) = Inr x) = (\<forall>(i, x) \<in> set acc. f (ts ! i) = Inr x)"
    if "map fst acc = active_lanes m ts" for acc :: "(nat \<times> 'a) list"
  proof -
    have "i < length ts" if "(i, x) \<in> set acc" for i x
    proof -
      have "i \<in> set (map fst acc)" using that by force
      then show ?thesis unfolding \<open>map fst acc = active_lanes m ts\<close> by (simp add: active_lanes_def)
    qed
    then show ?thesis by (auto simp: nth_append)
  qed
  have IH: "gather m f ts = Inr acc \<longleftrightarrow>
      map fst acc = active_lanes m ts \<and> (\<forall>(i, x) \<in> set acc. f (ts ! i) = Inr x)" for acc
    using snoc.IH len by simp
  show ?case
  proof (cases "bit m (length ts)")
    case False
    then show ?thesis using len old by (auto simp: unf act IH)
  next
    case True
    show ?thesis
    proof
      assume "gather m f (ts @ [t]) = Inr lanes"
      then obtain acc x where "gather m f ts = Inr acc" "f t = Inr x" "lanes = acc @ [(length ts, x)]"
        using True len by (auto simp: unf)
      then show "map fst lanes = active_lanes m (ts @ [t]) \<and> (\<forall>(i, x) \<in> set lanes. f ((ts @ [t]) ! i) = Inr x)"
        using IH old[of acc] True by (simp add: act)
    next
      assume r: "map fst lanes = active_lanes m (ts @ [t]) \<and> (\<forall>(i, x) \<in> set lanes. f ((ts @ [t]) ! i) = Inr x)"
      then have "map fst lanes = active_lanes m ts @ [length ts]" using True by (simp add: act)
      then obtain acc p where l: "lanes = acc @ [p]" "map fst acc = active_lanes m ts" "fst p = length ts"
        by (auto simp: map_eq_append_conv)
      obtain x where p: "p = (length ts, x)" using l(3) by (cases p) simp
      have all: "\<forall>(i, x) \<in> set acc. f ((ts @ [t]) ! i) = Inr x" "f ((ts @ [t]) ! length ts) = Inr x"
        using r unfolding l(1) p by simp_all
      have "gather m f ts = Inr acc" using IH[of acc] l(2) all(1) unfolding old[OF l(2)] by simp
      moreover have "f t = Inr x" using all(2) by simp
      ultimately show "gather m f (ts @ [t]) = Inr lanes" using True len l p by (simp add: unf)
    qed
  qed
qed

lemma gather_total:
  assumes "length ts \<le> 32" and "\<And>i. i < length ts \<Longrightarrow> bit m i \<Longrightarrow> \<exists>x. f (ts ! i) = Inr x"
  shows "\<exists>lanes. gather m f ts = Inr lanes"
proof -
  have "\<exists>s'. foldE (\<lambda>acc (i, t). bindE (mask_test m i) (\<lambda>active.
              if active then bindE (f t) (\<lambda>x. Inr (acc @ [(i, x)])) else Inr acc)) [] (enumerate 0 ts) = Inr s' \<and> True"
  proof (rule foldE_total)
    fix acc :: "(nat \<times> 'a) list" and p assume "p \<in> set (enumerate 0 ts)"
    moreover obtain i t where p: "p = (i, t)" by (cases p)
    ultimately have "i < length ts" "t = ts ! i" by (auto simp: in_set_enumerate_eq)
    then show "\<exists>s'. (case p of (i, t) \<Rightarrow> bindE (mask_test m i) (\<lambda>active.
              if active then bindE (f t) (\<lambda>x. Inr (acc @ [(i, x)])) else Inr acc)) = Inr s' \<and> True"
      using assms(1) assms(2)[of i] p by auto
  qed simp
  then show ?thesis by (simp add: gather_def)
qed

definition shadow :: "lane_mask \<Rightarrow> size_t \<Rightarrow> thread list \<Rightarrow> thread list" where
  "shadow m pc ts = map (\<lambda>(i, t). if bit m i then set_pc t (size_to_int pc) else t) (enumerate 0 ts)"

lemma length_shadow [simp]: "length (shadow m pc ts) = length ts"
  by (simp add: shadow_def)

lemma nth_shadow: "i < length ts \<Longrightarrow> shadow m pc ts ! i = (if bit m i then set_pc (ts ! i) (size_to_int pc) else ts ! i)"
  by (simp add: shadow_def nth_enumerate_eq)

lemma move_to_eq:
  assumes "length (w_threads w) \<le> 32"
  shows "move_to m pc w = Inr (w\<lparr>w_pc := pc, w_threads := shadow m pc (w_threads w)\<rparr>)"
proof -
  have "each_active m (\<lambda>t. Inr (set_pc t (size_to_int pc))) (w_threads w) = Inr (shadow m pc (w_threads w))"
    using assms by (simp add: each_active_Inr nth_shadow)
  then show ?thesis by (simp add: move_to_def update_shadow_pcs_def set_warp_pc_def)
qed

definition takes :: "warp \<Rightarrow> nat \<Rightarrow> bool" where
  "takes w i \<longleftrightarrow> i < length (w_threads w) \<and> bit (w_active_mask w) i \<and> t_predicate (w_threads w ! i)"

lemma taken_mask_Inr:
  assumes "length ts \<le> 32"
  shows "\<exists>tk. taken_mask m ts = Inr tk \<and> (\<forall>i. bit tk i \<longleftrightarrow> i < length ts \<and> bit m i \<and> t_predicate (ts ! i))"
  using assms
proof (induction ts rule: rev_induct)
  case Nil
  then show ?case by (simp add: taken_mask_def)
next
  case (snoc t ts)
  then obtain tk where tk: "taken_mask m ts = Inr tk"
    "\<And>i. bit tk i \<longleftrightarrow> i < length ts \<and> bit m i \<and> t_predicate (ts ! i)" by auto
  have "taken_mask m (ts @ [t]) = Inr (if bit m (length ts) \<and> t_predicate t then set_bit (length ts) tk else tk)"
    using tk(1) snoc.prems by (simp add: taken_mask_def enumerate_append_eq foldE_append)
  moreover have "bit (if bit m (length ts) \<and> t_predicate t then set_bit (length ts) tk else tk) i \<longleftrightarrow>
      i < length (ts @ [t]) \<and> bit m i \<and> t_predicate ((ts @ [t]) ! i)" for i
    using snoc.prems tk(2)[of i] by (auto simp: bit_set_bit_iff nth_append less_Suc_eq)
  ultimately show ?case by blast
qed

lemma taken_mask_takes:
  assumes "length (w_threads w) \<le> 32" and "taken_mask (w_active_mask w) (w_threads w) = Inr tk"
  shows "bit tk i \<longleftrightarrow> takes w i"
  using taken_mask_Inr[OF assms(1), of "w_active_mask w"] assms(2) by (auto simp: takes_def)

section \<open>Inactive lanes are left alone\<close>

text \<open>The lanes outside the mask keep everything; every lane keeps its identity.\<close>

definition lanes_framed :: "lane_mask \<Rightarrow> thread list \<Rightarrow> thread list \<Rightarrow> bool" where
  "lanes_framed m ts ts' \<longleftrightarrow> length ts' = length ts \<and>
     (\<forall>i < length ts. (\<not> bit m i \<longrightarrow> ts' ! i = ts ! i) \<and>
        t_global_id (ts' ! i) = t_global_id (ts ! i) \<and> t_local_id (ts' ! i) = t_local_id (ts ! i) \<and>
        t_block_id (ts' ! i) = t_block_id (ts ! i) \<and> t_warp_id (ts' ! i) = t_warp_id (ts ! i) \<and>
        t_lane_id (ts' ! i) = t_lane_id (ts ! i) \<and>
        length (rf_registers (t_registers (ts' ! i))) = length (rf_registers (t_registers (ts ! i))))"

lemma lanes_framed_refl [simp]: "lanes_framed m ts ts"
  by (simp add: lanes_framed_def)

lemma lanes_framed_trans: "lanes_framed m ts1 ts2 \<Longrightarrow> lanes_framed m ts2 ts3 \<Longrightarrow> lanes_framed m ts1 ts3"
  by (simp add: lanes_framed_def)

lemma lanes_framed_shadow: "lanes_framed m ts (shadow m pc ts)"
  by (simp add: lanes_framed_def nth_shadow set_pc_def)

definition same_identity :: "thread \<Rightarrow> thread \<Rightarrow> bool" where
  "same_identity t t' \<longleftrightarrow> t_global_id t' = t_global_id t \<and> t_local_id t' = t_local_id t \<and>
     t_block_id t' = t_block_id t \<and> t_warp_id t' = t_warp_id t \<and> t_lane_id t' = t_lane_id t \<and>
     length (rf_registers (t_registers t')) = length (rf_registers (t_registers t))"

lemma write_reg_identity: "write_reg t r v = Inr t' \<Longrightarrow> same_identity t t'"
  by (auto simp: write_reg_def reg_write_def same_identity_def split: if_splits)

lemma lane_op_identity: "lane_op inst t = Inr t' \<Longrightarrow> same_identity t t'"
  by (auto simp: lane_op_def alu_def mov_def cmp_def set_predicate_def same_identity_def[of t "t\<lparr>t_predicate := _\<rparr>"]
      dest: write_reg_identity split: opcode.splits if_splits)

lemma each_active_framed:
  assumes "length ts \<le> 32" and "each_active m f ts = Inr ts'"
    and "\<And>t t'. f t = Inr t' \<Longrightarrow> same_identity t t'"
  shows "lanes_framed m ts ts'"
proof -
  have "same_identity (ts ! i) (ts' ! i) \<and> (\<not> bit m i \<longrightarrow> ts' ! i = ts ! i)" if "i < length ts" for i
    using assms(2)[unfolded each_active_Inr[OF assms(1)]] assms(3)[of "ts ! i" "ts' ! i"] that
    by (cases "bit m i") (auto simp: same_identity_def)
  then show ?thesis
    using assms(2)[unfolded each_active_Inr[OF assms(1)]] by (simp add: lanes_framed_def same_identity_def)
qed

lemma write_back_framed:
  "write_back inst ivs ts = Inr ts' \<Longrightarrow> \<forall>i \<in> fst ` set ivs. bit m i \<and> i < length ts \<Longrightarrow> lanes_framed m ts ts'"
proof (induction ivs arbitrary: ts)
  case Nil
  then show ?case by (simp add: write_back_def)
next
  case (Cons p ivs)
  obtain i v where p: "p = (i, v)" by (cases p)
  with Cons.prems(1) obtain t where t: "write_reg (ts ! i) (inst_dst inst) v = Inr t"
    "write_back inst ivs (ts[i := t]) = Inr ts'" by (auto simp: write_back_def)
  have i: "bit m i" "i < length ts" using Cons.prems(2) p by auto
  have "lanes_framed m ts (ts[i := t])"
    using write_reg_identity[OF t(1)] i by (auto simp: lanes_framed_def same_identity_def nth_list_update)
  moreover have "lanes_framed m (ts[i := t]) ts'"
    using Cons.IH[OF t(2)] Cons.prems(2) by simp
  ultimately show ?case by (rule lanes_framed_trans)
qed

lemma gather_lanes:
  assumes "length ts \<le> 32" and "gather m f ts = Inr lanes"
  shows "i \<in> fst ` set lanes \<longleftrightarrow> bit m i \<and> i < length ts"
  using gather_Inr[OF assms(1), of m f lanes] assms(2)
  by (metis (no_types, lifting) active_lanes_def atLeast_upt lessThan_iff list.set_map mem_Collect_eq set_filter)

text \<open>The fields of a warp the executor does not write.\<close>

definition warp_framed :: "warp \<Rightarrow> warp \<Rightarrow> bool" where
  "warp_framed w w' \<longleftrightarrow> w_id w' = w_id w \<and> w_state w' = w_state w \<and> w_stall_cycles w' = w_stall_cycles w \<and>
     w_priority w' = w_priority w \<and> w_ready_since w' = w_ready_since w \<and> w_wait_cycles w' = w_wait_cycles w \<and>
     w_starvation_recorded w' = w_starvation_recorded w \<and>
     lanes_framed (w_active_mask w) (w_threads w) (w_threads w')"

lemma exec_load_InrE:
  assumes "length (w_threads w) \<le> 32" and "exec_load inst w m = Inr (r, w1, m')"
  obtains (idle) "active_lanes (w_active_mask w) (w_threads w) = []" "w1 = w" "m' = m" "r = plain_result ExecCompleted"
  | (lanes) lanes res vals ts where
      "gather (w_active_mask w) (lane_address (inst_src1 inst) inst) (w_threads w) = Inr lanes" "lanes \<noteq> []"
      "warp_load m (map snd lanes) = Inr (res, vals, m')"
      "write_back inst (zip (map fst lanes) vals) (w_threads w) = Inr ts"
      "w1 = w\<lparr>w_threads := ts\<rparr>" "r = memory_result (map snd lanes) res 0"
      "lanes_framed (w_active_mask w) (w_threads w) ts"
proof -
  obtain lanes where g: "gather (w_active_mask w) (lane_address (inst_src1 inst) inst) (w_threads w) = Inr lanes"
    using assms(2) by (auto simp: exec_load_def)
  show ?thesis
  proof (cases "lanes = []")
    case True
    have "r = plain_result ExecCompleted" "w1 = w" "m' = m"
      using assms(2) True by (simp_all add: exec_load_def g)
    moreover have "active_lanes (w_active_mask w) (w_threads w) = []"
      using g[unfolded gather_Inr[OF assms(1)]] True by simp
    ultimately show ?thesis using idle by blast
  next
    case False
    then obtain res vals ts where l: "warp_load m (map snd lanes) = Inr (res, vals, m')"
      "write_back inst (zip (map fst lanes) vals) (w_threads w) = Inr ts"
      "w1 = w\<lparr>w_threads := ts\<rparr>" "r = memory_result (map snd lanes) res 0"
      using g assms(2) by (auto simp: exec_load_def Let_def)
    have "\<forall>i \<in> fst ` set (zip (map fst lanes) vals). bit (w_active_mask w) i \<and> i < length (w_threads w)"
      using gather_lanes[OF assms(1) g] by (auto dest: set_zip_leftD)
    from lanes[OF g False l write_back_framed[OF l(2) this]] show ?thesis .
  qed
qed

text \<open>The control state an instruction leaves: program counter, mask, reconvergence point, stack.\<close>

definition control :: "warp \<Rightarrow> size_t \<times> lane_mask \<times> size_t \<times> simt_entry list" where
  "control w = (w_pc w, w_active_mask w, w_reconvergence_pc w, w_stack w)"

definition next_control :: "warp \<Rightarrow> size_t \<times> lane_mask \<times> size_t \<times> simt_entry list" where
  "next_control w = (size_add (w_pc w) 1, w_active_mask w, w_reconvergence_pc w, w_stack w)"

lemma exec_lanes_Inr:
  assumes "length (w_threads w) \<le> 32" and "exec_lanes inst w = Inr (r, w')"
  shows "\<exists>ts. each_active (w_active_mask w) (lane_op inst) (w_threads w) = Inr ts \<and>
    w' = w\<lparr>w_pc := size_add (w_pc w) 1, w_threads := shadow (w_active_mask w) (size_add (w_pc w) 1) ts\<rparr> \<and>
    r = plain_result ExecCompleted \<and> lanes_framed (w_active_mask w) (w_threads w) ts"
proof -
  obtain ts where ts: "each_active (w_active_mask w) (lane_op inst) (w_threads w) = Inr ts"
    and mv: "bindE (move_to (w_active_mask w) (size_add (w_pc w) 1) (w\<lparr>w_threads := ts\<rparr>)) (\<lambda>w'.
         Inr (plain_result ExecCompleted, w')) = Inr (r, w')"
    using assms(2) by (auto simp: exec_lanes_def)
  have fr: "lanes_framed (w_active_mask w) (w_threads w) ts"
    using each_active_framed[OF assms(1) ts lane_op_identity] .
  then have "length (w_threads (w\<lparr>w_threads := ts\<rparr>)) \<le> 32" using assms(1) by (simp add: lanes_framed_def)
  from mv[unfolded move_to_eq[OF this]] ts fr show ?thesis by auto
qed

lemma exec_branch_Inr:
  assumes len: "length (w_threads w) \<le> 32" and run: "exec_branch inst w = Inr (r, w')"
  shows "\<exists>tk pc. taken_mask (w_active_mask w) (w_threads w) = Inr tk \<and>
    w_threads w' = shadow (w_active_mask w) pc (w_threads w) \<and> warp_framed w w' \<and> w_pc w' = pc \<and>
    (if tk = 0 then control w' = next_control w \<and> r = plain_result ExecCompleted
     else r = plain_result BranchTaken \<and> pc = size_add_int (w_pc w) (inst_immediate inst) \<and>
       (if tk = w_active_mask w
        then control w' = (pc, w_active_mask w, w_reconvergence_pc w, w_stack w)
        else control w' = (pc, tk, w_reconvergence_pc w,
               \<lparr>se_active_mask = w_active_mask w AND NOT tk, se_target_pc = size_add (w_pc w) 1,
                se_reconvergence_pc = w_reconvergence_pc w\<rparr> # w_stack w)))"
proof -
  obtain tk where tk: "taken_mask (w_active_mask w) (w_threads w) = Inr tk"
    using taken_mask_Inr[OF len] by blast
  have l2: "length (w_threads (set_active_mask (push_simt_stack w e) tk)) \<le> 32" for e
    using len by (simp add: warp_updates)
  consider "tk = 0" | "tk \<noteq> 0" "tk = w_active_mask w" | "tk \<noteq> 0" "tk \<noteq> w_active_mask w" by blast
  then show ?thesis
  proof cases
    case 1
    then have "w' = w\<lparr>w_pc := size_add (w_pc w) 1, w_threads := shadow (w_active_mask w) (size_add (w_pc w) 1) (w_threads w)\<rparr>"
      "r = plain_result ExecCompleted"
      using run by (simp_all add: exec_branch_def Let_def tk move_to_eq[OF len])
    then show ?thesis using 1 tk
      by (simp add: warp_framed_def lanes_framed_shadow control_def next_control_def)
  next
    case 2
    then have "w' = w\<lparr>w_pc := size_add_int (w_pc w) (inst_immediate inst),
        w_threads := shadow (w_active_mask w) (size_add_int (w_pc w) (inst_immediate inst)) (w_threads w)\<rparr>"
      "r = plain_result BranchTaken"
      using run by (simp_all add: exec_branch_def Let_def tk move_to_eq[OF len])
    then show ?thesis using 2 tk
      by (simp add: warp_framed_def lanes_framed_shadow control_def)
  next
    case 3
    let ?d = "\<lparr>se_active_mask = w_active_mask w AND NOT tk, se_target_pc = size_add (w_pc w) 1,
                se_reconvergence_pc = w_reconvergence_pc w\<rparr>"
    let ?w1 = "set_active_mask (push_simt_stack w ?d) tk"
    have w': "w' = ?w1\<lparr>w_pc := size_add_int (w_pc w) (inst_immediate inst),
        w_threads := shadow (w_active_mask w) (size_add_int (w_pc w) (inst_immediate inst)) (w_threads ?w1)\<rparr>"
      and r: "r = plain_result BranchTaken"
      using run 3 by (simp_all add: exec_branch_def Let_def tk move_to_eq[OF l2])
    have thr: "w_threads ?w1 = w_threads w" by (simp add: warp_updates)
    have "warp_framed w w'"
      unfolding w' thr by (simp add: warp_framed_def warp_updates lanes_framed_shadow)
    moreover have "control w' = (size_add_int (w_pc w) (inst_immediate inst), tk, w_reconvergence_pc w, ?d # w_stack w)"
      unfolding w' by (simp add: control_def warp_updates)
    moreover have "w_threads w' = shadow (w_active_mask w) (size_add_int (w_pc w) (inst_immediate inst)) (w_threads w)"
      "w_pc w' = size_add_int (w_pc w) (inst_immediate inst)"
      unfolding w' thr by simp_all
    ultimately show ?thesis using 3 tk r by auto
  qed
qed

lemma exec_ssy_Inr:
  assumes len: "length (w_threads w) \<le> 32" and run: "exec_ssy inst w = Inr (r, w')"
  shows "r = plain_result ExecCompleted \<and> warp_framed w w' \<and>
    w_threads w' = shadow (w_active_mask w) (size_add (w_pc w) 1) (w_threads w) \<and>
    control w' = (size_add (w_pc w) 1, w_active_mask w, size_add_int (w_pc w) (inst_immediate inst),
      \<lparr>se_active_mask = w_active_mask w, se_target_pc = size_add_int (w_pc w) (inst_immediate inst),
       se_reconvergence_pc = w_reconvergence_pc w\<rparr> # w_stack w)"
proof -
  let ?e = "\<lparr>se_active_mask = w_active_mask w, se_target_pc = size_add_int (w_pc w) (inst_immediate inst),
       se_reconvergence_pc = w_reconvergence_pc w\<rparr>"
  let ?w1 = "set_reconvergence_pc (push_simt_stack w ?e) (size_add_int (w_pc w) (inst_immediate inst))"
  have l2: "length (w_threads ?w1) \<le> 32" using len by (simp add: warp_updates)
  have thr: "w_threads ?w1 = w_threads w" by (simp add: warp_updates)
  have w': "w' = ?w1\<lparr>w_pc := size_add (w_pc w) 1, w_threads := shadow (w_active_mask w) (size_add (w_pc w) 1) (w_threads ?w1)\<rparr>"
    and r: "r = plain_result ExecCompleted"
    using run by (simp_all add: exec_ssy_def Let_def move_to_eq[OF l2])
  show ?thesis
    unfolding w' thr using r by (simp add: warp_framed_def warp_updates lanes_framed_shadow control_def)
qed

lemma exec_sync_Inr:
  assumes len: "length (w_threads w) \<le> 32" and run: "exec_sync w = Inr (r, w')"
  shows "\<exists>e es. w_stack w = e # es \<and> r = plain_result ExecCompleted \<and> warp_framed w w' \<and>
    w_threads w' = shadow (w_active_mask w) (w_pc w') (w_threads w) \<and>
    control w' = (if se_target_pc e = w_pc w then size_add (w_pc w) 1 else se_target_pc e,
                  se_active_mask e, se_reconvergence_pc e, es)"
proof -
  obtain e es where st: "w_stack w = e # es"
    using run by (auto simp: exec_sync_def pop_simt_stack_def Let_def split: list.splits)
  let ?w2 = "set_reconvergence_pc (set_active_mask (w\<lparr>w_stack := es\<rparr>) (se_active_mask e)) (se_reconvergence_pc e)"
  let ?pc = "if se_target_pc e = w_pc w then size_add (w_pc w) 1 else se_target_pc e"
  have l2: "length (w_threads ?w2) \<le> 32" using len by (simp add: warp_updates)
  have thr: "w_threads ?w2 = w_threads w" by (simp add: warp_updates)
  have w': "w' = ?w2\<lparr>w_pc := ?pc, w_threads := shadow (w_active_mask w) ?pc (w_threads ?w2)\<rparr>"
    and r: "r = plain_result ExecCompleted"
    using run by (auto simp: exec_sync_def pop_simt_stack_def Let_def st move_to_eq[OF l2] split: if_splits)
  have "warp_framed w w'" "w_threads w' = shadow (w_active_mask w) (w_pc w') (w_threads w)"
    "control w' = (?pc, se_active_mask e, se_reconvergence_pc e, es)"
    unfolding w' thr by (simp_all add: warp_framed_def warp_updates lanes_framed_shadow control_def)
  with st r show ?thesis by blast
qed

lemma exec_barrier_Inr:
  assumes len: "length (w_threads w) \<le> 32" and run: "exec_barrier w = Inr (r, w')"
  shows "mask_count (w_active_mask w) = length (w_threads w) \<and> r = plain_result BarrierReached \<and>
    warp_framed w w' \<and> control w' = next_control w"
  using run by (auto simp: exec_barrier_def move_to_eq[OF len] warp_framed_def lanes_framed_shadow
      control_def next_control_def split: if_splits)

section \<open>The executor as a whole\<close>

definition control_opcode :: "opcode \<Rightarrow> bool" where
  "control_opcode oc \<longleftrightarrow> oc \<in> {BRANCH, SSY, SYNC}"

lemma execute_load_InrE:
  assumes len: "length (w_threads w) \<le> 32" and "inst_opcode inst = LOAD" and "execute inst w m = Inr (r, w', m')"
  obtains w1 where "exec_load inst w m = Inr (r, w1, m')"
    "lanes_framed (w_active_mask w) (w_threads w) (w_threads w1)"
    "w' = w1\<lparr>w_pc := size_add (w_pc w) 1, w_threads := shadow (w_active_mask w) (size_add (w_pc w) 1) (w_threads w1)\<rparr>"
    "w1 = w\<lparr>w_threads := w_threads w1\<rparr>"
proof -
  obtain w1 where w1: "exec_load inst w m = Inr (r, w1, m')"
    "move_to (w_active_mask w) (size_add (w_pc w) 1) w1 = Inr w'"
    using assms(2,3) by (auto simp: execute_def Let_def)
  have fr: "lanes_framed (w_active_mask w) (w_threads w) (w_threads w1) \<and> w1 = w\<lparr>w_threads := w_threads w1\<rparr>"
    using len w1(1)
  proof (rule exec_load_InrE)
    assume "w1 = w"
    then show ?thesis by (cases w) simp
  qed simp
  then have "length (w_threads w1) \<le> 32" using len by (simp add: lanes_framed_def)
  from w1(2)[unfolded move_to_eq[OF this]] that[OF w1(1)] fr show ?thesis by auto
qed

lemma execute_write_InrE:
  assumes len: "length (w_threads w) \<le> 32" and "execute inst w m = Inr (r, w', m')"
    and "inst_opcode inst = STORE \<and> op = warp_store \<or> inst_opcode inst = ATOMIC_ADD \<and> op = warp_atomic_add"
  shows "exec_write op inst w m = Inr (r, m') \<and>
    w' = w\<lparr>w_pc := size_add (w_pc w) 1, w_threads := shadow (w_active_mask w) (size_add (w_pc w) 1) (w_threads w)\<rparr>"
  using assms(2,3) by (auto simp: execute_def Let_def move_to_eq[OF len])

lemma execute_cases:
  assumes "execute inst w m = Inr (r, w', m')"
  obtains (load) "inst_opcode inst = LOAD"
  | (store) "inst_opcode inst = STORE" | (atomic) "inst_opcode inst = ATOMIC_ADD"
  | (branch) "inst_opcode inst = BRANCH" "exec_branch inst w = Inr (r, w')" "m' = m"
  | (ssy) "inst_opcode inst = SSY" "exec_ssy inst w = Inr (r, w')" "m' = m"
  | (sync) "inst_opcode inst = SYNC" "exec_sync w = Inr (r, w')" "m' = m"
  | (barrier) "inst_opcode inst = BARRIER" "exec_barrier w = Inr (r, w')" "m' = m"
  | (lanes) "inst_opcode inst \<in> {ADD, SUB, MUL, MOV, CMP}" "exec_lanes inst w = Inr (r, w')" "m' = m"
  using assms
  by (cases "inst_opcode inst") (auto simp: execute_def Let_def keep_memory_def)

lemma execute_framed:
  assumes len: "length (w_threads w) \<le> 32" and run: "execute inst w m = Inr (r, w', m')"
  shows "warp_framed w w'" and "\<not> control_opcode (inst_opcode inst) \<Longrightarrow> control w' = next_control w"
proof -
  have "warp_framed w w' \<and> (\<not> control_opcode (inst_opcode inst) \<longrightarrow> control w' = next_control w)"
    using run
  proof (cases rule: execute_cases)
    case load
    then show ?thesis
    proof (rule execute_load_InrE[OF len _ run])
      fix w1 assume fr: "lanes_framed (w_active_mask w) (w_threads w) (w_threads w1)"
        and w': "w' = w1\<lparr>w_pc := size_add (w_pc w) 1, w_threads := shadow (w_active_mask w) (size_add (w_pc w) 1) (w_threads w1)\<rparr>"
        and w1: "w1 = w\<lparr>w_threads := w_threads w1\<rparr>"
      obtain ts where ts: "w1 = w\<lparr>w_threads := ts\<rparr>" using w1 by blast
      show ?thesis
        using lanes_framed_trans[OF fr lanes_framed_shadow] unfolding w' ts
        by (simp add: warp_framed_def control_def next_control_def)
    qed
  next
    case store
    then show ?thesis using execute_write_InrE[OF len run, of warp_store]
      by (simp add: warp_framed_def lanes_framed_shadow control_def next_control_def)
  next
    case atomic
    then show ?thesis using execute_write_InrE[OF len run, of warp_atomic_add]
      by (simp add: warp_framed_def lanes_framed_shadow control_def next_control_def)
  next
    case branch
    then show ?thesis using exec_branch_Inr[OF len branch(2)] by (auto simp: control_opcode_def)
  next
    case ssy
    then show ?thesis using exec_ssy_Inr[OF len ssy(2)] by (simp add: control_opcode_def)
  next
    case sync
    then show ?thesis using exec_sync_Inr[OF len sync(2)] by (auto simp: control_opcode_def)
  next
    case barrier
    then show ?thesis using exec_barrier_Inr[OF len barrier(2)] by simp
  next
    case lanes
    then obtain ts where ts: "lanes_framed (w_active_mask w) (w_threads w) ts"
      and w': "w' = w\<lparr>w_pc := size_add (w_pc w) 1, w_threads := shadow (w_active_mask w) (size_add (w_pc w) 1) ts\<rparr>"
      using exec_lanes_Inr[OF len lanes(2)] by blast
    show ?thesis
      using lanes_framed_trans[OF ts lanes_framed_shadow]
      by (simp add: w' warp_framed_def control_def next_control_def)
  qed
  then show "warp_framed w w'" and "\<not> control_opcode (inst_opcode inst) \<Longrightarrow> control w' = next_control w"
    by blast+
qed

text \<open>Every mask of a warp, active or on the stack, selects existing lanes only.\<close>

definition masks_inv :: "warp \<Rightarrow> bool" where
  "masks_inv w \<longleftrightarrow> length (w_threads w) \<le> 32 \<and>
     (\<forall>k \<in> set (w_active_mask w # map se_active_mask (w_stack w)). \<forall>i. bit k i \<longrightarrow> i < length (w_threads w))"

lemma masks_inv_control:
  assumes "masks_inv w" and "length (w_threads w') = length (w_threads w)"
    and "set (w_active_mask w' # map se_active_mask (w_stack w')) \<subseteq> M"
    and "\<And>k i. k \<in> M \<Longrightarrow> bit k i \<Longrightarrow> \<exists>k' \<in> set (w_active_mask w # map se_active_mask (w_stack w)). bit k' i"
  shows "masks_inv w'"
  unfolding masks_inv_def
proof (intro conjI ballI allI impI)
  show "length (w_threads w') \<le> 32" using assms(1,2) by (simp add: masks_inv_def)
  fix k i assume "k \<in> set (w_active_mask w' # map se_active_mask (w_stack w'))" and b: "bit k i"
  then have "k \<in> M" using assms(3) by blast
  from assms(4)[OF this b] assms(1,2) show "i < length (w_threads w')"
    unfolding masks_inv_def by metis
qed

lemma execute_masks_inv:
  assumes inv: "masks_inv w" and run: "execute inst w m = Inr (r, w', m')"
  shows "masks_inv w'"
proof -
  have len: "length (w_threads w) \<le> 32" using inv by (simp add: masks_inv_def)
  note fr = execute_framed[OF len run]
  have n: "length (w_threads w') = length (w_threads w)"
    using fr(1) by (simp add: warp_framed_def lanes_framed_def)
  let ?M = "set (w_active_mask w # map se_active_mask (w_stack w))"
  have same: "masks_inv w'" if "control w' = next_control w"
    by (rule masks_inv_control[OF inv n, of ?M]) (use that in \<open>auto simp: control_def next_control_def\<close>)
  show ?thesis
  proof (cases "control_opcode (inst_opcode inst)")
    case False
    then show ?thesis using fr(2) same by blast
  next
    case True
    with run show ?thesis
    proof (cases rule: execute_cases)
      case branch
      then obtain tk where tk: "taken_mask (w_active_mask w) (w_threads w) = Inr tk"
        and c: "if tk = 0 then control w' = next_control w
           else if tk = w_active_mask w then control w' = (w_pc w', w_active_mask w, w_reconvergence_pc w, w_stack w)
           else control w' = (w_pc w', tk, w_reconvergence_pc w,
               \<lparr>se_active_mask = w_active_mask w AND NOT tk, se_target_pc = size_add (w_pc w) 1,
                se_reconvergence_pc = w_reconvergence_pc w\<rparr> # w_stack w)"
        using exec_branch_Inr[OF len branch(2)] by (metis (no_types, lifting))
      have sub: "bit tk i \<Longrightarrow> bit (w_active_mask w) i" for i
        using taken_mask_takes[OF len tk, of i] by (simp add: takes_def)
      show ?thesis
        by (rule masks_inv_control[OF inv n, of "{tk, w_active_mask w AND NOT tk} \<union> ?M"])
          (use c sub in \<open>auto simp: control_def next_control_def bit_and_iff split: if_splits\<close>)
    next
      case ssy
      then show ?thesis using exec_ssy_Inr[OF len ssy(2)]
        by (intro masks_inv_control[OF inv n, of ?M]) (auto simp: control_def)
    next
      case sync
      then show ?thesis using exec_sync_Inr[OF len sync(2)]
        by (intro masks_inv_control[OF inv n, of ?M]) (auto simp: control_def)
    qed (auto simp: control_opcode_def)
  qed
qed

end
