(* ===== verification/Executor_Props.thy ===== *)
theory Executor_Props
  imports Executor
begin

text \<open>
  What the executor guarantees: reconvergence of the SIMT stack, the lane-by-lane effect of
  the register, memory and control instructions, and the instructions that cannot throw.
\<close>

section \<open>Well-nested divergence\<close>

text \<open>
  The stack as a nesting of regions. With \<open>r\<close> the current reconvergence point, an entry whose
  target is \<open>r\<close> is the token pushed by the \<open>SSY\<close> that opened the region, and every other
  entry is a path deferred by a divergent branch inside it. \<open>g\<close> collects the lanes of the
  region seen so far: deferred paths are disjoint from them, a token covers all of them, and
  outside all regions the lanes are exactly \<open>full\<close>.
\<close>

definition mask_subset :: "lane_mask \<Rightarrow> lane_mask \<Rightarrow> bool" where
  "mask_subset a b \<longleftrightarrow> a AND NOT b = 0"

definition mask_disjoint :: "lane_mask \<Rightarrow> lane_mask \<Rightarrow> bool" where
  "mask_disjoint a b \<longleftrightarrow> a AND b = 0"

fun simt_nested :: "lane_mask \<Rightarrow> lane_mask \<Rightarrow> size_t \<Rightarrow> simt_entry list \<Rightarrow> bool" where
  "simt_nested full g r [] \<longleftrightarrow> g = full"
| "simt_nested full g r (e # es) \<longleftrightarrow>
     (if se_target_pc e = r
      then mask_subset g (se_active_mask e) \<and> simt_nested full (se_active_mask e) (se_reconvergence_pc e) es
      else es \<noteq> [] \<and> se_reconvergence_pc e = r \<and> mask_disjoint (se_active_mask e) g \<and>
           simt_nested full (se_active_mask e OR g) r es)"

definition simt_inv :: "lane_mask \<Rightarrow> warp \<Rightarrow> bool" where
  "simt_inv full w \<longleftrightarrow> simt_nested full (w_active_mask w) (w_reconvergence_pc w) (w_stack w)"

text \<open>
  The programming discipline: a branch that diverges does so inside a region and its
  fall-through is not the reconvergence point itself, and \<open>SYNC\<close> is executed at the
  reconvergence point of an open region.
\<close>

definition uniform_branch :: "warp \<Rightarrow> bool" where
  "uniform_branch w \<longleftrightarrow>
     (\<forall>i < length (w_threads w). bit (w_active_mask w) i \<longrightarrow> t_predicate (w_threads w ! i)) \<or>
     (\<forall>i < length (w_threads w). bit (w_active_mask w) i \<longrightarrow> \<not> t_predicate (w_threads w ! i))"

definition disciplined :: "instruction \<Rightarrow> warp \<Rightarrow> bool" where
  "disciplined inst w \<longleftrightarrow>
     (inst_opcode inst = BRANCH \<longrightarrow>
        uniform_branch w \<or> w_stack w \<noteq> [] \<and> size_add (w_pc w) 1 \<noteq> w_reconvergence_pc w) \<and>
     (inst_opcode inst = SYNC \<longrightarrow> w_stack w \<noteq> [] \<and> w_pc w = w_reconvergence_pc w)"

lemma bit_lane: "bit (a :: lane_mask) i \<Longrightarrow> i < 32"
  using bit_imp_le_length[of a i] by simp

lemma mask_subset_iff: "mask_subset a b \<longleftrightarrow> (\<forall>i. bit a i \<longrightarrow> bit b i)"
proof
  assume "mask_subset a b"
  then have "\<not> bit (a AND NOT b) i" for i by (simp add: mask_subset_def)
  then show "\<forall>i. bit a i \<longrightarrow> bit b i" by (auto simp: bit_and_iff bit_not_iff dest: bit_lane)
next
  assume "\<forall>i. bit a i \<longrightarrow> bit b i"
  then show "mask_subset a b" unfolding mask_subset_def by (intro bit_word_eqI) (auto simp: bit_and_iff bit_not_iff)
qed

lemma mask_disjoint_iff: "mask_disjoint a b \<longleftrightarrow> (\<forall>i. \<not> (bit a i \<and> bit b i))"
proof
  assume "mask_disjoint a b"
  then have "\<not> bit (a AND b) i" for i by (simp add: mask_disjoint_def)
  then show "\<forall>i. \<not> (bit a i \<and> bit b i)" by (simp add: bit_and_iff)
next
  assume "\<forall>i. \<not> (bit a i \<and> bit b i)"
  then show "mask_disjoint a b" unfolding mask_disjoint_def by (intro bit_word_eqI) (auto simp: bit_and_iff)
qed

lemma mask_subset_refl [simp]: "mask_subset a a"
  by (simp add: mask_subset_iff)

lemmas mask_algebra = mask_subset_iff mask_disjoint_iff bit_or_iff bit_and_iff bit_not_iff

lemma simt_nested_anti:
  "simt_nested full g r es \<Longrightarrow> es \<noteq> [] \<Longrightarrow> mask_subset g' g \<Longrightarrow> simt_nested full g' r es"
proof (induction es arbitrary: g g')
  case (Cons e es)
  show ?case
  proof (cases "se_target_pc e = r")
    case True
    then show ?thesis using Cons.prems by (simp add: mask_algebra)
  next
    case False
    have "simt_nested full (se_active_mask e OR g') r es"
    proof (rule Cons.IH)
      show "simt_nested full (se_active_mask e OR g) r es" "es \<noteq> []"
        using Cons.prems(1) False by simp_all
      show "mask_subset (se_active_mask e OR g') (se_active_mask e OR g)"
        using Cons.prems(3) by (auto simp: mask_algebra)
    qed
    then show ?thesis using Cons.prems False by (simp add: mask_algebra) blast
  qed
qed simp

text \<open>Every lane is accounted for: active, deferred or waiting under a token.\<close>

lemma simt_nested_covers:
  "simt_nested full g r es \<Longrightarrow> bit full i \<Longrightarrow> bit g i \<or> (\<exists>e \<in> set es. bit (se_active_mask e) i)"
  by (induction full g r es rule: simt_nested.induct) (auto simp: bit_or_iff split: if_splits)

lemma uniform_branch_taken:
  assumes len: "length (w_threads w) \<le> 32" and tk: "taken_mask (w_active_mask w) (w_threads w) = Inr tk"
    and masks: "masks_inv w"
  shows "uniform_branch w \<longleftrightarrow> tk = 0 \<or> tk = w_active_mask w"
proof -
  note b = taken_mask_takes[OF len tk]
  have act: "bit (w_active_mask w) i \<Longrightarrow> i < length (w_threads w)" for i
    using masks by (simp add: masks_inv_def)
  have "tk = 0 \<longleftrightarrow> (\<forall>i. \<not> takes w i)"
  proof
    assume "tk = 0"
    then show "\<forall>i. \<not> takes w i" using b by (metis bit_0_eq bot_fun_def bot_bool_def)
  next
    assume "\<forall>i. \<not> takes w i"
    then show "tk = 0" using b by (intro bit_word_eqI) simp
  qed
  moreover have "tk = w_active_mask w \<longleftrightarrow> (\<forall>i. bit (w_active_mask w) i \<longrightarrow> takes w i)"
  proof
    assume "tk = w_active_mask w"
    then show "\<forall>i. bit (w_active_mask w) i \<longrightarrow> takes w i" using b by metis
  next
    assume "\<forall>i. bit (w_active_mask w) i \<longrightarrow> takes w i"
    then show "tk = w_active_mask w" using b by (intro bit_word_eqI) (auto simp: takes_def)
  qed
  ultimately show ?thesis using act unfolding uniform_branch_def takes_def by blast
qed

lemma simt_inv_control:
  "control w' = (p, a, r, st) \<Longrightarrow> simt_inv full w' = simt_nested full a r st"
  by (simp add: control_def simt_inv_def)

lemma execute_simt_inv:
  assumes masks: "masks_inv w" and inv: "simt_inv full w" and disc: "disciplined inst w"
    and run: "execute inst w m = Inr (r, w', m')"
  shows "simt_inv full w'"
proof -
  have len: "length (w_threads w) \<le> 32" using masks by (simp add: masks_inv_def)
  have keep: "simt_inv full w'" if "control w' = next_control w"
    using that inv by (simp add: control_def next_control_def simt_inv_def)
  show ?thesis
  proof (cases "control_opcode (inst_opcode inst)")
    case False
    then show ?thesis using execute_framed(2)[OF len run] keep by blast
  next
    case True
    from run show ?thesis
    proof (cases rule: execute_cases)
      case branch
      then obtain tk where tk: "taken_mask (w_active_mask w) (w_threads w) = Inr tk"
        and c: "if tk = 0 then control w' = next_control w
           else if tk = w_active_mask w then control w' = (w_pc w', w_active_mask w, w_reconvergence_pc w, w_stack w)
           else control w' = (w_pc w', tk, w_reconvergence_pc w,
               \<lparr>se_active_mask = w_active_mask w AND NOT tk, se_target_pc = size_add (w_pc w) 1,
                se_reconvergence_pc = w_reconvergence_pc w\<rparr> # w_stack w)"
        using exec_branch_Inr[OF len branch(2)] by (metis (no_types, lifting))
      consider "tk = 0" | "tk \<noteq> 0" "tk = w_active_mask w" | "tk \<noteq> 0" "tk \<noteq> w_active_mask w" by blast
      then show ?thesis
      proof cases
        case 3
        then have c': "control w' = (w_pc w', tk, w_reconvergence_pc w,
               \<lparr>se_active_mask = w_active_mask w AND NOT tk, se_target_pc = size_add (w_pc w) 1,
                se_reconvergence_pc = w_reconvergence_pc w\<rparr> # w_stack w)" using c by simp
        have "w_stack w \<noteq> []" "size_add (w_pc w) 1 \<noteq> w_reconvergence_pc w"
          using disc branch(1) uniform_branch_taken[OF len tk masks] 3 by (auto simp: disciplined_def)
        moreover have "(w_active_mask w AND NOT tk) OR tk = w_active_mask w"
          using taken_mask_takes[OF len tk]
          by (intro bit_word_eqI) (auto simp: mask_algebra takes_def dest: bit_lane)
        moreover have "mask_disjoint (w_active_mask w AND NOT tk) tk"
          by (auto simp: mask_algebra)
        ultimately show ?thesis
          unfolding simt_inv_control[OF c'] using inv by (simp add: simt_inv_def)
      next
        case 2
        then have "control w' = (w_pc w', w_active_mask w, w_reconvergence_pc w, w_stack w)" using c by simp
        then show ?thesis using inv by (simp add: simt_inv_def control_def)
      qed (use c keep in simp)
    next
      case ssy
      then show ?thesis using exec_ssy_Inr[OF len ssy(2)] inv
        by (simp add: simt_inv_control) (simp add: simt_inv_def)
    next
      case sync
      then obtain e es where e: "w_stack w = e # es"
        "control w' = (if se_target_pc e = w_pc w then size_add (w_pc w) 1 else se_target_pc e,
                  se_active_mask e, se_reconvergence_pc e, es)"
        using exec_sync_Inr[OF len sync(2)] by blast
      have pc: "w_pc w = w_reconvergence_pc w" using disc sync(1) by (simp add: disciplined_def)
      have nest: "simt_nested full (w_active_mask w) (w_pc w) (e # es)"
        using inv e(1) pc by (simp add: simt_inv_def)
      show ?thesis
      proof (cases "se_target_pc e = w_pc w")
        case True
        then show ?thesis using nest e(2) by (simp add: simt_inv_control)
      next
        case False
        then have "simt_nested full (se_active_mask e) (se_reconvergence_pc e) es"
          using nest simt_nested_anti[of full "se_active_mask e OR w_active_mask w" "w_pc w" es "se_active_mask e"]
          by (simp add: mask_algebra)
        then show ?thesis using e(2) by (simp add: simt_inv_control)
      qed
    qed (use True in \<open>auto simp: control_opcode_def\<close>)
  qed
qed

lemma simt_inv_new: "w_stack w = [] \<Longrightarrow> simt_inv (w_active_mask w) w"
  by (simp add: simt_inv_def)

section \<open>The effect on the lanes\<close>

text \<open>A register write as a client reads it.\<close>

lemma write_reg_read:
  assumes "write_reg t r v = Inr t'"
  shows "read_reg t' r' = (if int_to_size r' = int_to_size r then Inr v else read_reg t r')"
    and "t_predicate t' = t_predicate t"
  using assms regs.rd_wr[of "t_registers t" "int_to_size r" v]
  by (auto simp: write_reg_def read_reg_def)

lemma read_reg_set_pc [simp]: "read_reg (set_pc t p) r = read_reg t r"
  by (simp add: read_reg_def set_pc_def)

text \<open>The arithmetic of an ALU opcode on the integers.\<close>

definition alu_value :: "opcode \<Rightarrow> int \<Rightarrow> int \<Rightarrow> int" where
  "alu_value oc a b = (case oc of ADD \<Rightarrow> a + b | SUB \<Rightarrow> a - b | _ \<Rightarrow> a * b)"

lemma alu_exact:
  "c_add a b = Inr v \<Longrightarrow> sint v = sint a + sint b"
  "c_sub a b = Inr v \<Longrightarrow> sint v = sint a - sint b"
  "c_mul a b = Inr v \<Longrightarrow> sint v = sint a * sint b"
  by (simp_all add: c_add_def c_sub_def c_mul_def checked_int_sint)

lemma alu_lane:
  assumes "inst_opcode inst \<in> {ADD, SUB, MUL}" and "lane_op inst t = Inr t'"
  shows "\<exists>a b v. read_reg t (inst_src1 inst) = Inr a \<and> read_reg t (inst_src2 inst) = Inr b \<and>
    sint v = alu_value (inst_opcode inst) (sint a) (sint b) \<and> write_reg t (inst_dst inst) v = Inr t'"
  using assms by (auto simp: lane_op_def alu_def alu_value_def) (blast dest: alu_exact)+

lemma cmp_lane:
  assumes "inst_opcode inst = CMP" and "lane_op inst t = Inr t'"
  shows "\<exists>a b. read_reg t (inst_src1 inst) = Inr a \<and> read_reg t (inst_src2 inst) = Inr b \<and>
    t' = set_predicate t (a = b)"
  using assms by (auto simp: lane_op_def cmp_def)

lemma exec_lanes_lane:
  assumes len: "length (w_threads w) \<le> 32" and "exec_lanes inst w = Inr (r, w')"
    and i: "i < length (w_threads w)" "bit (w_active_mask w) i"
  shows "\<exists>t. lane_op inst (w_threads w ! i) = Inr t \<and>
    w_threads w' ! i = set_pc t (size_to_int (size_add (w_pc w) 1))"
proof -
  obtain ts where ts: "each_active (w_active_mask w) (lane_op inst) (w_threads w) = Inr ts"
    and w': "w_threads w' = shadow (w_active_mask w) (size_add (w_pc w) 1) ts"
    using exec_lanes_Inr[OF len assms(2)] by auto
  note e = ts[unfolded each_active_Inr[OF len]]
  then show ?thesis using i by (auto simp: w' nth_shadow)
qed

lemma execute_lane_op:
  assumes len: "length (w_threads w) \<le> 32" and "inst_opcode inst \<in> {ADD, SUB, MUL, MOV, CMP}"
    and run: "execute inst w m = Inr (r, w', m')"
    and i: "i < length (w_threads w)" "bit (w_active_mask w) i"
  shows "m' = m \<and> er_latency r = 1 \<and> (\<exists>t. lane_op inst (w_threads w ! i) = Inr t \<and>
    w_threads w' ! i = set_pc t (size_to_int (size_add (w_pc w) 1)))"
proof -
  have e: "exec_lanes inst w = Inr (r, w')" "m' = m"
    using assms(2,3) by (auto simp: execute_def Let_def keep_memory_def)
  show ?thesis
    using exec_lanes_Inr[OF len e(1)] exec_lanes_lane[OF len e(1) i] e(2) by (auto simp: plain_result_def)
qed

text \<open>Memory instructions against the address space of the memory system.\<close>

lemma write_back_lane:
  "write_back inst ivs ts = Inr ts' \<Longrightarrow> distinct (map fst ivs) \<Longrightarrow> \<forall>i \<in> fst ` set ivs. i < length ts \<Longrightarrow>
   length ts' = length ts \<and>
   (\<forall>i < length ts. if i \<in> fst ` set ivs
      then \<exists>v. (i, v) \<in> set ivs \<and> write_reg (ts ! i) (inst_dst inst) v = Inr (ts' ! i) else ts' ! i = ts ! i)"
proof (induction ivs arbitrary: ts)
  case Nil
  then show ?case by (simp add: write_back_def)
next
  case (Cons p ivs)
  obtain i v where p: "p = (i, v)" by (cases p)
  with Cons.prems(1) obtain t where t: "write_reg (ts ! i) (inst_dst inst) v = Inr t"
    "write_back inst ivs (ts[i := t]) = Inr ts'" by (auto simp: write_back_def)
  have i: "i < length ts" "i \<notin> fst ` set ivs" using Cons.prems p by auto
  have IH: "length ts' = length (ts[i := t]) \<and> (\<forall>j < length (ts[i := t]). if j \<in> fst ` set ivs
      then \<exists>v. (j, v) \<in> set ivs \<and> write_reg (ts[i := t] ! j) (inst_dst inst) v = Inr (ts' ! j)
      else ts' ! j = ts[i := t] ! j)"
    using Cons.IH[OF t(2)] Cons.prems p by simp
  have "if j \<in> fst ` set (p # ivs)
      then \<exists>v. (j, v) \<in> set (p # ivs) \<and> write_reg (ts ! j) (inst_dst inst) v = Inr (ts' ! j)
      else ts' ! j = ts ! j" if j: "j < length ts" for j
  proof (cases "j = i")
    case True
    then have "ts' ! j = t" using IH i j by simp
    then show ?thesis using True p t(1) by auto
  next
    case False
    then have e: "ts[i := t] ! j = ts ! j" "j \<in> fst ` set (p # ivs) \<longleftrightarrow> j \<in> fst ` set ivs" using p by auto
    have "if j \<in> fst ` set ivs
        then \<exists>v. (j, v) \<in> set ivs \<and> write_reg (ts ! j) (inst_dst inst) v = Inr (ts' ! j) else ts' ! j = ts ! j"
      using conjunct2[OF IH, rule_format, of j] j unfolding e(1) by simp
    then show ?thesis unfolding e(2) by (meson list.set_intros(2))
  qed
  moreover have "length ts' = length ts" using IH by simp
  ultimately show ?case by blast
qed

lemma active_lanes_props: "distinct (active_lanes m ts)" "i \<in> set (active_lanes m ts) \<longleftrightarrow> i < length ts \<and> bit m i"
  by (auto simp: active_lanes_def)

lemma load_lane:
  assumes len: "length (w_threads w) \<le> 32" and minv: "ms_inv m"
    and run: "exec_load inst w m = Inr (r, w1, m')"
    and i: "i < length (w_threads w)" "bit (w_active_mask w) i"
  shows "\<exists>a v. lane_address (inst_src1 inst) inst (w_threads w ! i) = Inr a \<and> word_at m a = Inr v \<and>
    write_reg (w_threads w ! i) (inst_dst inst) v = Inr (w_threads w1 ! i)"
  using len run
proof (cases rule: exec_load_InrE)
  case idle
  then show ?thesis using active_lanes_props(2)[of i "w_active_mask w" "w_threads w"] i by simp
next
  case (lanes lns res vals ts)
  note g = lanes(1)[unfolded gather_Inr[OF len]]
  note wl = warp_load_correct[OF minv lanes(3)]
  have all: "list_all2 (\<lambda>a v. word_at m a = Inr v) (map snd lns) vals" using wl by blast
  then have lv: "length vals = length lns" by (auto dest: list_all2_lengthD)
  have "map fst (zip (map fst lns) vals) = map fst lns"
    using lv by simp
  with g have fsts: "map fst (zip (map fst lns) vals) = active_lanes (w_active_mask w) (w_threads w)"
    by simp
  have "\<forall>j \<in> fst ` set (zip (map fst lns) vals). j < length (w_threads w)"
    using fsts active_lanes_props(2) by (metis list.set_map)
  from write_back_lane[OF lanes(4) _ this] fsts active_lanes_props(1)
  have wb: "if i \<in> fst ` set (zip (map fst lns) vals)
      then \<exists>v. (i, v) \<in> set (zip (map fst lns) vals) \<and> write_reg (w_threads w ! i) (inst_dst inst) v = Inr (ts ! i)
      else ts ! i = w_threads w ! i" using i(1) by metis
  moreover have "i \<in> fst ` set (zip (map fst lns) vals)"
    using fsts active_lanes_props(2) i by (metis list.set_map)
  ultimately have "\<exists>v. (i, v) \<in> set (zip (map fst lns) vals) \<and> write_reg (w_threads w ! i) (inst_dst inst) v = Inr (ts ! i)"
    by meson
  then obtain v where v: "(i, v) \<in> set (zip (map fst lns) vals)"
    "write_reg (w_threads w ! i) (inst_dst inst) v = Inr (ts ! i)" by blast
  then obtain k where k: "k < length lns" "fst (lns ! k) = i" "vals ! k = v"
    using lv by (auto simp: set_zip)
  obtain a where a: "lns ! k = (i, a)" using k(2) by (cases "lns ! k") simp
  have "(i, a) \<in> set lns" using k(1) unfolding a[symmetric] by simp
  from bspec[OF conjunct2[OF g] this]
  have "lane_address (inst_src1 inst) inst (w_threads w ! i) = Inr (snd (lns ! k))" using a by simp
  moreover have "word_at m (snd (lns ! k)) = Inr v"
    using all k by (auto simp: list_all2_conv_all_nth)
  ultimately show ?thesis using v(2) lanes(5) by auto
qed

lemma exec_write_InrE:
  assumes len: "length (w_threads w) \<le> 32" and run: "exec_write op inst w m = Inr (r, m')"
  shows "\<exists>lanes. gather (w_active_mask w) (lane_store inst) (w_threads w) = Inr lanes \<and>
    (if lanes = [] then m' = m \<and> r = plain_result ExecCompleted
     else \<exists>res. op m (map (fst \<circ> snd) lanes) (map (snd \<circ> snd) lanes) = Inr (res, m') \<and>
       r = memory_result (map (fst \<circ> snd) lanes) res
             (let c = max_collisions (map (fst \<circ> snd) lanes) in if c > 1 then c - 1 else 0))"
proof -
  obtain lanes where g: "gather (w_active_mask w) (lane_store inst) (w_threads w) = Inr lanes"
    using run by (auto simp: exec_write_def)
  show ?thesis
  proof (cases "lanes = []")
    case True
    then show ?thesis using run by (simp add: exec_write_def g)
  next
    case False
    then obtain res where "op m (map (fst \<circ> snd) lanes) (map (snd \<circ> snd) lanes) = Inr (res, m')"
      "r = memory_result (map (fst \<circ> snd) lanes) res
             (let c = max_collisions (map (fst \<circ> snd) lanes) in if c > 1 then c - 1 else 0)"
      using run by (auto simp: exec_write_def g Let_def)
    then show ?thesis using g False by simp
  qed
qed

text \<open>The pairs a \<open>STORE\<close> or \<open>ATOMIC_ADD\<close> hands to the memory system: lane by lane, in lane order.\<close>

definition lane_writes :: "instruction \<Rightarrow> warp \<Rightarrow> (size_t \<times> c_int) list result" where
  "lane_writes inst w = mapE (\<lambda>i. lane_store inst (w_threads w ! i)) (active_lanes (w_active_mask w) (w_threads w))"

lemma gather_lane_writes:
  assumes len: "length (w_threads w) \<le> 32"
    and g: "gather (w_active_mask w) (lane_store inst) (w_threads w) = Inr lanes"
  shows "lane_writes inst w = Inr (map snd lanes)"
proof -
  note e = g[unfolded gather_Inr[OF len]]
  have "list_all2 (\<lambda>i y. lane_store inst (w_threads w ! i) = Inr y) (map fst lanes) (map snd lanes)"
    unfolding list_all2_conv_all_nth
  proof (intro conjI allI impI)
    fix k assume k: "k < length (map fst lanes)"
    obtain i x where ix: "lanes ! k = (i, x)" by (cases "lanes ! k")
    have "(i, x) \<in> set lanes" using k unfolding ix[symmetric] by simp
    from bspec[OF conjunct2[OF e] this]
    show "lane_store inst (w_threads w ! (map fst lanes ! k)) = Inr (map snd lanes ! k)"
      using k ix by simp
  qed simp
  then show ?thesis using e by (simp add: lane_writes_def mapE_Inr_iff)
qed

lemma store_lanes:
  assumes len: "length (w_threads w) \<le> 32" and minv: "ms_inv m"
    and run: "exec_write warp_store inst w m = Inr (r, m')"
  shows "\<exists>avs. lane_writes inst w = Inr avs \<and> writes_words m avs m' \<and> ms_inv m'"
proof -
  obtain lanes where g: "gather (w_active_mask w) (lane_store inst) (w_threads w) = Inr lanes"
    and c: "if lanes = [] then m' = m \<and> r = plain_result ExecCompleted
     else \<exists>res. warp_store m (map (fst \<circ> snd) lanes) (map (snd \<circ> snd) lanes) = Inr (res, m') \<and>
       r = memory_result (map (fst \<circ> snd) lanes) res
             (let c = max_collisions (map (fst \<circ> snd) lanes) in if c > 1 then c - 1 else 0)"
    using exec_write_InrE[OF len run] by blast
  have z: "zip (map (fst \<circ> snd) lanes) (map (snd \<circ> snd) lanes) = map snd lanes"
    by (induction lanes) auto
  show ?thesis
  proof (cases "lanes = []")
    case True
    then show ?thesis using c gather_lane_writes[OF len g] minv by simp
  next
    case False
    then obtain res where "warp_store m (map (fst \<circ> snd) lanes) (map (snd \<circ> snd) lanes) = Inr (res, m')"
      using c by auto
    from warp_store_correct[OF minv this] gather_lane_writes[OF len g] show ?thesis by (simp add: z)
  qed
qed

lemma atomic_lanes:
  assumes len: "length (w_threads w) \<le> 32" and minv: "ms_inv m"
    and run: "exec_write warp_atomic_add inst w m = Inr (r, m')"
  shows "\<exists>avs. lane_writes inst w = Inr avs \<and> adds_words m avs m' \<and> ms_inv m'"
proof -
  obtain lanes where g: "gather (w_active_mask w) (lane_store inst) (w_threads w) = Inr lanes"
    and c: "if lanes = [] then m' = m \<and> r = plain_result ExecCompleted
     else \<exists>res. warp_atomic_add m (map (fst \<circ> snd) lanes) (map (snd \<circ> snd) lanes) = Inr (res, m') \<and>
       r = memory_result (map (fst \<circ> snd) lanes) res
             (let c = max_collisions (map (fst \<circ> snd) lanes) in if c > 1 then c - 1 else 0)"
    using exec_write_InrE[OF len run] by blast
  have z: "zip (map (fst \<circ> snd) lanes) (map (snd \<circ> snd) lanes) = map snd lanes"
    by (induction lanes) auto
  show ?thesis
  proof (cases "lanes = []")
    case True
    then show ?thesis using c gather_lane_writes[OF len g] minv by simp
  next
    case False
    then obtain res where "warp_atomic_add m (map (fst \<circ> snd) lanes) (map (snd \<circ> snd) lanes) = Inr (res, m')"
      using c by auto
    from warp_atomic_add_correct[OF minv this] gather_lane_writes[OF len g] show ?thesis by (simp add: z)
  qed
qed

lemma execute_ms_inv:
  assumes len: "length (w_threads w) \<le> 32" and minv: "ms_inv m" and run: "execute inst w m = Inr (r, w', m')"
  shows "ms_inv m'"
  using run
proof (cases rule: execute_cases)
  case load
  then obtain w1 where "exec_load inst w m = Inr (r, w1, m')"
    using execute_load_InrE[OF len _ run] by blast
  with len show ?thesis
  proof (cases rule: exec_load_InrE)
    case idle
    then show ?thesis using minv by simp
  next
    case (lanes lns res vals ts)
    then show ?thesis using warp_load_correct[OF minv lanes(3)] by blast
  qed
next
  case store
  then show ?thesis using execute_write_InrE[OF len run, of warp_store] store_lanes[OF len minv] by blast
next
  case atomic
  then show ?thesis using execute_write_InrE[OF len run, of warp_atomic_add] atomic_lanes[OF len minv] by blast
qed (use minv in simp_all)

section \<open>Write conflicts\<close>

text \<open>The largest number of lanes that write one address.\<close>

lemma max_collisions_props:
  "a \<in> set addrs \<Longrightarrow> count_list addrs a \<le> max_collisions addrs"
  "addrs \<noteq> [] \<Longrightarrow> \<exists>a \<in> set addrs. count_list addrs a = max_collisions addrs"
proof -
  let ?m = "foldl bump [] addrs"
  have m: "distinct (map fst ?m)" "fst ` set ?m = set addrs" "\<And>k. count_of ?m k = count_list addrs k"
    using bump_foldl[of addrs] by blast+
  have mem: "n = count_list addrs k \<and> k \<in> set addrs" if kn: "(k, n) \<in> set ?m" for k n
  proof
    show "n = count_list addrs k" using count_of_mem[OF m(1) kn] m(3)[of k] by simp
    have "fst (k, n) \<in> fst ` set ?m" using kn by (rule imageI)
    then show "k \<in> set addrs" using m(2) by simp
  qed
  show "count_list addrs a \<le> max_collisions addrs" if a: "a \<in> set addrs"
  proof -
    have "a \<in> fst ` set ?m" using a m(2) by simp
    then obtain n where "(a, n) \<in> set ?m" by auto
    then have "snd (a, n) \<in> set (map snd ?m)" unfolding set_map by (rule imageI)
    then have "count_list addrs a \<in> set (map snd ?m)" using mem[OF \<open>(a, n) \<in> set ?m\<close>] by simp
    then show ?thesis unfolding max_collisions_def by (rule max_loop_ge)
  qed
  assume ne: "addrs \<noteq> []"
  then have ne': "?m \<noteq> []" using m(2) by auto
  have "max_collisions addrs \<in> set (map snd ?m)"
  proof (cases "max_collisions addrs = 0")
    case True
    have "snd (hd ?m) \<in> set (map snd ?m)" using ne' by simp
    then show ?thesis using True max_loop_ge(2)[of _ "map snd ?m" 0] by (metis max_collisions_def le_zero_eq)
  next
    case False
    then show ?thesis using max_loop_mem[of 0 "map snd ?m"] by (simp add: max_collisions_def)
  qed
  then obtain p where "p \<in> set ?m" "snd p = max_collisions addrs" by auto
  then have "(fst p, max_collisions addrs) \<in> set ?m" by (metis prod.collapse)
  from mem[OF this] show "\<exists>a \<in> set addrs. count_list addrs a = max_collisions addrs" by metis
qed

text \<open>A full warp has as many active lanes as threads.\<close>

lemma mask_count_full: "n \<le> 32 \<Longrightarrow> mask_count (full_mask n) = n"
proof -
  assume "n \<le> 32"
  then have "{i. bit (full_mask n) i} = {..<n}" by (auto simp: bit_full_mask)
  then show ?thesis by (simp add: mask_count_card)
qed

end
