(* ===== verification/Schedulers.thy ===== *)
theory Schedulers
  imports Warp "HOL-Library.Product_Lexorder"
begin

text \<open>
  The six warp schedulers of \<^verbatim>\<open>src/scheduling/\<close> and their factory. \<open>select_warp\<close> returns a
  pointer into the vector of warps or \<open>nullptr\<close>: here the index of the selected warp or
  \<open>None\<close>, with the new state of the scheduler. What the SM relies on is the locale
  \<open>warp_scheduler\<close>; \<open>work_conserving\<close> adds that a ready warp is never passed over for nothing.
\<close>

section \<open>The policies\<close>

type_synonym selection = "nat option"

definition is_ready :: "warp list \<Rightarrow> nat \<Rightarrow> bool" where
  "is_ready warps i \<longleftrightarrow> w_state (warps ! i) = Ready"

text \<open>The order in which the two rotating schedulers visit the warps.\<close>

definition rotation :: "nat \<Rightarrow> nat \<Rightarrow> nat list" where
  "rotation start n = map (\<lambda>i. (start + i) mod n) [0..<n]"

definition rr_select :: "nat \<Rightarrow> warp list \<Rightarrow> selection \<times> nat" where
  "rr_select next_warp_index warps =
     (let num_warps = length warps
      in case find (is_ready warps) (rotation next_warp_index num_warps) of
           None \<Rightarrow> (None, next_warp_index)
         | Some idx \<Rightarrow> (Some idx, (idx + 1) mod num_warps))"

definition greedy_select :: "warp list \<Rightarrow> selection" where
  "greedy_select warps = first_index (\<lambda>w. w_state w = Ready) warps"

text \<open>The loop keeps \<open>selected\<close> with \<open>max_prio\<close>, which starts at the lowest \<open>int\<close>.\<close>

definition prio_step :: "warp list \<Rightarrow> selection \<times> int \<Rightarrow> nat \<Rightarrow> selection \<times> int" where
  "prio_step warps acc idx =
     (if is_ready warps idx \<and> sint (w_priority (warps ! idx)) > snd acc
      then (Some idx, sint (w_priority (warps ! idx))) else acc)"

definition priority_select :: "nat \<Rightarrow> warp list \<Rightarrow> selection \<times> nat" where
  "priority_select next_warp_index warps =
     (let num_warps = length warps;
          selected = fst (foldl (prio_step warps) (None, - (2 ^ 31)) (rotation next_warp_index num_warps))
      in case selected of
           None \<Rightarrow> (None, next_warp_index)
         | Some best_idx \<Rightarrow> (Some best_idx, (best_idx + 1) mod num_warps))"

definition older :: "warp \<Rightarrow> warp \<Rightarrow> bool" where
  "older w v \<longleftrightarrow> w_ready_since w < w_ready_since v \<or> w_ready_since w = w_ready_since v \<and> w_id w < w_id v"

definition oldest_step :: "warp list \<Rightarrow> selection \<Rightarrow> nat \<Rightarrow> selection" where
  "oldest_step warps selected i =
     (if is_ready warps i
      then (case selected of None \<Rightarrow> Some i | Some j \<Rightarrow> if older (warps ! i) (warps ! j) then Some i else Some j)
      else selected)"

definition oldest_select :: "warp list \<Rightarrow> selection" where
  "oldest_select warps = foldl (oldest_step warps) None [0..<length warps]"

definition gto_select :: "size_t \<Rightarrow> warp list \<Rightarrow> selection \<times> size_t" where
  "gto_select last_issued warps =
     (let greedy = (if last_issued \<noteq> size_max
                    then first_index (\<lambda>w. w_id w = last_issued \<and> w_state w = Ready) warps else None);
          selected = (case greedy of Some i \<Rightarrow> Some i | None \<Rightarrow> oldest_select warps)
      in (selected, case selected of Some i \<Rightarrow> w_id (warps ! i) | None \<Rightarrow> size_max))"

record two_level =
  tl_active_set_size :: size_t
  tl_active_warp_ids :: "size_t list"
  tl_rr_index :: size_t

definition still_active :: "warp list \<Rightarrow> size_t \<Rightarrow> bool" where
  "still_active warps wid =
     (case first_index (\<lambda>w. w_id w = wid) warps of None \<Rightarrow> False | Some i \<Rightarrow> w_state (warps ! i) \<noteq> Completed)"

text \<open>
  \<open>std::sort\<close> leaves the order of candidates with equal keys open; they have the same id,
  and only the ids are used, so a stable sort by (ready since, id) gives the same list.
\<close>

definition update_active_set :: "two_level \<Rightarrow> warp list \<Rightarrow> two_level" where
  "update_active_set s warps =
     (let ids = filter (still_active warps) (tl_active_warp_ids s)
      in if length ids < tl_active_set_size s
         then let candidates = filter (\<lambda>w. w_id w \<notin> set ids \<and> w_state w = Ready) warps;
                  sorted_ids = map w_id (sort_key (\<lambda>w. (w_ready_since w, w_id w)) candidates)
              in s\<lparr>tl_active_warp_ids := ids @ take (tl_active_set_size s - length ids) sorted_ids\<rparr>
         else s\<lparr>tl_active_warp_ids := ids\<rparr>)"

definition ready_with_id :: "warp list \<Rightarrow> size_t \<Rightarrow> selection" where
  "ready_with_id warps wid = first_index (\<lambda>w. w_id w = wid \<and> w_state w = Ready) warps"

definition two_level_select :: "two_level \<Rightarrow> warp list \<Rightarrow> selection \<times> two_level" where
  "two_level_select s warps =
     (let s1 = update_active_set s warps; ids = tl_active_warp_ids s1; n = length ids;
          slot = (\<lambda>i. ids ! ((tl_rr_index s1 + i) mod n))
      in case find (\<lambda>i. ready_with_id warps (slot i) \<noteq> None) [0..<n] of
           None \<Rightarrow> (None, s1)
         | Some i \<Rightarrow> (ready_with_id warps (slot i), s1\<lparr>tl_rr_index := (tl_rr_index s1 + i + 1) mod n\<rparr>))"

section \<open>Dispatch and factory\<close>

datatype scheduler = RoundRobin nat | Greedy | Priority nat | OldestFirst | GTO size_t | TwoLevel two_level

definition select_warp :: "scheduler \<Rightarrow> warp list \<Rightarrow> selection \<times> scheduler" where
  "select_warp s warps =
     (case s of
        RoundRobin n \<Rightarrow> let (i, n') = rr_select n warps in (i, RoundRobin n')
      | Greedy \<Rightarrow> (greedy_select warps, Greedy)
      | Priority n \<Rightarrow> let (i, n') = priority_select n warps in (i, Priority n')
      | OldestFirst \<Rightarrow> (oldest_select warps, OldestFirst)
      | GTO l \<Rightarrow> let (i, l') = gto_select l warps in (i, GTO l')
      | TwoLevel t \<Rightarrow> let (i, t') = two_level_select t warps in (i, TwoLevel t'))"

definition scheduler_name :: "scheduler \<Rightarrow> string" where
  "scheduler_name s = (case s of RoundRobin _ \<Rightarrow> ''RoundRobin'' | Greedy \<Rightarrow> ''Greedy'' | Priority _ \<Rightarrow> ''Priority''
     | OldestFirst \<Rightarrow> ''OldestFirst'' | GTO _ \<Rightarrow> ''GTO'' | TwoLevel _ \<Rightarrow> ''TwoLevel'')"

definition create_scheduler :: "string \<Rightarrow> size_t \<Rightarrow> scheduler result" where
  "create_scheduler policy active_set_size =
     (if policy = ''RR'' then Inr (RoundRobin 0)
      else if policy = ''Greedy'' then Inr Greedy
      else if policy = ''Priority'' then Inr (Priority 0)
      else if policy = ''OldestFirst'' then Inr OldestFirst
      else if policy = ''GTO'' then Inr (GTO size_max)
      else if policy = ''TwoLevel'' then
        Inr (TwoLevel \<lparr>tl_active_set_size = active_set_size, tl_active_warp_ids = [], tl_rr_index = 0\<rparr>)
      else Inl (Invalid_argument (''Unknown scheduler policy: '' @ policy)))"

section \<open>The contract of a scheduler\<close>

definition some_ready :: "warp list \<Rightarrow> bool" where
  "some_ready warps \<longleftrightarrow> (\<exists>w \<in> set warps. w_state w = Ready)"

lemma some_ready_nth: "some_ready warps \<longleftrightarrow> (\<exists>i < length warps. is_ready warps i)"
  unfolding some_ready_def is_ready_def by (metis in_set_conv_nth)

locale warp_scheduler =
  fixes select :: "'s \<Rightarrow> warp list \<Rightarrow> selection \<times> 's"
  assumes select_ready: "select s warps = (Some i, s') \<Longrightarrow> i < length warps \<and> is_ready warps i"
begin

lemma select_None: "\<not> some_ready warps \<Longrightarrow> fst (select s warps) = None"
proof (rule ccontr)
  assume none: "\<not> some_ready warps" and "fst (select s warps) \<noteq> None"
  then obtain i where "fst (select s warps) = Some i" by blast
  then have "select s warps = (Some i, snd (select s warps))" by (metis prod.collapse)
  from select_ready[OF this] none show False unfolding some_ready_nth by blast
qed

end

locale work_conserving = warp_scheduler select
  for select :: "'s \<Rightarrow> warp list \<Rightarrow> selection \<times> 's" +
  assumes select_some: "some_ready warps \<Longrightarrow> fst (select s warps) \<noteq> None"
begin

lemma select_None_iff: "fst (select s warps) = None \<longleftrightarrow> \<not> some_ready warps"
  using select_None select_some by blast

end

lemma set_rotation: "set (rotation start n) = {..<n}"
proof (cases "n = 0")
  case True
  then show ?thesis by (simp add: rotation_def)
next
  case False
  show ?thesis
  proof
    show "set (rotation start n) \<subseteq> {..<n}" using False by (auto simp: rotation_def)
    show "{..<n} \<subseteq> set (rotation start n)"
    proof
      fix k assume "k \<in> {..<n}"
      then have k: "k < n" by simp
      let ?i = "(k + n - start mod n) mod n"
      have "(start + ?i) mod n = (start mod n + (k + n - start mod n)) mod n"
        by (simp add: mod_simps)
      also have "start mod n + (k + n - start mod n) = k + n"
        using mod_less_divisor[of n start] k by linarith
      also have "(k + n) mod n = k" using k by simp
      finally have k': "(start + ?i) mod n = k" .
      have "?i \<in> set [0..<n]" using False by simp
      then have "(start + ?i) mod n \<in> set (rotation start n)"
        unfolding rotation_def set_map by (rule imageI)
      then show "k \<in> set (rotation start n)" unfolding k' .
    qed
  qed
qed

lemma rr_select_Some:
  "rr_select s warps = (Some i, s') \<Longrightarrow> i < length warps \<and> is_ready warps i \<and> s' = (i + 1) mod length warps"
proof -
  assume run: "rr_select s warps = (Some i, s')"
  then have f: "find (is_ready warps) (rotation s (length warps)) = Some i" and s': "s' = (i + 1) mod length warps"
    by (auto simp: rr_select_def Let_def split: option.splits)
  from f have "i \<in> set (rotation s (length warps))" "is_ready warps i"
    by (auto simp: find_Some_iff)
  then show ?thesis using s' unfolding set_rotation by simp
qed

lemma prio_fold:
  "case foldl (prio_step warps) (None, lo) xs of
      (None, p) \<Rightarrow> p = lo \<and> (\<forall>j \<in> set xs. is_ready warps j \<longrightarrow> sint (w_priority (warps ! j)) \<le> lo)
    | (Some i, p) \<Rightarrow> i \<in> set xs \<and> is_ready warps i \<and> p = sint (w_priority (warps ! i)) \<and> lo < p \<and>
        (\<forall>j \<in> set xs. is_ready warps j \<longrightarrow> sint (w_priority (warps ! j)) \<le> p)"
proof (induction xs rule: rev_induct)
  case (snoc x xs)
  obtain sel p where r: "foldl (prio_step warps) (None, lo) xs = (sel, p)" by fastforce
  have "case prio_step warps (sel, p) x of
      (None, p) \<Rightarrow> p = lo \<and> (\<forall>j \<in> set (xs @ [x]). is_ready warps j \<longrightarrow> sint (w_priority (warps ! j)) \<le> lo)
    | (Some i, p) \<Rightarrow> i \<in> set (xs @ [x]) \<and> is_ready warps i \<and> p = sint (w_priority (warps ! i)) \<and> lo < p \<and>
        (\<forall>j \<in> set (xs @ [x]). is_ready warps j \<longrightarrow> sint (w_priority (warps ! j)) \<le> p)"
  proof (cases "is_ready warps x \<and> sint (w_priority (warps ! x)) > p")
    case True
    have "sint (w_priority (warps ! j)) \<le> p" if "j \<in> set xs" "is_ready warps j" for j
      using snoc that unfolding r by (cases sel) auto
    moreover have "lo \<le> p" using snoc unfolding r by (cases sel) auto
    ultimately show ?thesis using True unfolding prio_step_def by force
  next
    case False
    then show ?thesis using snoc unfolding r by (cases sel) (auto simp: prio_step_def)
  qed
  then show ?case by (simp add: r)
qed simp

lemma priority_select_Some:
  assumes "priority_select s warps = (Some i, s')"
  shows "i < length warps \<and> is_ready warps i \<and>
    (\<forall>j < length warps. is_ready warps j \<longrightarrow> sint (w_priority (warps ! j)) \<le> sint (w_priority (warps ! i)))"
  using prio_fold[where warps = warps and lo = "- (2 ^ 31)" and xs = "rotation s (length warps)"] assms
  by (auto simp: priority_select_def Let_def set_rotation split: option.splits prod.splits)

lemma priority_select_None:
  assumes "fst (priority_select s warps) = None"
  shows "\<forall>j < length warps. is_ready warps j \<longrightarrow> sint (w_priority (warps ! j)) = - (2 ^ 31)"
proof (intro allI impI)
  fix j assume "j < length warps" "is_ready warps j"
  then have "sint (w_priority (warps ! j)) \<le> - (2 ^ 31)"
    using prio_fold[where warps = warps and lo = "- (2 ^ 31)" and xs = "rotation s (length warps)"] assms
    by (auto simp: priority_select_def Let_def set_rotation split: option.splits prod.splits)
  then show "sint (w_priority (warps ! j)) = - (2 ^ 31)" using sint_bounds32(1)[of "w_priority (warps ! j)"] by simp
qed

lemma oldest_fold:
  "case foldl (oldest_step warps) None xs of
      None \<Rightarrow> \<forall>j \<in> set xs. \<not> is_ready warps j
    | Some i \<Rightarrow> i \<in> set xs \<and> is_ready warps i \<and> (\<forall>j \<in> set xs. is_ready warps j \<longrightarrow> \<not> older (warps ! j) (warps ! i))"
proof (induction xs rule: rev_induct)
  case (snoc x xs)
  have tr: "\<not> older a c \<Longrightarrow> older b c \<Longrightarrow> \<not> older a b" for a b c
    by (force simp: older_def)
  have ir: "\<not> older a a" for a by (simp add: older_def)
  obtain r where r: "foldl (oldest_step warps) None xs = r" by simp
  have e: "foldl (oldest_step warps) None (xs @ [x]) = oldest_step warps r x" by (simp add: r)
  have "case oldest_step warps r x of
      None \<Rightarrow> \<forall>j \<in> set (xs @ [x]). \<not> is_ready warps j
    | Some i \<Rightarrow> i \<in> set (xs @ [x]) \<and> is_ready warps i \<and>
        (\<forall>j \<in> set (xs @ [x]). is_ready warps j \<longrightarrow> \<not> older (warps ! j) (warps ! i))"
  proof (cases "is_ready warps x")
    case False
    then show ?thesis using snoc unfolding r by (auto simp: oldest_step_def split: option.splits)
  next
    case True
    show ?thesis
    proof (cases r)
      case None
      then show ?thesis using snoc True unfolding r by (simp add: oldest_step_def ir)
    next
      case (Some i)
      then have i: "i \<in> set xs" "is_ready warps i"
        "\<And>j. j \<in> set xs \<Longrightarrow> is_ready warps j \<Longrightarrow> \<not> older (warps ! j) (warps ! i)"
        using snoc unfolding r by auto
      show ?thesis
      proof (cases "older (warps ! x) (warps ! i)")
        case old: True
        have "\<not> older (warps ! j) (warps ! x)" if "j \<in> set xs" "is_ready warps j" for j
          using tr[OF i(3)[OF that] old] .
        then show ?thesis using Some True old by (simp add: oldest_step_def ir)
      next
        case False
        then show ?thesis using Some True i by (simp add: oldest_step_def)
      qed
    qed
  qed
  then show ?case unfolding e .
qed simp

lemma oldest_select_Some:
  "oldest_select warps = Some i \<Longrightarrow> i < length warps \<and> is_ready warps i \<and>
   (\<forall>j < length warps. is_ready warps j \<longrightarrow> \<not> older (warps ! j) (warps ! i))"
  using oldest_fold[where warps = warps and xs = "[0..<length warps]"] by (auto simp: oldest_select_def)

lemma oldest_select_None: "oldest_select warps = None \<Longrightarrow> \<not> some_ready warps"
  using oldest_fold[where warps = warps and xs = "[0..<length warps]"] by (auto simp: oldest_select_def some_ready_nth)

interpretation rr: work_conserving rr_select
proof unfold_locales
  show "i < length warps \<and> is_ready warps i" if "rr_select s warps = (Some i, s')" for s warps i s'
    using rr_select_Some[OF that] by blast
  show "fst (rr_select s warps) \<noteq> None" if rd: "some_ready warps" for s warps
  proof -
    obtain i where i: "i < length warps" "is_ready warps i" using rd some_ready_nth[of warps] by blast
    then have "find (is_ready warps) (rotation s (length warps)) \<noteq> None"
      by (auto simp: find_None_iff set_rotation)
    then show ?thesis by (auto simp: rr_select_def Let_def)
  qed
qed

interpretation greedy: work_conserving "\<lambda>s ws. (greedy_select ws, s)"
  by unfold_locales
    (auto simp: greedy_select_def is_ready_def some_ready_def first_index_None_iff dest: first_index_SomeD)

interpretation prio: warp_scheduler priority_select
  by unfold_locales (use priority_select_Some in blast)

interpretation oldest: work_conserving "\<lambda>s ws. (oldest_select ws, s)"
  by unfold_locales (use oldest_select_Some oldest_select_None in auto)

interpretation gto: work_conserving gto_select
proof unfold_locales
  fix s s' i and warps :: "warp list"
  assume "gto_select s warps = (Some i, s')"
  then have "first_index (\<lambda>w. w_id w = s \<and> w_state w = Ready) warps = Some i \<or> oldest_select warps = Some i"
    by (auto simp: gto_select_def Let_def split: option.splits if_splits)
  then show "i < length warps \<and> is_ready warps i"
    using first_index_SomeD[of "\<lambda>w. w_id w = s \<and> w_state w = Ready" warps i] oldest_select_Some[of warps i]
    by (auto simp: is_ready_def)
next
  fix s and warps :: "warp list"
  assume "some_ready warps"
  then obtain i where "oldest_select warps = Some i" using oldest_select_None by blast
  then show "fst (gto_select s warps) \<noteq> None"
    by (auto simp: gto_select_def Let_def split: option.split)
qed

interpretation twolevel: warp_scheduler two_level_select
proof unfold_locales
  fix s warps i s' assume "two_level_select s warps = (Some i, s')"
  then obtain wid where "ready_with_id warps wid = Some i"
    by (auto simp: two_level_select_def Let_def split: option.splits)
  then show "i < length warps \<and> is_ready warps i"
    by (auto simp: ready_with_id_def is_ready_def dest: first_index_SomeD)
qed

interpretation sched: warp_scheduler select_warp
proof unfold_locales
  fix s s' i and warps :: "warp list"
  assume run: "select_warp s warps = (Some i, s')"
  show "i < length warps \<and> is_ready warps i"
  proof (cases s)
    case (RoundRobin n)
    then show ?thesis using run rr.select_ready[of n warps i]
      by (cases "rr_select n warps") (simp add: select_warp_def)
  next
    case Greedy
    then show ?thesis using run greedy.select_ready[where warps = warps and i = i] by (simp add: select_warp_def)
  next
    case (Priority n)
    then show ?thesis using run prio.select_ready[of n warps i]
      by (cases "priority_select n warps") (simp add: select_warp_def)
  next
    case OldestFirst
    then show ?thesis using run oldest.select_ready[where warps = warps and i = i] by (simp add: select_warp_def)
  next
    case (GTO l)
    then show ?thesis using run gto.select_ready[of l warps i]
      by (cases "gto_select l warps") (simp add: select_warp_def)
  next
    case (TwoLevel t)
    then show ?thesis using run twolevel.select_ready[of t warps i]
      by (cases "two_level_select t warps") (simp add: select_warp_def)
  qed
qed

section \<open>Fairness of the rotation\<close>

text \<open>Consecutive selections; between two of them the states of the warps change freely.\<close>

fun rr_run :: "nat \<Rightarrow> warp list list \<Rightarrow> selection list" where
  "rr_run s [] = []"
| "rr_run s (ws # wss) = (case rr_select s ws of (i, s') \<Rightarrow> i # rr_run s' wss)"

lemma rr_select_first:
  assumes "rr_select s ws = (Some i, s')" and "d < length ws" and "is_ready ws ((s + d) mod length ws)"
  shows "\<exists>a \<le> d. i = (s + a) mod length ws \<and> s' = (i + 1) mod length ws"
proof -
  let ?n = "length ws"
  have f: "find (is_ready ws) (rotation s ?n) = Some i" and s': "s' = (i + 1) mod ?n"
    using assms(1) by (auto simp: rr_select_def Let_def split: option.splits)
  from f obtain a where a: "a < ?n" "i = rotation s ?n ! a" "\<forall>j < a. \<not> is_ready ws (rotation s ?n ! j)"
    by (auto simp: find_Some_iff rotation_def)
  have "a \<le> d"
  proof (rule ccontr)
    assume "\<not> a \<le> d"
    then have "\<not> is_ready ws (rotation s ?n ! d)" using a(3) by simp
    then show False using assms(2,3) by (simp add: rotation_def)
  qed
  then show ?thesis using a s' by (auto simp: rotation_def)
qed

lemma rr_run_within:
  "d < n \<Longrightarrow> (s + d) mod n = k \<Longrightarrow> d < length wss \<Longrightarrow>
   (\<And>ws. ws \<in> set wss \<Longrightarrow> length ws = n \<and> is_ready ws k) \<Longrightarrow> Some k \<in> set (take (d + 1) (rr_run s wss))"
proof (induction d arbitrary: s wss rule: less_induct)
  case (less d)
  obtain ws wss' where wss: "wss = ws # wss'" using less.prems(3) by (cases wss) auto
  have ws: "length ws = n" "is_ready ws k" using less.prems(4)[of ws] wss by auto
  have "some_ready ws" unfolding some_ready_nth using ws less.prems(1,2)
    by (metis less_nat_zero_code mod_less_divisor neq0_conv)
  then obtain i s' where sel: "rr_select s ws = (Some i, s')"
    using rr.select_some[of ws s] by (cases "rr_select s ws") auto
  obtain a where a: "a \<le> d" "i = (s + a) mod n" "s' = (i + 1) mod n"
    using rr_select_first[OF sel] less.prems(1,2) ws by auto
  show ?case
  proof (cases "i = k")
    case True
    then show ?thesis using wss sel by simp
  next
    case False
    then have lt: "a < d" using a less.prems(2) by (cases "a = d") auto
    have "(s' + (d - a - 1)) mod n = (s + a + 1 + (d - a - 1)) mod n"
      unfolding a(2,3) by (simp add: mod_simps)
    also have "s + a + 1 + (d - a - 1) = s + d" using lt by simp
    finally have "(s' + (d - a - 1)) mod n = k" using less.prems(2) by simp
    from less.IH[OF _ _ this, of wss'] have "Some k \<in> set (take (d - a - 1 + 1) (rr_run s' wss'))"
      using less.prems(1,3,4) lt wss by simp
    moreover have "set (take (d - a - 1 + 1) (rr_run s' wss')) \<subseteq> set (take d (rr_run s' wss'))"
      using lt by (intro set_take_subset_set_take) simp
    ultimately show ?thesis using wss sel by auto
  qed
qed

lemma rr_run_fair:
  assumes "k < n" and "n \<le> length wss" and "\<And>ws. ws \<in> set wss \<Longrightarrow> length ws = n \<and> is_ready ws k"
  shows "Some k \<in> set (take n (rr_run s wss))"
proof -
  have "k \<in> set (rotation s n)" using assms(1) by (simp add: set_rotation)
  then obtain d where d: "d < n" "(s + d) mod n = k" by (auto simp: rotation_def)
  have "Some k \<in> set (take (d + 1) (rr_run s wss))"
    using rr_run_within[OF d _ assms(3)] assms(2) d(1) by simp
  moreover have "set (take (d + 1) (rr_run s wss)) \<subseteq> set (take n (rr_run s wss))"
    using d(1) by (intro set_take_subset_set_take) simp
  ultimately show ?thesis by blast
qed

section \<open>Greedy-then-oldest and the two-level active set\<close>

lemma gto_select_cases:
  assumes "gto_select l warps = (Some i, l')"
  shows "l' = w_id (warps ! i) \<and>
    (if l \<noteq> size_max \<and> (\<exists>w \<in> set warps. w_id w = l \<and> w_state w = Ready) then w_id (warps ! i) = l
     else oldest_select warps = Some i)"
proof (cases "l \<noteq> size_max \<and> (\<exists>w \<in> set warps. w_id w = l \<and> w_state w = Ready)")
  case True
  then obtain j where j: "first_index (\<lambda>w. w_id w = l \<and> w_state w = Ready) warps = Some j"
    using first_index_ex[of warps "\<lambda>w. w_id w = l \<and> w_state w = Ready"] by blast
  then have "i = j" "l' = w_id (warps ! i)" using True assms by (auto simp: gto_select_def Let_def)
  then show ?thesis using first_index_SomeD[OF j] True by simp
next
  case False
  then have "(if l \<noteq> size_max then first_index (\<lambda>w. w_id w = l \<and> w_state w = Ready) warps else None) = None"
    by (auto simp: first_index_None_iff)
  then show ?thesis using assms False by (auto simp: gto_select_def Let_def split: option.splits)
qed

definition two_level_inv :: "two_level \<Rightarrow> bool" where
  "two_level_inv s \<longleftrightarrow> length (tl_active_warp_ids s) \<le> tl_active_set_size s"

lemma update_active_set_inv:
  assumes "two_level_inv s"
  shows "two_level_inv (update_active_set s warps)"
    and "tl_active_set_size (update_active_set s warps) = tl_active_set_size s"
    and "wid \<in> set (tl_active_warp_ids (update_active_set s warps)) \<Longrightarrow>
      (\<exists>w \<in> set warps. w_id w = wid \<and> w_state w \<noteq> Completed)"
proof -
  have len: "length (filter (still_active warps) (tl_active_warp_ids s)) \<le> tl_active_set_size s"
    using assms unfolding two_level_inv_def by (rule le_trans[OF length_filter_le])
  then show "two_level_inv (update_active_set s warps)"
    by (auto simp: two_level_inv_def update_active_set_def Let_def)
  show "tl_active_set_size (update_active_set s warps) = tl_active_set_size s"
    by (simp add: update_active_set_def Let_def)
  assume "wid \<in> set (tl_active_warp_ids (update_active_set s warps))"
  then consider "wid \<in> set (filter (still_active warps) (tl_active_warp_ids s))"
    | "wid \<in> w_id ` {w \<in> set warps. w_state w = Ready}"
    by (auto simp: update_active_set_def Let_def split: if_splits dest!: in_set_takeD)
  then show "\<exists>w \<in> set warps. w_id w = wid \<and> w_state w \<noteq> Completed"
  proof cases
    case 1
    then obtain i where "first_index (\<lambda>w. w_id w = wid) warps = Some i" "w_state (warps ! i) \<noteq> Completed"
      by (auto simp: still_active_def split: option.splits)
    with first_index_SomeD[OF this(1)] show ?thesis by (metis nth_mem)
  next
    case 2
    then show ?thesis by force
  qed
qed

lemma two_level_select_active:
  assumes inv: "two_level_inv s" and run: "two_level_select s warps = (sel, s')"
  shows "two_level_inv s'" and "\<And>i. sel = Some i \<Longrightarrow> w_id (warps ! i) \<in> set (tl_active_warp_ids s')"
proof -
  let ?s1 = "update_active_set s warps"
  note i1 = update_active_set_inv(1)[OF inv, of warps]
  show "two_level_inv s'"
    using run i1 by (auto simp: two_level_select_def Let_def two_level_inv_def split: option.splits)
  fix i assume "sel = Some i"
  then obtain j where j: "j \<in> set [0..<length (tl_active_warp_ids ?s1)]"
    and r: "ready_with_id warps (tl_active_warp_ids ?s1 ! ((tl_rr_index ?s1 + j) mod length (tl_active_warp_ids ?s1))) = Some i"
    and s': "tl_active_warp_ids s' = tl_active_warp_ids ?s1"
    using run by (auto simp: two_level_select_def Let_def find_Some_iff split: option.splits)
  then have "(tl_rr_index ?s1 + j) mod length (tl_active_warp_ids ?s1) < length (tl_active_warp_ids ?s1)"
    by (intro mod_less_divisor) auto
  then have "tl_active_warp_ids ?s1 ! ((tl_rr_index ?s1 + j) mod length (tl_active_warp_ids ?s1)) \<in> set (tl_active_warp_ids ?s1)"
    by simp
  then show "w_id (warps ! i) \<in> set (tl_active_warp_ids s')"
    using first_index_SomeD[OF r[unfolded ready_with_id_def]] s' by simp
qed

end
