(* ===== verification/Execution_Properties.thy ===== *)
theory Execution_Properties
  imports Executor_Props Schedulers Memory_Properties
begin

text \<open>
  The properties of a warp and of the executor: the lane-by-lane effect of every instruction
  class, divergence and reconvergence, and the scheduling policies.
\<close>

section \<open>Running a warp\<close>

text \<open>
  The runs of one warp over a kernel, as the SM issues it: fetch at the warp's program counter,
  execute. \<open>fetches\<close> only follows disciplined instructions; \<open>run_warp\<close> is its executable form
  and \<open>run_any\<close> drops the discipline.
\<close>

inductive fetches :: "instruction list \<Rightarrow> warp \<Rightarrow> memory_system \<Rightarrow> warp \<Rightarrow> memory_system \<Rightarrow> bool"
  for prog :: "instruction list" where
  start: "fetches prog w m w m"
| step: "fetches prog w m w1 m1 \<Longrightarrow> w_pc w1 < length prog \<Longrightarrow> disciplined (prog ! w_pc w1) w1 \<Longrightarrow>
    execute (prog ! w_pc w1) w1 m1 = Inr (r, w2, m2) \<Longrightarrow> fetches prog w m w2 m2"

inductive_cases fetchesE: "fetches prog w m w' m'"

fun run_any :: "nat \<Rightarrow> instruction list \<Rightarrow> warp \<Rightarrow> memory_system \<Rightarrow> (warp \<times> memory_system) option" where
  "run_any 0 prog w m = Some (w, m)"
| "run_any (Suc n) prog w m =
     (case run_any n prog w m of None \<Rightarrow> None
      | Some (w1, m1) \<Rightarrow>
          (if w_pc w1 < length prog
           then (case execute (prog ! w_pc w1) w1 m1 of Inl _ \<Rightarrow> None | Inr (r, w2, m2) \<Rightarrow> Some (w2, m2))
           else None))"

fun run_warp :: "nat \<Rightarrow> instruction list \<Rightarrow> warp \<Rightarrow> memory_system \<Rightarrow> (warp \<times> memory_system) option" where
  "run_warp 0 prog w m = Some (w, m)"
| "run_warp (Suc n) prog w m =
     (case run_warp n prog w m of None \<Rightarrow> None
      | Some (w1, m1) \<Rightarrow>
          (if w_pc w1 < length prog \<and> disciplined (prog ! w_pc w1) w1
           then (case execute (prog ! w_pc w1) w1 m1 of Inl _ \<Rightarrow> None | Inr (r, w2, m2) \<Rightarrow> Some (w2, m2))
           else None))"

lemma run_warp_fetches: "run_warp n prog w m = Some (w', m') \<Longrightarrow> fetches prog w m w' m'"
proof (induction n arbitrary: w' m')
  case 0
  then show ?case by (simp add: fetches.start)
next
  case (Suc n)
  then obtain w1 m1 r where "run_warp n prog w m = Some (w1, m1)" "w_pc w1 < length prog"
    "disciplined (prog ! w_pc w1) w1" "execute (prog ! w_pc w1) w1 m1 = Inr (r, w', m')"
    by (auto split: option.splits sum.splits if_splits)
  with Suc.IH show ?case by (blast intro: fetches.step)
qed

lemma fetches_inv:
  assumes "fetches prog w m w' m'"
  shows "masks_inv w \<Longrightarrow> simt_inv full w \<Longrightarrow> masks_inv w' \<and> simt_inv full w' \<and> length (w_threads w') = length (w_threads w)"
  using assms
proof (induction rule: fetches.induct)
  case (start w m)
  then show ?case by simp
next
  case (step w m w1 m1 r w2 m2)
  then have w1: "masks_inv w1" "simt_inv full w1" "length (w_threads w1) = length (w_threads w)" by simp_all
  have "length (w_threads w1) \<le> 32" using w1(1) by (simp add: masks_inv_def)
  from execute_framed(1)[OF this step.hyps(4)] w1(3)
  have "length (w_threads w2) = length (w_threads w)" by (simp add: warp_framed_def lanes_framed_def)
  then show ?case
    using execute_masks_inv[OF w1(1) step.hyps(4)] execute_simt_inv[OF w1(1,2) step.hyps(3,4)] by simp
qed

lemma built_warp_inv:
  assumes "length ts \<le> 32"
  shows "masks_inv (build_warp k ts)" and "simt_inv (full_mask (length ts)) (build_warp k ts)"
  using assms by (auto simp: masks_inv_def simt_inv_def build_warp_props bit_full_mask)

lemma empty_stack_full: "simt_inv full w \<Longrightarrow> w_stack w = [] \<Longrightarrow> w_active_mask w = full"
  by (simp add: simt_inv_def)

lemma barrier_passes:
  assumes "masks_inv w" and "w_active_mask w = full_mask (length (w_threads w))" and "inst_opcode inst = BARRIER"
  shows "\<exists>w'. execute inst w m = Inr (plain_result BarrierReached, w', m)"
proof -
  have len: "length (w_threads w) \<le> 32" using assms(1) by (simp add: masks_inv_def)
  show ?thesis
    using assms(2,3) mask_count_full[OF len] move_to_eq[OF len]
    by (simp add: execute_def keep_memory_def exec_barrier_def Let_def)
qed

section \<open>Concrete warps for the witnesses\<close>

text \<open>Three lanes; the predicate holds on lanes 0 and 2, and lane \<open>k\<close> has \<open>k\<close> in register 0.\<close>

definition ex_lanes :: "thread list" where
  "ex_lanes = map (\<lambda>k. (new_thread k 0 k 0 k)
     \<lparr>t_predicate := (k \<noteq> 1), t_registers := \<lparr>rf_registers = (replicate 32 0)[0 := of_nat k, 1 := 7]\<rparr>\<rparr>) [0, 1, 2]"

definition ex_warp :: warp where
  "ex_warp = build_warp 0 ex_lanes"

lemma ex_lanes_length: "length ex_lanes = 3"
  by (simp add: ex_lanes_def)

lemma ex_warp_inv: "masks_inv ex_warp" "simt_inv (full_mask 3) ex_warp" "length (w_threads ex_warp) = 3"
  "length (w_threads ex_warp) \<le> 32" "w_active_mask ex_warp = full_mask 3"
  using built_warp_inv[of ex_lanes 0] by (simp_all add: ex_warp_def ex_lanes_length build_warp_props)

definition exec_warp :: "instruction \<Rightarrow> warp \<Rightarrow> warp option" where
  "exec_warp i w = (case execute i w ex_memory of Inl _ \<Rightarrow> None | Inr (r, w', m') \<Rightarrow> Some w')"

lemma exec_warpE:
  assumes "exec_warp i w = Some w'"
  obtains r m' where "execute i w ex_memory = Inr (r, w', m')"
  using assms by (auto simp: exec_warp_def split: sum.splits)

text \<open>The equations that evaluate an instruction on a concrete warp.\<close>

lemma ex_warp_fields: "w_threads ex_warp = ex_lanes" "w_pc ex_warp = 0" "w_stack ex_warp = []" "w_state ex_warp = Ready"
  "w_active_mask ex_warp = 7" "w_reconvergence_pc ex_warp = size_max"
  by (simp_all add: ex_warp_def build_warp_props ex_lanes_length full_mask_def mask_numeral)
    (simp add: build_warp_def ex_lanes_def add_thread_def new_warp_def)

lemmas run_defs = exec_warp_def execute_def Let_def keep_memory_def instr_def exec_lanes_def exec_branch_def exec_ssy_def
  exec_sync_def exec_barrier_def each_active_def lane_op_def alu_def mov_def cmp_def read_reg_def write_reg_def
  reg_read_def reg_write_def move_to_def update_shadow_pcs_def set_warp_pc_def set_pc_def taken_mask_def set_predicate_def
  c_add_def c_sub_def c_mul_def checked_int_def int_to_size_def size_add_def size_add_int_def size_to_int_def
  pop_simt_stack_def push_simt_stack_def set_active_mask_def set_reconvergence_pc_def mask_test_def bit_numeral_rec
  ex_warp_fields ex_lanes_def

section \<open>The lanes\<close>

text \<open>
  An instruction works on the active lanes of its warp only: every other lane keeps its
  registers, predicate and program counter, no lane changes its identity, and of the warp the
  scheduling state and the counters are left to the SM. An instruction other than a branch,
  \<open>SSY\<close> or \<open>SYNC\<close> moves to the next instruction with the mask and the stack it found.
\<close>

theorem inactive_lanes_untouched:
  assumes "length (w_threads w) \<le> 32" and "execute inst w m = Inr (r, w', m')"
  shows "warp_framed w w' \<and>
    (inst_opcode inst \<notin> {BRANCH, SSY, SYNC} \<longrightarrow> control w' = next_control w)"
  using execute_framed[OF assms] by (auto simp: control_opcode_def)

theorem inactive_lanes_untouched_witness:
  "\<exists>w'. exec_warp (instr ADD 2 0 1 0) (set_active_mask ex_warp 5) = Some w' \<and>
    w_threads w' ! 1 = w_threads ex_warp ! 1 \<and> w_pc w' = 1"
proof -
  have "exec_warp (instr ADD 2 0 1 0) (set_active_mask ex_warp 5) \<noteq> None" by (simp add: run_defs)
  then obtain w' where e: "exec_warp (instr ADD 2 0 1 0) (set_active_mask ex_warp 5) = Some w'" by blast
  then obtain r m' where run: "execute (instr ADD 2 0 1 0) (set_active_mask ex_warp 5) ex_memory = Inr (r, w', m')"
    by (rule exec_warpE)
  have w: "length (w_threads (set_active_mask ex_warp 5)) \<le> 32" "w_pc ex_warp = 0" "\<not> bit (5 :: lane_mask) 1"
    using ex_warp_inv by (simp_all add: set_active_mask_def ex_warp_def build_warp_props bit_numeral_rec)
  from inactive_lanes_untouched[OF w(1) run] w(2,3) ex_warp_inv(3) e show ?thesis
    by (simp add: warp_framed_def lanes_framed_def instr_def set_active_mask_def control_def next_control_def
        size_add_def)
qed

text \<open>
  C19: An arithmetic instruction computes, in every active lane, the exact integer result of
  the two source registers and puts it into the destination register; the other registers of
  the lane keep their values. (An overflow is an error of the model, so there is no wrap.)
\<close>

theorem alu_lane_exact:
  assumes "length (w_threads w) \<le> 32" and "inst_opcode inst \<in> {ADD, SUB, MUL}"
    and "execute inst w m = Inr (r, w', m')" and "i < length (w_threads w)" and "bit (w_active_mask w) i"
  shows "\<exists>a b v. read_reg (w_threads w ! i) (inst_src1 inst) = Inr a \<and>
    read_reg (w_threads w ! i) (inst_src2 inst) = Inr b \<and>
    sint v = alu_value (inst_opcode inst) (sint a) (sint b) \<and>
    (\<forall>k. read_reg (w_threads w' ! i) k =
       (if int_to_size k = int_to_size (inst_dst inst) then Inr v else read_reg (w_threads w ! i) k))"
proof -
  obtain t where t: "lane_op inst (w_threads w ! i) = Inr t"
    and w': "w_threads w' ! i = set_pc t (size_to_int (size_add (w_pc w) 1))"
    using execute_lane_op[OF assms(1) _ assms(3-5)] assms(2) by blast
  obtain a b v where "read_reg (w_threads w ! i) (inst_src1 inst) = Inr a"
    "read_reg (w_threads w ! i) (inst_src2 inst) = Inr b"
    "sint v = alu_value (inst_opcode inst) (sint a) (sint b)" "write_reg (w_threads w ! i) (inst_dst inst) v = Inr t"
    using alu_lane[OF assms(2) t] by blast
  then show ?thesis using write_reg_read(1)[of "w_threads w ! i" "inst_dst inst" v t] w' by auto
qed

theorem alu_lane_exact_witness:
  "\<exists>w' v. exec_warp (instr MUL 2 0 1 0) ex_warp = Some w' \<and> read_reg (w_threads w' ! 2) 2 = Inr v \<and> sint v = 14"
proof -
  have "exec_warp (instr MUL 2 0 1 0) ex_warp \<noteq> None" by (simp add: run_defs)
  then obtain w' where e: "exec_warp (instr MUL 2 0 1 0) ex_warp = Some w'" by blast
  then obtain r m' where run: "execute (instr MUL 2 0 1 0) ex_warp ex_memory = Inr (r, w', m')"
    by (rule exec_warpE)
  have rd: "read_reg (w_threads ex_warp ! 2) 0 = Inr 2" "read_reg (w_threads ex_warp ! 2) 1 = Inr 7"
    by (simp_all add: run_defs takes_def)
  have ok: "inst_opcode (instr MUL 2 0 1 0) \<in> {ADD, SUB, MUL}" "2 < length (w_threads ex_warp)"
    "bit (w_active_mask ex_warp) 2"
    using ex_warp_inv(3,5) by (simp_all add: instr_def bit_full_mask)
  from alu_lane_exact[OF ex_warp_inv(4) ok(1) run ok(2,3)] obtain v where
    "sint v = 14" "read_reg (w_threads w' ! 2) 2 = Inr v"
    using rd by (auto simp: instr_def alu_value_def)
  with e show ?thesis by blast
qed

lemma cmp_sets_predicates:
  assumes "length (w_threads w) \<le> 32" and "inst_opcode inst = CMP" and "execute inst w m = Inr (r, w', m')"
    and "i < length (w_threads w)" and "bit (w_active_mask w) i"
  shows "\<exists>a b. read_reg (w_threads w ! i) (inst_src1 inst) = Inr a \<and> read_reg (w_threads w ! i) (inst_src2 inst) = Inr b \<and>
    t_predicate (w_threads w' ! i) = (a = b) \<and> t_registers (w_threads w' ! i) = t_registers (w_threads w ! i)"
proof -
  obtain t where t: "lane_op inst (w_threads w ! i) = Inr t" "w_threads w' ! i = set_pc t (size_to_int (size_add (w_pc w) 1))"
    using execute_lane_op[OF assms(1) _ assms(3-5)] assms(2) by blast
  from cmp_lane[OF assms(2) t(1)] show ?thesis by (auto simp: t(2) set_pc_def set_predicate_def)
qed

lemma branch_splits_warp:
  assumes "length (w_threads w) \<le> 32" and "inst_opcode inst = BRANCH" and "execute inst w m = Inr (r, w', m')"
  shows "(if \<exists>j. takes w j
      then w_pc w' = size_add_int (w_pc w) (inst_immediate inst) \<and> (\<forall>i. bit (w_active_mask w') i \<longleftrightarrow> takes w i)
      else w_pc w' = size_add (w_pc w) 1 \<and> w_active_mask w' = w_active_mask w) \<and>
    (if (\<exists>j. takes w j) \<and> (\<exists>j. bit (w_active_mask w) j \<and> \<not> takes w j)
      then \<exists>e. w_stack w' = e # w_stack w \<and> se_target_pc e = size_add (w_pc w) 1 \<and>
        (\<forall>i. bit (se_active_mask e) i \<longleftrightarrow> bit (w_active_mask w) i \<and> \<not> takes w i)
      else w_stack w' = w_stack w)"
proof -
  have br: "exec_branch inst w = Inr (r, w')"
    using assms(2,3) by (auto simp: execute_def Let_def keep_memory_def)
  obtain tk where tk: "taken_mask (w_active_mask w) (w_threads w) = Inr tk"
    and c: "if tk = 0 then control w' = next_control w
       else w_pc w' = size_add_int (w_pc w) (inst_immediate inst) \<and>
         (if tk = w_active_mask w
          then control w' = (w_pc w', w_active_mask w, w_reconvergence_pc w, w_stack w)
          else control w' = (w_pc w', tk, w_reconvergence_pc w,
               \<lparr>se_active_mask = w_active_mask w AND NOT tk, se_target_pc = size_add (w_pc w) 1,
                se_reconvergence_pc = w_reconvergence_pc w\<rparr> # w_stack w))"
    using exec_branch_Inr[OF assms(1) br] by (metis (no_types, lifting))
  note b = taken_mask_takes[OF assms(1) tk]
  have z: "tk = 0 \<longleftrightarrow> \<not> (\<exists>j. takes w j)"
    unfolding b[symmetric] by (auto intro: bit_word_eqI)
  have a: "tk = w_active_mask w \<longleftrightarrow> \<not> (\<exists>j. bit (w_active_mask w) j \<and> \<not> takes w j)"
    using b by (auto simp: takes_def intro!: bit_word_eqI)
  have lanes: "bit (w_active_mask w AND NOT tk) i \<longleftrightarrow> bit (w_active_mask w) i \<and> \<not> takes w i" for i
    using b[of i] by (auto simp: bit_and_iff bit_not_iff dest: bit_lane)
  show ?thesis
  proof (cases "tk = 0")
    case True
    then have "\<not> (\<exists>j. takes w j)" "control w' = next_control w" using z c by simp_all
    then show ?thesis by (simp add: control_def next_control_def)
  next
    case False
    then have some: "\<exists>j. takes w j" "w_pc w' = size_add_int (w_pc w) (inst_immediate inst)"
      "w_active_mask w' = tk" using z c by (auto simp: control_def split: if_splits)
    show ?thesis
    proof (cases "tk = w_active_mask w")
      case True
      then have "w_stack w' = w_stack w" using False c by (simp add: control_def)
      then show ?thesis using some b a True by simp
    next
      case div: False
      then have "w_stack w' = \<lparr>se_active_mask = w_active_mask w AND NOT tk, se_target_pc = size_add (w_pc w) 1,
                se_reconvergence_pc = w_reconvergence_pc w\<rparr> # w_stack w" using False c by (simp add: control_def)
      then show ?thesis using some b a div lanes by simp
    qed
  qed
qed

text \<open>
  C22: \<open>CMP\<close> sets the predicate of every active lane to the equality of its two source registers
  and leaves its registers, the other lanes and the mask alone. \<open>BRANCH\<close> then continues with exactly
  the active lanes whose predicate holds: at the target when there are any, and otherwise all of
  them at the next instruction. On a divergent branch the other active lanes are pushed, to resume
  at the next instruction.
\<close>

theorem branch_follows_predicates:
  assumes "length (w_threads w) \<le> 32" and "execute inst w m = Inr (r, w', m')"
  shows "(inst_opcode inst = CMP \<longrightarrow>
      control w' = next_control w \<and>
      (\<forall>i < length (w_threads w). if bit (w_active_mask w) i
         then \<exists>a b. read_reg (w_threads w ! i) (inst_src1 inst) = Inr a \<and> read_reg (w_threads w ! i) (inst_src2 inst) = Inr b \<and>
           t_predicate (w_threads w' ! i) = (a = b) \<and> t_registers (w_threads w' ! i) = t_registers (w_threads w ! i)
         else w_threads w' ! i = w_threads w ! i)) \<and>
    (inst_opcode inst = BRANCH \<longrightarrow>
      (if \<exists>j. takes w j
       then w_pc w' = size_add_int (w_pc w) (inst_immediate inst) \<and> (\<forall>i. bit (w_active_mask w') i \<longleftrightarrow> takes w i)
       else w_pc w' = size_add (w_pc w) 1 \<and> w_active_mask w' = w_active_mask w) \<and>
      (if (\<exists>j. takes w j) \<and> (\<exists>j. bit (w_active_mask w) j \<and> \<not> takes w j)
       then \<exists>e. w_stack w' = e # w_stack w \<and> se_target_pc e = size_add (w_pc w) 1 \<and>
         (\<forall>i. bit (se_active_mask e) i \<longleftrightarrow> bit (w_active_mask w) i \<and> \<not> takes w i)
       else w_stack w' = w_stack w))"
proof (intro conjI impI allI)
  assume c: "inst_opcode inst = CMP"
  note fr = execute_framed[OF assms]
  show "control w' = next_control w" using fr(2) c by (simp add: control_opcode_def)
  fix i assume i: "i < length (w_threads w)"
  show "if bit (w_active_mask w) i
      then \<exists>a b. read_reg (w_threads w ! i) (inst_src1 inst) = Inr a \<and> read_reg (w_threads w ! i) (inst_src2 inst) = Inr b \<and>
        t_predicate (w_threads w' ! i) = (a = b) \<and> t_registers (w_threads w' ! i) = t_registers (w_threads w ! i)
      else w_threads w' ! i = w_threads w ! i"
    using cmp_sets_predicates[OF assms(1) c assms(2) i] fr(1) i by (simp add: warp_framed_def lanes_framed_def)
qed (use branch_splits_warp[OF assms(1) _ assms(2)] in \<open>blast+\<close>)

text \<open>Lane 2 compares 2 with 7 and loses its predicate; with the predicates it has, a branch takes it along.\<close>

theorem branch_follows_predicates_witness:
  "\<exists>w1 w2. exec_warp (instr CMP (-1) 0 1 0) ex_warp = Some w1 \<and> t_predicate (w_threads ex_warp ! 2) \<and> \<not> t_predicate (w_threads w1 ! 2) \<and>
    exec_warp (instr BRANCH 0 0 0 3) ex_warp = Some w2 \<and> w_pc w2 = 3 \<and> bit (w_active_mask w2) 2 \<and> \<not> bit (w_active_mask w2) 1"
proof -
  have "exec_warp (instr CMP (-1) 0 1 0) ex_warp \<noteq> None" "exec_warp (instr BRANCH 0 0 0 3) ex_warp \<noteq> None" by (simp_all add: run_defs)
  then obtain w1 w2 where e: "exec_warp (instr CMP (-1) 0 1 0) ex_warp = Some w1" "exec_warp (instr BRANCH 0 0 0 3) ex_warp = Some w2" by blast
  obtain r1 m1 where run1: "execute (instr CMP (-1) 0 1 0) ex_warp ex_memory = Inr (r1, w1, m1)" by (rule exec_warpE[OF e(1)])
  obtain r2 m2 where run2: "execute (instr BRANCH 0 0 0 3) ex_warp ex_memory = Inr (r2, w2, m2)" by (rule exec_warpE[OF e(2)])
  have tk: "takes ex_warp 2" "\<not> takes ex_warp 1" "w_pc ex_warp = 0"
    by (simp_all add: run_defs takes_def)
  have lane: "2 < length (w_threads ex_warp)" "bit (w_active_mask ex_warp) 2" "t_predicate (w_threads ex_warp ! 2)"
    using tk(1) by (simp_all add: takes_def)
  have rd: "read_reg (w_threads ex_warp ! 2) 0 = Inr 2" "read_reg (w_threads ex_warp ! 2) 1 = Inr 7"
    by (simp_all add: run_defs)
  have op: "inst_opcode (instr CMP (-1) 0 1 0) = CMP" "inst_src1 (instr CMP (-1) 0 1 0) = 0" "inst_src2 (instr CMP (-1) 0 1 0) = 1"
    "inst_opcode (instr BRANCH 0 0 0 3) = BRANCH" "inst_immediate (instr BRANCH 0 0 0 3) = 3"
    by (simp_all add: instr_def)
  have "\<exists>a b. read_reg (w_threads ex_warp ! 2) 0 = Inr a \<and> read_reg (w_threads ex_warp ! 2) 1 = Inr b \<and> t_predicate (w_threads w1 ! 2) = (a = b)"
    using branch_follows_predicates[OF ex_warp_inv(4) run1] op(1-3) lane(1,2) by fastforce
  then have "\<not> t_predicate (w_threads w1 ! 2)" using rd by simp
  moreover have pc: "size_add_int 0 3 = 3" by (simp add: size_add_int_def)
  moreover have "w_pc w2 = size_add_int 0 3 \<and> (\<forall>i. bit (w_active_mask w2) i \<longleftrightarrow> takes ex_warp i)"
    using branch_follows_predicates[OF ex_warp_inv(4) run2] op(4,5) tk by (auto split: if_splits)
  ultimately show ?thesis using e tk lane(3) by auto
qed

section \<open>Memory instructions\<close>

text \<open>
  C20: A load puts into the destination register of every active lane the word of the flat
  address space at the lane's address, base register plus immediate, and leaves the lane's
  other registers and the memory contents as they were.
\<close>

theorem load_reads_memory:
  assumes "length (w_threads w) \<le> 32" and "ms_inv m" and "inst_opcode inst = LOAD"
    and "execute inst w m = Inr (r, w', m')" and "i < length (w_threads w)" and "bit (w_active_mask w) i"
  shows "same_data m m' \<and> ms_inv m' \<and>
    (\<exists>a v. lane_address (inst_src1 inst) inst (w_threads w ! i) = Inr a \<and> word_at m a = Inr v \<and>
      (\<forall>k. read_reg (w_threads w' ! i) k =
         (if int_to_size k = int_to_size (inst_dst inst) then Inr v else read_reg (w_threads w ! i) k)))"
proof -
  obtain w1 where w1: "exec_load inst w m = Inr (r, w1, m')"
    "lanes_framed (w_active_mask w) (w_threads w) (w_threads w1)"
    "w' = w1\<lparr>w_pc := size_add (w_pc w) 1, w_threads := shadow (w_active_mask w) (size_add (w_pc w) 1) (w_threads w1)\<rparr>"
    using execute_load_InrE[OF assms(1,3,4)] by blast
  have data: "same_data m m' \<and> ms_inv m'"
    using assms(1) w1(1)
  proof (cases rule: exec_load_InrE)
    case idle
    then show ?thesis using assms(2) by simp
  next
    case (lanes lns res vals ts)
    then show ?thesis using warp_load_correct[OF assms(2) lanes(3)] by blast
  qed
  obtain a v where a: "lane_address (inst_src1 inst) inst (w_threads w ! i) = Inr a" "word_at m a = Inr v"
    "write_reg (w_threads w ! i) (inst_dst inst) v = Inr (w_threads w1 ! i)"
    using load_lane[OF assms(1,2) w1(1) assms(5,6)] by blast
  have "w_threads w' ! i = set_pc (w_threads w1 ! i) (size_to_int (size_add (w_pc w) 1))"
    using w1(2,3) assms(5,6) by (simp add: lanes_framed_def nth_shadow)
  then show ?thesis using data a(1,2) write_reg_read(1)[OF a(3)] by auto
qed

lemma ex_load_runs: "\<exists>w'. exec_warp (instr LOAD 2 0 0 4) ex_warp = Some w'"
proof -
  have sp: "\<not> mixed_spaces [4, 5, 6]" "\<forall>a \<in> set [4, 5, 6]. mapped ex_memory a"
    by (simp_all add: mixed_spaces_def SHARED_MEM_BASE_def mapped_def ex_memory_parts)
  obtain r vals m' where run: "warp_load ex_memory [4, 5, 6] = Inr (r, vals, m')"
    using warp_load_total[OF ex_memory_inv disjI2[OF sp(1)] sp(2)] by blast
  have "length vals = 3" using warp_load_correct[OF ex_memory_inv run] by (auto dest: list_all2_lengthD)
  then obtain a b c where vals: "vals = [a, b, c]" by (auto simp: numeral_3_eq_3 length_Suc_conv)
  show ?thesis
    by (simp add: run_defs exec_load_def gather_def lane_address_def run vals write_back_def)
qed

theorem load_reads_memory_witness:
  "\<exists>w' a v. exec_warp (instr LOAD 2 0 0 4) ex_warp = Some w' \<and> word_at ex_memory a = Inr v \<and>
    read_reg (w_threads w' ! 1) 2 = Inr v"
proof -
  obtain w' where e: "exec_warp (instr LOAD 2 0 0 4) ex_warp = Some w'" using ex_load_runs by blast
  then obtain r m' where run: "execute (instr LOAD 2 0 0 4) ex_warp ex_memory = Inr (r, w', m')"
    by (rule exec_warpE)
  have ok: "inst_opcode (instr LOAD 2 0 0 4) = LOAD" "1 < length (w_threads ex_warp)" "bit (w_active_mask ex_warp) 1"
    using ex_warp_inv(3,5) by (simp_all add: instr_def bit_full_mask)
  from load_reads_memory[OF ex_warp_inv(4) ex_memory_inv ok(1) run ok(2,3)] e show ?thesis
    by (auto simp: instr_def)
qed

text \<open>
  C21: A store writes the values of the active lanes to their addresses, the highest lane
  winning where addresses collide, and an atomic add adds all of them; nothing else in the
  shared or global memory changes.
\<close>

theorem stores_write_memory:
  assumes "length (w_threads w) \<le> 32" and "ms_inv m" and "execute inst w m = Inr (r, w', m')"
  shows "(inst_opcode inst = STORE \<longrightarrow> (\<exists>avs. lane_writes inst w = Inr avs \<and> writes_words m avs m')) \<and>
    (inst_opcode inst = ATOMIC_ADD \<longrightarrow> (\<exists>avs. lane_writes inst w = Inr avs \<and> adds_words m avs m')) \<and>
    ms_inv m'"
  using execute_write_InrE[OF assms(1,3), of warp_store] execute_write_InrE[OF assms(1,3), of warp_atomic_add]
    store_lanes[OF assms(1,2), of inst r m'] atomic_lanes[OF assms(1,2), of inst r m']
    execute_ms_inv[OF assms]
  by blast

text \<open>A store of register 1 to address 4 from every lane.\<close>

lemma ex_store_runs: "\<exists>r w' m'. execute (instr STORE 0 1 (-1) 4) ex_warp ex_memory = Inr (r, w', m')"
proof -
  have sp: "\<not> mixed_spaces [4, 4, 4]" "\<forall>a \<in> set [4, 4, 4]. mapped ex_memory a"
    by (simp_all add: mixed_spaces_def SHARED_MEM_BASE_def mapped_def ex_memory_parts)
  obtain r m' where run: "warp_store ex_memory [4, 4, 4] [7, 7, 7] = Inr (r, m')"
    using warp_store_total[OF ex_memory_inv disjI2[OF sp(1)] sp(2), of "[7, 7, 7]"] by auto
  show ?thesis
    by (simp add: run_defs exec_write_def gather_def lane_store_def lane_address_def run)
qed

lemma ex_store_lanes: "lane_writes (instr STORE 0 1 (-1) 4) ex_warp = Inr [(4, 7), (4, 7), (4, 7)]"
  by (simp add: lane_writes_def active_lanes_def run_defs lane_store_def lane_address_def upt_rec)

theorem stores_write_memory_witness:
  "\<exists>r w' m'. execute (instr STORE 0 1 (-1) 4) ex_warp ex_memory = Inr (r, w', m') \<and> word_at m' 4 = Inr 7"
proof -
  obtain r w' m' where run: "execute (instr STORE 0 1 (-1) 4) ex_warp ex_memory = Inr (r, w', m')"
    using ex_store_runs by blast
  from stores_write_memory[OF ex_warp_inv(4) ex_memory_inv run]
  have "writes_words ex_memory [(4, 7), (4, 7), (4, 7)] m'"
    using ex_store_lanes by (auto simp: instr_def)
  then have "word_at m' 4 = Inr 7" by (auto simp: writes_words_def last_value_simps)
  with run show ?thesis by blast
qed

text \<open>
  The write-conflict stalls of a store or an atomic add are one less than the number of
  active lanes that hit the most popular address, and they are added to its latency.
\<close>

theorem write_conflicts_counted:
  assumes "length (w_threads w) \<le> 32" and "inst_opcode inst \<in> {STORE, ATOMIC_ADD}"
    and "execute inst w m = Inr (r, w', m')" and "lane_writes inst w = Inr avs" and "avs \<noteq> []"
  shows "(\<exists>a \<in> fst ` set avs. count_list (map fst avs) a = er_write_conflict_stalls r + 1) \<and>
    (\<forall>a. count_list (map fst avs) a \<le> er_write_conflict_stalls r + 1) \<and>
    er_write_conflict_stalls r \<le> er_latency r"
proof -
  obtain op where op: "inst_opcode inst = STORE \<and> op = warp_store \<or> inst_opcode inst = ATOMIC_ADD \<and> op = warp_atomic_add"
    using assms(2) by blast
  have run: "exec_write op inst w m = Inr (r, m')"
    using execute_write_InrE[OF assms(1,3) op] by blast
  obtain lanes where g: "gather (w_active_mask w) (lane_store inst) (w_threads w) = Inr lanes"
    and c: "if lanes = [] then m' = m \<and> r = plain_result ExecCompleted
     else \<exists>res. op m (map (fst \<circ> snd) lanes) (map (snd \<circ> snd) lanes) = Inr (res, m') \<and>
       r = memory_result (map (fst \<circ> snd) lanes) res
             (let c = max_collisions (map (fst \<circ> snd) lanes) in if c > 1 then c - 1 else 0)"
    using exec_write_InrE[OF assms(1) run] by blast
  have avs: "avs = map snd lanes" using gather_lane_writes[OF assms(1) g] assms(4) by simp
  then have fsts: "map (fst \<circ> snd) lanes = map fst avs" and ne: "lanes \<noteq> []" "map fst avs \<noteq> []"
    using assms(5) by auto
  obtain res where r: "r = memory_result (map fst avs) res
      (let c = max_collisions (map fst avs) in if c > 1 then c - 1 else 0)"
    using c ne(1) unfolding fsts by auto
  obtain a where a: "a \<in> set (map fst avs)" "count_list (map fst avs) a = max_collisions (map fst avs)"
    using max_collisions_props(2)[OF ne(2)] by blast
  have "count_list (map fst avs) a \<noteq> 0" using a(1) by (simp add: count_list_0_iff)
  then have s: "er_write_conflict_stalls r + 1 = max_collisions (map fst avs)"
    using a(2) by (simp add: r memory_result_def Let_def)
  have "count_list (map fst avs) b \<le> max_collisions (map fst avs)" for b
    using max_collisions_props(1)[of b "map fst avs"] count_notin[of b "map fst avs"] by (cases "b \<in> set (map fst avs)") auto
  then show ?thesis using a s by (auto simp: r memory_result_def)
qed

theorem write_conflicts_counted_witness:
  "\<exists>r w' m'. execute (instr STORE 0 1 (-1) 4) ex_warp ex_memory = Inr (r, w', m') \<and> er_write_conflict_stalls r = 2"
proof -
  obtain r w' m' where run: "execute (instr STORE 0 1 (-1) 4) ex_warp ex_memory = Inr (r, w', m')"
    using ex_store_runs by blast
  have "inst_opcode (instr STORE 0 1 (-1) 4) \<in> {STORE, ATOMIC_ADD}" by (simp add: instr_def)
  from write_conflicts_counted[OF ex_warp_inv(4) this run ex_store_lanes] run show ?thesis by auto
qed

section \<open>Divergence and reconvergence\<close>

text \<open>
  C8: Along every disciplined run of a freshly built warp the divergence is well nested: no
  lane is ever lost from the active mask and the stack together, and whenever the stack is
  empty all lanes of the warp are active again, so that a barrier then does not throw.
\<close>

theorem divergence_reconverges:
  assumes "length ts \<le> 32" and "fetches prog (build_warp k ts) m w' m'"
  shows "(\<forall>i < length ts. bit (w_active_mask w') i \<or> (\<exists>e \<in> set (w_stack w'). bit (se_active_mask e) i)) \<and>
    (w_stack w' = [] \<longrightarrow> w_active_mask w' = full_mask (length ts) \<and>
      (\<forall>inst. inst_opcode inst = BARRIER \<longrightarrow>
        (\<exists>w2. execute inst w' m' = Inr (plain_result BarrierReached, w2, m'))))"
proof -
  have inv: "masks_inv w' \<and> simt_inv (full_mask (length ts)) w' \<and> length (w_threads w') = length ts"
    using fetches_inv[OF assms(2) built_warp_inv[OF assms(1)]] by (simp add: build_warp_props)
  have "bit (w_active_mask w') i \<or> (\<exists>e \<in> set (w_stack w'). bit (se_active_mask e) i)" if "i < length ts" for i
    using simt_nested_covers[of "full_mask (length ts)" "w_active_mask w'" _ "w_stack w'" i] inv that assms(1)
    by (auto simp: simt_inv_def bit_full_mask)
  moreover have "w_active_mask w' = full_mask (length ts)" if "w_stack w' = []"
    using empty_stack_full[OF _ that] inv by blast
  ultimately show ?thesis using barrier_passes[of w' _ m'] inv by auto
qed

text \<open>A region with a divergent branch: lanes 0 and 2 jump to the \<open>SYNC\<close>, lane 1 runs the \<open>MOV\<close> first.\<close>

definition ex_region :: "instruction list" where
  "ex_region = [instr SSY 0 0 0 3, instr BRANCH 0 0 0 2, instr MOV 2 (-1) 0 9, instr SYNC 0 0 0 0]"

definition control_after :: "(warp \<times> memory_system) option \<Rightarrow> (size_t \<times> lane_mask \<times> nat) option" where
  "control_after r = map_option (\<lambda>(w, m). (w_pc w, w_active_mask w, length (w_stack w))) r"

lemma ex_taken: "set_bit (Suc (Suc 0)) (1 :: lane_mask) = 5"
  by (simp add: set_bit_eq_or)

lemma ex_region_run: "control_after (run_warp (Suc (Suc (Suc (Suc (Suc 0))))) ex_region ex_warp ex_memory) = Some (4, 7, 0)"
  by (simp add: ex_region_def control_after_def run_defs disciplined_def uniform_branch_def All_less_Suc size_max_def
      ex_taken)

theorem divergence_reconverges_witness:
  "\<exists>w' m'. run_warp 5 ex_region ex_warp ex_memory = Some (w', m') \<and> w_stack w' = [] \<and>
    (\<exists>w2. execute (instr BARRIER 0 0 0 0) w' m' = Inr (plain_result BarrierReached, w2, m'))"
proof -
  obtain w' m' where run: "run_warp 5 ex_region ex_warp ex_memory = Some (w', m')" and st: "w_stack w' = []"
    using ex_region_run by (auto simp: control_after_def numeral_eq_Suc simp del: run_warp.simps)
  have "fetches ex_region (build_warp 0 ex_lanes) ex_memory w' m'"
    using run_warp_fetches[OF run] by (simp add: ex_warp_def)
  from divergence_reconverges[OF _ this] st run show ?thesis
    by (simp add: ex_lanes_length instr_def)
qed

definition ex_confused :: "instruction list" where
  "ex_confused = [instr SSY 0 0 0 2, instr BRANCH 0 0 0 2, instr SYNC 0 0 0 0, instr BRANCH 0 0 0 (-1),
     instr BARRIER 0 0 0 0]"

definition failure :: "'a result \<Rightarrow> sim_error option" where
  "failure r = (case r of Inl e \<Rightarrow> Some e | Inr _ \<Rightarrow> None)"

text \<open>
  The discipline is needed: \<open>SYNC\<close> takes the popped entry for the token of the region
  whenever its target is the \<open>SYNC\<close> itself. A divergent branch whose fall-through is the
  reconvergence point pushes such an entry; after the \<open>SYNC\<close> of the taken lanes the deferred
  lane runs on alone past the region, and its next barrier throws.
\<close>

theorem sync_mistakes_deferred_path:
  "control_after (run_any (Suc (Suc (Suc (Suc (Suc 0))))) ex_confused ex_warp ex_memory) = Some (4, 2, 1) \<and>
   (\<exists>w m. run_any (Suc (Suc (Suc (Suc (Suc 0))))) ex_confused ex_warp ex_memory = Some (w, m) \<and>
     execute (ex_confused ! w_pc w) w m = Inl (Runtime_error ''Divergent barrier within warp''))"
  by (simp add: ex_confused_def control_after_def run_defs size_max_def ex_taken mask_count_def upt_rec)

section \<open>Schedulers\<close>

text \<open>
  C35: A scheduler of any policy selects a ready warp of the vector it is given or none, so
  that the SM never issues a stalled or completed warp; the four work-conserving policies
  return none only when no warp is ready.
\<close>

theorem schedulers_select_ready:
  "(case select_warp s warps of (Some i, s') \<Rightarrow> i < length warps \<and> w_state (warps ! i) = Ready | (None, s') \<Rightarrow> True) \<and>
   (case s of
      RoundRobin _ \<Rightarrow> fst (select_warp s warps) = None \<longleftrightarrow> \<not> some_ready warps
    | Greedy \<Rightarrow> fst (select_warp s warps) = None \<longleftrightarrow> \<not> some_ready warps
    | OldestFirst \<Rightarrow> fst (select_warp s warps) = None \<longleftrightarrow> \<not> some_ready warps
    | GTO _ \<Rightarrow> fst (select_warp s warps) = None \<longleftrightarrow> \<not> some_ready warps
    | _ \<Rightarrow> True)"
proof
  show "case select_warp s warps of (Some i, s') \<Rightarrow> i < length warps \<and> w_state (warps ! i) = Ready | (None, s') \<Rightarrow> True"
    using sched.select_ready[of s warps] by (auto simp: is_ready_def split: option.split)
  show "case s of
      RoundRobin _ \<Rightarrow> fst (select_warp s warps) = None \<longleftrightarrow> \<not> some_ready warps
    | Greedy \<Rightarrow> fst (select_warp s warps) = None \<longleftrightarrow> \<not> some_ready warps
    | OldestFirst \<Rightarrow> fst (select_warp s warps) = None \<longleftrightarrow> \<not> some_ready warps
    | GTO _ \<Rightarrow> fst (select_warp s warps) = None \<longleftrightarrow> \<not> some_ready warps
    | _ \<Rightarrow> True"
    using rr.select_None_iff[of _ warps] greedy.select_None_iff[of _ warps] oldest.select_None_iff[of _ warps]
      gto.select_None_iff[of _ warps]
    by (cases s) (simp_all add: select_warp_def case_prod_beta)
qed

text \<open>
  C36: Round robin is fair: a warp that is ready in each of as many consecutive selections as
  there are warps is selected in one of them, whatever the other warps do meanwhile.
\<close>

theorem round_robin_fair:
  assumes "k < n" and "n \<le> length wss" and "\<And>ws. ws \<in> set wss \<Longrightarrow> length ws = n \<and> w_state (ws ! k) = Ready"
  shows "Some k \<in> set (take n (rr_run s wss))"
  using rr_run_fair[OF assms(1,2)] assms(3) by (simp add: is_ready_def)

theorem round_robin_fair_witness:
  "Some 1 \<in> set (take 2 (rr_run 0 [[new_warp 0, new_warp 1], [set_completed (new_warp 0), new_warp 1]]))"
  by (rule round_robin_fair[of 1 2]) (auto simp: new_warp_def set_completed_def)

text \<open>
  C38: OldestFirst selects a ready warp of the vector, and one that is minimal for (ready since, id)
  among the ready ones; GTO selects a ready warp too, sticks to the warp id it issued last while a
  ready warp carries it, and otherwise does the same as OldestFirst.
\<close>

theorem oldest_and_gto_order:
  "(\<forall>i. oldest_select warps = Some i \<longrightarrow> i < length warps \<and> w_state (warps ! i) = Ready \<and>
      (\<forall>j < length warps. w_state (warps ! j) = Ready \<longrightarrow>
        (w_ready_since (warps ! i), w_id (warps ! i)) \<le> (w_ready_since (warps ! j), w_id (warps ! j)))) \<and>
   (\<forall>l i l'. gto_select l warps = (Some i, l') \<longrightarrow> i < length warps \<and> w_state (warps ! i) = Ready \<and> l' = w_id (warps ! i) \<and>
      (if l \<noteq> size_max \<and> (\<exists>w \<in> set warps. w_id w = l \<and> w_state w = Ready) then w_id (warps ! i) = l
       else oldest_select warps = Some i))"
proof -
  have le: "\<not> older w v \<Longrightarrow> (w_ready_since v, w_id v) \<le> (w_ready_since w, w_id w)" for w v
    by (auto simp: older_def less_eq_prod_def)
  have old: "i < length warps \<and> w_state (warps ! i) = Ready \<and> (\<forall>j < length warps. w_state (warps ! j) = Ready \<longrightarrow>
      (w_ready_since (warps ! i), w_id (warps ! i)) \<le> (w_ready_since (warps ! j), w_id (warps ! j)))"
    if "oldest_select warps = Some i" for i
    using oldest_select_Some[OF that] le by (simp add: is_ready_def)
  have gto: "i < length warps \<and> w_state (warps ! i) = Ready" if "gto_select l warps = (Some i, l')" for l i l'
    using gto.select_ready[OF that] by (simp add: is_ready_def)
  show ?thesis using old gto gto_select_cases by blast
qed

text \<open>Three warps, of which the last became ready first.\<close>

definition ex_warps :: "warp list" where
  "ex_warps = [(new_warp 0)\<lparr>w_ready_since := 5\<rparr>, (new_warp 1)\<lparr>w_ready_since := 3\<rparr>, (new_warp 2)\<lparr>w_ready_since := 3\<rparr>]"

theorem oldest_and_gto_order_witness:
  "oldest_select ex_warps = Some 1 \<and> (3, 1) \<le> (w_ready_since (ex_warps ! 2), w_id (ex_warps ! 2)) \<and>
   (\<exists>l'. gto_select 2 ex_warps = (Some 2, l') \<and> l' = 2)"
proof -
  have e: "oldest_select ex_warps = Some 1"
    by (simp add: oldest_select_def ex_warps_def oldest_step_def is_ready_def new_warp_def older_def upt_rec)
  have g: "gto_select 2 ex_warps = (Some 2, 2)"
    by (simp add: gto_select_def ex_warps_def new_warp_def size_max_def)
  have "(w_ready_since (ex_warps ! 1), w_id (ex_warps ! 1)) = (3, 1)" "length ex_warps = 3" "w_state (ex_warps ! 2) = Ready"
    by (simp_all add: ex_warps_def new_warp_def)
  then have "(3, 1) \<le> (w_ready_since (ex_warps ! 2), w_id (ex_warps ! 2))"
    using conjunct1[OF oldest_and_gto_order[of ex_warps], rule_format, OF e] by (metis lessI numeral_3_eq_3 numeral_2_eq_2)
  then show ?thesis using e g by blast
qed

text \<open>
  Priority selects a ready warp of maximal priority, and passes over ready warps only when
  every ready one has the lowest priority an \<open>int\<close> can have: such a warp is never selected.
\<close>

theorem priority_maximal:
  "(\<forall>i s'. priority_select s warps = (Some i, s') \<longrightarrow> i < length warps \<and>
      (\<forall>j < length warps. w_state (warps ! j) = Ready \<longrightarrow>
        sint (w_priority (warps ! j)) \<le> sint (w_priority (warps ! i)))) \<and>
   (fst (priority_select s warps) = None \<longrightarrow>
      (\<forall>j < length warps. w_state (warps ! j) = Ready \<longrightarrow> sint (w_priority (warps ! j)) = - (2 ^ 31)))"
  using priority_select_Some[of s warps] priority_select_None[of s warps] by (auto simp: is_ready_def)

theorem priority_maximal_witness:
  "fst (priority_select 0 [set_priority (new_warp 0) 1, set_priority (new_warp 1) 4, set_priority (new_warp 2) 2]) = Some 1 \<and>
   sint (4 :: c_int) \<ge> sint (1 :: c_int)"
proof -
  let ?ws = "[set_priority (new_warp 0) 1, set_priority (new_warp 1) 4, set_priority (new_warp 2) 2]"
  have e: "priority_select 0 ?ws = (Some 1, 2)"
    by (simp add: priority_select_def rotation_def prio_step_def is_ready_def set_priority_def new_warp_def upt_rec)
  have "\<forall>j < length ?ws. w_state (?ws ! j) = Ready \<longrightarrow> sint (w_priority (?ws ! j)) \<le> sint (w_priority (?ws ! 1))"
    using priority_maximal[of 0 ?ws] e by blast
  then have "w_state (?ws ! 0) = Ready \<longrightarrow> sint (w_priority (?ws ! 0)) \<le> sint (w_priority (?ws ! 1))"
    by (rule allE[of _ 0]) simp
  then show ?thesis using e by (simp add: set_priority_def new_warp_def)
qed

text \<open>
  The two-level scheduler keeps at most as many ids active as its set has places, and
  selects only warps of the active set. It is not work conserving: with both places taken by
  warps that wait at a barrier it selects nothing although a third warp is ready.
\<close>

theorem two_level_active_set:
  "(\<forall>sel s'. two_level_inv s \<longrightarrow> two_level_select s warps = (sel, s') \<longrightarrow> two_level_inv s' \<and>
      (\<forall>i. sel = Some i \<longrightarrow> w_id (warps ! i) \<in> set (tl_active_warp_ids s'))) \<and>
   fst (two_level_select \<lparr>tl_active_set_size = 2, tl_active_warp_ids = [0, 1], tl_rr_index = 0\<rparr>
     [set_stalled_at_barrier (new_warp 0), set_stalled_at_barrier (new_warp 1), new_warp 2]) = None"
  using two_level_select_active[of s warps]
  by (auto simp: two_level_select_def update_active_set_def still_active_def ready_with_id_def new_warp_def
      set_stalled_at_barrier_def reset_wait_cycles_def)

theorem two_level_active_set_witness:
  "\<exists>s'. two_level_select \<lparr>tl_active_set_size = 1, tl_active_warp_ids = [], tl_rr_index = 0\<rparr> [new_warp 4] = (Some 0, s') \<and>
    two_level_inv s' \<and> 4 \<in> set (tl_active_warp_ids s')"
proof -
  let ?s = "\<lparr>tl_active_set_size = 1, tl_active_warp_ids = [], tl_rr_index = 0\<rparr>"
  have "fst (two_level_select ?s [new_warp 4]) = Some 0"
    by (simp add: two_level_select_def update_active_set_def ready_with_id_def new_warp_def)
  then obtain s' where e: "two_level_select ?s [new_warp 4] = (Some 0, s')" by (metis prod.collapse)
  have "two_level_inv ?s" by (simp add: two_level_inv_def)
  with e conjunct1[OF two_level_active_set[of ?s "[new_warp 4]"]]
  have "two_level_inv s' \<and> w_id ([new_warp 4] ! 0) \<in> set (tl_active_warp_ids s')" by blast
  then show ?thesis using e by (simp add: new_warp_def)
qed

section \<open>The state machine of a warp\<close>

text \<open>
  A stall of \<open>n\<close> cycles lasts exactly \<open>n\<close> ticks, and no operation the SM applies to a warp
  outside the executor leaves the completed state or touches threads, program counter, mask
  or stack.
\<close>

theorem warp_state_machine:
  "(\<forall>n k. 0 < n \<longrightarrow> w_state (((\<lambda>w. tick_stall w now) ^^ k) (stall w n)) = (if k < n then Stalled else Ready)) \<and>
   (\<forall>w'. warp_transition now w w' \<longrightarrow>
      (w_state w = Completed \<longrightarrow> w_state w' = Completed) \<and> (stall_inv w \<longrightarrow> stall_inv w') \<and>
      w_threads w' = w_threads w \<and> w_pc w' = w_pc w \<and> w_active_mask w' = w_active_mask w \<and> w_stack w' = w_stack w)"
proof (intro conjI allI impI)
  show "w_state (((\<lambda>w. tick_stall w now) ^^ k) (stall w n)) = (if k < n then Stalled else Ready)" if "0 < n" for n k
    by (rule stall_lasts[OF that])
  fix w' assume t: "warp_transition now w w'"
  show "w_state w = Completed \<Longrightarrow> w_state w' = Completed" "stall_inv w \<Longrightarrow> stall_inv w'"
    using warp_transition_completed[OF t] warp_transition_stall_inv[OF t] by blast+
  show "w_threads w' = w_threads w" "w_pc w' = w_pc w" "w_active_mask w' = w_active_mask w" "w_stack w' = w_stack w"
    using warp_transition_frame[OF t] by blast+
qed

theorem warp_state_machine_witness:
  "w_state (((\<lambda>w. tick_stall w 9) ^^ 3) (stall ex_warp 3)) = Ready \<and>
   w_threads (set_stalled_at_barrier ex_warp) = w_threads ex_warp"
proof
  note t = warp_state_machine[of 9 ex_warp]
  have "(0::nat) < 3" by simp
  with conjunct1[OF t] show "w_state (((\<lambda>w. tick_stall w 9) ^^ 3) (stall ex_warp 3)) = Ready"
    by (metis less_irrefl)
  have "warp_transition 9 ex_warp (set_stalled_at_barrier ex_warp)"
    by (rule warp_transition.arrive) (simp add: ex_warp_fields)
  with conjunct2[OF t] show "w_threads (set_stalled_at_barrier ex_warp) = w_threads ex_warp" by blast
qed

end
