(* ===== verification/Perf_Counters.thy ===== *)
theory Perf_Counters
  imports Complex_Main Warp
begin

text \<open>
  \<^verbatim>\<open>src/runtime/performance_counter.cpp\<close>: the counters of an SM, the derived metrics and the
  trace hooks. The \<open>double\<close> metrics are computed in the rationals, without rounding.
\<close>

datatype stall_reason = NoStall | NoReadyWarp | SyntheticLatency | WriteConflict

datatype trace_event =
    Scheduler_event size_t size_t string size_t "(size_t \<times> warp_state) list"
  | Memory_event size_t size_t size_t instruction size_t string

text \<open>\<open>pf_trace\<close> is \<open>None\<close> without a trace logger, else the calls made on it so far.\<close>

record perf_counters =
  pf_cycles :: size_t
  pf_instructions_retired :: size_t
  pf_stall_cycles :: size_t
  pf_stall_reasons :: "(stall_reason \<times> size_t) list"
  pf_memory_instructions :: size_t
  pf_memory_transactions :: size_t
  pf_warp_barrier_stall_cycles :: size_t
  pf_bank_conflict_stalls :: size_t
  pf_dirty_eviction_writebacks :: size_t
  pf_total_warp_wait_cycles :: size_t
  pf_max_warp_wait_cycles :: size_t
  pf_warp_wait_events :: size_t
  pf_starvation_events :: size_t
  pf_warp_issue_counts :: "(size_t \<times> size_t) list"
  pf_trace :: "trace_event list option"

definition new_counters :: perf_counters where
  "new_counters = \<lparr>pf_cycles = 0, pf_instructions_retired = 0, pf_stall_cycles = 0, pf_stall_reasons = [],
     pf_memory_instructions = 0, pf_memory_transactions = 0, pf_warp_barrier_stall_cycles = 0,
     pf_bank_conflict_stalls = 0, pf_dirty_eviction_writebacks = 0, pf_total_warp_wait_cycles = 0,
     pf_max_warp_wait_cycles = 0, pf_warp_wait_events = 0, pf_starvation_events = 0,
     pf_warp_issue_counts = [], pf_trace = None\<rparr>"

definition increment_cycles :: "perf_counters \<Rightarrow> perf_counters" where
  "increment_cycles p = p\<lparr>pf_cycles := pf_cycles p + 1\<rparr>"

definition increment_instructions_retired :: "perf_counters \<Rightarrow> perf_counters" where
  "increment_instructions_retired p = p\<lparr>pf_instructions_retired := pf_instructions_retired p + 1\<rparr>"

definition add_stall :: "stall_reason \<Rightarrow> perf_counters \<Rightarrow> perf_counters" where
  "add_stall reason p = p\<lparr>pf_stall_cycles := pf_stall_cycles p + 1,
     pf_stall_reasons := bump (pf_stall_reasons p) reason\<rparr>"

definition get_stalls :: "stall_reason \<Rightarrow> perf_counters \<Rightarrow> size_t" where
  "get_stalls reason p = count_of (pf_stall_reasons p) reason"

definition increment_memory_instructions :: "perf_counters \<Rightarrow> perf_counters" where
  "increment_memory_instructions p = p\<lparr>pf_memory_instructions := pf_memory_instructions p + 1\<rparr>"

definition add_memory_transactions :: "size_t \<Rightarrow> perf_counters \<Rightarrow> perf_counters" where
  "add_memory_transactions n p = p\<lparr>pf_memory_transactions := pf_memory_transactions p + n\<rparr>"

definition add_warp_barrier_stall_cycles :: "size_t \<Rightarrow> perf_counters \<Rightarrow> perf_counters" where
  "add_warp_barrier_stall_cycles n p = p\<lparr>pf_warp_barrier_stall_cycles := pf_warp_barrier_stall_cycles p + n\<rparr>"

definition add_bank_conflict_stalls :: "size_t \<Rightarrow> perf_counters \<Rightarrow> perf_counters" where
  "add_bank_conflict_stalls n p = p\<lparr>pf_bank_conflict_stalls := pf_bank_conflict_stalls p + n\<rparr>"

definition add_dirty_eviction_writebacks :: "size_t \<Rightarrow> perf_counters \<Rightarrow> perf_counters" where
  "add_dirty_eviction_writebacks n p = p\<lparr>pf_dirty_eviction_writebacks := pf_dirty_eviction_writebacks p + n\<rparr>"

definition record_warp_wait :: "size_t \<Rightarrow> perf_counters \<Rightarrow> perf_counters" where
  "record_warp_wait n p =
     p\<lparr>pf_total_warp_wait_cycles := pf_total_warp_wait_cycles p + n,
       pf_max_warp_wait_cycles := (if n > pf_max_warp_wait_cycles p then n else pf_max_warp_wait_cycles p),
       pf_warp_wait_events := pf_warp_wait_events p + (if n > 0 then 1 else 0)\<rparr>"

definition record_starvation_event :: "perf_counters \<Rightarrow> perf_counters" where
  "record_starvation_event p = p\<lparr>pf_starvation_events := pf_starvation_events p + 1\<rparr>"

definition initialize_warp_issue_count :: "size_t \<Rightarrow> perf_counters \<Rightarrow> perf_counters" where
  "initialize_warp_issue_count w p =
     (if map_of (pf_warp_issue_counts p) w = None
      then p\<lparr>pf_warp_issue_counts := pf_warp_issue_counts p @ [(w, 0)]\<rparr> else p)"

definition record_warp_issue :: "size_t \<Rightarrow> perf_counters \<Rightarrow> perf_counters" where
  "record_warp_issue w p = p\<lparr>pf_warp_issue_counts := bump (pf_warp_issue_counts p) w\<rparr>"

definition set_trace_logger :: "perf_counters \<Rightarrow> perf_counters" where
  "set_trace_logger p = p\<lparr>pf_trace := Some []\<rparr>"

definition log_event :: "trace_event \<Rightarrow> perf_counters \<Rightarrow> perf_counters" where
  "log_event e p = p\<lparr>pf_trace := map_option (\<lambda>es. es @ [e]) (pf_trace p)\<rparr>"

definition record_scheduler_event ::
    "size_t \<Rightarrow> size_t \<Rightarrow> string \<Rightarrow> size_t \<Rightarrow> warp list \<Rightarrow> perf_counters \<Rightarrow> perf_counters" where
  "record_scheduler_event sm_id cycle name selected warps p =
     log_event (Scheduler_event sm_id cycle name selected (map (\<lambda>w. (w_id w, w_state w)) warps)) p"

definition record_memory_event ::
    "size_t \<Rightarrow> size_t \<Rightarrow> size_t \<Rightarrow> instruction \<Rightarrow> size_t \<Rightarrow> string \<Rightarrow> perf_counters \<Rightarrow> perf_counters" where
  "record_memory_event sm_id cycle warp_id inst transactions space p =
     log_event (Memory_event sm_id cycle warp_id inst transactions space) p"

section \<open>Derived metrics\<close>

definition get_ipc :: "perf_counters \<Rightarrow> rat" where
  "get_ipc p = (if pf_cycles p = 0 then 0 else of_nat (pf_instructions_retired p) / of_nat (pf_cycles p))"

definition get_transactions_per_memory_instruction :: "perf_counters \<Rightarrow> rat" where
  "get_transactions_per_memory_instruction p =
     (if pf_memory_instructions p = 0 then 0
      else of_nat (pf_memory_transactions p) / of_nat (pf_memory_instructions p))"

definition get_average_warp_wait_cycles :: "perf_counters \<Rightarrow> rat" where
  "get_average_warp_wait_cycles p =
     (if pf_warp_wait_events p = 0 then 0
      else of_nat (pf_total_warp_wait_cycles p) / of_nat (pf_warp_wait_events p))"

definition get_jains_fairness_index :: "perf_counters \<Rightarrow> rat" where
  "get_jains_fairness_index p =
     (if pf_warp_issue_counts p = [] then 0
      else let acc = foldl (\<lambda>(s, s_sq) pair. (s + of_nat (snd pair), s_sq + of_nat (snd pair * snd pair)))
                       (0 :: rat, 0 :: rat) (pf_warp_issue_counts p);
               total = fst acc; sum_sq = snd acc
           in if sum_sq = 0 then 0
              else (total * total) / (of_nat (length (pf_warp_issue_counts p)) * sum_sq))"

section \<open>Laws\<close>

lemma stall_accounting:
  "pf_stall_cycles (add_stall r p) = pf_stall_cycles p + 1"
  "get_stalls r' (add_stall r p) = get_stalls r' p + (if r' = r then 1 else 0)"
  "sum_list (map snd (pf_stall_reasons (add_stall r p))) = sum_list (map snd (pf_stall_reasons p)) + 1"
  by (simp_all add: add_stall_def get_stalls_def count_of_bump bump_total)

lemma jain_sums:
  "foldl (\<lambda>(s, s_sq) pair. (s + of_nat (snd pair), s_sq + of_nat (snd pair * snd pair))) (a :: rat, b :: rat) xs =
   (a + sum_list (map (\<lambda>p. of_nat (snd p)) xs), b + sum_list (map (\<lambda>p. of_nat (snd p) * of_nat (snd p)) xs))"
  by (induction xs arbitrary: a b) (simp_all add: algebra_simps)

lemma jain_eq:
  "get_jains_fairness_index p =
     (let xs = map (\<lambda>pair. of_nat (snd pair)) (pf_warp_issue_counts p)
      in sum_list xs * sum_list xs / (of_nat (length xs) * sum_list (map (\<lambda>x. x * x) xs)))"
  unfolding get_jains_fairness_index_def jain_sums by (simp add: Let_def comp_def)

text \<open>The square of a sum against the sum of the squares.\<close>

lemma sum_squares_nonneg: "0 \<le> sum_list (map (\<lambda>x. x * x) xs)" for xs :: "rat list"
  by (rule sum_list_nonneg) auto

lemma square_sum_le: "sum_list xs * sum_list xs \<le> of_nat (length xs) * sum_list (map (\<lambda>x. x * x) xs)"
  for xs :: "rat list"
proof (induction xs)
  case (Cons x xs)
  let ?s = "sum_list xs" and ?q = "sum_list (map (\<lambda>x. x * x) xs)" and ?n = "of_nat (length xs) :: rat"
  have "2 * ?s * x \<le> ?q + ?n * (x * x)"
  proof (cases "xs = []")
    case False
    then have n: "0 < ?n" by simp
    have "0 \<le> (?s - ?n * x) * (?s - ?n * x)" by simp
    then have "?n * (2 * ?s * x) \<le> ?s * ?s + ?n * ?n * (x * x)" by (simp add: algebra_simps)
    also have "\<dots> \<le> ?n * ?q + ?n * ?n * (x * x)" using Cons.IH by simp
    finally have "?n * (2 * ?s * x) \<le> ?n * (?q + ?n * (x * x))" by (simp add: algebra_simps)
    then show ?thesis using n by (simp add: mult_le_cancel_left_pos)
  qed simp
  then show ?case using Cons.IH by (simp add: algebra_simps)
qed simp

lemma jain_range: "0 \<le> get_jains_fairness_index p \<and> get_jains_fairness_index p \<le> 1"
proof -
  let ?xs = "map (\<lambda>pair. of_nat (snd pair)) (pf_warp_issue_counts p) :: rat list"
  let ?d = "of_nat (length ?xs) * sum_list (map (\<lambda>x. x * x) ?xs)"
  have d: "0 \<le> ?d" using sum_squares_nonneg[of ?xs] by simp
  have "get_jains_fairness_index p = sum_list ?xs * sum_list ?xs / ?d"
    by (simp add: jain_eq Let_def)
  then show ?thesis using d square_sum_le[of ?xs]
    by (cases "?d = 0") (simp_all add: divide_le_eq_1 zero_le_divide_iff order_less_le)
qed

lemma jain_equal_shares:
  assumes "pf_warp_issue_counts p \<noteq> []" and "0 < n" and "\<forall>(w, c) \<in> set (pf_warp_issue_counts p). c = n"
  shows "get_jains_fairness_index p = 1"
proof -
  let ?k = "length (pf_warp_issue_counts p)"
  have "map snd (pf_warp_issue_counts p) = replicate ?k n"
    using assms(3) by (intro replicate_eqI) auto
  then have xs: "map (\<lambda>pair. of_nat (snd pair)) (pf_warp_issue_counts p) = replicate ?k (of_nat n :: rat)"
    by (metis (no_types, lifting) list.map_comp map_replicate comp_apply map_eq_conv)
  have "of_nat ?k \<noteq> (0 :: rat)" using assms(1) by simp
  then show ?thesis using assms(2) unfolding jain_eq Let_def xs by (simp add: sum_list_replicate)
qed

end
