(* ===== verification/Config.thy ===== *)
theory Config
  imports Storage
begin

text \<open>
  \<^verbatim>\<open>include/runtime/config.hpp\<close> and \<^verbatim>\<open>src/runtime/config.cpp\<close>. The JSON document is read by
  a library; it is a parameter here: for a key and a default, the value the document gives at
  the type of the default, or the exception of a value of the wrong type.
\<close>

record system_config =
  cfg_num_sms :: size_t
  cfg_warp_size :: size_t
  cfg_block_size :: size_t
  cfg_max_threads_per_sm :: size_t
  cfg_max_blocks_per_sm :: size_t
  cfg_max_shared_memory_per_sm :: size_t
  cfg_max_registers_per_sm :: size_t
  cfg_max_warps_per_sm :: size_t
  cfg_l1_sets :: size_t
  cfg_l1_associativity :: size_t
  cfg_l1_line_size :: size_t
  cfg_l1_policy :: string
  cfg_l2_sets :: size_t
  cfg_l2_associativity :: size_t
  cfg_l2_line_size :: size_t
  cfg_l2_policy :: string
  cfg_scheduler_policy :: string
  cfg_active_set_size :: size_t
  cfg_shared_memory_latency :: size_t
  cfg_l1_latency :: size_t
  cfg_l2_latency :: size_t
  cfg_global_memory_latency :: size_t
  cfg_writeback_latency :: size_t
  cfg_shared_memory_banks :: size_t
  cfg_global_memory_size :: size_t

text \<open>\<open>SystemConfig{}\<close>: the default member initialisers, and 0 for the members without one.\<close>

definition default_config :: system_config where
  "default_config =
     \<lparr>cfg_num_sms = 0, cfg_warp_size = 0, cfg_block_size = 0, cfg_max_threads_per_sm = 0,
      cfg_max_blocks_per_sm = 0, cfg_max_shared_memory_per_sm = 0, cfg_max_registers_per_sm = 0,
      cfg_max_warps_per_sm = 64, cfg_l1_sets = 4, cfg_l1_associativity = 4, cfg_l1_line_size = 32,
      cfg_l1_policy = ''LRU'', cfg_l2_sets = 16, cfg_l2_associativity = 8, cfg_l2_line_size = 32,
      cfg_l2_policy = ''LRU'', cfg_scheduler_policy = ''RR'', cfg_active_set_size = 8,
      cfg_shared_memory_latency = 1, cfg_l1_latency = 5, cfg_l2_latency = 20,
      cfg_global_memory_latency = 100, cfg_writeback_latency = 20, cfg_shared_memory_banks = 32,
      cfg_global_memory_size = 1048576\<rparr>"

record json_document =
  j_int :: "string \<Rightarrow> c_int \<Rightarrow> c_int result"
  j_size :: "string \<Rightarrow> size_t \<Rightarrow> size_t result"
  j_string :: "string \<Rightarrow> string \<Rightarrow> string result"

text \<open>\<open>config.x = j.value(key, 4)\<close>: the default is an \<open>int\<close>, so the value is converted from \<open>int\<close>.\<close>

definition int_value :: "json_document \<Rightarrow> string \<Rightarrow> c_int \<Rightarrow> size_t result" where
  "int_value j key d = bindE (j_int j key d) (\<lambda>v. Inr (int_to_size v))"

text \<open>The division in the default of \<open>max_warps_per_sm\<close> is evaluated whether it is used or not.\<close>

definition warps_default :: "size_t \<Rightarrow> size_t \<Rightarrow> size_t result" where
  "warps_default max_threads warp_sz =
     (if warp_sz = 0 then Inl (Undefined ''division by zero'') else Inr (max_threads div warp_sz))"

definition load_occupancy_limits :: "json_document \<Rightarrow> system_config \<Rightarrow> system_config result" where
  "load_occupancy_limits j c =
     bindE (int_value j ''num_sms'' 4) (\<lambda>num_sms.
     bindE (int_value j ''warp_size'' 32) (\<lambda>warp_sz.
     bindE (int_value j ''block_size'' 128) (\<lambda>block_sz.
     bindE (int_value j ''max_threads_per_sm'' 2048) (\<lambda>max_threads.
     bindE (int_value j ''max_blocks_per_sm'' 32) (\<lambda>max_blocks.
     bindE (int_value j ''max_shared_memory_per_sm'' 65536) (\<lambda>max_shared.
     bindE (int_value j ''max_registers_per_sm'' 65536) (\<lambda>max_regs.
     bindE (warps_default max_threads warp_sz) (\<lambda>dflt.
     bindE (j_size j ''max_warps_per_sm'' dflt) (\<lambda>max_warps.
       Inr (c\<lparr>cfg_num_sms := num_sms, cfg_warp_size := warp_sz, cfg_block_size := block_sz,
              cfg_max_threads_per_sm := max_threads, cfg_max_blocks_per_sm := max_blocks,
              cfg_max_shared_memory_per_sm := max_shared, cfg_max_registers_per_sm := max_regs,
              cfg_max_warps_per_sm := max_warps\<rparr>))))))))))"

definition load_cache_hierarchy :: "json_document \<Rightarrow> system_config \<Rightarrow> system_config result" where
  "load_cache_hierarchy j c =
     bindE (j_size j ''l1_sets'' 4) (\<lambda>l1s.
     bindE (j_size j ''l1_associativity'' 4) (\<lambda>l1a.
     bindE (j_size j ''l1_line_size'' 32) (\<lambda>l1l.
     bindE (j_string j ''l1_policy'' ''LRU'') (\<lambda>l1p.
     bindE (j_size j ''l2_sets'' 16) (\<lambda>l2s.
     bindE (j_size j ''l2_associativity'' 8) (\<lambda>l2a.
     bindE (j_size j ''l2_line_size'' 32) (\<lambda>l2l.
     bindE (j_string j ''l2_policy'' ''LRU'') (\<lambda>l2p.
       Inr (c\<lparr>cfg_l1_sets := l1s, cfg_l1_associativity := l1a, cfg_l1_line_size := l1l, cfg_l1_policy := l1p,
              cfg_l2_sets := l2s, cfg_l2_associativity := l2a, cfg_l2_line_size := l2l, cfg_l2_policy := l2p\<rparr>)))))))))"

definition load_latencies :: "json_document \<Rightarrow> system_config \<Rightarrow> system_config result" where
  "load_latencies j c =
     bindE (j_size j ''shared_memory_latency'' 1) (\<lambda>sl.
     bindE (j_size j ''l1_latency'' 5) (\<lambda>l1l.
     bindE (j_size j ''l2_latency'' 20) (\<lambda>l2l.
     bindE (j_size j ''global_memory_latency'' 100) (\<lambda>gl.
     bindE (j_size j ''writeback_latency'' 20) (\<lambda>wl.
     bindE (j_size j ''shared_memory_banks'' 32) (\<lambda>banks.
     bindE (j_size j ''global_memory_size'' 1048576) (\<lambda>gms.
       Inr (c\<lparr>cfg_shared_memory_latency := sl, cfg_l1_latency := l1l, cfg_l2_latency := l2l,
              cfg_global_memory_latency := gl, cfg_writeback_latency := wl,
              cfg_shared_memory_banks := banks, cfg_global_memory_size := gms\<rparr>))))))))"

text \<open>\<open>None\<close> is a file that cannot be opened. The scheduler fields keep their defaults.\<close>

definition load_config :: "string \<Rightarrow> json_document option \<Rightarrow> system_config result" where
  "load_config filepath doc =
     (case doc of
        None \<Rightarrow> Inl (Runtime_error (''Could not open config file: '' @ filepath))
      | Some j \<Rightarrow>
          bindE (load_occupancy_limits j default_config) (\<lambda>c1.
          bindE (load_cache_hierarchy j c1) (\<lambda>c2. load_latencies j c2)))"

lemma load_config_scheduler:
  "load_config f doc = Inr c \<Longrightarrow> cfg_scheduler_policy c = ''RR'' \<and> cfg_active_set_size c = 8"
  by (auto simp: load_config_def load_occupancy_limits_def load_cache_hierarchy_def load_latencies_def
      default_config_def split: option.splits)

text \<open>The document that sets nothing: every \<open>value\<close> call returns its default.\<close>

definition empty_document :: json_document where
  "empty_document = \<lparr>j_int = (\<lambda>_ d. Inr d), j_size = (\<lambda>_ d. Inr d), j_string = (\<lambda>_ d. Inr d)\<rparr>"

end
