(* ===== verification/Streaming_Multiprocessor.thy ===== *)
theory Streaming_Multiprocessor
  imports Executor_Props Schedulers Perf_Counters Config
begin

text \<open>
  \<^verbatim>\<open>src/architecture/sm.cpp\<close>: the state of a streaming multiprocessor, admission and release
  of blocks, and \<open>tick\<close>, one clock cycle: tick the stalled warps, select a warp, account the
  waiting, fetch, execute, and update the state of the warp, with the barrier protocol.
\<close>

record kernel_requirements =
  req_registers_per_thread :: size_t
  req_shared_memory_per_block :: size_t

record resident_block =
  rb_block_id :: size_t
  rb_num_threads :: size_t
  rb_num_warps :: size_t
  rb_allocated_registers :: size_t
  rb_allocated_shared_memory :: size_t

record sm =
  sm_id :: size_t
  sm_warps :: "warp list"
  sm_scheduler :: "scheduler option"
  sm_counters :: perf_counters
  sm_l1_cache :: cache
  sm_shared_memory :: shared_memory
  sm_allocated_blocks :: size_t
  sm_allocated_warps :: size_t
  sm_allocated_threads :: size_t
  sm_allocated_registers :: size_t
  sm_allocated_shared_memory :: size_t
  sm_resident_blocks :: "resident_block list"

definition make_sm :: "size_t \<Rightarrow> cache \<Rightarrow> shared_memory \<Rightarrow> sm" where
  "make_sm i l1 shm =
     \<lparr>sm_id = i, sm_warps = [], sm_scheduler = None, sm_counters = new_counters, sm_l1_cache = l1,
      sm_shared_memory = shm, sm_allocated_blocks = 0, sm_allocated_warps = 0, sm_allocated_threads = 0,
      sm_allocated_registers = 0, sm_allocated_shared_memory = 0, sm_resident_blocks = []\<rparr>"

text \<open>The two constructors; \<open>rng\<close> is the distribution of the Random cache policy.\<close>

definition new_sm :: "(nat \<Rightarrow> nat \<Rightarrow> nat) \<Rightarrow> size_t \<Rightarrow> system_config \<Rightarrow> sm result" where
  "new_sm rng i config =
     bindE (new_cache rng (cfg_l1_sets config) (cfg_l1_associativity config) (cfg_l1_line_size config)
              (cfg_l1_policy config)) (\<lambda>l1.
       Inr (make_sm i l1 (new_shared_memory (cfg_max_shared_memory_per_sm config) (cfg_shared_memory_banks config))))"

definition new_sm_sized ::
    "(nat \<Rightarrow> nat \<Rightarrow> nat) \<Rightarrow> size_t \<Rightarrow> size_t \<Rightarrow> size_t \<Rightarrow> size_t \<Rightarrow> string \<Rightarrow> sm result" where
  "new_sm_sized rng i l1_sets l1_assoc l1_line_size cache_policy =
     bindE (new_cache rng l1_sets l1_assoc l1_line_size cache_policy) (\<lambda>l1.
       Inr (make_sm i l1 (new_shared_memory 65536 32)))"

definition sm_add_warp :: "sm \<Rightarrow> warp \<Rightarrow> sm" where
  "sm_add_warp s w = s\<lparr>sm_warps := sm_warps s @ [w]\<rparr>"

definition set_scheduler :: "sm \<Rightarrow> scheduler \<Rightarrow> sm" where
  "set_scheduler s sch = s\<lparr>sm_scheduler := Some sch\<rparr>"

definition sm_set_trace_logger :: "sm \<Rightarrow> sm" where
  "sm_set_trace_logger s =
     s\<lparr>sm_counters := set_trace_logger (sm_counters s), sm_l1_cache := set_cache_callback (sm_l1_cache s)\<rparr>"

definition is_completed :: "sm \<Rightarrow> bool" where
  "is_completed s \<longleftrightarrow>
     (sm_warps s = [] \<and> sm_resident_blocks s = []) \<or> list_all (\<lambda>w. w_state w = Completed) (sm_warps s)"

definition clear_warps :: "sm \<Rightarrow> sm" where
  "clear_warps s =
     s\<lparr>sm_warps := [], sm_resident_blocks := [], sm_allocated_blocks := 0, sm_allocated_warps := 0,
       sm_allocated_threads := 0, sm_allocated_registers := 0, sm_allocated_shared_memory := 0\<rparr>"

section \<open>Admission and release of blocks\<close>

definition block_threads :: "thread_block \<Rightarrow> size_t" where
  "block_threads b = foldl (\<lambda>n w. n + length (w_threads w)) 0 (tb_warps b)"

definition can_admit :: "sm \<Rightarrow> thread_block \<Rightarrow> system_config \<Rightarrow> kernel_requirements \<Rightarrow> bool" where
  "can_admit s block config req =
     (if sm_allocated_blocks s + 1 > cfg_max_blocks_per_sm config then False
      else
        let block_warps = length (tb_warps block); threads = block_threads block;
            regs_needed = size_mul threads (req_registers_per_thread req); shmem_needed = req_shared_memory_per_block req
        in if sm_allocated_warps s + block_warps > cfg_max_warps_per_sm config then False
           else if sm_allocated_threads s + threads > cfg_max_threads_per_sm config then False
           else if sm_allocated_registers s + regs_needed > cfg_max_registers_per_sm config then False
           else if sm_allocated_shared_memory s + shmem_needed > cfg_max_shared_memory_per_sm config then False
           else True)"

definition admit_warp :: "sm \<Rightarrow> warp \<Rightarrow> sm" where
  "admit_warp s w = (let s1 = sm_add_warp s w
     in s1\<lparr>sm_counters := initialize_warp_issue_count (w_id w) (sm_counters s1)\<rparr>)"

definition allocate_block :: "sm \<Rightarrow> thread_block \<Rightarrow> kernel_requirements \<Rightarrow> sm" where
  "allocate_block s block req =
     (let block_warps = length (tb_warps block); threads = block_threads block;
          regs_needed = size_mul threads (req_registers_per_thread req); shmem_needed = req_shared_memory_per_block req;
          s1 = s\<lparr>sm_allocated_blocks := sm_allocated_blocks s + 1,
                 sm_allocated_warps := sm_allocated_warps s + block_warps,
                 sm_allocated_threads := sm_allocated_threads s + threads,
                 sm_allocated_registers := sm_allocated_registers s + regs_needed,
                 sm_allocated_shared_memory := sm_allocated_shared_memory s + shmem_needed,
                 sm_resident_blocks := sm_resident_blocks s @
                   [\<lparr>rb_block_id = tb_id block, rb_num_threads = threads, rb_num_warps = block_warps,
                     rb_allocated_registers = regs_needed, rb_allocated_shared_memory = shmem_needed\<rparr>]\<rparr>
      in foldl admit_warp s1 (tb_warps block))"

text \<open>\<open>!w.get_threads().empty() && w.get_threads()[0].get_block_id() == block_id\<close>\<close>

definition of_block :: "size_t \<Rightarrow> warp \<Rightarrow> bool" where
  "of_block block_id w \<longleftrightarrow> w_threads w \<noteq> [] \<and> t_block_id (hd (w_threads w)) = block_id"

definition block_finished :: "warp list \<Rightarrow> size_t \<Rightarrow> bool" where
  "block_finished warps block_id \<longleftrightarrow> list_all (\<lambda>w. of_block block_id w \<longrightarrow> w_state w = Completed) warps"

definition release_block :: "resident_block \<Rightarrow> sm \<Rightarrow> sm" where
  "release_block b s =
     s\<lparr>sm_allocated_blocks := size_sub (sm_allocated_blocks s) 1,
       sm_allocated_warps := size_sub (sm_allocated_warps s) (rb_num_warps b),
       sm_allocated_threads := size_sub (sm_allocated_threads s) (rb_num_threads b),
       sm_allocated_registers := size_sub (sm_allocated_registers s) (rb_allocated_registers b),
       sm_allocated_shared_memory := size_sub (sm_allocated_shared_memory s) (rb_allocated_shared_memory b),
       sm_warps := filter (\<lambda>w. \<not> of_block (rb_block_id b) w) (sm_warps s)\<rparr>"

text \<open>The loop over the resident blocks, erasing while iterating; it returns the blocks kept.\<close>

fun release_loop :: "resident_block list \<Rightarrow> sm \<Rightarrow> resident_block list \<times> sm" where
  "release_loop [] s = ([], s)"
| "release_loop (b # bs) s =
     (if block_finished (sm_warps s) (rb_block_id b) then release_loop bs (release_block b s)
      else let (kept, s') = release_loop bs s in (b # kept, s'))"

definition release_completed_blocks :: "sm \<Rightarrow> sm" where
  "release_completed_blocks s =
     (let (kept, s') = release_loop (sm_resident_blocks s) s in s'\<lparr>sm_resident_blocks := kept\<rparr>)"

section \<open>Barriers\<close>

definition handle_barrier_arrival :: "nat \<Rightarrow> sm \<Rightarrow> sm result" where
  "handle_barrier_arrival i s =
     (let warps = (sm_warps s)[i := set_stalled_at_barrier (sm_warps s ! i)];
          warp = warps ! i;
          block_id = (if w_threads warp = [] then 0 else t_block_id (hd (w_threads warp)));
          members = filter (of_block block_id) warps;
          total_warps = length members;
          completed_warps = length (filter (\<lambda>w. w_state w = Completed) members);
          stalled_warps = length (filter (\<lambda>w. w_state w = StalledAtBarrier) members)
      in if stalled_warps + completed_warps = total_warps
         then if completed_warps > 0
              then Inl (Runtime_error ''Malformed barrier: some warps in the block completed without reaching the barrier.'')
              else Inr (s\<lparr>sm_warps := map (\<lambda>w. if of_block block_id w \<and> w_state w = StalledAtBarrier
                                               then set_ready w (pf_cycles (sm_counters s)) else w) warps\<rparr>)
         else Inr (s\<lparr>sm_warps := warps\<rparr>))"

section \<open>One cycle\<close>

definition tick_stalled_warps :: "sm \<Rightarrow> sm" where
  "tick_stalled_warps s =
     (let warps = map (\<lambda>w. tick_stall w (pf_cycles (sm_counters s))) (sm_warps s);
          barrier_stalls = length (filter (\<lambda>w. w_state w = StalledAtBarrier) warps)
      in s\<lparr>sm_warps := warps,
           sm_counters := (if barrier_stalls > 0 then add_warp_barrier_stall_cycles barrier_stalls (sm_counters s)
                           else sm_counters s)\<rparr>)"

text \<open>Wait-cycle accounting, with the id of the selected warp, if any.\<close>

definition account_wait :: "size_t option \<Rightarrow> warp \<Rightarrow> perf_counters \<Rightarrow> warp \<times> perf_counters" where
  "account_wait selected w p =
     (if w_state w = Ready
      then if selected = Some (w_id w)
           then (reset_wait_cycles w, record_warp_wait (w_wait_cycles w) p)
           else let (starved, w') = check_and_set_starvation (increment_wait_cycles w)
                in (w', if starved then record_starvation_event p else p)
      else (w, p))"

fun account_waits :: "size_t option \<Rightarrow> warp list \<Rightarrow> perf_counters \<Rightarrow> warp list \<times> perf_counters" where
  "account_waits selected [] p = ([], p)"
| "account_waits selected (w # ws) p =
     (let (w', p1) = account_wait selected w p; (ws', p2) = account_waits selected ws p1 in (w' # ws', p2))"

definition count_result :: "size_t \<Rightarrow> warp \<Rightarrow> instruction \<Rightarrow> execution_result \<Rightarrow> perf_counters \<Rightarrow> perf_counters" where
  "count_result smid w inst r p =
     (let p1 = (if inst_opcode inst \<in> {LOAD, STORE, ATOMIC_ADD}
                then record_memory_event smid (pf_cycles p) (w_id w) inst (er_memory_transactions r) (er_memory_space r)
                       (add_memory_transactions (er_memory_transactions r) (increment_memory_instructions p))
                else p);
          p2 = (if er_bank_conflicts r > 0 then add_bank_conflict_stalls (er_bank_conflicts r) p1 else p1)
      in if er_dirty_evictions r > 0 then add_dirty_eviction_writebacks (er_dirty_evictions r) p2 else p2)"

text \<open>Step 5 of \<open>tick\<close>: the selected warp ran off the end of the kernel, or stalls for its latency.\<close>

definition update_warp_state :: "size_t \<Rightarrow> execution_result \<Rightarrow> warp \<Rightarrow> warp result" where
  "update_warp_state n r w =
     (if w_pc w \<ge> n
      then case pop_simt_stack w of
             Some (next_path, w1) \<Rightarrow>
               update_shadow_pcs (se_active_mask next_path) (se_target_pc next_path)
                 (set_reconvergence_pc (set_warp_pc (set_active_mask w1 (se_active_mask next_path))
                     (se_target_pc next_path)) (se_reconvergence_pc next_path))
           | None \<Rightarrow> Inr (if w_state w \<noteq> StalledAtBarrier then set_completed w else w)
      else Inr (if er_status r \<noteq> BarrierReached \<and> er_latency r > 1 then stall w (er_latency r - 1) else w))"

definition issue :: "kernel \<Rightarrow> nat \<Rightarrow> sm \<Rightarrow> memory_system \<Rightarrow> (sm \<times> memory_system) result" where
  "issue k i s m =
     (let w = sm_warps s ! i; pc = w_pc w; n = length (k_instructions k)
      in if pc \<ge> n then Inr (s\<lparr>sm_warps := (sm_warps s)[i := set_completed w]\<rparr>, m)
         else let inst = k_instructions k ! pc
              in bindE (execute inst w m) (\<lambda>(r, w1, m1).
                   let s1 = s\<lparr>sm_warps := (sm_warps s)[i := w1],
                              sm_counters := count_result (sm_id s) w1 inst r (sm_counters s)\<rparr>
                   in bindE (if er_status r = BarrierReached then handle_barrier_arrival i s1 else Inr s1) (\<lambda>s2.
                        bindE (update_warp_state n r (sm_warps s2 ! i)) (\<lambda>w2.
                          Inr (s2\<lparr>sm_warps := (sm_warps s2)[i := w2],
                                  sm_counters := increment_instructions_retired
                                    ((add_stall WriteConflict ^^ er_write_conflict_stalls r) (sm_counters s2))\<rparr>, m1)))))"

definition schedule :: "scheduler \<Rightarrow> sm \<Rightarrow> nat option \<times> sm" where
  "schedule sch s =
     (let (sel, sch') = select_warp sch (sm_warps s);
          sel_id = map_option (\<lambda>i. w_id (sm_warps s ! i)) sel;
          (warps, p1) = account_waits sel_id (sm_warps s) (sm_counters s);
          p2 = (case sel_id of Some wid \<Rightarrow> record_warp_issue wid p1 | None \<Rightarrow> p1);
          p3 = record_scheduler_event (sm_id s) (pf_cycles (sm_counters s)) (scheduler_name sch)
                 (case sel_id of Some wid \<Rightarrow> wid | None \<Rightarrow> size_max) warps p2
      in (sel, s\<lparr>sm_scheduler := Some sch', sm_warps := warps, sm_counters := p3\<rparr>))"

definition tick :: "kernel \<Rightarrow> sm \<Rightarrow> memory_system \<Rightarrow> (sm \<times> memory_system) result" where
  "tick k s m =
     (if is_completed s then Inr (s, m)
      else let s1 = tick_stalled_warps s;
               s2 = s1\<lparr>sm_counters := increment_cycles (sm_counters s1)\<rparr>
           in case sm_scheduler s2 of
                None \<Rightarrow> Inr (s2\<lparr>sm_counters := add_stall NoReadyWarp (sm_counters s2)\<rparr>, m)
              | Some sch \<Rightarrow>
                  (case schedule sch s2 of
                     (None, s3) \<Rightarrow>
                       Inr (if sm_warps s3 = [] then s3\<lparr>sm_counters := add_stall NoReadyWarp (sm_counters s3)\<rparr> else s3, m)
                   | (Some i, s3) \<Rightarrow> issue k i s3 m))"

end
