(* ===== verification/SM_Props.thy ===== *)
theory SM_Props
  imports Streaming_Multiprocessor
begin

text \<open>
  Laws of the streaming multiprocessor: the resource accounts against the resident blocks,
  the invariant \<open>tick\<close> keeps, which warp a cycle may touch, the barrier protocol and the
  states from which it never recovers.
\<close>

section \<open>Resource accounts\<close>

definition accounts_for :: "resident_block list \<Rightarrow> sm \<Rightarrow> bool" where
  "accounts_for bs s \<longleftrightarrow>
     sm_allocated_blocks s = length bs \<and>
     sm_allocated_warps s = sum_list (map rb_num_warps bs) \<and>
     sm_allocated_threads s = sum_list (map rb_num_threads bs) \<and>
     sm_allocated_registers s = sum_list (map rb_allocated_registers bs) \<and>
     sm_allocated_shared_memory s = sum_list (map rb_allocated_shared_memory bs)"

definition accounts_ok :: "sm \<Rightarrow> bool" where
  "accounts_ok s \<longleftrightarrow> accounts_for (sm_resident_blocks s) s"

definition within_limits :: "system_config \<Rightarrow> sm \<Rightarrow> bool" where
  "within_limits c s \<longleftrightarrow>
     sm_allocated_blocks s \<le> cfg_max_blocks_per_sm c \<and> sm_allocated_warps s \<le> cfg_max_warps_per_sm c \<and>
     sm_allocated_threads s \<le> cfg_max_threads_per_sm c \<and>
     sm_allocated_registers s \<le> cfg_max_registers_per_sm c \<and>
     sm_allocated_shared_memory s \<le> cfg_max_shared_memory_per_sm c"

text \<open>The fields admission and release work on, and nothing else does.\<close>

definition same_accounts :: "sm \<Rightarrow> sm \<Rightarrow> bool" where
  "same_accounts s s' \<longleftrightarrow>
     sm_allocated_blocks s' = sm_allocated_blocks s \<and> sm_allocated_warps s' = sm_allocated_warps s \<and>
     sm_allocated_threads s' = sm_allocated_threads s \<and> sm_allocated_registers s' = sm_allocated_registers s \<and>
     sm_allocated_shared_memory s' = sm_allocated_shared_memory s \<and>
     sm_resident_blocks s' = sm_resident_blocks s"

lemma same_accounts_refl [simp]: "same_accounts s s"
  by (simp add: same_accounts_def)

lemma same_accounts_trans: "same_accounts s1 s2 \<Longrightarrow> same_accounts s2 s3 \<Longrightarrow> same_accounts s1 s3"
  by (simp add: same_accounts_def)

lemma same_accounts_ok: "same_accounts s s' \<Longrightarrow> accounts_ok s \<Longrightarrow> accounts_ok s'"
  and same_accounts_limits: "same_accounts s s' \<Longrightarrow> within_limits c s \<Longrightarrow> within_limits c s'"
  by (simp_all add: same_accounts_def accounts_ok_def accounts_for_def within_limits_def)

lemma admit_warps:
  "same_accounts s (foldl admit_warp s ws) \<and> sm_warps (foldl admit_warp s ws) = sm_warps s @ ws \<and>
   sm_l1_cache (foldl admit_warp s ws) = sm_l1_cache s \<and> sm_id (foldl admit_warp s ws) = sm_id s \<and>
   sm_shared_memory (foldl admit_warp s ws) = sm_shared_memory s \<and>
   sm_scheduler (foldl admit_warp s ws) = sm_scheduler s"
proof (induction ws arbitrary: s)
  case (Cons w ws)
  show ?case
    using Cons.IH[of "admit_warp s w"]
    by (simp add: admit_warp_def sm_add_warp_def Let_def same_accounts_def)
qed simp

lemma allocate_block_fields:
  "sm_warps (allocate_block s b req) = sm_warps s @ tb_warps b"
  "sm_l1_cache (allocate_block s b req) = sm_l1_cache s" "sm_id (allocate_block s b req) = sm_id s"
  "sm_shared_memory (allocate_block s b req) = sm_shared_memory s"
  "sm_scheduler (allocate_block s b req) = sm_scheduler s"
  "sm_allocated_blocks (allocate_block s b req) = sm_allocated_blocks s + 1"
  "sm_allocated_warps (allocate_block s b req) = sm_allocated_warps s + length (tb_warps b)"
  "sm_allocated_threads (allocate_block s b req) = sm_allocated_threads s + block_threads b"
  "sm_allocated_registers (allocate_block s b req) =
     sm_allocated_registers s + size_mul (block_threads b) (req_registers_per_thread req)"
  "sm_allocated_shared_memory (allocate_block s b req) =
     sm_allocated_shared_memory s + req_shared_memory_per_block req"
  "sm_resident_blocks (allocate_block s b req) = sm_resident_blocks s @
     [\<lparr>rb_block_id = tb_id b, rb_num_threads = block_threads b, rb_num_warps = length (tb_warps b),
       rb_allocated_registers = size_mul (block_threads b) (req_registers_per_thread req),
       rb_allocated_shared_memory = req_shared_memory_per_block req\<rparr>]"
  by (simp_all add: allocate_block_def Let_def admit_warps
      admit_warps[THEN conjunct1, unfolded same_accounts_def])

lemma allocate_accounts: "accounts_ok s \<Longrightarrow> accounts_ok (allocate_block s b req)"
  by (simp add: accounts_ok_def accounts_for_def allocate_block_fields)

lemma allocate_limits: "can_admit s b c req \<Longrightarrow> within_limits c (allocate_block s b req)"
  by (auto simp: can_admit_def Let_def within_limits_def allocate_block_fields split: if_splits)

lemma release_block_accounts: "accounts_for (pre @ b # bs) s \<Longrightarrow> accounts_for (pre @ bs) (release_block b s)"
  by (simp add: accounts_for_def release_block_def)

lemma release_block_resident [simp]: "sm_resident_blocks (release_block b s) = sm_resident_blocks s"
  by (simp add: release_block_def)

lemma release_loop_accounts:
  "release_loop bs s = (kept, s') \<Longrightarrow> accounts_for (pre @ bs) s \<Longrightarrow> accounts_for (pre @ kept) s'"
proof (induction bs arbitrary: pre s kept)
  case (Cons b bs)
  show ?case
  proof (cases "block_finished (sm_warps s) (rb_block_id b)")
    case True
    then show ?thesis using Cons release_block_accounts[OF Cons.prems(2)] by simp
  next
    case False
    then obtain kept' where "release_loop bs s = (kept', s')" "kept = b # kept'"
      using Cons.prems(1) by (auto split: prod.splits)
    then show ?thesis using Cons.IH[of s kept' "pre @ [b]"] Cons.prems(2) by simp
  qed
qed simp

text \<open>What release does to the warps and the blocks kept.\<close>

lemma release_loop_warps:
  "release_loop bs s = (kept, s') \<Longrightarrow>
   set kept \<subseteq> set bs \<and> set (sm_warps s') \<subseteq> set (sm_warps s) \<and>
   (\<forall>w \<in> set (sm_warps s) - set (sm_warps s'). w_state w = Completed) \<and>
   sm_l1_cache s' = sm_l1_cache s \<and> sm_shared_memory s' = sm_shared_memory s \<and> sm_scheduler s' = sm_scheduler s \<and>
   sm_counters s' = sm_counters s \<and> sm_id s' = sm_id s"
proof (induction bs arbitrary: s kept)
  case (Cons b bs)
  show ?case
  proof (cases "block_finished (sm_warps s) (rb_block_id b)")
    case True
    then have "release_loop bs (release_block b s) = (kept, s')" using Cons.prems by simp
    note IH = Cons.IH[OF this]
    have del: "w_state w = Completed" if "w \<in> set (sm_warps s)" "w \<notin> set (sm_warps (release_block b s))" for w
      using True that by (auto simp: block_finished_def list_all_iff release_block_def)
    have keep: "set (sm_warps (release_block b s)) \<subseteq> set (sm_warps s)"
      "sm_l1_cache (release_block b s) = sm_l1_cache s" "sm_shared_memory (release_block b s) = sm_shared_memory s"
      "sm_scheduler (release_block b s) = sm_scheduler s" "sm_counters (release_block b s) = sm_counters s"
      "sm_id (release_block b s) = sm_id s"
      by (auto simp: release_block_def)
    have "w_state w = Completed" if "w \<in> set (sm_warps s) - set (sm_warps s')" for w
      using IH del that by (cases "w \<in> set (sm_warps (release_block b s))") blast+
    then show ?thesis using IH keep by auto
  next
    case False
    then obtain kept' where k: "release_loop bs s = (kept', s')" "kept = b # kept'"
      using Cons.prems by (auto split: prod.splits)
    show ?thesis using Cons.IH[OF k(1)] k(2) by auto
  qed
qed simp

lemma release_accounts: "accounts_ok s \<Longrightarrow> accounts_ok (release_completed_blocks s)"
proof -
  assume ok: "accounts_ok s"
  obtain kept s' where r: "release_loop (sm_resident_blocks s) s = (kept, s')" by fastforce
  have "accounts_for ([] @ kept) s'"
    using release_loop_accounts[OF r, of "[]"] ok by (simp add: accounts_ok_def)
  then show ?thesis by (simp add: release_completed_blocks_def r accounts_ok_def accounts_for_def)
qed

lemma release_fields:
  "set (sm_warps (release_completed_blocks s)) \<subseteq> set (sm_warps s)"
  "w \<in> set (sm_warps s) \<Longrightarrow> w \<notin> set (sm_warps (release_completed_blocks s)) \<Longrightarrow> w_state w = Completed"
  "set (sm_resident_blocks (release_completed_blocks s)) \<subseteq> set (sm_resident_blocks s)"
  "sm_l1_cache (release_completed_blocks s) = sm_l1_cache s"
  "sm_shared_memory (release_completed_blocks s) = sm_shared_memory s"
  "sm_scheduler (release_completed_blocks s) = sm_scheduler s"
proof -
  obtain kept s' where r: "release_loop (sm_resident_blocks s) s = (kept, s')" by fastforce
  then have e: "release_completed_blocks s = s'\<lparr>sm_resident_blocks := kept\<rparr>"
    by (simp add: release_completed_blocks_def)
  note w = release_loop_warps[OF r]
  show "set (sm_warps (release_completed_blocks s)) \<subseteq> set (sm_warps s)"
    "w \<in> set (sm_warps s) \<Longrightarrow> w \<notin> set (sm_warps (release_completed_blocks s)) \<Longrightarrow> w_state w = Completed"
    "set (sm_resident_blocks (release_completed_blocks s)) \<subseteq> set (sm_resident_blocks s)"
    "sm_l1_cache (release_completed_blocks s) = sm_l1_cache s"
    "sm_shared_memory (release_completed_blocks s) = sm_shared_memory s"
    "sm_scheduler (release_completed_blocks s) = sm_scheduler s"
    using w by (simp_all add: e)
qed

lemma release_all:
  assumes "list_all (\<lambda>w. w_state w = Completed) (sm_warps s)"
  shows "sm_resident_blocks (release_completed_blocks s) = []"
proof -
  have "fst (release_loop bs s) = []" if "list_all (\<lambda>w. w_state w = Completed) (sm_warps s)" for bs s
    using that
  proof (induction bs arbitrary: s)
    case (Cons b bs)
    have "block_finished (sm_warps s) (rb_block_id b)"
      using Cons.prems by (auto simp: block_finished_def list_all_iff)
    moreover have "list_all (\<lambda>w. w_state w = Completed) (sm_warps (release_block b s))"
      using Cons.prems by (auto simp: release_block_def list_all_iff)
    ultimately show ?case using Cons.IH by simp
  qed simp
  from this[OF assms, of "sm_resident_blocks s"] show ?thesis
    by (cases "release_loop (sm_resident_blocks s) s") (simp add: release_completed_blocks_def)
qed

section \<open>The barrier\<close>

definition members :: "size_t \<Rightarrow> warp list \<Rightarrow> warp list" where
  "members b warps = filter (of_block b) warps"

lemma length_filter_disjoint:
  "(\<And>x. x \<in> set xs \<Longrightarrow> \<not> (P x \<and> Q x)) \<Longrightarrow>
   length (filter P xs) + length (filter Q xs) = length xs \<longleftrightarrow> (\<forall>x \<in> set xs. P x \<or> Q x)"
proof (induction xs)
  case (Cons x xs)
  have le: "length (filter P xs) + length (filter Q xs) \<le> length xs"
  proof -
    have "length (filter P xs) + length (filter Q xs) = length (filter (\<lambda>x. P x \<or> Q x) xs)"
      using Cons.prems by (induction xs) auto
    then show ?thesis by (metis length_filter_le)
  qed
  show ?case using Cons le by (cases "P x"; cases "Q x") auto
qed simp

text \<open>The arriving warp waits until the last member of its block arrives, which releases them all.\<close>

definition arrived :: "nat \<Rightarrow> sm \<Rightarrow> warp list" where
  "arrived i s = (sm_warps s)[i := set_stalled_at_barrier (sm_warps s ! i)]"

lemma barrier_arrival:
  assumes i: "i < length (sm_warps s)" and blk: "of_block b (sm_warps s ! i)"
  shows "handle_barrier_arrival i s =
    (if \<exists>w \<in> set (members b (arrived i s)). w_state w \<noteq> StalledAtBarrier \<and> w_state w \<noteq> Completed
     then Inr (s\<lparr>sm_warps := arrived i s\<rparr>)
     else if \<exists>w \<in> set (members b (arrived i s)). w_state w = Completed
     then Inl (Runtime_error ''Malformed barrier: some warps in the block completed without reaching the barrier.'')
     else Inr (s\<lparr>sm_warps := map (\<lambda>w. if of_block b w then set_ready w (pf_cycles (sm_counters s)) else w)
                               (arrived i s)\<rparr>))"
proof -
  let ?ws = "arrived i s"
  have w: "w_threads (?ws ! i) = w_threads (sm_warps s ! i)"
    using i by (simp add: arrived_def set_stalled_at_barrier_def reset_wait_cycles_def)
  have b: "(if w_threads (?ws ! i) = [] then 0 else t_block_id (hd (w_threads (?ws ! i)))) = b"
    using blk w by (simp add: of_block_def)
  let ?st = "length (filter (\<lambda>w. w_state w = StalledAtBarrier) (members b ?ws))"
  let ?co = "length (filter (\<lambda>w. w_state w = Completed) (members b ?ws))"
  have e: "handle_barrier_arrival i s =
    (if ?st + ?co = length (members b ?ws)
     then if ?co > 0
          then Inl (Runtime_error ''Malformed barrier: some warps in the block completed without reaching the barrier.'')
          else Inr (s\<lparr>sm_warps := map (\<lambda>w. if of_block b w \<and> w_state w = StalledAtBarrier
                                   then set_ready w (pf_cycles (sm_counters s)) else w) ?ws\<rparr>)
     else Inr (s\<lparr>sm_warps := ?ws\<rparr>))"
    unfolding handle_barrier_arrival_def Let_def arrived_def[symmetric] b members_def[symmetric] ..
  have all: "?st + ?co = length (members b ?ws) \<longleftrightarrow>
      (\<forall>w \<in> set (members b ?ws). w_state w = StalledAtBarrier \<or> w_state w = Completed)"
    by (rule length_filter_disjoint) auto
  have co: "?co > 0 \<longleftrightarrow> (\<exists>w \<in> set (members b ?ws). w_state w = Completed)"
    by (auto simp: filter_empty_conv)
  have rel: "map (\<lambda>w. if of_block b w \<and> w_state w = StalledAtBarrier then set_ready w c else w) ?ws =
      map (\<lambda>w. if of_block b w then set_ready w c else w) ?ws"
    if "\<forall>w \<in> set (members b ?ws). w_state w = StalledAtBarrier" for c
    using that by (auto simp: members_def)
  show ?thesis
    unfolding e all co using rel by auto
qed

section \<open>What a cycle may touch\<close>

text \<open>The part of a warp only the executor writes.\<close>

definition same_core :: "warp \<Rightarrow> warp \<Rightarrow> bool" where
  "same_core w w' \<longleftrightarrow> w_threads w' = w_threads w \<and> w_pc w' = w_pc w \<and> w_active_mask w' = w_active_mask w \<and>
     w_reconvergence_pc w' = w_reconvergence_pc w \<and> w_stack w' = w_stack w \<and> w_id w' = w_id w"

lemma same_core_refl [simp]: "same_core w w"
  by (simp add: same_core_def)

lemma same_core_trans: "same_core w1 w2 \<Longrightarrow> same_core w2 w3 \<Longrightarrow> same_core w1 w3"
  by (simp add: same_core_def)

lemma transition_core: "warp_transition now w w' \<Longrightarrow> same_core w w'"
  using warp_transition_frame by (simp add: same_core_def)

lemma same_core_ops [simp]:
  "same_core w (tick_stall w c)" "same_core w (set_ready w c)" "same_core w (set_stalled_at_barrier w)"
  "same_core w (set_completed w)" "same_core w (stall w n)" "same_core w (reset_wait_cycles w)"
  by (simp_all add: same_core_def transition_defs)

definition warp_ok :: "warp \<Rightarrow> bool" where
  "warp_ok w \<longleftrightarrow> masks_inv w \<and> stall_inv w"

lemma same_core_masks: "same_core w w' \<Longrightarrow> masks_inv w \<Longrightarrow> masks_inv w'"
  by (simp add: same_core_def masks_inv_def)

lemma account_wait_warp:
  "same_core w (fst (account_wait sel w p)) \<and> w_state (fst (account_wait sel w p)) = w_state w \<and>
   w_stall_cycles (fst (account_wait sel w p)) = w_stall_cycles w \<and>
   w_ready_since (fst (account_wait sel w p)) = w_ready_since w"
  by (simp add: account_wait_def same_core_def transition_defs)

definition same_but_waits :: "warp \<Rightarrow> warp \<Rightarrow> bool" where
  "same_but_waits w w' \<longleftrightarrow> same_core w w' \<and> w_state w' = w_state w \<and> w_stall_cycles w' = w_stall_cycles w"

lemma account_waits_warps: "list_all2 same_but_waits ws (fst (account_waits sel ws p))"
proof (induction ws arbitrary: p)
  case (Cons w ws)
  obtain w' p1 where 1: "account_wait sel w p = (w', p1)" by fastforce
  obtain ws' p2 where 2: "account_waits sel ws p1 = (ws', p2)" by fastforce
  show ?case using account_wait_warp[of w sel p] Cons.IH[of p1] by (simp add: 1 2 same_but_waits_def)
qed simp

text \<open>The counters, as far as the theorems below look at them.\<close>

definition same_progress :: "perf_counters \<Rightarrow> perf_counters \<Rightarrow> bool" where
  "same_progress p p' \<longleftrightarrow> pf_cycles p' = pf_cycles p \<and>
     pf_instructions_retired p' = pf_instructions_retired p \<and> get_stalls NoReadyWarp p' = get_stalls NoReadyWarp p"

lemma same_progress_refl [simp]: "same_progress p p"
  by (simp add: same_progress_def)

lemma same_progress_trans: "same_progress p q \<Longrightarrow> same_progress q r \<Longrightarrow> same_progress p r"
  by (simp add: same_progress_def)

lemmas counter_defs = increment_memory_instructions_def add_memory_transactions_def
  add_warp_barrier_stall_cycles_def add_bank_conflict_stalls_def add_dirty_eviction_writebacks_def
  record_warp_wait_def record_starvation_event_def initialize_warp_issue_count_def record_warp_issue_def
  log_event_def record_scheduler_event_def record_memory_event_def

lemma same_progress_ops [simp]:
  "same_progress p (increment_memory_instructions p)" "same_progress p (add_memory_transactions n p)"
  "same_progress p (add_warp_barrier_stall_cycles n p)" "same_progress p (add_bank_conflict_stalls n p)"
  "same_progress p (add_dirty_eviction_writebacks n p)" "same_progress p (record_warp_wait n p)"
  "same_progress p (record_starvation_event p)" "same_progress p (initialize_warp_issue_count w p)"
  "same_progress p (record_warp_issue w p)"
  "same_progress p (record_scheduler_event a b c d e p)" "same_progress p (record_memory_event a b f g h c p)"
  by (simp_all add: same_progress_def counter_defs get_stalls_def)

lemma account_waits_progress: "same_progress p (snd (account_waits sel ws p))"
proof (induction ws arbitrary: p)
  case (Cons w ws)
  obtain w' p1 where 1: "account_wait sel w p = (w', p1)" by fastforce
  obtain ws' p2 where 2: "account_waits sel ws p1 = (ws', p2)" by fastforce
  have "same_progress p p1"
    using 1 by (auto simp: account_wait_def split: if_splits prod.splits)
  then show ?case using Cons.IH[of p1] by (simp add: 1 2 same_progress_trans)
qed simp

lemma count_result_progress: "same_progress p (count_result i w inst r p)"
proof -
  let ?m = "record_memory_event i (pf_cycles p) (w_id w) inst (er_memory_transactions r) (er_memory_space r)
                       (add_memory_transactions (er_memory_transactions r) (increment_memory_instructions p))"
  have 1: "same_progress p ?m"
    by (rule same_progress_trans[OF same_progress_trans]) (rule same_progress_ops)+
  let ?p1 = "if inst_opcode inst \<in> {LOAD, STORE, ATOMIC_ADD} then ?m else p"
  let ?p2 = "if er_bank_conflicts r > 0 then add_bank_conflict_stalls (er_bank_conflicts r) ?p1 else ?p1"
  have "same_progress p ?p1" using 1 by simp
  moreover have "same_progress ?p1 ?p2" by simp
  moreover have "same_progress ?p2 (count_result i w inst r p)"
    by (simp add: count_result_def Let_def)
  ultimately show ?thesis by (blast intro: same_progress_trans)
qed

lemma write_conflict_progress: "same_progress p ((add_stall WriteConflict ^^ n) p)"
  by (induction n) (simp_all add: same_progress_def add_stall_def get_stalls_def count_of_bump)

lemma schedule_effect:
  assumes "schedule sch s = (sel, s3)"
  shows "same_accounts s s3" and "sm_l1_cache s3 = sm_l1_cache s" and "sm_shared_memory s3 = sm_shared_memory s"
    and "sm_id s3 = sm_id s" and "list_all2 same_but_waits (sm_warps s) (sm_warps s3)"
    and "same_progress (sm_counters s) (sm_counters s3)"
    and "sel = fst (select_warp sch (sm_warps s))" and "sm_scheduler s3 = Some (snd (select_warp sch (sm_warps s)))"
    and "sel = Some i \<Longrightarrow> i < length (sm_warps s3) \<and> w_state (sm_warps s3 ! i) = Ready"
proof -
  obtain sel' sch' where 1: "select_warp sch (sm_warps s) = (sel', sch')" by fastforce
  let ?id = "map_option (\<lambda>i. w_id (sm_warps s ! i)) sel'"
  obtain ws p1 where 2: "account_waits ?id (sm_warps s) (sm_counters s) = (ws, p1)" by fastforce
  let ?p2 = "case ?id of Some wid \<Rightarrow> record_warp_issue wid p1 | None \<Rightarrow> p1"
  have s3: "sel = sel'" "s3 = s\<lparr>sm_scheduler := Some sch', sm_warps := ws,
      sm_counters := record_scheduler_event (sm_id s) (pf_cycles (sm_counters s)) (scheduler_name sch)
                 (case ?id of Some wid \<Rightarrow> wid | None \<Rightarrow> size_max) ws ?p2\<rparr>"
    using assms by (auto simp: schedule_def 1 2)
  show "same_accounts s s3" "sm_l1_cache s3 = sm_l1_cache s" "sm_shared_memory s3 = sm_shared_memory s" "sm_id s3 = sm_id s"
    "sel = fst (select_warp sch (sm_warps s))" "sm_scheduler s3 = Some (snd (select_warp sch (sm_warps s)))"
    by (simp_all add: s3 1 same_accounts_def)
  show l: "list_all2 same_but_waits (sm_warps s) (sm_warps s3)"
    using account_waits_warps[of "sm_warps s" ?id "sm_counters s"] by (simp add: s3 2)
  have "same_progress (sm_counters s) p1"
    using account_waits_progress[of "sm_counters s" ?id "sm_warps s"] by (simp add: 2)
  moreover have "same_progress p1 ?p2" by (simp split: option.split)
  moreover have "same_progress ?p2 (sm_counters s3)" by (simp add: s3)
  ultimately show "same_progress (sm_counters s) (sm_counters s3)" by (blast intro: same_progress_trans)
  assume "sel = Some i"
  then have "i < length (sm_warps s) \<and> is_ready (sm_warps s) i"
    using sched.select_ready[of sch "sm_warps s" i sch'] 1 s3(1) by simp
  then show "i < length (sm_warps s3) \<and> w_state (sm_warps s3 ! i) = Ready"
    using l by (auto simp: list_all2_conv_all_nth same_but_waits_def is_ready_def)
qed

text \<open>What happens to the warps that were not selected: at most a barrier releases them.\<close>

definition bystander :: "warp \<Rightarrow> warp \<Rightarrow> bool" where
  "bystander w w' \<longleftrightarrow> same_core w w' \<and> w_stall_cycles w' = w_stall_cycles w \<and>
     (w_state w' = w_state w \<or> w_state w = StalledAtBarrier \<and> w_state w' = Ready)"

lemma bystander_refl [simp]: "bystander w w"
  by (simp add: bystander_def)

lemma bystander_release: "w_state w = StalledAtBarrier \<Longrightarrow> bystander w (set_ready w c)"
  by (simp add: bystander_def) (simp add: set_ready_def)

lemma bystander_ok: "bystander w w' \<Longrightarrow> warp_ok w \<Longrightarrow> warp_ok w'"
  using same_core_masks by (auto simp: bystander_def warp_ok_def stall_inv_def)

lemma barrier_effect:
  assumes i: "i < length (sm_warps s)" and run: "handle_barrier_arrival i s = Inr s'"
  shows "s' = s\<lparr>sm_warps := sm_warps s'\<rparr>" and "length (sm_warps s') = length (sm_warps s)"
    and "\<And>j. j < length (sm_warps s) \<Longrightarrow> j \<noteq> i \<Longrightarrow> bystander (sm_warps s ! j) (sm_warps s' ! j)"
    and "same_core (sm_warps s ! i) (sm_warps s' ! i)" and "stall_inv (sm_warps s' ! i)"
proof -
  let ?ws = "arrived i s"
  obtain P where s': "s' = s\<lparr>sm_warps := map (\<lambda>w. if P w \<and> w_state w = StalledAtBarrier
      then set_ready w (pf_cycles (sm_counters s)) else w) ?ws\<rparr> \<or> s' = s\<lparr>sm_warps := ?ws\<rparr>"
    using run by (auto simp: handle_barrier_arrival_def Let_def arrived_def[symmetric] split: if_splits)
  then show "s' = s\<lparr>sm_warps := sm_warps s'\<rparr>" "length (sm_warps s') = length (sm_warps s)"
    by (auto simp: arrived_def)
  show "bystander (sm_warps s ! j) (sm_warps s' ! j)" if "j < length (sm_warps s)" "j \<noteq> i" for j
  proof -
    have "?ws ! j = sm_warps s ! j" "j < length ?ws" using that by (simp_all add: arrived_def)
    then have "sm_warps s' ! j = (if P (sm_warps s ! j) \<and> w_state (sm_warps s ! j) = StalledAtBarrier
        then set_ready (sm_warps s ! j) (pf_cycles (sm_counters s)) else sm_warps s ! j) \<or>
      sm_warps s' ! j = sm_warps s ! j" using s' by auto
    then show ?thesis using bystander_release[of "sm_warps s ! j"] bystander_refl by presburger
  qed
  have at: "?ws ! i = set_stalled_at_barrier (sm_warps s ! i)" "i < length ?ws" using i by (simp_all add: arrived_def)
  let ?v = "set_stalled_at_barrier (sm_warps s ! i)"
  have v: "sm_warps s' ! i = (if P ?v \<and> w_state ?v = StalledAtBarrier
        then set_ready ?v (pf_cycles (sm_counters s)) else ?v) \<or> sm_warps s' ! i = ?v"
    using s' at by auto
  have st: "w_state ?v = StalledAtBarrier" by (simp add: set_stalled_at_barrier_def reset_wait_cycles_def)
  then have rd: "w_state (set_ready ?v c) = Ready" for c by (simp add: set_ready_def)
  show "same_core (sm_warps s ! i) (sm_warps s' ! i)"
    using v same_core_trans[OF same_core_ops(3) same_core_ops(2)] same_core_ops(3) by metis
  show "stall_inv (sm_warps s' ! i)"
    using v st rd unfolding stall_inv_def by (metis warp_state.distinct(1,7))
qed

lemma update_warp_state_ok:
  assumes masks: "masks_inv w" and st: "stall_inv w" and run: "update_warp_state n r w = Inr w'"
  shows "warp_ok w'"
proof (cases "w_pc w \<ge> n \<and> w_stack w \<noteq> []")
  case True
  then obtain e es where e: "w_stack w = e # es" by (cases "w_stack w") auto
  let ?w2 = "set_reconvergence_pc (set_warp_pc (set_active_mask (w\<lparr>w_stack := es\<rparr>) (se_active_mask e))
      (se_target_pc e)) (se_reconvergence_pc e)"
  have len: "length (w_threads ?w2) \<le> 32" using masks by (simp add: warp_updates masks_inv_def)
  have "update_shadow_pcs (se_active_mask e) (se_target_pc e) ?w2 = Inr w'"
    using run True e by (simp add: update_warp_state_def pop_simt_stack_def)
  then obtain ts where ts: "each_active (se_active_mask e) (\<lambda>t. Inr (set_pc t (size_to_int (se_target_pc e)))) (w_threads ?w2) = Inr ts"
    and w': "w' = ?w2\<lparr>w_threads := ts\<rparr>"
    by (auto simp: update_shadow_pcs_def)
  have "length ts = length (w_threads w)" using ts[unfolded each_active_Inr[OF len]] by (simp add: warp_updates)
  then show ?thesis
    using masks st e unfolding w' by (simp add: warp_ok_def masks_inv_def stall_inv_def warp_updates)
next
  case False
  then have "w' = w \<or> w' = set_completed w \<or> w' = stall w (er_latency r - 1)"
    using run by (auto simp: update_warp_state_def pop_simt_stack_def split: if_splits)
  moreover have "masks_inv (set_completed w)" "masks_inv (stall w x)" for x
    using same_core_masks[OF _ masks] by simp_all
  moreover have "stall_inv (set_completed w)" "stall_inv (stall w x)" for x
    using st by (auto simp: stall_inv_def transition_defs)
  ultimately show ?thesis using masks st by (auto simp: warp_ok_def)
qed

lemma execute_warp_ok:
  assumes "warp_ok w" and "execute inst w m = Inr (r, w', m')"
  shows "warp_ok w'"
proof -
  have len: "length (w_threads w) \<le> 32" using assms(1) by (simp add: warp_ok_def masks_inv_def)
  show ?thesis
    using execute_masks_inv[OF _ assms(2)] execute_framed(1)[OF len assms(2)] assms(1)
    by (simp add: warp_ok_def stall_inv_def warp_framed_def)
qed

lemma issue_effect:
  assumes ok: "\<forall>w \<in> set (sm_warps s). warp_ok w" and i: "i < length (sm_warps s)" and minv: "ms_inv m"
    and run: "issue k i s m = Inr (s', m')"
  shows "same_accounts s s' \<and> sm_scheduler s' = sm_scheduler s \<and> sm_id s' = sm_id s \<and>
      sm_l1_cache s' = sm_l1_cache s \<and> sm_shared_memory s' = sm_shared_memory s"
    and "length (sm_warps s') = length (sm_warps s)"
    and "\<And>j. j < length (sm_warps s) \<Longrightarrow> j \<noteq> i \<Longrightarrow> bystander (sm_warps s ! j) (sm_warps s' ! j)"
    and "warp_ok (sm_warps s' ! i)" and "ms_inv m'"
    and "pf_cycles (sm_counters s') = pf_cycles (sm_counters s)"
    and "get_stalls NoReadyWarp (sm_counters s') = get_stalls NoReadyWarp (sm_counters s)"
    and "pf_instructions_retired (sm_counters s') = pf_instructions_retired (sm_counters s) +
      (if w_pc (sm_warps s ! i) < length (k_instructions k) then 1 else 0)"
proof -
  let ?w = "sm_warps s ! i" and ?n = "length (k_instructions k)"
  have wok: "warp_ok ?w" using ok i by simp
  then have len: "length (w_threads ?w) \<le> 32" by (simp add: warp_ok_def masks_inv_def)
  have "(same_accounts s s' \<and> sm_scheduler s' = sm_scheduler s \<and> sm_id s' = sm_id s \<and>
      sm_l1_cache s' = sm_l1_cache s \<and> sm_shared_memory s' = sm_shared_memory s) \<and>
    length (sm_warps s') = length (sm_warps s) \<and>
    (\<forall>j < length (sm_warps s). j \<noteq> i \<longrightarrow> bystander (sm_warps s ! j) (sm_warps s' ! j)) \<and>
    warp_ok (sm_warps s' ! i) \<and> ms_inv m' \<and>
    pf_cycles (sm_counters s') = pf_cycles (sm_counters s) \<and>
    get_stalls NoReadyWarp (sm_counters s') = get_stalls NoReadyWarp (sm_counters s) \<and>
    pf_instructions_retired (sm_counters s') = pf_instructions_retired (sm_counters s) +
      (if w_pc ?w < ?n then 1 else 0)"
  proof (cases "w_pc ?w \<ge> ?n")
    case True
    then have "s' = s\<lparr>sm_warps := (sm_warps s)[i := set_completed ?w]\<rparr>" "m' = m"
      using run by (simp_all add: issue_def)
    moreover have "warp_ok (set_completed ?w)"
      using wok same_core_masks[OF same_core_ops(4), of ?w]
      by (simp add: warp_ok_def stall_inv_def) (simp add: set_completed_def)
    ultimately show ?thesis using True minv i by (simp add: same_accounts_def)
  next
    case False
    let ?inst = "k_instructions k ! w_pc ?w"
    obtain r w1 where ex: "execute ?inst ?w m = Inr (r, w1, m')"
      and rest: "bindE (if er_status r = BarrierReached
            then handle_barrier_arrival i (s\<lparr>sm_warps := (sm_warps s)[i := w1],
              sm_counters := count_result (sm_id s) w1 ?inst r (sm_counters s)\<rparr>)
            else Inr (s\<lparr>sm_warps := (sm_warps s)[i := w1],
              sm_counters := count_result (sm_id s) w1 ?inst r (sm_counters s)\<rparr>)) (\<lambda>s2.
        bindE (update_warp_state ?n r (sm_warps s2 ! i)) (\<lambda>w2.
          Inr (s2\<lparr>sm_warps := (sm_warps s2)[i := w2],
            sm_counters := increment_instructions_retired
              ((add_stall WriteConflict ^^ er_write_conflict_stalls r) (sm_counters s2))\<rparr>, m'))) = Inr (s', m')"
      using run False by (auto simp: issue_def Let_def)
    let ?s1 = "s\<lparr>sm_warps := (sm_warps s)[i := w1], sm_counters := count_result (sm_id s) w1 ?inst r (sm_counters s)\<rparr>"
    obtain s2 w2 where s2: "(if er_status r = BarrierReached then handle_barrier_arrival i ?s1 else Inr ?s1) = Inr s2"
      and w2: "update_warp_state ?n r (sm_warps s2 ! i) = Inr w2"
      and s': "s' = s2\<lparr>sm_warps := (sm_warps s2)[i := w2], sm_counters := increment_instructions_retired
              ((add_stall WriteConflict ^^ er_write_conflict_stalls r) (sm_counters s2))\<rparr>"
      using rest by auto
    have w1ok: "warp_ok w1" using execute_warp_ok[OF wok ex] .
    have i1: "i < length (sm_warps ?s1)" using i by simp
    have at: "sm_warps ?s1 ! i = w1" using i by simp
    have mid: "\<exists>ws. s2 = ?s1\<lparr>sm_warps := ws\<rparr> \<and> length ws = length (sm_warps s) \<and>
        (\<forall>j < length (sm_warps s). j \<noteq> i \<longrightarrow> bystander (sm_warps s ! j) (ws ! j)) \<and>
        masks_inv (ws ! i) \<and> stall_inv (ws ! i)"
    proof (cases "er_status r = BarrierReached")
      case True
      then have hb: "handle_barrier_arrival i ?s1 = Inr s2" using s2 by simp
      note be = barrier_effect[OF i1 hb]
      have "masks_inv (sm_warps s2 ! i)"
        using same_core_masks[OF be(4)] w1ok unfolding at by (simp add: warp_ok_def)
      moreover have "bystander (sm_warps s ! j) (sm_warps s2 ! j)" if "j < length (sm_warps s)" "j \<noteq> i" for j
        using be(3)[of j] that by simp
      moreover have "length (sm_warps s2) = length (sm_warps s)" using be(2) by simp
      ultimately show ?thesis using be(1,5) by blast
    next
      case False
      then have "s2 = ?s1" using s2 by simp
      then have "s2 = ?s1\<lparr>sm_warps := (sm_warps s)[i := w1]\<rparr>" by simp
      then show ?thesis using w1ok i by (intro exI[of _ "(sm_warps s)[i := w1]"]) (simp add: warp_ok_def)
    qed
    then obtain ws where ws: "s2 = ?s1\<lparr>sm_warps := ws\<rparr>" "length ws = length (sm_warps s)"
      "\<And>j. j < length (sm_warps s) \<Longrightarrow> j \<noteq> i \<Longrightarrow> bystander (sm_warps s ! j) (ws ! j)"
      "masks_inv (ws ! i)" "stall_inv (ws ! i)" by blast
    have w2ok: "warp_ok w2" using update_warp_state_ok[OF ws(4,5)] w2 by (simp add: ws(1))
    have cnt: "same_progress (sm_counters s) ((add_stall WriteConflict ^^ er_write_conflict_stalls r) (sm_counters s2))"
      using same_progress_trans[OF count_result_progress write_conflict_progress] by (simp add: ws(1))
    have "ms_inv m'" using execute_ms_inv[OF len minv ex] .
    then show ?thesis
      using ws(2,3) w2ok cnt i False unfolding s' ws(1)
      by (simp add: same_accounts_def same_progress_def increment_instructions_retired_def get_stalls_def)
  qed
  then show "same_accounts s s' \<and> sm_scheduler s' = sm_scheduler s \<and> sm_id s' = sm_id s \<and>
      sm_l1_cache s' = sm_l1_cache s \<and> sm_shared_memory s' = sm_shared_memory s"
    and "length (sm_warps s') = length (sm_warps s)"
    and "\<And>j. j < length (sm_warps s) \<Longrightarrow> j \<noteq> i \<Longrightarrow> bystander (sm_warps s ! j) (sm_warps s' ! j)"
    and "warp_ok (sm_warps s' ! i)" and "ms_inv m'"
    and "pf_cycles (sm_counters s') = pf_cycles (sm_counters s)"
    and "get_stalls NoReadyWarp (sm_counters s') = get_stalls NoReadyWarp (sm_counters s)"
    and "pf_instructions_retired (sm_counters s') = pf_instructions_retired (sm_counters s) +
      (if w_pc ?w < ?n then 1 else 0)"
    by blast+
qed

section \<open>The cycle as a whole\<close>

definition sm_ok :: "sm \<Rightarrow> bool" where
  "sm_ok s \<longleftrightarrow> (\<forall>w \<in> set (sm_warps s). warp_ok w)"

definition prepared :: "sm \<Rightarrow> sm" where
  "prepared s = (tick_stalled_warps s)\<lparr>sm_counters := increment_cycles (sm_counters (tick_stalled_warps s))\<rparr>"

lemma tick_stall_ok: "warp_ok w \<Longrightarrow> warp_ok (tick_stall w c)"
  using same_core_masks[OF same_core_ops(1)] by (auto simp: warp_ok_def stall_inv_def tick_stall_def Let_def)

lemma prepared_effect:
  "same_accounts s (prepared s)" "sm_scheduler (prepared s) = sm_scheduler s" "sm_id (prepared s) = sm_id s"
  "sm_l1_cache (prepared s) = sm_l1_cache s" "sm_shared_memory (prepared s) = sm_shared_memory s"
  "sm_warps (prepared s) = map (\<lambda>w. tick_stall w (pf_cycles (sm_counters s))) (sm_warps s)"
  "pf_cycles (sm_counters (prepared s)) = pf_cycles (sm_counters s) + 1"
  "pf_instructions_retired (sm_counters (prepared s)) = pf_instructions_retired (sm_counters s)"
  "get_stalls NoReadyWarp (sm_counters (prepared s)) = get_stalls NoReadyWarp (sm_counters s)"
  by (simp_all add: prepared_def tick_stalled_warps_def Let_def same_accounts_def increment_cycles_def
      add_warp_barrier_stall_cycles_def get_stalls_def)

lemma prepared_ok: "sm_ok s \<Longrightarrow> sm_ok (prepared s)"
  by (auto simp: sm_ok_def prepared_effect tick_stall_ok)

lemma tick_unfold:
  "tick k s m =
     (if is_completed s then Inr (s, m)
      else case sm_scheduler s of
             None \<Rightarrow> Inr ((prepared s)\<lparr>sm_counters := add_stall NoReadyWarp (sm_counters (prepared s))\<rparr>, m)
           | Some sch \<Rightarrow>
               (case schedule sch (prepared s) of
                  (None, s3) \<Rightarrow>
                    Inr (if sm_warps s3 = [] then s3\<lparr>sm_counters := add_stall NoReadyWarp (sm_counters s3)\<rparr> else s3, m)
                | (Some i, s3) \<Rightarrow> issue k i s3 m))"
proof -
  have "sm_scheduler (prepared s) = sm_scheduler s" by (rule prepared_effect)
  then show ?thesis unfolding tick_def Let_def prepared_def[symmetric] by simp
qed

lemma schedule_ok: "sm_ok s \<Longrightarrow> schedule sch s = (sel, s3) \<Longrightarrow> sm_ok s3"
  unfolding sm_ok_def
proof
  fix w assume ok: "\<forall>w \<in> set (sm_warps s). warp_ok w" and run: "schedule sch s = (sel, s3)" and "w \<in> set (sm_warps s3)"
  then obtain j where j: "j < length (sm_warps s3)" "w = sm_warps s3 ! j" by (auto simp: in_set_conv_nth)
  have l: "list_all2 same_but_waits (sm_warps s) (sm_warps s3)" using schedule_effect(5)[OF run] .
  then have b: "same_but_waits (sm_warps s ! j) w" "warp_ok (sm_warps s ! j)"
    using j ok by (auto simp: list_all2_conv_all_nth)
  then show "warp_ok w"
    using same_core_masks[of "sm_warps s ! j" w] by (simp add: same_but_waits_def warp_ok_def stall_inv_def)
qed

lemma not_completed_warps: "\<not> is_completed s \<Longrightarrow> sm_warps s \<noteq> []"
  by (auto simp: is_completed_def)

lemma tick_effect:
  assumes nc: "\<not> is_completed s" and ok: "sm_ok s" and minv: "ms_inv m" and run: "tick k s m = Inr (s', m')"
  shows "sm_ok s'" and "ms_inv m'" and "same_accounts s s'" and "sm_l1_cache s' = sm_l1_cache s"
    and "sm_shared_memory s' = sm_shared_memory s" and "sm_id s' = sm_id s"
    and "length (sm_warps s') = length (sm_warps s)"
    and "pf_cycles (sm_counters s') = pf_cycles (sm_counters s) + 1"
    and "pf_instructions_retired (sm_counters s) \<le> pf_instructions_retired (sm_counters s')"
    and "pf_instructions_retired (sm_counters s') \<le> pf_instructions_retired (sm_counters s) + 1"
    and "sm_scheduler s \<noteq> None \<Longrightarrow> get_stalls NoReadyWarp (sm_counters s') = get_stalls NoReadyWarp (sm_counters s)"
    and "\<exists>sel. (\<forall>j < length (sm_warps s). sel \<noteq> Some j \<longrightarrow> same_core (sm_warps s ! j) (sm_warps s' ! j)) \<and>
      (\<forall>i. sel = Some i \<longrightarrow> i < length (sm_warps s) \<and>
         w_state (tick_stall (sm_warps s ! i) (pf_cycles (sm_counters s))) = Ready)"
proof -
  let ?p = "prepared s"
  have lenp: "length (sm_warps ?p) = length (sm_warps s)" by (simp add: prepared_effect)
  have corep: "same_core (sm_warps s ! j) (sm_warps ?p ! j)" if "j < length (sm_warps s)" for j
    using that by (simp add: prepared_effect)
  have main: "sm_ok s' \<and> ms_inv m' \<and> same_accounts ?p s' \<and> sm_l1_cache s' = sm_l1_cache ?p \<and>
     sm_shared_memory s' = sm_shared_memory ?p \<and> sm_id s' = sm_id ?p \<and>
     length (sm_warps s') = length (sm_warps ?p) \<and>
     pf_cycles (sm_counters s') = pf_cycles (sm_counters ?p) \<and>
     pf_instructions_retired (sm_counters ?p) \<le> pf_instructions_retired (sm_counters s') \<and>
     pf_instructions_retired (sm_counters s') \<le> pf_instructions_retired (sm_counters ?p) + 1 \<and>
     (sm_scheduler s \<noteq> None \<longrightarrow> get_stalls NoReadyWarp (sm_counters s') = get_stalls NoReadyWarp (sm_counters ?p)) \<and>
     (\<exists>sel. (\<forall>j < length (sm_warps s). sel \<noteq> Some j \<longrightarrow> same_core (sm_warps ?p ! j) (sm_warps s' ! j)) \<and>
      (\<forall>i. sel = Some i \<longrightarrow> i < length (sm_warps s) \<and> w_state (sm_warps ?p ! i) = Ready))"
  proof (cases "sm_scheduler s")
    case None
    then have e: "s' = ?p\<lparr>sm_counters := add_stall NoReadyWarp (sm_counters ?p)\<rparr>" "m' = m"
      using run nc by (simp_all add: tick_unfold)
    have "sm_ok s'" using prepared_ok[OF ok] by (simp add: e sm_ok_def)
    then show ?thesis using None minv
      by (auto simp: e same_accounts_def add_stall_def intro: exI[of _ None])
  next
    case (Some sch)
    obtain sel s3 where sc: "schedule sch ?p = (sel, s3)" by fastforce
    note se = schedule_effect[OF sc]
    have ok3: "sm_ok s3" using schedule_ok[OF prepared_ok[OF ok] sc] .
    have l3: "length (sm_warps s3) = length (sm_warps ?p)" using se(5) by (simp add: list_all2_lengthD)
    have core3: "same_core (sm_warps ?p ! j) (sm_warps s3 ! j) \<and> w_state (sm_warps s3 ! j) = w_state (sm_warps ?p ! j)"
      if "j < length (sm_warps s)" for j
      using se(5) that lenp by (auto simp: list_all2_conv_all_nth same_but_waits_def)
    show ?thesis
    proof (cases sel)
      case None
      have "sm_warps s3 \<noteq> []" using not_completed_warps[OF nc] l3 lenp by auto
      then have e: "s' = s3" "m' = m" using run nc Some sc None by (simp_all add: tick_unfold)
      have "\<forall>j < length (sm_warps s). None \<noteq> Some j \<longrightarrow> same_core (sm_warps ?p ! j) (sm_warps s3 ! j)"
        using core3 by blast
      then show ?thesis unfolding e using se(1-4) l3 ok3 minv se(6) by (auto simp: same_progress_def)
    next
      case (Some i)
      then have i: "i < length (sm_warps s3)" "w_state (sm_warps s3 ! i) = Ready" using se(9) by blast+
      have iss: "issue k i s3 m = Inr (s', m')"
        using run nc \<open>sm_scheduler s = Some sch\<close> sc Some by (simp add: tick_unfold)
      note ie = issue_effect[OF ok3[unfolded sm_ok_def] i(1) minv iss]
      have "sm_ok s'"
        unfolding sm_ok_def
      proof
        fix w assume "w \<in> set (sm_warps s')"
        then obtain j where j: "j < length (sm_warps s')" "w = sm_warps s' ! j" by (auto simp: in_set_conv_nth)
        show "warp_ok w"
        proof (cases "j = i")
          case False
          then have "bystander (sm_warps s3 ! j) w" using ie(2) ie(3)[of j] j by simp
          moreover have "warp_ok (sm_warps s3 ! j)" using ok3 j ie(2) by (simp add: sm_ok_def)
          ultimately show ?thesis by (rule bystander_ok)
        qed (use ie(4) j in simp)
      qed
      moreover have "same_core (sm_warps ?p ! j) (sm_warps s' ! j)" if "j < length (sm_warps s)" "Some i \<noteq> Some j" for j
        using core3[OF that(1)] ie(3)[of j] that l3 lenp same_core_trans by (auto simp: bystander_def)
      moreover have "i < length (sm_warps s) \<and> w_state (sm_warps ?p ! i) = Ready"
        using i core3[of i] l3 lenp by simp
      ultimately show ?thesis
        using ie(1,2,5-8) se(1-4,6) l3 same_accounts_trans[OF se(1)]
        by (auto simp: same_progress_def intro!: exI[of _ "Some i"])
    qed
  qed
  show "sm_ok s'" "ms_inv m'" "same_accounts s s'" "sm_l1_cache s' = sm_l1_cache s"
    "sm_shared_memory s' = sm_shared_memory s" "sm_id s' = sm_id s" "length (sm_warps s') = length (sm_warps s)"
    "pf_cycles (sm_counters s') = pf_cycles (sm_counters s) + 1"
    "pf_instructions_retired (sm_counters s) \<le> pf_instructions_retired (sm_counters s')"
    "pf_instructions_retired (sm_counters s') \<le> pf_instructions_retired (sm_counters s) + 1"
    "sm_scheduler s \<noteq> None \<Longrightarrow> get_stalls NoReadyWarp (sm_counters s') = get_stalls NoReadyWarp (sm_counters s)"
    using main same_accounts_trans[OF prepared_effect(1)] by (simp_all add: prepared_effect)
  obtain sel where sel: "\<forall>j < length (sm_warps s). sel \<noteq> Some j \<longrightarrow> same_core (sm_warps ?p ! j) (sm_warps s' ! j)"
    "\<forall>i. sel = Some i \<longrightarrow> i < length (sm_warps s) \<and> w_state (sm_warps ?p ! i) = Ready" using main by blast
  show "\<exists>sel. (\<forall>j < length (sm_warps s). sel \<noteq> Some j \<longrightarrow> same_core (sm_warps s ! j) (sm_warps s' ! j)) \<and>
      (\<forall>i. sel = Some i \<longrightarrow> i < length (sm_warps s) \<and>
         w_state (tick_stall (sm_warps s ! i) (pf_cycles (sm_counters s))) = Ready)"
  proof (intro exI[of _ sel] conjI allI impI)
    fix j assume "j < length (sm_warps s)" "sel \<noteq> Some j"
    then show "same_core (sm_warps s ! j) (sm_warps s' ! j)" using sel(1) corep same_core_trans by blast
  next
    fix i assume i: "sel = Some i"
    then show "i < length (sm_warps s)" using sel(2) by blast
    then show "w_state (tick_stall (sm_warps s ! i) (pf_cycles (sm_counters s))) = Ready"
      using sel(2) i unfolding prepared_effect(6) by auto
  qed
qed

text \<open>A state every later cycle repeats: only completed warps and warps waiting at a barrier.\<close>

definition stuck :: "sm \<Rightarrow> bool" where
  "stuck s \<longleftrightarrow> \<not> is_completed s \<and>
     (\<forall>w \<in> set (sm_warps s). w_state w = Completed \<or> w_state w = StalledAtBarrier)"

lemma tick_stuck:
  assumes "stuck s"
  shows "\<exists>s'. tick k s m = Inr (s', m) \<and> stuck s' \<and> sm_scheduler s' \<noteq> None = (sm_scheduler s \<noteq> None) \<and>
    same_accounts s s' \<and> map w_state (sm_warps s') = map w_state (sm_warps s) \<and>
    sm_l1_cache s' = sm_l1_cache s \<and> sm_shared_memory s' = sm_shared_memory s"
proof -
  let ?p = "prepared s"
  have nc: "\<not> is_completed s" and st: "\<forall>w \<in> set (sm_warps s). w_state w = Completed \<or> w_state w = StalledAtBarrier"
    using assms by (auto simp: stuck_def)
  have wp: "sm_warps ?p = sm_warps s"
    unfolding prepared_effect by (rule map_idI) (use st in \<open>auto simp: tick_stall_def\<close>)
  have again: "stuck s'" if "map w_state (sm_warps s') = map w_state (sm_warps s)" for s'
  proof -
    have ws: "w_state ` set (sm_warps s') = w_state ` set (sm_warps s)"
      using that by (metis list.set_map)
    have "\<exists>w \<in> set (sm_warps s'). w_state w \<noteq> Completed"
    proof -
      obtain w where "w \<in> set (sm_warps s)" "w_state w \<noteq> Completed" using nc by (auto simp: is_completed_def list_all_iff)
      then have "w_state w \<in> w_state ` set (sm_warps s')" using ws by blast
      then show ?thesis using \<open>w_state w \<noteq> Completed\<close> by auto
    qed
    moreover have "w_state w = Completed \<or> w_state w = StalledAtBarrier" if "w \<in> set (sm_warps s')" for w
    proof -
      have "w_state w \<in> w_state ` set (sm_warps s)" using that ws by blast
      then show ?thesis using st by auto
    qed
    ultimately show ?thesis by (auto simp: stuck_def is_completed_def list_all_iff)
  qed
  show ?thesis
  proof (cases "sm_scheduler s")
    case None
    let ?s = "?p\<lparr>sm_counters := add_stall NoReadyWarp (sm_counters ?p)\<rparr>"
    have "tick k s m = Inr (?s, m)" using None nc by (simp add: tick_unfold)
    moreover have "stuck ?s" by (rule again) (simp add: wp)
    moreover have "same_accounts s ?s" using prepared_effect(1)[of s] by (simp add: same_accounts_def)
    ultimately show ?thesis using None prepared_effect(2,4,5)[of s]
      by (intro exI[of _ ?s]) (simp add: wp)
  next
    case (Some sch)
    obtain sel s3 where sc: "schedule sch ?p = (sel, s3)" by fastforce
    note se = schedule_effect[OF sc]
    have "\<not> some_ready (sm_warps s)" using st by (auto simp: some_ready_def)
    then have "sel = None" using se(7) sched.select_None[of "sm_warps s" sch] wp by simp
    moreover have ms: "map w_state (sm_warps s3) = map w_state (sm_warps s)"
      using se(5) wp by (auto simp: list_all2_conv_all_nth same_but_waits_def intro!: nth_equalityI)
    moreover have "sm_warps s3 \<noteq> []" using ms not_completed_warps[OF nc] by auto
    ultimately have "tick k s m = Inr (s3, m)" using Some nc sc by (simp add: tick_unfold)
    then show ?thesis using again[OF ms] ms se(1-3,8) Some prepared_effect(1,4,5)[of s] same_accounts_trans
      by (intro exI[of _ s3]) auto
  qed
qed

lemma stuck_forever:
  assumes "stuck s"
  shows "\<exists>s'. ((\<lambda>r. bindE r (\<lambda>(s, m). tick k s m)) ^^ n) (Inr (s, m)) = Inr (s', m) \<and> stuck s'"
proof (induction n)
  case 0
  then show ?case using assms by simp
next
  case (Suc n)
  then obtain s1 where s1: "((\<lambda>r. bindE r (\<lambda>(s, m). tick k s m)) ^^ n) (Inr (s, m)) = Inr (s1, m)" "stuck s1" by blast
  from tick_stuck[OF s1(2), of k m] obtain s2 where "tick k s1 m = Inr (s2, m)" "stuck s2" by blast
  with s1 show ?case by simp
qed

end
