(* ===== verification/GPU.thy ===== *)
theory GPU
  imports SM_Props
begin

text \<open>
  \<^verbatim>\<open>src/architecture/gpu.cpp\<close>: construction, launching a grid, the block dispatcher and the
  cycle loop. One iteration of the loop is \<open>gpu_cycle\<close>; \<open>run_to_completion\<close> iterates it and
  is partial, because a kernel may loop or deadlock.
\<close>

record gpu =
  gpu_sms :: "sm list"
  gpu_l2_cache :: cache
  gpu_global_memory :: global_memory
  gpu_pending_blocks :: "thread_block list"
  gpu_current_block_idx :: size_t
  gpu_config :: system_config
  gpu_req :: kernel_requirements

definition zero_requirements :: kernel_requirements where
  "zero_requirements = \<lparr>req_registers_per_thread = 0, req_shared_memory_per_block = 0\<rparr>"

section \<open>Construction\<close>

definition new_gpu :: "(nat \<Rightarrow> nat \<Rightarrow> nat) \<Rightarrow> system_config \<Rightarrow> gpu result" where
  "new_gpu rng config =
     bindE (new_cache rng (cfg_l2_sets config) (cfg_l2_associativity config) (cfg_l2_line_size config)
              (cfg_l2_policy config)) (\<lambda>l2.
     bindE (mapE (\<lambda>i. bindE (new_sm rng i config) (\<lambda>s.
                      bindE (create_scheduler (cfg_scheduler_policy config) (cfg_active_set_size config)) (\<lambda>sch.
                        Inr (set_scheduler s sch)))) [0..<cfg_num_sms config]) (\<lambda>sms.
       Inr \<lparr>gpu_sms = sms, gpu_l2_cache = l2, gpu_global_memory = new_global_memory (cfg_global_memory_size config),
            gpu_pending_blocks = [], gpu_current_block_idx = 0, gpu_config = config, gpu_req = zero_requirements\<rparr>))"

definition new_gpu_sized ::
    "(nat \<Rightarrow> nat \<Rightarrow> nat) \<Rightarrow> size_t \<Rightarrow> size_t \<Rightarrow> size_t \<Rightarrow> size_t \<Rightarrow> size_t \<Rightarrow> size_t \<Rightarrow> size_t \<Rightarrow> string \<Rightarrow> gpu result" where
  "new_gpu_sized rng num_sms l1_sets l1_assoc l2_sets l2_assoc l2_line_size global_mem_size cache_policy =
     bindE (new_cache rng l2_sets l2_assoc l2_line_size cache_policy) (\<lambda>l2.
     bindE (mapE (\<lambda>i. new_sm_sized rng i l1_sets l1_assoc 32 cache_policy) [0..<num_sms]) (\<lambda>sms.
       Inr \<lparr>gpu_sms = sms, gpu_l2_cache = l2, gpu_global_memory = new_global_memory global_mem_size,
            gpu_pending_blocks = [], gpu_current_block_idx = 0, gpu_config = default_config,
            gpu_req = zero_requirements\<rparr>))"

definition gpu_set_trace_logger :: "gpu \<Rightarrow> gpu" where
  "gpu_set_trace_logger g =
     g\<lparr>gpu_sms := map sm_set_trace_logger (gpu_sms g), gpu_l2_cache := set_cache_callback (gpu_l2_cache g)\<rparr>"

section \<open>Dispatch\<close>

definition impossible_block :: sim_error where
  "impossible_block = Runtime_error ''Architecturally impossible block: exceeds empty SM limits.''"

text \<open>The \<open>while\<close> loop that fills one SM, from block \<open>idx\<close> of the pending blocks on.\<close>

function dispatch ::
    "system_config \<Rightarrow> kernel_requirements \<Rightarrow> thread_block list \<Rightarrow> size_t \<Rightarrow> sm \<Rightarrow> (size_t \<times> sm) result" where
  "dispatch config req pending idx s =
     (if idx < length pending
      then if can_admit s (pending ! idx) config req
           then dispatch config req pending (idx + 1) (allocate_block s (pending ! idx) req)
           else if sm_allocated_blocks s = 0 then Inl impossible_block else Inr (idx, s)
      else Inr (idx, s))"
  by pat_completeness auto

termination
  by (relation "measure (\<lambda>(config, req, pending, idx, s). length pending - idx)") auto

declare dispatch.simps [simp del]

text \<open>One pass over the SMs: \<open>prep\<close> is what happens to an SM before it is filled.\<close>

fun dispatch_all ::
    "(sm \<Rightarrow> sm) \<Rightarrow> system_config \<Rightarrow> kernel_requirements \<Rightarrow> thread_block list \<Rightarrow> size_t \<Rightarrow> sm list
      \<Rightarrow> (size_t \<times> sm list) result" where
  "dispatch_all prep config req pending idx [] = Inr (idx, [])"
| "dispatch_all prep config req pending idx (s # ss) =
     bindE (dispatch config req pending idx (prep s)) (\<lambda>(idx', s').
     bindE (dispatch_all prep config req pending idx' ss) (\<lambda>(idx'', ss'). Inr (idx'', s' # ss')))"

definition launch_kernel :: "gpu \<Rightarrow> grid \<Rightarrow> system_config \<Rightarrow> kernel_requirements \<Rightarrow> gpu result" where
  "launch_kernel g gr config req =
     bindE (dispatch_all clear_warps config req (g_blocks gr) 0 (gpu_sms g)) (\<lambda>(idx, sms).
       Inr (g\<lparr>gpu_sms := sms, gpu_pending_blocks := g_blocks gr, gpu_current_block_idx := idx,
              gpu_config := config, gpu_req := req\<rparr>))"

section \<open>The cycle loop\<close>

definition access_config_of :: "system_config \<Rightarrow> memory_access_config" where
  "access_config_of c =
     \<lparr>mac_shared_memory_latency = cfg_shared_memory_latency c, mac_l1_latency = cfg_l1_latency c,
      mac_l2_latency = cfg_l2_latency c, mac_global_memory_latency = cfg_global_memory_latency c,
      mac_writeback_latency = cfg_writeback_latency c\<rparr>"

text \<open>The memory system of a tick references the SM's L1 and shared memory and the GPU's L2 and global memory.\<close>

definition memory_of :: "system_config \<Rightarrow> sm \<Rightarrow> cache \<Rightarrow> global_memory \<Rightarrow> memory_system" where
  "memory_of config s l2 g =
     \<lparr>ms_shared = sm_shared_memory s, ms_l1 = sm_l1_cache s, ms_l2 = l2, ms_global = g,
      ms_config = access_config_of config\<rparr>"

definition tick_sm ::
    "kernel \<Rightarrow> system_config \<Rightarrow> sm \<Rightarrow> cache \<Rightarrow> global_memory \<Rightarrow> (sm \<times> cache \<times> global_memory) result" where
  "tick_sm k config s l2 g =
     bindE (tick k s (memory_of config s l2 g)) (\<lambda>(s', m').
       Inr (s'\<lparr>sm_l1_cache := ms_l1 m', sm_shared_memory := ms_shared m'\<rparr>, ms_l2 m', ms_global m'))"

fun tick_all ::
    "kernel \<Rightarrow> system_config \<Rightarrow> sm list \<Rightarrow> cache \<Rightarrow> global_memory \<Rightarrow> (bool \<times> sm list \<times> cache \<times> global_memory) result" where
  "tick_all k config [] l2 g = Inr (True, [], l2, g)"
| "tick_all k config (s # ss) l2 g =
     (if is_completed s
      then bindE (tick_all k config ss l2 g) (\<lambda>(all_done, ss', l2', g'). Inr (all_done, s # ss', l2', g'))
      else bindE (tick_sm k config s l2 g) (\<lambda>(s', l2', g').
             bindE (tick_all k config ss l2' g') (\<lambda>(all_done, ss', l2'', g''). Inr (False, s' # ss', l2'', g''))))"

text \<open>One iteration of the loop; the flag is \<open>all_done\<close> at its end.\<close>

definition gpu_cycle :: "kernel \<Rightarrow> gpu \<Rightarrow> (bool \<times> gpu) result" where
  "gpu_cycle k g =
     bindE (dispatch_all release_completed_blocks (gpu_config g) (gpu_req g) (gpu_pending_blocks g)
              (gpu_current_block_idx g) (gpu_sms g)) (\<lambda>(idx, sms).
     bindE (tick_all k (gpu_config g) sms (gpu_l2_cache g) (gpu_global_memory g)) (\<lambda>(all_done, sms', l2, gm).
       Inr (all_done, g\<lparr>gpu_sms := sms', gpu_l2_cache := l2, gpu_global_memory := gm, gpu_current_block_idx := idx\<rparr>)))"

partial_function (option) run_to_completion :: "kernel \<Rightarrow> gpu \<Rightarrow> gpu result option" where
  "run_to_completion k g =
     (case gpu_cycle k g of
        Inl e \<Rightarrow> Some (Inl e)
      | Inr (all_done, g') \<Rightarrow> if all_done then Some (Inr g') else run_to_completion k g')"

text \<open>The same loop with a bound on the iterations, for evaluation.\<close>

fun run_cycles :: "nat \<Rightarrow> kernel \<Rightarrow> gpu \<Rightarrow> gpu result option" where
  "run_cycles 0 k g = None"
| "run_cycles (Suc n) k g =
     (case gpu_cycle k g of
        Inl e \<Rightarrow> Some (Inl e)
      | Inr (all_done, g') \<Rightarrow> if all_done then Some (Inr g') else run_cycles n k g')"

lemma run_cycles_sound: "run_cycles n k g = Some r \<Longrightarrow> run_to_completion k g = Some r"
proof (induction n arbitrary: g)
  case (Suc n)
  then show ?case
    by (subst run_to_completion.simps) (auto split: sum.splits prod.splits if_splits)
qed simp

lemma run_cycles_complete:
  assumes "run_to_completion k g = Some r"
  shows "\<exists>n. run_cycles n k g = Some r"
  using assms
proof (rule run_to_completion.raw_induct[rotated, where P = "\<lambda>k g r. \<exists>n. run_cycles n k g = Some r"])
  fix run :: "kernel \<Rightarrow> gpu \<Rightarrow> gpu result option" and k g r
  assume IH: "\<And>k g r. run k g = Some r \<Longrightarrow> \<exists>n. run_cycles n k g = Some r"
    and eq: "(case gpu_cycle k g of Inl e \<Rightarrow> Some (Inl e)
      | Inr (all_done, g') \<Rightarrow> if all_done then Some (Inr g') else run k g') = Some r"
  show "\<exists>n. run_cycles n k g = Some r"
  proof (cases "gpu_cycle k g")
    case (Inl e)
    then show ?thesis using eq by (intro exI[of _ 1]) simp
  next
    case (Inr p)
    obtain d g' where p: "p = (d, g')" by (cases p)
    show ?thesis
    proof (cases d)
      case True
      then show ?thesis using eq Inr p by (intro exI[of _ 1]) simp
    next
      case False
      then have "run k g' = Some r" using eq Inr p by simp
      from IH[OF this] obtain n where "run_cycles n k g' = Some r" by blast
      then show ?thesis using Inr p False by (intro exI[of _ "Suc n"]) simp
    qed
  qed
qed

end
