(* ===== verification/GPU_Props.thy ===== *)
theory GPU_Props
  imports GPU
begin

text \<open>
  Laws of the GPU: what the dispatcher places where, the invariant of the cycle loop, what
  holds when \<open>run_to_completion\<close> returns, and a state from which it never does.
\<close>

section \<open>The dispatcher\<close>

definition slice :: "'a list \<Rightarrow> nat \<Rightarrow> nat \<Rightarrow> 'a list" where
  "slice xs i j = take (j - i) (drop i xs)"

lemma slice_empty [simp]: "slice xs i i = []"
  by (simp add: slice_def)

lemma slice_Cons: "i < j \<Longrightarrow> j \<le> length xs \<Longrightarrow> slice xs i j = xs ! i # slice xs (Suc i) j"
  by (simp add: slice_def take_Suc_conv_app_nth Cons_nth_drop_Suc[symmetric] take_Cons' Suc_diff_Suc)

lemma slice_append:
  assumes "i \<le> j" and "j \<le> k"
  shows "slice xs i j @ slice xs j k = slice xs i k"
proof -
  have e: "k - i = (j - i) + (k - j)" "drop (j - i) (drop i xs) = drop j xs" using assms by simp_all
  show ?thesis unfolding slice_def e(1) take_add e(2) ..
qed

lemma length_slice: "i \<le> j \<Longrightarrow> j \<le> length xs \<Longrightarrow> length (slice xs i j) = j - i"
  by (simp add: slice_def)

lemma set_slice: "set (slice xs i j) \<subseteq> set xs"
  using set_take_subset[of "j - i" "drop i xs"] set_drop_subset[of i xs] by (auto simp: slice_def)

lemma dispatch_effect:
  "dispatch c req p idx s = Inr (idx', s') \<Longrightarrow> idx \<le> length p \<Longrightarrow>
   idx \<le> idx' \<and> idx' \<le> length p \<and>
   sm_warps s' = sm_warps s @ concat (map tb_warps (slice p idx idx')) \<and>
   map rb_block_id (sm_resident_blocks s') = map rb_block_id (sm_resident_blocks s) @ map tb_id (slice p idx idx') \<and>
   sm_l1_cache s' = sm_l1_cache s \<and> sm_shared_memory s' = sm_shared_memory s \<and> sm_scheduler s' = sm_scheduler s \<and>
   (accounts_ok s \<longrightarrow> accounts_ok s') \<and> (within_limits c s \<longrightarrow> within_limits c s') \<and>
   (idx' < length p \<longrightarrow> \<not> can_admit s' (p ! idx') c req \<and> sm_allocated_blocks s' \<noteq> 0) \<and>
   sm_allocated_blocks s' = sm_allocated_blocks s + (idx' - idx)"
proof (induction c req p idx s rule: dispatch.induct)
  case (1 c req p idx s)
  show ?case
  proof (cases "idx < length p \<and> can_admit s (p ! idx) c req")
    case True
    let ?s1 = "allocate_block s (p ! idx) req"
    have run: "dispatch c req p (idx + 1) ?s1 = Inr (idx', s')"
      using "1.prems"(1) True by (simp add: dispatch.simps[of c req p idx s])
    have IH: "idx + 1 \<le> idx'" "idx' \<le> length p"
      "sm_warps s' = sm_warps ?s1 @ concat (map tb_warps (slice p (idx + 1) idx'))"
      "map rb_block_id (sm_resident_blocks s') = map rb_block_id (sm_resident_blocks ?s1) @ map tb_id (slice p (idx + 1) idx')"
      "sm_l1_cache s' = sm_l1_cache ?s1" "sm_shared_memory s' = sm_shared_memory ?s1" "sm_scheduler s' = sm_scheduler ?s1"
      "accounts_ok ?s1 \<longrightarrow> accounts_ok s'" "within_limits c ?s1 \<longrightarrow> within_limits c s'"
      "idx' < length p \<longrightarrow> \<not> can_admit s' (p ! idx') c req \<and> sm_allocated_blocks s' \<noteq> 0"
      "sm_allocated_blocks s' = sm_allocated_blocks ?s1 + (idx' - (idx + 1))"
      using "1.IH"[OF _ _ run] True by auto
    have sl: "slice p idx idx' = p ! idx # slice p (idx + 1) idx'"
      using slice_Cons[of idx idx' p] IH(1,2) by simp
    show ?thesis
      using IH allocate_accounts[of s "p ! idx" req] allocate_limits[of s "p ! idx" c req] True
      by (simp add: allocate_block_fields sl)
  next
    case False
    then have "idx' = idx" "s' = s" "idx < length p \<longrightarrow> sm_allocated_blocks s \<noteq> 0"
      using "1.prems"(1) by (auto simp: dispatch.simps[of c req p idx s] split: if_splits)
    then show ?thesis using False "1.prems"(2) by auto
  qed
qed

text \<open>What one pass over the SMs dispatches: consecutive runs of blocks, one per SM, in order.\<close>

lemma dispatch_all_effect:
  "dispatch_all prep c req p idx ss = Inr (idx', ss') \<Longrightarrow> idx \<le> length p \<Longrightarrow>
   idx \<le> idx' \<and> idx' \<le> length p \<and> length ss' = length ss \<and>
   (\<exists>bss. length bss = length ss \<and> concat bss = slice p idx idx' \<and>
     (\<forall>n < length ss. sm_warps (ss' ! n) = sm_warps (prep (ss ! n)) @ concat (map tb_warps (bss ! n)) \<and>
       sm_l1_cache (ss' ! n) = sm_l1_cache (prep (ss ! n)) \<and>
       sm_shared_memory (ss' ! n) = sm_shared_memory (prep (ss ! n)) \<and>
       sm_scheduler (ss' ! n) = sm_scheduler (prep (ss ! n)) \<and>
       (accounts_ok (prep (ss ! n)) \<longrightarrow> accounts_ok (ss' ! n)) \<and>
       (within_limits c (prep (ss ! n)) \<longrightarrow> within_limits c (ss' ! n)) \<and>
       sm_allocated_blocks (ss' ! n) = sm_allocated_blocks (prep (ss ! n)) + length (bss ! n))) \<and>
   (idx' < length p \<longrightarrow> (\<forall>s \<in> set ss'. sm_allocated_blocks s \<noteq> 0))"
proof (induction ss arbitrary: idx idx' ss')
  case Nil
  then show ?case by simp
next
  case (Cons s ss)
  obtain j s1 where 1: "dispatch c req p idx (prep s) = Inr (j, s1)"
    and rest: "bindE (dispatch_all prep c req p j ss) (\<lambda>(idx'', ss'). Inr (idx'', s1 # ss')) = Inr (idx', ss')"
    using Cons.prems(1) by auto
  then obtain ss1 where 2: "dispatch_all prep c req p j ss = Inr (idx', ss1)" and ss': "ss' = s1 # ss1"
    by auto
  note d = dispatch_effect[OF 1 Cons.prems(2)]
  have j: "j \<le> length p" using d by blast
  from Cons.IH[OF 2 j] obtain bss where ih: "j \<le> idx'" "idx' \<le> length p" "length ss1 = length ss"
    "length bss = length ss" "concat bss = slice p j idx'"
    "\<forall>n < length ss. sm_warps (ss1 ! n) = sm_warps (prep (ss ! n)) @ concat (map tb_warps (bss ! n)) \<and>
       sm_l1_cache (ss1 ! n) = sm_l1_cache (prep (ss ! n)) \<and>
       sm_shared_memory (ss1 ! n) = sm_shared_memory (prep (ss ! n)) \<and>
       sm_scheduler (ss1 ! n) = sm_scheduler (prep (ss ! n)) \<and>
       (accounts_ok (prep (ss ! n)) \<longrightarrow> accounts_ok (ss1 ! n)) \<and>
       (within_limits c (prep (ss ! n)) \<longrightarrow> within_limits c (ss1 ! n)) \<and>
       sm_allocated_blocks (ss1 ! n) = sm_allocated_blocks (prep (ss ! n)) + length (bss ! n)"
    "idx' < length p \<longrightarrow> (\<forall>s \<in> set ss1. sm_allocated_blocks s \<noteq> 0)" by blast
  have len: "length (slice p idx j) = j - idx" using d length_slice[of idx j p] by blast
  let ?bss = "slice p idx j # bss"
  have cc: "concat ?bss = slice p idx idx'" using slice_append[of idx j idx' p] d ih(1,5) by simp
  have "idx' < length p \<Longrightarrow> sm_allocated_blocks s1 \<noteq> 0"
    using d ih(1) by linarith
  moreover have "sm_warps (ss' ! n) = sm_warps (prep ((s # ss) ! n)) @ concat (map tb_warps (?bss ! n)) \<and>
       sm_l1_cache (ss' ! n) = sm_l1_cache (prep ((s # ss) ! n)) \<and>
       sm_shared_memory (ss' ! n) = sm_shared_memory (prep ((s # ss) ! n)) \<and>
       sm_scheduler (ss' ! n) = sm_scheduler (prep ((s # ss) ! n)) \<and>
       (accounts_ok (prep ((s # ss) ! n)) \<longrightarrow> accounts_ok (ss' ! n)) \<and>
       (within_limits c (prep ((s # ss) ! n)) \<longrightarrow> within_limits c (ss' ! n)) \<and>
       sm_allocated_blocks (ss' ! n) = sm_allocated_blocks (prep ((s # ss) ! n)) + length (?bss ! n)"
    if "n < length (s # ss)" for n
    using that d ih(6) len ss' by (cases n) simp_all
  ultimately show ?case
    using d ih(1-4,7) cc ss' by (intro conjI exI[of _ ?bss]) auto
qed

text \<open>The deal itself: an SM takes blocks until the next one does not fit, then the next SM goes on.\<close>

lemma dispatch_all_fills:
  "dispatch_all prep c req p idx ss = Inr (idx', ss') \<Longrightarrow> idx \<le> length p \<Longrightarrow>
   \<exists>bss. length bss = length ss \<and> concat bss = slice p idx idx' \<and>
     (\<forall>n < length ss. sm_warps (ss' ! n) = sm_warps (prep (ss ! n)) @ concat (map tb_warps (bss ! n)) \<and>
       map rb_block_id (sm_resident_blocks (ss' ! n)) = map rb_block_id (sm_resident_blocks (prep (ss ! n))) @ map tb_id (bss ! n) \<and>
       sm_allocated_blocks (ss' ! n) = sm_allocated_blocks (prep (ss ! n)) + length (bss ! n) \<and>
       (idx + length (concat (take (Suc n) bss)) < length p \<longrightarrow>
          \<not> can_admit (ss' ! n) (p ! (idx + length (concat (take (Suc n) bss)))) c req))"
proof (induction ss arbitrary: idx ss')
  case Nil
  then show ?case by simp
next
  case (Cons s ss)
  obtain j s1 ss1 where 1: "dispatch c req p idx (prep s) = Inr (j, s1)" "dispatch_all prep c req p j ss = Inr (idx', ss1)"
    "ss' = s1 # ss1" using Cons.prems(1) by auto
  note d = dispatch_effect[OF 1(1) Cons.prems(2)]
  have j: "idx \<le> j" "j \<le> length p" using d by blast+
  have le: "j \<le> idx'" using dispatch_all_effect[OF 1(2) j(2)] by blast
  obtain bss where ih: "length bss = length ss" "concat bss = slice p j idx'"
    "\<forall>n < length ss. sm_warps (ss1 ! n) = sm_warps (prep (ss ! n)) @ concat (map tb_warps (bss ! n)) \<and>
       map rb_block_id (sm_resident_blocks (ss1 ! n)) = map rb_block_id (sm_resident_blocks (prep (ss ! n))) @ map tb_id (bss ! n) \<and>
       sm_allocated_blocks (ss1 ! n) = sm_allocated_blocks (prep (ss ! n)) + length (bss ! n) \<and>
       (j + length (concat (take (Suc n) bss)) < length p \<longrightarrow>
          \<not> can_admit (ss1 ! n) (p ! (j + length (concat (take (Suc n) bss)))) c req)"
    using Cons.IH[OF 1(2) j(2)] by blast
  let ?bss = "slice p idx j # bss"
  have len: "idx + length (slice p idx j) = j" using length_slice[OF j] j(1) by simp
  then have at: "idx + length (concat (take (Suc (Suc n)) ?bss)) = j + length (concat (take (Suc n) bss))"
    "idx + length (concat (take (Suc 0) ?bss)) = j" for n by simp_all
  have al: "sm_allocated_blocks s1 = sm_allocated_blocks (prep s) + length (slice p idx j)" using d len by simp
  have "sm_warps (ss' ! n) = sm_warps (prep ((s # ss) ! n)) @ concat (map tb_warps (?bss ! n)) \<and>
       map rb_block_id (sm_resident_blocks (ss' ! n)) = map rb_block_id (sm_resident_blocks (prep ((s # ss) ! n))) @ map tb_id (?bss ! n) \<and>
       sm_allocated_blocks (ss' ! n) = sm_allocated_blocks (prep ((s # ss) ! n)) + length (?bss ! n) \<and>
       (idx + length (concat (take (Suc n) ?bss)) < length p \<longrightarrow>
          \<not> can_admit (ss' ! n) (p ! (idx + length (concat (take (Suc n) ?bss)))) c req)"
    if n: "n < length (s # ss)" for n
  proof (cases n)
    case 0
    then show ?thesis using d al unfolding 0 at by (simp add: 1(3))
  next
    case (Suc m)
    then have "m < length ss" using n by simp
    with ih(3) show ?thesis unfolding Suc at by (simp add: 1(3))
  qed
  moreover have "concat ?bss = slice p idx idx'" using slice_append[OF j(1) le, of p] ih(2) by simp
  ultimately show ?case using ih(1) by (intro exI[of _ ?bss]) simp
qed

section \<open>The invariant of the cycle loop\<close>

definition sm_good :: "system_config \<Rightarrow> sm \<Rightarrow> bool" where
  "sm_good c s \<longleftrightarrow> sm_ok s \<and> accounts_ok s \<and> within_limits c s \<and>
     cache_inv (sm_l1_cache s) \<and> stats_inv (sm_l1_cache s)"

definition blocks_ok :: "thread_block list \<Rightarrow> bool" where
  "blocks_ok bs \<longleftrightarrow> (\<forall>b \<in> set bs. \<forall>w \<in> set (tb_warps b). warp_ok w)"

definition gpu_inv :: "gpu \<Rightarrow> bool" where
  "gpu_inv g \<longleftrightarrow> cache_inv (gpu_l2_cache g) \<and> stats_inv (gpu_l2_cache g) \<and>
     (\<forall>s \<in> set (gpu_sms g). sm_good (gpu_config g) s) \<and>
     gpu_current_block_idx g \<le> length (gpu_pending_blocks g) \<and> blocks_ok (gpu_pending_blocks g)"

lemma blocks_ok_slice: "blocks_ok p \<Longrightarrow> concat bss = slice p i j \<Longrightarrow> n < length bss \<Longrightarrow> blocks_ok (bss ! n)"
proof -
  assume ok: "blocks_ok p" and e: "concat bss = slice p i j" and n: "n < length bss"
  have "set (bss ! n) \<subseteq> set (concat bss)" using nth_mem[OF n] by auto
  then have "set (bss ! n) \<subseteq> set p" using set_slice[of p i j] unfolding e by blast
  then show ?thesis using ok by (auto simp: blocks_ok_def)
qed

lemma release_good: "sm_good c s \<Longrightarrow> sm_good c (release_completed_blocks s)"
proof -
  assume g: "sm_good c s"
  then have ok: "accounts_ok s" "accounts_ok (release_completed_blocks s)" "within_limits c s"
    using release_accounts by (auto simp: sm_good_def)
  obtain kept s' where r: "release_loop (sm_resident_blocks s) s = (kept, s')" by fastforce
  have le: "sm_allocated_blocks s' \<le> sm_allocated_blocks s \<and> sm_allocated_warps s' \<le> sm_allocated_warps s \<and>
      sm_allocated_threads s' \<le> sm_allocated_threads s \<and> sm_allocated_registers s' \<le> sm_allocated_registers s \<and>
      sm_allocated_shared_memory s' \<le> sm_allocated_shared_memory s"
    if "release_loop bs s = (kept, s')" "accounts_for (pre @ bs) s" for bs pre kept s s'
    using that
  proof (induction bs arbitrary: pre s kept)
    case (Cons b bs)
    show ?case
    proof (cases "block_finished (sm_warps s) (rb_block_id b)")
      case True
      then have "release_loop bs (release_block b s) = (kept, s')" using Cons.prems(1) by simp
      from Cons.IH[OF this release_block_accounts[OF Cons.prems(2)]] Cons.prems(2) show ?thesis
        by (simp add: release_block_def accounts_for_def)
    next
      case False
      then obtain kept' where "release_loop bs s = (kept', s')" using Cons.prems(1) by (auto split: prod.splits)
      from Cons.IH[OF this, of "pre @ [b]"] Cons.prems(2) show ?thesis by simp
    qed
  qed simp
  have "within_limits c (release_completed_blocks s)"
    using le[OF r, of "[]"] ok(1,3)
    by (auto simp: release_completed_blocks_def r within_limits_def accounts_ok_def intro: le_trans)
  then show ?thesis
    using g ok(2) release_fields(1)[of s] unfolding sm_good_def sm_ok_def release_fields(4) by blast
qed

lemma clear_good:
  assumes "cache_inv (sm_l1_cache s)" and "stats_inv (sm_l1_cache s)"
  shows "sm_good c (clear_warps s)"
  using assms by (simp add: sm_good_def sm_ok_def accounts_ok_def accounts_for_def within_limits_def clear_warps_def)

lemma dispatch_all_good:
  assumes run: "dispatch_all prep c req p idx ss = Inr (idx', ss')" and "idx \<le> length p" and "blocks_ok p"
    and good: "\<forall>s \<in> set ss. sm_good c (prep s)"
  shows "\<forall>s \<in> set ss'. sm_good c s"
proof
  fix s' assume "s' \<in> set ss'"
  moreover from dispatch_all_effect[OF run assms(2)] obtain bss where
    bss: "length ss' = length ss" "length bss = length ss" "concat bss = slice p idx idx'"
    and eff: "\<forall>n < length ss. sm_warps (ss' ! n) = sm_warps (prep (ss ! n)) @ concat (map tb_warps (bss ! n)) \<and>
       sm_l1_cache (ss' ! n) = sm_l1_cache (prep (ss ! n)) \<and>
       sm_shared_memory (ss' ! n) = sm_shared_memory (prep (ss ! n)) \<and>
       sm_scheduler (ss' ! n) = sm_scheduler (prep (ss ! n)) \<and>
       (accounts_ok (prep (ss ! n)) \<longrightarrow> accounts_ok (ss' ! n)) \<and>
       (within_limits c (prep (ss ! n)) \<longrightarrow> within_limits c (ss' ! n)) \<and>
       sm_allocated_blocks (ss' ! n) = sm_allocated_blocks (prep (ss ! n)) + length (bss ! n)" by blast
  ultimately obtain n where n: "n < length ss" "s' = ss' ! n" by (auto simp: in_set_conv_nth)
  have g: "sm_good c (prep (ss ! n))" using good n by simp
  have "blocks_ok (bss ! n)" using blocks_ok_slice[OF assms(3) bss(3)] bss(2) n by simp
  then have "sm_ok s'" using g eff n by (auto simp: sm_good_def sm_ok_def blocks_ok_def)
  then show "sm_good c s'" using g eff n by (simp add: sm_good_def)
qed

lemma launch_kernel_inv:
  assumes "launch_kernel g gr config req = Inr g'" and "blocks_ok (g_blocks gr)"
    and "cache_inv (gpu_l2_cache g)" "stats_inv (gpu_l2_cache g)"
    and "\<forall>s \<in> set (gpu_sms g). cache_inv (sm_l1_cache s) \<and> stats_inv (sm_l1_cache s)"
  shows "gpu_inv g'"
proof -
  obtain idx sms where d: "dispatch_all clear_warps config req (g_blocks gr) 0 (gpu_sms g) = Inr (idx, sms)"
    and g': "g' = g\<lparr>gpu_sms := sms, gpu_pending_blocks := g_blocks gr, gpu_current_block_idx := idx,
              gpu_config := config, gpu_req := req\<rparr>"
    using assms(1) by (auto simp: launch_kernel_def)
  have "\<forall>s \<in> set (gpu_sms g). sm_good config (clear_warps s)" using assms(5) clear_good by blast
  then have "\<forall>s \<in> set sms. sm_good config s" using dispatch_all_good[OF d _ assms(2)] by simp
  then show ?thesis using assms(2-4) dispatch_all_effect[OF d] by (simp add: g' gpu_inv_def)
qed

lemma tick_sm_good:
  assumes "sm_good c s" and "\<not> is_completed s" and "cache_inv l2" and "stats_inv l2"
    and run: "tick_sm k c s l2 g = Inr (s', l2', g')"
  shows "sm_good c s' \<and> cache_inv l2' \<and> stats_inv l2'"
proof -
  let ?m = "memory_of c s l2 g"
  obtain s1 m1 where t: "tick k s ?m = Inr (s1, m1)"
    and e: "s' = s1\<lparr>sm_l1_cache := ms_l1 m1, sm_shared_memory := ms_shared m1\<rparr>" "l2' = ms_l2 m1"
    using run by (auto simp: tick_sm_def)
  have minv: "ms_inv ?m" using assms(1,3,4) by (simp add: memory_of_def ms_inv_def sm_good_def)
  have ok: "sm_ok s" using assms(1) by (simp add: sm_good_def)
  note te = tick_effect[OF assms(2) ok minv t]
  have "accounts_ok s1" "within_limits c s1"
    using same_accounts_ok[OF te(3)] same_accounts_limits[OF te(3)] assms(1) by (auto simp: sm_good_def)
  then show ?thesis using te(1,2) by (simp add: e sm_good_def sm_ok_def accounts_ok_def accounts_for_def
      within_limits_def ms_inv_def)
qed

lemma tick_all_good:
  "tick_all k c ss l2 g = Inr (d, ss', l2', g') \<Longrightarrow> \<forall>s \<in> set ss. sm_good c s \<Longrightarrow> cache_inv l2 \<Longrightarrow> stats_inv l2 \<Longrightarrow>
   (\<forall>s \<in> set ss'. sm_good c s) \<and> cache_inv l2' \<and> stats_inv l2' \<and> length ss' = length ss \<and>
   (d \<longleftrightarrow> list_all is_completed ss) \<and> (d \<longrightarrow> ss' = ss \<and> l2' = l2 \<and> g' = g)"
proof (induction ss arbitrary: l2 g d ss')
  case (Cons s ss)
  show ?case
  proof (cases "is_completed s")
    case True
    then obtain ss1 where 1: "tick_all k c ss l2 g = Inr (d, ss1, l2', g')" "ss' = s # ss1"
      using Cons.prems(1) by auto
    from Cons.IH[OF 1(1)] Cons.prems True 1(2) show ?thesis by simp
  next
    case False
    then obtain s1 l21 g1 ss1 d1 where 1: "tick_sm k c s l2 g = Inr (s1, l21, g1)"
      "tick_all k c ss l21 g1 = Inr (d1, ss1, l2', g')" "ss' = s1 # ss1" "\<not> d"
      using Cons.prems(1) by auto
    have "sm_good c s" using Cons.prems(2) by simp
    from tick_sm_good[OF this False Cons.prems(3,4) 1(1)]
    have good: "sm_good c s1" "cache_inv l21" "stats_inv l21" by blast+
    from Cons.IH[OF 1(2) _ good(2,3)] Cons.prems(2) 1(3,4) good(1) False show ?thesis by simp
  qed
qed simp

lemma gpu_cycle_inv:
  assumes inv: "gpu_inv g" and run: "gpu_cycle k g = Inr (d, g')"
  shows "gpu_inv g' \<and> gpu_pending_blocks g' = gpu_pending_blocks g \<and> gpu_config g' = gpu_config g \<and>
    gpu_req g' = gpu_req g \<and> length (gpu_sms g') = length (gpu_sms g) \<and>
    gpu_current_block_idx g \<le> gpu_current_block_idx g'"
proof -
  obtain idx sms sms' l2 gm where 1: "dispatch_all release_completed_blocks (gpu_config g) (gpu_req g)
      (gpu_pending_blocks g) (gpu_current_block_idx g) (gpu_sms g) = Inr (idx, sms)"
    and 2: "tick_all k (gpu_config g) sms (gpu_l2_cache g) (gpu_global_memory g) = Inr (d, sms', l2, gm)"
    and g': "g' = g\<lparr>gpu_sms := sms', gpu_l2_cache := l2, gpu_global_memory := gm, gpu_current_block_idx := idx\<rparr>"
    using run by (auto simp: gpu_cycle_def)
  have le: "gpu_current_block_idx g \<le> length (gpu_pending_blocks g)" and bo: "blocks_ok (gpu_pending_blocks g)"
    and l2: "cache_inv (gpu_l2_cache g)" "stats_inv (gpu_l2_cache g)"
    using inv by (simp_all add: gpu_inv_def)
  note de = dispatch_all_effect[OF 1 le]
  have "\<forall>s \<in> set (gpu_sms g). sm_good (gpu_config g) (release_completed_blocks s)"
    using inv release_good by (simp add: gpu_inv_def)
  from tick_all_good[OF 2 dispatch_all_good[OF 1 le bo this] l2] de bo
  show ?thesis by (simp add: g' gpu_inv_def)
qed

section \<open>Completion\<close>

text \<open>A block with something to run.\<close>

definition fresh_blocks :: "thread_block list \<Rightarrow> bool" where
  "fresh_blocks bs \<longleftrightarrow> (\<forall>b \<in> set bs. \<exists>w \<in> set (tb_warps b). w_state w \<noteq> Completed)"

lemma completed_warps: "is_completed s \<longleftrightarrow> (\<forall>w \<in> set (sm_warps s). w_state w = Completed)"
  by (auto simp: is_completed_def list_all_iff)

lemma done_cycle:
  assumes inv: "gpu_inv g" and ne: "gpu_sms g \<noteq> []" and fresh: "fresh_blocks (gpu_pending_blocks g)"
    and run: "gpu_cycle k g = Inr (True, g')"
  shows "gpu_current_block_idx g' = length (gpu_pending_blocks g) \<and>
    (\<forall>s \<in> set (gpu_sms g'). \<forall>w \<in> set (sm_warps s). w_state w = Completed)"
proof -
  let ?p = "gpu_pending_blocks g"
  obtain idx sms sms' l2 gm where 1: "dispatch_all release_completed_blocks (gpu_config g) (gpu_req g)
      ?p (gpu_current_block_idx g) (gpu_sms g) = Inr (idx, sms)"
    and 2: "tick_all k (gpu_config g) sms (gpu_l2_cache g) (gpu_global_memory g) = Inr (True, sms', l2, gm)"
    and g': "g' = g\<lparr>gpu_sms := sms', gpu_l2_cache := l2, gpu_global_memory := gm, gpu_current_block_idx := idx\<rparr>"
    using run by (auto simp: gpu_cycle_def)
  have le: "gpu_current_block_idx g \<le> length ?p" and bo: "blocks_ok ?p"
    and l2: "cache_inv (gpu_l2_cache g)" "stats_inv (gpu_l2_cache g)"
    using inv by (simp_all add: gpu_inv_def)
  have rg: "\<forall>s \<in> set (gpu_sms g). sm_good (gpu_config g) (release_completed_blocks s)"
    using inv release_good by (simp add: gpu_inv_def)
  from tick_all_good[OF 2 dispatch_all_good[OF 1 le bo rg] l2]
  have comp: "list_all is_completed sms" "sms' = sms" by auto
  from dispatch_all_effect[OF 1 le] obtain bss where
    de: "idx \<le> length ?p" "length sms = length (gpu_sms g)" "length bss = length (gpu_sms g)"
      "concat bss = slice ?p (gpu_current_block_idx g) idx"
      "\<forall>n < length (gpu_sms g). sm_warps (sms ! n) = sm_warps (release_completed_blocks (gpu_sms g ! n)) @ concat (map tb_warps (bss ! n)) \<and>
        sm_allocated_blocks (sms ! n) = sm_allocated_blocks (release_completed_blocks (gpu_sms g ! n)) + length (bss ! n)"
      "idx < length ?p \<longrightarrow> (\<forall>s \<in> set sms. sm_allocated_blocks s \<noteq> 0)" by blast
  have "\<not> idx < length ?p"
  proof
    assume lt: "idx < length ?p"
    have z: "0 < length (gpu_sms g)" using ne by simp
    let ?s = "gpu_sms g ! 0"
    have c0: "\<forall>w \<in> set (sm_warps (sms ! 0)). w_state w = Completed"
    proof -
      have "sms ! 0 \<in> set sms" using z de(2) by simp
      then show ?thesis using comp(1) unfolding list_all_iff completed_warps by blast
    qed
    have "bss ! 0 = []"
    proof (rule ccontr)
      assume "bss ! 0 \<noteq> []"
      then obtain b where b: "b \<in> set (bss ! 0)" by fastforce
      then have "b \<in> set (concat bss)" using z de(3) by auto
      then have "b \<in> set ?p" using de(4) set_slice by fastforce
      then obtain w where "w \<in> set (tb_warps b)" "w_state w \<noteq> Completed" using fresh by (auto simp: fresh_blocks_def)
      moreover have "w \<in> set (sm_warps (sms ! 0))" if "w \<in> set (tb_warps b)" for w
        using de(5) z b that by auto
      ultimately show False using c0 by blast
    qed
    then have al: "sm_allocated_blocks (sms ! 0) = sm_allocated_blocks (release_completed_blocks ?s)" using de(5) z by simp
    have "\<forall>w \<in> set (sm_warps (release_completed_blocks ?s)). w_state w = Completed" using c0 de(5) z by simp
    then have "list_all (\<lambda>w. w_state w = Completed) (sm_warps ?s)"
      unfolding list_all_iff using release_fields(2)[of _ ?s] by blast
    then have "sm_resident_blocks (release_completed_blocks ?s) = []" by (rule release_all)
    moreover have "accounts_ok (release_completed_blocks ?s)" using rg z by (simp add: sm_good_def)
    ultimately have "sm_allocated_blocks (sms ! 0) = 0" using al by (simp add: accounts_ok_def accounts_for_def)
    moreover have "sms ! 0 \<in> set sms" using z de(2) by simp
    ultimately show False using de(6) lt by blast
  qed
  then show ?thesis using de(1) comp by (simp add: g' list_all_iff completed_warps)
qed

text \<open>When an iteration is the last one.\<close>

lemma cycle_done_iff:
  assumes inv: "gpu_inv g" and ne: "gpu_sms g \<noteq> []" and fresh: "fresh_blocks (gpu_pending_blocks g)"
    and run: "gpu_cycle k g = Inr (d, g')"
  shows "d \<longleftrightarrow> (\<forall>s \<in> set (gpu_sms g). is_completed s) \<and> gpu_current_block_idx g = length (gpu_pending_blocks g)"
proof -
  let ?p = "gpu_pending_blocks g" and ?i = "gpu_current_block_idx g" and ?rel = "\<lambda>n. release_completed_blocks (gpu_sms g ! n)"
  obtain idx sms sms' l2 gm where 1: "dispatch_all release_completed_blocks (gpu_config g) (gpu_req g) ?p ?i (gpu_sms g) = Inr (idx, sms)"
    and 2: "tick_all k (gpu_config g) sms (gpu_l2_cache g) (gpu_global_memory g) = Inr (d, sms', l2, gm)"
    and g': "g' = g\<lparr>gpu_sms := sms', gpu_l2_cache := l2, gpu_global_memory := gm, gpu_current_block_idx := idx\<rparr>"
    using run by (auto simp: gpu_cycle_def)
  have le: "?i \<le> length ?p" and bo: "blocks_ok ?p" and l2: "cache_inv (gpu_l2_cache g)" "stats_inv (gpu_l2_cache g)"
    using inv by (simp_all add: gpu_inv_def)
  have "\<forall>s \<in> set (gpu_sms g). sm_good (gpu_config g) (release_completed_blocks s)"
    using inv release_good by (simp add: gpu_inv_def)
  from tick_all_good[OF 2 dispatch_all_good[OF 1 le bo this] l2] have d: "d \<longleftrightarrow> (\<forall>s \<in> set sms. is_completed s)"
    by (simp add: list_all_iff)
  from dispatch_all_effect[OF 1 le] obtain bss where
    de: "?i \<le> idx" "idx \<le> length ?p" "length sms = length (gpu_sms g)" "length bss = length (gpu_sms g)" "concat bss = slice ?p ?i idx"
      "\<forall>n < length (gpu_sms g). sm_warps (sms ! n) = sm_warps (?rel n) @ concat (map tb_warps (bss ! n))" by blast
  have all: "(\<forall>s \<in> set ss. is_completed s) \<longleftrightarrow> (\<forall>n < length ss. \<forall>w \<in> set (sm_warps (ss ! n)). w_state w = Completed)" for ss
    by (simp add: all_set_conv_all_nth completed_warps)
  have rel: "(\<forall>w \<in> set (sm_warps (?rel n)). w_state w = Completed) \<longleftrightarrow> (\<forall>w \<in> set (sm_warps (gpu_sms g ! n)). w_state w = Completed)" for n
    using release_fields(1)[of "gpu_sms g ! n"] release_fields(2)[of _ "gpu_sms g ! n"] by blast
  show ?thesis
  proof
    assume D: d
    have idx: "idx = length ?p" using done_cycle[OF inv ne fresh, of k g'] run D by (simp add: g')
    have c: "\<forall>w \<in> set (sm_warps (sms ! n)). w_state w = Completed" if "n < length (gpu_sms g)" for n
      using d D that unfolding all de(3) by blast
    have "slice ?p ?i idx = []"
    proof (rule ccontr)
      assume "slice ?p ?i idx \<noteq> []"
      then obtain b where b: "b \<in> set (concat bss)" unfolding de(5) by (meson list.set_sel(1))
      then obtain n where n: "n < length (gpu_sms g)" "b \<in> set (bss ! n)"
      proof -
        obtain xs where "xs \<in> set bss" "b \<in> set xs" using b by auto
        then show ?thesis using that de(4) by (metis in_set_conv_nth)
      qed
      have "b \<in> set ?p" using b set_slice[of ?p ?i idx] unfolding de(5) by blast
      then obtain w where "w \<in> set (tb_warps b)" "w_state w \<noteq> Completed" using fresh by (auto simp: fresh_blocks_def)
      then show False using c[OF n(1)] de(6) n by auto
    qed
    then have "?i = length ?p" using length_slice[of ?i idx ?p] de(1) idx by simp
    moreover have "\<forall>s \<in> set (gpu_sms g). is_completed s" unfolding all
      using c de(6) rel by (metis Un_iff set_append)
    ultimately show "(\<forall>s \<in> set (gpu_sms g). is_completed s) \<and> ?i = length ?p" by blast
  next
    assume D: "(\<forall>s \<in> set (gpu_sms g). is_completed s) \<and> ?i = length ?p"
    then have "concat bss = []" using de(1,2,5) by simp
    then have "bss ! n = []" if "n < length (gpu_sms g)" for n using that de(4) by simp
    then have "\<forall>n < length (gpu_sms g). \<forall>w \<in> set (sm_warps (sms ! n)). w_state w = Completed"
      using D de(6) rel unfolding all by simp
    then show d unfolding d all de(3) .
  qed
qed

lemma run_cycles_done:
  "run_cycles n k g = Some (Inr g') \<Longrightarrow> gpu_inv g \<Longrightarrow> gpu_sms g \<noteq> [] \<Longrightarrow> fresh_blocks (gpu_pending_blocks g) \<Longrightarrow>
   gpu_inv g' \<and> gpu_current_block_idx g' = length (gpu_pending_blocks g) \<and>
   (\<forall>s \<in> set (gpu_sms g'). \<forall>w \<in> set (sm_warps s). w_state w = Completed)"
proof (induction n arbitrary: g)
  case (Suc n)
  obtain d g1 where c: "gpu_cycle k g = Inr (d, g1)"
    using Suc.prems(1) by (auto split: sum.splits)
  note i = gpu_cycle_inv[OF Suc.prems(2) c]
  show ?case
  proof (cases d)
    case True
    then have "g' = g1" using Suc.prems(1) c by simp
    then show ?thesis using done_cycle[OF Suc.prems(2-4)] c True i by simp
  next
    case False
    then have r: "run_cycles n k g1 = Some (Inr g')" using Suc.prems(1) c by simp
    have "gpu_sms g1 \<noteq> []" using i Suc.prems(3) by (metis length_0_conv)
    then show ?thesis using Suc.IH[OF r] i Suc.prems(4) by simp
  qed
qed simp

section \<open>Construction\<close>

lemma new_gpu_caches:
  assumes "random_range rng" and "new_gpu rng config = Inr g"
  shows "cache_inv (gpu_l2_cache g) \<and> stats_inv (gpu_l2_cache g)"
    and "\<forall>s \<in> set (gpu_sms g). cache_inv (sm_l1_cache s) \<and> stats_inv (sm_l1_cache s) \<and> sm_scheduler s \<noteq> None"
    and "length (gpu_sms g) = cfg_num_sms config"
proof -
  let ?mk = "\<lambda>i. bindE (new_sm rng i config) (\<lambda>s.
    bindE (create_scheduler (cfg_scheduler_policy config) (cfg_active_set_size config)) (\<lambda>sch. Inr (set_scheduler s sch)))"
  obtain l2 sms where l2: "new_cache rng (cfg_l2_sets config) (cfg_l2_associativity config) (cfg_l2_line_size config)
      (cfg_l2_policy config) = Inr l2"
    and sms: "mapE ?mk [0..<cfg_num_sms config] = Inr sms" and g: "gpu_l2_cache g = l2" "gpu_sms g = sms"
    using assms(2) by (auto simp: new_gpu_def)
  show "cache_inv (gpu_l2_cache g) \<and> stats_inv (gpu_l2_cache g)" using new_cache_inv[OF assms(1) l2] g by simp
  show "length (gpu_sms g) = cfg_num_sms config" using mapE_length[OF sms] g by simp
  have one: "cache_inv (sm_l1_cache s) \<and> stats_inv (sm_l1_cache s) \<and> sm_scheduler s \<noteq> None" if "?mk i = Inr s" for i s
    using that new_cache_inv[OF assms(1)] by (auto simp: new_sm_def make_sm_def set_scheduler_def)
  show "\<forall>s \<in> set (gpu_sms g). cache_inv (sm_l1_cache s) \<and> stats_inv (sm_l1_cache s) \<and> sm_scheduler s \<noteq> None"
  proof
    fix s assume "s \<in> set (gpu_sms g)"
    then obtain j where "j < length sms" "s = sms ! j" using g(2) by (auto simp: in_set_conv_nth)
    then have "?mk ([0..<cfg_num_sms config] ! j) = Inr s"
      using mapE_nth[OF sms, of j] mapE_length[OF sms] by simp
    then show "cache_inv (sm_l1_cache s) \<and> stats_inv (sm_l1_cache s) \<and> sm_scheduler s \<noteq> None" by (rule one)
  qed
qed

end
