(* ===== verification/Occupancy.thy ===== *)
theory Occupancy
  imports GPU_Props
begin

text \<open>
  \<^verbatim>\<open>src/architecture/occupancy.cpp\<close>: the analytic occupancy of a kernel, and its agreement with
  what the dispatcher of the GPU admits onto an empty SM.
\<close>

record occupancy_result =
  occ_resident_blocks :: size_t
  occ_resident_warps :: size_t
  occ_percentage :: rat
  occ_limiting_factor :: string

text \<open>The sum that rounds up and the product wrap, as \<open>size_t\<close> arithmetic does.\<close>

definition occ_warps_per_block :: "system_config \<Rightarrow> size_t" where
  "occ_warps_per_block config = size_sub (size_add (cfg_block_size config) (cfg_warp_size config)) 1 div cfg_warp_size config"

definition registers_per_block :: "system_config \<Rightarrow> kernel_requirements \<Rightarrow> size_t" where
  "registers_per_block config req = size_mul (cfg_block_size config) (req_registers_per_thread req)"

definition max_blocks_by_threads :: "system_config \<Rightarrow> size_t" where
  "max_blocks_by_threads config = cfg_max_threads_per_sm config div cfg_block_size config"

definition max_blocks_by_warps :: "system_config \<Rightarrow> size_t" where
  "max_blocks_by_warps config = cfg_max_warps_per_sm config div occ_warps_per_block config"

definition max_blocks_by_regs :: "system_config \<Rightarrow> kernel_requirements \<Rightarrow> size_t" where
  "max_blocks_by_regs config req =
     (if registers_per_block config req > 0
      then cfg_max_registers_per_sm config div registers_per_block config req else cfg_max_blocks_per_sm config)"

definition max_blocks_by_shmem :: "system_config \<Rightarrow> kernel_requirements \<Rightarrow> size_t" where
  "max_blocks_by_shmem config req =
     (if req_shared_memory_per_block req > 0
      then cfg_max_shared_memory_per_sm config div req_shared_memory_per_block req else cfg_max_blocks_per_sm config)"

definition resident_blocks :: "system_config \<Rightarrow> kernel_requirements \<Rightarrow> size_t" where
  "resident_blocks config req =
     min (cfg_max_blocks_per_sm config) (min (max_blocks_by_threads config) (min (max_blocks_by_warps config)
       (min (max_blocks_by_regs config req) (max_blocks_by_shmem config req))))"

definition limiting_factor :: "system_config \<Rightarrow> kernel_requirements \<Rightarrow> string" where
  "limiting_factor config req =
     (let r = resident_blocks config req
      in if r = max_blocks_by_regs config req \<and> registers_per_block config req > 0 then ''Registers''
         else if r = max_blocks_by_shmem config req \<and> req_shared_memory_per_block req > 0 then ''Shared Memory''
         else if r = max_blocks_by_warps config then ''Warps''
         else if r = max_blocks_by_threads config then ''Threads''
         else ''Blocks'')"

definition compute_occupancy :: "system_config \<Rightarrow> kernel_requirements \<Rightarrow> occupancy_result result" where
  "compute_occupancy config req =
     (if cfg_block_size config = 0 \<or> cfg_warp_size config = 0
      then Inl (Invalid_argument ''warp_size and block_size must be > 0'')
      else if occ_warps_per_block config = 0 then Inl (Undefined ''division by zero'')
      else
        let blocks = resident_blocks config req; warps = size_mul blocks (occ_warps_per_block config);
            max_possible_warps = cfg_max_warps_per_sm config
        in Inr \<lparr>occ_resident_blocks = blocks, occ_resident_warps = warps,
                occ_percentage = (if max_possible_warps > 0 then of_nat warps / of_nat max_possible_warps else 0),
                occ_limiting_factor = limiting_factor config req\<rparr>)"

text \<open>It is the number of warps of a block unless the sum wraps, when it may be 0.\<close>

lemma occ_warps_per_block_exact:
  assumes "cfg_block_size c \<noteq> 0" and "cfg_warp_size c \<noteq> 0" and "cfg_block_size c + cfg_warp_size c < 2 ^ 64"
  shows "occ_warps_per_block c = (cfg_block_size c + cfg_warp_size c - 1) div cfg_warp_size c" and "0 < occ_warps_per_block c"
  using assms by (simp_all add: occ_warps_per_block_def size_add_exact size_sub_exact div_greater_zero_iff)

lemma compute_occupancy_total:
  assumes "cfg_block_size c \<noteq> 0" and "cfg_warp_size c \<noteq> 0" and "cfg_block_size c + cfg_warp_size c < 2 ^ 64"
  shows "\<exists>occ. compute_occupancy c req = Inr occ"
  using occ_warps_per_block_exact(2)[OF assms] assms by (simp add: compute_occupancy_def Let_def)

lemma compute_occupancy_blocks:
  assumes "compute_occupancy c req = Inr occ"
  shows "n \<le> occ_resident_blocks occ \<longleftrightarrow>
    n \<le> cfg_max_blocks_per_sm c \<and> n * cfg_block_size c \<le> cfg_max_threads_per_sm c \<and>
    n * occ_warps_per_block c \<le> cfg_max_warps_per_sm c \<and>
    (n * registers_per_block c req \<le> cfg_max_registers_per_sm c) \<and>
    n * req_shared_memory_per_block req \<le> cfg_max_shared_memory_per_sm c"
proof -
  have nz: "cfg_block_size c \<noteq> 0" and wp: "0 < occ_warps_per_block c" and e: "occ_resident_blocks occ = resident_blocks c req"
    using assms by (auto simp: compute_occupancy_def Let_def split: if_splits)
  have le: "n \<le> M div x \<longleftrightarrow> n * x \<le> M" if "0 < x" for M x :: nat
    using that by (rule less_eq_div_iff_mult_less_eq)
  have "n \<le> resident_blocks c req \<longleftrightarrow> n \<le> cfg_max_blocks_per_sm c \<and> n \<le> max_blocks_by_threads c \<and>
      n \<le> max_blocks_by_warps c \<and> n \<le> max_blocks_by_regs c req \<and> n \<le> max_blocks_by_shmem c req"
    by (simp add: resident_blocks_def)
  moreover have "n \<le> max_blocks_by_threads c \<longleftrightarrow> n * cfg_block_size c \<le> cfg_max_threads_per_sm c"
    "n \<le> max_blocks_by_warps c \<longleftrightarrow> n * occ_warps_per_block c \<le> cfg_max_warps_per_sm c"
    using nz wp by (simp_all add: max_blocks_by_threads_def max_blocks_by_warps_def le)
  moreover have "n \<le> cfg_max_blocks_per_sm c \<Longrightarrow> n \<le> max_blocks_by_regs c req \<longleftrightarrow>
      n * registers_per_block c req \<le> cfg_max_registers_per_sm c"
    using le[of "registers_per_block c req"] by (auto simp: max_blocks_by_regs_def)
  moreover have "n \<le> cfg_max_blocks_per_sm c \<Longrightarrow> n \<le> max_blocks_by_shmem c req \<longleftrightarrow>
      n * req_shared_memory_per_block req \<le> cfg_max_shared_memory_per_sm c"
    using le[of "req_shared_memory_per_block req"] by (auto simp: max_blocks_by_shmem_def)
  ultimately show ?thesis unfolding e by blast
qed

text \<open>Blocks of the shape the configuration describes.\<close>

definition uniform_block :: "system_config \<Rightarrow> thread_block \<Rightarrow> bool" where
  "uniform_block c b \<longleftrightarrow> block_threads b = cfg_block_size c \<and> length (tb_warps b) = occ_warps_per_block c"

text \<open>\<open>n\<close> such blocks are resident and nothing else.\<close>

definition holds_blocks :: "system_config \<Rightarrow> kernel_requirements \<Rightarrow> nat \<Rightarrow> sm \<Rightarrow> bool" where
  "holds_blocks c req n s \<longleftrightarrow>
     sm_allocated_blocks s = n \<and> sm_allocated_warps s = n * occ_warps_per_block c \<and>
     sm_allocated_threads s = n * cfg_block_size c \<and>
     sm_allocated_registers s = n * registers_per_block c req \<and>
     sm_allocated_shared_memory s = n * req_shared_memory_per_block req"

lemma can_admit_occupancy:
  assumes "compute_occupancy c req = Inr occ" and "holds_blocks c req n s" and "uniform_block c b"
  shows "can_admit s b c req \<longleftrightarrow> n + 1 \<le> occ_resident_blocks occ"
  using assms(2,3) unfolding compute_occupancy_blocks[OF assms(1)]
  by (auto simp: can_admit_def Let_def holds_blocks_def uniform_block_def registers_per_block_def algebra_simps not_le)

lemma allocate_holds:
  "holds_blocks c req n s \<Longrightarrow> uniform_block c b \<Longrightarrow> holds_blocks c req (n + 1) (allocate_block s b req)"
  by (simp add: holds_blocks_def uniform_block_def registers_per_block_def allocate_block_fields algebra_simps)

lemma dispatch_occupancy:
  assumes occ: "compute_occupancy c req = Inr occ"
  shows "\<forall>b \<in> set p. uniform_block c b \<Longrightarrow> holds_blocks c req n s \<Longrightarrow> n \<le> occ_resident_blocks occ \<Longrightarrow>
    0 < occ_resident_blocks occ \<Longrightarrow> idx \<le> length p \<Longrightarrow>
    \<exists>s'. dispatch c req p idx s = Inr (idx + min (length p - idx) (occ_resident_blocks occ - n), s')"
proof (induction "length p - idx" arbitrary: idx n s)
  case 0
  then show ?case by (simp add: dispatch.simps[of c req p idx s])
next
  case (Suc k)
  then have lt: "idx < length p" by simp
  have ub: "uniform_block c (p ! idx)" using Suc.prems(1) lt by simp
  show ?case
  proof (cases "n + 1 \<le> occ_resident_blocks occ")
    case True
    then have adm: "can_admit s (p ! idx) c req" using can_admit_occupancy[OF occ Suc.prems(2) ub] by simp
    obtain s' where "dispatch c req p (idx + 1) (allocate_block s (p ! idx) req) =
        Inr (idx + 1 + min (length p - (idx + 1)) (occ_resident_blocks occ - (n + 1)), s')"
    proof -
      have "k = length p - (idx + 1)" using Suc.hyps(2) by linarith
      moreover have "idx + 1 \<le> length p" using lt by simp
      ultimately show ?thesis
        using Suc.hyps(1)[OF _ Suc.prems(1) allocate_holds[OF Suc.prems(2) ub] True Suc.prems(4)] that by blast
    qed
    moreover have "idx + 1 + min (length p - (idx + 1)) (occ_resident_blocks occ - (n + 1)) =
        idx + min (length p - idx) (occ_resident_blocks occ - n)" using True lt by simp
    ultimately have "dispatch c req p idx s = Inr (idx + min (length p - idx) (occ_resident_blocks occ - n), s')"
      using adm lt by (simp add: dispatch.simps[of c req p idx s])
    then show ?thesis by blast
  next
    case False
    then have adm: "\<not> can_admit s (p ! idx) c req" using can_admit_occupancy[OF occ Suc.prems(2) ub] by simp
    have "n = occ_resident_blocks occ" using False Suc.prems(3) by simp
    then have "sm_allocated_blocks s \<noteq> 0" using Suc.prems(2,4) by (simp add: holds_blocks_def)
    then show ?thesis using adm lt \<open>n = occ_resident_blocks occ\<close> by (simp add: dispatch.simps[of c req p idx s])
  qed
qed

lemma cleared_holds: "holds_blocks c req 0 (clear_warps s)"
  by (simp add: holds_blocks_def clear_warps_def)

lemma occupancy_percentage_range:
  assumes "compute_occupancy c req = Inr occ"
  shows "0 \<le> occ_percentage occ \<and> occ_percentage occ \<le> 1"
proof -
  have "occ_resident_blocks occ * occ_warps_per_block c \<le> cfg_max_warps_per_sm c"
    using compute_occupancy_blocks[OF assms, of "occ_resident_blocks occ"] by simp
  then have "size_mul (occ_resident_blocks occ) (occ_warps_per_block c) \<le> cfg_max_warps_per_sm c"
    unfolding size_mul_def by (rule le_trans[OF mod_less_eq_dividend])
  then have "(of_nat (size_mul (occ_resident_blocks occ) (occ_warps_per_block c)) :: rat) \<le> of_nat (cfg_max_warps_per_sm c)"
    by (rule of_nat_mono)
  moreover have "occ_percentage occ = (if cfg_max_warps_per_sm c > 0
      then of_nat (size_mul (occ_resident_blocks occ) (occ_warps_per_block c)) / of_nat (cfg_max_warps_per_sm c) else 0)"
    using assms unfolding compute_occupancy_def Let_def by (auto split: if_splits)
  ultimately show ?thesis by (simp add: divide_le_eq_1)
qed

end
