(* ===== verification/Metrics.thy ===== *)
theory Metrics
  imports Occupancy
begin

text \<open>
  What \<^verbatim>\<open>src/runtime/benchmarks.cpp\<close> and \<^verbatim>\<open>src/analysis/sweep_engine.cpp\<close> read off a GPU after a
  run: the counters summed over the SMs, and the metrics derived from the sums.
\<close>

section \<open>Runs that may not end\<close>

text \<open>A computation around \<open>run_to_completion\<close>: \<open>None\<close> is a run that does not end.\<close>

definition bindO :: "'a result option \<Rightarrow> ('a \<Rightarrow> 'b result option) \<Rightarrow> 'b result option" where
  "bindO m f = (case m of None \<Rightarrow> None | Some (Inl e) \<Rightarrow> Some (Inl e) | Some (Inr x) \<Rightarrow> f x)"

lemma bindO_simps [simp]:
  "bindO None f = None" "bindO (Some (Inl e)) f = Some (Inl e)" "bindO (Some (Inr x)) f = f x"
  by (simp_all add: bindO_def)

lemma bindO_eq [simp]: "bindO m f = Some (Inr y) \<longleftrightarrow> (\<exists>x. m = Some (Inr x) \<and> f x = Some (Inr y))"
  by (auto simp: bindO_def split: option.splits sum.splits)

text \<open>\<open>GPU gpu(config); if (logger) gpu.set_trace_logger(logger)\<close>\<close>

definition start_gpu :: "(nat \<Rightarrow> nat \<Rightarrow> nat) \<Rightarrow> system_config \<Rightarrow> bool \<Rightarrow> gpu result" where
  "start_gpu rng config traced = bindE (new_gpu rng config) (\<lambda>g. Inr (if traced then gpu_set_trace_logger g else g))"

definition run_kernel :: "gpu \<Rightarrow> kernel \<Rightarrow> grid \<Rightarrow> system_config \<Rightarrow> kernel_requirements \<Rightarrow> gpu result option" where
  "run_kernel g k gr config req = bindO (Some (launch_kernel g gr config req)) (run_to_completion k)"

section \<open>Totals\<close>

record run_totals =
  rt_cycles :: size_t
  rt_max_cycles :: size_t
  rt_instructions :: size_t
  rt_memory_instructions :: size_t
  rt_memory_transactions :: size_t
  rt_dirty_evictions :: size_t
  rt_bank_conflicts :: size_t
  rt_barrier_stalls :: size_t
  rt_write_conflicts :: size_t
  rt_no_ready_warp :: size_t
  rt_max_warp_wait :: size_t
  rt_starvation :: size_t
  rt_fairness :: rat
  rt_average_warp_wait :: rat
  rt_l1_hits :: size_t
  rt_l1_misses :: size_t
  rt_l2_hits :: size_t
  rt_l2_misses :: size_t

definition zero_totals :: "cache_stats \<Rightarrow> run_totals" where
  "zero_totals l2 =
     \<lparr>rt_cycles = 0, rt_max_cycles = 0, rt_instructions = 0, rt_memory_instructions = 0, rt_memory_transactions = 0,
      rt_dirty_evictions = 0, rt_bank_conflicts = 0, rt_barrier_stalls = 0, rt_write_conflicts = 0,
      rt_no_ready_warp = 0, rt_max_warp_wait = 0, rt_starvation = 0, rt_fairness = 0, rt_average_warp_wait = 0,
      rt_l1_hits = 0, rt_l1_misses = 0, rt_l2_hits = cs_hits l2, rt_l2_misses = cs_misses l2\<rparr>"

text \<open>The body of the loops over \<open>gpu.get_sms()\<close>.\<close>

definition add_sm :: "run_totals \<Rightarrow> sm \<Rightarrow> run_totals" where
  "add_sm t s =
     (let c = sm_counters s; l1 = ca_stats (sm_l1_cache s)
      in t\<lparr>rt_cycles := rt_cycles t + pf_cycles c,
            rt_max_cycles := max (rt_max_cycles t) (pf_cycles c),
            rt_instructions := rt_instructions t + pf_instructions_retired c,
            rt_memory_instructions := rt_memory_instructions t + pf_memory_instructions c,
            rt_memory_transactions := rt_memory_transactions t + pf_memory_transactions c,
            rt_dirty_evictions := rt_dirty_evictions t + pf_dirty_eviction_writebacks c,
            rt_bank_conflicts := rt_bank_conflicts t + pf_bank_conflict_stalls c,
            rt_barrier_stalls := rt_barrier_stalls t + pf_warp_barrier_stall_cycles c,
            rt_write_conflicts := rt_write_conflicts t + get_stalls WriteConflict c,
            rt_no_ready_warp := rt_no_ready_warp t + get_stalls NoReadyWarp c,
            rt_max_warp_wait := max (rt_max_warp_wait t) (pf_max_warp_wait_cycles c),
            rt_starvation := rt_starvation t + pf_starvation_events c,
            rt_fairness := rt_fairness t + get_jains_fairness_index c,
            rt_average_warp_wait := rt_average_warp_wait t + get_average_warp_wait_cycles c,
            rt_l1_hits := rt_l1_hits t + cs_hits l1,
            rt_l1_misses := rt_l1_misses t + cs_misses l1\<rparr>)"

definition collect :: "gpu \<Rightarrow> run_totals" where
  "collect g = foldl add_sm (zero_totals (ca_stats (gpu_l2_cache g))) (gpu_sms g)"

section \<open>Derived metrics\<close>

text \<open>\<open>(b > 0) ? (double)a / b : 0.0\<close>\<close>

definition ratio :: "size_t \<Rightarrow> size_t \<Rightarrow> rat" where
  "ratio a b = (if b > 0 then of_nat a / of_nat b else 0)"

definition report_amat :: "system_config \<Rightarrow> run_totals \<Rightarrow> rat" where
  "report_amat config t =
     (let l1_miss_rate = ratio (rt_l1_misses t) (rt_l1_hits t + rt_l1_misses t);
          l2_miss_rate = ratio (rt_l2_misses t) (rt_l2_hits t + rt_l2_misses t)
      in of_nat (cfg_l1_latency config) +
         l1_miss_rate * (of_nat (cfg_l2_latency config) + l2_miss_rate * of_nat (cfg_global_memory_latency config)) +
         (if rt_l1_hits t + rt_l1_misses t > 0
          then of_nat (rt_dirty_evictions t) / of_nat (rt_l1_hits t + rt_l1_misses t) * of_nat (cfg_writeback_latency config)
          else 0))"

text \<open>\<open>if (gpu.get_sms().size() > 0) x /= gpu.get_sms().size()\<close>\<close>

definition sm_average :: "gpu \<Rightarrow> rat \<Rightarrow> rat" where
  "sm_average g x = (if length (gpu_sms g) > 0 then x / of_nat (length (gpu_sms g)) else x)"

section \<open>Laws\<close>

lemma ratio_range: "a \<le> b \<Longrightarrow> 0 \<le> ratio a b \<and> ratio a b \<le> 1"
  by (auto simp: ratio_def divide_le_eq)

lemma add_sm_foldl:
  "rt_cycles (foldl add_sm t ss) = rt_cycles t + sum_list (map (\<lambda>s. pf_cycles (sm_counters s)) ss)"
  "rt_instructions (foldl add_sm t ss) = rt_instructions t + sum_list (map (\<lambda>s. pf_instructions_retired (sm_counters s)) ss)"
  "rt_no_ready_warp (foldl add_sm t ss) = rt_no_ready_warp t + sum_list (map (\<lambda>s. get_stalls NoReadyWarp (sm_counters s)) ss)"
  "rt_bank_conflicts (foldl add_sm t ss) = rt_bank_conflicts t + sum_list (map (\<lambda>s. pf_bank_conflict_stalls (sm_counters s)) ss)"
  "rt_memory_instructions (foldl add_sm t ss) =
     rt_memory_instructions t + sum_list (map (\<lambda>s. pf_memory_instructions (sm_counters s)) ss)"
  "rt_l1_misses (foldl add_sm t ss) = rt_l1_misses t + sum_list (map (\<lambda>s. cs_misses (ca_stats (sm_l1_cache s))) ss)"
  "rt_l1_hits (foldl add_sm t ss) = rt_l1_hits t + sum_list (map (\<lambda>s. cs_hits (ca_stats (sm_l1_cache s))) ss)"
  "rt_fairness (foldl add_sm t ss) = rt_fairness t + sum_list (map (\<lambda>s. get_jains_fairness_index (sm_counters s)) ss)"
  "rt_l2_hits (foldl add_sm t ss) = rt_l2_hits t" "rt_l2_misses (foldl add_sm t ss) = rt_l2_misses t"
  by (induction ss arbitrary: t) (simp_all add: add_sm_def Let_def)

lemma add_sm_max_ge: "rt_max_cycles t \<le> rt_max_cycles (foldl add_sm t ss)"
proof (induction ss arbitrary: t)
  case (Cons s ss)
  have "rt_max_cycles t \<le> rt_max_cycles (add_sm t s)" by (simp add: add_sm_def Let_def)
  also have "\<dots> \<le> rt_max_cycles (foldl add_sm (add_sm t s) ss)" by (rule Cons.IH)
  finally show ?case by simp
qed simp

lemma add_sm_max_mem: "s \<in> set ss \<Longrightarrow> pf_cycles (sm_counters s) \<le> rt_max_cycles (foldl add_sm t ss)"
proof (induction ss arbitrary: t)
  case (Cons s1 ss)
  have "pf_cycles (sm_counters s1) \<le> rt_max_cycles (add_sm t s1)" by (simp add: add_sm_def Let_def)
  from le_trans[OF this add_sm_max_ge] Cons show ?case by (cases "s = s1") auto
qed simp

lemma add_sm_max_attained:
  "rt_max_cycles (foldl add_sm t ss) = rt_max_cycles t \<or>
   (\<exists>s \<in> set ss. rt_max_cycles (foldl add_sm t ss) = pf_cycles (sm_counters s))"
proof (induction ss arbitrary: t)
  case (Cons s ss)
  from Cons.IH[of "add_sm t s"] show ?case by (auto simp: add_sm_def Let_def max_def)
qed simp

end
