(* ===== verification/Formatting.thy ===== *)
theory Formatting
  imports Complex_Main Prelude
begin

text \<open>
  The conversions of the C++ standard library between numbers and text that the program uses:
  \<open>std::to_string\<close> and \<open>operator<<\<close> of integers, also in hexadecimal, fixed-point output of a
  \<open>double\<close>, and \<open>std::stoi\<close> and \<open>std::stoll\<close>.
\<close>

section \<open>Printing\<close>

definition digit_char :: "nat \<Rightarrow> char" where
  "digit_char d = (''0123456789abcdef'' ! d)"

text \<open>The digits of a number, most significant first; 0 has one digit.\<close>

fun digits_in :: "nat \<Rightarrow> nat \<Rightarrow> nat list" where
  "digits_in b n = (if b < 2 \<or> n < b then [n] else digits_in b (n div b) @ [n mod b])"

declare digits_in.simps [simp del]

definition show_nat :: "nat \<Rightarrow> string" where
  "show_nat n = map digit_char (digits_in 10 n)"

definition show_hex :: "nat \<Rightarrow> string" where
  "show_hex n = map digit_char (digits_in 16 n)"

definition show_int :: "int \<Rightarrow> string" where
  "show_int i = (if i < 0 then ''-'' @ show_nat (nat (- i)) else show_nat (nat i))"

text \<open>
  \<open>std::fixed\<close> with \<open>n\<close> decimals: the value is rounded to the nearest, ties to even. The sign
  is printed for every negative value, and with \<open>std::showpos\<close> for every other value too.
\<close>

definition round_even :: "rat \<Rightarrow> int" where
  "round_even x =
     (let q = \<lfloor>x\<rfloor>; r = x - of_int q
      in if r < 1 / 2 \<or> (r = 1 / 2 \<and> even q) then q else q + 1)"

definition pad_left :: "nat \<Rightarrow> string \<Rightarrow> string" where
  "pad_left n s = replicate (n - length s) (CHR ''0'') @ s"

definition show_fixed :: "nat \<Rightarrow> rat \<Rightarrow> string" where
  "show_fixed n x =
     (let m = nat (round_even (\<bar>x\<bar> * 10 ^ n));
          frac = (if n = 0 then '''' else ''.'' @ pad_left n (show_nat (m mod 10 ^ n)))
      in (if x < 0 then ''-'' else '''') @ show_nat (m div 10 ^ n) @ frac)"

definition show_fixed_pos :: "nat \<Rightarrow> rat \<Rightarrow> string" where
  "show_fixed_pos n x = (if x < 0 then '''' else ''+'') @ show_fixed n x"

section \<open>Parsing\<close>

definition digit_value :: "char \<Rightarrow> nat option" where
  "digit_value c = (if of_char c \<in> {48..57 :: nat} then Some (of_char c - 48) else None)"

definition is_space :: "char \<Rightarrow> bool" where
  "is_space c \<longleftrightarrow> of_char c \<in> {9, 10, 11, 12, 13, 32 :: nat}"

text \<open>The value of the longest run of digits a string starts with, from the value before.\<close>

fun scan_digits :: "nat \<Rightarrow> string \<Rightarrow> nat" where
  "scan_digits acc [] = acc"
| "scan_digits acc (c # cs) = (case digit_value c of Some d \<Rightarrow> scan_digits (10 * acc + d) cs | None \<Rightarrow> acc)"

definition scan_nat :: "string \<Rightarrow> nat option" where
  "scan_nat s = (case s of c # cs \<Rightarrow> if digit_value c = None then None else Some (scan_digits 0 s) | [] \<Rightarrow> None)"

definition scan_int :: "string \<Rightarrow> int option" where
  "scan_int s =
     (case dropWhile is_space s of
        [] \<Rightarrow> None
      | c # cs \<Rightarrow> if c = CHR ''-'' then map_option (\<lambda>n. - int n) (scan_nat cs)
                  else if c = CHR ''+'' then map_option int (scan_nat cs)
                  else map_option int (scan_nat (c # cs)))"

text \<open>\<open>std::stoi\<close> and \<open>std::stoll\<close>, for the width of their result.\<close>

definition sto_int :: "string \<Rightarrow> nat \<Rightarrow> string \<Rightarrow> int result" where
  "sto_int name bits s =
     (case scan_int s of
        None \<Rightarrow> Inl (Invalid_argument name)
      | Some i \<Rightarrow> if - (2 ^ (bits - 1)) \<le> i \<and> i < 2 ^ (bits - 1) then Inr i else Inl (Out_of_range name))"

definition stoi :: "string \<Rightarrow> c_int result" where
  "stoi s = bindE (sto_int ''stoi'' 32 s) (\<lambda>i. Inr (word_of_int i))"

definition stoll :: "string \<Rightarrow> int result" where
  "stoll s = sto_int ''stoll'' 64 s"

section \<open>What is printed is parsed again\<close>

lemma digits_in_less: "2 \<le> b \<Longrightarrow> d \<in> set (digits_in b n) \<Longrightarrow> d < b"
  by (induction b n rule: digits_in.induct) (subst (asm) (2) digits_in.simps, auto split: if_splits)

lemma digits_in_nonempty: "digits_in b n \<noteq> []"
  by (subst digits_in.simps) auto

lemma digits_in_value: "2 \<le> b \<Longrightarrow> foldl (\<lambda>a d. b * a + d) 0 (digits_in b n) = n"
proof (induction b n rule: digits_in.induct)
  case (1 b n)
  show ?case
  proof (cases "n < b")
    case True
    then show ?thesis by (subst digits_in.simps) simp
  next
    case False
    then show ?thesis using 1 by (subst digits_in.simps) simp
  qed
qed

lemma digit_value_char: "d < 10 \<Longrightarrow> digit_value (digit_char d) = Some d"
proof -
  assume "d < 10"
  then have "d \<in> {0, 1, 2, 3, 4, 5, 6, 7, 8, 9}" by auto
  then show ?thesis by (auto simp: digit_char_def digit_value_def)
qed

lemma scan_digits_map:
  "(\<forall>d \<in> set ds. d < 10) \<Longrightarrow> scan_digits acc (map digit_char ds) = foldl (\<lambda>a d. 10 * a + d) acc ds"
  by (induction ds arbitrary: acc) (auto simp: digit_value_char)

lemma show_nat_digits: "\<exists>d ds. d < 10 \<and> show_nat n = digit_char d # ds"
proof -
  obtain d ds where "digits_in 10 n = d # ds" using digits_in_nonempty by (cases "digits_in 10 n") auto
  moreover from this have "d < 10" using digits_in_less[of 10 d n] by simp
  ultimately show ?thesis by (auto simp: show_nat_def)
qed

lemma scan_show_nat: "scan_nat (show_nat n) = Some n"
proof -
  obtain d ds where d: "d < 10" "show_nat n = digit_char d # ds" using show_nat_digits by blast
  have "scan_digits 0 (show_nat n) = n"
    unfolding show_nat_def using digits_in_less[of 10] digits_in_value[of 10 n]
    by (subst scan_digits_map) auto
  then show ?thesis using d by (simp add: scan_nat_def digit_value_char)
qed

lemma digit_char_plain: "d < 10 \<Longrightarrow> \<not> is_space (digit_char d) \<and> digit_char d \<noteq> CHR ''-'' \<and> digit_char d \<noteq> CHR ''+''"
proof -
  assume "d < 10"
  then have "d \<in> {0, 1, 2, 3, 4, 5, 6, 7, 8, 9}" by auto
  then show ?thesis by (auto simp: digit_char_def is_space_def)
qed

lemma scan_show_int: "scan_int (show_int i) = Some i"
proof -
  obtain d ds where d: "d < 10" "show_nat (nat i) = digit_char d # ds" using show_nat_digits by blast
  have "\<not> is_space (CHR ''-'')" by (simp add: is_space_def)
  then show ?thesis
    using d digit_char_plain[OF d(1)] scan_show_nat[of "nat i"] scan_show_nat[of "nat (- i)"]
    by (auto simp: scan_int_def show_int_def)
qed

end
