(* ===== verification/Sweep.thy ===== *)
theory Sweep
  imports Metrics Formatting
begin

text \<open>
  \<^verbatim>\<open>src/analysis/sweep_engine.cpp\<close>: the Cartesian product of the swept parameters over a base
  configuration, the simulation of one configuration, and the sweep. The loops that expand the
  product replace the list of configurations once per parameter that has values.
\<close>

record parameter_space =
  ps_scheduler_policies :: "string list"
  ps_l1_sets :: "size_t list"
  ps_max_registers_per_sm :: "size_t list"
  ps_max_shared_memory_per_sm :: "size_t list"
  ps_max_warps_per_sm :: "size_t list"

record simulation_result =
  sr_config :: system_config
  sr_run_name :: string
  sr_total_cycles :: size_t
  sr_instructions_retired :: size_t
  sr_memory_instructions :: size_t
  sr_memory_transactions :: size_t
  sr_l1_hits :: size_t
  sr_l1_misses :: size_t
  sr_l2_hits :: size_t
  sr_l2_misses :: size_t
  sr_bank_conflicts :: size_t
  sr_dirty_evictions :: size_t
  sr_no_ready_warp_cycles :: size_t
  sr_max_warp_wait_cycles :: size_t
  sr_starvation_events :: size_t
  sr_ipc :: rat
  sr_amat :: rat
  sr_occupancy :: rat
  sr_fairness :: rat
  sr_l1_hit_rate :: rat
  sr_l2_hit_rate :: rat
  sr_bank_conflict_rate :: rat
  sr_ipc_utilization :: rat

section \<open>The configurations of a sweep\<close>

text \<open>\<open>if (!values.empty()) { for c in configs: for v in values: expanded.push_back(c with v) }\<close>\<close>

definition expand :: "('v \<Rightarrow> system_config \<Rightarrow> system_config) \<Rightarrow> 'v list \<Rightarrow> system_config list \<Rightarrow> system_config list" where
  "expand set_value values configs =
     (if values \<noteq> [] then concat (map (\<lambda>c. map (\<lambda>v. set_value v c) values) configs) else configs)"

definition with_scheduler :: "string \<Rightarrow> system_config \<Rightarrow> system_config" where
  "with_scheduler v c = c\<lparr>cfg_scheduler_policy := v\<rparr>"

definition with_l1_sets :: "size_t \<Rightarrow> system_config \<Rightarrow> system_config" where
  "with_l1_sets v c = c\<lparr>cfg_l1_sets := v\<rparr>"

definition with_registers :: "size_t \<Rightarrow> system_config \<Rightarrow> system_config" where
  "with_registers v c = c\<lparr>cfg_max_registers_per_sm := v\<rparr>"

definition with_shared_memory :: "size_t \<Rightarrow> system_config \<Rightarrow> system_config" where
  "with_shared_memory v c = c\<lparr>cfg_max_shared_memory_per_sm := v\<rparr>"

definition with_warps :: "size_t \<Rightarrow> system_config \<Rightarrow> system_config" where
  "with_warps v c = c\<lparr>cfg_max_warps_per_sm := v\<rparr>"

definition generate_configurations :: "system_config \<Rightarrow> parameter_space \<Rightarrow> system_config list" where
  "generate_configurations base_config space =
     expand with_warps (ps_max_warps_per_sm space)
       (expand with_shared_memory (ps_max_shared_memory_per_sm space)
         (expand with_registers (ps_max_registers_per_sm space)
           (expand with_l1_sets (ps_l1_sets space)
             (expand with_scheduler (ps_scheduler_policies space) [base_config]))))"

section \<open>One configuration\<close>

definition result_of :: "system_config \<Rightarrow> kernel_requirements \<Rightarrow> size_t \<Rightarrow> gpu \<Rightarrow> simulation_result result" where
  "result_of config req config_idx g =
     (let t = collect g; ipc = ratio (rt_instructions t) (rt_max_cycles t); num_sms = length (gpu_sms g)
      in bindE (compute_occupancy config req) (\<lambda>occ.
         Inr \<lparr>sr_config = config, sr_run_name = ''Config_'' @ show_nat config_idx,
              sr_total_cycles = rt_max_cycles t, sr_instructions_retired = rt_instructions t,
              sr_memory_instructions = rt_memory_instructions t, sr_memory_transactions = rt_memory_transactions t,
              sr_l1_hits = rt_l1_hits t, sr_l1_misses = rt_l1_misses t, sr_l2_hits = rt_l2_hits t,
              sr_l2_misses = rt_l2_misses t, sr_bank_conflicts = rt_bank_conflicts t,
              sr_dirty_evictions = rt_dirty_evictions t, sr_no_ready_warp_cycles = rt_no_ready_warp t,
              sr_max_warp_wait_cycles = rt_max_warp_wait t, sr_starvation_events = rt_starvation t,
              sr_ipc = ipc, sr_amat = report_amat config t,
              sr_occupancy = ratio (occ_resident_blocks occ) (cfg_max_blocks_per_sm config),
              sr_fairness = (if num_sms > 0 then rt_fairness t / of_nat num_sms else 0),
              sr_l1_hit_rate = ratio (rt_l1_hits t) (rt_l1_hits t + rt_l1_misses t),
              sr_l2_hit_rate = ratio (rt_l2_hits t) (rt_l2_hits t + rt_l2_misses t),
              sr_bank_conflict_rate = ratio (rt_bank_conflicts t) (rt_memory_instructions t),
              sr_ipc_utilization = (if cfg_num_sms config > 0 then ipc / of_nat (cfg_num_sms config) else 0)\<rparr>))"

definition execute_configuration ::
    "(nat \<Rightarrow> nat \<Rightarrow> nat) \<Rightarrow> system_config \<Rightarrow> kernel \<Rightarrow> grid \<Rightarrow> kernel_requirements \<Rightarrow> size_t
      \<Rightarrow> simulation_result result option" where
  "execute_configuration rng config k gr req config_idx =
     bindO (Some (new_gpu rng config)) (\<lambda>g.
     bindO (run_kernel g k gr config req) (\<lambda>g'. Some (result_of config req config_idx g')))"

fun execute_all ::
    "(nat \<Rightarrow> nat \<Rightarrow> nat) \<Rightarrow> kernel \<Rightarrow> grid \<Rightarrow> kernel_requirements \<Rightarrow> size_t \<Rightarrow> system_config list
      \<Rightarrow> simulation_result list result option" where
  "execute_all rng k gr req i [] = Some (Inr [])"
| "execute_all rng k gr req i (c # cs) =
     bindO (execute_configuration rng c k gr req i) (\<lambda>r.
     bindO (execute_all rng k gr req (i + 1) cs) (\<lambda>rs. Some (Inr (r # rs))))"

definition run_sweep ::
    "(nat \<Rightarrow> nat \<Rightarrow> nat) \<Rightarrow> system_config \<Rightarrow> kernel \<Rightarrow> grid \<Rightarrow> kernel_requirements \<Rightarrow> parameter_space
      \<Rightarrow> simulation_result list result option" where
  "run_sweep rng base_config k gr req space =
     execute_all rng k gr req 0 (generate_configurations base_config space)"

section \<open>The sweep is the Cartesian product\<close>

text \<open>The values a parameter takes: those swept, or the one of the base configuration.\<close>

definition choices :: "'v list \<Rightarrow> 'v \<Rightarrow> 'v list" where
  "choices values base = (if values = [] then [base] else values)"

lemma expand_set: "set (expand f vs cs) = (if vs = [] then set cs else {f v c | v c. v \<in> set vs \<and> c \<in> set cs})"
  by (auto simp: expand_def)

lemma expand_length: "length (expand f vs cs) = max 1 (length vs) * length cs"
  by (cases vs) (auto simp: expand_def length_concat comp_def sum_list_triv)

lemma expand_distinct:
  assumes "distinct cs" and "distinct vs" and get: "\<And>v c. get (f v c) = v" and restore: "\<And>v c. f (get c) (f v c) = c"
    and same: "\<forall>c \<in> set cs. get c = g"
  shows "distinct (expand f vs cs)"
proof (cases "vs = []")
  case True
  then show ?thesis using assms(1) by (simp add: expand_def)
next
  case False
  have inj: "v = v'" if "f v c = f v' c'" for v v' c c'
    using arg_cong[OF that, of get] by (simp add: get)
  have "distinct (concat (map (\<lambda>c. map (\<lambda>v. f v c) vs) cs))"
    using assms(1) same
  proof (induction cs)
    case (Cons c cs)
    have "distinct (map (\<lambda>v. f v c) vs)" using assms(2) inj by (auto simp: distinct_map inj_on_def)
    moreover have "f v c \<noteq> f v' c'" if "c' \<in> set cs" for v v' c'
    proof
      assume e: "f v c = f v' c'"
      then have v: "v = v'" by (rule inj)
      have "c = f g (f v c)" "c' = f g (f v c')" using restore[of c v] restore[of c' v] Cons.prems(2) that by simp_all
      then have "c = c'" using e v by simp
      then show False using Cons.prems that by simp
    qed
    ultimately show ?case using Cons by auto
  qed simp
  then show ?thesis using False by (simp add: expand_def)
qed

definition combination :: "system_config \<Rightarrow> string \<Rightarrow> size_t \<Rightarrow> size_t \<Rightarrow> size_t \<Rightarrow> size_t \<Rightarrow> system_config" where
  "combination c p l r m w = with_warps w (with_shared_memory m (with_registers r (with_l1_sets l (with_scheduler p c))))"

lemmas with_defs = with_warps_def with_shared_memory_def with_registers_def with_l1_sets_def with_scheduler_def

lemma expand_choices:
  assumes "\<And>c. c \<in> set cs \<Longrightarrow> f (get c) c = c" and "\<And>c. c \<in> set cs \<Longrightarrow> get c = g"
  shows "set (expand f vs cs) = {f v c | v c. v \<in> set (choices vs g) \<and> c \<in> set cs}"
proof (cases "vs = []")
  case True
  have "f g c = c" if "c \<in> set cs" for c using assms that by metis
  then show ?thesis using True by (simp add: expand_set choices_def) (rule set_eqI, simp, metis)
qed (simp add: expand_set choices_def)

lemma configurations_set:
  "set (generate_configurations c sp) =
     {combination c p l r m w | p l r m w.
        p \<in> set (choices (ps_scheduler_policies sp) (cfg_scheduler_policy c)) \<and>
        l \<in> set (choices (ps_l1_sets sp) (cfg_l1_sets c)) \<and>
        r \<in> set (choices (ps_max_registers_per_sm sp) (cfg_max_registers_per_sm c)) \<and>
        m \<in> set (choices (ps_max_shared_memory_per_sm sp) (cfg_max_shared_memory_per_sm c)) \<and>
        w \<in> set (choices (ps_max_warps_per_sm sp) (cfg_max_warps_per_sm c))}"
proof -
  let ?e1 = "expand with_scheduler (ps_scheduler_policies sp) [c]"
  let ?e2 = "expand with_l1_sets (ps_l1_sets sp) ?e1"
  let ?e3 = "expand with_registers (ps_max_registers_per_sm sp) ?e2"
  let ?e4 = "expand with_shared_memory (ps_max_shared_memory_per_sm sp) ?e3"
  have 1: "set ?e1 = {with_scheduler p d | p d. p \<in> set (choices (ps_scheduler_policies sp) (cfg_scheduler_policy c)) \<and> d \<in> set [c]}"
    by (rule expand_choices[where get = cfg_scheduler_policy]) (simp_all add: with_defs)
  have 2: "set ?e2 = {with_l1_sets l d | l d. l \<in> set (choices (ps_l1_sets sp) (cfg_l1_sets c)) \<and> d \<in> set ?e1}"
    by (rule expand_choices[where get = cfg_l1_sets]) (auto simp: 1 with_defs)
  have 3: "set ?e3 = {with_registers r d | r d. r \<in> set (choices (ps_max_registers_per_sm sp) (cfg_max_registers_per_sm c)) \<and> d \<in> set ?e2}"
    by (rule expand_choices[where get = cfg_max_registers_per_sm]) (auto simp: 1 2 with_defs)
  have 4: "set ?e4 = {with_shared_memory m d | m d. m \<in> set (choices (ps_max_shared_memory_per_sm sp) (cfg_max_shared_memory_per_sm c)) \<and> d \<in> set ?e3}"
    by (rule expand_choices[where get = cfg_max_shared_memory_per_sm]) (auto simp: 1 2 3 with_defs)
  have 5: "set (generate_configurations c sp) = {with_warps w d | w d. w \<in> set (choices (ps_max_warps_per_sm sp) (cfg_max_warps_per_sm c)) \<and> d \<in> set ?e4}"
    unfolding generate_configurations_def
    by (rule expand_choices[where get = cfg_max_warps_per_sm]) (auto simp: 1 2 3 4 with_defs)
  show ?thesis unfolding 5 4 3 2 1 combination_def
    by (rule set_eqI) (simp only: mem_Collect_eq set_simps singleton_iff, blast)
qed

lemma configurations_distinct:
  assumes "distinct (ps_scheduler_policies sp)" and "distinct (ps_l1_sets sp)" and "distinct (ps_max_registers_per_sm sp)"
    and "distinct (ps_max_shared_memory_per_sm sp)" and "distinct (ps_max_warps_per_sm sp)"
  shows "distinct (generate_configurations c sp)"
proof -
  let ?e1 = "expand with_scheduler (ps_scheduler_policies sp) [c]"
  let ?e2 = "expand with_l1_sets (ps_l1_sets sp) ?e1"
  let ?e3 = "expand with_registers (ps_max_registers_per_sm sp) ?e2"
  let ?e4 = "expand with_shared_memory (ps_max_shared_memory_per_sm sp) ?e3"
  note sets = expand_set with_defs
  have "distinct ?e1"
    by (rule expand_distinct[where get = cfg_scheduler_policy and g = "cfg_scheduler_policy c"]) (simp_all add: assms with_defs)
  then have "distinct ?e2"
    by (rule expand_distinct[where get = cfg_l1_sets and g = "cfg_l1_sets c"]) (auto simp: assms sets)
  then have "distinct ?e3"
    by (rule expand_distinct[where get = cfg_max_registers_per_sm and g = "cfg_max_registers_per_sm c"])
      (auto simp: assms sets)
  then have "distinct ?e4"
    by (rule expand_distinct[where get = cfg_max_shared_memory_per_sm and g = "cfg_max_shared_memory_per_sm c"])
      (auto simp: assms sets)
  then show ?thesis unfolding generate_configurations_def
    by (rule expand_distinct[where get = cfg_max_warps_per_sm and g = "cfg_max_warps_per_sm c"]) (auto simp: assms sets)
qed

lemma execute_all_Inr:
  "execute_all rng k gr req i cs = Some (Inr rs) \<Longrightarrow>
   length rs = length cs \<and>
   (\<forall>n < length cs. execute_configuration rng (cs ! n) k gr req (i + n) = Some (Inr (rs ! n)))"
proof (induction cs arbitrary: i rs)
  case (Cons c cs)
  then obtain r rs1 where r: "execute_configuration rng c k gr req i = Some (Inr r)"
    "execute_all rng k gr req (i + 1) cs = Some (Inr rs1)" "rs = r # rs1" by auto
  from Cons.IH[OF r(2)] r show ?case by (auto simp: nth_Cons split: nat.splits)
qed simp

end
