(* ===== verification/Analyzer.thy ===== *)
theory Analyzer
  imports Sweep "HOL-Library.Multiset"
begin

text \<open>
  \<^verbatim>\<open>src/analysis/analyzer.cpp\<close>: the deltas of a result against the baseline, the scoring of the
  five bottleneck candidates, and the second pass that looks for evidence across the sweep.
  \<open>std::sort\<close> leaves the order of equal scores open: the sort is a parameter, and what it
  promises is the locale \<open>candidate_sort\<close>.
\<close>

record analysis_result =
  ar_sim_result :: simulation_result
  ar_is_baseline :: bool
  ar_speedup :: rat
  ar_cycle_delta_pct :: "rat option"
  ar_ipc_delta_pct :: rat
  ar_amat_delta_pct :: rat
  ar_occupancy_delta :: rat
  ar_fairness_delta :: rat
  ar_primary_bottleneck :: string
  ar_secondary_bottlenecks :: "string list"
  ar_contributing_factors :: "string list"
  ar_confidence :: string

section \<open>Pressures\<close>

text \<open>\<open>if (c) x += v\<close>\<close>

definition weight :: "bool \<Rightarrow> rat \<Rightarrow> rat" where
  "weight c v = (if c then v else 0)"

definition total_sm_cycles :: "simulation_result \<Rightarrow> rat" where
  "total_sm_cycles s = of_nat (sr_total_cycles s * cfg_num_sms (sr_config s))"

definition high_amat :: "simulation_result \<Rightarrow> bool" where
  "high_amat s \<longleftrightarrow> sr_amat s > of_nat (cfg_l1_latency (sr_config s)) * (3 / 2)"

definition uncoalesced :: "simulation_result \<Rightarrow> bool" where
  "uncoalesced s \<longleftrightarrow> sr_memory_instructions s > 0 \<and>
     of_nat (sr_memory_transactions s) / of_nat (sr_memory_instructions s) > (12 / 10 :: rat)"

definition many_idle_cycles :: "simulation_result \<Rightarrow> bool" where
  "many_idle_cycles s \<longleftrightarrow> of_nat (sr_no_ready_warp_cycles s) > total_sm_cycles s * (2 / 10)"

definition few_idle_cycles :: "simulation_result \<Rightarrow> bool" where
  "few_idle_cycles s \<longleftrightarrow> of_nat (sr_no_ready_warp_cycles s) < total_sm_cycles s * (1 / 10)"

definition memory_pressure :: "simulation_result \<Rightarrow> rat" where
  "memory_pressure s =
     weight (high_amat s) 1 + weight (sr_l1_hit_rate s < 8 / 10) 1 + weight (uncoalesced s) 1 +
     weight (many_idle_cycles s) (1 / 2)"

definition compute_pressure :: "simulation_result \<Rightarrow> rat" where
  "compute_pressure s = weight (sr_ipc_utilization s > 7 / 10) 2 + weight (few_idle_cycles s) 1"

definition occupancy_pressure :: "simulation_result \<Rightarrow> rat" where
  "occupancy_pressure s =
     weight (sr_occupancy s < 1 / 2) 1 + weight (many_idle_cycles s \<and> memory_pressure s < 3 / 2) 1"

definition scheduler_pressure :: "simulation_result \<Rightarrow> rat" where
  "scheduler_pressure s =
     weight (sr_starvation_events s > 0) 2 + weight (sr_max_warp_wait_cycles s > 500) 1 +
     weight (sr_fairness s < 7 / 10 \<and> of_nat (sr_no_ready_warp_cycles s) > total_sm_cycles s * (1 / 10)) (1 / 2)"

definition bank_conflict_pressure :: "simulation_result \<Rightarrow> rat" where
  "bank_conflict_pressure s =
     weight (sr_bank_conflict_rate s > 1 / 10) 1 +
     weight (of_nat (sr_bank_conflicts s) > total_sm_cycles s * (5 / 100)) 1"

section \<open>Candidates\<close>

record candidate =
  cand_name :: string
  cand_score :: rat
  cand_evidence :: "string list"

definition evidence_if :: "bool \<Rightarrow> string \<Rightarrow> string list" where
  "evidence_if c e = (if c then [e] else [])"

definition candidates :: "simulation_result \<Rightarrow> candidate list" where
  "candidates s =
     [\<lparr>cand_name = ''Compute'', cand_score = compute_pressure s,
       cand_evidence =
         evidence_if (sr_ipc_utilization s > 7 / 10) (''High IPC utilization ('' @ show_fixed 6 (sr_ipc_utilization s) @ '')'') @
         evidence_if (few_idle_cycles s) ''Low NoReadyWarpCycles''\<rparr>,
      \<lparr>cand_name = ''Memory Latency'', cand_score = memory_pressure s,
       cand_evidence =
         evidence_if (high_amat s) (''High AMAT ('' @ show_fixed 6 (sr_amat s) @ '')'') @
         evidence_if (sr_l1_hit_rate s < 8 / 10) (''Low L1 hit rate ('' @ show_fixed 6 (sr_l1_hit_rate s) @ '')'') @
         evidence_if (uncoalesced s) ''Uncoalesced accesses driving high memory transactions''\<rparr>,
      \<lparr>cand_name = ''Occupancy'', cand_score = occupancy_pressure s,
       cand_evidence =
         evidence_if (sr_occupancy s < 1 / 2) (''Low occupancy ('' @ show_fixed 6 (sr_occupancy s) @ '')'') @
         evidence_if (many_idle_cycles s) ''High NoReadyWarpCycles without severe memory pressure''\<rparr>,
      \<lparr>cand_name = ''Scheduler Inefficiency'', cand_score = scheduler_pressure s,
       cand_evidence =
         evidence_if (sr_starvation_events s > 0) (''Starvation events detected ('' @ show_nat (sr_starvation_events s) @ '')'') @
         evidence_if (sr_max_warp_wait_cycles s > 500) (''High max warp wait cycles ('' @ show_nat (sr_max_warp_wait_cycles s) @ '')'') @
         evidence_if (sr_fairness s < 7 / 10) (''Low fairness ('' @ show_fixed 6 (sr_fairness s) @ '')'')\<rparr>,
      \<lparr>cand_name = ''Bank Conflicts'', cand_score = bank_conflict_pressure s,
       cand_evidence =
         evidence_if (sr_bank_conflict_rate s > 1 / 10) (''High bank conflict rate ('' @ show_fixed 6 (sr_bank_conflict_rate s) @ '')'') @
         evidence_if (of_nat (sr_bank_conflicts s) > (of_nat (sr_total_cycles s) :: rat) * (5 / 100))
           ''Bank conflicts represent significant cycle cost''\<rparr>]"

definition confidence_of :: "rat \<Rightarrow> string" where
  "confidence_of score = (if score \<ge> 5 / 2 then ''High'' else if score \<ge> 3 / 2 then ''Medium'' else ''Low'')"

text \<open>The candidates after the first one that score at least 1, with their evidence.\<close>

definition secondary_factors :: "candidate list \<Rightarrow> string list" where
  "secondary_factors cs =
     concat (map (\<lambda>c. map (\<lambda>ev. cand_name c @ '' -> '' @ ev) (cand_evidence c)) (filter (\<lambda>c. cand_score c \<ge> 1) cs))"

definition diagnose_bottleneck :: "(candidate list \<Rightarrow> candidate list) \<Rightarrow> analysis_result \<Rightarrow> analysis_result" where
  "diagnose_bottleneck srt res =
     (let cs = srt (candidates (ar_sim_result res)); top = hd cs
      in if cand_score top < 1
         then res\<lparr>ar_primary_bottleneck := ''Unclassified'', ar_confidence := ''Low'',
                  ar_contributing_factors := ar_contributing_factors res @ [''No dominant architectural bottleneck identified.'']\<rparr>
         else let factors = cand_evidence top @ secondary_factors (tl cs)
              in res\<lparr>ar_primary_bottleneck := cand_name top, ar_confidence := confidence_of (cand_score top),
                     ar_secondary_bottlenecks :=
                       ar_secondary_bottlenecks res @ map cand_name (filter (\<lambda>c. cand_score c \<ge> 1) (tl cs)),
                     ar_contributing_factors := (if factors = [] then [''No strong evidence collected.''] else factors)\<rparr>)"

section \<open>Deltas\<close>

text \<open>\<open>(target - base) / base * 100\<close>; a double that is not finite is \<open>None\<close>.\<close>

definition delta_pct :: "rat \<Rightarrow> rat \<Rightarrow> rat" where
  "delta_pct base target = (if base > 0 then (target - base) / base * 100 else 0)"

definition cycle_delta :: "size_t \<Rightarrow> size_t \<Rightarrow> rat option" where
  "cycle_delta base target =
     (if target > 0
      then if base = 0 then None else Some ((of_nat target - of_nat base) / of_nat base * 100)
      else Some 0)"

definition compute_deltas_and_bottlenecks ::
    "(candidate list \<Rightarrow> candidate list) \<Rightarrow> simulation_result \<Rightarrow> simulation_result \<Rightarrow> bool \<Rightarrow> analysis_result" where
  "compute_deltas_and_bottlenecks srt baseline target is_baseline =
     diagnose_bottleneck srt
       \<lparr>ar_sim_result = target, ar_is_baseline = is_baseline,
        ar_speedup = (if sr_total_cycles target > 0 then of_nat (sr_total_cycles baseline) / of_nat (sr_total_cycles target) else 1),
        ar_cycle_delta_pct = cycle_delta (sr_total_cycles baseline) (sr_total_cycles target),
        ar_ipc_delta_pct = delta_pct (sr_ipc baseline) (sr_ipc target),
        ar_amat_delta_pct = delta_pct (sr_amat baseline) (sr_amat target),
        ar_occupancy_delta = sr_occupancy target - sr_occupancy baseline,
        ar_fairness_delta = sr_fairness target - sr_fairness baseline,
        ar_primary_bottleneck = '''', ar_secondary_bottlenecks = [], ar_contributing_factors = [], ar_confidence = ''''\<rparr>"

section \<open>Evidence across the sweep\<close>

definition same_scheduler :: "system_config \<Rightarrow> system_config \<Rightarrow> bool" where
  "same_scheduler a b \<longleftrightarrow> cfg_scheduler_policy a = cfg_scheduler_policy b"

definition same_l1 :: "system_config \<Rightarrow> system_config \<Rightarrow> bool" where
  "same_l1 a b \<longleftrightarrow> cfg_l1_sets a = cfg_l1_sets b"

definition same_registers :: "system_config \<Rightarrow> system_config \<Rightarrow> bool" where
  "same_registers a b \<longleftrightarrow> cfg_max_registers_per_sm a = cfg_max_registers_per_sm b"

definition same_shared :: "system_config \<Rightarrow> system_config \<Rightarrow> bool" where
  "same_shared a b \<longleftrightarrow> cfg_max_shared_memory_per_sm a = cfg_max_shared_memory_per_sm b"

definition same_warps :: "system_config \<Rightarrow> system_config \<Rightarrow> bool" where
  "same_warps a b \<longleftrightarrow> cfg_max_warps_per_sm a = cfg_max_warps_per_sm b"

definition diff_count :: "system_config \<Rightarrow> system_config \<Rightarrow> nat" where
  "diff_count a b =
     of_bool (\<not> same_scheduler a b) + of_bool (\<not> same_l1 a b) + of_bool (\<not> same_registers a b) +
     of_bool (\<not> same_shared a b) + of_bool (\<not> same_warps a b)"

text \<open>Result \<open>b\<close> shows that more occupancy helps \<open>a\<close>: one occupancy parameter differs, and cycles fell.\<close>

definition occupancy_evidence :: "simulation_result \<Rightarrow> simulation_result \<Rightarrow> bool" where
  "occupancy_evidence a b \<longleftrightarrow>
     diff_count (sr_config b) (sr_config a) = 1 \<and>
     (\<not> same_registers (sr_config b) (sr_config a) \<or> \<not> same_shared (sr_config b) (sr_config a) \<or>
      \<not> same_warps (sr_config b) (sr_config a)) \<and>
     sr_occupancy b > sr_occupancy a \<and> sr_total_cycles b < sr_total_cycles a"

definition scheduler_evidence :: "simulation_result \<Rightarrow> simulation_result \<Rightarrow> bool" where
  "scheduler_evidence a b \<longleftrightarrow>
     \<not> same_scheduler (sr_config b) (sr_config a) \<and> same_l1 (sr_config b) (sr_config a) \<and>
     same_registers (sr_config b) (sr_config a) \<and> same_shared (sr_config b) (sr_config a) \<and>
     same_warps (sr_config b) (sr_config a) \<and> sr_total_cycles b < sr_total_cycles a"

definition add_factor :: "string \<Rightarrow> analysis_result \<Rightarrow> analysis_result" where
  "add_factor f res = res\<lparr>ar_contributing_factors := ar_contributing_factors res @ [f]\<rparr>"

definition validate :: "simulation_result list \<Rightarrow> nat \<Rightarrow> analysis_result \<Rightarrow> analysis_result" where
  "validate results i res =
     (let a = results ! i;
          found = list_ex (\<lambda>j. i \<noteq> j \<and> occupancy_evidence a (results ! j)) [0..<length results];
          res1 = (if found \<and> ar_primary_bottleneck res = ''Occupancy''
                  then add_factor ''Sweep evidence validates occupancy limitation: higher occupancy config reduced cycles.''
                         (res\<lparr>ar_confidence := ''High''\<rparr>)
                  else if ar_primary_bottleneck res = ''Occupancy'' \<and> ar_confidence res = ''Medium''
                  then add_factor ''No configuration sweep found that improved performance by increasing occupancy.''
                         (res\<lparr>ar_confidence := ''Low''\<rparr>)
                  else res)
      in if ar_primary_bottleneck res1 = ''Scheduler Inefficiency'' \<and>
            list_ex (\<lambda>j. scheduler_evidence a (results ! j)) [0..<length results]
         then add_factor ''Sweep evidence: Alternative scheduler improved cycles.'' res1 else res1)"

definition analyze ::
    "(candidate list \<Rightarrow> candidate list) \<Rightarrow> simulation_result list \<Rightarrow> size_t \<Rightarrow> analysis_result list" where
  "analyze srt results baseline_index =
     (if results = [] then []
      else let base = (if baseline_index \<ge> length results then 0 else baseline_index);
               baseline = results ! base;
               first_pass = map (\<lambda>i. compute_deltas_and_bottlenecks srt baseline (results ! i) (i = base)) [0..<length results]
           in map (\<lambda>(i, res). validate results i res) (enumerate 0 first_pass))"

section \<open>What the diagnosis relies on\<close>

text \<open>What \<open>std::sort\<close> with the comparison of the scores promises.\<close>

locale candidate_sort =
  fixes srt :: "candidate list \<Rightarrow> candidate list"
  assumes permutes: "mset (srt cs) = mset cs"
    and descending: "sorted_wrt (\<lambda>a b. cand_score a \<ge> cand_score b) (srt cs)"
begin

lemma top_maximal:
  assumes "cs \<noteq> []"
  shows "hd (srt cs) \<in> set cs \<and> (\<forall>c \<in> set cs. cand_score c \<le> cand_score (hd (srt cs)))"
proof -
  have s: "set (srt cs) = set cs" using permutes by (rule mset_eq_setD)
  then obtain c rest where r: "srt cs = c # rest" using assms by (cases "srt cs") auto
  then show ?thesis using descending[of cs] s by auto
qed

lemma rest_permutes:
  assumes "cs \<noteq> []"
  shows "add_mset (hd (srt cs)) (mset (tl (srt cs))) = mset cs"
proof -
  have "srt cs \<noteq> []" using assms permutes[of cs] by (metis mset_zero_iff)
  then show ?thesis using permutes[of cs] by (metis list.collapse mset.simps(2))
qed

end

text \<open>A stable insertion sort meets the contract; it is what the library runs on five elements.\<close>

definition stable_sort :: "candidate list \<Rightarrow> candidate list" where
  "stable_sort = sort_key (\<lambda>c. - cand_score c)"

interpretation stable: candidate_sort stable_sort
proof
  fix cs :: "candidate list"
  show "mset (stable_sort cs) = mset cs" by (simp add: stable_sort_def)
  have "sorted (map (\<lambda>c. - cand_score c) (sort_key (\<lambda>c. - cand_score c) cs))" by (rule sorted_sort_key)
  then show "sorted_wrt (\<lambda>a b. cand_score a \<ge> cand_score b) (stable_sort cs)"
    by (simp add: stable_sort_def sorted_wrt_map)
qed

lemma validate_fields:
  "ar_sim_result (validate rs i res) = ar_sim_result res" "ar_is_baseline (validate rs i res) = ar_is_baseline res"
  "ar_primary_bottleneck (validate rs i res) = ar_primary_bottleneck res"
  "ar_secondary_bottlenecks (validate rs i res) = ar_secondary_bottlenecks res"
  "ar_speedup (validate rs i res) = ar_speedup res"
  "ar_cycle_delta_pct (validate rs i res) = ar_cycle_delta_pct res"
  by (simp_all add: validate_def add_factor_def Let_def)

lemma diagnose_fields:
  "ar_sim_result (diagnose_bottleneck srt res) = ar_sim_result res"
  "ar_is_baseline (diagnose_bottleneck srt res) = ar_is_baseline res"
  "ar_speedup (diagnose_bottleneck srt res) = ar_speedup res"
  "ar_cycle_delta_pct (diagnose_bottleneck srt res) = ar_cycle_delta_pct res"
  by (simp_all add: diagnose_bottleneck_def Let_def)

lemma analyze_nth:
  assumes "i < length results" and "b < length results"
  shows "analyze srt results b ! i =
    validate results i (compute_deltas_and_bottlenecks srt (results ! b) (results ! i) (i = b))"
  using assms by (auto simp: analyze_def Let_def nth_enumerate_eq)

lemma length_analyze: "length (analyze srt results b) = length results"
  by (simp add: analyze_def Let_def)

lemma candidates_not_empty [simp]: "candidates s \<noteq> []"
  by (simp add: candidates_def)

text \<open>The first pass, read off the sorted candidates.\<close>

lemma diagnosis:
  assumes "candidate_sort srt"
  shows "let r = compute_deltas_and_bottlenecks srt baseline target b; cs = candidates target
    in (if \<forall>c \<in> set cs. cand_score c < 1
        then ar_primary_bottleneck r = ''Unclassified'' \<and> ar_secondary_bottlenecks r = [] \<and> ar_confidence r = ''Low''
        else \<exists>c \<in> set cs. ar_primary_bottleneck r = cand_name c \<and> (\<forall>d \<in> set cs. cand_score d \<le> cand_score c) \<and>
          1 \<le> cand_score c \<and> ar_confidence r = confidence_of (cand_score c) \<and>
          mset (ar_secondary_bottlenecks r) = image_mset cand_name (filter_mset (\<lambda>d. 1 \<le> cand_score d) (mset cs - {#c#})))"
proof -
  let ?cs = "candidates target"
  let ?top = "hd (srt ?cs)"
  have ne: "?cs \<noteq> []" by simp
  note top = candidate_sort.top_maximal[OF assms ne] and rest = candidate_sort.rest_permutes[OF assms ne]
  have low: "cand_score ?top < 1 \<longleftrightarrow> (\<forall>c \<in> set ?cs. cand_score c < 1)"
    using top by (meson le_less_trans)
  have tl: "mset (tl (srt ?cs)) = mset ?cs - {#?top#}" using rest by (metis add_mset_remove_trivial)
  have "mset (map cand_name (filter (\<lambda>c. cand_score c \<ge> 1) (tl (srt ?cs)))) =
      image_mset cand_name (filter_mset (\<lambda>d. 1 \<le> cand_score d) (mset ?cs - {#?top#}))"
    by (simp add: tl mset_filter)
  with top low show ?thesis
    by (auto simp: compute_deltas_and_bottlenecks_def diagnose_bottleneck_def Let_def intro!: bexI[of _ ?top])
qed

end
