(* ===== verification/Kernels.thy ===== *)
theory Kernels
  imports GPU "HOL-Library.Signed_Division"
begin

text \<open>
  The kernel generators and grid builders of \<^verbatim>\<open>src/runtime/benchmarks.cpp\<close>, and the grid of
  \<^verbatim>\<open>src/main.cpp\<close>. An \<open>int\<close> expression that may leave its range is computed with the checked
  operations, so a generator is a \<open>result\<close>. The four grid builders that split a number of
  threads into blocks and warps run the same loops around a different initialisation of the
  registers of a thread, which is their parameter here.
\<close>

section \<open>Loops and divisions\<close>

text \<open>\<open>for (int i = 0; i < n; ++i)\<close>\<close>

definition int_range :: "c_int \<Rightarrow> c_int list" where
  "int_range n = map of_nat [0..<nat (sint n)]"

definition c_div :: "c_int \<Rightarrow> c_int \<Rightarrow> c_int result" where
  "c_div a b = (if b = 0 then Inl (Undefined ''division by zero'') else checked_int (sint a sdiv sint b))"

text \<open>\<open>(n + d - 1) / d\<close> over \<open>size_t\<close>\<close>

definition ceil_div :: "size_t \<Rightarrow> size_t \<Rightarrow> size_t result" where
  "ceil_div n d = (if d = 0 then Inl (Undefined ''division by zero'') else Inr (size_sub (size_add n d) 1 div d))"

definition make_kernel :: "string \<Rightarrow> instruction list \<Rightarrow> kernel" where
  "make_kernel name insts = \<lparr>k_name = name, k_instructions = insts\<rparr>"

section \<open>Vector add\<close>

definition vector_add_body :: "c_int \<Rightarrow> instruction list result" where
  "vector_add_body i =
     bindE (c_mul i 4) (\<lambda>offset.
       Inr [instr LOAD 3 0 (-1) offset, instr LOAD 4 1 (-1) offset, instr ADD 5 3 4 0, instr STORE 2 5 2 offset])"

definition generate_vector_add_kernel :: "c_int \<Rightarrow> kernel result" where
  "generate_vector_add_kernel iterations =
     bindE (mapE vector_add_body (int_range iterations)) (\<lambda>bodies. Inr (make_kernel ''vector_add'' (concat bodies)))"

section \<open>Memory copy\<close>

definition memcpy_body :: "c_int \<Rightarrow> c_int \<Rightarrow> instruction list" where
  "memcpy_body iterations i =
     [instr LOAD 3 0 (-1) 0, instr STORE (-1) 3 1 0] @
     (if sint i < sint iterations - 1 then [instr ADD 0 0 2 0, instr ADD 1 1 2 0] else [])"

definition generate_memcpy_kernel :: "c_int \<Rightarrow> kernel" where
  "generate_memcpy_kernel iterations =
     make_kernel ''memcpy'' (concat (map (memcpy_body iterations) (int_range iterations)))"

section \<open>Guarded regions\<close>

text \<open>
  \<open>SSY\<close> to the end, skip if the predicate register equals register 19, the body, \<open>SYNC\<close>: the
  immediates are patched to the distance to the label before \<open>SYNC\<close>.
\<close>

definition guarded :: "c_int \<Rightarrow> instruction list \<Rightarrow> instruction list" where
  "guarded r body =
     [instr SSY (-1) (-1) (-1) (of_nat (length body + 3)), instr CMP (-1) r 19 0,
      instr BRANCH (-1) (-1) (-1) (of_nat (length body + 1))] @ body @ [instr SYNC 0 0 0 0]"

section \<open>Reduction\<close>

text \<open>\<open>for (stride = n; stride > 0; stride /= 2)\<close>\<close>

fun halvings :: "nat \<Rightarrow> nat list" where
  "halvings n = (if n = 0 then [] else n # halvings (n div 2))"

declare halvings.simps [simp del]

definition reduction_round :: "nat \<times> nat \<Rightarrow> instruction list result" where
  "reduction_round p =
     (let (step, stride) = p
      in bindE (c_mul (of_nat stride) 4) (\<lambda>bytes.
           Inr (guarded (20 + of_nat step)
                  [instr LOAD 10 1 (-1) 0, instr MOV 15 (-1) (-1) bytes, instr ADD 16 1 15 0, instr LOAD 11 16 (-1) 0,
                   instr ADD 12 10 11 0, instr STORE (-1) 12 1 0] @ [instr BARRIER 0 0 0 0])))"

definition generate_reduction_kernel :: "c_int \<Rightarrow> kernel result" where
  "generate_reduction_kernel block_size =
     bindE (c_div block_size 2) (\<lambda>half.
     bindE (mapE reduction_round (enumerate 0 (halvings (nat (sint half))))) (\<lambda>rounds.
       Inr (make_kernel ''reduction''
         ([instr LOAD 10 0 (-1) 0, instr STORE (-1) 10 1 0, instr BARRIER 0 0 0 0, instr MOV 19 (-1) (-1) 0] @
          concat rounds @
          guarded 3 [instr LOAD 10 1 (-1) 0, instr STORE (-1) 10 2 0]))))"

section \<open>Histogram\<close>

definition histogram_zero :: "c_int \<Rightarrow> c_int \<Rightarrow> instruction list result" where
  "histogram_zero block_size i =
     bindE (c_mul i block_size) (\<lambda>offset.
       Inr (guarded (20 + i)
              [instr MOV 15 (-1) (-1) offset, instr ADD 16 5 15 0, instr MUL 13 16 12 0, instr ADD 14 1 13 0,
               instr STORE (-1) 19 14 0]))"

definition histogram_count :: "instruction list" where
  "histogram_count =
     guarded 4 [instr LOAD 10 0 (-1) 0, instr MOV 12 (-1) (-1) 4, instr MUL 13 10 12 0, instr ADD 14 1 13 0,
                instr MOV 16 (-1) (-1) 1, instr ATOMIC_ADD (-1) 16 14 0]"

definition histogram_output :: "c_int \<Rightarrow> c_int \<Rightarrow> instruction list result" where
  "histogram_output block_size i =
     bindE (c_mul i block_size) (\<lambda>offset.
       Inr (guarded (20 + i)
              [instr MOV 15 (-1) (-1) offset, instr ADD 16 5 15 0, instr MUL 13 16 12 0, instr ADD 14 1 13 0,
               instr LOAD 17 14 (-1) 0, instr ADD 18 2 13 0, instr STORE (-1) 17 18 0]))"

definition generate_histogram_kernel :: "c_int \<Rightarrow> c_int \<Rightarrow> kernel result" where
  "generate_histogram_kernel num_bins block_size =
     bindE (bindE (c_add num_bins block_size) (\<lambda>s. bindE (c_sub s 1) (\<lambda>n. c_div n block_size))) (\<lambda>iters.
     if sint iters > 8 then Inl (Runtime_error ''iters too large for register predicates'')
     else
       bindE (mapE (histogram_zero block_size) (int_range iters)) (\<lambda>zeros.
       bindE (mapE (histogram_output block_size) (int_range iters)) (\<lambda>outputs.
         Inr (make_kernel ''histogram''
           ([instr MOV 19 (-1) (-1) 0, instr MOV 12 (-1) (-1) 4] @ concat zeros @ [instr BARRIER 0 0 0 0] @
            histogram_count @ [instr BARRIER 0 0 0 0] @ concat outputs)))))"

section \<open>Matrix multiplication\<close>

definition gemm_load_tiles :: "c_int \<Rightarrow> instruction list" where
  "gemm_load_tiles tile_bytes =
     [instr MUL 20 0 13 0, instr ADD 21 20 8 0, instr ADD 22 21 3 0, instr MUL 23 22 31 0, instr ADD 24 15 23 0,
      instr LOAD 25 24 (-1) 0,
      instr MUL 26 2 10 0, instr ADD 27 26 3 0, instr MUL 28 27 31 0, instr ADD 29 14 28 0,
      instr STORE (-1) 25 29 0,
      instr ADD 20 8 2 0, instr MUL 21 20 12 0, instr ADD 22 21 1 0, instr MUL 23 22 31 0, instr ADD 24 16 23 0,
      instr LOAD 25 24 (-1) 0,
      instr MOV 30 (-1) (-1) tile_bytes, instr ADD 26 29 30 0, instr STORE (-1) 25 26 0]"

definition gemm_inner_body :: "instruction list" where
  "gemm_inner_body =
     [instr MUL 20 2 10 0, instr ADD 21 20 9 0, instr MUL 22 21 31 0, instr ADD 23 14 22 0, instr LOAD 24 23 (-1) 0,
      instr MUL 20 9 10 0, instr ADD 21 20 3 0, instr MUL 22 21 31 0, instr ADD 23 14 30 0, instr ADD 23 23 22 0,
      instr LOAD 25 23 (-1) 0,
      instr MUL 26 24 25 0, instr ADD 7 7 26 0,
      instr MOV 27 (-1) (-1) 1, instr ADD 9 9 27 0]"

text \<open>
  A loop that leaves when registers \<open>a\<close> and \<open>b\<close> are equal: the exit branch is patched to the
  instruction after the jump back. The test stands before the body in the inner loop.
\<close>

definition gemm_inner_loop :: "instruction list" where
  "gemm_inner_loop =
     [instr CMP (-1) 9 10 0, instr BRANCH (-1) (-1) (-1) (of_nat (length gemm_inner_body + 3))] @
     gemm_inner_body @
     [instr CMP (-1) 0 0 0, instr BRANCH (-1) (-1) (-1) (- of_nat (length gemm_inner_body + 3))]"

definition gemm_outer_body :: "c_int \<Rightarrow> instruction list" where
  "gemm_outer_body tile_bytes =
     gemm_load_tiles tile_bytes @ [instr BARRIER 0 0 0 0, instr MOV 9 (-1) (-1) 0] @ gemm_inner_loop @
     [instr BARRIER 0 0 0 0, instr ADD 8 8 10 0]"

definition generate_gemm_kernel :: "c_int \<Rightarrow> c_int \<Rightarrow> c_int \<Rightarrow> c_int \<Rightarrow> kernel result" where
  "generate_gemm_kernel M N K tile_size =
     bindE (bindE (c_mul tile_size tile_size) (\<lambda>n. c_mul n 4)) (\<lambda>tile_bytes.
       Inr (make_kernel ''gemm''
         ([instr MOV 31 (-1) (-1) 4, instr MOV 8 (-1) (-1) 0, instr MOV 7 (-1) (-1) 0] @
          gemm_outer_body tile_bytes @
          [instr CMP (-1) 8 13 0, instr BRANCH (-1) (-1) (-1) 3,
           instr CMP (-1) 0 0 0, instr BRANCH (-1) (-1) (-1) (- of_nat (length (gemm_outer_body tile_bytes) + 3))] @
          [instr MUL 20 0 12 0, instr ADD 21 20 1 0, instr MUL 22 21 31 0, instr ADD 23 17 22 0,
           instr STORE (-1) 7 23 0])))"

section \<open>Grids\<close>

text \<open>\<open>thread.registers().write(r, v)\<close> for each pair, in order.\<close>

definition write_registers :: "(c_int \<times> c_int) list \<Rightarrow> thread \<Rightarrow> thread result" where
  "write_registers rvs t = foldE (\<lambda>t (r, v). write_reg t r v) t rvs"

text \<open>The initialisation of a thread from its block, its local and its global id.\<close>

type_synonym thread_init = "size_t \<Rightarrow> size_t \<Rightarrow> size_t \<Rightarrow> (c_int \<times> c_int) list"

definition make_thread :: "thread_init \<Rightarrow> size_t \<Rightarrow> size_t \<Rightarrow> size_t \<Rightarrow> size_t \<Rightarrow> size_t \<Rightarrow> thread result" where
  "make_thread init block_size warp_size b w l =
     (let local_id = w * warp_size + l; global_id = b * block_size + local_id
      in write_registers (init b local_id global_id) (new_thread global_id b local_id w l))"

definition make_warp ::
    "(warp \<Rightarrow> warp) \<Rightarrow> thread_init \<Rightarrow> size_t \<Rightarrow> size_t \<Rightarrow> size_t \<Rightarrow> size_t \<Rightarrow> size_t \<Rightarrow> warp result" where
  "make_warp finish init block_size warp_size b threads_in_this_block w =
     bindE (mapE (make_thread init block_size warp_size b w)
              [0..<min warp_size (threads_in_this_block - w * warp_size)]) (\<lambda>ts.
       Inr (finish (build_warp w ts)))"

definition make_block ::
    "(warp \<Rightarrow> warp) \<Rightarrow> thread_init \<Rightarrow> size_t \<Rightarrow> size_t \<Rightarrow> size_t \<Rightarrow> size_t \<Rightarrow> thread_block result" where
  "make_block finish init num_threads block_size warp_size b =
     (let threads_in_this_block = min block_size (num_threads - b * block_size)
      in bindE (ceil_div threads_in_this_block warp_size) (\<lambda>warps_in_this_block.
         bindE (mapE (make_warp finish init block_size warp_size b threads_in_this_block) [0..<warps_in_this_block]) (\<lambda>ws.
           Inr (foldl add_warp (new_thread_block b) ws))))"

definition make_grid :: "(warp \<Rightarrow> warp) \<Rightarrow> thread_init \<Rightarrow> size_t \<Rightarrow> size_t \<Rightarrow> size_t \<Rightarrow> grid result" where
  "make_grid finish init num_threads block_size warp_size =
     bindE (ceil_div num_threads block_size) (\<lambda>n.
     let num_blocks = (if num_threads = 0 then 0 else n)
     in bindE (mapE (make_block finish init num_threads block_size warp_size) [0..<num_blocks]) (\<lambda>bs.
          Inr (foldl add_block \<lparr>g_blocks = []\<rparr> bs)))"

text \<open>\<open>warp.set_priority(static_cast<int>(warp.get_warp_id()))\<close>\<close>

definition prioritised :: "warp \<Rightarrow> warp" where
  "prioritised w = set_priority w (size_to_int (w_id w))"

definition benchmark_init :: "bool \<Rightarrow> thread_init" where
  "benchmark_init strided b local_id global_id =
     (let stride = (if strided then 32 else 4)
      in [(0, size_to_int (global_id * stride)), (1, size_to_int (10000 + global_id * stride)),
          (2, size_to_int (20000 + global_id * stride))])"

definition build_benchmark_grid :: "size_t \<Rightarrow> size_t \<Rightarrow> size_t \<Rightarrow> bool \<Rightarrow> grid result" where
  "build_benchmark_grid num_threads block_size warp_size strided =
     make_grid prioritised (benchmark_init strided) num_threads block_size warp_size"

text \<open>The offset of a thread and the stride of its iterations, for an access pattern.\<close>

definition memcpy_pattern :: "string \<Rightarrow> size_t \<Rightarrow> size_t \<Rightarrow> size_t \<times> size_t" where
  "memcpy_pattern pattern num_threads i =
     (if pattern = ''contiguous'' then (i * 4, num_threads * 4)
      else if pattern = ''strided'' then (i * 32, num_threads * 32)
      else if pattern = ''random'' then (((i * 101) mod num_threads) * 4, num_threads * 4)
      else (0, 0))"

definition memcpy_init :: "size_t \<Rightarrow> string \<Rightarrow> thread_init" where
  "memcpy_init num_threads pattern b local_id global_id =
     (let (offset, iter_stride) = memcpy_pattern pattern num_threads global_id
      in [(0, size_to_int offset), (1, size_to_int (1000000 + offset)), (2, size_to_int iter_stride)])"

definition build_memcpy_grid :: "size_t \<Rightarrow> size_t \<Rightarrow> size_t \<Rightarrow> string \<Rightarrow> grid result" where
  "build_memcpy_grid num_threads block_size warp_size pattern =
     make_grid prioritised (memcpy_init num_threads pattern) num_threads block_size warp_size"

definition histogram_init :: "size_t \<Rightarrow> size_t \<Rightarrow> size_t \<Rightarrow> thread_init" where
  "histogram_init num_elements block_size num_bins b local_id global_id =
     [(0, size_to_int (global_id * 4)), (1, size_to_int (SHARED_MEM_BASE + b * num_bins * 4)),
      (2, size_to_int (num_elements * 4 + b * num_bins * 4)), (3, size_to_int num_bins),
      (4, if global_id < num_elements then 1 else 0), (5, size_to_int local_id)] @
     map (\<lambda>iter. (20 + of_nat iter, if local_id + iter * block_size < num_bins then 1 else 0)) [0..<8]"

definition build_histogram_grid :: "size_t \<Rightarrow> size_t \<Rightarrow> size_t \<Rightarrow> size_t \<Rightarrow> grid result" where
  "build_histogram_grid num_elements block_size warp_size num_bins =
     make_grid prioritised (histogram_init num_elements block_size num_bins) num_elements block_size warp_size"

definition reduction_init :: "size_t \<Rightarrow> size_t \<Rightarrow> thread_init" where
  "reduction_init num_elements block_size b local_id global_id =
     [(0, size_to_int (global_id * 4)), (1, size_to_int (SHARED_MEM_BASE + b * block_size * 4 + local_id * 4)),
      (2, size_to_int (num_elements * 4 + b * 4)), (3, if local_id = 0 then 1 else 0)] @
     map (\<lambda>(step, stride). (20 + of_nat step, if local_id < stride then 1 else 0))
       (enumerate 0 (halvings (block_size div 2)))"

definition build_reduction_grid :: "size_t \<Rightarrow> size_t \<Rightarrow> size_t \<Rightarrow> grid result" where
  "build_reduction_grid num_elements block_size warp_size =
     make_grid prioritised (reduction_init num_elements block_size) num_elements block_size warp_size"

text \<open>The grid \<^verbatim>\<open>main\<close> builds: no registers, and the warps keep priority 0.\<close>

definition build_main_grid :: "size_t \<Rightarrow> size_t \<Rightarrow> size_t \<Rightarrow> grid result" where
  "build_main_grid num_threads block_size warp_size = make_grid (\<lambda>w. w) (\<lambda>_ _ _. []) num_threads block_size warp_size"

section \<open>The grid of the matrix multiplication\<close>

text \<open>Here every index is an \<open>int\<close>, and the tiles are laid out in two dimensions.\<close>

definition c_rem :: "c_int \<Rightarrow> c_int \<Rightarrow> c_int result" where
  "c_rem a b = bindE (c_div a b) (\<lambda>q. Inr (word_of_int (sint a smod sint b)))"

definition gemm_bases :: "c_int \<Rightarrow> c_int \<Rightarrow> c_int \<Rightarrow> (size_t \<times> size_t) result" where
  "gemm_bases M N K =
     bindE (bindE (c_mul M K) (\<lambda>n. c_mul n 4)) (\<lambda>a.
     bindE (bindE (c_mul K N) (\<lambda>n. c_mul n 4)) (\<lambda>b.
     bindE (c_add a b) (\<lambda>c. Inr (int_to_size a, int_to_size c))))"

definition gemm_thread ::
    "c_int \<Rightarrow> c_int \<Rightarrow> c_int \<Rightarrow> c_int \<Rightarrow> c_int \<Rightarrow> c_int \<Rightarrow> c_int \<Rightarrow> c_int \<Rightarrow> c_int \<Rightarrow> c_int \<Rightarrow> thread result" where
  "gemm_thread M N K tile_size warp_size bx by' b w l =
     bindE (gemm_bases M N K) (\<lambda>(B_base, C_base).
     bindE (bindE (c_mul w warp_size) (\<lambda>n. c_add n l)) (\<lambda>local_id.
     bindE (c_div local_id tile_size) (\<lambda>tile_row.
     bindE (c_rem local_id tile_size) (\<lambda>tile_col.
     bindE (bindE (c_mul by' tile_size) (\<lambda>n. c_add n tile_row)) (\<lambda>global_row.
     bindE (bindE (c_mul bx tile_size) (\<lambda>n. c_add n tile_col)) (\<lambda>global_col.
     bindE (bindE (c_mul global_row N) (\<lambda>n. c_add n global_col)) (\<lambda>global_id.
     bindE (bindE (bindE (c_mul 2 tile_size) (\<lambda>n. c_mul n tile_size)) (\<lambda>n. bindE (c_mul n 4) (c_mul b))) (\<lambda>region.
       write_registers
         [(0, global_row), (1, global_col), (2, tile_row), (3, tile_col), (4, b), (10, tile_size), (11, M), (12, N),
          (13, K), (14, size_to_int (size_add_int SHARED_MEM_BASE region)), (15, 0), (16, size_to_int B_base),
          (17, size_to_int C_base)]
         (new_thread (int_to_size global_id) (int_to_size b) (int_to_size local_id) (int_to_size w) (int_to_size l))))))))))"

definition gemm_warp ::
    "c_int \<Rightarrow> c_int \<Rightarrow> c_int \<Rightarrow> c_int \<Rightarrow> c_int \<Rightarrow> c_int \<Rightarrow> c_int \<Rightarrow> c_int \<Rightarrow> c_int \<Rightarrow> c_int \<Rightarrow> warp result" where
  "gemm_warp M N K tile_size warp_size block_size bx by' b w =
     bindE (bindE (c_mul w warp_size) (c_sub block_size)) (\<lambda>rest.
     bindE (mapE (gemm_thread M N K tile_size warp_size bx by' b w)
              (int_range (if sint rest < sint warp_size then rest else warp_size))) (\<lambda>ts.
       Inr (build_warp (int_to_size w) ts)))"

definition gemm_block ::
    "c_int \<Rightarrow> c_int \<Rightarrow> c_int \<Rightarrow> c_int \<Rightarrow> c_int \<Rightarrow> c_int \<Rightarrow> c_int \<Rightarrow> c_int \<times> c_int \<Rightarrow> thread_block result" where
  "gemm_block M N K tile_size warp_size block_size blocks_x p =
     (let (by', bx) = p
      in bindE (bindE (c_mul by' blocks_x) (\<lambda>n. c_add n bx)) (\<lambda>b.
         bindE (bindE (c_add block_size warp_size) (\<lambda>n. bindE (c_sub n 1) (\<lambda>m. c_div m warp_size))) (\<lambda>warps_in_block.
         bindE (mapE (gemm_warp M N K tile_size warp_size block_size bx by' b) (int_range warps_in_block)) (\<lambda>ws.
           Inr (foldl add_warp (new_thread_block (int_to_size b)) ws)))))"

definition build_gemm_grid :: "c_int \<Rightarrow> c_int \<Rightarrow> c_int \<Rightarrow> c_int \<Rightarrow> c_int \<Rightarrow> grid result" where
  "build_gemm_grid M N K tile_size warp_size =
     bindE (c_div N tile_size) (\<lambda>blocks_x.
     bindE (c_div M tile_size) (\<lambda>blocks_y.
     bindE (c_mul tile_size tile_size) (\<lambda>block_size.
     bindE (gemm_bases M N K) (\<lambda>_.
     bindE (mapE (gemm_block M N K tile_size warp_size block_size blocks_x)
              (List.product (int_range blocks_y) (int_range blocks_x))) (\<lambda>bs.
       Inr (foldl add_block \<lparr>g_blocks = []\<rparr> bs))))))"

end
