(* ===== verification/Trace_Logger.thy ===== *)
theory Trace_Logger
  imports Formatting GPU
begin

text \<open>
  \<^verbatim>\<open>include/runtime/trace_logger.hpp\<close> and \<^verbatim>\<open>src/runtime/trace_logger.cpp\<close>: the trace level and
  the text each event prints. The stream is the text written to it so far; \<open>can_open\<close>, an
  argument of the constructor, says which output files the system lets the program open.
\<close>

datatype trace_level_name = None_Level | Scheduler_Level | Memory_Level | Cache_Level | All_Level

definition level_value :: "trace_level_name \<Rightarrow> c_int" where
  "level_value l =
     (case l of None_Level \<Rightarrow> 0 | Scheduler_Level \<Rightarrow> 1 | Memory_Level \<Rightarrow> 2 | Cache_Level \<Rightarrow> 4 | All_Level \<Rightarrow> 7)"

definition level_or :: "c_int \<Rightarrow> c_int \<Rightarrow> c_int" where
  "level_or a b = (a OR b)"

definition level_and :: "c_int \<Rightarrow> c_int \<Rightarrow> c_int" where
  "level_and a b = (a AND b)"

text \<open>\<open>tl_level\<close> is the \<open>int\<close> behind the enumeration: \<^verbatim>\<open>main\<close> casts any \<open>int\<close> to it.\<close>

record trace_logger =
  tl_level :: c_int
  tl_output_file :: "string option"
  tl_out :: string

definition new_trace_logger :: "(string \<Rightarrow> bool) \<Rightarrow> c_int \<Rightarrow> string \<Rightarrow> trace_logger result" where
  "new_trace_logger can_open level output_file =
     (if output_file \<noteq> ''''
      then if can_open output_file
           then Inr \<lparr>tl_level = level, tl_output_file = Some output_file, tl_out = ''''\<rparr>
           else Inl (Runtime_error (''Could not open trace output file: '' @ output_file))
      else Inr \<lparr>tl_level = level, tl_output_file = None, tl_out = ''''\<rparr>)"

definition is_enabled :: "trace_logger \<Rightarrow> trace_level_name \<Rightarrow> bool" where
  "is_enabled l level \<longleftrightarrow> level_and (tl_level l) (level_value level) \<noteq> level_value None_Level"

definition emit :: "string \<Rightarrow> trace_logger \<Rightarrow> trace_logger" where
  "emit s l = l\<lparr>tl_out := tl_out l @ s\<rparr>"

definition line :: "string \<Rightarrow> string" where
  "line s = s @ [CHR 0x0A]"

definition state_text :: "warp_state \<Rightarrow> string" where
  "state_text s =
     (case s of Ready \<Rightarrow> ''READY'' | StalledAtBarrier \<Rightarrow> ''WAITING_BARRIER'' | Stalled \<Rightarrow> ''STALLED''
      | Completed \<Rightarrow> ''COMPLETED'')"

definition log_scheduler_event ::
    "size_t \<Rightarrow> size_t \<Rightarrow> string \<Rightarrow> size_t \<Rightarrow> (size_t \<times> warp_state) list \<Rightarrow> trace_logger \<Rightarrow> trace_logger" where
  "log_scheduler_event smid cycle scheduler selected_warp_id warps l =
     (if \<not> is_enabled l Scheduler_Level then l
      else emit (line (''Cycle '' @ show_nat cycle @ '':'') @
                 line (''SM'' @ show_nat smid @ '':'') @
                 line (''  Scheduler: '' @ scheduler) @
                 line (''  Selected Warp: '' @ show_nat selected_warp_id) @
                 concat (map (\<lambda>(wid, st). ''  Warp '' @ show_nat wid @ '': '' @ line (state_text st)) warps)) l)"

definition opcode_text :: "instruction \<Rightarrow> string" where
  "opcode_text inst = (if inst_opcode inst = LOAD then ''LOAD'' else ''STORE'')"

definition log_memory_event ::
    "size_t \<Rightarrow> size_t \<Rightarrow> size_t \<Rightarrow> instruction \<Rightarrow> size_t \<Rightarrow> string \<Rightarrow> trace_logger \<Rightarrow> trace_logger" where
  "log_memory_event smid cycle warp_id inst transactions space l =
     (if \<not> is_enabled l Memory_Level then l
      else emit (line (''Cycle '' @ show_nat cycle @ '':'') @
                 line (''SM'' @ show_nat smid @ '':'') @
                 line ''  Memory Event:'' @
                 line (''    WarpID='' @ show_nat warp_id) @
                 line (''    Opcode='' @ opcode_text inst @ '' addr=0x'' @ show_hex (unat (inst_immediate inst))) @
                 line (''    Transactions='' @ show_nat transactions) @
                 line (''    MemorySpace='' @ space)) l)"

definition log_cache_event :: "size_t \<Rightarrow> string \<Rightarrow> size_t \<Rightarrow> size_t \<Rightarrow> bool \<Rightarrow> trace_logger \<Rightarrow> trace_logger" where
  "log_cache_event cycle cache_name set_index way hit l =
     (if \<not> is_enabled l Cache_Level then l
      else emit (line (''Cycle '' @ show_nat cycle @ '':'') @
                 line (cache_name @ '':'') @
                 line ''  Cache Event:'' @
                 line (''    SET='' @ show_nat set_index) @
                 line (''    WAY='' @ show_nat way) @
                 line (''    Result='' @ (if hit then ''HIT'' else ''MISS''))) l)"

section \<open>The callbacks\<close>

text \<open>The callback of \<open>PerformanceCounter::record_*_event\<close> for an event the counters recorded.\<close>

definition log_counter_event :: "trace_event \<Rightarrow> trace_logger \<Rightarrow> trace_logger" where
  "log_counter_event e =
     (case e of
        Scheduler_event smid cycle name selected warps \<Rightarrow> log_scheduler_event smid cycle name selected warps
      | Memory_event smid cycle warp_id inst transactions space \<Rightarrow>
          log_memory_event smid cycle warp_id inst transactions space)"

text \<open>The callbacks installed on the L1 of an SM, which reads the SM's counters, and on the L2.\<close>

definition log_l1_event :: "sm \<Rightarrow> cache_event \<Rightarrow> trace_logger \<Rightarrow> trace_logger" where
  "log_l1_event s e =
     log_cache_event (pf_cycles (sm_counters s)) (''L1$'' @ show_nat (sm_id s)) (ce_set e) (ce_way e) (ce_hit e)"

definition log_l2_event :: "cache_event \<Rightarrow> trace_logger \<Rightarrow> trace_logger" where
  "log_l2_event e = log_cache_event (ce_cycle e) ''L2$'' (ce_set e) (ce_way e) (ce_hit e)"

section \<open>What a level lets through\<close>

definition event_level :: "trace_event \<Rightarrow> trace_level_name" where
  "event_level e = (case e of Scheduler_event _ _ _ _ _ \<Rightarrow> Scheduler_Level | Memory_event _ _ _ _ _ _ \<Rightarrow> Memory_Level)"

lemmas log_defs = log_scheduler_event_def log_memory_event_def log_cache_event_def emit_def is_enabled_def

lemma log_counter_event_keeps:
  "tl_level (log_counter_event e l) = tl_level l" "tl_output_file (log_counter_event e l) = tl_output_file l"
  by (cases e; simp add: log_counter_event_def log_defs)+

lemma log_counter_event_appends: "\<exists>s. tl_out (log_counter_event e l) = tl_out l @ s \<and> (s \<noteq> '''' \<longrightarrow> is_enabled l (event_level e))"
  by (cases e) (auto simp: log_counter_event_def log_defs event_level_def)

lemma log_counter_event_disabled: "\<not> is_enabled l (event_level e) \<Longrightarrow> log_counter_event e l = l"
  by (cases e) (simp_all add: log_counter_event_def event_level_def log_scheduler_event_def log_memory_event_def)

lemma is_enabled_cong: "tl_level l = tl_level l' \<Longrightarrow> is_enabled l = is_enabled l'"
  by (rule ext) (simp add: is_enabled_def)

lemma replay_enabled:
  "fold log_counter_event es l = fold log_counter_event (filter (\<lambda>e. is_enabled l (event_level e)) es) l"
proof (induction es arbitrary: l)
  case (Cons e es)
  have lv: "is_enabled (log_counter_event e l) = is_enabled l"
    using log_counter_event_keeps(1) by (rule is_enabled_cong)
  show ?case
  proof (cases "is_enabled l (event_level e)")
    case True
    then show ?thesis using Cons.IH[of "log_counter_event e l"] by (simp add: lv)
  next
    case False
    then show ?thesis using Cons.IH[of l] log_counter_event_disabled[of l e] by simp
  qed
qed simp

lemma replay_appends: "\<exists>s. tl_out (fold log_counter_event es l) = tl_out l @ s"
proof (induction es arbitrary: l)
  case (Cons e es)
  obtain s where "tl_out (log_counter_event e l) = tl_out l @ s" using log_counter_event_appends by blast
  moreover obtain s2 where "tl_out (fold log_counter_event es (log_counter_event e l)) = tl_out (log_counter_event e l) @ s2"
    using Cons.IH by blast
  ultimately show ?case by simp
qed simp

end
