(* ===== verification/Benchmarks.thy ===== *)
theory Benchmarks
  imports Kernels Metrics Trace_Logger
begin

text \<open>
  The benchmark drivers of \<^verbatim>\<open>src/runtime/benchmarks.cpp\<close>: each configures a GPU, initialises its
  memory, runs a kernel, checks the result against the CPU's, and writes a row of a CSV file.
  The state is the directory of result files and what has been printed; a driver that throws
  ends the program, so the files it leaves behind are not kept.
\<close>

section \<open>Result files\<close>

text \<open>A cell and, for a \<open>double\<close>, the precision it is printed with.\<close>

datatype cell = Text string | Count size_t | Decimal nat rat

record csv_file =
  csv_header :: string
  csv_rows :: "cell list list"

datatype message =
    Gemm_mismatch size_t size_t c_int c_int
  | Gemm_checked bool
  | Passed string
  | Write_conflicts string size_t

record bench_state =
  bs_files :: "string \<Rightarrow> csv_file option"
  bs_messages :: "message list"

definition csv_path :: "string \<Rightarrow> string" where
  "csv_path name = ''results/'' @ name @ ''.csv''"

definition write_csv :: "string \<Rightarrow> string \<Rightarrow> cell list \<Rightarrow> bench_state \<Rightarrow> bench_state" where
  "write_csv name header row st =
     st\<lparr>bs_files := (bs_files st)(csv_path name \<mapsto> \<lparr>csv_header = header, csv_rows = [row]\<rparr>)\<rparr>"

text \<open>The header is written only when the file does not exist.\<close>

definition append_csv :: "string \<Rightarrow> string \<Rightarrow> cell list \<Rightarrow> bench_state \<Rightarrow> bench_state" where
  "append_csv name header row st =
     (case bs_files st (csv_path name) of
        None \<Rightarrow> write_csv name header row st
      | Some f \<Rightarrow> st\<lparr>bs_files := (bs_files st)(csv_path name \<mapsto> f\<lparr>csv_rows := csv_rows f @ [row]\<rparr>)\<rparr>)"

definition remove_csv :: "string \<Rightarrow> bench_state \<Rightarrow> bench_state" where
  "remove_csv name st = st\<lparr>bs_files := (bs_files st)(csv_path name := None)\<rparr>"

definition say :: "message list \<Rightarrow> bench_state \<Rightarrow> bench_state" where
  "say ms st = st\<lparr>bs_messages := bs_messages st @ ms\<rparr>"

definition vec_at :: "'a list \<Rightarrow> nat \<Rightarrow> 'a result" where
  "vec_at xs i = (if i < length xs then Inr (xs ! i) else Inl (Undefined ''vector index out of range''))"

definition vec_bump :: "c_int list \<Rightarrow> nat \<Rightarrow> c_int \<Rightarrow> c_int list result" where
  "vec_bump xs i v = bindE (vec_at xs i) (\<lambda>x. bindE (c_add x v) (\<lambda>y. Inr (xs[i := y])))"

text \<open>The cells from the L1 hits to the AMAT, which every row ends with.\<close>

definition cache_cells :: "system_config \<Rightarrow> run_totals \<Rightarrow> cell list" where
  "cache_cells config t =
     [Count (rt_l1_hits t), Count (rt_l1_misses t), Count (rt_l2_hits t), Count (rt_l2_misses t),
      Count (rt_dirty_evictions t), Count (rt_bank_conflicts t), Decimal 2 (report_amat config t)]"

definition requirements :: "size_t \<Rightarrow> size_t \<Rightarrow> kernel_requirements" where
  "requirements regs shmem = \<lparr>req_registers_per_thread = regs, req_shared_memory_per_block = shmem\<rparr>"

text \<open>\<open>if (gpu_config.global_memory_size < 10 * 1024 * 1024) ...\<close>\<close>

definition enlarge_memory :: "system_config \<Rightarrow> system_config" where
  "enlarge_memory config =
     (if cfg_global_memory_size config < 10485760 then config\<lparr>cfg_global_memory_size := 10485760\<rparr> else config)"

section \<open>Scheduling and coalescing experiments\<close>

definition policy_of :: "string \<Rightarrow> string" where
  "policy_of scheduler_type =
     (if scheduler_type = ''rr'' then ''RR'' else if scheduler_type = ''greedy'' then ''Greedy''
      else if scheduler_type = ''priority'' then ''Priority'' else scheduler_type)"

definition experiment_header :: string where
  "experiment_header = ''Experiment,SMs,TotalCycles,Instructions,IPC,MemInsts,MemTxns,Occupancy,BlocksPerSM,L1Hits,L1Misses,L2Hits,L2Misses,DirtyEvictions,BankConflicts,AMAT,NoReadyWarpCycles,AvgWarpWait,MaxWarpWait,Starvation,Fairness''"

definition run_experiment ::
    "(nat \<Rightarrow> nat \<Rightarrow> nat) \<Rightarrow> bool \<Rightarrow> string \<Rightarrow> system_config \<Rightarrow> string \<Rightarrow> bool \<Rightarrow> size_t \<Rightarrow> size_t \<Rightarrow> bench_state
      \<Rightarrow> bench_state result option" where
  "run_experiment rng traced name config scheduler_type strided l1_sets l1_assoc st =
     (let gpu_cfg = config\<lparr>cfg_l1_sets := l1_sets, cfg_l1_associativity := l1_assoc,
                           cfg_scheduler_policy := policy_of scheduler_type\<rparr>;
          req = requirements 10 0
      in bindO (Some (bindE (start_gpu rng gpu_cfg traced) (\<lambda>g.
                      bindE (generate_vector_add_kernel 100) (\<lambda>k.
                      bindE (build_benchmark_grid 2048 (cfg_block_size config) (cfg_warp_size config) strided) (\<lambda>gr.
                      bindE (compute_occupancy config req) (\<lambda>occ. Inr (g, k, gr, occ))))))) (\<lambda>(g, k, gr, occ).
         bindO (run_kernel g k gr config req) (\<lambda>g'.
         let t = collect g'
         in Some (Inr (write_csv name experiment_header
              ([Text name, Count (cfg_num_sms config), Count (rt_max_cycles t), Count (rt_instructions t),
                Decimal 2 (ratio (rt_instructions t) (rt_max_cycles t)),
                Count (rt_memory_instructions t), Count (rt_memory_transactions t),
                Decimal 2 (occ_percentage occ), Count (occ_resident_blocks occ)] @
               cache_cells config t @
               [Count (rt_no_ready_warp t), Decimal 2 (sm_average g' (rt_average_warp_wait t)),
                Count (rt_max_warp_wait t), Count (rt_starvation t),
                Decimal 4 (sm_average g' (rt_fairness t))]) st)))))"

definition cache_header :: string where
  "cache_header = ''Experiment,SMs,Policy,TotalCycles,Instructions,IPC,MemInsts,MemTxns,Occupancy,BlocksPerSM,L1Hits,L1Misses,L2Hits,L2Misses,DirtyEvictions,BankConflicts,AMAT''"

definition cache_stress_kernel :: kernel where
  "cache_stress_kernel =
     make_kernel ''cache_stress''
       (concat (map (\<lambda>iter. map (\<lambda>i. instr LOAD 3 0 (-1) (of_nat (i * 32))) [0..<8]) [0..<(10 :: nat)]))"

definition run_cache_experiment ::
    "(nat \<Rightarrow> nat \<Rightarrow> nat) \<Rightarrow> bool \<Rightarrow> string \<Rightarrow> system_config \<Rightarrow> size_t \<Rightarrow> size_t \<Rightarrow> string \<Rightarrow> bench_state
      \<Rightarrow> bench_state result option" where
  "run_cache_experiment rng traced name config l1_sets l1_assoc policy st =
     (let gpu_cfg = config\<lparr>cfg_num_sms := 1, cfg_l1_sets := l1_sets, cfg_l1_associativity := l1_assoc,
                           cfg_l1_policy := policy, cfg_l2_policy := policy\<rparr>;
          cache_cfg = config\<lparr>cfg_num_sms := 1\<rparr>; req = requirements 10 0
      in bindO (Some (bindE (start_gpu rng gpu_cfg traced) (\<lambda>g.
                      bindE (build_benchmark_grid 64 (cfg_block_size config) (cfg_warp_size config) False) (\<lambda>gr.
                      bindE (compute_occupancy cache_cfg req) (\<lambda>occ. Inr (g, gr, occ)))))) (\<lambda>(g, gr, occ).
         bindO (run_kernel g cache_stress_kernel gr cache_cfg req) (\<lambda>g'.
         let t = collect g'
         in Some (Inr (append_csv name cache_header
              ([Text name, Count 1, Text policy, Count (rt_cycles t), Count (rt_instructions t),
                Decimal 2 (ratio (rt_instructions t) (rt_cycles t)),
                Count (rt_memory_instructions t), Count (rt_memory_transactions t),
                Decimal 2 (occ_percentage occ), Count (occ_resident_blocks occ)] @
               cache_cells config t) st)))))"

section \<open>Matrix multiplication\<close>

definition gemm_header :: string where
  "gemm_header = ''Experiment,SMs,TotalCycles,Instructions,IPC,MemInsts,MemTxns,Occupancy,BlocksPerSM,L1Hits,L1Misses,L2Hits,L2Misses,DirtyEvictions,BankConflicts,AMAT''"

text \<open>\<open>std::vector<int> v(n)\<close> for an \<open>int n\<close>\<close>

definition vector_size :: "c_int \<Rightarrow> nat result" where
  "vector_size n =
     (if sint n < 0 then Inl (Invalid_argument ''cannot create std::vector larger than max_size()'') else Inr (nat (sint n)))"

definition gemm_values :: "nat \<Rightarrow> nat \<Rightarrow> c_int list" where
  "gemm_values p n = map (\<lambda>i. of_nat (i mod p + 1)) [0..<n]"

text \<open>The values are stored from a base on, four addresses apart.\<close>

definition store_values :: "size_t \<Rightarrow> c_int list \<Rightarrow> global_memory \<Rightarrow> global_memory result" where
  "store_values base vals gm = foldE (\<lambda>gm (i, v). gm_store gm (base + i * 4) v) gm (enumerate 0 vals)"

definition dot_product :: "c_int list \<Rightarrow> c_int list \<Rightarrow> nat \<Rightarrow> nat \<Rightarrow> nat \<Rightarrow> nat \<Rightarrow> c_int result" where
  "dot_product A B N K row col =
     foldE (\<lambda>sum k. bindE (vec_at A (row * K + k)) (\<lambda>a. bindE (vec_at B (k * N + col)) (\<lambda>b.
              bindE (c_mul a b) (c_add sum)))) 0 [0..<K]"

definition cpu_gemm :: "c_int list \<Rightarrow> c_int list \<Rightarrow> nat \<Rightarrow> nat \<Rightarrow> nat \<Rightarrow> c_int list result" where
  "cpu_gemm A B M N K = mapE (\<lambda>(row, col). dot_product A B N K row col) (List.product [0..<M] [0..<N])"

text \<open>The comparison of the result matrix with the CPU's; it reports every difference.\<close>

definition gemm_check :: "size_t \<Rightarrow> c_int list \<Rightarrow> nat \<Rightarrow> nat \<Rightarrow> global_memory \<Rightarrow> message list result" where
  "gemm_check C_base C M N gm =
     bindE (mapE (\<lambda>(row, col).
              bindE (c_mul (of_nat (row * N + col)) 4) (\<lambda>offset.
              bindE (gm_load gm (size_add_int C_base offset)) (\<lambda>gpu_val.
              bindE (vec_at C (row * N + col)) (\<lambda>cpu_val.
                Inr (if gpu_val \<noteq> cpu_val then [Gemm_mismatch row col gpu_val cpu_val] else [])))))
            (List.product [0..<M] [0..<N])) (\<lambda>mss.
       Inr (concat mss @ [Gemm_checked (concat mss = [])]))"

definition run_gemm_benchmark ::
    "(nat \<Rightarrow> nat \<Rightarrow> nat) \<Rightarrow> bool \<Rightarrow> string \<Rightarrow> system_config \<Rightarrow> c_int \<Rightarrow> c_int \<Rightarrow> c_int \<Rightarrow> c_int \<Rightarrow> bench_state
      \<Rightarrow> bench_state result option" where
  "run_gemm_benchmark rng traced name config M N K tile_size st =
     bindO (Some (bindE (start_gpu rng config traced) (\<lambda>g0.
                  bindE (gemm_bases M N K) (\<lambda>(B_base, C_base).
                  bindE (bindE (c_mul M K) vector_size) (\<lambda>MK.
                  bindE (bindE (c_mul K N) vector_size) (\<lambda>KN.
                  bindE (bindE (c_mul M N) vector_size) (\<lambda>MN.
                  bindE (store_values 0 (gemm_values 5 MK) (gpu_global_memory g0)) (\<lambda>gm1.
                  bindE (store_values B_base (gemm_values 7 KN) gm1) (\<lambda>gm2.
                  bindE (cpu_gemm (gemm_values 5 MK) (gemm_values 7 KN) (nat (sint M)) (nat (sint N)) (nat (sint K))) (\<lambda>C.
                  bindE (generate_gemm_kernel M N K tile_size) (\<lambda>k.
                  bindE (build_gemm_grid M N K tile_size (size_to_int (cfg_warp_size config))) (\<lambda>gr.
                  bindE (bindE (c_mul tile_size tile_size) (\<lambda>n. bindE (c_mul n 2) (c_mul 4))) (\<lambda>shmem.
                  bindE (compute_occupancy config (requirements 32 (int_to_size shmem))) (\<lambda>occ.
                    Inr (g0\<lparr>gpu_global_memory := gm2\<rparr>, k, gr, requirements 32 (int_to_size shmem), occ, C_base, C)))))))))))))))
       (\<lambda>(g, k, gr, req, occ, C_base, C).
         bindO (run_kernel g k gr config req) (\<lambda>g'.
         bindO (Some (gemm_check C_base C (nat (sint M)) (nat (sint N)) (gpu_global_memory g'))) (\<lambda>ms.
         let t = collect g'
         in Some (Inr (write_csv name gemm_header
              ([Text name, Count (cfg_num_sms config), Count (rt_max_cycles t), Count (rt_instructions t),
                Decimal 2 (ratio (rt_instructions t) (rt_max_cycles t)),
                Count (rt_memory_instructions t), Count (rt_memory_transactions t),
                Decimal 2 (occ_percentage occ), Count (occ_resident_blocks occ)] @
               cache_cells config t) (say ms st))))))"

section \<open>Memory copy\<close>

definition memcpy_header :: string where
  "memcpy_header = ''Experiment,SMs,Pattern,TotalCycles,Instructions,IPC,MemInsts,MemTxns,EffectiveBandwidthBpc,L1Hits,L1Misses,L2Hits,L2Misses,DirtyEvictions,BankConflicts,AMAT''"

text \<open>What thread \<open>i\<close> copies in iteration \<open>iter\<close>: the offset of the word and its value.\<close>

definition memcpy_word :: "string \<Rightarrow> size_t \<Rightarrow> size_t \<times> size_t \<Rightarrow> size_t \<times> c_int" where
  "memcpy_word pattern num_threads p =
     (let (i, iter) = p; (offset, iter_stride) = memcpy_pattern pattern num_threads i
      in (offset + iter * iter_stride, of_nat ((i + iter) mod 255 + 1)))"

definition memcpy_words :: "string \<Rightarrow> size_t \<Rightarrow> size_t \<Rightarrow> (size_t \<times> c_int) list" where
  "memcpy_words pattern num_threads iterations =
     map (memcpy_word pattern num_threads) (List.product [0..<num_threads] [0..<iterations])"

definition memcpy_fill :: "(size_t \<times> c_int) list \<Rightarrow> global_memory \<Rightarrow> global_memory result" where
  "memcpy_fill ws gm =
     foldE (\<lambda>gm (offset, v). bindE (gm_store gm offset v) (\<lambda>gm1. gm_store gm1 (1000000 + offset) 0)) gm ws"

definition memcpy_check :: "(size_t \<times> c_int) list \<Rightarrow> global_memory \<Rightarrow> bool result" where
  "memcpy_check ws gm =
     bindE (mapE (\<lambda>(offset, v). bindE (gm_load gm (1000000 + offset)) (\<lambda>x. Inr (x = v))) ws)
       (\<lambda>oks. Inr (list_all (\<lambda>b. b) oks))"

definition run_memcpy_benchmark ::
    "(nat \<Rightarrow> nat \<Rightarrow> nat) \<Rightarrow> bool \<Rightarrow> string \<Rightarrow> system_config \<Rightarrow> size_t \<Rightarrow> string \<Rightarrow> bench_state
      \<Rightarrow> bench_state result option" where
  "run_memcpy_benchmark rng traced name config num_threads pattern st =
     (let ws = memcpy_words pattern num_threads 10; req = requirements 10 0
      in bindO (Some (bindE (start_gpu rng (enlarge_memory config) traced) (\<lambda>g0.
                      bindE (memcpy_fill ws (gpu_global_memory g0)) (\<lambda>gm.
                      bindE (build_memcpy_grid num_threads (cfg_block_size config) (cfg_warp_size config) pattern) (\<lambda>gr.
                        Inr (g0\<lparr>gpu_global_memory := gm\<rparr>, gr)))))) (\<lambda>(g, gr).
         bindO (run_kernel g (generate_memcpy_kernel 10) gr config req) (\<lambda>g'.
         bindO (Some (memcpy_check ws (gpu_global_memory g'))) (\<lambda>correct.
         if \<not> correct then Some (Inl (Runtime_error (''Memcpy Correctness check FAILED for pattern: '' @ pattern)))
         else
           let t = collect g'
           in Some (Inr (append_csv name memcpy_header
                ([Text name, Count (cfg_num_sms config), Text pattern, Count (rt_max_cycles t), Count (rt_instructions t),
                  Decimal 2 (ratio (rt_instructions t) (rt_max_cycles t)),
                  Count (rt_memory_instructions t), Count (rt_memory_transactions t),
                  Decimal 2 (ratio (num_threads * 4 * 10) (rt_max_cycles t))] @
                 cache_cells config t) (say [Passed pattern] st)))))))"

section \<open>Reduction\<close>

definition reduction_header :: string where
  "reduction_header = ''Experiment,SMs,Elements,TotalCycles,WarpBarrierStallCycles,Instructions,IPC,MemInsts,MemTxns,L1Hits,L1Misses,L2Hits,L2Misses,DirtyEvictions,BankConflicts,AMAT''"

text \<open>The input of the GPU and the expected sums of the blocks, filled in the same loop.\<close>

definition reduction_fill :: "size_t \<Rightarrow> size_t \<Rightarrow> size_t \<Rightarrow> global_memory \<Rightarrow> (global_memory \<times> c_int list) result" where
  "reduction_fill num_elements block_size num_blocks gm =
     bindE (foldE (\<lambda>(gm, out) i.
              bindE (gm_store gm (i * 4) (of_nat (i mod 5 + 1))) (\<lambda>gm1.
              bindE (vec_bump out (i div block_size) (of_nat (i mod 5 + 1))) (\<lambda>out1. Inr (gm1, out1))))
            (gm, replicate num_blocks 0) [0..<num_elements]) (\<lambda>(gm1, out).
     bindE (foldE (\<lambda>gm b. gm_store gm (num_elements * 4 + b * 4) 0) gm1 [0..<num_blocks]) (\<lambda>gm2. Inr (gm2, out)))"

text \<open>Whether the words from \<open>base\<close> on are the expected ones.\<close>

definition check_words :: "size_t \<Rightarrow> c_int list \<Rightarrow> global_memory \<Rightarrow> bool result" where
  "check_words base expected gm =
     bindE (mapE (\<lambda>(i, v). bindE (gm_load gm (base + i * 4)) (\<lambda>x. Inr (x = v))) (enumerate 0 expected))
       (\<lambda>oks. Inr (list_all (\<lambda>b. b) oks))"

definition run_reduction_benchmark ::
    "(nat \<Rightarrow> nat \<Rightarrow> nat) \<Rightarrow> bool \<Rightarrow> string \<Rightarrow> system_config \<Rightarrow> size_t \<Rightarrow> bench_state \<Rightarrow> bench_state result option" where
  "run_reduction_benchmark rng traced name config num_elements st =
     (let block = cfg_block_size config; req = requirements 32 (block * 4)
      in bindO (Some (bindE (start_gpu rng (enlarge_memory config) traced) (\<lambda>g0.
                      bindE (ceil_div num_elements block) (\<lambda>num_blocks.
                      bindE (reduction_fill num_elements block num_blocks (gpu_global_memory g0)) (\<lambda>(gm, out).
                      bindE (generate_reduction_kernel (size_to_int block)) (\<lambda>k.
                      bindE (build_reduction_grid num_elements block (cfg_warp_size config)) (\<lambda>gr.
                        Inr (g0\<lparr>gpu_global_memory := gm\<rparr>, k, gr, out)))))))) (\<lambda>(g, k, gr, out).
         bindO (run_kernel g k gr config req) (\<lambda>g'.
         bindO (Some (check_words (num_elements * 4) out (gpu_global_memory g'))) (\<lambda>correct.
         if \<not> correct then Some (Inl (Runtime_error ''Reduction Correctness check FAILED''))
         else
           let t = collect g'
           in Some (Inr (append_csv name reduction_header
                ([Text name, Count (cfg_num_sms config), Count num_elements, Count (rt_max_cycles t),
                  Count (rt_barrier_stalls t), Count (rt_instructions t),
                  Decimal 2 (ratio (rt_instructions t) (rt_max_cycles t)),
                  Count (rt_memory_instructions t), Count (rt_memory_transactions t)] @
                 cache_cells config t) (say [Passed ''reduction''] st)))))))"

section \<open>Histogram\<close>

definition histogram_header :: string where
  "histogram_header = ''Experiment,SMs,Pattern,Elements,Bins,TotalCycles,WriteConflictStalls,Instructions,IPC,L1Hits,L1Misses,L2Hits,L2Misses,DirtyEvictions,BankConflicts,AMAT''"

definition c_mod :: "nat \<Rightarrow> nat \<Rightarrow> nat result" where
  "c_mod a b = (if b = 0 then Inl (Undefined ''division by zero'') else Inr (a mod b))"

definition histogram_value :: "string \<Rightarrow> size_t \<Rightarrow> size_t \<Rightarrow> size_t result" where
  "histogram_value pattern num_bins i =
     (if pattern = ''uniform'' then c_mod i num_bins
      else if pattern = ''skewed'' then Inr (i mod 4)
      else c_mod i (num_bins div 2))"

definition histogram_fill ::
    "string \<Rightarrow> size_t \<Rightarrow> size_t \<Rightarrow> size_t \<Rightarrow> size_t \<Rightarrow> global_memory \<Rightarrow> (global_memory \<times> c_int list) result" where
  "histogram_fill pattern num_elements num_bins block_size num_blocks gm =
     bindE (foldE (\<lambda>(gm, hist) i.
              bindE (histogram_value pattern num_bins i) (\<lambda>v.
              bindE (gm_store gm (i * 4) (of_nat v)) (\<lambda>gm1.
              bindE (vec_bump hist (i div block_size * num_bins + v) 1) (\<lambda>hist1. Inr (gm1, hist1)))))
            (gm, replicate (num_blocks * num_bins) 0) [0..<num_elements]) (\<lambda>(gm1, hist).
     bindE (foldE (\<lambda>gm (b, bin). gm_store gm (num_elements * 4 + b * num_bins * 4 + bin * 4) 0) gm1
              (List.product [0..<num_blocks] [0..<num_bins])) (\<lambda>gm2. Inr (gm2, hist)))"

definition run_histogram_benchmark ::
    "(nat \<Rightarrow> nat \<Rightarrow> nat) \<Rightarrow> bool \<Rightarrow> string \<Rightarrow> system_config \<Rightarrow> size_t \<Rightarrow> size_t \<Rightarrow> string \<Rightarrow> bench_state
      \<Rightarrow> bench_state result option" where
  "run_histogram_benchmark rng traced name config num_elements num_bins pattern st =
     (let block = cfg_block_size config; req = requirements 32 (num_bins * 4)
      in bindO (Some (bindE (start_gpu rng (enlarge_memory config) traced) (\<lambda>g0.
                      bindE (ceil_div num_elements block) (\<lambda>num_blocks.
                      bindE (histogram_fill pattern num_elements num_bins block num_blocks (gpu_global_memory g0)) (\<lambda>(gm, hist).
                      bindE (generate_histogram_kernel (size_to_int num_bins) (size_to_int block)) (\<lambda>k.
                      bindE (build_histogram_grid num_elements block (cfg_warp_size config) num_bins) (\<lambda>gr.
                        Inr (g0\<lparr>gpu_global_memory := gm\<rparr>, k, gr, hist)))))))) (\<lambda>(g, k, gr, hist).
         bindO (run_kernel g k gr config req) (\<lambda>g'.
         bindO (Some (check_words (num_elements * 4) hist (gpu_global_memory g'))) (\<lambda>correct.
         if \<not> correct then Some (Inl (Runtime_error (''Histogram Correctness check FAILED for pattern: '' @ pattern)))
         else
           let t = collect g'
           in Some (Inr (append_csv name histogram_header
                ([Text name, Count (cfg_num_sms config), Text pattern, Count num_elements, Count num_bins,
                  Count (rt_max_cycles t), Count (rt_write_conflicts t), Count (rt_instructions t),
                  Decimal 2 (ratio (rt_instructions t) (rt_max_cycles t))] @
                 cache_cells config t)
                (say [Passed pattern, Write_conflicts pattern (rt_write_conflicts t)] st)))))))"

section \<open>The selection of the benchmarks\<close>

text \<open>Steps in order, until one throws or does not end.\<close>

fun seqO :: "('s \<Rightarrow> 's result option) list \<Rightarrow> 's \<Rightarrow> 's result option" where
  "seqO [] s = Some (Inr s)"
| "seqO (f # fs) s = bindO (f s) (seqO fs)"

definition removing :: "string \<Rightarrow> bench_state \<Rightarrow> bench_state result option" where
  "removing name st = Some (Inr (remove_csv name st))"

definition memcpy_suite :: "(nat \<Rightarrow> nat \<Rightarrow> nat) \<Rightarrow> bool \<Rightarrow> system_config \<Rightarrow> (bench_state \<Rightarrow> bench_state result option) list" where
  "memcpy_suite rng traced config =
     removing ''memcpy'' #
     map (run_memcpy_benchmark rng traced ''memcpy'' config 1024) [''contiguous'', ''strided'', ''random'']"

definition reduction_suite :: "(nat \<Rightarrow> nat \<Rightarrow> nat) \<Rightarrow> bool \<Rightarrow> system_config \<Rightarrow> (bench_state \<Rightarrow> bench_state result option) list" where
  "reduction_suite rng traced config =
     [removing ''reduction'', run_reduction_benchmark rng traced ''reduction'' (config\<lparr>cfg_block_size := 256\<rparr>) 1024]"

definition histogram_suite :: "(nat \<Rightarrow> nat \<Rightarrow> nat) \<Rightarrow> bool \<Rightarrow> system_config \<Rightarrow> (bench_state \<Rightarrow> bench_state result option) list" where
  "histogram_suite rng traced config =
     [removing ''histogram'', removing ''histogram_low_occupancy''] @
     map (run_histogram_benchmark rng traced ''histogram'' (config\<lparr>cfg_block_size := 256\<rparr>) 2048 256) [''uniform'', ''skewed''] @
     map (run_histogram_benchmark rng traced ''histogram_low_occupancy'' (config\<lparr>cfg_block_size := 32\<rparr>) 32 256)
       [''uniform'', ''skewed'']"

definition gemm_suite :: "(nat \<Rightarrow> nat \<Rightarrow> nat) \<Rightarrow> bool \<Rightarrow> system_config \<Rightarrow> (bench_state \<Rightarrow> bench_state result option) list" where
  "gemm_suite rng traced config =
     [run_gemm_benchmark rng traced ''matrix_multiply_32x32_tile16'' (config\<lparr>cfg_block_size := 256\<rparr>) 32 32 32 16]"

definition priority_suite :: "(nat \<Rightarrow> nat \<Rightarrow> nat) \<Rightarrow> bool \<Rightarrow> system_config \<Rightarrow> (bench_state \<Rightarrow> bench_state result option) list" where
  "priority_suite rng traced config = [run_experiment rng traced ''scheduler_priority'' config ''priority'' False 4 4]"

definition basic_suite ::
    "(nat \<Rightarrow> nat \<Rightarrow> nat) \<Rightarrow> bool \<Rightarrow> bool \<Rightarrow> system_config \<Rightarrow> (bench_state \<Rightarrow> bench_state result option) list" where
  "basic_suite rng traced run_priority config =
     map (\<lambda>(name, policy). run_experiment rng traced name config policy False 4 4)
       [(''scheduler_rr'', ''rr''), (''scheduler_greedy'', ''greedy''), (''scheduler_oldest_first'', ''OldestFirst''),
        (''scheduler_gto'', ''GTO''), (''scheduler_two_level'', ''TwoLevel'')] @
     (if \<not> run_priority then priority_suite rng traced config else []) @
     [removing ''cache_small'', removing ''cache_large''] @
     concat (map (\<lambda>policy. [run_cache_experiment rng traced ''cache_small'' config 2 2 policy,
                            run_cache_experiment rng traced ''cache_large'' config 16 4 policy])
               [''LRU'', ''FIFO'', ''Random'']) @
     [run_experiment rng traced ''coalesced'' config ''rr'' False 4 4,
      run_experiment rng traced ''strided'' config ''rr'' True 4 4,
      run_experiment rng traced ''occupancy_64'' (config\<lparr>cfg_block_size := 64\<rparr>) ''rr'' False 4 4,
      run_experiment rng traced ''occupancy_256'' (config\<lparr>cfg_block_size := 256\<rparr>) ''rr'' False 4 4]"

definition benchmark_names :: "string list" where
  "benchmark_names = [''all'', ''matrix_multiply'', ''basic'', ''priority'', ''memcpy'', ''reduction'', ''histogram'']"

definition selected_suites ::
    "(nat \<Rightarrow> nat \<Rightarrow> nat) \<Rightarrow> bool \<Rightarrow> string \<Rightarrow> system_config \<Rightarrow> (bench_state \<Rightarrow> bench_state result option) list" where
  "selected_suites rng traced b_type config =
     (let run = (\<lambda>name. b_type = ''all'' \<or> b_type = name)
      in (if run ''memcpy'' then memcpy_suite rng traced config else []) @
         (if run ''reduction'' then reduction_suite rng traced config else []) @
         (if run ''histogram'' then histogram_suite rng traced config else []) @
         (if run ''matrix_multiply'' then gemm_suite rng traced config else []) @
         (if run ''priority'' then priority_suite rng traced config else []) @
         (if run ''basic'' then basic_suite rng traced (run ''priority'') config else []))"

definition run_benchmarks ::
    "(nat \<Rightarrow> nat \<Rightarrow> nat) \<Rightarrow> (string \<Rightarrow> bool) \<Rightarrow> string \<Rightarrow> json_document option \<Rightarrow> string \<Rightarrow> bool \<Rightarrow> c_int \<Rightarrow> string
      \<Rightarrow> bench_state \<Rightarrow> bench_state result option" where
  "run_benchmarks rng can_open config_path doc b_type debug_mode trace_level_val trace_file st =
     bindO (Some (bindE (load_config config_path doc) (\<lambda>config.
                  bindE (if debug_mode then bindE (new_trace_logger can_open trace_level_val trace_file) (\<lambda>_. Inr True)
                         else Inr False) (\<lambda>traced.
                  if b_type \<notin> set benchmark_names then Inl (Runtime_error (''Unknown benchmark: '' @ b_type))
                  else Inr (config, traced))))) (\<lambda>(config, traced).
       seqO (selected_suites rng traced b_type config) st)"

end
