(* ===== verification/Report.thy ===== *)
theory Report
  imports Analyzer Benchmarks "HOL-Library.List_Lexorder" "HOL-Library.Char_ord"
begin

text \<open>
  \<^verbatim>\<open>src/analysis/report_generator.cpp\<close>: the Markdown report of an analysis, text and all, and
  \<open>run_analysis\<close> of \<^verbatim>\<open>src/runtime/benchmarks.cpp\<close>, which sweeps, analyses and reports. The
  precision a stream keeps from one output to the next is written at every number.
\<close>

section \<open>The best and the baseline configuration\<close>

text \<open>The loop that keeps the first index of the largest speedup.\<close>

definition best_index :: "analysis_result list \<Rightarrow> nat" where
  "best_index results =
     foldl (\<lambda>best i. if ar_speedup (results ! i) > ar_speedup (results ! best) then i else best) 0 [1..<length results]"

definition baseline_of :: "analysis_result list \<Rightarrow> analysis_result" where
  "baseline_of results = (case find ar_is_baseline results of Some r \<Rightarrow> r | None \<Rightarrow> results ! 0)"

section \<open>Sections of the report\<close>

definition executive_summary :: "analysis_result \<Rightarrow> analysis_result \<Rightarrow> string" where
  "executive_summary baseline best =
     (let b = ar_sim_result baseline; t = ar_sim_result best; bc = sr_config b; tc = sr_config t
      in line ''## Executive Summary'' @ line '''' @
         line (''**Baseline configuration:** '' @ sr_run_name b) @
         line (''- Scheduler: '' @ cfg_scheduler_policy bc) @
         line (''- L1 Sets: '' @ show_nat (cfg_l1_sets bc)) @ line '''' @
         line (''**Best configuration:** '' @ sr_run_name t) @
         line (''- Scheduler: '' @ cfg_scheduler_policy tc) @
         line (''- L1 Sets: '' @ show_nat (cfg_l1_sets tc)) @
         line (''- Max Registers: '' @ show_nat (cfg_max_registers_per_sm tc)) @
         line (''- Max Shared Memory: '' @ show_nat (cfg_max_shared_memory_per_sm tc)) @
         line (''- Max Warps: '' @ show_nat (cfg_max_warps_per_sm tc)) @ line '''' @
         line (''**Speedup over baseline:** '' @ show_fixed 2 (ar_speedup best) @ ''x'') @ line '''' @
         line (''**Primary bottleneck (Best Config):** '' @ ar_primary_bottleneck best) @ line '''' @
         line (''**Confidence:** '' @ ar_confidence best) @ line '''')"

definition comparison_row :: "analysis_result \<Rightarrow> string" where
  "comparison_row r =
     (let s = ar_sim_result r
      in line (''| '' @ sr_run_name s @ (if ar_is_baseline r then '' (Base)'' else '''') @ '' '' @
               ''| '' @ cfg_scheduler_policy (sr_config s) @ '' '' @
               ''| '' @ show_nat (cfg_l1_sets (sr_config s)) @ '' '' @
               ''| '' @ show_nat (sr_total_cycles s) @ '' '' @
               ''| '' @ show_fixed 2 (sr_ipc s) @ '' '' @
               ''| '' @ show_fixed 2 (sr_amat s) @ '' '' @
               ''| '' @ show_fixed 2 (sr_occupancy s) @ '' '' @
               ''| '' @ show_fixed 2 (sr_fairness s) @ '' '' @
               ''| '' @ show_fixed 2 (ar_speedup r) @ ''x |''))"

definition comparison_table :: "analysis_result list \<Rightarrow> string" where
  "comparison_table results =
     line ''## Configuration Comparison'' @ line '''' @
     line ''| Config | Scheduler | L1 Sets | Cycles | IPC | AMAT | Occupancy | Fairness | Speedup |'' @
     line ''|--------|-----------|---------|--------|-----|------|-----------|----------|---------|'' @
     concat (map comparison_row results) @ line ''''"

fun comma_separated :: "string list \<Rightarrow> string" where
  "comma_separated [] = ''''"
| "comma_separated [s] = s"
| "comma_separated (s # ss) = s @ '', '' @ comma_separated ss"

text \<open>A percentage with its sign; a double that is not finite prints as \<open>inf\<close>.\<close>

definition show_delta :: "rat option \<Rightarrow> string" where
  "show_delta d = (case d of Some x \<Rightarrow> show_fixed_pos 1 x | None \<Rightarrow> ''+inf'')"

definition delta_section :: "analysis_result \<Rightarrow> string" where
  "delta_section r =
     (if ar_is_baseline r then ''''
      else line ''**Deltas vs Baseline:**'' @
           line (''- Cycles: '' @ show_delta (ar_cycle_delta_pct r) @ ''%'') @
           line (''- IPC: '' @ show_fixed_pos 1 (ar_ipc_delta_pct r) @ ''%'') @
           line (''- AMAT: '' @ show_fixed_pos 1 (ar_amat_delta_pct r) @ ''%'') @
           line (''- Occupancy: '' @ show_fixed_pos 1 (ar_occupancy_delta r)) @
           line (''- Fairness: '' @ show_fixed_pos 1 (ar_fairness_delta r)))"

definition diagnosis_entry :: "analysis_result \<Rightarrow> string" where
  "diagnosis_entry r =
     line (''### '' @ sr_run_name (ar_sim_result r) @ (if ar_is_baseline r then '' (Baseline)'' else '''')) @
     line (''**Primary:** '' @ ar_primary_bottleneck r) @
     (if ar_secondary_bottlenecks r \<noteq> []
      then line (''**Secondary:** '' @ comma_separated (ar_secondary_bottlenecks r)) else '''') @
     line ''**Evidence:**'' @
     concat (map (\<lambda>ev. line (''- '' @ ev)) (ar_contributing_factors r)) @
     delta_section r @ line ''''"

section \<open>Sensitivity\<close>

text \<open>A \<open>std::map\<close> from the keys, in ascending order, to the speedups in the order of the results.\<close>

definition grouped :: "('k :: linorder) list \<Rightarrow> rat list \<Rightarrow> ('k \<times> rat list) list" where
  "grouped ks vs = map (\<lambda>k. (k, map snd (filter (\<lambda>p. fst p = k) (zip ks vs)))) (sorted_list_of_set (set ks))"

definition average :: "rat list \<Rightarrow> rat" where
  "average vs = foldl (+) 0 vs / of_nat (length vs)"

definition sensitivity_section :: "analysis_result list \<Rightarrow> string" where
  "sensitivity_section results =
     (let speedups = map ar_speedup results;
          by_policy = grouped (map (\<lambda>r. cfg_scheduler_policy (sr_config (ar_sim_result r))) results) speedups;
          by_sets = grouped (map (\<lambda>r. cfg_l1_sets (sr_config (ar_sim_result r))) results) speedups
      in line ''## Parameter Sensitivity'' @ line '''' @
         line ''### Average Speedup by Scheduler Policy'' @
         concat (map (\<lambda>(policy, speeds). line (''- **'' @ policy @ ''**: '' @ show_fixed 2 (average speeds) @ ''x'')) by_policy) @
         line '''' @ line ''### Average Speedup by L1 Sets'' @
         concat (map (\<lambda>(sets, speeds). line (''- **'' @ show_nat sets @ '' sets**: '' @ show_fixed 2 (average speeds) @ ''x'')) by_sets) @
         line '''' @
         line ''*Note: These averages are descriptive sensitivity summaries across tested configurations and may include interactions between simultaneously swept parameters. Causal bottleneck conclusions are based exclusively on matched-configuration isolation.*'' @
         line '''')"

definition recommendations :: "analysis_result \<Rightarrow> analysis_result \<Rightarrow> string" where
  "recommendations baseline best =
     line ''## Architectural Recommendations'' @ line '''' @
     (if ar_primary_bottleneck best = ''Memory Latency''
      then line ''1. The best configuration is still memory latency bound. Consider increasing `l1_sets`, `l2_sets`, or changing cache policies.'' @
           line ''   *(Future capability note: hardware prefetching is not currently supported in SIM-SM but would further mitigate this.)*''
      else if ar_primary_bottleneck best = ''Compute''
      then line ''1. The best configuration successfully achieves high IPC and is compute bound. Expanding SM execution units (issue width) would be required for further scaling.'' @
           line ''   *(Future capability note: SIM-SM currently assumes peak IPC = 1 instruction per SM per cycle.)*''
      else if ar_primary_bottleneck best = ''Occupancy''
      then line ''1. Performance is currently limited by the number of resident warps. Increase `max_registers_per_sm`, `max_shared_memory_per_sm`, or `max_warps_per_sm`.''
      else if ar_primary_bottleneck best = ''Unclassified''
      then line ''1. No single dominant architectural bottleneck was found. The system is well-balanced or limited by instruction mix.''
      else '''') @
     (if ar_primary_bottleneck baseline = ''Scheduler Inefficiency'' \<and> ar_primary_bottleneck best \<noteq> ''Scheduler Inefficiency''
      then line ''2. Changing the scheduler policy successfully mitigated initial scheduler-related stalls.'' else '''')"

definition generate_markdown_report :: "analysis_result list \<Rightarrow> string \<Rightarrow> string" where
  "generate_markdown_report results title =
     (if results = [] then line (''# '' @ title) @ line '''' @ line ''No results provided.''
      else let best = results ! best_index results; baseline = baseline_of results
           in line (''# '' @ title) @ line '''' @
              executive_summary baseline best @ comparison_table results @
              line ''## Bottleneck Diagnosis'' @ line '''' @ concat (map diagnosis_entry results) @
              sensitivity_section results @ recommendations baseline best)"

section \<open>The analysis run\<close>

definition analysis_space :: parameter_space where
  "analysis_space =
     \<lparr>ps_scheduler_policies = [''RR'', ''GTO'', ''OldestFirst'', ''TwoLevel''], ps_l1_sets = [4, 8, 16],
      ps_max_registers_per_sm = [], ps_max_shared_memory_per_sm = [], ps_max_warps_per_sm = []\<rparr>"

text \<open>The report is written to a file; it is the value here.\<close>

definition run_analysis ::
    "(nat \<Rightarrow> nat \<Rightarrow> nat) \<Rightarrow> (candidate list \<Rightarrow> candidate list) \<Rightarrow> string \<Rightarrow> json_document option \<Rightarrow> string result option" where
  "run_analysis rng srt config_path doc =
     bindO (Some (bindE (load_config config_path doc) (\<lambda>config.
                  bindE (generate_vector_add_kernel 100) (\<lambda>k.
                  bindE (build_benchmark_grid 2048 (cfg_block_size config) (cfg_warp_size config) False) (\<lambda>gr.
                    Inr (config, k, gr)))))) (\<lambda>(config, k, gr).
     bindO (run_sweep rng config k gr (requirements 10 0) analysis_space) (\<lambda>results.
       Some (Inr (generate_markdown_report (analyze srt results 0) ''SIM-SM Architectural Analysis''))))"

section \<open>Laws\<close>

lemma best_index_step:
  assumes "n \<le> length results" and "0 < n"
  shows "let b = foldl (\<lambda>best i. if ar_speedup (results ! i) > ar_speedup (results ! best) then i else best) 0 [1..<n]
    in b < n \<and> (\<forall>i < n. ar_speedup (results ! i) \<le> ar_speedup (results ! b)) \<and>
       (\<forall>i < b. ar_speedup (results ! i) < ar_speedup (results ! b))"
  using assms
proof (induction n)
  case (Suc n)
  show ?case
  proof (cases "n = 0")
    case False
    then have u: "[1..<Suc n] = [1..<n] @ [n]" by (simp add: upt_Suc)
    let ?b = "foldl (\<lambda>best i. if ar_speedup (results ! i) > ar_speedup (results ! best) then i else best) 0 [1..<n]"
    have ih: "?b < n" "\<forall>i < n. ar_speedup (results ! i) \<le> ar_speedup (results ! ?b)"
      "\<forall>i < ?b. ar_speedup (results ! i) < ar_speedup (results ! ?b)"
      using Suc False by (simp_all add: Let_def)
    show ?thesis using ih by (auto simp: u Let_def less_Suc_eq intro: le_less_trans order_trans[OF _ less_imp_le])
  qed simp
qed simp

lemma best_index_maximal:
  assumes "results \<noteq> []"
  shows "best_index results < length results"
    and "\<forall>r \<in> set results. ar_speedup r \<le> ar_speedup (results ! best_index results)"
    and "\<forall>i < best_index results. ar_speedup (results ! i) < ar_speedup (results ! best_index results)"
  using best_index_step[of "length results" results] assms
  by (auto simp: best_index_def Let_def in_set_conv_nth)

lemma grouped_keys: "map fst (grouped ks vs) = sorted_list_of_set (set ks)"
  by (simp add: grouped_def comp_def)

lemma grouped_values:
  assumes "length ks = length vs"
  shows "mset (concat (map snd (grouped ks vs))) = mset vs"
proof -
  have "image_mset snd (filter_mset (\<lambda>p. fst p \<in> S) (mset (zip ks vs))) =
      mset (concat (map (\<lambda>k. map snd (filter (\<lambda>p. fst p = k) (zip ks vs))) (sorted_list_of_set S)))"
    if "finite S" for S
    using that
  proof (induction S)
    case (insert k S)
    have "filter_mset (\<lambda>p. fst p \<in> insert k S) (mset (zip ks vs)) =
        filter_mset (\<lambda>p. fst p = k) (mset (zip ks vs)) + filter_mset (\<lambda>p. fst p \<in> S) (mset (zip ks vs))"
      using insert(2) by (intro multiset_eqI) auto
    moreover have "mset (concat (map f (insort k xs))) = mset (f k) + mset (concat (map f xs))" for f :: "'a \<Rightarrow> rat list" and xs
      by (induction xs) auto
    ultimately show ?case using insert by (simp add: mset_filter)
  qed simp
  from this[of "set ks"] have "mset (concat (map snd (grouped ks vs))) =
      image_mset snd (filter_mset (\<lambda>p. fst p \<in> set ks) (mset (zip ks vs)))"
    by (simp add: grouped_def comp_def)
  also have "filter_mset (\<lambda>p. fst p \<in> set ks) (mset (zip ks vs)) = mset (zip ks vs)"
    by (rule filter_mset_cong[THEN trans, OF refl, of _ _ "\<lambda>_. True"]) (auto dest: set_zip_leftD)
  also have "image_mset snd (mset (zip ks vs)) = mset vs" using assms by (simp flip: mset_map)
  finally show ?thesis .
qed

end
