(* ===== verification/Command_Line.thy ===== *)
theory Command_Line
  imports Report
begin

text \<open>
  \<^verbatim>\<open>src/main.cpp\<close>: the command line and what \<open>main\<close> does with it. The arguments are those
  after the program name. \<open>std::stoll\<close> and \<open>std::stoi\<close> are called outside every \<open>try\<close>, so
  their exceptions end the program by \<open>std::terminate\<close>.
\<close>

record options =
  op_config_path :: string
  op_num_threads :: int
  op_debug_mode :: bool
  op_trace_level :: c_int
  op_trace_file :: string
  op_run_benchmarks :: bool
  op_b_type :: string

definition default_options :: options where
  "default_options =
     \<lparr>op_config_path = '''', op_num_threads = -1, op_debug_mode = False, op_trace_level = 7, op_trace_file = '''',
      op_run_benchmarks = False, op_b_type = ''all''\<rparr>"

text \<open>The loop over \<open>argv\<close>; \<open>None\<close> is an argument it does not know.\<close>

function parse_args :: "string list \<Rightarrow> options \<Rightarrow> options option result" where
  "parse_args [] opts = Inr (Some opts)"
| "parse_args (arg # rest) opts =
     (if arg = ''--config'' \<and> rest \<noteq> [] then parse_args (tl rest) (opts\<lparr>op_config_path := hd rest\<rparr>)
      else if arg = ''--threads'' \<and> rest \<noteq> []
      then (case stoll (hd rest) of Inl e \<Rightarrow> Inl e | Inr n \<Rightarrow> parse_args (tl rest) (opts\<lparr>op_num_threads := n\<rparr>))
      else if arg = ''--debug'' then parse_args rest (opts\<lparr>op_debug_mode := True\<rparr>)
      else if arg = ''--trace-level'' \<and> rest \<noteq> []
      then (case stoi (hd rest) of Inl e \<Rightarrow> Inl e | Inr n \<Rightarrow> parse_args (tl rest) (opts\<lparr>op_trace_level := n\<rparr>))
      else if arg = ''--trace-file'' \<and> rest \<noteq> [] then parse_args (tl rest) (opts\<lparr>op_trace_file := hd rest\<rparr>)
      else if arg = ''--benchmark''
      then if rest \<noteq> [] \<and> take 2 (hd rest) \<noteq> ''--''
           then parse_args (tl rest) (opts\<lparr>op_run_benchmarks := True, op_b_type := hd rest\<rparr>)
           else parse_args rest (opts\<lparr>op_run_benchmarks := True\<rparr>)
      else if arg = ''--analyze'' then parse_args rest (opts\<lparr>op_run_benchmarks := True, op_b_type := ''analyze''\<rparr>)
      else Inr None)"
  by pat_completeness auto

termination
  by (relation "measure (\<lambda>(args, opts). length args)") (auto simp: neq_Nil_conv)

datatype outcome =
    Usage
  | Missing_config
  | Aborted sim_error
  | Bench_failed sim_error
  | Bench_done bench_state
  | Report_written string
  | Run_failed sim_error
  | Grid_summary size_t size_t size_t size_t

definition exit_success :: "outcome \<Rightarrow> bool" where
  "exit_success r \<longleftrightarrow>
     (case r of Bench_done _ \<Rightarrow> True | Report_written _ \<Rightarrow> True | Grid_summary _ _ _ _ \<Rightarrow> True | _ \<Rightarrow> False)"

text \<open>\<open>GPU gpu(config.num_sms)\<close>, with the default arguments of the constructor.\<close>

definition main_gpu :: "(nat \<Rightarrow> nat \<Rightarrow> nat) \<Rightarrow> size_t \<Rightarrow> gpu result" where
  "main_gpu rng num_sms = new_gpu_sized rng num_sms 4 4 16 8 32 1048576 ''LRU''"

definition run_grid_summary ::
    "(nat \<Rightarrow> nat \<Rightarrow> nat) \<Rightarrow> (string \<Rightarrow> bool) \<Rightarrow> options \<Rightarrow> json_document option \<Rightarrow> outcome result" where
  "run_grid_summary rng can_open opts doc =
     bindE (load_config (op_config_path opts) doc) (\<lambda>config.
     bindE (main_gpu rng (cfg_num_sms config)) (\<lambda>g.
     bindE (if op_debug_mode opts
            then bindE (new_trace_logger can_open (op_trace_level opts) (op_trace_file opts)) (\<lambda>_. Inr ()) else Inr ()) (\<lambda>_.
     bindE (build_main_grid (nat (op_num_threads opts)) (cfg_block_size config) (cfg_warp_size config)) (\<lambda>gr.
       Inr (Grid_summary (nat (op_num_threads opts)) (sum_list (map (\<lambda>b. length (tb_warps b)) (g_blocks gr)))
              (length (g_blocks gr)) (length (gpu_sms g)))))))"

definition main_program ::
    "(nat \<Rightarrow> nat \<Rightarrow> nat) \<Rightarrow> (string \<Rightarrow> bool) \<Rightarrow> (candidate list \<Rightarrow> candidate list) \<Rightarrow> (string \<Rightarrow> json_document option)
      \<Rightarrow> bench_state \<Rightarrow> string list \<Rightarrow> outcome option" where
  "main_program rng can_open srt read_doc st args =
     (case parse_args args default_options of
        Inl e \<Rightarrow> Some (Aborted e)
      | Inr None \<Rightarrow> Some Usage
      | Inr (Some opts) \<Rightarrow>
          let path = op_config_path opts; doc = read_doc path
          in if path = '''' then Some Missing_config
             else if op_run_benchmarks opts
             then if op_b_type opts = ''analyze''
                  then (case run_analysis rng srt path doc of
                          None \<Rightarrow> None | Some (Inl e) \<Rightarrow> Some (Bench_failed e) | Some (Inr r) \<Rightarrow> Some (Report_written r))
                  else (case run_benchmarks rng can_open path doc (op_b_type opts) (op_debug_mode opts)
                               (op_trace_level opts) (op_trace_file opts) st of
                          None \<Rightarrow> None | Some (Inl e) \<Rightarrow> Some (Bench_failed e) | Some (Inr st') \<Rightarrow> Some (Bench_done st'))
             else if op_num_threads opts < 0 then Some Usage
             else (case run_grid_summary rng can_open opts doc of
                     Inl e \<Rightarrow> Some (Run_failed e) | Inr r \<Rightarrow> Some r))"

section \<open>Command lines that spell out every option\<close>

text \<open>The command line of a set of options, in a fixed order.\<close>

definition command_line :: "options \<Rightarrow> string list" where
  "command_line opts =
     [''--config'', op_config_path opts, ''--threads'', show_int (op_num_threads opts)] @
     (if op_debug_mode opts then [''--debug''] else []) @
     [''--trace-level'', show_int (sint (op_trace_level opts)), ''--trace-file'', op_trace_file opts] @
     (if op_run_benchmarks opts then [''--benchmark'', op_b_type opts] else [])"

lemma stoll_show_int: "- (2 ^ 63) \<le> i \<Longrightarrow> i < 2 ^ 63 \<Longrightarrow> stoll (show_int i) = Inr i"
  by (simp add: stoll_def sto_int_def scan_show_int)

lemma stoi_show_int: "stoi (show_int (sint (i :: c_int))) = Inr i"
  using sint_bounds32[of i] by (simp add: stoi_def sto_int_def scan_show_int)

lemma parse_command_line:
  assumes "- (2 ^ 63) \<le> op_num_threads opts" and "op_num_threads opts < 2 ^ 63"
    and "op_run_benchmarks opts \<longrightarrow> take 2 (op_b_type opts) \<noteq> ''--''"
    and "\<not> op_run_benchmarks opts \<longrightarrow> op_b_type opts = ''all''"
  shows "parse_args (command_line opts) default_options = Inr (Some opts)"
  using assms
  by (cases opts) (simp add: command_line_def default_options_def stoll_show_int stoi_show_int)

end
