(* ===== verification/Grid_Props.thy ===== *)
theory Grid_Props
  imports Kernels GPU_Props
begin

text \<open>
  Laws of the grid builders of \<open>Kernels\<close>: how the threads of a grid are divided into blocks and
  warps, what their registers hold, and when building a grid throws.
\<close>

section \<open>Chunks\<close>

lemma concat_chunks:
  "concat (map (\<lambda>i. [c + i * s ..< c + min (i * s + s) m]) [0..<k]) = [c ..< c + min (k * s) m]"
proof (induction k)
  case (Suc k)
  have "[c ..< c + min (k * s) m] @ [c + k * s ..< c + min (k * s + s) m] = [c ..< c + min (k * s + s) m]"
  proof (cases "k * s \<le> m")
    case True
    then have "[c ..< c + min (k * s) m] @ [c + k * s ..< c + min (k * s + s) m] =
        [c ..< c + k * s] @ [c + k * s ..< (c + k * s) + (min (k * s + s) m - k * s)]" by (simp add: min_def)
    also have "\<dots> = [c ..< (c + k * s) + (min (k * s + s) m - k * s)]" by (rule upt_add_eq_append[symmetric]) simp
    finally show ?thesis using True by (simp add: min_def)
  next
    case False
    then show ?thesis by (simp add: min_def)
  qed
  then show ?case using Suc by (simp add: add.commute)
qed simp

lemma ceil_div_Inr:
  assumes "0 < d" and "x + d < 2 ^ 64"
  shows "ceil_div x d = Inr ((x + d - 1) div d)"
  using assms by (simp add: ceil_div_def size_add_def size_sub_def)

lemma chunks_cover:
  assumes "0 < (d :: nat)"
  shows "x \<le> ((x + d - 1) div d) * d" and "i < (x + d - 1) div d \<Longrightarrow> i * d < x"
proof -
  let ?q = "(x + d - 1) div d"
  have "x + d - 1 < (?q + 1) * d" using assms by (metis add.commute dividend_less_div_times mult.commute mult_Suc_right Suc_eq_plus1)
  then show "x \<le> ?q * d" using assms by simp
  assume "i < ?q"
  then have "(i + 1) * d \<le> ?q * d" by (intro mult_le_mono1) simp
  also have "\<dots> \<le> x + d - 1" by (rule div_times_less_eq_dividend)
  finally show "i * d < x" using assms by simp
qed

section \<open>Threads\<close>

definition thread_ids :: "thread \<Rightarrow> nat \<times> nat \<times> nat \<times> nat \<times> nat" where
  "thread_ids t = (t_global_id t, t_block_id t, t_local_id t, t_warp_id t, t_lane_id t)"

lemma write_registers_ids:
  assumes "write_registers rvs t = Inr t'"
  shows "thread_ids t' = thread_ids t \<and> t_pc t' = t_pc t \<and> t_predicate t' = t_predicate t"
proof (rule foldE_invariant[where P = "\<lambda>t'. thread_ids t' = thread_ids t \<and> t_pc t' = t_pc t \<and> t_predicate t' = t_predicate t"])
  show "foldE (\<lambda>t (r, v). write_reg t r v) t rvs = Inr t'" using assms by (simp add: write_registers_def)
qed (auto simp: write_reg_def thread_ids_def)

lemma make_thread_ids:
  assumes "make_thread init bs ws b w l = Inr t"
  shows "thread_ids t = (b * bs + (w * ws + l), b, w * ws + l, w, l)"
  using write_registers_ids assms by (fastforce simp: make_thread_def Let_def new_thread_def thread_ids_def)

text \<open>The registers of a thread are those its initialisation wrote.\<close>

definition initialised :: "thread_init \<Rightarrow> thread \<Rightarrow> bool" where
  "initialised init t \<longleftrightarrow>
     write_registers (init (t_block_id t) (t_local_id t) (t_global_id t))
       (new_thread (t_global_id t) (t_block_id t) (t_local_id t) (t_warp_id t) (t_lane_id t)) = Inr t"

lemma make_thread_initialised: "make_thread init bs ws b w l = Inr t \<Longrightarrow> initialised init t"
  using make_thread_ids[of init bs ws b w l t]
  by (simp add: make_thread_def Let_def initialised_def thread_ids_def)

section \<open>Warps, blocks and grids\<close>

text \<open>What the builders do to a finished warp leaves all but its priority alone.\<close>

definition keeps_warp :: "(warp \<Rightarrow> warp) \<Rightarrow> bool" where
  "keeps_warp f \<longleftrightarrow> (\<forall>w. same_core w (f w) \<and> w_state (f w) = w_state w)"

lemma keeps_prioritised: "keeps_warp prioritised"
  and keeps_id: "keeps_warp (\<lambda>w. w)"
  by (simp_all add: keeps_warp_def prioritised_def set_priority_def same_core_def)

text \<open>A warp as the builders make it.\<close>

definition built :: "thread_init \<Rightarrow> size_t \<Rightarrow> warp \<Rightarrow> bool" where
  "built init ws w \<longleftrightarrow>
     w_threads w \<noteq> [] \<and> length (w_threads w) \<le> ws \<and> (\<forall>t \<in> set (w_threads w). initialised init t) \<and>
     w_active_mask w = full_mask (length (w_threads w)) \<and> w_state w = Ready \<and> w_stack w = [] \<and> w_pc w = 0"

lemma make_warp_built:
  assumes run: "make_warp f init bs ws b nb k = Inr w" and f: "keeps_warp f" and pos: "0 < ws" "k * ws < nb"
  shows "built init ws w" and "w_id w = k"
    and "map t_global_id (w_threads w) = [b * bs + k * ws ..< b * bs + min (k * ws + ws) nb]"
    and "\<forall>t \<in> set (w_threads w). t_block_id t = b"
    and "\<forall>t \<in> set (w_threads w). t_global_id t = b * bs + t_local_id t \<and> t_local_id t < nb"
    and "map t_local_id (w_threads w) = [k * ws ..< min (k * ws + ws) nb]"
proof -
  obtain ts where ts: "mapE (make_thread init bs ws b k) [0..<min ws (nb - k * ws)] = Inr ts"
    and w: "w = f (build_warp k ts)" using run by (auto simp: make_warp_def)
  have len: "length ts = min ws (nb - k * ws)" using mapE_length[OF ts] by simp
  have nth: "make_thread init bs ws b k i = Inr (ts ! i)" if "i < length ts" for i
    using mapE_nth[OF ts, of i] that len by simp
  have core: "same_core (build_warp k ts) w" "w_state w = w_state (build_warp k ts)" using f by (auto simp: keeps_warp_def w)
  then have fields: "w_threads w = ts" "w_active_mask w = full_mask (length ts)" "w_state w = Ready" "w_stack w = []"
      "w_pc w = 0" "w_id w = k"
    using build_warp_props[of k ts] by (simp_all add: same_core_def)
  have "\<forall>t \<in> set ts. initialised init t" "\<forall>t \<in> set ts. t_block_id t = b"
    using nth make_thread_initialised make_thread_ids by (fastforce simp: in_set_conv_nth thread_ids_def)+
  then show "built init ws w" "w_id w = k" "\<forall>t \<in> set (w_threads w). t_block_id t = b"
    using fields len pos by (auto simp: built_def)
  have ids: "t_global_id (ts ! i) = b * bs + k * ws + i" "t_local_id (ts ! i) = k * ws + i" if "i < length ts" for i
    using make_thread_ids[OF nth[OF that]] by (simp_all add: thread_ids_def)
  then show "\<forall>t \<in> set (w_threads w). t_global_id t = b * bs + t_local_id t \<and> t_local_id t < nb"
    using pos(2) by (auto simp: fields in_set_conv_nth len add.assoc)
  have "map t_global_id ts = map (\<lambda>i. b * bs + k * ws + i) [0..<length ts]"
    using ids by (intro nth_equalityI) auto
  also have "\<dots> = [b * bs + k * ws ..< b * bs + k * ws + length ts]"
    by (simp add: map_add_upt add.commute)
  finally show "map t_global_id (w_threads w) = [b * bs + k * ws ..< b * bs + min (k * ws + ws) nb]"
    using pos(2) by (simp add: fields len min_def add.assoc split: if_splits)
  have "map t_local_id ts = map (\<lambda>i. k * ws + i) [0..<length ts]"
    using ids by (intro nth_equalityI) auto
  also have "\<dots> = [k * ws ..< k * ws + length ts]"
    by (simp add: map_add_upt add.commute)
  finally show "map t_local_id (w_threads w) = [k * ws ..< min (k * ws + ws) nb]"
    using pos(2) by (simp add: fields len min_def split: if_splits)
qed

lemma foldl_add_warp: "foldl add_warp b ws = b\<lparr>tb_warps := tb_warps b @ ws\<rparr>"
  by (induction ws arbitrary: b) (simp_all add: add_warp_def)

lemma foldl_add_block: "foldl add_block g bs = g\<lparr>g_blocks := g_blocks g @ bs\<rparr>"
  by (induction bs arbitrary: g) (simp_all add: add_block_def)

lemma map_mapE:
  assumes "mapE f xs = Inr ys" and "\<And>x y. x \<in> set xs \<Longrightarrow> f x = Inr y \<Longrightarrow> g y = h x"
  shows "map g ys = map h xs"
  using assms mapE_length[OF assms(1)] mapE_nth[OF assms(1)] by (intro nth_equalityI) auto

lemma mapE_members:
  assumes "mapE f xs = Inr ys" and "\<And>x y. x \<in> set xs \<Longrightarrow> f x = Inr y \<Longrightarrow> P y"
  shows "\<forall>y \<in> set ys. P y"
proof
  fix y assume "y \<in> set ys"
  then obtain i where "i < length xs" "y = ys ! i" using mapE_length[OF assms(1)] by (auto simp: in_set_conv_nth)
  then show "P y" using assms(2)[of "xs ! i"] mapE_nth[OF assms(1)] by simp
qed

definition block_threads_of :: "thread_block \<Rightarrow> thread list" where
  "block_threads_of b = concat (map w_threads (tb_warps b))"

definition grid_threads :: "grid \<Rightarrow> thread list" where
  "grid_threads g = concat (map block_threads_of (g_blocks g))"

text \<open>A block as the builders make it.\<close>

definition built_block :: "thread_init \<Rightarrow> size_t \<Rightarrow> size_t \<Rightarrow> thread_block \<Rightarrow> bool" where
  "built_block init bs ws b \<longleftrightarrow>
     tb_warps b \<noteq> [] \<and> (\<forall>w \<in> set (tb_warps b). built init ws w) \<and>
     map w_id (tb_warps b) = [0..<length (tb_warps b)] \<and> length (block_threads_of b) \<le> bs \<and>
     length (tb_warps b) \<le> (bs + ws - 1) div ws \<and> (\<forall>t \<in> set (block_threads_of b). t_block_id t = tb_id b)"

text \<open>Block \<open>b\<close> of a grid of \<open>n\<close> threads: full unless it is the last one, and so are its warps.\<close>

definition packed :: "size_t \<Rightarrow> size_t \<Rightarrow> size_t \<Rightarrow> thread_block \<Rightarrow> bool" where
  "packed n bs ws b \<longleftrightarrow>
     (let k = min bs (n - tb_id b * bs)
      in length (block_threads_of b) = k \<and>
         map (\<lambda>w. map t_local_id (w_threads w)) (tb_warps b) = map (\<lambda>j. [j * ws ..< min (j * ws + ws) k]) [0..<(k + ws - 1) div ws])"

lemma make_block_built:
  assumes run: "make_block f init n bs ws k = Inr b" and f: "keeps_warp f" and ws: "0 < ws" and bs: "0 < bs"
    and k: "k * bs < n" and no_wrap: "bs + ws < 2 ^ 64"
  shows "built_block init bs ws b" and "tb_id b = k"
    and "map t_global_id (block_threads_of b) = [k * bs ..< min (k * bs + bs) n]"
    and "\<forall>t \<in> set (block_threads_of b). t_global_id t = k * bs + t_local_id t \<and> t_local_id t < bs"
    and "packed n bs ws b"
proof -
  let ?nb = "min bs (n - k * bs)"
  have nb: "0 < ?nb" "?nb + ws < 2 ^ 64" using bs k no_wrap by auto
  let ?nw = "(?nb + ws - 1) div ws"
  obtain wps where wps: "mapE (make_warp f init bs ws k ?nb) [0..<?nw] = Inr wps"
    and b: "b = \<lparr>tb_id = k, tb_warps = wps\<rparr>"
    using run ceil_div_Inr[OF ws nb(2)]
    by (auto simp: make_block_def Let_def foldl_add_warp new_thread_block_def)
  have cover: "i * ws < ?nb" if "i \<in> set [0..<?nw]" for i using chunks_cover(2)[OF ws, of i ?nb] that by simp
  note mw = make_warp_built[OF _ f ws cover]
  have built: "\<forall>w \<in> set wps. built init ws w" by (rule mapE_members[OF wps]) (rule mw(1))
  have blk: "\<forall>w \<in> set wps. \<forall>t \<in> set (w_threads w). t_block_id t = k" by (rule mapE_members[OF wps]) (rule mw(4))
  have "\<forall>w \<in> set wps. \<forall>t \<in> set (w_threads w). t_global_id t = k * bs + t_local_id t \<and> t_local_id t < ?nb"
    by (rule mapE_members[OF wps]) (rule mw(5))
  then show "\<forall>t \<in> set (block_threads_of b). t_global_id t = k * bs + t_local_id t \<and> t_local_id t < bs"
    by (auto simp: b block_threads_of_def)
  have ids: "map w_id wps = map (\<lambda>i. i) [0..<?nw]" by (rule map_mapE[OF wps]) (rule mw(2))
  have len: "length wps = ?nw" using mapE_length[OF wps] by simp
  have "map (\<lambda>w. map t_global_id (w_threads w)) wps = map (\<lambda>i. [k * bs + i * ws ..< k * bs + min (i * ws + ws) ?nb]) [0..<?nw]"
    by (rule map_mapE[OF wps]) (rule mw(3))
  then have "map t_global_id (block_threads_of b) = [k * bs ..< k * bs + min (?nw * ws) ?nb]"
    using concat_chunks[of "k * bs" ws ?nb ?nw] by (simp add: b block_threads_of_def map_concat comp_def)
  also have "min (?nw * ws) ?nb = ?nb" using chunks_cover(1)[OF ws, of ?nb] by (simp add: min_def)
  finally have gids: "map t_global_id (block_threads_of b) = [k * bs ..< k * bs + ?nb]" .
  then show "map t_global_id (block_threads_of b) = [k * bs ..< min (k * bs + bs) n]"
    using k by (auto simp: min_def)
  have lb: "length (block_threads_of b) = ?nb" using arg_cong[OF gids, of length] by simp
  have "map (\<lambda>w. map t_local_id (w_threads w)) wps = map (\<lambda>i. [i * ws ..< min (i * ws + ws) ?nb]) [0..<?nw]"
    by (rule map_mapE[OF wps]) (rule mw(6))
  with lb show "packed n bs ws b" by (simp add: packed_def b Let_def)
  note lb
  moreover have "?nw \<le> (bs + ws - 1) div ws" by (intro div_le_mono) simp
  moreover have "0 < ?nw" using chunks_cover(1)[OF ws, of ?nb] nb(1) by (cases "?nw = 0") auto
  ultimately show "built_block init bs ws b"
    using built blk ids len by (auto simp: built_block_def b block_threads_of_def)
  show "tb_id b = k" by (simp add: b)
qed

lemma make_grid_built:
  assumes run: "make_grid f init n bs ws = Inr gr" and f: "keeps_warp f" and ws: "0 < ws" and bs: "0 < bs"
    and no_wrap: "bs + ws < 2 ^ 64" "n + bs < 2 ^ 64"
  shows "\<forall>b \<in> set (g_blocks gr). built_block init bs ws b"
    and "map tb_id (g_blocks gr) = [0..<length (g_blocks gr)]" and "length (g_blocks gr) = (n + bs - 1) div bs"
    and "map t_global_id (grid_threads gr) = [0..<n]"
    and "\<forall>b \<in> set (g_blocks gr). map t_global_id (block_threads_of b) = [tb_id b * bs ..< min (tb_id b * bs + bs) n] \<and>
      (\<forall>t \<in> set (block_threads_of b). t_global_id t = tb_id b * bs + t_local_id t \<and> t_local_id t < bs)"
    and "\<forall>b \<in> set (g_blocks gr). packed n bs ws b"
proof -
  let ?nb = "(n + bs - 1) div bs"
  have z: "?nb = 0" if "n = 0" using that bs by simp
  obtain bl where bl: "mapE (make_block f init n bs ws) [0..<?nb] = Inr bl" and gr: "gr = \<lparr>g_blocks = bl\<rparr>"
    using run ceil_div_Inr[OF bs no_wrap(2)] z by (auto simp: make_grid_def Let_def foldl_add_block split: if_splits)
  have cover: "i * bs < n" if "i \<in> set [0..<?nb]" for i using chunks_cover(2)[OF bs, of i n] that by simp
  note mb = make_block_built[OF _ f ws bs cover no_wrap(1)]
  show "\<forall>b \<in> set (g_blocks gr). built_block init bs ws b" unfolding gr grid.simps by (rule mapE_members[OF bl]) (rule mb(1))
  show "\<forall>b \<in> set (g_blocks gr). map t_global_id (block_threads_of b) = [tb_id b * bs ..< min (tb_id b * bs + bs) n] \<and>
      (\<forall>t \<in> set (block_threads_of b). t_global_id t = tb_id b * bs + t_local_id t \<and> t_local_id t < bs)"
    unfolding gr grid.simps by (rule mapE_members[OF bl]) (use mb(2-4) in blast)
  show "\<forall>b \<in> set (g_blocks gr). packed n bs ws b" unfolding gr grid.simps by (rule mapE_members[OF bl]) (rule mb(5))
  show len: "length (g_blocks gr) = ?nb" using mapE_length[OF bl] by (simp add: gr)
  have "map tb_id bl = map (\<lambda>i. i) [0..<?nb]" by (rule map_mapE[OF bl]) (rule mb(2))
  then show "map tb_id (g_blocks gr) = [0..<length (g_blocks gr)]" using len by (simp add: gr)
  have "map (\<lambda>b. map t_global_id (block_threads_of b)) bl = map (\<lambda>i. [0 + i * bs ..< 0 + min (i * bs + bs) n]) [0..<?nb]"
    by (rule map_mapE[OF bl]) (simp add: mb(3))
  then have "map t_global_id (grid_threads gr) = [0 ..< 0 + min (?nb * bs) n]"
    unfolding concat_chunks[of 0 bs n ?nb, symmetric] by (simp add: gr grid_threads_def map_concat comp_def)
  then show "map t_global_id (grid_threads gr) = [0..<n]" using chunks_cover(1)[OF bs, of n] by (simp add: min_def)
qed


text \<open>A built warp satisfies the invariant of the simulator, and a built block has work.\<close>

lemma built_ok: "built init ws w \<Longrightarrow> ws \<le> 32 \<Longrightarrow> warp_ok w"
  by (auto simp: built_def warp_ok_def masks_inv_def stall_inv_def bit_full_mask)

lemma built_blocks_ok:
  assumes "\<forall>b \<in> set bs. built_block init n ws b" and "ws \<le> 32"
  shows "blocks_ok bs" and "fresh_blocks bs"
proof -
  have b: "tb_warps b \<noteq> []" "\<forall>w \<in> set (tb_warps b). built init ws w" if "b \<in> set bs" for b
    using assms(1) that by (simp_all add: built_block_def)
  show "blocks_ok bs" using b(2) built_ok[OF _ assms(2)] by (auto simp: blocks_ok_def)
  have "\<exists>w \<in> set (tb_warps b). w_state w \<noteq> Completed" if "b \<in> set bs" for b
    using b[OF that] by (intro bexI[of _ "hd (tb_warps b)"]) (auto simp: built_def)
  then show "fresh_blocks bs" by (simp add: fresh_blocks_def)
qed

section \<open>When a grid can be built\<close>

definition good_registers :: "(c_int \<times> c_int) list \<Rightarrow> bool" where
  "good_registers rvs \<longleftrightarrow> (\<forall>(r, v) \<in> set rvs. int_to_size r < 32)"

lemma write_registers_total:
  assumes "good_registers rvs" and "length (rf_registers (t_registers t)) = 32"
  shows "\<exists>t'. write_registers rvs t = Inr t'"
proof -
  have "\<exists>t'. foldE (\<lambda>t (r, v). write_reg t r v) t rvs = Inr t' \<and> length (rf_registers (t_registers t')) = 32"
    by (rule foldE_total[where P = "\<lambda>t. length (rf_registers (t_registers t)) = 32", OF assms(2)])
      (use assms(1) in \<open>auto simp: good_registers_def write_reg_def reg_write_def\<close>)
  then show ?thesis by (auto simp: write_registers_def)
qed

lemma make_grid_total:
  assumes "\<And>b l g. good_registers (init b l g)" and "0 < ws" and "0 < bs"
  shows "\<exists>gr. make_grid f init n bs ws = Inr gr"
proof -
  have t: "\<exists>t. make_thread init bs ws b w l = Inr t" for b w l
    using write_registers_total assms(1) by (simp add: make_thread_def Let_def new_thread_def new_register_file_def)
  have w: "\<exists>w. make_warp f init bs ws b nb k = Inr w" for b nb k
    using mapE_total[OF t] by (fastforce simp: make_warp_def)
  have b: "\<exists>bl. make_block f init n bs ws k = Inr bl" for k
    using mapE_total[OF w] assms(2) by (fastforce simp: make_block_def ceil_div_def Let_def)
  show ?thesis using mapE_total[OF b] assms(3) by (fastforce simp: make_grid_def ceil_div_def Let_def)
qed

text \<open>A failing first thread fails the grid.\<close>

lemma mapE_first: "0 < n \<Longrightarrow> f 0 = Inl e \<Longrightarrow> mapE f [0..<n] = Inl e"
  by (simp add: upt_conv_Cons)

lemma make_grid_fails:
  assumes "write_registers (init 0 0 0) (new_thread 0 0 0 0 0) = Inl e"
    and "0 < n" "0 < bs" "0 < ws" and "bs + ws < 2 ^ 64" "n + bs < 2 ^ 64"
  shows "make_grid f init n bs ws = Inl e"
proof -
  have t: "make_thread init bs ws 0 0 0 = Inl e" using assms(1) by (simp add: make_thread_def)
  have pos: "0 < (x + d - 1) div d" if "0 < d" "0 < x" for x d :: nat
    using chunks_cover(1)[OF that(1), of x] that by (cases "(x + d - 1) div d = 0") auto
  have "mapE (make_thread init bs ws 0 0) [0..<min ws (min bs n - 0 * ws)] = Inl e"
    by (rule mapE_first) (use assms t in simp_all)
  then have w: "make_warp f init bs ws 0 (min bs n) 0 = Inl e" by (simp add: make_warp_def)
  have "min bs n + ws < 2 ^ 64" using assms(5) by simp
  then have c: "ceil_div (min bs n) ws = Inr ((min bs n + ws - 1) div ws)" by (rule ceil_div_Inr[OF assms(4)])
  have "mapE (make_warp f init bs ws 0 (min bs n)) [0..<(min bs n + ws - 1) div ws] = Inl e"
    by (rule mapE_first) (use assms w pos in simp_all)
  then have b: "make_block f init n bs ws 0 = Inl e" by (simp add: make_block_def c Let_def)
  have "mapE (make_block f init n bs ws) [0..<(n + bs - 1) div bs] = Inl e"
    by (rule mapE_first) (use assms b pos in simp_all)
  then show ?thesis using assms(2) ceil_div_Inr[OF assms(3,6)] by (simp add: make_grid_def Let_def)
qed

section \<open>The registers of the reduction\<close>

lemma length_halvings: "length (halvings m) \<le> k \<longleftrightarrow> m < 2 ^ k"
proof (induction m arbitrary: k rule: halvings.induct)
  case (1 m)
  show ?case
  proof (cases "m = 0")
    case False
    then show ?thesis
    proof (cases k)
      case (Suc k')
      have "m div 2 < 2 ^ k' \<longleftrightarrow> m < 2 ^ Suc k'" by (simp add: less_eq_div_iff_mult_less_eq div_less_iff_less_mult mult.commute)
      then show ?thesis using "1.IH"[OF False, of k'] False by (simp add: Suc halvings.simps[of m])
    qed (simp add: halvings.simps[of m])
  qed (simp add: halvings.simps[of 0])
qed

lemma step_register: "k < 2 ^ 30 \<Longrightarrow> int_to_size (20 + of_nat k) = 20 + k"
proof -
  assume k: "k < 2 ^ 30"
  have "sint (20 + of_nat k :: c_int) = 20 + int k"
  proof -
    have "20 + of_nat k = (word_of_int (20 + int k) :: c_int)" by simp
    moreover have "signed_take_bit 31 (20 + int k) = 20 + int k" using k by (intro signed_take_bit_int_eq_self) simp_all
    ultimately show ?thesis by (simp add: signed_of_int del: of_int_add)
  qed
  then show ?thesis by (simp add: int_to_size_nonneg)
qed

lemma write_registers_bad:
  "\<not> good_registers rvs \<Longrightarrow> length (rf_registers (t_registers t)) = 32 \<Longrightarrow>
   write_registers rvs t = Inl (Out_of_range ''Register write out of bounds'')"
proof (induction rvs arbitrary: t)
  case (Cons p rvs)
  obtain r v where p: "p = (r, v)" by (cases p)
  show ?case
  proof (cases "int_to_size r < 32")
    case True
    then obtain t1 where t1: "write_reg t r v = Inr t1" "length (rf_registers (t_registers t1)) = 32"
      using Cons.prems(2) by (auto simp: write_reg_def reg_write_def)
    then show ?thesis using Cons.IH[OF _ t1(2)] Cons.prems(1) True p by (simp add: good_registers_def write_registers_def)
  next
    case False
    then show ?thesis using Cons.prems(2) p by (simp add: write_registers_def write_reg_def reg_write_def)
  qed
qed (simp add: good_registers_def)

lemma reduction_registers:
  assumes "bs < 2 ^ 64"
  shows "good_registers (reduction_init n bs b l g) \<longleftrightarrow> bs < 2 ^ 13"
proof -
  let ?h = "halvings (bs div 2)"
  have "bs div 2 < 2 ^ 63" using assms by simp
  then have small: "length ?h \<le> 63" by (simp only: length_halvings)
  have "good_registers (reduction_init n bs b l g) \<longleftrightarrow> (\<forall>i < length ?h. int_to_size (20 + of_nat i) < 32)"
  proof -
    have "map fst (reduction_init n bs b l g) = [0, 1, 2, 3] @ map ((\<lambda>i. 20 + of_nat i) \<circ> fst) (enumerate 0 ?h)"
      by (simp add: reduction_init_def comp_def split_beta)
    also have "map ((\<lambda>i. 20 + of_nat i :: c_int) \<circ> fst) (enumerate 0 ?h) = map (\<lambda>i. 20 + of_nat i) [0..<length ?h]"
      by (simp add: map_map[symmetric] del: map_map)
    finally have "map fst (reduction_init n bs b l g) = [0, 1, 2, 3] @ map (\<lambda>i. 20 + of_nat i) [0..<length ?h]" .
    then have fsts: "set (map fst (reduction_init n bs b l g)) = {0, 1, 2, 3} \<union> (\<lambda>i. 20 + of_nat i) ` {..<length ?h}"
      by (simp only: set_append set_map) auto
    have "good_registers rvs \<longleftrightarrow> (\<forall>r \<in> set (map fst rvs). int_to_size r < 32)" for rvs
      by (auto simp: good_registers_def)
    from this[of "reduction_init n bs b l g"] have "good_registers (reduction_init n bs b l g) \<longleftrightarrow>
      (\<forall>r \<in> {0, 1, 2, 3} \<union> (\<lambda>i. 20 + of_nat i) ` {..<length ?h}. int_to_size r < 32)" unfolding fsts .
    moreover have "int_to_size 0 < 32" "int_to_size 1 < 32" "int_to_size 2 < 32" "int_to_size 3 < 32"
      by (simp_all add: int_to_size_def)
    ultimately show ?thesis by auto
  qed
  also have "\<dots> \<longleftrightarrow> (\<forall>i < length ?h. i < 12)" using small by (auto simp: step_register)
  also have "\<dots> \<longleftrightarrow> length ?h \<le> 12" by (metis le_less_linear less_irrefl less_le_trans)
  also have "\<dots> \<longleftrightarrow> bs < 2 ^ 13" unfolding length_halvings by auto
  finally show ?thesis .
qed

end
