(* ===== verification/Quiet_Runs.thy ===== *)
theory Quiet_Runs
  imports Sweep
begin

text \<open>
  Whole runs of a GPU never record the stall reason \<open>NoReadyWarp\<close>: from \<open>tick\<close> through the
  cycle loop to the result of one configuration of a sweep.
\<close>

definition quiet :: "sm \<Rightarrow> bool" where
  "quiet s \<longleftrightarrow> sm_scheduler s \<noteq> None \<and> get_stalls NoReadyWarp (sm_counters s) = 0"

lemma tick_scheduler:
  assumes "tick k s m = Inr (s', m')" and "sm_ok s" and "ms_inv m" and "sm_scheduler s \<noteq> None"
  shows "sm_scheduler s' \<noteq> None"
proof (cases "is_completed s")
  case True
  then show ?thesis using assms by (simp add: tick_def)
next
  case False
  obtain sch where sch: "sm_scheduler s = Some sch" using assms(4) by blast
  obtain sel s3 where sc: "schedule sch (prepared s) = (sel, s3)" by fastforce
  note se = schedule_effect[OF sc]
  show ?thesis
  proof (cases sel)
    case None
    then show ?thesis using assms(1) False sch sc se(8) by (auto simp: tick_unfold split: if_splits)
  next
    case (Some i)
    have run: "issue k i s3 m = Inr (s', m')" using assms(1) False sch sc Some by (simp add: tick_unfold)
    have "\<forall>w \<in> set (sm_warps s3). warp_ok w" using schedule_ok[OF prepared_ok[OF assms(2)] sc] by (simp add: sm_ok_def)
    moreover have "i < length (sm_warps s3)" using se(9)[OF Some] by simp
    ultimately have "sm_scheduler s' = sm_scheduler s3" using issue_effect(1)[OF _ _ assms(3) run] by blast
    then show ?thesis using se(8) by simp
  qed
qed

lemma tick_quiet:
  assumes "tick k s m = Inr (s', m')" and "sm_ok s" and "ms_inv m" and "quiet s"
  shows "quiet s'"
proof (cases "is_completed s")
  case True
  then show ?thesis using assms by (simp add: tick_def)
next
  case False
  then show ?thesis
    using tick_effect(11)[OF False assms(2,3,1)] tick_scheduler[OF assms(1-3)] assms(4) by (simp add: quiet_def)
qed

lemma admit_quiet: "quiet s \<Longrightarrow> quiet (foldl admit_warp s ws)"
  by (induction ws arbitrary: s)
    (auto simp: quiet_def admit_warp_def sm_add_warp_def Let_def initialize_warp_issue_count_def get_stalls_def)

lemma allocate_quiet: "quiet s \<Longrightarrow> quiet (allocate_block s b req)"
  unfolding allocate_block_def Let_def by (rule admit_quiet) (simp add: quiet_def)

lemma release_quiet: "quiet s \<Longrightarrow> quiet (release_completed_blocks s)"
proof -
  obtain kept s' where r: "release_loop (sm_resident_blocks s) s = (kept, s')" by fastforce
  from release_loop_warps[OF r] show "quiet s \<Longrightarrow> quiet (release_completed_blocks s)"
    by (simp add: quiet_def release_completed_blocks_def r)
qed

lemma dispatch_quiet: "dispatch c req p idx s = Inr (idx', s') \<Longrightarrow> quiet s \<Longrightarrow> quiet s'"
proof (induction c req p idx s rule: dispatch.induct)
  case (1 c req p idx s)
  then show ?case
    using allocate_quiet[of s "p ! idx" req] by (simp add: dispatch.simps[of c req p idx s] split: if_splits)
qed

lemma dispatch_all_quiet:
  "dispatch_all prep c req p idx ss = Inr (idx', ss') \<Longrightarrow> (\<And>s. quiet s \<Longrightarrow> quiet (prep s)) \<Longrightarrow>
   \<forall>s \<in> set ss. quiet s \<Longrightarrow> \<forall>s \<in> set ss'. quiet s"
  by (induction ss arbitrary: idx ss') (fastforce dest: dispatch_quiet)+

lemma tick_all_quiet:
  "tick_all k c ss l2 g = Inr (d, ss', l2', g') \<Longrightarrow> \<forall>s \<in> set ss. sm_good c s \<and> quiet s \<Longrightarrow> cache_inv l2 \<Longrightarrow> stats_inv l2 \<Longrightarrow>
   \<forall>s \<in> set ss'. quiet s"
proof (induction ss arbitrary: l2 g d ss')
  case (Cons s ss)
  show ?case
  proof (cases "is_completed s")
    case True
    then show ?thesis using Cons by auto
  next
    case False
    then obtain s1 l21 g1 ss1 d1 where 1: "tick_sm k c s l2 g = Inr (s1, l21, g1)"
      "tick_all k c ss l21 g1 = Inr (d1, ss1, l2', g')" "ss' = s1 # ss1"
      using Cons.prems(1) by auto
    have good: "sm_good c s" "quiet s" using Cons.prems(2) by simp_all
    note g1 = tick_sm_good[OF good(1) False Cons.prems(3,4) 1(1)]
    obtain s2 m2 where t: "tick k s (memory_of c s l2 g) = Inr (s2, m2)"
      and s1: "s1 = s2\<lparr>sm_l1_cache := ms_l1 m2, sm_shared_memory := ms_shared m2\<rparr>" using 1(1) by (auto simp: tick_sm_def)
    have "sm_ok s" "ms_inv (memory_of c s l2 g)"
      using good(1) Cons.prems(3,4) by (simp_all add: sm_good_def memory_of_def ms_inv_def)
    from tick_quiet[OF t this good(2)] have "quiet s1" by (simp add: s1 quiet_def)
    then show ?thesis using Cons.IH[OF 1(2)] Cons.prems(2) g1 1(3) by simp
  qed
qed simp

lemma gpu_cycle_quiet:
  assumes inv: "gpu_inv g" and run: "gpu_cycle k g = Inr (d, g')" and q: "\<forall>s \<in> set (gpu_sms g). quiet s"
  shows "\<forall>s \<in> set (gpu_sms g'). quiet s"
proof -
  obtain idx sms sms' l2 gm where 1: "dispatch_all release_completed_blocks (gpu_config g) (gpu_req g)
      (gpu_pending_blocks g) (gpu_current_block_idx g) (gpu_sms g) = Inr (idx, sms)"
    and 2: "tick_all k (gpu_config g) sms (gpu_l2_cache g) (gpu_global_memory g) = Inr (d, sms', l2, gm)"
    and g': "gpu_sms g' = sms'"
    using run by (auto simp: gpu_cycle_def)
  have le: "gpu_current_block_idx g \<le> length (gpu_pending_blocks g)" "blocks_ok (gpu_pending_blocks g)"
    and l2: "cache_inv (gpu_l2_cache g)" "stats_inv (gpu_l2_cache g)"
    using inv by (simp_all add: gpu_inv_def)
  have "\<forall>s \<in> set (gpu_sms g). sm_good (gpu_config g) (release_completed_blocks s)"
    using inv release_good by (simp add: gpu_inv_def)
  from dispatch_all_good[OF 1 le this] dispatch_all_quiet[OF 1 release_quiet q]
  show ?thesis using tick_all_quiet[OF 2 _ l2] by (auto simp: g')
qed

lemma run_cycles_quiet:
  "run_cycles n k g = Some (Inr g') \<Longrightarrow> gpu_inv g \<Longrightarrow> \<forall>s \<in> set (gpu_sms g). quiet s \<Longrightarrow> \<forall>s \<in> set (gpu_sms g'). quiet s"
proof (induction n arbitrary: g)
  case (Suc n)
  obtain d g1 where c: "gpu_cycle k g = Inr (d, g1)" using Suc.prems(1) by (auto split: sum.splits)
  note q = gpu_cycle_quiet[OF Suc.prems(2) c Suc.prems(3)]
  show ?case using Suc.IH[of g1] Suc.prems(1) c q gpu_cycle_inv[OF Suc.prems(2) c] by (cases d) auto
qed simp

lemma new_gpu_quiet:
  assumes "new_gpu rng config = Inr g"
  shows "\<forall>s \<in> set (gpu_sms g). quiet s"
proof -
  let ?mk = "\<lambda>i. bindE (new_sm rng i config) (\<lambda>s.
    bindE (create_scheduler (cfg_scheduler_policy config) (cfg_active_set_size config)) (\<lambda>sch. Inr (set_scheduler s sch)))"
  have sms: "mapE ?mk [0..<cfg_num_sms config] = Inr (gpu_sms g)" using assms by (auto simp: new_gpu_def)
  have one: "quiet s" if "?mk i = Inr s" for i s
    using that by (auto simp: quiet_def new_sm_def make_sm_def set_scheduler_def new_counters_def get_stalls_def count_of_def)
  show ?thesis
    using mapE_nth[OF sms] mapE_length[OF sms] one by (fastforce simp: in_set_conv_nth)
qed

lemma run_kernel_quiet:
  assumes rng: "random_range rng" and g: "new_gpu rng config = Inr g" and run: "run_kernel g k gr config req = Some (Inr g')"
    and ok: "blocks_ok (g_blocks gr)"
  shows "\<forall>s \<in> set (gpu_sms g'). quiet s"
proof -
  obtain g1 where l: "launch_kernel g gr config req = Inr g1" and r: "run_to_completion k g1 = Some (Inr g')"
    using run by (auto simp: run_kernel_def)
  note c = new_gpu_caches[OF rng g]
  have inv: "gpu_inv g1" using launch_kernel_inv[OF l ok] c by blast
  obtain idx sms where d: "dispatch_all clear_warps config req (g_blocks gr) 0 (gpu_sms g) = Inr (idx, sms)"
    and g1: "gpu_sms g1 = sms" using l by (auto simp: launch_kernel_def)
  have "\<forall>s \<in> set sms. quiet s"
    by (rule dispatch_all_quiet[OF d _ new_gpu_quiet[OF g]]) (simp add: quiet_def clear_warps_def)
  moreover obtain n where "run_cycles n k g1 = Some (Inr g')" using run_cycles_complete[OF r] by blast
  ultimately show ?thesis using run_cycles_quiet[OF _ inv] g1 by blast
qed

lemma configuration_quiet:
  assumes "random_range rng" and run: "execute_configuration rng config k gr req i = Some (Inr r)"
    and "blocks_ok (g_blocks gr)"
  shows "sr_no_ready_warp_cycles r = 0 \<and> sr_config r = config \<and> sr_run_name r = ''Config_'' @ show_nat i"
proof -
  obtain g g' where g: "new_gpu rng config = Inr g" "run_kernel g k gr config req = Some (Inr g')"
    "result_of config req i g' = Inr r" using run by (auto simp: execute_configuration_def)
  from run_kernel_quiet[OF assms(1) g(1,2) assms(3)]
  have "rt_no_ready_warp (collect g') = 0"
    by (simp add: collect_def add_sm_foldl zero_totals_def quiet_def)
  then show ?thesis using g(3) by (auto simp: result_of_def Let_def)
qed

end
