(* ===== verification/Deadlock.thy ===== *)
theory Deadlock
  imports GPU_Props
begin

text \<open>
  A barrier some warps of a block wait at while the others have completed. The check in
  \<open>handle_barrier_arrival\<close> runs only when a warp arrives, so a block whose last running warp
  completes after the others arrived is never released and never reported: the state is
  closed under every later cycle and \<open>run_to_completion\<close> does not return normally from it.
\<close>

definition doomed :: "size_t \<Rightarrow> sm \<Rightarrow> bool" where
  "doomed b s \<longleftrightarrow>
     (\<exists>w \<in> set (sm_warps s). of_block b w \<and> w_state w = StalledAtBarrier) \<and>
     (\<forall>w \<in> set (sm_warps s). of_block b w \<longrightarrow> w_state w = StalledAtBarrier \<or> w_state w = Completed) \<and>
     (\<forall>w \<in> set (sm_warps s). w_threads w \<noteq> [])"

lemma same_core_of_block: "same_core w w' \<Longrightarrow> of_block b w' = of_block b w"
  by (simp add: same_core_def of_block_def)

lemma of_block_unique: "of_block b w \<Longrightarrow> of_block b' w \<Longrightarrow> b = b'"
  by (simp add: of_block_def)

lemma warp_framed_of_block:
  assumes "warp_framed w w'"
  shows "of_block b w' = of_block b w" and "w_threads w' = [] \<longleftrightarrow> w_threads w = []"
proof -
  have fr: "lanes_framed (w_active_mask w) (w_threads w) (w_threads w')"
    using assms by (simp add: warp_framed_def)
  then show e: "w_threads w' = [] \<longleftrightarrow> w_threads w = []"
    by (metis lanes_framed_def length_0_conv)
  show "of_block b w' = of_block b w"
  proof (cases "w_threads w = []")
    case False
    then have "t_block_id (w_threads w' ! 0) = t_block_id (w_threads w ! 0)"
      using fr by (simp add: lanes_framed_def)
    then show ?thesis using e False by (simp add: of_block_def hd_conv_nth)
  qed (simp add: of_block_def e)
qed

lemma update_warp_state_of_block:
  assumes masks: "masks_inv w" and run: "update_warp_state n r w = Inr w'"
  shows "of_block b w' = of_block b w" and "w_threads w' = [] \<longleftrightarrow> w_threads w = []"
proof -
  have "of_block b w' = of_block b w \<and> (w_threads w' = [] \<longleftrightarrow> w_threads w = [])"
  proof (cases "w_pc w \<ge> n \<and> w_stack w \<noteq> []")
    case True
    then obtain e es where e: "w_stack w = e # es" by (cases "w_stack w") auto
    let ?w2 = "set_reconvergence_pc (set_warp_pc (set_active_mask (w\<lparr>w_stack := es\<rparr>) (se_active_mask e))
        (se_target_pc e)) (se_reconvergence_pc e)"
    have len: "length (w_threads w) \<le> 32" using masks by (simp add: masks_inv_def)
    have "update_shadow_pcs (se_active_mask e) (se_target_pc e) ?w2 = Inr w'"
      using run True e by (simp add: update_warp_state_def pop_simt_stack_def)
    then obtain ts where ts: "each_active (se_active_mask e) (\<lambda>t. Inr (set_pc t (size_to_int (se_target_pc e)))) (w_threads w) = Inr ts"
      and w': "w_threads w' = ts"
      by (auto simp: update_shadow_pcs_def warp_updates)
    have "lanes_framed (se_active_mask e) (w_threads w) ts"
      by (rule each_active_framed[OF len ts]) (auto simp: same_identity_def set_pc_def)
    then have l: "length ts = length (w_threads w)" "0 < length (w_threads w) \<Longrightarrow> t_block_id (ts ! 0) = t_block_id (w_threads w ! 0)"
      by (simp_all add: lanes_framed_def)
    show ?thesis
    proof (cases "ts = []")
      case True
      then show ?thesis using l w' by (simp add: of_block_def)
    next
      case False
      then have "w_threads w \<noteq> []" using l(1) by auto
      then show ?thesis using l(2) False w' by (simp add: of_block_def hd_conv_nth)
    qed
  next
    case False
    then have "w' = w \<or> w' = set_completed w \<or> w' = stall w (er_latency r - 1)"
      using run by (auto simp: update_warp_state_def pop_simt_stack_def split: if_splits)
    then have core: "same_core w w'" by auto
    show ?thesis using same_core_of_block[OF core] core by (simp add: same_core_def)
  qed
  then show "of_block b w' = of_block b w" and "w_threads w' = [] \<longleftrightarrow> w_threads w = []" by blast+
qed

text \<open>An arrival of one block does not touch the warps of another.\<close>

lemma barrier_other_block:
  assumes "i < length (sm_warps s)" and "of_block b' (sm_warps s ! i)" and run: "handle_barrier_arrival i s = Inr s'"
    and j: "j < length (sm_warps s)" "\<not> of_block b' (sm_warps s ! j)" "j \<noteq> i"
  shows "sm_warps s' ! j = sm_warps s ! j"
proof -
  have "sm_warps s' = arrived i s \<or>
      sm_warps s' = map (\<lambda>w. if of_block b' w then set_ready w (pf_cycles (sm_counters s)) else w) (arrived i s)"
    using run unfolding barrier_arrival[OF assms(1,2)] by (auto split: if_splits)
  then show ?thesis using j by (auto simp: arrived_def)
qed

lemma issue_other_block:
  assumes ok: "warp_ok (sm_warps s ! i)" and i: "i < length (sm_warps s)" and blk: "of_block b' (sm_warps s ! i)"
    and run: "issue k i s m = Inr (s', m')"
  shows "of_block b' (sm_warps s' ! i)"
    and "\<And>j. j < length (sm_warps s) \<Longrightarrow> j \<noteq> i \<Longrightarrow> \<not> of_block b' (sm_warps s ! j) \<Longrightarrow> sm_warps s' ! j = sm_warps s ! j"
proof -
  let ?w = "sm_warps s ! i" and ?n = "length (k_instructions k)"
  have len: "length (w_threads ?w) \<le> 32" using ok by (simp add: warp_ok_def masks_inv_def)
  have "of_block b' (sm_warps s' ! i) \<and>
    (\<forall>j < length (sm_warps s). j \<noteq> i \<longrightarrow> \<not> of_block b' (sm_warps s ! j) \<longrightarrow> sm_warps s' ! j = sm_warps s ! j)"
  proof (cases "w_pc ?w \<ge> ?n")
    case True
    then have "s' = s\<lparr>sm_warps := (sm_warps s)[i := set_completed ?w]\<rparr>" using run by (simp add: issue_def)
    then show ?thesis using i blk same_core_of_block[of ?w "set_completed ?w"] by simp
  next
    case False
    let ?inst = "k_instructions k ! w_pc ?w"
    obtain r w1 where ex: "execute ?inst ?w m = Inr (r, w1, m')"
      and rest: "bindE (if er_status r = BarrierReached
            then handle_barrier_arrival i (s\<lparr>sm_warps := (sm_warps s)[i := w1],
              sm_counters := count_result (sm_id s) w1 ?inst r (sm_counters s)\<rparr>)
            else Inr (s\<lparr>sm_warps := (sm_warps s)[i := w1],
              sm_counters := count_result (sm_id s) w1 ?inst r (sm_counters s)\<rparr>)) (\<lambda>s2.
        bindE (update_warp_state ?n r (sm_warps s2 ! i)) (\<lambda>w2.
          Inr (s2\<lparr>sm_warps := (sm_warps s2)[i := w2],
            sm_counters := increment_instructions_retired
              ((add_stall WriteConflict ^^ er_write_conflict_stalls r) (sm_counters s2))\<rparr>, m'))) = Inr (s', m')"
      using run False by (auto simp: issue_def Let_def)
    let ?s1 = "s\<lparr>sm_warps := (sm_warps s)[i := w1], sm_counters := count_result (sm_id s) w1 ?inst r (sm_counters s)\<rparr>"
    obtain s2 w2 where s2: "(if er_status r = BarrierReached then handle_barrier_arrival i ?s1 else Inr ?s1) = Inr s2"
      and w2: "update_warp_state ?n r (sm_warps s2 ! i) = Inr w2"
      and s': "sm_warps s' = (sm_warps s2)[i := w2]"
      using rest by auto
    have b1: "of_block b' w1" using warp_framed_of_block(1)[OF execute_framed(1)[OF len ex]] blk by simp
    have i1: "i < length (sm_warps ?s1)" and at: "sm_warps ?s1 ! i = w1" using i by simp_all
    have w1ok: "warp_ok w1" using execute_warp_ok[OF ok ex] .
    have mid: "length (sm_warps s2) = length (sm_warps s) \<and> masks_inv (sm_warps s2 ! i) \<and> of_block b' (sm_warps s2 ! i) \<and>
      (\<forall>j < length (sm_warps s). j \<noteq> i \<longrightarrow> \<not> of_block b' (sm_warps s ! j) \<longrightarrow> sm_warps s2 ! j = sm_warps s ! j)"
    proof (cases "er_status r = BarrierReached")
      case True
      then have hb: "handle_barrier_arrival i ?s1 = Inr s2" using s2 by simp
      note be = barrier_effect[OF i1 hb]
      have "masks_inv (sm_warps s2 ! i)" "of_block b' (sm_warps s2 ! i)"
        using same_core_masks[OF be(4)] same_core_of_block[OF be(4)] w1ok b1 unfolding at
        by (simp_all add: warp_ok_def)
      moreover have "sm_warps s2 ! j = sm_warps s ! j"
        if "j < length (sm_warps s)" "j \<noteq> i" "\<not> of_block b' (sm_warps s ! j)" for j
        using barrier_other_block[OF i1 _ hb, of b' j] b1 that unfolding at by simp
      ultimately show ?thesis using be(2) by simp
    next
      case False
      then have "s2 = ?s1" using s2 by simp
      then show ?thesis using w1ok b1 i by (simp add: warp_ok_def)
    qed
    then have "of_block b' w2" using update_warp_state_of_block(1)[OF _ w2] by blast
    then show ?thesis using mid i by (simp add: s')
  qed
  then show "of_block b' (sm_warps s' ! i)"
    and "\<And>j. j < length (sm_warps s) \<Longrightarrow> j \<noteq> i \<Longrightarrow> \<not> of_block b' (sm_warps s ! j) \<Longrightarrow> sm_warps s' ! j = sm_warps s ! j"
    by blast+
qed

section \<open>The doomed state is closed under every step\<close>

lemma doomed_transfer:
  assumes d: "doomed b s" and len: "length (sm_warps s') = length (sm_warps s)"
    and mem: "\<And>j. j < length (sm_warps s) \<Longrightarrow> of_block b (sm_warps s ! j) \<Longrightarrow>
      of_block b (sm_warps s' ! j) \<and> w_state (sm_warps s' ! j) = w_state (sm_warps s ! j)"
    and other: "\<And>j. j < length (sm_warps s) \<Longrightarrow> \<not> of_block b (sm_warps s ! j) \<Longrightarrow>
      \<not> of_block b (sm_warps s' ! j) \<and> w_threads (sm_warps s' ! j) \<noteq> []"
  shows "doomed b s'"
proof -
  obtain j where j: "j < length (sm_warps s)" "of_block b (sm_warps s ! j)" "w_state (sm_warps s ! j) = StalledAtBarrier"
    using d by (auto simp: doomed_def in_set_conv_nth)
  then have "\<exists>w \<in> set (sm_warps s'). of_block b w \<and> w_state w = StalledAtBarrier"
    using mem[of j] len by (intro bexI[of _ "sm_warps s' ! j"]) auto
  moreover have "(of_block b w \<longrightarrow> w_state w = StalledAtBarrier \<or> w_state w = Completed) \<and> w_threads w \<noteq> []"
    if w: "w \<in> set (sm_warps s')" for w
  proof -
    obtain i where i: "i < length (sm_warps s)" "w = sm_warps s' ! i" using w len by (auto simp: in_set_conv_nth)
    have old: "of_block b (sm_warps s ! i) \<Longrightarrow> w_state (sm_warps s ! i) = StalledAtBarrier \<or> w_state (sm_warps s ! i) = Completed"
      using d i(1) by (simp add: doomed_def)
    show ?thesis
      using mem[OF i(1)] other[OF i(1)] old i(2) by (cases "of_block b (sm_warps s ! i)") (auto simp: of_block_def)
  qed
  ultimately show ?thesis by (auto simp: doomed_def)
qed

lemma doomed_not_completed: "doomed b s \<Longrightarrow> \<not> is_completed s"
  unfolding doomed_def completed_warps by (metis warp_state.distinct(11))

lemma doomed_prepared: "doomed b s \<Longrightarrow> doomed b (prepared s)"
proof (rule doomed_transfer)
  assume d: "doomed b s"
  fix j assume j: "j < length (sm_warps s)"
  let ?w = "sm_warps s ! j" and ?v = "sm_warps (prepared s) ! j"
  have v: "?v = tick_stall ?w (pf_cycles (sm_counters s))" using j by (simp add: prepared_effect)
  have core: "same_core ?w ?v" by (simp add: v)
  show "of_block b ?w \<Longrightarrow> of_block b ?v \<and> w_state ?v = w_state ?w"
    using d j same_core_of_block[OF core] by (auto simp: doomed_def v tick_stall_def)
  show "\<not> of_block b ?w \<Longrightarrow> \<not> of_block b ?v \<and> w_threads ?v \<noteq> []"
    using d j same_core_of_block[OF core] core by (simp add: doomed_def same_core_def)
qed (simp_all add: prepared_effect)

lemma doomed_schedule:
  assumes d: "doomed b s" and run: "schedule sch s = (sel, s3)"
  shows "doomed b s3"
proof (rule doomed_transfer[OF d])
  have l: "list_all2 same_but_waits (sm_warps s) (sm_warps s3)" using schedule_effect(5)[OF run] .
  then show "length (sm_warps s3) = length (sm_warps s)" by (simp add: list_all2_lengthD)
  fix j assume j: "j < length (sm_warps s)"
  have sb: "same_core (sm_warps s ! j) (sm_warps s3 ! j)" "w_state (sm_warps s3 ! j) = w_state (sm_warps s ! j)"
    using l j by (auto simp: list_all2_conv_all_nth same_but_waits_def)
  show "of_block b (sm_warps s ! j) \<Longrightarrow> of_block b (sm_warps s3 ! j) \<and> w_state (sm_warps s3 ! j) = w_state (sm_warps s ! j)"
    using sb same_core_of_block[OF sb(1)] by blast
  show "\<not> of_block b (sm_warps s ! j) \<Longrightarrow> \<not> of_block b (sm_warps s3 ! j) \<and> w_threads (sm_warps s3 ! j) \<noteq> []"
    using sb(1) same_core_of_block[OF sb(1)] d j by (simp add: doomed_def same_core_def)
qed

lemma doomed_issue:
  assumes d: "doomed b s" and ok: "sm_ok s" and i: "i < length (sm_warps s)" "w_state (sm_warps s ! i) = Ready"
    and minv: "ms_inv m" and run: "issue k i s m = Inr (s', m')"
  shows "doomed b s'"
proof (rule doomed_transfer[OF d])
  let ?w = "sm_warps s ! i"
  have ne: "w_threads ?w \<noteq> []" and nb: "\<not> of_block b ?w"
    using d i nth_mem[OF i(1)] by (auto simp: doomed_def)
  define b' where "b' = t_block_id (hd (w_threads ?w))"
  have blk: "of_block b' ?w" using ne by (simp add: b'_def of_block_def)
  have bb: "b' \<noteq> b" using nb blk by auto
  note io = issue_other_block[OF _ i(1) blk run] and ie = issue_effect[OF ok[unfolded sm_ok_def] i(1) minv run]
  have wok: "warp_ok ?w" using ok i(1) by (simp add: sm_ok_def)
  show "length (sm_warps s') = length (sm_warps s)" by (rule ie(2))
  fix j assume j: "j < length (sm_warps s)"
  show "of_block b (sm_warps s' ! j) \<and> w_state (sm_warps s' ! j) = w_state (sm_warps s ! j)"
    if m: "of_block b (sm_warps s ! j)"
  proof -
    have "j \<noteq> i" using m nb by auto
    moreover have "\<not> of_block b' (sm_warps s ! j)" using of_block_unique[OF m] bb by blast
    ultimately show ?thesis using io(2)[OF wok j] m by simp
  qed
  show "\<not> of_block b (sm_warps s' ! j) \<and> w_threads (sm_warps s' ! j) \<noteq> []" if m: "\<not> of_block b (sm_warps s ! j)"
  proof (cases "j = i")
    case True
    have "of_block b' (sm_warps s' ! i)" using io(1)[OF wok] .
    then show ?thesis using of_block_unique[of b' "sm_warps s' ! i" b] bb True by (auto simp: of_block_def)
  next
    case False
    then have core: "same_core (sm_warps s ! j) (sm_warps s' ! j)" using ie(3)[OF j] by (simp add: bystander_def)
    moreover have "w_threads (sm_warps s ! j) \<noteq> []" using d j by (simp add: doomed_def)
    ultimately show ?thesis using m same_core_of_block[OF core] by (simp add: same_core_def)
  qed
qed

lemma doomed_tick:
  assumes d: "doomed b s" and ok: "sm_ok s" and minv: "ms_inv m" and run: "tick k s m = Inr (s', m')"
  shows "doomed b s'"
proof -
  have nc: "\<not> is_completed s" using doomed_not_completed[OF d] .
  have dp: "doomed b (prepared s)" using doomed_prepared[OF d] .
  show ?thesis
  proof (cases "sm_scheduler s")
    case None
    then have "s' = (prepared s)\<lparr>sm_counters := add_stall NoReadyWarp (sm_counters (prepared s))\<rparr>"
      using run nc by (simp add: tick_unfold)
    then show ?thesis using dp by (simp add: doomed_def)
  next
    case (Some sch)
    obtain sel s3 where sc: "schedule sch (prepared s) = (sel, s3)" by fastforce
    have d3: "doomed b s3" using doomed_schedule[OF dp sc] .
    show ?thesis
    proof (cases sel)
      case None
      then have "sm_warps s' = sm_warps s3" using run nc Some sc by (auto simp: tick_unfold)
      then show ?thesis using d3 by (simp add: doomed_def)
    next
      case (Some i)
      have "issue k i s3 m = Inr (s', m')"
        using run nc \<open>sm_scheduler s = Some sch\<close> sc Some by (simp add: tick_unfold)
      moreover have "i < length (sm_warps s3) \<and> w_state (sm_warps s3 ! i) = Ready"
        using schedule_effect(9)[OF sc Some] .
      ultimately show ?thesis
        using doomed_issue[OF d3 schedule_ok[OF prepared_ok[OF ok] sc] _ _ minv] by blast
    qed
  qed
qed

lemma doomed_release: "doomed b s \<Longrightarrow> doomed b (release_completed_blocks s)"
proof -
  have loop: "doomed b s'" if "release_loop bs s = (kept, s')" "doomed b s" for bs kept s s'
    using that
  proof (induction bs arbitrary: s kept)
    case (Cons r bs)
    show ?case
    proof (cases "block_finished (sm_warps s) (rb_block_id r)")
      case True
      have "rb_block_id r \<noteq> b"
        using True Cons.prems(2) by (auto simp: block_finished_def doomed_def list_all_iff)
      then have "of_block b w \<Longrightarrow> \<not> of_block (rb_block_id r) w" for w using of_block_unique by blast
      then have "doomed b (release_block r s)" using Cons.prems(2) by (auto simp: doomed_def release_block_def)
      then show ?thesis using Cons.IH[of "release_block r s" kept] Cons.prems(1) True by simp
    next
      case False
      then obtain kept' where "release_loop bs s = (kept', s')" using Cons.prems(1) by (auto split: prod.splits)
      then show ?thesis using Cons.IH Cons.prems(2) by blast
    qed
  qed simp
  assume d: "doomed b s"
  obtain kept s' where r: "release_loop (sm_resident_blocks s) s = (kept, s')" by fastforce
  show ?thesis using loop[OF r d] by (simp add: release_completed_blocks_def r doomed_def)
qed

text \<open>The blocks still to be dispatched are of other ids, and their warps have threads.\<close>

definition foreign_blocks :: "size_t \<Rightarrow> thread_block list \<Rightarrow> bool" where
  "foreign_blocks b bs \<longleftrightarrow> (\<forall>blk \<in> set bs. \<forall>w \<in> set (tb_warps blk). \<not> of_block b w \<and> w_threads w \<noteq> [])"

lemma tick_all_doomed:
  "tick_all k c ss l2 g = Inr (d, ss', l2', g') \<Longrightarrow> \<forall>s \<in> set ss. sm_good c s \<Longrightarrow> cache_inv l2 \<Longrightarrow> stats_inv l2 \<Longrightarrow>
   j < length ss \<Longrightarrow> doomed b (ss ! j) \<Longrightarrow> \<not> d \<and> doomed b (ss' ! j)"
proof (induction ss arbitrary: l2 g d ss' j)
  case (Cons s ss)
  show ?case
  proof (cases "is_completed s")
    case True
    then obtain ss1 where 1: "tick_all k c ss l2 g = Inr (d, ss1, l2', g')" "ss' = s # ss1"
      using Cons.prems(1) by auto
    obtain i where i: "j = Suc i" using True Cons.prems(6) doomed_not_completed by (cases j) auto
    show ?thesis using Cons.IH[OF 1(1)] Cons.prems 1(2) i by simp
  next
    case False
    then obtain s1 l21 g1 ss1 d1 where 1: "tick_sm k c s l2 g = Inr (s1, l21, g1)"
      "tick_all k c ss l21 g1 = Inr (d1, ss1, l2', g')" "ss' = s1 # ss1" "\<not> d"
      using Cons.prems(1) by auto
    have good: "sm_good c s" using Cons.prems(2) by simp
    from tick_sm_good[OF good False Cons.prems(3,4) 1(1)] have g1: "cache_inv l21" "stats_inv l21" by blast+
    show ?thesis
    proof (cases j)
      case 0
      obtain s0 m1 where t: "tick k s (memory_of c s l2 g) = Inr (s0, m1)"
        and e: "s1 = s0\<lparr>sm_l1_cache := ms_l1 m1, sm_shared_memory := ms_shared m1\<rparr>"
        using 1(1) by (auto simp: tick_sm_def)
      have "ms_inv (memory_of c s l2 g)" using good Cons.prems(3,4) by (simp add: memory_of_def ms_inv_def sm_good_def)
      moreover have "sm_ok s" using good by (simp add: sm_good_def)
      ultimately have "doomed b s0" using doomed_tick[OF _ _ _ t] Cons.prems(6) 0 by simp
      then show ?thesis using 0 1(3,4) by (simp add: e doomed_def)
    next
      case (Suc i)
      then show ?thesis using Cons.IH[OF 1(2) _ g1, of i] Cons.prems(2,5,6) 1(3,4) by simp
    qed
  qed
qed simp

text \<open>The blocks of the grid that are still to be dispatched.\<close>

definition undispatched :: "gpu \<Rightarrow> thread_block list" where
  "undispatched g = drop (gpu_current_block_idx g) (gpu_pending_blocks g)"

lemma doomed_cycle:
  assumes inv: "gpu_inv g" and j: "j < length (gpu_sms g)" "doomed b (gpu_sms g ! j)"
    and fb: "foreign_blocks b (undispatched g)" and run: "gpu_cycle k g = Inr (d, g')"
  shows "\<not> d \<and> doomed b (gpu_sms g' ! j) \<and> foreign_blocks b (undispatched g')"
proof -
  let ?p = "gpu_pending_blocks g"
  obtain idx sms sms' l2 gm where 1: "dispatch_all release_completed_blocks (gpu_config g) (gpu_req g)
      ?p (gpu_current_block_idx g) (gpu_sms g) = Inr (idx, sms)"
    and 2: "tick_all k (gpu_config g) sms (gpu_l2_cache g) (gpu_global_memory g) = Inr (d, sms', l2, gm)"
    and g': "g' = g\<lparr>gpu_sms := sms', gpu_l2_cache := l2, gpu_global_memory := gm, gpu_current_block_idx := idx\<rparr>"
    using run by (auto simp: gpu_cycle_def)
  have le: "gpu_current_block_idx g \<le> length ?p" and bo: "blocks_ok ?p"
    and l2: "cache_inv (gpu_l2_cache g)" "stats_inv (gpu_l2_cache g)"
    using inv by (simp_all add: gpu_inv_def)
  have rg: "\<forall>s \<in> set (gpu_sms g). sm_good (gpu_config g) (release_completed_blocks s)"
    using inv release_good by (simp add: gpu_inv_def)
  from dispatch_all_effect[OF 1 le] obtain bss where
    de: "length sms = length (gpu_sms g)" "length bss = length (gpu_sms g)"
      "concat bss = slice ?p (gpu_current_block_idx g) idx"
      "sm_warps (sms ! j) = sm_warps (release_completed_blocks (gpu_sms g ! j)) @ concat (map tb_warps (bss ! j))"
    using j(1) by blast
  have "bss ! j \<in> set bss" using j(1) de(2) by simp
  then have "set (bss ! j) \<subseteq> set (concat bss)" by auto
  moreover have "set (slice ?p (gpu_current_block_idx g) idx) \<subseteq> set (undispatched g)"
    unfolding slice_def undispatched_def by (rule set_take_subset)
  ultimately have "set (bss ! j) \<subseteq> set (undispatched g)" using de(3) by auto
  then have "foreign_blocks b (bss ! j)" using fb by (auto simp: foreign_blocks_def)
  then have "doomed b (sms ! j)"
    using doomed_release[OF j(2)] unfolding doomed_def de(4) by (auto simp: foreign_blocks_def)
  moreover have "set (undispatched g') \<subseteq> set (undispatched g)"
    using gpu_cycle_inv[OF inv run] set_drop_subset_set_drop[of "gpu_current_block_idx g" "gpu_current_block_idx g'" ?p]
    by (simp add: undispatched_def)
  then have "foreign_blocks b (undispatched g')" using fb by (auto simp: foreign_blocks_def)
  ultimately show ?thesis
    using tick_all_doomed[OF 2 dispatch_all_good[OF 1 le bo rg] l2] j(1) de(1) by (simp add: g')
qed

lemma doomed_never_returns:
  "gpu_inv g \<Longrightarrow> j < length (gpu_sms g) \<Longrightarrow> doomed b (gpu_sms g ! j) \<Longrightarrow> foreign_blocks b (undispatched g) \<Longrightarrow>
   run_cycles n k g \<noteq> Some (Inr g')"
proof (induction n arbitrary: g)
  case (Suc n)
  show ?case
  proof (cases "gpu_cycle k g")
    case (Inr p)
    obtain d g1 where p: "p = (d, g1)" by (cases p)
    have c: "gpu_cycle k g = Inr (d, g1)" using Inr p by simp
    have dc: "\<not> d" "doomed b (gpu_sms g1 ! j)" "foreign_blocks b (undispatched g1)" using doomed_cycle[OF Suc.prems c] by blast+
    note i = gpu_cycle_inv[OF Suc.prems(1) c]
    have "run_cycles n k g1 \<noteq> Some (Inr g')"
      using Suc.IH[of g1] i dc Suc.prems(2) by simp
    then show ?thesis using c dc(1) by simp
  qed simp
qed simp

section \<open>Divergence of a stuck GPU\<close>

text \<open>
  When no block is pending, every SM is completed or stuck and one is stuck, a cycle succeeds,
  is not the last one and leads to such a state again.
\<close>

definition halted :: "sm \<Rightarrow> bool" where
  "halted s \<longleftrightarrow> stuck s \<or> is_completed s"

definition gpu_stuck :: "gpu \<Rightarrow> bool" where
  "gpu_stuck g \<longleftrightarrow> gpu_current_block_idx g = length (gpu_pending_blocks g) \<and>
     list_all halted (gpu_sms g) \<and> list_ex stuck (gpu_sms g)"

lemma release_stuck: "stuck s \<Longrightarrow> stuck (release_completed_blocks s)"
  using release_fields(1,2)[where s = s] unfolding stuck_def completed_warps by blast

lemma release_completed: "is_completed s \<Longrightarrow> is_completed (release_completed_blocks s)"
  using release_fields(1)[of s] unfolding completed_warps by blast

lemma release_halted: "halted s \<Longrightarrow> halted (release_completed_blocks s)"
  using release_stuck release_completed by (auto simp: halted_def)

lemma dispatch_nothing: "dispatch_all prep c req p (length p) ss = Inr (length p, map prep ss)"
  by (induction ss) (simp_all add: dispatch.simps)

lemma tick_sm_stuck:
  assumes "stuck s"
  shows "\<exists>s'. tick_sm k c s l2 g = Inr (s', l2, g) \<and> stuck s'"
proof -
  obtain s' where s': "tick k s (memory_of c s l2 g) = Inr (s', memory_of c s l2 g)" "stuck s'"
    using tick_stuck[OF assms] by blast
  then have "stuck (s'\<lparr>sm_l1_cache := l1, sm_shared_memory := sh\<rparr>)" for l1 sh
    by (simp add: stuck_def is_completed_def)
  then show ?thesis using s'(1) by (simp add: tick_sm_def memory_of_def)
qed

lemma tick_all_stuck:
  "list_all halted ss \<Longrightarrow>
   \<exists>ss'. tick_all k c ss l2 g = Inr (\<not> list_ex stuck ss, ss', l2, g) \<and> list_all halted ss' \<and> (list_ex stuck ss' = list_ex stuck ss)"
proof (induction ss)
  case (Cons s ss)
  then obtain ss' where IH: "tick_all k c ss l2 g = Inr (\<not> list_ex stuck ss, ss', l2, g)" "list_all halted ss'"
    "list_ex stuck ss' = list_ex stuck ss" by auto
  show ?case
  proof (cases "stuck s")
    case True
    then have nc: "\<not> is_completed s" by (simp add: stuck_def)
    obtain s' where "tick_sm k c s l2 g = Inr (s', l2, g)" "stuck s'" using tick_sm_stuck[OF True] by blast
    moreover have "halted s'" using calculation(2) by (simp add: halted_def)
    ultimately show ?thesis using IH True nc by simp
  next
    case False
    moreover from this have "is_completed s" using Cons.prems by (simp add: halted_def)
    ultimately show ?thesis using IH Cons.prems by simp
  qed
qed simp

lemma gpu_stuck_cycle: "gpu_stuck g \<Longrightarrow> \<exists>g'. gpu_cycle k g = Inr (False, g') \<and> gpu_stuck g'"
proof -
  assume st: "gpu_stuck g"
  let ?ss = "map release_completed_blocks (gpu_sms g)"
  have h: "list_all halted ?ss" using st release_halted by (auto simp: gpu_stuck_def list_all_iff)
  have e: "list_ex stuck ?ss" using st release_stuck by (auto simp: gpu_stuck_def list_ex_iff)
  obtain ss' where "tick_all k (gpu_config g) ?ss (gpu_l2_cache g) (gpu_global_memory g) =
      Inr (\<not> list_ex stuck ?ss, ss', gpu_l2_cache g, gpu_global_memory g)" "list_all halted ss'"
      "list_ex stuck ss' = list_ex stuck ?ss"
    using tick_all_stuck[OF h] by blast
  then show ?thesis using st e by (simp add: gpu_cycle_def gpu_stuck_def dispatch_nothing)
qed

lemma gpu_stuck_runs: "gpu_stuck g \<Longrightarrow> run_cycles n k g = None"
proof (induction n arbitrary: g)
  case (Suc n)
  from gpu_stuck_cycle[OF Suc.prems, of k] obtain g' where "gpu_cycle k g = Inr (False, g')" "gpu_stuck g'" by blast
  then show ?case using Suc.IH by simp
qed simp

lemma gpu_stuck_diverges: "gpu_stuck g \<Longrightarrow> run_to_completion k g = None"
  using gpu_stuck_runs run_cycles_complete by (metis not_None_eq option.distinct(1))

text \<open>The state after \<open>n\<close> iterations of the loop that are not the last one.\<close>

fun after_cycles :: "nat \<Rightarrow> kernel \<Rightarrow> gpu \<Rightarrow> gpu option" where
  "after_cycles 0 k g = Some g"
| "after_cycles (Suc n) k g =
     (case gpu_cycle k g of Inr (False, g') \<Rightarrow> after_cycles n k g' | _ \<Rightarrow> None)"

lemma after_cycles_run:
  "after_cycles n k g = Some g' \<Longrightarrow> run_to_completion k g = run_to_completion k g'"
proof (induction n arbitrary: g)
  case (Suc n)
  then obtain g1 where g1: "gpu_cycle k g = Inr (False, g1)" "after_cycles n k g1 = Some g'"
    by (auto split: sum.splits bool.splits)
  then have "run_to_completion k g = run_to_completion k g1"
    by (subst run_to_completion.simps) simp
  then show ?case using Suc.IH[OF g1(2)] by simp
qed simp

lemma after_cycles_inv: "after_cycles n k g = Some g' \<Longrightarrow> gpu_inv g \<Longrightarrow> gpu_inv g'"
proof (induction n arbitrary: g)
  case (Suc n)
  then obtain g1 where g1: "gpu_cycle k g = Inr (False, g1)" "after_cycles n k g1 = Some g'"
    by (auto split: sum.splits bool.splits)
  then show ?case using Suc gpu_cycle_inv[OF Suc.prems(2) g1(1)] by blast
qed simp

end
