(* ===== verification/Example_GPU.thy ===== *)
theory Example_GPU
  imports Execution_Properties Deadlock
begin

text \<open>
  A small GPU with two short kernels, built by the constructors of the model and run for a few
  cycles: the concrete input of the witnesses about whole runs.
\<close>

section \<open>The GPU and its kernels\<close>

text \<open>
  One SM with the Greedy scheduler and a block of two warps of one thread each, thread \<open>k\<close> with
  \<open>k\<close> in register 0. In \<open>ex_kernel\<close> thread 1 leaves the kernel where thread 0 reaches a barrier;
  \<open>ex_short\<close> is one instruction long.
\<close>

definition ex_config :: system_config where
  "ex_config = default_config\<lparr>cfg_num_sms := 1, cfg_warp_size := 1, cfg_block_size := 2, cfg_max_threads_per_sm := 8,
     cfg_max_blocks_per_sm := 2, cfg_max_shared_memory_per_sm := 8, cfg_max_registers_per_sm := 1024,
     cfg_scheduler_policy := ''Greedy''\<rparr>"

definition ex_kernel :: kernel where
  "ex_kernel = \<lparr>k_name = ''early exit'', k_instructions =
     [instr MOV 1 (-1) 0 1, instr CMP 0 0 1 0, instr BRANCH 0 0 0 2, instr BARRIER 0 0 0 0]\<rparr>"

definition ex_short :: kernel where
  "ex_short = \<lparr>k_name = ''short'', k_instructions = [instr MOV 1 (-1) 0 1]\<rparr>"

definition ex_thread :: "nat \<Rightarrow> thread" where
  "ex_thread k = (new_thread k 0 k k 0)\<lparr>t_registers := \<lparr>rf_registers = (replicate 32 0)[0 := of_nat k]\<rparr>\<rparr>"

definition ex_block :: thread_block where
  "ex_block = \<lparr>tb_id = 0, tb_warps = [build_warp 0 [ex_thread 0], build_warp 1 [ex_thread 1]]\<rparr>"

definition ex_grid :: grid where
  "ex_grid = \<lparr>g_blocks = [ex_block]\<rparr>"

definition ex_req :: kernel_requirements where
  "ex_req = \<lparr>req_registers_per_thread = 32, req_shared_memory_per_block = 0\<rparr>"

definition two_warps :: "cache \<Rightarrow> cache \<Rightarrow> perf_counters \<Rightarrow> gpu" where
  "two_warps l1 l2 p =
     \<lparr>gpu_sms = [(make_sm 0 l1 (new_shared_memory 8 32))
        \<lparr>sm_warps := tb_warps ex_block, sm_scheduler := Some Greedy, sm_counters := p, sm_allocated_blocks := 1,
         sm_allocated_warps := 2, sm_allocated_threads := 2, sm_allocated_registers := 64,
         sm_resident_blocks := [\<lparr>rb_block_id = 0, rb_num_threads = 2, rb_num_warps = 2,
                     rb_allocated_registers = 64, rb_allocated_shared_memory = 0\<rparr>]\<rparr>],
      gpu_l2_cache = l2, gpu_global_memory = new_global_memory 1048576, gpu_pending_blocks = [ex_block],
      gpu_current_block_idx = 1, gpu_config = ex_config, gpu_req = ex_req\<rparr>"

definition launched :: "gpu result" where
  "launched = bindE (new_gpu ex_rng ex_config) (\<lambda>g. launch_kernel g ex_grid ex_config ex_req)"

lemma build_single: "build_warp k [t] = (new_warp k)\<lparr>w_threads := [t], w_active_mask := 1\<rparr>"
  by (simp add: build_warp_def add_thread_def new_warp_def set_bit_eq_or)

lemma launched_eq: "\<exists>l1 l2 p. launched = Inr (two_warps l1 l2 p)"
  by (simp add: launched_def two_warps_def new_gpu_def ex_config_def default_config_def new_cache_def new_sm_def make_sm_def
      set_scheduler_def create_scheduler_def launch_kernel_def dispatch.simps can_admit_def Let_def ex_grid_def ex_block_def
      block_threads_def build_single new_warp_def ex_req_def clear_warps_def allocate_block_def admit_warp_def sm_add_warp_def size_mul_def)

lemma ex_blocks_ok: "blocks_ok (g_blocks ex_grid)" "fresh_blocks (g_blocks ex_grid)"
  using built_warp_inv(1)[of "[ex_thread 0]" 0] built_warp_inv(1)[of "[ex_thread 1]" 1]
  by (auto simp: blocks_ok_def fresh_blocks_def ex_grid_def ex_block_def warp_ok_def stall_inv_def build_warp_props)

lemma launched_inv:
  obtains l1 l2 p where "launched = Inr (two_warps l1 l2 p)" and "gpu_inv (two_warps l1 l2 p)"
    and "cache_inv l1" and "stats_inv l1" and "cache_inv l2" and "stats_inv l2"
proof -
  obtain l1 l2 p where e: "launched = Inr (two_warps l1 l2 p)" using launched_eq by blast
  then obtain g where g: "new_gpu ex_rng ex_config = Inr g" "launch_kernel g ex_grid ex_config ex_req = Inr (two_warps l1 l2 p)"
    by (auto simp: launched_def)
  note c = new_gpu_caches[OF ex_rng_range g(1)]
  have "gpu_inv (two_warps l1 l2 p)" using launch_kernel_inv[OF g(2) ex_blocks_ok(1)] c by blast
  moreover from this have "cache_inv l1" "stats_inv l1" "cache_inv l2" "stats_inv l2"
    by (simp_all add: gpu_inv_def sm_good_def two_warps_def make_sm_def)
  ultimately show ?thesis using that e by blast
qed

text \<open>What is observed of a run: blocks handed out, and per warp its state and whether it is of block 0.\<close>

definition observe :: "gpu \<Rightarrow> nat \<times> nat \<times> (warp_state \<times> bool) list list" where
  "observe g = (gpu_current_block_idx g, length (gpu_pending_blocks g),
     map (\<lambda>s. map (\<lambda>w. (w_state w, of_block 0 w)) (sm_warps s)) (gpu_sms g))"

lemmas cycle_defs = gpu_cycle_def two_warps_def dispatch.simps release_completed_blocks_def release_block_def size_sub_def
  block_finished_def of_block_def is_completed_def tick_sm_def memory_of_def tick_def tick_stalled_warps_def tick_stall_def
  schedule_def select_warp_def greedy_select_def account_wait_def check_and_set_starvation_def increment_wait_cycles_def
  reset_wait_cycles_def issue_def ex_kernel_def ex_short_def update_warp_state_def make_sm_def ex_block_def ex_thread_def
  build_single new_thread_def new_warp_def handle_barrier_arrival_def set_stalled_at_barrier_def set_completed_def
  plain_result_def Let_def mask_count_def upt_rec

text \<open>After seven cycles warp 0 waits at the barrier and warp 1 has completed.\<close>

lemma ex_kernel_run:
  "map_option observe (after_cycles (Suc (Suc (Suc (Suc (Suc (Suc (Suc 0))))))) ex_kernel (two_warps l1 l2 p)) =
     Some (1, 1, [[(StalledAtBarrier, True), (Completed, True)]])"
  by (simp add: observe_def cycle_defs run_defs)

lemma ex_short_run: "\<exists>g. run_cycles (Suc (Suc (Suc 0))) ex_short (two_warps l1 l2 p) = Some (Inr g)"
  by (simp add: cycle_defs run_defs)

end
