(* ===== verification/Client_Properties.thy ===== *)
theory Client_Properties
  imports Command_Line Grid_Props Quiet_Runs Example_GPU
begin

text \<open>
  The properties of the clients of the simulator: the grids the benchmarks build, the sweep, the
  diagnosis, the report, the trace and the command line, with their witnesses.
\<close>

section \<open>Grids\<close>

text \<open>
  C18: Every grid builder divides the threads exactly: reading the grid block by block, warp by
  warp and lane by lane gives the global ids 0, 1, ..., each once; block \<open>k\<close> has id \<open>k\<close> and
  \<open>block_size\<close> threads, which know their block, or what is left of them in the last block; warp \<open>j\<close> of
  a block has id \<open>j\<close> and the local ids from \<open>j * warp_size\<close> on, \<open>warp_size\<close> of them or what is left of the
  block in its last warp; no warp is empty; and the grid meets what the launch relies on.
\<close>

theorem grid_partition:
  assumes "Inr gr \<in> {build_benchmark_grid n bs ws strided, build_memcpy_grid n bs ws pattern, build_histogram_grid n bs ws bins,
      build_reduction_grid n bs ws, build_main_grid n bs ws}"
    and "0 < ws" and "ws \<le> 32" and "0 < bs" and "bs + ws < 2 ^ 64" and "n + bs < 2 ^ 64"
  shows "map t_global_id (grid_threads gr) = [0..<n] \<and> map tb_id (g_blocks gr) = [0..<length (g_blocks gr)] \<and>
    length (g_blocks gr) = (n + bs - 1) div bs \<and>
    (\<forall>b \<in> set (g_blocks gr). let k = min bs (n - tb_id b * bs)
       in length (block_threads_of b) = k \<and> (\<forall>t \<in> set (block_threads_of b). t_block_id t = tb_id b) \<and>
          length (tb_warps b) = (k + ws - 1) div ws \<and>
          (\<forall>j < length (tb_warps b). w_id (tb_warps b ! j) = j \<and> w_threads (tb_warps b ! j) \<noteq> [] \<and>
             map t_local_id (w_threads (tb_warps b ! j)) = [j * ws ..< min (j * ws + ws) k])) \<and>
    blocks_ok (g_blocks gr) \<and> fresh_blocks (g_blocks gr)"
proof -
  obtain f init where run: "make_grid f init n bs ws = Inr gr" and f: "keeps_warp f"
    using assms(1) keeps_prioritised keeps_id
    by (auto simp: build_benchmark_grid_def build_memcpy_grid_def build_histogram_grid_def build_reduction_grid_def
        build_main_grid_def)
  note b = make_grid_built[OF run f assms(2,4,5,6)]
  have "length (tb_warps bl) = (k + ws - 1) div ws \<and> (\<forall>j < length (tb_warps bl). w_id (tb_warps bl ! j) = j \<and>
      w_threads (tb_warps bl ! j) \<noteq> [] \<and> map t_local_id (w_threads (tb_warps bl ! j)) = [j * ws ..< min (j * ws + ws) k])"
    if bl: "bl \<in> set (g_blocks gr)" and k: "k = min bs (n - tb_id bl * bs)" for bl k
  proof -
    have bb: "map w_id (tb_warps bl) = [0..<length (tb_warps bl)]" "\<forall>w \<in> set (tb_warps bl). w_threads w \<noteq> []"
      using b(1) bl by (simp_all add: built_block_def built_def)
    have p: "map (\<lambda>w. map t_local_id (w_threads w)) (tb_warps bl) = map (\<lambda>j. [j * ws ..< min (j * ws + ws) k]) [0..<(k + ws - 1) div ws]"
      using b(6) bl k by (simp add: packed_def Let_def)
    have len: "length (tb_warps bl) = (k + ws - 1) div ws" using arg_cong[OF p, of length] by simp
    have "w_id (tb_warps bl ! j) = j \<and> w_threads (tb_warps bl ! j) \<noteq> [] \<and>
        map t_local_id (w_threads (tb_warps bl ! j)) = [j * ws ..< min (j * ws + ws) k]" if j: "j < length (tb_warps bl)" for j
      using arg_cong[OF bb(1), of "\<lambda>xs. xs ! j"] arg_cong[OF p, of "\<lambda>xs. xs ! j"] bb(2) nth_mem[OF j] j len by (simp del: nth_mem)
    then show ?thesis using len by blast
  qed
  moreover have "length (block_threads_of bl) = min bs (n - tb_id bl * bs)" if "bl \<in> set (g_blocks gr)" for bl
    using b(6) that by (simp add: packed_def Let_def)
  ultimately show ?thesis using b(1-4) built_blocks_ok[OF b(1) assms(3)] unfolding Let_def by (auto simp: built_block_def)
qed

theorem grid_partition_witness:
  "\<exists>gr. build_benchmark_grid 5 4 2 False = Inr gr \<and> map t_global_id (grid_threads gr) = [0, 1, 2, 3, 4] \<and> length (g_blocks gr) = 2"
proof -
  have "\<exists>gr. build_benchmark_grid 5 4 2 False = Inr gr"
    unfolding build_benchmark_grid_def
    by (rule make_grid_total) (simp_all add: good_registers_def benchmark_init_def int_to_size_def)
  then obtain gr where gr: "build_benchmark_grid 5 4 2 False = Inr gr" by blast
  have "map t_global_id (grid_threads gr) = [0..<5] \<and> length (g_blocks gr) = (5 + 4 - 1) div 4"
    using grid_partition[of gr 5 4 2 False "''''" 1] gr by simp
  then show ?thesis using gr by (simp add: upt_rec)
qed

text \<open>
  C40: The reduction passes the steps of a block in the registers from 20 on. With a block size
  of \<open>2 ^ 13\<close> there are too few of them: no grid is built, and the exception is the one of the
  register file. Below that every grid is built.
\<close>

theorem reduction_grid_limit:
  assumes "0 < n" and "0 < ws" and "0 < bs" and "bs + ws < 2 ^ 64" and "n + bs < 2 ^ 64"
  shows "(bs < 2 ^ 13 \<longrightarrow> (\<exists>gr. build_reduction_grid n bs ws = Inr gr)) \<and>
    (2 ^ 13 \<le> bs \<longrightarrow> build_reduction_grid n bs ws = Inl (Out_of_range ''Register write out of bounds''))"
proof (intro conjI impI)
  have bs: "bs < 2 ^ 64" using assms(4) by simp
  show "\<exists>gr. build_reduction_grid n bs ws = Inr gr" if "bs < 2 ^ 13"
    unfolding build_reduction_grid_def using reduction_registers[OF bs] that assms(2,3) by (intro make_grid_total) blast+
  assume "2 ^ 13 \<le> bs"
  then have "\<not> good_registers (reduction_init n bs 0 0 0)" using reduction_registers[OF bs] by simp
  then have "write_registers (reduction_init n bs 0 0 0) (new_thread 0 0 0 0 0) = Inl (Out_of_range ''Register write out of bounds'')"
    by (rule write_registers_bad) (simp add: new_thread_def new_register_file_def)
  then show "build_reduction_grid n bs ws = Inl (Out_of_range ''Register write out of bounds'')"
    unfolding build_reduction_grid_def using assms by (intro make_grid_fails)
qed

theorem reduction_grid_limit_witness:
  "build_reduction_grid 1 8192 32 = Inl (Out_of_range ''Register write out of bounds'') \<and>
   (\<exists>gr. build_reduction_grid 1 8191 32 = Inr gr)"
  using reduction_grid_limit[of 1 32 8192] reduction_grid_limit[of 1 32 8191] by simp

section \<open>The sweep\<close>

text \<open>
  C29: The sweep visits the Cartesian product of the parameter values, a parameter without values
  standing for the one of the base configuration: the number of configurations is the product,
  their set is the set of all combinations, and none is visited twice when no value is listed
  twice. A sweep that ends has one result per configuration, in that order.
\<close>

theorem sweep_is_cartesian:
  "length (generate_configurations c sp) = max 1 (length (ps_scheduler_policies sp)) * max 1 (length (ps_l1_sets sp)) *
     max 1 (length (ps_max_registers_per_sm sp)) * max 1 (length (ps_max_shared_memory_per_sm sp)) *
     max 1 (length (ps_max_warps_per_sm sp)) \<and>
   set (generate_configurations c sp) =
     {combination c p l r m w | p l r m w.
        p \<in> set (choices (ps_scheduler_policies sp) (cfg_scheduler_policy c)) \<and>
        l \<in> set (choices (ps_l1_sets sp) (cfg_l1_sets c)) \<and>
        r \<in> set (choices (ps_max_registers_per_sm sp) (cfg_max_registers_per_sm c)) \<and>
        m \<in> set (choices (ps_max_shared_memory_per_sm sp) (cfg_max_shared_memory_per_sm c)) \<and>
        w \<in> set (choices (ps_max_warps_per_sm sp) (cfg_max_warps_per_sm c))} \<and>
   (distinct (ps_scheduler_policies sp) \<and> distinct (ps_l1_sets sp) \<and> distinct (ps_max_registers_per_sm sp) \<and>
    distinct (ps_max_shared_memory_per_sm sp) \<and> distinct (ps_max_warps_per_sm sp) \<longrightarrow>
      distinct (generate_configurations c sp)) \<and>
   (\<forall>rs. run_sweep rng c k gr req sp = Some (Inr rs) \<longrightarrow> map sr_config rs = generate_configurations c sp)"
proof (intro conjI impI allI)
  fix rs assume "run_sweep rng c k gr req sp = Some (Inr rs)"
  then have e: "execute_all rng k gr req 0 (generate_configurations c sp) = Some (Inr rs)" by (simp add: run_sweep_def)
  have cfg: "sr_config r = d" if "execute_configuration rng d k gr req i = Some (Inr r)" for d i r
    using that by (auto simp: execute_configuration_def result_of_def Let_def)
  show "map sr_config rs = generate_configurations c sp"
    using execute_all_Inr[OF e] cfg by (auto intro!: nth_equalityI)
qed (simp_all only: configurations_set configurations_distinct, simp_all add: generate_configurations_def expand_length)

theorem sweep_is_cartesian_witness:
  "length (generate_configurations default_config analysis_space) = 12 \<and> distinct (generate_configurations default_config analysis_space)"
proof -
  have "distinct (ps_scheduler_policies analysis_space) \<and> distinct (ps_l1_sets analysis_space) \<and>
      distinct (ps_max_registers_per_sm analysis_space) \<and> distinct (ps_max_shared_memory_per_sm analysis_space) \<and>
      distinct (ps_max_warps_per_sm analysis_space)" by (simp add: analysis_space_def)
  then show ?thesis using sweep_is_cartesian[of default_config analysis_space ex_rng ex_short ex_grid ex_req]
    by (simp add: analysis_space_def)
qed

section \<open>The diagnosis\<close>

text \<open>
  A result with an idle machine: nothing but a high average access time and a poor L1 hit rate.
\<close>

definition ex_result :: simulation_result where
  "ex_result =
     \<lparr>sr_config = ex_config, sr_run_name = ''Config_0'', sr_total_cycles = 100, sr_instructions_retired = 10,
      sr_memory_instructions = 0, sr_memory_transactions = 0, sr_l1_hits = 0, sr_l1_misses = 10, sr_l2_hits = 0,
      sr_l2_misses = 10, sr_bank_conflicts = 0, sr_dirty_evictions = 0, sr_no_ready_warp_cycles = 0,
      sr_max_warp_wait_cycles = 0, sr_starvation_events = 0, sr_ipc = 1 / 10, sr_amat = 100, sr_occupancy = 1,
      sr_fairness = 1, sr_l1_hit_rate = 0, sr_l2_hit_rate = 0, sr_bank_conflict_rate = 0, sr_ipc_utilization = 1 / 10\<rparr>"

lemma ex_result_cycles: "sr_total_cycles ex_result = 100" "sr_config ex_result = ex_config"
  by (simp_all add: ex_result_def)

lemma ex_result_scores: "map (\<lambda>c. (cand_name c, cand_score c)) (candidates ex_result) =
  [(''Compute'', 1), (''Memory Latency'', 2), (''Occupancy'', 0), (''Scheduler Inefficiency'', 0), (''Bank Conflicts'', 0)]"
  by (simp add: candidates_def compute_pressure_def memory_pressure_def occupancy_pressure_def scheduler_pressure_def
      bank_conflict_pressure_def weight_def high_amat_def uncoalesced_def many_idle_cycles_def few_idle_cycles_def
      total_sm_cycles_def ex_result_def ex_config_def default_config_def)

text \<open>
  C30: However the library orders equal scores, the primary bottleneck of a result is a candidate
  of maximal pressure, the secondary ones are exactly the other candidates with pressure 1 or
  more, and a result is unclassified exactly when no pressure reaches 1.
\<close>

theorem diagnosis_is_maximal:
  assumes "candidate_sort srt" and "i < length rs" and "b < length rs"
  shows "let r = analyze srt rs b ! i; cs = candidates (rs ! i)
    in if \<forall>c \<in> set cs. cand_score c < 1
       then ar_primary_bottleneck r = ''Unclassified'' \<and> ar_secondary_bottlenecks r = []
       else \<exists>c \<in> set cs. ar_primary_bottleneck r = cand_name c \<and> (\<forall>d \<in> set cs. cand_score d \<le> cand_score c) \<and>
         mset (ar_secondary_bottlenecks r) = image_mset cand_name (filter_mset (\<lambda>d. 1 \<le> cand_score d) (mset cs - {#c#}))"
  using diagnosis[OF assms(1), of "rs ! b" "rs ! i" "i = b"]
  by (auto simp: analyze_nth[OF assms(2,3)] validate_fields Let_def split: if_splits)

theorem diagnosis_is_maximal_witness:
  "ar_primary_bottleneck (analyze stable_sort [ex_result] 0 ! 0) = ''Memory Latency''"
proof -
  have m: "(''Memory Latency'', 2) \<in> set (map (\<lambda>c. (cand_name c, cand_score c)) (candidates ex_result))"
    by (simp add: ex_result_scores)
  have only: "cand_name c = ''Memory Latency''" if "c \<in> set (candidates ex_result)" "\<forall>d \<in> set (candidates ex_result). cand_score d \<le> cand_score c" for c
  proof -
    have "(cand_name c, cand_score c) \<in> set (map (\<lambda>c. (cand_name c, cand_score c)) (candidates ex_result))" using that by simp
    moreover have "2 \<le> cand_score c" using m that(2) by auto
    ultimately show ?thesis by (auto simp: ex_result_scores)
  qed
  have neg: "\<not> (\<forall>c \<in> set (candidates ex_result). cand_score c < 1)" using m by force
  have "\<exists>c \<in> set (candidates ex_result). ar_primary_bottleneck (analyze stable_sort [ex_result] 0 ! 0) = cand_name c \<and>
      (\<forall>d \<in> set (candidates ex_result). cand_score d \<le> cand_score c)"
    using diagnosis_is_maximal[OF stable.candidate_sort_axioms, of 0 "[ex_result]" 0] neg
    by (simp add: Let_def if_not_P[OF neg] del: not_all) blast
  then show ?thesis using only by fastforce
qed

text \<open>
  The second pass changes nothing of a diagnosis but its confidence and its factors, to
  which it adds at most one. An occupancy diagnosis becomes certain when another result of the
  sweep that differs in one occupancy parameter was faster with a higher occupancy, and loses a
  medium confidence otherwise; every other confidence stays.
\<close>

theorem evidence_pass:
  assumes "i < length rs" and "b < length rs"
  shows "let r = analyze srt rs b ! i; f = compute_deltas_and_bottlenecks srt (rs ! b) (rs ! i) (i = b);
      found = (\<exists>j < length rs. i \<noteq> j \<and> occupancy_evidence (rs ! i) (rs ! j))
    in ar_sim_result r = rs ! i \<and> (ar_is_baseline r \<longleftrightarrow> i = b) \<and>
       ar_primary_bottleneck r = ar_primary_bottleneck f \<and> ar_secondary_bottlenecks r = ar_secondary_bottlenecks f \<and>
       (0 < sr_total_cycles (rs ! i) \<longrightarrow>
          ar_speedup r * of_nat (sr_total_cycles (rs ! i)) = of_nat (sr_total_cycles (rs ! b))) \<and>
       ar_confidence r =
         (if ar_primary_bottleneck f = ''Occupancy''
          then if found then ''High'' else if ar_confidence f = ''Medium'' then ''Low'' else ar_confidence f
          else ar_confidence f) \<and>
       (\<exists>fs. ar_contributing_factors r = ar_contributing_factors f @ fs \<and> length fs \<le> 1)"
proof -
  let ?f = "compute_deltas_and_bottlenecks srt (rs ! b) (rs ! i) (i = b)"
  have e: "list_ex (\<lambda>j. i \<noteq> j \<and> occupancy_evidence (rs ! i) (rs ! j)) [0..<length rs] \<longleftrightarrow>
      (\<exists>j < length rs. i \<noteq> j \<and> occupancy_evidence (rs ! i) (rs ! j))"
    by (auto simp: list_ex_iff)
  have f: "ar_sim_result ?f = rs ! i" "ar_is_baseline ?f \<longleftrightarrow> i = b"
    "ar_speedup ?f = (if sr_total_cycles (rs ! i) > 0
       then of_nat (sr_total_cycles (rs ! b)) / of_nat (sr_total_cycles (rs ! i)) else 1)"
    by (simp_all add: compute_deltas_and_bottlenecks_def diagnose_fields)
  have "ar_confidence (validate rs i ?f) =
      (if ar_primary_bottleneck ?f = ''Occupancy''
       then if \<exists>j < length rs. i \<noteq> j \<and> occupancy_evidence (rs ! i) (rs ! j) then ''High''
            else if ar_confidence ?f = ''Medium'' then ''Low'' else ar_confidence ?f
       else ar_confidence ?f)"
    by (cases "ar_primary_bottleneck ?f = ''Occupancy''") (auto simp: validate_def add_factor_def Let_def e)
  moreover have "\<exists>fs. ar_contributing_factors (validate rs i ?f) = ar_contributing_factors ?f @ fs \<and> length fs \<le> 1"
    by (auto simp: validate_def add_factor_def Let_def)
  ultimately show ?thesis by (simp add: analyze_nth[OF assms] validate_fields f Let_def)
qed

theorem evidence_pass_witness:
  "ar_confidence (analyze stable_sort [ex_result] 0 ! 0) = ''Medium''"
proof -
  have "ar_confidence (compute_deltas_and_bottlenecks stable_sort ex_result ex_result True) = ''Medium'' \<and>
      ar_primary_bottleneck (compute_deltas_and_bottlenecks stable_sort ex_result ex_result True) \<noteq> ''Occupancy''"
    by (simp add: compute_deltas_and_bottlenecks_def diagnose_bottleneck_def stable_sort_def candidates_def compute_pressure_def
        memory_pressure_def occupancy_pressure_def scheduler_pressure_def bank_conflict_pressure_def weight_def high_amat_def
        uncoalesced_def many_idle_cycles_def few_idle_cycles_def total_sm_cycles_def ex_result_def ex_config_def
        default_config_def Let_def confidence_of_def)
  then show ?thesis using evidence_pass[of 0 "[ex_result]" 0 stable_sort] by (simp add: Let_def)
qed

lemma configurations_num_sms: "d \<in> set (generate_configurations c sp) \<Longrightarrow> cfg_num_sms d = cfg_num_sms c"
  by (auto simp: configurations_set combination_def with_defs)

text \<open>The run of the small GPU ends after at least one cycle, and a sweep over no parameter is that run.\<close>

definition no_parameters :: parameter_space where
  "no_parameters = \<lparr>ps_scheduler_policies = [], ps_l1_sets = [], ps_max_registers_per_sm = [],
     ps_max_shared_memory_per_sm = [], ps_max_warps_per_sm = []\<rparr>"

lemma ex_short_cycles:
  "\<exists>g. run_cycles (Suc (Suc (Suc 0))) ex_short (two_warps l1 l2 p) = Some (Inr g) \<and> (\<exists>s \<in> set (gpu_sms g). 0 < pf_cycles (sm_counters s))"
  by (simp add: cycle_defs run_defs increment_cycles_def record_warp_issue_def record_scheduler_event_def
      increment_instructions_retired_def count_result_def record_warp_wait_def add_warp_barrier_stall_cycles_def log_event_def)

lemma ex_sweep:
  "\<exists>r. run_sweep ex_rng ex_config ex_short ex_grid ex_req no_parameters = Some (Inr [r]) \<and> 0 < sr_total_cycles r"
proof -
  obtain l1 l2 p where "launched = Inr (two_warps l1 l2 p)" using launched_eq by blast
  then obtain g where g: "new_gpu ex_rng ex_config = Inr g" "launch_kernel g ex_grid ex_config ex_req = Inr (two_warps l1 l2 p)"
    by (auto simp: launched_def)
  obtain g' s where r: "run_cycles (Suc (Suc (Suc 0))) ex_short (two_warps l1 l2 p) = Some (Inr g')"
    "s \<in> set (gpu_sms g')" "0 < pf_cycles (sm_counters s)" using ex_short_cycles by blast
  have run: "run_kernel g ex_short ex_grid ex_config ex_req = Some (Inr g')"
    using run_cycles_sound[OF r(1)] g(2) by (simp add: run_kernel_def)
  have "\<exists>occ. compute_occupancy ex_config ex_req = Inr occ"
    by (simp add: compute_occupancy_def ex_config_def ex_req_def default_config_def Let_def resident_blocks_def
        max_blocks_by_threads_def max_blocks_by_warps_def max_blocks_by_regs_def max_blocks_by_shmem_def
        registers_per_block_def occ_warps_per_block_def size_add_def size_sub_def size_mul_def)
  then obtain res where res: "result_of ex_config ex_req 0 g' = Inr res" "sr_total_cycles res = rt_max_cycles (collect g')"
    by (auto simp: result_of_def Let_def)
  have "0 < sr_total_cycles res"
    using add_sm_max_mem[OF r(2)] r(3) unfolding res(2) collect_def by (meson less_le_trans)
  then show ?thesis using g(1) run res(1)
    by (simp add: run_sweep_def generate_configurations_def no_parameters_def expand_def execute_configuration_def)
qed

text \<open>
  C15: The analyzer never calls a simulated run unclassified: the cycles without a ready warp,
  which it reads as idle cycles, are 0 in every run that takes a cycle at all, so the pressure
  of \<open>Compute\<close> is always at least 1.
\<close>

theorem never_unclassified:
  assumes "candidate_sort srt" and "random_range rng" and "blocks_ok (g_blocks gr)" and "0 < cfg_num_sms c"
    and "run_sweep rng c k gr req sp = Some (Inr rs)" and "i < length rs" and "0 < sr_total_cycles (rs ! i)"
  shows "sr_no_ready_warp_cycles (rs ! i) = 0 \<and> 1 \<le> compute_pressure (rs ! i) \<and>
    ar_primary_bottleneck (analyze srt rs 0 ! i) \<noteq> ''Unclassified''"
proof -
  let ?cs = "generate_configurations c sp" and ?s = "rs ! i"
  have e: "execute_all rng k gr req 0 ?cs = Some (Inr rs)" using assms(5) by (simp add: run_sweep_def)
  have i: "i < length ?cs" using execute_all_Inr[OF e] assms(6) by simp
  have "execute_configuration rng (?cs ! i) k gr req i = Some (Inr ?s)" using execute_all_Inr[OF e] i by simp
  from configuration_quiet[OF assms(2) this assms(3)] have q: "sr_no_ready_warp_cycles ?s = 0" "sr_config ?s = ?cs ! i" by simp_all
  have "cfg_num_sms (sr_config ?s) = cfg_num_sms c" unfolding q(2) by (rule configurations_num_sms[OF nth_mem[OF i]])
  then have "few_idle_cycles ?s" using q(1) assms(4,7) by (simp add: few_idle_cycles_def total_sm_cycles_def)
  then have p: "1 \<le> compute_pressure ?s" by (simp add: compute_pressure_def weight_def)
  moreover have "\<exists>d \<in> set (candidates ?s). cand_score d = compute_pressure ?s" by (simp add: candidates_def)
  ultimately have "\<not> (\<forall>d \<in> set (candidates ?s). cand_score d < 1)" by force
  moreover have "0 < length rs" using assms(6) by linarith
  moreover have "cand_name d \<noteq> ''Unclassified''" if "d \<in> set (candidates ?s)" for d using that by (auto simp: candidates_def)
  moreover have "ar_primary_bottleneck (analyze srt rs 0 ! i) =
      ar_primary_bottleneck (compute_deltas_and_bottlenecks srt (rs ! 0) ?s (i = 0))"
    using analyze_nth[OF assms(6)] \<open>0 < length rs\<close> by (simp add: validate_fields)
  ultimately have "ar_primary_bottleneck (analyze srt rs 0 ! i) \<noteq> ''Unclassified''"
    using diagnosis[OF assms(1), of "rs ! 0" ?s "i = 0"] by (metis (no_types, lifting))
  then show ?thesis using q p by blast
qed

theorem never_unclassified_witness:
  "\<exists>r. run_sweep ex_rng ex_config ex_short ex_grid ex_req no_parameters = Some (Inr [r]) \<and>
    ar_primary_bottleneck (analyze stable_sort [r] 0 ! 0) \<noteq> ''Unclassified''"
proof -
  obtain r where r: "run_sweep ex_rng ex_config ex_short ex_grid ex_req no_parameters = Some (Inr [r])" "0 < sr_total_cycles r"
    using ex_sweep by blast
  have "0 < cfg_num_sms ex_config" by (simp add: ex_config_def)
  from never_unclassified[OF stable.candidate_sort_axioms ex_rng_range ex_blocks_ok(1) this r(1), of 0] r
  show ?thesis by simp
qed

section \<open>The report\<close>

text \<open>
  The report calls the first configuration of maximal speedup the best one, and its
  sensitivity tables split the results: every value of the parameter appears once, in ascending
  order, and the groups together hold every speedup exactly once.
\<close>

theorem report_best_and_groups:
  assumes "results \<noteq> []" and "length keys = length vals"
  shows "best_index results < length results \<and>
    (\<forall>r \<in> set results. ar_speedup r \<le> ar_speedup (results ! best_index results)) \<and>
    (\<forall>i < best_index results. ar_speedup (results ! i) < ar_speedup (results ! best_index results)) \<and>
    map fst (grouped keys vals) = sorted_list_of_set (set keys) \<and>
    mset (concat (map snd (grouped keys vals))) = mset vals \<and>
    (\<forall>(k, vs) \<in> set (grouped keys vals). vs = map snd (filter (\<lambda>p. fst p = k) (zip keys vals)))"
  using best_index_maximal[OF assms(1)] grouped_values[OF assms(2)]
  by (intro conjI) (auto simp: grouped_keys, auto simp: grouped_def)

theorem report_best_and_groups_witness:
  "map fst (grouped [''RR'', ''GTO'', ''RR''] [1, 2, 3 :: rat]) = [''GTO'', ''RR''] \<and>
   best_index (analyze stable_sort [ex_result, ex_result] 0) = 0"
proof -
  let ?rs = "analyze stable_sort [ex_result, ex_result] 0"
  have len: "length ?rs = 2" by (simp add: length_analyze)
  then have ne: "?rs \<noteq> []" by auto
  have sp: "ar_speedup (?rs ! 0) = 1" "ar_speedup (?rs ! 1) = 1"
    by (simp_all add: analyze_nth validate_fields compute_deltas_and_bottlenecks_def diagnose_fields ex_result_cycles)
  note r = report_best_and_groups[OF ne, of "[''RR'', ''GTO'', ''RR'']" "[1, 2, 3]"]
  have s: "sorted_list_of_set (set [''RR'', ''GTO'', ''RR'']) = [''GTO'', ''RR'']" by code_simp
  have "best_index ?rs = 0"
  proof (rule ccontr)
    assume n: "best_index ?rs \<noteq> 0"
    then have "best_index ?rs = 1" using r len by simp
    then show False using r sp by fastforce
  qed
  moreover have "map fst (grouped [''RR'', ''GTO'', ''RR''] [1, 2, 3 :: rat]) = sorted_list_of_set (set [''RR'', ''GTO'', ''RR''])"
    using r by (simp del: set_simps)
  ultimately show ?thesis unfolding s by blast
qed

section \<open>The trace\<close>

text \<open>
  The logger prints exactly the events whose level is switched on: replaying a list of
  events gives the text of replaying those alone, what was printed before stays, and with the
  level of no event on nothing is printed.
\<close>

theorem trace_level_filters:
  "fold log_counter_event es l = fold log_counter_event (filter (\<lambda>e. is_enabled l (event_level e)) es) l \<and>
   (\<exists>s. tl_out (fold log_counter_event es l) = tl_out l @ s) \<and>
   ((\<forall>e \<in> set es. \<not> is_enabled l (event_level e)) \<longrightarrow> fold log_counter_event es l = l)"
  using replay_enabled[of es l] replay_appends[of es l] by (auto simp: filter_False)

theorem trace_level_filters_witness:
  "\<exists>l. new_trace_logger (\<lambda>f. True) 4 '''' = Inr l \<and>
     fold log_counter_event [Scheduler_event 0 1 ''RR'' 0 [(0, Ready)]] l = l"
proof -
  obtain l where l: "new_trace_logger (\<lambda>f. True) 4 '''' = Inr l" "tl_level l = 4" by (simp add: new_trace_logger_def)
  have "\<not> is_enabled l Scheduler_Level" by (simp add: is_enabled_def l(2) level_and_def level_value_def)
  with l(1) trace_level_filters[of "[Scheduler_event 0 1 ''RR'' 0 [(0, Ready)]]" l] show ?thesis
    by (auto simp: event_level_def)
qed

section \<open>The command line\<close>

text \<open>
  C31: The argument parser recovers any options from a command line that spells them out, with
  the numbers printed in decimal; a benchmark type must not look like an option.
\<close>

theorem command_line_roundtrip:
  assumes "- (2 ^ 63) \<le> op_num_threads opts" and "op_num_threads opts < 2 ^ 63"
    and "op_run_benchmarks opts \<longrightarrow> take 2 (op_b_type opts) \<noteq> ''--''"
    and "\<not> op_run_benchmarks opts \<longrightarrow> op_b_type opts = ''all''"
  shows "parse_args (command_line opts) default_options = Inr (Some opts)"
  by (rule parse_command_line[OF assms])

theorem command_line_roundtrip_witness:
  "parse_args [''--config'', ''gpu.json'', ''--threads'', ''-25'', ''--debug'', ''--trace-level'', ''6'', ''--trace-file'', '''',
      ''--benchmark'', ''gemm''] default_options =
   Inr (Some \<lparr>op_config_path = ''gpu.json'', op_num_threads = -25, op_debug_mode = True, op_trace_level = 6,
     op_trace_file = '''', op_run_benchmarks = True, op_b_type = ''gemm''\<rparr>)"
proof -
  let ?o = "\<lparr>op_config_path = ''gpu.json'', op_num_threads = -25, op_debug_mode = True, op_trace_level = 6,
     op_trace_file = '''', op_run_benchmarks = True, op_b_type = ''gemm''\<rparr>"
  have "show_int (-25) = ''-25''" "show_int 6 = ''6''" by (code_simp, code_simp)
  then have "command_line ?o = [''--config'', ''gpu.json'', ''--threads'', ''-25'', ''--debug'', ''--trace-level'', ''6'',
      ''--trace-file'', '''', ''--benchmark'', ''gemm'']" by (simp add: command_line_def)
  with command_line_roundtrip[of ?o] show ?thesis by simp
qed

end
