(* ===== verification/Progress.thy ===== *)
theory Progress
  imports Deadlock "HOL-Library.Multiset"
begin

text \<open>
  What the runs of kernels have in common: schedulers that never idle or not for ever, where the warps
  of a grid are, blocks that fit an SM, the launch, and the measures that decrease from cycle to cycle.
\<close>

section \<open>Warps between cycles\<close>

definition stall_left :: "warp \<Rightarrow> nat" where
  "stall_left w = (if w_state w = Stalled then w_stall_cycles w else 0)"

text \<open>What identifies a warp of a grid while it runs: the blocks and the numbers of its threads.\<close>

definition lane_keys :: "warp \<Rightarrow> (nat \<times> nat) list" where
  "lane_keys w = map (\<lambda>t. (t_block_id t, t_global_id t)) (w_threads w)"

lemma same_core_keys: "same_core w w' \<Longrightarrow> lane_keys w' = lane_keys w"
  by (simp add: same_core_def lane_keys_def)

lemma framed_keys: "warp_framed w w' \<Longrightarrow> lane_keys w' = lane_keys w"
  by (auto simp: lane_keys_def warp_framed_def lanes_framed_def intro!: nth_equalityI)

lemma of_block_keys: "of_block b w \<longleftrightarrow> lane_keys w \<noteq> [] \<and> fst (hd (lane_keys w)) = b"
  by (cases "w_threads w") (simp_all add: of_block_def lane_keys_def)

lemma tick_stall_left: "stall_left (tick_stall w c) \<le> stall_left w"
  "stall_inv w \<Longrightarrow> w_state w = Stalled \<Longrightarrow> stall_left (tick_stall w c) < stall_left w"
  by (auto simp: stall_left_def tick_stall_def stall_inv_def Let_def)

lemma same_but_waits_left: "same_but_waits w w' \<Longrightarrow> stall_left w' = stall_left w"
  by (simp add: same_but_waits_def same_core_def stall_left_def)

lemma sum_list_map_cong2: "list_all2 (\<lambda>x y. f y = f x) xs ys \<Longrightarrow> sum_list (map f ys) = sum_list (map f (xs :: 'a list) :: nat list)"
  by (induction rule: list_all2_induct) simp_all

lemma map_cong2: "list_all2 (\<lambda>x y. f y = f x) xs ys \<Longrightarrow> map f ys = map f xs"
  by (induction rule: list_all2_induct) simp_all

lemma sum_list_strict:
  assumes "\<And>x. x \<in> set xs \<Longrightarrow> f x \<le> (g x :: nat)" and "x \<in> set xs" and "f x < g x"
  shows "sum_list (map f xs) < sum_list (map g xs)"
  using assms
proof (induction xs)
  case (Cons y ys)
  have "sum_list (map f ys) \<le> sum_list (map g ys)" using Cons.prems(1) by (intro sum_list_mono) simp
  moreover have "f y \<le> g y" using Cons.prems(1) by simp
  ultimately show ?case using Cons by (cases "x = y") force+
qed simp

section \<open>Where the warps of a grid are\<close>

definition blocks_warps :: "thread_block list \<Rightarrow> warp list" where
  "blocks_warps bs = concat (map tb_warps bs)"

definition sms_warps :: "sm list \<Rightarrow> warp list" where
  "sms_warps ss = concat (map sm_warps ss)"

section \<open>Schedulers that never idle\<close>

definition conserving :: "scheduler \<Rightarrow> bool" where
  "conserving sch \<longleftrightarrow> (case sch of Priority _ \<Rightarrow> False | TwoLevel _ \<Rightarrow> False | _ \<Rightarrow> True)"

lemma conserving_select:
  assumes "conserving sch"
  shows "conserving (snd (select_warp sch ws))" and "some_ready ws \<Longrightarrow> fst (select_warp sch ws) \<noteq> None"
proof -
  show "conserving (snd (select_warp sch ws))"
    using assms by (cases sch) (auto simp: conserving_def select_warp_def split: prod.splits)
  assume r: "some_ready ws"
  show "fst (select_warp sch ws) \<noteq> None"
  proof (cases sch)
    case (RoundRobin n)
    then show ?thesis using rr.select_some[OF r, of n] by (cases "rr_select n ws") (simp add: select_warp_def)
  next
    case Greedy
    then show ?thesis using greedy.select_some[OF r] by (simp add: select_warp_def)
  next
    case OldestFirst
    then show ?thesis using oldest.select_some[OF r] by (simp add: select_warp_def)
  next
    case (GTO l)
    then show ?thesis using gto.select_some[OF r, of l] by (cases "gto_select l ws") (simp add: select_warp_def)
  qed (use assms in \<open>auto simp: conserving_def\<close>)
qed

definition sm_conserving :: "sm \<Rightarrow> bool" where
  "sm_conserving s \<longleftrightarrow> (case sm_scheduler s of None \<Rightarrow> False | Some sch \<Rightarrow> conserving sch)"

lemma created_conserving:
  "create_scheduler policy n = Inr sch \<Longrightarrow> policy \<in> {''RR'', ''Greedy'', ''OldestFirst'', ''GTO''} \<Longrightarrow> conserving sch"
  by (auto simp: create_scheduler_def conserving_def)

section \<open>Schedulers that keep an SM busy\<close>

text \<open>
  The other two policies pass over ready warps, but not for ever: \<open>Priority\<close> only those of the lowest
  priority an \<open>int\<close> can have, and \<open>TwoLevel\<close>, with room in its active set, only while a warp in the
  set is waiting. When no warp can wait at a barrier, such a warp wakes up again.
\<close>

definition urgent :: "warp \<Rightarrow> bool" where
  "urgent w \<longleftrightarrow> sint (w_priority w) \<noteq> - (2 ^ 31)"

definition keeps_busy :: "bool \<Rightarrow> scheduler \<Rightarrow> warp list \<Rightarrow> bool" where
  "keeps_busy free sch ws \<longleftrightarrow>
     (case sch of Priority _ \<Rightarrow> list_all urgent ws | TwoLevel t \<Rightarrow> free \<and> 0 < tl_active_set_size t | _ \<Rightarrow> True)"

lemma two_level_waits:
  assumes none: "fst (two_level_select t ws) = None" and size: "0 < tl_active_set_size t" and ready: "some_ready ws"
  shows "\<exists>w \<in> set ws. w_state w \<noteq> Completed \<and> w_state w \<noteq> Ready"
proof -
  let ?old = "filter (still_active ws) (tl_active_warp_ids t)" and ?t = "update_active_set t ws"
  let ?ids = "tl_active_warp_ids ?t" and ?m = "tl_active_set_size t - length (filter (still_active ws) (tl_active_warp_ids t))"
  define cands where "cands = filter (\<lambda>w. w_id w \<notin> set ?old \<and> w_state w = Ready) ws"
  define sorted where "sorted = map w_id (sort_key (\<lambda>w. (w_ready_since w, w_id w)) cands)"
  have ids: "?ids = (if length ?old < tl_active_set_size t then ?old @ take ?m sorted else ?old)"
    by (simp add: update_active_set_def Let_def cands_def sorted_def)
  have silent: "ready_with_id ws wid = None" if wid: "wid \<in> set ?ids" for wid
  proof -
    let ?n = "length ?ids"
    obtain k where k: "k < ?n" "?ids ! k = wid" using wid by (auto simp: in_set_conv_nth)
    then have "k \<in> set (rotation (tl_rr_index ?t) ?n)" by (simp add: set_rotation)
    then obtain i where i: "i < ?n" "(tl_rr_index ?t + i) mod ?n = k" by (auto simp: rotation_def)
    have "find (\<lambda>i. ready_with_id ws (?ids ! ((tl_rr_index ?t + i) mod ?n)) \<noteq> None) [0..<?n] = None"
    proof (rule ccontr)
      assume "find (\<lambda>i. ready_with_id ws (?ids ! ((tl_rr_index ?t + i) mod ?n)) \<noteq> None) [0..<?n] \<noteq> None"
      then obtain l where l: "find (\<lambda>i. ready_with_id ws (?ids ! ((tl_rr_index ?t + i) mod ?n)) \<noteq> None) [0..<?n] = Some l" by blast
      then have "ready_with_id ws (?ids ! ((tl_rr_index ?t + l) mod ?n)) \<noteq> None" by (auto simp: find_Some_iff)
      then show False using none l unfolding two_level_select_def Let_def by simp
    qed
    then show ?thesis using i k(2) by (auto simp: find_None_iff)
  qed
  have quiet: "w_state w \<noteq> Ready" if "w \<in> set ws" "w_id w \<in> set ?ids" for w
    using silent[OF that(2)] that(1) by (auto simp: ready_with_id_def first_index_None_iff)
  have full: "\<not> length ?old < tl_active_set_size t"
  proof
    assume lt: "length ?old < tl_active_set_size t"
    obtain w where w: "w \<in> set ws" "w_state w = Ready" using ready by (auto simp: some_ready_def)
    then have "w_id w \<notin> set ?old" using quiet[OF w(1)] lt by (auto simp: ids)
    then have "w \<in> set cands" using w by (simp add: cands_def)
    then have "length sorted \<noteq> 0" by (auto simp: sorted_def)
    then have "sorted \<noteq> []" by simp
    then obtain wid rest where so: "sorted = wid # rest" by (cases sorted) auto
    moreover obtain j where "?m = Suc j" using lt by (metis Suc_diff_Suc)
    ultimately have "wid \<in> set ?ids" using lt by (simp add: ids)
    moreover have "wid \<in> w_id ` set cands"
    proof -
      have "wid \<in> set sorted" using so by simp
      then show ?thesis by (auto simp: sorted_def)
    qed
    ultimately show False using quiet by (auto simp: cands_def)
  qed
  then have "?old \<noteq> []" using size by auto
  then obtain wid where wid: "wid \<in> set ?old" by (meson list.set_sel(1))
  then obtain i where i: "first_index (\<lambda>w. w_id w = wid) ws = Some i" "w_state (ws ! i) \<noteq> Completed"
    by (auto simp: still_active_def split: option.splits)
  note at = first_index_SomeD[OF i(1)]
  have "w_state (ws ! i) \<noteq> Ready" using quiet[of "ws ! i"] at wid full ids by simp
  then show ?thesis using i(2) at nth_mem by blast
qed

lemma keeps_busy_select:
  assumes "keeps_busy free sch ws"
  shows "keeps_busy free (snd (select_warp sch ws)) ws' = keeps_busy free sch ws'"
    and "fst (select_warp sch ws) = None \<Longrightarrow> some_ready ws \<Longrightarrow> free \<and> (\<exists>w \<in> set ws. w_state w \<noteq> Completed \<and> w_state w \<noteq> Ready)"
proof -
  show "keeps_busy free (snd (select_warp sch ws)) ws' = keeps_busy free sch ws'"
    by (cases sch) (auto simp: keeps_busy_def select_warp_def two_level_select_def update_active_set_def Let_def
        split: prod.splits option.splits)
  assume none: "fst (select_warp sch ws) = None" and ready: "some_ready ws"
  show "free \<and> (\<exists>w \<in> set ws. w_state w \<noteq> Completed \<and> w_state w \<noteq> Ready)"
  proof (cases sch)
    case (Priority n)
    then have "fst (priority_select n ws) = None" using none by (simp add: select_warp_def split: prod.splits)
    from priority_select_None[OF this] ready assms show ?thesis
      by (auto simp: Priority keeps_busy_def list_all_length some_ready_nth urgent_def)
  next
    case (TwoLevel t)
    then have "fst (two_level_select t ws) = None" using none by (simp add: select_warp_def split: prod.splits)
    then show ?thesis using two_level_waits ready assms by (simp add: TwoLevel keeps_busy_def)
  qed (use none ready conserving_select(2)[of sch ws] in \<open>simp_all add: conserving_def\<close>)
qed

text \<open>Code at which no warp waits for another.\<close>

definition barrier_free :: "instruction list \<Rightarrow> bool" where
  "barrier_free code \<longleftrightarrow> list_all (\<lambda>i. inst_opcode i \<noteq> BARRIER) code"

text \<open>An SM with the blocks that may still come to it, whose warps count as well.\<close>

definition sm_busy :: "bool \<Rightarrow> thread_block list \<Rightarrow> sm \<Rightarrow> bool" where
  "sm_busy free ps s \<longleftrightarrow>
     (case sm_scheduler s of None \<Rightarrow> False | Some sch \<Rightarrow> keeps_busy free sch (sm_warps s) \<and> keeps_busy free sch (blocks_warps ps))"

lemma conserving_busy: "sm_conserving s \<Longrightarrow> sm_busy free ps s"
  by (auto simp: sm_conserving_def sm_busy_def conserving_def keeps_busy_def split: option.splits scheduler.splits)

lemma keeps_busy_subset: "keeps_busy free sch ws \<Longrightarrow> set ws' \<subseteq> set ws \<Longrightarrow> keeps_busy free sch ws'"
  and keeps_busy_append: "keeps_busy free sch (ws @ ws') \<longleftrightarrow> keeps_busy free sch ws \<and> keeps_busy free sch ws'"
  by (auto simp: keeps_busy_def list_all_iff split: scheduler.splits)

lemma keeps_busy_priorities: "map w_priority ws' = map w_priority ws \<Longrightarrow> keeps_busy free sch ws' = keeps_busy free sch ws"
proof -
  assume e: "map w_priority ws' = map w_priority ws"
  have "list_all urgent ws = list_all (\<lambda>p. sint p \<noteq> - (2 ^ 31)) (map w_priority ws)" for ws
    by (simp add: list_all_iff urgent_def)
  then show ?thesis by (simp add: keeps_busy_def e split: scheduler.splits)
qed

text \<open>No cycle changes a priority.\<close>

lemma issue_priorities:
  assumes ok: "\<forall>w \<in> set (sm_warps s). warp_ok w" and i: "i < length (sm_warps s)" and run: "issue k i s m = Inr (s', m')"
  shows "map w_priority (sm_warps s') = map w_priority (sm_warps s)"
proof -
  let ?w = "sm_warps s ! i"
  have upd: "map w_priority ((sm_warps s)[i := v]) = map w_priority (sm_warps s)" if "w_priority v = w_priority ?w" for v
    using i that by (simp add: map_update) (metis list_update_id nth_map)
  show ?thesis
  proof (cases "w_pc ?w \<ge> length (k_instructions k)")
    case True
    then show ?thesis using run upd[of "set_completed ?w"] by (auto simp: issue_def set_completed_def)
  next
    case False
    then obtain r w1 s2 w2 where e: "execute (k_instructions k ! w_pc ?w) ?w m = Inr (r, w1, m')"
      "(let s1 = s\<lparr>sm_warps := (sm_warps s)[i := w1], sm_counters := count_result (sm_id s) w1 (k_instructions k ! w_pc ?w) r (sm_counters s)\<rparr>
        in if er_status r = BarrierReached then handle_barrier_arrival i s1 else Inr s1) = Inr s2"
      "update_warp_state (length (k_instructions k)) r (sm_warps s2 ! i) = Inr w2" "sm_warps s' = (sm_warps s2)[i := w2]"
      using run by (auto simp: issue_def Let_def)
    have "length (w_threads ?w) \<le> 32" using ok i by (simp add: warp_ok_def masks_inv_def)
    from execute_framed(1)[OF this e(1)] have w1: "w_priority w1 = w_priority ?w" by (simp add: warp_framed_def)
    have barrier: "map w_priority (sm_warps t') = map w_priority (sm_warps t)" if t: "handle_barrier_arrival i t = Inr t'" "i < length (sm_warps t)" for t t'
    proof -
      let ?ws = "(sm_warps t)[i := set_stalled_at_barrier (sm_warps t ! i)]"
      have pr: "w_priority (set_stalled_at_barrier w) = w_priority w" "w_priority (set_ready w c) = w_priority w" for w c
        by (simp_all add: set_stalled_at_barrier_def reset_wait_cycles_def set_ready_def)
      have e: "map w_priority ?ws = map w_priority (sm_warps t)" using t(2) pr(1) by (simp add: map_update) (metis list_update_id nth_map)
      define b where "b = (if w_threads (?ws ! i) = [] then 0 else t_block_id (hd (w_threads (?ws ! i))))"
      have "sm_warps t' = ?ws \<or> sm_warps t' =
          map (\<lambda>w. if of_block b w \<and> w_state w = StalledAtBarrier then set_ready w (pf_cycles (sm_counters t)) else w) ?ws"
        using t(1) unfolding handle_barrier_arrival_def Let_def b_def[symmetric] by (auto split: if_split_asm)
      moreover have "map w_priority (map (\<lambda>w. if of_block b w \<and> w_state w = StalledAtBarrier then set_ready w (pf_cycles (sm_counters t)) else w) ?ws) =
          map w_priority ?ws" by (simp add: pr(2))
      ultimately have "map w_priority (sm_warps t') = map w_priority ?ws" by (elim disjE) (simp_all only:)
      then show ?thesis using e by (rule trans)
    qed
    have s2: "map w_priority (sm_warps s2) = map w_priority (sm_warps s)"
      using e(2) barrier[of "s\<lparr>sm_warps := (sm_warps s)[i := w1], sm_counters := count_result (sm_id s) w1 (k_instructions k ! w_pc ?w) r (sm_counters s)\<rparr>" s2]
        upd[OF w1] i by (auto simp: Let_def split: if_splits)
    have i2: "i < length (sm_warps s2)" using arg_cong[OF s2, of length] i by simp
    have "w_priority w2 = w_priority (sm_warps s2 ! i)"
      using e(3) by (auto simp: update_warp_state_def update_shadow_pcs_def pop_simt_stack_def set_reconvergence_pc_def set_warp_pc_def
          set_active_mask_def set_completed_def stall_def reset_wait_cycles_def Let_def split: if_splits option.splits list.splits prod.splits)
    then show ?thesis unfolding e(4) s2[symmetric] using i2 by (simp add: map_update) (metis list_update_id nth_map)
  qed
qed

lemma tick_stall_priority [simp]: "w_priority (tick_stall w c) = w_priority w"
  by (simp add: tick_stall_def Let_def)

lemma prepared_priorities: "map w_priority (sm_warps (prepared s)) = map w_priority (sm_warps s)"
  by (simp add: prepared_effect comp_def)

lemma schedule_priorities: "schedule sch s = (sel, s3) \<Longrightarrow> map w_priority (sm_warps s3) = map w_priority (sm_warps s)"
proof -
  have "w_priority (fst (account_wait sel w p)) = w_priority w" for sel w p
    by (simp add: account_wait_def reset_wait_cycles_def increment_wait_cycles_def check_and_set_starvation_def Let_def)
  note one = this
  have "map w_priority (fst (account_waits sel ws p)) = map w_priority ws" for sel ws p
  proof (induction ws arbitrary: p)
    case (Cons w ws)
    obtain w' p1 where 1: "account_wait sel w p = (w', p1)" by fastforce
    obtain ws' p2 where 2: "account_waits sel ws p1 = (ws', p2)" by fastforce
    show ?case using one[of sel w p] Cons.IH[of p1] by (simp add: 1 2)
  qed simp
  then show "schedule sch s = (sel, s3) \<Longrightarrow> map w_priority (sm_warps s3) = map w_priority (sm_warps s)"
    by (auto simp: schedule_def Let_def split: prod.splits) (metis fst_conv)+
qed

text \<open>Hence neither scheduling nor issuing lets an SM fall idle for good.\<close>

lemma schedule_busy:
  assumes "sm_busy free ps s" and sch: "sm_scheduler s = Some sch" and sc: "schedule sch (prepared s) = (sel, s3)"
  shows "sm_busy free ps s3"
proof -
  note eq = trans[OF schedule_priorities[OF sc] prepared_priorities]
  have k: "keeps_busy free sch (sm_warps s)" "keeps_busy free sch (blocks_warps ps)" using assms(1) sch by (simp_all add: sm_busy_def)
  have p: "keeps_busy free sch (sm_warps (prepared s))" using k(1) keeps_busy_priorities[OF prepared_priorities] by blast
  show ?thesis using k keeps_busy_select(1)[OF p] keeps_busy_priorities[OF eq] by (simp add: sm_busy_def schedule_effect(8)[OF sc])
qed

lemma issue_busy:
  assumes "sm_busy free ps s" and ok: "\<forall>w \<in> set (sm_warps s). warp_ok w" and i: "i < length (sm_warps s)"
    and run: "issue k i s m = Inr (s', m')" and sch: "sm_scheduler s' = sm_scheduler s"
  shows "sm_busy free ps s'"
  using assms(1) keeps_busy_priorities[OF issue_priorities[OF ok i run]] by (simp add: sm_busy_def sch split: option.splits)

lemma schedule_idle:
  assumes "sm_busy free ps s" and sch: "sm_scheduler s = Some sch" and sc: "schedule sch (prepared s) = (None, s3)"
    and ready: "some_ready (sm_warps (prepared s))"
  shows "free \<and> (\<exists>w \<in> set (sm_warps (prepared s)). w_state w \<noteq> Completed \<and> w_state w \<noteq> Ready)"
proof -
  have "keeps_busy free sch (sm_warps s)" using assms(1) sch by (simp add: sm_busy_def)
  then have "keeps_busy free sch (sm_warps (prepared s))" using keeps_busy_priorities[OF prepared_priorities] by blast
  from keeps_busy_select(2)[OF this schedule_effect(7)[OF sc, symmetric] ready] show ?thesis .
qed

section \<open>The warps a GPU has to run\<close>

text \<open>The warps on the SMs and those of the blocks that wait.\<close>

definition all_warps :: "gpu \<Rightarrow> warp multiset" where
  "all_warps g = mset (sms_warps (gpu_sms g)) + mset (blocks_warps (drop (gpu_current_block_idx g) (gpu_pending_blocks g)))"

lemma dispatch_warps:
  assumes "dispatch c req p idx s = Inr (idx', s')" and "idx \<le> length p"
  shows "mset (sm_warps s') + mset (blocks_warps (drop idx' p)) = mset (sm_warps s) + mset (blocks_warps (drop idx p))"
proof -
  note d = dispatch_effect[OF assms]
  have "drop idx p = slice p idx idx' @ drop idx' p"
    using d slice_append[of idx idx' "length p" p] by (simp add: slice_def)
  then show ?thesis using d by (simp add: blocks_warps_def)
qed

lemma move_summand: "a1 + b = a2 + c \<Longrightarrow> s1 + c = s2 + d \<Longrightarrow> s1 + a1 + b = s2 + a2 + (d :: 'a multiset)"
proof -
  assume e: "a1 + b = a2 + c" "s1 + c = s2 + d"
  have "s1 + a1 + b = s1 + (a1 + b)" by (simp add: ac_simps)
  also have "\<dots> = (s1 + c) + a2" unfolding e(1) by (simp add: ac_simps)
  also have "\<dots> = s2 + a2 + d" unfolding e(2) by (simp add: ac_simps)
  finally show ?thesis .
qed

lemma dispatch_all_warps:
  "dispatch_all prep c req p idx ss = Inr (idx', ss') \<Longrightarrow> idx \<le> length p \<Longrightarrow>
   mset (sms_warps ss') + mset (blocks_warps (drop idx' p)) =
   mset (sms_warps (map prep ss)) + mset (blocks_warps (drop idx p))"
proof (induction ss arbitrary: idx ss')
  case (Cons s ss)
  then obtain j s1 ss1 where 1: "dispatch c req p idx (prep s) = Inr (j, s1)" "dispatch_all prep c req p j ss = Inr (idx', ss1)"
    "ss' = s1 # ss1" by auto
  have "j \<le> length p" using dispatch_effect[OF 1(1) Cons.prems(2)] by blast
  from move_summand[OF Cons.IH[OF 1(2) this] dispatch_warps[OF 1(1) Cons.prems(2)]] 1(3)
  show ?case by (simp add: sms_warps_def)
qed simp

lemma dispatch_all_busy:
  assumes d: "dispatch_all prep c req p idx ss = Inr (idx', ss')" and le: "idx \<le> length p"
    and "\<And>s. sm_scheduler (prep s) = sm_scheduler s" and busy: "\<forall>s \<in> set ss. sm_busy free p (prep s)"
  shows "\<forall>s \<in> set ss'. sm_busy free p s"
proof
  fix s assume "s \<in> set ss'"
  moreover from dispatch_all_effect[OF d le] obtain bss where de: "length ss' = length ss" "length bss = length ss" "concat bss = slice p idx idx'"
    "\<forall>n < length ss. sm_scheduler (ss' ! n) = sm_scheduler (prep (ss ! n)) \<and>
       sm_warps (ss' ! n) = sm_warps (prep (ss ! n)) @ concat (map tb_warps (bss ! n))" by blast
  ultimately obtain n where n: "n < length ss" "sm_scheduler s = sm_scheduler (prep (ss ! n))"
    "sm_warps s = sm_warps (prep (ss ! n)) @ concat (map tb_warps (bss ! n))" by (auto simp: in_set_conv_nth)
  have "sm_busy free p (prep (ss ! n))" using busy n(1) by simp
  then obtain sch where sch: "sm_scheduler (prep (ss ! n)) = Some sch" "keeps_busy free sch (sm_warps (prep (ss ! n)))"
    "keeps_busy free sch (blocks_warps p)" by (auto simp: sm_busy_def split: option.splits)
  have "bss ! n \<in> set bss" using n(1) de(2) by simp
  then have "set (bss ! n) \<subseteq> set (concat bss)" by auto
  then have "set (bss ! n) \<subseteq> set p" using set_slice[of p idx idx'] unfolding de(3) by blast
  then have "keeps_busy free sch (concat (map tb_warps (bss ! n)))"
    by (intro keeps_busy_subset[OF sch(3)]) (auto simp: blocks_warps_def)
  then show "sm_busy free p s" using sch n(2,3) by (simp add: sm_busy_def keeps_busy_append)
qed

lemma release_busy: "sm_busy free p s \<Longrightarrow> sm_busy free p (release_completed_blocks s)"
  using release_fields(1)[of s] by (auto simp: sm_busy_def release_fields(6) split: option.splits intro: keeps_busy_subset)

lemma release_filters: "\<exists>P. sm_warps (release_completed_blocks s) = filter P (sm_warps s)"
proof -
  have "\<exists>P. sm_warps s' = filter P (sm_warps s)" if "release_loop bs s = (kept, s')" for bs kept s'
    using that
  proof (induction bs arbitrary: s kept)
    case Nil
    then show ?case by (intro exI[of _ "\<lambda>_. True"]) simp
  next
    case (Cons b bs)
    show ?case
    proof (cases "block_finished (sm_warps s) (rb_block_id b)")
      case True
      then obtain P where "sm_warps s' = filter P (sm_warps (release_block b s))" using Cons by (simp, blast)
      then show ?thesis by (auto simp: release_block_def)
    next
      case False
      then show ?thesis using Cons by (auto split: prod.splits)
    qed
  qed
  moreover obtain kept s' where "release_loop (sm_resident_blocks s) s = (kept, s')" by fastforce
  ultimately show ?thesis by (auto simp: release_completed_blocks_def)
qed

lemma release_subset: "mset (sms_warps (map release_completed_blocks ss)) \<subseteq># mset (sms_warps ss)"
proof (induction ss)
  case (Cons s ss)
  obtain P where "sm_warps (release_completed_blocks s) = filter P (sm_warps s)" using release_filters by blast
  then have "mset (sm_warps (release_completed_blocks s)) \<subseteq># mset (sm_warps s)" by simp
  with Cons show ?case by (simp add: sms_warps_def subset_mset.add_mono)
qed simp

section \<open>Blocks that fit\<close>

definition fits :: "system_config \<Rightarrow> kernel_requirements \<Rightarrow> thread_block \<Rightarrow> bool" where
  "fits c req b \<longleftrightarrow> 1 \<le> cfg_max_blocks_per_sm c \<and> length (tb_warps b) \<le> cfg_max_warps_per_sm c \<and>
     block_threads b \<le> cfg_max_threads_per_sm c \<and>
     size_mul (block_threads b) (req_registers_per_thread req) \<le> cfg_max_registers_per_sm c \<and>
     req_shared_memory_per_block req \<le> cfg_max_shared_memory_per_sm c"

lemma fits_empty: "fits c req b \<Longrightarrow> accounts_ok s \<Longrightarrow> sm_allocated_blocks s = 0 \<Longrightarrow> can_admit s b c req"
  by (simp add: fits_def accounts_ok_def accounts_for_def can_admit_def Let_def)

lemma dispatch_fits:
  "accounts_ok s \<Longrightarrow> \<forall>b \<in> set p. fits c req b \<Longrightarrow> \<exists>idx' s'. dispatch c req p idx s = Inr (idx', s')"
proof (induction c req p idx s rule: dispatch.induct)
  case (1 c req p idx s)
  show ?case
  proof (cases "idx < length p \<and> can_admit s (p ! idx) c req")
    case True
    then show ?thesis using "1.IH" allocate_accounts[OF "1.prems"(1)] "1.prems"(2) by (simp add: dispatch.simps[of c req p idx s])
  next
    case False
    then have "idx < length p \<longrightarrow> sm_allocated_blocks s \<noteq> 0" using fits_empty[of c req "p ! idx" s] "1.prems" nth_mem[of idx p] by metis
    then show ?thesis using False by (auto simp: dispatch.simps[of c req p idx s])
  qed
qed

lemma dispatch_all_fits:
  "\<forall>s \<in> set ss. accounts_ok (prep s) \<Longrightarrow> \<forall>b \<in> set p. fits c req b \<Longrightarrow> \<exists>idx' ss'. dispatch_all prep c req p idx ss = Inr (idx', ss')"
proof (induction ss arbitrary: idx)
  case (Cons s ss)
  obtain j s1 where "dispatch c req p idx (prep s) = Inr (j, s1)" using dispatch_fits Cons.prems by fastforce
  moreover obtain i ss1 where "dispatch_all prep c req p j ss = Inr (i, ss1)" using Cons by fastforce
  ultimately show ?case by simp
qed simp

section \<open>Ranks\<close>

definition summed :: "(warp \<Rightarrow> nat) \<Rightarrow> warp list \<Rightarrow> nat" where
  "summed f ws = sum_list (map f ws)"

lemma summed_append [simp]: "summed f (xs @ ys) = summed f xs + summed f ys" "summed f [] = 0"
  by (simp_all add: summed_def)

lemma summed_mset: "summed f ws = sum_mset (image_mset f (mset ws))"
  by (simp add: summed_def sum_mset_sum_list[symmetric])

lemma sum_subset_mset: "A \<subseteq># B \<Longrightarrow> sum_mset (image_mset f A) \<le> (sum_mset (image_mset f B) :: nat)"
  by (auto simp: subset_mset.le_iff_add)

section \<open>Launching\<close>

text \<open>A GPU as its constructor leaves it, with any contents of the global memory.\<close>

definition usable :: "gpu \<Rightarrow> bool" where
  "usable g \<longleftrightarrow> gpu_sms g \<noteq> [] \<and> cache_inv (gpu_l2_cache g) \<and> stats_inv (gpu_l2_cache g) \<and>
     (\<forall>s \<in> set (gpu_sms g). cache_inv (sm_l1_cache s) \<and> stats_inv (sm_l1_cache s) \<and> sm_conserving s)"

text \<open>Enough for a kernel, without barriers if \<open>free\<close>, on the blocks \<open>ps\<close>.\<close>

definition runnable :: "bool \<Rightarrow> thread_block list \<Rightarrow> gpu \<Rightarrow> bool" where
  "runnable free ps g \<longleftrightarrow> gpu_sms g \<noteq> [] \<and> cache_inv (gpu_l2_cache g) \<and> stats_inv (gpu_l2_cache g) \<and>
     (\<forall>s \<in> set (gpu_sms g). cache_inv (sm_l1_cache s) \<and> stats_inv (sm_l1_cache s) \<and> sm_busy free ps (clear_warps s))"

lemma runnable_memory [simp]: "runnable free ps (g\<lparr>gpu_global_memory := m\<rparr>) = runnable free ps g"
  by (simp add: runnable_def)

lemma usable_runnable: "usable g \<Longrightarrow> runnable free ps g"
proof -
  have "sm_conserving s \<Longrightarrow> sm_busy free ps (clear_warps s)" for s
    by (rule conserving_busy) (simp add: sm_conserving_def clear_warps_def)
  then show "usable g \<Longrightarrow> runnable free ps g" by (simp add: usable_def runnable_def)
qed

lemma new_gpu_runnable:
  assumes rng: "random_range rng" and g: "new_gpu rng c = Inr g" and "0 < cfg_num_sms c"
    and pri: "cfg_scheduler_policy c = ''Priority'' \<Longrightarrow> list_all urgent (blocks_warps ps)"
    and two: "cfg_scheduler_policy c = ''TwoLevel'' \<Longrightarrow> free \<and> 0 < cfg_active_set_size c"
  shows "runnable free ps g"
proof -
  let ?mk = "\<lambda>i. bindE (new_sm rng i c) (\<lambda>s.
    bindE (create_scheduler (cfg_scheduler_policy c) (cfg_active_set_size c)) (\<lambda>sch. Inr (set_scheduler s sch)))"
  note caches = new_gpu_caches[OF rng g]
  have sms: "mapE ?mk [0..<cfg_num_sms c] = Inr (gpu_sms g)" using g by (auto simp: new_gpu_def)
  have "keeps_busy free sch [] \<and> keeps_busy free sch (blocks_warps ps)"
    if "create_scheduler (cfg_scheduler_policy c) (cfg_active_set_size c) = Inr sch" for sch
    using that pri two by (auto simp: create_scheduler_def keeps_busy_def split: if_splits)
  then have "sm_busy free ps (clear_warps s)" if "?mk i = Inr s" for i s
    using that by (auto simp: sm_busy_def set_scheduler_def clear_warps_def)
  then have "\<forall>s \<in> set (gpu_sms g). sm_busy free ps (clear_warps s)"
    using mapE_nth[OF sms] mapE_length[OF sms] by (fastforce simp: in_set_conv_nth)
  then show ?thesis using caches assms(3) by (auto simp: runnable_def)
qed

lemma new_gpu_usable:
  assumes rng: "random_range rng" and g: "new_gpu rng c = Inr g" and "0 < cfg_num_sms c"
    and pol: "cfg_scheduler_policy c \<in> {''RR'', ''Greedy'', ''OldestFirst'', ''GTO''}"
  shows "usable (g\<lparr>gpu_global_memory := gm\<rparr>)"
proof -
  let ?mk = "\<lambda>i. bindE (new_sm rng i c) (\<lambda>s.
    bindE (create_scheduler (cfg_scheduler_policy c) (cfg_active_set_size c)) (\<lambda>sch. Inr (set_scheduler s sch)))"
  note caches = new_gpu_caches[OF rng g]
  have sms: "mapE ?mk [0..<cfg_num_sms c] = Inr (gpu_sms g)" using g by (auto simp: new_gpu_def)
  have "sm_conserving s" if "?mk i = Inr s" for i s
    using that created_conserving[OF _ pol] by (auto simp: sm_conserving_def set_scheduler_def)
  then have "\<forall>s \<in> set (gpu_sms g). sm_conserving s"
    using mapE_nth[OF sms] mapE_length[OF sms] by (fastforce simp: in_set_conv_nth)
  then show ?thesis using caches assms(3) by (auto simp: usable_def)
qed

lemma launch_total: "\<forall>b \<in> set (g_blocks gr). fits c req b \<Longrightarrow> \<exists>g1. launch_kernel g gr c req = Inr g1"
proof -
  assume "\<forall>b \<in> set (g_blocks gr). fits c req b"
  moreover have "\<forall>s \<in> set (gpu_sms g). accounts_ok (clear_warps s)" by (simp add: accounts_ok_def accounts_for_def clear_warps_def)
  ultimately obtain idx sms where "dispatch_all clear_warps c req (g_blocks gr) 0 (gpu_sms g) = Inr (idx, sms)"
    using dispatch_all_fits by blast
  then show ?thesis by (simp add: launch_kernel_def)
qed

lemma launch_warps:
  assumes "launch_kernel g gr c req = Inr g1"
  shows "all_warps g1 = mset (blocks_warps (g_blocks gr))" and "gpu_global_memory g1 = gpu_global_memory g"
    and "runnable free (g_blocks gr) g \<Longrightarrow> gpu_sms g1 \<noteq> [] \<and> (\<forall>s \<in> set (gpu_sms g1). sm_busy free (g_blocks gr) s)"
    and "gpu_pending_blocks g1 = g_blocks gr" "gpu_config g1 = c" "gpu_req g1 = req"
proof -
  obtain idx sms where d: "dispatch_all clear_warps c req (g_blocks gr) 0 (gpu_sms g) = Inr (idx, sms)"
    and g1: "g1 = g\<lparr>gpu_sms := sms, gpu_pending_blocks := g_blocks gr, gpu_current_block_idx := idx, gpu_config := c, gpu_req := req\<rparr>"
    using assms by (auto simp: launch_kernel_def)
  have "sms_warps (map clear_warps ss) = []" for ss by (simp add: sms_warps_def clear_warps_def)
  then show "all_warps g1 = mset (blocks_warps (g_blocks gr))"
    using dispatch_all_warps[OF d] by (simp add: all_warps_def g1)
  show "gpu_global_memory g1 = gpu_global_memory g" "gpu_pending_blocks g1 = g_blocks gr" "gpu_config g1 = c" "gpu_req g1 = req"
    by (simp_all add: g1)
  assume u: "runnable free (g_blocks gr) g"
  have "length sms = length (gpu_sms g)" using dispatch_all_effect[OF d] by simp
  moreover have "\<forall>s \<in> set sms. sm_busy free (g_blocks gr) s"
    by (rule dispatch_all_busy[OF d]) (use u in \<open>auto simp: runnable_def clear_warps_def\<close>)
  ultimately show "gpu_sms g1 \<noteq> [] \<and> (\<forall>s \<in> set (gpu_sms g1). sm_busy free (g_blocks gr) s)"
    using u by (auto simp: g1 runnable_def)
qed

text \<open>A step forward of the warps of an SM: work was done, or every stalled warp got closer.\<close>

definition advances :: "(warp \<Rightarrow> nat) \<Rightarrow> warp list \<Rightarrow> warp list \<Rightarrow> bool" where
  "advances f ws ws' \<longleftrightarrow> summed f ws' < summed f ws \<or> summed f ws' = summed f ws \<and> summed stall_left ws' < summed stall_left ws"

end
