(* ===== verification/Grid_Runs.thy ===== *)
theory Grid_Runs
  imports Progress
begin

text \<open>
  From one cycle of one SM to the whole run. The locale \<open>sm_kernel\<close> states what a kernel owes to
  the cycle loop: an assertion on the warps and the memories of an SM that its ticks keep while
  they make progress, that admission and release keep, and that the other SMs cannot break.
  What it proves is total correctness: a launched grid ends, with every warp in its final state.
\<close>

lemma release_admits_fewer:
  assumes P: "\<And>ws b. P ws \<Longrightarrow> P (filter (\<lambda>w. \<not> of_block b w) ws)" and "P (sm_warps s)"
  shows "P (sm_warps (release_completed_blocks s))"
proof -
  have "P (sm_warps s')" if "release_loop bs s = (kept, s')" "P (sm_warps s)" for bs kept s s'
    using that
  proof (induction bs arbitrary: s kept)
    case (Cons b bs)
    show ?case
    proof (cases "block_finished (sm_warps s) (rb_block_id b)")
      case True
      moreover have "P (sm_warps (release_block b s))" using P[OF Cons.prems(2)] by (simp add: release_block_def)
      ultimately show ?thesis using Cons.IH[of "release_block b s" kept] Cons.prems(1) by simp
    next
      case False
      then obtain kept' where "release_loop bs s = (kept', s')" using Cons.prems(1) by (auto split: prod.splits)
      then show ?thesis by (rule Cons.IH) (rule Cons.prems(2))
    qed
  qed simp
  moreover obtain kept s' where "release_loop (sm_resident_blocks s) s = (kept, s')" by fastforce
  ultimately show ?thesis using assms(2) by (simp add: release_completed_blocks_def)
qed

definition resident :: "size_t \<Rightarrow> warp list \<Rightarrow> bool" where
  "resident b ws \<longleftrightarrow> (\<exists>w \<in> set ws. of_block b w)"

lemma resident_keys: "map lane_keys ws' = map lane_keys ws \<Longrightarrow> resident b ws' = resident b ws"
proof -
  assume e: "map lane_keys ws' = map lane_keys ws"
  have "resident b ws \<longleftrightarrow> (\<exists>k \<in> set (map lane_keys ws). k \<noteq> [] \<and> fst (hd k) = b)" for ws
    by (auto simp: resident_def of_block_keys)
  then show ?thesis by (simp only: e)
qed

section \<open>The contract\<close>

locale sm_kernel =
  fixes prog :: "instruction list" and okay :: "warp list \<Rightarrow> shared_memory \<Rightarrow> global_memory \<Rightarrow> bool"
    and waiting :: "thread_block \<Rightarrow> shared_memory \<Rightarrow> global_memory \<Rightarrow> bool"
    and grows :: "global_memory \<Rightarrow> global_memory \<Rightarrow> bool"
    and works :: "warp \<Rightarrow> nat" and ended :: "warp \<Rightarrow> global_memory \<Rightarrow> bool" and free :: bool
  assumes grows_refl: "grows g g"
    and grows_trans: "grows g1 g2 \<Longrightarrow> grows g2 g3 \<Longrightarrow> grows g1 g3"
    and okay_grows: "okay ws sh g \<Longrightarrow> grows g g' \<Longrightarrow> okay ws sh g'"
    and waiting_grows: "waiting b sh g \<Longrightarrow> grows g g' \<Longrightarrow> waiting b sh g'"
    and ended_grows: "ended w g \<Longrightarrow> grows g g' \<Longrightarrow> ended w g'"
    and okay_ended: "okay ws sh g \<Longrightarrow> w \<in> set ws \<Longrightarrow> w_state w = Completed \<Longrightarrow> ended w g"
    and okay_nil: "okay [] sh g"
    and okay_release: "okay ws sh g \<Longrightarrow> okay (filter (\<lambda>w. \<not> of_block i w) ws) sh g"
    and okay_admit: "okay ws sh g \<Longrightarrow> waiting b sh g \<Longrightarrow> \<not> resident (tb_id b) ws \<Longrightarrow> okay (ws @ tb_warps b) sh g"
    and waiting_block: "waiting b sh g \<Longrightarrow> w \<in> set (tb_warps b) \<Longrightarrow> of_block (tb_id b) w"
    and ticks: "k_instructions k = prog \<Longrightarrow> \<not> is_completed s \<Longrightarrow> sm_ok s \<Longrightarrow> sm_busy free ps s \<Longrightarrow> ms_inv m \<Longrightarrow>
      okay (sm_warps s) (ms_shared m) (ms_global m) \<Longrightarrow>
      \<exists>s' m'. tick k s m = Inr (s', m') \<and> grows (ms_global m) (ms_global m') \<and> sm_busy free ps s' \<and>
        okay (sm_warps s') (ms_shared m') (ms_global m') \<and> map lane_keys (sm_warps s') = map lane_keys (sm_warps s) \<and>
        (\<forall>b. waiting b (ms_shared m) (ms_global m) \<longrightarrow> \<not> resident (tb_id b) (sm_warps s) \<longrightarrow>
           waiting b (ms_shared m') (ms_global m')) \<and>
        advances works (sm_warps s) (sm_warps s')"
begin

text \<open>An SM with the blocks that may still come to it.\<close>

definition serves :: "thread_block set \<Rightarrow> sm \<Rightarrow> global_memory \<Rightarrow> bool" where
  "serves bs s g \<longleftrightarrow> okay (sm_warps s) (sm_shared_memory s) g \<and>
     (\<forall>b \<in> bs. waiting b (sm_shared_memory s) g \<and> \<not> resident (tb_id b) (sm_warps s))"

lemma serves_grows: "serves bs s g \<Longrightarrow> grows g g' \<Longrightarrow> serves bs s g'"
  using okay_grows waiting_grows by (auto simp: serves_def)

lemma serves_release: "serves bs s g \<Longrightarrow> serves bs (release_completed_blocks s) g"
proof -
  assume s: "serves bs s g"
  have "okay (sm_warps (release_completed_blocks s)) (sm_shared_memory s) g"
    by (rule release_admits_fewer[where P = "\<lambda>ws. okay ws (sm_shared_memory s) g"])
      (use s okay_release in \<open>auto simp: serves_def\<close>)
  moreover have "resident b (sm_warps (release_completed_blocks s)) \<Longrightarrow> resident b (sm_warps s)" for b
    using release_fields(1)[of s] by (auto simp: resident_def)
  ultimately show ?thesis using s by (auto simp: serves_def release_fields(5))
qed

lemma serves_admit:
  assumes "serves bs s g" and "set bs1 \<union> bs2 \<subseteq> bs" and "distinct (map tb_id bs1)" and "tb_id ` set bs1 \<inter> tb_id ` bs2 = {}"
    and w: "sm_warps s' = sm_warps s @ concat (map tb_warps bs1)" and sh: "sm_shared_memory s' = sm_shared_memory s"
  shows "serves bs2 s' g"
proof -
  let ?sh = "sm_shared_memory s"
  have "okay (ws @ concat (map tb_warps bs1)) ?sh g \<and>
      (\<forall>i. resident i (ws @ concat (map tb_warps bs1)) \<longrightarrow> resident i ws \<or> i \<in> tb_id ` set bs1)"
    if "okay ws ?sh g" "\<forall>b \<in> set bs1. waiting b ?sh g \<and> \<not> resident (tb_id b) ws" for ws
    using that assms(3)
  proof (induction bs1 arbitrary: ws)
    case (Cons b bs1)
    have wb: "waiting b ?sh g" "\<not> resident (tb_id b) ws" using Cons.prems(2) by simp_all
    have res: "resident i ws \<or> i = tb_id b" if "resident i (ws @ tb_warps b)" for i
      using that waiting_block[OF wb(1)] by (auto simp: resident_def dest: of_block_unique)
    have 1: "okay (ws @ tb_warps b) ?sh g" using okay_admit[OF Cons.prems(1) wb] .
    have 2: "\<forall>b' \<in> set bs1. waiting b' ?sh g \<and> \<not> resident (tb_id b') (ws @ tb_warps b)"
      using Cons.prems(2,3) res by (auto simp: image_iff) metis
    have 3: "distinct (map tb_id bs1)" using Cons.prems(3) by simp
    have "okay ((ws @ tb_warps b) @ concat (map tb_warps bs1)) ?sh g \<and>
      (\<forall>i. resident i ((ws @ tb_warps b) @ concat (map tb_warps bs1)) \<longrightarrow> resident i (ws @ tb_warps b) \<or> i \<in> tb_id ` set bs1)"
      using Cons.IH[OF 1 2 3] .
    then show ?case using res by auto
  qed simp
  from this[of "sm_warps s"] show ?thesis using assms(1,2,4) unfolding serves_def w sh by blast
qed

lemma serves_dispatch:
  assumes d: "dispatch_all prep c req p idx ss = Inr (idx', ss')" and le: "idx \<le> length p"
    and dist: "distinct (map tb_id p)" and sv: "\<forall>s \<in> set ss. serves (set (drop idx p)) (prep s) g"
  shows "\<forall>s \<in> set ss'. serves (set (drop idx' p)) s g"
proof
  fix s assume "s \<in> set ss'"
  from dispatch_all_effect[OF d le] obtain bss where e: "idx \<le> idx'" "idx' \<le> length p" "length ss' = length ss"
    "length bss = length ss" "concat bss = slice p idx idx'"
    "\<forall>n < length ss. sm_warps (ss' ! n) = sm_warps (prep (ss ! n)) @ concat (map tb_warps (bss ! n)) \<and>
       sm_shared_memory (ss' ! n) = sm_shared_memory (prep (ss ! n))" by blast
  obtain n where n: "n < length ss" "s = ss' ! n" using \<open>s \<in> set ss'\<close> e(3) by (auto simp: in_set_conv_nth)
  have sl: "drop idx p = slice p idx idx' @ drop idx' p"
    using e(1,2) slice_append[of idx idx' "length p" p] by (simp add: slice_def)
  have dd: "distinct (map tb_id (concat bss @ drop idx' p))"
    unfolding e(5) sl[symmetric] drop_map[symmetric] using dist by (rule distinct_drop)
  have bn: "bss ! n \<in> set bss" using n(1) e(4) by simp
  then have sub: "set (bss ! n) \<subseteq> set (concat bss)" by auto
  have 3: "distinct (map tb_id (bss ! n))"
  proof -
    have "distinct (concat (map (map tb_id) bss))" using dd by (simp add: map_concat)
    then show ?thesis using bn unfolding distinct_concat_iff by (metis image_eqI list.set_map)
  qed
  have 4: "tb_id ` set (bss ! n) \<inter> tb_id ` set (drop idx' p) = {}" using dd sub by auto
  have 2: "set (bss ! n) \<union> set (drop idx' p) \<subseteq> set (drop idx p)" using sub unfolding sl e(5) by auto
  have 5: "sm_warps s = sm_warps (prep (ss ! n)) @ concat (map tb_warps (bss ! n))"
    "sm_shared_memory s = sm_shared_memory (prep (ss ! n))" using e(6) n by simp_all
  have 1: "serves (set (drop idx p)) (prep (ss ! n)) g" using sv n(1) by simp
  show "serves (set (drop idx' p)) s g" by (rule serves_admit[OF 1 2 3 4 5])
qed

section \<open>One cycle of the GPU\<close>

lemma tick_all_runs:
  assumes k: "k_instructions k = prog"
  shows "\<forall>s \<in> set ss. sm_good c s \<and> sm_busy free ps s \<and> serves bs s g \<Longrightarrow> cache_inv l2 \<Longrightarrow> stats_inv l2 \<Longrightarrow>
   \<exists>d ss' l2' g'. tick_all k c ss l2 g = Inr (d, ss', l2', g') \<and> grows g g' \<and>
     (\<forall>s \<in> set ss'. sm_busy free ps s \<and> serves bs s g') \<and>
     map lane_keys (sms_warps ss') = map lane_keys (sms_warps ss) \<and>
     (if d then ss' = ss else advances works (sms_warps ss) (sms_warps ss'))"
proof (induction ss arbitrary: l2 g)
  case Nil
  then show ?case using grows_refl by (intro exI[of _ True]) simp
next
  case (Cons s ss)
  have split: "sms_warps (s # ss) = sm_warps s @ sms_warps ss" for s and ss by (simp add: sms_warps_def)
  show ?case
  proof (cases "is_completed s")
    case True
    obtain d ss' l2' g' where ih: "tick_all k c ss l2 g = Inr (d, ss', l2', g')" "grows g g'"
      "\<forall>s \<in> set ss'. sm_busy free ps s \<and> serves bs s g'" "map lane_keys (sms_warps ss') = map lane_keys (sms_warps ss)"
      "if d then ss' = ss else advances works (sms_warps ss) (sms_warps ss')"
      using Cons.IH[OF _ Cons.prems(2,3)] Cons.prems(1) by (metis list.set_intros(2))
    have "serves bs s g'" using Cons.prems(1) serves_grows ih(2) by auto
    then show ?thesis using True ih Cons.prems(1)
      by (intro exI[of _ d] exI[of _ "s # ss'"] exI[of _ l2'] exI[of _ g']) (auto simp: split advances_def)
  next
    case False
    let ?m = "memory_of c s l2 g"
    have gs: "sm_good c s" "sm_busy free ps s" "serves bs s g" using Cons.prems(1) by simp_all
    have mg: "ms_global ?m = g" "ms_shared ?m = sm_shared_memory s" by (simp_all add: memory_of_def)
    have minv: "ms_inv ?m" "sm_ok s" using gs(1) Cons.prems(2,3) by (simp_all add: memory_of_def ms_inv_def sm_good_def)
    from ticks[OF k False minv(2) gs(2) minv(1)] gs(3) obtain s1 m1 where t: "tick k s ?m = Inr (s1, m1)"
      "grows g (ms_global m1)" "sm_busy free ps s1" "okay (sm_warps s1) (ms_shared m1) (ms_global m1)"
      "map lane_keys (sm_warps s1) = map lane_keys (sm_warps s)"
      "\<forall>b. waiting b (sm_shared_memory s) g \<longrightarrow> \<not> resident (tb_id b) (sm_warps s) \<longrightarrow> waiting b (ms_shared m1) (ms_global m1)"
      "advances works (sm_warps s) (sm_warps s1)" unfolding mg by (auto simp: serves_def)
    let ?s2 = "s1\<lparr>sm_l1_cache := ms_l1 m1, sm_shared_memory := ms_shared m1\<rparr>"
    have ts: "tick_sm k c s l2 g = Inr (?s2, ms_l2 m1, ms_global m1)" using t(1) by (simp add: tick_sm_def)
    note g1 = tick_sm_good[OF gs(1) False Cons.prems(2,3) ts]
    have s2: "serves bs ?s2 (ms_global m1)" using gs(3) t(4,6) resident_keys[OF t(5)] by (auto simp: serves_def)
    have "\<forall>s \<in> set ss. sm_good c s \<and> sm_busy free ps s \<and> serves bs s (ms_global m1)"
      using Cons.prems(1) serves_grows[OF _ t(2)] by simp
    from Cons.IH[OF this] g1 obtain d ss' l2' g' where ih: "tick_all k c ss (ms_l2 m1) (ms_global m1) = Inr (d, ss', l2', g')"
      "grows (ms_global m1) g'" "\<forall>s \<in> set ss'. sm_busy free ps s \<and> serves bs s g'"
      "map lane_keys (sms_warps ss') = map lane_keys (sms_warps ss)"
      "if d then ss' = ss else advances works (sms_warps ss) (sms_warps ss')" by blast
    have "tick_all k c (s # ss) l2 g = Inr (False, ?s2 # ss', l2', g')" using False ts ih(1) by simp
    moreover have "grows g g'" using grows_trans[OF t(2) ih(2)] .
    moreover have "sm_busy free ps ?s2" using t(3) by (simp add: sm_busy_def split: option.splits)
    moreover have "serves bs ?s2 g'" using serves_grows[OF s2 ih(2)] .
    moreover have "advances works (sms_warps (s # ss)) (sms_warps (?s2 # ss'))"
      using t(7) ih(5) by (auto simp: split advances_def split: if_splits)
    ultimately show ?thesis using ih(3,4) t(5)
      by (intro exI[of _ False] exI[of _ "?s2 # ss'"] exI[of _ l2'] exI[of _ g']) (simp add: split)
  qed
qed

end

section \<open>The whole run\<close>

context sm_kernel begin

text \<open>What holds of a GPU between two cycles.\<close>

definition ready_to_run :: "gpu \<Rightarrow> bool" where
  "ready_to_run g \<longleftrightarrow> gpu_inv g \<and> gpu_sms g \<noteq> [] \<and> fresh_blocks (gpu_pending_blocks g) \<and>
     (\<forall>b \<in> set (gpu_pending_blocks g). fits (gpu_config g) (gpu_req g) b) \<and> distinct (map tb_id (gpu_pending_blocks g)) \<and>
     (\<forall>s \<in> set (gpu_sms g). sm_busy free (gpu_pending_blocks g) s \<and>
        serves (set (drop (gpu_current_block_idx g) (gpu_pending_blocks g))) s (gpu_global_memory g))"

text \<open>A warp that has come to its end.\<close>

definition reached :: "global_memory \<Rightarrow> (nat \<times> nat) list \<Rightarrow> bool" where
  "reached g i \<longleftrightarrow> (\<exists>w. lane_keys w = i \<and> ended w g)"

lemma reached_grows: "reached g i \<Longrightarrow> grows g g' \<Longrightarrow> reached g' i"
  unfolding reached_def using ended_grows by blast

definition rank :: "gpu \<Rightarrow> nat \<times> nat" where
  "rank g = (sum_mset (image_mset works (all_warps g)), sum_mset (image_mset stall_left (all_warps g)))"

lemma cycle_runs:
  assumes k: "k_instructions k = prog" and rdy: "ready_to_run g"
  shows "\<exists>d g'. gpu_cycle k g = Inr (d, g') \<and> ready_to_run g' \<and> grows (gpu_global_memory g) (gpu_global_memory g') \<and>
    (\<forall>w \<in># all_warps g. reached (gpu_global_memory g') (lane_keys w) \<or> lane_keys w \<in> lane_keys ` set_mset (all_warps g')) \<and>
    (d \<or> (rank g', rank g) \<in> less_than <*lex*> less_than)"
proof -
  let ?c = "gpu_config g" and ?p = "gpu_pending_blocks g" and ?i = "gpu_current_block_idx g" and ?gm = "gpu_global_memory g"
  have inv: "gpu_inv g" and ft: "\<forall>b \<in> set ?p. fits ?c (gpu_req g) b" and dist: "distinct (map tb_id ?p)"
    and sms: "\<forall>s \<in> set (gpu_sms g). sm_busy free ?p s \<and> serves (set (drop ?i ?p)) s ?gm"
    using rdy by (simp_all add: ready_to_run_def)
  then have le: "?i \<le> length ?p" "blocks_ok ?p" and l2: "cache_inv (gpu_l2_cache g)" "stats_inv (gpu_l2_cache g)"
    by (simp_all add: gpu_inv_def)
  have rg: "\<forall>s \<in> set (gpu_sms g). sm_good ?c (release_completed_blocks s)" using inv release_good by (simp add: gpu_inv_def)
  then have "\<forall>s \<in> set (gpu_sms g). accounts_ok (release_completed_blocks s)" by (simp add: sm_good_def)
  from dispatch_all_fits[OF this ft] obtain idx sms where
    1: "dispatch_all release_completed_blocks ?c (gpu_req g) ?p ?i (gpu_sms g) = Inr (idx, sms)" by blast
  note dw = dispatch_all_warps[OF 1 le(1)]
  let ?rel = "mset (sms_warps (map release_completed_blocks (gpu_sms g)))" and ?wait = "mset (blocks_warps (drop ?i ?p))"
    and ?wait' = "mset (blocks_warps (drop idx ?p))"
  have sub: "mset (sms_warps sms) + ?wait' \<subseteq># all_warps g"
    unfolding dw all_warps_def using release_subset by simp
  have "\<forall>s \<in> set (gpu_sms g). sm_busy free ?p (release_completed_blocks s)" using sms release_busy by blast
  from dispatch_all_busy[OF 1 le(1) release_fields(6) this] dispatch_all_good[OF 1 le rg]
    serves_dispatch[OF 1 le(1) dist] sms serves_release
  have good: "\<forall>s \<in> set sms. sm_good ?c s \<and> sm_busy free ?p s \<and> serves (set (drop idx ?p)) s ?gm" by blast
  from tick_all_runs[OF k good l2] obtain d sms' l2' gm' where 2: "tick_all k ?c sms (gpu_l2_cache g) ?gm = Inr (d, sms', l2', gm')"
    "grows ?gm gm'" "\<forall>s \<in> set sms'. sm_busy free ?p s \<and> serves (set (drop idx ?p)) s gm'"
    "map lane_keys (sms_warps sms') = map lane_keys (sms_warps sms)"
    "if d then sms' = sms else advances works (sms_warps sms) (sms_warps sms')" by blast
  define g' where "g' = g\<lparr>gpu_sms := sms', gpu_l2_cache := l2', gpu_global_memory := gm', gpu_current_block_idx := idx\<rparr>"
  have cyc: "gpu_cycle k g = Inr (d, g')" by (simp add: gpu_cycle_def 1 2(1) g'_def)
  note ci = gpu_cycle_inv[OF inv cyc]
  have all': "all_warps g' = mset (sms_warps sms') + ?wait'" by (simp add: all_warps_def g'_def)
  have "ready_to_run g'" using rdy ci 2(3) by (auto simp: ready_to_run_def g'_def)
  moreover have "reached gm' (lane_keys w) \<or> lane_keys w \<in> lane_keys ` set_mset (all_warps g')" if "w \<in># all_warps g" for w
  proof -
    have eq: "lane_keys ` set (sms_warps sms') = lane_keys ` set (sms_warps sms)"
      using arg_cong[OF 2(4), of set] by simp
    have mem: "set_mset ?rel \<union> set_mset ?wait = set (sms_warps sms) \<union> set_mset ?wait'"
      using arg_cong[OF dw, of set_mset] by auto
    have img: "lane_keys ` set_mset (all_warps g') = lane_keys ` (set (sms_warps sms) \<union> set_mset ?wait')"
      by (simp add: all' image_Un eq)
    have "w \<in># ?wait \<or> (\<exists>s \<in> set (gpu_sms g). w \<in> set (sm_warps s))" using that by (auto simp: all_warps_def sms_warps_def)
    then consider (left) "w \<in># ?rel \<or> w \<in># ?wait" | (gone) s where "s \<in> set (gpu_sms g)" "w \<in> set (sm_warps s)" "w \<notin># ?rel"
      by blast
    then show ?thesis
    proof cases
      case gone
      then have "w \<notin> set (sm_warps (release_completed_blocks s))" by (auto simp: sms_warps_def)
      then have "w_state w = Completed" using release_fields(2)[OF gone(2)] by blast
      moreover have "okay (sm_warps s) (sm_shared_memory s) ?gm" using sms gone(1) by (simp add: serves_def)
      ultimately have "ended w ?gm" using okay_ended gone(2) by blast
      then have "reached ?gm (lane_keys w)" by (auto simp: reached_def)
      then show ?thesis using reached_grows 2(2) by blast
    next
      case left
      then have "w \<in> set (sms_warps sms) \<union> set_mset ?wait'" using mem by blast
      then show ?thesis unfolding img by blast
    qed
  qed
  moreover have "(rank g', rank g) \<in> less_than <*lex*> less_than" if "\<not> d"
  proof -
    let ?W = "\<lambda>f. summed f (sms_warps sms) + sum_mset (image_mset f ?wait')"
    have le: "?W f \<le> sum_mset (image_mset f (all_warps g))" for f
      using sum_subset_mset[OF sub, of f] by (simp add: summed_mset)
    have e: "sum_mset (image_mset f (all_warps g')) = summed f (sms_warps sms') + sum_mset (image_mset f ?wait')" for f
      by (simp add: all' summed_mset)
    show ?thesis using 2(5) that le[of works] le[of stall_left] by (auto simp: rank_def e advances_def)
  qed
  moreover have "gpu_global_memory g' = gm'" by (simp add: g'_def)
  ultimately show ?thesis using cyc 2(2) by blast
qed

text \<open>Total correctness.\<close>

lemma cycles_run:
  assumes k: "k_instructions k = prog" and "ready_to_run g"
  shows "\<exists>n g'. run_cycles n k g = Some (Inr g') \<and> grows (gpu_global_memory g) (gpu_global_memory g') \<and>
    (\<forall>w \<in># all_warps g. reached (gpu_global_memory g') (lane_keys w))"
  using assms(2)
proof (induction "rank g" arbitrary: g rule: wf_induct_rule[OF wf_lex_prod[OF wf_less_than wf_less_than]])
  case (1 g)
  from cycle_runs[OF k 1(2)] obtain d g1 where c: "gpu_cycle k g = Inr (d, g1)" "ready_to_run g1"
    "grows (gpu_global_memory g) (gpu_global_memory g1)"
    "\<forall>w \<in># all_warps g. reached (gpu_global_memory g1) (lane_keys w) \<or> lane_keys w \<in> lane_keys ` set_mset (all_warps g1)"
    "d \<or> (rank g1, rank g) \<in> less_than <*lex*> less_than" by blast
  show ?case
  proof (cases d)
    case True
    then have run: "run_cycles (Suc 0) k g = Some (Inr g1)" using c(1) by simp
    have "gpu_inv g" "gpu_sms g \<noteq> []" "fresh_blocks (gpu_pending_blocks g)" using 1(2) by (simp_all add: ready_to_run_def)
    from run_cycles_done[OF run this] gpu_cycle_inv[OF this(1) c(1)]
    have all: "gpu_current_block_idx g1 = length (gpu_pending_blocks g1)"
      "\<forall>s \<in> set (gpu_sms g1). \<forall>w \<in> set (sm_warps s). w_state w = Completed" by simp_all
    have "ended w (gpu_global_memory g1)" if "w \<in># all_warps g1" for w
    proof -
      obtain s where "s \<in> set (gpu_sms g1)" "w \<in> set (sm_warps s)"
        using \<open>w \<in># all_warps g1\<close> all(1) by (auto simp: all_warps_def blocks_warps_def sms_warps_def)
      moreover from this c(2) have "okay (sm_warps s) (sm_shared_memory s) (gpu_global_memory g1)"
        by (simp add: ready_to_run_def serves_def)
      ultimately show ?thesis using okay_ended all(2) by blast
    qed
    then have "\<forall>w \<in># all_warps g1. reached (gpu_global_memory g1) (lane_keys w)" by (auto simp: reached_def)
    then have "\<forall>w \<in># all_warps g. reached (gpu_global_memory g1) (lane_keys w)" using c(4) by fastforce
    then show ?thesis using run c(3) by blast
  next
    case False
    then have "(rank g1, rank g) \<in> less_than <*lex*> less_than" using c(5) by blast
    from 1(1)[OF this c(2)] obtain n g' where r: "run_cycles n k g1 = Some (Inr g')"
      "grows (gpu_global_memory g1) (gpu_global_memory g')"
      "\<forall>w \<in># all_warps g1. reached (gpu_global_memory g') (lane_keys w)" by blast
    have "run_cycles (Suc n) k g = Some (Inr g')" using c(1) False r(1) by simp
    moreover have "reached (gpu_global_memory g') (lane_keys w)" if "w \<in># all_warps g" for w
      using c(4) that reached_grows[OF _ r(2)] r(3) by (metis (no_types, lifting) imageE)
    ultimately show ?thesis using grows_trans[OF c(3) r(2)] by blast
  qed
qed

lemma launched_runs:
  assumes k: "k_instructions k = prog" and u: "runnable free (g_blocks gr) g" and ok: "blocks_ok (g_blocks gr)" "fresh_blocks (g_blocks gr)"
    and ft: "\<forall>b \<in> set (g_blocks gr). fits c req b" and dist: "distinct (map tb_id (g_blocks gr))"
    and start: "\<forall>b \<in> set (g_blocks gr). \<forall>s \<in> set (gpu_sms g). waiting b (sm_shared_memory s) (gpu_global_memory g)"
  shows "\<exists>g1 g2. launch_kernel g gr c req = Inr g1 \<and> run_to_completion k g1 = Some (Inr g2) \<and>
    grows (gpu_global_memory g) (gpu_global_memory g2) \<and>
    (\<forall>w \<in> set (blocks_warps (g_blocks gr)). reached (gpu_global_memory g2) (lane_keys w))"
proof -
  obtain g1 where l: "launch_kernel g gr c req = Inr g1" using launch_total[OF ft] by blast
  note lw = launch_warps[OF l]
  obtain idx sms where d: "dispatch_all clear_warps c req (g_blocks gr) 0 (gpu_sms g) = Inr (idx, sms)"
    and g1: "gpu_sms g1 = sms" "gpu_current_block_idx g1 = idx" using l by (auto simp: launch_kernel_def)
  have "\<forall>s \<in> set (gpu_sms g). serves (set (drop 0 (g_blocks gr))) (clear_warps s) (gpu_global_memory g)"
    using start okay_nil by (simp add: serves_def clear_warps_def resident_def)
  from serves_dispatch[OF d _ dist this]
  have sv: "\<forall>s \<in> set sms. serves (set (drop idx (g_blocks gr))) s (gpu_global_memory g)" by simp
  have "gpu_inv g1" using launch_kernel_inv[OF l ok(1)] u by (simp add: runnable_def)
  then have "ready_to_run g1" using lw(3)[OF u] ok(2) ft dist sv by (simp add: ready_to_run_def lw(2,4,5,6) g1)
  from cycles_run[OF k this] obtain n g2 where "run_cycles n k g1 = Some (Inr g2)"
    "grows (gpu_global_memory g1) (gpu_global_memory g2)" "\<forall>w \<in># all_warps g1. reached (gpu_global_memory g2) (lane_keys w)" by blast
  then show ?thesis using l run_cycles_sound by (auto simp: lw(1,2))
qed

end

end
