(* ===== verification/Lane_Steps.thy ===== *)
theory Lane_Steps
  imports Executor_Props
begin

text \<open>
  A data instruction of a warp, seen as its active lanes running one after the other: what a lane
  does to its registers and to the address space of its SM. The lock-step execution of the warp
  is that sequence, as long as the lanes stay within one of the two memories.
\<close>

text \<open>The address space of an SM, the shared memory above the global one.\<close>

type_synonym view = "size_t \<Rightarrow> c_int result"

text \<open>An atomic addition to a word.\<close>

definition add_word :: "view \<Rightarrow> size_t \<times> c_int \<Rightarrow> view result" where
  "add_word M p = (let (a, v) = p in bindE (M a) (\<lambda>x. bindE (c_add x v) (\<lambda>s. Inr (M(a := Inr s)))))"

lemma add_word_Inr: "add_word M (a, v) = Inr M' \<longleftrightarrow> (\<exists>x s. M a = Inr x \<and> c_add x v = Inr s \<and> M' = M(a := Inr s))"
  by (auto simp: add_word_def)

definition lane_step :: "instruction \<Rightarrow> view \<Rightarrow> thread \<Rightarrow> (thread \<times> view) result" where
  "lane_step inst M t =
     (if inst_opcode inst = LOAD
      then bindE (lane_address (inst_src1 inst) inst t) (\<lambda>a. bindE (M a) (\<lambda>v.
           bindE (write_reg t (inst_dst inst) v) (\<lambda>t'. Inr (t', M))))
      else if inst_opcode inst = STORE
      then bindE (lane_store inst t) (\<lambda>(a, v). bindE (M a) (\<lambda>_. Inr (t, M(a := Inr v))))
      else if inst_opcode inst = ATOMIC_ADD
      then bindE (lane_store inst t) (\<lambda>p. bindE (add_word M p) (\<lambda>M'. Inr (t, M')))
      else bindE (lane_op inst t) (\<lambda>t'. Inr (t', M)))"

fun run_lanes :: "instruction \<Rightarrow> nat list \<Rightarrow> thread list \<Rightarrow> view \<Rightarrow> (thread list \<times> view) result" where
  "run_lanes inst [] ts M = Inr (ts, M)"
| "run_lanes inst (i # is) ts M = bindE (lane_step inst M (ts ! i)) (\<lambda>(t, M'). run_lanes inst is (ts[i := t]) M')"

definition lanewise_opcode :: "opcode \<Rightarrow> bool" where
  "lanewise_opcode oc \<longleftrightarrow> oc \<in> {ADD, SUB, MUL, MOV, CMP, LOAD, STORE, ATOMIC_ADD}"

text \<open>The address a lane touches, and lanes that touch one of the memories only.\<close>

definition touched :: "instruction \<Rightarrow> thread \<Rightarrow> size_t result" where
  "touched inst t = lane_address (if inst_opcode inst = LOAD then inst_src1 inst else inst_src2 inst) inst t"

definition one_space :: "instruction \<Rightarrow> thread set \<Rightarrow> bool" where
  "one_space inst ts \<longleftrightarrow> (inst_opcode inst \<in> {LOAD, STORE, ATOMIC_ADD} \<longrightarrow>
     (\<forall>t1 \<in> ts. \<forall>t2 \<in> ts. \<forall>a1 a2. touched inst t1 = Inr a1 \<longrightarrow> touched inst t2 = Inr a2 \<longrightarrow>
        (a1 < SHARED_MEM_BASE \<longleftrightarrow> a2 < SHARED_MEM_BASE)))"

section \<open>The sequence of lanes\<close>

definition put :: "(size_t \<times> c_int) list \<Rightarrow> view \<Rightarrow> view" where
  "put avs M = fold (\<lambda>(a, v) M. M(a := Inr v)) avs M"

lemma put_last_value: "put avs M b = (case last_value avs b of Some v \<Rightarrow> Inr v | None \<Rightarrow> M b)"
  by (induction avs arbitrary: M) (auto simp: put_def last_value_simps split: option.splits)

lemma run_lanes_registers:
  assumes "inst_opcode inst \<notin> {STORE, ATOMIC_ADD}" and "distinct is" and "\<forall>i \<in> set is. i < length ts" and "run_lanes inst is ts M = Inr (ts', M')"
  shows "M' = M \<and> length ts' = length ts \<and>
    (\<forall>i < length ts. if i \<in> set is then lane_step inst M (ts ! i) = Inr (ts' ! i, M) else ts' ! i = ts ! i)"
  using assms(2-)
proof (induction "is" arbitrary: ts)
  case (Cons i "is")
  obtain t where t: "lane_step inst M (ts ! i) = Inr (t, M)" "run_lanes inst is (ts[i := t]) M = Inr (ts', M')"
    using Cons.prems(3) assms(1) by (auto simp: lane_step_def split: if_splits)
  have "M' = M \<and> length ts' = length (ts[i := t]) \<and> (\<forall>j < length (ts[i := t]).
      if j \<in> set is then lane_step inst M (ts[i := t] ! j) = Inr (ts' ! j, M) else ts' ! j = ts[i := t] ! j)"
    using Cons.IH[OF _ _ t(2)] Cons.prems(1,2) by simp
  then have ih: "M' = M" "length ts' = length ts" "\<And>j. j < length ts \<Longrightarrow>
      if j \<in> set is then lane_step inst M (ts[i := t] ! j) = Inr (ts' ! j, M) else ts' ! j = ts[i := t] ! j" by auto
  have "if j \<in> set (i # is) then lane_step inst M (ts ! j) = Inr (ts' ! j, M) else ts' ! j = ts ! j" if "j < length ts" for j
    using ih(3)[OF that] t(1) Cons.prems(1,2) that by (cases "j = i") auto
  then show ?case using ih(1,2) by blast
qed simp

lemma run_lanes_store:
  assumes "inst_opcode inst = STORE" and "run_lanes inst is ts M = Inr (ts', M')"
  shows "\<exists>avs. ts' = ts \<and> list_all2 (\<lambda>i av. lane_store inst (ts ! i) = Inr av) is avs \<and> M' = put avs M \<and>
    (\<forall>a \<in> fst ` set avs. \<exists>v. M a = Inr v)"
  using assms(2)
proof (induction "is" arbitrary: M)
  case Nil
  then show ?case by (intro exI[of _ "[]"]) (simp add: put_def)
next
  case (Cons i "is")
  obtain a v x where s: "lane_store inst (ts ! i) = Inr (a, v)" "M a = Inr x"
    "run_lanes inst is (ts[i := ts ! i]) (M(a := Inr v)) = Inr (ts', M')"
    using Cons.prems assms(1) by (auto simp: lane_step_def)
  from s(3) have "run_lanes inst is ts (M(a := Inr v)) = Inr (ts', M')" by simp
  from Cons.IH[OF this] obtain avs where avs: "ts' = ts" "list_all2 (\<lambda>i av. lane_store inst (ts ! i) = Inr av) is avs"
    "M' = put avs (M(a := Inr v))" "\<forall>b \<in> fst ` set avs. \<exists>x. (M(a := Inr v)) b = Inr x" by blast
  have "\<exists>x. M b = Inr x" if "b \<in> fst ` set ((a, v) # avs)" for b
    using avs(4) s(2) that by (cases "b = a") auto
  then show ?case using avs(1-3) s(1) by (intro exI[of _ "(a, v) # avs"]) (simp add: put_def)
qed

lemma run_lanes_atomic:
  assumes "inst_opcode inst = ATOMIC_ADD" and "run_lanes inst is ts M = Inr (ts', M')"
  shows "\<exists>avs. ts' = ts \<and> list_all2 (\<lambda>i av. lane_store inst (ts ! i) = Inr av) is avs \<and> foldE add_word M avs = Inr M'"
  using assms(2)
proof (induction "is" arbitrary: M)
  case Nil
  then show ?case by (intro exI[of _ "[]"]) simp
next
  case (Cons i "is")
  obtain p M1 where s: "lane_store inst (ts ! i) = Inr p" "add_word M p = Inr M1"
    "run_lanes inst is (ts[i := ts ! i]) M1 = Inr (ts', M')"
    using Cons.prems assms(1) by (auto simp: lane_step_def)
  from s(3) have "run_lanes inst is ts M1 = Inr (ts', M')" by simp
  from Cons.IH[OF this] obtain avs where "ts' = ts" "list_all2 (\<lambda>i av. lane_store inst (ts ! i) = Inr av) is avs"
    "foldE add_word M1 avs = Inr M'" by blast
  then show ?case using s(1,2) by (intro exI[of _ "p # avs"]) simp
qed

section \<open>Atomic additions of a warp\<close>

lemma shared_atomics:
  assumes "foldE add_word (word_at m) avs = Inr M" and "\<forall>a \<in> fst ` set avs. a \<ge> SHARED_MEM_BASE"
  shows "\<exists>s. atomic_each shm_load shm_store (ms_shared m) (local_pairs avs) = Inr s \<and> word_at (m\<lparr>ms_shared := s\<rparr>) = M"
  using assms
proof (induction avs arbitrary: m)
  case Nil
  then show ?case by (simp add: atomic_each_def local_pairs_def)
next
  case (Cons p avs)
  obtain a v where p: "p = (a, v)" by (cases p)
  then have a: "a \<ge> SHARED_MEM_BASE" using Cons.prems(2) by simp
  obtain x y where x: "word_at m a = Inr x" "c_add x v = Inr y" "foldE add_word ((word_at m)(a := Inr y)) avs = Inr M"
    using Cons.prems(1) by (auto simp: p add_word_Inr)
  then have ld: "shm_load (ms_shared m) (a - SHARED_MEM_BASE) = Inr x" using a by (simp add: word_at_def)
  obtain s1 where s1: "shm_store (ms_shared m) (a - SHARED_MEM_BASE) y = Inr s1" using shar.wr_in shar.rd_InrD[OF ld] by blast
  have "word_at (m\<lparr>ms_shared := s1\<rparr>) = (word_at m)(a := Inr y)"
  proof
    fix b show "word_at (m\<lparr>ms_shared := s1\<rparr>) b = ((word_at m)(a := Inr y)) b"
      using shar.rd_wr[OF s1, of "b - SHARED_MEM_BASE"] a by (auto simp: word_at_def)
  qed
  then have "foldE add_word (word_at (m\<lparr>ms_shared := s1\<rparr>)) avs = Inr M" using x(3) by simp
  from Cons.IH[OF this] Cons.prems(2) ld x(2) s1 show ?case by (auto simp: p atomic_each_def local_pairs_def)
qed

lemma global_atomics:
  assumes "foldE add_word (word_at m) avs = Inr M" and "\<forall>a \<in> fst ` set avs. \<not> a \<ge> SHARED_MEM_BASE"
  shows "\<exists>g. atomic_each gm_load gm_store (ms_global m) avs = Inr g \<and> word_at (m\<lparr>ms_global := g\<rparr>) = M"
  using assms
proof (induction avs arbitrary: m)
  case Nil
  then show ?case by (simp add: atomic_each_def)
next
  case (Cons p avs)
  obtain a v where p: "p = (a, v)" by (cases p)
  then have a: "\<not> a \<ge> SHARED_MEM_BASE" using Cons.prems(2) by simp
  obtain x y where x: "word_at m a = Inr x" "c_add x v = Inr y" "foldE add_word ((word_at m)(a := Inr y)) avs = Inr M"
    using Cons.prems(1) by (auto simp: p add_word_Inr)
  then have ld: "gm_load (ms_global m) a = Inr x" using a by (simp add: word_at_def)
  obtain g1 where g1: "gm_store (ms_global m) a y = Inr g1" using glob.wr_in glob.rd_InrD[OF ld] by blast
  have "word_at (m\<lparr>ms_global := g1\<rparr>) = (word_at m)(a := Inr y)"
  proof
    fix b show "word_at (m\<lparr>ms_global := g1\<rparr>) b = ((word_at m)(a := Inr y)) b"
      using glob.rd_wr[OF g1, of b] a by (auto simp: word_at_def)
  qed
  then have "foldE add_word (word_at (m\<lparr>ms_global := g1\<rparr>)) avs = Inr M" using x(3) by simp
  from Cons.IH[OF this] Cons.prems(2) ld x(2) g1 show ?case by (auto simp: p atomic_each_def)
qed

lemma warp_atomics:
  assumes inv: "ms_inv m" and sp: "map fst avs = [] \<or> \<not> mixed_spaces (map fst avs)" and run: "foldE add_word (word_at m) avs = Inr M"
  shows "\<exists>r m'. warp_atomic_add m (map fst avs) (map snd avs) = Inr (r, m') \<and> word_at m' = M"
proof -
  let ?ads = "map fst avs"
  have w: "with_values ?ads (map snd avs) = Inr avs" by (simp add: with_values_def zip_map_fst_snd)
  consider (empty) "?ads = []"
    | (shared) "?ads \<noteq> []" "\<not> mixed_spaces ?ads" "?ads ! 0 \<ge> SHARED_MEM_BASE"
    | (glob) "?ads \<noteq> []" "\<not> mixed_spaces ?ads" "\<not> ?ads ! 0 \<ge> SHARED_MEM_BASE" using sp by blast
  then show ?thesis
  proof cases
    case empty
    then show ?thesis using run by (simp add: warp_atomic_add_def)
  next
    case shared
    then have "\<forall>a \<in> fst ` set avs. a \<ge> SHARED_MEM_BASE" using same_space[OF shared(1,2)] by (metis list.set_map)
    from shared_atomics[OF run this] shared w show ?thesis by (auto simp: warp_atomic_add_def shared_atomic_loop)
  next
    case glob
    then have sp: "\<forall>a \<in> fst ` set avs. \<not> a \<ge> SHARED_MEM_BASE" using same_space[OF glob(1,2)] by (metis list.set_map)
    obtain mx d m1 where t: "run_transactions write_latency m (coalesce ?ads (get_l1_line_size m)) = Inr (mx, d, m1)"
      using wr_path.run_transactions_total[OF inv] by blast
    have "word_at m1 = word_at m" using same_data_word_at wr_path.run_transactions_inv(2)[OF inv t] by blast
    then have "foldE add_word (word_at m1) avs = Inr M" using run by simp
    from global_atomics[OF this sp] glob t w show ?thesis by (auto simp: warp_atomic_add_def Let_def)
  qed
qed

section \<open>Gathering\<close>

lemma gather_masked:
  assumes len: "length ts \<le> 32" and xs: "list_all2 (\<lambda>i x. f (ts ! i) = Inr x) (active_lanes m ts) xs"
  shows "gather m f ts = Inr (zip (active_lanes m ts) xs)"
proof -
  have "length xs = length (active_lanes m ts)" using xs by (auto dest: list_all2_lengthD)
  moreover have "\<forall>(i, x) \<in> set (zip (active_lanes m ts) xs). f (ts ! i) = Inr x"
    using xs by (auto simp: in_set_zip list_all2_conv_all_nth)
  ultimately show ?thesis unfolding gather_Inr[OF len] by simp
qed

lemma write_back_total:
  assumes "\<forall>i \<in> fst ` set ivs. i < length ts \<and> int_to_size (inst_dst inst) < length (rf_registers (t_registers (ts ! i)))"
  shows "\<exists>ts'. write_back inst ivs ts = Inr ts'"
  using assms
proof (induction ivs arbitrary: ts)
  case (Cons p ivs)
  obtain i v where p: "p = (i, v)" by (cases p)
  then obtain t where t: "write_reg (ts ! i) (inst_dst inst) v = Inr t" "same_identity (ts ! i) t"
    using Cons.prems write_reg_identity by (fastforce simp: write_reg_def reg_write_def)
  have "\<forall>j \<in> fst ` set ivs. j < length (ts[i := t]) \<and>
      int_to_size (inst_dst inst) < length (rf_registers (t_registers (ts[i := t] ! j)))"
    using Cons.prems t(2) p by (auto simp: nth_list_update same_identity_def)
  from Cons.IH[OF this] show ?case using t(1) p by (simp add: write_back_def)
qed (simp add: write_back_def)

lemma not_mixed:
  assumes "\<forall>a \<in> set addrs. \<forall>b \<in> set addrs. a < SHARED_MEM_BASE \<longleftrightarrow> b < SHARED_MEM_BASE"
  shows "addrs = [] \<or> \<not> mixed_spaces addrs"
proof (cases addrs)
  case (Cons a as)
  have "(x \<ge> SHARED_MEM_BASE) = (addrs ! 0 \<ge> SHARED_MEM_BASE)" if "x \<in> set addrs" for x
    using assms that Cons by (auto simp: not_less[symmetric])
  then show ?thesis unfolding mixed_spaces_def list_ex_iff by blast
qed simp

section \<open>The kinds of data instruction\<close>

lemma masked_alu:
  assumes len: "length (w_threads w) \<le> 32" and oc: "inst_opcode inst \<in> {ADD, SUB, MUL, MOV, CMP}"
    and run: "run_lanes inst (active_lanes (w_active_mask w) (w_threads w)) (w_threads w) (word_at m) = Inr (ts, M)"
  shows "\<exists>r w' m'. execute inst w m = Inr (r, w', m') \<and> er_status r = ExecCompleted \<and>
    w_threads w' = shadow (w_active_mask w) (size_add (w_pc w) 1) ts \<and> word_at m' = M"
proof -
  let ?k = "w_active_mask w"
  have st: "M = word_at m" "length ts = length (w_threads w)"
    "\<forall>i < length (w_threads w). if i \<in> set (active_lanes ?k (w_threads w))
       then lane_step inst (word_at m) (w_threads w ! i) = Inr (ts ! i, word_at m) else ts ! i = w_threads w ! i"
    using run_lanes_registers[OF _ active_lanes_props(1) _ run] oc by (auto simp: active_lanes_props)
  have "each_active ?k (lane_op inst) (w_threads w) = Inr ts"
    unfolding each_active_Inr[OF len] using st(2,3) oc by (fastforce simp: active_lanes_props lane_step_def)
  moreover have "length (w_threads (w\<lparr>w_threads := ts\<rparr>)) \<le> 32" using st(2) len by simp
  ultimately have "exec_lanes inst w = Inr (plain_result ExecCompleted,
      w\<lparr>w_pc := size_add (w_pc w) 1, w_threads := shadow ?k (size_add (w_pc w) 1) ts\<rparr>)"
    by (simp add: exec_lanes_def move_to_eq)
  then show ?thesis using oc st(1) by (auto simp: execute_def Let_def keep_memory_def plain_result_def)
qed

lemma masked_load:
  assumes len: "length (w_threads w) \<le> 32" and oc: "inst_opcode inst = LOAD" and minv: "ms_inv m"
    and run: "run_lanes inst (active_lanes (w_active_mask w) (w_threads w)) (w_threads w) (word_at m) = Inr (ts, M)"
    and sp: "one_space inst ((!) (w_threads w) ` set (active_lanes (w_active_mask w) (w_threads w)))"
  shows "\<exists>r w' m'. execute inst w m = Inr (r, w', m') \<and> er_status r = ExecCompleted \<and>
    w_threads w' = shadow (w_active_mask w) (size_add (w_pc w) 1) ts \<and> word_at m' = M"
proof -
  let ?k = "w_active_mask w" and ?T = "w_threads w"
  let ?I = "active_lanes ?k ?T"
  have ne: "inst_opcode inst \<notin> {STORE, ATOMIC_ADD}" using oc by simp
  have st: "M = word_at m" "length ts = length ?T"
    "\<forall>i < length ?T. if i \<in> set ?I then lane_step inst (word_at m) (?T ! i) = Inr (ts ! i, word_at m) else ts ! i = ?T ! i"
    using run_lanes_registers[OF ne active_lanes_props(1) _ run] by (auto simp: active_lanes_props)
  have "\<exists>a v. lane_address (inst_src1 inst) inst (?T ! i) = Inr a \<and> word_at m a = Inr v \<and>
      write_reg (?T ! i) (inst_dst inst) v = Inr (ts ! i)" if "i \<in> set ?I" for i
    using st(3) that oc by (fastforce simp: lane_step_def active_lanes_props)
  then obtain ad va where s: "\<And>i. i \<in> set ?I \<Longrightarrow> lane_address (inst_src1 inst) inst (?T ! i) = Inr (ad i) \<and>
      word_at m (ad i) = Inr (va i) \<and> write_reg (?T ! i) (inst_dst inst) (va i) = Inr (ts ! i)" by metis
  let ?ads = "map ad ?I"
  have "list_all2 (\<lambda>i x. lane_address (inst_src1 inst) inst (?T ! i) = Inr x) ?I ?ads"
    using s by (simp add: list_all2_conv_all_nth)
  note g = gather_masked[OF len this]
  have "ad i < SHARED_MEM_BASE \<longleftrightarrow> ad j < SHARED_MEM_BASE" if "i \<in> set ?I" "j \<in> set ?I" for i j
  proof -
    have t: "touched inst (?T ! i) = Inr (ad i)" "touched inst (?T ! j) = Inr (ad j)"
      using s[OF that(1)] s[OF that(2)] oc by (simp_all add: touched_def)
    have "inst_opcode inst \<in> {LOAD, STORE, ATOMIC_ADD}" using oc by simp
    with sp t that show ?thesis unfolding one_space_def by blast
  qed
  then have mix: "?ads = [] \<or> \<not> mixed_spaces ?ads" by (intro not_mixed) (unfold set_map, blast)
  have "\<forall>a \<in> set ?ads. mapped m a" using s by (auto simp: word_at_mapped)
  from warp_load_total[OF minv mix this] obtain res vals m1 where wl: "warp_load m ?ads = Inr (res, vals, m1)" by blast
  note wc = warp_load_correct[OF minv wl]
  have lv: "length vals = length ?I" using wc by (auto dest: list_all2_lengthD)
  show ?thesis
  proof (cases "?I = []")
    case True
    then have "ts = ?T" using st(2,3) by (intro nth_equalityI) auto
    moreover have "exec_load inst w m = Inr (plain_result ExecCompleted, w, m)"
      unfolding exec_load_def g by (simp add: True)
    ultimately show ?thesis using oc st(1) by (simp add: execute_def Let_def move_to_eq[OF len] plain_result_def)
  next
    case False
    have "\<forall>i \<in> fst ` set (zip ?I vals). i < length ?T \<and> int_to_size (inst_dst inst) < length (rf_registers (t_registers (?T ! i)))"
    proof
      fix i assume "i \<in> fst ` set (zip ?I vals)"
      then have "i \<in> set ?I" by (auto dest: set_zip_leftD)
      from s[OF this] this show "i < length ?T \<and> int_to_size (inst_dst inst) < length (rf_registers (t_registers (?T ! i)))"
        by (auto simp: write_reg_def reg_write_def active_lanes_props split: if_splits)
    qed
    from write_back_total[OF this] obtain us where wb: "write_back inst (zip ?I vals) ?T = Inr us" by blast
    have ms: "map snd (zip ?I ?ads) = ?ads" "map fst (zip ?I ?ads) = ?I" by simp_all
    have ne: "zip ?I ?ads \<noteq> []" using False by (cases ?I) auto
    have el: "exec_load inst w m = Inr (memory_result ?ads res 0, w\<lparr>w_threads := us\<rparr>, m1)"
      unfolding exec_load_def g bindE_Inr if_not_P[OF ne] Let_def ms wl by (simp add: wb)
    have "\<forall>i \<in> fst ` set (zip ?I vals). i < length ?T" by (auto simp: active_lanes_props dest: set_zip_leftD)
    moreover have "distinct (map fst (zip ?I vals))" using lv by (simp add: active_lanes_props(1))
    ultimately have wl: "length us = length ?T \<and> (\<forall>i < length ?T. if i \<in> fst ` set (zip ?I vals)
        then \<exists>v. (i, v) \<in> set (zip ?I vals) \<and> write_reg (?T ! i) (inst_dst inst) v = Inr (us ! i) else us ! i = ?T ! i)"
      using write_back_lane[OF wb] by blast
    then have us: "length us = length ?T" by blast
    have us2: "us ! i = ?T ! i" if "i < length ?T" "i \<notin> fst ` set (zip ?I vals)" for i
      using wl that by meson
    have "us ! i = ts ! i" if i: "i < length ?T" for i
    proof (cases "bit ?k i")
      case True
      then have "i \<in> set ?I" using i by (simp add: active_lanes_props)
      from s[OF this] load_lane[OF len minv el i True] show ?thesis by auto
    next
      case False
      then have "i \<notin> set ?I" by (simp add: active_lanes_props)
      moreover from this have "i \<notin> fst ` set (zip ?I vals)" by (auto dest: set_zip_leftD)
      ultimately show ?thesis using us2 st(3) i by simp
    qed
    then have "us = ts" using us st(2) by (intro nth_equalityI) auto
    moreover have "word_at m1 = M" using wc same_data_word_at st(1) by blast
    moreover have "length (w_threads (w\<lparr>w_threads := us\<rparr>)) \<le> 32" using us len by simp
    ultimately show ?thesis using el oc by (simp add: execute_def Let_def move_to_eq memory_result_def)
  qed
qed

lemma masked_addresses:
  assumes sp: "one_space inst ((!) ts ` set (active_lanes k ts))" and oc: "inst_opcode inst \<in> {STORE, ATOMIC_ADD}"
    and st: "list_all2 (\<lambda>i av. lane_store inst (ts ! i) = Inr av) (active_lanes k ts) avs"
  shows "map fst avs = [] \<or> \<not> mixed_spaces (map fst avs)"
proof -
  let ?I = "active_lanes k ts"
  have la: "length avs = length ?I" using st by (auto dest: list_all2_lengthD)
  have tch: "\<exists>t \<in> (!) ts ` set ?I. touched inst t = Inr a" if "a \<in> set (map fst avs)" for a
  proof -
    obtain j where j: "j < length avs" "a = fst (avs ! j)" using \<open>a \<in> set (map fst avs)\<close> by (auto simp: in_set_conv_nth)
    then have "lane_store inst (ts ! (?I ! j)) = Inr (avs ! j)" using st la by (auto simp: list_all2_conv_all_nth)
    then have "touched inst (ts ! (?I ! j)) = Inr a" using j(2) oc
      by (cases "avs ! j") (auto simp: touched_def lane_store_def)
    then show ?thesis using j(1) la by (metis imageI nth_mem)
  qed
  have "a < SHARED_MEM_BASE \<longleftrightarrow> b < SHARED_MEM_BASE" if "a \<in> set (map fst avs)" "b \<in> set (map fst avs)" for a b
  proof -
    have "inst_opcode inst \<in> {LOAD, STORE, ATOMIC_ADD}" using oc by auto
    with tch[OF that(1)] tch[OF that(2)] sp show ?thesis unfolding one_space_def by blast
  qed
  then show ?thesis by (intro not_mixed) blast
qed

lemma masked_write:
  assumes len: "length (w_threads w) \<le> 32" and st: "list_all2 (\<lambda>i av. lane_store inst (w_threads w ! i) = Inr av)
      (active_lanes (w_active_mask w) (w_threads w)) avs"
    and ws: "op m (map fst avs) (map snd avs) = Inr (res, m1)" "word_at m1 = M" and nil: "avs = [] \<Longrightarrow> M = word_at m"
  shows "\<exists>r m'. exec_write op inst w m = Inr (r, m') \<and> er_status r = ExecCompleted \<and> word_at m' = M"
proof -
  let ?k = "w_active_mask w" and ?T = "w_threads w"
  let ?I = "active_lanes ?k ?T"
  have la: "length avs = length ?I" using st by (auto dest: list_all2_lengthD)
  note g = gather_masked[OF len st]
  have ms: "map (fst \<circ> snd) (zip ?I avs) = map fst avs" "map (snd \<circ> snd) (zip ?I avs) = map snd avs"
    using la by (simp_all add: map_map[symmetric] del: map_map)
  show ?thesis
  proof (cases "map fst avs = []")
    case True
    then have "exec_write op inst w m = Inr (plain_result ExecCompleted, m)"
      unfolding exec_write_def g bindE_Inr Let_def ms by simp
    then show ?thesis using True nil by (simp add: plain_result_def)
  next
    case False
    then show ?thesis using ws(2)
      unfolding exec_write_def g bindE_Inr Let_def ms if_not_P[OF False] ws(1) by (simp add: memory_result_def)
  qed
qed

lemma masked_store:
  assumes len: "length (w_threads w) \<le> 32" and oc: "inst_opcode inst = STORE" and minv: "ms_inv m"
    and run: "run_lanes inst (active_lanes (w_active_mask w) (w_threads w)) (w_threads w) (word_at m) = Inr (ts, M)"
    and sp: "one_space inst ((!) (w_threads w) ` set (active_lanes (w_active_mask w) (w_threads w)))"
  shows "\<exists>r w' m'. execute inst w m = Inr (r, w', m') \<and> er_status r = ExecCompleted \<and>
    w_threads w' = shadow (w_active_mask w) (size_add (w_pc w) 1) ts \<and> word_at m' = M"
proof -
  obtain avs where s: "ts = w_threads w" "list_all2 (\<lambda>i av. lane_store inst (w_threads w ! i) = Inr av)
      (active_lanes (w_active_mask w) (w_threads w)) avs" "M = put avs (word_at m)"
    "\<forall>a \<in> fst ` set avs. \<exists>v. word_at m a = Inr v"
    using run_lanes_store[OF oc run] by blast
  have "inst_opcode inst \<in> {STORE, ATOMIC_ADD}" using oc by simp
  note mix = masked_addresses[OF sp this s(2)]
  have "\<forall>a \<in> set (map fst avs). mapped m a" using s(4) by (simp add: word_at_mapped)
  from warp_store_total[OF minv mix this, of "map snd avs"] obtain res m1 where ws: "warp_store m (map fst avs) (map snd avs) = Inr (res, m1)" by auto
  have "word_at m1 = M"
    using warp_store_correct[OF minv ws] by (auto simp: writes_words_def s(3) put_last_value zip_map_fst_snd)
  from masked_write[where op = warp_store, OF len s(2) ws this] s(3)
  obtain r m' where "exec_write warp_store inst w m = Inr (r, m')" "er_status r = ExecCompleted" "word_at m' = M"
    by (auto simp: put_def)
  then show ?thesis using oc s(1) by (simp add: execute_def Let_def move_to_eq[OF len])
qed

lemma masked_atomic:
  assumes len: "length (w_threads w) \<le> 32" and oc: "inst_opcode inst = ATOMIC_ADD" and minv: "ms_inv m"
    and run: "run_lanes inst (active_lanes (w_active_mask w) (w_threads w)) (w_threads w) (word_at m) = Inr (ts, M)"
    and sp: "one_space inst ((!) (w_threads w) ` set (active_lanes (w_active_mask w) (w_threads w)))"
  shows "\<exists>r w' m'. execute inst w m = Inr (r, w', m') \<and> er_status r = ExecCompleted \<and>
    w_threads w' = shadow (w_active_mask w) (size_add (w_pc w) 1) ts \<and> word_at m' = M"
proof -
  obtain avs where s: "ts = w_threads w" "list_all2 (\<lambda>i av. lane_store inst (w_threads w ! i) = Inr av)
      (active_lanes (w_active_mask w) (w_threads w)) avs" "foldE add_word (word_at m) avs = Inr M"
    using run_lanes_atomic[OF oc run] by blast
  have "inst_opcode inst \<in> {STORE, ATOMIC_ADD}" using oc by simp
  from warp_atomics[OF minv masked_addresses[OF sp this s(2)] s(3)] obtain res m1 where
    ws: "warp_atomic_add m (map fst avs) (map snd avs) = Inr (res, m1)" "word_at m1 = M" by blast
  have "M = word_at m" if "avs = []" using s(3) that by simp
  from masked_write[where op = warp_atomic_add, OF len s(2) ws this]
  obtain r m' where "exec_write warp_atomic_add inst w m = Inr (r, m')" "er_status r = ExecCompleted" "word_at m' = M"
    by auto
  then show ?thesis using oc s(1) by (simp add: execute_def Let_def move_to_eq[OF len])
qed

text \<open>The lock-step execution is the sequence of the lanes.\<close>

lemma execute_run_lanes:
  assumes "length (w_threads w) \<le> 32" and "lanewise_opcode (inst_opcode inst)" and "ms_inv m"
    and "run_lanes inst (active_lanes (w_active_mask w) (w_threads w)) (w_threads w) (word_at m) = Inr (ts, M)"
    and "one_space inst ((!) (w_threads w) ` set (active_lanes (w_active_mask w) (w_threads w)))"
  shows "\<exists>r w' m'. execute inst w m = Inr (r, w', m') \<and> er_status r = ExecCompleted \<and>
    w_threads w' = shadow (w_active_mask w) (size_add (w_pc w) 1) ts \<and> word_at m' = M"
  using masked_alu[OF assms(1) _ assms(4)] masked_load[OF assms(1) _ assms(3,4,5)] masked_store[OF assms(1) _ assms(3,4,5)]
    masked_atomic[OF assms(1) _ assms(3,4,5)] assms(2) by (auto simp: lanewise_opcode_def)

end
