(* ===== verification/Guarded_Programs.thy ===== *)
theory Guarded_Programs
  imports Lane_Steps Kernels
begin

text \<open>
  Programs as the generators write them: data instructions and barriers at the top level, and
  regions \<open>SSY\<close>, \<open>CMP\<close>, \<open>BRANCH\<close>, body, \<open>SYNC\<close>. A warp that runs such a program has one of four
  control states; in each of them every lane has a program counter of its own, and the warp step
  by step does what its lanes would do alone.
\<close>

section \<open>The shape of a program\<close>

inductive guarded_prog :: "instruction list \<Rightarrow> bool" where
  finish: "guarded_prog []"
| data: "lanewise_opcode (inst_opcode i) \<Longrightarrow> guarded_prog p \<Longrightarrow> guarded_prog (i # p)"
| barrier: "inst_opcode i = BARRIER \<Longrightarrow> guarded_prog p \<Longrightarrow> guarded_prog (i # p)"
| region: "body \<noteq> [] \<Longrightarrow> length body < 2 ^ 30 \<Longrightarrow> list_all (\<lambda>i. lanewise_opcode (inst_opcode i)) body \<Longrightarrow> guarded_prog p \<Longrightarrow>
    guarded_prog (guarded r body @ p)"

lemma guarded_append: "guarded_prog p \<Longrightarrow> guarded_prog q \<Longrightarrow> guarded_prog (p @ q)"
  by (induction rule: guarded_prog.induct) (auto intro: guarded_prog.intros)

lemma guarded_data: "list_all (\<lambda>i. lanewise_opcode (inst_opcode i)) p \<Longrightarrow> guarded_prog p"
  by (induction p) (auto intro: guarded_prog.intros)

lemma guarded_concat: "(\<And>p. p \<in> set ps \<Longrightarrow> guarded_prog p) \<Longrightarrow> guarded_prog (concat ps)"
  by (induction ps) (auto intro: guarded_prog.intros guarded_append)

text \<open>A region from \<open>SSY\<close> at \<open>s\<close> to \<open>SYNC\<close> at \<open>e\<close>.\<close>

definition opens :: "instruction list \<Rightarrow> nat \<Rightarrow> nat \<Rightarrow> bool" where
  "opens prog s e \<longleftrightarrow> (\<exists>r body p. drop s prog = guarded r body @ p \<and> e = s + 3 + length body \<and> body \<noteq> [] \<and> length body < 2 ^ 30 \<and>
     list_all (\<lambda>i. lanewise_opcode (inst_opcode i)) body \<and> guarded_prog p)"

lemma nth_drop_eq: "drop s xs = ys \<Longrightarrow> i < length ys \<Longrightarrow> xs ! (s + i) = ys ! i \<and> s + i < length xs"
  by (metis add.commute length_drop less_diff_conv nth_drop nat_le_linear diff_is_0_eq' gr_implies_not0)

lemma opens_region:
  assumes "opens prog s e" and "length prog < 2 ^ 63"
  shows "s + 3 < e" "e < length prog" "guarded_prog (drop (e + 1) prog)"
    "inst_opcode (prog ! s) = SSY" "size_add_int s (inst_immediate (prog ! s)) = e"
    "inst_opcode (prog ! (s + 1)) = CMP"
    "inst_opcode (prog ! (s + 2)) = BRANCH" "size_add_int (s + 2) (inst_immediate (prog ! (s + 2))) = e"
    "\<And>q. s + 3 \<le> q \<Longrightarrow> q < e \<Longrightarrow> lanewise_opcode (inst_opcode (prog ! q))"
    "inst_opcode (prog ! e) = SYNC"
proof -
  obtain r body p where d: "drop s prog = guarded r body @ p" and e: "e = s + 3 + length body" and ne: "body \<noteq> []" and short: "length body < 2 ^ 30"
    and data: "list_all (\<lambda>i. lanewise_opcode (inst_opcode i)) body" and p: "guarded_prog p"
    using assms(1) by (auto simp: opens_def)
  have len: "length (guarded r body @ p) = length body + 4 + length p" by (simp add: guarded_def)
  note at = nth_drop_eq[OF d]
  show "s + 3 < e" using ne e by (cases body) auto
  show el: "e < length prog" using at[of "3 + length body"] len e by simp
  have imm: "size_add_int a (of_nat b) = a + b" if "a + b = e" "b < 2 ^ 31" for a b
    using that el assms(2) by (subst size_add_int_exact) (simp_all add: signed_of_nat signed_take_bit_int_eq_self)
  have "drop (e + 1) prog = drop (length body + 4) (drop s prog)" using e by (simp add: add.commute add.left_commute)
  also have "\<dots> = p"
  proof -
    have "length body + 4 = length (guarded r body)" by (simp add: guarded_def)
    then show ?thesis unfolding d by (simp only: drop_append drop_all le_refl diff_self_eq_0 drop_0 append_Nil)
  qed
  finally show "guarded_prog (drop (e + 1) prog)" using p by simp
  have 0: "prog ! s = instr SSY (-1) (-1) (-1) (of_nat (length body + 3))" using at[of 0] len by (simp add: guarded_def)
  have 1: "prog ! (s + 1) = instr CMP (-1) r 19 0" using at[of 1] len by (simp add: guarded_def)
  have 2: "prog ! (s + 2) = instr BRANCH (-1) (-1) (-1) (of_nat (length body + 1))"
    using at[of 2] len by (simp add: guarded_def)
  show "inst_opcode (prog ! s) = SSY" "inst_opcode (prog ! (s + 1)) = CMP" "inst_opcode (prog ! (s + 2)) = BRANCH"
    unfolding 0 1 2 instr_def by simp_all
  show "size_add_int s (inst_immediate (prog ! s)) = e"
    unfolding 0 instr_def instruction.simps using short by (subst imm) (simp_all add: e)
  show "size_add_int (s + 2) (inst_immediate (prog ! (s + 2))) = e"
    unfolding 2 instr_def instruction.simps using short by (subst imm) (simp_all add: e)
  have "prog ! e = instr SYNC 0 0 0 0" using at[of "3 + length body"] len by (simp add: guarded_def nth_append e add.assoc)
  then show "inst_opcode (prog ! e) = SYNC" by (simp add: instr_def)
  show "lanewise_opcode (inst_opcode (prog ! q))" if q: "s + 3 \<le> q" "q < e" for q
  proof -
    obtain i where i: "q = s + (3 + i)" "i < length body" using q e by (metis add.assoc add_less_cancel_left le_Suc_ex)
    have "prog ! q = body ! i" using at[of "3 + i"] len i by (simp add: guarded_def nth_append)
    then show ?thesis using data i(2) by (simp add: list_all_length)
  qed
qed

text \<open>What may stand at the top level.\<close>

lemma guarded_at:
  assumes "guarded_prog (drop q prog)" and "q < length prog"
  obtains (data) "lanewise_opcode (inst_opcode (prog ! q))" "guarded_prog (drop (q + 1) prog)"
  | (barrier) "inst_opcode (prog ! q) = BARRIER" "guarded_prog (drop (q + 1) prog)"
  | (region) e where "opens prog q e"
proof -
  have d: "drop q prog = prog ! q # drop (q + 1) prog" using assms(2) by (simp add: Cons_nth_drop_Suc)
  from assms(1) show thesis
  proof (cases rule: guarded_prog.cases)
    case (region body p r)
    then have "opens prog q (q + 3 + length body)" by (auto simp: opens_def)
    then show ?thesis by (rule that(3))
  qed (use that d in auto)
qed

section \<open>Phases\<close>

text \<open>The number of barriers before a program counter.\<close>

definition phase :: "instruction list \<Rightarrow> nat \<Rightarrow> nat" where
  "phase prog q = length (filter (\<lambda>i. inst_opcode i = BARRIER) (take q prog))"

lemma phase_Suc: "q < length prog \<Longrightarrow> phase prog (q + 1) = phase prog q + (if inst_opcode (prog ! q) = BARRIER then 1 else 0)"
  by (simp add: phase_def take_Suc_conv_app_nth)

lemma phase_mono: "q \<le> q' \<Longrightarrow> phase prog q \<le> phase prog q'"
  by (metis phase_def filter_append le_Suc_ex length_append le_add1 take_add)

lemma phase_region:
  assumes "opens prog s e" and "length prog < 2 ^ 63" and "s \<le> q" and "q \<le> e + 1"
  shows "phase prog q = phase prog s"
proof -
  note o = opens_region[OF assms(1,2)]
  have "inst_opcode (prog ! q) \<noteq> BARRIER" if "s \<le> q" "q \<le> e" for q
  proof -
    have "q = s \<or> q = s + 1 \<or> q = s + 2 \<or> q = e \<or> (s + 3 \<le> q \<and> q < e)" using that by linarith
    then show ?thesis using o(4,6,7,10) o(9)[of q] by (auto simp: lanewise_opcode_def)
  qed
  then have "phase prog (s + k) = phase prog s" if "s + k \<le> e + 1" for k
    using that
  proof (induction k)
    case (Suc k)
    then show ?case using phase_Suc[of "s + k" prog] o(2) by simp
  qed simp
  from this[of "q - s"] show ?thesis using assms(3,4) by simp
qed

text \<open>Two barriers with equally many barriers before them are the same one.\<close>

lemma phase_barrier:
  assumes "phase prog q = phase prog q'" and "q < length prog" and "q' < length prog"
    and "inst_opcode (prog ! q) = BARRIER" and "inst_opcode (prog ! q') = BARRIER"
  shows "q = q'"
proof -
  have "phase prog a < phase prog b" if "a < b" "a < length prog" "inst_opcode (prog ! a) = BARRIER" for a b
    using phase_Suc[OF that(2)] phase_mono[of "a + 1" b prog] that by simp
  then show ?thesis using assms by (metis less_irrefl linorder_neqE_nat)
qed

section \<open>The control states of a warp\<close>

text \<open>
  \<open>lp\<close> gives every lane its own program counter. At the top level all lanes are where the warp
  is, and so they are before the branch of a region; in the body the lanes that skip it are at
  the \<open>SYNC\<close>; and when some lanes skip and some do not, the latter first wait as a deferred path.
\<close>

inductive ctl :: "instruction list \<Rightarrow> warp \<Rightarrow> (nat \<Rightarrow> nat) \<Rightarrow> bool" for prog :: "instruction list" where
  top: "w_stack w = [] \<Longrightarrow> w_active_mask w = full_mask (length (w_threads w)) \<Longrightarrow> w_pc w \<le> length prog \<Longrightarrow>
    guarded_prog (drop (w_pc w) prog) \<Longrightarrow> \<forall>i < length (w_threads w). lp i = w_pc w \<Longrightarrow> ctl prog w lp"
| head: "opens prog s e \<Longrightarrow> w_stack w = [tok] \<Longrightarrow> se_target_pc tok = e \<Longrightarrow>
    se_active_mask tok = full_mask (length (w_threads w)) \<Longrightarrow> w_active_mask w = full_mask (length (w_threads w)) \<Longrightarrow>
    s < w_pc w \<Longrightarrow> w_pc w < s + 3 \<Longrightarrow> \<forall>i < length (w_threads w). lp i = w_pc w \<Longrightarrow> ctl prog w lp"
| body: "opens prog s e \<Longrightarrow> w_stack w = [tok] \<Longrightarrow> se_target_pc tok = e \<Longrightarrow>
    se_active_mask tok = full_mask (length (w_threads w)) \<Longrightarrow> s + 3 \<le> w_pc w \<Longrightarrow> w_pc w \<le> e \<Longrightarrow>
    \<forall>i < length (w_threads w). lp i = (if bit (w_active_mask w) i then w_pc w else e) \<Longrightarrow> ctl prog w lp"
| deferred: "opens prog s e \<Longrightarrow> w_stack w = [d, tok] \<Longrightarrow> se_target_pc tok = e \<Longrightarrow>
    se_active_mask tok = full_mask (length (w_threads w)) \<Longrightarrow> se_target_pc d = s + 3 \<Longrightarrow>
    \<forall>i < length (w_threads w). bit (se_active_mask d) i \<longleftrightarrow> \<not> bit (w_active_mask w) i \<Longrightarrow> w_pc w = e \<Longrightarrow>
    \<forall>i < length (w_threads w). lp i = (if bit (w_active_mask w) i then e else s + 3) \<Longrightarrow> ctl prog w lp"

text \<open>The steps a warp has left.\<close>

definition left_of :: "nat \<Rightarrow> warp \<Rightarrow> nat" where
  "left_of n w =
     (if w_stack w = [] then 3 * (n - w_pc w)
      else let e = se_target_pc (last (w_stack w))
           in 3 * (n - e) + 2 * (e - w_pc w) + sum_list (map (\<lambda>d. 2 * (e - se_target_pc d) + 1) (butlast (w_stack w))))"

lemma left_of_control: "control w' = control w \<Longrightarrow> left_of n w' = left_of n w"
  by (simp add: control_def left_of_def)

lemma ctl_core: "ctl prog w lp \<Longrightarrow> control w' = control w \<Longrightarrow> length (w_threads w') = length (w_threads w) \<Longrightarrow> ctl prog w' lp"
proof (induction rule: ctl.induct)
  case (top w lp)
  then show ?case by (intro ctl.top) (auto simp: control_def)
next
  case (head s e w tok lp)
  then show ?case by (intro ctl.head[of prog s e w' tok]) (auto simp: control_def)
next
  case (body s e w tok lp)
  then show ?case by (intro ctl.body[of prog s e w' tok]) (auto simp: control_def)
next
  case (deferred s e w d tok lp)
  then show ?case by (intro ctl.deferred[of prog s e w' d tok]) (auto simp: control_def)
qed

lemma ctl_phase:
  assumes short: "length prog < 2 ^ 63" and ctl: "ctl prog w lp" and i: "i < length (w_threads w)"
  shows "phase prog (lp i) = phase prog (w_pc w)"
  using ctl
proof (cases rule: ctl.cases)
  case (body s e tok)
  then have "phase prog (lp i) = phase prog s" "phase prog (w_pc w) = phase prog s"
    using i by (auto intro!: phase_region[OF body(1) short])
  then show ?thesis by simp
next
  case (deferred s e d tok)
  have "s + 3 < e" using opens_region(1)[OF deferred(1) short] .
  then have "phase prog (lp i) = phase prog s" "phase prog (w_pc w) = phase prog s"
    using deferred i by (auto intro!: phase_region[OF deferred(1) short])
  then show ?thesis by simp
qed (use i in simp_all)

text \<open>At a data instruction the active lanes are where the warp is, and go on.\<close>

lemma ctl_data:
  assumes short: "length prog < 2 ^ 63" and ctl: "ctl prog w lp" and pc: "w_pc w < length prog"
    and oc: "lanewise_opcode (inst_opcode (prog ! w_pc w))"
    and c: "control w' = next_control w" and len: "length (w_threads w') = length (w_threads w)" and l32: "length (w_threads w) \<le> 32"
  shows "\<forall>i < length (w_threads w). bit (w_active_mask w) i \<longrightarrow> lp i = w_pc w"
    and "ctl prog w' (\<lambda>i. if bit (w_active_mask w) i then lp i + 1 else lp i)"
    and "left_of (length prog) w' < left_of (length prog) w"
proof -
  have c': "w_pc w' = w_pc w + 1" "w_active_mask w' = w_active_mask w" "w_stack w' = w_stack w"
    using c pc short by (simp_all add: control_def next_control_def)
  have "(\<forall>i < length (w_threads w). bit (w_active_mask w) i \<longrightarrow> lp i = w_pc w) \<and>
    ctl prog w' (\<lambda>i. if bit (w_active_mask w) i then lp i + 1 else lp i) \<and> left_of (length prog) w' < left_of (length prog) w"
    using ctl
  proof (cases rule: ctl.cases)
    case top
    from top(4) pc have "guarded_prog (drop (w_pc w + 1) prog)"
    proof (cases rule: guarded_at)
      case (region e)
      then show ?thesis using opens_region(4)[OF region short] oc by (simp add: lanewise_opcode_def)
    qed
    moreover have "left_of (length prog) w' < left_of (length prog) w" using top c' pc by (simp add: left_of_def)
    ultimately show ?thesis using top c' len pc by (auto intro!: ctl.top simp: bit_full_mask less_le_trans[OF _ l32])
  next
    case (head s e tok)
    note o = opens_region[OF head(1) short]
    have "w_pc w \<noteq> s + 2" using o(7) oc by (auto simp: lanewise_opcode_def)
    then have s: "w_pc w = s + 1" using head by linarith
    have "left_of (length prog) w' < left_of (length prog) w" using head c' s o(1) by (simp add: left_of_def)
    moreover have "ctl prog w' (\<lambda>i. if bit (w_active_mask w) i then lp i + 1 else lp i)"
      using head c' len s by (intro ctl.head[OF head(1), of _ tok]) (auto simp: bit_full_mask less_le_trans[OF _ l32])
    ultimately show ?thesis using head by simp
  next
    case (body s e tok)
    note o = opens_region[OF body(1) short]
    have s: "w_pc w < e" using o(10) oc body by (cases "w_pc w = e") (auto simp: lanewise_opcode_def)
    then have "left_of (length prog) w' < left_of (length prog) w" using body c' by (simp add: left_of_def)
    moreover have "ctl prog w' (\<lambda>i. if bit (w_active_mask w) i then lp i + 1 else lp i)"
      using body c' len s by (intro ctl.body[OF body(1), of _ tok]) auto
    ultimately show ?thesis using body by simp
  next
    case (deferred s e d tok)
    then show ?thesis using opens_region(10)[OF deferred(1) short] oc by (simp add: lanewise_opcode_def)
  qed
  then show "\<forall>i < length (w_threads w). bit (w_active_mask w) i \<longrightarrow> lp i = w_pc w"
    "ctl prog w' (\<lambda>i. if bit (w_active_mask w) i then lp i + 1 else lp i)"
    "left_of (length prog) w' < left_of (length prog) w" by blast+
qed

text \<open>\<open>SSY\<close> and a barrier stand at the top level only.\<close>

lemma ctl_top_only:
  assumes short: "length prog < 2 ^ 63" and ctl: "ctl prog w lp" and oc: "inst_opcode (prog ! w_pc w) \<in> {SSY, BARRIER}"
  shows "w_stack w = [] \<and> w_active_mask w = full_mask (length (w_threads w)) \<and> guarded_prog (drop (w_pc w) prog) \<and>
    (\<forall>i < length (w_threads w). lp i = w_pc w)"
  using ctl
proof (cases rule: ctl.cases)
  case (head s e tok)
  have "w_pc w = s + 1 \<or> w_pc w = s + 2" using head by linarith
  then show ?thesis using opens_region(6,7)[OF head(1) short] oc by auto
next
  case (body s e tok)
  then show ?thesis using opens_region(9)[OF body(1) short, of "w_pc w"] opens_region(10)[OF body(1) short] oc
    by (cases "w_pc w = e") (auto simp: lanewise_opcode_def)
next
  case (deferred s e d tok)
  then show ?thesis using opens_region(10)[OF deferred(1) short] oc by simp
qed simp_all

lemma ctl_ssy:
  assumes short: "length prog < 2 ^ 63" and ctl: "ctl prog w lp" and pc: "w_pc w < length prog"
    and oc: "inst_opcode (prog ! w_pc w) = SSY" and run: "exec_ssy (prog ! w_pc w) w = Inr (r, w')"
    and l32: "length (w_threads w) \<le> 32"
  shows "\<forall>i < length (w_threads w). lp i = w_pc w" and "ctl prog w' (\<lambda>i. lp i + 1)"
    and "left_of (length prog) w' < left_of (length prog) w"
proof -
  have top: "w_stack w = []" "w_active_mask w = full_mask (length (w_threads w))" "guarded_prog (drop (w_pc w) prog)"
    and lp: "\<forall>i < length (w_threads w). lp i = w_pc w"
    using ctl_top_only[OF short ctl] oc by simp_all
  from top(3) pc obtain e where o: "opens prog (w_pc w) e"
    by (cases rule: guarded_at) (use oc in \<open>auto simp: lanewise_opcode_def\<close>)
  note oo = opens_region[OF o short]
  note x = exec_ssy_Inr[OF l32 run]
  have c: "w_pc w' = w_pc w + 1" "w_active_mask w' = full_mask (length (w_threads w))"
    "w_stack w' = [\<lparr>se_active_mask = full_mask (length (w_threads w)), se_target_pc = e,
       se_reconvergence_pc = w_reconvergence_pc w\<rparr>]" "length (w_threads w') = length (w_threads w)"
    using x pc short top by (simp_all add: control_def oo(5))
  have "ctl prog w' (\<lambda>i. lp i + 1)" using lp by (intro ctl.head[OF o c(3)]) (simp_all add: c)
  moreover have "left_of (length prog) w' < left_of (length prog) w" using c top(1) oo(1,2) by (simp add: left_of_def)
  ultimately show "\<forall>i < length (w_threads w). lp i = w_pc w" "ctl prog w' (\<lambda>i. lp i + 1)"
    "left_of (length prog) w' < left_of (length prog) w" using lp by blast+
qed

text \<open>The branch of a region: the lanes whose predicate holds skip the body.\<close>

lemma ctl_branch:
  assumes short: "length prog < 2 ^ 63" and ctl: "ctl prog w lp" and inv: "masks_inv w"
    and oc: "inst_opcode (prog ! w_pc w) = BRANCH" and run: "exec_branch (prog ! w_pc w) w = Inr (r, w')"
    and pc: "w_pc w < length prog"
  shows "\<forall>i < length (w_threads w). lp i = w_pc w"
    and "ctl prog w' (\<lambda>i. if t_predicate (w_threads w ! i) then size_add_int (w_pc w) (inst_immediate (prog ! w_pc w)) else lp i + 1)"
    and "left_of (length prog) w' < left_of (length prog) w" and "phase prog (w_pc w') = phase prog (w_pc w)"
proof -
  let ?N = "length (w_threads w)" and ?t = "size_add_int (w_pc w) (inst_immediate (prog ! w_pc w))"
  have l32: "?N \<le> 32" using inv by (simp add: masks_inv_def)
  obtain s e tok where o: "opens prog s e" and st: "w_stack w = [tok]" "se_target_pc tok = e" "se_active_mask tok = full_mask ?N"
    and act: "w_active_mask w = full_mask ?N" and pc2: "w_pc w = s + 2" and lp: "\<forall>i < ?N. lp i = w_pc w"
    using ctl
  proof (cases rule: ctl.cases)
    case (head s e tok)
    have "w_pc w \<noteq> s + 1" using opens_region(6)[OF head(1) short] oc by auto
    then have "w_pc w = s + 2" using head by linarith
    then show ?thesis using head that by blast
  next
    case (body s e tok)
    then show ?thesis using opens_region(9)[OF body(1) short, of "w_pc w"] opens_region(10)[OF body(1) short] oc
      by (cases "w_pc w = e") (auto simp: lanewise_opcode_def)
  next
    case (deferred s e d tok)
    then show ?thesis using opens_region(10)[OF deferred(1) short] oc by simp
  next
    case top
    from top(4) pc show ?thesis
      by (cases rule: guarded_at) (use oc opens_region(4)[OF _ short] in \<open>auto simp: lanewise_opcode_def\<close>)
  qed
  note oo = opens_region[OF o short]
  have t: "?t = e" unfolding pc2 by (rule oo(8))
  have bit: "bit (full_mask ?N) i" if "i < ?N" for i using that l32 by (simp add: bit_full_mask)
  obtain tk where tk: "taken_mask (w_active_mask w) (w_threads w) = Inr tk" and len: "length (w_threads w') = ?N"
    and c: "if tk = 0 then control w' = next_control w
      else if tk = w_active_mask w then control w' = (?t, w_active_mask w, w_reconvergence_pc w, w_stack w)
      else control w' = (?t, tk, w_reconvergence_pc w, \<lparr>se_active_mask = w_active_mask w AND NOT tk,
          se_target_pc = size_add (w_pc w) 1, se_reconvergence_pc = w_reconvergence_pc w\<rparr> # w_stack w)"
    using exec_branch_Inr[OF l32 run] by (auto split: if_splits)
  have bt: "bit tk i \<longleftrightarrow> t_predicate (w_threads w ! i)" if "i < ?N" for i
    using taken_mask_takes[OF l32 tk, of i] bit[OF that] that by (simp add: takes_def act)
  have suc: "size_add (w_pc w) 1 = s + 3" using pc2 oo(1,2) short by simp
  let ?lp = "\<lambda>i. if t_predicate (w_threads w ! i) then ?t else lp i + 1"
  have "ctl prog w' ?lp \<and> left_of (length prog) w' < left_of (length prog) w \<and> (w_pc w' = s + 3 \<or> w_pc w' = e)"
  proof (cases "tk = 0")
    case True
    then have "control w' = (s + 3, full_mask ?N, w_reconvergence_pc w, [tok])"
      using c True by (simp add: next_control_def suc[simplified] act st(1))
    then have w': "w_pc w' = s + 3" "w_active_mask w' = full_mask ?N" "w_stack w' = [tok]" by (simp_all add: control_def)
    have "\<not> t_predicate (w_threads w ! i)" if "i < ?N" for i using bt[OF that] True by simp
    then show ?thesis using w' st len lp pc2 oo(1) bit
      by (auto intro!: ctl.body[OF o, of _ tok] simp: left_of_def)
  next
    case ntk: False
    show ?thesis
    proof (cases "tk = w_active_mask w")
      case True
      then have "control w' = (e, full_mask ?N, w_reconvergence_pc w, [tok])"
        using c ntk by (simp add: t act st(1))
      then have w': "w_pc w' = e" "w_active_mask w' = full_mask ?N" "w_stack w' = [tok]" by (simp_all add: control_def)
      have "t_predicate (w_threads w ! i)" if "i < ?N" for i using bt[OF that] True bit[OF that] by (simp add: act)
      then show ?thesis using w' st len lp pc2 oo(1) bit t
        by (auto intro!: ctl.body[OF o, of _ tok] simp: left_of_def)
    next
      case False
      let ?d = "\<lparr>se_active_mask = w_active_mask w AND NOT tk, se_target_pc = s + 3, se_reconvergence_pc = w_reconvergence_pc w\<rparr>"
      have "control w' = (e, tk, w_reconvergence_pc w, [?d, tok])" using c ntk False by (simp add: t suc[simplified] st(1))
      then have w': "w_pc w' = e" "w_active_mask w' = tk" "w_stack w' = [?d, tok]" by (simp_all add: control_def)
      have "\<forall>i < ?N. bit (se_active_mask ?d) i \<longleftrightarrow> \<not> bit tk i"
        using bit l32 by (auto simp: act bit_and_iff bit_not_iff less_le_trans[OF _ l32])
      then have "ctl prog w' ?lp" using w' st len lp pc2 t bt
        by (intro ctl.deferred[OF o w'(3)]) auto
      moreover have "left_of (length prog) w' < left_of (length prog) w" using w' st pc2 oo(1) by (simp add: left_of_def)
      ultimately show ?thesis using w'(1) by blast
    qed
  qed
  moreover have "phase prog q = phase prog s" if "q = s + 3 \<or> q = e \<or> q = s + 2" for q
    using that oo(1) by (intro phase_region[OF o short]) auto
  ultimately show "\<forall>i < ?N. lp i = w_pc w" "ctl prog w' ?lp" "left_of (length prog) w' < left_of (length prog) w"
    "phase prog (w_pc w') = phase prog (w_pc w)" using lp pc2 by (blast, blast, blast, metis)
qed

text \<open>\<open>SYNC\<close> either takes up the deferred path, which moves no lane, or closes the region.\<close>

lemma ctl_sync:
  assumes short: "length prog < 2 ^ 63" and ctl: "ctl prog w lp" and l32: "length (w_threads w) \<le> 32"
    and oc: "inst_opcode (prog ! w_pc w) = SYNC" and run: "exec_sync w = Inr (r, w')"
  shows "left_of (length prog) w' < left_of (length prog) w"
    and "ctl prog w' lp \<or> ((\<forall>i < length (w_threads w). lp i = w_pc w) \<and> ctl prog w' (\<lambda>i. lp i + 1))"
proof -
  obtain x xs where st: "w_stack w = x # xs" and len: "length (w_threads w') = length (w_threads w)"
    and c: "control w' = (if se_target_pc x = w_pc w then size_add (w_pc w) 1 else se_target_pc x,
                  se_active_mask x, se_reconvergence_pc x, xs)"
    using exec_sync_Inr[OF l32 run] by auto
  have "left_of (length prog) w' < left_of (length prog) w \<and>
    (ctl prog w' lp \<or> ((\<forall>i < length (w_threads w). lp i = w_pc w) \<and> ctl prog w' (\<lambda>i. lp i + 1)))"
    using ctl
  proof (cases rule: ctl.cases)
    case (head s e tok)
    have "w_pc w = s + 1 \<or> w_pc w = s + 2" using head by linarith
    then show ?thesis using opens_region(6,7)[OF head(1) short] oc by auto
  next
    case (body s e tok)
    note o = opens_region[OF body(1) short]
    have pc: "w_pc w = e" using o(9)[of "w_pc w"] oc body by (cases "w_pc w < e") (auto simp: lanewise_opcode_def)
    have w': "w_pc w' = e + 1" "w_active_mask w' = full_mask (length (w_threads w))" "w_stack w' = []"
      using c st body pc o(2) short by (simp_all add: control_def)
    have "ctl prog w' (\<lambda>i. lp i + 1)" using body w' len o(2,3) pc by (intro ctl.top) auto
    moreover have "left_of (length prog) w' < left_of (length prog) w" using w' body pc o(2) by (simp add: left_of_def)
    ultimately show ?thesis using body pc by simp
  next
    case (deferred s e d tok)
    note o = opens_region[OF deferred(1) short]
    have w': "w_pc w' = s + 3" "w_active_mask w' = se_active_mask d" "w_stack w' = [tok]"
      using c st deferred o(1) by (simp_all add: control_def)
    have "ctl prog w' lp" using deferred w' len o(1) by (intro ctl.body[OF deferred(1) w'(3)]) auto
    moreover have "left_of (length prog) w' < left_of (length prog) w" using w' deferred o(1) by (simp add: left_of_def)
    ultimately show ?thesis by blast
  qed (use st in simp)
  then show "left_of (length prog) w' < left_of (length prog) w"
    "ctl prog w' lp \<or> ((\<forall>i < length (w_threads w). lp i = w_pc w) \<and> ctl prog w' (\<lambda>i. lp i + 1))" by blast+
qed

end
