(* ===== verification/Lane_Kernels.thy ===== *)
theory Lane_Kernels
  imports Grid_Runs Guarded_Programs
begin

text \<open>
  Kernels with barriers, verified lane by lane: the contract of a lane that runs a straight piece
  of code, and what it gives for the lanes of a warp. The locale \<open>lane_kernel\<close> asks for an assertion
  for every lane at every position of the code, as if the lane ran alone, and for what makes them
  hold together: a lane does not break the assertion of another lane of its block that is in the
  same phase, lanes of other blocks write other words, and at a barrier the assertions of all lanes
  of the block give the ones behind it. What no single lane knows, such as the sum of atomic
  additions, is stated by the assertion \<open>joint\<close> over the positions of the whole block.
\<close>

section \<open>Address spaces\<close>

definition space :: "shared_memory \<Rightarrow> global_memory \<Rightarrow> view" where
  "space sh g a = (if a \<ge> SHARED_MEM_BASE then shm_load sh (a - SHARED_MEM_BASE) else gm_load g a)"

lemma word_at_space: "word_at m = space (ms_shared m) (ms_global m)"
  by (rule ext) (simp add: word_at_def space_def)

text \<open>
  A change of the address space by the lanes of a block: words of its region of the shared memory,
  and words of the global memory that get their intended value; and a change by other lanes.
\<close>

definition change :: "(size_t \<Rightarrow> c_int option) \<Rightarrow> (size_t \<Rightarrow> bool) \<Rightarrow> view \<Rightarrow> view \<Rightarrow> bool" where
  "change target mine M M' \<longleftrightarrow> (\<forall>a. M' a = M a \<or>
     (if a < SHARED_MEM_BASE then \<exists>v. target a = Some v \<and> M' a = Inr v else mine a))"

lemma change_refl: "change target mine M M"
  by (simp add: change_def)

lemma change_trans: "change target mine M1 M2 \<Longrightarrow> change target mine M2 M3 \<Longrightarrow> change target mine M1 M3"
  unfolding change_def by metis

lemma change_mono: "change target mine M M' \<Longrightarrow> (\<And>a. a \<ge> SHARED_MEM_BASE \<Longrightarrow> mine a \<Longrightarrow> yours a) \<Longrightarrow> change target yours M M'"
  unfolding change_def by (meson not_less)

lemma lane_step_identity: "lane_step inst M t = Inr (t', M') \<Longrightarrow> same_identity t t'"
  using lane_op_identity write_reg_identity by (auto simp: lane_step_def same_identity_def split: if_splits)

definition thread_key :: "thread \<Rightarrow> nat \<times> nat" where
  "thread_key t = (t_block_id t, t_global_id t)"

lemma lane_keys_thread: "lane_keys w = map thread_key (w_threads w)"
  by (simp add: lane_keys_def thread_key_def)

lemma thread_key_identity: "same_identity t t' \<Longrightarrow> thread_key t' = thread_key t"
  by (simp add: same_identity_def thread_key_def)

lemma set_pc_id [simp]: "t_global_id (set_pc t x) = t_global_id t" "t_block_id (set_pc t x) = t_block_id t"
  by (simp_all add: set_pc_def)

lemma thread_key_pc [simp]: "thread_key (set_pc t x) = thread_key t"
  by (simp add: thread_key_def set_pc_def)

section \<open>The contract\<close>

text \<open>
  \<open>code\<close> is what a lane executes, position by position; \<open>moves t q q'\<close> holds for the steps of the
  control instructions.
\<close>

locale lane_kernel =
  fixes code :: "instruction list" and moves :: "thread \<Rightarrow> nat \<Rightarrow> nat \<Rightarrow> bool" and lane :: "nat \<Rightarrow> thread \<Rightarrow> view \<Rightarrow> bool"
    and joint :: "size_t \<Rightarrow> (nat \<Rightarrow> nat) \<Rightarrow> view \<Rightarrow> bool" and target :: "size_t \<Rightarrow> c_int option" and region :: "size_t \<Rightarrow> size_t set" and roster :: "size_t \<Rightarrow> nat list"
  assumes distinct_roster: "distinct (roster b)"
    and regions: "b \<noteq> b' \<Longrightarrow> region b \<inter> region b' = {}"
    and lane_pc: "lane q t M \<Longrightarrow> lane q (set_pc t x) M"
    and lane_apart: "lane q t M \<Longrightarrow> change target (\<lambda>a. a \<notin> region (t_block_id t)) M M' \<Longrightarrow> lane q t M'"
    and lane_peer: "lane q t M \<Longrightarrow> lane q' t' M \<Longrightarrow> t_block_id t = t_block_id t' \<Longrightarrow> t_global_id t \<noteq> t_global_id t' \<Longrightarrow>
      phase code q = phase code q' \<Longrightarrow> q' < length code \<Longrightarrow> inst_opcode (code ! q') \<in> {STORE, ATOMIC_ADD} \<Longrightarrow>
      lane_step (code ! q') M t' = Inr (t'', M') \<Longrightarrow> lane q t M'"
    and lane_data: "lane q t M \<Longrightarrow> joint (t_block_id t) L M \<Longrightarrow> L (t_global_id t) = q \<Longrightarrow> q < length code \<Longrightarrow>
      lanewise_opcode (inst_opcode (code ! q)) \<Longrightarrow>
      \<exists>t' M'. lane_step (code ! q) M t = Inr (t', M') \<and> lane (q + 1) t' M' \<and>
        joint (t_block_id t) (L(t_global_id t := q + 1)) M' \<and> change target (\<lambda>a. a \<in> region (t_block_id t)) M M'"
    and lane_space: "lane q t M \<Longrightarrow> lane q t' M \<Longrightarrow> q < length code \<Longrightarrow> t_block_id t = t_block_id t' \<Longrightarrow>
      one_space (code ! q) {t, t'}"
    and lane_barrier: "q < length code \<Longrightarrow> inst_opcode (code ! q) = BARRIER \<Longrightarrow> \<forall>t \<in> set ts. t_block_id t = b \<and> lane q t M \<Longrightarrow>
      map t_global_id ts = roster b \<Longrightarrow> joint b L M \<Longrightarrow> \<forall>t \<in> set ts. L (t_global_id t) = q \<Longrightarrow> t \<in> set ts \<Longrightarrow>
      lane (q + 1) t M"
    and joint_apart: "joint b L M \<Longrightarrow> change target (\<lambda>a. a \<notin> region b) M M' \<Longrightarrow> joint b L M'"
    and joint_move: "joint (t_block_id t) L M \<Longrightarrow> lane q t M \<Longrightarrow> L (t_global_id t) = q \<Longrightarrow> moves t q q' \<Longrightarrow>
      joint (t_block_id t) (L(t_global_id t := q')) M"
    and barrier_moves: "q < length code \<Longrightarrow> inst_opcode (code ! q) = BARRIER \<Longrightarrow> moves t q (q + 1)"
begin

abbreviation (input) touches :: "size_t \<Rightarrow> view \<Rightarrow> view \<Rightarrow> bool" where
  "touches b \<equiv> change target (\<lambda>a. a \<in> region b)"

lemma lane_other: "lane q t M \<Longrightarrow> touches b M M' \<Longrightarrow> b \<noteq> t_block_id t \<Longrightarrow> lane q t M'"
  using regions by (intro lane_apart[of q t M M']) (auto elim!: change_mono)

lemma joint_other: "joint c L M \<Longrightarrow> touches b M M' \<Longrightarrow> b \<noteq> c \<Longrightarrow> joint c L M'"
  using regions by (intro joint_apart[of c L M M']) (auto elim!: change_mono)

text \<open>Lanes of a block that pass a control instruction, or stay.\<close>

lemma joint_moves:
  assumes "joint b L M" and "distinct (map t_global_id ts)"
    and "\<forall>i < length ts. t_block_id (ts ! i) = b \<and> lane (lp i) (ts ! i) M \<and> L (t_global_id (ts ! i)) = lp i \<and>
      (lp' i = lp i \<or> moves (ts ! i) (lp i) (lp' i))"
  shows "\<exists>L'. joint b L' M \<and> (\<forall>i < length ts. L' (t_global_id (ts ! i)) = lp' i) \<and>
    (\<forall>id. id \<notin> t_global_id ` set ts \<longrightarrow> L' id = L id)"
  using assms
proof (induction ts rule: rev_induct)
  case (snoc t ts)
  have "\<forall>i < length ts. t_block_id (ts ! i) = b \<and> lane (lp i) (ts ! i) M \<and> L (t_global_id (ts ! i)) = lp i \<and>
      (lp' i = lp i \<or> moves (ts ! i) (lp i) (lp' i))"
    using snoc.prems(3) by (auto simp: nth_append split: if_splits)
  then obtain L1 where L1: "joint b L1 M" "\<forall>i < length ts. L1 (t_global_id (ts ! i)) = lp' i"
    "\<forall>id. id \<notin> t_global_id ` set ts \<longrightarrow> L1 id = L id"
    using snoc.IH snoc.prems(1,2) by auto
  let ?n = "length ts" and ?L = "L1(t_global_id t := lp' (length ts))"
  have t: "t_block_id t = b" "lane (lp ?n) t M" "L (t_global_id t) = lp ?n" "lp' ?n = lp ?n \<or> moves t (lp ?n) (lp' ?n)"
    using snoc.prems(3)[rule_format, of ?n] by auto
  have new: "t_global_id t \<notin> t_global_id ` set ts" using snoc.prems(2) by auto
  then have at: "L1 (t_global_id t) = lp ?n" using L1(3) t(3) by simp
  have "joint b ?L M"
    using t(4)
  proof
    assume "lp' ?n = lp ?n"
    then show ?thesis using L1(1) at by (metis fun_upd_triv)
  next
    assume "moves t (lp ?n) (lp' ?n)"
    from joint_move[where L = L1, OF _ t(2) at this] L1(1) t(1) show ?thesis by simp
  qed
  moreover have "?L (t_global_id ((ts @ [t]) ! i)) = lp' i" if i: "i < length (ts @ [t])" for i
  proof (cases "i < ?n")
    case True
    then have "t_global_id (ts ! i) \<noteq> t_global_id t" using new by (metis imageI nth_mem)
    then show ?thesis using L1(2) True by (simp add: nth_append)
  qed (use i in \<open>simp add: nth_append less_Suc_eq\<close>)
  moreover have "?L id = L id" if "id \<notin> t_global_id ` set (ts @ [t])" for id using L1(3) that by simp
  ultimately show ?case by blast
qed auto

text \<open>What a step of some lanes of block \<open>b\<close> leaves to a lane of the same block and phase.\<close>

definition spares :: "size_t \<Rightarrow> nat \<Rightarrow> nat set \<Rightarrow> view \<Rightarrow> view \<Rightarrow> bool" where
  "spares b p ids M M' \<longleftrightarrow>
     (\<forall>q t. t_block_id t = b \<longrightarrow> t_global_id t \<notin> ids \<longrightarrow> phase code q = p \<longrightarrow> lane q t M \<longrightarrow> lane q t M')"

lemma spares_refl: "spares b p ids M M"
  by (simp add: spares_def)

section \<open>The lanes of a warp at a data instruction\<close>

lemma one_lane:
  assumes ln: "lane q t M" and j: "joint (t_block_id t) L M" "L (t_global_id t) = q"
    and q: "q < length code" "lanewise_opcode (inst_opcode (code ! q))"
  shows "\<exists>t' M'. lane_step (code ! q) M t = Inr (t', M') \<and> lane (q + 1) t' M' \<and> thread_key t' = thread_key t \<and>
    joint (t_block_id t) (L(t_global_id t := q + 1)) M' \<and> touches (t_block_id t) M M' \<and> spares (t_block_id t) (phase code q) {t_global_id t} M M'"
proof -
  obtain t' M' where st: "lane_step (code ! q) M t = Inr (t', M')" "lane (q + 1) t' M'" "joint (t_block_id t) (L(t_global_id t := q + 1)) M'"
    "touches (t_block_id t) M M'"
    using lane_data[OF ln j q] by blast
  have "spares (t_block_id t) (phase code q) {t_global_id t} M M'"
  proof (cases "inst_opcode (code ! q) \<in> {STORE, ATOMIC_ADD}")
    case True
    then show ?thesis using lane_peer[OF _ ln _ _ _ q(1) True st(1)] by (auto simp: spares_def)
  next
    case False
    then have "M' = M" using st(1) by (auto simp: lane_step_def split: if_splits)
    then show ?thesis by (simp add: spares_refl)
  qed
  then show ?thesis using st thread_key_identity[OF lane_step_identity[OF st(1)]] by blast
qed

lemma lanes_run:
  assumes q: "q < length code" "lanewise_opcode (inst_opcode (code ! q))"
    and "distinct is" and "\<forall>i \<in> set is. i < length ts \<and> lp i = q" and "distinct (map t_global_id ts)"
    and "\<forall>i < length ts. lane (lp i) (ts ! i) M \<and> t_block_id (ts ! i) = b \<and> phase code (lp i) = phase code q \<and>
      L (t_global_id (ts ! i)) = lp i" and "joint b L M"
  shows "\<exists>ts' M' L'. run_lanes (code ! q) is ts M = Inr (ts', M') \<and> map thread_key ts' = map thread_key ts \<and>
    (\<forall>i < length ts. lane (if i \<in> set is then q + 1 else lp i) (ts' ! i) M') \<and> touches b M M' \<and>
    spares b (phase code q) (t_global_id ` set ts) M M' \<and> joint b L' M' \<and>
    (\<forall>i < length ts. L' (t_global_id (ts ! i)) = (if i \<in> set is then q + 1 else lp i)) \<and>
    (\<forall>id. id \<notin> t_global_id ` set ts \<longrightarrow> L' id = L id)"
  using assms(3-)
proof (induction "is" arbitrary: ts M lp L)
  case Nil
  then show ?case by (auto simp: spares_refl change_refl)
next
  case (Cons i "is")
  have i: "i < length ts" "lane q (ts ! i) M" "t_block_id (ts ! i) = b" "L (t_global_id (ts ! i)) = q" using Cons.prems(2,4) by auto
  from one_lane[where L = L, OF i(2) _ i(4) q] Cons.prems(5) obtain t' M1 where s: "lane_step (code ! q) M (ts ! i) = Inr (t', M1)" "lane (q + 1) t' M1"
    "thread_key t' = thread_key (ts ! i)" "touches b M M1" "spares b (phase code q) {t_global_id (ts ! i)} M M1"
    "joint b (L(t_global_id (ts ! i) := q + 1)) M1"
    using i(3) by auto
  let ?ts = "ts[i := t']" and ?lp = "lp(i := q + 1)" and ?L = "L(t_global_id (ts ! i) := q + 1)"
  have key: "map thread_key ?ts = map thread_key ts" using s(3) i(1) by (simp add: map_update) (metis list_update_id nth_map)
  then have gid: "map t_global_id ?ts = map t_global_id ts" and bid: "map t_block_id ?ts = map t_block_id ts"
    by (auto simp: thread_key_def list_eq_iff_nth_eq)
  have ne: "t_global_id (ts ! j) \<noteq> t_global_id (ts ! i)" if "j < length ts" "j \<noteq> i" for j
    using Cons.prems(3) that i(1) by (metis length_map nth_eq_iff_index_eq nth_map)
  have "inst_opcode (code ! q) \<noteq> BARRIER" using q(2) by (auto simp: lanewise_opcode_def)
  then have ph: "phase code (q + 1) = phase code q" using phase_Suc[OF q(1)] by simp
  have same: "t_global_id (?ts ! j) = t_global_id (ts ! j)" if "j < length ts" for j
    using gid that by (metis length_list_update nth_map)
  have all: "\<forall>j < length ?ts. lane (?lp j) (?ts ! j) M1 \<and> t_block_id (?ts ! j) = b \<and> phase code (?lp j) = phase code q \<and>
      ?L (t_global_id (?ts ! j)) = ?lp j"
  proof (intro allI impI)
    fix j assume j: "j < length ?ts"
    have "t_block_id (?ts ! j) = b" using bid Cons.prems(4) j by (metis length_list_update nth_map)
    moreover have "lane (?lp j) (?ts ! j) M1"
      using s(2,5) Cons.prems(4) ne[of j] j i(1) by (cases "j = i") (auto simp: spares_def)
    moreover have "?L (t_global_id (?ts ! j)) = ?lp j"
      using same[of j] ne[of j] Cons.prems(4) j by (cases "j = i") simp_all
    ultimately show "lane (?lp j) (?ts ! j) M1 \<and> t_block_id (?ts ! j) = b \<and> phase code (?lp j) = phase code q \<and>
        ?L (t_global_id (?ts ! j)) = ?lp j"
      using Cons.prems(4) j ph by (cases "j = i") auto
  qed
  have "distinct is" "\<forall>j \<in> set is. j < length ?ts \<and> ?lp j = q" "distinct (map t_global_id ?ts)"
    using Cons.prems(1-3) gid by auto
  from Cons.IH[OF this all s(6)] obtain ts' M' L' where r: "run_lanes (code ! q) is ?ts M1 = Inr (ts', M')" "map thread_key ts' = map thread_key ?ts"
    "\<forall>j < length ?ts. lane (if j \<in> set is then q + 1 else ?lp j) (ts' ! j) M'" "touches b M1 M'"
    "spares b (phase code q) (t_global_id ` set ?ts) M1 M'" "joint b L' M'"
    "\<forall>j < length ?ts. L' (t_global_id (?ts ! j)) = (if j \<in> set is then q + 1 else ?lp j)"
    "\<forall>id. id \<notin> t_global_id ` set ?ts \<longrightarrow> L' id = ?L id" by blast
  have ids: "t_global_id ` set ?ts = t_global_id ` set ts" using arg_cong[OF gid, of set] by simp
  have "spares b (phase code q) (t_global_id ` set ts) M M'"
    using s(5) r(5) i(1) unfolding ids spares_def by (metis imageI nth_mem singletonD)
  moreover have "lane (if j \<in> set (i # is) then q + 1 else lp j) (ts' ! j) M'" if "j < length ts" for j
    using r(3)[rule_format, of j] that Cons.prems(1) by (cases "j \<in> set is"; cases "j = i") simp_all
  moreover have "L' (t_global_id (ts ! j)) = (if j \<in> set (i # is) then q + 1 else lp j)" if "j < length ts" for j
    using r(7)[rule_format, of j] same[OF that] that Cons.prems(1) by (cases "j \<in> set is"; cases "j = i") simp_all
  moreover have "L' id = L id" if "id \<notin> t_global_id ` set ts" for id
    using r(8) that i(1) unfolding ids by (metis fun_upd_other imageI nth_mem)
  ultimately show ?case using s(1) r(1,2,6) key change_trans[OF s(4) r(4)]
    by (intro exI[of _ ts'] exI[of _ M'] exI[of _ L']) simp
qed

end

section \<open>One instruction of a warp\<close>

lemma exec_control_total:
  assumes "length (w_threads w) \<le> 32"
  shows "\<exists>r w'. exec_ssy inst w = Inr (r, w')" and "\<exists>r w'. exec_branch inst w = Inr (r, w')"
    and "w_stack w \<noteq> [] \<Longrightarrow> \<exists>r w'. exec_sync w = Inr (r, w')"
    and "w_active_mask w = full_mask (length (w_threads w)) \<Longrightarrow> \<exists>r w'. exec_barrier w = Inr (r, w')"
proof -
  have mv: "\<exists>v. move_to k pc u = Inr v" if "w_threads u = w_threads w" for k pc u
    using move_to_eq[of u] assms that by simp
  show "\<exists>r w'. exec_ssy inst w = Inr (r, w')"
    using mv[of "set_reconvergence_pc (push_simt_stack w e) x" for e x] by (simp add: exec_ssy_def Let_def warp_updates)
  obtain tk where tk: "taken_mask (w_active_mask w) (w_threads w) = Inr tk" using taken_mask_Inr[OF assms] by blast
  show "\<exists>r w'. exec_branch inst w = Inr (r, w')"
    using mv[of w] mv[of "set_active_mask (push_simt_stack w e) x" for e x]
    by (simp add: exec_branch_def Let_def tk warp_updates)
  show "\<exists>r w'. exec_sync w = Inr (r, w')" if "w_stack w \<noteq> []"
  proof -
    obtain x xs where "w_stack w = x # xs" using \<open>w_stack w \<noteq> []\<close> by (cases "w_stack w") auto
    then show ?thesis
      using mv[of "set_reconvergence_pc (set_active_mask (w\<lparr>w_stack := xs\<rparr>) a) b" for a b]
      by (simp add: exec_sync_def pop_simt_stack_def Let_def warp_updates)
  qed
  show "\<exists>r w'. exec_barrier w = Inr (r, w')" if "w_active_mask w = full_mask (length (w_threads w))"
    using mv[of w] mask_count_full[OF assms] that by (auto simp: exec_barrier_def)
qed

context lane_kernel begin

text \<open>The lanes of a warp are where \<open>lp\<close> says, as \<open>L\<close> knows, with their assertions.\<close>

definition holds :: "(nat \<Rightarrow> nat) \<Rightarrow> (nat \<Rightarrow> nat) \<Rightarrow> warp \<Rightarrow> view \<Rightarrow> bool" where
  "holds L lp w M \<longleftrightarrow> (\<forall>i < length (w_threads w). lane (lp i) (w_threads w ! i) M \<and> L (t_global_id (w_threads w ! i)) = lp i)"

lemma holds_shadow: "holds L lp w M \<Longrightarrow> w_threads w' = shadow k pc (w_threads w) \<Longrightarrow> holds L lp w' M"
  unfolding holds_def by (auto simp: nth_shadow lane_pc)

lemma holds_at: "holds L lp w M \<Longrightarrow> t \<in> set (w_threads w) \<Longrightarrow> \<forall>i < length (w_threads w). lp i = q \<Longrightarrow> lane q t M \<and> L (t_global_id t) = q"
  unfolding holds_def by (metis in_set_conv_nth)

text \<open>A warp whose threads are of block \<open>b\<close>.\<close>

definition warp_of :: "size_t \<Rightarrow> warp \<Rightarrow> bool" where
  "warp_of b w \<longleftrightarrow> w_threads w \<noteq> [] \<and> (\<forall>t \<in> set (w_threads w). t_block_id t = b) \<and> distinct (map t_global_id (w_threads w))"

definition ids_of :: "warp \<Rightarrow> nat set" where
  "ids_of w = t_global_id ` set (w_threads w)"

lemma keys_warp_of: "lane_keys w' = lane_keys w \<Longrightarrow> warp_of b w' = warp_of b w" "lane_keys w' = lane_keys w \<Longrightarrow> ids_of w' = ids_of w"
proof -
  have "warp_of b w \<longleftrightarrow> lane_keys w \<noteq> [] \<and> (\<forall>k \<in> set (lane_keys w). fst k = b) \<and> distinct (map snd (lane_keys w))" for w
    by (auto simp: warp_of_def lane_keys_def comp_def)
  then show "lane_keys w' = lane_keys w \<Longrightarrow> warp_of b w' = warp_of b w" by simp
  have "ids_of w = snd ` set (lane_keys w)" for w by (simp add: ids_of_def lane_keys_def image_image)
  then show "lane_keys w' = lane_keys w \<Longrightarrow> ids_of w' = ids_of w" by simp
qed

text \<open>A warp whose lanes pass a control instruction.\<close>

lemma control_moves:
  assumes h: "holds L lp w M" and j: "joint b L M" and b: "warp_of b w"
    and ln: "\<And>i. i < length (w_threads w) \<Longrightarrow> lane (lp' i) (w_threads w ! i) M"
    and mv: "\<And>i. i < length (w_threads w) \<Longrightarrow> lp' i = lp i \<or> moves (w_threads w ! i) (lp i) (lp' i)"
  shows "\<exists>L'. holds L' lp' w M \<and> joint b L' M \<and> (\<forall>id. id \<notin> ids_of w \<longrightarrow> L' id = L id)"
proof -
  have "\<forall>i < length (w_threads w). t_block_id (w_threads w ! i) = b \<and> lane (lp i) (w_threads w ! i) M \<and>
      L (t_global_id (w_threads w ! i)) = lp i \<and> (lp' i = lp i \<or> moves (w_threads w ! i) (lp i) (lp' i))"
    using h b mv by (simp add: holds_def warp_of_def)
  from joint_moves[OF j _ this] b obtain L' where "joint b L' M" "\<forall>i < length (w_threads w). L' (t_global_id (w_threads w ! i)) = lp' i"
    "\<forall>id. id \<notin> ids_of w \<longrightarrow> L' id = L id" by (auto simp: warp_of_def ids_of_def)
  then show ?thesis using ln by (auto simp: holds_def)
qed

text \<open>A data instruction of a warp whose active lanes are all at \<open>q\<close>.\<close>

lemma data_runs:
  assumes h: "holds L lp w (word_at m)" and jt: "joint b L (word_at m)" and b: "warp_of b w" and l32: "length (w_threads w) \<le> 32" and minv: "ms_inv m"
    and q: "q < length code" and data: "lanewise_opcode (inst_opcode (code ! q))"
    and at: "\<And>i. i < length (w_threads w) \<Longrightarrow> bit (w_active_mask w) i \<Longrightarrow> lp i = q"
    and ph: "\<forall>i < length (w_threads w). phase code (lp i) = phase code q"
  shows "\<exists>r w' m' L'. execute (code ! q) w m = Inr (r, w', m') \<and> er_status r = ExecCompleted \<and> control w' = next_control w \<and>
    length (w_threads w') = length (w_threads w) \<and>
    holds L' (\<lambda>i. if bit (w_active_mask w) i then lp i + 1 else lp i) w' (word_at m') \<and> joint b L' (word_at m') \<and>
    (\<forall>id. id \<notin> ids_of w \<longrightarrow> L' id = L id) \<and>
    touches b (word_at m) (word_at m') \<and> spares b (phase code q) (ids_of w) (word_at m) (word_at m')"
proof -
  let ?i = "code ! q" and ?T = "w_threads w" and ?k = "w_active_mask w" and ?M = "word_at m" and ?I = "active_lanes (w_active_mask w) (w_threads w)"
  have ln: "lane (lp j) (?T ! j) ?M" "t_block_id (?T ! j) = b" "L (t_global_id (?T ! j)) = lp j" if "j < length ?T" for j
    using h b that by (auto simp: holds_def warp_of_def)
  have at': "lp j = q" "j < length ?T" if "j \<in> set ?I" for j using that at by (simp_all add: active_lanes_props)
  obtain ts M L' where r: "run_lanes ?i ?I ?T ?M = Inr (ts, M)" "map thread_key ts = map thread_key ?T"
    "\<forall>j < length ?T. lane (if j \<in> set ?I then q + 1 else lp j) (ts ! j) M" "touches b ?M M"
    "spares b (phase code q) (ids_of w) ?M M" "joint b L' M"
    "\<forall>j < length ?T. L' (t_global_id (?T ! j)) = (if j \<in> set ?I then q + 1 else lp j)" "\<forall>id. id \<notin> ids_of w \<longrightarrow> L' id = L id"
    using lanes_run[OF q data active_lanes_props(1), of ?k ?T ?T lp ?M b L] at' ln ph b jt unfolding ids_of_def warp_of_def by blast
  have "one_space ?i {?T ! j, ?T ! j'}" if "j \<in> set ?I" "j' \<in> set ?I" for j j'
    using lane_space[OF _ _ q, of "?T ! j" ?M "?T ! j'"] ln[of j] ln[of j'] at'[OF that(1)] at'[OF that(2)] by simp
  then have "one_space ?i ((!) ?T ` set ?I)" unfolding one_space_def by blast
  from execute_run_lanes[OF l32 data minv r(1) this] obtain r' w' m' where
    ex: "execute ?i w m = Inr (r', w', m')" "er_status r' = ExecCompleted"
    "w_threads w' = shadow ?k (size_add (w_pc w) 1) ts" "word_at m' = M" by blast
  note fr = execute_framed[OF l32 ex(1)]
  have cn: "control w' = next_control w" using fr(2) data by (auto simp: control_opcode_def lanewise_opcode_def)
  have lw: "length (w_threads w') = length ?T" using ex(3) r(2) by (metis length_map length_shadow)
  let ?lp = "\<lambda>j. if bit ?k j then lp j + 1 else lp j"
  have "lane (?lp j) (w_threads w' ! j) (word_at m')" if "j < length (w_threads w')" for j
    using r(3)[rule_format, of j] that lw at[of j] ex(3,4) by (auto simp: active_lanes_props nth_shadow lane_pc split: if_splits)
  moreover have "L' (t_global_id (w_threads w' ! j)) = ?lp j" if "j < length (w_threads w')" for j
  proof -
    have j: "j < length ?T" "j < length ts" using that lw ex(3) by simp_all
    have "thread_key (ts ! j) = thread_key (?T ! j)" using r(2) j by (metis nth_map)
    then have "t_global_id (w_threads w' ! j) = t_global_id (?T ! j)"
      using j(2) by (simp add: ex(3) nth_shadow thread_key_def set_pc_def)
    then show ?thesis using r(7) j(1) at[of j] by (auto simp: active_lanes_props)
  qed
  ultimately have "holds L' ?lp w' (word_at m')" by (simp add: holds_def)
  then show ?thesis using ex(1,2,4) cn lw r(4,5,6,8) by (intro exI[of _ r'] exI[of _ w'] exI[of _ m'] exI[of _ L']) simp
qed

end

end
