(* ===== verification/Block_Runs.thy ===== *)
theory Block_Runs
  imports Lane_Kernels Grid_Props
begin

text \<open>
  From the lanes to an SM. The locale \<open>phased_kernel\<close> adds to the contract of the lanes what a warp
  does with a program: a relation between the warp and the positions of its lanes that every
  instruction keeps. A kernel that meets it meets the contract of the cycle loop: an SM keeps its
  blocks in step through the barriers, whatever the scheduler does, and so every grid of such a
  kernel ends with every lane at the end of the code with its assertion.
\<close>

section \<open>The contract of a warp\<close>

text \<open>
  \<open>ctl w lp\<close>: the lanes of the warp are at the positions \<open>lp\<close>; \<open>parked w lp\<close>: so they are, and it waits
  at a barrier; \<open>left w\<close> bounds the steps that remain.
\<close>

locale phased_kernel = lane_kernel code moves lane joint target region roster
  for code :: "instruction list" and moves :: "thread \<Rightarrow> nat \<Rightarrow> nat \<Rightarrow> bool" and lane :: "nat \<Rightarrow> thread \<Rightarrow> view \<Rightarrow> bool"
    and joint :: "size_t \<Rightarrow> (nat \<Rightarrow> nat) \<Rightarrow> view \<Rightarrow> bool" and target :: "size_t \<Rightarrow> c_int option" and region :: "size_t \<Rightarrow> size_t set" and roster :: "size_t \<Rightarrow> nat list" +
  fixes prog :: "instruction list" and ctl :: "warp \<Rightarrow> (nat \<Rightarrow> nat) \<Rightarrow> bool" and parked :: "warp \<Rightarrow> (nat \<Rightarrow> nat) \<Rightarrow> bool" and left :: "warp \<Rightarrow> nat"
  assumes starts: "w_stack w = [] \<Longrightarrow> w_active_mask w = full_mask (length (w_threads w)) \<Longrightarrow> w_pc w = 0 \<Longrightarrow> ctl w (\<lambda>_. 0)"
    and ctl_same: "ctl w lp \<Longrightarrow> control w' = control w \<Longrightarrow> w_threads w' = w_threads w \<Longrightarrow> ctl w' lp"
    and parked_same: "parked w lp \<Longrightarrow> control w' = control w \<Longrightarrow> w_threads w' = w_threads w \<Longrightarrow> parked w' lp"
    and left_same: "control w' = control w \<Longrightarrow> w_threads w' = w_threads w \<Longrightarrow> left w' = left w"
    and steps: "ctl w lp \<Longrightarrow> holds L lp w (word_at m) \<Longrightarrow> joint b L (word_at m) \<Longrightarrow> warp_of b w \<Longrightarrow> masks_inv w \<Longrightarrow> ms_inv m \<Longrightarrow>
      \<forall>i < length (w_threads w). phase code (lp i) = p \<Longrightarrow> w_pc w < length prog \<Longrightarrow> inst_opcode (prog ! w_pc w) \<noteq> BARRIER \<Longrightarrow>
      \<exists>r w' m' lp' L'. execute (prog ! w_pc w) w m = Inr (r, w', m') \<and> er_status r \<noteq> BarrierReached \<and>
        ctl w' lp' \<and> holds L' lp' w' (word_at m') \<and> joint b L' (word_at m') \<and> (\<forall>id. id \<notin> ids_of w \<longrightarrow> L' id = L id) \<and>
        (\<forall>i < length (w_threads w'). phase code (lp' i) = p) \<and> left w' < left w \<and>
        touches b (word_at m) (word_at m') \<and> spares b p (ids_of w) (word_at m) (word_at m')"
    and ctl_ended: "ctl w lp \<Longrightarrow> length prog \<le> w_pc w \<Longrightarrow> w_stack w = [] \<and> (\<forall>i < length (w_threads w). lp i = length code)"
    and arrives: "ctl w lp \<Longrightarrow> holds L lp w (word_at m) \<Longrightarrow> warp_of b w \<Longrightarrow> masks_inv w \<Longrightarrow> w_pc w < length prog \<Longrightarrow>
      inst_opcode (prog ! w_pc w) = BARRIER \<Longrightarrow>
      \<exists>w1 k pc. execute (prog ! w_pc w) w m = Inr (plain_result BarrierReached, w1, m) \<and> warp_framed w w1 \<and>
        w_threads w1 = shadow k pc (w_threads w) \<and> w_stack w1 = [] \<and> left w1 < left w \<and> parked w1 lp"
    and parked_at: "parked w lp \<Longrightarrow> \<exists>q < length code. inst_opcode (code ! q) = BARRIER \<and> (\<forall>i < length (w_threads w). lp i = q)"
    and parked_goes: "parked w lp \<Longrightarrow> warp_of b w \<Longrightarrow> \<forall>i < length (w_threads w). lp i = q \<Longrightarrow> ctl w (\<lambda>_. q + 1)"

section \<open>Warps of one block\<close>

definition key_block :: "(nat \<times> nat) list \<Rightarrow> nat" where
  "key_block k = fst (hd k)"

lemma filter_concat_disjoint:
  assumes "distinct (concat (filter P ks))" and "i < length ks" "j < length ks" "i \<noteq> j" and "P (ks ! i)" "P (ks ! j)"
  shows "set (ks ! i) \<inter> set (ks ! j) = {}"
  using assms
proof (induction ks arbitrary: i j)
  case (Cons k ks)
  have d: "distinct (concat (filter P ks))" using Cons.prems(1) by (simp split: if_splits)
  have away: "set k \<inter> set (ks ! l) = {}" if "P k" "l < length ks" "P (ks ! l)" for l
  proof -
    have "ks ! l \<in> set (filter P ks)" using that by simp
    then have "set (ks ! l) \<subseteq> set (concat (filter P ks))" by auto
    then show ?thesis using Cons.prems(1) that(1) by auto
  qed
  show ?case
  proof (cases "i = 0 \<or> j = 0")
    case True
    then show ?thesis using away Cons.prems by (cases i; cases j) auto
  next
    case False
    then show ?thesis using Cons.IH[OF d, of "i - 1" "j - 1"] Cons.prems by (cases i; cases j) auto
  qed
qed simp

lemma sum_update:
  assumes "i < length ws"
  shows "summed f (ws[i := w]) + f (ws ! i) = summed f ws + f w"
proof -
  have "f (ws ! i) \<le> sum_list (map f ws)" using assms by (intro member_le_sum_list) auto
  then show ?thesis using assms by (simp add: summed_def map_update sum_list_update)
qed

lemma summed_strict:
  assumes "length ws' = length ws" and "\<And>j. j < length ws \<Longrightarrow> f (ws' ! j) \<le> f (ws ! j)" and "i < length ws" and "f (ws' ! i) < f (ws ! i)"
  shows "summed f ws' < summed f ws"
proof -
  have "(\<Sum>j<length ws. f (ws' ! j)) < (\<Sum>j<length ws. f (ws ! j))"
    using assms by (intro sum_strict_mono_ex1) auto
  then show ?thesis using assms(1) by (simp add: summed_def sum_list_sum_nth atLeast0LessThan)
qed

context phased_kernel begin

text \<open>A warp in phase \<open>p\<close>; one that waits is still at its barrier.\<close>

definition stage :: "nat \<Rightarrow> (nat \<Rightarrow> nat) \<Rightarrow> warp \<Rightarrow> view \<Rightarrow> bool" where
  "stage p L w M \<longleftrightarrow> (\<exists>lp. holds L lp w M \<and> (\<forall>i < length (w_threads w). phase code (lp i) = p) \<and>
     (if w_state w = StalledAtBarrier then parked w lp
      else ctl w lp \<and> (w_state w = Completed \<longrightarrow> (\<forall>i < length (w_threads w). lp i = length code))))"

definition keys_ok :: "(nat \<times> nat) list list \<Rightarrow> bool" where
  "keys_ok ks \<longleftrightarrow> (\<forall>k \<in> set ks. k \<noteq> [] \<and> (\<forall>x \<in> set k. fst x = key_block k)) \<and>
     (\<forall>b. (\<exists>k \<in> set ks. key_block k = b) \<longrightarrow> map snd (concat (filter (\<lambda>k. key_block k = b) ks)) = roster b)"

definition in_phase :: "size_t \<Rightarrow> warp list \<Rightarrow> view \<Rightarrow> bool" where
  "in_phase b ws M \<longleftrightarrow> (\<exists>p L. joint b L M \<and> (\<forall>w \<in> set ws. of_block b w \<longrightarrow> stage p L w M) \<and>
     (\<exists>w \<in> set ws. of_block b w \<and> w_state w \<noteq> StalledAtBarrier))"

definition okay :: "warp list \<Rightarrow> shared_memory \<Rightarrow> global_memory \<Rightarrow> bool" where
  "okay ws sh g \<longleftrightarrow> keys_ok (map lane_keys ws) \<and>
     (\<forall>b. resident b ws \<longrightarrow> in_phase b ws (space sh g))"

definition waiting :: "thread_block \<Rightarrow> shared_memory \<Rightarrow> global_memory \<Rightarrow> bool" where
  "waiting b sh g \<longleftrightarrow> joint (tb_id b) (\<lambda>_. 0) (space sh g) \<and> tb_warps b \<noteq> [] \<and> map snd (concat (map lane_keys (tb_warps b))) = roster (tb_id b) \<and>
     (\<forall>w \<in> set (tb_warps b). w_threads w \<noteq> [] \<and> (\<forall>t \<in> set (w_threads w). t_block_id t = tb_id b) \<and>
        w_state w \<noteq> StalledAtBarrier \<and> stage 0 (\<lambda>_. 0) w (space sh g))"

definition grows :: "global_memory \<Rightarrow> global_memory \<Rightarrow> bool" where
  "grows g g' \<longleftrightarrow> (\<forall>a < SHARED_MEM_BASE. gm_load g' a = gm_load g a \<or> (\<exists>v. target a = Some v \<and> gm_load g' a = Inr v))"

definition works :: "warp \<Rightarrow> nat" where
  "works w = left w + (if w_state w = Completed then 0 else 1)"

definition ended :: "warp \<Rightarrow> global_memory \<Rightarrow> bool" where
  "ended w g \<longleftrightarrow> (\<exists>sh. \<forall>t \<in> set (w_threads w). lane (length code) t (space sh g))"

section \<open>The parts of the invariant\<close>

lemma grows_change: "grows g g' \<Longrightarrow> change target mine (space sh g) (space sh g')"
  by (auto simp: grows_def change_def space_def)

lemma touches_grows: "touches b (space sh g) (space sh' g') \<Longrightarrow> grows g g'"
  unfolding grows_def
proof (intro allI impI)
  fix a assume t: "touches b (space sh g) (space sh' g')" and a: "a < SHARED_MEM_BASE"
  then show "gm_load g' a = gm_load g a \<or> (\<exists>v. target a = Some v \<and> gm_load g' a = Inr v)"
    unfolding change_def by (metis not_less space_def)
qed

lemma holds_other: "holds L lp w M \<Longrightarrow> warp_of b' w \<Longrightarrow> touches b M M' \<Longrightarrow> b \<noteq> b' \<Longrightarrow> holds L lp w M'"
  unfolding holds_def warp_of_def using lane_other by (metis nth_mem)

lemma stage_other: "stage p L w M \<Longrightarrow> warp_of b' w \<Longrightarrow> touches b M M' \<Longrightarrow> b \<noteq> b' \<Longrightarrow> stage p L w M'"
  unfolding stage_def using holds_other by blast

lemma stage_spared:
  assumes s: "stage p L w M" and b: "warp_of b w" and sp: "spares b p ids M M'" and d: "ids_of w \<inter> ids = {}"
    and L: "\<forall>id. id \<notin> ids \<longrightarrow> L' id = L id"
  shows "stage p L' w M'"
proof -
  have "holds L' lp w M'" if h: "holds L lp w M" and ph: "\<forall>i < length (w_threads w). phase code (lp i) = p" for lp
    unfolding holds_def
  proof (intro allI impI)
    fix i assume i: "i < length (w_threads w)"
    have "t_global_id (w_threads w ! i) \<notin> ids" "t_block_id (w_threads w ! i) = b"
      using d b nth_mem[OF i] by (auto simp: ids_of_def warp_of_def simp del: nth_mem)
    then show "lane (lp i) (w_threads w ! i) M' \<and> L' (t_global_id (w_threads w ! i)) = lp i"
      using sp h ph i L by (simp add: spares_def holds_def)
  qed
  then show ?thesis using s unfolding stage_def by blast
qed

lemma stage_grows: "stage p L w (space sh g) \<Longrightarrow> grows g g' \<Longrightarrow> stage p L w (space sh g')"
proof -
  assume s: "stage p L w (space sh g)" and g: "grows g g'"
  have "holds L lp w (space sh g')" if h: "holds L lp w (space sh g)" for lp
    unfolding holds_def
  proof (intro allI impI)
    fix i assume i: "i < length (w_threads w)"
    then have "lane (lp i) (w_threads w ! i) (space sh g)" using h by (simp add: holds_def)
    then have "lane (lp i) (w_threads w ! i) (space sh g')" by (rule lane_apart) (rule grows_change[OF g])
    then show "lane (lp i) (w_threads w ! i) (space sh g') \<and> L (t_global_id (w_threads w ! i)) = lp i"
      using h i by (simp add: holds_def)
  qed
  then show ?thesis using s unfolding stage_def by blast
qed

lemma joint_grows: "joint b L (space sh g) \<Longrightarrow> grows g g' \<Longrightarrow> joint b L (space sh g')"
  using joint_apart grows_change by blast

lemma in_phase_grows: "in_phase b ws (space sh g) \<Longrightarrow> grows g g' \<Longrightarrow> in_phase b ws (space sh g')"
  unfolding in_phase_def using stage_grows joint_grows by meson

text \<open>Ticking and waiting change nothing the assertions speak of.\<close>

definition in_step :: "warp \<Rightarrow> warp \<Rightarrow> bool" where
  "in_step w w' \<longleftrightarrow> same_core w w' \<and> (w_state w' = StalledAtBarrier \<longleftrightarrow> w_state w = StalledAtBarrier) \<and>
     (w_state w' = Completed \<longleftrightarrow> w_state w = Completed)"

lemma in_step_keys: "in_step w w' \<Longrightarrow> lane_keys w' = lane_keys w"
  using same_core_keys by (simp add: in_step_def)

lemma in_step_works: "in_step w w' \<Longrightarrow> works w' = works w"
  using left_same[of w' w] by (auto simp: in_step_def same_core_def works_def control_def)

lemma in_step_stage: "in_step w w' \<Longrightarrow> stage p L w M \<Longrightarrow> stage p L w' M"
proof -
  assume i: "in_step w w'" and s: "stage p L w M"
  have c: "control w' = control w" "w_threads w' = w_threads w" "w_pc w' = w_pc w" "w_stack w' = w_stack w"
    "w_active_mask w' = w_active_mask w"
    using i by (auto simp: in_step_def same_core_def control_def)
  then have "ctl w lp \<Longrightarrow> ctl w' lp" "parked w lp \<Longrightarrow> parked w' lp" for lp using ctl_same[of w lp w'] parked_same[of w lp w'] by simp_all
  then show ?thesis using s i unfolding stage_def holds_def c in_step_def by metis
qed

lemma keys_ok_warps:
  assumes "keys_ok (map lane_keys ws)" and i: "i < length ws" and b: "of_block b (ws ! i)"
  shows "warp_of b (ws ! i)"
    and "j < length ws \<Longrightarrow> j \<noteq> i \<Longrightarrow> of_block b (ws ! j) \<Longrightarrow> ids_of (ws ! i) \<inter> ids_of (ws ! j) = {}"
    and "map t_global_id (concat (map w_threads (members b ws))) = roster b"
proof -
  let ?ks = "map lane_keys ws"
  have ne: "lane_keys w \<noteq> []" and fs: "\<forall>x \<in> set (lane_keys w). fst x = key_block (lane_keys w)" if "w \<in> set ws" for w
    using assms(1) that by (auto simp: keys_ok_def)
  have ob: "of_block b w \<longleftrightarrow> key_block (lane_keys w) = b" if "w \<in> set ws" for b w
    using ne[OF that] by (simp add: of_block_keys key_block_def)
  have rb: "map snd (concat (filter (\<lambda>k. key_block k = b) ?ks)) = roster b"
    using assms(1) i b ob[of "ws ! i" b] unfolding keys_ok_def by (metis length_map nth_map nth_mem)
  have fst_b: "fst x = b" if "k \<in> set (filter (\<lambda>k. key_block k = b) ?ks)" "x \<in> set k" for k x
    using assms(1) that by (auto simp: keys_ok_def)
  have dist: "distinct (concat (filter (\<lambda>k. key_block k = b) ?ks))"
    using distinct_roster[of b] unfolding rb[symmetric] distinct_map by (rule conjunct1)
  have dm: "distinct (map snd (lane_keys (ws ! i)))"
  proof -
    have "lane_keys (ws ! i) \<in> set (filter (\<lambda>k. key_block k = b) ?ks)" using i b ob by simp
    then obtain xs ys where "filter (\<lambda>k. key_block k = b) ?ks = xs @ lane_keys (ws ! i) # ys" by (meson split_list)
    then show ?thesis using distinct_roster[of b] unfolding rb[symmetric] by simp
  qed
  show "warp_of b (ws ! i)"
  proof -
    have "ws ! i \<in> set ws" using i by simp
    from ne[OF this] fs[OF this] ob[OF this, of b] b dm show ?thesis by (auto simp: warp_of_def lane_keys_def comp_def)
  qed
  show "ids_of (ws ! i) \<inter> ids_of (ws ! j) = {}" if "j < length ws" "j \<noteq> i" "of_block b (ws ! j)"
  proof -
    have "set (lane_keys (ws ! i)) \<inter> set (lane_keys (ws ! j)) = {}"
      using filter_concat_disjoint[OF dist, of i j] i b that ob by simp
    moreover have "fst x = b" if "x \<in> set (lane_keys (ws ! i)) \<or> x \<in> set (lane_keys (ws ! j))" for x
    proof -
      have "ws ! i \<in> set ws" "ws ! j \<in> set ws" using i \<open>j < length ws\<close> by simp_all
      with fs[of "ws ! i"] fs[of "ws ! j"] ob[of "ws ! i" b] ob[of "ws ! j" b] b \<open>of_block b (ws ! j)\<close> that show ?thesis by metis
    qed
    moreover have "ids_of w = snd ` set (lane_keys w)" for w by (simp add: ids_of_def lane_keys_def image_image)
    ultimately show ?thesis by auto (metis disjoint_iff prod.collapse snd_conv)
  qed
  have "filter (\<lambda>k. key_block k = b) ?ks = map lane_keys (members b ws)"
    unfolding members_def filter_map comp_def using ob by (metis (mono_tags, lifting) filter_cong)
  then have "roster b = map snd (concat (map lane_keys (members b ws)))" using rb by simp
  then show "map t_global_id (concat (map w_threads (members b ws))) = roster b"
    by (simp add: map_concat lane_keys_def comp_def)
qed

end

section \<open>Issuing an instruction\<close>

context phased_kernel begin

text \<open>One warp changes and spares the others; or no word changes and a whole block moves on.\<close>

lemma okay_update:
  assumes ok: "okay ws sh g" and i: "i < length ws" and b: "of_block b (ws ! i)" and keys: "lane_keys w' = lane_keys (ws ! i)"
    and p: "\<forall>w \<in> set ws. of_block b w \<longrightarrow> stage p L w (space sh g)" and st: "stage p L' w' (space sh' g')"
    and t: "touches b (space sh g) (space sh' g')" and sp: "spares b p (ids_of (ws ! i)) (space sh g) (space sh' g')"
    and jt: "joint b L' (space sh' g')" and L: "\<forall>id. id \<notin> ids_of (ws ! i) \<longrightarrow> L' id = L id"
    and awake: "\<exists>w \<in> set (ws[i := w']). of_block b w \<and> w_state w \<noteq> StalledAtBarrier"
  shows "okay (ws[i := w']) sh' g'"
proof -
  have k: "map lane_keys (ws[i := w']) = map lane_keys ws" using i by (simp add: map_update keys) (metis list_update_id nth_map)
  have ks: "keys_ok (map lane_keys ws)" using ok by (simp add: okay_def)
  have bw': "of_block c w' = of_block c (ws ! i)" for c by (simp add: of_block_keys keys)
  have res: "resident c (ws[i := w']) = resident c ws" for c using resident_keys[OF k] .
  have "in_phase c (ws[i := w']) (space sh' g')" if c: "resident c ws" for c
  proof (cases "c = b")
    case True
    have "stage p L' w (space sh' g')" if "w \<in> set (ws[i := w'])" "of_block b w" for w
    proof -
      obtain j where j: "j < length ws" "w = ws[i := w'] ! j" using \<open>w \<in> set (ws[i := w'])\<close> by (auto simp: in_set_conv_nth)
      show ?thesis
      proof (cases "j = i")
        case False
        then have w: "w = ws ! j" using j by simp
        have "ids_of w \<inter> ids_of (ws ! i) = {}" using keys_ok_warps(2)[OF ks i b j(1) False] that(2) by (auto simp: w)
        moreover have "stage p L w (space sh g)" using p j(1) that(2) by (simp add: w)
        moreover have "warp_of b w" using keys_ok_warps(1)[OF ks j(1)] that(2) by (simp add: w)
        ultimately show ?thesis using stage_spared[OF _ _ sp _ L] by blast
      qed (use st j in simp)
    qed
    then show ?thesis using awake jt True unfolding in_phase_def by blast
  next
    case False
    obtain q K where q: "\<forall>w \<in> set ws. of_block c w \<longrightarrow> stage q K w (space sh g)"
      "\<exists>w \<in> set ws. of_block c w \<and> w_state w \<noteq> StalledAtBarrier" "joint c K (space sh g)" using ok c unfolding okay_def in_phase_def by blast
    have nc: "\<not> of_block c (ws ! i)" using b False by (auto dest: of_block_unique)
    have mem: "w \<in> set (ws[i := w']) \<longleftrightarrow> w \<in> set ws" if "of_block c w" for w
    proof -
      have "ws[i := w'] ! j = w \<longleftrightarrow> ws ! j = w" if "j < length ws" for j
        using \<open>of_block c w\<close> nc bw' that by (cases "j = i") auto
      then show ?thesis unfolding in_set_conv_nth length_list_update by blast
    qed
    have "stage q K w (space sh' g')" if "w \<in> set (ws[i := w'])" "of_block c w" for w
    proof -
      have w: "w \<in> set ws" using mem that by simp
      then obtain j where j: "j < length ws" "w = ws ! j" by (auto simp: in_set_conv_nth)
      have "warp_of c w" using keys_ok_warps(1)[OF ks j(1)] that(2) by (simp add: j(2))
      with q(1) w that(2) t False show ?thesis using stage_other by blast
    qed
    moreover have "joint c K (space sh' g')" using joint_other[OF q(3) t] False by simp
    ultimately show ?thesis using q(2) mem unfolding in_phase_def by blast
  qed
  then show ?thesis using ks by (simp add: okay_def k res)
qed

lemma waiting_touches:
  assumes "waiting c sh g" and "touches b (space sh g) (space sh' g')" and "tb_id c \<noteq> b"
  shows "waiting c sh' g'"
proof -
  have "holds L lp w (space sh' g')" if "w \<in> set (tb_warps c)" "holds L lp w (space sh g)" for L lp w
    unfolding holds_def
  proof (intro allI impI)
    fix j assume j: "j < length (w_threads w)"
    then have "t_block_id (w_threads w ! j) = tb_id c" using assms(1) that(1) by (simp add: waiting_def)
    then show "lane (lp j) (w_threads w ! j) (space sh' g') \<and> L (t_global_id (w_threads w ! j)) = lp j"
      using lane_other[OF _ assms(2)] that(2) j assms(3) by (simp add: holds_def)
  qed
  then have "stage 0 (\<lambda>_. 0) w (space sh' g')" if "w \<in> set (tb_warps c)" for w
    using assms(1) that unfolding waiting_def stage_def by blast
  moreover have "joint (tb_id c) (\<lambda>_. 0) (space sh' g')" using joint_other[OF _ assms(2)] assms(1,3) by (auto simp: waiting_def)
  ultimately show ?thesis using assms(1) by (simp add: waiting_def)
qed

text \<open>Leaving \<open>tick\<close>: a warp at the end completes, another one may stall for its latency.\<close>

lemma update_stage:
  assumes c: "ctl w lp" and h: "holds L lp w M" and ph: "\<forall>i < length (w_threads w). phase code (lp i) = p" and rd: "w_state w = Ready"
  shows "\<exists>w'. update_warp_state (length prog) r w = Inr w' \<and> stage p L w' M \<and> w_state w' \<noteq> StalledAtBarrier \<and>
    lane_keys w' = lane_keys w \<and> works w' \<le> left w + 1"
proof -
  define w' where "w' = (if w_pc w \<ge> length prog then set_completed w
    else if er_status r \<noteq> BarrierReached \<and> er_latency r > 1 then stall w (er_latency r - 1) else w)"
  have up: "update_warp_state (length prog) r w = Inr w'"
    using ctl_ended[OF c] rd by (auto simp: update_warp_state_def pop_simt_stack_def w'_def)
  have core: "same_core w w'" by (simp add: w'_def)
  have st: "w_state w' \<noteq> StalledAtBarrier" "w_state w' = Completed \<Longrightarrow> w_pc w \<ge> length prog"
    using rd by (auto simp: w'_def transition_defs split: if_splits)
  have e: "control w' = control w" "w_threads w' = w_threads w" using core by (auto simp: same_core_def control_def)
  have "stage p L w' M"
    unfolding stage_def using st h ph ctl_same[OF c e] ctl_ended[OF c] e(2)
    by (intro exI[of _ lp]) (auto simp: holds_def)
  moreover have "works w' \<le> left w + 1" using left_same[OF e] by (simp add: works_def)
  ultimately show ?thesis using up st(1) same_core_keys[OF core] by blast
qed

end

section \<open>Barriers\<close>

context phased_kernel begin

lemma barrier_same: "w_threads (set_stalled_at_barrier w) = w_threads w" "control (set_stalled_at_barrier w) = control w"
    "w_state (set_stalled_at_barrier w) = StalledAtBarrier" "w_stack (set_stalled_at_barrier w) = w_stack w"
  by (simp_all add: set_stalled_at_barrier_def reset_wait_cycles_def control_def)

lemma ready_same: "w_threads (set_ready w c) = w_threads w" "control (set_ready w c) = control w" "w_state (set_ready w c) = Ready"
    "lane_keys (set_ready w c) = lane_keys w"
  by (simp_all add: set_ready_def lane_keys_def control_def)

lemma ready_left: "left (set_ready w c) = left w"
  by (rule left_same) (simp_all add: ready_same)

text \<open>A warp that arrives at a barrier.\<close>

lemma arrival:
  assumes c: "ctl w lp" and h: "holds L lp w (word_at m)" and b: "warp_of b w" and inv: "masks_inv w" and pc: "w_pc w < length prog"
    and oc: "inst_opcode (prog ! w_pc w) = BARRIER" and ph: "\<forall>i < length (w_threads w). phase code (lp i) = p"
  shows "\<exists>w1. execute (prog ! w_pc w) w m = Inr (plain_result BarrierReached, w1, m) \<and> warp_framed w w1 \<and>
    w_stack w1 = [] \<and> left w1 < left w \<and> stage p L (set_stalled_at_barrier w1) (word_at m)"
proof -
  obtain w1 k pc where x: "execute (prog ! w_pc w) w m = Inr (plain_result BarrierReached, w1, m)" "warp_framed w w1"
    "w_threads w1 = shadow k pc (w_threads w)" "w_stack w1 = []" "left w1 < left w" "parked w1 lp" using arrives[OF c h b inv pc oc] by blast
  have "holds L lp w1 (word_at m)" using holds_shadow[OF h x(3)] .
  moreover have "parked (set_stalled_at_barrier w1) lp" by (rule parked_same[OF x(6)]) (simp_all add: barrier_same)
  moreover have "length (w_threads w1) = length (w_threads w)" using x(3) by simp
  ultimately have "stage p L (set_stalled_at_barrier w1) (word_at m)"
    unfolding stage_def using ph by (intro exI[of _ lp]) (simp add: holds_def barrier_same)
  then show ?thesis using x by blast
qed

text \<open>All warps of a block wait, and go on together.\<close>

lemma release_stage:
  assumes st: "\<forall>w \<in> set ms. stage p L w M \<and> w_state w = StalledAtBarrier \<and> warp_of b w" and jt: "joint b L M"
    and ros: "map t_global_id (concat (map w_threads ms)) = roster b" and ne: "ms \<noteq> []"
  shows "\<exists>L'. joint b L' M \<and> (\<forall>w \<in> set ms. stage (p + 1) L' (set_ready w now) M \<and>
    (\<exists>lp. ctl (set_ready w now) lp \<and> holds L' lp (set_ready w now) M \<and> (\<forall>i < length (w_threads w). phase code (lp i) = p + 1)))"
proof -
  have at: "\<exists>q lp. parked v lp \<and> holds L lp v M \<and> q < length code \<and> inst_opcode (code ! q) = BARRIER \<and> phase code q = p \<and>
      (\<forall>i < length (w_threads v). lp i = q)" if v: "v \<in> set ms" for v
  proof -
    have s: "stage p L v M" "w_state v = StalledAtBarrier" "0 < length (w_threads v)" using st v by (auto simp: warp_of_def)
    obtain lp where lp: "holds L lp v M" "\<forall>i < length (w_threads v). phase code (lp i) = p" "parked v lp"
      using s(1) unfolding stage_def s(2) simp_thms if_True by blast
    from parked_at[OF lp(3)] lp s(3) show ?thesis by metis
  qed
  obtain q where q: "q < length code" "inst_opcode (code ! q) = BARRIER" "phase code q = p"
    using at[OF hd_in_set[OF ne]] by blast
  have here: "\<exists>lp. parked v lp \<and> holds L lp v M \<and> (\<forall>i < length (w_threads v). lp i = q)" if v: "v \<in> set ms" for v
    using at[OF v] phase_barrier[of code q] q by metis
  let ?ts = "concat (map w_threads ms)"
  have all: "t_block_id t = b \<and> lane q t M \<and> L (t_global_id t) = q" if t: "t \<in> set ?ts" for t
  proof -
    obtain v where v: "v \<in> set ms" "t \<in> set (w_threads v)" using t by auto
    then show ?thesis using here[OF v(1)] holds_at st by (auto simp: warp_of_def)
  qed
  then have ab: "\<forall>t \<in> set ?ts. t_block_id t = b \<and> lane q t M" and aL: "\<forall>t \<in> set ?ts. L (t_global_id t) = q" by blast+
  note ln = lane_barrier[OF q(1,2) ab ros jt aL]
  have dist: "distinct (map t_global_id ?ts)" using ros distinct_roster by simp
  have "\<forall>i < length ?ts. t_block_id (?ts ! i) = b \<and> lane q (?ts ! i) M \<and> L (t_global_id (?ts ! i)) = q \<and>
      (q + 1 = q \<or> moves (?ts ! i) q (q + 1))"
    using all[OF nth_mem] barrier_moves[OF q(1,2)] by simp
  from joint_moves[where lp = "\<lambda>_. q" and lp' = "\<lambda>_. q + 1", OF jt dist this] obtain L' where L': "joint b L' M"
    "\<forall>i < length ?ts. L' (t_global_id (?ts ! i)) = q + 1" by blast
  then have L2: "L' (t_global_id t) = q + 1" if "t \<in> set ?ts" for t using that by (metis in_set_conv_nth)
  have ph: "phase code (q + 1) = p + 1" using phase_Suc[OF q(1)] q(2,3) by simp
  have "stage (p + 1) L' (set_ready w now) M \<and>
      (\<exists>lp. ctl (set_ready w now) lp \<and> holds L' lp (set_ready w now) M \<and> (\<forall>i < length (w_threads w). phase code (lp i) = p + 1))"
    if w: "w \<in> set ms" for w
  proof -
    let ?r = "set_ready w now"
    obtain lp where lp: "parked w lp" "\<forall>i < length (w_threads w). lp i = q" using here[OF w] by blast
    have "ctl w (\<lambda>_. q + 1)" using parked_goes[OF lp(1) _ lp(2)] st w by blast
    then have c: "ctl ?r (\<lambda>_. q + 1)" by (rule ctl_same) (simp_all add: ready_same)
    have "t \<in> set ?ts" if "t \<in> set (w_threads w)" for t using w that by auto
    then have h: "holds L' (\<lambda>_. q + 1) ?r M" using ln L2 by (auto simp: holds_def ready_same)
    have "stage (p + 1) L' ?r M" unfolding stage_def using c h ph by (intro exI[of _ "\<lambda>_. q + 1"]) (simp add: ready_same)
    then show ?thesis using c h ph by blast
  qed
  then show ?thesis using L'(1) by blast
qed

end

section \<open>One cycle\<close>

text \<open>The steps of an issued instruction.\<close>

lemma issue_steps:
  assumes "k_instructions k = prog" and "w_pc (sm_warps s ! i) < length prog"
    and "execute (prog ! w_pc (sm_warps s ! i)) (sm_warps s ! i) m = Inr (r, w1, m1)"
    and "s1 = s\<lparr>sm_warps := (sm_warps s)[i := w1],
      sm_counters := count_result (sm_id s) w1 (prog ! w_pc (sm_warps s ! i)) r (sm_counters s)\<rparr>"
    and "(if er_status r = BarrierReached then handle_barrier_arrival i s1 else Inr s1) = Inr s2"
    and "update_warp_state (length prog) r (sm_warps s2 ! i) = Inr w2"
    and "s' = s2\<lparr>sm_warps := (sm_warps s2)[i := w2], sm_counters := increment_instructions_retired
      ((add_stall WriteConflict ^^ er_write_conflict_stalls r) (sm_counters s2))\<rparr>"
  shows "issue k i s m = Inr (s', m1)"
proof -
  have "(w_pc (sm_warps s ! i) \<ge> length prog) = False" using assms(2) by simp
  then show ?thesis
    by (simp only: issue_def Let_def assms(1) if_False assms(3) bindE_Inr prod.case assms(4)[symmetric] assms(5,6,7))
qed

context phased_kernel begin

lemma release_okay:
  assumes ok: "okay ws sh g" and i: "i < length ws" and b: "of_block b (ws ! i)"
    and len: "length ws' = length ws" and keys: "map lane_keys ws' = map lane_keys ws"
    and same: "\<And>j. j < length ws \<Longrightarrow> \<not> of_block b (ws ! j) \<Longrightarrow> ws' ! j = ws ! j"
    and st: "\<And>j. j < length ws \<Longrightarrow> of_block b (ws ! j) \<Longrightarrow> stage q L (ws' ! j) (space sh g)" and jt: "joint b L (space sh g)"
    and aw: "w_state (ws' ! i) \<noteq> StalledAtBarrier"
  shows "okay ws' sh g"
proof -
  have ob: "of_block c (ws' ! j) = of_block c (ws ! j)" if "j < length ws" for c j
    using arg_cong[OF keys, of "\<lambda>ks. ks ! j"] that len by (simp add: of_block_keys)
  have "in_phase c ws' (space sh g)"
    if c: "resident c ws" for c
  proof (cases "c = b")
    case True
    have "ws' ! i \<in> set ws'" "of_block b (ws' ! i)" using i len ob[OF i, of b] b by simp_all
    moreover have "\<forall>w \<in> set ws'. of_block b w \<longrightarrow> stage q L w (space sh g)"
      using st ob len unfolding in_set_conv_nth by (auto simp: Ball_def in_set_conv_nth)
    ultimately show ?thesis using aw True jt unfolding in_phase_def by blast
  next
    case False
    have nb: "\<not> of_block b (ws ! j)" if "of_block c (ws ! j)" for j using that False by (auto dest: of_block_unique)
    have "w \<in> set ws' \<longleftrightarrow> w \<in> set ws" if "of_block c w" for w
    proof -
      have "ws' ! j = w \<longleftrightarrow> ws ! j = w" if "j < length ws" for j
        using same[OF that] ob[OF that, of c] nb[of j] \<open>of_block c w\<close> by auto
      then show ?thesis unfolding in_set_conv_nth len by blast
    qed
    moreover have "in_phase c ws (space sh g)" using ok c by (simp add: okay_def)
    ultimately show ?thesis unfolding in_phase_def by blast
  qed
  then show ?thesis using ok resident_keys[OF keys] by (simp add: okay_def keys)
qed

lemma completed_phase: "stage p L w M \<Longrightarrow> warp_of b w \<Longrightarrow> w_state w = Completed \<Longrightarrow> phase code (length code) = p"
proof -
  assume st: "stage p L w M" and b: "warp_of b w" and c: "w_state w = Completed"
  then obtain lp where lp: "\<forall>i < length (w_threads w). phase code (lp i) = p" "\<forall>i < length (w_threads w). lp i = length code"
    unfolding stage_def by auto
  have "0 < length (w_threads w)" using b by (simp add: warp_of_def)
  then show ?thesis using lp by metis
qed

text \<open>A warp at a barrier waits, or lets its block go on.\<close>

lemma barrier_okay:
  assumes k: "k_instructions k = prog" and i: "i < length (sm_warps s)"
    and rd: "w_state (sm_warps s ! i) = Ready" and ok: "okay (sm_warps s) (ms_shared m) (ms_global m)"
    and b: "of_block b (sm_warps s ! i)" and p: "\<forall>w \<in> set (sm_warps s). of_block b w \<longrightarrow> stage p L w (word_at m)"
    and jt: "joint b L (word_at m)" and lp: "ctl (sm_warps s ! i) lp" "holds L lp (sm_warps s ! i) (word_at m)"
    and ph: "\<forall>j < length (w_threads (sm_warps s ! i)). phase code (lp j) = p"
    and inv: "masks_inv (sm_warps s ! i)" and pc: "w_pc (sm_warps s ! i) < length prog"
    and oc: "inst_opcode (prog ! w_pc (sm_warps s ! i)) = BARRIER"
  shows "\<exists>s'. issue k i s m = Inr (s', m) \<and> sm_scheduler s' = sm_scheduler s \<and>
    okay (sm_warps s') (ms_shared m) (ms_global m) \<and> map lane_keys (sm_warps s') = map lane_keys (sm_warps s) \<and>
    summed works (sm_warps s') < summed works (sm_warps s)"
proof -
  let ?ws = "sm_warps s" and ?w = "sm_warps s ! i" and ?n = "length prog" and ?M = "word_at m" and ?r = "plain_result BarrierReached"
  have wb: "warp_of b ?w" using keys_ok_warps(1)[OF _ i b] ok by (simp add: okay_def)
  from arrival[OF lp wb inv pc oc ph] obtain w1 where ex: "execute (prog ! w_pc ?w) ?w m = Inr (?r, w1, m)" and fr: "warp_framed ?w w1"
    and w1: "w_stack w1 = []" "left w1 < left ?w" and st: "stage p L (set_stalled_at_barrier w1) ?M" by blast
  let ?v = "set_stalled_at_barrier w1"
  have v: "lane_keys ?v = lane_keys ?w" "w_state ?v = StalledAtBarrier" "w_stack ?v = []" "left ?v = left w1"
    using framed_keys[OF fr] w1(1) left_same[OF barrier_same(2,1)] by (simp_all add: barrier_same lane_keys_def)
  define s1 where "s1 = s\<lparr>sm_warps := ?ws[i := w1], sm_counters := count_result (sm_id s) w1 (prog ! w_pc ?w) ?r (sm_counters s)\<rparr>"
  define A where "A = ?ws[i := ?v]"
  define now where "now = pf_cycles (sm_counters s1)"
  have s1: "i < length (sm_warps s1)" "of_block b (sm_warps s1 ! i)" "arrived i s1 = A"
    using i b framed_keys[OF fr] by (simp_all add: s1_def A_def arrived_def of_block_keys)
  have A: "length A = length ?ws" "A ! i = ?v" "\<And>j. j \<noteq> i \<Longrightarrow> A ! j = ?ws ! j" using i by (simp_all add: A_def)
  have keys: "map lane_keys A = map lane_keys ?ws" using i v(1) by (simp add: A_def map_update) (metis list_update_id nth_map)
  have obA: "of_block c (A ! j) = of_block c (?ws ! j)" if "j < length ?ws" for c j
    using v(1) A by (cases "j = i") (simp_all add: of_block_keys)
  have stA: "stage p L (A ! j) ?M" if "j < length ?ws" "of_block b (?ws ! j)" for j
    using st p that A by (cases "j = i") simp_all
  have ks: "keys_ok (map lane_keys A)" using ok by (simp add: okay_def keys)
  have wA: "warp_of b (A ! j)" if "j < length ?ws" "of_block b (?ws ! j)" for j
    using keys_ok_warps(1)[OF ks, of j b] that obA A(1) by simp
  note arr = barrier_arrival[OF s1(1,2), unfolded s1(3) now_def[symmetric]]
  have wk: "works ?w = left ?w + 1" using rd by (simp add: works_def)
  show ?thesis
  proof (cases "\<exists>w \<in> set (members b A). w_state w \<noteq> StalledAtBarrier \<and> w_state w \<noteq> Completed")
    case True
    then have awake: "\<exists>w \<in> set (?ws[i := ?v]). of_block b w \<and> w_state w \<noteq> StalledAtBarrier"
      by (auto simp: members_def A_def)
    have up: "update_warp_state ?n ?r ?v = Inr ?v" using v(2,3)
      by (simp add: update_warp_state_def pop_simt_stack_def plain_result_def)
    define s2 where "s2 = s1\<lparr>sm_warps := A[i := ?v], sm_counters := increment_instructions_retired
        ((add_stall WriteConflict ^^ er_write_conflict_stalls ?r) (sm_counters s1))\<rparr>"
    have "handle_barrier_arrival i s1 = Inr (s1\<lparr>sm_warps := A\<rparr>)" using arr True by simp
    then have "issue k i s m = Inr (s2, m)"
      by (intro issue_steps[OF k pc ex s1_def, of "s1\<lparr>sm_warps := A\<rparr>" ?v]) (use up A(2) in \<open>simp_all add: plain_result_def s2_def\<close>)
    moreover have "okay A (ms_shared m) (ms_global m)" unfolding A_def
      by (rule okay_update[OF ok i b v(1) p[unfolded word_at_space] st[unfolded word_at_space] change_refl spares_refl jt[unfolded word_at_space] _ awake]) simp
    moreover have "works ?v < works ?w" using w1(2) wk v(2,4) by (simp add: works_def)
    then have "summed works A < summed works ?ws" using sum_update[OF i, of works ?v] by (simp add: A_def)
    ultimately show ?thesis using keys by (intro exI[of _ s2]) (simp add: s2_def s1_def A_def)
  next
    case False
    have nc: "w_state (A ! j) = StalledAtBarrier" if j: "j < length ?ws" "of_block b (?ws ! j)" for j
    proof (rule ccontr)
      assume ns: "w_state (A ! j) \<noteq> StalledAtBarrier"
      have "A ! j \<in> set (members b A)" using j obA A(1) by (simp add: members_def)
      then have "w_state (A ! j) = Completed" using False ns by blast
      from completed_phase[OF stA[OF j] wA[OF j] this] have "phase code (length code) = p" .
      moreover obtain lq where lq: "parked ?v lq" "\<forall>j < length (w_threads ?v). phase code (lq j) = p"
        using st unfolding stage_def v(2) simp_thms if_True by blast
      moreover have "0 < length (w_threads ?v)" using wA[OF i b] A(2) by (simp add: warp_of_def)
      moreover from parked_at[OF lq(1)] obtain q where q: "q < length code" "inst_opcode (code ! q) = BARRIER" "\<forall>j < length (w_threads ?v). lq j = q" by blast
      moreover have "phase code (q + 1) \<le> phase code (length code)" using q(1) by (intro phase_mono) simp
      ultimately show False using phase_Suc[OF q(1)] by auto
    qed
    have mem: "\<exists>j < length ?ws. of_block b (?ws ! j) \<and> w = A ! j" if "w \<in> set (members b A)" for w
      using that obA A(1) by (auto simp: members_def in_set_conv_nth)
    have ms: "\<forall>w \<in> set (members b A). stage p L w ?M \<and> w_state w = StalledAtBarrier \<and> warp_of b w"
      using mem stA nc wA by blast
    have ros: "map t_global_id (concat (map w_threads (members b A))) = roster b"
      using keys_ok_warps(3)[OF ks, of i b] i b obA A(1) by simp
    have inA: "A ! j \<in> set (members b A)" if "j < length ?ws" "of_block b (?ws ! j)" for j
      using that obA A(1) by (simp add: members_def)
    have "members b A \<noteq> []" using inA[OF i b] by auto
    from release_stage[OF ms jt ros this, of now] obtain L' where ql: "joint b L' ?M"
      and rl: "\<forall>w \<in> set (members b A). stage (p + 1) L' (set_ready w now) ?M \<and>
        (\<exists>lp. ctl (set_ready w now) lp \<and> holds L' lp (set_ready w now) ?M \<and> (\<forall>i < length (w_threads w). phase code (lp i) = p + 1))" by blast
    have rel: "stage (p + 1) L' (set_ready (A ! j) now) ?M"
      "\<exists>lp. ctl (set_ready (A ! j) now) lp \<and> holds L' lp (set_ready (A ! j) now) ?M \<and> (\<forall>i < length (w_threads (A ! j)). phase code (lp i) = p + 1)"
      if "j < length ?ws" "of_block b (?ws ! j)" for j
      using rl inA[OF that] by auto
    define R where "R = map (\<lambda>w. if of_block b w then set_ready w now else w) A"
    have R: "length R = length ?ws" "\<And>j. j < length ?ws \<Longrightarrow> R ! j = (if of_block b (?ws ! j) then set_ready (A ! j) now else A ! j)"
      using obA A(1) by (simp_all add: R_def)
    have hb: "handle_barrier_arrival i s1 = Inr (s1\<lparr>sm_warps := R\<rparr>)"
      using arr False ms by (auto simp: R_def)
    obtain lq where lq: "ctl (set_ready ?v now) lq" "holds L' lq (set_ready ?v now) ?M" "\<forall>i < length (w_threads (set_ready ?v now)). phase code (lq i) = p + 1"
      using rel(2)[OF i b] A(2) by (auto simp: ready_same)
    from update_stage[OF lq ready_same(3), of ?r] ready_same(4) ready_left obtain w2 where up: "update_warp_state ?n ?r (set_ready ?v now) = Inr w2"
      "stage (p + 1) L' w2 ?M" "w_state w2 \<noteq> StalledAtBarrier" "lane_keys w2 = lane_keys ?v" "works w2 \<le> left ?v + 1" by metis
    let ?R = "R[i := w2]"
    define s2 where "s2 = s1\<lparr>sm_warps := ?R, sm_counters := increment_instructions_retired
        ((add_stall WriteConflict ^^ er_write_conflict_stalls ?r) (sm_counters s1))\<rparr>"
    have Ri: "R ! i = set_ready ?v now" using R(2)[OF i] b A(2) by simp
    have iss: "issue k i s m = Inr (s2, m)"
      by (rule issue_steps[OF k pc ex s1_def, of "s1\<lparr>sm_warps := R\<rparr>" w2]) (use hb up(1) Ri in \<open>simp_all add: plain_result_def s2_def\<close>)
    have kR: "lane_keys (?R ! j) = lane_keys (?ws ! j)" if "j < length ?ws" for j
      using that R i up(4) v(1) A ready_same(4) by (cases "j = i") simp_all
    then have keysR: "map lane_keys ?R = map lane_keys ?ws" using R(1) by (intro nth_equalityI) simp_all
    have "okay ?R (ms_shared m) (ms_global m)"
    proof (rule release_okay[OF ok i b _ keysR])
      show "?R ! j = ?ws ! j" if "j < length ?ws" "\<not> of_block b (?ws ! j)" for j
        using that R A b by (cases "j = i") simp_all
      show "joint b L' (space (ms_shared m) (ms_global m))" using ql by (simp add: word_at_space)
      show "stage (p + 1) L' (?R ! j) (space (ms_shared m) (ms_global m))" if "j < length ?ws" "of_block b (?ws ! j)" for j
        using that R rel(1)[OF that] up(2) i by (cases "j = i") (simp_all add: word_at_space)
    qed (use R(1) i up(3) in simp_all)
    moreover have "summed works ?R < summed works ?ws"
    proof (rule summed_strict)
      show "works (?R ! j) \<le> works (?ws ! j)" if "j < length ?ws" for j
      proof (cases "j = i")
        case True
        then show ?thesis using up(5) w1(2) v(4) wk R(1) i by simp
      next
        case False
        then show ?thesis using that R A nc[of j] by (auto simp: works_def ready_same ready_left)
      qed
      show "works (?R ! i) < works (?ws ! i)" using up(5) w1(2) v(4) wk R(1) i by simp
    qed (use R(1) i in simp_all)
    ultimately show ?thesis using iss keysR by (intro exI[of _ s2]) (simp add: s2_def s1_def)
  qed
qed

lemma issue_okay:
  assumes k: "k_instructions k = prog" and wok: "\<forall>w \<in> set (sm_warps s). warp_ok w" and i: "i < length (sm_warps s)"
    and rd: "w_state (sm_warps s ! i) = Ready" and minv: "ms_inv m"
    and ok: "okay (sm_warps s) (ms_shared m) (ms_global m)"
  shows "\<exists>s' m' b. issue k i s m = Inr (s', m') \<and> sm_scheduler s' = sm_scheduler s \<and>
    okay (sm_warps s') (ms_shared m') (ms_global m') \<and> map lane_keys (sm_warps s') = map lane_keys (sm_warps s) \<and>
    of_block b (sm_warps s ! i) \<and> touches b (word_at m) (word_at m') \<and>
    summed works (sm_warps s') < summed works (sm_warps s)"
proof -
  let ?ws = "sm_warps s" and ?w = "sm_warps s ! i" and ?n = "length prog" and ?M = "word_at m"
  have ks: "keys_ok (map lane_keys ?ws)" using ok by (simp add: okay_def)
  have "lane_keys ?w \<noteq> []" using ks i by (auto simp: keys_ok_def)
  then obtain b where b: "of_block b ?w" by (auto simp: of_block_keys)
  note wb = keys_ok_warps(1)[OF ks i b]
  have "resident b ?ws" using b i nth_mem[OF i] by (auto simp: resident_def)
  then obtain p L where p: "\<forall>w \<in> set ?ws. of_block b w \<longrightarrow> stage p L w ?M" and jt: "joint b L ?M"
    using ok by (auto simp: okay_def in_phase_def word_at_space)
  then have "stage p L ?w ?M" using b i by simp
  then obtain lp where lp: "ctl ?w lp" "holds L lp ?w ?M" "\<forall>j < length (w_threads ?w). phase code (lp j) = p"
    using rd unfolding stage_def by auto
  have inv: "masks_inv ?w" using wok i by (simp add: warp_ok_def)
  have wk: "works ?w = left ?w + 1" using rd by (simp add: works_def)
  have upd: "summed works (?ws[i := w']) < summed works ?ws" if "works w' < works ?w" for w'
    using sum_update[OF i, of works w'] that by simp
  have key_upd: "map lane_keys (?ws[i := w']) = map lane_keys ?ws" if "lane_keys w' = lane_keys ?w" for w'
    using i that by (simp add: map_update) (metis list_update_id nth_map)
  have awake: "\<exists>w \<in> set (?ws[i := w']). of_block b w \<and> w_state w \<noteq> StalledAtBarrier"
    if "lane_keys w' = lane_keys ?w" "w_state w' \<noteq> StalledAtBarrier" for w'
    using that b i by (intro bexI[of _ w']) (auto simp: of_block_keys set_update_memI)
  consider (finish) "w_pc ?w \<ge> ?n" | (plain) "w_pc ?w < ?n" "inst_opcode (prog ! w_pc ?w) \<noteq> BARRIER"
    | (barrier) "w_pc ?w < ?n" "inst_opcode (prog ! w_pc ?w) = BARRIER" by linarith
  then show ?thesis
  proof cases
    case finish
    let ?v = "set_completed ?w"
    have v: "lane_keys ?v = lane_keys ?w" "w_state ?v = Completed" using same_core_keys[OF same_core_ops(4), of ?w] by (simp_all add: set_completed_def)
    have vf: "w_threads ?v = w_threads ?w" "w_pc ?v = w_pc ?w" "w_stack ?v = w_stack ?w" "control ?v = control ?w"
      by (simp_all add: set_completed_def control_def)
    have "stage p L ?v ?M" unfolding stage_def using lp ctl_ended[OF lp(1) finish] ctl_same[OF lp(1) vf(4,1)]
      by (intro exI[of _ lp]) (simp add: holds_def vf v)
    from okay_update[OF ok i b v(1) p[unfolded word_at_space] this[unfolded word_at_space] change_refl spares_refl jt[unfolded word_at_space] _ awake[OF v(1)]] v(2)
    have "okay (?ws[i := ?v]) (ms_shared m) (ms_global m)" by simp
    moreover have "works ?v < works ?w" unfolding wk using left_same[OF vf(4,1)] v(2) by (simp add: works_def)
    moreover have "issue k i s m = Inr (s\<lparr>sm_warps := ?ws[i := ?v]\<rparr>, m)" using finish k by (simp add: issue_def)
    ultimately show ?thesis using b key_upd[OF v(1)] upd change_refl
      by (intro exI[of _ "s\<lparr>sm_warps := ?ws[i := ?v]\<rparr>"] exI[of _ m] exI[of _ b]) simp
  next
    case plain
    from steps[OF lp(1,2) jt wb inv minv lp(3) plain] obtain r w1 m1 lp1 L1 where
      ex: "execute (prog ! w_pc ?w) ?w m = Inr (r, w1, m1)" "er_status r \<noteq> BarrierReached" "ctl w1 lp1"
      "holds L1 lp1 w1 (word_at m1)" "\<forall>i < length (w_threads w1). phase code (lp1 i) = p" "left w1 < left ?w"
      "touches b ?M (word_at m1)" "spares b p (ids_of ?w) ?M (word_at m1)" "joint b L1 (word_at m1)"
      "\<forall>id. id \<notin> ids_of ?w \<longrightarrow> L1 id = L id" by blast
    have len: "length (w_threads ?w) \<le> 32" using inv by (simp add: masks_inv_def)
    note fr = execute_framed(1)[OF len ex(1)]
    have rd1: "w_state w1 = Ready" using fr rd by (simp add: warp_framed_def)
    from update_stage[OF ex(3,4,5) rd1] obtain w2 where up: "update_warp_state ?n r w1 = Inr w2" "stage p L1 w2 (word_at m1)"
      "w_state w2 \<noteq> StalledAtBarrier" "lane_keys w2 = lane_keys w1" "works w2 \<le> left w1 + 1" by blast
    have key: "lane_keys w2 = lane_keys ?w" using up(4) framed_keys[OF fr] by simp
    define s1 where "s1 = s\<lparr>sm_warps := ?ws[i := w1], sm_counters := count_result (sm_id s) w1 (prog ! w_pc ?w) r (sm_counters s)\<rparr>"
    define s2 where "s2 = s1\<lparr>sm_warps := (sm_warps s1)[i := w2], sm_counters := increment_instructions_retired
        ((add_stall WriteConflict ^^ er_write_conflict_stalls r) (sm_counters s1))\<rparr>"
    have "issue k i s m = Inr (s2, m1)" by (rule issue_steps[OF k plain(1) ex(1) s1_def _ _ s2_def]) (use ex(2) up(1) i in \<open>simp_all add: s1_def\<close>)
    moreover have "sm_warps s2 = ?ws[i := w2]" "sm_scheduler s2 = sm_scheduler s" by (simp_all add: s1_def s2_def)
    moreover have "okay (?ws[i := w2]) (ms_shared m1) (ms_global m1)"
      using okay_update[OF ok i b key p[unfolded word_at_space] up(2)[unfolded word_at_space] ex(7)[unfolded word_at_space]
          ex(8)[unfolded word_at_space] ex(9)[unfolded word_at_space] ex(10) awake[OF key up(3)]] .
    moreover have "works w2 < works ?w" using up(5) ex(6) wk by simp
    ultimately show ?thesis using b key_upd[OF key] upd ex(7) by (intro exI[of _ s2] exI[of _ m1] exI[of _ b]) simp
  next
    case barrier
    from barrier_okay[OF k i rd ok b p jt lp(1,2,3) inv barrier] show ?thesis using b change_refl by blast
  qed
qed

end

end
