(* ===== verification/Block_Cycles.thy ===== *)
theory Block_Cycles
  imports Block_Runs
begin

text \<open>
  A kernel that meets the contract \<open>phased_kernel\<close> meets the one of the cycle loop, \<open>sm_kernel\<close>:
  every tick of an SM keeps its blocks in step and makes progress. The sublocale gives total
  correctness of every grid of such a kernel, stated at the end for the grids the builders make.
\<close>

section \<open>One cycle of an SM\<close>

context phased_kernel begin

lemma tick_in_step: "in_step w (tick_stall w c)"
  unfolding in_step_def using same_core_ops(1) by (auto simp: tick_stall_def Let_def)

lemma waits_in_step: "same_but_waits w w' \<Longrightarrow> in_step w w'"
  by (simp add: same_but_waits_def in_step_def)

lemma in_step_trans: "in_step w1 w2 \<Longrightarrow> in_step w2 w3 \<Longrightarrow> in_step w1 w3"
  unfolding in_step_def using same_core_trans by blast

lemma okay_in_step:
  assumes l: "list_all2 in_step ws ws'" and ok: "okay ws sh g"
  shows "okay ws' sh g" and "map lane_keys ws' = map lane_keys ws" and "summed works ws' = summed works ws"
proof -
  show keys: "map lane_keys ws' = map lane_keys ws"
    by (rule map_cong2) (rule list_all2_mono[OF l], rule in_step_keys)
  show "summed works ws' = summed works ws" unfolding summed_def
    by (rule sum_list_map_cong2) (rule list_all2_mono[OF l], rule in_step_works)
  have ex: "\<exists>w \<in> set ws. in_step w w'" if "w' \<in> set ws'" for w'
    using that l unfolding list_all2_conv_all_nth in_set_conv_nth Bex_def by metis
  have ex': "\<exists>w' \<in> set ws'. in_step w w'" if "w \<in> set ws" for w
    using that l unfolding list_all2_conv_all_nth in_set_conv_nth Bex_def by metis
  have ob: "of_block b w' = of_block b w" if "in_step w w'" for b w w'
    using in_step_keys[OF that] by (simp add: of_block_keys)
  have "in_phase b ws' (space sh g)" if "resident b ws" for b
  proof -
    obtain p L where p: "\<forall>w \<in> set ws. of_block b w \<longrightarrow> stage p L w (space sh g)"
      "\<exists>w \<in> set ws. of_block b w \<and> w_state w \<noteq> StalledAtBarrier" and j: "joint b L (space sh g)"
      using ok \<open>resident b ws\<close> unfolding okay_def in_phase_def by blast
    have "stage p L w' (space sh g)" if "w' \<in> set ws'" "of_block b w'" for w'
      using ex[OF that(1)] ob that(2) p(1) in_step_stage by blast
    moreover have "\<exists>w' \<in> set ws'. of_block b w' \<and> w_state w' \<noteq> StalledAtBarrier"
      using p(2) ex' ob unfolding in_step_def by metis
    ultimately show ?thesis using j unfolding in_phase_def by blast
  qed
  then show "okay ws' sh g" using ok resident_keys[OF keys] by (simp add: okay_def keys)
qed

text \<open>An SM with a warp that has not completed has one that is ready or stalled for its latency.\<close>

lemma okay_awake:
  assumes ok: "okay ws sh g" and w: "w \<in> set ws" "w_state w \<noteq> Completed"
  shows "\<exists>w \<in> set ws. w_state w = Ready \<or> w_state w = Stalled"
proof (rule ccontr)
  assume "\<not> ?thesis"
  then have two: "w_state v = StalledAtBarrier \<or> w_state v = Completed" if "v \<in> set ws" for v
    using that by (metis warp_state.exhaust)
  have ks: "keys_ok (map lane_keys ws)" using ok by (simp add: okay_def)
  have bar: "w_state w = StalledAtBarrier" using two[OF w(1)] w(2) by simp
  obtain b where b: "of_block b w" using ks w(1) by (force simp: keys_ok_def of_block_keys)
  then have "resident b ws" using w(1) by (auto simp: resident_def)
  then obtain p L v where p: "\<forall>w \<in> set ws. of_block b w \<longrightarrow> stage p L w (space sh g)" and v: "v \<in> set ws" "of_block b v"
    "w_state v \<noteq> StalledAtBarrier" using ok unfolding okay_def in_phase_def by blast
  have of: "warp_of b u" if "u \<in> set ws" "of_block b u" for u
    using that keys_ok_warps(1)[OF ks] by (metis in_set_conv_nth)
  have "w_state v = Completed" using two v by blast
  then have e: "phase code (length code) = p" using completed_phase p v of by blast
  have "stage p L w (space sh g)" using p w(1) b by blast
  then obtain lp where lp: "\<forall>i < length (w_threads w). phase code (lp i) = p" "parked w lp"
    unfolding stage_def bar simp_thms if_True by blast
  from parked_at[OF lp(2)] obtain q where q: "q < length code" "inst_opcode (code ! q) = BARRIER" "\<forall>i < length (w_threads w). lp i = q" by blast
  have "0 < length (w_threads w)" using of[OF w(1) b] by (simp add: warp_of_def)
  then have "phase code q = p" using lp(1) q(3) by metis
  moreover have "phase code (q + 1) \<le> phase code (length code)" using q(1) by (intro phase_mono) simp
  ultimately show False using phase_Suc[OF q(1)] q(2) e by simp
qed

lemma okay_unbarred:
  assumes ok: "okay ws sh g" and free: "barrier_free code" and w: "w \<in> set ws"
  shows "w_state w \<noteq> StalledAtBarrier"
proof
  assume bar: "w_state w = StalledAtBarrier"
  obtain b where b: "of_block b w" using ok w by (force simp: okay_def keys_ok_def of_block_keys)
  then have "resident b ws" using w by (auto simp: resident_def)
  then obtain p L where "stage p L w (space sh g)" using ok w b unfolding okay_def in_phase_def by blast
  then obtain lp where "parked w lp" unfolding stage_def bar simp_thms if_True by blast
  from parked_at[OF this] show False using free by (auto simp: barrier_free_def list_all_length)
qed

lemma tick_runs:
  assumes k: "k_instructions k = prog" and nc: "\<not> is_completed s" and ok: "sm_ok s" and busy: "sm_busy (barrier_free code) ps s"
    and minv: "ms_inv m" and fine: "okay (sm_warps s) (ms_shared m) (ms_global m)"
  shows "\<exists>s' m'. tick k s m = Inr (s', m') \<and> grows (ms_global m) (ms_global m') \<and> sm_busy (barrier_free code) ps s' \<and>
    okay (sm_warps s') (ms_shared m') (ms_global m') \<and> map lane_keys (sm_warps s') = map lane_keys (sm_warps s) \<and>
    (\<forall>b. waiting b (ms_shared m) (ms_global m) \<longrightarrow> \<not> resident (tb_id b) (sm_warps s) \<longrightarrow> waiting b (ms_shared m') (ms_global m')) \<and>
    advances works (sm_warps s) (sm_warps s')"
proof -
  let ?p = "prepared s" and ?g = "ms_global m" and ?sh = "ms_shared m" and ?c = "pf_cycles (sm_counters s)"
  obtain sch where sch: "sm_scheduler s = Some sch" using busy by (auto simp: sm_busy_def split: option.splits)
  obtain sel s3 where sc: "schedule sch ?p = (sel, s3)" by fastforce
  note se = schedule_effect[OF sc]
  have wp: "sm_warps ?p = map (\<lambda>w. tick_stall w ?c) (sm_warps s)" by (rule prepared_effect)
  note b3 = schedule_busy[OF busy sch sc]
  have ok3: "\<forall>w \<in> set (sm_warps s3). warp_ok w" using schedule_ok[OF prepared_ok[OF ok] sc] by (simp add: sm_ok_def)
  have "list_all2 in_step (sm_warps s) (sm_warps s3)"
    using se(5) unfolding wp list_all2_map1
    by (rule list_all2_mono) (rule in_step_trans[OF tick_in_step waits_in_step])
  note fine3 = okay_in_step[OF this fine]
  show ?thesis
  proof (cases sel)
    case (Some i)
    then have i: "i < length (sm_warps s3)" "w_state (sm_warps s3 ! i) = Ready" using se(9)[OF Some] by simp_all
    from issue_okay[OF k ok3 i minv fine3(1)] obtain s' m' b where r: "issue k i s3 m = Inr (s', m')"
      "sm_scheduler s' = sm_scheduler s3" "okay (sm_warps s') (ms_shared m') (ms_global m')"
      "map lane_keys (sm_warps s') = map lane_keys (sm_warps s3)" "of_block b (sm_warps s3 ! i)"
      "touches b (word_at m) (word_at m')" "summed works (sm_warps s') < summed works (sm_warps s3)" by blast
    have "tick k s m = Inr (s', m')" using nc sch sc Some r(1) by (simp add: tick_unfold)
    moreover note issue_busy[OF b3 ok3 i(1) r(1,2)]
    moreover note t = r(6)[unfolded word_at_space]
    have "resident b (sm_warps s3)" using r(5) i(1) by (auto simp: resident_def)
    then have rb: "resident b (sm_warps s)" using resident_keys[OF fine3(2)] by simp
    have "waiting c (ms_shared m') (ms_global m')" if "waiting c ?sh ?g" "\<not> resident (tb_id c) (sm_warps s)" for c
      using waiting_touches[OF that(1) t] that(2) rb by blast
    moreover have "advances works (sm_warps s) (sm_warps s')" using r(7) fine3(3) by (simp add: advances_def)
    ultimately show ?thesis using r(3,4) fine3(2) touches_grows[OF t] by (intro exI[of _ s'] exI[of _ m']) simp
  next
    case None
    obtain w where w: "w \<in> set (sm_warps s)" and sw: "w_state w = Stalled"
    proof (cases "some_ready (sm_warps ?p)")
      case True
      from schedule_idle[OF busy sch sc[unfolded None] this] obtain w where free: "barrier_free code"
        and w: "w \<in> set (sm_warps s)" "w_state (tick_stall w ?c) \<noteq> Completed" "w_state (tick_stall w ?c) \<noteq> Ready" by (auto simp: wp)
      moreover have "w_state w \<noteq> StalledAtBarrier" by (rule okay_unbarred[OF fine free w(1)])
      ultimately show ?thesis using that by (cases "w_state w") (auto simp: tick_stall_def)
    next
      case False
      obtain w where "w \<in> set (sm_warps s)" "w_state w \<noteq> Completed" using nc by (auto simp: is_completed_def list_all_iff)
      then obtain w where w: "w \<in> set (sm_warps s)" "w_state w = Ready \<or> w_state w = Stalled" using okay_awake[OF fine] by blast
      have "w_state (tick_stall w ?c) \<noteq> Ready" using False w(1) by (auto simp: some_ready_def wp)
      then show ?thesis using w by (intro that[OF w(1)]) (auto simp: tick_stall_def)
    qed
    have "stall_inv w" using ok w by (auto simp: sm_ok_def warp_ok_def)
    then have lt: "stall_left (tick_stall w ?c) < stall_left w" using tick_stall_left(2) sw by blast
    have "sum_list (map stall_left (sm_warps s3)) = sum_list (map stall_left (sm_warps ?p))"
      by (rule sum_list_map_cong2) (rule list_all2_mono[OF se(5)], simp add: same_but_waits_left)
    moreover have "sum_list (map (\<lambda>w. stall_left (tick_stall w ?c)) (sm_warps s)) < sum_list (map stall_left (sm_warps s))"
      by (rule sum_list_strict[OF _ w]) (use tick_stall_left(1) lt in auto)
    ultimately have S: "summed stall_left (sm_warps s3) < summed stall_left (sm_warps s)"
      by (simp add: summed_def wp comp_def)
    have "sm_warps s3 \<noteq> []" using fine3(2) w by auto
    then have "tick k s m = Inr (s3, m)" using nc sch sc None by (simp add: tick_unfold)
    then show ?thesis using b3 fine3 S by (intro exI[of _ s3] exI[of _ m]) (simp add: advances_def grows_def)
  qed
qed

end

section \<open>Admission and release\<close>

context phased_kernel begin

lemma keys_ok_of: "keys_ok (map lane_keys ws) \<Longrightarrow> w \<in> set ws \<Longrightarrow> of_block b w \<longleftrightarrow> key_block (lane_keys w) = b"
  unfolding keys_ok_def of_block_keys key_block_def by (metis image_eqI set_map)

lemma keys_ok_release:
  assumes ks: "keys_ok (map lane_keys ws)"
  shows "keys_ok (map lane_keys (filter (\<lambda>w. \<not> of_block i w) ws))"
proof -
  let ?ks = "map lane_keys ws" and ?F = "filter (\<lambda>k. key_block k \<noteq> i)"
  note of = keys_ok_of[OF ks, where b = i]
  then have e: "map lane_keys (filter (\<lambda>w. \<not> of_block i w) ws) = ?F ?ks"
    unfolding filter_map comp_def using of by (metis (mono_tags, lifting) filter_cong)
  have "filter (\<lambda>k. key_block k = b) (?F ?ks) = filter (\<lambda>k. key_block k = b) ?ks" if "b \<noteq> i" for b
    unfolding filter_filter using that by (intro filter_cong) auto
  moreover have "k \<in> set ?ks \<and> key_block k \<noteq> i" if "k \<in> set (?F ?ks)" for k using that by auto
  ultimately show ?thesis using ks unfolding e keys_ok_def by metis
qed

lemma release_okay_blocks: "okay ws sh g \<Longrightarrow> okay (filter (\<lambda>w. \<not> of_block i w) ws) sh g"
proof -
  assume ok: "okay ws sh g"
  let ?ws = "filter (\<lambda>w. \<not> of_block i w) ws"
  have "in_phase b ?ws (space sh g)" if "resident b ?ws" for b
  proof -
    have "resident b ws" "b \<noteq> i" using that by (auto simp: resident_def)
    then have "in_phase b ws (space sh g)" using ok by (simp add: okay_def)
    moreover have "w \<in> set ?ws \<longleftrightarrow> w \<in> set ws" if "of_block b w" for w
      using of_block_unique[OF that, of i] \<open>b \<noteq> i\<close> by auto
    ultimately show ?thesis unfolding in_phase_def by blast
  qed
  then show ?thesis using ok keys_ok_release by (simp add: okay_def)
qed

lemma waiting_warps: "waiting b sh g \<Longrightarrow> w \<in> set (tb_warps b) \<Longrightarrow> of_block (tb_id b) w"
  by (simp add: waiting_def of_block_def)

lemma keys_ok_admit:
  assumes ks: "keys_ok (map lane_keys ws)" and w: "waiting b sh g" and nr: "\<not> resident (tb_id b) ws"
  shows "keys_ok (map lane_keys (ws @ tb_warps b))"
proof -
  let ?K = "map lane_keys ws" and ?B = "map lane_keys (tb_warps b)"
  have kb: "k \<noteq> [] \<and> key_block k = tb_id b \<and> (\<forall>x \<in> set k. fst x = key_block k)" if "k \<in> set ?B" for k
  proof -
    obtain v where v: "v \<in> set (tb_warps b)" "k = lane_keys v" using \<open>k \<in> set ?B\<close> by auto
    then have "w_threads v \<noteq> []" "\<forall>t \<in> set (w_threads v). t_block_id t = tb_id b" using w by (simp_all add: waiting_def)
    then have "k \<noteq> []" "\<forall>x \<in> set k. fst x = tb_id b" by (auto simp: v(2) lane_keys_def)
    then show ?thesis by (simp add: key_block_def)
  qed
  have nk: "key_block k \<noteq> tb_id b" if "k \<in> set ?K" for k
    using that nr keys_ok_of[OF ks] unfolding resident_def set_map by blast
  have "filter (\<lambda>k. key_block k = c) (?K @ ?B) = (if c = tb_id b then ?B else filter (\<lambda>k. key_block k = c) ?K)" for c
  proof (cases "c = tb_id b")
    case True
    then have "filter (\<lambda>k. key_block k = c) ?K = []" "filter (\<lambda>k. key_block k = c) ?B = ?B"
      using nk kb by (simp_all add: filter_empty_conv filter_id_conv del: filter_map)
    then show ?thesis using True by simp
  next
    case False
    then have "filter (\<lambda>k. key_block k = c) ?B = []" using kb by (simp add: filter_empty_conv del: filter_map)
    then show ?thesis using False by simp
  qed
  moreover have "map snd (concat ?B) = roster (tb_id b)" using w by (simp add: waiting_def)
  ultimately show ?thesis using ks kb unfolding keys_ok_def map_append by auto
qed

lemma admit_okay_blocks:
  assumes ok: "okay ws sh g" and w: "waiting b sh g" and nr: "\<not> resident (tb_id b) ws"
  shows "okay (ws @ tb_warps b) sh g"
proof -
  let ?ws = "ws @ tb_warps b"
  have "in_phase c ?ws (space sh g)" if c: "resident c ?ws" for c
  proof (cases "c = tb_id b")
    case True
    have "\<not> of_block c v" if "v \<in> set ws" for v using that nr True by (auto simp: resident_def)
    moreover obtain v where "v \<in> set (tb_warps b)" using w by (cases "tb_warps b") (auto simp: waiting_def)
    ultimately show ?thesis using w waiting_warps[OF w] True unfolding in_phase_def
      by (intro exI[of _ 0] exI[of _ "\<lambda>_. 0"]) (auto simp: waiting_def)
  next
    case False
    then have nb: "\<not> of_block c v" if "v \<in> set (tb_warps b)" for v
      using waiting_warps[OF w that] of_block_unique by blast
    then have "resident c ws" using c by (auto simp: resident_def)
    then have "in_phase c ws (space sh g)" using ok by (simp add: okay_def)
    moreover have "w \<in> set ?ws \<longleftrightarrow> w \<in> set ws" if "of_block c w" for w using nb that by auto
    ultimately show ?thesis unfolding in_phase_def by blast
  qed
  then show ?thesis using ok keys_ok_admit[OF _ w nr] by (simp add: okay_def)
qed

lemma completed_ends:
  assumes ok: "okay ws sh g" and w: "w \<in> set ws" "w_state w = Completed"
  shows "ended w g"
proof -
  have ks: "keys_ok (map lane_keys ws)" using ok by (simp add: okay_def)
  obtain b where b: "of_block b w" using ks w(1) by (force simp: keys_ok_def of_block_keys)
  then have "resident b ws" using w(1) by (auto simp: resident_def)
  then obtain p L where "stage p L w (space sh g)" using ok w(1) b unfolding okay_def in_phase_def by blast
  then obtain lp where lp: "holds L lp w (space sh g)" "\<forall>j < length (w_threads w). lp j = length code" unfolding stage_def using w(2) by auto
  then have "\<forall>t \<in> set (w_threads w). lane (length code) t (space sh g)"
    unfolding holds_def by (metis in_set_conv_nth)
  then show ?thesis by (auto simp: ended_def)
qed

lemma ends_grow: "ended w g \<Longrightarrow> grows g g' \<Longrightarrow> ended w g'"
  unfolding ended_def using lane_apart grows_change by metis

lemma grows_on: "grows g1 g2 \<Longrightarrow> grows g2 g3 \<Longrightarrow> grows g1 g3"
  unfolding grows_def by metis

end

sublocale phased_kernel \<subseteq> sm_kernel prog okay waiting grows works ended "barrier_free code"
proof
  show "grows g g" for g by (simp add: grows_def)
  show "grows g1 g2 \<Longrightarrow> grows g2 g3 \<Longrightarrow> grows g1 g3" for g1 g2 g3 by (rule grows_on)
  show "okay ws sh g \<Longrightarrow> grows g g' \<Longrightarrow> okay ws sh g'" for ws sh g g'
    unfolding okay_def using in_phase_grows by blast
  show "waiting b sh g \<Longrightarrow> grows g g' \<Longrightarrow> waiting b sh g'" for b sh g g'
    unfolding waiting_def using stage_grows joint_grows by blast
  show "ended w g \<Longrightarrow> grows g g' \<Longrightarrow> ended w g'" for w g g' by (rule ends_grow)
  show "okay ws sh g \<Longrightarrow> w \<in> set ws \<Longrightarrow> w_state w = Completed \<Longrightarrow> ended w g" for ws sh g w by (rule completed_ends)
  show "okay [] sh g" for sh g by (simp add: okay_def resident_def keys_ok_def)
  show "okay ws sh g \<Longrightarrow> okay (filter (\<lambda>w. \<not> of_block i w) ws) sh g" for ws sh g i by (rule release_okay_blocks)
  show "okay ws sh g \<Longrightarrow> waiting b sh g \<Longrightarrow> \<not> resident (tb_id b) ws \<Longrightarrow> okay (ws @ tb_warps b) sh g" for ws sh g b
    by (rule admit_okay_blocks)
  show "waiting b sh g \<Longrightarrow> w \<in> set (tb_warps b) \<Longrightarrow> of_block (tb_id b) w" for b sh g w by (rule waiting_warps)
qed (rule tick_runs)

end
