(* ===== verification/Lane_Values.thy ===== *)
theory Lane_Values
  imports Lane_Steps Grid_Props
begin

text \<open>
  What the verification of a kernel computes with: registers and addresses of a lane, and
  programs made of blocks of equal length.
\<close>

section \<open>Registers and addresses\<close>

text \<open>The places of a short piece of code.\<close>

lemma less_11: "r < (11 :: nat) \<longleftrightarrow> r = 0 \<or> r = 1 \<or> r = 2 \<or> r = 3 \<or> r = 4 \<or> r = 5 \<or> r = 6 \<or> r = 7 \<or> r = 8 \<or> r = 9 \<or> r = 10"
  and less_6: "r < (6 :: nat) \<longleftrightarrow> r = 0 \<or> r = 1 \<or> r = 2 \<or> r = 3 \<or> r = 4 \<or> r = 5"
  and less_4: "r < (4 :: nat) \<longleftrightarrow> r = 0 \<or> r = 1 \<or> r = 2 \<or> r = 3"
  and less_10: "r < (10 :: nat) \<longleftrightarrow> r = 0 \<or> r = 1 \<or> r = 2 \<or> r = 3 \<or> r = 4 \<or> r = 5 \<or> r = 6 \<or> r = 7 \<or> r = 8 \<or> r = 9"
  and less_9: "r < (9 :: nat) \<longleftrightarrow> r = 0 \<or> r = 1 \<or> r = 2 \<or> r = 3 \<or> r = 4 \<or> r = 5 \<or> r = 6 \<or> r = 7 \<or> r = 8"
  by presburger+

lemma small_registers [simp]:
  "int_to_size 0 = 0" "int_to_size 1 = 1" "int_to_size 2 = 2" "int_to_size 3 = 3" "int_to_size 4 = 4" "int_to_size 5 = 5"
  "int_to_size 10 = 10" "int_to_size 11 = 11" "int_to_size 12 = 12" "int_to_size 13 = 13" "int_to_size 14 = 14"
  "int_to_size 15 = 15" "int_to_size 16 = 16" "int_to_size 17 = 17" "int_to_size 18 = 18" "int_to_size 19 = 19"
  by (simp_all add: int_to_size_def)

text \<open>A register file has 32 registers.\<close>

definition register_ok :: "c_int \<Rightarrow> bool" where
  "register_ok r \<longleftrightarrow> int_to_size r < 32"

definition full_file :: "thread \<Rightarrow> bool" where
  "full_file t \<longleftrightarrow> length (rf_registers (t_registers t)) = 32"

lemma write_reg_full:
  assumes "full_file t" and "int_to_size r < 32"
  obtains t' where "write_reg t r v = Inr t'" "full_file t'" "t_global_id t' = t_global_id t"
    "\<And>r'. read_reg t' r' = (if int_to_size r' = int_to_size r then Inr v else read_reg t r')"
proof -
  obtain t' where t': "write_reg t r v = Inr t'" using assms by (auto simp: write_reg_def reg_write_def full_file_def)
  from write_reg_identity[OF t'] assms(1) have "full_file t'" "t_global_id t' = t_global_id t"
    by (simp_all add: same_identity_def full_file_def)
  with that t' write_reg_read(1)[OF t'] show ?thesis by blast
qed

lemma sint_of_nat: "n < 2 ^ 31 \<Longrightarrow> sint (of_nat n :: c_int) = int n"
  by (simp add: signed_of_nat signed_take_bit_int_eq_self)

lemma round_register: "s < 12 \<Longrightarrow> int_to_size (20 + of_nat s) = 20 + s"
proof -
  assume "s < 12"
  then have "sint (of_nat (20 + s) :: c_int) = int (20 + s)" by (intro sint_of_nat) simp
  then show ?thesis by (simp add: int_to_size_nonneg)
qed

lemma lane_address_add:
  assumes "read_reg t r = Inr (of_nat b)" and "r \<noteq> -1" and "inst_immediate inst = of_nat i" and "b < 2 ^ 31" and "i < 2 ^ 31"
  shows "lane_address r inst t = Inr (b + i)"
proof -
  have "int_to_size (of_nat b) = b" using assms(4) by (simp add: int_to_size_nonneg sint_of_nat)
  moreover have "size_add_int b (of_nat i) = b + i"
    using assms(4,5) by (subst size_add_int_exact) (simp_all add: sint_of_nat)
  ultimately show ?thesis using assms by (simp add: lane_address_def)
qed

lemma instr_fields [simp]:
  "inst_opcode (instr oc d a b i) = oc" "inst_dst (instr oc d a b i) = d" "inst_src1 (instr oc d a b i) = a"
  "inst_src2 (instr oc d a b i) = b" "inst_immediate (instr oc d a b i) = i"
  by (simp_all add: instr_def)

section \<open>Single steps of a lane\<close>

text \<open>Thread \<open>t\<close> after a write of \<open>v\<close> to register \<open>r\<close>.\<close>

definition wrote :: "c_int \<Rightarrow> c_int \<Rightarrow> thread \<Rightarrow> thread \<Rightarrow> bool" where
  "wrote r v t t' \<longleftrightarrow> same_identity t t' \<and> full_file t' \<and>
     (\<forall>r'. read_reg t' r' = (if int_to_size r' = int_to_size r then Inr v else read_reg t r'))"

lemma write_reg_wrote: "full_file t \<Longrightarrow> int_to_size r < 32 \<Longrightarrow> \<exists>t'. write_reg t r v = Inr t' \<and> wrote r v t t'"
proof -
  assume "full_file t" and "int_to_size r < 32"
  then obtain t' where t': "write_reg t r v = Inr t'" by (auto simp: write_reg_def reg_write_def full_file_def)
  have "wrote r v t t'" using write_reg_identity[OF t'] write_reg_read(1)[OF t'] \<open>full_file t\<close>
    by (simp add: wrote_def same_identity_def full_file_def)
  then show ?thesis using t' by blast
qed

lemma base_address: "read_reg t r = Inr (of_nat a) \<Longrightarrow> r \<noteq> -1 \<Longrightarrow> a < 2 ^ 31 \<Longrightarrow> inst_immediate inst = 0 \<Longrightarrow> lane_address r inst t = Inr a"
  using lane_address_add[of t r a inst 0] by simp

lemma step_load:
  assumes "full_file t" and "int_to_size d < 32" and "read_reg t r = Inr (of_nat a)" and "r \<noteq> -1" and "a < 2 ^ 31" and "M a = Inr v"
  shows "\<exists>t'. lane_step (instr LOAD d r s 0) M t = Inr (t', M) \<and> wrote d v t t'"
  using write_reg_wrote[OF assms(1,2), of v] base_address[OF assms(3-5), of "instr LOAD d r s 0"] assms(6)
  by (auto simp: lane_step_def)

lemma step_store:
  assumes "read_reg t r = Inr (of_nat a)" and "r \<noteq> -1" and "a < 2 ^ 31" and "read_reg t s = Inr v" and "\<exists>x. M a = Inr x"
  shows "lane_step (instr STORE d s r 0) M t = Inr (t, M(a := Inr v))"
  using base_address[OF assms(1-3), of "instr STORE d s r 0"] assms(4,5) by (auto simp: lane_step_def lane_store_def)

lemma step_add:
  assumes "full_file t" and "int_to_size d < 32" and "read_reg t r = Inr x" and "read_reg t s = Inr y" and "c_add x y = Inr v"
  shows "\<exists>t'. lane_step (instr ADD d r s i) M t = Inr (t', M) \<and> wrote d v t t'"
  using write_reg_wrote[OF assms(1,2), of v] assms(3-5) by (auto simp: lane_step_def lane_op_def alu_def)

lemma step_mul:
  assumes "full_file t" and "int_to_size d < 32" and "read_reg t r = Inr x" and "read_reg t s = Inr y" and "c_mul x y = Inr v"
  shows "\<exists>t'. lane_step (instr MUL d r s i) M t = Inr (t', M) \<and> wrote d v t t'"
  using write_reg_wrote[OF assms(1,2), of v] assms(3-5) by (auto simp: lane_step_def lane_op_def alu_def)

lemma step_atomic:
  assumes "read_reg t r = Inr (of_nat a)" and "r \<noteq> -1" and "a < 2 ^ 31" and "read_reg t s = Inr v" and "M a = Inr x" and "c_add x v = Inr y"
  shows "lane_step (instr ATOMIC_ADD d s r 0) M t = Inr (t, M(a := Inr y))"
  using base_address[OF assms(1-3), of "instr ATOMIC_ADD d s r 0"] assms(4-6)
  by (simp add: lane_step_def lane_store_def add_word_def)

lemma step_mov:
  assumes "full_file t" and "int_to_size d < 32"
  shows "\<exists>t'. lane_step (instr MOV d (-1) s v) M t = Inr (t', M) \<and> wrote d v t t'"
  using write_reg_wrote[OF assms, of v] by (auto simp: lane_step_def lane_op_def mov_def)

lemma step_cmp:
  assumes "read_reg t r = Inr x" and "read_reg t s = Inr y"
  shows "lane_step (instr CMP d r s i) M t = Inr (set_predicate t (x = y), M)"
  using assms by (simp add: lane_step_def lane_op_def cmp_def)

lemma touched_base:
  assumes "read_reg t r = Inr (of_nat a)" and "r \<noteq> -1" and "a < 2 ^ 31"
  shows "touched (instr LOAD d r s 0) t = Inr a" and "touched (instr STORE d s r 0) t = Inr a"
    and "touched (instr ATOMIC_ADD d s r 0) t = Inr a"
  using base_address[OF assms] by (simp_all add: touched_def)

lemma add_nat: "x + y < 2 ^ 31 \<Longrightarrow> c_add (of_nat x) (of_nat y) = Inr (of_nat (x + y))"
  by (simp add: c_add_def checked_int_Inr sint_of_nat)

lemma mul_nat: "x * y < 2 ^ 31 \<Longrightarrow> x < 2 ^ 31 \<Longrightarrow> y < 2 ^ 31 \<Longrightarrow> c_mul (of_nat x) (of_nat y) = Inr (of_nat (x * y))"
proof -
  assume "x * y < 2 ^ 31" and s: "x < 2 ^ 31" "y < 2 ^ 31"
  then have "int x * int y < 2 ^ 31" by (simp flip: of_nat_mult)
  moreover have "- (2 ^ 31) \<le> int x * int y" by (rule order_trans[of _ 0]) simp_all
  ultimately show ?thesis using s by (simp add: c_mul_def checked_int_Inr sint_of_nat)
qed

lemma of_nat_zero_iff: "x < 2 ^ 31 \<Longrightarrow> of_nat x = (0 :: c_int) \<longleftrightarrow> x = 0"
proof
  assume "x < 2 ^ 31" and "of_nat x = (0 :: c_int)"
  then have "int x = sint (0 :: c_int)" using sint_of_nat[of x] by (simp only:)
  then show "x = 0" by simp
qed simp

lemma sub_nat: "y \<le> x \<Longrightarrow> x < 2 ^ 31 \<Longrightarrow> c_sub (of_nat x) (of_nat y) = Inr (of_nat (x - y))"
  by (simp add: c_sub_def checked_int_Inr sint_of_nat of_nat_diff)

lemma div_nat: "0 < y \<Longrightarrow> x < 2 ^ 31 \<Longrightarrow> y < 2 ^ 31 \<Longrightarrow> c_div (of_nat x) (of_nat y) = Inr (of_nat (x div y))"
proof -
  assume a: "0 < y" "x < 2 ^ 31" "y < 2 ^ 31"
  have "x div y < 2 ^ 31" using a(2) by (rule le_less_trans[OF div_le_dividend])
  moreover have "int x sdiv int y = int (x div y)" using a(1)
    by (simp add: signed_divide_int_def zdiv_int sgn_if)
  ultimately show ?thesis using a by (simp add: c_div_def of_nat_zero_iff sint_of_nat checked_int_Inr)
qed

text \<open>A write goes to the touched word only.\<close>

lemma store_step: "inst_opcode i \<in> {STORE, ATOMIC_ADD} \<Longrightarrow> lane_step i M t = Inr (t', M') \<Longrightarrow>
    \<exists>a v. touched i t = Inr a \<and> t' = t \<and> M' = M(a := Inr v)"
  by (auto simp: lane_step_def lane_store_def touched_def add_word_Inr) blast+

section \<open>Initial registers\<close>

lemma write_registers_other:
  "write_registers rvs t = Inr t' \<Longrightarrow> int_to_size r \<notin> set (map (\<lambda>p. int_to_size (fst p)) rvs) \<Longrightarrow> read_reg t' r = read_reg t r"
proof (induction rvs arbitrary: t)
  case (Cons p rvs)
  obtain q v t1 where p: "p = (q, v)" "write_reg t q v = Inr t1" "write_registers rvs t1 = Inr t'"
    using Cons.prems(1) by (cases p) (auto simp: write_registers_def)
  then show ?case using Cons.IH[OF p(3)] Cons.prems(2) write_reg_read(1)[OF p(2), of r] by auto
qed (simp add: write_registers_def)

lemma write_registers_read:
  "write_registers rvs t = Inr t' \<Longrightarrow> distinct (map (\<lambda>p. int_to_size (fst p)) rvs) \<Longrightarrow> (r, v) \<in> set rvs \<Longrightarrow> read_reg t' r = Inr v"
proof (induction rvs arbitrary: t)
  case (Cons p rvs)
  obtain q x t1 where p: "p = (q, x)" "write_reg t q x = Inr t1" "write_registers rvs t1 = Inr t'"
    using Cons.prems(1) by (cases p) (auto simp: write_registers_def)
  show ?case
  proof (cases "(r, v) \<in> set rvs")
    case True
    then show ?thesis using Cons.IH[OF p(3)] Cons.prems(2) by simp
  next
    case False
    then have "r = q" "v = x" using Cons.prems(3) p(1) by simp_all
    then show ?thesis using write_registers_other[OF p(3), of r] Cons.prems(2) p(1) write_reg_read(1)[OF p(2), of r] by simp
  qed
qed simp

lemma initialised_read:
  "initialised init t \<Longrightarrow> rvs = init (t_block_id t) (t_local_id t) (t_global_id t) \<Longrightarrow>
   distinct (map (\<lambda>p. int_to_size (fst p)) rvs) \<Longrightarrow> (r, v) \<in> set rvs \<Longrightarrow> read_reg t r = Inr v"
  unfolding initialised_def using write_registers_read by blast

section \<open>Contents of the global memory\<close>

definition word_of :: "global_memory \<Rightarrow> size_t \<Rightarrow> c_int" where
  "word_of g a = (case gm_load g a of Inr v \<Rightarrow> v | Inl _ \<Rightarrow> 0)"

lemma word_of_load: "a < length (gm_data m) \<Longrightarrow> gm_load m a = Inr (word_of m a)"
  by (simp add: word_of_def gm_load_def)

section \<open>Programs of equal parts\<close>

lemma concat_blocks:
  assumes "\<And>i. length (f i) = c" and "0 < c"
  shows "length (concat (map f [0..<n])) = c * n" and "p < c * n \<Longrightarrow> concat (map f [0..<n]) ! p = f (p div c) ! (p mod c)"
proof -
  show len: "length (concat (map f [0..<n])) = c * n" for n using assms(1) by (induction n) simp_all
  show "p < c * n \<Longrightarrow> concat (map f [0..<n]) ! p = f (p div c) ! (p mod c)"
  proof (induction n)
    case (Suc n)
    show ?case
    proof (cases "p < c * n")
      case True
      then show ?thesis using Suc.IH by (simp add: nth_append len)
    next
      case False
      then have "p = c * n + (p - c * n)" "p - c * n < c" using Suc.prems by auto
      then have "p div c = n" "p mod c = p - c * n"
        using assms(2) by (metis add.commute div_mult_self2 div_less add.right_neutral less_not_refl2,
          metis mod_mult_self4 mod_less mult.commute)
      then show ?thesis using False by (simp add: nth_append len)
    qed
  qed simp
qed

lemma initialised_full: "initialised init t \<Longrightarrow> full_file t"
proof -
  assume i: "initialised init t"
  let ?t0 = "new_thread (t_global_id t) (t_block_id t) (t_local_id t) (t_warp_id t) (t_lane_id t)"
  show ?thesis
  proof (rule foldE_invariant[where P = full_file])
    show "foldE (\<lambda>t (r, v). write_reg t r v) ?t0 (init (t_block_id t) (t_local_id t) (t_global_id t)) = Inr t"
      using i by (simp add: initialised_def write_registers_def)
  qed (auto simp: full_file_def new_thread_def new_register_file_def same_identity_def dest: write_reg_identity)
qed

end
