(* ===== verification/Block_Grids.thy ===== *)
theory Block_Grids
  imports Block_Cycles Lane_Values
begin

text \<open>
  Total correctness of a kernel on the grids the builders make: every block of a built grid that
  fits an SM is launched and ends with the assertions of all its lanes.
\<close>

section \<open>Blocks of a built grid\<close>

definition block_fits :: "system_config \<Rightarrow> kernel_requirements \<Rightarrow> size_t \<Rightarrow> size_t \<Rightarrow> bool" where
  "block_fits c req bs ws \<longleftrightarrow> 1 \<le> cfg_max_blocks_per_sm c \<and> (bs + ws - 1) div ws \<le> cfg_max_warps_per_sm c \<and>
     bs \<le> cfg_max_threads_per_sm c \<and> bs * req_registers_per_thread req \<le> cfg_max_registers_per_sm c \<and>
     req_shared_memory_per_block req \<le> cfg_max_shared_memory_per_sm c"

lemma block_threads_length: "block_threads b = length (block_threads_of b)"
proof -
  have "foldl (\<lambda>n w. n + length (w_threads w)) k ws = k + length (concat (map w_threads ws))" for k and ws :: "warp list"
    by (induction ws arbitrary: k) simp_all
  from this[of 0 "tb_warps b"] show ?thesis by (simp add: block_threads_def block_threads_of_def)
qed

lemma size_mul_le: "m \<le> n \<Longrightarrow> size_mul m k \<le> n * k"
  unfolding size_mul_def by (rule le_trans[OF mod_less_eq_dividend mult_le_mono1])

lemma built_fits: "built_block init bs ws b \<Longrightarrow> block_fits c req bs ws \<Longrightarrow> fits c req b"
  by (auto simp: built_block_def block_fits_def fits_def block_threads_length intro: le_trans size_mul_le)

section \<open>Fresh shared memories\<close>

lemma new_gpu_shared:
  assumes "new_gpu rng c = Inr g" and "s \<in> set (gpu_sms g)"
  shows "sm_shared_memory s = new_shared_memory (cfg_max_shared_memory_per_sm c) (cfg_shared_memory_banks c)"
proof -
  let ?mk = "\<lambda>i. bindE (new_sm rng i c) (\<lambda>s.
    bindE (create_scheduler (cfg_scheduler_policy c) (cfg_active_set_size c)) (\<lambda>sch. Inr (set_scheduler s sch)))"
  have sms: "mapE ?mk [0..<cfg_num_sms c] = Inr (gpu_sms g)" using assms(1) by (auto simp: new_gpu_def)
  have "\<forall>s \<in> set (gpu_sms g). sm_shared_memory s = new_shared_memory (cfg_max_shared_memory_per_sm c) (cfg_shared_memory_banks c)"
    by (rule mapE_members[OF sms]) (auto simp: new_sm_def make_sm_def set_scheduler_def)
  then show ?thesis using assms(2) by blast
qed

section \<open>Priorities\<close>

text \<open>No builder gives a warp the lowest priority.\<close>

lemma build_warp_priority: "w_priority (build_warp k ts) = 0"
proof -
  have "w_priority (foldl add_thread w ts) = w_priority w" for w
    by (induction ts arbitrary: w) (simp_all add: add_thread_def Let_def)
  then show ?thesis by (simp add: build_warp_def new_warp_def)
qed

lemma build_warp_urgent: "f \<in> {prioritised, \<lambda>w. w} \<Longrightarrow> k < 2 ^ 31 \<Longrightarrow> urgent (f (build_warp k ts))"
proof -
  have "w_id (build_warp k ts) = k" by (rule build_warp_props)
  then have "w_priority (prioritised (build_warp k ts)) = of_nat k" by (simp add: prioritised_def set_priority_def size_to_int_def)
  then show "f \<in> {prioritised, \<lambda>w. w} \<Longrightarrow> k < 2 ^ 31 \<Longrightarrow> urgent (f (build_warp k ts))"
    using sint_of_nat[of k] by (auto simp: urgent_def build_warp_priority)
qed

lemma make_grid_urgent:
  assumes run: "make_grid f init n bs ws = Inr gr" and f: "f \<in> {prioritised, \<lambda>w. w}" and ws: "0 < ws" and bs: "0 < bs" "bs \<le> 2 ^ 31"
    and no_wrap: "bs + ws < 2 ^ 64" "n + bs < 2 ^ 64"
  shows "list_all urgent (blocks_warps (g_blocks gr))"
proof -
  let ?num = "(n + bs - 1) div bs"
  have "?num = 0" if "n = 0" using that bs by simp
  then obtain bl where bl: "mapE (make_block f init n bs ws) [0..<?num] = Inr bl" and gr: "gr = \<lparr>g_blocks = bl\<rparr>"
    using run ceil_div_Inr[OF bs(1) no_wrap(2)] by (auto simp: make_grid_def Let_def foldl_add_block split: if_splits)
  have "\<forall>w \<in> set (tb_warps b). urgent w" if b: "i \<in> set [0..<?num]" "make_block f init n bs ws i = Inr b" for i b
  proof -
    let ?nb = "min bs (n - i * bs)"
    have nb: "0 < ?nb" "?nb + ws < 2 ^ 64" using bs chunks_cover(2)[OF bs(1), of i n] b(1) no_wrap(1) by auto
    let ?nw = "(?nb + ws - 1) div ws"
    obtain wps where wps: "mapE (make_warp f init bs ws i ?nb) [0..<?nw] = Inr wps" and e: "tb_warps b = wps"
      using b(2) ceil_div_Inr[OF ws nb(2)] by (auto simp: make_block_def Let_def foldl_add_warp new_thread_block_def)
    have "urgent w" if w: "j \<in> set [0..<?nw]" "make_warp f init bs ws i ?nb j = Inr w" for j w
    proof -
      have "j * ws < ?nb" using chunks_cover(2)[OF ws, of j ?nb] w(1) by simp
      moreover have "j * 1 \<le> j * ws" using ws by (intro mult_le_mono2) simp
      moreover have "?nb \<le> 2 ^ 31" using bs(2) by simp
      ultimately have "j < 2 ^ 31" by linarith
      then show ?thesis using build_warp_urgent[OF f] w(2) by (auto simp: make_warp_def)
    qed
    then show ?thesis unfolding e by (intro mapE_members[OF wps])
  qed
  then have "\<forall>b \<in> set bl. \<forall>w \<in> set (tb_warps b). urgent w" by (intro mapE_members[OF bl])
  then show ?thesis by (auto simp: gr blocks_warps_def list_all_iff)
qed

section \<open>The run of a built grid\<close>

text \<open>The threads of block \<open>b\<close> when \<open>n\<close> threads are divided into blocks of \<open>bs\<close>.\<close>

definition block_roster :: "nat \<Rightarrow> nat \<Rightarrow> size_t \<Rightarrow> nat list" where
  "block_roster n bs b = [b * bs ..< min (b * bs + bs) n]"

definition placed :: "nat \<Rightarrow> thread \<Rightarrow> bool" where
  "placed bs t \<longleftrightarrow> t_global_id t = t_block_id t * bs + t_local_id t \<and> t_local_id t < bs"

context phased_kernel begin

lemma built_waiting:
  assumes b: "built_block init bs ws b" and ws: "ws \<le> 32" and ros: "map t_global_id (block_threads_of b) = roster (tb_id b)"
    and start: "\<And>t. t \<in> set (block_threads_of b) \<Longrightarrow> lane 0 t (space sh g)" and jt: "joint (tb_id b) (\<lambda>_. 0) (space sh g)"
  shows "waiting b sh g"
proof -
  have "stage 0 (\<lambda>_. 0) w (space sh g) \<and> w_threads w \<noteq> [] \<and> (\<forall>t \<in> set (w_threads w). t_block_id t = tb_id b) \<and> w_state w \<noteq> StalledAtBarrier"
    if w: "w \<in> set (tb_warps b)" for w
  proof -
    have bw: "built init ws w" and sub: "set (w_threads w) \<subseteq> set (block_threads_of b)"
      using b w by (auto simp: built_block_def block_threads_of_def)
    then have f: "w_stack w = []" "w_active_mask w = full_mask (length (w_threads w))" "w_pc w = 0" "w_state w = Ready" "w_threads w \<noteq> []"
      by (simp_all add: built_def)
    have "ctl w (\<lambda>_. 0)" using f by (intro starts) simp_all
    moreover have "holds (\<lambda>_. 0) (\<lambda>_. 0) w (space sh g)" using sub start nth_mem by (fastforce simp: holds_def)
    ultimately have "stage 0 (\<lambda>_. 0) w (space sh g)" unfolding stage_def using f
      by (intro exI[of _ "\<lambda>_. 0"]) (simp add: phase_def)
    then show ?thesis using f b sub by (auto simp: built_block_def)
  qed
  moreover have "map snd (concat (map lane_keys (tb_warps b))) = roster (tb_id b)"
    using ros by (simp add: block_threads_of_def map_concat lane_keys_def comp_def)
  ultimately show ?thesis using b jt by (simp add: waiting_def built_block_def)
qed

lemma blocks_run:
  assumes k: "k_instructions k = prog" and u: "runnable (barrier_free code) (g_blocks gr) g" and bl: "\<forall>b \<in> set (g_blocks gr). built_block init bs ws b"
    and ids: "distinct (map tb_id (g_blocks gr))" and ws: "ws \<le> 32" and ft: "block_fits c req bs ws"
    and ros: "\<forall>b \<in> set (g_blocks gr). map t_global_id (block_threads_of b) = roster (tb_id b)"
    and start: "\<And>b t s. b \<in> set (g_blocks gr) \<Longrightarrow> t \<in> set (block_threads_of b) \<Longrightarrow> s \<in> set (gpu_sms g) \<Longrightarrow>
      lane 0 t (space (sm_shared_memory s) (gpu_global_memory g))"
    and jstart: "\<And>b s. b \<in> set (g_blocks gr) \<Longrightarrow> s \<in> set (gpu_sms g) \<Longrightarrow> joint (tb_id b) (\<lambda>_. 0) (space (sm_shared_memory s) (gpu_global_memory g))"
  shows "\<exists>g1 g2. launch_kernel g gr c req = Inr g1 \<and> run_to_completion k g1 = Some (Inr g2) \<and>
    grows (gpu_global_memory g) (gpu_global_memory g2) \<and>
    (\<forall>t0 \<in> set (grid_threads gr). \<exists>t sh. thread_key t = thread_key t0 \<and> lane (length code) t (space sh (gpu_global_memory g2)))"
proof -
  have start': "\<forall>b \<in> set (g_blocks gr). \<forall>s \<in> set (gpu_sms g). waiting b (sm_shared_memory s) (gpu_global_memory g)"
  proof (intro ballI)
    fix b s assume b: "b \<in> set (g_blocks gr)" and s: "s \<in> set (gpu_sms g)"
    show "waiting b (sm_shared_memory s) (gpu_global_memory g)"
      by (rule built_waiting[OF _ ws]) (use bl ros b start[OF b _ s] jstart[OF b s] in blast)+
  qed
  have fits: "\<forall>b \<in> set (g_blocks gr). fits c req b" using bl built_fits[OF _ ft] by blast
  from launched_runs[OF k u built_blocks_ok[OF bl ws] fits ids start'] obtain g1 g2 where
    r: "launch_kernel g gr c req = Inr g1" "run_to_completion k g1 = Some (Inr g2)" "grows (gpu_global_memory g) (gpu_global_memory g2)"
    "\<forall>w \<in> set (blocks_warps (g_blocks gr)). reached (gpu_global_memory g2) (lane_keys w)" by blast
  have "\<exists>t sh. thread_key t = thread_key t0 \<and> lane (length code) t (space sh (gpu_global_memory g2))" if t0: "t0 \<in> set (grid_threads gr)" for t0
  proof -
    obtain b w where w: "b \<in> set (g_blocks gr)" "w \<in> set (tb_warps b)" "t0 \<in> set (w_threads w)"
      using t0 by (auto simp: grid_threads_def block_threads_of_def)
    then have "w \<in> set (blocks_warps (g_blocks gr))" by (auto simp: blocks_warps_def)
    then obtain w' sh where w': "lane_keys w' = lane_keys w" "\<forall>t \<in> set (w_threads w'). lane (length code) t (space sh (gpu_global_memory g2))"
      using r(4) that unfolding reached_def ended_def by blast
    have "thread_key t0 \<in> set (lane_keys w)" using w(3) by (simp add: lane_keys_thread)
    then have "thread_key t0 \<in> set (lane_keys w')" by (simp only: w'(1))
    then obtain t where "t \<in> set (w_threads w')" "thread_key t = thread_key t0" by (auto simp: lane_keys_thread)
    then show ?thesis using w'(2) by blast
  qed
  then show ?thesis using r by blast
qed

text \<open>The grids of consecutive threads.\<close>

lemma grid_runs:
  assumes k: "k_instructions k = prog" and u: "runnable (barrier_free code) (g_blocks gr) g" and gr: "make_grid f init n bs ws = Inr gr" and f: "keeps_warp f"
    and ws: "0 < ws" "ws \<le> 32" and bs: "0 < bs" and no_wrap: "bs + ws < 2 ^ 64" "n + bs < 2 ^ 64" and ft: "block_fits c req bs ws"
    and ros: "roster = block_roster n bs"
    and start: "\<And>t s. initialised init t \<Longrightarrow> t_global_id t < n \<Longrightarrow> placed bs t \<Longrightarrow> s \<in> set (gpu_sms g) \<Longrightarrow>
      lane 0 t (space (sm_shared_memory s) (gpu_global_memory g))"
    and jstart: "\<And>b s. s \<in> set (gpu_sms g) \<Longrightarrow> b * bs < n \<Longrightarrow> joint b (\<lambda>_. 0) (space (sm_shared_memory s) (gpu_global_memory g))"
  shows "\<exists>g1 g2. launch_kernel g gr c req = Inr g1 \<and> run_to_completion k g1 = Some (Inr g2) \<and>
    grows (gpu_global_memory g) (gpu_global_memory g2) \<and>
    (\<forall>i < n. \<exists>t sh. t_global_id t = i \<and> t_block_id t = i div bs \<and> lane (length code) t (space sh (gpu_global_memory g2)))"
proof -
  note mg = make_grid_built[OF gr f ws(1) bs no_wrap]
  have thread: "initialised init t \<and> t_global_id t < n \<and> placed bs t \<and> t_block_id t = tb_id b"
    if b: "b \<in> set (g_blocks gr)" and t: "t \<in> set (block_threads_of b)" for b t
  proof -
    have "initialised init t" using mg(1) b t by (auto simp: built_block_def built_def block_threads_of_def)
    moreover have "t_block_id t = tb_id b" using mg(1) b t by (simp add: built_block_def)
    moreover have "t_global_id t \<in> set [0..<n]" unfolding mg(4)[symmetric] using b t by (auto simp: grid_threads_def)
    ultimately show ?thesis using mg(5) b t by (simp add: placed_def)
  qed
  have js: "joint (tb_id b) (\<lambda>_. 0) (space (sm_shared_memory s) (gpu_global_memory g))" if b: "b \<in> set (g_blocks gr)" and s: "s \<in> set (gpu_sms g)" for b s
  proof (rule jstart[OF s])
    obtain w t where "w \<in> set (tb_warps b)" "t \<in> set (w_threads w)"
      using mg(1) b unfolding built_block_def built_def by (meson list.set_sel(1))
    then have "t \<in> set (block_threads_of b)" by (auto simp: block_threads_of_def)
    from thread[OF b this] show "tb_id b * bs < n" unfolding placed_def by (metis le_add1 le_less_trans)
  qed
  have ids: "distinct (map tb_id (g_blocks gr))" unfolding mg(2) by simp
  have ros': "\<forall>b \<in> set (g_blocks gr). map t_global_id (block_threads_of b) = roster (tb_id b)" using mg(5) by (simp add: ros block_roster_def)
  have st: "lane 0 t (space (sm_shared_memory s) (gpu_global_memory g))"
    if "b \<in> set (g_blocks gr)" "t \<in> set (block_threads_of b)" "s \<in> set (gpu_sms g)" for b t s using thread[OF that(1,2)] start that(3) by blast
  have "\<exists>g1 g2. launch_kernel g gr c req = Inr g1 \<and> run_to_completion k g1 = Some (Inr g2) \<and>
      grows (gpu_global_memory g) (gpu_global_memory g2) \<and>
      (\<forall>t0 \<in> set (grid_threads gr). \<exists>t sh. thread_key t = thread_key t0 \<and> lane (length code) t (space sh (gpu_global_memory g2)))"
    by (rule blocks_run[OF k u mg(1) ids ws(2) ft ros']) (rule st js; assumption)+
  then obtain g1 g2 where
    r: "launch_kernel g gr c req = Inr g1" "run_to_completion k g1 = Some (Inr g2)" "grows (gpu_global_memory g) (gpu_global_memory g2)"
    "\<forall>t0 \<in> set (grid_threads gr). \<exists>t sh. thread_key t = thread_key t0 \<and> lane (length code) t (space sh (gpu_global_memory g2))" by blast
  have "\<exists>t sh. t_global_id t = i \<and> t_block_id t = i div bs \<and> lane (length code) t (space sh (gpu_global_memory g2))" if "i < n" for i
  proof -
    have "i \<in> set (map t_global_id (grid_threads gr))" using that unfolding mg(4) by simp
    then obtain b t0 where t0: "b \<in> set (g_blocks gr)" "t0 \<in> set (block_threads_of b)" "t_global_id t0 = i" "t0 \<in> set (grid_threads gr)"
      by (auto simp: grid_threads_def)
    then have "t_block_id t0 = i div bs" using thread[OF t0(1,2)] bs by (auto simp: placed_def)
    then show ?thesis using r(4) t0(3,4) unfolding thread_key_def by (metis prod.inject)
  qed
  then show ?thesis using r by blast
qed

end

end
