(* ===== verification/Block_Kernels.thy ===== *)
theory Block_Kernels
  imports Block_Grids
begin

text \<open>
  Kernels of guarded programs with barriers. The locale \<open>block_kernel\<close> asks for an assertion for
  every lane at every program counter; the control states of \<open>Guarded_Programs\<close> give the rest of
  the contract \<open>phased_kernel\<close>, of which it is a sublocale.
\<close>

text \<open>A control instruction takes a lane from \<open>q\<close> to \<open>q'\<close>.\<close>

definition moves :: "instruction list \<Rightarrow> thread \<Rightarrow> nat \<Rightarrow> nat \<Rightarrow> bool" where
  "moves prog t q q' \<longleftrightarrow> q < length prog \<and>
     (inst_opcode (prog ! q) \<in> {SSY, SYNC, BARRIER} \<and> q' = q + 1 \<or>
      inst_opcode (prog ! q) = BRANCH \<and> q' = (if t_predicate t then size_add_int q (inst_immediate (prog ! q)) else q + 1))"

section \<open>The contract\<close>

locale block_kernel =
  fixes prog :: "instruction list" and lane :: "nat \<Rightarrow> thread \<Rightarrow> view \<Rightarrow> bool"
    and joint :: "size_t \<Rightarrow> (nat \<Rightarrow> nat) \<Rightarrow> view \<Rightarrow> bool" and target :: "size_t \<Rightarrow> c_int option" and region :: "size_t \<Rightarrow> size_t set" and roster :: "size_t \<Rightarrow> nat list"
  assumes bounded: "length prog < 2 ^ 63"
    and shaped: "guarded_prog prog"
    and roster_distinct: "distinct (roster b)"
    and regions_apart: "b \<noteq> b' \<Longrightarrow> region b \<inter> region b' = {}"
    and keeps_pc: "lane q t M \<Longrightarrow> lane q (set_pc t x) M"
    and keeps_apart: "lane q t M \<Longrightarrow> change target (\<lambda>a. a \<notin> region (t_block_id t)) M M' \<Longrightarrow> lane q t M'"
    and keeps_peer: "lane q t M \<Longrightarrow> lane q' t' M \<Longrightarrow> t_block_id t = t_block_id t' \<Longrightarrow> t_global_id t \<noteq> t_global_id t' \<Longrightarrow>
      phase prog q = phase prog q' \<Longrightarrow> q' < length prog \<Longrightarrow> inst_opcode (prog ! q') \<in> {STORE, ATOMIC_ADD} \<Longrightarrow>
      lane_step (prog ! q') M t' = Inr (t'', M') \<Longrightarrow> lane q t M'"
    and runs_data: "lane q t M \<Longrightarrow> joint (t_block_id t) L M \<Longrightarrow> L (t_global_id t) = q \<Longrightarrow> q < length prog \<Longrightarrow>
      lanewise_opcode (inst_opcode (prog ! q)) \<Longrightarrow>
      \<exists>t' M'. lane_step (prog ! q) M t = Inr (t', M') \<and> lane (q + 1) t' M' \<and>
        joint (t_block_id t) (L(t_global_id t := q + 1)) M' \<and> change target (\<lambda>a. a \<in> region (t_block_id t)) M M'"
    and runs_space: "lane q t M \<Longrightarrow> lane q t' M \<Longrightarrow> q < length prog \<Longrightarrow> t_block_id t = t_block_id t' \<Longrightarrow>
      one_space (prog ! q) {t, t'}"
    and lane_control: "lane q t M \<Longrightarrow> q < length prog \<Longrightarrow> inst_opcode (prog ! q) \<in> {SSY, SYNC} \<Longrightarrow> lane (q + 1) t M"
    and lane_branch: "lane q t M \<Longrightarrow> q < length prog \<Longrightarrow> inst_opcode (prog ! q) = BRANCH \<Longrightarrow>
      lane (if t_predicate t then size_add_int q (inst_immediate (prog ! q)) else q + 1) t M"
    and passes_barrier: "q < length prog \<Longrightarrow> inst_opcode (prog ! q) = BARRIER \<Longrightarrow> \<forall>t \<in> set ts. t_block_id t = b \<and> lane q t M \<Longrightarrow>
      map t_global_id ts = roster b \<Longrightarrow> joint b L M \<Longrightarrow> \<forall>t \<in> set ts. L (t_global_id t) = q \<Longrightarrow> t \<in> set ts \<Longrightarrow>
      lane (q + 1) t M"
    and joint_others: "joint b L M \<Longrightarrow> change target (\<lambda>a. a \<notin> region b) M M' \<Longrightarrow> joint b L M'"
    and joint_control: "joint (t_block_id t) L M \<Longrightarrow> lane q t M \<Longrightarrow> L (t_global_id t) = q \<Longrightarrow> moves prog t q q' \<Longrightarrow>
      joint (t_block_id t) (L(t_global_id t := q')) M"

sublocale block_kernel \<subseteq> lane_kernel prog "moves prog" lane joint target region roster
proof
  show "distinct (roster b)" for b by (rule roster_distinct)
  show "b \<noteq> b' \<Longrightarrow> region b \<inter> region b' = {}" for b b' by (rule regions_apart)
  show "lane q t M \<Longrightarrow> lane q (set_pc t x) M" for q t M x by (rule keeps_pc)
  show "q < length prog \<Longrightarrow> inst_opcode (prog ! q) = BARRIER \<Longrightarrow> moves prog t q (q + 1)" for q t by (simp add: moves_def)
qed (rule keeps_apart keeps_peer runs_data runs_space passes_barrier joint_others joint_control; assumption)+

section \<open>One instruction of a warp\<close>

text \<open>A warp that waits is behind its barrier, at the top level.\<close>

definition waits_at :: "instruction list \<Rightarrow> warp \<Rightarrow> (nat \<Rightarrow> nat) \<Rightarrow> bool" where
  "waits_at prog w lp \<longleftrightarrow> 0 < w_pc w \<and> w_pc w \<le> length prog \<and> inst_opcode (prog ! (w_pc w - 1)) = BARRIER \<and> w_stack w = [] \<and>
     w_active_mask w = full_mask (length (w_threads w)) \<and> guarded_prog (drop (w_pc w) prog) \<and>
     (\<forall>i < length (w_threads w). lp i = w_pc w - 1)"

context block_kernel begin

lemma step_runs:
  assumes c: "ctl prog w lp" and h: "holds L lp w (word_at m)" and jt: "joint b L (word_at m)" and b: "warp_of b w" and inv: "masks_inv w" and minv: "ms_inv m"
    and pc: "w_pc w < length prog" and nb: "inst_opcode (prog ! w_pc w) \<noteq> BARRIER"
  shows "\<exists>r w' m' lp' L'. execute (prog ! w_pc w) w m = Inr (r, w', m') \<and> er_status r \<noteq> BarrierReached \<and>
    ctl prog w' lp' \<and> holds L' lp' w' (word_at m') \<and> joint b L' (word_at m') \<and>
    (\<forall>id. id \<notin> ids_of w \<longrightarrow> L' id = L id) \<and> phase prog (w_pc w') = phase prog (w_pc w) \<and>
    left_of (length prog) w' < left_of (length prog) w \<and>
    touches b (word_at m) (word_at m') \<and> spares b (phase prog (w_pc w)) (ids_of w) (word_at m) (word_at m')"
proof -
  let ?i = "prog ! w_pc w" and ?n = "length prog" and ?T = "w_threads w" and ?k = "w_active_mask w" and ?M = "word_at m"
  have l32: "length ?T \<le> 32" using inv by (simp add: masks_inv_def)
  have ln: "lane (lp j) (?T ! j) ?M" "phase prog (lp j) = phase prog (w_pc w)" "t_block_id (?T ! j) = b"
    "L (t_global_id (?T ! j)) = lp j" if "j < length ?T" for j
    using h ctl_phase[OF bounded c that] b that by (auto simp: holds_def warp_of_def)
  have nonempty: "0 < length ?T" using b by (auto simp: warp_of_def)
  have same_phase: "phase prog (w_pc w') = phase prog (w_pc w)"
    if "ctl prog w' lp'" "length (w_threads w') = length ?T" "\<forall>j < length ?T. phase prog (lp' j) = phase prog (w_pc w)" for w' lp'
    using ctl_phase[OF bounded that(1), of 0] that(2,3) nonempty by simp
  consider (data) "lanewise_opcode (inst_opcode ?i)" | (ssy) "inst_opcode ?i = SSY" | (branch) "inst_opcode ?i = BRANCH"
    | (sync) "inst_opcode ?i = SYNC"
    using c
  proof (cases rule: ctl.cases)
    case top
    from top(4) pc show ?thesis
      by (cases rule: guarded_at) (use that nb opens_region(4)[OF _ bounded] in auto)
  next
    case (head s e tok)
    have "w_pc w = s + 1 \<or> w_pc w = s + 2" using head by linarith
    then show ?thesis using opens_region(6,7)[OF head(1) bounded] that by (auto simp: lanewise_opcode_def)
  next
    case (body s e tok)
    then show ?thesis using opens_region(9)[OF body(1) bounded, of "w_pc w"] opens_region(10)[OF body(1) bounded] that
      by (cases "w_pc w = e") auto
  next
    case (deferred s e d tok)
    then show ?thesis using opens_region(10)[OF deferred(1) bounded] that by simp
  qed
  then show ?thesis
  proof cases
    case data
    have at: "lp j = w_pc w" if "j < length ?T" "bit ?k j" for j
    proof -
      have "control (w\<lparr>w_pc := size_add (w_pc w) 1\<rparr>) = next_control w" by (simp add: control_def next_control_def)
      from ctl_data(1)[OF bounded c pc data this _ l32] that show "lp j = w_pc w" by simp
    qed
    from data_runs[OF h jt b l32 minv pc data at] ln(2) obtain r' w' m' L' where
      ex: "execute ?i w m = Inr (r', w', m')" "er_status r' = ExecCompleted" "control w' = next_control w" "length (w_threads w') = length ?T"
      and hd: "holds L' (\<lambda>j. if bit ?k j then lp j + 1 else lp j) w' (word_at m')" "joint b L' (word_at m')" "\<forall>id. id \<notin> ids_of w \<longrightarrow> L' id = L id"
      and tr: "touches b ?M (word_at m')" "spares b (phase prog (w_pc w)) (ids_of w) ?M (word_at m')" by blast
    note cd = ctl_data[OF bounded c pc data ex(3,4) l32]
    have "phase prog (w_pc w') = phase prog (w_pc w)"
      using ex(3) pc bounded phase_Suc[OF pc] nb by (simp add: control_def next_control_def)
    then show ?thesis using ex hd tr cd(2,3)
      by (intro exI[of _ r'] exI[of _ w'] exI[of _ m'] exI[of _ "\<lambda>j. if bit ?k j then lp j + 1 else lp j"] exI[of _ L']) simp
  next
    case ssy
    obtain r' w' where x: "exec_ssy ?i w = Inr (r', w')" using exec_control_total(1)[OF l32] by blast
    note cs = ctl_ssy[OF bounded c pc ssy x l32] and xs = exec_ssy_Inr[OF l32 x]
    have lw: "length (w_threads w') = length ?T" using xs by simp
    have "\<exists>L'. holds L' (\<lambda>j. lp j + 1) w ?M \<and> joint b L' ?M \<and> (\<forall>id. id \<notin> ids_of w \<longrightarrow> L' id = L id)"
      by (rule control_moves[OF h jt b]) (use ln(1) cs(1) lane_control[OF _ pc] ssy pc in \<open>simp_all add: moves_def\<close>)
    then obtain L' where L': "holds L' (\<lambda>j. lp j + 1) w' ?M" "joint b L' ?M" "\<forall>id. id \<notin> ids_of w \<longrightarrow> L' id = L id"
      using xs holds_shadow by blast
    have "\<forall>j < length ?T. phase prog (lp j + 1) = phase prog (w_pc w)" using cs(1) phase_Suc[OF pc] nb by simp
    from same_phase[OF cs(2) lw this] show ?thesis using x ssy cs(2,3) L' xs spares_refl change_refl
      by (intro exI[of _ r'] exI[of _ w'] exI[of _ m] exI[of _ "\<lambda>j. lp j + 1"] exI[of _ L'])
        (simp add: execute_def Let_def keep_memory_def plain_result_def)
  next
    case branch
    obtain r' w' where x: "exec_branch ?i w = Inr (r', w')" using exec_control_total(2)[OF l32] by blast
    let ?lp = "\<lambda>j. if t_predicate (?T ! j) then size_add_int (w_pc w) (inst_immediate ?i) else lp j + 1"
    note cb = ctl_branch[OF bounded c inv branch x pc]
    obtain q where xb: "w_threads w' = shadow ?k q ?T" "er_status r' \<noteq> BarrierReached"
      using exec_branch_Inr[OF l32 x] by (auto simp: plain_result_def split: if_splits)
    have "lane (?lp j) (?T ! j) ?M" if j: "j < length ?T" for j
    proof -
      have "lane (w_pc w) (?T ! j) ?M" using ln(1)[OF j] cb(1) j by simp
      from lane_branch[OF this pc branch] show ?thesis
        using cb(1) j by (cases "t_predicate (?T ! j)") simp_all
    qed
    moreover have "moves prog (?T ! j) (lp j) (?lp j)" if "j < length ?T" for j
      using cb(1) that branch pc by (auto simp: moves_def)
    ultimately have "\<exists>L'. holds L' ?lp w ?M \<and> joint b L' ?M \<and> (\<forall>id. id \<notin> ids_of w \<longrightarrow> L' id = L id)"
      by (intro control_moves[OF h jt b]) blast+
    then obtain L' where L': "holds L' ?lp w' ?M" "joint b L' ?M" "\<forall>id. id \<notin> ids_of w \<longrightarrow> L' id = L id"
      using xb(1) holds_shadow by blast
    have lw: "length (w_threads w') = length ?T" using xb(1) by simp
    then show ?thesis using x branch cb(2-4) L' xb spares_refl change_refl
      by (intro exI[of _ r'] exI[of _ w'] exI[of _ m] exI[of _ ?lp] exI[of _ L']) (simp add: execute_def Let_def keep_memory_def)
  next
    case sync
    have "w_stack w \<noteq> []" using c
    proof (cases rule: ctl.cases)
      case top
      from top(4) pc show ?thesis
        by (cases rule: guarded_at) (use sync opens_region(4)[OF _ bounded] in \<open>auto simp: lanewise_opcode_def\<close>)
    qed simp_all
    then obtain r' w' where x: "exec_sync w = Inr (r', w')" using exec_control_total(3)[OF l32] by blast
    note cs = ctl_sync[OF bounded c l32 sync x]
    obtain q where xs: "w_threads w' = shadow ?k q ?T" "er_status r' = ExecCompleted"
      using exec_sync_Inr[OF l32 x] by (auto simp: plain_result_def)
    have lw: "length (w_threads w') = length ?T" using xs(1) by simp
    obtain lp' L' where lp': "ctl prog w' lp'" "holds L' lp' w ?M" "\<forall>j < length ?T. phase prog (lp' j) = phase prog (w_pc w)"
      "joint b L' ?M" "\<forall>id. id \<notin> ids_of w \<longrightarrow> L' id = L id"
      using cs(2)
    proof
      assume "ctl prog w' lp"
      then show ?thesis using that h ln(2) jt by blast
    next
      assume a: "(\<forall>j < length ?T. lp j = w_pc w) \<and> ctl prog w' (\<lambda>j. lp j + 1)"
      have "\<exists>L'. holds L' (\<lambda>j. lp j + 1) w ?M \<and> joint b L' ?M \<and> (\<forall>id. id \<notin> ids_of w \<longrightarrow> L' id = L id)"
        by (rule control_moves[OF h jt b]) (use ln(1) a lane_control[OF _ pc] sync pc in \<open>simp_all add: moves_def\<close>)
      moreover have "\<forall>j < length ?T. phase prog (lp j + 1) = phase prog (w_pc w)" using a phase_Suc[OF pc] nb by simp
      ultimately show ?thesis using that a by blast
    qed
    have "holds L' lp' w' ?M" using lp'(2) xs(1) holds_shadow by blast
    with same_phase[OF lp'(1) lw lp'(3)] show ?thesis using x sync cs(1) lp'(1,4,5) xs(2) spares_refl change_refl
      by (intro exI[of _ r'] exI[of _ w'] exI[of _ m] exI[of _ lp'] exI[of _ L']) (simp add: execute_def Let_def keep_memory_def)
  qed
qed

text \<open>The end of the program is reached at the top level.\<close>

lemma ctl_end: "ctl prog w lp \<Longrightarrow> length prog \<le> w_pc w \<Longrightarrow> w_stack w = [] \<and> (\<forall>i < length (w_threads w). lp i = length prog)"
proof (induction rule: ctl.induct)
  case (head s e w tok lp)
  then show ?case using opens_region(1,2)[OF head(1) bounded] by linarith
next
  case (body s e w tok lp)
  then show ?case using opens_region(2)[OF body(1) bounded] by linarith
next
  case (deferred s e w d tok lp)
  then show ?case using opens_region(2)[OF deferred(1) bounded] by linarith
qed simp

text \<open>A warp that arrives at a barrier.\<close>

lemma barrier_runs:
  assumes c: "ctl prog w lp" and inv: "masks_inv w" and pc: "w_pc w < length prog" and oc: "inst_opcode (prog ! w_pc w) = BARRIER"
  shows "\<exists>w1 k pc. execute (prog ! w_pc w) w m = Inr (plain_result BarrierReached, w1, m) \<and> warp_framed w w1 \<and>
    w_threads w1 = shadow k pc (w_threads w) \<and> w_stack w1 = [] \<and> left_of (length prog) w1 < left_of (length prog) w \<and> waits_at prog w1 lp"
proof -
  have l32: "length (w_threads w) \<le> 32" using inv by (simp add: masks_inv_def)
  note top = ctl_top_only[OF bounded c, unfolded oc, simplified]
  have gp: "guarded_prog (drop (w_pc w + 1) prog)"
  proof -
    from top have "guarded_prog (drop (w_pc w) prog)" by simp
    then show ?thesis using pc
      by (cases rule: guarded_at) (use oc opens_region(4)[OF _ bounded] in \<open>auto simp: lanewise_opcode_def\<close>)
  qed
  obtain r w1 where x: "exec_barrier w = Inr (r, w1)" using exec_control_total(4)[OF l32] top by blast
  note xb = exec_barrier_Inr[OF l32 x]
  have ex: "execute (prog ! w_pc w) w m = Inr (plain_result BarrierReached, w1, m)"
    using x xb oc by (simp add: execute_def Let_def keep_memory_def)
  have w1: "w_pc w1 = w_pc w + 1" "w_stack w1 = []" "w_active_mask w1 = w_active_mask w"
    using xb pc bounded top by (simp_all add: control_def next_control_def)
  have thr: "w_threads w1 = shadow (w_active_mask w) (size_add (w_pc w) 1) (w_threads w)"
    using x move_to_eq[OF l32] by (auto simp: exec_barrier_def split: if_splits)
  have "waits_at prog w1 lp" unfolding waits_at_def using w1 top gp pc oc thr by simp
  moreover have "left_of (length prog) w1 < left_of (length prog) w" using w1 top pc by (simp add: left_of_def)
  ultimately show ?thesis using ex xb w1 thr by blast
qed

end

sublocale block_kernel \<subseteq> phased_kernel prog "moves prog" lane joint target region roster prog "ctl prog" "waits_at prog" "left_of (length prog)"
proof
  show "ctl prog w (\<lambda>_. 0)" if "w_stack w = []" "w_active_mask w = full_mask (length (w_threads w))" "w_pc w = 0" for w
    using that shaped by (intro ctl.top) simp_all
  show "ctl prog w lp \<Longrightarrow> control w' = control w \<Longrightarrow> w_threads w' = w_threads w \<Longrightarrow> ctl prog w' lp" for w w' lp
    using ctl_core by simp
  show "waits_at prog w lp \<Longrightarrow> control w' = control w \<Longrightarrow> w_threads w' = w_threads w \<Longrightarrow> waits_at prog w' lp" for w w' lp
    by (simp add: waits_at_def control_def)
  show "control w' = control w \<Longrightarrow> w_threads w' = w_threads w \<Longrightarrow> left_of (length prog) w' = left_of (length prog) w" for w w'
    by (rule left_of_control)
  show "ctl prog w lp \<Longrightarrow> length prog \<le> w_pc w \<Longrightarrow> w_stack w = [] \<and> (\<forall>i < length (w_threads w). lp i = length prog)" for w lp
    by (rule ctl_end)
  show "\<exists>w1 k pc. execute (prog ! w_pc w) w m = Inr (plain_result BarrierReached, w1, m) \<and> warp_framed w w1 \<and>
      w_threads w1 = shadow k pc (w_threads w) \<and> w_stack w1 = [] \<and> left_of (length prog) w1 < left_of (length prog) w \<and> waits_at prog w1 lp"
    if "ctl prog w lp" "masks_inv w" "w_pc w < length prog" "inst_opcode (prog ! w_pc w) = BARRIER" for w lp m
    by (rule barrier_runs[OF that])
  show "\<exists>q < length prog. inst_opcode (prog ! q) = BARRIER \<and> (\<forall>i < length (w_threads w). lp i = q)" if "waits_at prog w lp" for w lp
    using that by (intro exI[of _ "w_pc w - 1"]) (auto simp: waits_at_def)
  show "ctl prog w (\<lambda>_. q + 1)" if "waits_at prog w lp" "warp_of b w" "\<forall>i < length (w_threads w). lp i = q" for w lp b q
  proof -
    have "0 < length (w_threads w)" using that(2) by (simp add: warp_of_def)
    then have "q + 1 = w_pc w" using that(1,3) by (auto simp: waits_at_def)
    then show ?thesis using that(1) by (intro ctl.top) (auto simp: waits_at_def)
  qed
  show "\<exists>r w' m' lp' L'. execute (prog ! w_pc w) w m = Inr (r, w', m') \<and> er_status r \<noteq> BarrierReached \<and>
        ctl prog w' lp' \<and> holds L' lp' w' (word_at m') \<and> joint b L' (word_at m') \<and> (\<forall>id. id \<notin> ids_of w \<longrightarrow> L' id = L id) \<and>
        (\<forall>i < length (w_threads w'). phase prog (lp' i) = p) \<and> left_of (length prog) w' < left_of (length prog) w \<and>
        touches b (word_at m) (word_at m') \<and> spares b p (ids_of w) (word_at m) (word_at m')"
    if h: "ctl prog w lp" "holds L lp w (word_at m)" "joint b L (word_at m)" "warp_of b w" "masks_inv w" "ms_inv m"
      and ph: "\<forall>i < length (w_threads w). phase prog (lp i) = p" and pc: "w_pc w < length prog" "inst_opcode (prog ! w_pc w) \<noteq> BARRIER" for w lp L m b p
  proof -
    have "0 < length (w_threads w)" using h(4) by (simp add: warp_of_def)
    then have p: "phase prog (w_pc w) = p" using ph ctl_phase[OF bounded h(1)] by metis
    obtain r w' m' lp' L' where s: "execute (prog ! w_pc w) w m = Inr (r, w', m')" "er_status r \<noteq> BarrierReached"
      "ctl prog w' lp'" "holds L' lp' w' (word_at m')" "joint b L' (word_at m')" "\<forall>id. id \<notin> ids_of w \<longrightarrow> L' id = L id"
      "phase prog (w_pc w') = p" "left_of (length prog) w' < left_of (length prog) w"
      "touches b (word_at m) (word_at m')" "spares b p (ids_of w) (word_at m) (word_at m')"
      using step_runs[OF h pc] unfolding p by blast
    have "\<forall>i < length (w_threads w'). phase prog (lp' i) = p" using ctl_phase[OF bounded s(3)] s(7) by simp
    with s show ?thesis by blast
  qed
qed

end
