(* ===== verification/Map_Kernels.thy ===== *)
theory Map_Kernels
  imports Block_Kernels
begin

text \<open>
  Kernels in which every lane computes on its own, without branches, barriers and shared memory,
  and every word that is written has one intended value. The locale \<open>map_kernel\<close> is a
  \<open>block_kernel\<close> without regions, whose total correctness it inherits.
\<close>

text \<open>A view after another one: only target words changed, and only to their target values.\<close>

abbreviation fills :: "(size_t \<Rightarrow> c_int option) \<Rightarrow> view \<Rightarrow> view \<Rightarrow> bool" where
  "fills target \<equiv> change target (\<lambda>_. True)"

definition view_of :: "global_memory \<Rightarrow> view" where
  "view_of g a = (if a < SHARED_MEM_BASE then gm_load g a else Inr 0)"

lemma fills_keeps: "fills target M M' \<Longrightarrow> M a = Inr v \<Longrightarrow> target a = None \<Longrightarrow> a < SHARED_MEM_BASE \<Longrightarrow> M' a = Inr v"
  unfolding change_def by (metis option.distinct(1))

lemma fills_done: "fills target M M' \<Longrightarrow> M a = Inr v \<Longrightarrow> target a = Some v \<Longrightarrow> a < SHARED_MEM_BASE \<Longrightarrow> M' a = Inr v"
  unfolding change_def by (metis option.inject)

lemma fills_mapped: "fills target M M' \<Longrightarrow> M a = Inr v \<Longrightarrow> a < SHARED_MEM_BASE \<Longrightarrow> \<exists>v'. M' a = Inr v'"
  unfolding change_def by metis

lemma view_fills: "fills target (view_of g) (space sh g)"
  by (simp add: change_def view_of_def space_def)

locale map_kernel =
  fixes prog :: "instruction list" and lane :: "nat \<Rightarrow> thread \<Rightarrow> view \<Rightarrow> bool" and target :: "size_t \<Rightarrow> c_int option"
    and n bs :: nat
  assumes short_program: "length prog < 2 ^ 63"
    and lanewise: "i \<in> set prog \<Longrightarrow> lanewise_opcode (inst_opcode i)"
    and lane_moves: "lane p t M \<Longrightarrow> lane p (set_pc t q) M"
    and lane_fills: "lane p t M \<Longrightarrow> fills target M M' \<Longrightarrow> lane p t M'"
    and lane_runs: "lane p t M \<Longrightarrow> p < length prog \<Longrightarrow>
      \<exists>t' M'. lane_step (prog ! p) M t = Inr (t', M') \<and> lane (p + 1) t' M' \<and> change target (\<lambda>_. False) M M'"
    and lane_global: "lane p t M \<Longrightarrow> p < length prog \<Longrightarrow> inst_opcode (prog ! p) \<in> {LOAD, STORE, ATOMIC_ADD} \<Longrightarrow>
      touched (prog ! p) t = Inr a \<Longrightarrow> a < SHARED_MEM_BASE"
begin

lemma no_control: "q < length prog \<Longrightarrow> inst_opcode (prog ! q) \<notin> {SSY, SYNC, BRANCH, BARRIER}"
  using lanewise[of "prog ! q"] by (auto simp: lanewise_opcode_def)

end

sublocale map_kernel \<subseteq> block_kernel prog lane "\<lambda>_ _ _. True" target "\<lambda>_. {}" "block_roster n bs"
proof
  show "length prog < 2 ^ 63" by (rule short_program)
  show "guarded_prog prog" by (rule guarded_data) (simp add: list_all_iff lanewise)
  show "distinct (block_roster n bs b)" for b by (simp add: block_roster_def)
  show "lane q t M'" if "lane q t M" "change target (\<lambda>a. a \<notin> {}) M M'" for q t M M'
    using lane_fills[OF that(1)] that(2) by simp
  show "lane q t M'" if l: "lane q t M" "lane q' t' M" and q: "q' < length prog" and s: "lane_step (prog ! q') M t' = Inr (t2, M')"
    for q t M q' t' t2 M'
  proof -
    have "change target (\<lambda>_. False) M M'" using lane_runs[OF l(2) q] s by auto
    then have "fills target M M'" by (rule change_mono) simp
    then show ?thesis by (rule lane_fills[OF l(1)])
  qed
  show "\<exists>t' M'. lane_step (prog ! q) M t = Inr (t', M') \<and> lane (q + 1) t' M' \<and> True \<and> change target (\<lambda>a. a \<in> {}) M M'"
    if "lane q t M" "q < length prog" for q t M using lane_runs[OF that] by simp
  show "one_space (prog ! q) {t, t'}" if "lane q t M" "lane q t' M" "q < length prog" for q t t' M
    unfolding one_space_def using lane_global that by blast
qed (use lane_moves no_control in blast)+

text \<open>A built grid of such a kernel on a GPU ready for it, from the launch to the end of the run.\<close>

context map_kernel begin

lemma map_runs:
  assumes k: "k_instructions k = prog" and u: "runnable True (g_blocks gr) g" and gr: "make_grid f init n bs ws = Inr gr" and f: "keeps_warp f"
    and ws: "0 < ws" "ws \<le> 32" and bs: "0 < bs" and no_wrap: "bs + ws < 2 ^ 64" "n + bs < 2 ^ 64" and ft: "block_fits c req bs ws"
    and start: "\<And>t. initialised init t \<Longrightarrow> t_global_id t < n \<Longrightarrow> lane 0 t (view_of (gpu_global_memory g))"
  shows "\<exists>g1 g2. launch_kernel g gr c req = Inr g1 \<and> run_to_completion k g1 = Some (Inr g2) \<and>
    grows (gpu_global_memory g) (gpu_global_memory g2) \<and>
    (\<forall>i < n. \<exists>t. t_global_id t = i \<and> lane (length prog) t (view_of (gpu_global_memory g2)))"
proof -
  have s: "lane 0 t (space (sm_shared_memory s) (gpu_global_memory g))" if "initialised init t" "t_global_id t < n" for t s
    using start[OF that] view_fills by (rule lane_fills)
  have "barrier_free prog" using no_control by (auto simp: barrier_free_def list_all_length)
  then have u': "runnable (barrier_free prog) (g_blocks gr) g" using u by simp
  from grid_runs[OF k u' gr f ws bs no_wrap ft refl s TrueI] obtain g1 g2 where
    r: "launch_kernel g gr c req = Inr g1" "run_to_completion k g1 = Some (Inr g2)" "grows (gpu_global_memory g) (gpu_global_memory g2)"
    "\<forall>i < n. \<exists>t sh. t_global_id t = i \<and> t_block_id t = i div bs \<and> lane (length prog) t (space sh (gpu_global_memory g2))" by blast
  have "fills target (space sh g) (view_of g)" for sh g by (simp add: change_def view_of_def space_def)
  then show ?thesis using r lane_fills by blast
qed

end

end
