(* ===== verification/Vector_Add.thy ===== *)
theory Vector_Add
  imports Map_Kernels Metrics
begin

text \<open>
  The vector addition of the benchmarks (\<^verbatim>\<open>src/runtime/benchmarks.cpp\<close>), kernel and grid together:
  the program as a list, the assertion of a lane at every program counter, and the interpretation
  of \<open>map_kernel\<close> that makes its run total and correct.
\<close>

section \<open>The program\<close>

definition vadd_body :: "nat \<Rightarrow> instruction list" where
  "vadd_body i = [instr LOAD 3 0 (-1) (of_nat (4 * i)), instr LOAD 4 1 (-1) (of_nat (4 * i)), instr ADD 5 3 4 0,
     instr STORE 2 5 2 (of_nat (4 * i))]"

definition vadd_program :: "c_int \<Rightarrow> instruction list" where
  "vadd_program iterations = concat (map vadd_body [0..<nat (sint iterations)])"

lemma vadd_kernel:
  assumes "generate_vector_add_kernel iterations = Inr k"
  shows "k_instructions k = vadd_program iterations"
proof -
  have small: "i < 2 ^ 31" if "i < nat (sint iterations)" for i
    using that sint_bounds32(2)[of iterations] by simp
  obtain bodies where b: "mapE vector_add_body (int_range iterations) = Inr bodies" and k: "k_instructions k = concat bodies"
    using assms by (auto simp: generate_vector_add_kernel_def make_kernel_def)
  have "body = vadd_body i" if i: "i < nat (sint iterations)" and run: "vector_add_body (of_nat i) = Inr body" for i body
  proof -
    obtain off where "c_mul (of_nat i) 4 = Inr off" and body: "body = [instr LOAD 3 0 (-1) off, instr LOAD 4 1 (-1) off,
        instr ADD 5 3 4 0, instr STORE 2 5 2 off]" using run by (auto simp: vector_add_body_def)
    then have "off = word_of_int (int i * 4)" using sint_of_nat[OF small[OF i]] by (simp add: c_mul_def checked_int_Inr)
    then have "off = of_nat (4 * i)" by (simp add: mult.commute)
    then show ?thesis by (simp add: body vadd_body_def)
  qed
  then have "map id bodies = map (\<lambda>i. vadd_body (nat (sint i))) (int_range iterations)"
  proof (intro map_mapE[OF b])
    fix x y assume same: "\<And>i body. i < nat (sint iterations) \<Longrightarrow> vector_add_body (of_nat i) = Inr body \<Longrightarrow> body = vadd_body i"
      and x: "x \<in> set (int_range iterations)" "vector_add_body x = Inr y"
    then obtain i where i: "i < nat (sint iterations)" "x = of_nat i" by (auto simp: int_range_def)
    then show "id y = vadd_body (nat (sint x))" using same[OF i(1)] x(2) sint_of_nat[OF small[OF i(1)]] by simp
  qed
  moreover have "map (\<lambda>i. vadd_body (nat (sint i))) (int_range iterations) = map vadd_body [0..<nat (sint iterations)]"
    using sint_of_nat[OF small] by (simp add: int_range_def)
  ultimately show ?thesis by (simp add: k vadd_program_def)
qed

section \<open>What it computes\<close>

text \<open>Thread \<open>g\<close> of \<open>N\<close> adds, in iteration \<open>i\<close> of \<open>K\<close>, the elements at offset \<open>g * s + 4 * i\<close>.\<close>

definition vadd_element :: "nat \<Rightarrow> nat \<Rightarrow> nat \<Rightarrow> nat \<Rightarrow> bool" where
  "vadd_element N s K x \<longleftrightarrow> (\<exists>g < N. \<exists>i < K. x = g * s + 4 * i)"

definition vadd_sum :: "global_memory \<Rightarrow> nat \<Rightarrow> c_int" where
  "vadd_sum m x = word_of m x + word_of m (10000 + x)"

definition vadd_target :: "nat \<Rightarrow> nat \<Rightarrow> nat \<Rightarrow> global_memory \<Rightarrow> size_t \<Rightarrow> c_int option" where
  "vadd_target N s K m a = (if 20000 \<le> a \<and> vadd_element N s K (a - 20000) then Some (vadd_sum m (a - 20000)) else None)"

text \<open>
  No word that is written, at 20000 and above, is an element of the vectors at 0 and 10000; the
  memory is large enough, and no sum overflows.
\<close>

definition vadd_input :: "nat \<Rightarrow> nat \<Rightarrow> nat \<Rightarrow> global_memory \<Rightarrow> bool" where
  "vadd_input N s K m \<longleftrightarrow> (\<forall>g < N. \<forall>i < K. let x = g * s + 4 * i
     in \<not> vadd_element N s K (10000 + x) \<and> \<not> vadd_element N s K (20000 + x) \<and>
        20000 + x < min SHARED_MEM_BASE (length (gm_data m)) \<and>
        - (2 ^ 31) \<le> sint (word_of m x) + sint (word_of m (10000 + x)) \<and> sint (word_of m x) + sint (word_of m (10000 + x)) < 2 ^ 31)"

definition vadd_lane :: "nat \<Rightarrow> nat \<Rightarrow> nat \<Rightarrow> global_memory \<Rightarrow> nat \<Rightarrow> thread \<Rightarrow> view \<Rightarrow> bool" where
  "vadd_lane N s K m p t g \<longleftrightarrow>
     vadd_input N s K m \<and> fills (vadd_target N s K m) (view_of m) g \<and> full_file t \<and> t_global_id t < N \<and>
     (let x = t_global_id t * s; y = x + 4 * (p div 4)
      in read_reg t 0 = Inr (of_nat x) \<and> read_reg t 1 = Inr (of_nat (10000 + x)) \<and> read_reg t 2 = Inr (of_nat (20000 + x)) \<and>
         (\<forall>i < p div 4. i < K \<longrightarrow> g (20000 + x + 4 * i) = Inr (vadd_sum m (x + 4 * i))) \<and>
         (1 \<le> p mod 4 \<longrightarrow> read_reg t 3 = Inr (word_of m y)) \<and>
         (2 \<le> p mod 4 \<longrightarrow> read_reg t 4 = Inr (word_of m (10000 + y))) \<and>
         (3 \<le> p mod 4 \<longrightarrow> read_reg t 5 = Inr (vadd_sum m y)))"

lemma vadd_apart:
  assumes "vadd_input N s K m" and "vadd_element N s K x"
  shows "vadd_target N s K m x = None" and "vadd_target N s K m (10000 + x) = None" and "20000 + x < SHARED_MEM_BASE"
    and "20000 + x < length (gm_data m)" and "- (2 ^ 31) \<le> sint (word_of m x) + sint (word_of m (10000 + x))"
    and "sint (word_of m x) + sint (word_of m (10000 + x)) < 2 ^ 31"
proof -
  have all: "\<not> vadd_element N s K (10000 + e) \<and> \<not> vadd_element N s K (20000 + e)" if "vadd_element N s K e" for e
    using assms(1) that unfolding vadd_input_def Let_def vadd_element_def by blast
  have "\<not> vadd_element N s K (x - 20000)" if "20000 \<le> x" using all[of "x - 20000"] assms(2) that by auto
  then show "vadd_target N s K m x = None" by (simp add: vadd_target_def)
  have "\<not> vadd_element N s K (10000 + x - 20000)" if "20000 \<le> 10000 + x" using all[of "x - 10000"] assms(2) that by auto
  then show "vadd_target N s K m (10000 + x) = None" by (simp add: vadd_target_def)
qed (use assms in \<open>auto simp: vadd_input_def Let_def vadd_element_def\<close>)

lemma view_mapped: "a < length (gm_data m) \<Longrightarrow> a < SHARED_MEM_BASE \<Longrightarrow> view_of m a = Inr (word_of m a)"
  by (simp add: view_of_def word_of_def gm_load_def)

lemma vadd_lane_pc: "vadd_lane N s K m p t g \<Longrightarrow> vadd_lane N s K m p (set_pc t q) g"
  by (simp add: vadd_lane_def set_pc_def full_file_def read_reg_def)

lemma vadd_lane_fills:
  assumes "vadd_lane N s K m p t g" and f: "fills (vadd_target N s K m) g g'"
  shows "vadd_lane N s K m p t g'"
proof -
  have "g' (20000 + t_global_id t * s + 4 * i) = Inr (vadd_sum m (t_global_id t * s + 4 * i))"
    if "i < p div 4" "i < K" for i
  proof (rule fills_done[OF f])
    show "20000 + t_global_id t * s + 4 * i < SHARED_MEM_BASE"
    proof -
      have "vadd_input N s K m" "t_global_id t < N" using assms(1) by (simp_all add: vadd_lane_def)
      moreover from this have "vadd_element N s K (t_global_id t * s + 4 * i)" using that(2) by (auto simp: vadd_element_def)
      ultimately show ?thesis using vadd_apart(3) by (simp add: add.assoc)
    qed
    show "g (20000 + t_global_id t * s + 4 * i) = Inr (vadd_sum m (t_global_id t * s + 4 * i))"
      using assms(1) that by (simp add: vadd_lane_def Let_def)
    have "vadd_element N s K (t_global_id t * s + 4 * i)" using assms(1) that by (auto simp: vadd_lane_def vadd_element_def)
    then show "vadd_target N s K m (20000 + t_global_id t * s + 4 * i) = Some (vadd_sum m (t_global_id t * s + 4 * i))"
      by (simp add: vadd_target_def add.assoc)
  qed
  then show ?thesis using assms(1) change_trans[OF _ f] by (simp add: vadd_lane_def Let_def)
qed

text \<open>What a lane reads: the registers of the thread and the two vectors.\<close>

lemma vadd_reads:
  assumes l: "vadd_lane N s K m p t g" and q: "p div 4 < K" and y: "y = t_global_id t * s + 4 * (p div 4)"
  shows "g y = Inr (word_of m y)" and "g (10000 + y) = Inr (word_of m (10000 + y))" and "\<exists>v. g (20000 + y) = Inr v"
    and "c_add (word_of m y) (word_of m (10000 + y)) = Inr (vadd_sum m y)" and "20000 + y < SHARED_MEM_BASE" and "vadd_target N s K m (20000 + y) = Some (vadd_sum m y)"
    and "\<And>oc d a b. lane_address 0 (instr oc d a b (of_nat (4 * (p div 4)))) t = Inr y"
    and "\<And>oc d a b. lane_address 1 (instr oc d a b (of_nat (4 * (p div 4)))) t = Inr (10000 + y)"
    and "\<And>oc d a b. lane_address 2 (instr oc d a b (of_nat (4 * (p div 4)))) t = Inr (20000 + y)"
proof -
  note d = l[unfolded vadd_lane_def Let_def]
  have "vadd_input N s K m" "vadd_element N s K y" using d q by (auto simp: vadd_element_def y)
  note inp = vadd_apart[OF this]
  have f: "fills (vadd_target N s K m) (view_of m) g" using d by blast
  have mem: "g a = Inr (word_of m a)" if "a < SHARED_MEM_BASE" "a < length (gm_data m)" "vadd_target N s K m a = None" for a
    using that by (intro fills_keeps[OF f]) (simp_all add: view_mapped)
  show "g y = Inr (word_of m y)" "g (10000 + y) = Inr (word_of m (10000 + y))" using mem inp(1-4) by simp_all
  show "\<exists>v. g (20000 + y) = Inr v"
    using inp(3,4) by (intro fills_mapped[OF f]) (simp_all add: view_mapped)
  show "c_add (word_of m y) (word_of m (10000 + y)) = Inr (vadd_sum m y)"
    using inp(5,6) by (simp add: c_add_def checked_int_Inr vadd_sum_def)
  show "20000 + y < SHARED_MEM_BASE" by (rule inp)
  show "vadd_target N s K m (20000 + y) = Some (vadd_sum m y)"
    using d q by (auto simp: vadd_target_def vadd_element_def y)
  have off: "lane_address r (instr oc d a b (of_nat (4 * (p div 4)))) t = Inr (c + y)"
    if "read_reg t r = Inr (of_nat (c + t_global_id t * s))" "r \<noteq> -1" "c \<le> 20000" for r oc d a b c
    using lane_address_add[OF that(1,2), of "instr oc d a b (of_nat (4 * (p div 4)))" "4 * (p div 4)"] that(3) inp(3)
    by (simp add: y add.assoc SHARED_MEM_BASE_def)
  show "lane_address 0 (instr oc d a b (of_nat (4 * (p div 4)))) t = Inr y"
    "lane_address 1 (instr oc d a b (of_nat (4 * (p div 4)))) t = Inr (10000 + y)"
    "lane_address 2 (instr oc d a b (of_nat (4 * (p div 4)))) t = Inr (20000 + y)" for oc d a b
    using off[of 0 0] off[of 1 10000] off[of 2 20000] d by simp_all
qed

lemma vadd_write:
  assumes l: "vadd_lane N s K m p t g" and r: "r \<in> {3, 4, 5}"
  obtains t' where "write_reg t r v = Inr t'" and "full_file t'" and "t_global_id t' = t_global_id t"
    and "read_reg t' r = Inr v" and "\<And>r'. int_to_size r' \<noteq> int_to_size r \<Longrightarrow> read_reg t' r' = read_reg t r'"
proof -
  have "full_file t" "int_to_size r < 32" using l r by (auto simp: vadd_lane_def)
  from write_reg_full[OF this, of v] obtain t' where "write_reg t r v = Inr t'" "full_file t'" "t_global_id t' = t_global_id t"
    "\<And>r'. read_reg t' r' = (if int_to_size r' = int_to_size r then Inr v else read_reg t r')" by blast
  then show thesis by (intro that[of t']) simp_all
qed

lemma vadd_lane_runs:
  assumes l: "vadd_lane N s (nat (sint iters)) m p t g" and p: "p < length (vadd_program iters)"
  shows "\<exists>t' g'. lane_step (vadd_program iters ! p) g t = Inr (t', g') \<and> vadd_lane N s (nat (sint iters)) m (p + 1) t' g' \<and>
    change (vadd_target N s (nat (sint iters)) m) (\<lambda>_. False) g g'"
    and "inst_opcode (vadd_program iters ! p) \<in> {LOAD, STORE, ATOMIC_ADD} \<Longrightarrow> touched (vadd_program iters ! p) t = Inr a \<Longrightarrow> a < SHARED_MEM_BASE"
proof -
  let ?K = "nat (sint iters)" and ?q = "p div 4"
  define y where "y = t_global_id t * s + 4 * ?q"
  have len: "length (vadd_body i) = 4" for i by (simp add: vadd_body_def)
  note cb = concat_blocks[where f = vadd_body and c = 4 and n = "?K", OF len]
  have q: "?q < ?K" and nth: "vadd_program iters ! p = vadd_body ?q ! (p mod 4)"
    using p cb by (simp_all add: vadd_program_def less_mult_imp_div_less mult.commute)
  note rd = vadd_reads[OF l q y_def]
  note d = l[unfolded vadd_lane_def Let_def]
  have "p mod 4 < 4" by simp
  then consider "p mod 4 = 0" | "p mod 4 = 1" | "p mod 4 = 2" | "p mod 4 = 3" by linarith
  note four = this
  show "\<exists>t' g'. lane_step (vadd_program iters ! p) g t = Inr (t', g') \<and> vadd_lane N s ?K m (p + 1) t' g' \<and>
    change (vadd_target N s ?K m) (\<lambda>_. False) g g'"
    using four
  proof cases
    case 1
    obtain t' where t': "write_reg t 3 (word_of m y) = Inr t'" "full_file t'" "t_global_id t' = t_global_id t"
      "read_reg t' 3 = Inr (word_of m y)" "\<And>r'. int_to_size r' \<noteq> int_to_size 3 \<Longrightarrow> read_reg t' r' = read_reg t r'"
      using vadd_write[OF l, of 3] by blast
    have "lane_step (vadd_program iters ! p) g t = Inr (t', g)"
      using rd(1,7) t'(1) by (simp add: nth 1 vadd_body_def lane_step_def)
    moreover have "Suc p div 4 = ?q" "Suc p mod 4 = 1" using 1 by presburger+
    then have "vadd_lane N s ?K m (p + 1) t' g" using l t' by (simp add: vadd_lane_def Let_def y_def)
    ultimately show ?thesis using change_refl by blast
  next
    case 2
    obtain t' where t': "write_reg t 4 (word_of m (10000 + y)) = Inr t'" "full_file t'" "t_global_id t' = t_global_id t"
      "read_reg t' 4 = Inr (word_of m (10000 + y))" "\<And>r'. int_to_size r' \<noteq> int_to_size 4 \<Longrightarrow> read_reg t' r' = read_reg t r'"
      using vadd_write[OF l, of 4] by blast
    have "lane_step (vadd_program iters ! p) g t = Inr (t', g)"
      using rd(2,8) t'(1) by (simp add: nth 2 vadd_body_def lane_step_def)
    moreover have "Suc p div 4 = ?q" "Suc p mod 4 = 2" using 2 by presburger+
    then have "vadd_lane N s ?K m (p + 1) t' g" using l t' 2 by (simp add: vadd_lane_def Let_def y_def)
    ultimately show ?thesis using change_refl by blast
  next
    case 3
    obtain t' where t': "write_reg t 5 (vadd_sum m y) = Inr t'" "full_file t'" "t_global_id t' = t_global_id t"
      "read_reg t' 5 = Inr (vadd_sum m y)" "\<And>r'. int_to_size r' \<noteq> int_to_size 5 \<Longrightarrow> read_reg t' r' = read_reg t r'"
      using vadd_write[OF l, of 5] by blast
    have "read_reg t 3 = Inr (word_of m y)" "read_reg t 4 = Inr (word_of m (10000 + y))" using d 3 by (simp_all add: y_def)
    then have "lane_step (vadd_program iters ! p) g t = Inr (t', g)"
      using rd(4) t'(1) by (simp add: nth 3 vadd_body_def lane_step_def lane_op_def alu_def)
    moreover have "Suc p div 4 = ?q" "Suc p mod 4 = 3" using 3 by presburger+
    then have "vadd_lane N s ?K m (p + 1) t' g" using l t' 3 by (simp add: vadd_lane_def Let_def y_def)
    ultimately show ?thesis using change_refl by blast
  next
    case 4
    let ?g = "g(20000 + y := Inr (vadd_sum m y))"
    have "read_reg t 5 = Inr (vadd_sum m y)" using d 4 by (simp add: y_def)
    then have st: "lane_step (vadd_program iters ! p) g t = Inr (t, ?g)"
      using rd(3,9) by (auto simp: nth 4 vadd_body_def lane_step_def lane_store_def)
    have ch: "change (vadd_target N s ?K m) (\<lambda>_. False) g ?g" using rd(5,6) by (simp add: change_def)
    then have "vadd_lane N s ?K m p t ?g" by (intro vadd_lane_fills[OF l]) (rule change_mono, assumption, simp)
    moreover have "Suc p div 4 = Suc ?q" "Suc p mod 4 = 0" using 4 by presburger+
    ultimately have "vadd_lane N s ?K m (p + 1) t ?g" by (auto simp: vadd_lane_def Let_def less_Suc_eq y_def add.assoc)
    then show ?thesis using st ch by blast
  qed
  show "a < SHARED_MEM_BASE" if "inst_opcode (vadd_program iters ! p) \<in> {LOAD, STORE, ATOMIC_ADD}" "touched (vadd_program iters ! p) t = Inr a"
    using four by cases (use that rd(5,7,8,9) in \<open>auto simp: nth vadd_body_def touched_def\<close>)
qed

interpretation vadd: map_kernel "vadd_program iters" "vadd_lane N s (nat (sint iters)) m" "vadd_target N s (nat (sint iters)) m" N bs
  for iters :: c_int and N s bs :: nat and m :: global_memory
proof
  have len: "length (vadd_body i) = 4" for i by (simp add: vadd_body_def)
  have "length (vadd_program iters) = 4 * nat (sint iters)" using concat_blocks(1)[where f = vadd_body and c = 4, OF len] by (simp add: vadd_program_def)
  then show "length (vadd_program iters) < 2 ^ 63" using sint_bounds32(2)[of iters] by simp
  show "lanewise_opcode (inst_opcode i)" if "i \<in> set (vadd_program iters)" for i
    using that by (auto simp: vadd_program_def vadd_body_def lanewise_opcode_def)
qed (rule vadd_lane_pc vadd_lane_fills vadd_lane_runs; assumption)+

section \<open>The run\<close>

lemma vadd_initial:
  assumes init: "initialised (benchmark_init strided) t" and "t_global_id t < N" and "vadd_input N s K m"
    and s: "s = (if strided then 32 else 4)"
  shows "vadd_lane N s K m 0 t (view_of m)"
proof -
  have regs: "read_reg t 0 = Inr (of_nat (t_global_id t * s)) \<and> read_reg t 1 = Inr (of_nat (10000 + t_global_id t * s)) \<and>
      read_reg t 2 = Inr (of_nat (20000 + t_global_id t * s)) \<and> full_file t"
  proof -
    let ?x = "t_global_id t * s"
    obtain t0 t1 t2 where w: "write_reg t0 0 (of_nat ?x) = Inr t1" "write_reg t1 1 (of_nat (10000 + ?x)) = Inr t2"
      "write_reg t2 2 (of_nat (20000 + ?x)) = Inr t" and f0: "full_file t0"
      using init by (auto simp: initialised_def write_registers_def benchmark_init_def Let_def s size_to_int_def full_file_def
          new_thread_def new_register_file_def)
    have "full_file t" using f0 w[THEN write_reg_identity] by (simp add: full_file_def same_identity_def)
    then show ?thesis using w[THEN write_reg_read(1)] by simp
  qed
  then show ?thesis using assms(2,3) by (simp add: vadd_lane_def change_refl Let_def)
qed

end
