(* ===== verification/Reduction.thy ===== *)
theory Reduction
  imports Block_Kernels Metrics
begin

text \<open>
  The reduction of the benchmarks (\<^verbatim>\<open>src/runtime/benchmarks.cpp\<close>): every block sums its elements
  in the shared memory, in rounds of halved stride with a barrier after each. The program as a
  list, and the partial sums after every round.
\<close>

section \<open>The program\<close>

lemma halvings_zero [simp]: "halvings 0 = []"
  by (simp add: halvings.simps)

lemma halvings_nth: "i < length (halvings m) \<Longrightarrow> halvings m ! i = m div 2 ^ i"
proof (induction m arbitrary: i rule: halvings.induct)
  case (1 m)
  show ?case
  proof (cases "m = 0 \<or> i = 0")
    case True
    then show ?thesis using 1(2) by (cases "m = 0") (simp_all add: halvings.simps[of m])
  next
    case False
    then obtain j where j: "i = Suc j" by (cases i) auto
    then have "halvings m ! i = m div 2 div 2 ^ j" using 1 False by (simp add: halvings.simps[of m])
    then show ?thesis by (simp add: j div_mult2_eq)
  qed
qed

lemma halvings_length: "m < 2 ^ d \<Longrightarrow> length (halvings m) \<le> d"
proof (induction d arbitrary: m)
  case (Suc d)
  then have "length (halvings (m div 2)) \<le> d" by simp
  then show ?case by (cases "m = 0") (simp_all add: halvings.simps[of m])
qed simp

lemma halvings_power: "length (halvings (2 ^ d)) = Suc d"
proof (induction d)
  case 0
  show ?case by (simp add: halvings.simps[of "Suc 0"])
next
  case (Suc d)
  then show ?case by (subst halvings.simps) simp
qed

definition red_size :: "c_int \<Rightarrow> nat" where
  "red_size b = nat (sint b)"

definition red_rounds :: "c_int \<Rightarrow> nat" where
  "red_rounds b = length (halvings (red_size b div 2))"

text \<open>The number of partial sums after \<open>s\<close> rounds.\<close>

definition width :: "c_int \<Rightarrow> nat \<Rightarrow> nat" where
  "width b s = red_size b div 2 ^ s"

definition red_head :: "instruction list" where
  "red_head = [instr LOAD 10 0 (-1) 0, instr STORE (-1) 10 1 0, instr BARRIER 0 0 0 0, instr MOV 19 (-1) (-1) 0]"

definition red_round :: "nat \<Rightarrow> nat \<Rightarrow> instruction list" where
  "red_round s h = guarded (20 + of_nat s)
     [instr LOAD 10 1 (-1) 0, instr MOV 15 (-1) (-1) (of_nat (4 * h)), instr ADD 16 1 15 0, instr LOAD 11 16 (-1) 0,
      instr ADD 12 10 11 0, instr STORE (-1) 12 1 0] @ [instr BARRIER 0 0 0 0]"

definition red_tail :: "instruction list" where
  "red_tail = guarded 3 [instr LOAD 10 1 (-1) 0, instr STORE (-1) 10 2 0]"

definition red_program :: "c_int \<Rightarrow> instruction list" where
  "red_program b = red_head @ concat (map (\<lambda>s. red_round s (width b (Suc s))) [0..<red_rounds b]) @ red_tail"

lemma red_strides: "s < red_rounds b \<Longrightarrow> halvings (red_size b div 2) ! s = width b (Suc s)"
  by (simp add: red_rounds_def halvings_nth width_def div_mult2_eq)

lemma red_enumerate:
  "enumerate 0 (halvings (red_size b div 2)) = map (\<lambda>s. (s, width b (Suc s))) [0..<red_rounds b]"
  by (intro nth_equalityI) (simp_all add: red_rounds_def nth_enumerate_eq red_strides[unfolded red_rounds_def])

lemma reduction_kernel:
  assumes "generate_reduction_kernel b = Inr k"
  shows "k_instructions k = red_program b"
proof -
  obtain half rounds where h: "c_div b 2 = Inr half"
    and r: "mapE reduction_round (enumerate 0 (halvings (nat (sint half)))) = Inr rounds"
    and k: "k_instructions k = red_head @ concat rounds @ red_tail"
    using assms by (auto simp: generate_reduction_kernel_def make_kernel_def red_head_def red_tail_def)
  have "sint half = sint b sdiv 2" using h checked_int_sint by (auto simp: c_div_def)
  then have half: "nat (sint half) = red_size b div 2"
    by (cases "0 \<le> sint b") (simp_all add: red_size_def signed_divide_int_def nat_div_distrib sgn_if)
  have small: "width b (Suc s) < 2 ^ 31" for s
  proof -
    have "width b (Suc s) \<le> red_size b" by (simp add: width_def)
    then show ?thesis using sint_bounds32(2)[of b] by (simp add: red_size_def)
  qed
  have "y = red_round s h" if run: "reduction_round (s, h) = Inr y" and "h < 2 ^ 31" for s h y
  proof -
    obtain bytes where b: "c_mul (of_nat h) 4 = Inr bytes" and y: "y = guarded (20 + of_nat s)
        [instr LOAD 10 1 (-1) 0, instr MOV 15 (-1) (-1) bytes, instr ADD 16 1 15 0, instr LOAD 11 16 (-1) 0,
         instr ADD 12 10 11 0, instr STORE (-1) 12 1 0] @ [instr BARRIER 0 0 0 0]"
      using run by (auto simp: reduction_round_def)
    have "bytes = word_of_int (int h * 4)" using b sint_of_nat[OF that(2)] by (simp add: c_mul_def checked_int_Inr)
    then have "bytes = of_nat (4 * h)" by (simp add: mult.commute)
    then show ?thesis by (simp add: y red_round_def)
  qed
  then have "map id rounds = map (\<lambda>(s, h). red_round s h) (enumerate 0 (halvings (red_size b div 2)))"
    using small by (intro map_mapE[OF r[unfolded half]]) (auto simp: red_enumerate)
  then have "rounds = map (\<lambda>s. red_round s (width b (Suc s))) [0..<red_rounds b]" by (simp add: red_enumerate comp_def)
  then show ?thesis by (simp add: k red_program_def)
qed

text \<open>An instruction of the program by its place.\<close>

lemma red_round_length [simp]: "length (red_round s h) = 11"
  by (simp add: red_round_def guarded_def)

lemma red_length: "length red_head = 4" "length red_tail = 6" "length (red_program b) = 10 + 11 * red_rounds b"
  using concat_blocks(1)[where f = "\<lambda>s. red_round s (width b (Suc s))" and c = 11 and n = "red_rounds b"]
  by (simp_all add: red_head_def red_tail_def guarded_def red_program_def)

lemma red_nth:
  "q < 4 \<Longrightarrow> red_program b ! q = red_head ! q"
  "s < red_rounds b \<Longrightarrow> r < 11 \<Longrightarrow> red_program b ! (4 + 11 * s + r) = red_round s (width b (Suc s)) ! r"
  "r < 6 \<Longrightarrow> red_program b ! (4 + 11 * red_rounds b + r) = red_tail ! r"
proof -
  let ?f = "\<lambda>s. red_round s (width b (Suc s))"
  note cb = concat_blocks[where f = ?f and c = 11 and n = "red_rounds b", OF red_round_length]
  show "q < 4 \<Longrightarrow> red_program b ! q = red_head ! q" by (simp add: red_program_def nth_append red_length)
  show "red_program b ! (4 + 11 * s + r) = ?f s ! r" if "s < red_rounds b" "r < 11"
  proof -
    have "11 * s + r < 11 * Suc s" using that(2) by simp
    also have "\<dots> \<le> 11 * red_rounds b" using that(1) by (intro mult_le_mono2) simp
    finally have "11 * s + r < 11 * red_rounds b" .
    then show ?thesis using cb(2)[of "11 * s + r"] that by (simp add: red_program_def nth_append red_length(1) cb(1))
  qed
  show "red_program b ! (4 + 11 * red_rounds b + r) = red_tail ! r"
    using cb(1) by (simp add: red_program_def nth_append red_length(1))
qed

lemma red_place:
  assumes "q < length (red_program b)"
  obtains (head) "q < 4" | (round) s r where "s < red_rounds b" "r < 11" "q = 4 + 11 * s + r"
    | (tail) r where "r < 6" "q = 4 + 11 * red_rounds b + r"
proof -
  have "q < 4 \<or> (\<exists>s r. s < red_rounds b \<and> r < 11 \<and> q = 4 + 11 * s + r) \<or> (\<exists>r < 6. q = 4 + 11 * red_rounds b + r)"
  proof (cases "q < 4")
    case False
    let ?s = "(q - 4) div 11" and ?r = "(q - 4) mod 11"
    have q: "q = 4 + 11 * ?s + ?r" using False by simp
    show ?thesis
    proof (cases "?s < red_rounds b")
      case True
      moreover have "?r < 11" by simp
      ultimately show ?thesis using q by blast
    next
      case False
      then have "q = 4 + 11 * red_rounds b + (q - 4 - 11 * red_rounds b)" "q - 4 - 11 * red_rounds b < 6"
        using q assms red_length(3)[of b] by simp_all
      then show ?thesis by blast
    qed
  qed simp
  then show thesis using that by blast
qed

lemma red_shaped: "guarded_prog (red_program b)"
proof -
  have "guarded_prog (red_round s h)" for s h
    unfolding red_round_def by (intro guarded_prog.region guarded_prog.barrier guarded_prog.finish) (simp_all add: lanewise_opcode_def)
  then have "guarded_prog (concat (map (\<lambda>s. red_round s (width b (Suc s))) [0..<red_rounds b]))"
    by (intro guarded_concat) auto
  moreover have "guarded_prog (guarded 3 [instr LOAD 10 1 (-1) 0, instr STORE (-1) 10 2 0] @ [])"
    by (intro guarded_prog.region guarded_prog.finish) (simp_all add: lanewise_opcode_def)
  then have "guarded_prog red_tail" by (simp add: red_tail_def)
  moreover have "guarded_prog red_head" unfolding red_head_def
    by (intro guarded_prog.intros) (simp_all add: lanewise_opcode_def)
  ultimately show ?thesis unfolding red_program_def by (intro guarded_append)
qed

lemma red_bounded: "length (red_program b) < 2 ^ 63"
proof -
  have "red_size b div 2 < 2 ^ 31" using sint_bounds32(2)[of b] by (simp add: red_size_def)
  then have "red_rounds b \<le> 31" unfolding red_rounds_def by (rule halvings_length)
  then show ?thesis by (simp add: red_length(3))
qed

section \<open>Partial sums\<close>

text \<open>Element \<open>i\<close> of the input, and what block \<open>k\<close> has in cell \<open>j\<close> after \<open>s\<close> rounds.\<close>

definition red_elem :: "nat \<Rightarrow> global_memory \<Rightarrow> nat \<Rightarrow> int" where
  "red_elem n m i = (if i < n then sint (word_of m (4 * i)) else 0)"

definition partial_sum :: "nat \<Rightarrow> c_int \<Rightarrow> global_memory \<Rightarrow> nat \<Rightarrow> nat \<Rightarrow> nat \<Rightarrow> int" where
  "partial_sum n b m k s j = (\<Sum>i<2 ^ s. red_elem n m (k * red_size b + (j + i * width b s)))"

definition block_sum :: "nat \<Rightarrow> c_int \<Rightarrow> global_memory \<Rightarrow> nat \<Rightarrow> int" where
  "block_sum n b m k = (\<Sum>i<red_size b. red_elem n m (k * red_size b + i))"

definition block_weight :: "nat \<Rightarrow> c_int \<Rightarrow> global_memory \<Rightarrow> nat \<Rightarrow> int" where
  "block_weight n b m k = (\<Sum>i<red_size b. \<bar>red_elem n m (k * red_size b + i)\<bar>)"

definition red_value :: "nat \<Rightarrow> c_int \<Rightarrow> global_memory \<Rightarrow> nat \<Rightarrow> nat \<Rightarrow> nat \<Rightarrow> c_int" where
  "red_value n b m k s j = word_of_int (partial_sum n b m k s j)"

lemma width_power:
  assumes "red_size b = 2 ^ red_rounds b" and "s \<le> red_rounds b"
  shows "width b s = 2 ^ (red_rounds b - s)"
  unfolding width_def assms(1) using assms(2) by (simp add: power_diff)

lemma width_Suc: "red_size b = 2 ^ red_rounds b \<Longrightarrow> s < red_rounds b \<Longrightarrow> width b s = 2 * width b (Suc s)"
  using power_Suc[of "2 :: nat" "red_rounds b - Suc s"] by (simp add: width_power Suc_diff_Suc)

lemma partial_sum_0: "partial_sum n b m k 0 j = red_elem n m (k * red_size b + j)"
  by (simp add: partial_sum_def)

lemma sum_pairs:
  fixes N :: nat
  shows "(\<Sum>i<2 * N. f i) = (\<Sum>i<N. f (2 * i)) + (\<Sum>i<N. f (2 * i + 1) :: int)"
  by (induction N) simp_all

lemma partial_sum_Suc:
  assumes "red_size b = 2 ^ red_rounds b" and "s < red_rounds b"
  shows "partial_sum n b m k (Suc s) j = partial_sum n b m k s j + partial_sum n b m k s (j + width b (Suc s))"
proof -
  let ?w = "width b (Suc s)" and ?x = "\<lambda>i. red_elem n m (k * red_size b + i)"
  have "partial_sum n b m k (Suc s) j = (\<Sum>i<2 * 2 ^ s. ?x (j + i * ?w))" by (simp add: partial_sum_def)
  also have "\<dots> = (\<Sum>i<2 ^ s. ?x (j + 2 * i * ?w)) + (\<Sum>i<2 ^ s. ?x (j + (2 * i + 1) * ?w))" by (rule sum_pairs)
  also have "\<dots> = partial_sum n b m k s j + partial_sum n b m k s (j + ?w)"
    by (simp add: partial_sum_def width_Suc[OF assms] algebra_simps)
  finally show ?thesis .
qed

lemma partial_sum_last: "red_size b = 2 ^ red_rounds b \<Longrightarrow> partial_sum n b m k (red_rounds b) 0 = block_sum n b m k"
  by (simp add: partial_sum_def block_sum_def width_power)

lemma partial_sum_zero: "n \<le> k * red_size b + j \<Longrightarrow> partial_sum n b m k s j = 0"
  by (simp add: partial_sum_def red_elem_def)

lemma partial_sum_bound:
  assumes B: "red_size b = 2 ^ red_rounds b" and s: "s \<le> red_rounds b" and j: "j < width b s"
  shows "\<bar>partial_sum n b m k s j\<bar> \<le> block_weight n b m k"
proof -
  let ?w = "width b s" and ?f = "\<lambda>i. j + i * width b s" and ?x = "\<lambda>i. \<bar>red_elem n m (k * red_size b + i)\<bar>"
  have w: "0 < ?w" "2 ^ s * ?w = red_size b" using j B s by (simp_all add: width_power power_add[symmetric])
  have "?f i < red_size b" if "i < 2 ^ s" for i
  proof -
    have "?f i < Suc i * ?w" using j by simp
    also have "\<dots> \<le> 2 ^ s * ?w" using that by (intro mult_le_mono1) simp
    finally show ?thesis using w(2) by simp
  qed
  then have sub: "?f ` {..<2 ^ s} \<subseteq> {..<red_size b}" by auto
  have inj: "inj_on ?f {..<2 ^ s}" using w(1) by (auto simp: inj_on_def)
  have "\<bar>partial_sum n b m k s j\<bar> \<le> (\<Sum>i<2 ^ s. ?x (?f i))" unfolding partial_sum_def by (rule sum_abs)
  also have "\<dots> = sum ?x (?f ` {..<2 ^ s})" by (simp add: sum.reindex[OF inj])
  also have "\<dots> \<le> block_weight n b m k" unfolding block_weight_def by (rule sum_mono2[OF _ sub]) simp_all
  finally show ?thesis .
qed

lemma red_value_sint:
  assumes "red_size b = 2 ^ red_rounds b" and "s \<le> red_rounds b" and "j < width b s" and "block_weight n b m k < 2 ^ 31"
  shows "sint (red_value n b m k s j) = partial_sum n b m k s j"
  using partial_sum_bound[OF assms(1-3), of n m k] assms(4)
  by (simp add: red_value_def signed_of_int signed_take_bit_int_eq_self)

lemma red_value_add:
  assumes B: "red_size b = 2 ^ red_rounds b" and s: "s < red_rounds b" and j: "j < width b (Suc s)" and w: "block_weight n b m k < 2 ^ 31"
  shows "c_add (red_value n b m k s j) (red_value n b m k s (j + width b (Suc s))) = Inr (red_value n b m k (Suc s) j)"
proof -
  have "j < width b s" "j + width b (Suc s) < width b s" using j width_Suc[OF B s] by simp_all
  then show ?thesis
    using red_value_sint[OF B _ _ w] abs_le_D1[OF partial_sum_bound[OF B _ j, of n m k]]
      abs_le_D2[OF partial_sum_bound[OF B _ j, of n m k]] s w
    by (auto simp: c_add_def checked_int_Inr partial_sum_Suc[OF B s, symmetric] red_value_def[of n b m k "Suc s"])
qed

lemma red_value_0: "i = k * red_size b + j \<Longrightarrow> i < n \<Longrightarrow> red_value n b m k 0 j = word_of m (4 * i)"
  by (simp add: red_value_def partial_sum_0 red_elem_def)

end
