(* ===== verification/Reduction_Lanes.thy ===== *)
theory Reduction_Lanes
  imports Reduction
begin

text \<open>
  The reduction kernel lane by lane: what every lane of a block may assume and has established at
  every program counter, and the interpretation of \<open>block_kernel\<close> that makes the kernel total and
  correct with all the warps of all the blocks interleaved by the schedulers.
\<close>

section \<open>Where the kernel works\<close>

text \<open>Block \<open>k\<close> has a region of its own in the shared memory and one word of output.\<close>

definition cell :: "c_int \<Rightarrow> nat \<Rightarrow> nat \<Rightarrow> size_t" where
  "cell b k j = SHARED_MEM_BASE + 4 * (k * red_size b + j)"

definition red_region :: "c_int \<Rightarrow> nat \<Rightarrow> size_t set" where
  "red_region b k = cell b k ` {..<red_size b}"

definition red_out :: "nat \<Rightarrow> nat \<Rightarrow> size_t" where
  "red_out n k = 4 * n + 4 * k"

definition red_blocks :: "nat \<Rightarrow> c_int \<Rightarrow> nat" where
  "red_blocks n b = (n + red_size b - 1) div red_size b"

definition red_target :: "nat \<Rightarrow> c_int \<Rightarrow> global_memory \<Rightarrow> size_t \<Rightarrow> c_int option" where
  "red_target n b m a =
     (if 4 * n \<le> a \<and> (a - 4 * n) mod 4 = 0 \<and> (a - 4 * n) div 4 < red_blocks n b
      then Some (red_value n b m ((a - 4 * n) div 4) (red_rounds b) 0) else None)"

text \<open>
  The size of a block is a power of two that leaves registers for the rounds, the input and the
  output are mapped below the shared memory, and no partial sum overflows.
\<close>

definition red_input :: "nat \<Rightarrow> c_int \<Rightarrow> global_memory \<Rightarrow> bool" where
  "red_input n b m \<longleftrightarrow> red_size b = 2 ^ red_rounds b \<and> red_rounds b \<le> 12 \<and>
     red_out n (red_blocks n b) \<le> min SHARED_MEM_BASE (length (gm_data m)) \<and>
     (\<forall>k < red_blocks n b. block_weight n b m k < 2 ^ 31)"

section \<open>The assertions of a lane\<close>

text \<open>At every program counter.\<close>

definition red_common :: "nat \<Rightarrow> c_int \<Rightarrow> global_memory \<Rightarrow> thread \<Rightarrow> view \<Rightarrow> bool" where
  "red_common n b m t M \<longleftrightarrow>
     red_input n b m \<and> full_file t \<and> placed (red_size b) t \<and> t_global_id t < n \<and>
     (let k = t_block_id t; j = t_local_id t
      in read_reg t 0 = Inr (of_nat (4 * t_global_id t)) \<and> read_reg t 1 = Inr (of_nat (cell b k j)) \<and>
         read_reg t 2 = Inr (of_nat (red_out n k)) \<and> read_reg t 3 = Inr (if j = 0 then 1 else 0) \<and>
         (\<forall>s < red_rounds b. read_reg t (20 + of_nat s) = Inr (if j < width b (Suc s) then 1 else 0)) \<and>
         (\<forall>i < n. M (4 * i) = Inr (word_of m (4 * i))) \<and> (\<exists>v. M (red_out n k) = Inr v) \<and> (\<exists>v. M (cell b k j) = Inr v) \<and>
         (\<forall>i < red_size b. n \<le> k * red_size b + i \<longrightarrow> M (cell b k i) = Inr 0))"

text \<open>Before the first barrier, and at instruction \<open>r\<close> of round \<open>s\<close> or behind the last round.\<close>

definition red_first :: "nat \<Rightarrow> c_int \<Rightarrow> global_memory \<Rightarrow> nat \<Rightarrow> thread \<Rightarrow> view \<Rightarrow> bool" where
  "red_first n b m q t M \<longleftrightarrow>
     (let v = word_of m (4 * t_global_id t)
      in (q = 1 \<longrightarrow> read_reg t 10 = Inr v) \<and> (q = 2 \<longrightarrow> M (cell b (t_block_id t) (t_local_id t)) = Inr v))"

definition red_cells :: "nat \<Rightarrow> c_int \<Rightarrow> global_memory \<Rightarrow> nat \<Rightarrow> nat \<Rightarrow> thread \<Rightarrow> view \<Rightarrow> bool" where
  "red_cells n b m s r t M \<longleftrightarrow>
     (let k = t_block_id t; j = t_local_id t
      in (\<forall>i. width b (Suc s) \<le> i \<longrightarrow> i < width b s \<longrightarrow> M (cell b k i) = Inr (red_value n b m k s i)) \<and>
         (j < width b s \<longrightarrow>
            M (cell b k j) = Inr (red_value n b m k (if 9 \<le> r \<and> j < width b (Suc s) then Suc s else s) j)))"

definition red_local :: "nat \<Rightarrow> c_int \<Rightarrow> global_memory \<Rightarrow> nat \<Rightarrow> nat \<Rightarrow> thread \<Rightarrow> bool" where
  "red_local n b m s r t \<longleftrightarrow>
     (let k = t_block_id t; j = t_local_id t; h = width b (Suc s)
      in (r = 2 \<longrightarrow> (t_predicate t \<longleftrightarrow> \<not> j < h)) \<and>
         (3 \<le> r \<and> r \<le> 8 \<longrightarrow> j < h) \<and>
         (4 \<le> r \<and> r \<le> 8 \<longrightarrow> read_reg t 10 = Inr (red_value n b m k s j)) \<and>
         (5 \<le> r \<and> r \<le> 8 \<longrightarrow> read_reg t 15 = Inr (of_nat (4 * h))) \<and>
         (6 \<le> r \<and> r \<le> 8 \<longrightarrow> read_reg t 16 = Inr (of_nat (cell b k (j + h)))) \<and>
         (7 \<le> r \<and> r \<le> 8 \<longrightarrow> read_reg t 11 = Inr (red_value n b m k s (j + h))) \<and>
         (r = 8 \<longrightarrow> read_reg t 12 = Inr (red_value n b m k (Suc s) j)))"

definition red_last :: "nat \<Rightarrow> c_int \<Rightarrow> global_memory \<Rightarrow> nat \<Rightarrow> thread \<Rightarrow> view \<Rightarrow> bool" where
  "red_last n b m r t M \<longleftrightarrow>
     (let k = t_block_id t; j = t_local_id t; v = red_value n b m k (red_rounds b) 0
      in (r = 2 \<longrightarrow> (t_predicate t \<longleftrightarrow> j \<noteq> 0)) \<and> (3 \<le> r \<and> r \<le> 4 \<longrightarrow> j = 0) \<and>
         (r = 4 \<longrightarrow> read_reg t 10 = Inr v) \<and> (5 \<le> r \<and> j = 0 \<longrightarrow> M (red_out n k) = Inr v))"

definition red_state :: "nat \<Rightarrow> c_int \<Rightarrow> global_memory \<Rightarrow> nat \<Rightarrow> nat \<Rightarrow> thread \<Rightarrow> view \<Rightarrow> bool" where
  "red_state n b m s r t M \<longleftrightarrow> red_cells n b m s r t M \<and>
     (if s < red_rounds b then red_local n b m s r t else red_last n b m r t M)"

definition red_lane :: "nat \<Rightarrow> c_int \<Rightarrow> global_memory \<Rightarrow> nat \<Rightarrow> thread \<Rightarrow> view \<Rightarrow> bool" where
  "red_lane n b m q t M \<longleftrightarrow> red_common n b m t M \<and>
     (if q < 3 then red_first n b m q t M
      else (4 \<le> q \<longrightarrow> read_reg t 19 = Inr 0) \<and> red_state n b m ((q - 4) div 11) ((q - 4) mod 11) t M)"

lemmas red_defs = red_first_def red_cells_def red_local_def red_last_def red_state_def Let_def

section \<open>Addresses\<close>

lemma cell_eq [simp]: "cell b k i = cell b k j \<longleftrightarrow> i = j"
  by (simp add: cell_def)

lemma cell_shared: "SHARED_MEM_BASE \<le> cell b k j"
  by (simp add: cell_def)

lemma red_common_bounds:
  assumes "red_common n b m t M"
  shows "t_block_id t < red_blocks n b" and "4 * t_global_id t < SHARED_MEM_BASE" and "red_out n (t_block_id t) < SHARED_MEM_BASE"
    and "\<And>j. j < red_size b \<Longrightarrow> cell b (t_block_id t) j < 2 ^ 30" and "0 < red_size b" and "t_local_id t < red_size b"
    and "4 * n \<le> SHARED_MEM_BASE" and "red_size b = 2 ^ red_rounds b" and "red_rounds b \<le> 12"
    and "block_weight n b m (t_block_id t) < 2 ^ 31" and "t_global_id t = t_block_id t * red_size b + t_local_id t"
proof -
  let ?B = "red_size b" and ?k = "t_block_id t" and ?g = "t_global_id t"
  have c: "red_input n b m" "?g = ?k * ?B + t_local_id t" "t_local_id t < ?B" "?g < n"
    using assms by (simp_all add: red_common_def placed_def)
  then show B: "0 < ?B" "t_local_id t < ?B" "red_size b = 2 ^ red_rounds b" "red_rounds b \<le> 12" "?g = ?k * ?B + t_local_id t"
    by (simp_all add: red_input_def)
  have "(?k + 1) * ?B \<le> n + ?B - 1" using c by simp
  then show k: "?k < red_blocks n b" unfolding red_blocks_def using B(1) by (simp add: Suc_le_eq[symmetric] less_eq_div_iff_mult_less_eq)
  have out: "red_out n (red_blocks n b) \<le> SHARED_MEM_BASE" using c(1) by (simp add: red_input_def)
  then show "red_out n ?k < SHARED_MEM_BASE" "4 * n \<le> SHARED_MEM_BASE" using k by (simp_all add: red_out_def)
  then show "4 * ?g < SHARED_MEM_BASE" using c(4) by simp
  show "block_weight n b m ?k < 2 ^ 31" using c(1) k by (simp add: red_input_def)
  have "?B \<le> 2 ^ 12" unfolding B(3) using B(4) by (intro power_increasing) simp_all
  then show "cell b ?k j < 2 ^ 30" if "j < ?B" for j
    using that c(2,4) out by (simp add: cell_def red_out_def SHARED_MEM_BASE_def)
qed

lemma width_le: "width b s \<le> red_size b" "width b (Suc s) \<le> width b s"
  by (simp_all add: width_def div_le_mono2)

lemma red_lane_pc: "red_lane n b m q t M \<Longrightarrow> red_lane n b m q (set_pc t x) M"
proof -
  have e: "t_registers (set_pc t x) = t_registers t" "t_block_id (set_pc t x) = t_block_id t" "t_local_id (set_pc t x) = t_local_id t"
    "t_global_id (set_pc t x) = t_global_id t" "t_predicate (set_pc t x) = t_predicate t"
    by (simp_all add: set_pc_def)
  show "red_lane n b m q t M \<Longrightarrow> red_lane n b m q (set_pc t x) M"
    unfolding red_lane_def red_common_def red_defs full_file_def placed_def read_reg_def e .
qed

section \<open>Changes of the address space\<close>

lemma red_lane_frame:
  assumes l: "red_lane n b m q t M" and inputs: "\<forall>i < n. M' (4 * i) = M (4 * i)"
    and cells: "\<forall>i < red_size b. M' (cell b (t_block_id t) i) = M (cell b (t_block_id t) i)"
    and out: "M' (red_out n (t_block_id t)) = M (red_out n (t_block_id t)) \<or>
      M' (red_out n (t_block_id t)) = Inr (red_value n b m (t_block_id t) (red_rounds b) 0)"
  shows "red_lane n b m q t M'"
proof -
  have c: "red_common n b m t M" using l by (simp add: red_lane_def)
  have j: "t_local_id t < red_size b" by (rule red_common_bounds[OF c])
  have c': "red_common n b m t M'" using c inputs cells out j unfolding red_common_def Let_def by (metis)
  have "red_first n b m q t M \<Longrightarrow> red_first n b m q t M'" using cells j by (simp add: red_first_def Let_def)
  moreover have "red_state n b m s r t M \<Longrightarrow> red_state n b m s r t M'" for s r
  proof -
    assume s: "red_state n b m s r t M"
    have "i < width b s \<Longrightarrow> M' (cell b (t_block_id t) i) = M (cell b (t_block_id t) i)" for i
      using cells width_le(1)[of b s] by simp
    then have "red_cells n b m s r t M'" using s by (simp add: red_state_def red_cells_def Let_def)
    moreover have "red_last n b m r t M \<Longrightarrow> red_last n b m r t M'" using out by (auto simp: red_last_def Let_def)
    ultimately show ?thesis using s by (simp add: red_state_def split: if_splits)
  qed
  ultimately show ?thesis using l c' by (simp add: red_lane_def)
qed

lemma red_lane_apart:
  assumes l: "red_lane n b m q t M" and ch: "change (red_target n b m) (\<lambda>a. a \<notin> red_region b (t_block_id t)) M M'"
  shows "red_lane n b m q t M'"
proof (rule red_lane_frame[OF l])
  have c: "red_common n b m t M" using l by (simp add: red_lane_def)
  note bd = red_common_bounds[OF c]
  show "\<forall>i < n. M' (4 * i) = M (4 * i)"
  proof (intro allI impI)
    fix i assume "i < n"
    then have "red_target n b m (4 * i) = None" "4 * i < SHARED_MEM_BASE" using bd(7) by (simp_all add: red_target_def)
    then show "M' (4 * i) = M (4 * i)" using ch unfolding change_def by (metis option.distinct(1))
  qed
  show "\<forall>i < red_size b. M' (cell b (t_block_id t) i) = M (cell b (t_block_id t) i)"
  proof (intro allI impI)
    fix i assume "i < red_size b"
    then have "cell b (t_block_id t) i \<in> red_region b (t_block_id t)" by (simp add: red_region_def)
    then show "M' (cell b (t_block_id t) i) = M (cell b (t_block_id t) i)"
      using ch cell_shared unfolding change_def by (metis not_less)
  qed
  have "red_target n b m (red_out n (t_block_id t)) = Some (red_value n b m (t_block_id t) (red_rounds b) 0)"
    using bd(1) by (simp add: red_target_def red_out_def)
  then show "M' (red_out n (t_block_id t)) = M (red_out n (t_block_id t)) \<or>
      M' (red_out n (t_block_id t)) = Inr (red_value n b m (t_block_id t) (red_rounds b) 0)"
    using ch bd(3) unfolding change_def by (metis option.inject)
qed

text \<open>A peer writes its own cell.\<close>

lemma red_lane_cell:
  assumes l: "red_lane n b m q t M" and j: "j' \<noteq> t_local_id t" and n: "t_block_id t * red_size b + j' < n"
    and w: "3 \<le> q \<Longrightarrow> j' < width b (Suc ((q - 4) div 11))"
  shows "red_lane n b m q t (M(cell b (t_block_id t) j' := x))"
proof -
  let ?k = "t_block_id t" and ?M = "M(cell b (t_block_id t) j' := x)"
  have c: "red_common n b m t M" using l by (simp add: red_lane_def)
  note bd = red_common_bounds[OF c]
  have low: "?M a = M a" if "a < SHARED_MEM_BASE" for a using that cell_shared[of b ?k j'] by auto
  have "red_common n b m t ?M" using c low bd(3,7) j n by (auto simp: red_common_def Let_def)
  moreover have "red_first n b m q t M \<Longrightarrow> red_first n b m q t ?M" using j by (simp add: red_first_def Let_def)
  moreover have "red_state n b m s r t M \<Longrightarrow> red_state n b m s r t ?M" if "j' < width b (Suc s)" for s r
    using that j low[OF bd(3)] by (auto simp: red_state_def red_cells_def red_last_def Let_def)
  ultimately show ?thesis using l w by (simp add: red_lane_def)
qed

section \<open>Places of the program\<close>

lemma red_lane_round:
  "r < 11 \<Longrightarrow> red_lane n b m (4 + 11 * s + r) t M \<longleftrightarrow> red_common n b m t M \<and> read_reg t 19 = Inr 0 \<and> red_state n b m s r t M"
  "red_lane n b m (4 + 11 * s + 11) t M \<longleftrightarrow> red_common n b m t M \<and> read_reg t 19 = Inr 0 \<and> red_state n b m (Suc s) 0 t M"
  "red_lane n b m 3 t M \<longleftrightarrow> red_common n b m t M \<and> red_state n b m 0 0 t M"
  "q < 3 \<Longrightarrow> red_lane n b m q t M \<longleftrightarrow> red_common n b m t M \<and> red_first n b m q t M"
proof -
  have "(11 * s + r) div 11 = s" "(11 * s + r) mod 11 = r" if "r < 11" using that by (simp_all add: div_mult_self4[of 11 s r, simplified add.commute])
  then show "r < 11 \<Longrightarrow> red_lane n b m (4 + 11 * s + r) t M \<longleftrightarrow> red_common n b m t M \<and> read_reg t 19 = Inr 0 \<and> red_state n b m s r t M"
    by (simp add: red_lane_def)
  have "4 + 11 * s + 11 - 4 = 11 * Suc s" by simp
  then show "red_lane n b m (4 + 11 * s + 11) t M \<longleftrightarrow> red_common n b m t M \<and> read_reg t 19 = Inr 0 \<and> red_state n b m (Suc s) 0 t M"
    unfolding red_lane_def by (simp only: nonzero_mult_div_cancel_left mod_mult_self1_is_0) simp
qed (simp_all add: red_lane_def)

lemma red_round_nth:
  "red_round s h ! 0 = instr SSY (-1) (-1) (-1) 9" "red_round s h ! 1 = instr CMP (-1) (20 + of_nat s) 19 0"
  "red_round s h ! 2 = instr BRANCH (-1) (-1) (-1) 7" "red_round s h ! 3 = instr LOAD 10 1 (-1) 0"
  "red_round s h ! 4 = instr MOV 15 (-1) (-1) (of_nat (4 * h))" "red_round s h ! 5 = instr ADD 16 1 15 0"
  "red_round s h ! 6 = instr LOAD 11 16 (-1) 0" "red_round s h ! 7 = instr ADD 12 10 11 0"
  "red_round s h ! 8 = instr STORE (-1) 12 1 0" "red_round s h ! 9 = instr SYNC 0 0 0 0" "red_round s h ! 10 = instr BARRIER 0 0 0 0"
  by (simp_all add: red_round_def guarded_def)

lemma red_tail_nth:
  "red_tail ! 0 = instr SSY (-1) (-1) (-1) 5" "red_tail ! 1 = instr CMP (-1) 3 19 0" "red_tail ! 2 = instr BRANCH (-1) (-1) (-1) 3"
  "red_tail ! 3 = instr LOAD 10 1 (-1) 0" "red_tail ! 4 = instr STORE (-1) 10 2 0" "red_tail ! 5 = instr SYNC 0 0 0 0"
  by (simp_all add: red_tail_def guarded_def)

lemma red_head_nth:
  "red_head ! 0 = instr LOAD 10 0 (-1) 0" "red_head ! 1 = instr STORE (-1) 10 1 0" "red_head ! 2 = instr BARRIER 0 0 0 0"
  "red_head ! 3 = instr MOV 19 (-1) (-1) 0"
  by (simp_all add: red_head_def)

text \<open>The opcodes at the places, and with them the barriers and the phases.\<close>

lemma red_opcode_round:
  assumes "s < red_rounds b" and "r < 11"
  shows "inst_opcode (red_program b ! (4 + 11 * s + r)) = [SSY, CMP, BRANCH, LOAD, MOV, ADD, LOAD, ADD, STORE, SYNC, BARRIER] ! r"
  unfolding red_nth(2)[OF assms] using assms(2)[unfolded less_11] by (elim disjE) (simp_all add: red_round_nth red_round_nth(2)[unfolded One_nat_def])

lemma red_opcode_tail:
  assumes "r < 6"
  shows "inst_opcode (red_program b ! (4 + 11 * red_rounds b + r)) = [SSY, CMP, BRANCH, LOAD, STORE, SYNC] ! r"
  unfolding red_nth(3)[OF assms] using assms[unfolded less_6] by (elim disjE) (simp_all add: red_tail_nth red_tail_nth(2)[unfolded One_nat_def])

lemma red_opcode_head:
  assumes "q < 4"
  shows "inst_opcode (red_program b ! q) = [LOAD, STORE, BARRIER, MOV] ! q"
  unfolding red_nth(1)[OF assms] using assms[unfolded less_4] by (elim disjE) (simp_all add: red_head_nth red_head_nth(2)[unfolded One_nat_def])

lemma red_phase:
  "q \<le> length (red_program b) \<Longrightarrow> phase (red_program b) q = (if q < 3 then 0 else (q - 4) div 11 + 1)"
proof (induction q)
  case (Suc q)
  then have q: "q < length (red_program b)" by simp
  note ih = Suc.IH[OF less_imp_le[OF q]] and ps = phase_Suc[OF q]
  from q show ?case
  proof (cases rule: red_place)
    case head
    then show ?thesis using ih ps red_opcode_head[OF head, of b] unfolding less_4 by (elim disjE) simp_all
  next
    case (round s r)
    have "(11 * s + r) div 11 = s" using round(2) by simp
    moreover have "Suc (11 * s + r) div 11 = (if r = 10 then Suc s else s)"
    proof (cases "r = 10")
      case True
      have "Suc (11 * s + 10) = 11 * Suc s" by simp
      then show ?thesis using True by (simp only: nonzero_mult_div_cancel_left) simp
    next
      case False
      then have "Suc (11 * s + r) = 11 * s + (r + 1)" "r + 1 < 11" using round(2) by simp_all
      then show ?thesis using False by (simp del: add_Suc_right)
    qed
    ultimately have e: "(q - 4) div 11 = s" "(Suc q - 4) div 11 = (if r = 10 then Suc s else s)" "\<not> q < 3" "\<not> Suc q < 3"
      using round(3) by simp_all
    have "inst_opcode (red_program b ! q) = BARRIER \<longleftrightarrow> r = 10"
      unfolding round(3) red_opcode_round[OF round(1,2)] using round(2)[unfolded less_11] by (elim disjE) simp_all
    then show ?thesis using ih ps e by (simp split: if_splits)
  next
    case (tail r)
    have "inst_opcode (red_program b ! q) \<noteq> BARRIER"
      unfolding tail(2) red_opcode_tail[OF tail(1)] using tail(1)[unfolded less_6] by (elim disjE) simp_all
    moreover have "(11 * red_rounds b + r) div 11 = red_rounds b" "(11 * red_rounds b + (r + 1)) div 11 = red_rounds b"
      using tail(1) by simp_all
    ultimately show ?thesis using ih ps tail(2) by simp
  qed
qed (simp add: phase_def)

end
