(* ===== verification/Reduction_Steps.thy ===== *)
theory Reduction_Steps
  imports Reduction_Lanes
begin

text \<open>
  Every instruction of the reduction takes a lane from one assertion to the next, the lanes of a
  block do not disturb each other between two barriers, and at a barrier the cells of all lanes
  make up the partial sums of the round.
\<close>

section \<open>Registers and cells\<close>

lemma red_common_wrote:
  assumes c: "red_common n b m t M" and w: "wrote r v t t'" and r: "int_to_size r \<in> {10, 11, 12, 15, 16, 19}"
  shows "red_common n b m t' M" and "t_block_id t' = t_block_id t" and "t_local_id t' = t_local_id t" and "t_global_id t' = t_global_id t"
    and "read_reg t' r' = (if int_to_size r' = int_to_size r then Inr v else read_reg t r')"
proof -
  show e: "t_block_id t' = t_block_id t" "t_local_id t' = t_local_id t" "t_global_id t' = t_global_id t"
    using w by (simp_all add: wrote_def same_identity_def)
  show rd: "read_reg t' r' = (if int_to_size r' = int_to_size r then Inr v else read_reg t r')" for r'
    using w by (simp add: wrote_def)
  have keep: "read_reg t' r' = read_reg t r'" if "int_to_size r' \<in> {0, 1, 2, 3} \<union> {20..<32}" for r'
    using rd r that by auto
  have "read_reg t' 0 = read_reg t 0" "read_reg t' 1 = read_reg t 1" "read_reg t' 2 = read_reg t 2" "read_reg t' 3 = read_reg t 3"
    by (rule keep, simp)+
  moreover have "read_reg t' (20 + of_nat s) = read_reg t (20 + of_nat s)" if "s < red_rounds b" for s
  proof (rule keep)
    have "s < 12" using that red_common_bounds(9)[OF c] by simp
    then show "int_to_size (20 + of_nat s) \<in> {0, 1, 2, 3} \<union> {20..<32}" by (simp add: round_register)
  qed
  moreover have "full_file t'" "placed (red_size b) t'" using w c by (simp_all add: wrote_def placed_def red_common_def e)
  ultimately show "red_common n b m t' M" using c unfolding red_common_def Let_def e by metis
qed

lemma red_common_cell:
  assumes c: "red_common n b m t M" and j: "j < red_size b" "t_block_id t * red_size b + j < n"
  shows "red_common n b m t (M(cell b (t_block_id t) j := Inr x))"
    and "change (red_target n b m) (\<lambda>a. a \<in> red_region b (t_block_id t)) M (M(cell b (t_block_id t) j := Inr x))"
proof -
  let ?k = "t_block_id t" and ?M = "M(cell b (t_block_id t) j := Inr x)"
  note bd = red_common_bounds[OF c]
  have low: "?M a = M a" if "a < SHARED_MEM_BASE" for a using that cell_shared[of b ?k j] by auto
  show "red_common n b m t ?M" using c low bd(3,7) j by (auto simp: red_common_def Let_def)
  show "change (red_target n b m) (\<lambda>a. a \<in> red_region b ?k) M ?M"
    using j(1) cell_shared[of b ?k j] by (auto simp: change_def red_region_def)
qed

lemma red_addresses:
  assumes c: "red_common n b m t M"
  shows "read_reg t 0 = Inr (of_nat (4 * t_global_id t))" and "4 * t_global_id t < 2 ^ 31"
    and "read_reg t 1 = Inr (of_nat (cell b (t_block_id t) (t_local_id t)))" and "cell b (t_block_id t) (t_local_id t) < 2 ^ 31"
    and "read_reg t 2 = Inr (of_nat (red_out n (t_block_id t)))" and "red_out n (t_block_id t) < 2 ^ 31"
    and "M (4 * t_global_id t) = Inr (word_of m (4 * t_global_id t))" and "full_file t"
    and "\<exists>v. M (cell b (t_block_id t) (t_local_id t)) = Inr v" and "\<exists>v. M (red_out n (t_block_id t)) = Inr v"
  using red_common_bounds(2,3,6)[OF c] red_common_bounds(4)[OF c, of "t_local_id t"] c
  by (simp_all add: red_common_def Let_def SHARED_MEM_BASE_def)

text \<open>What a lane at a data instruction has to show.\<close>

definition red_step :: "nat \<Rightarrow> c_int \<Rightarrow> global_memory \<Rightarrow> nat \<Rightarrow> thread \<Rightarrow> view \<Rightarrow> bool" where
  "red_step n b m q t M \<longleftrightarrow> (\<exists>t' M'. lane_step (red_program b ! q) M t = Inr (t', M') \<and> red_lane n b m (q + 1) t' M' \<and>
     change (red_target n b m) (\<lambda>a. a \<in> red_region b (t_block_id t)) M M')"

lemma red_stepI:
  "lane_step (red_program b ! q) M t = Inr (t', M) \<Longrightarrow> red_lane n b m (q + 1) t' M \<Longrightarrow> red_step n b m q t M"
  unfolding red_step_def using change_refl by blast

section \<open>Before the rounds\<close>

lemma red_head_step:
  assumes l: "red_lane n b m q t M" and q: "q < 4" "q \<noteq> 2"
  shows "red_step n b m q t M"
proof -
  have c: "red_common n b m t M" using l by (simp add: red_lane_def)
  note ad = red_addresses[OF c] and bd = red_common_bounds[OF c]
  consider (load) "q = 0" | (store) "q = 1" | (mov) "q = 3" using q by linarith
  then show ?thesis
  proof cases
    case load
    obtain t' where t': "lane_step (instr LOAD 10 0 (-1) 0) M t = Inr (t', M)" "wrote 10 (word_of m (4 * t_global_id t)) t t'"
      using step_load[where M = M, OF ad(8) _ ad(1) _ ad(2) ad(7), of 10] by auto
    note w = red_common_wrote[OF c t'(2)]
    have "red_lane n b m (0 + 1) t' M" using w by (simp add: red_lane_round red_first_def)
    then show ?thesis unfolding load by (intro red_stepI[of _ _ _ _ t']) (simp_all add: red_nth red_head_nth t'(1))
  next
    case store
    let ?x = "word_of m (4 * t_global_id t)" and ?c = "cell b (t_block_id t) (t_local_id t)"
    have "read_reg t 10 = Inr ?x" using l store by (simp add: red_lane_round red_first_def Let_def)
    from step_store[where M = M, OF ad(3) _ ad(4) this ad(9), of "-1"]
    have st: "lane_step (instr STORE (-1) 10 1 0) M t = Inr (t, M(?c := Inr ?x))" by simp
    have "t_block_id t * red_size b + t_local_id t < n" using c bd(11) by (simp add: red_common_def)
    note cc = red_common_cell[OF c bd(6) this, of ?x]
    then have "red_lane n b m (1 + 1) t (M(?c := Inr ?x))" by (simp add: red_lane_round red_first_def)
    then show ?thesis unfolding store red_step_def using st cc(2) by (simp add: red_nth red_head_nth(2)[unfolded One_nat_def])
  next
    case mov
    obtain t' where t': "lane_step (instr MOV 19 (-1) (-1) 0) M t = Inr (t', M)" "wrote 19 0 t t'"
      using step_mov[OF ad(8), of 19 "-1" 0 M] by auto
    note w = red_common_wrote[OF c t'(2)]
    have "red_state n b m 0 0 t M" using l mov by (simp add: red_lane_round)
    then have "red_state n b m 0 0 t' M" using w(2,3) by (simp add: red_defs)
    then have "red_lane n b m (4 + 11 * 0 + 0) t' M" using w(1,5) by (simp only: red_lane_round) simp
    then show ?thesis unfolding mov by (intro red_stepI[of _ _ _ _ t']) (simp_all add: red_nth red_head_nth t'(1))
  qed
qed

section \<open>A round\<close>

lemma red_round_step:
  assumes l: "red_lane n b m (4 + 11 * s + r) t M" and s: "s < red_rounds b" and r: "r \<in> {1, 3, 4, 5, 6, 7, 8}"
  shows "red_step n b m (4 + 11 * s + r) t M"
proof -
  let ?k = "t_block_id t" and ?j = "t_local_id t" and ?h = "width b (Suc s)"
  have r11: "r < 11" "Suc r < 11" using r by auto
  have l': "red_common n b m t M" "read_reg t 19 = Inr 0" "red_state n b m s r t M" using l r11 by (simp_all add: red_lane_round)
  note c = l'(1)
  note ad = red_addresses[OF c] and bd = red_common_bounds[OF c]
  have cells: "red_cells n b m s r t M" and loc: "red_local n b m s r t" using l'(3) s by (simp_all add: red_state_def)
  have onward: "red_lane n b m (4 + 11 * s + r + 1) t' M' \<longleftrightarrow> red_common n b m t' M' \<and> read_reg t' 19 = Inr 0 \<and>
      red_cells n b m s (Suc r) t' M' \<and> red_local n b m s (Suc r) t'" for t' M'
    using red_lane_round(1)[OF r11(2)] s by (simp add: red_state_def)
  note ins = red_nth(2)[OF s r11(1)]
  have wide: "?j < ?h \<Longrightarrow> ?j + ?h < width b s" "width b s \<le> red_size b" using width_Suc[OF bd(8) s] width_le(1)[of b s] by simp_all
  have w_cells: "red_cells n b m s (Suc r) t' M" if "wrote d v t t'" "r < 8" for d v t'
    using cells that by (simp add: red_cells_def wrote_def same_identity_def Let_def)
  consider "r = 1" | "r = 3" | "r = 4" | "r = 5" | "r = 6" | "r = 7" | "r = 8" using r by blast
  then show ?thesis
  proof cases
    case 1
    let ?t = "set_predicate t ((if ?j < ?h then 1 else 0) = (0 :: c_int))"
    have "read_reg t (20 + of_nat s) = Inr (if ?j < ?h then 1 else 0)" using c s by (simp add: red_common_def Let_def)
    from step_cmp[OF this l'(2)] have st: "lane_step (red_program b ! (4 + 11 * s + r)) M t = Inr (?t, M)"
      unfolding ins unfolding 1 red_round_nth by simp
    have "red_common n b m ?t M" "read_reg ?t 19 = Inr 0" "red_cells n b m s (Suc r) ?t M" "red_local n b m s (Suc r) ?t"
      using c l'(2) cells 1 by (simp_all add: red_common_def red_cells_def red_local_def set_predicate_def full_file_def placed_def read_reg_def Let_def)
    then show ?thesis using st onward by (intro red_stepI) simp_all
  next
    case 2
    have j: "?j < ?h" using loc 2 by (simp add: red_local_def Let_def)
    then have "M (cell b ?k ?j) = Inr (red_value n b m ?k s ?j)" using cells 2 wide(1) by (simp add: red_cells_def Let_def)
    from step_load[where M = M, OF ad(8) _ ad(3) _ ad(4) this, of 10] obtain t' where
      t': "lane_step (instr LOAD 10 1 (-1) 0) M t = Inr (t', M)" "wrote 10 (red_value n b m ?k s ?j) t t'" by auto
    note w = red_common_wrote[OF c t'(2)]
    have "red_local n b m s (Suc r) t'" using w(2-5) j 2 by (simp add: red_local_def Let_def)
    then have "red_lane n b m (4 + 11 * s + r + 1) t' M" unfolding onward using w(1,5) l'(2) w_cells[OF t'(2)] 2 by simp
    then show ?thesis by (rule red_stepI[rotated]) (unfold ins, use t'(1) in \<open>simp add: 2 red_round_nth\<close>)
  next
    case 3
    from step_mov[OF ad(8), of 15] obtain t' where
      t': "lane_step (instr MOV 15 (-1) (-1) (of_nat (4 * ?h))) M t = Inr (t', M)" "wrote 15 (of_nat (4 * ?h)) t t'" by fastforce
    note w = red_common_wrote[OF c t'(2)]
    have "red_local n b m s (Suc r) t'" using w(2-5) loc 3 by (simp add: red_local_def Let_def)
    then have "red_lane n b m (4 + 11 * s + r + 1) t' M" unfolding onward using w(1,5) l'(2) w_cells[OF t'(2)] 3 by simp
    then show ?thesis by (rule red_stepI[rotated]) (unfold ins, use t'(1) in \<open>simp add: 3 red_round_nth\<close>)
  next
    case 4
    have j: "?j < ?h" and r15: "read_reg t 15 = Inr (of_nat (4 * ?h))" using loc 4 by (simp_all add: red_local_def Let_def)
    have e: "cell b ?k ?j + 4 * ?h = cell b ?k (?j + ?h)" by (simp add: cell_def)
    have "cell b ?k (?j + ?h) < 2 ^ 30" using bd(4) wide(1)[OF j] wide(2) by simp
    then have "c_add (of_nat (cell b ?k ?j)) (of_nat (4 * ?h)) = Inr (of_nat (cell b ?k (?j + ?h)))"
      using add_nat[of "cell b ?k ?j" "4 * ?h"] e by simp
    from step_add[OF ad(8) _ ad(3) r15 this, of 16] obtain t' where
      t': "lane_step (instr ADD 16 1 15 0) M t = Inr (t', M)" "wrote 16 (of_nat (cell b ?k (?j + ?h))) t t'" by auto
    note w = red_common_wrote[OF c t'(2)]
    have "red_local n b m s (Suc r) t'" using w(2-5) loc 4 by (simp add: red_local_def Let_def)
    then have "red_lane n b m (4 + 11 * s + r + 1) t' M" unfolding onward using w(1,5) l'(2) w_cells[OF t'(2)] 4 by simp
    then show ?thesis by (rule red_stepI[rotated]) (unfold ins, use t'(1) in \<open>simp add: 4 red_round_nth\<close>)
  next
    case 5
    have j: "?j < ?h" and r16: "read_reg t 16 = Inr (of_nat (cell b ?k (?j + ?h)))" using loc 5 by (simp_all add: red_local_def Let_def)
    have a: "cell b ?k (?j + ?h) < 2 ^ 31" using bd(4)[of "?j + ?h"] wide(1)[OF j] wide(2) by simp
    have "M (cell b ?k (?j + ?h)) = Inr (red_value n b m ?k s (?j + ?h))" using cells wide(1)[OF j] by (simp add: red_cells_def Let_def)
    from step_load[where M = M, OF ad(8) _ r16 _ a this, of 11] obtain t' where
      t': "lane_step (instr LOAD 11 16 (-1) 0) M t = Inr (t', M)" "wrote 11 (red_value n b m ?k s (?j + ?h)) t t'" by auto
    note w = red_common_wrote[OF c t'(2)]
    have "red_local n b m s (Suc r) t'" using w(2-5) loc 5 by (simp add: red_local_def Let_def)
    then have "red_lane n b m (4 + 11 * s + r + 1) t' M" unfolding onward using w(1,5) l'(2) w_cells[OF t'(2)] 5 by simp
    then show ?thesis by (rule red_stepI[rotated]) (unfold ins, use t'(1) in \<open>simp add: 5 red_round_nth\<close>)
  next
    case 6
    have j: "?j < ?h" and rd: "read_reg t 10 = Inr (red_value n b m ?k s ?j)" "read_reg t 11 = Inr (red_value n b m ?k s (?j + ?h))"
      using loc 6 by (simp_all add: red_local_def Let_def)
    from step_add[OF ad(8) _ rd red_value_add[OF bd(8) s j bd(10)], of 12] obtain t' where
      t': "lane_step (instr ADD 12 10 11 0) M t = Inr (t', M)" "wrote 12 (red_value n b m ?k (Suc s) ?j) t t'" by auto
    note w = red_common_wrote[OF c t'(2)]
    have "red_local n b m s (Suc r) t'" using w(2-5) loc 6 by (simp add: red_local_def Let_def)
    then have "red_lane n b m (4 + 11 * s + r + 1) t' M" unfolding onward using w(1,5) l'(2) w_cells[OF t'(2)] 6 by simp
    then show ?thesis by (rule red_stepI[rotated]) (unfold ins, use t'(1) in \<open>simp add: 6 red_round_nth\<close>)
  next
    case 7
    let ?x = "red_value n b m ?k (Suc s) ?j" and ?c = "cell b ?k ?j"
    have j: "?j < ?h" and rd: "read_reg t 12 = Inr ?x" using loc 7 by (simp_all add: red_local_def Let_def)
    from step_store[where M = M, OF ad(3) _ ad(4) rd ad(9), of "-1"]
    have st: "lane_step (instr STORE (-1) 12 1 0) M t = Inr (t, M(?c := Inr ?x))" by simp
    have "?k * red_size b + ?j < n" using c bd(11) by (simp add: red_common_def)
    note cc = red_common_cell[OF c bd(6) this, of ?x]
    have "red_cells n b m s (Suc r) t (M(?c := Inr ?x))" using cells j 7 by (auto simp: red_cells_def Let_def)
    moreover have "red_local n b m s (Suc r) t" using 7 by (simp add: red_local_def Let_def)
    ultimately have "red_lane n b m (4 + 11 * s + r + 1) t (M(?c := Inr ?x))" unfolding onward using cc(1) l'(2) by simp
    moreover have "lane_step (red_program b ! (4 + 11 * s + r)) M t = Inr (t, M(?c := Inr ?x))"
      unfolding ins using st by (simp add: 7 red_round_nth)
    ultimately show ?thesis unfolding red_step_def using cc(2) by blast
  qed
qed

section \<open>The last region\<close>

lemma red_tail_step:
  assumes l: "red_lane n b m (4 + 11 * red_rounds b + r) t M" and r: "r \<in> {1, 3, 4}"
  shows "red_step n b m (4 + 11 * red_rounds b + r) t M"
proof -
  let ?S = "red_rounds b" and ?k = "t_block_id t" and ?j = "t_local_id t"
  let ?x = "red_value n b m ?k ?S 0"
  have r6: "r < 6" "r < 11" "Suc r < 11" using r by auto
  have l': "red_common n b m t M" "read_reg t 19 = Inr 0" "red_state n b m ?S r t M" using l r6 by (simp_all add: red_lane_round)
  note c = l'(1)
  note ad = red_addresses[OF c] and bd = red_common_bounds[OF c]
  have cells: "red_cells n b m ?S r t M" and loc: "red_last n b m r t M" using l'(3) by (simp_all add: red_state_def)
  have onward: "red_lane n b m (4 + 11 * ?S + r + 1) t' M' \<longleftrightarrow> red_common n b m t' M' \<and> read_reg t' 19 = Inr 0 \<and>
      red_cells n b m ?S (Suc r) t' M' \<and> red_last n b m (Suc r) t' M'" for t' M'
    using red_lane_round(1)[OF r6(3)] by (simp add: red_state_def)
  note ins = red_nth(3)[OF r6(1)]
  consider "r = 1" | "r = 3" | "r = 4" using r by blast
  then show ?thesis
  proof cases
    case 1
    let ?t = "set_predicate t ((if ?j = 0 then 1 else 0) = (0 :: c_int))"
    have "read_reg t 3 = Inr (if ?j = 0 then 1 else 0)" using c by (simp add: red_common_def Let_def)
    from step_cmp[OF this l'(2)] have st: "lane_step (red_program b ! (4 + 11 * ?S + r)) M t = Inr (?t, M)"
      unfolding ins unfolding 1 red_tail_nth by simp
    have "red_common n b m ?t M" "read_reg ?t 19 = Inr 0" "red_cells n b m ?S (Suc r) ?t M" "red_last n b m (Suc r) ?t M"
      using c l'(2) cells 1 by (simp_all add: red_common_def red_cells_def red_last_def set_predicate_def full_file_def placed_def read_reg_def Let_def)
    then show ?thesis using st onward by (intro red_stepI) simp_all
  next
    case 2
    have j: "?j = 0" using loc 2 by (simp add: red_last_def Let_def)
    have "0 < width b ?S" "width b (Suc ?S) = 0" using bd(8) by (simp_all add: width_power) (simp add: width_def)
    then have "M (cell b ?k ?j) = Inr ?x" using cells 2 j by (simp add: red_cells_def Let_def)
    from step_load[where M = M, OF ad(8) _ ad(3) _ ad(4) this, of 10] obtain t' where
      t': "lane_step (instr LOAD 10 1 (-1) 0) M t = Inr (t', M)" "wrote 10 ?x t t'" by auto
    note w = red_common_wrote[OF c t'(2)]
    have "red_last n b m (Suc r) t' M" "red_cells n b m ?S (Suc r) t' M" using w(2-5) j 2 cells by (simp_all add: red_last_def red_cells_def Let_def)
    then have "red_lane n b m (4 + 11 * ?S + r + 1) t' M" unfolding onward using w(1,5) l'(2) by simp
    then show ?thesis by (rule red_stepI[rotated]) (unfold ins, use t'(1) in \<open>simp add: 2 red_tail_nth\<close>)
  next
    case 3
    let ?c = "red_out n ?k"
    have j: "?j = 0" and rd: "read_reg t 10 = Inr ?x" using loc 3 by (simp_all add: red_last_def Let_def)
    from step_store[where M = M, OF ad(5) _ ad(6) rd ad(10), of "-1"]
    have "lane_step (instr STORE (-1) 10 2 0) M t = Inr (t, M(?c := Inr ?x))" by simp
    then have st: "lane_step (red_program b ! (4 + 11 * ?S + r)) M t = Inr (t, M(?c := Inr ?x))"
      unfolding ins by (simp add: 3 red_tail_nth)
    have ne: "cell b ?k i \<noteq> ?c" "i < n \<Longrightarrow> 4 * i \<noteq> ?c" for i
      using cell_shared[of b ?k i] bd(3) by (auto simp: red_out_def)
    have "red_common n b m t (M(?c := Inr ?x))" using c ne by (simp add: red_common_def Let_def)
    moreover have "red_cells n b m ?S (Suc r) t (M(?c := Inr ?x))" using cells ne 3 by (simp add: red_cells_def Let_def)
    moreover have "red_last n b m (Suc r) t (M(?c := Inr ?x))" using 3 by (simp add: red_last_def Let_def)
    ultimately have "red_lane n b m (4 + 11 * ?S + r + 1) t (M(?c := Inr ?x))" unfolding onward using l'(2) by simp
    moreover have "red_target n b m ?c = Some ?x" using bd(1) by (simp add: red_target_def red_out_def)
    then have "change (red_target n b m) (\<lambda>a. a \<in> red_region b ?k) M (M(?c := Inr ?x))" using bd(3) by (simp add: change_def)
    ultimately show ?thesis unfolding red_step_def using st by blast
  qed
qed

section \<open>Control\<close>

lemma red_control:
  assumes l: "red_lane n b m q t M" and q: "q < length (red_program b)" and oc: "inst_opcode (red_program b ! q) \<in> {SSY, SYNC}"
  shows "red_lane n b m (q + 1) t M"
  using q
proof (cases rule: red_place)
  case head
  then show ?thesis using oc red_opcode_head[OF head, of b] unfolding less_4 by (elim disjE) simp_all
next
  case (round s r)
  have "r = 0 \<or> r = 9" using oc red_opcode_round[OF round(1,2)] round(2)[unfolded less_11] unfolding round(3) by (elim disjE) simp_all
  moreover from this have "r < 11" "Suc r < 11" by auto
  note at = red_lane_round(1)[OF this(1), of n b m s t M] red_lane_round(1)[OF this(2), of n b m s t M]
  ultimately have "red_state n b m s r t M \<Longrightarrow> red_state n b m s (Suc r) t M"
    using round(1) by (elim disjE) (simp_all add: red_defs)
  then show ?thesis using l at unfolding round(3) by (simp add: add.assoc)
next
  case (tail r)
  have "r = 0 \<or> r = 5" using oc red_opcode_tail[OF tail(1), of b] tail(1)[unfolded less_6] unfolding tail(2) by (elim disjE) simp_all
  moreover from this have "r < 11" "Suc r < 11" by auto
  note at = red_lane_round(1)[OF this(1), of n b m "red_rounds b" t M] red_lane_round(1)[OF this(2), of n b m "red_rounds b" t M]
  ultimately have "red_state n b m (red_rounds b) r t M \<Longrightarrow> red_state n b m (red_rounds b) (Suc r) t M"
    by (elim disjE) (simp_all add: red_defs)
  then show ?thesis using l at unfolding tail(2) by (simp add: add.assoc)
qed

lemma red_branch:
  assumes l: "red_lane n b m q t M" and q: "q < length (red_program b)" and oc: "inst_opcode (red_program b ! q) = BRANCH"
  shows "red_lane n b m (if t_predicate t then size_add_int q (inst_immediate (red_program b ! q)) else q + 1) t M"
proof -
  have imm: "size_add_int q (of_nat i) = q + i" if "i < 10" for i
    using that q red_bounded[of b] by (subst size_add_int_exact) (simp_all add: sint_of_nat)
  show ?thesis
    using q
  proof (cases rule: red_place)
    case head
    then show ?thesis using oc red_opcode_head[OF head, of b] unfolding less_4 by (elim disjE) simp_all
  next
    case (round s r)
    have r: "r = 2" using oc red_opcode_round[OF round(1,2)] round(2)[unfolded less_11] unfolding round(3) by (elim disjE) simp_all
    have "inst_immediate (red_program b ! q) = of_nat 7" unfolding round(3) red_nth(2)[OF round(1,2)] by (simp add: r red_round_nth)
    then have to: "size_add_int q (inst_immediate (red_program b ! q)) = 4 + 11 * s + 9" "q + 1 = 4 + 11 * s + 3"
      using imm[of 7] round(3) r by simp_all
    have s: "red_common n b m t M" "read_reg t 19 = Inr 0" "red_state n b m s 2 t M"
      using l red_lane_round(1)[of 2 n b m s t M] unfolding round(3) r by simp_all
    have "red_state n b m s (if t_predicate t then 9 else 3) t M" using s(3) round(1) by (auto simp: red_defs)
    then show ?thesis unfolding to using s(1,2) red_lane_round(1)[of 9 n b m s t M] red_lane_round(1)[of 3 n b m s t M] by (simp split: if_splits)
  next
    case (tail r)
    have r: "r = 2" using oc red_opcode_tail[OF tail(1), of b] tail(1)[unfolded less_6] unfolding tail(2) by (elim disjE) simp_all
    have "inst_immediate (red_program b ! q) = of_nat 3" unfolding tail(2) red_nth(3)[OF tail(1)] by (simp add: r red_tail_nth)
    then have to: "size_add_int q (inst_immediate (red_program b ! q)) = 4 + 11 * red_rounds b + 5" "q + 1 = 4 + 11 * red_rounds b + 3"
      using imm[of 3] tail(2) r by simp_all
    have s: "red_common n b m t M" "read_reg t 19 = Inr 0" "red_state n b m (red_rounds b) 2 t M"
      using l red_lane_round(1)[of 2 n b m "red_rounds b" t M] unfolding tail(2) r by simp_all
    have "red_state n b m (red_rounds b) (if t_predicate t then 5 else 3) t M" using s(3) by (auto simp: red_defs)
    then show ?thesis unfolding to using s(1,2) red_lane_round(1)[of 5 n b m "red_rounds b" t M]
      red_lane_round(1)[of 3 n b m "red_rounds b" t M] by (simp split: if_splits)
  qed
qed

end
