(* ===== verification/Reduction_Blocks.thy ===== *)
theory Reduction_Blocks
  imports Reduction_Steps
begin

text \<open>
  The lanes of a block together: between two barriers they write cells no other lane of the block
  looks at, at a barrier the cells of all of them are the partial sums of the next round, and so
  the reduction is an instance of \<open>block_kernel\<close>.
\<close>

lemma red_data:
  assumes l: "red_lane n b m q t M" and q: "q < length (red_program b)" and oc: "lanewise_opcode (inst_opcode (red_program b ! q))"
  shows "red_step n b m q t M"
  using q
proof (cases rule: red_place)
  case head
  then have "q \<noteq> 2" using oc red_opcode_head[OF head, of b] by (auto simp: lanewise_opcode_def)
  then show ?thesis using red_head_step[OF l head] by blast
next
  case (round s r)
  have "r \<in> {1, 3, 4, 5, 6, 7, 8}"
    using oc red_opcode_round[OF round(1,2)] round(2)[unfolded less_11] unfolding round(3)
    by (elim disjE) (simp_all add: lanewise_opcode_def)
  then show ?thesis using red_round_step l round(1) unfolding round(3) by blast
next
  case (tail r)
  have "r \<in> {1, 3, 4}"
    using oc red_opcode_tail[OF tail(1), of b] tail(1)[unfolded less_6] unfolding tail(2)
    by (elim disjE) (simp_all add: lanewise_opcode_def)
  then show ?thesis using red_tail_step l unfolding tail(2) by blast
qed

section \<open>Addresses\<close>

text \<open>A load or store goes to the input, to the output, or to a cell of the block.\<close>

lemma red_touched:
  assumes l: "red_lane n b m q t M" and q: "q < length (red_program b)" and oc: "inst_opcode (red_program b ! q) \<in> {LOAD, STORE, ATOMIC_ADD}"
  shows "touched (red_program b ! q) t = Inr
    (if q = 0 then 4 * t_global_id t else if q = 4 + 11 * red_rounds b + 4 then red_out n (t_block_id t)
     else cell b (t_block_id t) (t_local_id t + (if q < 4 \<or> (q - 4) mod 11 \<noteq> 6 then 0 else width b (Suc ((q - 4) div 11)))))"
proof -
  have c: "red_common n b m t M" using l by (simp add: red_lane_def)
  note ad = red_addresses[OF c] and bd = red_common_bounds[OF c]
  note tb0 = touched_base[OF ad(1) _ ad(2)] and tb1 = touched_base[OF ad(3) _ ad(4)] and tb2 = touched_base[OF ad(5) _ ad(6)]
  from q show ?thesis
  proof (cases rule: red_place)
    case head
    have "q = 0 \<or> q = 1" using oc red_opcode_head[OF head, of b] head[unfolded less_4] by (elim disjE) simp_all
    then show ?thesis using tb0(1)[of 10 "-1"] tb1(2)[of "-1" 10]
      by (elim disjE) (simp_all add: red_nth(1) red_head_nth red_head_nth(2)[unfolded One_nat_def])
  next
    case (round s r)
    have "r = 3 \<or> r = 6 \<or> r = 8"
      using oc red_opcode_round[OF round(1,2)] round(2)[unfolded less_11] unfolding round(3) by (elim disjE) simp_all
    moreover have "11 * s + r \<noteq> 11 * red_rounds b + 4"
    proof -
      have "11 * Suc s \<le> 11 * red_rounds b" using round(1) by (intro mult_le_mono2) simp
      then show ?thesis using round(2) by simp
    qed
    moreover have "(11 * s + r) mod 11 = r" "(11 * s + r) div 11 = s" using round(2) by simp_all
    moreover have "touched (instr LOAD 11 16 (-1) 0) t = Inr (cell b (t_block_id t) (t_local_id t + width b (Suc s)))" if "r = 6"
    proof -
      have "red_local n b m s 6 t" using l round(1) unfolding round(3) that by (simp add: red_lane_round(1)[of 6 n b m s t M, simplified] red_state_def)
      then have h: "t_local_id t < width b (Suc s)" and r16: "read_reg t 16 = Inr (of_nat (cell b (t_block_id t) (t_local_id t + width b (Suc s))))"
        by (simp_all add: red_local_def Let_def)
      have "t_local_id t + width b (Suc s) < red_size b" using h width_Suc[OF bd(8) round(1)] width_le(1)[of b s] by simp
      then have "cell b (t_block_id t) (t_local_id t + width b (Suc s)) < 2 ^ 31" using bd(4) by fastforce
      then show ?thesis using touched_base(1)[OF r16] by simp
    qed
    ultimately show ?thesis unfolding round(3) red_nth(2)[OF round(1,2)] using tb1(1)[of 10 "-1"] tb1(2)[of "-1" 12]
      by (elim disjE) (simp_all add: red_round_nth)
  next
    case (tail r)
    have "r = 3 \<or> r = 4"
      using oc red_opcode_tail[OF tail(1), of b] tail(1)[unfolded less_6] unfolding tail(2) by (elim disjE) simp_all
    then show ?thesis unfolding tail(2) red_nth(3)[OF tail(1)] using tb1(1)[of 10 "-1"] tb2(2)[of "-1" 10]
      by (elim disjE) (simp_all add: red_tail_nth)
  qed
qed

lemma red_space:
  assumes "red_lane n b m q t M" and "red_lane n b m q t' M" and q: "q < length (red_program b)"
  shows "one_space (red_program b ! q) {t, t'}"
proof -
  have "a < SHARED_MEM_BASE \<longleftrightarrow> q = 0 \<or> q = 4 + 11 * red_rounds b + 4"
    if l: "red_lane n b m q u M" and oc: "inst_opcode (red_program b ! q) \<in> {LOAD, STORE, ATOMIC_ADD}" and a: "touched (red_program b ! q) u = Inr a" for u a
  proof -
    have c: "red_common n b m u M" using l by (simp add: red_lane_def)
    show ?thesis using red_touched[OF l q oc] a red_common_bounds(2,3)[OF c] cell_shared[of b "t_block_id u"]
      by (auto simp: not_less[symmetric] split: if_splits)
  qed
  then show ?thesis using assms unfolding one_space_def by blast
qed

section \<open>Peers\<close>

lemma red_peer:
  assumes l: "red_lane n b m q t M" and l': "red_lane n b m q' t' M" and blk: "t_block_id t = t_block_id t'"
    and ne: "t_global_id t \<noteq> t_global_id t'" and ph: "phase (red_program b) q = phase (red_program b) q'"
    and q': "q' < length (red_program b)" and oc: "inst_opcode (red_program b ! q') \<in> {STORE, ATOMIC_ADD}"
    and st: "lane_step (red_program b ! q') M t' = Inr (t'', M')"
  shows "red_lane n b m q t M'"
proof -
  let ?k = "t_block_id t" and ?j = "t_local_id t'"
  have c: "red_common n b m t M" and c': "red_common n b m t' M" using l l' by (simp_all add: red_lane_def)
  have id: "t_global_id t = ?k * red_size b + t_local_id t" "t_global_id t' = ?k * red_size b + ?j" "t_global_id t' < n"
    using red_common_bounds(11)[OF c] red_common_bounds(11)[OF c'] c' blk by (simp_all add: red_common_def)
  then have j: "?j \<noteq> t_local_id t" using ne by auto
  obtain a v where a: "touched (red_program b ! q') t' = Inr a" "M' = M(a := Inr v)" "t'' = t'" using store_step[OF oc st] by blast
  have oc': "inst_opcode (red_program b ! q') \<in> {LOAD, STORE, ATOMIC_ADD}" using oc by simp
  note tc = red_touched[OF l' q' oc']
  let ?qm = "min q (length (red_program b))"
  have "phase (red_program b) ?qm = phase (red_program b) q" by (simp add: phase_def min_def)
  then have ph': "(if ?qm < 3 then 0 else (?qm - 4) div 11 + 1) = (if q' < 3 then 0 else (q' - 4) div 11 + 1)"
    using red_phase[of ?qm b] red_phase[of q' b] ph q' by simp
  from q' show ?thesis
  proof (cases rule: red_place)
    case head
    have q1: "q' = 1" using oc red_opcode_head[OF head, of b] head[unfolded less_4] by (elim disjE) simp_all
    then have "q < 3" using ph' red_length(3)[of b] by (simp split: if_splits)
    moreover have "a = cell b ?k ?j" using tc a(1) q1 blk by simp
    ultimately show ?thesis using red_lane_cell[OF l j] id(2,3) by (simp add: a(2))
  next
    case (round s r)
    have r: "r = 8" using oc red_opcode_round[OF round(1,2)] round(2)[unfolded less_11] unfolding round(3) by (elim disjE) simp_all
    have s: "11 * s + 11 \<le> 11 * red_rounds b"
    proof -
      have "11 * Suc s \<le> 11 * red_rounds b" using round(1) by (intro mult_le_mono2) simp
      then show ?thesis by simp
    qed
    have "(11 * s + 8) div 11 = s" by simp
    then have qm: "\<not> ?qm < 3" "(?qm - 4) div 11 = s" using ph' unfolding round(3) r by (simp_all split: if_splits)
    have "q \<le> length (red_program b)"
    proof (rule ccontr)
      assume "\<not> ?thesis"
      then have "?qm = 10 + 11 * red_rounds b" by (simp add: red_length(3))
      moreover have "(6 + 11 * red_rounds b) div 11 = red_rounds b" by simp
      ultimately show False using qm(2) round(1) by simp
    qed
    then have qs: "3 \<le> q" "(q - 4) div 11 = s" using qm by (simp_all add: min_def split: if_splits)
    have "red_local n b m s 8 t'" using l' round(1) unfolding round(3) r
      by (simp add: red_lane_round(1)[of 8 n b m s t' M, simplified] red_state_def)
    then have w: "?j < width b (Suc s)" by (simp add: red_local_def Let_def)
    have "a = cell b ?k ?j" using tc a(1) blk s unfolding round(3) r by simp
    then show ?thesis using red_lane_cell[OF l j] id(2,3) w qs by (simp add: a(2))
  next
    case (tail r)
    have r: "r = 4" using oc red_opcode_tail[OF tail(1), of b] tail(1)[unfolded less_6] unfolding tail(2) by (elim disjE) simp_all
    have "red_step n b m q' t' M" unfolding tail(2) r using l' by (intro red_tail_step) (simp_all add: tail(2) r)
    then have l2: "red_lane n b m (q' + 1) t' M'" using st a(3) by (simp add: red_step_def)
    have "q' + 1 = 4 + 11 * red_rounds b + 5" unfolding tail(2) r by simp
    then have "red_last n b m 5 t' M'" using l2 red_lane_round(1)[of 5 n b m "red_rounds b" t' M'] by (simp add: red_state_def)
    moreover have "red_last n b m 4 t' M" using l' red_lane_round(1)[of 4 n b m "red_rounds b" t' M] unfolding tail(2) r
      by (simp add: red_state_def)
    ultimately have out: "M' (red_out n ?k) = Inr (red_value n b m ?k (red_rounds b) 0)" using blk by (simp add: red_last_def Let_def)
    have a': "a = red_out n ?k" using tc a(1) blk unfolding tail(2) r by simp
    show ?thesis
    proof (rule red_lane_frame[OF l])
      show "\<forall>i < n. M' (4 * i) = M (4 * i)" unfolding a(2) a' by (simp add: red_out_def)
      show "\<forall>i < red_size b. M' (cell b ?k i) = M (cell b ?k i)"
        using cell_shared[of b ?k] red_common_bounds(3)[OF c] unfolding a(2) a' by (metis fun_upd_apply not_le)
    qed (use out in simp)
  qed
qed

section \<open>Barriers\<close>

text \<open>Together the lanes of a block know all its cells.\<close>

lemma red_all_cells:
  assumes ts: "\<forall>t \<in> set ts. t_block_id t = k \<and> red_common n b m t M \<and>
      (t_local_id t < w \<longrightarrow> M (cell b k (t_local_id t)) = Inr (red_value n b m k s (t_local_id t)))"
    and ros: "map t_global_id ts = block_roster n (red_size b) k" and ne: "ts \<noteq> []" and i: "i < w" "w \<le> red_size b"
  shows "M (cell b k i) = Inr (red_value n b m k s i)"
proof (cases "k * red_size b + i < n")
  case True
  then have "k * red_size b + i \<in> set (map t_global_id ts)" unfolding ros using i by (simp add: block_roster_def)
  then obtain t where t: "t \<in> set ts" "t_global_id t = k * red_size b + i" by auto
  then have "t_local_id t = i" using red_common_bounds(11)[of n b m t M] ts by auto
  then show ?thesis using ts t(1) i(1) by auto
next
  case False
  obtain t where "t \<in> set ts" using ne by (cases ts) auto
  then have "red_common n b m t M" "t_block_id t = k" using ts by auto
  then have "M (cell b k i) = Inr 0" using False i by (simp add: red_common_def Let_def)
  then show ?thesis using False by (simp add: red_value_def partial_sum_zero)
qed

lemma red_barrier:
  assumes q: "q < length (red_program b)" and oc: "inst_opcode (red_program b ! q) = BARRIER"
    and ts: "\<forall>t \<in> set ts. t_block_id t = k \<and> red_lane n b m q t M" and ros: "map t_global_id ts = block_roster n (red_size b) k"
    and t: "t \<in> set ts"
  shows "red_lane n b m (q + 1) t M"
proof -
  have ne: "ts \<noteq> []" and k: "t_block_id t = k" using t ts by auto
  have c: "red_common n b m u M" if "u \<in> set ts" for u using ts that by (simp add: red_lane_def)
  have wide: "t_local_id t < red_size b" by (rule red_common_bounds(6)[OF c[OF t]])
  from q show ?thesis
  proof (cases rule: red_place)
    case head
    have q2: "q = 2" using oc red_opcode_head[OF head, of b] head[unfolded less_4] by (elim disjE) simp_all
    have own: "M (cell b k (t_local_id u)) = Inr (red_value n b m k 0 (t_local_id u))" if u: "u \<in> set ts" for u
    proof -
      have "red_first n b m 2 u M" using ts u by (simp add: q2 red_lane_round(4))
      moreover have "t_global_id u = k * red_size b + t_local_id u" "t_global_id u < n"
        using red_common_bounds(11)[OF c[OF u]] c[OF u] ts u by (simp_all add: red_common_def)
      ultimately show ?thesis using ts u by (simp add: red_first_def Let_def red_value_0)
    qed
    have "M (cell b k i) = Inr (red_value n b m k 0 i)" if "i < red_size b" for i
      by (rule red_all_cells[OF _ ros ne that order_refl]) (use ts c own in simp)
    then have "red_cells n b m 0 0 t M" using k wide by (simp add: red_cells_def width_def)
    then have "red_state n b m 0 0 t M" by (simp add: red_state_def red_local_def red_last_def)
    then show ?thesis using c[OF t] q2 by (simp add: red_lane_round(3))
  next
    case (round s r)
    have r: "r = 10" using oc red_opcode_round[OF round(1,2)] round(2)[unfolded less_11] unfolding round(3) by (elim disjE) simp_all
    let ?w = "width b (Suc s)"
    have w: "?w \<le> red_size b" "?w \<le> width b s" by (rule width_le)+
    have at: "red_common n b m u M \<and> read_reg u 19 = Inr 0 \<and> red_state n b m s 10 u M" if "u \<in> set ts" for u
      using ts that red_lane_round(1)[of 10 n b m s u M] unfolding round(3) r by simp
    have own: "M (cell b k (t_local_id u)) = Inr (red_value n b m k (Suc s) (t_local_id u))"
      if "u \<in> set ts" "t_local_id u < ?w" for u
      using at[OF that(1)] that(2) w(2) ts that(1) by (simp add: red_state_def red_cells_def Let_def)
    have all: "M (cell b k i) = Inr (red_value n b m k (Suc s) i)" if "i < ?w" for i
      by (rule red_all_cells[OF _ ros ne that w(1)]) (use ts c own in simp)
    have "red_cells n b m (Suc s) 0 t M" using all k by (simp add: red_cells_def Let_def)
    then have "red_state n b m (Suc s) 0 t M" by (simp add: red_state_def red_local_def red_last_def)
    then have "red_lane n b m (4 + 11 * s + 11) t M" using at[OF t] red_lane_round(2)[of n b m s t M] by blast
    then show ?thesis unfolding round(3) r by (simp add: add.commute add.left_commute)
  next
    case (tail r)
    then show ?thesis using oc red_opcode_tail[OF tail(1), of b] tail(1)[unfolded less_6] unfolding tail(2) by (elim disjE) simp_all
  qed
qed

section \<open>The kernel\<close>

interpretation red: block_kernel "red_program b" "red_lane n b m" "\<lambda>_ _ _. True" "red_target n b m" "red_region b" "block_roster n (red_size b)"
  for b :: c_int and n :: nat and m :: global_memory
proof
  show "length (red_program b) < 2 ^ 63" by (rule red_bounded)
  show "guarded_prog (red_program b)" by (rule red_shaped)
  show "distinct (block_roster n (red_size b) k)" for k by (simp add: block_roster_def)
  show "red_region b k \<inter> red_region b k' = {}" if "k \<noteq> k'" for k k'
  proof -
    have "k * red_size b + j \<noteq> k' * red_size b + j'" if "j < red_size b" "j' < red_size b" for j j'
    proof
      assume e: "k * red_size b + j = k' * red_size b + j'"
      have "(k * red_size b + j) div red_size b = k" "(k' * red_size b + j') div red_size b = k'" using that by simp_all
      then show False using e \<open>k \<noteq> k'\<close> by simp
    qed
    then have "cell b k j \<noteq> cell b k' j'" if "j < red_size b" "j' < red_size b" for j j'
      using that unfolding cell_def by (metis add_left_cancel mult_cancel1 zero_neq_numeral)
    then show ?thesis by (auto simp: red_region_def)
  qed
  show "red_lane n b m q t M \<Longrightarrow> red_lane n b m q (set_pc t x) M" for q t M x by (rule red_lane_pc)
  show "red_lane n b m q t M \<Longrightarrow> change (red_target n b m) (\<lambda>a. a \<notin> red_region b (t_block_id t)) M M' \<Longrightarrow> red_lane n b m q t M'"
    for q t M M' by (rule red_lane_apart)
  show "\<exists>t' M'. lane_step (red_program b ! q) M t = Inr (t', M') \<and> red_lane n b m (q + 1) t' M' \<and> True \<and>
      change (red_target n b m) (\<lambda>a. a \<in> red_region b (t_block_id t)) M M'"
    if "red_lane n b m q t M" "q < length (red_program b)" "lanewise_opcode (inst_opcode (red_program b ! q))" for q t M
    using red_data[OF that] by (simp add: red_step_def)
qed (rule red_peer red_space red_control red_branch red_barrier; assumption)+

section \<open>The start\<close>

lemma red_size_power:
  assumes "B = 2 ^ d" and "d \<le> 12"
  shows "red_size (size_to_int B) = B" and "red_rounds (size_to_int B) = d"
proof -
  have "B \<le> 2 ^ 12" unfolding assms(1) using assms(2) by (intro power_increasing) simp_all
  then show s: "red_size (size_to_int B) = B" by (simp add: red_size_def size_to_int_def sint_of_nat)
  show "red_rounds (size_to_int B) = d"
  proof (cases d)
    case 0
    then show ?thesis unfolding red_rounds_def s by (simp add: assms(1))
  next
    case (Suc e)
    then show ?thesis unfolding red_rounds_def s using halvings_power[of e] by (simp add: assms(1))
  qed
qed

lemma red_initial:
  assumes init: "initialised (reduction_init n B) t" and n: "t_global_id t < n" and p: "placed B t" and inp: "red_input n b m"
    and B: "red_size b = B" and cap: "4 * (red_blocks n b * B) \<le> cap"
  shows "red_lane n b m 0 t (space (new_shared_memory cap banks) m)"
proof -
  let ?M = "space (new_shared_memory cap banks) m" and ?k = "t_block_id t" and ?j = "t_local_id t" and ?g = "t_global_id t"
  let ?regs = "reduction_init n B ?k ?j ?g"
  have S: "red_rounds b \<le> 12" and B0: "0 < B" using inp B by (auto simp: red_input_def)
  have regs: "?regs = [(0, of_nat (4 * ?g)), (1, of_nat (cell b ?k ?j)), (2, of_nat (red_out n ?k)), (3, if ?j = 0 then 1 else 0)] @
      map (\<lambda>s. (20 + of_nat s, if ?j < width b (Suc s) then 1 else 0)) [0..<red_rounds b]"
    unfolding reduction_init_def B[symmetric] red_enumerate
    by (simp add: size_to_int_def cell_def red_out_def algebra_simps)
  have "map (\<lambda>p. int_to_size (fst p)) ?regs = [0, 1, 2, 3] @ map (\<lambda>s. 20 + s) [0..<red_rounds b]"
    unfolding regs using S by (simp add: comp_def round_register)
  then have "distinct (map (\<lambda>p. int_to_size (fst p)) ?regs)" by (simp add: distinct_map inj_on_def)
  note rd = initialised_read[OF init refl this]
  have r: "read_reg t 0 = Inr (of_nat (4 * ?g))" "read_reg t 1 = Inr (of_nat (cell b ?k ?j))" "read_reg t 2 = Inr (of_nat (red_out n ?k))"
    "read_reg t 3 = Inr (if ?j = 0 then 1 else 0)"
    by (rule rd, unfold regs, simp)+
  have rs: "read_reg t (20 + of_nat s) = Inr (if ?j < width b (Suc s) then 1 else 0)" if "s < red_rounds b" for s
    using that by (intro rd) (unfold regs, auto)
  have g: "?g = ?k * B + ?j" "?j < B" using p by (simp_all add: placed_def)
  have out: "red_out n (red_blocks n b) \<le> SHARED_MEM_BASE" "red_out n (red_blocks n b) \<le> length (gm_data m)"
    using inp by (simp_all add: red_input_def)
  have "(?k + 1) * B \<le> n + B - 1" using g n by simp
  then have k: "?k < red_blocks n b" unfolding red_blocks_def B using B0 by (simp add: Suc_le_eq[symmetric] less_eq_div_iff_mult_less_eq)
  have cells: "?M (cell b ?k i) = Inr 0" if "i < B" for i
  proof -
    have "?k * B + i < (?k + 1) * B" using that by simp
    also have "\<dots> \<le> red_blocks n b * B" using k by (intro mult_le_mono1) simp
    finally have "4 * (?k * B + i) < cap" using cap by simp
    then show ?thesis by (simp add: space_def cell_def shm_load_def new_shared_memory_def B)
  qed
  have "?M (4 * i) = Inr (word_of m (4 * i))" if "i < n" for i
    using that out by (simp add: space_def red_out_def word_of_load)
  moreover have "red_out n ?k < length (gm_data m)" "red_out n ?k < SHARED_MEM_BASE" using k out by (simp_all add: red_out_def)
  then have "\<exists>v. ?M (red_out n ?k) = Inr v" by (simp add: space_def word_of_load)
  ultimately have "red_common n b m t ?M"
    using inp n p r rs cells g(2) initialised_full[OF init] by (simp add: red_common_def B)
  then show ?thesis by (simp add: red_lane_round red_first_def)
qed

section \<open>The end\<close>

lemma red_final:
  assumes l: "red_lane n b m (length (red_program b)) t M" and t: "t_global_id t = t_block_id t * red_size b"
  shows "M (red_out n (t_block_id t)) = Inr (red_value n b m (t_block_id t) (red_rounds b) 0)"
proof -
  have e: "length (red_program b) = 4 + 11 * red_rounds b + 6" by (simp add: red_length(3))
  have "red_common n b m t M" "red_last n b m 6 t M"
    using l red_lane_round(1)[of 6 n b m "red_rounds b" t M] unfolding e by (simp_all add: red_state_def)
  moreover from red_common_bounds(11)[OF this(1)] t have "t_local_id t = 0" by simp
  ultimately show ?thesis by (simp add: red_last_def Let_def)
qed

lemma block_sum_elements:
  "block_sum n b m k = (\<Sum>i \<in> {k * red_size b ..< min (k * red_size b + red_size b) n}. sint (word_of m (4 * i)))"
proof -
  let ?B = "red_size b"
  have "block_sum n b m k = (\<Sum>i \<in> {k * ?B ..< k * ?B + ?B}. red_elem n m i)"
    unfolding block_sum_def using sum.shift_bounds_nat_ivl[of "red_elem n m" 0 "k * ?B" ?B] by (simp add: lessThan_atLeast0 add.commute)
  also have "\<dots> = (\<Sum>i \<in> {k * ?B ..< min (k * ?B + ?B) n}. red_elem n m i)"
    by (rule sum.mono_neutral_right) (auto simp: red_elem_def)
  also have "\<dots> = (\<Sum>i \<in> {k * ?B ..< min (k * ?B + ?B) n}. sint (word_of m (4 * i)))"
    by (rule sum.cong) (auto simp: red_elem_def)
  finally show ?thesis .
qed

end
