(* ===== verification/Histogram.thy ===== *)
theory Histogram
  imports Block_Kernels Metrics
begin

text \<open>
  The histogram of the benchmarks (\<^verbatim>\<open>src/runtime/benchmarks.cpp\<close>): every block zeroes its bins in
  the shared memory, counts its elements with atomic additions and copies the bins out, with a
  barrier between the parts. The program as a list, its places, and what the bins count.
\<close>

section \<open>The program\<close>

definition his_iters :: "nat \<Rightarrow> nat \<Rightarrow> nat" where
  "his_iters bins bs = min 8 ((bins + bs - 1) div bs)"

definition his_head :: "instruction list" where
  "his_head = [instr MOV 19 (-1) (-1) 0, instr MOV 12 (-1) (-1) 4]"

text \<open>The index of the bin of iteration \<open>i\<close>, and the address of the bin.\<close>

definition his_address :: "nat \<Rightarrow> nat \<Rightarrow> instruction list" where
  "his_address bs i = [instr MOV 15 (-1) (-1) (of_nat (i * bs)), instr ADD 16 5 15 0, instr MUL 13 16 12 0, instr ADD 14 1 13 0]"

definition his_zero :: "nat \<Rightarrow> nat \<Rightarrow> instruction list" where
  "his_zero bs i = guarded (20 + of_nat i) (his_address bs i @ [instr STORE (-1) 19 14 0])"

definition his_output :: "nat \<Rightarrow> nat \<Rightarrow> instruction list" where
  "his_output bs i = guarded (20 + of_nat i)
     (his_address bs i @ [instr LOAD 17 14 (-1) 0, instr ADD 18 2 13 0, instr STORE (-1) 17 18 0])"

definition his_program :: "nat \<Rightarrow> nat \<Rightarrow> instruction list" where
  "his_program bins bs = his_head @ concat (map (his_zero bs) [0..<his_iters bins bs]) @ [instr BARRIER 0 0 0 0] @
     histogram_count @ [instr BARRIER 0 0 0 0] @ concat (map (his_output bs) [0..<his_iters bins bs])"

lemma histogram_kernel:
  assumes run: "generate_histogram_kernel (size_to_int bins) (size_to_int bs) = Inr k"
    and small: "0 < bs" "bins + bs < 2 ^ 31"
  shows "k_instructions k = his_program bins bs" and "(bins + bs - 1) div bs \<le> 8"
proof -
  have e: "size_to_int bins = of_nat bins" "size_to_int bs = of_nat bs" by (simp_all add: size_to_int_def)
  let ?q = "(bins + bs - 1) div bs"
  have q: "?q < 2 ^ 31" using small by (intro le_less_trans[OF div_le_dividend]) simp
  have bounds: "bins + bs < 2 ^ 31" "bins + bs - 1 < 2 ^ 31" using small by simp_all
  have c1: "c_add (of_nat bins) (of_nat bs) = Inr (of_nat (bins + bs))" using add_nat bounds(1) by blast
  have c2: "c_sub (of_nat (bins + bs)) 1 = Inr (of_nat (bins + bs - 1))" using sub_nat[of 1 "bins + bs"] small(1) bounds(1) by simp
  have c3: "c_div (of_nat (bins + bs - 1)) (of_nat bs) = Inr (of_nat ?q)" using div_nat[OF small(1) bounds(2)] bounds(1) by simp
  have run': "(if sint (of_nat ?q :: c_int) > 8 then Inl (Runtime_error ''iters too large for register predicates'')
     else bindE (mapE (histogram_zero (of_nat bs)) (int_range (of_nat ?q))) (\<lambda>zeros.
       bindE (mapE (histogram_output (of_nat bs)) (int_range (of_nat ?q))) (\<lambda>outputs.
         Inr (make_kernel ''histogram''
           ([instr MOV 19 (-1) (-1) 0, instr MOV 12 (-1) (-1) 4] @ concat zeros @ [instr BARRIER 0 0 0 0] @
            histogram_count @ [instr BARRIER 0 0 0 0] @ concat outputs))))) = Inr k"
    using run unfolding generate_histogram_kernel_def e c1 bindE_Inr c2 c3 .
  then show q8: "?q \<le> 8" using sint_of_nat[OF q] by (simp split: if_splits)
  define N where "N = ?q"
  have small_N: "N < 2 ^ 31" "N \<le> 8" "N * bs \<le> bins + bs - 1" using q q8 by (simp_all add: N_def)
  have range: "int_range (of_nat N) = map of_nat [0..<N]" using sint_of_nat[OF small_N(1)] by (simp add: int_range_def)
  obtain zeros outputs where z: "mapE (histogram_zero (of_nat bs)) (map of_nat [0..<N]) = Inr zeros"
    and o: "mapE (histogram_output (of_nat bs)) (map of_nat [0..<N]) = Inr outputs"
    and k: "k_instructions k = his_head @ concat zeros @ [instr BARRIER 0 0 0 0] @ histogram_count @ [instr BARRIER 0 0 0 0] @ concat outputs"
    using run'[folded N_def] small_N(2) sint_of_nat[OF small_N(1)] by (auto simp: range make_kernel_def his_head_def)
  have off: "off = of_nat (i * bs)" if "c_mul (of_nat i) (of_nat bs) = Inr off" "i < N" for i off
  proof -
    have "i * bs < 2 ^ 31"
    proof -
      have "Suc i * bs \<le> N * bs" using that(2) by (intro mult_le_mono1) simp
      also have "\<dots> \<le> bins + bs - 1" by (rule small_N(3))
      finally show ?thesis using small by simp
    qed
    moreover have "i < 2 ^ 31" using that(2) small_N(1) by simp
    ultimately show ?thesis using that(1) mul_nat[of i bs] small by simp
  qed
  have again: "nat (sint (of_nat i :: c_int)) = i" if "i < N" for i using sint_of_nat[of i] that small_N(1) by simp
  have "map id zeros = map (\<lambda>x :: c_int. his_zero bs (nat (sint x))) (map of_nat [0..<N])"
    by (rule map_mapE[OF z]) (auto simp: histogram_zero_def his_zero_def his_address_def again dest!: off)
  moreover have "map id outputs = map (\<lambda>x :: c_int. his_output bs (nat (sint x))) (map of_nat [0..<N])"
    by (rule map_mapE[OF o]) (auto simp: histogram_output_def his_output_def his_address_def again dest!: off)
  ultimately have "zeros = map (his_zero bs) [0..<N]" "outputs = map (his_output bs) [0..<N]" using again by simp_all
  then show "k_instructions k = his_program bins bs" using q8 by (simp add: k his_program_def his_iters_def min_def N_def)
qed

section \<open>Places of the program\<close>

text \<open>
  Instruction \<open>r\<close> of a part, or of iteration \<open>i\<close> of one; the output part ends with iteration
  \<open>his_iters\<close>.
\<close>

datatype his_place = At_head nat | At_zero nat nat | At_zeroed | At_count nat | At_counted | At_output nat nat

fun his_at :: "nat \<Rightarrow> his_place \<Rightarrow> nat" where
  "his_at I (At_head r) = r"
| "his_at I (At_zero i r) = 2 + 9 * i + r"
| "his_at I At_zeroed = 2 + 9 * I"
| "his_at I (At_count r) = 3 + 9 * I + r"
| "his_at I At_counted = 13 + 9 * I"
| "his_at I (At_output i r) = 14 + 9 * I + 11 * i + r"

fun his_valid :: "nat \<Rightarrow> his_place \<Rightarrow> bool" where
  "his_valid I (At_head r) \<longleftrightarrow> r < 2"
| "his_valid I (At_zero i r) \<longleftrightarrow> i < I \<and> r < 9"
| "his_valid I At_zeroed \<longleftrightarrow> True"
| "his_valid I (At_count r) \<longleftrightarrow> r < 10"
| "his_valid I At_counted \<longleftrightarrow> True"
| "his_valid I (At_output i r) \<longleftrightarrow> r < 11"

definition his_place :: "nat \<Rightarrow> nat \<Rightarrow> his_place" where
  "his_place I q =
     (if q < 2 then At_head q
      else if q < 2 + 9 * I then At_zero ((q - 2) div 9) ((q - 2) mod 9)
      else if q = 2 + 9 * I then At_zeroed
      else if q < 13 + 9 * I then At_count (q - (3 + 9 * I))
      else if q = 13 + 9 * I then At_counted
      else At_output ((q - (14 + 9 * I)) div 11) ((q - (14 + 9 * I)) mod 11))"

text \<open>The place behind one, in the order of the program.\<close>

fun his_next :: "nat \<Rightarrow> his_place \<Rightarrow> his_place" where
  "his_next I (At_head r) = (if r = 0 then At_head 1 else if I = 0 then At_zeroed else At_zero 0 0)"
| "his_next I (At_zero i r) = (if r < 8 then At_zero i (Suc r) else if Suc i < I then At_zero (Suc i) 0 else At_zeroed)"
| "his_next I At_zeroed = At_count 0"
| "his_next I (At_count r) = (if r < 9 then At_count (Suc r) else At_counted)"
| "his_next I At_counted = At_output 0 0"
| "his_next I (At_output i r) = (if r < 10 then At_output i (Suc r) else At_output (Suc i) 0)"

lemma his_place_at: "his_valid I p \<Longrightarrow> his_place I (his_at I p) = p"
proof (cases p)
  case (At_zero i r)
  assume "his_valid I p"
  then have "i < I" "r < 9" using At_zero by simp_all
  moreover from this have "9 * i + r < 9 * I" by linarith
  moreover have "(9 * i + r) div 9 = i" "(9 * i + r) mod 9 = r" using \<open>r < 9\<close> by simp_all
  ultimately show ?thesis by (simp add: At_zero his_place_def)
qed (simp_all add: his_place_def)

lemma his_next_at: "his_valid I p \<Longrightarrow> his_at I p + 1 = his_at I (his_next I p) \<and> his_valid I (his_next I p)"
  by (cases p) auto

lemma his_place_Suc: "his_valid I p \<Longrightarrow> his_place I (his_at I p + 1) = his_next I p"
  using his_next_at his_place_at by metis

lemma his_placed: "his_valid I (his_place I q) \<and> his_at I (his_place I q) = q"
proof -
  consider "q < 2" | "\<not> q < 2" "q < 2 + 9 * I" | "q = 2 + 9 * I" | "2 + 9 * I < q" "q < 13 + 9 * I" | "q = 13 + 9 * I" | "13 + 9 * I < q"
    by linarith
  then show ?thesis
  proof cases
    case 2
    have "(q - 2) div 9 < I" using 2 by (simp add: div_less_iff_less_mult)
    moreover have "9 * ((q - 2) div 9) + (q - 2) mod 9 = q - 2" by simp
    ultimately show ?thesis using 2 by (simp add: his_place_def)
  next
    case 6
    have "11 * ((q - (14 + 9 * I)) div 11) + (q - (14 + 9 * I)) mod 11 = q - (14 + 9 * I)" by simp
    then show ?thesis using 6 by (simp add: his_place_def)
  qed (simp_all add: his_place_def)
qed

fun his_code :: "nat \<Rightarrow> his_place \<Rightarrow> instruction" where
  "his_code bs (At_head r) = his_head ! r"
| "his_code bs (At_zero i r) = his_zero bs i ! r"
| "his_code bs At_zeroed = instr BARRIER 0 0 0 0"
| "his_code bs (At_count r) = histogram_count ! r"
| "his_code bs At_counted = instr BARRIER 0 0 0 0"
| "his_code bs (At_output i r) = his_output bs i ! r"

lemma his_lengths [simp]: "length his_head = 2" "length (his_zero bs i) = 9" "length histogram_count = 10" "length (his_output bs i) = 11"
  by (simp_all add: his_head_def his_zero_def histogram_count_def his_output_def his_address_def guarded_def)

lemma his_length: "length (his_program bins bs) = 14 + 20 * his_iters bins bs"
  using concat_blocks(1)[of "his_zero bs" 9] concat_blocks(1)[of "his_output bs" 11] by (simp add: his_program_def)

lemma his_nth:
  assumes "his_at (his_iters bins bs) p < length (his_program bins bs)" and "his_valid (his_iters bins bs) p"
  shows "his_program bins bs ! his_at (his_iters bins bs) p = his_code bs p"
proof -
  let ?I = "his_iters bins bs"
  note z = concat_blocks[of "his_zero bs" 9, simplified] and o = concat_blocks[of "his_output bs" 11, simplified]
  show ?thesis
  proof (cases p)
    case (At_zero i r)
    then have r: "i < ?I" "r < 9" using assms(2) by simp_all
    have "9 * i + r < 9 * ?I" using r by linarith
    moreover have "(9 * i + r) div 9 = i" "(9 * i + r) mod 9 = r" using r(2) by simp_all
    ultimately show ?thesis using z(2)[of "9 * i + r" ?I] by (simp add: At_zero his_program_def nth_append z(1))
  next
    case (At_output i r)
    then have r: "11 * i + r < 11 * ?I" "r < 11" using assms by (simp_all add: his_length)
    then have "(11 * i + r) div 11 = i" "(11 * i + r) mod 11 = r" by simp_all
    then show ?thesis using o(2)[OF r(1)] by (simp add: At_output his_program_def nth_append z(1))
  qed (use assms(2) in \<open>simp_all add: his_program_def nth_append z(1)\<close>)
qed

lemma his_shaped: "guarded_prog (his_program bins bs)"
proof -
  have "guarded_prog (his_zero bs i @ [])" "guarded_prog (his_output bs i @ [])" "guarded_prog (histogram_count @ [])" for i
    unfolding his_zero_def his_output_def histogram_count_def
    by (intro guarded_prog.region guarded_prog.finish; simp add: lanewise_opcode_def his_address_def)+
  then have "guarded_prog (concat (map (his_zero bs) [0..<I]))" "guarded_prog (concat (map (his_output bs) [0..<I]))" "guarded_prog histogram_count" for I
    by (auto intro!: guarded_concat)
  moreover have "guarded_prog his_head" "guarded_prog [instr BARRIER 0 0 0 0]" unfolding his_head_def
    by (intro guarded_prog.intros; simp add: lanewise_opcode_def)+
  ultimately show ?thesis unfolding his_program_def by (intro guarded_append)
qed

lemma his_bounded: "length (his_program bins bs) < 2 ^ 63"
  by (simp add: his_length his_iters_def)

section \<open>Opcodes and phases\<close>

lemma his_nths:
  "his_head ! 0 = instr MOV 19 (-1) (-1) 0" "his_head ! Suc 0 = instr MOV 12 (-1) (-1) 4"
  "his_zero B i ! 0 = instr SSY (-1) (-1) (-1) 8" "his_zero B i ! Suc 0 = instr CMP (-1) (20 + of_nat i) 19 0"
  "his_zero B i ! 2 = instr BRANCH (-1) (-1) (-1) 6" "his_zero B i ! 3 = instr MOV 15 (-1) (-1) (of_nat (i * B))"
  "his_zero B i ! 4 = instr ADD 16 5 15 0" "his_zero B i ! 5 = instr MUL 13 16 12 0" "his_zero B i ! 6 = instr ADD 14 1 13 0"
  "his_zero B i ! 7 = instr STORE (-1) 19 14 0" "his_zero B i ! 8 = instr SYNC 0 0 0 0"
  "histogram_count ! 0 = instr SSY (-1) (-1) (-1) 9" "histogram_count ! Suc 0 = instr CMP (-1) 4 19 0"
  "histogram_count ! 2 = instr BRANCH (-1) (-1) (-1) 7" "histogram_count ! 3 = instr LOAD 10 0 (-1) 0"
  "histogram_count ! 4 = instr MOV 12 (-1) (-1) 4" "histogram_count ! 5 = instr MUL 13 10 12 0"
  "histogram_count ! 6 = instr ADD 14 1 13 0" "histogram_count ! 7 = instr MOV 16 (-1) (-1) 1"
  "histogram_count ! 8 = instr ATOMIC_ADD (-1) 16 14 0" "histogram_count ! 9 = instr SYNC 0 0 0 0"
  "his_output B i ! 0 = instr SSY (-1) (-1) (-1) 10" "his_output B i ! Suc 0 = instr CMP (-1) (20 + of_nat i) 19 0"
  "his_output B i ! 2 = instr BRANCH (-1) (-1) (-1) 8" "his_output B i ! 3 = instr MOV 15 (-1) (-1) (of_nat (i * B))"
  "his_output B i ! 4 = instr ADD 16 5 15 0" "his_output B i ! 5 = instr MUL 13 16 12 0" "his_output B i ! 6 = instr ADD 14 1 13 0"
  "his_output B i ! 7 = instr LOAD 17 14 (-1) 0" "his_output B i ! 8 = instr ADD 18 2 13 0"
  "his_output B i ! 9 = instr STORE (-1) 17 18 0" "his_output B i ! 10 = instr SYNC 0 0 0 0"
  by (simp_all add: his_head_def his_zero_def histogram_count_def his_output_def his_address_def guarded_def)

fun his_opcode :: "his_place \<Rightarrow> opcode" where
  "his_opcode (At_head r) = MOV"
| "his_opcode (At_zero i r) = [SSY, CMP, BRANCH, MOV, ADD, MUL, ADD, STORE, SYNC] ! r"
| "his_opcode At_zeroed = BARRIER"
| "his_opcode (At_count r) = [SSY, CMP, BRANCH, LOAD, MOV, MUL, ADD, MOV, ATOMIC_ADD, SYNC] ! r"
| "his_opcode At_counted = BARRIER"
| "his_opcode (At_output i r) = [SSY, CMP, BRANCH, MOV, ADD, MUL, ADD, LOAD, ADD, STORE, SYNC] ! r"

lemma his_opcode: "his_valid I p \<Longrightarrow> inst_opcode (his_code B p) = his_opcode p"
proof (cases p)
  case (At_head r)
  moreover assume "his_valid I p"
  ultimately have "r = 0 \<or> r = Suc 0" by auto
  then show ?thesis unfolding At_head by (elim disjE) (simp_all add: his_nths)
next
  case (At_zero i r)
  moreover assume "his_valid I p"
  ultimately have "r < 9" by simp
  then show ?thesis unfolding At_zero less_9 by (elim disjE) (simp_all add: his_nths)
next
  case (At_count r)
  moreover assume "his_valid I p"
  ultimately have "r < 10" by simp
  then show ?thesis unfolding At_count less_10 by (elim disjE) (simp_all add: his_nths)
next
  case (At_output i r)
  moreover assume "his_valid I p"
  ultimately have "r < 11" by simp
  then show ?thesis unfolding At_output less_11 by (elim disjE) (simp_all add: his_nths)
qed simp_all

text \<open>The place of a program counter, its instruction and the place behind it.\<close>

lemma his_here:
  assumes "q < length (his_program K B)"
  obtains p where "his_valid (his_iters K B) p" "q = his_at (his_iters K B) p" "his_program K B ! q = his_code B p"
    "his_place (his_iters K B) q = p" "his_place (his_iters K B) (q + 1) = his_next (his_iters K B) p" "inst_opcode (his_program K B ! q) = his_opcode p"
    "\<And>i r. p = At_output i r \<Longrightarrow> i < his_iters K B"
proof -
  let ?I = "his_iters K B"
  let ?p = "his_place ?I q"
  have p: "his_valid ?I ?p" "his_at ?I ?p = q" using his_placed by simp_all
  have code: "his_program K B ! q = his_code B ?p" using his_nth[of K B ?p] p assms by simp
  have "i < ?I" if "?p = At_output i r" for i r
    using p(2) assms unfolding that his_length by (simp add: his_place_at)
  then show thesis using that[of ?p] p code his_place_Suc[OF p(1)] his_opcode[OF p(1)] by simp
qed

lemma his_barriers:
  assumes "q < length (his_program K B)"
  shows "inst_opcode (his_program K B ! q) = BARRIER \<longleftrightarrow> q = 2 + 9 * his_iters K B \<or> q = 13 + 9 * his_iters K B"
proof -
  let ?I = "his_iters K B"
  obtain p where p: "his_valid ?I p" "q = his_at ?I p" "inst_opcode (his_program K B ! q) = his_opcode p"
    using his_here[OF assms] by metis
  show ?thesis
  proof (cases p)
    case (At_zero i r)
    then have r: "i < ?I" "r < 9" using p(1) by simp_all
    then have "9 * i + r < 9 * ?I" by linarith
    moreover have "his_opcode (At_zero i r) \<noteq> BARRIER" using r(2)[unfolded less_9] by (elim disjE) simp_all
    ultimately show ?thesis using p(2,3) At_zero by simp
  next
    case (At_count r)
    then have r: "r < 10" using p(1) by simp
    then have "his_opcode (At_count r) \<noteq> BARRIER" unfolding less_10 by (elim disjE) simp_all
    then show ?thesis using p(2,3) At_count r by simp
  next
    case (At_output i r)
    then have r: "r < 11" using p(1) by simp
    then have "his_opcode (At_output i r) \<noteq> BARRIER" unfolding less_11 by (elim disjE) simp_all
    then show ?thesis using p(2,3) At_output r by simp
  qed (use p in auto)
qed

lemma his_phase:
  "phase (his_program K B) q = (if q \<le> 2 + 9 * his_iters K B then 0 else if q \<le> 13 + 9 * his_iters K B then 1 else 2)"
proof -
  let ?I = "his_iters K B"
  have in_range: "phase (his_program K B) q = (if q \<le> 2 + 9 * ?I then 0 else if q \<le> 13 + 9 * ?I then 1 else 2)"
    if "q \<le> length (his_program K B)" for q
    using that
  proof (induction q)
    case (Suc q)
    then have "q < length (his_program K B)" by simp
    from phase_Suc[OF this] his_barriers[OF this] Suc.IH this show ?case by auto
  qed (simp add: phase_def)
  have "phase (his_program K B) q = phase (his_program K B) (min q (length (his_program K B)))" by (simp add: phase_def min_def)
  also have "\<dots> = (if q \<le> 2 + 9 * ?I then 0 else if q \<le> 13 + 9 * ?I then 1 else 2)"
    using in_range[of "min q (length (his_program K B))"] his_length[of K B] by auto
  finally show ?thesis .
qed

text \<open>The part of a place.\<close>

fun his_part :: "his_place \<Rightarrow> nat" where
  "his_part (At_count _) = 1"
| "his_part At_counted = 1"
| "his_part (At_output _ _) = 2"
| "his_part _ = 0"

lemma his_part: "phase (his_program K B) q = his_part (his_place (his_iters K B) q)"
proof -
  let ?I = "his_iters K B"
  let ?p = "his_place ?I q"
  have p: "his_valid ?I ?p" "his_at ?I ?p = q" using his_placed by simp_all
  show ?thesis
  proof (cases ?p)
    case (At_zero i r)
    then have "9 * i + r < 9 * ?I" using p(1) by auto
    then show ?thesis using p(2) At_zero by (auto simp: his_phase)
  qed (use p in \<open>auto simp: his_phase\<close>)
qed

end
