(* ===== verification/Histogram_Lanes.thy ===== *)
theory Histogram_Lanes
  imports Histogram
begin

text \<open>
  The histogram lane by lane: what a lane may assume and has established at every place of the
  program, and what the threads of a block have counted together.
\<close>

section \<open>Where the kernel works\<close>

definition bin :: "nat \<Rightarrow> nat \<Rightarrow> nat \<Rightarrow> size_t" where
  "bin K k j = SHARED_MEM_BASE + 4 * (k * K + j)"

definition his_out :: "nat \<Rightarrow> nat \<Rightarrow> nat \<Rightarrow> nat \<Rightarrow> size_t" where
  "his_out n K k j = 4 * n + 4 * (k * K + j)"

definition his_blocks :: "nat \<Rightarrow> nat \<Rightarrow> nat" where
  "his_blocks n B = (n + B - 1) div B"

text \<open>The bin of an element, and the number of elements of block \<open>k\<close> in bin \<open>j\<close>.\<close>

definition his_elem :: "global_memory \<Rightarrow> nat \<Rightarrow> nat" where
  "his_elem m i = nat (sint (word_of m (4 * i)))"

definition his_count :: "nat \<Rightarrow> nat \<Rightarrow> global_memory \<Rightarrow> nat \<Rightarrow> nat \<Rightarrow> nat" where
  "his_count n B m k j = card {i \<in> set (block_roster n B k). his_elem m i = j}"

text \<open>
  The bins fit the predicates of a thread, input and output are mapped below the shared memory,
  and every element is the number of a bin.
\<close>

definition his_input :: "nat \<Rightarrow> nat \<Rightarrow> nat \<Rightarrow> global_memory \<Rightarrow> bool" where
  "his_input n K B m \<longleftrightarrow> 0 < B \<and> (K + B - 1) div B \<le> 8 \<and>
     his_out n K (his_blocks n B) 0 \<le> min SHARED_MEM_BASE (length (gm_data m)) \<and>
     (\<forall>i < n. 0 \<le> sint (word_of m (4 * i)) \<and> his_elem m i < K)"

text \<open>Bin \<open>j\<close> of block \<open>k\<close> is copied by thread \<open>j mod B\<close> of the block, if there is one.\<close>

definition his_target :: "nat \<Rightarrow> nat \<Rightarrow> nat \<Rightarrow> global_memory \<Rightarrow> size_t \<Rightarrow> c_int option" where
  "his_target n K B m a =
     (let x = (a - 4 * n) div 4
      in if 4 * n \<le> a \<and> (a - 4 * n) mod 4 = 0 \<and> x < his_blocks n B * K \<and> x div K * B + x mod K mod B < n
         then Some (of_nat (his_count n B m (x div K) (x mod K))) else None)"

definition his_region :: "nat \<Rightarrow> nat \<Rightarrow> size_t set" where
  "his_region K k = bin K k ` {..<K}"

section \<open>The assertions of a lane\<close>

text \<open>At every program counter.\<close>

definition his_common :: "nat \<Rightarrow> nat \<Rightarrow> nat \<Rightarrow> global_memory \<Rightarrow> thread \<Rightarrow> view \<Rightarrow> bool" where
  "his_common n K B m t M \<longleftrightarrow>
     his_input n K B m \<and> full_file t \<and> placed B t \<and> t_global_id t < n \<and>
     (let k = t_block_id t; l = t_local_id t
      in read_reg t 0 = Inr (of_nat (4 * t_global_id t)) \<and> read_reg t 1 = Inr (of_nat (bin K k 0)) \<and>
         read_reg t 2 = Inr (of_nat (his_out n K k 0)) \<and> read_reg t 4 = Inr 1 \<and> read_reg t 5 = Inr (of_nat l) \<and>
         (\<forall>i < 8. read_reg t (20 + of_nat i) = Inr (if l + i * B < K then 1 else 0)) \<and>
         (\<forall>i < n. M (4 * i) = Inr (word_of m (4 * i))) \<and>
         (\<forall>j < K. (\<exists>v. M (bin K k j) = Inr v) \<and> (\<exists>v. M (his_out n K k j) = Inr v)))"

text \<open>The registers with constants.\<close>

definition his_const :: "his_place \<Rightarrow> thread \<Rightarrow> bool" where
  "his_const p t \<longleftrightarrow> (p \<noteq> At_head 0 \<longrightarrow> read_reg t 19 = Inr 0) \<and> ((\<forall>r. p \<noteq> At_head r) \<longrightarrow> read_reg t 12 = Inr 4)"

text \<open>Iteration \<open>i\<close> of the zeroing or the output, which handles bin \<open>x\<close> up to instruction \<open>e\<close>.\<close>

definition his_iter :: "nat \<Rightarrow> nat \<Rightarrow> nat \<Rightarrow> nat \<Rightarrow> nat \<Rightarrow> thread \<Rightarrow> bool" where
  "his_iter K B e i r t \<longleftrightarrow>
     (let x = t_local_id t + i * B
      in (r = 2 \<longrightarrow> (t_predicate t \<longleftrightarrow> \<not> x < K)) \<and> (3 \<le> r \<and> r \<le> e \<longrightarrow> x < K) \<and>
         (4 \<le> r \<and> r \<le> e \<longrightarrow> read_reg t 15 = Inr (of_nat (i * B))) \<and>
         (5 \<le> r \<and> r \<le> e \<longrightarrow> read_reg t 16 = Inr (of_nat x)) \<and>
         (6 \<le> r \<and> r \<le> e \<longrightarrow> read_reg t 13 = Inr (of_nat (4 * x))) \<and>
         (7 \<le> r \<and> r \<le> e \<longrightarrow> read_reg t 14 = Inr (of_nat (bin K (t_block_id t) x))))"

text \<open>The bins as they are in the first and in the last part, and what a lane has copied.\<close>

definition his_bins :: "nat \<Rightarrow> nat \<Rightarrow> (nat \<Rightarrow> nat) \<Rightarrow> view \<Rightarrow> bool" where
  "his_bins K k f M \<longleftrightarrow> (\<forall>j < K. M (bin K k j) = Inr (of_nat (f j)))"

definition his_done :: "nat \<Rightarrow> nat \<Rightarrow> nat \<Rightarrow> global_memory \<Rightarrow> nat \<Rightarrow> nat \<Rightarrow> thread \<Rightarrow> view \<Rightarrow> bool" where
  "his_done n K B m i r t M \<longleftrightarrow>
     (\<forall>i'. i' < i \<or> i' = i \<and> 10 \<le> r \<longrightarrow> t_local_id t + i' * B < K \<longrightarrow>
        M (his_out n K (t_block_id t) (t_local_id t + i' * B)) = Inr (of_nat (his_count n B m (t_block_id t) (t_local_id t + i' * B))))"

fun his_state :: "nat \<Rightarrow> nat \<Rightarrow> nat \<Rightarrow> global_memory \<Rightarrow> his_place \<Rightarrow> thread \<Rightarrow> view \<Rightarrow> bool" where
  "his_state n K B m (At_head r) t M \<longleftrightarrow> his_bins K (t_block_id t) (\<lambda>_. 0) M"
| "his_state n K B m (At_zero i r) t M \<longleftrightarrow> his_bins K (t_block_id t) (\<lambda>_. 0) M \<and> his_iter K B 7 i r t"
| "his_state n K B m At_zeroed t M \<longleftrightarrow> his_bins K (t_block_id t) (\<lambda>_. 0) M"
| "his_state n K B m (At_count r) t M \<longleftrightarrow>
     (let e = his_elem m (t_global_id t)
      in (r = 2 \<longrightarrow> \<not> t_predicate t) \<and> (4 \<le> r \<and> r \<le> 8 \<longrightarrow> read_reg t 10 = Inr (of_nat e)) \<and>
         (6 \<le> r \<and> r \<le> 8 \<longrightarrow> read_reg t 13 = Inr (of_nat (4 * e))) \<and>
         (7 \<le> r \<and> r \<le> 8 \<longrightarrow> read_reg t 14 = Inr (of_nat (bin K (t_block_id t) e))) \<and>
         (r = 8 \<longrightarrow> read_reg t 16 = Inr 1))"
| "his_state n K B m At_counted t M \<longleftrightarrow> True"
| "his_state n K B m (At_output i r) t M \<longleftrightarrow>
     his_bins K (t_block_id t) (his_count n B m (t_block_id t)) M \<and> his_iter K B 9 i r t \<and>
     (let x = t_local_id t + i * B
      in (8 \<le> r \<and> r \<le> 9 \<longrightarrow> read_reg t 17 = Inr (of_nat (his_count n B m (t_block_id t) x))) \<and>
         (r = 9 \<longrightarrow> read_reg t 18 = Inr (of_nat (his_out n K (t_block_id t) x)))) \<and>
     his_done n K B m i r t M"

definition his_lane :: "nat \<Rightarrow> nat \<Rightarrow> nat \<Rightarrow> global_memory \<Rightarrow> nat \<Rightarrow> thread \<Rightarrow> view \<Rightarrow> bool" where
  "his_lane n K B m q t M \<longleftrightarrow> his_common n K B m t M \<and> his_const (his_place (his_iters K B) q) t \<and>
     his_state n K B m (his_place (his_iters K B) q) t M"

text \<open>The bins count the elements of the threads that have passed the atomic addition.\<close>

definition his_joint :: "nat \<Rightarrow> nat \<Rightarrow> nat \<Rightarrow> global_memory \<Rightarrow> nat \<Rightarrow> (nat \<Rightarrow> nat) \<Rightarrow> view \<Rightarrow> bool" where
  "his_joint n K B m k L M \<longleftrightarrow>
     his_bins K k (\<lambda>j. card {i \<in> set (block_roster n B k). his_at (his_iters K B) (At_count 8) < L i \<and> his_elem m i = j}) M"

section \<open>Bounds\<close>

lemma bin_eq [simp]: "bin K k i = bin K k j \<longleftrightarrow> i = j"
  by (simp add: bin_def)

lemma his_out_eq [simp]: "his_out n K k i = his_out n K k j \<longleftrightarrow> i = j"
  by (simp add: his_out_def)

lemma bin_shared: "SHARED_MEM_BASE \<le> bin K k j"
  by (simp add: bin_def)

lemma his_common_bounds:
  assumes "his_common n K B m t M"
  shows "t_block_id t < his_blocks n B" and "4 * t_global_id t < SHARED_MEM_BASE"
    and "\<And>j. j < K \<Longrightarrow> his_out n K (t_block_id t) j < SHARED_MEM_BASE" and "\<And>j. j \<le> K \<Longrightarrow> bin K (t_block_id t) j < 2 ^ 30"
    and "0 < B" and "t_local_id t < B" and "4 * n \<le> SHARED_MEM_BASE" and "t_global_id t = t_block_id t * B + t_local_id t"
    and "his_elem m (t_global_id t) < K" and "word_of m (4 * t_global_id t) = of_nat (his_elem m (t_global_id t))"
    and "K < 2 ^ 29" and "\<And>j. j \<le> K \<Longrightarrow> his_out n K (t_block_id t) j < 2 ^ 30" and "his_iters K B \<le> 8"
proof -
  let ?k = "t_block_id t" and ?g = "t_global_id t"
  have c: "his_input n K B m" "?g = ?k * B + t_local_id t" "t_local_id t < B" "?g < n"
    using assms by (simp_all add: his_common_def placed_def)
  then show B: "0 < B" "t_local_id t < B" "?g = ?k * B + t_local_id t" by simp_all
  have "(?k + 1) * B \<le> n + B - 1" using c by simp
  then show k: "?k < his_blocks n B" unfolding his_blocks_def using B(1) by (simp add: Suc_le_eq[symmetric] less_eq_div_iff_mult_less_eq)
  have out: "his_out n K (his_blocks n B) 0 \<le> SHARED_MEM_BASE" using c(1) by (simp add: his_input_def)
  have "(?k + 1) * K \<le> his_blocks n B * K" using k by (intro mult_le_mono1) simp
  then have kK: "4 * n + 4 * (?k * K + K) \<le> SHARED_MEM_BASE" using out by (simp add: his_out_def)
  then show "his_out n K ?k j < SHARED_MEM_BASE" if "j < K" for j using that by (simp add: his_out_def)
  show "4 * n \<le> SHARED_MEM_BASE" using kK by simp
  then show "4 * ?g < SHARED_MEM_BASE" using c(4) by simp
  show "bin K ?k j < 2 ^ 30" "his_out n K ?k j < 2 ^ 30" if "j \<le> K" for j
    using that kK by (simp_all add: bin_def his_out_def SHARED_MEM_BASE_def)
  show "K < 2 ^ 29" using kK by (simp add: SHARED_MEM_BASE_def)
  show "his_elem m ?g < K" "word_of m (4 * ?g) = of_nat (his_elem m ?g)" using c(1,4) by (auto simp: his_input_def his_elem_def)
  show "his_iters K B \<le> 8" by (simp add: his_iters_def)
qed

lemma his_lane_pc: "his_lane n K B m q t M \<Longrightarrow> his_lane n K B m q (set_pc t x) M"
proof -
  have e: "t_registers (set_pc t x) = t_registers t" "t_block_id (set_pc t x) = t_block_id t" "t_local_id (set_pc t x) = t_local_id t"
    "t_global_id (set_pc t x) = t_global_id t" "t_predicate (set_pc t x) = t_predicate t"
    by (simp_all add: set_pc_def)
  have s: "his_state n K B m p (set_pc t x) M = his_state n K B m p t M" for p
    by (cases p) (simp_all add: his_iter_def his_done_def read_reg_def e)
  show "his_lane n K B m q t M \<Longrightarrow> his_lane n K B m q (set_pc t x) M"
    unfolding his_lane_def s his_common_def his_const_def full_file_def placed_def read_reg_def e .
qed

section \<open>Changes of the address space\<close>

lemma his_frame:
  assumes c: "his_common n K B m t M" and s: "his_state n K B m p t M" and inputs: "\<forall>i < n. M' (4 * i) = M (4 * i)"
    and bins: "\<forall>j < K. M' (bin K (t_block_id t) j) = M (bin K (t_block_id t) j) \<or> his_part p = 1 \<and> (\<exists>v. M' (bin K (t_block_id t) j) = Inr v)"
    and outs: "\<forall>j < K. M' (his_out n K (t_block_id t) j) = M (his_out n K (t_block_id t) j) \<or>
      M' (his_out n K (t_block_id t) j) = Inr (of_nat (his_count n B m (t_block_id t) j))"
  shows "his_common n K B m t M' \<and> his_state n K B m p t M'"
proof
  show "his_common n K B m t M'" using c inputs bins outs unfolding his_common_def Let_def by metis
  have b: "his_bins K (t_block_id t) f M \<Longrightarrow> his_part p \<noteq> 1 \<Longrightarrow> his_bins K (t_block_id t) f M'" for f
    using bins by (simp add: his_bins_def)
  have d: "his_done n K B m i r t M \<Longrightarrow> his_done n K B m i r t M'" for i r
    using outs unfolding his_done_def by metis
  show "his_state n K B m p t M'" using s b d by (cases p) auto
qed

lemma his_target_out:
  assumes "k < his_blocks n B" and "j < K" and "k * B + j mod B < n"
  shows "his_target n K B m (his_out n K k j) = Some (of_nat (his_count n B m k j))"
proof -
  have "(k * K + j) div K = k" "(k * K + j) mod K = j" using assms(2) by simp_all
  moreover have "(k + 1) * K \<le> his_blocks n B * K" using assms(1) by (intro mult_le_mono1) simp
  ultimately show ?thesis using assms by (simp add: his_target_def his_out_def Let_def)
qed

lemma his_change_out:
  assumes c: "his_common n K B m t M" and ch: "change (his_target n K B m) mine M M'" and j: "j < K"
  shows "M' (his_out n K (t_block_id t) j) = M (his_out n K (t_block_id t) j) \<or>
    M' (his_out n K (t_block_id t) j) = Inr (of_nat (his_count n B m (t_block_id t) j))"
proof (cases "t_block_id t * B + j mod B < n")
  case True
  then show ?thesis using ch his_target_out[OF his_common_bounds(1)[OF c] j True, of m] his_common_bounds(3)[OF c j]
    unfolding change_def by (metis option.inject)
next
  case False
  have "(t_block_id t * K + j) div K = t_block_id t" "(t_block_id t * K + j) mod K = j" using j by simp_all
  then have "his_target n K B m (his_out n K (t_block_id t) j) = None" using False by (simp add: his_target_def his_out_def Let_def)
  then show ?thesis using ch his_common_bounds(3)[OF c j] unfolding change_def by (metis option.distinct(1))
qed

lemma his_lane_apart:
  assumes l: "his_lane n K B m q t M" and ch: "change (his_target n K B m) (\<lambda>a. a \<notin> his_region K (t_block_id t)) M M'"
  shows "his_lane n K B m q t M'"
proof -
  have c: "his_common n K B m t M" using l by (simp add: his_lane_def)
  note bd = his_common_bounds[OF c]
  have "M' (4 * i) = M (4 * i)" if "i < n" for i
  proof -
    have "his_target n K B m (4 * i) = None" "4 * i < SHARED_MEM_BASE" using bd(7) that by (simp_all add: his_target_def Let_def)
    then show ?thesis using ch unfolding change_def by (metis option.distinct(1))
  qed
  moreover have "M' (bin K (t_block_id t) j) = M (bin K (t_block_id t) j)" if "j < K" for j
  proof -
    have "bin K (t_block_id t) j \<in> his_region K (t_block_id t)" using that by (simp add: his_region_def)
    then show ?thesis using ch bin_shared unfolding change_def by (metis not_less)
  qed
  moreover note his_change_out[OF c ch]
  ultimately show ?thesis using his_frame[OF c, of "his_place (his_iters K B) q" M'] l by (simp add: his_lane_def)
qed

lemma his_joint_apart:
  assumes "his_joint n K B m k L M" and ch: "change T (\<lambda>a. a \<notin> his_region K k) M M'"
  shows "his_joint n K B m k L M'"
proof -
  have "M' (bin K k j) = M (bin K k j)" if "j < K" for j
  proof -
    have "bin K k j \<in> his_region K k" using that by (simp add: his_region_def)
    then show ?thesis using ch bin_shared unfolding change_def by (metis not_less)
  qed
  then show ?thesis using assms(1) by (simp add: his_joint_def his_bins_def)
qed

text \<open>A step that does not pass the atomic addition does not count.\<close>

lemma his_joint_cong:
  assumes "his_joint n K B m k L M" and "\<And>i. i \<in> set (block_roster n B k) \<Longrightarrow>
      his_at (his_iters K B) (At_count 8) < L' i \<longleftrightarrow> his_at (his_iters K B) (At_count 8) < L i"
  shows "his_joint n K B m k L' M"
  using assms by (simp add: his_joint_def cong: conj_cong)

end
