(* ===== verification/Histogram_Steps.thy ===== *)
theory Histogram_Steps
  imports Histogram_Lanes
begin

text \<open>
  Every instruction of the histogram takes a lane from the assertion of one place to the assertion
  of the next, and the atomic addition counts its element.
\<close>

section \<open>Registers\<close>

lemma his_wrote:
  assumes c: "his_common n K B m t M" and w: "wrote r v t t'" and r: "int_to_size r \<in> {10, 12, 13, 14, 15, 16, 17, 18, 19}"
  shows "his_common n K B m t' M" and "t_block_id t' = t_block_id t" and "t_local_id t' = t_local_id t" and "t_global_id t' = t_global_id t"
    and "read_reg t' r' = (if int_to_size r' = int_to_size r then Inr v else read_reg t r')"
proof -
  show e: "t_block_id t' = t_block_id t" "t_local_id t' = t_local_id t" "t_global_id t' = t_global_id t"
    using w by (simp_all add: wrote_def same_identity_def)
  show rd: "read_reg t' r' = (if int_to_size r' = int_to_size r then Inr v else read_reg t r')" for r'
    using w by (simp add: wrote_def)
  have keep: "read_reg t' r' = read_reg t r'" if "int_to_size r' \<in> {0, 1, 2, 4, 5} \<union> {20..<32}" for r'
    using rd r that by auto
  have "read_reg t' 0 = read_reg t 0" "read_reg t' 1 = read_reg t 1" "read_reg t' 2 = read_reg t 2" "read_reg t' 4 = read_reg t 4"
    "read_reg t' 5 = read_reg t 5"
    by (rule keep, simp)+
  moreover have "read_reg t' (20 + of_nat i) = read_reg t (20 + of_nat i)" if "i < 8" for i
    using that by (intro keep) (simp add: round_register)
  moreover have "full_file t'" "placed B t'" using w c by (simp_all add: wrote_def placed_def his_common_def e)
  ultimately show "his_common n K B m t' M" using c unfolding his_common_def Let_def e by metis
qed

lemma his_const_wrote:
  "his_const p t \<Longrightarrow> wrote r v t t' \<Longrightarrow> int_to_size r \<notin> {12, 19} \<Longrightarrow> \<forall>r. p \<noteq> At_head r \<Longrightarrow> his_const p' t'"
  by (simp add: his_const_def wrote_def)

lemma his_addresses:
  assumes c: "his_common n K B m t M"
  shows "read_reg t 0 = Inr (of_nat (4 * t_global_id t))" and "4 * t_global_id t < 2 ^ 31"
    and "read_reg t 1 = Inr (of_nat (bin K (t_block_id t) 0))" and "read_reg t 2 = Inr (of_nat (his_out n K (t_block_id t) 0))"
    and "M (4 * t_global_id t) = Inr (of_nat (his_elem m (t_global_id t)))" and "full_file t"
    and "read_reg t 4 = Inr 1" and "read_reg t 5 = Inr (of_nat (t_local_id t))"
    and "\<And>j. j < K \<Longrightarrow> \<exists>v. M (bin K (t_block_id t) j) = Inr v" and "\<And>j. j < K \<Longrightarrow> \<exists>v. M (his_out n K (t_block_id t) j) = Inr v"
    and "\<And>j. j \<le> K \<Longrightarrow> bin K (t_block_id t) j < 2 ^ 31" and "\<And>j. j \<le> K \<Longrightarrow> his_out n K (t_block_id t) j < 2 ^ 31"
    and "\<And>i. i < 8 \<Longrightarrow> read_reg t (20 + of_nat i) = Inr (if t_local_id t + i * B < K then 1 else 0)"
proof -
  note bd = his_common_bounds[OF c]
  show "4 * t_global_id t < 2 ^ 31" using bd(2) by (simp add: SHARED_MEM_BASE_def)
  show "bin K (t_block_id t) j < 2 ^ 31" "his_out n K (t_block_id t) j < 2 ^ 31" if "j \<le> K" for j
    using bd(4)[OF that] bd(12)[OF that] by simp_all
qed (use c his_common_bounds(10)[OF c] in \<open>simp_all add: his_common_def Let_def\<close>)

lemma his_predicate:
  assumes "his_common n K B m t M" and "his_const p t" and "\<forall>r. p \<noteq> At_head r"
  shows "his_common n K B m (set_predicate t x) M" and "his_const p' (set_predicate t x)" and "t_block_id (set_predicate t x) = t_block_id t"
    and "t_local_id (set_predicate t x) = t_local_id t" and "t_global_id (set_predicate t x) = t_global_id t"
    and "t_predicate (set_predicate t x) = x" and "read_reg (set_predicate t x) r = read_reg t r"
proof -
  have e: "t_registers (set_predicate t x) = t_registers t" "t_block_id (set_predicate t x) = t_block_id t"
    "t_local_id (set_predicate t x) = t_local_id t" "t_global_id (set_predicate t x) = t_global_id t" "t_predicate (set_predicate t x) = x"
    by (simp_all add: set_predicate_def)
  show "his_common n K B m (set_predicate t x) M" using assms(1) unfolding his_common_def full_file_def placed_def read_reg_def e .
  show "his_const p' (set_predicate t x)" using assms(2,3) by (simp add: his_const_def read_reg_def e)
qed (simp_all add: set_predicate_def read_reg_def)

section \<open>The steps\<close>

text \<open>A step leads to the assertion of the next place; only the atomic addition changes a bin.\<close>

definition his_goes :: "nat \<Rightarrow> nat \<Rightarrow> nat \<Rightarrow> global_memory \<Rightarrow> his_place \<Rightarrow> thread \<Rightarrow> view \<Rightarrow> bool" where
  "his_goes n K B m p t M \<longleftrightarrow> (\<exists>t' M'. lane_step (his_code B p) M t = Inr (t', M') \<and>
     his_common n K B m t' M' \<and> his_const (his_next (his_iters K B) p) t' \<and> his_state n K B m (his_next (his_iters K B) p) t' M' \<and>
     change (his_target n K B m) (\<lambda>a. a \<in> his_region K (t_block_id t)) M M' \<and> (\<forall>j < K. M' (bin K (t_block_id t) j) = M (bin K (t_block_id t) j)))"

lemma his_goes_registers:
  "lane_step (his_code B p) M t = Inr (t', M) \<Longrightarrow> his_common n K B m t' M \<Longrightarrow> his_const (his_next (his_iters K B) p) t' \<Longrightarrow>
   his_state n K B m (his_next (his_iters K B) p) t' M \<Longrightarrow> his_goes n K B m p t M"
  unfolding his_goes_def using change_refl by blast

lemma his_head_step:
  assumes c: "his_common n K B m t M" and k: "his_const (At_head r) t" and s: "his_state n K B m (At_head r) t M" and r: "r < 2"
  shows "his_goes n K B m (At_head r) t M"
proof -
  note ad = his_addresses[OF c]
  have "r = 0 \<or> r = Suc 0" using r by auto
  then show ?thesis
  proof
    assume r0: "r = 0"
    obtain t' where t': "lane_step (instr MOV 19 (-1) (-1) 0) M t = Inr (t', M)" "wrote 19 0 t t'"
      using step_mov[OF ad(6), of 19 "-1" 0 M] by auto
    note w = his_wrote[OF c t'(2)]
    show ?thesis unfolding r0
      by (rule his_goes_registers[of _ _ _ _ t']) (use t'(1) w s in \<open>simp_all add: his_nths his_const_def\<close>)
  next
    assume r1: "r = Suc 0"
    obtain t' where t': "lane_step (instr MOV 12 (-1) (-1) 4) M t = Inr (t', M)" "wrote 12 4 t t'"
      using step_mov[OF ad(6), of 12 "-1" 4 M] by auto
    note w = his_wrote[OF c t'(2)]
    show ?thesis unfolding r1
      by (rule his_goes_registers[of _ _ _ _ t']) (use t'(1) w s k r1 in \<open>simp_all add: his_nths his_const_def his_iter_def\<close>)
  qed
qed

text \<open>The instructions that iterations of the zeroing and of the output share.\<close>

lemma his_iter_step:
  assumes c: "his_common n K B m t M" and k: "his_const p t" "\<forall>r. p \<noteq> At_head r" and i: "his_iter K B e i r t" "i < 8" "7 \<le> e"
    and r: "r \<in> {1, 3, 4, 5, 6}"
  shows "\<exists>t'. lane_step (his_zero B i ! r) M t = Inr (t', M) \<and> his_common n K B m t' M \<and> his_const p' t' \<and> his_iter K B e i (Suc r) t' \<and>
    t_block_id t' = t_block_id t \<and> t_local_id t' = t_local_id t"
proof -
  let ?k = "t_block_id t" and ?x = "t_local_id t + i * B"
  note ad = his_addresses[OF c] and bd = his_common_bounds[OF c]
  have r19: "read_reg t 19 = Inr 0" "read_reg t 12 = Inr 4" using k by (auto simp: his_const_def)
  have wr: ?thesis if "lane_step (his_zero B i ! r) M t = Inr (t', M)" "wrote d v t t'" "int_to_size d \<in> {13, 14, 15, 16}"
    "his_iter K B e i (Suc r) t'" for t' d v
    using his_wrote(1-3)[OF c that(2)] his_const_wrote[OF k(1) that(2) _ k(2)] that by auto
  consider "r = 1" | "r = 3" | "r = 4" | "r = 5" | "r = 6" using r by blast
  then show ?thesis
  proof cases
    case 1
    let ?t = "set_predicate t ((if ?x < K then 1 else 0) = (0 :: c_int))"
    have "lane_step (his_zero B i ! r) M t = Inr (?t, M)" using step_cmp[OF ad(13)[OF i(2)] r19(1)] by (simp add: 1 his_nths)
    moreover note his_predicate[OF c k]
    moreover have "his_iter K B e i (Suc r) ?t" using 1 by (simp add: his_iter_def his_predicate[OF c k])
    ultimately show ?thesis by blast
  next
    case 2
    have x: "?x < K" using i 2 by (simp add: his_iter_def Let_def)
    obtain t' where t': "lane_step (instr MOV 15 (-1) (-1) (of_nat (i * B))) M t = Inr (t', M)" "wrote 15 (of_nat (i * B)) t t'"
      using step_mov[OF ad(6), of 15 "-1" "of_nat (i * B)" M] by auto
    show ?thesis by (rule wr[OF _ t'(2)]) (use t'(1) his_wrote[OF c t'(2)] x 2 in \<open>simp_all add: his_nths his_iter_def\<close>)
  next
    case 3
    have x: "?x < K" and r15: "read_reg t 15 = Inr (of_nat (i * B))" using i 3 by (simp_all add: his_iter_def Let_def)
    have "c_add (of_nat (t_local_id t)) (of_nat (i * B)) = Inr (of_nat ?x)"
      using add_nat[of "t_local_id t" "i * B"] x bd(11) by simp
    from step_add[OF ad(6) _ ad(8) r15 this, of 16] obtain t' where
      t': "lane_step (instr ADD 16 5 15 0) M t = Inr (t', M)" "wrote 16 (of_nat ?x) t t'" by auto
    show ?thesis by (rule wr[OF _ t'(2)])
      (use t'(1) his_wrote[OF c t'(2)] x r15 3 in \<open>simp_all only: his_nths his_iter_def Let_def, simp_all\<close>)
  next
    case 4
    have x: "?x < K" and rd: "read_reg t 15 = Inr (of_nat (i * B))" "read_reg t 16 = Inr (of_nat ?x)" using i 4 by (simp_all add: his_iter_def Let_def)
    have "c_mul (of_nat ?x) (of_nat 4) = Inr (of_nat (?x * 4))" using x bd(11) by (intro mul_nat) simp_all
    then have "c_mul (of_nat ?x) 4 = Inr (of_nat (4 * ?x))" by (simp add: mult.commute)
    from step_mul[OF ad(6) _ rd(2) r19(2) this, of 13] obtain t' where
      t': "lane_step (instr MUL 13 16 12 0) M t = Inr (t', M)" "wrote 13 (of_nat (4 * ?x)) t t'" by auto
    show ?thesis by (rule wr[OF _ t'(2)])
      (use t'(1) his_wrote[OF c t'(2)] x rd 4 in \<open>simp_all only: his_nths his_iter_def Let_def, simp_all\<close>)
  next
    case 5
    have x: "?x < K" and rd: "read_reg t 15 = Inr (of_nat (i * B))" "read_reg t 16 = Inr (of_nat ?x)" "read_reg t 13 = Inr (of_nat (4 * ?x))"
      using i 5 by (simp_all add: his_iter_def Let_def)
    have e: "bin K ?k 0 + 4 * ?x = bin K ?k ?x" by (simp add: bin_def)
    have "c_add (of_nat (bin K ?k 0)) (of_nat (4 * ?x)) = Inr (of_nat (bin K ?k ?x))"
      using add_nat[of "bin K ?k 0" "4 * ?x"] ad(11)[of ?x] x unfolding e by simp
    from step_add[OF ad(6) _ ad(3) rd(3) this, of 14] obtain t' where
      t': "lane_step (instr ADD 14 1 13 0) M t = Inr (t', M)" "wrote 14 (of_nat (bin K ?k ?x)) t t'" by auto
    show ?thesis by (rule wr[OF _ t'(2)])
      (use t'(1) his_wrote[OF c t'(2)] x rd 5 in \<open>simp_all only: his_nths his_iter_def Let_def, simp_all\<close>)
  qed
qed

lemma his_zero_step:
  assumes c: "his_common n K B m t M" and k: "his_const (At_zero i r) t" and s: "his_state n K B m (At_zero i r) t M"
    and i: "i < his_iters K B" and r: "r \<in> {1, 3, 4, 5, 6, 7}"
  shows "his_goes n K B m (At_zero i r) t M"
proof -
  note ad = his_addresses[OF c]
  have it: "his_iter K B 7 i r t" and b: "his_bins K (t_block_id t) (\<lambda>_. 0) M" using s by simp_all
  have i8: "i < 8" using i by (simp add: his_iters_def)
  show ?thesis
  proof (cases "r = 7")
    case True
    let ?x = "t_local_id t + i * B"
    have x: "?x < K" and r14: "read_reg t 14 = Inr (of_nat (bin K (t_block_id t) ?x))" using it True by (simp_all add: his_iter_def Let_def)
    have zero: "M (bin K (t_block_id t) ?x) = Inr 0" using b x by (simp add: his_bins_def)
    have r19: "read_reg t 19 = Inr 0" using k by (simp add: his_const_def)
    from step_store[where M = M, OF r14 _ ad(11) r19, of "-1"] x zero
    have "lane_step (instr STORE (-1) 19 14 0) M t = Inr (t, M(bin K (t_block_id t) ?x := Inr 0))" by simp
    also have "M(bin K (t_block_id t) ?x := Inr 0) = M" using zero by (intro fun_upd_idem)
    finally have st: "lane_step (instr STORE (-1) 19 14 0) M t = Inr (t, M)" .
    show ?thesis by (rule his_goes_registers[of _ _ _ _ t]) (use st c k b True in \<open>simp_all add: his_nths his_const_def his_iter_def\<close>)
  next
    case False
    then obtain t' where t': "lane_step (his_zero B i ! r) M t = Inr (t', M)" "his_common n K B m t' M"
      "his_const (At_zero i (Suc r)) t'" "his_iter K B 7 i (Suc r) t'" "t_block_id t' = t_block_id t"
      using his_iter_step[OF c k _ it i8, of "At_zero i (Suc r)"] r by auto
    have "r < 8" using r by auto
    then show ?thesis using t' b by (intro his_goes_registers[of _ _ _ _ t']) simp_all
  qed
qed

lemma his_output_step:
  assumes c: "his_common n K B m t M" and k: "his_const (At_output i r) t" and s: "his_state n K B m (At_output i r) t M"
    and i: "i < his_iters K B" and r: "r \<in> {1, 3, 4, 5, 6, 7, 8, 9}"
  shows "his_goes n K B m (At_output i r) t M"
proof -
  let ?k = "t_block_id t" and ?x = "t_local_id t + i * B"
  let ?v = "of_nat (his_count n B m (t_block_id t) (t_local_id t + i * B)) :: c_int"
  note ad = his_addresses[OF c] and bd = his_common_bounds[OF c]
  have it: "his_iter K B 9 i r t" and b: "his_bins K ?k (his_count n B m ?k) M" and d: "his_done n K B m i r t M"
    and loc: "8 \<le> r \<Longrightarrow> r \<le> 9 \<Longrightarrow> read_reg t 17 = Inr ?v" "r = 9 \<Longrightarrow> read_reg t 18 = Inr (of_nat (his_out n K ?k ?x))"
    using s by (simp_all add: Let_def)
  have i8: "i < 8" using i by (simp add: his_iters_def)
  have x: "?x < K" if "3 \<le> r" "r \<le> 9" using it that by (simp add: his_iter_def Let_def)
  have rd: "read_reg t 15 = Inr (of_nat (i * B))" "read_reg t 16 = Inr (of_nat ?x)" "read_reg t 13 = Inr (of_nat (4 * ?x))"
    "read_reg t 14 = Inr (of_nat (bin K ?k ?x))" if "7 \<le> r" "r \<le> 9"
    using it that by (simp_all add: his_iter_def Let_def)
  have kept: "his_done n K B m i (Suc r) t' M" if "r < 9" "t_block_id t' = ?k" "t_local_id t' = t_local_id t" for t'
    using d that by (simp add: his_done_def)
  consider "r \<in> {1, 3, 4, 5, 6}" | "r = 7" | "r = 8" | "r = 9" using r by blast
  then show ?thesis
  proof cases
    case 1
    then obtain t' where t': "lane_step (his_zero B i ! r) M t = Inr (t', M)" "his_common n K B m t' M"
      "his_const (At_output i (Suc r)) t'" "his_iter K B 9 i (Suc r) t'" "t_block_id t' = ?k" "t_local_id t' = t_local_id t"
      using his_iter_step[OF c k _ it i8, of "At_output i (Suc r)"] by auto
    have "his_zero B i ! r = his_output B i ! r" "r < 7" using 1 by (auto simp: his_nths)
    then show ?thesis using t' b kept[of t'] by (intro his_goes_registers[of _ _ _ _ t']) simp_all
  next
    case 2
    have "M (bin K ?k ?x) = Inr ?v" using b x 2 by (simp add: his_bins_def)
    from step_load[where M = M, OF ad(6) _ rd(4) _ ad(11) this, of 17] x 2 obtain t' where
      t': "lane_step (instr LOAD 17 14 (-1) 0) M t = Inr (t', M)" "wrote 17 ?v t t'" by auto
    note w = his_wrote[OF c t'(2)]
    have "his_iter K B 9 i (Suc r) t'" using rd x 2 w(2-5) unfolding his_iter_def Let_def by simp
    moreover have "his_const (At_output i (Suc r)) t'" by (rule his_const_wrote[OF k t'(2)]) simp_all
    moreover have "lane_step (his_code B (At_output i r)) M t = Inr (t', M)" using t'(1) by (simp add: 2 his_nths)
    ultimately show ?thesis using w b kept[of t'] 2 by (intro his_goes_registers[of _ _ _ _ t']) (simp_all add: Let_def)
  next
    case 3
    have e: "his_out n K ?k 0 + 4 * ?x = his_out n K ?k ?x" by (simp add: his_out_def)
    have "c_add (of_nat (his_out n K ?k 0)) (of_nat (4 * ?x)) = Inr (of_nat (his_out n K ?k ?x))"
      using add_nat[of "his_out n K ?k 0" "4 * ?x"] ad(12)[of ?x] x 3 unfolding e by simp
    from step_add[OF ad(6) _ ad(4) rd(3) this, of 18] 3 obtain t' where
      t': "lane_step (instr ADD 18 2 13 0) M t = Inr (t', M)" "wrote 18 (of_nat (his_out n K ?k ?x)) t t'" by auto
    note w = his_wrote[OF c t'(2)]
    have "his_iter K B 9 i (Suc r) t'" using rd x 3 w(2-5) unfolding his_iter_def Let_def by simp
    moreover have "his_const (At_output i (Suc r)) t'" by (rule his_const_wrote[OF k t'(2)]) simp_all
    moreover have "lane_step (his_code B (At_output i r)) M t = Inr (t', M)" using t'(1) by (simp add: 3 his_nths)
    ultimately show ?thesis using w b kept[of t'] loc(1) 3 by (intro his_goes_registers[of _ _ _ _ t']) (simp_all add: Let_def)
  next
    case 4
    let ?a = "his_out n K ?k ?x"
    let ?M = "M(?a := Inr ?v)"
    have x': "?x < K" using x 4 by simp
    have st: "lane_step (his_code B (At_output i r)) M t = Inr (t, ?M)"
      using step_store[where M = M, OF loc(2)[OF 4] _ ad(12) loc(1) ad(10)[OF x'], of "-1"] x' by (simp add: 4 his_nths)
    have ne: "bin K ?k j \<noteq> ?a" "i' < n \<Longrightarrow> 4 * i' \<noteq> ?a" for i' j
      using bin_shared[of K ?k j] bd(3)[OF x'] by (auto simp: his_out_def)
    have fr: "his_common n K B m t ?M \<and> his_state n K B m (At_output i r) t ?M"
      by (rule his_frame[OF c s]) (use ne in auto)
    then have "his_bins K ?k (his_count n B m ?k) ?M" "his_done n K B m i r t ?M" by simp_all
    moreover from this(2) have "his_done n K B m i 10 t ?M" by (auto simp: his_done_def 4)
    moreover have "his_iter K B 9 i 10 t" by (simp add: his_iter_def)
    moreover have "his_const (At_output i 10) t" using k by (simp add: his_const_def)
    moreover have "?x mod B = t_local_id t" using bd(6) by simp
    then have "his_target n K B m ?a = Some ?v"
      using his_target_out[OF bd(1) x', of m] bd(8) c by (simp add: his_common_def)
    then have "change (his_target n K B m) (\<lambda>a. a \<in> his_region K ?k) M ?M" using bd(3)[OF x'] by (simp add: change_def)
    ultimately show ?thesis unfolding his_goes_def using st fr ne(1) 4 by (intro exI[of _ t] exI[of _ ?M]) simp
  qed
qed

end
