(* ===== verification/Histogram_Blocks.thy ===== *)
theory Histogram_Blocks
  imports Histogram_Steps
begin

text \<open>
  The counting part of the histogram, and the lanes of a block together: a lane does not disturb
  its peers between two barriers, and behind the second barrier the bins hold the counts of the
  block. So the histogram is an instance of \<open>block_kernel\<close>.
\<close>

section \<open>Counting\<close>

lemma his_count_step:
  assumes c: "his_common n K B m t M" and k: "his_const (At_count r) t" and s: "his_state n K B m (At_count r) t M"
    and r: "r \<in> {1, 3, 4, 5, 6, 7}"
  shows "his_goes n K B m (At_count r) t M"
proof -
  let ?k = "t_block_id t" and ?e = "his_elem m (t_global_id t)"
  note ad = his_addresses[OF c] and bd = his_common_bounds[OF c]
  have r12: "read_reg t 19 = Inr 0" "read_reg t 12 = Inr 4" using k by (simp_all add: his_const_def)
  have rd: "4 \<le> r \<Longrightarrow> r \<le> 8 \<Longrightarrow> read_reg t 10 = Inr (of_nat ?e)" "6 \<le> r \<Longrightarrow> r \<le> 8 \<Longrightarrow> read_reg t 13 = Inr (of_nat (4 * ?e))"
    "7 \<le> r \<Longrightarrow> r \<le> 8 \<Longrightarrow> read_reg t 14 = Inr (of_nat (bin K ?k ?e))"
    using s by (simp_all add: Let_def)
  have wr: ?thesis if "lane_step (his_code B (At_count r)) M t = Inr (t', M)" "wrote d v t t'" "int_to_size d \<in> {10, 13, 14, 16}"
    "his_state n K B m (At_count (Suc r)) t' M" for t' d v
  proof (rule his_goes_registers[OF that(1)])
    show "his_common n K B m t' M" by (rule his_wrote(1)[OF c that(2)]) (use that(3) in auto)
    show "his_const (his_next (his_iters K B) (At_count r)) t'" by (rule his_const_wrote[OF k that(2)]) (use that(3) in auto)
    show "his_state n K B m (his_next (his_iters K B) (At_count r)) t' M" using that(4) r by auto
  qed
  consider "r = 1" | "r = 3" | "r = 4" | "r = 5" | "r = 6" | "r = 7" using r by blast
  then show ?thesis
  proof cases
    case 1
    have "lane_step (his_code B (At_count r)) M t = Inr (set_predicate t False, M)"
      using step_cmp[OF ad(7) r12(1)] by (simp add: 1 his_nths)
    from this his_predicate(1,2)[OF c k] show ?thesis
      by (rule his_goes_registers) (simp_all add: 1 his_predicate[OF c k])
  next
    case 2
    from step_load[where M = M, OF ad(6) _ ad(1) _ ad(2) ad(5), of 10] obtain t' where
      t': "lane_step (instr LOAD 10 0 (-1) 0) M t = Inr (t', M)" "wrote 10 (of_nat ?e) t t'" by auto
    show ?thesis by (rule wr[OF _ t'(2)]) (use t'(1) his_wrote[OF c t'(2)] 2 in \<open>simp_all add: his_nths\<close>)
  next
    case 3
    obtain t' where t': "lane_step (instr MOV 12 (-1) (-1) 4) M t = Inr (t', M)" "wrote 12 4 t t'"
      using step_mov[OF ad(6), of 12 "-1" 4 M] by auto
    note w = his_wrote[OF c t'(2)]
    show ?thesis by (rule his_goes_registers[of _ _ _ _ t']) (use t'(1) w rd 3 r12 in \<open>simp_all add: his_nths his_const_def\<close>)
  next
    case 4
    have "c_mul (of_nat ?e) (of_nat 4) = Inr (of_nat (?e * 4))" using bd(9,11) by (intro mul_nat) simp_all
    then have "c_mul (of_nat ?e) 4 = Inr (of_nat (4 * ?e))" by (simp add: mult.commute)
    from step_mul[OF ad(6) _ rd(1) r12(2) this, of 13] 4 obtain t' where
      t': "lane_step (instr MUL 13 10 12 0) M t = Inr (t', M)" "wrote 13 (of_nat (4 * ?e)) t t'" by auto
    show ?thesis by (rule wr[OF _ t'(2)]) (use t'(1) his_wrote[OF c t'(2)] rd 4 in \<open>simp_all add: his_nths\<close>)
  next
    case 5
    have e: "bin K ?k 0 + 4 * ?e = bin K ?k ?e" by (simp add: bin_def)
    have "c_add (of_nat (bin K ?k 0)) (of_nat (4 * ?e)) = Inr (of_nat (bin K ?k ?e))"
      using add_nat[of "bin K ?k 0" "4 * ?e"] ad(11)[of ?e] bd(9) unfolding e by simp
    from step_add[OF ad(6) _ ad(3) rd(2) this, of 14] 5 obtain t' where
      t': "lane_step (instr ADD 14 1 13 0) M t = Inr (t', M)" "wrote 14 (of_nat (bin K ?k ?e)) t t'" by auto
    show ?thesis by (rule wr[OF _ t'(2)]) (use t'(1) his_wrote[OF c t'(2)] rd 5 in \<open>simp_all add: his_nths\<close>)
  next
    case 6
    obtain t' where t': "lane_step (instr MOV 16 (-1) (-1) 1) M t = Inr (t', M)" "wrote 16 1 t t'"
      using step_mov[OF ad(6), of 16 "-1" 1 M] by auto
    show ?thesis by (rule wr[OF _ t'(2)]) (use t'(1) his_wrote[OF c t'(2)] rd 6 in \<open>simp_all add: his_nths\<close>)
  qed
qed

text \<open>The addition moves a thread from those that are not counted to those that are.\<close>

lemma card_count:
  assumes "finite R" and "g \<in> R" and "L g \<le> (a :: nat)" and "a < q"
  shows "card {i \<in> R. a < (L(g := q)) i \<and> f i = j} = card {i \<in> R. a < L i \<and> f i = j} + (if f g = j then 1 else 0)"
proof -
  have "{i \<in> R. a < (L(g := q)) i \<and> f i = j} = (if f g = j then insert g else (\<lambda>x. x)) {i \<in> R. a < L i \<and> f i = j}"
    using assms by (auto split: if_splits)
  then show ?thesis using assms(1,3) by simp
qed

lemma roster_card: "card {i \<in> set (block_roster n B k). P i} \<le> n"
proof -
  have "{i \<in> set (block_roster n B k). P i} \<subseteq> {..<n}" by (auto simp: block_roster_def)
  then have "card {i \<in> set (block_roster n B k). P i} \<le> card {..<n}" by (intro card_mono) simp_all
  then show ?thesis by simp
qed

lemma his_own_roster:
  assumes "his_common n K B m t M"
  shows "t_global_id t \<in> set (block_roster n B (t_block_id t))"
proof -
  have "t_global_id t = t_block_id t * B + t_local_id t" "t_local_id t < B" "t_global_id t < n"
    using his_common_bounds(6,8)[OF assms] assms by (simp_all add: his_common_def)
  then show ?thesis by (simp add: block_roster_def)
qed

lemma his_atomic:
  assumes c: "his_common n K B m t M" and k: "his_const (At_count 8) t" and s: "his_state n K B m (At_count 8) t M"
    and j: "his_joint n K B m (t_block_id t) L M" and L: "L (t_global_id t) = his_at (his_iters K B) (At_count 8)"
  shows "\<exists>M'. lane_step (his_code B (At_count 8)) M t = Inr (t, M') \<and> his_common n K B m t M' \<and>
    his_const (At_count 9) t \<and> his_state n K B m (At_count 9) t M' \<and>
    his_joint n K B m (t_block_id t) (L(t_global_id t := his_at (his_iters K B) (At_count 8) + 1)) M' \<and>
    change (his_target n K B m) (\<lambda>a. a \<in> his_region K (t_block_id t)) M M'"
proof -
  let ?k = "t_block_id t" and ?e = "his_elem m (t_global_id t)" and ?g = "t_global_id t" and ?a = "his_at (his_iters K B) (At_count 8)"
  let ?R = "set (block_roster n B ?k)"
  define c0 where "c0 = card {i \<in> ?R. ?a < L i \<and> his_elem m i = ?e}"
  let ?M = "M(bin K ?k ?e := Inr (of_nat (c0 + 1)))"
  note ad = his_addresses[OF c] and bd = his_common_bounds[OF c]
  have e: "?e < K" by (rule bd(9))
  have rd: "read_reg t 14 = Inr (of_nat (bin K ?k ?e))" "read_reg t 16 = Inr 1" using s by (simp_all add: Let_def)
  have old: "M (bin K ?k ?e) = Inr (of_nat c0)" using j e by (simp add: his_joint_def his_bins_def c0_def)
  have "c0 \<le> n" unfolding c0_def by (rule roster_card)
  then have "c0 + 1 < 2 ^ 31" using bd(7) by (simp add: SHARED_MEM_BASE_def)
  then have "c_add (of_nat c0) (of_nat 1) = Inr (of_nat (c0 + 1))" by (rule add_nat)
  then have sum: "c_add (of_nat c0) 1 = Inr (of_nat (c0 + 1))" by simp
  have st: "lane_step (his_code B (At_count 8)) M t = Inr (t, ?M)"
    using step_atomic[where M = M, OF rd(1) _ ad(11)[OF less_imp_le[OF e]] rd(2) old sum, of "-1"] by (simp add: his_nths)
  have low: "?M a = M a" if "a < SHARED_MEM_BASE" for a using that bin_shared[of K ?k ?e] by auto
  have fr: "his_common n K B m t ?M \<and> his_state n K B m (At_count 8) t ?M"
    by (rule his_frame[OF c s]) (use low bd(3,7) ad(9) in auto)
  have "his_joint n K B m ?k (L(?g := ?a + 1)) ?M"
    unfolding his_joint_def his_bins_def
  proof (intro allI impI)
    fix i assume i: "i < K"
    have "card {x \<in> ?R. ?a < (L(?g := ?a + 1)) x \<and> his_elem m x = i} = card {x \<in> ?R. ?a < L x \<and> his_elem m x = i} + (if ?e = i then 1 else 0)"
      by (rule card_count) (use his_own_roster[OF c] L in simp_all)
    then show "?M (bin K ?k i) = Inr (of_nat (card {x \<in> ?R. ?a < (L(?g := ?a + 1)) x \<and> his_elem m x = i}))"
      using j i by (auto simp: his_joint_def his_bins_def c0_def)
  qed
  moreover have "his_const (At_count 9) t" "his_state n K B m (At_count 9) t ?M" using k by (simp_all add: his_const_def)
  moreover have "change (his_target n K B m) (\<lambda>a. a \<in> his_region K ?k) M ?M"
    using bin_shared[of K ?k ?e] e by (auto simp: change_def his_region_def)
  ultimately show ?thesis using st fr by blast
qed

section \<open>The laws of a lane\<close>

text \<open>What holds at a program counter, by its place.\<close>

lemma his_lane_at:
  "his_valid (his_iters K B) p \<Longrightarrow> his_lane n K B m (his_at (his_iters K B) p) t M \<longleftrightarrow>
     his_common n K B m t M \<and> his_const p t \<and> his_state n K B m p t M"
  by (simp add: his_lane_def his_place_at)

lemma his_lane_next:
  "his_valid (his_iters K B) p \<Longrightarrow> his_lane n K B m (his_at (his_iters K B) p + 1) t M \<longleftrightarrow>
     his_common n K B m t M \<and> his_const (his_next (his_iters K B) p) t \<and> his_state n K B m (his_next (his_iters K B) p) t M"
  using his_place_Suc[of "his_iters K B" p] by (simp add: his_lane_def)

lemma his_data_place:
  assumes c: "his_common n K B m t M" and k: "his_const p t" and s: "his_state n K B m p t M" and p: "his_valid (his_iters K B) p"
    and oc: "lanewise_opcode (his_opcode p)" and last: "\<And>i r. p = At_output i r \<Longrightarrow> i < his_iters K B" and ne: "p \<noteq> At_count 8"
  shows "his_goes n K B m p t M"
proof (cases p)
  case (At_head r)
  then show ?thesis using his_head_step c k s p by simp
next
  case (At_zero i r)
  then have "r < 9" using p by simp
  then have "r \<in> {1, 3, 4, 5, 6, 7}" using oc At_zero unfolding less_9 by (elim disjE) (simp_all add: lanewise_opcode_def)
  then show ?thesis using his_zero_step c k s p unfolding At_zero by simp
next
  case (At_count r)
  then have "r < 10" using p by simp
  then have "r \<in> {1, 3, 4, 5, 6, 7}" using oc ne At_count unfolding less_10 by (elim disjE) (simp_all add: lanewise_opcode_def)
  then show ?thesis using his_count_step c k s unfolding At_count by blast
next
  case (At_output i r)
  then have "r < 11" using p by simp
  then have "r \<in> {1, 3, 4, 5, 6, 7, 8, 9}" using oc At_output unfolding less_11 by (elim disjE) (simp_all add: lanewise_opcode_def)
  then show ?thesis using his_output_step c k s last unfolding At_output by simp
qed (use oc in \<open>simp_all add: lanewise_opcode_def\<close>)

lemma his_at_inj: "his_valid I p \<Longrightarrow> his_valid I p' \<Longrightarrow> his_at I p = his_at I p' \<Longrightarrow> p = p'"
  using his_place_at by metis

lemma his_data:
  assumes l: "his_lane n K B m q t M" and j: "his_joint n K B m (t_block_id t) L M" and L: "L (t_global_id t) = q"
    and q: "q < length (his_program K B)" and oc: "lanewise_opcode (inst_opcode (his_program K B ! q))"
  shows "\<exists>t' M'. lane_step (his_program K B ! q) M t = Inr (t', M') \<and> his_lane n K B m (q + 1) t' M' \<and>
    his_joint n K B m (t_block_id t) (L(t_global_id t := q + 1)) M' \<and> change (his_target n K B m) (\<lambda>a. a \<in> his_region K (t_block_id t)) M M'"
proof -
  let ?I = "his_iters K B"
  obtain p where p: "his_valid ?I p" "q = his_at ?I p" "his_program K B ! q = his_code B p" "inst_opcode (his_program K B ! q) = his_opcode p"
    "\<And>i r. p = At_output i r \<Longrightarrow> i < ?I" using his_here[OF q] by metis
  have h: "his_common n K B m t M" "his_const p t" "his_state n K B m p t M" using l unfolding p(2) his_lane_at[OF p(1)] by simp_all
  show ?thesis
  proof (cases "p = At_count 8")
    case True
    from his_atomic[OF h[unfolded True] j L[unfolded p(2) True]] obtain M' where M':
      "lane_step (his_code B p) M t = Inr (t, M')" "his_common n K B m t M'" "his_const (his_next ?I p) t" "his_state n K B m (his_next ?I p) t M'"
      "his_joint n K B m (t_block_id t) (L(t_global_id t := q + 1)) M'" "change (his_target n K B m) (\<lambda>a. a \<in> his_region K (t_block_id t)) M M'"
      unfolding p(2) True by auto
    then show ?thesis using his_lane_next[OF p(1)] p(2) unfolding p(3) by blast
  next
    case False
    have "his_goes n K B m p t M" by (rule his_data_place[OF h p(1) oc[unfolded p(4)] _ False]) (rule p(5))
    then obtain t' M' where M': "lane_step (his_code B p) M t = Inr (t', M')"
      "his_common n K B m t' M'" "his_const (his_next ?I p) t'" "his_state n K B m (his_next ?I p) t' M'"
      "change (his_target n K B m) (\<lambda>a. a \<in> his_region K (t_block_id t)) M M'" "\<forall>j < K. M' (bin K (t_block_id t) j) = M (bin K (t_block_id t) j)"
      unfolding his_goes_def by blast
    have "q \<noteq> his_at ?I (At_count 8)" using his_at_inj[OF p(1), of "At_count 8"] False p(2) by auto
    then have "his_joint n K B m (t_block_id t) (L(t_global_id t := q + 1)) M" by (intro his_joint_cong[OF j]) (use L in auto)
    then have "his_joint n K B m (t_block_id t) (L(t_global_id t := q + 1)) M'" using M'(6) by (simp add: his_joint_def his_bins_def)
    then show ?thesis using M' his_lane_next[OF p(1)] p(2) unfolding p(3) by blast
  qed
qed

section \<open>Control\<close>

lemma his_control:
  assumes l: "his_lane n K B m q t M" and q: "q < length (his_program K B)" and oc: "inst_opcode (his_program K B ! q) \<in> {SSY, SYNC}"
  shows "his_lane n K B m (q + 1) t M"
proof -
  let ?I = "his_iters K B"
  obtain p where p: "his_valid ?I p" "q = his_at ?I p" "inst_opcode (his_program K B ! q) = his_opcode p" using his_here[OF q] by metis
  have h: "his_common n K B m t M" "his_const p t" "his_state n K B m p t M" using l unfolding p(2) his_lane_at[OF p(1)] by simp_all
  have "his_const (his_next ?I p) t \<and> his_state n K B m (his_next ?I p) t M"
  proof (cases p)
    case (At_head r)
    then show ?thesis using oc p(3) by simp
  next
    case (At_zero i r)
    then have "r < 9" using p(1) by simp
    then have "r = 0 \<or> r = 8" using oc At_zero unfolding p(3) less_9 by (elim disjE) simp_all
    then show ?thesis using h unfolding At_zero by (elim disjE) (simp_all add: his_const_def his_iter_def)
  next
    case (At_count r)
    then have "r < 10" using p(1) by simp
    then have "r = 0 \<or> r = 9" using oc At_count unfolding p(3) less_10 by (elim disjE) simp_all
    then show ?thesis using h unfolding At_count by (elim disjE) (simp_all add: his_const_def)
  next
    case (At_output i r)
    then have "r < 11" using p(1) by simp
    then have "r = 0 \<or> r = 10" using oc At_output unfolding p(3) less_11 by (elim disjE) simp_all
    then show ?thesis using h unfolding At_output
      by (elim disjE) (simp_all add: his_const_def his_iter_def his_done_def less_Suc_eq)
  qed (use oc p(3) in simp_all)
  then show ?thesis using h(1) his_lane_next[OF p(1)] p(2) by simp
qed

lemma his_branch_place:
  assumes q: "q < length (his_program K B)" and oc: "inst_opcode (his_program K B ! q) = BRANCH"
  obtains p p' where "his_valid (his_iters K B) p" "q = his_at (his_iters K B) p" "his_valid (his_iters K B) p'"
    "size_add_int q (inst_immediate (his_program K B ! q)) = his_at (his_iters K B) p'"
    "(\<exists>i. p = At_zero i 2 \<and> p' = At_zero i 8) \<or> p = At_count 2 \<and> p' = At_count 9 \<or> (\<exists>i. p = At_output i 2 \<and> p' = At_output i 10)"
proof -
  let ?I = "his_iters K B"
  have imm: "size_add_int q (of_nat i) = q + i" if "i < 10" for i
    using that q his_bounded[of K B] by (subst size_add_int_exact) (simp_all add: sint_of_nat)
  obtain p where p: "his_valid ?I p" "q = his_at ?I p" "his_program K B ! q = his_code B p" "inst_opcode (his_program K B ! q) = his_opcode p"
    using his_here[OF q] by metis
  show thesis
  proof (cases p)
    case (At_zero i r)
    then have "r < 9" using p(1) by simp
    then have r: "r = 2" using oc At_zero unfolding p(4) less_9 by (elim disjE) simp_all
    have "size_add_int q (inst_immediate (his_program K B ! q)) = q + 6" using imm[of 6] unfolding p(3) At_zero r by (simp add: his_nths)
    then show thesis using that[of p "At_zero i 8"] p(1,2) At_zero r by simp
  next
    case (At_count r)
    then have "r < 10" using p(1) by simp
    then have r: "r = 2" using oc At_count unfolding p(4) less_10 by (elim disjE) simp_all
    have "size_add_int q (inst_immediate (his_program K B ! q)) = q + 7" using imm[of 7] unfolding p(3) At_count r by (simp add: his_nths)
    then show thesis using that[of p "At_count 9"] p(1,2) At_count r by simp
  next
    case (At_output i r)
    then have "r < 11" using p(1) by simp
    then have r: "r = 2" using oc At_output unfolding p(4) less_11 by (elim disjE) simp_all
    have "size_add_int q (inst_immediate (his_program K B ! q)) = q + 8" using imm[of 8] unfolding p(3) At_output r by (simp add: his_nths)
    then show thesis using that[of p "At_output i 10"] p(1,2) At_output r by simp
  qed (use oc p(4) in simp_all)
qed

lemma his_branch:
  assumes l: "his_lane n K B m q t M" and q: "q < length (his_program K B)" and oc: "inst_opcode (his_program K B ! q) = BRANCH"
  shows "his_lane n K B m (if t_predicate t then size_add_int q (inst_immediate (his_program K B ! q)) else q + 1) t M"
proof -
  let ?I = "his_iters K B"
  obtain p p' where p: "his_valid ?I p" "q = his_at ?I p" "his_valid ?I p'"
    "size_add_int q (inst_immediate (his_program K B ! q)) = his_at ?I p'"
    "(\<exists>i. p = At_zero i 2 \<and> p' = At_zero i 8) \<or> p = At_count 2 \<and> p' = At_count 9 \<or> (\<exists>i. p = At_output i 2 \<and> p' = At_output i 10)"
    using his_branch_place[OF q oc] .
  have h: "his_common n K B m t M" "his_const p t" "his_state n K B m p t M" using l unfolding p(2) his_lane_at[OF p(1)] by simp_all
  have "t_predicate t \<Longrightarrow> his_const p' t \<and> his_state n K B m p' t M"
    using p(5) h(2,3) by (elim disjE exE conjE) (auto simp: his_const_def his_iter_def his_done_def Let_def)
  moreover have "\<not> t_predicate t \<Longrightarrow> his_const (his_next ?I p) t \<and> his_state n K B m (his_next ?I p) t M"
    using p(5) h(2,3) by (elim disjE exE conjE) (auto simp: his_const_def his_iter_def his_done_def Let_def)
  ultimately show ?thesis using h(1) his_lane_next[OF p(1)] his_lane_at[OF p(3)] p(2,4) by simp
qed

text \<open>Control does not pass the atomic addition.\<close>

lemma his_move:
  assumes j: "his_joint n K B m (t_block_id t) L M" and l: "his_lane n K B m q t M" and L: "L (t_global_id t) = q"
    and mv: "moves (his_program K B) t q q'"
  shows "his_joint n K B m (t_block_id t) (L(t_global_id t := q')) M"
proof -
  let ?I = "his_iters K B"
  have q: "q < length (his_program K B)" using mv by (simp add: moves_def)
  obtain p where p: "his_valid ?I p" "q = his_at ?I p" "his_program K B ! q = his_code B p" "inst_opcode (his_program K B ! q) = his_opcode p"
    using his_here[OF q] by metis
  have "q' = q + 1 \<and> q \<noteq> his_at ?I (At_count 8) \<or> q' \<noteq> q + 1 \<and> (his_at ?I (At_count 8) < q' \<longleftrightarrow> his_at ?I (At_count 8) < q)"
  proof (cases "q' = q + 1")
    case True
    have "p \<noteq> At_count 8" using mv p(4) by (auto simp: moves_def)
    then show ?thesis using True his_at_inj[OF p(1), of "At_count 8"] p(2) by auto
  next
    case False
    then have oc: "inst_opcode (his_program K B ! q) = BRANCH" and taken: "t_predicate t" "q' = size_add_int q (inst_immediate (his_program K B ! q))"
      using mv by (auto simp: moves_def split: if_splits)
    obtain x x' where x: "his_valid ?I x" "q = his_at ?I x" "his_valid ?I x'" "q' = his_at ?I x'"
      "(\<exists>i. x = At_zero i 2 \<and> x' = At_zero i 8) \<or> x = At_count 2 \<and> x' = At_count 9 \<or> (\<exists>i. x = At_output i 2 \<and> x' = At_output i 10)"
      using his_branch_place[OF q oc] unfolding taken(2) by metis
    from x(5) show ?thesis
    proof (elim disjE exE conjE)
      fix i assume e: "x = At_zero i 2" "x' = At_zero i 8"
      then have "i < ?I" using x(1) by simp
      then have "9 * i + 9 \<le> 9 * ?I" by linarith
      then show ?thesis using False x e by simp
    next
      assume e: "x = At_count 2" "x' = At_count 9"
      then show ?thesis using l taken(1) his_lane_at[OF x(1)] x(2) by simp
    next
      fix i assume e: "x = At_output i 2" "x' = At_output i 10"
      then show ?thesis using False x by simp
    qed
  qed
  then show ?thesis by (intro his_joint_cong[OF j]) (use L in auto)
qed

section \<open>Barriers\<close>

lemma his_barrier:
  assumes q: "q < length (his_program K B)" and oc: "inst_opcode (his_program K B ! q) = BARRIER"
    and ts: "\<forall>t \<in> set ts. t_block_id t = k \<and> his_lane n K B m q t M" and ros: "map t_global_id ts = block_roster n B k"
    and j: "his_joint n K B m k L M" and L: "\<forall>t \<in> set ts. L (t_global_id t) = q" and t: "t \<in> set ts"
  shows "his_lane n K B m (q + 1) t M"
proof -
  let ?I = "his_iters K B"
  obtain p where p: "his_valid ?I p" "q = his_at ?I p" "inst_opcode (his_program K B ! q) = his_opcode p" using his_here[OF q] by metis
  have h: "his_common n K B m t M" "his_const p t" "his_state n K B m p t M" "t_block_id t = k"
    using ts t unfolding p(2) his_lane_at[OF p(1)] by simp_all
  have "q = his_at ?I At_zeroed \<or> q = his_at ?I At_counted" using his_barriers[OF q] oc by simp
  then have "p = At_zeroed \<or> p = At_counted" using his_at_inj[OF p(1), of At_zeroed] his_at_inj[OF p(1), of At_counted] p(2) by auto
  then have "his_const (his_next ?I p) t \<and> his_state n K B m (his_next ?I p) t M"
  proof
    assume "p = At_zeroed"
    then show ?thesis using h(2) by (simp add: his_const_def)
  next
    assume e: "p = At_counted"
    have "L i = q" if "i \<in> set (block_roster n B k)" for i using that L unfolding ros[symmetric] by auto
    moreover have "his_at ?I (At_count 8) < q" unfolding p(2) e by simp
    ultimately have "{i \<in> set (block_roster n B k). his_at ?I (At_count 8) < L i \<and> his_elem m i = x} =
        {i \<in> set (block_roster n B k). his_elem m i = x}" for x by auto
    then have "his_bins K k (his_count n B m k) M" using j by (simp add: his_joint_def his_bins_def his_count_def)
    then show ?thesis using h(2,4) e by (simp add: his_const_def his_iter_def his_done_def)
  qed
  then show ?thesis using h(1) his_lane_next[OF p(1)] p(2) by simp
qed

section \<open>Addresses and peers\<close>

text \<open>An access goes to a bin of the block, to the element of the thread, or to a word of the output.\<close>

fun his_word :: "nat \<Rightarrow> nat \<Rightarrow> nat \<Rightarrow> global_memory \<Rightarrow> his_place \<Rightarrow> thread \<Rightarrow> size_t" where
  "his_word n K B m (At_count r) t = (if r = 3 then 4 * t_global_id t else bin K (t_block_id t) (his_elem m (t_global_id t)))"
| "his_word n K B m (At_output i r) t =
     (if r = 7 then bin K (t_block_id t) (t_local_id t + i * B) else his_out n K (t_block_id t) (t_local_id t + i * B))"
| "his_word n K B m (At_zero i r) t = bin K (t_block_id t) (t_local_id t + i * B)"
| "his_word n K B m p t = 0"

fun his_accesses :: "his_place \<Rightarrow> bool" where
  "his_accesses (At_zero i r) = (r = 7)"
| "his_accesses (At_count r) = (r = 3 \<or> r = 8)"
| "his_accesses (At_output i r) = (r = 7 \<or> r = 9)"
| "his_accesses _ = False"

lemma his_accesses: "his_valid I p \<Longrightarrow> his_opcode p \<in> {LOAD, STORE, ATOMIC_ADD} \<longleftrightarrow> his_accesses p"
proof (cases p)
  case (At_zero i r)
  moreover assume "his_valid I p"
  ultimately have "r < 9" by simp
  then show ?thesis unfolding At_zero less_9 by (elim disjE) simp_all
next
  case (At_count r)
  moreover assume "his_valid I p"
  ultimately have "r < 10" by simp
  then show ?thesis unfolding At_count less_10 by (elim disjE) simp_all
next
  case (At_output i r)
  moreover assume "his_valid I p"
  ultimately have "r < 11" by simp
  then show ?thesis unfolding At_output less_11 by (elim disjE) simp_all
qed simp_all

lemma his_touched:
  assumes c: "his_common n K B m t M" and s: "his_state n K B m p t M" and a: "his_accesses p"
  shows "touched (his_code B p) t = Inr (his_word n K B m p t)" and "his_part p \<noteq> 1 \<Longrightarrow> t_local_id t + (case p of At_zero i _ \<Rightarrow> i | At_output i _ \<Rightarrow> i | _ \<Rightarrow> 0) * B < K"
proof -
  note ad = his_addresses[OF c] and bd = his_common_bounds[OF c]
  have small: "j < K \<Longrightarrow> bin K (t_block_id t) j < 2 ^ 31" "j < K \<Longrightarrow> his_out n K (t_block_id t) j < 2 ^ 31" for j
    using ad(11,12)[of j] by simp_all
  have "touched (his_code B p) t = Inr (his_word n K B m p t) \<and>
    (his_part p \<noteq> 1 \<longrightarrow> t_local_id t + (case p of At_zero i _ \<Rightarrow> i | At_output i _ \<Rightarrow> i | _ \<Rightarrow> 0) * B < K)"
  proof (cases p)
    case (At_zero i r)
    then have r: "r = 7" using a by simp
    have it: "his_iter K B 7 i 7 t" using s unfolding At_zero r by simp
    then have "t_local_id t + i * B < K" and r14: "read_reg t 14 = Inr (of_nat (bin K (t_block_id t) (t_local_id t + i * B)))"
      by (simp_all add: his_iter_def Let_def)
    then show ?thesis using touched_base(2)[OF r14 _ small(1)] unfolding At_zero r by (simp add: his_nths)
  next
    case (At_count r)
    then have "r = 3 \<or> r = 8" using a by simp
    then show ?thesis
    proof
      assume "r = 3"
      then show ?thesis using touched_base(1)[OF ad(1) _ ad(2)] unfolding At_count by (simp add: his_nths)
    next
      assume r: "r = 8"
      then have "read_reg t 14 = Inr (of_nat (bin K (t_block_id t) (his_elem m (t_global_id t))))" using s unfolding At_count by (simp add: Let_def)
      from touched_base(3)[OF this _ small(1)[OF bd(9)]] show ?thesis unfolding At_count r by (simp add: his_nths)
    qed
  next
    case (At_output i r)
    then have r: "r = 7 \<or> r = 9" using a by simp
    have it: "his_iter K B 9 i r t" using s unfolding At_output by simp
    then have x: "t_local_id t + i * B < K" and r14: "read_reg t 14 = Inr (of_nat (bin K (t_block_id t) (t_local_id t + i * B)))"
      using r by (elim disjE; simp add: his_iter_def Let_def)+
    have "r = 9 \<Longrightarrow> read_reg t 18 = Inr (of_nat (his_out n K (t_block_id t) (t_local_id t + i * B)))"
      using s unfolding At_output by (simp add: Let_def)
    from r touched_base(1)[OF r14 _ small(1)[OF x], of 17] touched_base(2)[OF this _ small(2)[OF x], of "-1"] x show ?thesis
      unfolding At_output by (elim disjE) (simp_all add: his_nths)
  qed (use a in simp_all)
  then show "touched (his_code B p) t = Inr (his_word n K B m p t)"
    "his_part p \<noteq> 1 \<Longrightarrow> t_local_id t + (case p of At_zero i _ \<Rightarrow> i | At_output i _ \<Rightarrow> i | _ \<Rightarrow> 0) * B < K" by simp_all
qed

lemma his_space:
  assumes l: "his_lane n K B m q t M" and l': "his_lane n K B m q t' M" and q: "q < length (his_program K B)"
  shows "one_space (his_program K B ! q) {t, t'}"
proof -
  let ?I = "his_iters K B"
  obtain p where p: "his_valid ?I p" "q = his_at ?I p" "his_program K B ! q = his_code B p" "inst_opcode (his_program K B ! q) = his_opcode p"
    using his_here[OF q] by metis
  have "a < SHARED_MEM_BASE \<longleftrightarrow> p = At_count 3 \<or> (\<exists>i. p = At_output i 9)"
    if u: "his_lane n K B m q u M" and oc: "inst_opcode (his_program K B ! q) \<in> {LOAD, STORE, ATOMIC_ADD}" and a: "touched (his_program K B ! q) u = Inr a" for u a
  proof -
    have h: "his_common n K B m u M" "his_state n K B m p u M" using u unfolding p(2) his_lane_at[OF p(1)] by simp_all
    have ac: "his_accesses p" using oc his_accesses[OF p(1)] unfolding p(4) by simp
    note tc = his_touched[OF h ac]
    have "a = his_word n K B m p u" using a tc(1) unfolding p(3) by simp
    moreover have bin: "\<not> bin K (t_block_id u) j < SHARED_MEM_BASE" for j using bin_shared[of K "t_block_id u" j] by simp
    moreover have "his_out n K (t_block_id u) (t_local_id u + i * B) < SHARED_MEM_BASE" if "p = At_output i 9" for i
      using his_common_bounds(3)[OF h(1)] tc(2) that by simp
    ultimately show ?thesis using ac his_common_bounds(2)[OF h(1)] by (cases p) (simp_all, elim disjE, simp_all)
  qed
  then show ?thesis using l l' unfolding one_space_def by blast
qed

lemma his_peer:
  assumes l: "his_lane n K B m q t M" and l': "his_lane n K B m q' t' M" and blk: "t_block_id t = t_block_id t'"
    and ph: "phase (his_program K B) q = phase (his_program K B) q'"
    and q': "q' < length (his_program K B)" and oc: "inst_opcode (his_program K B ! q') \<in> {STORE, ATOMIC_ADD}"
    and st: "lane_step (his_program K B ! q') M t' = Inr (t'', M')"
  shows "his_lane n K B m q t M'"
proof -
  let ?I = "his_iters K B"
  let ?p = "his_place ?I q" and ?k = "t_block_id t"
  obtain p' where p': "his_valid ?I p'" "q' = his_at ?I p'" "his_program K B ! q' = his_code B p'" "inst_opcode (his_program K B ! q') = his_opcode p'"
    "\<And>i r. p' = At_output i r \<Longrightarrow> i < ?I"
    using his_here[OF q'] by metis
  have h: "his_common n K B m t M" "his_const ?p t" "his_state n K B m ?p t M" using l by (simp_all add: his_lane_def)
  have h': "his_common n K B m t' M" "his_const p' t'" "his_state n K B m p' t' M" using l' unfolding p'(2) his_lane_at[OF p'(1)] by simp_all
  have part: "his_part ?p = his_part p'" using ph his_place_at[OF p'(1)] unfolding his_part p'(2) by simp
  have ac: "his_accesses p'" using oc his_accesses[OF p'(1)] unfolding p'(4) by auto
  note tc = his_touched[OF h'(1,3) ac] and bd = his_common_bounds[OF h'(1)]
  obtain v where M': "M' = M(his_word n K B m p' t' := Inr v)"
    using store_step[OF oc st] tc(1) unfolding p'(3) by auto
  have "(\<forall>i < n. M' (4 * i) = M (4 * i)) \<and>
    (\<forall>j < K. M' (bin K ?k j) = M (bin K ?k j) \<or> his_part ?p = 1 \<and> (\<exists>v. M' (bin K ?k j) = Inr v)) \<and>
    (\<forall>j < K. M' (his_out n K ?k j) = M (his_out n K ?k j) \<or> M' (his_out n K ?k j) = Inr (of_nat (his_count n B m ?k j)))"
  proof (cases "p' = At_count 8")
    case True
    have low: "M' a = M a" if "a < SHARED_MEM_BASE" for a
      using that bin_shared[of K "t_block_id t'"] unfolding M' True by (auto simp: not_less[symmetric])
    have "M' (4 * i) = M (4 * i)" if "i < n" for i using that bd(7) by (intro low) simp
    moreover have "M' (his_out n K ?k j) = M (his_out n K ?k j)" if "j < K" for j using bd(3)[OF that] by (intro low) (simp add: blk)
    moreover have "\<exists>v. M' (bin K ?k j) = Inr v" if "j < K" for j using that h(1) by (simp add: his_common_def Let_def M')
    moreover have "his_part ?p = 1" using part by (simp add: True)
    ultimately show ?thesis by blast
  next
    case False
    have "lanewise_opcode (his_opcode p')" using oc unfolding p'(4) by (auto simp: lanewise_opcode_def)
    from his_data_place[OF h' p'(1) this _ False] p'(5) have "his_goes n K B m p' t' M" by blast
    then obtain t1 where t1: "his_common n K B m t1 M'" "\<forall>j < K. M' (bin K ?k j) = M (bin K ?k j)"
      "change (his_target n K B m) (\<lambda>a. a \<in> his_region K ?k) M M'"
      using st unfolding his_goes_def p'(3) blk by auto
    have "M (4 * i) = Inr (word_of m (4 * i))" "M' (4 * i) = Inr (word_of m (4 * i))" if "i < n" for i
      using that h'(1) t1(1) by (simp_all add: his_common_def Let_def)
    moreover note his_change_out[OF h(1) t1(3)]
    ultimately show ?thesis using t1(2) by simp
  qed
  then have "his_common n K B m t M' \<and> his_state n K B m ?p t M'" by (intro his_frame[OF h(1,3)]) blast+
  then show ?thesis using h(2) by (simp add: his_lane_def)
qed

section \<open>The kernel\<close>

interpretation his: block_kernel "his_program K B" "his_lane n K B m" "his_joint n K B m" "his_target n K B m" "his_region K" "block_roster n B"
  for n K B :: nat and m :: global_memory
proof
  show "length (his_program K B) < 2 ^ 63" by (rule his_bounded)
  show "guarded_prog (his_program K B)" by (rule his_shaped)
  show "distinct (block_roster n B k)" for k by (simp add: block_roster_def)
  show "his_region K k \<inter> his_region K k' = {}" if "k \<noteq> k'" for k k'
  proof -
    have "k * K + j \<noteq> k' * K + j'" if "j < K" "j' < K" for j j'
    proof
      assume e: "k * K + j = k' * K + j'"
      have "(k * K + j) div K = k" "(k' * K + j') div K = k'" using that by simp_all
      then show False using e \<open>k \<noteq> k'\<close> by simp
    qed
    then have "bin K k j \<noteq> bin K k' j'" if "j < K" "j' < K" for j j'
      using that unfolding bin_def by (metis add_left_cancel mult_cancel1 zero_neq_numeral)
    then show ?thesis by (auto simp: his_region_def)
  qed
  show "his_lane n K B m q t M \<Longrightarrow> his_lane n K B m q (set_pc t x) M" for q t M x by (rule his_lane_pc)
  show "his_lane n K B m q t M \<Longrightarrow> change (his_target n K B m) (\<lambda>a. a \<notin> his_region K (t_block_id t)) M M' \<Longrightarrow> his_lane n K B m q t M'"
    for q t M M' by (rule his_lane_apart)
  show "his_joint n K B m k L M \<Longrightarrow> change (his_target n K B m) (\<lambda>a. a \<notin> his_region K k) M M' \<Longrightarrow> his_joint n K B m k L M'"
    for k L M M' by (rule his_joint_apart)
qed (rule his_peer his_data his_space his_control his_branch his_barrier his_move; assumption)+

section \<open>The start\<close>

lemma his_initial:
  assumes init: "initialised (histogram_init n B K) t" and n: "t_global_id t < n" and p: "placed B t" and inp: "his_input n K B m"
    and cap: "4 * (his_blocks n B * K) \<le> cap"
  shows "his_lane n K B m 0 t (space (new_shared_memory cap banks) m)"
proof -
  let ?M = "space (new_shared_memory cap banks) m" and ?k = "t_block_id t" and ?l = "t_local_id t" and ?g = "t_global_id t"
  let ?regs = "histogram_init n B K ?k ?l ?g"
  have regs: "?regs = [(0, of_nat (4 * ?g)), (1, of_nat (bin K ?k 0)), (2, of_nat (his_out n K ?k 0)), (3, of_nat K),
      (4, if ?g < n then 1 else 0), (5, of_nat ?l)] @ map (\<lambda>i. (20 + of_nat i, if ?l + i * B < K then 1 else 0)) [0..<8]"
    by (simp add: histogram_init_def size_to_int_def bin_def his_out_def algebra_simps)
  have "map (\<lambda>p. int_to_size (fst p)) ?regs = [0, 1, 2, 3, 4, 5] @ map (\<lambda>i. 20 + i) [0..<8]"
    unfolding regs by (simp add: comp_def round_register)
  then have "distinct (map (\<lambda>p. int_to_size (fst p)) ?regs)" by (simp add: distinct_map inj_on_def)
  note rd = initialised_read[OF init refl this]
  have r: "read_reg t 0 = Inr (of_nat (4 * ?g))" "read_reg t 1 = Inr (of_nat (bin K ?k 0))" "read_reg t 2 = Inr (of_nat (his_out n K ?k 0))"
    "read_reg t 4 = Inr (if ?g < n then 1 else 0)" "read_reg t 5 = Inr (of_nat ?l)"
    by (rule rd, unfold regs, simp)+
  have rs: "read_reg t (20 + of_nat i) = Inr (if ?l + i * B < K then 1 else 0)" if "i < 8" for i
    using that by (intro rd) (unfold regs, auto)
  have g: "?g = ?k * B + ?l" "?l < B" using p by (simp_all add: placed_def)
  have out: "his_out n K (his_blocks n B) 0 \<le> SHARED_MEM_BASE" "his_out n K (his_blocks n B) 0 \<le> length (gm_data m)"
    using inp by (simp_all add: his_input_def)
  have "(?k + 1) * B \<le> n + B - 1" using g n by simp
  then have k: "?k < his_blocks n B" unfolding his_blocks_def using g(2) by (simp add: Suc_le_eq[symmetric] less_eq_div_iff_mult_less_eq)
  then have kK: "(?k + 1) * K \<le> his_blocks n B * K" by (intro mult_le_mono1) simp
  have cells: "?M (bin K ?k j) = Inr 0" if "j < K" for j
    using that cap kK by (simp add: space_def bin_def shm_load_def new_shared_memory_def)
  have "?M (4 * i) = Inr (word_of m (4 * i))" if "i < n" for i
    using that out by (simp add: space_def his_out_def word_of_load)
  moreover have "\<exists>v. ?M (his_out n K ?k j) = Inr v" if "j < K" for j
  proof -
    have "his_out n K ?k j < SHARED_MEM_BASE" "his_out n K ?k j < length (gm_data m)" using that kK out by (simp_all add: his_out_def)
    then show ?thesis by (simp add: space_def word_of_load)
  qed
  ultimately have "his_common n K B m t ?M"
    using inp n p r rs cells initialised_full[OF init] by (simp add: his_common_def)
  moreover have "his_place (his_iters K B) 0 = At_head 0" by (simp add: his_place_def)
  moreover have "his_const (At_head 0) t" unfolding his_const_def by blast
  ultimately show ?thesis using cells by (simp add: his_lane_def his_bins_def)
qed

lemma his_joint_initial:
  assumes "0 < B" and "k * B < n" and cap: "4 * (his_blocks n B * K) \<le> cap"
  shows "his_joint n K B m k (\<lambda>_. 0) (space (new_shared_memory cap banks) g)"
proof -
  have "(k + 1) * B \<le> n + B - 1" using assms(1,2) by simp
  then have "k < his_blocks n B" unfolding his_blocks_def using assms(1) by (simp add: Suc_le_eq[symmetric] less_eq_div_iff_mult_less_eq)
  then have "(k + 1) * K \<le> his_blocks n B * K" by (intro mult_le_mono1) simp
  then show ?thesis using cap by (simp add: his_joint_def his_bins_def space_def bin_def shm_load_def new_shared_memory_def)
qed

section \<open>The end\<close>

lemma his_covered: "j < K \<Longrightarrow> 0 < B \<Longrightarrow> (K + B - 1) div B \<le> 8 \<Longrightarrow> j div B < his_iters K B"
proof -
  assume j: "j < K" "0 < B" and I: "(K + B - 1) div B \<le> 8"
  have "B * (j div B) \<le> j" by simp
  then have "B + B * (j div B) \<le> K + B - 1" using j by linarith
  moreover have "(j div B + 1) * B = B + B * (j div B)" by (simp add: mult.commute)
  ultimately have "(j div B + 1) * B \<le> K + B - 1" by (simp only:)
  then have "j div B < (K + B - 1) div B" using j(2) by (simp add: Suc_le_eq[symmetric] less_eq_div_iff_mult_less_eq)
  then show ?thesis using I by (simp add: his_iters_def)
qed

lemma his_final:
  assumes l: "his_lane n K B m (length (his_program K B)) t M" and j: "j < K" and t: "t_global_id t = t_block_id t * B + j mod B"
  shows "M (his_out n K (t_block_id t) j) = Inr (of_nat (his_count n B m (t_block_id t) j))"
proof -
  let ?I = "his_iters K B"
  have e: "length (his_program K B) = his_at ?I (At_output ?I 0)" by (simp add: his_length)
  have c: "his_common n K B m t M" and d: "his_done n K B m ?I 0 t M" using l his_lane_at[of K B "At_output ?I 0" n m t M] unfolding e by simp_all
  have "t_local_id t = j mod B" using his_common_bounds(8)[OF c] t by simp
  then have "t_local_id t + (j div B) * B = j" by simp
  moreover have "j div B < ?I" using c j his_covered by (simp add: his_common_def his_input_def)
  ultimately show ?thesis using d j unfolding his_done_def by metis
qed

end
