(* ===== verification/Memcpy.thy ===== *)
theory Memcpy
  imports Map_Kernels
begin

text \<open>
  The memory copy of the benchmarks (\<^verbatim>\<open>src/runtime/benchmarks.cpp\<close>), kernel and grid together:
  the program as a list, the assertion of a lane at every program counter, and the interpretation
  of \<open>map_kernel\<close> that makes its run total and correct.
\<close>

section \<open>The program\<close>

text \<open>A copy and the move to the next word, which the last iteration leaves out.\<close>

definition copy_body :: "instruction list" where
  "copy_body = [instr LOAD 3 0 (-1) 0, instr STORE (-1) 3 1 0, instr ADD 0 0 2 0, instr ADD 1 1 2 0]"

definition copy_program :: "c_int \<Rightarrow> instruction list" where
  "copy_program iterations =
     (let K = nat (sint iterations) in concat (map (\<lambda>i. if Suc i < K then copy_body else take 2 copy_body) [0..<K]))"

lemma memcpy_kernel: "k_instructions (generate_memcpy_kernel iterations) = copy_program iterations"
proof -
  have "memcpy_body iterations (of_nat i) = (if Suc i < nat (sint iterations) then copy_body else take 2 copy_body)"
    if i: "i < nat (sint iterations)" for i
  proof -
    have "i < 2 ^ 31" using i sint_bounds32(2)[of iterations] by simp
    then have "sint (of_nat i :: c_int) < sint iterations - 1 \<longleftrightarrow> Suc i < nat (sint iterations)" using i by (auto simp: sint_of_nat)
    then show ?thesis by (simp add: memcpy_body_def copy_body_def)
  qed
  then have "map (\<lambda>i. memcpy_body iterations (of_nat i)) [0..<nat (sint iterations)] =
      map (\<lambda>i. if Suc i < nat (sint iterations) then copy_body else take 2 copy_body) [0..<nat (sint iterations)]" by simp
  then show ?thesis
    unfolding generate_memcpy_kernel_def make_kernel_def copy_program_def int_range_def Let_def map_map comp_def by (simp only: kernel.simps)
qed

lemma copy_program_nth:
  "length (copy_program iterations) = 4 * nat (sint iterations) - 2"
  "p < length (copy_program iterations) \<Longrightarrow> copy_program iterations ! p = copy_body ! (p mod 4)"
  "p < length (copy_program iterations) \<Longrightarrow> p div 4 < nat (sint iterations)"
  "p < length (copy_program iterations) \<Longrightarrow> 2 \<le> p mod 4 \<Longrightarrow> Suc (p div 4) < nat (sint iterations)"
proof -
  let ?K = "nat (sint iterations)"
  have both: "length (copy_program iterations) = 4 * ?K - 2 \<and>
    (p < length (copy_program iterations) \<longrightarrow> copy_program iterations ! p = copy_body ! (p mod 4))"
  proof (cases ?K)
    case 0
    then show ?thesis by (simp add: copy_program_def)
  next
    case (Suc J)
    note cb = concat_blocks[where f = "\<lambda>_. copy_body" and c = 4 and n = J]
    have body: "length copy_body = 4" "copy_body \<noteq> []" by (simp_all add: copy_body_def)
    have same: "map (\<lambda>i. if Suc i < Suc J then copy_body else take 2 copy_body) [0..<J] = map (\<lambda>_. copy_body) [0..<J]" by simp
    have up: "[0..<Suc J] = [0..<J] @ [J]" by simp
    have prog: "copy_program iterations = concat (map (\<lambda>_. copy_body) [0..<J]) @ take 2 copy_body"
      unfolding copy_program_def Let_def Suc up map_append concat_append same by (simp only: concat.simps list.map less_irrefl if_False append_Nil2)
    have len: "length (copy_program iterations) = 4 * J + 2" using cb(1) body by (simp add: prog)
    have "copy_program iterations ! p = copy_body ! (p mod 4)" if p: "p < length (copy_program iterations)"
    proof (cases "p < 4 * J")
      case True
      then show ?thesis using cb body unfolding prog by (simp add: nth_append)
    next
      case False
      then obtain r where r: "p = 4 * J + r" using le_Suc_ex not_less by blast
      then have "r < 2" using p len by simp
      moreover from this have "p mod 4 = r" using r by simp
      ultimately show ?thesis using cb(1) body r unfolding prog by (simp add: nth_append)
    qed
    then show ?thesis using len Suc by simp
  qed
  show len: "length (copy_program iterations) = 4 * ?K - 2" using both by blast
  show "p < length (copy_program iterations) \<Longrightarrow> copy_program iterations ! p = copy_body ! (p mod 4)" using both by blast
  show "p < length (copy_program iterations) \<Longrightarrow> p div 4 < ?K" unfolding len by linarith
  show "p < length (copy_program iterations) \<Longrightarrow> 2 \<le> p mod 4 \<Longrightarrow> Suc (p div 4) < ?K"
    unfolding len using div_mult_mod_eq[of p 4] by linarith
qed

section \<open>What it computes\<close>

text \<open>Thread \<open>t\<close> of \<open>N\<close> copies, in iteration \<open>i\<close>, the word at \<open>off t + i * st\<close> to 1000000 words further.\<close>

definition copied :: "nat \<Rightarrow> (nat \<Rightarrow> nat) \<Rightarrow> nat \<Rightarrow> nat \<Rightarrow> size_t \<Rightarrow> bool" where
  "copied N off st K x \<longleftrightarrow> (\<exists>t < N. \<exists>i < K. x = off t + i * st)"

definition copy_target :: "nat \<Rightarrow> (nat \<Rightarrow> nat) \<Rightarrow> nat \<Rightarrow> nat \<Rightarrow> global_memory \<Rightarrow> size_t \<Rightarrow> c_int option" where
  "copy_target N off st K m a =
     (if 1000000 \<le> a \<and> copied N off st K (a - 1000000) then Some (word_of m (a - 1000000)) else None)"

text \<open>The source ends before the destination begins, and the memory is large enough.\<close>

definition copy_input :: "nat \<Rightarrow> (nat \<Rightarrow> nat) \<Rightarrow> nat \<Rightarrow> nat \<Rightarrow> global_memory \<Rightarrow> bool" where
  "copy_input N off st K m \<longleftrightarrow>
     (\<forall>t < N. \<forall>i < K. off t + i * st < 1000000 \<and> 1000000 + (off t + i * st) < length (gm_data m))"

definition copy_lane :: "nat \<Rightarrow> (nat \<Rightarrow> nat) \<Rightarrow> nat \<Rightarrow> nat \<Rightarrow> global_memory \<Rightarrow> nat \<Rightarrow> thread \<Rightarrow> view \<Rightarrow> bool" where
  "copy_lane N off st K m p t g \<longleftrightarrow>
     copy_input N off st K m \<and> fills (copy_target N off st K m) (view_of m) g \<and> full_file t \<and> t_global_id t < N \<and>
     (let x = (\<lambda>i. off (t_global_id t) + i * st); q = p div 4; r = p mod 4
      in read_reg t 0 = Inr (of_nat (x (if r = 3 then Suc q else q))) \<and> read_reg t 1 = Inr (of_nat (1000000 + x q)) \<and>
         read_reg t 2 = Inr (of_nat st) \<and> (r = 1 \<longrightarrow> read_reg t 3 = Inr (word_of m (x q))) \<and>
         (\<forall>i < K. i < q \<or> i = q \<and> 2 \<le> r \<longrightarrow> g (1000000 + x i) = Inr (word_of m (x i))))"

lemma copy_lane_pc: "copy_lane N off st K m p t g \<Longrightarrow> copy_lane N off st K m p (set_pc t q) g"
  by (simp add: copy_lane_def set_pc_def full_file_def read_reg_def)

text \<open>The words of the source keep their values, those of the destination stay mapped.\<close>

lemma copy_words:
  assumes "copy_input N off st K m" and f: "fills (copy_target N off st K m) (view_of m) g" and "t < N" and "i < K"
    and x: "x = off t + i * st"
  shows "x < 1000000" and "g x = Inr (word_of m x)" and "\<exists>v. g (1000000 + x) = Inr v"
    and "copy_target N off st K m (1000000 + x) = Some (word_of m x)"
proof -
  have b: "x < 1000000" "1000000 + x < length (gm_data m)" using assms(1,3,4) by (simp_all add: copy_input_def x)
  then have v: "view_of m a = Inr (word_of m a)" if "a \<le> 1000000 + x" for a
    using that by (simp add: view_of_def word_of_load SHARED_MEM_BASE_def)
  show "x < 1000000" by (rule b)
  show "g x = Inr (word_of m x)" using b v by (intro fills_keeps[OF f]) (simp_all add: copy_target_def SHARED_MEM_BASE_def)
  show "\<exists>v. g (1000000 + x) = Inr v" using b v by (intro fills_mapped[OF f]) (simp_all add: SHARED_MEM_BASE_def)
  show "copy_target N off st K m (1000000 + x) = Some (word_of m x)" using assms(3,4) by (auto simp: copy_target_def copied_def x)
qed

lemma copy_lane_fills:
  assumes l: "copy_lane N off st K m p t g" and f: "fills (copy_target N off st K m) g g'"
  shows "copy_lane N off st K m p t g'"
proof -
  note d = l[unfolded copy_lane_def Let_def]
  have "g' (1000000 + (off (t_global_id t) + i * st)) = Inr (word_of m (off (t_global_id t) + i * st))"
    if i: "i < K" "i < p div 4 \<or> i = p div 4 \<and> 2 \<le> p mod 4" for i
  proof (rule fills_done[OF f])
    have "copy_input N off st K m" "fills (copy_target N off st K m) (view_of m) g" "t_global_id t < N" using d by blast+
    note w = copy_words[OF this i(1) refl]
    show "g (1000000 + (off (t_global_id t) + i * st)) = Inr (word_of m (off (t_global_id t) + i * st))" using d i by blast
    show "copy_target N off st K m (1000000 + (off (t_global_id t) + i * st)) = Some (word_of m (off (t_global_id t) + i * st))" by (rule w)
    show "1000000 + (off (t_global_id t) + i * st) < SHARED_MEM_BASE" using w(1) by (simp add: SHARED_MEM_BASE_def)
  qed
  then show ?thesis using d change_trans[OF _ f] by (simp add: copy_lane_def Let_def)
qed

text \<open>One instruction, at each of the four places of an iteration.\<close>

lemma copy_lane_runs:
  assumes l: "copy_lane N off st (nat (sint iters)) m p t g" and p: "p < length (copy_program iters)"
  shows "\<exists>t' g'. lane_step (copy_program iters ! p) g t = Inr (t', g') \<and> copy_lane N off st (nat (sint iters)) m (p + 1) t' g' \<and>
    change (copy_target N off st (nat (sint iters)) m) (\<lambda>_. False) g g'"
    and "inst_opcode (copy_program iters ! p) \<in> {LOAD, STORE, ATOMIC_ADD} \<Longrightarrow> touched (copy_program iters ! p) t = Inr a \<Longrightarrow> a < SHARED_MEM_BASE"
proof -
  let ?K = "nat (sint iters)" and ?q = "p div 4" and ?g = "t_global_id t"
  let ?x = "\<lambda>i. off ?g + i * st"
  note prog = copy_program_nth(2-4)[OF p]
  note d = l[unfolded copy_lane_def Let_def]
  have "copy_input N off st ?K m" "fills (copy_target N off st ?K m) (view_of m) g" "?g < N" using d by blast+
  note w = copy_words[OF this prog(2) refl] and w' = copy_words(1)[OF this _ refl]
  have fl: "full_file t" using d by blast
  have "p mod 4 < 4" by simp
  then consider (1) "p mod 4 = 0" | (2) "p mod 4 = 1" | (3) "p mod 4 = 2" | (4) "p mod 4 = 3" by linarith
  note four = this
  have r1: "read_reg t 1 = Inr (of_nat (1000000 + ?x ?q))" using d by blast
  show "\<exists>t' g'. lane_step (copy_program iters ! p) g t = Inr (t', g') \<and> copy_lane N off st ?K m (p + 1) t' g' \<and>
    change (copy_target N off st ?K m) (\<lambda>_. False) g g'"
    using four
  proof cases
    case 1
    have r0: "read_reg t 0 = Inr (of_nat (?x ?q))" using d 1 by simp
    obtain t' where t': "lane_step (instr LOAD 3 0 (-1) 0) g t = Inr (t', g)" "wrote 3 (word_of m (?x ?q)) t t'"
      using step_load[where a = "?x ?q" and M = g, OF fl _ r0 _ _ w(2), of 3] w(1) by auto
    have n: "Suc p div 4 = ?q" "Suc p mod 4 = 1" using 1 by presburger+
    have "copy_lane N off st ?K m (p + 1) t' g" using d t'(2) 1 n by (simp add: copy_lane_def Let_def wrote_def same_identity_def)
    then show ?thesis using t'(1) change_refl by (auto simp: prog(1) copy_body_def 1)
  next
    case 2
    let ?g' = "g(1000000 + ?x ?q := Inr (word_of m (?x ?q)))"
    have "read_reg t 3 = Inr (word_of m (?x ?q))" using d 2 by simp
    then have s: "lane_step (instr STORE (-1) 3 1 0) g t = Inr (t, ?g')"
      using step_store[where a = "1000000 + ?x ?q" and M = g, OF r1 _ _ _ w(3)] w(1) by simp
    have ch: "change (copy_target N off st ?K m) (\<lambda>_. False) g ?g'" using w(1,4) by (simp add: change_def SHARED_MEM_BASE_def)
    then have "copy_lane N off st ?K m p t ?g'" by (intro copy_lane_fills[OF l]) (rule change_mono, assumption, simp)
    moreover have n: "Suc p div 4 = ?q" "Suc p mod 4 = 2" using 2 by presburger+
    ultimately have "copy_lane N off st ?K m (p + 1) t ?g'" using 2 by (auto simp: copy_lane_def Let_def)
    then show ?thesis using s ch by (auto simp: prog(1) copy_body_def 2)
  next
    case 3
    have "Suc ?q < ?K" using prog(3) 3 by simp
    note nx = w'[OF this]
    have r: "read_reg t 0 = Inr (of_nat (?x ?q))" "read_reg t 2 = Inr (of_nat st)" using d 3 by simp_all
    have "c_add (of_nat (?x ?q)) (of_nat st) = Inr (of_nat (?x ?q + st))" using nx by (intro add_nat) simp
    from step_add[OF fl _ r this, of 0 0 g] obtain t' where t': "lane_step (instr ADD 0 0 2 0) g t = Inr (t', g)"
      "wrote 0 (of_nat (?x ?q + st)) t t'" by auto
    have n: "Suc p div 4 = ?q" "Suc p mod 4 = 3" using 3 by presburger+
    have "copy_lane N off st ?K m (p + 1) t' g" using d t'(2) 3 n
      by (simp add: copy_lane_def Let_def wrote_def same_identity_def algebra_simps)
    then show ?thesis using t'(1) change_refl by (auto simp: prog(1) copy_body_def 3)
  next
    case 4
    have "Suc ?q < ?K" using prog(3) 4 by simp
    note nx = w'[OF this]
    have r2: "read_reg t 2 = Inr (of_nat st)" using d by blast
    have "c_add (of_nat (1000000 + ?x ?q)) (of_nat st) = Inr (of_nat (1000000 + ?x ?q + st))" using nx by (intro add_nat) simp
    from step_add[OF fl _ r1 r2 this, of 1 0 g] obtain t' where t': "lane_step (instr ADD 1 1 2 0) g t = Inr (t', g)"
      "wrote 1 (of_nat (1000000 + ?x ?q + st)) t t'" by auto
    have n: "Suc p div 4 = Suc ?q" "Suc p mod 4 = 0" using 4 by presburger+
    have "copy_lane N off st ?K m (p + 1) t' g" using d t'(2) 4 n
      by (auto simp: copy_lane_def Let_def wrote_def same_identity_def algebra_simps less_Suc_eq)
    then show ?thesis using t'(1) change_refl by (auto simp: prog(1) copy_body_def 4)
  qed
  show "a < SHARED_MEM_BASE" if o: "inst_opcode (copy_program iters ! p) \<in> {LOAD, STORE, ATOMIC_ADD}" and t: "touched (copy_program iters ! p) t = Inr a"
    using four
  proof cases
    case 1
    have "read_reg t 0 = Inr (of_nat (?x ?q))" using d 1 by simp
    from touched_base(1)[where a = "?x ?q", OF this, of 3 "-1"] show ?thesis using t w(1) by (simp add: prog(1) copy_body_def 1 SHARED_MEM_BASE_def)
  next
    case 2
    from touched_base(2)[where a = "1000000 + ?x ?q", OF r1, of "-1" 3] show ?thesis using t w(1) by (simp add: prog(1) copy_body_def 2 SHARED_MEM_BASE_def)
  qed (use o in \<open>simp_all add: prog(1) copy_body_def\<close>)
qed

interpretation mcpy: map_kernel "copy_program iters" "copy_lane N off st (nat (sint iters)) m" "copy_target N off st (nat (sint iters)) m" N bs
  for iters :: c_int and N st bs :: nat and off :: "nat \<Rightarrow> nat" and m :: global_memory
proof
  show "length (copy_program iters) < 2 ^ 63" using sint_bounds32(2)[of iters] by (simp add: copy_program_nth(1))
  show "lanewise_opcode (inst_opcode i)" if "i \<in> set (copy_program iters)" for i
    using that by (auto simp: copy_program_def copy_body_def Let_def lanewise_opcode_def split: if_splits)
qed (rule copy_lane_pc copy_lane_fills copy_lane_runs; assumption)+

section \<open>The run\<close>

text \<open>The offset of a thread and the stride of its iterations, and the word of an iteration.\<close>

definition memcpy_offset :: "string \<Rightarrow> nat \<Rightarrow> nat \<Rightarrow> nat \<Rightarrow> nat" where
  "memcpy_offset pattern N t i = fst (memcpy_pattern pattern N t) + i * snd (memcpy_pattern pattern N 0)"

lemma memcpy_stride: "snd (memcpy_pattern pattern N t) = snd (memcpy_pattern pattern N t')"
  by (simp add: memcpy_pattern_def)

lemma copy_initial:
  assumes init: "initialised (memcpy_init N pattern) t" and "t_global_id t < N"
    and "copy_input N (\<lambda>t. fst (memcpy_pattern pattern N t)) (snd (memcpy_pattern pattern N 0)) K m"
  shows "copy_lane N (\<lambda>t. fst (memcpy_pattern pattern N t)) (snd (memcpy_pattern pattern N 0)) K m 0 t (view_of m)"
proof -
  note rd = initialised_read[OF init refl]
  obtain off st where o: "memcpy_pattern pattern N (t_global_id t) = (off, st)" by fastforce
  then have "st = snd (memcpy_pattern pattern N 0)" using memcpy_stride[of pattern N "t_global_id t" 0] by simp
  then have "read_reg t 0 = Inr (of_nat (fst (memcpy_pattern pattern N (t_global_id t))))"
    "read_reg t 1 = Inr (of_nat (1000000 + fst (memcpy_pattern pattern N (t_global_id t))))"
    "read_reg t 2 = Inr (of_nat (snd (memcpy_pattern pattern N 0)))"
    using o by (simp_all add: rd memcpy_init_def size_to_int_def)
  then show ?thesis using assms(2,3) initialised_full[OF init] by (simp add: copy_lane_def change_refl Let_def)
qed

end
