(* ===== verification/Kernel_Runs.thy ===== *)
theory Kernel_Runs
  imports Vector_Add Reduction_Blocks Histogram_Blocks Memcpy
begin

text \<open>
  The runs of the benchmark kernels on a GPU that is ready for a launch: what
  \<^verbatim>\<open>run_to_completion\<close> leaves in the global memory. The properties of the kernels and of the
  benchmark drivers rest on these lemmas.
\<close>

section \<open>GPUs ready for a launch\<close>

text \<open>
  Usable, with the shared memories that the constructor creates for the configuration; the global
  memory may have been initialised since.
\<close>

definition fresh_gpu :: "system_config \<Rightarrow> gpu \<Rightarrow> bool" where
  "fresh_gpu c g \<longleftrightarrow> usable g \<and>
     (\<forall>s \<in> set (gpu_sms g). sm_shared_memory s = new_shared_memory (cfg_max_shared_memory_per_sm c) (cfg_shared_memory_banks c))"

lemma fresh_memory: "fresh_gpu c (g\<lparr>gpu_global_memory := m\<rparr>) \<longleftrightarrow> fresh_gpu c g"
  by (simp add: fresh_gpu_def usable_def)

text \<open>Configurations with valid caches and a work-conserving policy.\<close>

definition cache_ok :: "size_t \<Rightarrow> size_t \<Rightarrow> size_t \<Rightarrow> string \<Rightarrow> bool" where
  "cache_ok sets ways bytes policy \<longleftrightarrow> 0 < sets \<and> 0 < ways \<and> 0 < bytes \<and> policy \<in> {''LRU'', ''FIFO'', ''Random''}"

lemma new_cache_total: "cache_ok sets ways bytes policy \<Longrightarrow> \<exists>c. new_cache rng sets ways bytes policy = Inr c"
  by (auto simp: cache_ok_def new_cache_def)

definition buildable :: "system_config \<Rightarrow> bool" where
  "buildable c \<longleftrightarrow> 0 < cfg_num_sms c \<and>
     cache_ok (cfg_l1_sets c) (cfg_l1_associativity c) (cfg_l1_line_size c) (cfg_l1_policy c) \<and>
     cache_ok (cfg_l2_sets c) (cfg_l2_associativity c) (cfg_l2_line_size c) (cfg_l2_policy c) \<and>
     cfg_scheduler_policy c \<in> {''RR'', ''Greedy'', ''OldestFirst'', ''GTO''}"

lemma new_gpu_total: "buildable c \<Longrightarrow> \<exists>g. new_gpu rng c = Inr g"
proof -
  assume b: "buildable c"
  obtain l2 where l2: "new_cache rng (cfg_l2_sets c) (cfg_l2_associativity c) (cfg_l2_line_size c) (cfg_l2_policy c) = Inr l2"
    using b new_cache_total unfolding buildable_def by blast
  let ?mk = "\<lambda>i. bindE (new_sm rng i c) (\<lambda>s.
    bindE (create_scheduler (cfg_scheduler_policy c) (cfg_active_set_size c)) (\<lambda>sch. Inr (set_scheduler s sch)))"
  have mk: "\<exists>s. ?mk i = Inr s" for i
  proof -
    obtain l1 where "new_cache rng (cfg_l1_sets c) (cfg_l1_associativity c) (cfg_l1_line_size c) (cfg_l1_policy c) = Inr l1"
      using b new_cache_total unfolding buildable_def by blast
    moreover obtain sch where "create_scheduler (cfg_scheduler_policy c) (cfg_active_set_size c) = Inr sch"
    proof -
      have "cfg_scheduler_policy c \<in> {''RR'', ''Greedy'', ''OldestFirst'', ''GTO''}" using b unfolding buildable_def by blast
      then show ?thesis using that unfolding create_scheduler_def by auto
    qed
    ultimately show ?thesis by (simp add: new_sm_def)
  qed
  have "\<exists>sms. mapE ?mk [0..<cfg_num_sms c] = Inr sms" by (rule mapE_total, rule mk)
  then show ?thesis by (auto simp: new_gpu_def l2)
qed

lemma new_gpu_fresh:
  assumes "random_range rng" and "new_gpu rng c = Inr g" and "0 < cfg_num_sms c"
    and "cfg_scheduler_policy c \<in> {''RR'', ''Greedy'', ''OldestFirst'', ''GTO''}"
  shows "fresh_gpu c g"
  using new_gpu_usable[OF assms, of "gpu_global_memory g"] new_gpu_shared[OF assms(2)] by (simp add: fresh_gpu_def)

lemma fresh_runnable: "fresh_gpu c g \<Longrightarrow> runnable free ps g"
  by (auto simp: fresh_gpu_def intro: usable_runnable)

text \<open>A trace logger changes nothing that matters to a run.\<close>

lemma start_gpu_fresh:
  assumes "random_range rng" and "new_gpu rng c = Inr g" and "0 < cfg_num_sms c"
    and "cfg_scheduler_policy c \<in> {''RR'', ''Greedy'', ''OldestFirst'', ''GTO''}"
  shows "\<exists>g0. start_gpu rng c traced = Inr g0 \<and> fresh_gpu c g0 \<and> gpu_global_memory g0 = new_global_memory (cfg_global_memory_size c)"
proof -
  have m: "gpu_global_memory g = new_global_memory (cfg_global_memory_size c)" using assms(2) by (auto simp: new_gpu_def)
  have f: "fresh_gpu c g" by (rule new_gpu_fresh[OF assms])
  have "cache_inv (set_cache_callback x) = cache_inv x" "stats_inv (set_cache_callback x) = stats_inv x" for x
    by (simp_all add: cache_inv_def stats_inv_def set_cache_callback_def resident_lines_def)
  then have "fresh_gpu c (gpu_set_trace_logger g)" using f
    by (auto simp: fresh_gpu_def usable_def gpu_set_trace_logger_def sm_set_trace_logger_def sm_conserving_def)
  then show ?thesis using f m assms(2) by (simp add: start_gpu_def gpu_set_trace_logger_def)
qed

text \<open>
  A new GPU can run a kernel without barriers under every policy of the factory: \<open>Priority\<close> once
  no warp of a block is numbered beyond an \<open>int\<close>, \<open>TwoLevel\<close> once its active set has a place.
\<close>

lemma new_gpu_ready:
  assumes "random_range rng" and "new_gpu rng c = Inr g" and "0 < cfg_num_sms c"
    and "cfg_scheduler_policy c = ''Priority'' \<longrightarrow> bs \<le> 2 ^ 31 \<and> f \<in> {prioritised, \<lambda>w. w}"
    and "cfg_scheduler_policy c = ''TwoLevel'' \<longrightarrow> 0 < cfg_active_set_size c"
    and gr: "make_grid f init N bs ws = Inr gr" and size: "0 < bs" "0 < ws" "bs + ws < 2 ^ 64" "N + bs < 2 ^ 64"
  shows "runnable True (g_blocks gr) g"
proof (rule new_gpu_runnable[OF assms(1-3)])
  assume "cfg_scheduler_policy c = ''Priority''"
  then show "list_all urgent (blocks_warps (g_blocks gr))" using make_grid_urgent[OF gr _ size(2,1) _ size(3,4)] assms(4) by blast
qed (use assms(5) in simp)

section \<open>Vector add\<close>

lemma vector_add_run:
  assumes "runnable True (g_blocks gr) g"
    and "generate_vector_add_kernel iters = Inr k" and "build_benchmark_grid N bs ws strided = Inr gr"
    and "0 < bs" and "0 < ws" and "ws \<le> 32" and "bs + ws < 2 ^ 64" and "N + bs < 2 ^ 64" and "block_fits c req bs ws"
    and "s = (if strided then 32 else 4)" and "vadd_input N s (nat (sint iters)) m"
  shows "\<exists>g'. run_kernel (g\<lparr>gpu_global_memory := m\<rparr>) k gr c req = Some (Inr g') \<and>
    (\<forall>t < N. \<forall>i < nat (sint iters). \<exists>a b v. let x = t * s + 4 * i
       in gm_load m x = Inr a \<and> gm_load m (10000 + x) = Inr b \<and>
          gm_load (gpu_global_memory g') (20000 + x) = Inr v \<and> sint v = sint a + sint b) \<and>
    (\<forall>a < SHARED_MEM_BASE. \<not> (20000 \<le> a \<and> vadd_element N s (nat (sint iters)) (a - 20000)) \<longrightarrow>
       gm_load (gpu_global_memory g') a = gm_load m a)"
proof -
  let ?K = "nat (sint iters)" and ?g = "g\<lparr>gpu_global_memory := m\<rparr>"
  have u: "runnable True (g_blocks gr) ?g" using assms(1) by simp
  note k = vadd_kernel[OF assms(2)]
  have start: "vadd_lane N s ?K m 0 t (view_of (gpu_global_memory ?g))" if "initialised (benchmark_init strided) t" "t_global_id t < N" for t
    using vadd_initial[OF that assms(11,10)] by simp
  from vadd.map_runs[OF k u assms(3)[unfolded build_benchmark_grid_def] keeps_prioritised assms(5,6,4,7,8,9) start]
  obtain g1 g2 where r: "launch_kernel ?g gr c req = Inr g1" "run_to_completion k g1 = Some (Inr g2)"
    "vadd.grows N s iters m m (gpu_global_memory g2)"
    "\<forall>t < N. \<exists>th. t_global_id th = t \<and> vadd_lane N s ?K m (length (vadd_program iters)) th (view_of (gpu_global_memory g2))" by auto
  have run: "run_kernel ?g k gr c req = Some (Inr g2)" using r(1,2) by (simp add: run_kernel_def)
  have len: "length (vadd_program iters) = 4 * ?K"
    using concat_blocks(1)[where f = vadd_body and c = 4 and n = ?K] by (simp add: vadd_program_def vadd_body_def)
  have "\<exists>a b v. gm_load m x = Inr a \<and> gm_load m (10000 + x) = Inr b \<and>
      gm_load (gpu_global_memory g2) (20000 + x) = Inr v \<and> sint v = sint a + sint b"
    if t: "t < N" and i: "i < ?K" and x: "x = t * s + 4 * i" for t i x
  proof -
    have "vadd_element N s ?K x" using t i by (auto simp: vadd_element_def x)
    note inp = vadd_apart[OF assms(11) this]
    have "view_of (gpu_global_memory g2) (20000 + x) = Inr (vadd_sum m x)"
      using r(4) t i by (auto simp: vadd_lane_def Let_def len x add.assoc)
    then have "gm_load (gpu_global_memory g2) (20000 + x) = Inr (vadd_sum m x)"
      using inp(3) by (simp add: view_of_def)
    moreover have "gm_load m x = Inr (word_of m x)" "gm_load m (10000 + x) = Inr (word_of m (10000 + x))"
      using inp(4) by (simp_all add: word_of_def gm_load_def)
    moreover have "c_add (word_of m x) (word_of m (10000 + x)) = Inr (vadd_sum m x)"
      using inp(5,6) by (simp add: c_add_def checked_int_Inr vadd_sum_def)
    ultimately show ?thesis using alu_exact(1) by blast
  qed
  moreover have "gm_load (gpu_global_memory g2) a = gm_load m a"
    if "a < SHARED_MEM_BASE" "\<not> (20000 \<le> a \<and> vadd_element N s ?K (a - 20000))" for a
    using r(3) that by (auto simp: vadd.grows_def vadd_target_def)
  ultimately show ?thesis using run by (auto simp: Let_def)
qed

section \<open>Memory copy\<close>

lemma memcpy_run:
  assumes "runnable True (g_blocks gr) g" and "build_memcpy_grid N bs ws pattern = Inr gr"
    and "0 < bs" and "0 < ws" and "ws \<le> 32" and "bs + ws < 2 ^ 64" and "N + bs < 2 ^ 64" and "block_fits c req bs ws"
    and "\<forall>t < N. \<forall>i < nat (sint iters). memcpy_offset pattern N t i < 1000000 \<and>
           1000000 + memcpy_offset pattern N t i < length (gm_data m)"
  shows "\<exists>g'. run_kernel (g\<lparr>gpu_global_memory := m\<rparr>) (generate_memcpy_kernel iters) gr c req = Some (Inr g') \<and>
    (\<forall>t < N. \<forall>i < nat (sint iters).
       gm_load (gpu_global_memory g') (1000000 + memcpy_offset pattern N t i) = gm_load m (memcpy_offset pattern N t i)) \<and>
    (\<forall>a < SHARED_MEM_BASE. (\<forall>t < N. \<forall>i < nat (sint iters). a \<noteq> 1000000 + memcpy_offset pattern N t i) \<longrightarrow>
       gm_load (gpu_global_memory g') a = gm_load m a)"
proof -
  let ?K = "nat (sint iters)" and ?g = "g\<lparr>gpu_global_memory := m\<rparr>" and ?k = "generate_memcpy_kernel iters"
  let ?off = "\<lambda>t. fst (memcpy_pattern pattern N t)" and ?st = "snd (memcpy_pattern pattern N 0)"
  have off: "memcpy_offset pattern N t i = ?off t + i * ?st" for t i by (simp add: memcpy_offset_def)
  have inp: "copy_input N ?off ?st ?K m" unfolding copy_input_def using assms(9)[unfolded off] by blast
  have u: "runnable True (g_blocks gr) ?g" using assms(1) by simp
  have start: "copy_lane N ?off ?st ?K m 0 t (view_of (gpu_global_memory ?g))" if "initialised (memcpy_init N pattern) t" "t_global_id t < N" for t
    using copy_initial[OF that inp] by simp
  from mcpy.map_runs[OF memcpy_kernel u assms(2)[unfolded build_memcpy_grid_def] keeps_prioritised assms(4,5,3,6,7,8) start]
  obtain g1 g2 where r: "launch_kernel ?g gr c req = Inr g1" "run_to_completion ?k g1 = Some (Inr g2)"
    "mcpy.grows N ?off ?st iters m m (gpu_global_memory g2)"
    "\<forall>t < N. \<exists>th. t_global_id th = t \<and> copy_lane N ?off ?st ?K m (length (copy_program iters)) th (view_of (gpu_global_memory g2))" by auto
  have "gm_load (gpu_global_memory g2) (1000000 + x) = gm_load m x" if t: "t < N" and i: "i < ?K" and x: "x = ?off t + i * ?st" for t i x
  proof -
    have b: "x < 1000000" "1000000 + x < length (gm_data m)" using inp t i by (simp_all add: copy_input_def x)
    then have l: "gm_load m x = Inr (word_of m x)" by (intro word_of_load) simp
    obtain J where J: "?K = Suc J" using i by (cases ?K) auto
    have p: "length (copy_program iters) = 4 * J + 2" by (simp add: copy_program_nth(1) J)
    then have "length (copy_program iters) div 4 = J" "length (copy_program iters) mod 4 = 2" by presburger+
    then have "view_of (gpu_global_memory g2) (1000000 + x) = Inr (word_of m x)"
      using r(4)[rule_format, OF t] i J by (auto simp: copy_lane_def Let_def x less_Suc_eq)
    then show ?thesis using b(1) l by (simp add: view_of_def SHARED_MEM_BASE_def)
  qed
  moreover have "gm_load (gpu_global_memory g2) a = gm_load m a"
    if a: "a < SHARED_MEM_BASE" "\<forall>t < N. \<forall>i < ?K. a \<noteq> 1000000 + memcpy_offset pattern N t i" for a
  proof -
    have "\<not> copied N ?off ?st ?K (a - 1000000)" if "1000000 \<le> a"
      using a(2) le_add_diff_inverse[OF that] unfolding copied_def off by metis
    then have "copy_target N ?off ?st ?K m a = None" by (auto simp: copy_target_def)
    then show ?thesis using r(3) a(1) by (auto simp: mcpy.grows_def)
  qed
  ultimately show ?thesis using r(1,2) by (auto simp: run_kernel_def off)
qed

section \<open>Reduction\<close>

lemma reduction_run:
  assumes "fresh_gpu c0 g"
    and "B = 2 ^ d" and "d \<le> 12" and "nb = (n + B - 1) div B"
    and "generate_reduction_kernel (size_to_int B) = Inr k" and "build_reduction_grid n B ws = Inr gr"
    and "0 < ws" and "ws \<le> 32" and "n + B < 2 ^ 64" and "block_fits c req B ws"
    and "4 * (nb * B) \<le> cfg_max_shared_memory_per_sm c0" and "4 * n + 4 * nb \<le> min SHARED_MEM_BASE (length (gm_data m))"
    and "\<forall>b < nb. (\<Sum>i<B. \<bar>red_elem n m (b * B + i)\<bar>) < 2 ^ 31"
  shows "\<exists>g'. run_kernel (g\<lparr>gpu_global_memory := m\<rparr>) k gr c req = Some (Inr g') \<and>
    (\<forall>b < nb. \<exists>v. gm_load (gpu_global_memory g') (4 * n + 4 * b) = Inr v \<and>
       sint v = (\<Sum>i \<in> {b * B ..< min (b * B + B) n}. sint (word_of m (4 * i)))) \<and>
    (\<forall>a < SHARED_MEM_BASE. (\<forall>b < nb. a \<noteq> 4 * n + 4 * b) \<longrightarrow> gm_load (gpu_global_memory g') a = gm_load m a)"
proof -
  let ?b = "size_to_int B" and ?g = "g\<lparr>gpu_global_memory := m\<rparr>"
  note sz = red_size_power[OF assms(2,3)]
  have nb: "red_blocks n ?b = nb" by (simp add: red_blocks_def sz assms(4))
  have "\<forall>b < nb. block_weight n ?b m b < 2 ^ 31" using assms(13) unfolding block_weight_def sz .
  then have inp: "red_input n ?b m" unfolding red_input_def nb sz
    using assms(2,3,12) by (simp add: red_out_def)
  have "(2 :: nat) ^ d \<le> 2 ^ 12" using assms(3) by (rule power_increasing) simp
  then have B: "0 < B" "B \<le> 2 ^ 12" by (simp_all add: assms(2))
  have u: "runnable free (g_blocks gr) ?g" for free gr using assms(1) usable_runnable[of ?g] by (simp add: fresh_gpu_def usable_def)
  have ros: "block_roster n (red_size ?b) = block_roster n B" by (simp only: sz)
  have start: "red_lane n ?b m 0 t (space (sm_shared_memory s) (gpu_global_memory ?g))"
    if "initialised (reduction_init n B) t" "t_global_id t < n" "placed B t" "s \<in> set (gpu_sms ?g)" for t s
  proof -
    have "sm_shared_memory s = new_shared_memory (cfg_max_shared_memory_per_sm c0) (cfg_shared_memory_banks c0)"
      using assms(1) that(4) by (simp add: fresh_gpu_def)
    with red_initial[OF that(1,2,3) inp sz(1)] assms(11) show ?thesis by (simp add: nb)
  qed
  have wrap: "B + ws < 2 ^ 64" using B(2) assms(8) by simp
  from red.grid_runs[OF reduction_kernel[OF assms(5)] u assms(6)[unfolded build_reduction_grid_def] keeps_prioritised assms(7,8)
      B(1) wrap assms(9,10) ros start TrueI]
  obtain g1 g2 where r: "launch_kernel ?g gr c req = Inr g1" "run_to_completion k g1 = Some (Inr g2)"
    "red.grows n ?b m m (gpu_global_memory g2)"
    "\<forall>i < n. \<exists>t sh. t_global_id t = i \<and> t_block_id t = i div B \<and>
       red_lane n ?b m (length (red_program ?b)) t (space sh (gpu_global_memory g2))" by auto
  have "\<exists>v. gm_load (gpu_global_memory g2) (4 * n + 4 * b) = Inr v \<and>
      sint v = (\<Sum>i \<in> {b * B ..< min (b * B + B) n}. sint (word_of m (4 * i)))" if b: "b < nb" for b
  proof -
    have "b * B < n" using chunks_cover(2)[OF B(1), of b n] b by (simp add: assms(4))
    then obtain t sh where t: "t_global_id t = b * B" "t_block_id t = b"
      "red_lane n ?b m (length (red_program ?b)) t (space sh (gpu_global_memory g2))" using r(4)[rule_format, of "b * B"] B(1) by auto
    from red_final[OF t(3)] t(1,2) have "space sh (gpu_global_memory g2) (red_out n b) = Inr (red_value n ?b m b (red_rounds ?b) 0)"
      by (simp add: sz)
    moreover have "red_out n b < SHARED_MEM_BASE" using assms(12) b by (simp add: red_out_def)
    ultimately have v: "gm_load (gpu_global_memory g2) (4 * n + 4 * b) = Inr (red_value n ?b m b (red_rounds ?b) 0)"
      by (simp add: space_def red_out_def)
    have "sint (red_value n ?b m b (red_rounds ?b) 0) = block_sum n ?b m b"
      using red_value_sint[of ?b "red_rounds ?b" 0 n m b] inp b by (simp add: red_input_def nb partial_sum_last width_power)
    then show ?thesis using v block_sum_elements[of n ?b m b] by (simp add: sz)
  qed
  moreover have "gm_load (gpu_global_memory g2) a = gm_load m a" if "a < SHARED_MEM_BASE" "\<forall>b < nb. a \<noteq> 4 * n + 4 * b" for a
  proof -
    have "red_target n ?b m a = None" using that(2) by (auto simp: red_target_def nb elim!: dvdE)
    then show ?thesis using r(3) that(1) by (auto simp: red.grows_def)
  qed
  ultimately show ?thesis using r(1,2) by (auto simp: run_kernel_def)
qed

section \<open>Histogram\<close>

lemma histogram_run:
  assumes "fresh_gpu c0 g"
    and "generate_histogram_kernel (size_to_int K) (size_to_int B) = Inr k" and "build_histogram_grid n B ws K = Inr gr"
    and "0 < B" and "K + B < 2 ^ 31" and "0 < ws" and "ws \<le> 32" and "n + B < 2 ^ 64" and "block_fits c req B ws"
    and "nb = (n + B - 1) div B" and "4 * (nb * K) \<le> cfg_max_shared_memory_per_sm c0"
    and "4 * n + 4 * (nb * K) \<le> min SHARED_MEM_BASE (length (gm_data m))"
    and "\<forall>i < n. \<exists>j < K. gm_load m (4 * i) = Inr (of_nat j)"
  shows "\<exists>g'. run_kernel (g\<lparr>gpu_global_memory := m\<rparr>) k gr c req = Some (Inr g') \<and>
    (\<forall>b < nb. \<forall>j < K. b * B + j mod B < n \<longrightarrow>
       (\<exists>v. gm_load (gpu_global_memory g') (4 * n + 4 * (b * K + j)) = Inr v \<and>
          sint v = int (card {i \<in> {b * B ..< min (b * B + B) n}. gm_load m (4 * i) = Inr (of_nat j)}))) \<and>
    (\<forall>a < SHARED_MEM_BASE. (\<forall>b < nb. \<forall>j < K. b * B + j mod B < n \<longrightarrow> a \<noteq> 4 * n + 4 * (b * K + j)) \<longrightarrow>
       gm_load (gpu_global_memory g') a = gm_load m a)"
proof -
  let ?g = "g\<lparr>gpu_global_memory := m\<rparr>"
  note k = histogram_kernel[OF assms(2,4,5)]
  have nb: "his_blocks n B = nb" by (simp add: his_blocks_def assms(10))
  have elem: "gm_load m (4 * i) = Inr (of_nat j) \<longleftrightarrow> his_elem m i = j" "0 \<le> sint (word_of m (4 * i)) \<and> his_elem m i < K"
    if "i < n" "j < K" for i j
  proof -
    obtain x where x: "x < K" "gm_load m (4 * i) = Inr (of_nat x)" using assms(13) \<open>i < n\<close> by blast
    then have w: "word_of m (4 * i) = of_nat x" "sint (of_nat x :: c_int) = int x" "sint (of_nat j :: c_int) = int j"
      using assms(5) that(2) by (simp_all add: word_of_def sint_of_nat)
    then have "his_elem m i = x" by (simp add: his_elem_def)
    moreover have "of_nat x = (of_nat j :: c_int) \<longleftrightarrow> x = j" using w(2,3) by (metis of_nat_eq_iff)
    ultimately show "gm_load m (4 * i) = Inr (of_nat j) \<longleftrightarrow> his_elem m i = j" "0 \<le> sint (word_of m (4 * i)) \<and> his_elem m i < K"
      using x w(1,2) by simp_all
  qed
  have inp: "his_input n K B m"
    unfolding his_input_def nb using assms(4,12,13) k(2) elem(2) by (auto simp: his_out_def)
  have u: "runnable free (g_blocks gr) ?g" for free gr using assms(1) usable_runnable[of ?g] by (simp add: fresh_gpu_def usable_def)
  have start: "his_lane n K B m 0 t (space (sm_shared_memory s) (gpu_global_memory ?g))"
    if "initialised (histogram_init n B K) t" "t_global_id t < n" "placed B t" "s \<in> set (gpu_sms ?g)" for t s
  proof -
    have "sm_shared_memory s = new_shared_memory (cfg_max_shared_memory_per_sm c0) (cfg_shared_memory_banks c0)"
      using assms(1) that(4) by (simp add: fresh_gpu_def)
    with his_initial[OF that(1,2,3) inp] assms(11) show ?thesis by (simp add: nb)
  qed
  have jstart: "his_joint n K B m b (\<lambda>_. 0) (space (sm_shared_memory s) (gpu_global_memory ?g))" if "s \<in> set (gpu_sms ?g)" "b * B < n" for b s
  proof -
    have "sm_shared_memory s = new_shared_memory (cfg_max_shared_memory_per_sm c0) (cfg_shared_memory_banks c0)"
      using assms(1) that(1) by (simp add: fresh_gpu_def)
    with his_joint_initial[OF assms(4) that(2)] assms(11) show ?thesis by (simp add: nb)
  qed
  have wrap: "B + ws < 2 ^ 64" using assms(5,7) by simp
  from his.grid_runs[OF k(1) u assms(3)[unfolded build_histogram_grid_def] keeps_prioritised assms(6,7,4) wrap assms(8,9) refl start jstart]
  obtain g1 g2 where r: "launch_kernel ?g gr c req = Inr g1" "run_to_completion k g1 = Some (Inr g2)"
    "his.grows n K B m m (gpu_global_memory g2)"
    "\<forall>i < n. \<exists>t sh. t_global_id t = i \<and> t_block_id t = i div B \<and>
       his_lane n K B m (length (his_program K B)) t (space sh (gpu_global_memory g2))" by auto
  have "\<exists>v. gm_load (gpu_global_memory g2) (4 * n + 4 * (b * K + j)) = Inr v \<and>
      sint v = int (card {i \<in> {b * B ..< min (b * B + B) n}. gm_load m (4 * i) = Inr (of_nat j)})"
    if b: "b < nb" and j: "j < K" and th: "b * B + j mod B < n" for b j
  proof -
    obtain t sh where t: "t_global_id t = b * B + j mod B" "t_block_id t = b"
      "his_lane n K B m (length (his_program K B)) t (space sh (gpu_global_memory g2))" using r(4)[rule_format, OF th] assms(4) by auto
    from his_final[OF t(3) j] t(1,2) have v: "space sh (gpu_global_memory g2) (his_out n K b j) = Inr (of_nat (his_count n B m b j))" by simp
    have c: "his_common n K B m t (space sh (gpu_global_memory g2))" using t(3) by (simp add: his_lane_def)
    have low: "his_out n K b j < SHARED_MEM_BASE" using his_common_bounds(3)[OF c j] t(2) by simp
    have "his_count n B m b j \<le> n" unfolding his_count_def by (rule roster_card)
    then have "his_count n B m b j < 2 ^ 31" using his_common_bounds(7)[OF c] by (simp add: SHARED_MEM_BASE_def)
    moreover have "his_count n B m b j = card {i \<in> {b * B ..< min (b * B + B) n}. gm_load m (4 * i) = Inr (of_nat j)}"
      unfolding his_count_def using elem(1) j by (intro arg_cong[where f = card]) (auto simp: block_roster_def)
    ultimately show ?thesis using v low by (simp add: space_def his_out_def sint_of_nat)
  qed
  moreover have "gm_load (gpu_global_memory g2) a = gm_load m a"
    if a: "a < SHARED_MEM_BASE" "\<forall>b < nb. \<forall>j < K. b * B + j mod B < n \<longrightarrow> a \<noteq> 4 * n + 4 * (b * K + j)" for a
  proof -
    have "his_target n K B m a = None"
    proof (rule ccontr)
      let ?x = "(a - 4 * n) div 4"
      assume "his_target n K B m a \<noteq> None"
      then have x: "4 * n \<le> a" "(a - 4 * n) mod 4 = 0" "?x < nb * K" "?x div K * B + ?x mod K mod B < n"
        by (auto simp: his_target_def Let_def nb split: if_splits)
      then have "?x div K < nb" "?x mod K < K" by (auto simp: less_mult_imp_div_less intro!: mod_less_divisor gr0I)
      moreover have "a = 4 * n + 4 * (?x div K * K + ?x mod K)" using x(1,2) by auto
      ultimately show False using a(2) x(4) by blast
    qed
    then show ?thesis using r(3) a(1) by (auto simp: his.grows_def)
  qed
  ultimately show ?thesis using r(1,2) by (auto simp: run_kernel_def)
qed

end
