(* ===== verification/Benchmark_Runs.thy ===== *)
theory Benchmark_Runs
  imports Kernel_Runs Benchmarks
begin

text \<open>
  The benchmark drivers from end to end: the memory they fill, the kernel they run and the check
  they make. The lemmas here say what the filling loops and the checks compute.
\<close>

section \<open>Loops over the memory\<close>

lemma foldE_index:
  assumes "P 0 s" and "\<And>i s. i < length xs \<Longrightarrow> P i s \<Longrightarrow> \<exists>s'. f s (xs ! i) = Inr s' \<and> P (Suc i) s'"
  shows "\<exists>s'. foldE f s xs = Inr s' \<and> P (length xs) s'"
  using assms
proof (induction xs arbitrary: s P)
  case (Cons x xs)
  obtain s1 where s1: "f s x = Inr s1" "P (Suc 0) s1" using Cons.prems(2)[of 0 s] Cons.prems(1) by auto
  have "\<exists>s'. foldE f s1 xs = Inr s' \<and> P (Suc (length xs)) s'"
    by (rule Cons.IH[of "\<lambda>i. P (Suc i)", OF s1(2)]) (use Cons.prems(2)[of "Suc _"] in simp)
  then show ?case using s1(1) by simp
qed simp

lemmas foldE_upt = foldE_index[where xs = "[0..<n]" for n, simplified length_upt diff_zero]

lemma store_ok: "a < length (gm_data m) \<Longrightarrow> \<exists>m'. gm_store m a v = Inr m' \<and> length (gm_data m') = length (gm_data m) \<and>
    (\<forall>b. gm_load m' b = (if b = a then Inr v else gm_load m b))"
  using glob.wr_in[of a m v] glob.wr_capacity[of m a v] glob.rd_wr[of m a v] by auto

lemma new_memory_length: "length (gm_data (new_global_memory n)) = n"
  by (simp add: new_global_memory_def)

lemma enlarged: "10485760 \<le> cfg_global_memory_size (enlarge_memory c)"
  "cfg_num_sms (enlarge_memory c) = cfg_num_sms c" "cfg_scheduler_policy (enlarge_memory c) = cfg_scheduler_policy c"
  "cfg_max_shared_memory_per_sm (enlarge_memory c) = cfg_max_shared_memory_per_sm c"
  by (simp_all add: enlarge_memory_def)

text \<open>The GPU of a driver that asks for at least ten megabytes.\<close>

lemma driver_gpu:
  assumes "random_range rng" and "new_gpu rng (enlarge_memory c) = Inr g" and "0 < cfg_num_sms c"
    and "cfg_scheduler_policy c \<in> {''RR'', ''Greedy'', ''OldestFirst'', ''GTO''}"
  obtains g0 where "start_gpu rng (enlarge_memory c) traced = Inr g0" and "fresh_gpu (enlarge_memory c) g0"
    and "10485760 \<le> length (gm_data (gpu_global_memory g0))"
  using start_gpu_fresh[OF assms(1,2), of traced] assms(3,4) that by (auto simp: enlarged new_memory_length)

section \<open>Memory copy\<close>

lemma memcpy_fill_total:
  assumes "distinct (map fst ws)" and "\<forall>p \<in> set ws. fst p < 1000000" and "2000000 \<le> length (gm_data gm)"
  shows "\<exists>gm'. memcpy_fill ws gm = Inr gm' \<and> length (gm_data gm') = length (gm_data gm) \<and>
    (\<forall>p \<in> set ws. gm_load gm' (fst p) = Inr (snd p))"
proof -
  let ?P = "\<lambda>i m. length (gm_data m) = length (gm_data gm) \<and> (\<forall>j < i. gm_load m (fst (ws ! j)) = Inr (snd (ws ! j)))"
  have "\<exists>gm'. memcpy_fill ws gm = Inr gm' \<and> ?P (length ws) gm'"
    unfolding memcpy_fill_def
  proof (rule foldE_index[where P = ?P])
    fix i m assume i: "i < length ws" and m: "?P i m"
    obtain a v where ws: "ws ! i = (a, v)" by fastforce
    then have a: "a < 1000000" using assms(2) nth_mem[OF i] by auto
    have other: "fst (ws ! j) \<noteq> a \<and> fst (ws ! j) < 1000000" if "j < i" for j
      using assms(1,2) i that ws nth_eq_iff_index_eq[OF assms(1), of i j] by auto
    obtain m1 where m1: "gm_store m a v = Inr m1" "length (gm_data m1) = length (gm_data m)"
      "\<forall>b. gm_load m1 b = (if b = a then Inr v else gm_load m b)" using store_ok[of a m v] m a assms(3) by auto
    obtain m2 where m2: "gm_store m1 (1000000 + a) 0 = Inr m2" "length (gm_data m2) = length (gm_data m1)"
      "\<forall>b. gm_load m2 b = (if b = 1000000 + a then Inr 0 else gm_load m1 b)"
      using store_ok[of "1000000 + a" m1 0] m1 m a assms(3) by auto
    have "gm_load m2 (fst (ws ! j)) = Inr (snd (ws ! j))" if "j < Suc i" for j
    proof (cases "j < i")
      case True
      then show ?thesis using other[OF True] m m1(3) m2(3) by simp
    next
      case False
      then have "j = i" using that by simp
      then show ?thesis using m1(3) m2(3) ws a by simp
    qed
    then have "?P (Suc i) m2" using m m1(2) m2(2) by simp
    then show "\<exists>s'. (case ws ! i of (offset, v) \<Rightarrow> bindE (gm_store m offset v) (\<lambda>gm1. gm_store gm1 (1000000 + offset) 0)) = Inr s' \<and> ?P (Suc i) s'"
      using m1(1) m2(1) ws by simp
  qed simp
  then show ?thesis by (metis in_set_conv_nth)
qed

lemma memcpy_check_true: "\<forall>p \<in> set ws. gm_load gm (1000000 + fst p) = Inr (snd p) \<Longrightarrow> memcpy_check ws gm = Inr True"
  unfolding memcpy_check_def by (subst mapE_Inr_map[where g = "\<lambda>_. True"]) (auto simp: list_all_iff split: prod.splits)

text \<open>The words of the three access patterns are apart.\<close>

lemma memcpy_apart:
  assumes "pattern \<in> {''contiguous'', ''strided'', ''random''}" and "pattern = ''random'' \<Longrightarrow> coprime n 101"
  obtains c r where "c \<in> {4, 32}" and "\<And>i iter. memcpy_offset pattern n i iter = c * (r i + iter * n)"
    and "inj_on r {..<n}" and "\<And>i. i < n \<Longrightarrow> r i < n"
proof -
  consider (1) "pattern = ''contiguous''" | (2) "pattern = ''strided''" | (3) "pattern = ''random''" using assms(1) by blast
  then show thesis
  proof cases
    case 1
    show thesis by (rule that[of 4 id]) (simp_all add: 1 memcpy_offset_def memcpy_pattern_def)
  next
    case 2
    show thesis by (rule that[of 32 id]) (simp_all add: 2 memcpy_offset_def memcpy_pattern_def)
  next
    case 3
    have "inj_on (\<lambda>i. (i * 101) mod n) {..<n}"
    proof (rule inj_onI)
      fix x y assume xy: "x \<in> {..<n}" "y \<in> {..<n}" "(x * 101) mod n = (y * 101) mod n"
      have same: "x = y" if "y \<le> x" "x < n" "(x * 101) mod n = (y * 101) mod n" for x y :: nat
      proof -
        have "n dvd x * 101 - y * 101" using that by (subst mod_eq_dvd_iff_nat[symmetric]) simp_all
        then have "n dvd (x - y) * 101" by (simp add: diff_mult_distrib)
        then have "n dvd x - y" using assms(2)[OF 3] by (simp add: coprime_dvd_mult_left_iff)
        then show ?thesis using that(1,2) by (auto dest: dvd_imp_le)
      qed
      show "x = y" using same[of x y] same[of y x] xy by (cases "y \<le> x") auto
    qed
    then show thesis by (intro that[of 4 "\<lambda>i. (i * 101) mod n"]) (simp_all add: 3 memcpy_offset_def memcpy_pattern_def)
  qed
qed

lemma fst_memcpy_word: "fst (memcpy_word pattern n (i, iter)) = memcpy_offset pattern n i iter"
  using memcpy_stride[of pattern n i 0] by (auto simp: memcpy_word_def memcpy_offset_def split: prod.splits)

lemma memcpy_words_ok:
  assumes "pattern \<in> {''contiguous'', ''strided'', ''random''}" and "pattern = ''random'' \<Longrightarrow> coprime n 101" and "n \<le> 3125"
  shows "distinct (map fst (memcpy_words pattern n 10))" and "\<And>i iter. i < n \<Longrightarrow> iter < 10 \<Longrightarrow> memcpy_offset pattern n i iter < 1000000"
proof -
  obtain c r where cr: "c \<in> {4 :: nat, 32}" "\<And>i iter. memcpy_offset pattern n i iter = c * (r i + iter * n)" "inj_on r {..<n}"
    "\<And>i. i < n \<Longrightarrow> r i < n" by (rule memcpy_apart[OF assms(1,2)]) auto
  have same: "i = j \<and> x = y" if a: "i < n" "j < n" and e: "memcpy_offset pattern n i x = memcpy_offset pattern n j y" for i j x y
  proof -
    have "r i + x * n = r j + y * n" using e cr(1) by (auto simp: cr(2))
    then have "(r i + x * n) mod n = (r j + y * n) mod n" "(r i + x * n) div n = (r j + y * n) div n" by simp_all
    then have "r i = r j" "x = y" using cr(4) a by simp_all
    then show "i = j \<and> x = y" using cr(3) a by (auto dest: inj_onD)
  qed
  have "inj_on (fst \<circ> memcpy_word pattern n) ({..<n} \<times> {..<10})"
  proof (rule inj_onI)
    fix p q assume a: "p \<in> {..<n} \<times> {..<(10 :: nat)}" "q \<in> {..<n} \<times> {..<(10 :: nat)}"
      and e: "(fst \<circ> memcpy_word pattern n) p = (fst \<circ> memcpy_word pattern n) q"
    obtain i x j y where p: "p = (i, x)" "q = (j, y)" by fastforce
    have "memcpy_offset pattern n i x = memcpy_offset pattern n j y" using e by (simp only: p comp_apply fst_memcpy_word)
    from same[OF _ _ this] show "p = q" using a by (simp add: p)
  qed
  then show "distinct (map fst (memcpy_words pattern n 10))"
    by (simp add: memcpy_words_def distinct_map distinct_product atLeast0LessThan)
  show "memcpy_offset pattern n i iter < 1000000" if "i < n" "iter < 10" for i iter
  proof -
    have "iter * n \<le> 9 * n" using that(2) by (intro mult_right_mono) simp_all
    then have "r i + iter * n < 31250" using cr(4)[OF that(1)] assms(3) by linarith
    then show ?thesis using cr(1) by (auto simp: cr(2))
  qed
qed

lemma memcpy_driver:
  assumes "random_range rng" and "new_gpu rng (enlarge_memory c) = Inr g" and "0 < cfg_num_sms c"
    and "cfg_scheduler_policy c \<in> {''RR'', ''Greedy'', ''OldestFirst'', ''GTO''}"
    and "0 < cfg_block_size c" and "0 < cfg_warp_size c" and "cfg_warp_size c \<le> 32" and "cfg_block_size c < 2 ^ 63"
    and "block_fits c (requirements 10 0) (cfg_block_size c) (cfg_warp_size c)"
    and "pattern \<in> {''contiguous'', ''strided'', ''random''}" and "pattern = ''random'' \<Longrightarrow> coprime n 101" and "n \<le> 3125"
  shows "\<exists>row. run_memcpy_benchmark rng traced name c n pattern st = Some (Inr (append_csv name memcpy_header row (say [Passed pattern] st)))"
proof -
  note ok = memcpy_words_ok[OF assms(10-12)]
  obtain g0 where g0: "start_gpu rng (enlarge_memory c) traced = Inr g0" "fresh_gpu (enlarge_memory c) g0"
    "10485760 \<le> length (gm_data (gpu_global_memory g0))" by (rule driver_gpu[OF assms(1-4)])
  have low: "\<forall>p \<in> set (memcpy_words pattern n 10). fst p < 1000000"
    using ok(2) by (auto simp: memcpy_words_def fst_memcpy_word)
  obtain m where m: "memcpy_fill (memcpy_words pattern n 10) (gpu_global_memory g0) = Inr m"
    "length (gm_data m) = length (gm_data (gpu_global_memory g0))" "\<forall>p \<in> set (memcpy_words pattern n 10). gm_load m (fst p) = Inr (snd p)"
    using memcpy_fill_total[OF ok(1) low, of "gpu_global_memory g0"] g0(3) by auto
  have regs: "good_registers (memcpy_init n pattern b l i)" for b l i
    by (auto simp: good_registers_def memcpy_init_def split: prod.splits)
  obtain gr where gr: "build_memcpy_grid n (cfg_block_size c) (cfg_warp_size c) pattern = Inr gr"
    using make_grid_total[of "memcpy_init n pattern", OF regs assms(6,5)] unfolding build_memcpy_grid_def by blast
  have wrap: "cfg_block_size c + cfg_warp_size c < 2 ^ 64" "n + cfg_block_size c < 2 ^ 64" using assms(7,8,12) by simp_all
  have iters: "nat (sint (10 :: c_int)) = 10" by simp
  have inp: "\<forall>t < n. \<forall>i < nat (sint (10 :: c_int)). memcpy_offset pattern n t i < 1000000 \<and>
      1000000 + memcpy_offset pattern n t i < length (gm_data m)" using ok(2) m(2) g0(3) unfolding iters by fastforce
  obtain g' where g': "run_kernel (g0\<lparr>gpu_global_memory := m\<rparr>) (generate_memcpy_kernel 10) gr c (requirements 10 0) = Some (Inr g')"
    "\<forall>t < n. \<forall>i < 10. gm_load (gpu_global_memory g') (1000000 + memcpy_offset pattern n t i) = gm_load m (memcpy_offset pattern n t i)"
    using memcpy_run[OF fresh_runnable[OF g0(2)] gr assms(5-7) wrap assms(9) inp] unfolding iters by blast
  have "\<forall>p \<in> set (memcpy_words pattern n 10). gm_load (gpu_global_memory g') (1000000 + fst p) = Inr (snd p)"
    using m(3) g'(2) by (auto simp: memcpy_words_def fst_memcpy_word)
  from memcpy_check_true[OF this] show ?thesis using g0(1) m(1) gr g'(1) by (simp add: run_memcpy_benchmark_def Let_def) (rule exI, rule refl)
qed

section \<open>Expected results\<close>

lemma check_words_true:
  assumes "\<And>i. i < length expected \<Longrightarrow> gm_load gm (base + i * 4) = Inr (expected ! i)"
  shows "check_words base expected gm = Inr True"
proof -
  have "mapE (\<lambda>(i, v). bindE (gm_load gm (base + i * 4)) (\<lambda>x. Inr (x = v))) (enumerate 0 expected) =
      Inr (map (\<lambda>_. True) (enumerate 0 expected))"
    by (rule mapE_Inr_map) (use assms in \<open>auto simp: in_set_enumerate_eq\<close>)
  then show ?thesis by (auto simp: check_words_def list_all_iff)
qed

text \<open>The loop that clears the words of the output.\<close>

lemma clear_words:
  assumes "\<forall>x \<in> set xs. base \<le> f x \<and> f x < length (gm_data gm)"
  shows "\<exists>gm'. foldE (\<lambda>gm x. gm_store gm (f x) 0) gm xs = Inr gm' \<and> length (gm_data gm') = length (gm_data gm) \<and>
    (\<forall>a < base. gm_load gm' a = gm_load gm a)"
proof (rule foldE_total)
  fix m x assume x: "x \<in> set xs" and m: "length (gm_data m) = length (gm_data gm) \<and> (\<forall>a < base. gm_load m a = gm_load gm a)"
  then have "base \<le> f x" "f x < length (gm_data m)" using assms by auto
  then show "\<exists>m'. gm_store m (f x) 0 = Inr m' \<and> length (gm_data m') = length (gm_data gm) \<and> (\<forall>a < base. gm_load m' a = gm_load gm a)"
    using store_ok[of "f x" m 0] m by fastforce
qed simp

text \<open>The elements of a block, and of its bins, seen so far.\<close>

lemma block_so_far:
  "{j. j < Suc i \<and> j div B = b} = (if i div B = b then insert i {j. j < i \<and> j div B = b} else {j. j < i \<and> j div B = (b :: nat)})"
  by (auto simp: less_Suc_eq)

lemma block_elements: "0 < B \<Longrightarrow> {j. j < n \<and> j div B = b} = {b * B ..< min (b * B + B) (n :: nat)}"
proof -
  assume B: "0 < B"
  have "j div B = b \<longleftrightarrow> b * B \<le> j \<and> j < b * B + B" for j
  proof
    show "b * B \<le> j \<and> j < b * B + B" if "j div B = b"
      using dividend_less_times_div[OF B, of j] unfolding that[symmetric] by (simp add: mult.commute)
    show "j div B = b" if "b * B \<le> j \<and> j < b * B + B"
      by (rule div_nat_eqI) (use that in \<open>simp_all add: mult.commute\<close>)
  qed
  then show ?thesis by (simp only: set_eq_iff mem_Collect_eq atLeastLessThan_iff min_less_iff_conj) blast
qed

text \<open>A counter of a block within its bounds.\<close>

lemma vec_bump_map:
  assumes "i < n" and "f i + x < 2 ^ 31"
  shows "vec_bump (map (\<lambda>b. of_nat (f b)) [0..<n]) i (of_nat x) = Inr (map (\<lambda>b. of_nat (if b = i then f b + x else f b)) [0..<n])"
proof -
  have "(map (\<lambda>b. of_nat (f b)) [0..<n])[i := of_nat (f i + x)] = map (\<lambda>b. of_nat (if b = i then f b + x else f b) :: c_int) [0..<n]"
    by (intro nth_equalityI) (auto simp: nth_list_update)
  then show ?thesis using assms(1) add_nat[OF assms(2)] by (simp add: vec_bump_def vec_at_def)
qed

section \<open>Reduction\<close>

text \<open>The element \<open>i\<close> and the sum of block \<open>b\<close> when the first \<open>i\<close> elements have been seen.\<close>

definition input_value :: "nat \<Rightarrow> nat" where
  "input_value i = i mod 5 + 1"

definition sum_so_far :: "nat \<Rightarrow> nat \<Rightarrow> nat \<Rightarrow> nat" where
  "sum_so_far B i b = (\<Sum>j | j < i \<and> j div B = b. input_value j)"

lemma input_value_le: "input_value i \<le> 5"
  using mod_less_divisor[of 5 i] by (simp add: input_value_def)

lemma sum_so_far_Suc: "sum_so_far B (Suc i) b = (if b = i div B then sum_so_far B i b + input_value i else sum_so_far B i b)"
  by (auto simp: sum_so_far_def block_so_far add.commute)

lemma sum_so_far_le: "0 < B \<Longrightarrow> sum_so_far B i b \<le> B * 5"
proof -
  assume "0 < B"
  then have "{j. j < i \<and> j div B = b} \<subseteq> {b * B ..< b * B + B}" by (auto simp: block_elements)
  then have "card {j. j < i \<and> j div B = b} \<le> B" using card_mono[of "{b * B ..< b * B + B}"] by fastforce
  moreover have "sum_so_far B i b \<le> of_nat (card {j. j < i \<and> j div B = b}) * 5"
    unfolding sum_so_far_def by (rule sum_bounded_above) (simp add: input_value_def)
  ultimately show ?thesis by simp
qed

lemma reduction_fill_total:
  assumes B: "0 < B" "B \<le> 2 ^ 28" and nb: "nb = (n + B - 1) div B" and len: "4 * n + 4 * nb \<le> length (gm_data gm)"
  shows "\<exists>gm'. reduction_fill n B nb gm = Inr (gm', map (\<lambda>b. of_nat (sum_so_far B n b)) [0..<nb]) \<and>
    length (gm_data gm') = length (gm_data gm) \<and> (\<forall>i < n. gm_load gm' (4 * i) = Inr (of_nat (input_value i)))"
proof -
  let ?P = "\<lambda>i (m, out). length (gm_data m) = length (gm_data gm) \<and> (\<forall>j < i. gm_load m (4 * j) = Inr (of_nat (input_value j))) \<and>
    out = map (\<lambda>b. of_nat (sum_so_far B i b) :: c_int) [0..<nb]"
  let ?f = "\<lambda>(gm, out) i. bindE (gm_store gm (i * 4) (of_nat (i mod 5 + 1))) (\<lambda>gm1.
    bindE (vec_bump out (i div B) (of_nat (i mod 5 + 1))) (\<lambda>out1. Inr (gm1, out1)))"
  have "\<exists>s. foldE ?f (gm, replicate nb 0) [0..<n] = Inr s \<and> ?P (length [0..<n]) s"
  proof (rule foldE_index[where P = ?P])
    show "?P 0 (gm, replicate nb 0)" by (simp add: sum_so_far_def map_replicate_const)
    fix i s assume i: "i < length [0..<n]" and s: "?P i s"
    obtain m out where m: "s = (m, out)" by fastforce
    have "i div B < nb" using i chunks_cover(1)[OF B(1), of n] by (simp add: nb less_mult_imp_div_less)
    moreover have "sum_so_far B i (i div B) + input_value i < 2 ^ 31"
      using sum_so_far_le[OF B(1), of i "i div B"] B(2) by (simp add: input_value_def)
    ultimately have v: "vec_bump out (i div B) (of_nat (input_value i)) = Inr (map (\<lambda>b. of_nat (sum_so_far B (Suc i) b)) [0..<nb])"
      using vec_bump_map[of "i div B" nb "sum_so_far B i" "input_value i"] s unfolding m sum_so_far_Suc by simp
    obtain m1 where m1: "gm_store m (i * 4) (of_nat (input_value i)) = Inr m1" "length (gm_data m1) = length (gm_data m)"
      "\<forall>b. gm_load m1 b = (if b = i * 4 then Inr (of_nat (input_value i)) else gm_load m b)"
      using store_ok[of "i * 4" m "of_nat (input_value i)"] i s len by (auto simp: m)
    have "?P (Suc i) (m1, map (\<lambda>b. of_nat (sum_so_far B (Suc i) b)) [0..<nb])"
      using s m1(2,3) by (auto simp: m less_Suc_eq mult.commute)
    then show "\<exists>s'. ?f s ([0..<n] ! i) = Inr s' \<and> ?P (Suc i) s'"
      using v m1(1) i unfolding input_value_def by (auto simp: m)
  qed
  then obtain m where m: "foldE ?f (gm, replicate nb 0) [0..<n] = Inr (m, map (\<lambda>b. of_nat (sum_so_far B n b)) [0..<nb])"
    "length (gm_data m) = length (gm_data gm)" "\<forall>j < n. gm_load m (4 * j) = Inr (of_nat (input_value j))" by auto
  obtain m2 where "foldE (\<lambda>gm b. gm_store gm (n * 4 + b * 4) 0) m [0..<nb] = Inr m2" "length (gm_data m2) = length (gm_data m)"
    "\<forall>a < 4 * n. gm_load m2 a = gm_load m a"
    using clear_words[of "[0..<nb]" "4 * n" "\<lambda>b. n * 4 + b * 4" m] len m(2) by auto
  then show ?thesis using m by (auto simp: reduction_fill_def)
qed

lemma generate_reduction_total: "d \<le> 28 \<Longrightarrow> \<exists>k. generate_reduction_kernel (size_to_int (2 ^ d)) = Inr k"
proof -
  assume d: "d \<le> 28"
  define B where "B = (2 :: nat) ^ d"
  have B: "B \<le> 2 ^ 28" unfolding B_def using d by (rule power_increasing) simp
  have half: "c_div (of_nat B) 2 = Inr (of_nat (B div 2))" using div_nat[of 2 B] B by simp
  have "\<exists>y. reduction_round p = Inr y" if p: "p \<in> set (enumerate 0 (halvings (B div 2)))" for p
  proof -
    obtain i where "i < length (enumerate 0 (halvings (B div 2)))" "enumerate 0 (halvings (B div 2)) ! i = p"
      using p by (auto simp: in_set_conv_nth)
    then have p: "p = (i, B div 2 div 2 ^ i)" by (simp add: nth_enumerate_eq halvings_nth)
    have "B div 2 div 2 ^ i \<le> B" by (metis div_le_dividend le_trans)
    then have "c_mul (of_nat (B div 2 div 2 ^ i)) 4 = Inr (of_nat (B div 2 div 2 ^ i * 4))"
      using mul_nat[of "B div 2 div 2 ^ i" 4] B by simp
    then show ?thesis by (simp add: p reduction_round_def)
  qed
  then obtain rounds where "mapE reduction_round (enumerate 0 (halvings (B div 2))) = Inr rounds" using mapE_total by blast
  moreover have "nat (sint (of_nat (B div 2) :: c_int)) = B div 2" using B by (subst sint_of_nat) simp_all
  ultimately show ?thesis unfolding B_def[symmetric] by (simp add: generate_reduction_kernel_def size_to_int_def half)
qed

lemma reduction_driver:
  assumes "random_range rng" and "new_gpu rng (enlarge_memory c) = Inr g" and "0 < cfg_num_sms c"
    and "cfg_scheduler_policy c \<in> {''RR'', ''Greedy'', ''OldestFirst'', ''GTO''}"
    and B: "cfg_block_size c = 2 ^ d" "d \<le> 12" and "0 < cfg_warp_size c" and "cfg_warp_size c \<le> 32"
    and "block_fits c (requirements 32 (4 * 2 ^ d)) (2 ^ d) (cfg_warp_size c)"
    and nb: "nb = (n + 2 ^ d - 1) div 2 ^ d" and "4 * (nb * 2 ^ d) \<le> cfg_max_shared_memory_per_sm c" and "4 * n + 4 * nb \<le> 10485760"
  shows "\<exists>row. run_reduction_benchmark rng traced name c n st =
    Some (Inr (append_csv name reduction_header row (say [Passed ''reduction''] st)))"
proof -
  let ?B = "2 ^ d :: nat" and ?req = "requirements 32 (4 * 2 ^ d)"
  have small: "?B \<le> 2 ^ 12" "0 < ?B" using power_increasing[OF B(2), of "2 :: nat"] by simp_all
  obtain g0 where g0: "start_gpu rng (enlarge_memory c) traced = Inr g0" "fresh_gpu (enlarge_memory c) g0"
    "10485760 \<le> length (gm_data (gpu_global_memory g0))" by (rule driver_gpu[OF assms(1-4)])
  have cd: "ceil_div n ?B = Inr nb" using ceil_div_Inr[of ?B n] small assms(12) by (simp add: nb)
  obtain m where m: "reduction_fill n ?B nb (gpu_global_memory g0) = Inr (m, map (\<lambda>b. of_nat (sum_so_far ?B n b)) [0..<nb])"
    "length (gm_data m) = length (gm_data (gpu_global_memory g0))" "\<forall>i < n. gm_load m (4 * i) = Inr (of_nat (input_value i))"
    using reduction_fill_total[of ?B nb n "gpu_global_memory g0"] small g0(3) assms(12) nb by auto
  obtain k where k: "generate_reduction_kernel (size_to_int ?B) = Inr k" using generate_reduction_total[of d] B(2) by auto
  have "good_registers (reduction_init n ?B b l i)" for b l i using reduction_registers[of ?B] small(1) by simp
  then obtain gr where gr: "build_reduction_grid n ?B (cfg_warp_size c) = Inr gr"
    using make_grid_total[of "reduction_init n ?B" "cfg_warp_size c" ?B] assms(7) small(2) unfolding build_reduction_grid_def by blast
  have w: "word_of m (4 * i) = of_nat (input_value i)" "sint (word_of m (4 * i)) = int (input_value i)" if "i < n" for i
  proof -
    have "input_value i < 2 ^ 31" by (simp add: input_value_def)
    then show "word_of m (4 * i) = of_nat (input_value i)" "sint (word_of m (4 * i)) = int (input_value i)"
      using m(3) that by (simp_all add: word_of_def sint_of_nat)
  qed
  have e: "red_elem n m i = (if i < n then int (input_value i) else 0)" for i by (simp add: red_elem_def w(2))
  have "(\<Sum>i<?B. \<bar>red_elem n m (b * ?B + i)\<bar>) \<le> of_nat (card {..<?B}) * 5" for b
    by (rule sum_bounded_above) (simp add: e input_value_le)
  moreover have bound: "x * 5 < (2 :: int) ^ 31" if "x \<le> int (2 ^ 12)" for x using that by simp
  have "of_nat (card {..<?B}) * 5 < (2 :: int) ^ 31" unfolding card_lessThan by (rule bound) (use small(1) in \<open>simp only: of_nat_le_iff\<close>)
  ultimately have weight: "\<forall>b < nb. (\<Sum>i<?B. \<bar>red_elem n m (b * ?B + i)\<bar>) < 2 ^ 31" using le_less_trans by blast
  have sh: "4 * (nb * ?B) \<le> cfg_max_shared_memory_per_sm (enlarge_memory c)" using assms(11) by (simp add: enlarged)
  have mem: "4 * n + 4 * nb \<le> min SHARED_MEM_BASE (length (gm_data m))" using assms(12) g0(3) m(2) by (simp add: SHARED_MEM_BASE_def)
  have wrap: "n + ?B < 2 ^ 64" using small(1) assms(12) by simp
  obtain g' where g': "run_kernel (g0\<lparr>gpu_global_memory := m\<rparr>) k gr c ?req = Some (Inr g')"
    "\<forall>b < nb. \<exists>v. gm_load (gpu_global_memory g') (4 * n + 4 * b) = Inr v \<and>
       sint v = (\<Sum>i \<in> {b * ?B ..< min (b * ?B + ?B) n}. sint (word_of m (4 * i)))"
    using reduction_run[OF g0(2) refl B(2) nb k gr assms(7,8) wrap assms(9) sh mem weight] by blast
  have out: "gm_load (gpu_global_memory g') (n * 4 + b * 4) = Inr (of_nat (sum_so_far ?B n b))" if b: "b < nb" for b
  proof -
    obtain v where v: "gm_load (gpu_global_memory g') (4 * n + 4 * b) = Inr v"
      "sint v = (\<Sum>i \<in> {b * ?B ..< min (b * ?B + ?B) n}. sint (word_of m (4 * i)))" using g'(2) b by blast
    have "(\<Sum>i \<in> {b * ?B ..< min (b * ?B + ?B) n}. sint (word_of m (4 * i))) = int (sum_so_far ?B n b)"
      unfolding sum_so_far_def block_elements[OF small(2)] by (simp add: w(2))
    then have "word_of_int (sint v) = (of_nat (sum_so_far ?B n b) :: c_int)" using v(2) by simp
    then show ?thesis using v(1) by (simp add: mult.commute)
  qed
  have "check_words (n * 4) (map (\<lambda>b. of_nat (sum_so_far ?B n b)) [0..<nb]) (gpu_global_memory g') = Inr True"
    by (rule check_words_true) (simp add: out)
  then show ?thesis using g0(1) cd m(1) k gr g'(1)
    by (simp add: run_reduction_benchmark_def Let_def B(1) mult.commute) (rule exI, rule refl)
qed

section \<open>Histogram\<close>

text \<open>The bin of element \<open>i\<close>, and the number of elements of a block in a bin among the first \<open>i\<close>.\<close>

definition bin_of :: "string \<Rightarrow> nat \<Rightarrow> nat \<Rightarrow> nat" where
  "bin_of pattern K i = (if pattern = ''uniform'' then i mod K else if pattern = ''skewed'' then i mod 4 else i mod (K div 2))"

definition count_so_far :: "string \<Rightarrow> nat \<Rightarrow> nat \<Rightarrow> nat \<Rightarrow> nat \<Rightarrow> nat" where
  "count_so_far pattern K B i x = card {j. (j < i \<and> j div B = x div K) \<and> bin_of pattern K j = x mod K}"

lemma bin_of_less: "4 \<le> K \<Longrightarrow> bin_of pattern K i < K"
proof -
  assume K: "4 \<le> K"
  have "i mod K < K" "i mod 4 < K" "i mod (K div 2) < K"
    using K by (auto intro: less_le_trans[of _ 4] less_le_trans[of _ "K div 2"])
  then show ?thesis by (simp add: bin_of_def)
qed

lemma histogram_value_bin: "4 \<le> K \<Longrightarrow> histogram_value pattern K i = Inr (bin_of pattern K i)"
  by (auto simp: histogram_value_def bin_of_def c_mod_def)

lemma count_so_far_Suc:
  assumes "4 \<le> K"
  shows "count_so_far pattern K B (Suc i) x =
    (if x = i div B * K + bin_of pattern K i then count_so_far pattern K B i x + 1 else count_so_far pattern K B i x)"
proof -
  let ?v = "bin_of pattern K i" and ?S = "\<lambda>i. {j. (j < i \<and> j div B = x div K) \<and> bin_of pattern K j = x mod K}"
  have here: "i div B = x div K \<and> ?v = x mod K \<longleftrightarrow> x = i div B * K + ?v"
    using bin_of_less[OF assms, of pattern i] div_mult_mod_eq[of x K] by auto
  have "?S (Suc i) = (if i div B = x div K \<and> ?v = x mod K then insert i (?S i) else ?S i)" by (auto simp: less_Suc_eq)
  then show ?thesis unfolding count_so_far_def here by simp
qed

lemma count_so_far_le: "count_so_far pattern K B i x \<le> i"
  unfolding count_so_far_def using card_mono[of "{..<i}" "{j. (j < i \<and> j div B = x div K) \<and> bin_of pattern K j = x mod K}"] by fastforce

lemma histogram_fill_total:
  assumes B: "0 < B" and K: "4 \<le> K" and nb: "nb = (n + B - 1) div B" and len: "4 * n + 4 * (nb * K) \<le> length (gm_data gm)" and "n < 2 ^ 30"
  shows "\<exists>gm'. histogram_fill pattern n K B nb gm = Inr (gm', map (\<lambda>x. of_nat (count_so_far pattern K B n x)) [0..<nb * K]) \<and>
    length (gm_data gm') = length (gm_data gm) \<and> (\<forall>i < n. gm_load gm' (4 * i) = Inr (of_nat (bin_of pattern K i)))"
proof -
  let ?v = "bin_of pattern K" and ?c = "count_so_far pattern K B"
  let ?P = "\<lambda>i (m, out). length (gm_data m) = length (gm_data gm) \<and> (\<forall>j < i. gm_load m (4 * j) = Inr (of_nat (?v j))) \<and>
    out = map (\<lambda>x. of_nat (?c i x) :: c_int) [0..<nb * K]"
  let ?f = "\<lambda>(gm, hist) i. bindE (histogram_value pattern K i) (\<lambda>v. bindE (gm_store gm (i * 4) (of_nat v)) (\<lambda>gm1.
    bindE (vec_bump hist (i div B * K + v) 1) (\<lambda>hist1. Inr (gm1, hist1))))"
  have "\<exists>s. foldE ?f (gm, replicate (nb * K) 0) [0..<n] = Inr s \<and> ?P (length [0..<n]) s"
  proof (rule foldE_index[where P = ?P])
    show "?P 0 (gm, replicate (nb * K) 0)" by (simp add: count_so_far_def map_replicate_const)
    fix i s assume i: "i < length [0..<n]" and s: "?P i s"
    obtain m out where m: "s = (m, out)" by fastforce
    have "i div B < nb" using i chunks_cover(1)[OF B, of n] by (simp add: nb less_mult_imp_div_less)
    then have "Suc (i div B) * K \<le> nb * K" by (intro mult_le_mono1) simp
    then have "i div B * K + ?v i < nb * K" using bin_of_less[OF K, of pattern i] by simp
    moreover have "?c i (i div B * K + ?v i) + 1 < 2 ^ 31"
      using count_so_far_le[of pattern K B i "i div B * K + ?v i"] i assms(5) by simp
    ultimately have v: "vec_bump out (i div B * K + ?v i) 1 = Inr (map (\<lambda>x. of_nat (?c (Suc i) x)) [0..<nb * K])"
      using vec_bump_map[of "i div B * K + ?v i" "nb * K" "?c i" 1] s unfolding m count_so_far_Suc[OF K] by simp
    obtain m1 where m1: "gm_store m (i * 4) (of_nat (?v i)) = Inr m1" "length (gm_data m1) = length (gm_data m)"
      "\<forall>b. gm_load m1 b = (if b = i * 4 then Inr (of_nat (?v i)) else gm_load m b)"
      using store_ok[of "i * 4" m "of_nat (?v i)"] i s len by (auto simp: m)
    have "?P (Suc i) (m1, map (\<lambda>x. of_nat (?c (Suc i) x)) [0..<nb * K])"
      using s m1(2,3) by (auto simp: m less_Suc_eq mult.commute)
    then show "\<exists>s'. ?f s ([0..<n] ! i) = Inr s' \<and> ?P (Suc i) s'"
      using v m1(1) i histogram_value_bin[OF K, of pattern i] by (auto simp: m)
  qed
  then obtain m where m: "foldE ?f (gm, replicate (nb * K) 0) [0..<n] = Inr (m, map (\<lambda>x. of_nat (?c n x)) [0..<nb * K])"
    "length (gm_data m) = length (gm_data gm)" "\<forall>j < n. gm_load m (4 * j) = Inr (of_nat (?v j))" by auto
  have out: "4 * n \<le> n * 4 + fst p * K * 4 + snd p * 4 \<and> n * 4 + fst p * K * 4 + snd p * 4 < length (gm_data m)"
    if p: "p \<in> set (List.product [0..<nb] [0..<K])" for p
  proof -
    have "fst p < nb" "snd p < K" using p by auto
    then have "Suc (fst p) * K \<le> nb * K" by (intro mult_le_mono1) simp
    then have "fst p * K + snd p < nb * K" using \<open>snd p < K\<close> by simp
    then show ?thesis using len m(2) by simp
  qed
  have swap: "(\<lambda>gm (b, bin). gm_store gm (n * 4 + b * K * 4 + bin * 4) 0) = (\<lambda>gm p. gm_store gm (n * 4 + fst p * K * 4 + snd p * 4) 0)"
    by (intro ext) (simp add: split_beta)
  obtain m2 where "foldE (\<lambda>gm (b, bin). gm_store gm (n * 4 + b * K * 4 + bin * 4) 0) m (List.product [0..<nb] [0..<K]) = Inr m2"
    "length (gm_data m2) = length (gm_data m)" "\<forall>a < 4 * n. gm_load m2 a = gm_load m a"
    using clear_words[of "List.product [0..<nb] [0..<K]" "4 * n" "\<lambda>p. n * 4 + fst p * K * 4 + snd p * 4" m] out unfolding swap by blast
  then show ?thesis using m by (auto simp: histogram_fill_def)
qed

lemma generate_histogram_total:
  assumes "0 < B" and "K + B < 2 ^ 31" and "(K + B - 1) div B \<le> 8"
  shows "\<exists>k. generate_histogram_kernel (size_to_int K) (size_to_int B) = Inr k"
proof -
  let ?q = "(K + B - 1) div B"
  have bounds: "K + B - 1 < 2 ^ 31" "B < 2 ^ 31" "?q < 2 ^ 31" using assms by simp_all
  have c: "c_add (of_nat K) (of_nat B) = Inr (of_nat (K + B))" "c_sub (of_nat (K + B)) 1 = Inr (of_nat (K + B - 1))"
    "c_div (of_nat (K + B - 1)) (of_nat B) = Inr (of_nat ?q)"
    using add_nat[OF assms(2)] sub_nat[of 1 "K + B"] div_nat[OF assms(1) bounds(1,2)] assms(1,2) by simp_all
  have mul: "\<exists>y. c_mul i (of_nat B) = Inr y" if "i \<in> set (int_range (of_nat ?q))" for i
  proof -
    obtain j where j: "i = of_nat j" "j < ?q" using \<open>i \<in> set (int_range (of_nat ?q))\<close> sint_of_nat[OF bounds(3)] by (auto simp: int_range_def)
    then have "j * B \<le> ?q * B" by (intro mult_le_mono1) simp
    also have "\<dots> \<le> K + B - 1" by (rule div_times_less_eq_dividend)
    finally have "j * B < 2 ^ 31" using bounds(1) by simp
    then show ?thesis using mul_nat[of j B] bounds(2,3) j by simp
  qed
  have "\<exists>zs. mapE (histogram_zero (of_nat B)) (int_range (of_nat ?q)) = Inr zs"
    by (rule mapE_total) (use mul in \<open>force simp: histogram_zero_def\<close>)
  moreover have "\<exists>os. mapE (histogram_output (of_nat B)) (int_range (of_nat ?q)) = Inr os"
    by (rule mapE_total) (use mul in \<open>force simp: histogram_output_def\<close>)
  moreover have "\<not> sint (of_nat ?q :: c_int) > 8" using assms(3) by (subst sint_of_nat[OF bounds(3)]) linarith
  ultimately show ?thesis unfolding generate_histogram_kernel_def size_to_int_def c(1) bindE_Inr c(2,3) by auto
qed

lemma histogram_driver:
  assumes "random_range rng" and "new_gpu rng (enlarge_memory c) = Inr g" and "0 < cfg_num_sms c"
    and "cfg_scheduler_policy c \<in> {''RR'', ''Greedy'', ''OldestFirst'', ''GTO''}"
    and B: "0 < cfg_block_size c" and "0 < cfg_warp_size c" and "cfg_warp_size c \<le> 32"
    and "block_fits c (requirements 32 (K * 4)) (cfg_block_size c) (cfg_warp_size c)"
    and nb: "nb = (n + cfg_block_size c - 1) div cfg_block_size c" and "4 * (nb * K) \<le> cfg_max_shared_memory_per_sm c"
    and "4 * n + 4 * (nb * K) \<le> 10485760"
    and K: "4 \<le> K" "K + cfg_block_size c < 2 ^ 31" "(K + cfg_block_size c - 1) div cfg_block_size c \<le> 8"
    and full: "\<forall>b < nb. \<forall>j < K. b * cfg_block_size c + j mod cfg_block_size c < n"
  shows "\<exists>row ms. run_histogram_benchmark rng traced name c n K pattern st =
    Some (Inr (append_csv name histogram_header row (say (Passed pattern # ms) st)))"
proof -
  let ?B = "cfg_block_size c" and ?req = "requirements 32 (K * 4)" and ?v = "bin_of pattern K" and ?c = "count_so_far pattern K (cfg_block_size c) n"
  obtain g0 where g0: "start_gpu rng (enlarge_memory c) traced = Inr g0" "fresh_gpu (enlarge_memory c) g0"
    "10485760 \<le> length (gm_data (gpu_global_memory g0))" by (rule driver_gpu[OF assms(1-4)])
  have small: "n < 2 ^ 30" "n + ?B < 2 ^ 64" using assms(11) K(2) by simp_all
  have cd: "ceil_div n ?B = Inr nb" using ceil_div_Inr[OF B small(2)] by (simp add: nb)
  have len: "4 * n + 4 * (nb * K) \<le> length (gm_data (gpu_global_memory g0))" using assms(11) g0(3) by simp
  obtain m where m: "histogram_fill pattern n K ?B nb (gpu_global_memory g0) = Inr (m, map (\<lambda>x. of_nat (?c x)) [0..<nb * K])"
    "length (gm_data m) = length (gm_data (gpu_global_memory g0))" "\<forall>i < n. gm_load m (4 * i) = Inr (of_nat (?v i))"
    using histogram_fill_total[OF B K(1) nb len small(1)] by blast
  obtain k where k: "generate_histogram_kernel (size_to_int K) (size_to_int ?B) = Inr k"
    using generate_histogram_total[OF B K(2,3)] by blast
  have regs: "good_registers (histogram_init n ?B K b l i)" for b l i by (auto simp: good_registers_def histogram_init_def round_register)
  obtain gr where gr: "build_histogram_grid n ?B (cfg_warp_size c) K = Inr gr"
    using make_grid_total[of "histogram_init n ?B K", OF regs assms(6) B] unfolding build_histogram_grid_def by blast
  have sh: "4 * (nb * K) \<le> cfg_max_shared_memory_per_sm (enlarge_memory c)" using assms(10) by (simp add: enlarged)
  have mem: "4 * n + 4 * (nb * K) \<le> min SHARED_MEM_BASE (length (gm_data m))" using assms(11) len m(2) by (simp add: SHARED_MEM_BASE_def)
  have bins: "\<forall>i < n. \<exists>j < K. gm_load m (4 * i) = Inr (of_nat j)" using m(3) bin_of_less[OF K(1)] by blast
  obtain g' where g': "run_kernel (g0\<lparr>gpu_global_memory := m\<rparr>) k gr c ?req = Some (Inr g')"
    "\<forall>b < nb. \<forall>j < K. b * ?B + j mod ?B < n \<longrightarrow> (\<exists>v. gm_load (gpu_global_memory g') (4 * n + 4 * (b * K + j)) = Inr v \<and>
       sint v = int (card {i \<in> {b * ?B ..< min (b * ?B + ?B) n}. gm_load m (4 * i) = Inr (of_nat j)}))"
    using histogram_run[OF g0(2) k gr B K(2) assms(6,7) small(2) assms(8) nb sh mem bins] by blast
  have same: "gm_load m (4 * i) = Inr (of_nat j) \<longleftrightarrow> ?v i = j" if "i < n" "j < K" for i j
  proof -
    have "?v i < 2 ^ 31" "j < 2 ^ 31" using bin_of_less[OF K(1), of pattern i] that(2) K(2) by simp_all
    then have "of_nat (?v i) = (of_nat j :: c_int) \<longleftrightarrow> ?v i = j" by (metis sint_of_nat of_nat_eq_iff)
    then show ?thesis using m(3) that(1) by simp
  qed
  have out: "gm_load (gpu_global_memory g') (n * 4 + x * 4) = Inr (of_nat (?c x))" if x: "x < nb * K" for x
  proof -
    let ?b = "x div K" and ?j = "x mod K"
    have b: "?b < nb" "?j < K" using x K(1) by (simp_all add: less_mult_imp_div_less)
    then obtain v where v: "gm_load (gpu_global_memory g') (4 * n + 4 * (?b * K + ?j)) = Inr v"
      "sint v = int (card {i \<in> {?b * ?B ..< min (?b * ?B + ?B) n}. gm_load m (4 * i) = Inr (of_nat ?j)})"
      using g'(2) full by blast
    have "{i \<in> {?b * ?B ..< min (?b * ?B + ?B) n}. gm_load m (4 * i) = Inr (of_nat ?j)} = {j. (j < n \<and> j div ?B = ?b) \<and> ?v j = ?j}"
      unfolding block_elements[OF B, symmetric] using same b(2) by blast
    then have "word_of_int (sint v) = (of_nat (?c x) :: c_int)" unfolding v(2) count_so_far_def by simp
    then show ?thesis using v(1) by (simp add: mult.commute)
  qed
  have "check_words (n * 4) (map (\<lambda>x. of_nat (?c x)) [0..<nb * K]) (gpu_global_memory g') = Inr True"
    by (rule check_words_true) (simp add: out)
  then show ?thesis using g0(1) cd m(1) k gr g'(1)
    by (simp add: run_histogram_benchmark_def Let_def) (intro exI, rule refl)
qed

end
