(* ===== verification/Uniform_Kernels.thy ===== *)
theory Uniform_Kernels
  imports Block_Grids Executor_Props
begin

text \<open>
  Kernels with loops whose branches all lanes take together, or none. The lanes of a warp then
  follow one schedule: at time \<open>v\<close> the warp is at \<open>pcof v\<close>, and the code of a lane is the program
  unrolled along the schedule. The same program counter recurs in every iteration, so the time is
  read off the registers of a lane (\<open>clock\<close>), where the loop counters are.
\<close>

definition unrolled :: "instruction list \<Rightarrow> (nat \<Rightarrow> nat) \<Rightarrow> nat \<Rightarrow> instruction list" where
  "unrolled prog pcof T = map (\<lambda>v. prog ! pcof v) [0..<T]"

lemma unrolled_nth [simp]: "length (unrolled prog pcof T) = T" "v < T \<Longrightarrow> unrolled prog pcof T ! v = prog ! pcof v"
  by (simp_all add: unrolled_def)

locale uniform_kernel = lane_kernel "unrolled prog pcof T" "\<lambda>_ q q'. q' = q + 1" lane joint target region roster
  for prog :: "instruction list" and pcof :: "nat \<Rightarrow> nat" and T :: nat and lane :: "nat \<Rightarrow> thread \<Rightarrow> view \<Rightarrow> bool"
    and joint :: "size_t \<Rightarrow> (nat \<Rightarrow> nat) \<Rightarrow> view \<Rightarrow> bool" and target :: "size_t \<Rightarrow> c_int option" and region :: "size_t \<Rightarrow> size_t set" and roster :: "size_t \<Rightarrow> nat list" +
  fixes clock :: "nat \<Rightarrow> thread \<Rightarrow> nat"
  assumes short: "length prog < 2 ^ 63"
    and first: "pcof 0 = 0"
    and inside: "v < T \<Longrightarrow> pcof v < length prog"
    and last: "pcof T = length prog"
    and uniform_code: "v < T \<Longrightarrow> inst_opcode (prog ! pcof v) \<in> {BRANCH, BARRIER} \<or> lanewise_opcode (inst_opcode (prog ! pcof v))"
    and in_order: "v < T \<Longrightarrow> inst_opcode (prog ! pcof v) \<noteq> BRANCH \<Longrightarrow> pcof (v + 1) = pcof v + 1"
    and jumps: "lane v t M \<Longrightarrow> v < T \<Longrightarrow> inst_opcode (prog ! pcof v) = BRANCH \<Longrightarrow>
      lane (v + 1) t M \<and> size_add_int (pcof v) (inst_immediate (prog ! pcof v)) \<noteq> pcof v + 1 \<and>
      pcof (v + 1) = (if t_predicate t then size_add_int (pcof v) (inst_immediate (prog ! pcof v)) else pcof v + 1)"
    and clock_lane: "lane v t M \<Longrightarrow> v \<le> T \<Longrightarrow> clock (pcof v) t = v"
    and clock_barrier: "lane v t M \<Longrightarrow> v < T \<Longrightarrow> inst_opcode (prog ! pcof v) = BARRIER \<Longrightarrow> clock (pcof (v + 1)) t = v + 1"
begin

definition follows :: "warp \<Rightarrow> (nat \<Rightarrow> nat) \<Rightarrow> bool" where
  "follows w lp \<longleftrightarrow> w_stack w = [] \<and> w_active_mask w = full_mask (length (w_threads w)) \<and>
     (\<exists>v \<le> T. w_pc w = pcof v \<and> (\<forall>i < length (w_threads w). lp i = v))"

definition halts :: "warp \<Rightarrow> (nat \<Rightarrow> nat) \<Rightarrow> bool" where
  "halts w lp \<longleftrightarrow> w_stack w = [] \<and> w_active_mask w = full_mask (length (w_threads w)) \<and>
     (\<exists>v < T. inst_opcode (prog ! pcof v) = BARRIER \<and> w_pc w = pcof (v + 1) \<and> (\<forall>i < length (w_threads w). lp i = v))"

definition remaining :: "warp \<Rightarrow> nat" where
  "remaining w = T - clock (w_pc w) (hd (w_threads w))"

lemma at_pc: "follows w lp \<Longrightarrow> w_pc w < length prog \<Longrightarrow> \<exists>v < T. w_pc w = pcof v \<and> (\<forall>i < length (w_threads w). lp i = v)"
  unfolding follows_def using last by (metis le_neq_implies_less less_irrefl)

lemma remaining_at:
  assumes "holds L lp w M" and "warp_of b w" and "\<forall>i < length (w_threads w). lp i = v" and "v \<le> T" and "w_pc w = pcof v"
  shows "remaining w = T - v"
proof -
  have "w_threads w \<noteq> []" using assms(2) by (simp add: warp_of_def)
  then have "lane v (hd (w_threads w)) M" using assms(1,3) by (simp add: holds_def hd_conv_nth)
  then show ?thesis using clock_lane assms(4,5) by (simp add: remaining_def)
qed

lemma step_follows:
  assumes f: "follows w lp" and h: "holds L lp w (word_at m)" and j: "joint b L (word_at m)" and b: "warp_of b w" and inv: "masks_inv w" and minv: "ms_inv m"
    and ph: "\<forall>i < length (w_threads w). phase (unrolled prog pcof T) (lp i) = p" and pc: "w_pc w < length prog" and nb: "inst_opcode (prog ! w_pc w) \<noteq> BARRIER"
  shows "\<exists>r w' m' lp' L'. execute (prog ! w_pc w) w m = Inr (r, w', m') \<and> er_status r \<noteq> BarrierReached \<and>
    follows w' lp' \<and> holds L' lp' w' (word_at m') \<and> joint b L' (word_at m') \<and> (\<forall>id. id \<notin> ids_of w \<longrightarrow> L' id = L id) \<and>
    (\<forall>i < length (w_threads w'). phase (unrolled prog pcof T) (lp' i) = p) \<and> remaining w' < remaining w \<and>
    touches b (word_at m) (word_at m') \<and> spares b p (ids_of w) (word_at m) (word_at m')"
proof -
  let ?code = "unrolled prog pcof T" and ?n = "length (w_threads w)" and ?M = "word_at m"
  have l32: "?n \<le> 32" and n: "0 < ?n" using inv b by (simp_all add: masks_inv_def warp_of_def)
  obtain v where v: "v < T" "w_pc w = pcof v" "\<forall>i < ?n. lp i = v" using at_pc[OF f pc] by blast
  have st: "w_stack w = []" "w_active_mask w = full_mask ?n" using f by (simp_all add: follows_def)
  have bits: "bit (w_active_mask w) i" if "i < ?n" for i using that l32 by (simp add: st(2) bit_full_mask)
  have code: "?code ! v = prog ! w_pc w" "v < length ?code" using v by simp_all
  have p: "phase ?code v = p" "phase ?code (v + 1) = p" using ph v(3) n phase_Suc[OF code(2)] nb code(1) by auto
  have ln: "lane v (w_threads w ! i) ?M" if "i < ?n" for i using h v(3) that by (simp add: holds_def)
  have rem: "remaining w = T - v" by (rule remaining_at[OF h b v(3) _ v(2)]) (use v(1) in simp)
  have arrive: "follows w' lp' \<and> remaining w' < remaining w \<and> (\<forall>i < length (w_threads w'). phase ?code (lp' i) = p)"
    if c: "control w' = (pcof (v + 1), full_mask ?n, x, [])" and l: "length (w_threads w') = ?n" and lp: "\<forall>i < ?n. lp' i = v + 1"
      and k: "holds L' lp' w' M'" for w' lp' L' M' x
  proof -
    have c': "w_pc w' = pcof (v + 1)" "w_active_mask w' = full_mask ?n" "w_stack w' = []" using c by (simp_all add: control_def)
    have "w_threads w' \<noteq> []" using l n by auto
    then have "lane (v + 1) (hd (w_threads w')) M'" using k lp l n by (simp add: holds_def hd_conv_nth)
    then have "remaining w' = T - (v + 1)" using clock_lane[of "v + 1"] v(1) c'(1) by (simp add: remaining_def)
    then have "remaining w' < remaining w" using v(1) by (simp add: rem)
    moreover have "follows w' lp'" unfolding follows_def using c' l lp v(1) by (intro conjI exI[of _ "v + 1"]) simp_all
    ultimately show ?thesis using lp l p(2) by simp
  qed
  show ?thesis
  proof (cases "inst_opcode (prog ! w_pc w) = BRANCH")
    case False
    then have data: "lanewise_opcode (inst_opcode (?code ! v))" using uniform_code[OF v(1)] nb by (auto simp: code(1) v(2))
    have "\<forall>i < ?n. phase ?code (lp i) = phase ?code v" using ph p(1) by simp
    from data_runs[OF h j b l32 minv code(2) data _ this] v(3) obtain r w' m' L' where
      ex: "execute (prog ! w_pc w) w m = Inr (r, w', m')" "er_status r = ExecCompleted" "control w' = next_control w" "length (w_threads w') = ?n"
      and hd: "holds L' (\<lambda>i. if bit (w_active_mask w) i then lp i + 1 else lp i) w' (word_at m')" "joint b L' (word_at m')" "\<forall>id. id \<notin> ids_of w \<longrightarrow> L' id = L id"
      and tr: "touches b ?M (word_at m')" "spares b p (ids_of w) ?M (word_at m')" unfolding code(1) p(1) by blast
    have "pcof (v + 1) = pcof v + 1" using in_order[OF v(1)] False v(2) by simp
    then have "control w' = (pcof (v + 1), full_mask ?n, w_reconvergence_pc w, [])"
      using ex(3) st v(2) inside[OF v(1)] short by (simp add: next_control_def)
    from arrive[OF this ex(4) _ hd(1)] v(3) bits ex hd tr show ?thesis
      by (intro exI[of _ r] exI[of _ w'] exI[of _ m'] exI[of _ "\<lambda>i. if bit (w_active_mask w) i then lp i + 1 else lp i"] exI[of _ L']) simp
  next
    case branch: True
    let ?to = "size_add_int (w_pc w) (inst_immediate (prog ! w_pc w))"
    obtain r w' where x: "exec_branch (prog ! w_pc w) w = Inr (r, w')" using exec_control_total(2)[OF l32] by blast
    have jump: "lane (v + 1) (w_threads w ! i) ?M" "pcof (v + 1) = (if t_predicate (w_threads w ! i) then ?to else pcof v + 1)"
      and apart: "?to \<noteq> pcof v + 1" if "i < ?n" for i
      using jumps[OF ln[OF that] v(1)] branch v(2) by simp_all
    obtain tk pc' where tk: "taken_mask (w_active_mask w) (w_threads w) = Inr tk" and thr: "w_threads w' = shadow (w_active_mask w) pc' (w_threads w)"
      and c: "if tk = 0 then control w' = next_control w \<and> r = plain_result ExecCompleted
        else r = plain_result BranchTaken \<and> pc' = ?to \<and> (if tk = w_active_mask w then control w' = (pc', w_active_mask w, w_reconvergence_pc w, w_stack w)
          else control w' = (pc', tk, w_reconvergence_pc w, \<lparr>se_active_mask = w_active_mask w AND NOT tk, se_target_pc = size_add (w_pc w) 1,
            se_reconvergence_pc = w_reconvergence_pc w\<rparr> # w_stack w))"
      using exec_branch_Inr[OF l32 x] by blast
    have "t_predicate (w_threads w ! i) \<longleftrightarrow> t_predicate (w_threads w ! 0)" if "i < ?n" for i
      using jump(2)[OF that] jump(2)[OF n] apart[OF n] by (auto split: if_splits)
    then have "uniform_branch w" unfolding uniform_branch_def by metis
    then have un: "tk = 0 \<or> tk = w_active_mask w" using uniform_branch_taken[OF l32 tk inv] by simp
    have takes: "bit tk 0 \<longleftrightarrow> t_predicate (w_threads w ! 0)" using taken_mask_takes[OF l32 tk, of 0] bits[OF n] n by (simp add: takes_def)
    have c': "control w' = (pcof (v + 1), full_mask ?n, w_reconvergence_pc w, [])"
    proof (cases "tk = 0")
      case True
      then have "pcof (v + 1) = pcof v + 1" using jump(2)[OF n] takes by simp
      then show ?thesis using True c st v(2) inside[OF v(1)] short by (simp add: next_control_def)
    next
      case False
      then have "tk = w_active_mask w" using un by simp
      then have "pcof (v + 1) = ?to" using jump(2)[OF n] takes bits[OF n] by simp
      then show ?thesis using False \<open>tk = w_active_mask w\<close> c st by simp
    qed
    have status: "er_status r \<noteq> BarrierReached" using c by (auto simp: plain_result_def split: if_splits)
    have lw: "length (w_threads w') = ?n" using thr by simp
    have "\<exists>L'. holds L' (\<lambda>_. v + 1) w ?M \<and> joint b L' ?M \<and> (\<forall>id. id \<notin> ids_of w \<longrightarrow> L' id = L id)"
      by (rule control_moves[OF h j b]) (use jump(1) v(3) in simp_all)
    then obtain L' where L': "holds L' (\<lambda>_. v + 1) w' ?M" "joint b L' ?M" "\<forall>id. id \<notin> ids_of w \<longrightarrow> L' id = L id"
      using thr holds_shadow by blast
    from arrive[OF c' lw _ L'(1)] x branch status L'(2,3) L'(1) change_refl spares_refl show ?thesis
      by (intro exI[of _ r] exI[of _ w'] exI[of _ m] exI[of _ "\<lambda>_. v + 1"] exI[of _ L'])
        (simp add: execute_def Let_def keep_memory_def)
  qed
qed

lemma barrier_halts:
  assumes f: "follows w lp" and h: "holds L lp w (word_at m)" and b: "warp_of b w" and inv: "masks_inv w" and pc: "w_pc w < length prog"
    and oc: "inst_opcode (prog ! w_pc w) = BARRIER"
  shows "\<exists>w1 k pc. execute (prog ! w_pc w) w m = Inr (plain_result BarrierReached, w1, m) \<and> warp_framed w w1 \<and>
    w_threads w1 = shadow k pc (w_threads w) \<and> w_stack w1 = [] \<and> remaining w1 < remaining w \<and> halts w1 lp"
proof -
  let ?n = "length (w_threads w)"
  have l32: "?n \<le> 32" and n: "0 < ?n" using inv b by (simp_all add: masks_inv_def warp_of_def)
  obtain v where v: "v < T" "w_pc w = pcof v" "\<forall>i < ?n. lp i = v" using at_pc[OF f pc] by blast
  have st: "w_stack w = []" "w_active_mask w = full_mask ?n" using f by (simp_all add: follows_def)
  have rem: "remaining w = T - v" by (rule remaining_at[OF h b v(3) _ v(2)]) (use v(1) in simp)
  obtain r w1 where x: "exec_barrier w = Inr (r, w1)" using exec_control_total(4)[OF l32 st(2)] by blast
  note xb = exec_barrier_Inr[OF l32 x]
  have ex: "execute (prog ! w_pc w) w m = Inr (plain_result BarrierReached, w1, m)"
    using x xb oc by (simp add: execute_def Let_def keep_memory_def)
  have oc': "inst_opcode (prog ! pcof v) = BARRIER" using oc v(2) by simp
  have "pcof (v + 1) = pcof v + 1" using in_order[OF v(1)] oc' by simp
  then have w1: "w_pc w1 = pcof (v + 1)" "w_stack w1 = []" "w_active_mask w1 = full_mask ?n"
    using xb st v(2) inside[OF v(1)] short by (simp_all add: control_def next_control_def)
  have thr: "w_threads w1 = shadow (w_active_mask w) (size_add (w_pc w) 1) (w_threads w)"
    using x move_to_eq[OF l32] by (auto simp: exec_barrier_def split: if_splits)
  have lw: "length (w_threads w1) = ?n" using thr by simp
  have "halts w1 lp" unfolding halts_def using w1 lw v oc' by (intro conjI exI[of _ v]) simp_all
  moreover have "lane v (hd (w_threads w1)) (word_at m)"
  proof -
    have "w_threads w1 \<noteq> []" using lw n by auto
    then show ?thesis using holds_shadow[OF h thr] v(3) lw n by (simp add: holds_def hd_conv_nth)
  qed
  then have "remaining w1 < remaining w" using clock_barrier[OF _ v(1) oc'] v(1) w1(1) rem by (simp add: remaining_def)
  ultimately show ?thesis using ex xb w1 thr by blast
qed

end

sublocale uniform_kernel \<subseteq> phased_kernel "unrolled prog pcof T" "\<lambda>_ q q'. q' = q + 1" lane joint target region roster prog follows halts remaining
proof
  show "follows w (\<lambda>_. 0)" if "w_stack w = []" "w_active_mask w = full_mask (length (w_threads w))" "w_pc w = 0" for w
    using that first by (auto simp: follows_def)
  show "follows w lp \<Longrightarrow> control w' = control w \<Longrightarrow> w_threads w' = w_threads w \<Longrightarrow> follows w' lp" for w w' lp
    by (simp add: follows_def control_def)
  show "halts w lp \<Longrightarrow> control w' = control w \<Longrightarrow> w_threads w' = w_threads w \<Longrightarrow> halts w' lp" for w w' lp
    by (simp add: halts_def control_def)
  show "control w' = control w \<Longrightarrow> w_threads w' = w_threads w \<Longrightarrow> remaining w' = remaining w" for w w'
    by (simp add: remaining_def control_def)
  show "w_stack w = [] \<and> (\<forall>i < length (w_threads w). lp i = length (unrolled prog pcof T))" if f: "follows w lp" "length prog \<le> w_pc w" for w lp
  proof -
    obtain v where v: "v \<le> T" "w_pc w = pcof v" "\<forall>i < length (w_threads w). lp i = v" "w_stack w = []" using f(1) unfolding follows_def by blast
    then have "v = T" using inside[of v] f(2) by (metis le_neq_implies_less not_le)
    then show ?thesis using v by simp
  qed
  show "\<exists>q < length (unrolled prog pcof T). inst_opcode (unrolled prog pcof T ! q) = BARRIER \<and> (\<forall>i < length (w_threads w). lp i = q)"
    if "halts w lp" for w lp using that by (auto simp: halts_def)
  show "follows w (\<lambda>_. q + 1)" if h: "halts w lp" and b: "warp_of b w" and lp: "\<forall>i < length (w_threads w). lp i = q" for w lp b q
  proof -
    obtain v where v: "v < T" "w_pc w = pcof (v + 1)" "\<forall>i < length (w_threads w). lp i = v" "w_stack w = []"
      "w_active_mask w = full_mask (length (w_threads w))" using h unfolding halts_def by blast
    have "0 < length (w_threads w)" using b by (simp add: warp_of_def)
    then have "v = q" using v(3) lp by auto
    then show ?thesis unfolding follows_def using v by (intro conjI exI[of _ "q + 1"]) simp_all
  qed
qed (rule step_follows barrier_halts; assumption)+

end
