(* ===== verification/Gemm.thy ===== *)
theory Gemm
  imports Uniform_Kernels Kernels
begin

text \<open>
  The tiled matrix multiplication of the benchmarks (\<^verbatim>\<open>src/runtime/benchmarks.cpp\<close>): the program,
  and the schedule that all lanes follow through its two nested loops.
\<close>

section \<open>The problem\<close>

text \<open>
  The tiles are \<open>T\<close> by \<open>T\<close>, the result has \<open>Y\<close> by \<open>X\<close> tiles, one for each block, and the products
  run over \<open>Z + 1\<close> tiles: the outer loop of the kernel tests its condition after the body.
\<close>

record problem =
  pr_tile :: nat
  pr_across :: nat
  pr_down :: nat
  pr_more :: nat
  pr_A :: "c_int list"
  pr_B :: "c_int list"

definition height :: "problem \<Rightarrow> nat" where
  "height P = pr_down P * pr_tile P"

definition breadth :: "problem \<Rightarrow> nat" where
  "breadth P = pr_across P * pr_tile P"

definition depth :: "problem \<Rightarrow> nat" where
  "depth P = Suc (pr_more P) * pr_tile P"

section \<open>The program\<close>

definition gemm_program :: "nat \<Rightarrow> instruction list" where
  "gemm_program T =
     [instr MOV 31 (-1) (-1) 4, instr MOV 8 (-1) (-1) 0, instr MOV 7 (-1) (-1) 0] @
     gemm_outer_body (of_nat (T * T * 4)) @
     [instr CMP (-1) 8 13 0, instr BRANCH (-1) (-1) (-1) 3, instr CMP (-1) 0 0 0, instr BRANCH (-1) (-1) (-1) (-46)] @
     [instr MUL 20 0 12 0, instr ADD 21 20 1 0, instr MUL 22 21 31 0, instr ADD 23 17 22 0, instr STORE (-1) 7 23 0]"

lemmas gemm_lists = gemm_program_def gemm_outer_body_def gemm_load_tiles_def gemm_inner_loop_def gemm_inner_body_def

lemma gemm_length [simp]: "length (gemm_program T) = 55"
  by (simp add: gemm_lists)

lemma gemm_head:
  "gemm_program T ! 0 = instr MOV 31 (-1) (-1) 4" "gemm_program T ! 1 = instr MOV 8 (-1) (-1) 0" "gemm_program T ! 2 = instr MOV 7 (-1) (-1) 0"
  by (simp_all add: gemm_lists)

lemma gemm_loads:
  "gemm_program T ! 3 = instr MUL 20 0 13 0" "gemm_program T ! 4 = instr ADD 21 20 8 0" "gemm_program T ! 5 = instr ADD 22 21 3 0"
  "gemm_program T ! 6 = instr MUL 23 22 31 0" "gemm_program T ! 7 = instr ADD 24 15 23 0" "gemm_program T ! 8 = instr LOAD 25 24 (-1) 0"
  "gemm_program T ! 9 = instr MUL 26 2 10 0" "gemm_program T ! 10 = instr ADD 27 26 3 0" "gemm_program T ! 11 = instr MUL 28 27 31 0"
  "gemm_program T ! 12 = instr ADD 29 14 28 0" "gemm_program T ! 13 = instr STORE (-1) 25 29 0"
  "gemm_program T ! 14 = instr ADD 20 8 2 0" "gemm_program T ! 15 = instr MUL 21 20 12 0" "gemm_program T ! 16 = instr ADD 22 21 1 0"
  "gemm_program T ! 17 = instr MUL 23 22 31 0" "gemm_program T ! 18 = instr ADD 24 16 23 0" "gemm_program T ! 19 = instr LOAD 25 24 (-1) 0"
  "gemm_program T ! 20 = instr MOV 30 (-1) (-1) (of_nat (T * T * 4))" "gemm_program T ! 21 = instr ADD 26 29 30 0"
  "gemm_program T ! 22 = instr STORE (-1) 25 26 0" "gemm_program T ! 23 = instr BARRIER 0 0 0 0" "gemm_program T ! 24 = instr MOV 9 (-1) (-1) 0"
  by (simp_all add: gemm_lists)

lemma gemm_inner:
  "gemm_program T ! 25 = instr CMP (-1) 9 10 0" "gemm_program T ! 26 = instr BRANCH (-1) (-1) (-1) 18"
  "gemm_program T ! 27 = instr MUL 20 2 10 0" "gemm_program T ! 28 = instr ADD 21 20 9 0" "gemm_program T ! 29 = instr MUL 22 21 31 0"
  "gemm_program T ! 30 = instr ADD 23 14 22 0" "gemm_program T ! 31 = instr LOAD 24 23 (-1) 0" "gemm_program T ! 32 = instr MUL 20 9 10 0"
  "gemm_program T ! 33 = instr ADD 21 20 3 0" "gemm_program T ! 34 = instr MUL 22 21 31 0" "gemm_program T ! 35 = instr ADD 23 14 30 0"
  "gemm_program T ! 36 = instr ADD 23 23 22 0" "gemm_program T ! 37 = instr LOAD 25 23 (-1) 0" "gemm_program T ! 38 = instr MUL 26 24 25 0"
  "gemm_program T ! 39 = instr ADD 7 7 26 0" "gemm_program T ! 40 = instr MOV 27 (-1) (-1) 1" "gemm_program T ! 41 = instr ADD 9 9 27 0"
  "gemm_program T ! 42 = instr CMP (-1) 0 0 0" "gemm_program T ! 43 = instr BRANCH (-1) (-1) (-1) (-18)"
  by (simp_all add: gemm_lists)

lemma gemm_turn:
  "gemm_program T ! 44 = instr BARRIER 0 0 0 0" "gemm_program T ! 45 = instr ADD 8 8 10 0" "gemm_program T ! 46 = instr CMP (-1) 8 13 0"
  "gemm_program T ! 47 = instr BRANCH (-1) (-1) (-1) 3" "gemm_program T ! 48 = instr CMP (-1) 0 0 0" "gemm_program T ! 49 = instr BRANCH (-1) (-1) (-1) (-46)"
  by (simp_all add: gemm_lists)

lemma gemm_tail:
  "gemm_program T ! 50 = instr MUL 20 0 12 0" "gemm_program T ! 51 = instr ADD 21 20 1 0" "gemm_program T ! 52 = instr MUL 22 21 31 0"
  "gemm_program T ! 53 = instr ADD 23 17 22 0" "gemm_program T ! 54 = instr STORE (-1) 7 23 0"
  by (simp_all add: gemm_lists)

lemmas gemm_code = gemm_head gemm_loads gemm_inner gemm_turn gemm_tail

lemma gemm_kernel:
  assumes "generate_gemm_kernel M N K tile = Inr k" and "0 \<le> sint tile"
  shows "k_instructions k = gemm_program (nat (sint tile))"
proof -
  obtain n bytes where n: "c_mul tile tile = Inr n" and b: "c_mul n 4 = Inr bytes" and k: "k_instructions k =
      [instr MOV 31 (-1) (-1) 4, instr MOV 8 (-1) (-1) 0, instr MOV 7 (-1) (-1) 0] @ gemm_outer_body bytes @
      [instr CMP (-1) 8 13 0, instr BRANCH (-1) (-1) (-1) 3, instr CMP (-1) 0 0 0,
       instr BRANCH (-1) (-1) (-1) (- of_nat (length (gemm_outer_body bytes) + 3))] @
      [instr MUL 20 0 12 0, instr ADD 21 20 1 0, instr MUL 22 21 31 0, instr ADD 23 17 22 0, instr STORE (-1) 7 23 0]"
    using assms(1) by (auto simp: generate_gemm_kernel_def make_kernel_def)
  let ?T = "nat (sint tile)"
  have "sint n = sint tile * sint tile" using n checked_int_sint unfolding c_mul_def by blast
  moreover have "sint bytes = sint n * 4" using b checked_int_sint[of "sint n * sint (4 :: c_int)" bytes] by (simp add: c_mul_def)
  ultimately have "sint bytes = int (?T * ?T * 4)" using assms(2) by simp
  then have "word_of_int (sint bytes) = (of_nat (?T * ?T * 4) :: c_int)" by (simp only: of_int_of_nat_eq)
  then have "bytes = of_nat (?T * ?T * 4)" by simp
  moreover have "length (gemm_outer_body bytes) = 43" by (simp add: gemm_lists)
  ultimately show ?thesis by (simp add: k gemm_program_def)
qed

section \<open>The schedule\<close>

text \<open>
  A place of a run: before the loops, in the loading part of the outer iteration \<open>o\<close>, in iteration
  \<open>j\<close> of its inner loop, behind that loop, and behind both.
\<close>

datatype place = At_head nat | At_load nat nat | At_inner nat nat nat | At_turn nat nat | At_tail nat

fun place_pc :: "place \<Rightarrow> nat" where
  "place_pc (At_head i) = i"
| "place_pc (At_load a i) = 3 + i"
| "place_pc (At_inner a j i) = 25 + i"
| "place_pc (At_turn a i) = (if i < 2 then 25 + i else 42 + i)"
| "place_pc (At_tail i) = 50 + i"

fun onward :: "problem \<Rightarrow> place \<Rightarrow> place" where
  "onward P (At_head i) = (if i < 2 then At_head (Suc i) else At_load 0 0)"
| "onward P (At_load a i) = (if i < 21 then At_load a (Suc i) else if pr_tile P = 0 then At_turn a 0 else At_inner a 0 0)"
| "onward P (At_inner a j i) = (if i < 18 then At_inner a j (Suc i) else if Suc j < pr_tile P then At_inner a (Suc j) 0 else At_turn a 0)"
| "onward P (At_turn a i) = (if i < (if a = pr_more P then 5 else 7) then At_turn a (Suc i) else if a = pr_more P then At_tail 0 else At_load (Suc a) 0)"
| "onward P (At_tail i) = At_tail (Suc i)"

definition gemm_schedule :: "problem \<Rightarrow> nat \<Rightarrow> place" where
  "gemm_schedule P v = (onward P ^^ v) (At_head 0)"

lemma schedule_steps [simp]: "gemm_schedule P 0 = At_head 0" "gemm_schedule P (Suc v) = onward P (gemm_schedule P v)"
  by (simp_all add: gemm_schedule_def)

text \<open>Every place of a run is met once.\<close>

fun proper :: "problem \<Rightarrow> place \<Rightarrow> bool" where
  "proper P (At_head i) \<longleftrightarrow> i < 3"
| "proper P (At_load a i) \<longleftrightarrow> a \<le> pr_more P \<and> i < 22"
| "proper P (At_inner a j i) \<longleftrightarrow> a \<le> pr_more P \<and> j < pr_tile P \<and> i < 19"
| "proper P (At_turn a i) \<longleftrightarrow> a \<le> pr_more P \<and> i < (if a = pr_more P then 6 else 8)"
| "proper P (At_tail i) \<longleftrightarrow> True"

fun time_of :: "problem \<Rightarrow> place \<Rightarrow> nat" where
  "time_of P (At_head i) = i"
| "time_of P (At_load a i) = 3 + a * (30 + 19 * pr_tile P) + i"
| "time_of P (At_inner a j i) = 25 + a * (30 + 19 * pr_tile P) + 19 * j + i"
| "time_of P (At_turn a i) = 25 + a * (30 + 19 * pr_tile P) + 19 * pr_tile P + i"
| "time_of P (At_tail i) = 31 + pr_more P * (30 + 19 * pr_tile P) + 19 * pr_tile P + i"

definition duration :: "problem \<Rightarrow> nat" where
  "duration P = time_of P (At_tail 5)"

lemma onward_proper: "proper P p \<Longrightarrow> proper P (onward P p) \<and> time_of P (onward P p) = Suc (time_of P p)"
proof (cases p)
  case (At_inner a j i)
  assume "proper P p"
  then have "i < 18 \<or> i = 18" "Suc j < pr_tile P \<or> pr_tile P = Suc j" "a \<le> pr_more P" using At_inner by auto
  then show ?thesis using At_inner by auto
qed (auto simp: less_Suc_eq split: if_splits)

lemma schedule_proper: "proper P (gemm_schedule P v) \<and> time_of P (gemm_schedule P v) = v"
  by (induction v) (simp_all add: onward_proper)

lemma time_before_tail: "proper P p \<Longrightarrow> (\<And>i. p \<noteq> At_tail i) \<Longrightarrow> time_of P p < time_of P (At_tail 0)"
proof -
  let ?W = "30 + 19 * pr_tile P"
  have le: "a * ?W \<le> pr_more P * ?W" if "a \<le> pr_more P" for a using that by (rule mult_le_mono1)
  have less: "a * ?W + ?W \<le> pr_more P * ?W" if "a \<le> pr_more P" "a \<noteq> pr_more P" for a
    using mult_le_mono1[of "Suc a" "pr_more P" ?W] that by simp
  assume "proper P p" and "\<And>i. p \<noteq> At_tail i"
  then show ?thesis
  proof (cases p)
    case (At_inner a j i)
    then have "a * ?W \<le> pr_more P * ?W" "19 * j + 19 \<le> 19 * pr_tile P" "i < 19" using le[of a] \<open>proper P p\<close> by simp_all
    then show ?thesis unfolding At_inner time_of.simps by linarith
  next
    case (At_turn a i)
    then show ?thesis using le[of a] less[of a] \<open>proper P p\<close> by (cases "a = pr_more P") (simp_all del: add_mult_distrib2)
  next
    case (At_load a i)
    then have "a * ?W \<le> pr_more P * ?W" "i < 22" using le[of a] \<open>proper P p\<close> by simp_all
    then show ?thesis unfolding At_load time_of.simps by linarith
  next
    case (At_tail i)
    then show ?thesis using \<open>\<And>i. p \<noteq> At_tail i\<close> by blast
  qed simp_all
qed

lemma schedule_tail: "gemm_schedule P v = At_tail i \<Longrightarrow> i + duration P = v + 5"
  using schedule_proper[of P v] by (auto simp: duration_def)

lemma schedule_last: "gemm_schedule P (duration P) = At_tail 5"
proof -
  have s: "proper P (gemm_schedule P (duration P))" "time_of P (gemm_schedule P (duration P)) = duration P" using schedule_proper by blast+
  then have "\<not> time_of P (gemm_schedule P (duration P)) < time_of P (At_tail 0)" by (simp add: duration_def)
  then obtain i where "gemm_schedule P (duration P) = At_tail i" using time_before_tail[OF s(1)] by blast
  then show ?thesis using s(2) by (simp add: duration_def)
qed

lemma schedule_inside: "v < duration P \<Longrightarrow> place_pc (gemm_schedule P v) < 55"
  using schedule_proper[of P v] schedule_tail[of P v] by (cases "gemm_schedule P v") (auto split: if_splits)

section \<open>Phases\<close>

text \<open>The code of a lane is the program along the schedule; every iteration of the outer loop has two barriers.\<close>

definition gemm_trace :: "problem \<Rightarrow> instruction list" where
  "gemm_trace P = unrolled (gemm_program (pr_tile P)) (\<lambda>v. place_pc (gemm_schedule P v)) (duration P)"

lemma gemm_trace_nth [simp]: "length (gemm_trace P) = duration P"
  "v < duration P \<Longrightarrow> gemm_trace P ! v = gemm_program (pr_tile P) ! place_pc (gemm_schedule P v)"
  by (simp_all add: gemm_trace_def)

fun place_phase :: "problem \<Rightarrow> place \<Rightarrow> nat" where
  "place_phase P (At_head i) = 0"
| "place_phase P (At_load a i) = (if i < 21 then 2 * a else 2 * a + 1)"
| "place_phase P (At_inner a j i) = 2 * a + 1"
| "place_phase P (At_turn a i) = (if i < 3 then 2 * a + 1 else 2 * a + 2)"
| "place_phase P (At_tail i) = 2 * pr_more P + 2"

lemma gemm_opcode: "pc < 55 \<Longrightarrow> inst_opcode (gemm_program T ! pc) =
    ([MOV, MOV, MOV, MUL, ADD, ADD, MUL, ADD, LOAD, MUL, ADD, MUL, ADD, STORE, ADD, MUL, ADD, MUL, ADD, LOAD, MOV, ADD, STORE, BARRIER, MOV] @
     [CMP, BRANCH, MUL, ADD, MUL, ADD, LOAD, MUL, ADD, MUL, ADD, ADD, LOAD, MUL, ADD, MOV, ADD, CMP, BRANCH] @
     [BARRIER, ADD, CMP, BRANCH, CMP, BRANCH] @ [MUL, ADD, MUL, ADD, STORE]) ! pc"
proof -
  have "map inst_opcode (gemm_program T) =
    [MOV, MOV, MOV, MUL, ADD, ADD, MUL, ADD, LOAD, MUL, ADD, MUL, ADD, STORE, ADD, MUL, ADD, MUL, ADD, LOAD, MOV, ADD, STORE, BARRIER, MOV] @
     [CMP, BRANCH, MUL, ADD, MUL, ADD, LOAD, MUL, ADD, MUL, ADD, ADD, LOAD, MUL, ADD, MOV, ADD, CMP, BRANCH] @
     [BARRIER, ADD, CMP, BRANCH, CMP, BRANCH] @ [MUL, ADD, MUL, ADD, STORE]"
    by (simp add: gemm_lists)
  then show "pc < 55 \<Longrightarrow> ?thesis" by (metis gemm_length nth_map)
qed

lemma gemm_barrier: "pc < 55 \<Longrightarrow> inst_opcode (gemm_program T ! pc) = BARRIER \<longleftrightarrow> pc = 23 \<or> pc = 44"
  and gemm_branch: "pc < 55 \<Longrightarrow> inst_opcode (gemm_program T ! pc) = BRANCH \<longleftrightarrow> pc = 26 \<or> pc = 43 \<or> pc = 47 \<or> pc = 49"
  and gemm_store: "pc < 55 \<Longrightarrow> inst_opcode (gemm_program T ! pc) \<in> {STORE, ATOMIC_ADD} \<longleftrightarrow> pc = 13 \<or> pc = 22 \<or> pc = 54"
  and gemm_access: "pc < 55 \<Longrightarrow> inst_opcode (gemm_program T ! pc) \<in> {LOAD, STORE, ATOMIC_ADD} \<longleftrightarrow> pc \<in> {8, 13, 19, 22, 31, 37, 54}"
  and gemm_opcodes: "pc < 55 \<Longrightarrow> inst_opcode (gemm_program T ! pc) \<in> {BRANCH, BARRIER} \<or> lanewise_opcode (inst_opcode (gemm_program T ! pc))"
proof -
  have "list_all (\<lambda>pc. (inst_opcode (gemm_program T ! pc) = BARRIER \<longleftrightarrow> pc = 23 \<or> pc = 44) \<and>
      (inst_opcode (gemm_program T ! pc) = BRANCH \<longleftrightarrow> pc = 26 \<or> pc = 43 \<or> pc = 47 \<or> pc = 49) \<and>
      (inst_opcode (gemm_program T ! pc) \<in> {STORE, ATOMIC_ADD} \<longleftrightarrow> pc = 13 \<or> pc = 22 \<or> pc = 54) \<and>
      (inst_opcode (gemm_program T ! pc) \<in> {LOAD, STORE, ATOMIC_ADD} \<longleftrightarrow> pc \<in> {8, 13, 19, 22, 31, 37, 54}) \<and>
      (inst_opcode (gemm_program T ! pc) \<in> {BRANCH, BARRIER} \<or> lanewise_opcode (inst_opcode (gemm_program T ! pc)))) [0..<55]"
    by (simp add: upt_rec gemm_opcode lanewise_opcode_def)
  note this[unfolded list_all_iff, rule_format, unfolded atLeastLessThan_iff set_upt, OF conjI, OF le0]
  then show "pc < 55 \<Longrightarrow> inst_opcode (gemm_program T ! pc) = BARRIER \<longleftrightarrow> pc = 23 \<or> pc = 44"
    "pc < 55 \<Longrightarrow> inst_opcode (gemm_program T ! pc) = BRANCH \<longleftrightarrow> pc = 26 \<or> pc = 43 \<or> pc = 47 \<or> pc = 49"
    "pc < 55 \<Longrightarrow> inst_opcode (gemm_program T ! pc) \<in> {STORE, ATOMIC_ADD} \<longleftrightarrow> pc = 13 \<or> pc = 22 \<or> pc = 54"
    "pc < 55 \<Longrightarrow> inst_opcode (gemm_program T ! pc) \<in> {LOAD, STORE, ATOMIC_ADD} \<longleftrightarrow> pc \<in> {8, 13, 19, 22, 31, 37, 54}"
    "pc < 55 \<Longrightarrow> inst_opcode (gemm_program T ! pc) \<in> {BRANCH, BARRIER} \<or> lanewise_opcode (inst_opcode (gemm_program T ! pc))" by blast+
qed

lemma onward_phase: "proper P p \<Longrightarrow> place_pc p < 55 \<Longrightarrow>
    place_phase P (onward P p) = place_phase P p + (if inst_opcode (gemm_program T ! place_pc p) = BARRIER then 1 else 0)"
  by (cases p) (auto simp: gemm_barrier split: if_splits)

lemma gemm_phase: "v \<le> duration P \<Longrightarrow> phase (gemm_trace P) v = place_phase P (gemm_schedule P v)"
proof (induction v)
  case (Suc v)
  then have v: "v < duration P" by simp
  have "phase (gemm_trace P) (Suc v) = phase (gemm_trace P) v + (if inst_opcode (gemm_trace P ! v) = BARRIER then 1 else 0)"
    using phase_Suc[of v "gemm_trace P"] v by simp
  then show ?case using Suc.IH onward_phase[OF conjunct1[OF schedule_proper[of P v]] schedule_inside[OF v]] v by simp
qed (simp add: phase_def)

end
