(* ===== verification/Gemm_Lanes.thy ===== *)
theory Gemm_Lanes
  imports Gemm Benchmarks
begin

text \<open>
  The matrix multiplication lane by lane: where a lane works, and what it may assume and has
  established at every place of the schedule.
\<close>

section \<open>Where a lane works\<close>

definition trow :: "problem \<Rightarrow> thread \<Rightarrow> nat" where
  "trow P t = t_local_id t div pr_tile P"

definition tcol :: "problem \<Rightarrow> thread \<Rightarrow> nat" where
  "tcol P t = t_local_id t mod pr_tile P"

definition grow :: "problem \<Rightarrow> thread \<Rightarrow> nat" where
  "grow P t = t_block_id t div pr_across P * pr_tile P + trow P t"

definition gcol :: "problem \<Rightarrow> thread \<Rightarrow> nat" where
  "gcol P t = t_block_id t mod pr_across P * pr_tile P + tcol P t"

definition gemm_id :: "problem \<Rightarrow> size_t \<Rightarrow> nat \<Rightarrow> nat" where
  "gemm_id P b l = (b div pr_across P * pr_tile P + l div pr_tile P) * breadth P + (b mod pr_across P * pr_tile P + l mod pr_tile P)"

text \<open>The matrices in the global memory, and the two tiles of a block in the shared memory.\<close>

definition at_B :: "problem \<Rightarrow> size_t" where
  "at_B P = height P * depth P * 4"

definition at_C :: "problem \<Rightarrow> size_t" where
  "at_C P = at_B P + depth P * breadth P * 4"

definition out_cell :: "problem \<Rightarrow> thread \<Rightarrow> size_t" where
  "out_cell P t = at_C P + (grow P t * breadth P + gcol P t) * 4"

definition tiles_at :: "problem \<Rightarrow> size_t \<Rightarrow> size_t" where
  "tiles_at P b = SHARED_MEM_BASE + b * (2 * pr_tile P * pr_tile P * 4)"

definition cell_A :: "problem \<Rightarrow> size_t \<Rightarrow> nat \<Rightarrow> nat \<Rightarrow> size_t" where
  "cell_A P b i j = tiles_at P b + (i * pr_tile P + j) * 4"

definition cell_B :: "problem \<Rightarrow> size_t \<Rightarrow> nat \<Rightarrow> nat \<Rightarrow> size_t" where
  "cell_B P b i j = tiles_at P b + pr_tile P * pr_tile P * 4 + (i * pr_tile P + j) * 4"

definition gemm_region :: "problem \<Rightarrow> size_t \<Rightarrow> size_t set" where
  "gemm_region P b = {tiles_at P b ..< tiles_at P (Suc b)}"

section \<open>What is computed\<close>

definition elem_A :: "problem \<Rightarrow> nat \<Rightarrow> nat \<Rightarrow> c_int" where
  "elem_A P i k = pr_A P ! (i * depth P + k)"

definition elem_B :: "problem \<Rightarrow> nat \<Rightarrow> nat \<Rightarrow> c_int" where
  "elem_B P k j = pr_B P ! (k * breadth P + j)"

text \<open>The first \<open>n\<close> terms of a product of a row and a column, as the CPU adds them.\<close>

definition partial_dot :: "problem \<Rightarrow> nat \<Rightarrow> nat \<Rightarrow> nat \<Rightarrow> c_int result" where
  "partial_dot P i j n = foldE (\<lambda>s k. bindE (c_mul (elem_A P i k) (elem_B P k j)) (c_add s)) 0 [0..<n]"

definition dot :: "problem \<Rightarrow> nat \<Rightarrow> nat \<Rightarrow> nat \<Rightarrow> c_int" where
  "dot P i j n = (case partial_dot P i j n of Inr v \<Rightarrow> v | Inl _ \<Rightarrow> 0)"

text \<open>
  Tiles with at least one element, matrices of the right size below the shared memory, and products
  that the CPU computes without an overflow.
\<close>

definition gemm_ok :: "problem \<Rightarrow> bool" where
  "gemm_ok P \<longleftrightarrow> 0 < pr_tile P \<and> length (pr_A P) = height P * depth P \<and> length (pr_B P) = depth P * breadth P \<and>
     at_C P + height P * breadth P * 4 \<le> SHARED_MEM_BASE \<and>
     (\<forall>i < height P. \<forall>j < breadth P. \<exists>v. partial_dot P i j (depth P) = Inr v)"

definition gemm_target :: "problem \<Rightarrow> size_t \<Rightarrow> c_int option" where
  "gemm_target P a =
     (let x = (a - at_C P) div 4
      in if at_C P \<le> a \<and> (a - at_C P) mod 4 = 0 \<and> x < height P * breadth P
         then Some (dot P (x div breadth P) (x mod breadth P) (depth P)) else None)"

lemma foldE_prefix: "foldE f s (xs @ ys) = Inr v \<Longrightarrow> \<exists>u. foldE f s xs = Inr u \<and> foldE f u ys = Inr v"
  by (induction xs arbitrary: s) auto

lemma dot_step:
  assumes "gemm_ok P" and "i < height P" and "j < breadth P" and "n < depth P"
  shows "c_mul (elem_A P i n) (elem_B P n j) = Inr (elem_A P i n * elem_B P n j) \<and>
    c_add (dot P i j n) (elem_A P i n * elem_B P n j) = Inr (dot P i j (Suc n))"
proof -
  obtain v where v: "partial_dot P i j (depth P) = Inr v" using assms by (auto simp: gemm_ok_def)
  have "[0..<depth P] = [0..<n] @ n # [Suc n..<depth P]"
    using upt_add_eq_append[of 0 n "depth P - n"] upt_conv_Cons[OF assms(4)] assms(4) by simp
  then obtain u p s where u: "partial_dot P i j n = Inr u" "c_mul (elem_A P i n) (elem_B P n j) = Inr p" "c_add u p = Inr s"
    using v foldE_prefix unfolding partial_dot_def by fastforce
  then have "partial_dot P i j (Suc n) = Inr s" by (simp add: partial_dot_def foldE_append)
  moreover have "p = elem_A P i n * elem_B P n j" using u(2) by (simp add: c_mul_def checked_int_Inr)
  ultimately show ?thesis using u by (simp add: dot_def)
qed

lemma dot_0 [simp]: "dot P i j 0 = 0"
  by (simp add: dot_def partial_dot_def)

section \<open>The registers of a lane\<close>

text \<open>Registers that the grid sets up and the kernel never changes.\<close>

definition gemm_constants :: "problem \<Rightarrow> thread \<Rightarrow> (c_int \<times> nat) list" where
  "gemm_constants P t =
     [(0, grow P t), (1, gcol P t), (2, trow P t), (3, tcol P t), (10, pr_tile P), (12, breadth P), (13, depth P),
      (14, tiles_at P (t_block_id t)), (15, 0), (16, at_B P), (17, at_C P)]"

text \<open>The life of a value: its register, the value, and the first and the last place with it.\<close>

definition live :: "nat \<Rightarrow> ('r \<times> 'v \<times> nat \<times> nat) list \<Rightarrow> ('r \<times> 'v) list" where
  "live i rows = map (\<lambda>(r, v, _). (r, v)) (filter (\<lambda>(_, _, lo, hi). lo \<le> i \<and> i \<le> hi) rows)"

lemma live_bound: "(r, v) \<in> set (live i rows) \<Longrightarrow> list_all (\<lambda>(_, v, _). v < n) rows \<Longrightarrow> v < n"
  by (auto simp: live_def list_all_iff)

fun addresses :: "problem \<Rightarrow> thread \<Rightarrow> place \<Rightarrow> (c_int \<times> nat) list" where
  "addresses P t (At_head i) = live i [(31, 4, 1, 2), (8, 0, 2, 2)]"
| "addresses P t (At_load a i) = [(31, 4), (8, a * pr_tile P)] @
     live i
       [(20, grow P t * depth P, 1, 1),
        (21, grow P t * depth P + a * pr_tile P, 2, 2),
        (22, grow P t * depth P + a * pr_tile P + tcol P t, 3, 3),
        (23, (grow P t * depth P + a * pr_tile P + tcol P t) * 4, 4, 4),
        (24, 0 + (grow P t * depth P + a * pr_tile P + tcol P t) * 4, 5, 5),
        (26, trow P t * pr_tile P, 7, 7),
        (27, trow P t * pr_tile P + tcol P t, 8, 8),
        (28, (trow P t * pr_tile P + tcol P t) * 4, 9, 9),
        (29, cell_A P (t_block_id t) (trow P t) (tcol P t), 10, 18),
        (20, a * pr_tile P + trow P t, 12, 12),
        (21, (a * pr_tile P + trow P t) * breadth P, 13, 13),
        (22, (a * pr_tile P + trow P t) * breadth P + gcol P t, 14, 14),
        (23, ((a * pr_tile P + trow P t) * breadth P + gcol P t) * 4, 15, 15),
        (24, at_B P + ((a * pr_tile P + trow P t) * breadth P + gcol P t) * 4, 16, 16),
        (30, pr_tile P * pr_tile P * 4, 18, 21),
        (26, cell_B P (t_block_id t) (trow P t) (tcol P t), 19, 19)]"
| "addresses P t (At_inner a j i) = [(31, 4), (8, a * pr_tile P), (30, pr_tile P * pr_tile P * 4)] @
     live i
       [(9, j, 0, 16),
        (20, trow P t * pr_tile P, 3, 3),
        (21, trow P t * pr_tile P + j, 4, 4),
        (22, (trow P t * pr_tile P + j) * 4, 5, 5),
        (23, cell_A P (t_block_id t) (trow P t) j, 6, 6),
        (20, j * pr_tile P, 8, 8),
        (21, j * pr_tile P + tcol P t, 9, 9),
        (22, (j * pr_tile P + tcol P t) * 4, 10, 11),
        (23, tiles_at P (t_block_id t) + pr_tile P * pr_tile P * 4, 11, 11),
        (23, cell_B P (t_block_id t) j (tcol P t), 12, 12),
        (27, 1, 16, 16),
        (9, j + 1, 17, 18)]"
| "addresses P t (At_turn a i) = (31, 4) # live i [(9, pr_tile P, 0, 1), (8, a * pr_tile P, 0, 3), (8, a * pr_tile P + pr_tile P, 4, 7)]"
| "addresses P t (At_tail i) = (31, 4) #
     live i
       [(20, grow P t * breadth P, 1, 1),
        (21, grow P t * breadth P + gcol P t, 2, 2),
        (22, (grow P t * breadth P + gcol P t) * 4, 3, 3),
        (23, out_cell P t, 4, 4)]"

text \<open>The registers with elements and sums of products.\<close>

fun contents :: "problem \<Rightarrow> thread \<Rightarrow> place \<Rightarrow> (c_int \<times> c_int) list" where
  "contents P t (At_head i) = []"
| "contents P t (At_load a i) = (7, dot P (grow P t) (gcol P t) (a * pr_tile P)) #
     live i [(25, elem_A P (grow P t) (a * pr_tile P + tcol P t), 6, 10), (25, elem_B P (a * pr_tile P + trow P t) (gcol P t), 17, 19)]"
| "contents P t (At_inner a j i) =
     live i
       [(7, dot P (grow P t) (gcol P t) (a * pr_tile P + j), 0, 14),
        (24, elem_A P (grow P t) (a * pr_tile P + j), 7, 13),
        (25, elem_B P (a * pr_tile P + j) (gcol P t), 13, 13),
        (26, elem_A P (grow P t) (a * pr_tile P + j) * elem_B P (a * pr_tile P + j) (gcol P t), 14, 14),
        (7, dot P (grow P t) (gcol P t) (Suc (a * pr_tile P + j)), 15, 18)]"
| "contents P t (At_turn a i) = [(7, dot P (grow P t) (gcol P t) (a * pr_tile P + pr_tile P))]"
| "contents P t (At_tail i) = [(7, dot P (grow P t) (gcol P t) (depth P))]"

definition registers_at :: "problem \<Rightarrow> thread \<Rightarrow> place \<Rightarrow> (c_int \<times> c_int) list" where
  "registers_at P t p = map (\<lambda>(r, x). (r, of_nat x)) (gemm_constants P t @ addresses P t p) @ contents P t p"

definition knows :: "thread \<Rightarrow> (c_int \<times> c_int) list \<Rightarrow> bool" where
  "knows t rvs \<longleftrightarrow> (\<forall>(r, v) \<in> set rvs. read_reg t r = Inr v)"

section \<open>The assertion\<close>

definition gemm_common :: "problem \<Rightarrow> thread \<Rightarrow> view \<Rightarrow> bool" where
  "gemm_common P t M \<longleftrightarrow> gemm_ok P \<and> full_file t \<and> t_block_id t < pr_down P * pr_across P \<and> t_local_id t < pr_tile P * pr_tile P \<and>
     t_global_id t = gemm_id P (t_block_id t) (t_local_id t) \<and>
     (\<forall>x < height P * depth P. M (x * 4) = Inr (pr_A P ! x)) \<and>
     (\<forall>x < depth P * breadth P. M (at_B P + x * 4) = Inr (pr_B P ! x)) \<and>
     (\<exists>v. M (out_cell P t) = Inr v) \<and>
     (\<exists>v. M (cell_A P (t_block_id t) (trow P t) (tcol P t)) = Inr v) \<and>
     (\<exists>v. M (cell_B P (t_block_id t) (trow P t) (tcol P t)) = Inr v)"

text \<open>The tiles of iteration \<open>a\<close>, in the shared memory of a block.\<close>

definition tiles :: "problem \<Rightarrow> size_t \<Rightarrow> nat \<Rightarrow> view \<Rightarrow> bool" where
  "tiles P b a M \<longleftrightarrow> (\<forall>i < pr_tile P. \<forall>j < pr_tile P.
     M (cell_A P b i j) = Inr (elem_A P (b div pr_across P * pr_tile P + i) (a * pr_tile P + j)) \<and>
     M (cell_B P b i j) = Inr (elem_B P (a * pr_tile P + i) (b mod pr_across P * pr_tile P + j)))"

fun memory_at :: "problem \<Rightarrow> thread \<Rightarrow> view \<Rightarrow> place \<Rightarrow> bool" where
  "memory_at P t M (At_head i) \<longleftrightarrow> True"
| "memory_at P t M (At_load a i) \<longleftrightarrow>
     (10 < i \<longrightarrow> M (cell_A P (t_block_id t) (trow P t) (tcol P t)) = Inr (elem_A P (grow P t) (a * pr_tile P + tcol P t))) \<and>
     (19 < i \<longrightarrow> M (cell_B P (t_block_id t) (trow P t) (tcol P t)) = Inr (elem_B P (a * pr_tile P + trow P t) (gcol P t))) \<and>
     (20 < i \<longrightarrow> tiles P (t_block_id t) a M)"
| "memory_at P t M (At_inner a j i) \<longleftrightarrow> tiles P (t_block_id t) a M"
| "memory_at P t M (At_turn a i) \<longleftrightarrow> True"
| "memory_at P t M (At_tail i) \<longleftrightarrow> (4 < i \<longrightarrow> M (out_cell P t) = Inr (dot P (grow P t) (gcol P t) (depth P)))"

fun branch_at :: "problem \<Rightarrow> thread \<Rightarrow> place \<Rightarrow> bool" where
  "branch_at P t (At_inner a j i) \<longleftrightarrow> (i = 1 \<longrightarrow> \<not> t_predicate t) \<and> (i = 18 \<longrightarrow> t_predicate t)"
| "branch_at P t (At_turn a i) \<longleftrightarrow> (i = 1 \<or> i = 7 \<longrightarrow> t_predicate t) \<and> (i = 5 \<longrightarrow> t_predicate t = (a = pr_more P))"
| "branch_at P t p \<longleftrightarrow> True"

definition gemm_at :: "problem \<Rightarrow> place \<Rightarrow> thread \<Rightarrow> view \<Rightarrow> bool" where
  "gemm_at P p t M \<longleftrightarrow> gemm_common P t M \<and> knows t (registers_at P t p) \<and> memory_at P t M p \<and> branch_at P t p"

definition gemm_lane :: "problem \<Rightarrow> nat \<Rightarrow> thread \<Rightarrow> view \<Rightarrow> bool" where
  "gemm_lane P v t M \<longleftrightarrow> v \<le> duration P \<and> gemm_at P (gemm_schedule P v) t M"

section \<open>Bounds\<close>

lemma index_less: "i < a \<Longrightarrow> j < b \<Longrightarrow> i * b + j < a * (b :: nat)"
proof -
  assume "i < a" "j < b"
  then have "i * b + j < Suc i * b" by simp
  also have "\<dots> \<le> a * b" using \<open>i < a\<close> by (intro mult_le_mono1) simp
  finally show ?thesis .
qed

lemma index_div: "c < n \<Longrightarrow> (r * n + c) div n = (r :: nat)" and index_mod: "c < n \<Longrightarrow> (r * n + c) mod n = (c :: nat)"
  by simp_all

lemma entry_bound: "x < n \<Longrightarrow> s + n * 4 \<le> (m :: nat) \<Longrightarrow> s + x * 4 < m"
  and index_bound: "x < n \<Longrightarrow> n * 4 \<le> (268435456 :: nat) \<Longrightarrow> x < 67108864"
  by simp_all

lemma gemm_place:
  assumes "gemm_common P t M"
  shows "0 < pr_tile P" and "0 < pr_across P" and "trow P t < pr_tile P" and "tcol P t < pr_tile P"
    and "t_block_id t div pr_across P < pr_down P" and "t_block_id t mod pr_across P < pr_across P"
    and "grow P t < height P" and "gcol P t < breadth P"
    and "t_local_id t = trow P t * pr_tile P + tcol P t" and "t_global_id t = grow P t * breadth P + gcol P t"
proof -
  have c: "gemm_ok P" "t_block_id t < pr_down P * pr_across P" "t_local_id t < pr_tile P * pr_tile P"
    "t_global_id t = gemm_id P (t_block_id t) (t_local_id t)" using assms by (simp_all add: gemm_common_def)
  show T: "0 < pr_tile P" using c(1) by (simp add: gemm_ok_def)
  show X: "0 < pr_across P" using c(2) by (cases "pr_across P") simp_all
  show r: "trow P t < pr_tile P" "tcol P t < pr_tile P" using c(3) T by (simp_all add: trow_def tcol_def less_mult_imp_div_less)
  show b: "t_block_id t div pr_across P < pr_down P" "t_block_id t mod pr_across P < pr_across P"
    using c(2) X by (simp_all add: less_mult_imp_div_less)
  show "grow P t < height P" "gcol P t < breadth P"
    using index_less[OF b(1) r(1)] index_less[OF b(2) r(2)] by (simp_all add: grow_def gcol_def height_def breadth_def)
  show "t_local_id t = trow P t * pr_tile P + tcol P t" by (simp add: trow_def tcol_def)
  show "t_global_id t = grow P t * breadth P + gcol P t" using c(4) by (simp add: gemm_id_def grow_def gcol_def trow_def tcol_def)
qed

lemma gemm_sizes:
  assumes "gemm_ok P" and "0 < pr_across P" "0 < pr_down P"
  shows "height P * depth P * 4 \<le> SHARED_MEM_BASE" "depth P * breadth P * 4 \<le> SHARED_MEM_BASE" "at_B P + depth P * breadth P * 4 \<le> SHARED_MEM_BASE"
    "at_C P + height P * breadth P * 4 \<le> SHARED_MEM_BASE"
    "pr_tile P \<le> height P" "pr_tile P \<le> breadth P" "pr_tile P \<le> depth P" "pr_tile P * pr_tile P \<le> height P * breadth P"
    "tiles_at P (pr_down P * pr_across P) < 2 ^ 30" "height P < 268435456" "breadth P < 268435456" "depth P < 268435456"
proof -
  have c: "at_C P + height P * breadth P * 4 \<le> SHARED_MEM_BASE" "0 < pr_tile P" using assms(1) by (simp_all add: gemm_ok_def)
  then show s: "height P * depth P * 4 \<le> SHARED_MEM_BASE" "depth P * breadth P * 4 \<le> SHARED_MEM_BASE" "at_B P + depth P * breadth P * 4 \<le> SHARED_MEM_BASE"
    "at_C P + height P * breadth P * 4 \<le> SHARED_MEM_BASE" by (simp_all add: at_C_def at_B_def)
  show t: "pr_tile P \<le> height P" "pr_tile P \<le> breadth P" "pr_tile P \<le> depth P"
    using assms(2,3) by (simp_all add: height_def breadth_def depth_def)
  then show "pr_tile P * pr_tile P \<le> height P * breadth P" by (intro mult_le_mono)
  have "pr_down P * pr_across P * (2 * pr_tile P * pr_tile P * 4) = 2 * (height P * breadth P * 4)"
    by (simp add: height_def breadth_def algebra_simps)
  moreover have "height P * breadth P * 4 \<le> 268435456" using s(4)[unfolded SHARED_MEM_BASE_def] by linarith
  ultimately have "pr_down P * pr_across P * (2 * pr_tile P * pr_tile P * 4) \<le> 536870912" by linarith
  then show "tiles_at P (pr_down P * pr_across P) < 2 ^ 30" unfolding tiles_at_def SHARED_MEM_BASE_def by simp
  have "height P \<le> height P * depth P" "depth P \<le> depth P * breadth P" "breadth P \<le> depth P * breadth P" using t c(2) by simp_all
  then show "height P < 268435456" "breadth P < 268435456" "depth P < 268435456" using s(1,2)[unfolded SHARED_MEM_BASE_def] t c(2) by - (linarith+)
qed

text \<open>No address and no index overflows.\<close>

lemma gemm_entries:
  assumes c: "gemm_common P t M" and a: "a \<le> pr_more P"
  shows "k < pr_tile P \<Longrightarrow> a * pr_tile P + k < depth P" and "a * pr_tile P < depth P"
    and "k < depth P \<Longrightarrow> grow P t * depth P + k < height P * depth P" and "k < depth P \<Longrightarrow> k * breadth P + gcol P t < depth P * breadth P"
    and "grow P t * breadth P + gcol P t < height P * breadth P"
proof -
  note pl = gemm_place[OF c]
  show k: "k < pr_tile P \<Longrightarrow> a * pr_tile P + k < depth P" for k using index_less[of a "Suc (pr_more P)" k "pr_tile P"] a by (simp add: depth_def)
  from k[of 0] pl(1) show "a * pr_tile P < depth P" by simp
  show "k < depth P \<Longrightarrow> grow P t * depth P + k < height P * depth P" using index_less[OF pl(7)] .
  show "k < depth P \<Longrightarrow> k * breadth P + gcol P t < depth P * breadth P" using index_less[of k "depth P" "gcol P t" "breadth P"] pl(8) by simp
  show "grow P t * breadth P + gcol P t < height P * breadth P" using index_less[OF pl(7,8)] .
qed

lemma cell_bounds:
  assumes c: "gemm_common P t M" and ij: "i < pr_tile P" "j < pr_tile P"
  shows "i * pr_tile P + j < pr_tile P * pr_tile P" and "cell_A P (t_block_id t) i j < 2 ^ 30" and "cell_B P (t_block_id t) i j < 2 ^ 30"
    and "cell_A P (t_block_id t) i j \<in> gemm_region P (t_block_id t)" and "cell_B P (t_block_id t) i j \<in> gemm_region P (t_block_id t)"
proof -
  let ?b = "t_block_id t"
  show e: "i * pr_tile P + j < pr_tile P * pr_tile P" by (rule index_less[OF ij])
  have "gemm_ok P" "?b < pr_down P * pr_across P" using c by (simp_all add: gemm_common_def)
  then have "Suc ?b * (2 * pr_tile P * pr_tile P * 4) \<le> pr_down P * pr_across P * (2 * pr_tile P * pr_tile P * 4)"
    by (intro mult_le_mono1) simp
  moreover have "0 < pr_across P" "0 < pr_down P" using \<open>?b < pr_down P * pr_across P\<close> by (auto intro: gr0I)
  then have "tiles_at P (pr_down P * pr_across P) < 2 ^ 30" using gemm_sizes(9)[of P] \<open>gemm_ok P\<close> by simp
  ultimately have "tiles_at P (Suc ?b) < 2 ^ 30" unfolding tiles_at_def by linarith
  moreover have "tiles_at P (Suc ?b) = tiles_at P ?b + pr_tile P * pr_tile P * 8" by (simp add: tiles_at_def)
  ultimately have "tiles_at P ?b \<le> cell_A P ?b i j" "cell_A P ?b i j < tiles_at P (Suc ?b)" "tiles_at P ?b \<le> cell_B P ?b i j"
    "cell_B P ?b i j < tiles_at P (Suc ?b)" "tiles_at P (Suc ?b) < 2 ^ 30"
    unfolding cell_A_def cell_B_def using e by (simp_all del: distrib_right_numeral add_mult_distrib)
  then show "cell_A P ?b i j < 2 ^ 30" "cell_B P ?b i j < 2 ^ 30" "cell_A P ?b i j \<in> gemm_region P ?b" "cell_B P ?b i j \<in> gemm_region P ?b"
    unfolding gemm_region_def by simp_all
qed

lemma addresses_small:
  assumes c: "gemm_common P t M" and p: "proper P p" and x: "(r, x) \<in> set (gemm_constants P t @ addresses P t p)"
  shows "x < 2 ^ 31"
proof -
  have ok: "gemm_ok P" and b: "t_block_id t < pr_down P * pr_across P" using c by (simp_all add: gemm_common_def)
  note pl = gemm_place[OF c]
  have "0 < pr_down P" using b by (cases "pr_down P") simp_all
  note sz = gemm_sizes[OF ok pl(2) this, unfolded SHARED_MEM_BASE_def]
  have "(r, y) \<in> set (gemm_constants P t) \<Longrightarrow> y < 2 ^ 31" for y
    using pl sz cell_bounds(2)[OF c pl(1) pl(1)] unfolding gemm_constants_def cell_A_def at_C_def at_B_def by auto
  moreover have "x < 2 ^ 31" if "(r, x) \<in> set (addresses P t p)"
  proof (cases p)
    case (At_load a i)
    then have a: "a \<le> pr_more P" using p by simp
    note en = gemm_entries[OF c a]
    have k: "a * pr_tile P + tcol P t < depth P" "a * pr_tile P + trow P t < depth P" using en(1) pl by blast+
    have "grow P t * depth P + a * pr_tile P + tcol P t < 67108864" "(a * pr_tile P + trow P t) * breadth P + gcol P t < 67108864"
      "at_B P + ((a * pr_tile P + trow P t) * breadth P + gcol P t) * 4 < 268435456" "a * pr_tile P + trow P t < 268435456"
      using index_bound[OF en(3)[OF k(1)] sz(1)] index_bound[OF en(4)[OF k(2)] sz(2)] entry_bound[OF en(4)[OF k(2)] sz(3)] k(2) sz(12)
      by (simp_all add: add.assoc)
    moreover have "trow P t * pr_tile P + tcol P t < 268435456" "pr_tile P * pr_tile P * 4 < 2147483648" "a * pr_tile P < 268435456"
      using cell_bounds(3)[OF c pl(3,4)] cell_bounds(3)[OF c pl(1,1)] en(2) sz(12) by (simp_all add: cell_B_def)
    ultimately show ?thesis
      using that At_load cell_bounds(2,3)[OF c pl(3,4)] by (auto elim!: live_bound)
  next
    case (At_inner a j i)
    then have a: "a \<le> pr_more P" and j: "j < pr_tile P" using p by simp_all
    have "trow P t * pr_tile P + j < 268435456" "pr_tile P * pr_tile P * 4 < 1073741824" "a * pr_tile P < 268435456"
      "j * pr_tile P + tcol P t < 268435456" "tiles_at P (t_block_id t) + pr_tile P * pr_tile P * 4 < 1073741824"
      using cell_bounds(2,3)[OF c pl(3) j] cell_bounds(2,3)[OF c j pl(4)] gemm_entries(2)[OF c a] sz(12) by (simp_all add: cell_A_def cell_B_def)
    moreover have "j < 268435455" using j sz(7,12) by simp
    ultimately show ?thesis using that At_inner cell_bounds(2)[OF c pl(3) j] cell_bounds(3)[OF c j pl(4)] by (auto elim!: live_bound)
  next
    case (At_turn a i)
    then have "a * pr_tile P + pr_tile P \<le> depth P" using p mult_le_mono1[of "Suc a" "Suc (pr_more P)" "pr_tile P"] by (simp add: depth_def split: if_splits)
    then have "a * pr_tile P + pr_tile P < 268435456" "pr_tile P < 268435456" "a * pr_tile P < 268435456" using sz(12) by simp_all
    then show ?thesis using that At_turn by (auto elim!: live_bound)
  next
    case (At_tail i)
    then show ?thesis using that gemm_entries(5)[OF c le0] sz by (auto simp: out_cell_def elim!: live_bound)
  qed (use that in \<open>auto elim!: live_bound\<close>)
  ultimately show ?thesis using x by auto
qed

end
