(* ===== verification/Gemm_Steps.thy ===== *)
theory Gemm_Steps
  imports Gemm_Lanes
begin

text \<open>
  Every instruction of the matrix multiplication takes a lane from one place to the next. The tables
  of live registers are checked by one rule for each kind of instruction.
\<close>

section \<open>Rules for the instructions\<close>

lemma int_to_size_inj: "int_to_size a = int_to_size b \<longleftrightarrow> a = b"
proof
  have v: "int (int_to_size c) = (if 0 \<le> sint c then sint c else 2 ^ 64 + sint c)" "- (2 ^ 31) \<le> sint c" "sint c < 2 ^ 31" for c
    using int_to_size_nonneg[of c] int_to_size_neg[of c] sint_bounds32[of c] by simp_all
  assume "int_to_size a = int_to_size b"
  then have "sint a = sint b" using v[of a] v[of b] by (simp split: if_splits)
  then show "a = b" by (rule signed_word_eqI)
qed simp

lemma knows_wrote:
  assumes "knows t rs" and "wrote d v t t'" and "\<forall>(r, x) \<in> set rs'. if r = d then x = v else (r, x) \<in> set rs"
  shows "knows t' rs'"
  using assms by (fastforce simp: knows_def wrote_def int_to_size_inj split: if_splits)

definition known :: "problem \<Rightarrow> thread \<Rightarrow> place \<Rightarrow> c_int \<Rightarrow> nat option" where
  "known P t p = map_of (gemm_constants P t @ addresses P t p)"

text \<open>The registers that the kernel writes.\<close>

definition scratch :: "c_int set" where
  "scratch = {7, 8, 9, 20, 21, 22, 23, 24, 25, 26, 27, 28, 29, 30, 31}"

definition current :: "problem \<Rightarrow> place \<Rightarrow> instruction" where
  "current P p = gemm_program (pr_tile P) ! place_pc p"

definition gemm_step :: "problem \<Rightarrow> place \<Rightarrow> thread \<Rightarrow> view \<Rightarrow> bool" where
  "gemm_step P p t M \<longleftrightarrow> (\<exists>t' M'. lane_step (current P p) M t = Inr (t', M') \<and> gemm_at P (onward P p) t' M' \<and>
     change (gemm_target P) (\<lambda>a. a \<in> gemm_region P (t_block_id t)) M M')"

lemma known_read:
  assumes "gemm_at P p t M" and "proper P p" and "known P t p r = Some x"
  shows "read_reg t r = Inr (of_nat x)" and "x < 2 ^ 31"
proof -
  have m: "(r, x) \<in> set (gemm_constants P t @ addresses P t p)" using assms(3) map_of_SomeD unfolding known_def by fast
  then show "read_reg t r = Inr (of_nat x)" using assms(1) by (force simp: gemm_at_def knows_def registers_at_def)
  show "x < 2 ^ 31" using addresses_small[OF _ assms(2) m] assms(1) unfolding gemm_at_def by blast
qed

lemma scratch_small: "d \<in> scratch \<Longrightarrow> int_to_size d < 32"
  by (auto simp: scratch_def int_to_size_def)

lemma wrote_same: "wrote d v t t' \<Longrightarrow> t_block_id t' = t_block_id t \<and> t_local_id t' = t_local_id t \<and> t_global_id t' = t_global_id t \<and> full_file t'"
  by (simp add: wrote_def same_identity_def)

lemma same_places:
  assumes "t_block_id t' = t_block_id t" and "t_local_id t' = t_local_id t"
  shows "trow P t' = trow P t" "tcol P t' = tcol P t" "grow P t' = grow P t" "gcol P t' = gcol P t" "out_cell P t' = out_cell P t"
    "gemm_constants P t' = gemm_constants P t" "addresses P t' p = addresses P t p" "contents P t' p = contents P t p"
    "registers_at P t' p = registers_at P t p" "memory_at P t' M p = memory_at P t M p"
proof -
  show s: "trow P t' = trow P t" "tcol P t' = tcol P t" "grow P t' = grow P t" "gcol P t' = gcol P t" "out_cell P t' = out_cell P t"
    using assms by (simp_all add: trow_def tcol_def grow_def gcol_def out_cell_def)
  then show c: "gemm_constants P t' = gemm_constants P t" "addresses P t' p = addresses P t p" "contents P t' p = contents P t p"
    "memory_at P t' M p = memory_at P t M p" using assms by (cases p; simp add: gemm_constants_def)+
  show "registers_at P t' p = registers_at P t p" by (simp add: registers_at_def c)
qed

lemma same_common:
  assumes "gemm_common P t M" and "t_block_id t' = t_block_id t" "t_local_id t' = t_local_id t" "t_global_id t' = t_global_id t" "full_file t'"
  shows "gemm_common P t' M"
  using assms unfolding gemm_common_def by (simp add: same_places[OF assms(2,3)])

text \<open>A step that writes one register.\<close>

definition table_step :: "problem \<Rightarrow> thread \<Rightarrow> place \<Rightarrow> place \<Rightarrow> c_int \<Rightarrow> c_int \<Rightarrow> bool" where
  "table_step P t p p' d v \<longleftrightarrow> d \<in> scratch \<and>
     (\<forall>(r, x) \<in> set (addresses P t p'). if r = d then of_nat x = v else (r, x) \<in> set (addresses P t p)) \<and>
     (\<forall>(r, x) \<in> set (contents P t p'). if r = d then x = v else (r, x) \<in> set (contents P t p))"

lemma gemm_register_step:
  assumes a: "gemm_at P p t M" and st: "lane_step (current P p) M t = Inr (t', M)" and w: "wrote d v t t'"
    and tab: "table_step P t p (onward P p) d v" and mem: "memory_at P t M p \<Longrightarrow> memory_at P t M (onward P p)" and br: "\<And>u. branch_at P u (onward P p)"
  shows "gemm_step P p t M"
proof -
  note same = wrote_same[OF w]
  note sp = same_places[OF conjunct1[OF same] conjunct1[OF conjunct2[OF same]]]
  have "gemm_common P t' M" by (rule same_common[of P t]) (use a same in \<open>simp_all add: gemm_at_def\<close>)
  moreover have "\<forall>(r, x) \<in> set (registers_at P t (onward P p)). if r = d then x = v else (r, x) \<in> set (registers_at P t p)"
  proof (intro ballI, clarify)
    fix r x assume "(r, x) \<in> set (registers_at P t (onward P p))"
    then consider (con) y where "(r, y) \<in> set (gemm_constants P t)" "x = of_nat y"
      | (addr) y where "(r, y) \<in> set (addresses P t (onward P p))" "x = of_nat y" | (cnt) "(r, x) \<in> set (contents P t (onward P p))"
      by (auto simp: registers_at_def)
    then show "if r = d then x = v else (r, x) \<in> set (registers_at P t p)"
    proof cases
      case con
      then have "r \<notin> scratch" by (auto simp: gemm_constants_def scratch_def)
      then show ?thesis using con tab by (force simp: registers_at_def table_step_def)
    next
      case addr
      then have "if r = d then of_nat y = v else (r, y) \<in> set (addresses P t p)" using tab by (auto simp: table_step_def)
      then show ?thesis using addr(2) by (force simp: registers_at_def split: if_splits)
    next
      case cnt
      then have "if r = d then x = v else (r, x) \<in> set (contents P t p)" using tab by (auto simp: table_step_def)
      then show ?thesis by (simp add: registers_at_def split: if_splits)
    qed
  qed
  then have "knows t' (registers_at P t' (onward P p))"
    using knows_wrote[OF _ w, of "registers_at P t p"] a unfolding sp gemm_at_def by blast
  ultimately have "gemm_at P (onward P p) t' M" using a mem br by (simp add: gemm_at_def sp)
  then show ?thesis using st change_refl unfolding gemm_step_def by blast
qed

text \<open>Arithmetic on known addresses, constants, and arithmetic on elements.\<close>

lemma lane_step_wrote:
  assumes "inst_opcode i \<in> {ADD, MUL}" and "full_file t" and "inst_dst i \<in> scratch"
    and "read_reg t (inst_src1 i) = Inr x" and "read_reg t (inst_src2 i) = Inr y" and "(if inst_opcode i = ADD then c_add x y else c_mul x y) = Inr v"
  shows "\<exists>t'. lane_step i M t = Inr (t', M) \<and> wrote (inst_dst i) v t t'"
  using write_reg_wrote[OF assms(2) scratch_small[OF assms(3)], of v] assms(1,4-6)
  by (auto simp: lane_step_def lane_op_def alu_def)

definition operand :: "problem \<Rightarrow> thread \<Rightarrow> place \<Rightarrow> c_int \<Rightarrow> nat" where
  "operand P t p r = the (known P t p r)"

lemma gemm_address_step:
  assumes a: "gemm_at P p t M" and p: "proper P p" and oc: "inst_opcode (current P p) \<in> {ADD, MUL}"
    and x: "known P t p (inst_src1 (current P p)) \<noteq> None" and y: "known P t p (inst_src2 (current P p)) \<noteq> None"
    and z: "z = (let x = operand P t p (inst_src1 (current P p)); y = operand P t p (inst_src2 (current P p))
      in if inst_opcode (current P p) = ADD then x + y else x * y)"
    and new: "(inst_dst (current P p), z) \<in> set (addresses P t (onward P p))"
    and tab: "table_step P t p (onward P p) (inst_dst (current P p)) (of_nat z)"
    and mem: "memory_at P t M p \<Longrightarrow> memory_at P t M (onward P p)" and br: "\<And>u. branch_at P u (onward P p)"
  shows "gemm_step P p t M"
proof -
  let ?i = "current P p"
  let ?x = "operand P t p (inst_src1 ?i)" and ?y = "operand P t p (inst_src2 ?i)"
  have x': "known P t p (inst_src1 ?i) = Some ?x" and y': "known P t p (inst_src2 ?i) = Some ?y" using x y by (auto simp: operand_def)
  have c: "gemm_common P t M" "full_file t" using a by (simp_all add: gemm_at_def gemm_common_def)
  have "z < 2 ^ 31" by (rule addresses_small[OF c(1) conjunct1[OF onward_proper[OF p]], of "inst_dst ?i"]) (use new in simp)
  then have "(if inst_opcode ?i = ADD then c_add (of_nat ?x) (of_nat ?y) else c_mul (of_nat ?x) (of_nat ?y)) = Inr (of_nat z)"
    using known_read(2)[OF a p x'] known_read(2)[OF a p y'] add_nat[of ?x ?y] mul_nat[of ?x ?y] z by (simp add: Let_def split: if_splits)
  moreover have "inst_dst ?i \<in> scratch" using tab by (simp add: table_step_def)
  ultimately obtain t' where "lane_step ?i M t = Inr (t', M)" "wrote (inst_dst ?i) (of_nat z) t t'"
    using lane_step_wrote[OF oc c(2) _ known_read(1)[OF a p x'] known_read(1)[OF a p y']] by blast
  then show ?thesis by (rule gemm_register_step[OF a _ _ tab mem br])
qed

lemma gemm_mov_step:
  assumes a: "gemm_at P p t M" and oc: "inst_opcode (current P p) = MOV" "inst_src1 (current P p) = -1"
    and tab: "table_step P t p (onward P p) (inst_dst (current P p)) (inst_immediate (current P p))"
    and mem: "memory_at P t M p \<Longrightarrow> memory_at P t M (onward P p)" and br: "\<And>u. branch_at P u (onward P p)"
  shows "gemm_step P p t M"
proof -
  let ?i = "current P p"
  have "full_file t" "inst_dst ?i \<in> scratch" using a tab by (simp_all add: gemm_at_def gemm_common_def table_step_def)
  then obtain t' where "lane_step ?i M t = Inr (t', M)" "wrote (inst_dst ?i) (inst_immediate ?i) t t'"
    using write_reg_wrote[OF _ scratch_small, of t "inst_dst ?i" "inst_immediate ?i"] oc by (auto simp: lane_step_def lane_op_def mov_def)
  then show ?thesis by (rule gemm_register_step[OF a _ _ tab mem br])
qed

lemma gemm_load_step:
  assumes a: "gemm_at P p t M" and p: "proper P p" and i: "current P p = instr LOAD d r s 0" and r: "r \<noteq> -1"
    and x: "known P t p r = Some x" and M: "M x = Inr v" and tab: "table_step P t p (onward P p) d v"
    and mem: "memory_at P t M p \<Longrightarrow> memory_at P t M (onward P p)" and br: "\<And>u. branch_at P u (onward P p)"
  shows "gemm_step P p t M"
proof -
  have "full_file t" "int_to_size d < 32" using a tab scratch_small by (simp_all add: gemm_at_def gemm_common_def table_step_def)
  from step_load[where M = M, OF this known_read(1)[OF a p x] r known_read(2)[OF a p x] M, of s] obtain t' where
    "lane_step (current P p) M t = Inr (t', M)" "wrote d v t t'" unfolding i by blast
  then show ?thesis by (rule gemm_register_step[OF a _ _ tab mem br])
qed

lemma gemm_element_step:
  assumes a: "gemm_at P p t M" and oc: "inst_opcode (current P p) \<in> {ADD, MUL}"
    and x: "(inst_src1 (current P p), x) \<in> set (contents P t p)" and y: "(inst_src2 (current P p), y) \<in> set (contents P t p)"
    and z: "(if inst_opcode (current P p) = ADD then c_add x y else c_mul x y) = Inr v"
    and tab: "table_step P t p (onward P p) (inst_dst (current P p)) v"
    and mem: "memory_at P t M p \<Longrightarrow> memory_at P t M (onward P p)" and br: "\<And>u. branch_at P u (onward P p)"
  shows "gemm_step P p t M"
proof -
  have "full_file t" "inst_dst (current P p) \<in> scratch" using a tab by (simp_all add: gemm_at_def gemm_common_def table_step_def)
  moreover have "read_reg t (inst_src1 (current P p)) = Inr x" "read_reg t (inst_src2 (current P p)) = Inr y"
    using a x y by (auto simp: gemm_at_def knows_def registers_at_def)
  ultimately obtain t' where "lane_step (current P p) M t = Inr (t', M)" "wrote (inst_dst (current P p)) v t t'"
    using lane_step_wrote[OF oc _ _ _ _ z] by blast
  then show ?thesis by (rule gemm_register_step[OF a _ _ tab mem br])
qed

lemma gemm_cmp_step:
  assumes a: "gemm_at P p t M" and p: "proper P p" and i: "current P p = instr CMP d r s 0"
    and x: "known P t p r = Some x" and y: "known P t p s = Some y"
    and tab: "set (addresses P t (onward P p)) \<subseteq> set (addresses P t p)" "set (contents P t (onward P p)) \<subseteq> set (contents P t p)"
    and mem: "memory_at P t M p \<Longrightarrow> memory_at P t M (onward P p)" and br: "branch_at P (set_predicate t (x = y)) (onward P p)"
  shows "gemm_step P p t M"
proof -
  let ?t = "set_predicate t (x = y)"
  have "(of_nat x :: c_int) = of_nat y \<longleftrightarrow> x = y"
    using known_read(2)[OF a p x] known_read(2)[OF a p y] sint_of_nat by (metis of_nat_eq_iff)
  then have st: "lane_step (current P p) M t = Inr (?t, M)"
    unfolding i using step_cmp[OF known_read(1)[OF a p x] known_read(1)[OF a p y]] by simp
  have same: "t_block_id ?t = t_block_id t" "t_local_id ?t = t_local_id t" "t_global_id ?t = t_global_id t" "t_registers ?t = t_registers t"
    by (simp_all add: set_predicate_def)
  note sp = same_places[OF same(1,2)]
  have "gemm_common P ?t M" by (rule same_common[of P t]) (use a same in \<open>simp_all add: gemm_at_def gemm_common_def full_file_def\<close>)
  moreover have "set (registers_at P t (onward P p)) \<subseteq> set (registers_at P t p)" using tab by (auto simp: registers_at_def)
  then have "knows ?t (registers_at P ?t (onward P p))" using a unfolding sp by (auto simp: gemm_at_def knows_def read_reg_def same)
  ultimately have "gemm_at P (onward P p) ?t M" using a mem br by (simp add: gemm_at_def sp)
  then show ?thesis using st change_refl unfolding gemm_step_def by blast
qed

section \<open>The places\<close>

lemmas tables = live_def gemm_constants_def known_def operand_def table_step_def scratch_def current_def cell_A_def cell_B_def out_cell_def

lemmas gemm_code_1 = gemm_head(2)[unfolded One_nat_def]

lemma gemm_step_head:
  assumes "gemm_at P (At_head i) t M" and "proper P (At_head i)"
  shows "gemm_step P (At_head i) t M"
proof -
  have "i = 0 \<or> i = 1 \<or> i = 2" using assms(2) by auto
  then show ?thesis
    by (intro gemm_mov_step[OF assms(1)]; elim disjE) (simp_all add: tables gemm_head gemm_code_1)
qed

lemma gemm_load_addresses:
  assumes a: "gemm_at P (At_load a i) t M" and p: "proper P (At_load a i)" and i: "i \<in> {0, 1, 2, 3, 4, 6, 7, 8, 9, 11, 12, 13, 14, 15, 18}"
  shows "gemm_step P (At_load a i) t M"
  by (rule gemm_address_step[OF a p _ _ _ refl]; use i in \<open>elim insertE emptyE\<close>) (simp_all add: tables gemm_loads)

lemma gemm_movs:
  assumes a: "gemm_at P p t M" and p: "proper P p" and i: "p = At_load a 17 \<or> p = At_load a 21 \<or> p = At_inner a j 15"
  shows "gemm_step P p t M"
proof -
  have "0 < pr_tile P" using a by (simp add: gemm_at_def gemm_common_def gemm_ok_def)
  then show ?thesis by (intro gemm_mov_step[OF a]; use i p in \<open>elim disjE\<close>) (simp_all add: tables gemm_loads gemm_inner)
qed

text \<open>Elements of the matrices and of the tiles.\<close>

lemma entries_at:
  assumes c: "gemm_common P t M" and k: "k < depth P"
  shows "M ((grow P t * depth P + k) * 4) = Inr (elem_A P (grow P t) k)" and "M (at_B P + (k * breadth P + gcol P t) * 4) = Inr (elem_B P k (gcol P t))"
  using c gemm_entries(3)[OF c le0 k] gemm_entries(4)[OF c le0 k] by (simp_all only: gemm_common_def elem_A_def elem_B_def)

lemma tiles_own:
  assumes c: "gemm_common P t M" and tl: "tiles P (t_block_id t) a M" and j: "j < pr_tile P"
  shows "M (cell_A P (t_block_id t) (trow P t) j) = Inr (elem_A P (grow P t) (a * pr_tile P + j))"
    and "M (cell_B P (t_block_id t) j (tcol P t)) = Inr (elem_B P (a * pr_tile P + j) (gcol P t))"
  using tl j gemm_place(3,4)[OF c] unfolding tiles_def grow_def gcol_def by blast+

lemma gemm_loads_step:
  assumes a: "gemm_at P p t M" and p: "proper P p"
    and i: "p = At_load a 5 \<or> p = At_load a 16 \<or> p = At_inner a j 6 \<or> p = At_inner a j 12"
  shows "gemm_step P p t M"
proof -
  have c: "gemm_common P t M" and mem: "memory_at P t M p" using a by (simp_all add: gemm_at_def)
  note pl = gemm_place[OF c]
  have ap: "a \<le> pr_more P" using p i by auto
  from i show ?thesis
  proof (elim disjE)
    assume q: "p = At_load a 5"
    let ?k = "a * pr_tile P + tcol P t"
    have v: "M (0 + (grow P t * depth P + a * pr_tile P + tcol P t) * 4) = Inr (elem_A P (grow P t) ?k)"
      using entries_at(1)[OF c gemm_entries(1)[OF c ap pl(4)]] by (simp only: add.assoc add_0)
    show ?thesis by (rule gemm_load_step[OF a p _ _ _ v, of 25 24 "-1"]) (simp_all add: q tables gemm_loads)
  next
    assume q: "p = At_load a 16"
    have v: "M (at_B P + ((a * pr_tile P + trow P t) * breadth P + gcol P t) * 4) = Inr (elem_B P (a * pr_tile P + trow P t) (gcol P t))"
      by (rule entries_at(2)[OF c gemm_entries(1)[OF c ap pl(3)]])
    show ?thesis by (rule gemm_load_step[OF a p _ _ _ v, of 25 24 "-1"]) (simp_all add: q tables gemm_loads)
  next
    assume q: "p = At_inner a j 6"
    then have "j < pr_tile P" "tiles P (t_block_id t) a M" using p mem by simp_all
    from gemm_load_step[OF a p _ _ _ tiles_own(1)[OF c this(2,1)], of 24 23 "-1"]
    show ?thesis by (simp add: q tables gemm_inner)
  next
    assume q: "p = At_inner a j 12"
    then have "j < pr_tile P" "tiles P (t_block_id t) a M" using p mem by simp_all
    from gemm_load_step[OF a p _ _ _ tiles_own(2)[OF c this(2,1)], of 25 23 "-1"]
    show ?thesis by (simp add: q tables gemm_inner)
  qed
qed

text \<open>The inner loop.\<close>

lemma gemm_inner_addresses:
  assumes a: "gemm_at P (At_inner a j i) t M" and p: "proper P (At_inner a j i)" and i: "i \<in> {2, 3, 4, 5, 7, 8, 9, 10, 11, 16}"
  shows "gemm_step P (At_inner a j i) t M"
  by (rule gemm_address_step[OF a p _ _ _ refl]; use i in \<open>elim insertE emptyE\<close>) (simp_all add: tables gemm_inner)

lemma gemm_inner_elements:
  assumes a: "gemm_at P (At_inner a j i) t M" and p: "proper P (At_inner a j i)" and i: "i = 13 \<or> i = 14"
  shows "gemm_step P (At_inner a j i) t M"
proof -
  have c: "gemm_common P t M" and ap: "a \<le> pr_more P" "j < pr_tile P" using a p by (simp_all add: gemm_at_def)
  have "gemm_ok P" using c by (simp add: gemm_common_def)
  note d = dot_step[OF this gemm_place(7,8)[OF c] gemm_entries(1)[OF c ap]]
  from i show ?thesis
  proof
    assume i: "i = 13"
    show ?thesis
      by (rule gemm_element_step[OF a, of "elem_A P (grow P t) (a * pr_tile P + j)" "elem_B P (a * pr_tile P + j) (gcol P t)"
            "elem_A P (grow P t) (a * pr_tile P + j) * elem_B P (a * pr_tile P + j) (gcol P t)"])
        (use d in \<open>simp_all add: i tables gemm_inner\<close>)
  next
    assume i: "i = 14"
    show ?thesis
      by (rule gemm_element_step[OF a, of "dot P (grow P t) (gcol P t) (a * pr_tile P + j)"
            "elem_A P (grow P t) (a * pr_tile P + j) * elem_B P (a * pr_tile P + j) (gcol P t)" "dot P (grow P t) (gcol P t) (Suc (a * pr_tile P + j))"])
        (use d in \<open>simp_all add: i tables gemm_inner\<close>)
  qed
qed

lemma gemm_turn_addresses:
  assumes a: "gemm_at P (At_turn a 3) t M" and p: "proper P (At_turn a 3)"
  shows "gemm_step P (At_turn a 3) t M"
  by (rule gemm_address_step[OF a p _ _ _ refl]) (simp_all add: tables gemm_turn)

lemma gemm_tail_addresses:
  assumes a: "gemm_at P (At_tail i) t M" and p: "proper P (At_tail i)" and i: "i \<in> {0, 1, 2, 3}"
  shows "gemm_step P (At_tail i) t M"
  by (rule gemm_address_step[OF a p _ _ _ refl]; use i in \<open>elim insertE emptyE\<close>) (simp_all add: tables gemm_tail)

text \<open>The comparisons.\<close>

lemma gemm_comparisons:
  assumes a: "gemm_at P p t M" and p: "proper P p"
    and i: "p = At_inner a j 0 \<or> p = At_inner a j 17 \<or> p = At_turn a 0 \<or> p = At_turn a 4 \<or> p = At_turn a 6"
  shows "gemm_step P p t M"
proof -
  have T: "0 < pr_tile P" using a by (simp add: gemm_at_def gemm_common_def gemm_ok_def)
  from i show ?thesis
  proof (elim disjE)
    assume q: "p = At_inner a j 0"
    show ?thesis by (rule gemm_cmp_step[OF a p, of "-1" 9 10 j "pr_tile P"]) (use p in \<open>simp_all add: q tables gemm_inner set_predicate_def\<close>)
  next
    assume q: "p = At_inner a j 17"
    show ?thesis by (rule gemm_cmp_step[OF a p, of "-1" 0 0 "grow P t" "grow P t"]) (use p in \<open>simp_all add: q tables gemm_inner set_predicate_def\<close>)
  next
    assume q: "p = At_turn a 0"
    show ?thesis by (rule gemm_cmp_step[OF a p, of "-1" 9 10 "pr_tile P" "pr_tile P"]) (use p in \<open>simp_all add: q tables gemm_inner set_predicate_def\<close>)
  next
    assume q: "p = At_turn a 4"
    have e: "a * pr_tile P + pr_tile P = depth P \<longleftrightarrow> a = pr_more P" using T by (simp add: depth_def)
    show ?thesis by (rule gemm_cmp_step[OF a p, of "-1" 8 13 "a * pr_tile P + pr_tile P" "depth P"])
      (use p e in \<open>simp_all add: q tables gemm_turn set_predicate_def\<close>)
  next
    assume q: "p = At_turn a 6"
    then have "a \<noteq> pr_more P" using p by auto
    then show ?thesis using p q by (intro gemm_cmp_step[OF a p, of "-1" 0 0 "grow P t" "grow P t"]) (simp_all add: tables gemm_turn set_predicate_def)
  qed
qed

section \<open>Stores\<close>

lemma gemm_low:
  assumes "gemm_common P t M"
  shows "at_C P \<le> out_cell P t" and "out_cell P t < SHARED_MEM_BASE" and "at_C P \<le> SHARED_MEM_BASE"
    and "SHARED_MEM_BASE \<le> cell_A P b i j" and "SHARED_MEM_BASE \<le> cell_B P b i j"
proof -
  have ok: "gemm_ok P" using assms by (simp add: gemm_common_def)
  then have "at_C P + height P * breadth P * 4 \<le> SHARED_MEM_BASE" by (simp add: gemm_ok_def)
  from entry_bound[OF gemm_entries(5)[OF assms le0] this] this
  show "at_C P \<le> out_cell P t" "out_cell P t < SHARED_MEM_BASE" "at_C P \<le> SHARED_MEM_BASE" by (simp_all add: out_cell_def)
qed (simp_all add: cell_A_def cell_B_def tiles_at_def)

lemma common_frame:
  assumes c: "gemm_common P t M" and low: "\<And>a. a < at_C P \<Longrightarrow> M' a = M a" and out: "\<exists>v. M' (out_cell P t) = Inr v"
    and cells: "\<exists>v. M' (cell_A P (t_block_id t) (trow P t) (tcol P t)) = Inr v" "\<exists>v. M' (cell_B P (t_block_id t) (trow P t) (tcol P t)) = Inr v"
  shows "gemm_common P t M'"
proof -
  have "M' (x * 4) = M (x * 4)" if "x < height P * depth P" for x using that by (intro low) (simp add: at_C_def at_B_def)
  moreover have "M' (at_B P + x * 4) = M (at_B P + x * 4)" if "x < depth P * breadth P" for x using that by (intro low) (simp add: at_C_def)
  ultimately show ?thesis using c out cells unfolding gemm_common_def by metis
qed

lemma cells_distinct:
  assumes "i < pr_tile P" "j < pr_tile P" "i' < pr_tile P" "j' < pr_tile P"
  shows "cell_A P b i j \<noteq> cell_B P b i' j'" and "cell_A P b i j = cell_A P b i' j' \<longleftrightarrow> i = i' \<and> j = j'"
    and "cell_B P b i j = cell_B P b i' j' \<longleftrightarrow> i = i' \<and> j = j'"
proof -
  have "i * pr_tile P + j < pr_tile P * pr_tile P" by (rule index_less[OF assms(1,2)])
  then show "cell_A P b i j \<noteq> cell_B P b i' j'" by (simp add: cell_A_def cell_B_def)
  have "i * pr_tile P + j = i' * pr_tile P + j' \<longleftrightarrow> i = i' \<and> j = j'"
  proof
    assume e: "i * pr_tile P + j = i' * pr_tile P + j'"
    have "(i * pr_tile P + j) div pr_tile P = i" "(i' * pr_tile P + j') div pr_tile P = i'" using assms by simp_all
    then show "i = i' \<and> j = j'" using e by simp
  qed simp
  then show "cell_A P b i j = cell_A P b i' j' \<longleftrightarrow> i = i' \<and> j = j'" "cell_B P b i j = cell_B P b i' j' \<longleftrightarrow> i = i' \<and> j = j'"
    by (simp_all only: cell_A_def cell_B_def add_left_cancel mult_cancel2) simp_all
qed

lemma out_target:
  assumes "gemm_common P t M"
  shows "gemm_target P (out_cell P t) = Some (dot P (grow P t) (gcol P t) (depth P))"
  using gemm_entries(5)[OF assms le0] gemm_place(8)[OF assms] by (simp add: gemm_target_def out_cell_def)

lemma gemm_store_step:
  assumes a: "gemm_at P p t M" and p: "proper P p" and i: "current P p = instr STORE d s r 0" and r: "r \<noteq> -1"
    and x: "known P t p r = Some x" and v: "(s, v) \<in> set (contents P t p)"
    and own: "x \<in> {out_cell P t, cell_A P (t_block_id t) (trow P t) (tcol P t), cell_B P (t_block_id t) (trow P t) (tcol P t)}"
    and val: "x = out_cell P t \<Longrightarrow> v = dot P (grow P t) (gcol P t) (depth P)"
    and tab: "set (addresses P t (onward P p)) \<subseteq> set (addresses P t p)" "set (contents P t (onward P p)) \<subseteq> set (contents P t p)"
    and mem: "memory_at P t (M(x := Inr v)) (onward P p)" and br: "\<And>u. branch_at P u (onward P p)"
  shows "gemm_step P p t M"
proof -
  let ?M = "M(x := Inr v)"
  have c: "gemm_common P t M" using a by (simp add: gemm_at_def)
  note low = gemm_low[OF c] and pl = gemm_place[OF c]
  have "\<exists>y. M x = Inr y" using own c by (auto simp: gemm_common_def)
  moreover have "read_reg t s = Inr v" using a v by (auto simp: gemm_at_def knows_def registers_at_def)
  ultimately have st: "lane_step (current P p) M t = Inr (t, ?M)"
    unfolding i using step_store[where M = M and t = t, OF known_read(1)[OF a p x] r known_read(2)[OF a p x]] by blast
  have "at_C P \<le> x" using own low(1) order_trans[OF low(3) low(4)] order_trans[OF low(3) low(5)] by auto
  then have "gemm_common P t ?M"
    using c by (intro common_frame[OF c]) (auto simp: gemm_common_def)
  moreover have "set (registers_at P t (onward P p)) \<subseteq> set (registers_at P t p)" using tab by (auto simp: registers_at_def)
  then have "knows t (registers_at P t (onward P p))" using a by (auto simp: gemm_at_def knows_def)
  ultimately have "gemm_at P (onward P p) t ?M" using mem br by (simp add: gemm_at_def)
  moreover have "change (gemm_target P) (\<lambda>a. a \<in> gemm_region P (t_block_id t)) M ?M"
    using own val out_target[OF c] low(2) leD[OF low(4)] leD[OF low(5)] cell_bounds(4,5)[OF c pl(3,4)] by (auto simp: change_def)
  ultimately show ?thesis using st unfolding gemm_step_def by blast
qed

lemma gemm_stores:
  assumes a: "gemm_at P p t M" and p: "proper P p" and i: "p = At_load a 10 \<or> p = At_load a 19 \<or> p = At_tail 4"
  shows "gemm_step P p t M"
proof -
  have c: "gemm_common P t M" and mem: "memory_at P t M p" using a by (simp_all add: gemm_at_def)
  note pl = gemm_place[OF c] and low = gemm_low[OF c]
  have apart: "cell_A P b i j \<noteq> out_cell P t" "cell_B P b i j \<noteq> out_cell P t" for b i j using low by (metis not_less)+
  from i show ?thesis
  proof (elim disjE)
    assume q: "p = At_load a 10"
    show ?thesis
      by (rule gemm_store_step[OF a p, of "-1" 25 29 "cell_A P (t_block_id t) (trow P t) (tcol P t)" "elem_A P (grow P t) (a * pr_tile P + tcol P t)"])
        (use apart in \<open>simp_all add: q live_def gemm_constants_def known_def current_def gemm_loads\<close>)
  next
    assume q: "p = At_load a 19"
    show ?thesis
      by (rule gemm_store_step[OF a p, of "-1" 25 26 "cell_B P (t_block_id t) (trow P t) (tcol P t)" "elem_B P (a * pr_tile P + trow P t) (gcol P t)"])
        (use apart mem cells_distinct(1)[OF pl(3,4,3,4)] in \<open>simp_all add: q live_def gemm_constants_def known_def current_def gemm_loads\<close>)
  next
    assume q: "p = At_tail 4"
    show ?thesis
      by (rule gemm_store_step[OF a p, of "-1" 7 23 "out_cell P t" "dot P (grow P t) (gcol P t) (depth P)"])
        (simp_all add: q live_def gemm_constants_def known_def current_def gemm_tail)
  qed
qed

section \<open>Every data instruction\<close>

lemma gemm_data:
  assumes a: "gemm_at P p t M" and p: "proper P p" "place_pc p < 55" and oc: "lanewise_opcode (inst_opcode (current P p))"
  shows "gemm_step P p t M"
proof -
  have nb: "place_pc p \<notin> {23, 26, 43, 44, 47, 49}"
    using oc gemm_barrier[OF p(2), of "pr_tile P"] gemm_branch[OF p(2), of "pr_tile P"] by (auto simp: current_def lanewise_opcode_def)
  show ?thesis
  proof (cases p)
    case (At_head i)
    then show ?thesis using gemm_step_head a p by simp
  next
    case (At_load k i)
    then have "i < 22" "i \<noteq> 20" using p nb by auto
    then have "i \<in> {0, 1, 2, 3, 4, 6, 7, 8, 9, 11, 12, 13, 14, 15, 18} \<or> i = 17 \<or> i = 21 \<or> i = 5 \<or> i = 16 \<or> i = 10 \<or> i = 19"
      unfolding insert_iff empty_iff by presburger
    then show ?thesis using gemm_load_addresses gemm_movs[OF a p(1)] gemm_loads_step[OF a p(1)] gemm_stores[OF a p(1)] a p At_load by blast
  next
    case (At_inner k j i)
    then have "i < 19" "i \<noteq> 1" "i \<noteq> 18" using p nb by auto
    then have "i \<in> {2, 3, 4, 5, 7, 8, 9, 10, 11, 16} \<or> i = 13 \<or> i = 14 \<or> i = 15 \<or> i = 6 \<or> i = 12 \<or> i = 0 \<or> i = 17"
      unfolding insert_iff empty_iff by presburger
    then show ?thesis
      using gemm_inner_addresses gemm_inner_elements gemm_movs[OF a p(1)] gemm_loads_step[OF a p(1)] gemm_comparisons[OF a p(1)] a p At_inner by blast
  next
    case (At_turn k i)
    then have "i = 3 \<or> i = 0 \<or> i = 4 \<or> i = 6" using p nb by (auto split: if_splits)
    then show ?thesis using gemm_turn_addresses gemm_comparisons[OF a p(1)] a p At_turn by blast
  next
    case (At_tail i)
    then have "i \<in> {0, 1, 2, 3} \<or> i = 4" using p by auto
    then show ?thesis using gemm_tail_addresses gemm_stores[OF a p(1)] a p At_tail by blast
  qed
qed

end
