(* ===== verification/Gemm_Blocks.thy ===== *)
theory Gemm_Blocks
  imports Gemm_Steps
begin

text \<open>
  The blocks of the matrix multiplication: lanes of a block do not disturb each other between two
  barriers, behind the first barrier of an iteration the whole tiles are known, the branches of the
  two loops are uniform, and so the kernel is a \<open>uniform_kernel\<close>.
\<close>

section \<open>Changes of the address space\<close>

text \<open>What a place relies on besides the arrays and the result: the own cells, or the tiles of the block.\<close>

fun shared_use :: "problem \<Rightarrow> thread \<Rightarrow> place \<Rightarrow> size_t set" where
  "shared_use P t (At_load a i) = (if i < 21 then {cell_A P (t_block_id t) (trow P t) (tcol P t), cell_B P (t_block_id t) (trow P t) (tcol P t)}
     else gemm_region P (t_block_id t))"
| "shared_use P t (At_inner a j i) = gemm_region P (t_block_id t)"
| "shared_use P t _ = {cell_A P (t_block_id t) (trow P t) (tcol P t), cell_B P (t_block_id t) (trow P t) (tcol P t)}"

lemma tiles_frame:
  assumes "gemm_common P t M" and "tiles P (t_block_id t) a M" and "\<forall>x \<in> gemm_region P (t_block_id t). M' x = M x"
  shows "tiles P (t_block_id t) a M'"
  using assms(2,3) cell_bounds(4,5)[OF assms(1)] unfolding tiles_def by simp

lemma gemm_frame:
  assumes g: "gemm_at P p t M" and low: "\<And>a. a < at_C P \<Longrightarrow> M' a = M a"
    and out: "M' (out_cell P t) = M (out_cell P t) \<or> M' (out_cell P t) = Inr (dot P (grow P t) (gcol P t) (depth P))"
    and sh: "\<forall>a \<in> shared_use P t p. M' a = M a"
  shows "gemm_at P p t M'"
proof -
  have c: "gemm_common P t M" and mem: "memory_at P t M p" using g by (simp_all add: gemm_at_def)
  have own: "M' (cell_A P (t_block_id t) (trow P t) (tcol P t)) = M (cell_A P (t_block_id t) (trow P t) (tcol P t))"
    "M' (cell_B P (t_block_id t) (trow P t) (tcol P t)) = M (cell_B P (t_block_id t) (trow P t) (tcol P t))"
    using sh cell_bounds(4,5)[OF c gemm_place(3,4)[OF c]] by (cases p; simp split: if_splits)+
  have "gemm_common P t M'" using out own c by (intro common_frame[OF c low]) (auto simp: gemm_common_def)
  moreover have "memory_at P t M' p"
  proof (cases p)
    case (At_load a i)
    then show ?thesis using mem own sh tiles_frame[OF c, of a M'] by (cases "i < 21") simp_all
  next
    case (At_inner a j i)
    then show ?thesis using mem sh tiles_frame[OF c, of a M'] by simp
  next
    case (At_tail i)
    then show ?thesis using mem out by auto
  qed simp_all
  ultimately show ?thesis using g by (simp add: gemm_at_def)
qed

lemma shared_use_region: "gemm_common P t M \<Longrightarrow> shared_use P t p \<subseteq> gemm_region P (t_block_id t)"
  using cell_bounds(4,5)[of P t M "trow P t" "tcol P t"] gemm_place(3,4)[of P t M] by (cases p) auto

lemma region_shared: "x \<in> gemm_region P b \<Longrightarrow> SHARED_MEM_BASE \<le> x"
  by (simp add: gemm_region_def tiles_at_def)

lemma gemm_apart:
  assumes g: "gemm_at P p t M" and ch: "change (gemm_target P) (\<lambda>a. a \<notin> gemm_region P (t_block_id t)) M M'"
  shows "gemm_at P p t M'"
proof (rule gemm_frame[OF g])
  have c: "gemm_common P t M" using g by (simp add: gemm_at_def)
  note low = gemm_low[OF c]
  show "M' a = M a" if "a < at_C P" for a
  proof -
    have "gemm_target P a = None" "a < SHARED_MEM_BASE" using that low(3) by (simp_all add: gemm_target_def Let_def)
    then show ?thesis using ch unfolding change_def by (metis option.distinct(1))
  qed
  show "M' (out_cell P t) = M (out_cell P t) \<or> M' (out_cell P t) = Inr (dot P (grow P t) (gcol P t) (depth P))"
    using ch low(2) out_target[OF c] unfolding change_def by (metis option.inject)
  show "\<forall>a \<in> shared_use P t p. M' a = M a"
    using ch shared_use_region[OF c, of p] region_shared unfolding change_def by (meson not_less subsetD)
qed

text \<open>A peer in the same phase writes its own cells or its own result.\<close>

lemma gemm_stored:
  assumes g: "gemm_at P p t M" and p: "proper P p" "place_pc p < 55" and oc: "inst_opcode (current P p) \<in> {STORE, ATOMIC_ADD}"
    and st: "lane_step (current P p) M t = Inr (t', M')"
  shows "(\<exists>v. \<exists>a i. p = At_load a i \<and> i < 21 \<and> (M' = M(cell_A P (t_block_id t) (trow P t) (tcol P t) := v) \<or>
      M' = M(cell_B P (t_block_id t) (trow P t) (tcol P t) := v))) \<or>
    (\<exists>i. p = At_tail i \<and> M' = M(out_cell P t := Inr (dot P (grow P t) (gcol P t) (depth P))))"
proof -
  obtain x v where x: "touched (current P p) t = Inr x" "t' = t" "M' = M(x := Inr v)" using store_step[OF oc st] by blast
  have "place_pc p = 13 \<or> place_pc p = 22 \<or> place_pc p = 54" using gemm_store[OF p(2)] oc by (simp add: current_def)
  then have "(\<exists>a. p = At_load a 10 \<or> p = At_load a 19) \<or> p = At_tail 4" using p(1) by (cases p) (auto split: if_splits)
  then show ?thesis
  proof (elim disjE exE)
    fix a assume q: "p = At_load a 10"
    then have "known P t p 29 = Some (cell_A P (t_block_id t) (trow P t) (tcol P t))" by (simp add: known_def gemm_constants_def live_def)
    from touched_base(2)[OF known_read(1)[OF g p(1) this] _ known_read(2)[OF g p(1) this], of "-1" 25] x q
    show ?thesis by (auto simp: current_def gemm_loads)
  next
    fix a assume q: "p = At_load a 19"
    then have "known P t p 26 = Some (cell_B P (t_block_id t) (trow P t) (tcol P t))" by (simp add: known_def gemm_constants_def live_def)
    from touched_base(2)[OF known_read(1)[OF g p(1) this] _ known_read(2)[OF g p(1) this], of "-1" 25] x q
    show ?thesis by (auto simp: current_def gemm_loads)
  next
    assume q: "p = At_tail 4"
    then have k: "known P t p 23 = Some (out_cell P t)" by (simp add: known_def gemm_constants_def live_def)
    from touched_base(2)[OF known_read(1)[OF g p(1) this] _ known_read(2)[OF g p(1) this], of "-1" 7] x q
    have "M' = M(out_cell P t := Inr v)" by (simp add: current_def gemm_tail)
    moreover obtain M2 where "lane_step (current P p) M t = Inr (t', M2)" "gemm_at P (onward P p) t' M2"
      using gemm_stores[OF g p(1)] q st unfolding gemm_step_def by fastforce
    then have "M' (out_cell P t) = Inr (dot P (grow P t) (gcol P t) (depth P))" using st q x(2) by (simp add: gemm_at_def)
    ultimately show ?thesis using q by auto
  qed
qed

lemma gemm_peer:
  assumes l: "gemm_lane P q t M" and l': "gemm_lane P q' t' M" and b: "t_block_id t = t_block_id t'" and ne: "t_global_id t \<noteq> t_global_id t'"
    and ph: "phase (gemm_trace P) q = phase (gemm_trace P) q'" and q': "q' < duration P"
    and oc: "inst_opcode (gemm_trace P ! q') \<in> {STORE, ATOMIC_ADD}" and st: "lane_step (gemm_trace P ! q') M t' = Inr (t'', M')"
  shows "gemm_lane P q t M'"
proof -
  let ?p = "gemm_schedule P q" and ?p' = "gemm_schedule P q'" and ?b = "t_block_id t"
  have g: "gemm_at P ?p t M" "q \<le> duration P" and g': "gemm_at P ?p' t' M" using l l' by (simp_all add: gemm_lane_def)
  have c: "gemm_common P t M" and c': "gemm_common P t' M" using g(1) g' by (simp_all add: gemm_at_def)
  have pr: "proper P ?p" "proper P ?p'" "place_pc ?p' < 55" using schedule_proper schedule_inside[OF q'] by blast+
  have cur: "gemm_trace P ! q' = current P ?p'" using q' by (simp add: current_def)
  have "t_local_id t \<noteq> t_local_id t'" using ne b c c' by (auto simp: gemm_common_def)
  then have apart: "trow P t \<noteq> trow P t' \<or> tcol P t \<noteq> tcol P t'" using gemm_place(9)[OF c] gemm_place(9)[OF c'] by auto
  note pl = gemm_place(3,4)[OF c] and pl' = gemm_place(3,4)[OF c'] and low = gemm_low[OF c] and low' = gemm_low[OF c']
  have "gemm_at P ?p t M'"
    using gemm_stored[OF g' pr(2,3) oc[unfolded cur] st[unfolded cur]]
  proof (elim disjE exE conjE)
    fix v a i
    assume q: "?p' = At_load a i" "i < 21" and x: "M' = M(cell_A P (t_block_id t') (trow P t') (tcol P t') := v)"
    have ev: "place_phase P ?p = 2 * a" using ph gemm_phase[OF g(2)] gemm_phase[of q' P] q' q by simp
    have own: "shared_use P t ?p = {cell_A P ?b (trow P t) (tcol P t), cell_B P ?b (trow P t) (tcol P t)}"
      using ev by (cases ?p) (auto split: if_splits, presburger+)
    show ?thesis
    proof (rule gemm_frame[OF g(1)])
      show "\<forall>y \<in> shared_use P t ?p. M' y = M y"
        unfolding own x using apart cells_distinct[OF pl pl', of ?b] cells_distinct(1)[OF pl' pl, of ?b] b by auto
    qed (use low(2) leD[OF order_trans[OF low(3) low(4)]] leD[OF low(4)] in \<open>auto simp: x\<close>)
  next
    fix v a i
    assume q: "?p' = At_load a i" "i < 21" and x: "M' = M(cell_B P (t_block_id t') (trow P t') (tcol P t') := v)"
    have ev: "place_phase P ?p = 2 * a" using ph gemm_phase[OF g(2)] gemm_phase[of q' P] q' q by simp
    have own: "shared_use P t ?p = {cell_A P ?b (trow P t) (tcol P t), cell_B P ?b (trow P t) (tcol P t)}"
      using ev by (cases ?p) (auto split: if_splits, presburger+)
    show ?thesis
    proof (rule gemm_frame[OF g(1)])
      show "\<forall>y \<in> shared_use P t ?p. M' y = M y"
        unfolding own x using apart cells_distinct[OF pl pl', of ?b] cells_distinct(1)[OF pl pl', of ?b] b by auto
    qed (use low(2) leD[OF order_trans[OF low(3) low(5)]] leD[OF low(5)] in \<open>auto simp: x\<close>)
  next
    fix i
    assume q: "?p' = At_tail i" and x: "M' = M(out_cell P t' := Inr (dot P (grow P t') (gcol P t') (depth P)))"
    show ?thesis
    proof (rule gemm_frame[OF g(1)])
      show "M' (out_cell P t) = M (out_cell P t) \<or> M' (out_cell P t) = Inr (dot P (grow P t) (gcol P t) (depth P))"
        using out_target[OF c] out_target[OF c'] by (auto simp: x)
      show "\<forall>y \<in> shared_use P t ?p. M' y = M y"
        using shared_use_region[OF c, of ?p] region_shared low'(2) by (fastforce simp: x)
    qed (use low'(1) in \<open>simp add: x\<close>)
  qed
  then show ?thesis using g(2) by (simp add: gemm_lane_def)
qed

section \<open>Accesses to one memory\<close>

lemma gemm_touched:
  assumes g: "gemm_at P p t M" and p: "proper P p" "place_pc p < 55" and oc: "inst_opcode (current P p) \<in> {LOAD, STORE, ATOMIC_ADD}"
  shows "\<exists>x. touched (current P p) t = Inr x \<and> (x < SHARED_MEM_BASE \<longleftrightarrow> place_pc p \<in> {8, 19, 54})"
proof -
  have c: "gemm_common P t M" using g by (simp add: gemm_at_def)
  note low = gemm_low[OF c] and pl = gemm_place[OF c]
  have tb: "touched (instr LOAD d r s 0) t = Inr x" "touched (instr STORE d s r 0) t = Inr x" if "known P t p r = Some x" "r \<noteq> -1" for d s r x
    using touched_base(1,2)[OF known_read(1)[OF g p(1) that(1)] that(2) known_read(2)[OF g p(1) that(1)]] by blast+
  have "place_pc p \<in> {8, 13, 19, 22, 31, 37, 54}" using gemm_access[OF p(2)] oc by (simp add: current_def)
  then have "(\<exists>a. p = At_load a 5 \<or> p = At_load a 16 \<or> p = At_load a 10 \<or> p = At_load a 19) \<or>
      (\<exists>a j. p = At_inner a j 6 \<or> p = At_inner a j 12) \<or> p = At_tail 4" using p(1) by (cases p) (auto split: if_splits)
  then show ?thesis
  proof (elim disjE exE)
    fix a assume q: "p = At_load a 5"
    have "a * pr_tile P + tcol P t < depth P" using gemm_entries(1)[OF c _ pl(4)] p(1) q by simp
    from entry_bound[OF gemm_entries(3)[OF c le0 this], of 0] have "(grow P t * depth P + a * pr_tile P + tcol P t) * 4 < height P * depth P * 4"
      by (simp add: add.assoc)
    moreover have "height P * depth P * 4 \<le> at_C P" by (simp add: at_C_def at_B_def)
    ultimately have "0 + (grow P t * depth P + a * pr_tile P + tcol P t) * 4 < SHARED_MEM_BASE" using low(3) by linarith
    then show ?thesis using q tb(1)[of 24 _ 25 "-1"] by (simp add: known_def gemm_constants_def live_def current_def gemm_loads)
  next
    fix a assume q: "p = At_load a 16"
    have "a * pr_tile P + trow P t < depth P" using gemm_entries(1)[OF c _ pl(3)] p(1) q by simp
    from entry_bound[OF gemm_entries(4)[OF c le0 this], of "at_B P" "at_C P"]
    have "at_B P + ((a * pr_tile P + trow P t) * breadth P + gcol P t) * 4 < SHARED_MEM_BASE" using low(3) by (simp add: at_C_def)
    then show ?thesis using q tb(1)[of 24 _ 25 "-1"] by (simp add: known_def gemm_constants_def live_def current_def gemm_loads)
  next
    fix a assume q: "p = At_load a 10"
    then show ?thesis using leD[OF low(4)] tb(2)[of 29 _ "-1" 25] by (simp add: known_def gemm_constants_def live_def current_def gemm_loads)
  next
    fix a assume q: "p = At_load a 19"
    then show ?thesis using leD[OF low(5)] tb(2)[of 26 _ "-1" 25] by (simp add: known_def gemm_constants_def live_def current_def gemm_loads)
  next
    fix a j assume q: "p = At_inner a j 6"
    then show ?thesis using leD[OF low(4)] tb(1)[of 23 _ 24 "-1"] by (simp add: known_def gemm_constants_def live_def current_def gemm_inner)
  next
    fix a j assume q: "p = At_inner a j 12"
    then show ?thesis using leD[OF low(5)] tb(1)[of 23 _ 25 "-1"] by (simp add: known_def gemm_constants_def live_def current_def gemm_inner)
  next
    assume q: "p = At_tail 4"
    then show ?thesis using low(2) tb(2)[of 23 _ "-1" 7] by (simp add: known_def gemm_constants_def live_def current_def gemm_tail)
  qed
qed

section \<open>Barriers and branches\<close>

lemma gemm_control_step:
  assumes "gemm_at P p t M" and "set (addresses P t p') \<subseteq> set (addresses P t p)" and "set (contents P t p') \<subseteq> set (contents P t p)"
    and "memory_at P t M p'" and "branch_at P t p'"
  shows "gemm_at P p' t M"
proof -
  have "set (registers_at P t p') \<subseteq> set (registers_at P t p)" using assms(2,3) by (auto simp: registers_at_def)
  then show ?thesis using assms unfolding gemm_at_def knows_def by blast
qed

lemma gemm_branches:
  assumes g: "gemm_at P p t M" and p: "proper P p" "place_pc p < 55" and oc: "inst_opcode (current P p) = BRANCH"
  shows "gemm_at P (onward P p) t M \<and> size_add_int (place_pc p) (inst_immediate (current P p)) \<noteq> place_pc p + 1 \<and>
    place_pc (onward P p) = (if t_predicate t then size_add_int (place_pc p) (inst_immediate (current P p)) else place_pc p + 1)"
proof -
  have to: "size_add_int 26 18 = 44" "size_add_int 43 (-18) = 25" "size_add_int 47 3 = 50" "size_add_int 49 (-46) = 3"
    by (simp_all add: size_add_int_exact)
  have g': "memory_at P t M p" "branch_at P t p" using g by (simp_all add: gemm_at_def)
  have "place_pc p \<in> {26, 43, 47, 49}" using gemm_branch[OF p(2)] oc by (simp add: current_def)
  then have "(\<exists>a j. p = At_inner a j 1 \<or> p = At_inner a j 18) \<or> (\<exists>a. p = At_turn a 1 \<or> p = At_turn a 5 \<or> p = At_turn a 7)"
    using p(1) by (cases p) (auto split: if_splits)
  then show ?thesis
  proof (elim disjE exE)
    fix a j assume q: "p = At_inner a j 1"
    have "gemm_at P (onward P p) t M" by (rule gemm_control_step[OF g]) (use q g' in \<open>simp_all add: live_def\<close>)
    then show ?thesis using q g' to by (simp add: current_def gemm_inner)
  next
    fix a j assume q: "p = At_inner a j 18"
    have j: "Suc j < pr_tile P \<or> pr_tile P = Suc j" using p(1) q by auto
    have "gemm_at P (onward P p) t M" by (rule gemm_control_step[OF g]) (use q g' j in \<open>auto simp: live_def ac_simps\<close>)
    then show ?thesis using q g' to by (simp add: current_def gemm_inner)
  next
    fix a assume q: "p = At_turn a 1"
    have "gemm_at P (onward P p) t M" by (rule gemm_control_step[OF g]) (use q g' p(1) in \<open>simp_all add: live_def\<close>)
    then show ?thesis using q g' to p(1) by (simp add: current_def gemm_inner)
  next
    fix a assume q: "p = At_turn a 5"
    have "gemm_at P (onward P p) t M" by (rule gemm_control_step[OF g]) (use q g' in \<open>auto simp: live_def depth_def ac_simps\<close>)
    then show ?thesis using q g' to by (simp add: current_def gemm_turn)
  next
    fix a assume q: "p = At_turn a 7"
    then have "a \<noteq> pr_more P" using p(1) by auto
    moreover have "gemm_at P (onward P p) t M" by (rule gemm_control_step[OF g]) (use q g' \<open>a \<noteq> pr_more P\<close> in \<open>auto simp: live_def ac_simps\<close>)
    ultimately show ?thesis using q g' to by (simp add: current_def gemm_turn)
  qed
qed

text \<open>Behind the first barrier of an iteration every lane knows the tiles of its block.\<close>

definition gemm_roster :: "problem \<Rightarrow> size_t \<Rightarrow> nat list" where
  "gemm_roster P b = (if 0 < pr_across P then map (gemm_id P b) [0..<pr_tile P * pr_tile P] else [])"

lemma gemm_id_inj:
  assumes X: "0 < pr_across P" and l: "l < pr_tile P * pr_tile P" "l' < pr_tile P * pr_tile P" and e: "gemm_id P b l = gemm_id P b l'"
  shows "l = l'"
proof -
  have T: "0 < pr_tile P" using l by (auto intro: gr0I)
  have col: "b mod pr_across P * pr_tile P + k mod pr_tile P < breadth P" for k
    using index_less[of "b mod pr_across P" "pr_across P" "k mod pr_tile P" "pr_tile P"] X T by (simp add: breadth_def)
  have v: "gemm_id P b k div breadth P = b div pr_across P * pr_tile P + k div pr_tile P"
    "gemm_id P b k mod breadth P = b mod pr_across P * pr_tile P + k mod pr_tile P" for k
    unfolding gemm_id_def by (rule index_div[OF col], rule index_mod[OF col])
  have "l div pr_tile P = l' div pr_tile P" using v(1)[of l] v(1)[of l'] unfolding e by simp
  moreover have "l mod pr_tile P = l' mod pr_tile P" using v(2)[of l] v(2)[of l'] unfolding e by simp
  ultimately show ?thesis by (metis div_mult_mod_eq)
qed

lemma gemm_roster_distinct: "distinct (gemm_roster P b)"
  by (auto simp: gemm_roster_def distinct_map inj_on_def intro: gemm_id_inj)

lemma gemm_barriers:
  assumes q: "q < duration P" and oc: "inst_opcode (gemm_trace P ! q) = BARRIER" and ts: "\<forall>t \<in> set ts. t_block_id t = b \<and> gemm_lane P q t M"
    and ros: "map t_global_id ts = gemm_roster P b" and t: "t \<in> set ts"
  shows "gemm_lane P (q + 1) t M"
proof -
  let ?p = "gemm_schedule P q"
  have g: "gemm_at P ?p u M" "t_block_id u = b" if "u \<in> set ts" for u using ts that by (simp_all add: gemm_lane_def)
  have pr: "proper P ?p" "place_pc ?p < 55" using schedule_proper schedule_inside[OF q] by blast+
  then have "place_pc ?p = 23 \<or> place_pc ?p = 44" using oc gemm_barrier[OF pr(2), of "pr_tile P"] q by simp
  then have "(\<exists>a. ?p = At_load a 20) \<or> (\<exists>a. ?p = At_turn a 2)" using pr(1) by (cases ?p) (auto split: if_splits)
  then have "gemm_at P (onward P ?p) t M"
  proof (elim disjE exE)
    fix a assume p: "?p = At_load a 20"
    have c: "gemm_common P u M" if "u \<in> set ts" for u using g[OF that] by (simp add: gemm_at_def)
    note X = gemm_place(1,2)[OF c[OF t]]
    have "tiles P b a M"
      unfolding tiles_def
    proof (intro allI impI)
      fix i j assume ij: "i < pr_tile P" "j < pr_tile P"
      let ?l = "i * pr_tile P + j"
      have l: "?l < pr_tile P * pr_tile P" by (rule index_less[OF ij])
      then have "gemm_id P b ?l \<in> set (map t_global_id ts)" unfolding ros using X by (simp add: gemm_roster_def)
      then obtain u where u: "u \<in> set ts" "t_global_id u = gemm_id P b ?l" by auto
      have "t_local_id u < pr_tile P * pr_tile P" "gemm_id P b (t_local_id u) = gemm_id P b ?l"
        using c[OF u(1)] g(2)[OF u(1)] unfolding gemm_common_def u(2)[symmetric] by simp_all
      from gemm_id_inj[OF X(2) this(1) l this(2)] have rc: "trow P u = i" "tcol P u = j" using index_div[OF ij(2)] index_mod[OF ij(2)] unfolding trow_def tcol_def by metis+
      have "memory_at P u M (At_load a 20)" using g(1)[OF u(1)] p by (simp add: gemm_at_def)
      then show "M (cell_A P b i j) = Inr (elem_A P (b div pr_across P * pr_tile P + i) (a * pr_tile P + j)) \<and>
          M (cell_B P b i j) = Inr (elem_B P (a * pr_tile P + i) (b mod pr_across P * pr_tile P + j))"
        using rc g(2)[OF u(1)] by (simp add: grow_def gcol_def)
    qed
    moreover have "memory_at P t M ?p" using g(1)[OF t] by (simp add: gemm_at_def)
    ultimately show ?thesis
      by (intro gemm_control_step[OF g(1)[OF t]]) (use p g(2)[OF t] in \<open>simp_all add: live_def\<close>)
  next
    fix a assume p: "?p = At_turn a 2"
    then show ?thesis by (intro gemm_control_step[OF g(1)[OF t]]) (simp_all add: live_def)
  qed
  then show ?thesis using q by (simp add: gemm_lane_def)
qed

section \<open>The time of a lane\<close>

text \<open>The program counter with the counters of the two loops, registers 8 and 9, tells the place.\<close>

definition place_by :: "problem \<Rightarrow> nat \<Rightarrow> nat \<Rightarrow> nat \<Rightarrow> place" where
  "place_by P pc x j =
     (let a = x div pr_tile P
      in if pc < 3 then At_head pc else if pc < 25 then At_load a (pc - 3)
         else if pc < 27 then (if j < pr_tile P then At_inner a j (pc - 25) else At_turn a (pc - 25))
         else if pc < 42 then At_inner a j (pc - 25) else if pc < 44 then At_inner a (j - 1) (pc - 25)
         else if pc < 46 then At_turn a (pc - 42) else if pc < 50 then At_turn (a - 1) (pc - 42) else At_tail (pc - 50))"

definition counter :: "thread \<Rightarrow> c_int \<Rightarrow> nat" where
  "counter t r = (case read_reg t r of Inr v \<Rightarrow> unat v | Inl _ \<Rightarrow> 0)"

definition gemm_clock :: "problem \<Rightarrow> nat \<Rightarrow> thread \<Rightarrow> nat" where
  "gemm_clock P pc t = time_of P (place_by P pc (counter t 8) (counter t 9))"

lemma counter_known: "gemm_at P p t M \<Longrightarrow> proper P p \<Longrightarrow> known P t p r = Some x \<Longrightarrow> counter t r = x"
  using known_read[of P p t M r x] by (simp add: counter_def unsigned_of_nat take_bit_nat_eq_self)

lemma gemm_placed:
  assumes g: "gemm_at P p t M" and p: "proper P p"
  shows "place_by P (place_pc p) (counter t 8) (counter t 9) = p"
proof -
  have T: "0 < pr_tile P" using g by (simp add: gemm_at_def gemm_common_def gemm_ok_def)
  note ck = counter_known[OF g p]
  show ?thesis
  proof (cases p)
    case (At_head i)
    then show ?thesis using p by (simp add: place_by_def)
  next
    case (At_load a i)
    then have "counter t 8 = a * pr_tile P" by (intro ck) (simp add: known_def gemm_constants_def)
    then show ?thesis using At_load p T by (simp add: place_by_def)
  next
    case (At_inner a j i)
    then have "counter t 8 = a * pr_tile P" by (intro ck) (simp add: known_def gemm_constants_def)
    moreover have "counter t 9 = (if i < 17 then j else Suc j)" using At_inner p by (intro ck) (simp add: known_def gemm_constants_def live_def)
    ultimately show ?thesis using At_inner p T by (auto simp: place_by_def)
  next
    case (At_turn a i)
    then have "counter t 8 = (if i < 4 then a * pr_tile P else a * pr_tile P + pr_tile P)" "i < 2 \<Longrightarrow> counter t 9 = pr_tile P"
      using p by (auto intro!: ck simp: known_def gemm_constants_def live_def split: if_splits)
    moreover have "i < 8" using At_turn p by (simp split: if_splits)
    moreover have "(a * pr_tile P + pr_tile P) div pr_tile P = Suc a" using T by simp
    ultimately show ?thesis using At_turn T by (auto simp: place_by_def Let_def)
  next
    case (At_tail i)
    then show ?thesis by (simp add: place_by_def)
  qed
qed

section \<open>The kernel\<close>

interpretation gemm: uniform_kernel "gemm_program (pr_tile P)" "\<lambda>v. place_pc (gemm_schedule P v)" "duration P" "gemm_lane P" "\<lambda>_ _ _. True"
    "gemm_target P" "gemm_region P" "gemm_roster P" "gemm_clock P"
  for P :: problem
proof (unfold_locales, fold gemm_trace_def)
  note pr = conjunct1[OF schedule_proper[of P]]
  show "distinct (gemm_roster P b)" for b by (rule gemm_roster_distinct)
  show "gemm_region P b \<inter> gemm_region P b' = {}" if "b \<noteq> b'" for b b'
  proof -
    have "tiles_at P (Suc x) \<le> tiles_at P y" if "x < y" for x y
      using mult_le_mono1[of "Suc x" y] that by (simp add: tiles_at_def)
    then show ?thesis using \<open>b \<noteq> b'\<close> by (fastforce simp: gemm_region_def neq_iff)
  qed
  show "gemm_lane P q t M \<Longrightarrow> gemm_lane P q (set_pc t x) M" for q t M x
  proof -
    have e: "t_registers (set_pc t x) = t_registers t" "t_block_id (set_pc t x) = t_block_id t" "t_local_id (set_pc t x) = t_local_id t"
      "t_global_id (set_pc t x) = t_global_id t" "t_predicate (set_pc t x) = t_predicate t"
      by (simp_all add: set_pc_def)
    have br: "branch_at P (set_pc t x) p = branch_at P t p" for p by (cases "(P, t, p)" rule: branch_at.cases) (simp_all add: e)
    assume "gemm_lane P q t M"
    then have q: "q \<le> duration P" and g: "gemm_at P (gemm_schedule P q) t M" by (simp_all add: gemm_lane_def)
    then have c: "gemm_common P t M" and "full_file t" by (simp_all add: gemm_at_def gemm_common_def)
    then have "full_file (set_pc t x)" by (simp add: full_file_def e(1))
    from same_common[OF c e(2,3,4) this] have "gemm_common P (set_pc t x) M" .
    then show "gemm_lane P q (set_pc t x) M"
      using q g unfolding gemm_lane_def gemm_at_def same_places[OF e(2,3)] br knows_def read_reg_def e by blast
  qed
  show "gemm_lane P q t M \<Longrightarrow> change (gemm_target P) (\<lambda>a. a \<notin> gemm_region P (t_block_id t)) M M' \<Longrightarrow> gemm_lane P q t M'" for q t M M'
    unfolding gemm_lane_def using gemm_apart by blast
  show "gemm_lane P q t M'"
    if "gemm_lane P q t M" "gemm_lane P q' t' M" "t_block_id t = t_block_id t'" "t_global_id t \<noteq> t_global_id t'"
      "phase (gemm_trace P) q = phase (gemm_trace P) q'" "q' < length (gemm_trace P)" "inst_opcode (gemm_trace P ! q') \<in> {STORE, ATOMIC_ADD}"
      "lane_step (gemm_trace P ! q') M t' = Inr (t'', M')" for q t M q' t' t'' M'
    using gemm_peer[OF that(1-5) _ that(7,8)] that(6) by simp
  show "\<exists>t' M'. lane_step (gemm_trace P ! q) M t = Inr (t', M') \<and> gemm_lane P (q + 1) t' M' \<and> True \<and>
      change (gemm_target P) (\<lambda>a. a \<in> gemm_region P (t_block_id t)) M M'"
    if "gemm_lane P q t M" "q < length (gemm_trace P)" "lanewise_opcode (inst_opcode (gemm_trace P ! q))" for q t M
  proof -
    have q: "q < duration P" using that(2) by simp
    then have cur: "gemm_trace P ! q = current P (gemm_schedule P q)" by (simp add: current_def)
    have "gemm_step P (gemm_schedule P q) t M"
      by (rule gemm_data[OF _ pr schedule_inside[OF q]]) (use that(1,3) cur in \<open>simp_all add: gemm_lane_def\<close>)
    then show ?thesis using q unfolding gemm_step_def cur by (auto simp: gemm_lane_def)
  qed
  show "one_space (gemm_trace P ! q) {t, t'}"
    if "gemm_lane P q t M" "gemm_lane P q t' M" "q < length (gemm_trace P)" "t_block_id t = t_block_id t'" for q t M t'
  proof -
    have q: "q < duration P" using that(3) by simp
    then have cur: "gemm_trace P ! q = current P (gemm_schedule P q)" by (simp add: current_def)
    have g: "gemm_at P (gemm_schedule P q) t M" "gemm_at P (gemm_schedule P q) t' M" using that(1,2) by (simp_all add: gemm_lane_def)
    show ?thesis
      using gemm_touched[OF g(1) pr schedule_inside[OF q]] gemm_touched[OF g(2) pr schedule_inside[OF q]]
      unfolding one_space_def cur by force
  qed
  show "gemm_lane P (q + 1) t M"
    if "q < length (gemm_trace P)" "inst_opcode (gemm_trace P ! q) = BARRIER" "\<forall>t \<in> set ts. t_block_id t = b \<and> gemm_lane P q t M"
      "map t_global_id ts = gemm_roster P b" "t \<in> set ts" for q ts b M t
    using gemm_barriers[OF _ that(2-5)] that(1) by simp
  show "length (gemm_program (pr_tile P)) < 2 ^ 63" by simp
  show "place_pc (gemm_schedule P 0) = 0" by simp
  show "place_pc (gemm_schedule P v) < length (gemm_program (pr_tile P))" if "v < duration P" for v using schedule_inside[OF that] by simp
  show "place_pc (gemm_schedule P (duration P)) = length (gemm_program (pr_tile P))" by (simp add: schedule_last)
  show "inst_opcode (gemm_program (pr_tile P) ! place_pc (gemm_schedule P v)) \<in> {BRANCH, BARRIER} \<or>
      lanewise_opcode (inst_opcode (gemm_program (pr_tile P) ! place_pc (gemm_schedule P v)))" if "v < duration P" for v
    by (rule gemm_opcodes[OF schedule_inside[OF that]])
  show "place_pc (gemm_schedule P (v + 1)) = place_pc (gemm_schedule P v) + 1"
    if "v < duration P" "inst_opcode (gemm_program (pr_tile P) ! place_pc (gemm_schedule P v)) \<noteq> BRANCH" for v
  proof -
    have "place_pc (gemm_schedule P v) \<notin> {26, 43, 47, 49}" using gemm_branch[OF schedule_inside[OF that(1)]] that(2) by auto
    then show ?thesis using pr[of v] by (cases "gemm_schedule P v") (auto split: if_splits)
  qed
  show "gemm_lane P (v + 1) t M \<and>
      size_add_int (place_pc (gemm_schedule P v)) (inst_immediate (gemm_program (pr_tile P) ! place_pc (gemm_schedule P v))) \<noteq> place_pc (gemm_schedule P v) + 1 \<and>
      place_pc (gemm_schedule P (v + 1)) = (if t_predicate t then size_add_int (place_pc (gemm_schedule P v)) (inst_immediate (gemm_program (pr_tile P) ! place_pc (gemm_schedule P v)))
        else place_pc (gemm_schedule P v) + 1)"
    if "gemm_lane P v t M" "v < duration P" "inst_opcode (gemm_program (pr_tile P) ! place_pc (gemm_schedule P v)) = BRANCH" for v t M
    using gemm_branches[OF _ pr schedule_inside[OF that(2)], of t M] that by (simp add: gemm_lane_def current_def)
  show "gemm_clock P (place_pc (gemm_schedule P v)) t = v" if "gemm_lane P v t M" "v \<le> duration P" for v t M
    using gemm_placed[OF _ pr, of v t M] that schedule_proper[of P v] by (simp add: gemm_clock_def gemm_lane_def)
  show "gemm_clock P (place_pc (gemm_schedule P (v + 1))) t = v + 1"
    if "gemm_lane P v t M" "v < duration P" "inst_opcode (gemm_program (pr_tile P) ! place_pc (gemm_schedule P v)) = BARRIER" for v t M
  proof -
    let ?p = "gemm_schedule P v"
    have g: "gemm_at P ?p t M" using that(1) by (simp add: gemm_lane_def)
    have T: "0 < pr_tile P" using g by (simp add: gemm_at_def gemm_common_def gemm_ok_def)
    have "place_pc ?p = 23 \<or> place_pc ?p = 44" using gemm_barrier[OF schedule_inside[OF that(2)]] that(3) by simp
    then have "(\<exists>a. ?p = At_load a 20) \<or> (\<exists>a. ?p = At_turn a 2)" using pr[of v] by (cases ?p) (auto split: if_splits)
    then have "place_by P (place_pc (onward P ?p)) (counter t 8) (counter t 9) = onward P ?p"
    proof (elim disjE exE)
      fix a assume p: "?p = At_load a 20"
      then have "counter t 8 = a * pr_tile P" by (intro counter_known[OF g pr]) (simp add: known_def gemm_constants_def)
      then show ?thesis using T by (simp add: p place_by_def)
    next
      fix a assume p: "?p = At_turn a 2"
      then have "counter t 8 = a * pr_tile P" by (intro counter_known[OF g pr]) (simp add: known_def gemm_constants_def live_def)
      then show ?thesis using T by (simp add: p place_by_def)
    qed
    then show ?thesis using onward_proper[OF pr[of v]] schedule_proper[of P v] by (simp add: gemm_clock_def)
  qed
qed simp_all

end
