(* ===== verification/Gemm_Grid.thy ===== *)
theory Gemm_Grid
  imports Gemm_Blocks
begin

text \<open>
  The grid of the matrix multiplication: what \<open>build_gemm_grid\<close> builds, whose indices are \<open>int\<close>
  computations, and the registers its threads start with.
\<close>

section \<open>Exact int arithmetic\<close>

lemma add_iff: "x < 2 ^ 31 \<Longrightarrow> y < 2 ^ 31 \<Longrightarrow> c_add (of_nat x) (of_nat y) = Inr r \<longleftrightarrow> x + y < 2 ^ 31 \<and> r = of_nat (x + y)"
  by (auto simp: c_add_def checked_int_Inr sint_of_nat)

lemma mul_iff: "x < 2 ^ 31 \<Longrightarrow> y < 2 ^ 31 \<Longrightarrow> c_mul (of_nat x) (of_nat y) = Inr r \<longleftrightarrow> x * y < 2 ^ 31 \<and> r = of_nat (x * y)"
proof -
  assume s: "x < 2 ^ 31" "y < 2 ^ 31"
  have "- (2 ^ 31) \<le> int x * int y" by (rule order_trans[of _ 0]) simp_all
  moreover have "int x * int y < 2 ^ 31 \<longleftrightarrow> x * y < 2 ^ 31" by (metis of_nat_less_iff of_nat_mult of_nat_numeral of_nat_power)
  ultimately show ?thesis using s by (simp add: c_mul_def checked_int_Inr sint_of_nat)
qed

lemmas mul_left_2 = mul_iff[of 2, unfolded of_nat_numeral] and mul_right_4 = mul_iff[of _ 4, unfolded of_nat_numeral]
lemmas add_right_1 = add_iff[of _ 1, unfolded of_nat_1]

lemma rem_nat: "0 < y \<Longrightarrow> x < 2 ^ 31 \<Longrightarrow> y < 2 ^ 31 \<Longrightarrow> c_rem (of_nat x) (of_nat y) = Inr (of_nat (x mod y))"
proof -
  assume a: "0 < y" "x < 2 ^ 31" "y < 2 ^ 31"
  have "int x smod int y = int (x mod y)" by (simp add: signed_modulo_int_def signed_divide_int_def sgn_if zmod_int zdiv_int minus_div_mult_eq_mod)
  then show ?thesis using div_nat[OF a] a by (simp add: c_rem_def sint_of_nat)
qed

lemma int_range_nat: "n < 2 ^ 31 \<Longrightarrow> int_range (of_nat n) = map of_nat [0..<n]"
  by (simp add: int_range_def sint_of_nat)

lemma size_nat: "x < 2 ^ 31 \<Longrightarrow> int_to_size (of_nat x) = x"
  by (simp add: int_to_size_nonneg sint_of_nat)

section \<open>Threads\<close>

definition gemm_init :: "problem \<Rightarrow> thread_init" where
  "gemm_init P b l g =
     [(0, of_nat (b div pr_across P * pr_tile P + l div pr_tile P)), (1, of_nat (b mod pr_across P * pr_tile P + l mod pr_tile P)),
      (2, of_nat (l div pr_tile P)), (3, of_nat (l mod pr_tile P)), (4, of_nat b), (10, of_nat (pr_tile P)), (11, of_nat (height P)),
      (12, of_nat (breadth P)), (13, of_nat (depth P)), (14, of_nat (tiles_at P b)), (15, 0), (16, of_nat (at_B P)), (17, of_nat (at_C P))]"

text \<open>The arguments of the builder for a problem.\<close>

definition int_sized :: "problem \<Rightarrow> nat \<Rightarrow> bool" where
  "int_sized P ws \<longleftrightarrow> 0 < pr_tile P \<and> pr_tile P < 2 ^ 31 \<and> height P < 2 ^ 31 \<and> breadth P < 2 ^ 31 \<and> depth P < 2 ^ 31 \<and> 0 < ws \<and> ws \<le> 32"

lemma gemm_thread_built:
  assumes run: "gemm_thread (of_nat (height P)) (of_nat (breadth P)) (of_nat (depth P)) (of_nat (pr_tile P)) (of_nat ws)
      (of_nat x) (of_nat y) (of_nat b) (of_nat w) (of_nat i) = Inr t"
    and P: "int_sized P ws" and xy: "x < pr_across P" "y < pr_down P" "b = y * pr_across P + x" "b < 2 ^ 31" and w: "w < 2 ^ 31" "i < ws"
  shows "initialised (gemm_init P) t" and "thread_ids t = (gemm_id P b (w * ws + i), b, w * ws + i, w, i)"
proof -
  let ?T = "pr_tile P" and ?l = "w * ws + i"
  have s: "0 < ?T" "?T < 2 ^ 31" "height P < 2 ^ 31" "breadth P < 2 ^ 31" "depth P < 2 ^ 31" "ws < 2 ^ 31" "i < 2 ^ 31" using P w by (simp_all add: int_sized_def)
  have sm: "x < 2 ^ 31" "y < 2 ^ 31" "(2 :: nat) < 2 ^ 31" "(4 :: nat) < 2 ^ 31"
  proof -
    have "pr_across P \<le> breadth P" "pr_down P \<le> height P" using s(1) by (simp_all add: breadth_def height_def)
    then show "x < 2 ^ 31" "y < 2 ^ 31" using xy(1,2) s(3,4) by simp_all
  qed simp_all
  have base: "size_add_int SHARED_MEM_BASE (of_nat r) = SHARED_MEM_BASE + r" if "r < 2 ^ 31" for r
    using that by (subst size_add_int_exact) (simp_all add: sint_of_nat SHARED_MEM_BASE_def)
  have split: "b div pr_across P = y" "b mod pr_across P = x" using xy(1) by (simp_all add: xy(3))
  have small: "l div ?T < 2147483648" "l mod ?T < 2147483648" if "l < 2147483648" for l
    using that le_less_trans[OF div_le_dividend] le_less_trans[OF mod_less_eq_dividend] by blast+
  note ex = mul_iff add_iff div_nat[OF s(1)] rem_nat[OF s(1)] mul_left_2 mul_right_4 size_nat base small
  have "write_registers (gemm_init P b ?l (gemm_id P b ?l)) (new_thread (gemm_id P b ?l) b ?l w i) = Inr t"
    using run s sm xy(1,2,4) w
    by (simp add: gemm_thread_def gemm_bases_def ex gemm_init_def gemm_id_def split tiles_at_def at_B_def at_C_def size_to_int_def
        del: of_nat_mult of_nat_add cong: conj_cong)
  moreover from write_registers_ids[OF this] show ids: "thread_ids t = (gemm_id P b ?l, b, ?l, w, i)"
    by (simp add: thread_ids_def new_thread_def)
  ultimately show "initialised (gemm_init P) t" by (simp add: initialised_def thread_ids_def)
qed

section \<open>Warps and blocks\<close>

lemma gemm_warp_built:
  assumes run: "gemm_warp (of_nat (height P)) (of_nat (breadth P)) (of_nat (depth P)) (of_nat (pr_tile P)) (of_nat ws)
      (of_nat (pr_tile P * pr_tile P)) (of_nat x) (of_nat y) (of_nat b) (of_nat w) = Inr u"
    and P: "int_sized P ws" and xy: "x < pr_across P" "y < pr_down P" "b = y * pr_across P + x" "b < 2 ^ 31"
    and w: "w * ws < pr_tile P * pr_tile P" "pr_tile P * pr_tile P < 2 ^ 31"
  shows "built (gemm_init P) ws u" and "w_id u = w" and "map t_local_id (w_threads u) = [w * ws ..< w * ws + min ws (pr_tile P * pr_tile P - w * ws)]"
    and "\<forall>t \<in> set (w_threads u). t_block_id t = b \<and> t_global_id t = gemm_id P b (t_local_id t)"
proof -
  let ?S = "pr_tile P * pr_tile P" and ?n = "min ws (pr_tile P * pr_tile P - w * ws)"
  have ws: "0 < ws" "ws \<le> 32" using P by (simp_all add: int_sized_def)
  then have w31: "w < 2 ^ 31" "ws < 2 ^ 31" "w * ws < 2 ^ 31" using w by (auto intro: le_less_trans[of w "w * ws"])
  let ?f = "gemm_thread (of_nat (height P)) (of_nat (breadth P)) (of_nat (depth P)) (of_nat (pr_tile P)) (of_nat ws) (of_nat x) (of_nat y) (of_nat b) (of_nat w)"
  have "c_sub (of_nat ?S) (of_nat (w * ws)) = Inr (of_nat (?S - w * ws))" using w by (intro sub_nat) simp_all
  moreover have "sint (of_nat (?S - w * ws) :: c_int) = int (?S - w * ws)" "sint (of_nat ws :: c_int) = int ws"
    using w w31 by (intro sint_of_nat; simp)+
  ultimately obtain ts where ts: "mapE ?f (int_range (if ?S - w * ws < ws then of_nat (?S - w * ws) else of_nat ws)) = Inr ts"
    and u: "u = build_warp (int_to_size (of_nat w)) ts"
    using run mul_iff[OF w31(1,2)] w31 by (auto simp: gemm_warp_def simp del: of_nat_mult of_nat_diff)
  have "(if ?S - w * ws < ws then of_nat (?S - w * ws) else of_nat ws :: c_int) = of_nat ?n" by (simp add: min_def)
  moreover have "?n < 2 ^ 31" using w31 by simp
  ultimately have ts: "mapE ?f (map of_nat [0..<?n]) = Inr ts" using ts by (simp only: int_range_nat)
  have len: "length ts = ?n" using mapE_length[OF ts] by simp
  have thread: "?f (of_nat i) = Inr (ts ! i)" "i < ws" if "i < ?n" for i using mapE_nth[OF ts, of i] that by simp_all
  note tb = gemm_thread_built[OF thread(1) P xy w31(1) thread(2)]
  have ids: "t_local_id (ts ! i) = w * ws + i" "t_block_id (ts ! i) = b" "t_global_id (ts ! i) = gemm_id P b (w * ws + i)" if "i < ?n" for i
    using tb(2)[OF that that] by (simp_all add: thread_ids_def)
  have fields: "w_threads u = ts" "w_active_mask u = full_mask (length ts)" "w_state u = Ready" "w_stack u = []" "w_pc u = 0" "w_id u = w"
    using build_warp_props[of w ts] w31(1) by (simp_all add: u size_nat)
  show "built (gemm_init P) ws u" using fields len ws w tb(1) by (auto simp: built_def in_set_conv_nth)
  show "w_id u = w" by (rule fields(6))
  show "map t_local_id (w_threads u) = [w * ws ..< w * ws + ?n]"
    using ids(1) len by (intro nth_equalityI) (auto simp: fields)
  show "\<forall>t \<in> set (w_threads u). t_block_id t = b \<and> t_global_id t = gemm_id P b (t_local_id t)"
    using ids len by (auto simp: fields in_set_conv_nth)
qed

lemma gemm_block_built:
  assumes run: "gemm_block (of_nat (height P)) (of_nat (breadth P)) (of_nat (depth P)) (of_nat (pr_tile P)) (of_nat ws)
      (of_nat (pr_tile P * pr_tile P)) (of_nat (pr_across P)) (of_nat y, of_nat x) = Inr bl"
    and P: "int_sized P ws" and xy: "x < pr_across P" "y < pr_down P" and S: "pr_tile P * pr_tile P < 2 ^ 31"
  shows "built_block (gemm_init P) (pr_tile P * pr_tile P) ws bl" and "tb_id bl = y * pr_across P + x"
    and "map t_local_id (block_threads_of bl) = [0 ..< pr_tile P * pr_tile P]"
    and "\<forall>t \<in> set (block_threads_of bl). t_global_id t = gemm_id P (tb_id bl) (t_local_id t)"
proof -
  let ?S = "pr_tile P * pr_tile P" and ?b = "y * pr_across P + x"
  have s: "0 < pr_tile P" "0 < ws" "ws < 2 ^ 31" "height P < 2 ^ 31" "breadth P < 2 ^ 31" using P by (simp_all add: int_sized_def)
  have "pr_across P \<le> breadth P" "pr_down P \<le> height P" using s(1) by (simp_all add: breadth_def height_def)
  then have small: "pr_across P < 2 ^ 31" "x < 2 ^ 31" "y < 2 ^ 31" using xy s(4,5) by simp_all
  obtain b nw wps where b: "bindE (c_mul (of_nat y) (of_nat (pr_across P))) (\<lambda>n. c_add n (of_nat x)) = Inr b"
    and nw: "bindE (c_add (of_nat ?S) (of_nat ws)) (\<lambda>n. bindE (c_sub n 1) (\<lambda>m. c_div m (of_nat ws))) = Inr nw"
    and wps: "mapE (gemm_warp (of_nat (height P)) (of_nat (breadth P)) (of_nat (depth P)) (of_nat (pr_tile P)) (of_nat ws)
        (of_nat ?S) (of_nat x) (of_nat y) b) (int_range nw) = Inr wps"
    and bl: "bl = foldl add_warp (new_thread_block (int_to_size b)) wps"
    using run unfolding gemm_block_def by (auto simp: Let_def simp del: of_nat_mult)
  have b': "b = of_nat ?b" "?b < 2 ^ 31" using b small by (auto simp: mul_iff add_iff simp del: of_nat_mult of_nat_add)
  let ?m = "(?S + ws - 1) div ws"
  have nw': "nw = of_nat ?m" "?S + ws < 2 ^ 31"
  proof -
    show q: "?S + ws < 2 ^ 31" using nw add_iff[OF S s(3)] by (auto simp del: of_nat_add of_nat_mult)
    then have "c_sub (of_nat (?S + ws)) (of_nat 1) = Inr (of_nat (?S + ws - 1))" using s(2) by (intro sub_nat) simp_all
    moreover have "c_div (of_nat (?S + ws - 1)) (of_nat ws) = Inr (of_nat ?m)" using s(2,3) q by (intro div_nat) simp_all
    ultimately show "nw = of_nat ?m" using nw add_iff[OF S s(3)] by (auto simp del: of_nat_add of_nat_mult of_nat_diff)
  qed
  have "?m < 2 ^ 31" by (rule le_less_trans[OF div_le_dividend]) (use nw'(2) in simp)
  then have wps: "mapE (gemm_warp (of_nat (height P)) (of_nat (breadth P)) (of_nat (depth P)) (of_nat (pr_tile P)) (of_nat ws)
        (of_nat ?S) (of_nat x) (of_nat y) (of_nat ?b)) (map of_nat [0..<?m]) = Inr wps"
    using wps by (simp only: nw'(1) b'(1) int_range_nat)
  have len: "length wps = ?m" using mapE_length[OF wps] by simp
  have cover: "i * ws < ?S" if "i < ?m" for i by (rule chunks_cover(2)[OF s(2) that])
  have nth: "gemm_warp (of_nat (height P)) (of_nat (breadth P)) (of_nat (depth P)) (of_nat (pr_tile P)) (of_nat ws)
        (of_nat ?S) (of_nat x) (of_nat y) (of_nat ?b) (of_nat i) = Inr (wps ! i)" if "i < ?m" for i
    using mapE_nth[OF wps, of i] that by simp
  note wb = gemm_warp_built[OF nth P xy refl b'(2) cover S]
  have bl': "tb_warps bl = wps" "tb_id bl = ?b" using b' by (simp_all add: bl foldl_add_warp new_thread_block_def size_nat del: of_nat_add of_nat_mult)
  show "tb_id bl = ?b" by (rule bl'(2))
  have "map (\<lambda>u. map t_local_id (w_threads u)) wps = map (\<lambda>i. [0 + i * ws ..< 0 + min (i * ws + ws) ?S]) [0..<?m]"
  proof (rule nth_equalityI)
    fix i assume "i < length (map (\<lambda>u. map t_local_id (w_threads u)) wps)"
    then have i: "i < ?m" using len by simp
    have "i * ws + min ws (?S - i * ws) = min (i * ws + ws) ?S" using cover[OF i] by simp
    then show "map (\<lambda>u. map t_local_id (w_threads u)) wps ! i = map (\<lambda>i. [0 + i * ws ..< 0 + min (i * ws + ws) ?S]) [0..<?m] ! i"
      using wb(3)[OF i i] i len by simp
  qed (simp add: len)
  then have "map t_local_id (block_threads_of bl) = [0 ..< 0 + min (?m * ws) ?S]"
    unfolding concat_chunks[of 0 ws ?S ?m, symmetric] by (simp add: bl' block_threads_of_def map_concat comp_def)
  then show loc: "map t_local_id (block_threads_of bl) = [0 ..< ?S]" using chunks_cover(1)[OF s(2), of ?S] by (simp add: min_def)
  have threads: "\<forall>t \<in> set (block_threads_of bl). t_block_id t = ?b \<and> t_global_id t = gemm_id P ?b (t_local_id t)"
  proof -
    have "t_block_id t = ?b \<and> t_global_id t = gemm_id P ?b (t_local_id t)" if u: "u \<in> set wps" and t: "t \<in> set (w_threads u)" for u t
    proof -
      obtain i where i: "i < ?m" "u = wps ! i" using u len by (auto simp: in_set_conv_nth)
      show ?thesis using wb(4)[OF i(1) i(1)] t i(2) by blast
    qed
    then show ?thesis by (auto simp: bl'(1) block_threads_of_def)
  qed
  then show "\<forall>t \<in> set (block_threads_of bl). t_global_id t = gemm_id P (tb_id bl) (t_local_id t)" by (simp add: bl')
  have "length (block_threads_of bl) = ?S" using arg_cong[OF loc, of length] by simp
  moreover have "\<forall>u \<in> set wps. built (gemm_init P) ws u" using wb(1) len by (auto simp: in_set_conv_nth)
  moreover have "map w_id wps = [0..<length wps]" using wb(2) len by (intro nth_equalityI) simp_all
  moreover have "0 < ?m" using chunks_cover(1)[OF s(2), of ?S] s(1) by (cases "?m = 0") auto
  ultimately show "built_block (gemm_init P) ?S ws bl" using threads len by (auto simp: built_block_def bl')
qed

section \<open>The grid\<close>

lemma product_maps: "List.product (map f xs) (map g ys) = map (\<lambda>(x, y). (f x, g y)) (List.product xs ys)"
  by (induction xs) (simp_all add: comp_def)

lemma product_index: "map (\<lambda>(y, x). y * n + x) (List.product [0..<m] [0..<n]) = [0 ..< m * (n :: nat)]"
proof (rule nth_equalityI)
  fix i assume "i < length (map (\<lambda>(y, x). y * n + x) (List.product [0..<m] [0..<n]))"
  then have i: "i < m * n" by simp
  then have "i div n < m" "i mod n < n" by (simp_all add: less_mult_imp_div_less) (use i in \<open>auto intro!: mod_less_divisor gr0I\<close>)
  then show "map (\<lambda>(y, x). y * n + x) (List.product [0..<m] [0..<n]) ! i = [0 ..< m * n] ! i"
    using i by (simp add: product_nth)
qed simp

lemma gemm_grid_built:
  assumes run: "build_gemm_grid (of_nat (height P)) (of_nat (breadth P)) (of_nat (depth P)) (of_nat (pr_tile P)) (of_nat ws) = Inr gr"
    and P: "int_sized P ws"
  shows "\<forall>b \<in> set (g_blocks gr). built_block (gemm_init P) (pr_tile P * pr_tile P) ws b \<and>
      map t_local_id (block_threads_of b) = [0 ..< pr_tile P * pr_tile P] \<and>
      (\<forall>t \<in> set (block_threads_of b). t_global_id t = gemm_id P (tb_id b) (t_local_id t))"
    and "map tb_id (g_blocks gr) = [0 ..< pr_down P * pr_across P]"
proof -
  let ?T = "pr_tile P" and ?X = "pr_across P" and ?Y = "pr_down P"
  have s: "0 < ?T" "?T < 2 ^ 31" "height P < 2 ^ 31" "breadth P < 2 ^ 31" using P by (simp_all add: int_sized_def)
  have d: "breadth P div ?T = ?X" "height P div ?T = ?Y" using s(1) by (simp_all add: breadth_def height_def)
  have "?X \<le> breadth P" "?Y \<le> height P" using s(1) by (simp_all add: breadth_def height_def)
  then have small: "?X < 2 ^ 31" "?Y < 2 ^ 31" using s(3,4) by simp_all
  let ?f = "\<lambda>p. gemm_block (of_nat (height P)) (of_nat (breadth P)) (of_nat (depth P)) (of_nat ?T) (of_nat ws) (of_nat (?T * ?T)) (of_nat ?X) p"
  obtain bs where S: "?T * ?T < 2 ^ 31" and bs: "mapE ?f (List.product (int_range (of_nat ?Y)) (int_range (of_nat ?X))) = Inr bs"
    and gr: "gr = foldl add_block \<lparr>g_blocks = []\<rparr> bs"
    using run div_nat[OF s(1,4,2)] div_nat[OF s(1,3,2)] mul_iff[OF s(2,2)]
    unfolding build_gemm_grid_def d by (auto simp del: of_nat_mult)
  have bs: "mapE ?f (map (\<lambda>(y, x). (of_nat y, of_nat x)) (List.product [0..<?Y] [0..<?X])) = Inr bs"
    using bs small by (simp only: int_range_nat product_maps)
  have g: "g_blocks gr = bs" by (simp add: gr foldl_add_block)
  have len: "length bs = ?Y * ?X" using mapE_length[OF bs] by simp
  have nth: "i div ?X < ?Y" "i mod ?X < ?X" "?f (of_nat (i div ?X), of_nat (i mod ?X)) = Inr (bs ! i)" if i: "i < ?Y * ?X" for i
  proof -
    show b: "i div ?X < ?Y" "i mod ?X < ?X" using i by (simp_all add: less_mult_imp_div_less) (use i in \<open>auto intro!: mod_less_divisor gr0I\<close>)
    show "?f (of_nat (i div ?X), of_nat (i mod ?X)) = Inr (bs ! i)" using mapE_nth[OF bs, of i] i b by (simp add: product_nth)
  qed
  note bb = gemm_block_built[OF nth(3) P nth(2,1) S]
  show "\<forall>b \<in> set (g_blocks gr). built_block (gemm_init P) (?T * ?T) ws b \<and> map t_local_id (block_threads_of b) = [0 ..< ?T * ?T] \<and>
      (\<forall>t \<in> set (block_threads_of b). t_global_id t = gemm_id P (tb_id b) (t_local_id t))"
  proof
    fix b assume "b \<in> set (g_blocks gr)"
    then obtain i where i: "i < ?Y * ?X" "b = bs ! i" using len by (auto simp: g in_set_conv_nth)
    show "built_block (gemm_init P) (?T * ?T) ws b \<and> map t_local_id (block_threads_of b) = [0 ..< ?T * ?T] \<and>
        (\<forall>t \<in> set (block_threads_of b). t_global_id t = gemm_id P (tb_id b) (t_local_id t))"
      unfolding i(2) using bb[OF i(1) i(1) i(1)] by blast
  qed
  show "map tb_id (g_blocks gr) = [0 ..< ?Y * ?X]"
    using bb(2) len by (intro nth_equalityI) (simp_all add: g)
qed

section \<open>The start and the end\<close>

text \<open>The operands in the memory, and room for the result.\<close>

definition gemm_stored_in :: "problem \<Rightarrow> global_memory \<Rightarrow> bool" where
  "gemm_stored_in P m \<longleftrightarrow> at_C P + height P * breadth P * 4 \<le> length (gm_data m) \<and>
     (\<forall>x < height P * depth P. gm_load m (x * 4) = Inr (pr_A P ! x)) \<and> (\<forall>x < depth P * breadth P. gm_load m (at_B P + x * 4) = Inr (pr_B P ! x))"

lemma gemm_initial:
  assumes init: "initialised (gemm_init P) t" and b: "t_block_id t < pr_down P * pr_across P" and l: "t_local_id t < pr_tile P * pr_tile P"
    and gid: "t_global_id t = gemm_id P (t_block_id t) (t_local_id t)" and ok: "gemm_ok P" and m: "gemm_stored_in P m"
    and cap: "height P * breadth P * 8 \<le> cap"
  shows "gemm_lane P 0 t (space (new_shared_memory cap banks) m)"
proof -
  let ?M = "space (new_shared_memory cap banks) m" and ?b = "t_block_id t"
  let ?regs = "gemm_init P ?b (t_local_id t) (t_global_id t)"
  have "distinct (map (\<lambda>p. int_to_size (fst p)) ?regs)" by (simp add: gemm_init_def)
  note rd = initialised_read[OF init refl this]
  have "\<forall>(r, v) \<in> set (map (\<lambda>(r, x). (r, of_nat x)) (gemm_constants P t)). (r, v) \<in> set ?regs"
    by (simp add: gemm_constants_def gemm_init_def grow_def gcol_def trow_def tcol_def)
  then have kn: "knows t (registers_at P t (At_head 0))" using rd by (auto simp: knows_def registers_at_def live_def)
  have X: "0 < pr_across P" using b by (cases "pr_across P") simp_all
  have T: "0 < pr_tile P" using ok by (simp add: gemm_ok_def)
  have tr: "trow P t < pr_tile P" "tcol P t < pr_tile P" using l T by (simp_all add: trow_def tcol_def less_mult_imp_div_less)
  have gr: "grow P t < height P" "gcol P t < breadth P"
    using index_less[of "?b div pr_across P" "pr_down P" "trow P t" "pr_tile P"] index_less[of "?b mod pr_across P" "pr_across P" "tcol P t" "pr_tile P"]
      b X tr by (simp_all add: grow_def gcol_def height_def breadth_def less_mult_imp_div_less)
  have low: "at_C P + height P * breadth P * 4 \<le> SHARED_MEM_BASE" using ok by (simp add: gemm_ok_def)
  have glob: "?M a = gm_load m a" if "a < at_C P + height P * breadth P * 4" for a using that low by (simp add: space_def)
  have arrays: "?M (x * 4) = Inr (pr_A P ! x)" if "x < height P * depth P" for x
    using m that glob[of "x * 4"] by (simp add: gemm_stored_in_def at_C_def at_B_def)
  moreover have "?M (at_B P + x * 4) = Inr (pr_B P ! x)" if "x < depth P * breadth P" for x
    using m that glob[of "at_B P + x * 4"] by (simp add: gemm_stored_in_def at_C_def)
  moreover have "out_cell P t < at_C P + height P * breadth P * 4"
    unfolding out_cell_def by (rule entry_bound[OF index_less[OF gr] order_refl])
  then have "\<exists>v. ?M (out_cell P t) = Inr v" using glob m by (simp add: gemm_stored_in_def word_of_load)
  moreover have "?M (cell_A P ?b (trow P t) (tcol P t)) = Inr 0" "?M (cell_B P ?b (trow P t) (tcol P t)) = Inr 0"
  proof -
    let ?e = "trow P t * pr_tile P + tcol P t" and ?S = "pr_tile P * pr_tile P"
    have e: "?e < ?S" by (rule index_less[OF tr])
    have "Suc ?b * (?S * 8) \<le> pr_down P * pr_across P * (?S * 8)" using b by (intro mult_le_mono1) simp
    also have "\<dots> = height P * breadth P * 8" by (simp add: height_def breadth_def algebra_simps)
    finally have "?b * (?S * 8) + ?S * 8 \<le> cap" using cap by simp
    then have "?b * (?S * 8) + ?e * 4 < cap" "?b * (?S * 8) + ?S * 4 + ?e * 4 < cap" using e by simp_all
    moreover have "?b * (2 * pr_tile P * pr_tile P * 4) = ?b * (?S * 8)" by simp
    ultimately show "?M (cell_A P ?b (trow P t) (tcol P t)) = Inr 0" "?M (cell_B P ?b (trow P t) (tcol P t)) = Inr 0"
      unfolding space_def cell_A_def cell_B_def tiles_at_def shm_load_def new_shared_memory_def by simp_all
  qed
  ultimately have "gemm_common P t ?M"
    using ok initialised_full[OF init] b l gid unfolding gemm_common_def by blast
  then show ?thesis using kn by (simp add: gemm_lane_def gemm_at_def)
qed

lemma gemm_final:
  assumes "gemm_lane P (duration P) t M"
  shows "M (out_cell P t) = Inr (dot P (grow P t) (gcol P t) (depth P))"
  using assms by (simp add: gemm_lane_def gemm_at_def schedule_last)

end
