(* ===== verification/Gemm_Runs.thy ===== *)
theory Gemm_Runs
  imports Benchmark_Runs Gemm_Grid
begin

text \<open>
  What a run of the matrix multiplication leaves in the global memory, that its grid can be built,
  and that its sums of products are those of the CPU.
\<close>

section \<open>The run\<close>

lemma gemm_run:
  assumes fresh: "fresh_gpu c0 g" and P: "int_sized P ws" and ok: "gemm_ok P" and m: "gemm_stored_in P m"
    and k: "generate_gemm_kernel (of_nat (height P)) (of_nat (breadth P)) (of_nat (depth P)) (of_nat (pr_tile P)) = Inr k"
    and gr: "build_gemm_grid (of_nat (height P)) (of_nat (breadth P)) (of_nat (depth P)) (of_nat (pr_tile P)) (of_nat ws) = Inr gr"
    and ft: "block_fits c req (pr_tile P * pr_tile P) ws" and cap: "height P * breadth P * 8 \<le> cfg_max_shared_memory_per_sm c0"
  shows "\<exists>g'. run_kernel (g\<lparr>gpu_global_memory := m\<rparr>) k gr c req = Some (Inr g') \<and>
    (\<forall>i < height P. \<forall>j < breadth P. gm_load (gpu_global_memory g') (at_C P + (i * breadth P + j) * 4) = Inr (dot P i j (depth P))) \<and>
    (\<forall>a < SHARED_MEM_BASE. (\<forall>x < height P * breadth P. a \<noteq> at_C P + x * 4) \<longrightarrow> gm_load (gpu_global_memory g') a = gm_load m a)"
proof -
  let ?g = "g\<lparr>gpu_global_memory := m\<rparr>" and ?T = "pr_tile P" and ?X = "pr_across P" and ?Y = "pr_down P"
  have s: "0 < ?T" "?T < 2 ^ 31" "ws \<le> 32" using P by (simp_all add: int_sized_def)
  have k': "k_instructions k = gemm_program ?T" using gemm_kernel[OF k] s(2) by (simp add: sint_of_nat)
  have u: "runnable free (g_blocks gr) ?g" for free using fresh_runnable[OF fresh] by simp
  note gb = gemm_grid_built[OF gr P]
  have bb: "built_block (gemm_init P) (?T * ?T) ws b" "map t_local_id (block_threads_of b) = [0 ..< ?T * ?T]"
    "\<forall>t \<in> set (block_threads_of b). t_global_id t = gemm_id P (tb_id b) (t_local_id t)" if "b \<in> set (g_blocks gr)" for b
    using gb(1) that by blast+
  have id: "tb_id b < ?Y * ?X" if "b \<in> set (g_blocks gr)" for b
  proof -
    have "tb_id b \<in> set (map tb_id (g_blocks gr))" using that by simp
    then show ?thesis unfolding gb(2) by simp
  qed
  have ids: "distinct (map tb_id (g_blocks gr))" unfolding gb(2) by simp
  have ros: "\<forall>b \<in> set (g_blocks gr). map t_global_id (block_threads_of b) = gemm_roster P (tb_id b)"
  proof
    fix b assume b: "b \<in> set (g_blocks gr)"
    have "0 < ?X" using id[OF b] by (cases ?X) simp_all
    moreover have "map t_global_id (block_threads_of b) = map (gemm_id P (tb_id b)) (map t_local_id (block_threads_of b))"
      using bb(3)[OF b] by simp
    ultimately show "map t_global_id (block_threads_of b) = gemm_roster P (tb_id b)" unfolding bb(2)[OF b] by (simp add: gemm_roster_def)
  qed
  have start: "gemm_lane P 0 t (space (sm_shared_memory sm) (gpu_global_memory ?g))"
    if b: "b \<in> set (g_blocks gr)" and t: "t \<in> set (block_threads_of b)" and sm: "sm \<in> set (gpu_sms ?g)" for b t sm
  proof -
    have sh: "sm_shared_memory sm = new_shared_memory (cfg_max_shared_memory_per_sm c0) (cfg_shared_memory_banks c0)"
      using fresh sm by (simp add: fresh_gpu_def)
    have "initialised (gemm_init P) t" "t_block_id t = tb_id b" using bb(1)[OF b] t by (auto simp: built_block_def built_def block_threads_of_def)
    moreover have "t_local_id t \<in> set (map t_local_id (block_threads_of b))" using t by simp
    then have "t_local_id t < ?T * ?T" unfolding bb(2)[OF b] by simp
    ultimately show ?thesis using gemm_initial[OF _ _ _ _ ok m cap] id[OF b] bb(3)[OF b] t by (simp add: sh)
  qed
  have bl: "\<forall>b \<in> set (g_blocks gr). built_block (gemm_init P) (?T * ?T) ws b" using bb(1) by blast
  have "\<exists>g1 g2. launch_kernel ?g gr c req = Inr g1 \<and> run_to_completion k g1 = Some (Inr g2) \<and>
      gemm.grows P (gpu_global_memory ?g) (gpu_global_memory g2) \<and>
      (\<forall>t0 \<in> set (grid_threads gr). \<exists>t sh. thread_key t = thread_key t0 \<and>
         gemm_lane P (length (unrolled (gemm_program ?T) (\<lambda>v. place_pc (gemm_schedule P v)) (duration P))) t (space sh (gpu_global_memory g2)))"
    by (rule gemm.blocks_run[OF k' u bl ids s(3) ft ros]) (rule start TrueI; assumption)+
  then obtain g1 g2 where r: "launch_kernel ?g gr c req = Inr g1" "run_to_completion k g1 = Some (Inr g2)"
    "gemm.grows P m (gpu_global_memory g2)"
    "\<forall>t0 \<in> set (grid_threads gr). \<exists>t sh. thread_key t = thread_key t0 \<and> gemm_lane P (duration P) t (space sh (gpu_global_memory g2))" by auto
  have "gm_load (gpu_global_memory g2) (at_C P + (i * breadth P + j) * 4) = Inr (dot P i j (depth P))"
    if i: "i < height P" and j: "j < breadth P" for i j
  proof -
    let ?b = "i div ?T * ?X + j div ?T" and ?l = "i mod ?T * ?T + j mod ?T"
    have d: "i div ?T < ?Y" "j div ?T < ?X" "i mod ?T < ?T" "j mod ?T < ?T"
      using i j s(1) by (simp_all add: height_def breadth_def less_mult_imp_div_less)
    have b: "?b div ?X = i div ?T" "?b mod ?X = j div ?T" by (rule index_div[OF d(2)], rule index_mod[OF d(2)])
    have l: "?l div ?T = i mod ?T" "?l mod ?T = j mod ?T" by (rule index_div[OF d(4)], rule index_mod[OF d(4)])
    have "?b \<in> set (map tb_id (g_blocks gr))" unfolding gb(2) using index_less[OF d(1,2)] by simp
    then obtain blk where blk: "blk \<in> set (g_blocks gr)" "tb_id blk = ?b" by auto
    have "?l \<in> set (map t_local_id (block_threads_of blk))" unfolding bb(2)[OF blk(1)] using index_less[OF d(3,4)] by simp
    then obtain t0 where t0: "t0 \<in> set (block_threads_of blk)" "t_local_id t0 = ?l" by auto
    then have key: "thread_key t0 = (?b, gemm_id P ?b ?l)"
      using bb(1,3)[OF blk(1)] blk(2) by (auto simp: thread_key_def built_block_def)
    have "t0 \<in> set (grid_threads gr)" using blk(1) t0(1) by (auto simp: grid_threads_def)
    then obtain t sh where t: "thread_key t = (?b, gemm_id P ?b ?l)" "gemm_lane P (duration P) t (space sh (gpu_global_memory g2))"
      using r(4) key by metis
    then have c: "gemm_common P t (space sh (gpu_global_memory g2))" by (simp add: gemm_lane_def gemm_at_def)
    have tb: "t_block_id t = ?b" "t_global_id t = gemm_id P ?b ?l" using t(1) by (simp_all add: thread_key_def)
    have loc: "t_local_id t < ?T * ?T" "gemm_id P ?b (t_local_id t) = gemm_id P ?b ?l"
      using c unfolding gemm_common_def tb by simp_all
    have "t_local_id t = ?l" by (rule gemm_id_inj[OF gemm_place(2)[OF c] loc(1) index_less[OF d(3,4)] loc(2)])
    then have "grow P t = i" "gcol P t = j" unfolding grow_def gcol_def trow_def tcol_def tb b by (simp_all only: l div_mult_mod_eq)
    then have "space sh (gpu_global_memory g2) (at_C P + (i * breadth P + j) * 4) = Inr (dot P i j (depth P))"
      "at_C P + (i * breadth P + j) * 4 < SHARED_MEM_BASE"
      using gemm_final[OF t(2)] gemm_low(2)[OF c] by (simp_all add: out_cell_def)
    then show ?thesis by (simp add: space_def)
  qed
  moreover have "gm_load (gpu_global_memory g2) a = gm_load m a"
    if a: "a < SHARED_MEM_BASE" "\<forall>x < height P * breadth P. a \<noteq> at_C P + x * 4" for a
  proof -
    have "gemm_target P a = None"
    proof (rule ccontr)
      assume "gemm_target P a \<noteq> None"
      then have "at_C P \<le> a" "(a - at_C P) mod 4 = 0" "(a - at_C P) div 4 < height P * breadth P"
        by (simp_all add: gemm_target_def Let_def split: if_splits)
      moreover from this(1,2) have "a = at_C P + (a - at_C P) div 4 * 4" by presburger
      ultimately show False using a(2) by blast
    qed
    then show ?thesis using r(3) a(1) by (auto simp: gemm.grows_def)
  qed
  ultimately show ?thesis using r(1,2) by (auto simp: run_kernel_def)
qed

section \<open>The grid can be built\<close>

text \<open>Sizes that leave every index of the builder an \<open>int\<close>.\<close>

definition gemm_sized :: "problem \<Rightarrow> nat \<Rightarrow> bool" where
  "gemm_sized P ws \<longleftrightarrow> 0 < pr_tile P \<and> 0 < pr_across P \<and> 0 < pr_down P \<and> 0 < ws \<and> ws \<le> 32 \<and>
     at_C P + height P * breadth P * 4 \<le> SHARED_MEM_BASE"

lemma gemm_sized_bounds:
  assumes "gemm_sized P ws"
  shows "int_sized P ws" and "height P * depth P * 4 + depth P * breadth P * 4 \<le> 268435456" and "height P * breadth P * 4 \<le> 268435456"
    and "pr_tile P * pr_tile P \<le> height P * breadth P"
proof -
  have z: "0 < pr_tile P" "0 < pr_across P" "0 < pr_down P" "0 < ws" "ws \<le> 32" using assms by (simp_all add: gemm_sized_def)
  have b: "at_C P + height P * breadth P * 4 \<le> 268435456" using assms by (simp add: gemm_sized_def SHARED_MEM_BASE_def)
  then show s: "height P * depth P * 4 + depth P * breadth P * 4 \<le> 268435456" "height P * breadth P * 4 \<le> 268435456"
    unfolding at_C_def at_B_def by - (linarith+)
  have t: "pr_tile P \<le> height P" "pr_tile P \<le> breadth P" "pr_tile P \<le> depth P" using z by (simp_all add: height_def breadth_def depth_def)
  then show "pr_tile P * pr_tile P \<le> height P * breadth P" by (intro mult_le_mono)
  have "height P \<le> height P * depth P" "depth P \<le> height P * depth P" "breadth P \<le> depth P * breadth P" using t z(1) by simp_all
  then have "height P < 2147483648" "breadth P < 2147483648" "depth P < 2147483648" using s(1) by - (linarith+)
  then show "int_sized P ws" using z t by (simp add: int_sized_def)
qed

lemma mul_small: "x * y < 2147483648 \<Longrightarrow> x < 2147483648 \<Longrightarrow> y < 2147483648 \<Longrightarrow> c_mul (of_nat x) (of_nat y) = Inr (of_nat (x * y))"
  and add_small: "x + y < 2147483648 \<Longrightarrow> c_add (of_nat x) (of_nat y) = Inr (of_nat (x + y))"
  and div_small: "0 < y \<Longrightarrow> x < 2147483648 \<Longrightarrow> y < 2147483648 \<Longrightarrow> c_div (of_nat x) (of_nat y) = Inr (of_nat (x div y))"
  and rem_small: "0 < y \<Longrightarrow> x < 2147483648 \<Longrightarrow> y < 2147483648 \<Longrightarrow> c_rem (of_nat x) (of_nat y) = Inr (of_nat (x mod y))"
  and sub_small: "y \<le> x \<Longrightarrow> x < 2147483648 \<Longrightarrow> c_sub (of_nat x) (of_nat y) = Inr (of_nat (x - y))"
  using mul_nat[of x y] add_nat[of x y] div_nat[of y x] rem_nat[of y x] sub_nat[of y x] by simp_all

lemma gemm_kernel_total:
  assumes "gemm_sized P ws"
  shows "\<exists>k. generate_gemm_kernel M N K (of_nat (pr_tile P)) = Inr k"
proof -
  note b = gemm_sized_bounds[OF assms]
  have T: "pr_tile P < 2147483648" using b(1) by (simp add: int_sized_def)
  have "c_mul (of_nat (pr_tile P)) (of_nat (pr_tile P)) = Inr (of_nat (pr_tile P * pr_tile P))"
    "c_mul (of_nat (pr_tile P * pr_tile P)) (of_nat 4) = Inr (of_nat (pr_tile P * pr_tile P * 4))"
    using b(3,4) T by - (rule mul_small; linarith)+
  then show ?thesis by (simp add: generate_gemm_kernel_def del: of_nat_mult)
qed

lemma gemm_thread_total:
  assumes P: "gemm_sized P ws" and xy: "x < pr_across P" "y < pr_down P" "b = y * pr_across P + x" and w: "i < ws" "w * ws + i < pr_tile P * pr_tile P"
  shows "\<exists>t. gemm_thread (of_nat (height P)) (of_nat (breadth P)) (of_nat (depth P)) (of_nat (pr_tile P)) (of_nat ws)
      (of_nat x) (of_nat y) (of_nat b) (of_nat w) (of_nat i) = Inr t"
proof -
  let ?T = "pr_tile P" and ?l = "w * ws + i"
  note bd = gemm_sized_bounds[OF P]
  have T: "0 < ?T" "?T < 2147483648" "height P < 2147483648" "breadth P < 2147483648" "depth P < 2147483648" "ws < 2147483648" "i < 2147483648"
    using bd(1) w(1) by (simp_all add: int_sized_def)
  have S: "?T * ?T < 268435456" "?l < 268435456" using bd(3,4) w(2) by - (linarith+)
  have TT: "?T \<le> ?T * ?T" using T(1) by simp
  have lr: "?l div ?T < ?T" "?l mod ?T < ?T" using w(2) T(1) by (simp_all add: less_mult_imp_div_less)
  have rc: "y * ?T + ?l div ?T < height P" "x * ?T + ?l mod ?T < breadth P"
    using index_less[OF xy(2) lr(1)] index_less[OF xy(1) lr(2)] by (simp_all add: height_def breadth_def)
  have g: "(y * ?T + ?l div ?T) * breadth P + (x * ?T + ?l mod ?T) < height P * breadth P" by (rule index_less[OF rc])
  have "b < pr_down P * pr_across P" unfolding xy(3) by (rule index_less[OF xy(2,1)])
  then have "b * (?T * ?T) \<le> pr_down P * pr_across P * (?T * ?T)" by (intro mult_le_mono1) simp
  moreover have "pr_down P * pr_across P * (?T * ?T) = height P * breadth P" by (simp add: height_def breadth_def)
  ultimately have bT: "b * (?T * ?T) \<le> height P * breadth P" by simp
  have "b \<le> b * (?T * ?T)" "w \<le> w * ws" using T(1) w(1) by simp_all
  then have small: "b < 268435456" "w * ws < 268435456" "w < 268435456" "y * ?T < 2147483648" "x * ?T < 2147483648" "x < 2147483648" "y < 2147483648"
    "b * (2 * ?T * ?T * 4) < 2147483648"
  proof -
    have "pr_across P \<le> breadth P" "pr_down P \<le> height P" using T(1) by (simp_all add: breadth_def height_def)
    then show "x < 2147483648" "y < 2147483648" using xy(1,2) T(3,4) by simp_all
    have "b * (2 * ?T * ?T * 4) = 8 * (b * (?T * ?T))" by simp
    then show "b * (2 * ?T * ?T * 4) < 2147483648" using bT bd(3) by linarith
    show "b < 268435456" "w * ws < 268435456" "w < 268435456" using \<open>b \<le> b * (?T * ?T)\<close> \<open>w \<le> w * ws\<close> bT bd(3) S(2) by - (linarith+)
    show "y * ?T < 2147483648" "x * ?T < 2147483648" using rc T(3,4) by simp_all
  qed
  have c: "c_mul (of_nat (height P)) (of_nat (depth P)) = Inr (of_nat (height P * depth P))"
    "c_mul (of_nat (height P * depth P)) (of_nat 4) = Inr (of_nat (height P * depth P * 4))"
    "c_mul (of_nat (depth P)) (of_nat (breadth P)) = Inr (of_nat (depth P * breadth P))"
    "c_mul (of_nat (depth P * breadth P)) (of_nat 4) = Inr (of_nat (depth P * breadth P * 4))"
    "c_add (of_nat (height P * depth P * 4)) (of_nat (depth P * breadth P * 4)) = Inr (of_nat (height P * depth P * 4 + depth P * breadth P * 4))"
    "c_mul (of_nat w) (of_nat ws) = Inr (of_nat (w * ws))" "c_add (of_nat (w * ws)) (of_nat i) = Inr (of_nat ?l)"
    "c_div (of_nat ?l) (of_nat ?T) = Inr (of_nat (?l div ?T))" "c_rem (of_nat ?l) (of_nat ?T) = Inr (of_nat (?l mod ?T))"
    "c_mul (of_nat y) (of_nat ?T) = Inr (of_nat (y * ?T))" "c_add (of_nat (y * ?T)) (of_nat (?l div ?T)) = Inr (of_nat (y * ?T + ?l div ?T))"
    "c_mul (of_nat x) (of_nat ?T) = Inr (of_nat (x * ?T))" "c_add (of_nat (x * ?T)) (of_nat (?l mod ?T)) = Inr (of_nat (x * ?T + ?l mod ?T))"
    "c_mul (of_nat (y * ?T + ?l div ?T)) (of_nat (breadth P)) = Inr (of_nat ((y * ?T + ?l div ?T) * breadth P))"
    "c_add (of_nat ((y * ?T + ?l div ?T) * breadth P)) (of_nat (x * ?T + ?l mod ?T)) = Inr (of_nat ((y * ?T + ?l div ?T) * breadth P + (x * ?T + ?l mod ?T)))"
    "c_mul (of_nat 2) (of_nat ?T) = Inr (of_nat (2 * ?T))" "c_mul (of_nat (2 * ?T)) (of_nat ?T) = Inr (of_nat (2 * ?T * ?T))"
    "c_mul (of_nat (2 * ?T * ?T)) (of_nat 4) = Inr (of_nat (2 * ?T * ?T * 4))"
    "c_mul (of_nat b) (of_nat (2 * ?T * ?T * 4)) = Inr (of_nat (b * (2 * ?T * ?T * 4)))"
    using T S TT rc g small bd(2,3) lr by - (rule mul_small add_small div_small rem_small; linarith)+
  note c' = c[unfolded of_nat_numeral]
  show ?thesis unfolding gemm_thread_def gemm_bases_def bindE_Inr c' prod.case
    by (rule write_registers_total) (simp_all add: good_registers_def new_thread_def new_register_file_def)
qed

lemma gemm_block_total:
  assumes P: "gemm_sized P ws" and xy: "x < pr_across P" "y < pr_down P"
  shows "\<exists>b. gemm_block (of_nat (height P)) (of_nat (breadth P)) (of_nat (depth P)) (of_nat (pr_tile P)) (of_nat ws)
      (of_nat (pr_tile P * pr_tile P)) (of_nat (pr_across P)) (of_nat y, of_nat x) = Inr b"
proof -
  let ?T = "pr_tile P" and ?S = "pr_tile P * pr_tile P" and ?b = "y * pr_across P + x" and ?m = "(pr_tile P * pr_tile P + ws - 1) div ws"
  note bd = gemm_sized_bounds[OF P]
  have s: "0 < ?T" "height P < 2147483648" "breadth P < 2147483648" "0 < ws" "ws \<le> 32" "?S < 268435456"
    using bd P by (simp_all add: int_sized_def gemm_sized_def) (use bd(3,4) in linarith)
  have "pr_across P \<le> breadth P" "pr_down P \<le> height P" using s(1) by (simp_all add: breadth_def height_def)
  then have small: "x < 2147483648" "y < 2147483648" "pr_across P < 2147483648" using xy s(2,3) by simp_all
  have XY: "?b < pr_down P * pr_across P" "y * pr_across P \<le> ?b" using index_less[OF xy(2,1)] by simp_all
  have "pr_down P * pr_across P \<le> pr_down P * pr_across P * ?S" using s(1) by simp
  also have "\<dots> = height P * breadth P" by (simp add: height_def breadth_def)
  finally have b31: "?b < 268435456" "y * pr_across P < 268435456" using XY bd(3) by - (linarith+)
  have c: "c_mul (of_nat y) (of_nat (pr_across P)) = Inr (of_nat (y * pr_across P))" "c_add (of_nat (y * pr_across P)) (of_nat x) = Inr (of_nat ?b)"
    "c_add (of_nat ?S) (of_nat ws) = Inr (of_nat (?S + ws))" "c_sub (of_nat (?S + ws)) (of_nat 1) = Inr (of_nat (?S + ws - 1))"
    "c_div (of_nat (?S + ws - 1)) (of_nat ws) = Inr (of_nat ?m)"
    using small b31 s by - (rule mul_small add_small sub_small div_small; linarith)+
  note c' = c[unfolded of_nat_1]
  have "?m < 2 ^ 31" by (rule le_less_trans[OF div_le_dividend]) (use s in simp)
  note range = int_range_nat[OF this]
  have "\<exists>u. gemm_warp (of_nat (height P)) (of_nat (breadth P)) (of_nat (depth P)) (of_nat ?T) (of_nat ws) (of_nat ?S) (of_nat x) (of_nat y) (of_nat ?b) w = Inr u"
    if w: "w \<in> set (map of_nat [0..<?m])" for w
  proof -
    obtain v where v: "w = of_nat v" "v < ?m" using w by auto
    have vw: "v * ws < ?S" by (rule chunks_cover(2)[OF s(4) v(2)])
    moreover have "v \<le> v * ws" using s(4) by simp
    ultimately have "v < 2147483648" "v * ws < 2147483648" "v * ws \<le> ?S" "ws < 2147483648" using s by linarith+
    then have c2: "c_mul (of_nat v) (of_nat ws) = Inr (of_nat (v * ws))" "c_sub (of_nat ?S) (of_nat (v * ws)) = Inr (of_nat (?S - v * ws))"
      using s(6) by (intro mul_small sub_small; linarith)+
    let ?r = "?S - v * ws"
    let ?n = "if sint (of_nat ?r :: c_int) < sint (of_nat ws :: c_int) then of_nat ?r else of_nat ws :: c_int"
    have "?n = of_nat (min ws ?r)" "min ws ?r < 2 ^ 31"
    proof -
      have r: "?r < 2 ^ 31" "ws < 2 ^ 31" using s(5,6) by (simp_all add: less_imp_diff_less)
      show "?n = of_nat (min ws ?r)" unfolding sint_of_nat[OF r(1)] sint_of_nat[OF r(2)] by (simp add: min_def)
      show "min ws ?r < 2 ^ 31" using s(5) by simp
    qed
    then have rng: "int_range ?n = map of_nat [0..<min ws ?r]" by (simp only: int_range_nat)
    have "\<exists>ts. mapE (gemm_thread (of_nat (height P)) (of_nat (breadth P)) (of_nat (depth P)) (of_nat ?T) (of_nat ws) (of_nat x) (of_nat y) (of_nat ?b) (of_nat v))
        (map of_nat [0..<min ws ?r]) = Inr ts"
      by (rule mapE_total) (use gemm_thread_total[OF P xy refl] vw in auto)
    then show ?thesis unfolding gemm_warp_def v(1) c2 bindE_Inr rng by auto
  qed
  then have "\<exists>ws'. mapE (gemm_warp (of_nat (height P)) (of_nat (breadth P)) (of_nat (depth P)) (of_nat ?T) (of_nat ws) (of_nat ?S) (of_nat x) (of_nat y) (of_nat ?b))
      (map of_nat [0..<?m]) = Inr ws'" by (rule mapE_total)
  then show ?thesis unfolding gemm_block_def Let_def prod.case c' bindE_Inr range by auto
qed

lemma gemm_grid_total:
  assumes P: "gemm_sized P ws"
  shows "\<exists>gr. build_gemm_grid (of_nat (height P)) (of_nat (breadth P)) (of_nat (depth P)) (of_nat (pr_tile P)) (of_nat ws) = Inr gr"
proof -
  let ?T = "pr_tile P"
  note bd = gemm_sized_bounds[OF P]
  have s: "0 < ?T" "?T < 2147483648" "height P < 2147483648" "breadth P < 2147483648" "depth P < 2147483648" "?T * ?T < 2147483648"
    using bd P by (simp_all add: int_sized_def gemm_sized_def) (use bd(3,4) in linarith)
  have d: "height P div ?T = pr_down P" "breadth P div ?T = pr_across P" using s(1) by (simp_all add: height_def breadth_def)
  have c: "c_div (of_nat (breadth P)) (of_nat ?T) = Inr (of_nat (breadth P div ?T))" "c_div (of_nat (height P)) (of_nat ?T) = Inr (of_nat (height P div ?T))"
    "c_mul (of_nat ?T) (of_nat ?T) = Inr (of_nat (?T * ?T))"
    "c_mul (of_nat (height P)) (of_nat (depth P)) = Inr (of_nat (height P * depth P))"
    "c_mul (of_nat (height P * depth P)) (of_nat 4) = Inr (of_nat (height P * depth P * 4))"
    "c_mul (of_nat (depth P)) (of_nat (breadth P)) = Inr (of_nat (depth P * breadth P))"
    "c_mul (of_nat (depth P * breadth P)) (of_nat 4) = Inr (of_nat (depth P * breadth P * 4))"
    "c_add (of_nat (height P * depth P * 4)) (of_nat (depth P * breadth P * 4)) = Inr (of_nat (height P * depth P * 4 + depth P * breadth P * 4))"
    using s bd(2) by - (rule mul_small add_small div_small; linarith)+
  note c' = c[unfolded d of_nat_numeral]
  have "pr_across P \<le> breadth P" "pr_down P \<le> height P" using s(1) by (simp_all add: breadth_def height_def)
  then have small: "pr_across P < 2 ^ 31" "pr_down P < 2 ^ 31" using s(3,4) by simp_all
  have "\<exists>bs. mapE (gemm_block (of_nat (height P)) (of_nat (breadth P)) (of_nat (depth P)) (of_nat ?T) (of_nat ws) (of_nat (?T * ?T)) (of_nat (pr_across P)))
      (map (\<lambda>(y, x). (of_nat y, of_nat x)) (List.product [0..<pr_down P] [0..<pr_across P])) = Inr bs"
    by (rule mapE_total) (use gemm_block_total[OF P] in auto)
  then show ?thesis
    unfolding build_gemm_grid_def gemm_bases_def c' bindE_Inr int_range_nat[OF small(1)] int_range_nat[OF small(2)] product_maps by auto
qed

section \<open>The CPU's result\<close>

lemma foldE_same:
  assumes "foldE f s xs = Inr r" and "\<And>s x y. x \<in> set xs \<Longrightarrow> f s x = Inr y \<Longrightarrow> g s x = Inr y"
  shows "foldE g s xs = Inr r"
  using assms by (induction xs arbitrary: s) fastforce+

lemma cpu_gemm_entry:
  assumes "cpu_gemm A B M N K = Inr C" and "i < M" and "j < N"
  shows "dot_product A B N K i j = Inr (C ! (i * N + j))"
proof -
  have m: "mapE (\<lambda>(row, col). dot_product A B N K row col) (List.product [0..<M] [0..<N]) = Inr C" using assms(1) by (simp add: cpu_gemm_def)
  let ?x = "i * N + j"
  have x: "?x < M * N" "?x div N = i" "?x mod N = j"
    by (rule index_less[OF assms(2,3)], rule index_div[OF assms(3)], rule index_mod[OF assms(3)])
  then have "List.product [0..<M] [0..<N] ! ?x = (i, j)" using assms(2,3) by (subst product_nth) simp_all
  then show ?thesis using mapE_nth[OF m, of ?x] x(1) by simp
qed

text \<open>The two ways to say what an entry of the product is.\<close>

lemma cpu_gemm_dot:
  assumes len: "length (pr_A P) = height P * depth P" "length (pr_B P) = depth P * breadth P"
    and cpu: "cpu_gemm (pr_A P) (pr_B P) (height P) (breadth P) (depth P) = Inr C"
  shows "length C = height P * breadth P" and "i < height P \<Longrightarrow> j < breadth P \<Longrightarrow> partial_dot P i j (depth P) = Inr (C ! (i * breadth P + j))"
proof -
  show "length C = height P * breadth P" using mapE_length[of _ _ C] cpu by (fastforce simp: cpu_gemm_def)
  show "partial_dot P i j (depth P) = Inr (C ! (i * breadth P + j))" if "i < height P" and "j < breadth P"
    using cpu_gemm_entry[OF cpu that] unfolding partial_dot_def dot_product_def
    by (rule foldE_same) (auto simp: vec_at_def elem_A_def elem_B_def split: if_splits)
qed

text \<open>In integers, since no step of the CPU overflowed.\<close>

lemma dot_product_sum:
  assumes "dot_product A B N K i j = Inr s"
  shows "sint s = (\<Sum>k<K. sint (A ! (i * K + k)) * sint (B ! (k * N + j)))"
proof -
  have "foldE (\<lambda>sum k. bindE (vec_at A (i * K + k)) (\<lambda>a. bindE (vec_at B (k * N + j)) (\<lambda>b. bindE (c_mul a b) (c_add sum)))) 0 [0..<n] = Inr s \<Longrightarrow>
      sint s = (\<Sum>k<n. sint (A ! (i * K + k)) * sint (B ! (k * N + j)))" for n
  proof (induction n arbitrary: s)
    case (Suc n)
    then obtain s0 p where "foldE (\<lambda>sum k. bindE (vec_at A (i * K + k)) (\<lambda>a. bindE (vec_at B (k * N + j)) (\<lambda>b. bindE (c_mul a b) (c_add sum)))) 0 [0..<n] = Inr s0"
      "c_mul (A ! (i * K + n)) (B ! (n * N + j)) = Inr p" "c_add s0 p = Inr s"
      by (auto simp: foldE_append vec_at_def split: if_splits)
    moreover from this(2,3) have "sint p = sint (A ! (i * K + n)) * sint (B ! (n * N + j))" "sint s = sint s0 + sint p"
      unfolding c_mul_def c_add_def by - (erule checked_int_sint)+
    ultimately show ?case using Suc.IH by simp
  qed simp
  then show ?thesis using assms by (simp add: dot_product_def)
qed

text \<open>Matrices of small values.\<close>

lemma gemm_values_at: "i < n \<Longrightarrow> gemm_values p n ! i = of_nat (i mod p + 1)" and gemm_values_length [simp]: "length (gemm_values p n) = n"
  by (simp_all add: gemm_values_def)

lemma dot_values:
  assumes "K \<le> 1000000" and "i < M" and "j < N"
  shows "\<exists>v. dot_product (gemm_values 5 (M * K)) (gemm_values 7 (K * N)) N K i j = Inr v"
proof -
  let ?Q = "\<lambda>k (s :: c_int). \<exists>x. s = of_nat x \<and> x \<le> 35 * k"
  have "\<exists>s. dot_product (gemm_values 5 (M * K)) (gemm_values 7 (K * N)) N K i j = Inr s \<and> ?Q K s"
    unfolding dot_product_def
  proof (rule foldE_upt)
    fix k s assume "k < K" and "?Q k s"
    then obtain x where k: "k < K" and x: "s = of_nat x" "x \<le> 35 * k" by blast
    let ?a = "(i * K + k) mod 5 + 1" and ?b = "(k * N + j) mod 7 + 1"
    have e: "[0..<K] ! k = k" using k by simp
    have ab: "?a \<le> 5" "?b \<le> 7" by (simp_all add: Suc_le_eq)
    then have p: "?a * ?b \<le> 35" using mult_le_mono[OF ab] by simp
    have "i * K + k < M * K" "k * N + j < K * N" by (rule index_less[OF assms(2) k], rule index_less[OF k assms(3)])
    then have v: "vec_at (gemm_values 5 (M * K)) (i * K + k) = Inr (of_nat ?a)" "vec_at (gemm_values 7 (K * N)) (k * N + j) = Inr (of_nat ?b)"
      by (simp_all add: vec_at_def gemm_values_at)
    have "c_mul (of_nat ?a) (of_nat ?b) = Inr (of_nat (?a * ?b))" using ab p by (intro mul_small; linarith)
    moreover have "c_add (of_nat x) (of_nat (?a * ?b)) = Inr (of_nat (x + ?a * ?b))" using x(2) p k assms(1) by (intro add_small) linarith
    ultimately show "\<exists>s'. bindE (vec_at (gemm_values 5 (M * K)) (i * K + [0..<K] ! k)) (\<lambda>a. bindE (vec_at (gemm_values 7 (K * N)) ([0..<K] ! k * N + j)) (\<lambda>b.
        bindE (c_mul a b) (c_add s))) = Inr s' \<and> ?Q (Suc k) s'"
      unfolding e v bindE_Inr x(1) using x(2) p by (intro exI[of _ "of_nat (x + ?a * ?b)"]) (auto intro!: exI[of _ "x + ?a * ?b"])
  qed (intro exI[of _ 0], simp)
  then show ?thesis by blast
qed

lemma cpu_gemm_total:
  assumes "K \<le> 1000000"
  shows "\<exists>C. cpu_gemm (gemm_values 5 (M * K)) (gemm_values 7 (K * N)) M N K = Inr C"
  unfolding cpu_gemm_def by (rule mapE_total) (use dot_values[OF assms] in auto)

text \<open>The run in terms of the sizes and the contents of the memory alone.\<close>

lemma gemm_product:
  assumes fresh: "fresh_gpu c g" and T: "0 < T" "T dvd M" "T dvd N" "T dvd K" and pos: "0 < M" "0 < N" "0 < K"
    and k: "generate_gemm_kernel (of_nat M) (of_nat N) (of_nat K) (of_nat T) = Inr k"
    and gr: "build_gemm_grid (of_nat M) (of_nat N) (of_nat K) (of_nat T) (of_nat ws) = Inr gr"
    and ws: "0 < ws" "ws \<le> 32" and ft: "block_fits c req (T * T) ws" and cap: "8 * (M * N) \<le> cfg_max_shared_memory_per_sm c"
    and room: "4 * (M * K + K * N + M * N) \<le> min SHARED_MEM_BASE (length (gm_data m))"
    and len: "length A = M * K" "length B = K * N"
    and A: "\<forall>i < M * K. gm_load m (4 * i) = Inr (A ! i)" and B: "\<forall>i < K * N. gm_load m (4 * (M * K) + 4 * i) = Inr (B ! i)"
    and cpu: "cpu_gemm A B M N K = Inr C"
  shows "\<exists>g'. run_kernel (g\<lparr>gpu_global_memory := m\<rparr>) k gr c req = Some (Inr g') \<and>
    (\<forall>i < M. \<forall>j < N. gm_load (gpu_global_memory g') (4 * (M * K + K * N) + 4 * (i * N + j)) = Inr (C ! (i * N + j)) \<and>
       sint (C ! (i * N + j)) = (\<Sum>l<K. sint (A ! (i * K + l)) * sint (B ! (l * N + j)))) \<and>
    (\<forall>a < SHARED_MEM_BASE. (\<forall>x < M * N. a \<noteq> 4 * (M * K + K * N) + 4 * x) \<longrightarrow> gm_load (gpu_global_memory g') a = gm_load m a)"
proof -
  define P where "P = \<lparr>pr_tile = T, pr_across = N div T, pr_down = M div T, pr_more = K div T - 1, pr_A = A, pr_B = B\<rparr>"
  have q: "0 < M div T" "0 < N div T" "0 < K div T" using T pos by (simp_all add: div_greater_zero_iff dvd_imp_le)
  then have d: "height P = M" "breadth P = N" "depth P = K" "pr_tile P = T" "pr_A P = A" "pr_B P = B"
    using T by (simp_all add: P_def height_def breadth_def depth_def)
  have at: "at_B P = M * K * 4" "at_C P = M * K * 4 + K * N * 4" by (simp_all add: at_B_def at_C_def d)
  have z: "4 * (M * K + K * N + M * N) \<le> SHARED_MEM_BASE" "4 * (M * K + K * N + M * N) \<le> length (gm_data m)" using room by simp_all
  have size: "gemm_sized P ws" unfolding gemm_sized_def at d using T(1) q ws z(1) by (simp add: P_def)
  note dots = cpu_gemm_dot[of P, unfolded d, OF len cpu]
  have ok: "gemm_ok P" unfolding gemm_ok_def at d using T(1) len z(1) dots(2) by auto
  have st: "gemm_stored_in P m" unfolding gemm_stored_in_def at d using A B z(2) by (simp add: mult.commute)
  from gemm_run[OF fresh gemm_sized_bounds(1)[OF size] ok st, unfolded d at, OF k gr ft] cap
  obtain g' where g': "run_kernel (g\<lparr>gpu_global_memory := m\<rparr>) k gr c req = Some (Inr g')"
    "\<forall>i < M. \<forall>j < N. gm_load (gpu_global_memory g') (M * K * 4 + K * N * 4 + (i * N + j) * 4) = Inr (dot P i j K)"
    "\<forall>a < SHARED_MEM_BASE. (\<forall>x < M * N. a \<noteq> M * K * 4 + K * N * 4 + x * 4) \<longrightarrow> gm_load (gpu_global_memory g') a = gm_load m a"
    by (auto simp: mult.commute)
  have cell: "4 * (M * K + K * N) + 4 * x = M * K * 4 + K * N * 4 + x * 4" for x by simp
  have "gm_load (gpu_global_memory g') (4 * (M * K + K * N) + 4 * (i * N + j)) = Inr (C ! (i * N + j)) \<and>
       sint (C ! (i * N + j)) = (\<Sum>l<K. sint (A ! (i * K + l)) * sint (B ! (l * N + j)))" if i: "i < M" and j: "j < N" for i j
    unfolding cell using g'(2) dots(2)[OF i j] cpu_gemm_entry[OF cpu i j] i j by (simp add: dot_def dot_product_sum)
  with g'(1,3) show ?thesis unfolding cell by blast
qed

section \<open>The driver\<close>

lemma store_values_total:
  assumes "base + length vals * 4 \<le> length (gm_data gm)"
  shows "\<exists>gm'. store_values base vals gm = Inr gm' \<and> length (gm_data gm') = length (gm_data gm) \<and>
    (\<forall>i < length vals. gm_load gm' (base + i * 4) = Inr (vals ! i)) \<and> (\<forall>a < base. gm_load gm' a = gm_load gm a)"
proof -
  let ?P = "\<lambda>i m. length (gm_data m) = length (gm_data gm) \<and> (\<forall>j < i. gm_load m (base + j * 4) = Inr (vals ! j)) \<and>
    (\<forall>a < base. gm_load m a = gm_load gm a)"
  have "\<exists>gm'. foldE (\<lambda>gm (i, v). gm_store gm (base + i * 4) v) gm (enumerate 0 vals) = Inr gm' \<and> ?P (length (enumerate 0 vals)) gm'"
  proof (rule foldE_index[where P = ?P])
    fix i m assume i: "i < length (enumerate 0 vals)" and m: "?P i m"
    obtain m1 where m1: "gm_store m (base + i * 4) (vals ! i) = Inr m1" "length (gm_data m1) = length (gm_data m)"
      "\<forall>b. gm_load m1 b = (if b = base + i * 4 then Inr (vals ! i) else gm_load m b)"
      using store_ok[of "base + i * 4" m "vals ! i"] i m assms by auto
    then have "?P (Suc i) m1" using m by (auto simp: less_Suc_eq)
    moreover have "enumerate 0 vals ! i = (i, vals ! i)" using i by (simp add: nth_enumerate_eq)
    ultimately show "\<exists>s'. (case enumerate 0 vals ! i of (i, v) \<Rightarrow> gm_store m (base + i * 4) v) = Inr s' \<and> ?P (Suc i) s'"
      using m1(1) by auto
  qed simp
  then show ?thesis by (simp add: store_values_def)
qed

lemma gemm_check_true:
  assumes len: "length C = M * N" and sz: "M * N * 4 < 2147483648" "base < 2 ^ 32"
    and eq: "\<forall>i < M. \<forall>j < N. gm_load gm (base + (i * N + j) * 4) = Inr (C ! (i * N + j))"
  shows "gemm_check base C M N gm = Inr [Gemm_checked True]"
proof -
  let ?f = "\<lambda>(row, col). bindE (c_mul (of_nat (row * N + col)) 4) (\<lambda>offset. bindE (gm_load gm (size_add_int base offset)) (\<lambda>gpu_val.
    bindE (vec_at C (row * N + col)) (\<lambda>cpu_val. Inr (if gpu_val \<noteq> cpu_val then [Gemm_mismatch row col gpu_val cpu_val] else []))))"
  have one: "?f p = Inr []" if pin: "p \<in> set (List.product [0..<M] [0..<N])" for p
  proof -
    obtain i j where p: "p = (i, j)" "i < M" "j < N" using pin by auto
    have x: "i * N + j < M * N" by (rule index_less[OF p(2,3)])
    have lim: "(i * N + j) * 4 < 2147483648" using mult_less_mono1[OF x, of 4] sz(1) by simp
    then have "c_mul (of_nat (i * N + j)) (of_nat 4) = Inr (of_nat ((i * N + j) * 4))" by - (rule mul_small; simp)
    then have "c_mul (of_nat (i * N + j)) 4 = Inr (of_nat ((i * N + j) * 4))" by (simp only: of_nat_numeral)
    moreover have "(i * N + j) * 4 < 2 ^ 31" using lim by simp
    then have "size_add_int base (of_nat ((i * N + j) * 4)) = base + (i * N + j) * 4"
      using sz(2) by (subst size_add_int_exact) (simp_all add: sint_of_nat del: of_nat_mult of_nat_add)
    ultimately show ?thesis using eq p x len by (simp add: vec_at_def)
  qed
  have "mapE ?f (List.product [0..<M] [0..<N]) = Inr (map (\<lambda>_. []) (List.product [0..<M] [0..<N]))"
    by (rule mapE_Inr_map) (rule one)
  then show ?thesis by (simp add: gemm_check_def)
qed

lemma gemm_driver:
  assumes "random_range rng" and "new_gpu rng c = Inr g" and "0 < cfg_num_sms c"
    and "cfg_scheduler_policy c \<in> {''RR'', ''Greedy'', ''OldestFirst'', ''GTO''}"
    and P: "gemm_sized P (cfg_warp_size c)" and AB: "pr_A P = gemm_values 5 (height P * depth P)" "pr_B P = gemm_values 7 (depth P * breadth P)"
    and K: "depth P \<le> 1000000" and ft: "block_fits c (requirements 32 (pr_tile P * pr_tile P * 2 * 4)) (pr_tile P * pr_tile P) (cfg_warp_size c)"
    and cap: "height P * breadth P * 8 \<le> cfg_max_shared_memory_per_sm c" and mem: "at_C P + height P * breadth P * 4 \<le> cfg_global_memory_size c"
    and bs: "0 < cfg_block_size c" "cfg_block_size c < 2 ^ 63"
  shows "\<exists>row. run_gemm_benchmark rng traced name c (of_nat (height P)) (of_nat (breadth P)) (of_nat (depth P)) (of_nat (pr_tile P)) st =
    Some (Inr (write_csv name gemm_header row (say [Gemm_checked True] st)))"
proof -
  let ?M = "height P" and ?N = "breadth P" and ?K = "depth P" and ?T = "pr_tile P" and ?ws = "cfg_warp_size c"
  note bd = gemm_sized_bounds[OF P]
  have s: "0 < ?T" "?T < 2147483648" "?M < 2147483648" "?N < 2147483648" "?K < 2147483648" "?T * ?T * 2 * 4 < 2147483648" "0 < ?ws"
    using bd(1,3,4) by (simp_all add: int_sized_def) (use bd(3,4) in linarith)
  have z: "at_C P + ?M * ?N * 4 \<le> 268435456" using P by (simp add: gemm_sized_def SHARED_MEM_BASE_def)
  obtain g0 where g0: "start_gpu rng c traced = Inr g0" "fresh_gpu c g0" "gpu_global_memory g0 = new_global_memory (cfg_global_memory_size c)"
    using start_gpu_fresh[OF assms(1-4)] by blast
  have len0: "at_C P + ?M * ?N * 4 \<le> length (gm_data (gpu_global_memory g0))" using mem by (simp add: g0(3) new_memory_length)
  obtain m1 where m1: "store_values 0 (pr_A P) (gpu_global_memory g0) = Inr m1" "length (gm_data m1) = length (gm_data (gpu_global_memory g0))"
    "\<forall>i < ?M * ?K. gm_load m1 (i * 4) = Inr (pr_A P ! i)"
    using store_values_total[of 0 "pr_A P" "gpu_global_memory g0"] len0 by (auto simp: AB at_C_def at_B_def)
  obtain m2 where m2: "store_values (at_B P) (pr_B P) m1 = Inr m2" "length (gm_data m2) = length (gm_data m1)"
    "\<forall>i < ?K * ?N. gm_load m2 (at_B P + i * 4) = Inr (pr_B P ! i)" "\<forall>a < at_B P. gm_load m2 a = gm_load m1 a"
    using store_values_total[of "at_B P" "pr_B P" m1] len0 m1(2) by (auto simp: AB at_C_def)
  obtain C where C: "cpu_gemm (pr_A P) (pr_B P) ?M ?N ?K = Inr C" using cpu_gemm_total[OF K] unfolding AB by blast
  have lens: "length (pr_A P) = ?M * ?K" "length (pr_B P) = ?K * ?N" by (simp_all add: AB)
  note cd = cpu_gemm_dot[OF lens C]
  have ok: "gemm_ok P" using s(1) lens P cd(2) by (simp add: gemm_ok_def gemm_sized_def)
  have st: "gemm_stored_in P m2"
    unfolding gemm_stored_in_def using len0 m1(2,3) m2(2-4) by (simp add: at_B_def)
  obtain k where k: "generate_gemm_kernel (of_nat ?M) (of_nat ?N) (of_nat ?K) (of_nat ?T) = Inr k" using gemm_kernel_total[OF P] by blast
  obtain gr where gr: "build_gemm_grid (of_nat ?M) (of_nat ?N) (of_nat ?K) (of_nat ?T) (of_nat ?ws) = Inr gr" using gemm_grid_total[OF P] by blast
  obtain g' where g': "run_kernel (g0\<lparr>gpu_global_memory := m2\<rparr>) k gr c (requirements 32 (?T * ?T * 2 * 4)) = Some (Inr g')"
    "\<forall>i < ?M. \<forall>j < ?N. gm_load (gpu_global_memory g') (at_C P + (i * ?N + j) * 4) = Inr (dot P i j ?K)"
    using gemm_run[OF g0(2) bd(1) ok st k gr ft cap] by blast
  have "\<forall>i < ?M. \<forall>j < ?N. gm_load (gpu_global_memory g') (at_C P + (i * ?N + j) * 4) = Inr (C ! (i * ?N + j))"
    using g'(2) cd(2) by (simp add: dot_def)
  moreover have "?M * ?N * 4 < 2147483648" "at_C P < 4294967296" using z by - (linarith+)
  ultimately have check: "gemm_check (at_C P) C ?M ?N (gpu_global_memory g') = Inr [Gemm_checked True]"
    by (intro gemm_check_true[OF cd(1)]) simp_all
  have ci: "c_mul (of_nat ?M) (of_nat ?K) = Inr (of_nat (?M * ?K))" "c_mul (of_nat (?M * ?K)) (of_nat 4) = Inr (of_nat (?M * ?K * 4))"
    "c_mul (of_nat ?K) (of_nat ?N) = Inr (of_nat (?K * ?N))" "c_mul (of_nat (?K * ?N)) (of_nat 4) = Inr (of_nat (?K * ?N * 4))"
    "c_mul (of_nat ?M) (of_nat ?N) = Inr (of_nat (?M * ?N))"
    "c_add (of_nat (?M * ?K * 4)) (of_nat (?K * ?N * 4)) = Inr (of_nat (?M * ?K * 4 + ?K * ?N * 4))"
    "c_mul (of_nat ?T) (of_nat ?T) = Inr (of_nat (?T * ?T))" "c_mul (of_nat (?T * ?T)) (of_nat 2) = Inr (of_nat (?T * ?T * 2))"
    "c_mul (of_nat 4) (of_nat (?T * ?T * 2)) = Inr (of_nat (4 * (?T * ?T * 2)))"
    using s bd(2,3) by - (rule mul_small add_small; linarith)+
  have small: "?M * ?K < 2147483648" "?K * ?N < 2147483648" "?M * ?N < 2147483648" "?M * ?K * 4 < 2147483648" "?M * ?K * 4 + ?K * ?N * 4 < 2147483648"
    using bd(2,3) by - (linarith+)
  have bases: "gemm_bases (of_nat ?M) (of_nat ?N) (of_nat ?K) = Inr (at_B P, at_C P)"
    unfolding gemm_bases_def ci(1-6)[unfolded of_nat_numeral] bindE_Inr at_C_def at_B_def using small
    by (simp add: size_nat del: of_nat_mult of_nat_add)
  have vs: "vector_size (of_nat x) = Inr x" if "x < 2147483648" for x using that sint_of_nat[of x] by (simp add: vector_size_def)
  have sz: "int_to_size (of_nat (4 * (?T * ?T * 2))) = ?T * ?T * 2 * 4" using size_nat[of "4 * (?T * ?T * 2)"] s(6) by simp
  have n: "nat (sint (of_nat x :: c_int)) = x" if "x < 2147483648" for x using that sint_of_nat[of x] by simp
  obtain occ where occ: "compute_occupancy c (requirements 32 (?T * ?T * 2 * 4)) = Inr occ"
    using compute_occupancy_total[of c] bs s(7) P by (auto simp: gemm_sized_def)
  note vec = vs[OF small(1)] vs[OF small(2)] vs[OF small(3)]
  have m1': "store_values 0 (gemm_values 5 (?M * ?K)) (gpu_global_memory g0) = Inr m1" using m1(1) by (simp only: AB)
  have m2': "store_values (at_B P) (gemm_values 7 (?K * ?N)) m1 = Inr m2" using m2(1) by (simp only: AB)
  have C': "cpu_gemm (gemm_values 5 (?M * ?K)) (gemm_values 7 (?K * ?N)) ?M ?N ?K = Inr C" using C by (simp only: AB)
  show ?thesis
    unfolding run_gemm_benchmark_def g0(1) bases ci(1,3,5,7) ci(8,9)[unfolded of_nat_numeral] bindE_Inr prod.case vec n[OF s(3)] n[OF s(4)] n[OF s(5)]
      m1' m2' C' k size_to_int_def gr sz occ
    using g'(1) by (simp add: bindO_def check Let_def) (rule exI, rule refl)
qed

end
