(* ===== verification/Benchmark_Properties.thy ===== *)
theory Benchmark_Properties
  imports Gemm_Runs Config
begin

text \<open>
  The program from its command: a configuration is loaded, the GPU is built, the memory is filled,
  the kernel runs and the result is compared with the CPU's.
\<close>

section \<open>Configurations that can run the suites\<close>

lemma buildable_updates [simp]:
  "buildable (enlarge_memory c) = buildable c" "buildable (c\<lparr>cfg_block_size := b\<rparr>) = buildable c"
  by (simp_all add: buildable_def enlarge_memory_def)

text \<open>
  The blocks of the four suites fit an SM, the regions of all blocks of a grid fit its shared memory,
  and the three matrices, which are stored in a memory of the configured size, fit it.
\<close>

definition suite_config :: "system_config \<Rightarrow> bool" where
  "suite_config c \<longleftrightarrow> buildable c \<and> 0 < cfg_warp_size c \<and> cfg_warp_size c \<le> 32 \<and> 0 < cfg_block_size c \<and> cfg_block_size c < 2 ^ 63 \<and>
     block_fits c (requirements 10 0) (cfg_block_size c) (cfg_warp_size c) \<and>
     block_fits c (requirements 32 1024) 256 (cfg_warp_size c) \<and> block_fits c (requirements 32 1024) 32 (cfg_warp_size c) \<and>
     block_fits c (requirements 32 2048) 256 (cfg_warp_size c) \<and>
     8192 \<le> cfg_max_shared_memory_per_sm c \<and> 12288 \<le> cfg_global_memory_size c"

lemma block_fits_size [simp]: "block_fits (c\<lparr>cfg_block_size := b\<rparr>) req bs ws = block_fits c req bs ws"
  by (simp add: block_fits_def)

section \<open>Drivers and suites\<close>

text \<open>A step that succeeds on every state and prints the messages among others.\<close>

definition prints :: "message list \<Rightarrow> (bench_state \<Rightarrow> bench_state result option) \<Rightarrow> bool" where
  "prints ms f \<longleftrightarrow> (\<forall>st. \<exists>st' ms'. f st = Some (Inr st') \<and> bs_messages st' = bs_messages st @ ms' \<and> set ms \<subseteq> set ms')"

lemma append_csv_messages [simp]: "bs_messages (append_csv name h row st) = bs_messages st"
  by (simp add: append_csv_def write_csv_def split: option.splits)

lemma prints_driver: "(\<And>st. \<exists>row ms'. f st = Some (Inr (append_csv name h row (say (ms @ ms') st)))) \<Longrightarrow> prints ms f"
  unfolding prints_def say_def by (metis append_csv_messages bench_state.select_convs(2) bench_state.surjective bench_state.update_convs(2)
      set_append sup_ge1)

lemma prints_mono: "prints ms f \<Longrightarrow> set ms' \<subseteq> set ms \<Longrightarrow> prints ms' f"
  unfolding prints_def by (meson subset_trans)

lemma prints_removing: "prints [] (removing name)"
  by (simp add: prints_def removing_def remove_csv_def)

lemma prints_seq: "list_all2 prints mss fs \<Longrightarrow> prints (concat mss) (seqO fs)"
proof (induction rule: list_all2_induct)
  case Nil
  then show ?case by (simp add: prints_def)
next
  case (Cons ms mss f fs)
  show ?case unfolding prints_def
  proof
    fix st
    obtain st1 m1 where 1: "f st = Some (Inr st1)" "bs_messages st1 = bs_messages st @ m1" "set ms \<subseteq> set m1"
      using Cons(1) unfolding prints_def by blast
    obtain st2 m2 where 2: "seqO fs st1 = Some (Inr st2)" "bs_messages st2 = bs_messages st1 @ m2" "set (concat mss) \<subseteq> set m2"
      using Cons.IH unfolding prints_def by blast
    show "\<exists>st' ms'. seqO (f # fs) st = Some (Inr st') \<and> bs_messages st' = bs_messages st @ ms' \<and> set (concat (ms # mss)) \<subseteq> set ms'"
      using 1 2 by (intro exI[of _ st2] exI[of _ "m1 @ m2"]) auto
  qed
qed

text \<open>What a suite needs of the configuration, for the block size it chooses.\<close>

lemma suite_gpu:
  assumes "suite_config c" and "c' = c\<lparr>cfg_block_size := bs\<rparr>"
  shows "\<exists>g. new_gpu rng (enlarge_memory c') = Inr g" and "0 < cfg_num_sms c'"
    and "cfg_scheduler_policy c' \<in> {''RR'', ''Greedy'', ''OldestFirst'', ''GTO''}" and "0 < cfg_warp_size c'" and "cfg_warp_size c' \<le> 32"
proof -
  have "buildable c'" using assms by (simp add: suite_config_def)
  then show "\<exists>g. new_gpu rng (enlarge_memory c') = Inr g" using new_gpu_total[of "enlarge_memory c'"] by simp
  show "0 < cfg_num_sms c'" "cfg_scheduler_policy c' \<in> {''RR'', ''Greedy'', ''OldestFirst'', ''GTO''}"
    using \<open>buildable c'\<close> unfolding buildable_def by blast+
  show "0 < cfg_warp_size c'" "cfg_warp_size c' \<le> 32" using assms by (simp_all add: suite_config_def)
qed

lemma memcpy_prints:
  assumes rng: "random_range rng" and c: "suite_config c"
  shows "prints [Passed ''contiguous'', Passed ''strided'', Passed ''random''] (seqO (memcpy_suite rng traced c))"
proof -
  have same: "c\<lparr>cfg_block_size := cfg_block_size c\<rparr> = c" by simp
  note s = suite_gpu[where bs = "cfg_block_size c", OF c refl, unfolded same]
  obtain g where g: "new_gpu rng (enlarge_memory c) = Inr g" using s(1) by blast
  have b: "0 < cfg_block_size c" "cfg_block_size c < 2 ^ 63" "block_fits c (requirements 10 0) (cfg_block_size c) (cfg_warp_size c)"
    using c by (simp_all add: suite_config_def)
  have co: "coprime (1024 :: nat) 101" by code_simp
  have d: "prints [Passed p] (run_memcpy_benchmark rng traced ''memcpy'' c 1024 p)" if p: "p \<in> {''contiguous'', ''strided'', ''random''}" for p
  proof (rule prints_driver)
    fix st
    have "(1024 :: nat) \<le> 3125" by simp
    from memcpy_driver[OF rng g s(2,3) b(1) s(4,5) b(2,3) p co this, of traced "''memcpy''" st]
    show "\<exists>row ms'. run_memcpy_benchmark rng traced ''memcpy'' c 1024 p st =
        Some (Inr (append_csv ''memcpy'' memcpy_header row (say ([Passed p] @ ms') st)))" by (metis append_Nil2)
  qed
  have "prints (concat [[], [Passed ''contiguous''], [Passed ''strided''], [Passed ''random'']]) (seqO (memcpy_suite rng traced c))"
    unfolding memcpy_suite_def by (rule prints_seq) (simp add: d prints_removing)
  then show ?thesis by simp
qed

lemma reduction_prints:
  assumes rng: "random_range rng" and c: "suite_config c"
  shows "prints [Passed ''reduction''] (seqO (reduction_suite rng traced c))"
proof -
  let ?c = "c\<lparr>cfg_block_size := 256\<rparr>"
  note s = suite_gpu[where bs = 256, OF c refl]
  obtain g where g: "new_gpu rng (enlarge_memory ?c) = Inr g" using s(1) by blast
  have b: "cfg_block_size ?c = 2 ^ 8" "(8 :: nat) \<le> 12" "block_fits ?c (requirements 32 (4 * 2 ^ 8)) (2 ^ 8) (cfg_warp_size ?c)"
    "4 = (1024 + 2 ^ 8 - 1) div (2 :: nat) ^ 8" "4 * (4 * 2 ^ 8) \<le> cfg_max_shared_memory_per_sm ?c" "4 * 1024 + 4 * 4 \<le> (10485760 :: nat)"
    using c by (simp_all add: suite_config_def)
  have "prints [Passed ''reduction''] (run_reduction_benchmark rng traced ''reduction'' ?c 1024)"
  proof (rule prints_driver)
    fix st
    from reduction_driver[OF rng g s(2,3) b(1,2) s(4,5) b(3-6), of traced "''reduction''" st]
    show "\<exists>row ms'. run_reduction_benchmark rng traced ''reduction'' ?c 1024 st =
        Some (Inr (append_csv ''reduction'' reduction_header row (say ([Passed ''reduction''] @ ms') st)))" by (metis append_Nil2)
  qed
  then have "prints (concat [[], [Passed ''reduction'']]) (seqO (reduction_suite rng traced c))"
    unfolding reduction_suite_def by (intro prints_seq) (simp add: prints_removing)
  then show ?thesis by simp
qed

lemma histogram_prints:
  assumes rng: "random_range rng" and c: "suite_config c"
  shows "prints [Passed ''uniform'', Passed ''skewed''] (seqO (histogram_suite rng traced c))"
proof -
  have d: "prints [Passed p] (run_histogram_benchmark rng traced name (c\<lparr>cfg_block_size := b\<rparr>) n 256 p)"
    if b: "b = 256 \<and> n = 2048 \<or> b = 32 \<and> n = 32" for p name b n
  proof (rule prints_driver)
    fix st
    let ?c = "c\<lparr>cfg_block_size := b\<rparr>"
    define nb where "nb = (n + cfg_block_size ?c - 1) div cfg_block_size ?c"
    note s = suite_gpu[where bs = b, OF c refl]
    obtain g where g: "new_gpu rng (enlarge_memory ?c) = Inr g" using s(1) by blast
    have h: "0 < cfg_block_size ?c" "block_fits ?c (requirements 32 (256 * 4)) (cfg_block_size ?c) (cfg_warp_size ?c)"
      "4 * (nb * 256) \<le> cfg_max_shared_memory_per_sm ?c" "4 * n + 4 * (nb * 256) \<le> 10485760" "256 + cfg_block_size ?c < 2 ^ 31"
      "(256 + cfg_block_size ?c - 1) div cfg_block_size ?c \<le> 8"
      using b c by (auto simp: suite_config_def nb_def)
    have full: "\<forall>k < nb. \<forall>j < 256. k * cfg_block_size ?c + j mod cfg_block_size ?c < n"
      using b
    proof (elim disjE conjE)
      assume e: "b = 256" "n = 2048"
      then have "nb = 8" by (simp add: nb_def)
      then show ?thesis using e by auto
    next
      assume e: "b = 32" "n = 32"
      then have "nb = 1" by (simp add: nb_def)
      then show ?thesis using e by auto
    qed
    from histogram_driver[OF rng g s(2,3) h(1) s(4,5) h(2) nb_def h(3,4) _ h(5,6) full, of traced name p st]
    show "\<exists>row ms'. run_histogram_benchmark rng traced name ?c n 256 p st =
        Some (Inr (append_csv name histogram_header row (say ([Passed p] @ ms') st)))" by simp
  qed
  have "prints (concat [[], [], [Passed ''uniform''], [Passed ''skewed''], [Passed ''uniform''], [Passed ''skewed'']])
      (seqO (histogram_suite rng traced c))"
    unfolding histogram_suite_def by (rule prints_seq) (simp add: d prints_removing)
  then show ?thesis by (rule prints_mono) simp
qed

lemma write_csv_messages [simp]: "bs_messages (write_csv name h row st) = bs_messages st"
  by (simp add: write_csv_def)

lemma gemm_prints:
  assumes rng: "random_range rng" and c: "suite_config c"
  shows "prints [Gemm_checked True] (seqO (gemm_suite rng traced c))"
proof -
  let ?c = "c\<lparr>cfg_block_size := 256\<rparr>"
  define P where "P = \<lparr>pr_tile = 16, pr_across = 2, pr_down = 2, pr_more = 1, pr_A = gemm_values 5 1024, pr_B = gemm_values 7 1024\<rparr>"
  have d: "height P = 32" "breadth P = 32" "depth P = 32" "pr_tile P = 16" "pr_A P = gemm_values 5 1024" "pr_B P = gemm_values 7 1024"
    "at_C P = 8192" by (simp_all add: P_def height_def breadth_def depth_def at_C_def at_B_def)
  have b: "buildable ?c" using c by (simp add: suite_config_def)
  obtain g where g: "new_gpu rng ?c = Inr g" using new_gpu_total[OF b] by blast
  have s: "0 < cfg_num_sms ?c" "cfg_scheduler_policy ?c \<in> {''RR'', ''Greedy'', ''OldestFirst'', ''GTO''}"
    using b unfolding buildable_def by blast+
  have size: "gemm_sized P (cfg_warp_size ?c)" unfolding gemm_sized_def d using c by (simp add: P_def suite_config_def SHARED_MEM_BASE_def)
  have f: "pr_A P = gemm_values 5 (height P * depth P)" "pr_B P = gemm_values 7 (depth P * breadth P)" "depth P \<le> 1000000"
    "block_fits ?c (requirements 32 (pr_tile P * pr_tile P * 2 * 4)) (pr_tile P * pr_tile P) (cfg_warp_size ?c)"
    "height P * breadth P * 8 \<le> cfg_max_shared_memory_per_sm ?c" "at_C P + height P * breadth P * 4 \<le> cfg_global_memory_size ?c"
    "0 < cfg_block_size ?c" "cfg_block_size ?c < 2 ^ 63"
    using c by (simp_all add: d suite_config_def)
  have "prints [Gemm_checked True] (run_gemm_benchmark rng traced ''matrix_multiply_32x32_tile16'' ?c 32 32 32 16)"
    unfolding prints_def
  proof
    fix st
    obtain row where "run_gemm_benchmark rng traced ''matrix_multiply_32x32_tile16'' ?c 32 32 32 16 st =
        Some (Inr (write_csv ''matrix_multiply_32x32_tile16'' gemm_header row (say [Gemm_checked True] st)))"
      using gemm_driver[OF rng g s size f, of traced "''matrix_multiply_32x32_tile16''" st] unfolding d of_nat_numeral by blast
    then show "\<exists>st' ms'. run_gemm_benchmark rng traced ''matrix_multiply_32x32_tile16'' ?c 32 32 32 16 st = Some (Inr st') \<and>
        bs_messages st' = bs_messages st @ ms' \<and> set [Gemm_checked True] \<subseteq> set ms'"
      by (auto simp: say_def)
  qed
  then have "prints (concat [[Gemm_checked True]]) (seqO (gemm_suite rng traced c))"
    unfolding gemm_suite_def by (intro prints_seq) simp
  then show ?thesis by simp
qed

section \<open>The program\<close>

text \<open>The messages of the checks that every suite makes.\<close>

definition expected_messages :: "string \<Rightarrow> message list" where
  "expected_messages b_type =
     (if b_type = ''memcpy'' then [Passed ''contiguous'', Passed ''strided'', Passed ''random'']
      else if b_type = ''reduction'' then [Passed ''reduction'']
      else if b_type = ''histogram'' then [Passed ''uniform'', Passed ''skewed'']
      else if b_type = ''matrix_multiply'' then [Gemm_checked True]
      else [])"

lemma selected_prints:
  assumes "random_range rng" and "suite_config c" and "b_type \<in> {''memcpy'', ''reduction'', ''histogram'', ''matrix_multiply''}"
  shows "prints (expected_messages b_type) (seqO (selected_suites rng traced b_type c))"
  using assms(3) memcpy_prints[OF assms(1,2)] reduction_prints[OF assms(1,2)] histogram_prints[OF assms(1,2)] gemm_prints[OF assms(1,2)]
  by (elim insertE emptyE) (simp_all add: expected_messages_def selected_suites_def Let_def)

text \<open>
  C6: The checks of the program pass. For every configuration file that describes GPUs with valid
  caches whose SMs hold a block of every suite, running the program for the memory copies, the
  reduction, the histograms or the matrix multiplication ends without an exception, after the CPU and the GPU have been found
  to agree on every result.
\<close>

theorem suite_checks_pass:
  assumes "random_range rng" and "load_config path doc = Inr c" and "suite_config c"
    and "b_type \<in> {''memcpy'', ''reduction'', ''histogram'', ''matrix_multiply''}"
    and "debug_mode \<longrightarrow> (\<exists>l. new_trace_logger can_open level trace_file = Inr l)"
  shows "\<exists>st' ms. run_benchmarks rng can_open path doc b_type debug_mode level trace_file st = Some (Inr st') \<and>
    bs_messages st' = bs_messages st @ ms \<and> set (expected_messages b_type) \<subseteq> set ms"
proof -
  have t: "(if debug_mode then bindE (new_trace_logger can_open level trace_file) (\<lambda>_. Inr True) else Inr False) = Inr debug_mode"
    using assms(5) by auto
  have "b_type \<in> set benchmark_names" using assms(4) by (auto simp: benchmark_names_def)
  then have "run_benchmarks rng can_open path doc b_type debug_mode level trace_file st = seqO (selected_suites rng debug_mode b_type c) st"
    unfolding run_benchmarks_def t assms(2) by simp
  with selected_prints[OF assms(1,3,4), of debug_mode] show ?thesis unfolding prints_def by metis
qed

text \<open>The configuration of an empty document, which is the one of \<^verbatim>\<open>configs/small_gpu.json\<close>.\<close>

theorem suite_checks_pass_witness:
  "\<exists>c st. load_config ''small_gpu.json'' (Some empty_document) = Inr c \<and>
    run_benchmarks (\<lambda>_ n. n - 1) (\<lambda>_. True) ''small_gpu.json'' (Some empty_document) ''matrix_multiply'' False 0 []
      \<lparr>bs_files = (\<lambda>_. None), bs_messages = []\<rparr> = Some (Inr st) \<and> Gemm_checked True \<in> set (bs_messages st)"
proof -
  have wrap: "int_to_size 4 = 4" "int_to_size 32 = 32" "int_to_size 128 = 128" "int_to_size 2048 = 2048" "int_to_size 65536 = 65536"
    by (simp_all add: int_to_size_def)
  obtain c where c: "load_config ''small_gpu.json'' (Some empty_document) = Inr c" "suite_config c"
    by (simp add: load_config_def load_occupancy_limits_def load_cache_hierarchy_def load_latencies_def int_value_def warps_default_def
        empty_document_def wrap suite_config_def buildable_def cache_ok_def block_fits_def requirements_def default_config_def)
  have "random_range (\<lambda>_ n. n - 1)" by (simp add: random_range_def)
  from suite_checks_pass[OF this c, of "''matrix_multiply''" False "\<lambda>_. True" 0 "[]" "\<lparr>bs_files = (\<lambda>_. None), bs_messages = []\<rparr>"]
  show ?thesis using c(1) by (auto simp: expected_messages_def)
qed

end
