(* ===== verification/Register_Kernels.thy ===== *)
theory Register_Kernels
  imports Map_Kernels Metrics
begin

text \<open>
  Kernels that only move, compare and load from fixed addresses: whatever the program, they are
  instances of \<open>map_kernel\<close> without a target, so they end and leave the global memory alone.
\<close>

definition safe_instruction :: "global_memory \<Rightarrow> instruction \<Rightarrow> bool" where
  "safe_instruction m i \<longleftrightarrow>
     (case inst_opcode i of
        MOV \<Rightarrow> register_ok (inst_dst i) \<and> (inst_src1 i = -1 \<or> register_ok (inst_src1 i))
      | CMP \<Rightarrow> register_ok (inst_src1 i) \<and> register_ok (inst_src2 i)
      | LOAD \<Rightarrow> inst_src1 i = -1 \<and> register_ok (inst_dst i) \<and>
          size_add_int 0 (inst_immediate i) < min SHARED_MEM_BASE (length (gm_data m))
      | _ \<Rightarrow> False)"

definition safe_program :: "global_memory \<Rightarrow> instruction list \<Rightarrow> bool" where
  "safe_program m prog \<longleftrightarrow> length prog < 2 ^ 63 \<and> list_all (safe_instruction m) prog"

text \<open>The program if it is safe, and no instruction otherwise.\<close>

definition checked_program :: "global_memory \<Rightarrow> instruction list \<Rightarrow> instruction list" where
  "checked_program m prog = (if safe_program m prog then prog else [])"

definition register_lane :: "global_memory \<Rightarrow> nat \<Rightarrow> thread \<Rightarrow> view \<Rightarrow> bool" where
  "register_lane m p t g \<longleftrightarrow> full_file t \<and> fills (\<lambda>_. None) (view_of m) g"

lemma full_file_read: "full_file t \<Longrightarrow> register_ok r \<Longrightarrow> \<exists>v. read_reg t r = Inr v"
  by (simp add: read_reg_def reg_read_def full_file_def register_ok_def)

lemma full_file_write:
  assumes "full_file t" and "register_ok r"
  shows "\<exists>t'. write_reg t r v = Inr t' \<and> full_file t'"
  using write_reg_full[OF assms(1) assms(2)[unfolded register_ok_def]] by blast

lemma safe_lane_step:
  assumes "safe_instruction m i" and full: "full_file t" and fl: "fills (\<lambda>_. None) (view_of m) g"
  shows "\<exists>t'. lane_step i g t = Inr (t', g) \<and> full_file t'"
proof (cases "inst_opcode i")
  case MOV
  then show ?thesis using assms(1) full_file_write[OF full] full_file_read[OF full]
    by (fastforce simp: safe_instruction_def lane_step_def lane_op_def mov_def)
next
  case CMP
  then obtain a b where "read_reg t (inst_src1 i) = Inr a" "read_reg t (inst_src2 i) = Inr b"
    using assms(1) full_file_read[OF full] by (fastforce simp: safe_instruction_def)
  then show ?thesis using CMP full by (simp add: lane_step_def lane_op_def cmp_def set_predicate_def full_file_def)
next
  case LOAD
  let ?a = "size_add_int 0 (inst_immediate i)"
  have a: "inst_src1 i = -1" "register_ok (inst_dst i)" "?a < SHARED_MEM_BASE" "?a < length (gm_data m)"
    using assms(1) LOAD by (simp_all add: safe_instruction_def)
  have "\<exists>v. view_of m ?a = Inr v" using a by (simp add: view_of_def gm_load_def)
  then obtain v where v: "g ?a = Inr v" using fills_mapped[OF fl] a(3) by blast
  obtain t' where "write_reg t (inst_dst i) v = Inr t'" "full_file t'" using full_file_write[OF full a(2)] by blast
  then show ?thesis using LOAD a(1) v by (simp add: lane_step_def lane_address_def)
qed (use assms(1) in \<open>auto simp: safe_instruction_def\<close>)

interpretation regk: map_kernel "checked_program m prog" "register_lane m" "\<lambda>_. None" N bs
  for m :: global_memory and prog :: "instruction list" and N bs :: nat
proof
  have safe: "safe_instruction m (checked_program m prog ! p)" if "p < length (checked_program m prog)" for p
    using that by (auto simp: checked_program_def safe_program_def list_all_length split: if_splits)
  show "length (checked_program m prog) < 2 ^ 63" by (simp add: checked_program_def safe_program_def)
  show "lanewise_opcode (inst_opcode i)" if "i \<in> set (checked_program m prog)" for i
  proof -
    have "safe_instruction m i" using that by (auto simp: checked_program_def safe_program_def list_all_iff split: if_splits)
    then show ?thesis by (cases "inst_opcode i") (simp_all add: safe_instruction_def lanewise_opcode_def)
  qed
  show "register_lane m p t g \<Longrightarrow> register_lane m p (set_pc t q) g" for p t g q
    by (simp add: register_lane_def full_file_def set_pc_def)
  show "register_lane m p t g \<Longrightarrow> fills (\<lambda>_. None) g g' \<Longrightarrow> register_lane m p t g'" for p t g g'
    using change_trans[of _ _ "view_of m" g g'] by (auto simp: register_lane_def)
  show "\<exists>t' g'. lane_step (checked_program m prog ! p) g t = Inr (t', g') \<and> register_lane m (p + 1) t' g' \<and>
        change (\<lambda>_. None) (\<lambda>_. False) g g'"
    if l: "register_lane m p t g" and p: "p < length (checked_program m prog)" for p t g
    using safe_lane_step[OF safe[OF p]] l change_refl unfolding register_lane_def by blast
  show "a < SHARED_MEM_BASE" if "p < length (checked_program m prog)" "inst_opcode (checked_program m prog ! p) \<in> {LOAD, STORE, ATOMIC_ADD}"
    "touched (checked_program m prog ! p) t = Inr a" for p t a
    using safe[OF that(1)] that(2,3) by (auto simp: safe_instruction_def touched_def lane_address_def)
qed

end
