(* ===== verification/Kernel_Properties.thy ===== *)
theory Kernel_Properties
  imports Gemm_Runs Register_Kernels Example_GPU
begin

text \<open>
  The properties of whole benchmark runs, from the generator of the kernel and the builder of the
  grid through the launch and the cycle loop to the words in the global memory.
\<close>

text \<open>
  C1: The vector-add benchmark computes the sums. On every GPU the constructor builds, with any of
  the six policies (for \<open>TwoLevel\<close>, with a place in its active set), and with any contents \<open>m\<close> of the
  global memory for which no written word is one of the elements at 0 and 10000 and no sum
  overflows, a grid whose blocks fit an SM is launched, the cycle loop ends without an exception,
  and afterwards every element at 20000 is the exact sum of the elements at 0 and 10000, and no
  other word has changed, however the warps were interleaved.
\<close>

theorem vector_add_computes:
  assumes "random_range rng" and "new_gpu rng c = Inr g" and "0 < cfg_num_sms c"
    and "cfg_scheduler_policy c = ''Priority'' \<longrightarrow> bs \<le> 2 ^ 31"
    and "cfg_scheduler_policy c = ''TwoLevel'' \<longrightarrow> 0 < cfg_active_set_size c"
    and "generate_vector_add_kernel iters = Inr k" and "build_benchmark_grid N bs ws strided = Inr gr"
    and "0 < bs" and "0 < ws" and "ws \<le> 32" and "bs + ws < 2 ^ 64" and "N + bs < 2 ^ 64" and "block_fits c req bs ws"
    and "s = (if strided then 32 else 4)" and "vadd_input N s (nat (sint iters)) m"
  shows "\<exists>g'. run_kernel (g\<lparr>gpu_global_memory := m\<rparr>) k gr c req = Some (Inr g') \<and>
    (\<forall>t < N. \<forall>i < nat (sint iters). \<exists>a b v. let x = t * s + 4 * i
       in gm_load m x = Inr a \<and> gm_load m (10000 + x) = Inr b \<and>
          gm_load (gpu_global_memory g') (20000 + x) = Inr v \<and> sint v = sint a + sint b) \<and>
    (\<forall>a < SHARED_MEM_BASE. \<not> (20000 \<le> a \<and> vadd_element N s (nat (sint iters)) (a - 20000)) \<longrightarrow>
       gm_load (gpu_global_memory g') a = gm_load m a)"
proof -
  have "cfg_scheduler_policy c = ''Priority'' \<longrightarrow> bs \<le> 2 ^ 31 \<and> prioritised \<in> {prioritised, \<lambda>w. w}" using assms(4) by simp
  from new_gpu_ready[OF assms(1-3) this assms(5) assms(7)[unfolded build_benchmark_grid_def] assms(8,9,11,12)]
  show ?thesis by (rule vector_add_run) (rule assms)+
qed

text \<open>Two threads of the small GPU on vectors of ones.\<close>

definition ex_ones :: global_memory where
  "ex_ones = \<lparr>gm_data = replicate 30000 1\<rparr>"

lemma ex_vadd_input: "vadd_input 2 4 1 ex_ones"
proof -
  have "word_of ex_ones a = 1" if "a < 30000" for a
    using that by (simp add: word_of_def gm_load_def ex_ones_def)
  then show ?thesis by (auto simp: vadd_input_def vadd_element_def Let_def ex_ones_def less_2_cases_iff SHARED_MEM_BASE_def)
qed

theorem vector_add_computes_witness:
  "\<exists>g k gr g' v. new_gpu ex_rng ex_config = Inr g \<and> generate_vector_add_kernel 1 = Inr k \<and>
    build_benchmark_grid 2 2 1 False = Inr gr \<and> run_kernel (g\<lparr>gpu_global_memory := ex_ones\<rparr>) k gr ex_config ex_req = Some (Inr g') \<and>
    gm_load (gpu_global_memory g') 20004 = Inr v \<and> sint v = 2"
proof -
  obtain l1 l2 p where "launched = Inr (two_warps l1 l2 p)" using launched_eq by blast
  then obtain g where g: "new_gpu ex_rng ex_config = Inr g" by (auto simp: launched_def)
  obtain k where k: "generate_vector_add_kernel 1 = Inr k"
    by (simp add: generate_vector_add_kernel_def int_range_def vector_add_body_def c_mul_def checked_int_def)
  obtain gr where gr: "build_benchmark_grid 2 2 1 False = Inr gr"
    using make_grid_total[of "benchmark_init False" 1 2] unfolding build_benchmark_grid_def
    by (auto simp: good_registers_def benchmark_init_def)
  have h: "0 < cfg_num_sms ex_config" "cfg_scheduler_policy ex_config = ''Priority'' \<longrightarrow> 2 \<le> (2 :: nat) ^ 31"
    "cfg_scheduler_policy ex_config = ''TwoLevel'' \<longrightarrow> 0 < cfg_active_set_size ex_config"
    "block_fits ex_config ex_req 2 1"
    by (simp_all add: block_fits_def ex_config_def default_config_def ex_req_def)
  have n: "0 < (2 :: nat)" "0 < (1 :: nat)" "(1 :: nat) \<le> 32" "2 + 1 < (2 :: nat) ^ 64" "2 + 2 < (2 :: nat) ^ 64"
    "4 = (if False then 32 else 4 :: nat)" by simp_all
  have inp: "vadd_input 2 4 (nat (sint (1 :: c_int))) ex_ones" using ex_vadd_input by simp
  obtain g' where r: "run_kernel (g\<lparr>gpu_global_memory := ex_ones\<rparr>) k gr ex_config ex_req = Some (Inr g')"
    "\<forall>t < 2. \<forall>i < nat (sint (1 :: c_int)). \<exists>a b v. let x = t * 4 + 4 * i
       in gm_load ex_ones x = Inr a \<and> gm_load ex_ones (10000 + x) = Inr b \<and>
          gm_load (gpu_global_memory g') (20000 + x) = Inr v \<and> sint v = sint a + sint b"
    using vector_add_computes[OF ex_rng_range g h(1,2,3) k gr n(1,2,3,4,5) h(4) n(6) inp] by blast
  obtain a b v where "gm_load ex_ones 4 = Inr a" "gm_load ex_ones 10004 = Inr b"
    "gm_load (gpu_global_memory g') 20004 = Inr v" "sint v = sint a + sint b"
    using r(2)[rule_format, of 1 0] by (auto simp: Let_def)
  moreover have "gm_load ex_ones 4 = Inr 1" "gm_load ex_ones 10004 = Inr 1" by (simp_all add: gm_load_def ex_ones_def)
  ultimately show ?thesis using g k gr r(1) by auto
qed

text \<open>
  C2: The reduction benchmark computes the sum of every block. For blocks of a power of two and
  any contents \<open>m\<close> of the global memory without an overflow in a block, a grid whose blocks fit
  an SM is launched, the cycle loop ends without an exception, and afterwards the output word of
  every block is the exact sum of the elements of its threads, the last block included when it is
  not full, and no other word has changed: whatever the scheduler interleaves, the barriers keep
  the rounds of a block apart, and the lanes that a round leaves out skip it and join again.
\<close>

theorem reduction_computes:
  assumes "random_range rng" and "new_gpu rng c = Inr g" and "0 < cfg_num_sms c"
    and "cfg_scheduler_policy c \<in> {''RR'', ''Greedy'', ''OldestFirst'', ''GTO''}"
    and "B = 2 ^ d" and "d \<le> 12" and "nb = (n + B - 1) div B"
    and "generate_reduction_kernel (size_to_int B) = Inr k" and "build_reduction_grid n B ws = Inr gr"
    and "0 < ws" and "ws \<le> 32" and "n + B < 2 ^ 64" and "block_fits c req B ws"
    and "4 * (nb * B) \<le> cfg_max_shared_memory_per_sm c" and "4 * n + 4 * nb \<le> min SHARED_MEM_BASE (length (gm_data m))"
    and "\<forall>b < nb. (\<Sum>i<B. \<bar>red_elem n m (b * B + i)\<bar>) < 2 ^ 31"
  shows "\<exists>g'. run_kernel (g\<lparr>gpu_global_memory := m\<rparr>) k gr c req = Some (Inr g') \<and>
    (\<forall>b < nb. \<exists>v. gm_load (gpu_global_memory g') (4 * n + 4 * b) = Inr v \<and>
       sint v = (\<Sum>i \<in> {b * B ..< min (b * B + B) n}. sint (word_of m (4 * i)))) \<and>
    (\<forall>a < SHARED_MEM_BASE. (\<forall>b < nb. a \<noteq> 4 * n + 4 * b) \<longrightarrow> gm_load (gpu_global_memory g') a = gm_load m a)"
  by (rule reduction_run[OF new_gpu_fresh[OF assms(1-4)] assms(5-16)])

text \<open>A block of two threads on ones.\<close>

theorem reduction_computes_witness:
  "\<exists>g k gr g' v. new_gpu ex_rng ex_config = Inr g \<and> generate_reduction_kernel (size_to_int 2) = Inr k \<and>
    build_reduction_grid 2 2 1 = Inr gr \<and> run_kernel (g\<lparr>gpu_global_memory := ex_ones\<rparr>) k gr ex_config ex_req = Some (Inr g') \<and>
    gm_load (gpu_global_memory g') 8 = Inr v \<and> sint v = 2"
proof -
  obtain l1 l2 p where "launched = Inr (two_warps l1 l2 p)" using launched_eq by blast
  then obtain g where g: "new_gpu ex_rng ex_config = Inr g" by (auto simp: launched_def)
  have "halvings (Suc 0) = [Suc 0]" by (simp add: halvings.simps[of "Suc 0"])
  note one = this
  obtain k where k: "generate_reduction_kernel (size_to_int 2) = Inr k"
    by (simp add: generate_reduction_kernel_def size_to_int_def c_div_def checked_int_def reduction_round_def c_mul_def
        signed_divide_int_def one)
  obtain gr where gr: "build_reduction_grid 2 2 1 = Inr gr"
    using make_grid_total[of "reduction_init 2 2" 1 2] unfolding build_reduction_grid_def
    using round_register[of 0] by (auto simp: good_registers_def reduction_init_def one)
  have h: "0 < cfg_num_sms ex_config" "cfg_scheduler_policy ex_config \<in> {''RR'', ''Greedy'', ''OldestFirst'', ''GTO''}"
    "block_fits ex_config ex_req 2 1" "4 * (1 * 2) \<le> cfg_max_shared_memory_per_sm ex_config"
    by (simp_all add: block_fits_def ex_config_def default_config_def ex_req_def)
  have n: "2 = (2 :: nat) ^ 1" "(1 :: nat) \<le> 12" "1 = (2 + 2 - 1) div (2 :: nat)" "0 < (1 :: nat)" "(1 :: nat) \<le> 32"
    "2 + 2 < (2 :: nat) ^ 64" "4 * 2 + 4 * 1 \<le> min SHARED_MEM_BASE (length (gm_data ex_ones))"
    by (simp_all add: SHARED_MEM_BASE_def ex_ones_def)
  have w: "word_of ex_ones a = 1" if "a < 30000" for a using that by (simp add: word_of_def gm_load_def ex_ones_def)
  then have s: "\<forall>b < (1 :: nat). (\<Sum>i<2. \<bar>red_elem 2 ex_ones (b * 2 + i)\<bar>) < 2 ^ 31"
    by (simp add: red_elem_def numeral_2_eq_2)
  obtain g' where r: "run_kernel (g\<lparr>gpu_global_memory := ex_ones\<rparr>) k gr ex_config ex_req = Some (Inr g')"
    "\<forall>b < 1. \<exists>v. gm_load (gpu_global_memory g') (4 * 2 + 4 * b) = Inr v \<and>
       sint v = (\<Sum>i \<in> {b * 2 ..< min (b * 2 + 2) 2}. sint (word_of ex_ones (4 * i)))"
    using reduction_computes[OF ex_rng_range g h(1,2) n(1,2,3) k gr n(4,5,6) h(3,4) n(7) s] by blast
  then obtain v where "gm_load (gpu_global_memory g') 8 = Inr v" "sint v = sint (word_of ex_ones 0) + sint (word_of ex_ones 4)"
    by (auto simp: numeral_2_eq_2)
  moreover have "sint (word_of ex_ones 0) + sint (word_of ex_ones 4) = 2" using w by simp
  ultimately show ?thesis using g k gr r(1) by auto
qed

text \<open>
  C3: The histogram benchmark counts. For any contents \<open>m\<close> of the global memory whose elements
  are numbers of bins, a grid whose blocks fit an SM is launched, the cycle loop ends without an
  exception, and afterwards the output words of every block hold the exact number of its elements
  in each bin, whatever the order in which the atomic additions of the warps reached the shared
  memory; no other word has changed. Bin \<open>j\<close> is copied by thread \<open>j mod B\<close> of the block, so in a
  last block with fewer threads some bins are counted and never reach the output.
\<close>

theorem histogram_computes:
  assumes "random_range rng" and "new_gpu rng c = Inr g" and "0 < cfg_num_sms c"
    and "cfg_scheduler_policy c \<in> {''RR'', ''Greedy'', ''OldestFirst'', ''GTO''}"
    and "generate_histogram_kernel (size_to_int K) (size_to_int B) = Inr k" and "build_histogram_grid n B ws K = Inr gr"
    and "0 < B" and "K + B < 2 ^ 31" and "0 < ws" and "ws \<le> 32" and "n + B < 2 ^ 64" and "block_fits c req B ws"
    and "nb = (n + B - 1) div B" and "4 * (nb * K) \<le> cfg_max_shared_memory_per_sm c"
    and "4 * n + 4 * (nb * K) \<le> min SHARED_MEM_BASE (length (gm_data m))"
    and "\<forall>i < n. \<exists>j < K. gm_load m (4 * i) = Inr (of_nat j)"
  shows "\<exists>g'. run_kernel (g\<lparr>gpu_global_memory := m\<rparr>) k gr c req = Some (Inr g') \<and>
    (\<forall>b < nb. \<forall>j < K. b * B + j mod B < n \<longrightarrow>
       (\<exists>v. gm_load (gpu_global_memory g') (4 * n + 4 * (b * K + j)) = Inr v \<and>
          sint v = int (card {i \<in> {b * B ..< min (b * B + B) n}. gm_load m (4 * i) = Inr (of_nat j)}))) \<and>
    (\<forall>a < SHARED_MEM_BASE. (\<forall>b < nb. \<forall>j < K. b * B + j mod B < n \<longrightarrow> a \<noteq> 4 * n + 4 * (b * K + j)) \<longrightarrow>
       gm_load (gpu_global_memory g') a = gm_load m a)"
  by (rule histogram_run[OF new_gpu_fresh[OF assms(1-4)] assms(5-16)])

text \<open>A block of two threads and two bins, on ones.\<close>

theorem histogram_computes_witness:
  "\<exists>g k gr g' v. new_gpu ex_rng ex_config = Inr g \<and> generate_histogram_kernel (size_to_int 2) (size_to_int 2) = Inr k \<and>
    build_histogram_grid 2 2 1 2 = Inr gr \<and> run_kernel (g\<lparr>gpu_global_memory := ex_ones\<rparr>) k gr ex_config ex_req = Some (Inr g') \<and>
    gm_load (gpu_global_memory g') 12 = Inr v \<and> sint v = 2"
proof -
  obtain l1 l2 p where "launched = Inr (two_warps l1 l2 p)" using launched_eq by blast
  then obtain g where g: "new_gpu ex_rng ex_config = Inr g" by (auto simp: launched_def)
  obtain k where k: "generate_histogram_kernel (size_to_int 2) (size_to_int 2) = Inr k"
    by (simp add: generate_histogram_kernel_def size_to_int_def c_add_def c_sub_def c_div_def c_mul_def checked_int_def
        signed_divide_int_def int_range_def histogram_zero_def histogram_output_def)
  obtain gr where gr: "build_histogram_grid 2 2 1 2 = Inr gr"
  proof -
    have "good_registers (histogram_init 2 2 2 b l i)" for b l i by (auto simp: good_registers_def histogram_init_def round_register)
    from make_grid_total[of "histogram_init 2 2 2" 1 2, OF this] that show thesis by (auto simp: build_histogram_grid_def)
  qed
  have h: "0 < cfg_num_sms ex_config" "cfg_scheduler_policy ex_config \<in> {''RR'', ''Greedy'', ''OldestFirst'', ''GTO''}"
    "block_fits ex_config ex_req 2 1" "4 * (1 * 2) \<le> cfg_max_shared_memory_per_sm ex_config"
    by (simp_all add: block_fits_def ex_config_def default_config_def ex_req_def)
  have n: "0 < (2 :: nat)" "2 + 2 < (2 :: nat) ^ 31" "0 < (1 :: nat)" "(1 :: nat) \<le> 32" "2 + 2 < (2 :: nat) ^ 64"
    "1 = (2 + 2 - 1) div (2 :: nat)" "4 * 2 + 4 * (1 * 2) \<le> min SHARED_MEM_BASE (length (gm_data ex_ones))"
    by (simp_all add: SHARED_MEM_BASE_def ex_ones_def)
  have w: "gm_load ex_ones a = Inr 1" if "a < 30000" for a using that by (simp add: gm_load_def ex_ones_def)
  then have e: "\<forall>i < 2. \<exists>j < 2. gm_load ex_ones (4 * i) = Inr (of_nat j)" by (intro allI impI exI[of _ 1]) simp
  obtain g' where r: "run_kernel (g\<lparr>gpu_global_memory := ex_ones\<rparr>) k gr ex_config ex_req = Some (Inr g')"
    "\<forall>b < 1. \<forall>j < 2. b * 2 + j mod 2 < 2 \<longrightarrow> (\<exists>v. gm_load (gpu_global_memory g') (4 * 2 + 4 * (b * 2 + j)) = Inr v \<and>
       sint v = int (card {i \<in> {b * 2 ..< min (b * 2 + 2) 2}. gm_load ex_ones (4 * i) = Inr (of_nat j)}))"
    using histogram_computes[OF ex_rng_range g h(1,2) k gr n(1,2,3,4,5) h(3) n(6) h(4) n(7) e] by blast
  have "{i \<in> {0 * 2 ..< min (0 * 2 + 2) 2}. gm_load ex_ones (4 * i) = Inr (of_nat 1)} = {0, 1 :: nat}" using w by auto
  then have "card {i \<in> {0 * 2 ..< min (0 * 2 + 2) 2}. gm_load ex_ones (4 * i) = Inr (of_nat 1)} = 2" by (simp only:) simp
  then obtain v where v: "gm_load (gpu_global_memory g') (4 * 2 + 4 * (0 * 2 + 1)) = Inr v" "sint v = int 2"
    using r(2)[rule_format, of 0 1] by (auto simp del: One_nat_def)
  then have "gm_load (gpu_global_memory g') 12 = Inr v" "sint v = 2" by simp_all
  then show ?thesis using g k gr r(1) by auto
qed

text \<open>
  C5: The memory copy copies. On every GPU the constructor builds, with any of the six policies
  (for \<open>TwoLevel\<close>, with a place in its active set), and with any contents \<open>m\<close> of the global memory that holds all the words, a grid whose blocks fit an
  SM is launched, the cycle loop ends without an exception, and afterwards the word that a thread
  addresses in an iteration is found 1000000 words further, and no other word has changed. The
  words of different threads need not be different.
\<close>

theorem memcpy_computes:
  assumes "random_range rng" and "new_gpu rng c = Inr g" and "0 < cfg_num_sms c"
    and "cfg_scheduler_policy c = ''Priority'' \<longrightarrow> bs \<le> 2 ^ 31"
    and "cfg_scheduler_policy c = ''TwoLevel'' \<longrightarrow> 0 < cfg_active_set_size c"
    and "build_memcpy_grid N bs ws pattern = Inr gr"
    and "0 < bs" and "0 < ws" and "ws \<le> 32" and "bs + ws < 2 ^ 64" and "N + bs < 2 ^ 64" and "block_fits c req bs ws"
    and "\<forall>t < N. \<forall>i < nat (sint iters). memcpy_offset pattern N t i < 1000000 \<and>
           1000000 + memcpy_offset pattern N t i < length (gm_data m)"
  shows "\<exists>g'. run_kernel (g\<lparr>gpu_global_memory := m\<rparr>) (generate_memcpy_kernel iters) gr c req = Some (Inr g') \<and>
    (\<forall>t < N. \<forall>i < nat (sint iters).
       gm_load (gpu_global_memory g') (1000000 + memcpy_offset pattern N t i) = gm_load m (memcpy_offset pattern N t i)) \<and>
    (\<forall>a < SHARED_MEM_BASE. (\<forall>t < N. \<forall>i < nat (sint iters). a \<noteq> 1000000 + memcpy_offset pattern N t i) \<longrightarrow>
       gm_load (gpu_global_memory g') a = gm_load m a)"
proof -
  have "cfg_scheduler_policy c = ''Priority'' \<longrightarrow> bs \<le> 2 ^ 31 \<and> prioritised \<in> {prioritised, \<lambda>w. w}" using assms(4) by simp
  from new_gpu_ready[OF assms(1-3) this assms(5) assms(6)[unfolded build_memcpy_grid_def] assms(7,8,10,11)]
  show ?thesis by (rule memcpy_run) (rule assms)+
qed

text \<open>Two threads copy two words each from a memory of ones.\<close>

theorem memcpy_computes_witness:
  "\<exists>g gr g' m. new_gpu ex_rng ex_config = Inr g \<and> m = \<lparr>gm_data = replicate 2000000 1\<rparr> \<and>
    build_memcpy_grid 2 2 1 ''contiguous'' = Inr gr \<and>
    run_kernel (g\<lparr>gpu_global_memory := m\<rparr>) (generate_memcpy_kernel 2) gr ex_config ex_req = Some (Inr g') \<and>
    gm_load (gpu_global_memory g') 1000012 = Inr 1"
proof -
  obtain l1 l2 p where "launched = Inr (two_warps l1 l2 p)" using launched_eq by blast
  then obtain g where g: "new_gpu ex_rng ex_config = Inr g" by (auto simp: launched_def)
  obtain gr where gr: "build_memcpy_grid 2 2 1 ''contiguous'' = Inr gr"
    using make_grid_total[of "memcpy_init 2 ''contiguous''" 1 2] unfolding build_memcpy_grid_def
    by (auto simp: good_registers_def memcpy_init_def memcpy_pattern_def)
  have h: "0 < cfg_num_sms ex_config" "cfg_scheduler_policy ex_config = ''Priority'' \<longrightarrow> 2 \<le> (2 :: nat) ^ 31"
    "cfg_scheduler_policy ex_config = ''TwoLevel'' \<longrightarrow> 0 < cfg_active_set_size ex_config"
    "block_fits ex_config ex_req 2 1"
    by (simp_all add: block_fits_def ex_config_def default_config_def ex_req_def)
  have n: "0 < (2 :: nat)" "0 < (1 :: nat)" "(1 :: nat) \<le> 32" "2 + 1 < (2 :: nat) ^ 64" "2 + 2 < (2 :: nat) ^ 64" by simp_all
  define m where "m = \<lparr>gm_data = replicate 2000000 (1 :: c_int)\<rparr>"
  have off: "memcpy_offset ''contiguous'' 2 t i = t * 4 + i * 8" for t i by (simp add: memcpy_offset_def memcpy_pattern_def)
  have inp: "\<forall>t < 2. \<forall>i < nat (sint (2 :: c_int)). memcpy_offset ''contiguous'' 2 t i < 1000000 \<and>
      1000000 + memcpy_offset ''contiguous'' 2 t i < length (gm_data m)"
    by (auto simp: off m_def)
  obtain g' where r: "run_kernel (g\<lparr>gpu_global_memory := m\<rparr>) (generate_memcpy_kernel 2) gr ex_config ex_req = Some (Inr g')"
    "\<forall>t < 2. \<forall>i < nat (sint (2 :: c_int)).
       gm_load (gpu_global_memory g') (1000000 + memcpy_offset ''contiguous'' 2 t i) = gm_load m (memcpy_offset ''contiguous'' 2 t i)"
    using memcpy_computes[OF ex_rng_range g h(1,2,3) gr n h(4) inp] by blast
  have "gm_load (gpu_global_memory g') 1000012 = gm_load m 12" using r(2)[rule_format, of 1 1] by (simp add: off)
  then have "gm_load (gpu_global_memory g') 1000012 = Inr 1" by (simp add: gm_load_def m_def)
  then show ?thesis using g gr r(1) m_def by blast
qed

text \<open>
  C4: The matrix multiplication benchmark computes the product. For matrices of any positive sizes
  that the tile size divides, stored one after the other below the shared memory, whose product the
  CPU computes without an overflow, a grid whose blocks fit an SM is launched, the cycle loop ends
  without an exception, and afterwards every word of the output is the CPU's entry, which is the exact
  sum of products, and no other word has changed: the barriers keep a tile of the shared memory
  loaded until every lane of the block has used it, however the warps were interleaved.
\<close>

theorem gemm_computes:
  assumes "random_range rng" and "new_gpu rng c = Inr g" and "0 < cfg_num_sms c"
    and "cfg_scheduler_policy c \<in> {''RR'', ''Greedy'', ''OldestFirst'', ''GTO''}"
    and "0 < T" and "T dvd M" and "T dvd N" and "T dvd K" and "0 < M" and "0 < N" and "0 < K"
    and "generate_gemm_kernel (of_nat M) (of_nat N) (of_nat K) (of_nat T) = Inr k"
    and "build_gemm_grid (of_nat M) (of_nat N) (of_nat K) (of_nat T) (of_nat ws) = Inr gr"
    and "0 < ws" and "ws \<le> 32" and "block_fits c req (T * T) ws" and "8 * (M * N) \<le> cfg_max_shared_memory_per_sm c"
    and "4 * (M * K + K * N + M * N) \<le> min SHARED_MEM_BASE (length (gm_data m))"
    and "length A = M * K" and "length B = K * N"
    and "\<forall>i < M * K. gm_load m (4 * i) = Inr (A ! i)" and "\<forall>i < K * N. gm_load m (4 * (M * K) + 4 * i) = Inr (B ! i)"
    and "cpu_gemm A B M N K = Inr C"
  shows "\<exists>g'. run_kernel (g\<lparr>gpu_global_memory := m\<rparr>) k gr c req = Some (Inr g') \<and>
    (\<forall>i < M. \<forall>j < N. gm_load (gpu_global_memory g') (4 * (M * K + K * N) + 4 * (i * N + j)) = Inr (C ! (i * N + j)) \<and>
       sint (C ! (i * N + j)) = (\<Sum>l<K. sint (A ! (i * K + l)) * sint (B ! (l * N + j)))) \<and>
    (\<forall>a < SHARED_MEM_BASE. (\<forall>x < M * N. a \<noteq> 4 * (M * K + K * N) + 4 * x) \<longrightarrow> gm_load (gpu_global_memory g') a = gm_load m a)"
  by (rule gemm_product[OF new_gpu_fresh[OF assms(1-4)] assms(5-23)])

text \<open>A two by four matrix of ones times a four by two one, in tiles of two by two.\<close>

definition ex_tiled :: system_config where
  "ex_tiled = ex_config\<lparr>cfg_max_shared_memory_per_sm := 32\<rparr>"

theorem gemm_computes_witness:
  "\<exists>g k gr g'. new_gpu ex_rng ex_tiled = Inr g \<and> generate_gemm_kernel 2 2 4 2 = Inr k \<and> build_gemm_grid 2 2 4 2 1 = Inr gr \<and>
    run_kernel (g\<lparr>gpu_global_memory := ex_ones\<rparr>) k gr ex_tiled ex_req = Some (Inr g') \<and> gm_load (gpu_global_memory g') 76 = Inr 4"
proof -
  have "buildable ex_tiled" by (simp add: buildable_def cache_ok_def ex_tiled_def ex_config_def default_config_def)
  then obtain g where g: "new_gpu ex_rng ex_tiled = Inr g" using new_gpu_total by blast
  define P where "P = \<lparr>pr_tile = 2, pr_across = 1, pr_down = 1, pr_more = 1, pr_A = replicate 8 1, pr_B = replicate 8 1\<rparr>"
  have d: "height P = 2" "breadth P = 2" "depth P = 4" "pr_tile P = 2" "at_C P = 64"
    by (simp_all add: P_def height_def breadth_def depth_def at_C_def at_B_def)
  have size: "gemm_sized P 1" unfolding gemm_sized_def d by (simp add: P_def SHARED_MEM_BASE_def)
  obtain k where k: "generate_gemm_kernel (of_nat 2) (of_nat 2) (of_nat 4) (of_nat 2) = Inr k" using gemm_kernel_total[OF size] unfolding d by blast
  obtain gr where gr: "build_gemm_grid (of_nat 2) (of_nat 2) (of_nat 4) (of_nat 2) (of_nat 1) = Inr gr" using gemm_grid_total[OF size] unfolding d by blast
  have h: "0 < cfg_num_sms ex_tiled" "cfg_scheduler_policy ex_tiled \<in> {''RR'', ''Greedy'', ''OldestFirst'', ''GTO''}"
    "0 < (2 :: nat)" "(2 :: nat) dvd 2" "(2 :: nat) dvd 2" "(2 :: nat) dvd 4" "0 < (2 :: nat)" "0 < (2 :: nat)" "0 < (4 :: nat)"
    by (simp_all add: ex_tiled_def ex_config_def default_config_def)
  have n: "0 < (1 :: nat)" "(1 :: nat) \<le> 32" "block_fits ex_tiled ex_req (2 * 2) 1" "8 * (2 * 2) \<le> cfg_max_shared_memory_per_sm ex_tiled"
    "4 * (2 * 4 + 4 * 2 + 2 * 2) \<le> min SHARED_MEM_BASE (length (gm_data ex_ones))" "length (replicate 8 (1 :: c_int)) = 2 * 4"
    "length (replicate 8 (1 :: c_int)) = 4 * 2"
    by (simp_all add: block_fits_def ex_tiled_def ex_config_def default_config_def ex_req_def SHARED_MEM_BASE_def ex_ones_def)
  have w: "\<forall>i < 2 * 4. gm_load ex_ones (4 * i) = Inr (replicate 8 1 ! i)" "\<forall>i < 4 * 2. gm_load ex_ones (4 * (2 * 4) + 4 * i) = Inr (replicate 8 1 ! i)"
    by (simp_all add: gm_load_def ex_ones_def)
  have C: "cpu_gemm (replicate 8 1) (replicate 8 1) 2 2 4 = Inr [4, 4, 4, 4]" by code_simp
  obtain g' where r: "run_kernel (g\<lparr>gpu_global_memory := ex_ones\<rparr>) k gr ex_tiled ex_req = Some (Inr g')"
    "\<forall>i < 2. \<forall>j < 2. gm_load (gpu_global_memory g') (4 * (2 * 4 + 4 * 2) + 4 * (i * 2 + j)) = Inr ([4, 4, 4, 4] ! (i * 2 + j))"
    using gemm_computes[OF ex_rng_range g h k gr n w C] by blast
  have "gm_load (gpu_global_memory g') 76 = Inr 4" using r(2)[rule_format, of 1 1] by simp
  then show ?thesis using g k gr r(1) by auto
qed

text \<open>A kernel of one instruction of each safe kind.\<close>

definition ex_loads :: kernel where
  "ex_loads = \<lparr>k_name = ''loads'', k_instructions =
     [instr MOV 1 (-1) (-1) 3, instr LOAD 2 (-1) (-1) 7, instr CMP (-1) 1 2 0]\<rparr>"

lemma ex_loads_safe: "safe_program ex_ones (k_instructions ex_loads)"
  by (simp add: safe_program_def ex_loads_def safe_instruction_def register_ok_def size_add_int_def ex_ones_def SHARED_MEM_BASE_def)

text \<open>
  C11: Every kernel of moves, comparisons and loads from fixed mapped addresses ends. On every GPU
  the constructor builds, with any of the six policies (for \<open>TwoLevel\<close>, with a place in its active
  set), a grid from any of the builders whose blocks fit an SM is launched, the cycle loop ends without an exception for all of its warps,
  whatever the sizes of the grid and the program, and no word of the global memory has changed.
\<close>

theorem register_kernel_terminates:
  assumes "random_range rng" and "new_gpu rng c = Inr g" and "0 < cfg_num_sms c"
    and "cfg_scheduler_policy c = ''Priority'' \<longrightarrow> bs \<le> 2 ^ 31 \<and> f \<in> {prioritised, \<lambda>w. w}"
    and "cfg_scheduler_policy c = ''TwoLevel'' \<longrightarrow> 0 < cfg_active_set_size c"
    and "safe_program m (k_instructions k)" and "make_grid f init N bs ws = Inr gr" and "keeps_warp f"
    and "0 < bs" and "0 < ws" and "ws \<le> 32" and "bs + ws < 2 ^ 64" and "N + bs < 2 ^ 64" and "block_fits c req bs ws"
  shows "\<exists>g'. run_kernel (g\<lparr>gpu_global_memory := m\<rparr>) k gr c req = Some (Inr g') \<and>
    (\<forall>a < SHARED_MEM_BASE. gm_load (gpu_global_memory g') a = gm_load m a)"
proof -
  let ?g = "g\<lparr>gpu_global_memory := m\<rparr>"
  have u: "runnable True (g_blocks gr) ?g" using new_gpu_ready[OF assms(1-5,7,9,10,12,13)] by simp
  have k: "k_instructions k = checked_program m (k_instructions k)" using assms(6) by (simp add: checked_program_def)
  have start: "register_lane m 0 t (view_of (gpu_global_memory ?g))" if "initialised init t" "t_global_id t < N" for t
    using initialised_full[OF that(1)] by (simp add: register_lane_def change_refl)
  from regk.map_runs[OF k u assms(7,8,10,11,9,12,13,14) start]
  obtain g1 g2 where r: "launch_kernel ?g gr c req = Inr g1" "run_to_completion k g1 = Some (Inr g2)"
    "regk.grows m (gpu_global_memory g2)" by auto
  then show ?thesis by (auto simp: run_kernel_def regk.grows_def)
qed

theorem register_kernel_terminates_witness:
  "\<exists>g gr g'. new_gpu ex_rng ex_config = Inr g \<and> build_main_grid 5 2 1 = Inr gr \<and>
    run_kernel (g\<lparr>gpu_global_memory := ex_ones\<rparr>) ex_loads gr ex_config ex_req = Some (Inr g') \<and>
    gm_load (gpu_global_memory g') 7 = Inr 1"
proof -
  obtain l1 l2 p where "launched = Inr (two_warps l1 l2 p)" using launched_eq by blast
  then obtain g where g: "new_gpu ex_rng ex_config = Inr g" by (auto simp: launched_def)
  obtain gr where gr: "build_main_grid 5 2 1 = Inr gr" "make_grid (\<lambda>w. w) (\<lambda>_ _ _. []) 5 2 1 = Inr gr"
    using make_grid_total[of "\<lambda>_ _ _. []" 1 2] unfolding build_main_grid_def by (auto simp: good_registers_def)
  have h: "0 < cfg_num_sms ex_config" "cfg_scheduler_policy ex_config = ''Priority'' \<longrightarrow> 2 \<le> (2 :: nat) ^ 31 \<and> (\<lambda>w :: warp. w) \<in> {prioritised, \<lambda>w. w}"
    "cfg_scheduler_policy ex_config = ''TwoLevel'' \<longrightarrow> 0 < cfg_active_set_size ex_config"
    "block_fits ex_config ex_req 2 1"
    by (simp_all add: block_fits_def ex_config_def default_config_def ex_req_def)
  have n: "0 < (2 :: nat)" "0 < (1 :: nat)" "(1 :: nat) \<le> 32" "2 + 1 < (2 :: nat) ^ 64" "5 + 2 < (2 :: nat) ^ 64" by simp_all
  from register_kernel_terminates[OF ex_rng_range g h(1,2,3) ex_loads_safe gr(2) keeps_id n h(4)] obtain g' where
    r: "run_kernel (g\<lparr>gpu_global_memory := ex_ones\<rparr>) ex_loads gr ex_config ex_req = Some (Inr g')"
    "\<forall>a < SHARED_MEM_BASE. gm_load (gpu_global_memory g') a = gm_load ex_ones a" by blast
  have "gm_load ex_ones 7 = Inr 1" by (simp add: gm_load_def ex_ones_def)
  then have "gm_load (gpu_global_memory g') 7 = Inr 1" using r(2) by (simp add: SHARED_MEM_BASE_def)
  then show ?thesis using g gr(1) r(1) by blast
qed

end
