(* ===== verification/Well_Typed.thy ===== *)
theory Well_Typed
  imports Lane_Values Quiet_Runs
begin

text \<open>
  A discipline of register operands, with preservation and progress: a kernel whose operands name
  registers of the file, on a grid of full register files, never raises one of the exceptions of
  the register file, the lane mask, the caches or the argument checks, through whole runs.
\<close>

section \<open>Outcomes with exceptions from a list\<close>

named_theorems raises

definition raises_only :: "sim_error list \<Rightarrow> 'a result \<Rightarrow> bool" where
  "raises_only E m \<longleftrightarrow> (case m of Inl e \<Rightarrow> e \<in> set E | Inr _ \<Rightarrow> True)"

lemma raises_only_Inl: "raises_only E m \<Longrightarrow> m = Inl e \<Longrightarrow> e \<in> set E"
  by (simp add: raises_only_def)

lemma raises_only_Inr [raises, simp]: "raises_only E (Inr x)"
  by (simp add: raises_only_def)

lemma raises_only_total: "\<exists>x. m = Inr x \<Longrightarrow> raises_only E m"
  by auto

lemma raises_only_bind [raises]:
  "raises_only E m \<Longrightarrow> (\<And>x. m = Inr x \<Longrightarrow> raises_only E (f x)) \<Longrightarrow> raises_only E (bindE m f)"
  by (cases m) (simp_all add: raises_only_def)

lemma raises_only_if [raises]: "(b \<Longrightarrow> raises_only E m) \<Longrightarrow> (\<not> b \<Longrightarrow> raises_only E m') \<Longrightarrow> raises_only E (if b then m else m')"
  by simp

lemma raises_only_fold:
  assumes "P s" and "\<And>s x. x \<in> set xs \<Longrightarrow> P s \<Longrightarrow> raises_only E (f s x)"
    and "\<And>s x s'. x \<in> set xs \<Longrightarrow> P s \<Longrightarrow> f s x = Inr s' \<Longrightarrow> P s'"
  shows "raises_only E (foldE f s xs)"
  using assms
proof (induction xs arbitrary: s)
  case (Cons x xs)
  have "raises_only E (foldE f s' xs)" if "f s x = Inr s'" for s'
  proof (rule Cons.IH)
    show "P s'" using Cons.prems(1,3) that by (meson list.set_intros(1))
  qed (use Cons.prems(2,3) in \<open>meson list.set_intros(2)\<close>)+
  then show ?case using Cons.prems(1,2) by (auto intro: raises_only_bind)
qed simp

lemma raises_only_map: "(\<And>x. x \<in> set xs \<Longrightarrow> raises_only E (f x)) \<Longrightarrow> raises_only E (mapE f xs)"
  by (induction xs) (auto intro!: raises_only_bind)

section \<open>Operands\<close>

text \<open>The registers an instruction reads or writes; \<open>-1\<close> stands for no register in three places.\<close>

definition optional_register :: "c_int \<Rightarrow> c_int list" where
  "optional_register r = (if r = -1 then [] else [r])"

definition operands :: "instruction \<Rightarrow> c_int list" where
  "operands inst =
     (case inst_opcode inst of
        ADD \<Rightarrow> [inst_dst inst, inst_src1 inst, inst_src2 inst]
      | SUB \<Rightarrow> [inst_dst inst, inst_src1 inst, inst_src2 inst]
      | MUL \<Rightarrow> [inst_dst inst, inst_src1 inst, inst_src2 inst]
      | MOV \<Rightarrow> inst_dst inst # optional_register (inst_src1 inst)
      | CMP \<Rightarrow> [inst_src1 inst, inst_src2 inst]
      | LOAD \<Rightarrow> inst_dst inst # optional_register (inst_src1 inst)
      | STORE \<Rightarrow> inst_src1 inst # optional_register (inst_src2 inst)
      | ATOMIC_ADD \<Rightarrow> inst_src1 inst # optional_register (inst_src2 inst)
      | _ \<Rightarrow> [])"

definition well_typed_instruction :: "instruction \<Rightarrow> bool" where
  "well_typed_instruction inst \<longleftrightarrow> list_all register_ok (operands inst)"

definition well_typed :: "kernel \<Rightarrow> bool" where
  "well_typed k \<longleftrightarrow> list_all well_typed_instruction (k_instructions k)"

text \<open>The exceptions a run of a well-typed kernel can end with.\<close>

definition run_errors :: "sim_error list" where
  "run_errors =
     [Out_of_range ''GlobalMemory address out of bounds'', Out_of_range ''SharedMemory address out of bounds'', mixed_error,
      Undefined ''signed integer overflow'', Runtime_error ''SYNC executed with empty SIMT stack'',
      Runtime_error ''Divergent barrier within warp'',
      Runtime_error ''Malformed barrier: some warps in the block completed without reaching the barrier.'', impossible_block]"

abbreviation (input) safe :: "'a result \<Rightarrow> bool" where
  "safe \<equiv> raises_only run_errors"

text \<open>Warps of full register files.\<close>

definition typed_warp :: "warp \<Rightarrow> bool" where
  "typed_warp w \<longleftrightarrow> (\<forall>t \<in> set (w_threads w). full_file t)"

section \<open>Memory\<close>

lemma memory_raises [raises]:
  "safe (gm_load g a)" "safe (gm_store g a v)" "safe (shm_load s a)" "safe (shm_store s a v)" "safe (c_add x y)" "safe (c_sub x y)"
  "safe (c_mul x y)" "safe (Inl mixed_error :: 'a result)"
  by (simp_all add: raises_only_def run_errors_def gm_load_def gm_store_def shm_load_def shm_store_def c_add_def c_sub_def c_mul_def
      checked_int_def)

lemma shared_raises [raises]: "safe (shared_load m a)" "safe (shared_store m a v)"
  unfolding shared_load_def shared_store_def by (intro raises)+

lemma transactions_raise:
  "ms_inv m \<Longrightarrow> safe (run_transactions read_latency m ls)" "ms_inv m \<Longrightarrow> safe (run_transactions write_latency m ls)"
  using rd_path.run_transactions_total wr_path.run_transactions_total by (blast intro: raises_only_total)+

lemma warp_load_raises: "ms_inv m \<Longrightarrow> safe (warp_load m addrs)"
  unfolding warp_load_def Let_def load_each_def
  by (intro raises raises_only_map transactions_raise) (auto intro!: raises raises_only_map split: prod.split)

lemma with_values_raises: "length vals = length addrs \<Longrightarrow> safe (with_values addrs vals)"
  by (simp add: with_values_def)

lemma warp_store_raises: "ms_inv m \<Longrightarrow> length vals = length addrs \<Longrightarrow> safe (warp_store m addrs vals)"
  unfolding warp_store_def Let_def store_each_def
  by (intro raises transactions_raise with_values_raises raises_only_fold[where P = "\<lambda>_. True"])
    (auto intro!: raises with_values_raises raises_only_fold[where P = "\<lambda>_. True"] split: prod.split)

lemma warp_atomic_raises: "ms_inv m \<Longrightarrow> length vals = length addrs \<Longrightarrow> safe (warp_atomic_add m addrs vals)"
  unfolding warp_atomic_add_def Let_def atomic_each_def
  by (intro raises transactions_raise with_values_raises raises_only_fold[where P = "\<lambda>_. True"])
    (auto intro!: raises with_values_raises raises_only_fold[where P = "\<lambda>_. True"] split: prod.split)

section \<open>Lanes\<close>

lemma register_raises [raises]:
  "full_file t \<Longrightarrow> register_ok r \<Longrightarrow> safe (read_reg t r)" "full_file t \<Longrightarrow> register_ok r \<Longrightarrow> safe (write_reg t r v)"
  by (simp_all add: raises_only_def full_file_def register_ok_def read_reg_def write_reg_def reg_read_def reg_write_def)

lemma lane_op_raises:
  "full_file t \<Longrightarrow> well_typed_instruction inst \<Longrightarrow> inst_opcode inst \<in> {ADD, SUB, MUL, MOV, CMP} \<Longrightarrow> safe (lane_op inst t)"
  by (auto simp: lane_op_def alu_def mov_def cmp_def well_typed_instruction_def operands_def optional_register_def intro!: raises split: if_splits)

lemma lane_address_raises: "full_file t \<Longrightarrow> list_all register_ok (optional_register r) \<Longrightarrow> safe (lane_address r inst t)"
  unfolding lane_address_def by (intro raises) (auto simp: optional_register_def)

lemma lane_store_raises:
  "full_file t \<Longrightarrow> well_typed_instruction inst \<Longrightarrow> inst_opcode inst \<in> {STORE, ATOMIC_ADD} \<Longrightarrow> safe (lane_store inst t)"
  unfolding lane_store_def by (intro raises lane_address_raises) (auto simp: well_typed_instruction_def operands_def)

lemma each_active_raises:
  assumes "length ts \<le> 32" and "\<And>t. t \<in> set ts \<Longrightarrow> safe (f t)"
  shows "safe (each_active m f ts)"
  unfolding each_active_def using assms
  by (intro raises_only_map) (auto intro!: raises simp: in_set_enumerate_eq mask_test_def)

lemma gather_raises:
  assumes "length ts \<le> 32" and "\<And>t. t \<in> set ts \<Longrightarrow> safe (f t)"
  shows "safe (gather m f ts)"
  unfolding gather_def using assms
  by (intro raises_only_fold[where P = "\<lambda>_. True"]) (auto intro!: raises simp: in_set_enumerate_eq mask_test_def)

lemma gathered_lanes: "length ts \<le> 32 \<Longrightarrow> gather m f ts = Inr lanes \<Longrightarrow> \<forall>i \<in> fst ` set lanes. i < length ts"
proof -
  assume "length ts \<le> 32" and "gather m f ts = Inr lanes"
  then have "map fst lanes = active_lanes m ts" by (simp add: gather_Inr)
  then have "fst ` set lanes = set (active_lanes m ts)" by (metis list.set_map)
  then show ?thesis by (simp add: active_lanes_def)
qed

lemma write_back_raises:
  assumes "\<forall>t \<in> set ts. full_file t" and "register_ok (inst_dst inst)" and "\<forall>i \<in> fst ` set lvs. i < length ts"
  shows "safe (write_back inst lvs ts)"
  unfolding write_back_def
proof (rule raises_only_fold[where P = "\<lambda>us. length us = length ts \<and> (\<forall>t \<in> set us. full_file t)"])
  fix us p assume p: "p \<in> set lvs" and us: "length us = length ts \<and> (\<forall>t \<in> set us. full_file t)"
  obtain i v where e: "p = (i, v)" by (cases p)
  have "i < length us" using assms(3) p us e by force
  then have full: "full_file (us ! i)" using us by simp
  then show "safe (case p of (i, v) \<Rightarrow> bindE (write_reg (us ! i) (inst_dst inst) v) (\<lambda>t. Inr (us[i := t])))"
    using assms(2) by (auto simp: e intro!: raises)
  show "length us' = length ts \<and> (\<forall>t \<in> set us'. full_file t)"
    if st: "(case p of (i, v) \<Rightarrow> bindE (write_reg (us ! i) (inst_dst inst) v) (\<lambda>t. Inr (us[i := t]))) = Inr us'" for us'
  proof -
    obtain t' where t': "write_reg (us ! i) (inst_dst inst) v = Inr t'" "us' = us[i := t']" using st e by auto
    have "full_file t'" using write_reg_identity[OF t'(1)] full by (simp add: same_identity_def full_file_def)
    then show ?thesis using us set_update_subset_insert[of us i t'] t'(2) by auto
  qed
qed (use assms(1) in simp)

section \<open>Instructions\<close>

lemma load_raises:
  assumes len: "length (w_threads w) \<le> 32" and ty: "typed_warp w" and inst: "well_typed_instruction inst" "inst_opcode inst = LOAD"
    and m: "ms_inv m"
  shows "safe (exec_load inst w m)"
proof -
  have regs: "register_ok (inst_dst inst)" "list_all register_ok (optional_register (inst_src1 inst))"
    using inst by (simp_all add: well_typed_instruction_def operands_def)
  have full: "full_file t" if "t \<in> set (w_threads w)" for t using ty that by (simp add: typed_warp_def)
  have "safe (write_back inst (zip (map fst lanes) vals) (w_threads w))"
    if g: "gather (w_active_mask w) (lane_address (inst_src1 inst) inst) (w_threads w) = Inr lanes" for lanes vals
  proof (rule write_back_raises[OF _ regs(1)])
    show "\<forall>i \<in> fst ` set (zip (map fst lanes) vals). i < length (w_threads w)"
      using gathered_lanes[OF len g] by (auto dest!: set_zip_leftD)
  qed (use full in simp)
  then show ?thesis unfolding exec_load_def Let_def using full
    by (auto intro!: raises gather_raises[OF len] lane_address_raises regs(2) warp_load_raises[OF m])
qed

lemma write_raises:
  assumes len: "length (w_threads w) \<le> 32" and ty: "typed_warp w" and inst: "well_typed_instruction inst" "inst_opcode inst \<in> {STORE, ATOMIC_ADD}"
    and op: "\<And>addrs vals. length vals = length addrs \<Longrightarrow> safe (op m addrs vals)"
  shows "safe (exec_write op inst w m)"
proof -
  have "safe (lane_store inst t)" if "t \<in> set (w_threads w)" for t
    using ty inst that by (intro lane_store_raises) (simp_all add: typed_warp_def)
  then show ?thesis unfolding exec_write_def Let_def
    by (auto intro!: raises gather_raises[OF len] op)
qed

lemma move_raises: "length (w_threads w) \<le> 32 \<Longrightarrow> safe (move_to k pc w)"
  using move_to_eq by simp

lemma control_raises:
  assumes len: "length (w_threads w) \<le> 32"
  shows "safe (exec_branch inst w)" and "safe (exec_ssy inst w)" and "safe (exec_sync w)" and "safe (exec_barrier w)"
proof -
  have tk: "safe (taken_mask k (w_threads w))" for k using taken_mask_Inr[OF len, of k] by (auto intro: raises_only_total)
  show "safe (exec_branch inst w)" unfolding exec_branch_def Let_def
    by (intro raises tk move_raises) (use len in \<open>simp_all add: warp_updates\<close>)
  show "safe (exec_ssy inst w)" unfolding exec_ssy_def Let_def
    by (intro raises move_raises) (use len in \<open>simp add: warp_updates\<close>)
  have "safe (Inl (Runtime_error ''SYNC executed with empty SIMT stack'') :: (execution_result \<times> warp) result)"
    "safe (Inl (Runtime_error ''Divergent barrier within warp'') :: (execution_result \<times> warp) result)"
    by (simp_all add: raises_only_def run_errors_def)
  then show "safe (exec_sync w)" "safe (exec_barrier w)"
    unfolding exec_sync_def exec_barrier_def Let_def pop_simt_stack_def using len
    by (auto intro!: raises move_raises simp: warp_updates split: list.split)
qed

lemma execute_raises:
  assumes ok: "warp_ok w" and ty: "typed_warp w" and inst: "well_typed_instruction inst" and m: "ms_inv m"
  shows "safe (execute inst w m)"
proof -
  have len: "length (w_threads w) \<le> 32" using ok by (simp add: warp_ok_def masks_inv_def)
  have lanes: "safe (exec_lanes inst w)" if "inst_opcode inst \<in> {ADD, SUB, MUL, MOV, CMP}"
  proof -
    have "safe (each_active (w_active_mask w) (lane_op inst) (w_threads w))"
      using ty inst that by (intro each_active_raises[OF len] lane_op_raises) (simp_all add: typed_warp_def)
    then show ?thesis unfolding exec_lanes_def
      by (intro raises move_raises) (use len in \<open>auto simp: each_active_Inr\<close>)
  qed
  show ?thesis
  proof (cases "inst_opcode inst")
    case LOAD
    have "length (w_threads w1) \<le> 32" if "exec_load inst w m = Inr (r, w1, m')" for r w1 m'
      using len that by (rule exec_load_InrE) (use len in \<open>simp_all add: lanes_framed_def\<close>)
    then show ?thesis using LOAD load_raises[OF len ty inst LOAD m]
      by (auto simp: execute_def Let_def intro!: raises move_raises)
  next
    case STORE
    have "safe (exec_write warp_store inst w m)" by (rule write_raises[OF len ty inst]) (use STORE warp_store_raises[OF m] in simp_all)
    then show ?thesis using STORE by (auto simp: execute_def Let_def intro!: raises move_raises len)
  next
    case ATOMIC_ADD
    have "safe (exec_write warp_atomic_add inst w m)" by (rule write_raises[OF len ty inst]) (use ATOMIC_ADD warp_atomic_raises[OF m] in simp_all)
    then show ?thesis using ATOMIC_ADD by (auto simp: execute_def Let_def intro!: raises move_raises len)
  qed (auto simp: execute_def Let_def keep_memory_def intro!: raises control_raises[OF len] lanes)
qed

text \<open>Register files keep their size.\<close>

lemma lanes_framed_typed: "lanes_framed k ts ts' \<Longrightarrow> \<forall>t \<in> set ts. full_file t \<Longrightarrow> \<forall>t \<in> set ts'. full_file t"
  by (simp add: all_set_conv_all_nth lanes_framed_def full_file_def)

lemma execute_typed:
  assumes "length (w_threads w) \<le> 32" and "typed_warp w" and "execute inst w m = Inr (r, w', m')"
  shows "typed_warp w'"
  using execute_framed(1)[OF assms(1,3)] assms(2) lanes_framed_typed unfolding typed_warp_def warp_framed_def by blast

lemma same_core_typed: "same_core w w' \<Longrightarrow> typed_warp w \<Longrightarrow> typed_warp w'"
  by (simp add: same_core_def typed_warp_def)

lemma update_warp_state_safe:
  assumes len: "length (w_threads w) \<le> 32" and ty: "typed_warp w"
  shows "safe (update_warp_state n r w)" and "update_warp_state n r w = Inr w' \<Longrightarrow> typed_warp w'"
proof -
  have each: "\<forall>t \<in> set ts. full_file t" if "each_active k (\<lambda>t. Inr (set_pc t x)) (w_threads w) = Inr ts" for k x ts
  proof -
    have "length ts = length (w_threads w)" "ts ! i = (if bit k i then set_pc (w_threads w ! i) x else w_threads w ! i)"
      if "i < length (w_threads w)" for i
      using \<open>each_active k (\<lambda>t. Inr (set_pc t x)) (w_threads w) = Inr ts\<close> that unfolding each_active_Inr[OF len] by auto
    then show ?thesis using ty that unfolding each_active_Inr[OF len] typed_warp_def all_set_conv_all_nth
      by (simp add: full_file_def set_pc_def)
  qed
  have "safe (each_active k (\<lambda>t. Inr (set_pc t x)) (w_threads w))" for k x
    by (rule each_active_raises[OF len]) simp
  then show "safe (update_warp_state n r w)"
    by (auto simp: update_warp_state_def pop_simt_stack_def update_shadow_pcs_def warp_updates intro!: raises split: list.split)
  show "typed_warp w'" if "update_warp_state n r w = Inr w'"
    using that ty each
    by (auto simp: update_warp_state_def pop_simt_stack_def update_shadow_pcs_def warp_updates typed_warp_def
        set_completed_def stall_def split: list.splits if_splits)
qed

section \<open>A streaming multiprocessor\<close>

definition typed_sm :: "sm \<Rightarrow> bool" where
  "typed_sm s \<longleftrightarrow> (\<forall>w \<in> set (sm_warps s). typed_warp w)"

lemma typed_sm_same:
  assumes "typed_sm s" and "length (sm_warps s') = length (sm_warps s)"
    and "\<And>j. j < length (sm_warps s) \<Longrightarrow> same_core (sm_warps s ! j) (sm_warps s' ! j)"
  shows "typed_sm s'"
  using assms same_core_typed unfolding typed_sm_def all_set_conv_all_nth by metis

lemma typed_sm_update: "typed_sm s \<Longrightarrow> typed_warp w \<Longrightarrow> typed_sm (s\<lparr>sm_warps := (sm_warps s)[i := w], sm_counters := p\<rparr>)"
  using set_update_subset_insert[of "sm_warps s" i w] by (auto simp: typed_sm_def)

lemma barrier_raises:
  assumes i: "i < length (sm_warps s)" and ty: "typed_sm s"
  shows "safe (handle_barrier_arrival i s)" and "handle_barrier_arrival i s = Inr s' \<Longrightarrow> typed_sm s'"
proof -
  show "safe (handle_barrier_arrival i s)"
    by (simp add: handle_barrier_arrival_def Let_def raises_only_def run_errors_def)
  show "typed_sm s'" if run: "handle_barrier_arrival i s = Inr s'"
  proof (rule typed_sm_same[OF ty barrier_effect(2)[OF i run]])
    show "same_core (sm_warps s ! j) (sm_warps s' ! j)" if "j < length (sm_warps s)" for j
      using barrier_effect(3)[OF i run that] barrier_effect(4)[OF i run] by (cases "j = i") (simp_all add: bystander_def)
  qed
qed

lemma issue_safe:
  assumes wt: "well_typed k" and ok: "sm_ok s" and ty: "typed_sm s" and i: "i < length (sm_warps s)" and m: "ms_inv m"
  shows "safe (issue k i s m)" and "issue k i s m = Inr (s', m') \<Longrightarrow> typed_sm s'"
proof -
  let ?w = "sm_warps s ! i" and ?n = "length (k_instructions k)"
  have w: "warp_ok ?w" "typed_warp ?w" using ok ty i by (simp_all add: sm_ok_def typed_sm_def)
  then have len: "length (w_threads ?w) \<le> 32" by (simp add: warp_ok_def masks_inv_def)
  have "safe (issue k i s m) \<and> (\<forall>s' m'. issue k i s m = Inr (s', m') \<longrightarrow> typed_sm s')"
  proof (cases "w_pc ?w \<ge> ?n")
    case True
    have "typed_warp (set_completed ?w)" by (rule same_core_typed[OF _ w(2)]) simp
    then show ?thesis using True ty set_update_subset_insert[of "sm_warps s" i "set_completed ?w"]
      by (auto simp: issue_def typed_sm_def)
  next
    case False
    let ?inst = "k_instructions k ! w_pc ?w"
    have inst: "well_typed_instruction ?inst" using wt False by (simp add: well_typed_def list_all_length)
    note ex = execute_raises[OF w inst m]
    define next_sm where "next_sm r w1 = s\<lparr>sm_warps := (sm_warps s)[i := w1],
        sm_counters := count_result (sm_id s) w1 ?inst r (sm_counters s)\<rparr>" for r w1
    define arrive where "arrive r w1 = (if er_status r = BarrierReached then handle_barrier_arrival i (next_sm r w1) else Inr (next_sm r w1))" for r w1
    have arrive: "safe (arrive r w1) \<and> (\<forall>s2. arrive r w1 = Inr s2 \<longrightarrow> typed_sm s2 \<and> length (w_threads (sm_warps s2 ! i)) \<le> 32 \<and> i < length (sm_warps s2))"
      if e: "execute ?inst ?w m = Inr (r, w1, m1)" for r w1 m1
    proof -
      have w1: "typed_warp w1" "length (w_threads w1) \<le> 32"
        using execute_typed[OF len w(2) e] execute_framed(1)[OF len e] len by (simp_all add: warp_framed_def lanes_framed_def)
      have ty1: "typed_sm (next_sm r w1)" unfolding next_sm_def by (rule typed_sm_update[OF ty w1(1)])
      have at: "sm_warps (next_sm r w1) ! i = w1" "i < length (sm_warps (next_sm r w1))" using i by (simp_all add: next_sm_def)
      show ?thesis
      proof (cases "er_status r = BarrierReached")
        case True
        then show ?thesis using barrier_raises[OF at(2) ty1] barrier_effect(2,4)[OF at(2)] at w1(2)
          by (auto simp: arrive_def same_core_def)
      qed (use ty1 at w1(2) in \<open>simp add: arrive_def\<close>)
    qed
    have iss: "issue k i s m = bindE (execute ?inst ?w m) (\<lambda>(r, w1, m1).
        bindE (arrive r w1) (\<lambda>s2. bindE (update_warp_state ?n r (sm_warps s2 ! i)) (\<lambda>w2.
          Inr (s2\<lparr>sm_warps := (sm_warps s2)[i := w2],
                  sm_counters := increment_instructions_retired
                    ((add_stall WriteConflict ^^ er_write_conflict_stalls r) (sm_counters s2))\<rparr>, m1))))"
      using False unfolding arrive_def next_sm_def issue_def Let_def by simp
    have up: "safe (update_warp_state ?n r (sm_warps s2 ! i)) \<and>
        (\<forall>w2. update_warp_state ?n r (sm_warps s2 ! i) = Inr w2 \<longrightarrow> typed_warp w2)"
      if "execute ?inst ?w m = Inr (r, w1, m1)" "arrive r w1 = Inr s2" for r w1 m1 s2
    proof -
      have s2: "typed_sm s2" "length (w_threads (sm_warps s2 ! i)) \<le> 32" "i < length (sm_warps s2)" using arrive[OF that(1)] that(2) by simp_all
      then have "typed_warp (sm_warps s2 ! i)" by (simp add: typed_sm_def)
      from update_warp_state_safe[OF s2(2) this] show ?thesis by blast
    qed
    have "safe (issue k i s m)" unfolding iss
      by (rule raises_only_bind[OF ex]) (use arrive up in \<open>auto intro!: raises\<close>)
    moreover have "typed_sm s'" if run: "issue k i s m = Inr (s', m')" for s' m'
    proof -
      obtain r w1 s2 w2 where e: "execute ?inst ?w m = Inr (r, w1, m')" "arrive r w1 = Inr s2"
        "update_warp_state ?n r (sm_warps s2 ! i) = Inr w2"
        "s' = s2\<lparr>sm_warps := (sm_warps s2)[i := w2], sm_counters := increment_instructions_retired
                    ((add_stall WriteConflict ^^ er_write_conflict_stalls r) (sm_counters s2))\<rparr>"
        using run unfolding iss by auto
      show ?thesis unfolding e(4) using arrive[OF e(1)] e(2,3) up[OF e(1,2)] by (intro typed_sm_update) blast+
    qed
    ultimately show ?thesis by blast
  qed
  then show "safe (issue k i s m)" and "issue k i s m = Inr (s', m') \<Longrightarrow> typed_sm s'" by blast+
qed

lemma tick_safe:
  assumes wt: "well_typed k" and ok: "sm_ok s" and ty: "typed_sm s" and m: "ms_inv m"
  shows "safe (tick k s m)" and "tick k s m = Inr (s', m') \<Longrightarrow> typed_sm s'"
proof -
  let ?p = "prepared s"
  have p: "typed_sm ?p" by (rule typed_sm_same[OF ty]) (simp_all add: prepared_effect)
  have "safe (tick k s m) \<and> (\<forall>s' m'. tick k s m = Inr (s', m') \<longrightarrow> typed_sm s')"
  proof (cases "is_completed s \<or> sm_scheduler s = None")
    case True
    then show ?thesis using ty p by (auto simp: tick_unfold typed_sm_def)
  next
    case False
    then obtain sch where sch: "\<not> is_completed s" "sm_scheduler s = Some sch" by blast
    obtain sel s3 where sc: "schedule sch ?p = (sel, s3)" by fastforce
    note se = schedule_effect[OF sc]
    have s3: "typed_sm s3" by (rule typed_sm_same[OF p]) (use se(5) in \<open>simp_all add: list_all2_conv_all_nth same_but_waits_def\<close>)
    have ok3: "sm_ok s3" by (rule schedule_ok[OF prepared_ok[OF ok] sc])
    show ?thesis
    proof (cases sel)
      case None
      then show ?thesis using sch sc s3 by (auto simp: tick_unfold typed_sm_def)
    next
      case (Some i)
      have "tick k s m = issue k i s3 m" using sch sc Some by (simp add: tick_unfold)
      then show ?thesis using issue_safe[OF wt ok3 s3 _ m] se(9)[OF Some] by auto
    qed
  qed
  then show "safe (tick k s m)" and "tick k s m = Inr (s', m') \<Longrightarrow> typed_sm s'" by blast+
qed

section \<open>The GPU\<close>

definition typed_blocks :: "thread_block list \<Rightarrow> bool" where
  "typed_blocks bs \<longleftrightarrow> (\<forall>b \<in> set bs. \<forall>w \<in> set (tb_warps b). typed_warp w)"

definition typed_gpu :: "gpu \<Rightarrow> bool" where
  "typed_gpu g \<longleftrightarrow> (\<forall>s \<in> set (gpu_sms g). typed_sm s) \<and> typed_blocks (gpu_pending_blocks g)"

lemma dispatch_safe:
  "typed_blocks p \<Longrightarrow> typed_sm s \<Longrightarrow> safe (dispatch c req p idx s) \<and> (\<forall>idx' s'. dispatch c req p idx s = Inr (idx', s') \<longrightarrow> typed_sm s')"
proof (induction c req p idx s rule: dispatch.induct)
  case (1 c req p idx s)
  show ?case
  proof (cases "idx < length p \<and> can_admit s (p ! idx) c req")
    case True
    have "typed_sm (allocate_block s (p ! idx) req)"
      using 1(2,3) True by (auto simp: typed_sm_def typed_blocks_def allocate_block_fields)
    then show ?thesis using 1(1) 1(2) True by (simp add: dispatch.simps[of c req p idx s])
  next
    case False
    then show ?thesis using 1(3) by (auto simp: dispatch.simps[of c req p idx s] raises_only_def run_errors_def)
  qed
qed

lemma dispatch_all_safe:
  "typed_blocks p \<Longrightarrow> \<forall>s \<in> set ss. typed_sm (prep s) \<Longrightarrow> safe (dispatch_all prep c req p idx ss) \<and>
   (\<forall>idx' ss'. dispatch_all prep c req p idx ss = Inr (idx', ss') \<longrightarrow> (\<forall>s \<in> set ss'. typed_sm s))"
proof (induction ss arbitrary: idx)
  case (Cons s ss)
  note d = dispatch_safe[OF Cons.prems(1), of "prep s" c req idx]
  have h: "typed_sm (prep s)" "\<forall>s \<in> set ss. typed_sm (prep s)" using Cons.prems(2) by simp_all
  note ih = Cons.IH[OF Cons.prems(1) h(2)]
  have "safe (dispatch_all prep c req p idx (s # ss))"
    using d[OF h(1)] ih by (auto intro!: raises)
  then show ?case using d[OF h(1)] ih by fastforce
qed simp

lemma tick_all_safe:
  assumes wt: "well_typed k"
  shows "\<forall>s \<in> set ss. sm_good c s \<and> typed_sm s \<Longrightarrow> cache_inv l2 \<Longrightarrow> stats_inv l2 \<Longrightarrow>
   safe (tick_all k c ss l2 g) \<and> (\<forall>d ss' l2' g'. tick_all k c ss l2 g = Inr (d, ss', l2', g') \<longrightarrow> (\<forall>s \<in> set ss'. typed_sm s))"
proof (induction ss arbitrary: l2 g)
  case (Cons s ss)
  have h: "sm_good c s" "typed_sm s" "\<forall>s \<in> set ss. sm_good c s \<and> typed_sm s" using Cons.prems(1) by simp_all
  show ?case
  proof (cases "is_completed s")
    case True
    have "safe (tick_all k c (s # ss) l2 g)" using Cons.IH[OF h(3) Cons.prems(2,3)] True by (auto intro!: raises)
    then show ?thesis using Cons.IH[OF h(3) Cons.prems(2,3), of g] h(2) True by fastforce
  next
    case False
    have ms: "ms_inv (memory_of c s l2 g)" "sm_ok s"
      using h(1) Cons.prems(2,3) by (simp_all add: sm_good_def memory_of_def ms_inv_def)
    note t = tick_safe[OF wt ms(2) h(2) ms(1)]
    have one: "safe (tick_sm k c s l2 g)" unfolding tick_sm_def using t(1) by (auto intro!: raises)
    have step: "typed_sm s' \<and> cache_inv l2' \<and> stats_inv l2'" if "tick_sm k c s l2 g = Inr (s', l2', g')" for s' l2' g'
      using tick_sm_good[OF h(1) False Cons.prems(2,3) that] that t(2) by (auto simp: tick_sm_def typed_sm_def)
    have "safe (tick_all k c (s # ss) l2 g)" using one step Cons.IH[OF h(3)] False by (auto intro!: raises)
    moreover have "\<forall>s \<in> set ss'. typed_sm s" if run: "tick_all k c (s # ss) l2 g = Inr (d, ss', l2', g')" for d ss' l2' g'
    proof -
      obtain s1 l21 g1 ss1 d1 where 1: "tick_sm k c s l2 g = Inr (s1, l21, g1)"
        "tick_all k c ss l21 g1 = Inr (d1, ss1, l2', g')" "ss' = s1 # ss1" using run False by auto
      show ?thesis using step[OF 1(1)] Cons.IH[OF h(3), of l21 g1] 1(2,3) by auto
    qed
    ultimately show ?thesis by blast
  qed
qed simp

lemma gpu_cycle_safe:
  assumes wt: "well_typed k" and inv: "gpu_inv g" and ty: "typed_gpu g"
  shows "safe (gpu_cycle k g)" and "gpu_cycle k g = Inr (d, g') \<Longrightarrow> typed_gpu g'"
proof -
  let ?D = "dispatch_all release_completed_blocks (gpu_config g) (gpu_req g) (gpu_pending_blocks g) (gpu_current_block_idx g) (gpu_sms g)"
  have le: "gpu_current_block_idx g \<le> length (gpu_pending_blocks g)" "blocks_ok (gpu_pending_blocks g)"
    and l2: "cache_inv (gpu_l2_cache g)" "stats_inv (gpu_l2_cache g)" and p: "typed_blocks (gpu_pending_blocks g)"
    using inv ty by (simp_all add: gpu_inv_def typed_gpu_def)
  have "typed_sm s \<Longrightarrow> typed_sm (release_completed_blocks s)" for s using release_fields(1)[of s] by (auto simp: typed_sm_def)
  then have rel: "\<forall>s \<in> set (gpu_sms g). sm_good (gpu_config g) (release_completed_blocks s)"
      "\<forall>s \<in> set (gpu_sms g). typed_sm (release_completed_blocks s)"
    using inv ty release_good by (simp_all add: gpu_inv_def typed_gpu_def)
  note d = dispatch_all_safe[OF p rel(2), of "gpu_config g" "gpu_req g" "gpu_current_block_idx g"]
  have t: "\<forall>s \<in> set sms. sm_good (gpu_config g) s \<and> typed_sm s" if "?D = Inr (idx, sms)" for idx sms
    using dispatch_all_good[OF that le rel(1)] d that by blast
  note ta = tick_all_safe[OF wt t l2]
  show "safe (gpu_cycle k g)" unfolding gpu_cycle_def using d ta by (auto intro!: raises)
  show "typed_gpu g'" if "gpu_cycle k g = Inr (d, g')"
  proof -
    obtain idx sms sms' l2 gm where 1: "?D = Inr (idx, sms)"
      "tick_all k (gpu_config g) sms (gpu_l2_cache g) (gpu_global_memory g) = Inr (d, sms', l2, gm)"
      "g' = g\<lparr>gpu_sms := sms', gpu_l2_cache := l2, gpu_global_memory := gm, gpu_current_block_idx := idx\<rparr>"
      using \<open>gpu_cycle k g = Inr (d, g')\<close> by (auto simp: gpu_cycle_def)
    then have "\<forall>s \<in> set sms'. typed_sm s" using ta[OF 1(1)] by blast
    then show ?thesis using 1(3) p by (simp add: typed_gpu_def)
  qed
qed

lemma run_cycles_safe:
  assumes wt: "well_typed k"
  shows "run_cycles n k g = Some r \<Longrightarrow> gpu_inv g \<Longrightarrow> typed_gpu g \<Longrightarrow> safe r"
proof (induction n arbitrary: g)
  case (Suc n)
  note c = gpu_cycle_safe[OF wt Suc.prems(2,3)]
  show ?case
  proof (cases "gpu_cycle k g")
    case (Inl e)
    then show ?thesis using Suc.prems(1) c(1) by (auto simp: raises_only_def)
  next
    case (Inr p)
    obtain d g1 where g1: "gpu_cycle k g = Inr (d, g1)" using Inr by (cases p) auto
    show ?thesis using Suc.IH[of g1] Suc.prems(1) g1 c(2)[OF g1] gpu_cycle_inv[OF Suc.prems(2) g1] by (cases d) auto
  qed
qed simp

lemma run_kernel_safe:
  assumes wt: "well_typed k" and run: "run_kernel g k gr c req = Some r" and ok: "blocks_ok (g_blocks gr)" "typed_blocks (g_blocks gr)"
    and caches: "cache_inv (gpu_l2_cache g)" "stats_inv (gpu_l2_cache g)"
      "\<forall>s \<in> set (gpu_sms g). cache_inv (sm_l1_cache s) \<and> stats_inv (sm_l1_cache s)"
  shows "safe r"
proof -
  have clear: "\<forall>s \<in> set (gpu_sms g). typed_sm (clear_warps s)" by (simp add: typed_sm_def clear_warps_def)
  note d = dispatch_all_safe[OF ok(2) clear, of c req 0]
  show ?thesis
  proof (cases "launch_kernel g gr c req")
    case (Inl e)
    have "safe (launch_kernel g gr c req)" unfolding launch_kernel_def using d by (auto intro!: raises)
    then show ?thesis using run Inl by (auto simp: run_kernel_def raises_only_def)
  next
    case (Inr g1)
    then obtain idx sms where d1: "dispatch_all clear_warps c req (g_blocks gr) 0 (gpu_sms g) = Inr (idx, sms)"
      and g1: "gpu_sms g1 = sms" "gpu_pending_blocks g1 = g_blocks gr" by (auto simp: launch_kernel_def)
    have "typed_gpu g1" using d d1 g1 ok(2) by (simp add: typed_gpu_def)
    moreover have "gpu_inv g1" by (rule launch_kernel_inv[OF Inr ok(1) caches])
    moreover have "run_to_completion k g1 = Some r" using run Inr by (simp add: run_kernel_def)
    then obtain n where "run_cycles n k g1 = Some r" using run_cycles_complete by blast
    ultimately show ?thesis using run_cycles_safe[OF wt] by blast
  qed
qed

section \<open>The grids and kernels of the benchmarks\<close>

lemma make_grid_typed:
  assumes "make_grid f init n bs ws = Inr gr" and "keeps_warp f" and "0 < ws" and "ws \<le> 32" and "0 < bs"
    and "bs + ws < 2 ^ 64" and "n + bs < 2 ^ 64"
  shows "blocks_ok (g_blocks gr)" and "typed_blocks (g_blocks gr)"
proof -
  note mg = make_grid_built[OF assms(1,2,3,5,6,7)]
  show "blocks_ok (g_blocks gr)" by (rule built_blocks_ok[OF mg(1) assms(4)])
  show "typed_blocks (g_blocks gr)" using mg(1) initialised_full[of init]
    unfolding typed_blocks_def typed_warp_def built_block_def built_def by blast
qed

lemma small_register: "k < 12 \<Longrightarrow> register_ok (20 + of_nat k)"
  by (simp add: register_ok_def round_register)

lemma registers_ok: "int_to_size r < 32 \<Longrightarrow> register_ok r"
  by (simp add: register_ok_def)

abbreviation (input) all_typed :: "instruction list \<Rightarrow> bool" where
  "all_typed \<equiv> list_all well_typed_instruction"

lemmas typing = well_typed_instruction_def operands_def optional_register_def register_ok_def

lemma guarded_typed: "all_typed (guarded r body) \<longleftrightarrow> register_ok r \<and> all_typed body"
  by (auto simp: guarded_def typing)

lemma all_typed_concat: "all_typed (concat bs) \<longleftrightarrow> (\<forall>b \<in> set bs. all_typed b)"
  by (auto simp: list_all_iff)

lemma reduction_round_typed:
  assumes "reduction_round (s, h) = Inr y" and "s < 2 ^ 30"
  shows "all_typed y \<longleftrightarrow> s < 12"
  using assms(1) step_register[OF assms(2)]
  by (auto simp: reduction_round_def guarded_typed) (simp_all add: typing)

lemma reduction_typed:
  assumes "generate_reduction_kernel b = Inr k"
  shows "well_typed k \<longleftrightarrow> sint b < 2 ^ 13"
proof -
  obtain half rounds where h: "c_div b 2 = Inr half"
    and r: "mapE reduction_round (enumerate 0 (halvings (nat (sint half)))) = Inr rounds"
    and k: "k_instructions k = [instr LOAD 10 0 (-1) 0, instr STORE (-1) 10 1 0, instr BARRIER 0 0 0 0, instr MOV 19 (-1) (-1) 0] @
          concat rounds @ guarded 3 [instr LOAD 10 1 (-1) 0, instr STORE (-1) 10 2 0]"
    using assms by (auto simp: generate_reduction_kernel_def make_kernel_def)
  let ?hs = "halvings (nat (sint half))"
  have "nat (sint half) < 2 ^ 31" using sint_bounds32(2)[of half] by simp
  then have len: "length ?hs \<le> 31" by (simp only: length_halvings)
  have at: "i < length ?hs \<Longrightarrow> reduction_round (i, ?hs ! i) = Inr (rounds ! i)" and lr: "length rounds = length ?hs" for i
    using mapE_nth[OF r, of i] mapE_length[OF r] by (simp_all add: nth_enumerate_eq)
  have "well_typed k \<longleftrightarrow> (\<forall>i < length ?hs. all_typed (rounds ! i))"
    by (simp add: well_typed_def k all_typed_concat guarded_typed all_set_conv_all_nth lr) (simp add: typing)
  also have "\<dots> \<longleftrightarrow> (\<forall>i < length ?hs. i < 12)" using reduction_round_typed[OF at] len by auto
  also have "\<dots> \<longleftrightarrow> length ?hs \<le> 12" by (metis le_less_linear less_irrefl less_le_trans)
  also have "\<dots> \<longleftrightarrow> nat (sint half) < 2 ^ 12" by (rule length_halvings)
  also have "\<dots> \<longleftrightarrow> sint b < 2 ^ 13"
  proof -
    have e: "sint half = sint b sdiv 2" using h checked_int_sint by (auto simp: c_div_def)
    show ?thesis
    proof (cases "0 \<le> sint b")
      case True
      then show ?thesis by (auto simp: e signed_divide_int_def sgn_if)
    next
      case False
      then have "sint half \<le> 0" by (simp add: e signed_divide_int_def sgn_if)
      then show ?thesis using False by simp
    qed
  qed
  finally show ?thesis .
qed

lemma histogram_typed:
  assumes "generate_histogram_kernel bins b = Inr k"
  shows "well_typed k"
proof -
  obtain iters zeros outputs where i: "sint iters \<le> 8"
    and z: "mapE (histogram_zero b) (int_range iters) = Inr zeros" and o: "mapE (histogram_output b) (int_range iters) = Inr outputs"
    and k: "k = make_kernel ''histogram'' ([instr MOV 19 (-1) (-1) 0, instr MOV 12 (-1) (-1) 4] @ concat zeros @ [instr BARRIER 0 0 0 0] @
          histogram_count @ [instr BARRIER 0 0 0 0] @ concat outputs)"
    using assms by (auto simp: generate_histogram_kernel_def not_less split: if_splits)
  have reg: "register_ok (20 + j)" if "j \<in> set (int_range iters)" for j
    using that i small_register by (auto simp: int_range_def)
  have "\<forall>y \<in> set zeros. all_typed y"
    by (rule mapE_members[OF z]) (auto simp: histogram_zero_def guarded_typed reg, simp_all add: typing)
  moreover have "\<forall>y \<in> set outputs. all_typed y"
    by (rule mapE_members[OF o]) (auto simp: histogram_output_def guarded_typed reg, simp_all add: typing)
  moreover have "all_typed histogram_count" by (simp add: histogram_count_def guarded_typed) (simp add: typing)
  ultimately show ?thesis by (simp add: well_typed_def k make_kernel_def all_typed_concat) (simp add: typing)
qed

lemma gemm_registers:
  "register_ok 0" "register_ok 1" "register_ok 2" "register_ok 3" "register_ok 7" "register_ok 8" "register_ok 9" "register_ok 10"
  "register_ok 12" "register_ok 13" "register_ok 14" "register_ok 15" "register_ok 16" "register_ok 17" "register_ok 20" "register_ok 21"
  "register_ok 22" "register_ok 23" "register_ok 24" "register_ok 25" "register_ok 26" "register_ok 27" "register_ok 28" "register_ok 29"
  "register_ok 30" "register_ok 31"
  by (simp_all add: register_ok_def int_to_size_def)

lemma gemm_parts_typed:
  "all_typed (gemm_load_tiles b)" "all_typed gemm_inner_loop"
  by (simp_all add: gemm_load_tiles_def gemm_inner_loop_def gemm_inner_body_def well_typed_instruction_def operands_def
      optional_register_def gemm_registers)

lemma simple_kernels_typed:
  "generate_vector_add_kernel it = Inr k \<Longrightarrow> well_typed k" "well_typed (generate_memcpy_kernel it)"
  "generate_gemm_kernel M N K ts = Inr k \<Longrightarrow> well_typed k"
proof -
  show "well_typed k" if run: "generate_vector_add_kernel it = Inr k"
  proof -
    obtain bodies where b: "mapE vector_add_body (int_range it) = Inr bodies" "k_instructions k = concat bodies"
      using run by (auto simp: generate_vector_add_kernel_def make_kernel_def)
    have "\<forall>y \<in> set bodies. all_typed y" by (rule mapE_members[OF b(1)]) (auto simp: vector_add_body_def typing)
    then show ?thesis by (simp add: well_typed_def b(2) all_typed_concat)
  qed
  show "well_typed (generate_memcpy_kernel it)"
    by (auto simp: well_typed_def generate_memcpy_kernel_def make_kernel_def all_typed_concat memcpy_body_def typing)
  show "well_typed k" if run: "generate_gemm_kernel M N K ts = Inr k"
  proof -
    obtain bytes where "k_instructions k = [instr MOV 31 (-1) (-1) 4, instr MOV 8 (-1) (-1) 0, instr MOV 7 (-1) (-1) 0] @
        gemm_outer_body bytes @
        [instr CMP (-1) 8 13 0, instr BRANCH (-1) (-1) (-1) 3,
         instr CMP (-1) 0 0 0, instr BRANCH (-1) (-1) (-1) (- of_nat (length (gemm_outer_body bytes) + 3))] @
        [instr MUL 20 0 12 0, instr ADD 21 20 1 0, instr MUL 22 21 31 0, instr ADD 23 17 22 0, instr STORE (-1) 7 23 0]"
      using run by (auto simp: generate_gemm_kernel_def make_kernel_def)
    then show ?thesis
      by (simp add: well_typed_def gemm_outer_body_def gemm_parts_typed)
        (simp add: well_typed_instruction_def operands_def optional_register_def gemm_registers)
  qed
qed

end
