(* ===== verification/Type_Properties.thy ===== *)
theory Type_Properties
  imports Well_Typed Example_GPU
begin

text \<open>
  The properties of well-typed kernels: which exceptions a run can end with, and that the kernels
  of the benchmarks are well typed.
\<close>

section \<open>One warp of one thread\<close>

definition one_block :: thread_block where
  "one_block = \<lparr>tb_id = 0, tb_warps = [build_warp 0 [new_thread 0 0 0 0 0]]\<rparr>"

definition ex_sync :: kernel where
  "ex_sync = \<lparr>k_name = ''sync'', k_instructions = [instr SYNC 0 0 0 0]\<rparr>"

definition one_warp :: "cache \<Rightarrow> cache \<Rightarrow> perf_counters \<Rightarrow> gpu" where
  "one_warp l1 l2 p =
     \<lparr>gpu_sms = [(make_sm 0 l1 (new_shared_memory 8 32))
        \<lparr>sm_warps := tb_warps one_block, sm_scheduler := Some Greedy, sm_counters := p, sm_allocated_blocks := 1,
         sm_allocated_warps := 1, sm_allocated_threads := 1, sm_allocated_registers := 32,
         sm_resident_blocks := [\<lparr>rb_block_id = 0, rb_num_threads = 1, rb_num_warps = 1,
                     rb_allocated_registers = 32, rb_allocated_shared_memory = 0\<rparr>]\<rparr>],
      gpu_l2_cache = l2, gpu_global_memory = new_global_memory 1048576, gpu_pending_blocks = [one_block],
      gpu_current_block_idx = 1, gpu_config = ex_config, gpu_req = ex_req\<rparr>"

lemma one_grid: "build_main_grid 1 1 1 = Inr \<lparr>g_blocks = [one_block]\<rparr>"
  by (simp add: build_main_grid_def make_grid_def ceil_div_def size_add_def size_sub_def make_block_def make_warp_def make_thread_def
      write_registers_def Let_def add_block_def new_thread_block_def add_warp_def one_block_def)

lemma one_launched:
  "\<exists>g l1 l2 p. new_gpu ex_rng ex_config = Inr g \<and> launch_kernel g \<lparr>g_blocks = [one_block]\<rparr> ex_config ex_req = Inr (one_warp l1 l2 p) \<and>
     gpu_global_memory g = new_global_memory 1048576"
  by (simp add: one_warp_def new_gpu_def ex_config_def default_config_def new_cache_def new_sm_def make_sm_def
      set_scheduler_def create_scheduler_def launch_kernel_def dispatch.simps can_admit_def Let_def one_block_def
      block_threads_def build_single new_warp_def ex_req_def clear_warps_def allocate_block_def admit_warp_def sm_add_warp_def size_mul_def)

lemma one_sync: "run_cycles (Suc 0) ex_sync (one_warp l1 l2 p) = Some (Inl (Runtime_error ''SYNC executed with empty SIMT stack''))"
  by (simp add: cycle_defs one_warp_def one_block_def ex_sync_def run_defs)

section \<open>The properties\<close>

text \<open>
  C12: Well-typed kernels do not go wrong. If the operands of a kernel name registers of the file,
  then on every GPU the constructor builds, with any contents \<open>m\<close> of the global memory, and every
  grid of the builders, a run that throws throws one of the eight exceptions a program can be
  blamed for: an unmapped address of either memory, a warp access to both, an overflow, a \<open>SYNC\<close>
  without a region, a divergent or a malformed barrier, a block that fits no SM. It never leaves
  the register file or the lane mask, and no cache, policy or memory call meets a case its code
  treats as impossible.
\<close>

theorem well_typed_runs:
  assumes "random_range rng" and "new_gpu rng c = Inr g" and "well_typed k"
    and "make_grid f init N bs ws = Inr gr" and "keeps_warp f"
    and "0 < bs" and "0 < ws" and "ws \<le> 32" and "bs + ws < 2 ^ 64" and "N + bs < 2 ^ 64"
    and "run_kernel (g\<lparr>gpu_global_memory := m\<rparr>) k gr c req = Some (Inl e)"
  shows "e \<in> {Out_of_range ''GlobalMemory address out of bounds'', Out_of_range ''SharedMemory address out of bounds'', mixed_error,
      Undefined ''signed integer overflow'', Runtime_error ''SYNC executed with empty SIMT stack'',
      Runtime_error ''Divergent barrier within warp'',
      Runtime_error ''Malformed barrier: some warps in the block completed without reaching the barrier.'', impossible_block}"
proof -
  note caches = new_gpu_caches[OF assms(1,2)]
  note gr = make_grid_typed[OF assms(4,5,7,8,6,9,10)]
  have "raises_only run_errors (Inl e :: gpu result)"
    by (rule run_kernel_safe[OF assms(3,11) gr]) (use caches in simp_all)
  then show ?thesis by (simp add: raises_only_def run_errors_def)
qed

theorem well_typed_runs_witness:
  "\<exists>g gr e. new_gpu ex_rng ex_config = Inr g \<and> build_main_grid 1 1 1 = Inr gr \<and>
    run_kernel g ex_sync gr ex_config ex_req = Some (Inl e) \<and> e \<noteq> Out_of_range ''Register read out of bounds''"
proof -
  obtain g l1 l2 p where g: "new_gpu ex_rng ex_config = Inr g" "gpu_global_memory g = new_global_memory 1048576"
    and l: "launch_kernel g \<lparr>g_blocks = [one_block]\<rparr> ex_config ex_req = Inr (one_warp l1 l2 p)"
    using one_launched by blast
  let ?gr = "\<lparr>g_blocks = [one_block]\<rparr>" and ?e = "Runtime_error ''SYNC executed with empty SIMT stack''"
  have gr: "make_grid (\<lambda>w. w) (\<lambda>_ _ _. []) 1 1 1 = Inr ?gr" using one_grid by (simp add: build_main_grid_def)
  have "run_kernel g ex_sync ?gr ex_config ex_req = Some (Inl ?e)"
    using l run_cycles_sound[OF one_sync[of l1 l2 p]] by (simp add: run_kernel_def)
  moreover have "g\<lparr>gpu_global_memory := gpu_global_memory g\<rparr> = g" by simp
  ultimately have r: "run_kernel (g\<lparr>gpu_global_memory := gpu_global_memory g\<rparr>) ex_sync ?gr ex_config ex_req = Some (Inl ?e)" by simp
  have ty: "well_typed ex_sync" by (simp add: well_typed_def ex_sync_def well_typed_instruction_def operands_def)
  have n: "0 < (1 :: nat)" "(1 :: nat) \<le> 32" "1 + 1 < (2 :: nat) ^ 64" by simp_all
  have "?e \<noteq> Out_of_range ''Register read out of bounds''"
    using well_typed_runs[OF ex_rng_range g(1) ty gr keeps_id n(1,1,2,3,3) r] by auto
  then show ?thesis using g(1) one_grid r by auto
qed

text \<open>
  C39: The kernels of the benchmarks are well typed: vector add, memory copy, histogram and matrix
  multiplication always, whatever their parameters; the reduction exactly for block sizes below
  \<open>2 ^ 13\<close>, because it keeps one predicate per step in the registers from 20 on.
\<close>

theorem benchmark_kernels_well_typed:
  "(\<forall>it k. generate_vector_add_kernel it = Inr k \<longrightarrow> well_typed k) \<and>
   (\<forall>it. well_typed (generate_memcpy_kernel it)) \<and>
   (\<forall>bins b k. generate_histogram_kernel bins b = Inr k \<longrightarrow> well_typed k) \<and>
   (\<forall>M N K ts k. generate_gemm_kernel M N K ts = Inr k \<longrightarrow> well_typed k) \<and>
   (\<forall>b k. generate_reduction_kernel b = Inr k \<longrightarrow> (well_typed k \<longleftrightarrow> sint b < 2 ^ 13))"
  using simple_kernels_typed histogram_typed reduction_typed by blast

theorem benchmark_kernels_well_typed_witness:
  "\<exists>k. generate_reduction_kernel 2 = Inr k \<and> well_typed k"
proof -
  have "halvings (Suc 0) = [Suc 0]" by (simp add: halvings.simps[of "Suc 0"] halvings.simps[of 0])
  then obtain k where "generate_reduction_kernel 2 = Inr k"
    by (simp add: generate_reduction_kernel_def c_div_def checked_int_def reduction_round_def c_mul_def signed_divide_int_def)
  then show ?thesis using benchmark_kernels_well_typed by simp
qed

end
