(* ===== verification/Spec2Isabelle.thy ===== *)
theory Spec2Isabelle
  imports Memory_Properties Execution_Properties Occupancy Client_Properties Benchmark_Properties Kernel_Properties Type_Properties
begin

text \<open>
  SIM-SM, a cycle-level simulator of a CUDA-like GPU. This theory imports every other one, holds
  the properties that span components and describes the development.

  \<^bold>\<open>The program.\<close> A \<^verbatim>\<open>GPU\<close> (\<^verbatim>\<open>src/architecture/gpu.cpp\<close>) owns streaming multiprocessors (\<^verbatim>\<open>SM\<close>,
  \<^verbatim>\<open>src/architecture/sm.cpp\<close>), the L2 cache and the global memory. \<^verbatim>\<open>launch_kernel\<close> deals the thread
  blocks of a grid to the SMs that can admit them; \<^verbatim>\<open>run_to_completion\<close> repeats cycles until no SM
  has work: each cycle releases finished blocks, dispatches waiting ones and ticks every busy SM.
  A tick ages stalled warps, asks the scheduler (\<^verbatim>\<open>src/scheduling\<close>) for a ready warp, executes one
  instruction on its active lanes (\<^verbatim>\<open>src/execution/instruction_executor.cpp\<close>), which goes through
  the memory system (\<^verbatim>\<open>src/memory\<close>) for loads, stores and atomics, and then updates the state of
  the warp, the barrier of its block and the counters (\<^verbatim>\<open>src/runtime/performance_counter.cpp\<close>).
  The clients of the simulator are the benchmarks (\<^verbatim>\<open>src/runtime/benchmarks.cpp\<close>), which generate
  kernels and grids, run them and write tables, and the analysis (\<^verbatim>\<open>src/analysis\<close>), which sweeps a
  parameter space, diagnoses every result and reports. \<^verbatim>\<open>src/main.cpp\<close> chooses between them.

  \<^bold>\<open>How the code is represented.\<close> A class is a record whose fields are the members, a method that
  changes its object is a function that returns the new record, a throw is \<open>Inl\<close> of a
  \<open>sim_error\<close> and the rest \<open>Inr\<close>. An \<open>int\<close> is a 32-bit word
  read as signed; its overflow, which C++ leaves undefined, and every other undefined behaviour
  (an index out of range, a division by zero) is the error \<open>Undefined\<close>, so that no theorem about
  a normal result hides a wrap. A \<open>size_t\<close> is a \<open>nat\<close>; the sums, differences, products and
  conversions the code lets wrap are written out modulo \<open>2 ^ 64\<close> (\<open>size_add\<close>, \<open>size_sub\<close>,
  \<open>size_mul\<close>, \<open>int_to_size\<close>), while counters, those of the resources an SM has allocated among
  them, are not reduced. A \<open>double\<close> is a rational number: rounding is not
  modelled. The active mask, a \<^verbatim>\<open>bitset<32>\<close>, is a 32-bit word.

  \<^bold>\<open>The theories, in the order of the calls.\<close>
  \<^item> \<open>Prelude\<close>: results, loops that stop at the first error, checked arithmetic, lists.
  \<^item> \<open>Storage\<close>: registers and the flat, global and shared memories, as instances of the locale
    \<open>bounded_store\<close>; bank conflicts.
  \<^item> \<open>Replacement\<close>, \<open>Replacement_Spec\<close>, \<open>Cache\<close>: the LRU, FIFO and random policies under the locale
    \<open>replacement_policy\<close>, their abstract machines (a recency stack, a queue) with the
    refinement, and the cache over any policy.
  \<^item> \<open>Coalescer\<close>, \<open>Memory_System\<close>: grouping of lane addresses, the latency paths (locale
    \<open>timing_path\<close>) and the warp accesses.
  \<^item> \<open>Warp\<close>, \<open>Executor\<close>, \<open>Executor_Props\<close>: threads, warps and their state machine, every opcode,
    and the laws of divergence and reconvergence.
  \<^item> \<open>Schedulers\<close>: the six policies under the locales \<open>warp_scheduler\<close> and \<open>work_conserving\<close>.
  \<^item> \<open>Config\<close>, \<open>Perf_Counters\<close>, \<open>Occupancy\<close>: configuration, counters and the occupancy calculator.
  \<^item> \<open>Streaming_Multiprocessor\<close>, \<open>SM_Props\<close>: admission, release, the cycle, the barrier, and
    the invariant \<open>sm_ok\<close>.
  \<^item> \<open>GPU\<close>, \<open>GPU_Props\<close>, \<open>Deadlock\<close>: the launch, the cycle loop, the invariant \<open>gpu_inv\<close>, and
    the states from which the loop never ends.
  \<^item> \<open>Formatting\<close>, \<open>Trace_Logger\<close>: numbers printed and parsed, the text of the trace events.
  \<^item> \<open>Kernels\<close>, \<open>Metrics\<close>, \<open>Benchmarks\<close>: the kernel generators and grids, the totals read off a GPU
    after a run, the six drivers with their suites.
  \<^item> \<open>Sweep\<close>, \<open>Analyzer\<close>, \<open>Report\<close>, \<open>Command_Line\<close>: the analysis from its parameter space to the
    Markdown text, with the sort of the standard library under the locale \<open>candidate_sort\<close>, and
    the argument parser with the flow of \<open>main\<close>.
  \<^item> \<open>Grid_Props\<close>, \<open>Quiet_Runs\<close>: what the grid builders build and when they fail; whole runs never
    raise the counter of idle cycles.
  \<^item> \<open>Progress\<close>, \<open>Grid_Runs\<close>: total correctness of whole runs. The locale \<open>sm_kernel\<close> asks for a
    safety assertion of an SM, a measure and a preorder on the memory that a cycle respects, and
    proves that a launched grid ends with every warp finished. The invariant \<open>sm_busy\<close> says of each
    policy when it keeps an SM busy: the four work-conserving ones always, \<open>Priority\<close> when no warp has
    the lowest priority, \<open>TwoLevel\<close> when its active set has a place and the code has no barrier.
  \<^item> \<open>Lane_Steps\<close>, \<open>Guarded_Programs\<close>: one instruction as seen by a single lane, and kernels
    built from straight code, guarded regions (CMP, SSY, BRANCH .. SYNC) and barriers.
  \<^item> \<open>Lane_Kernels\<close>, \<open>Block_Runs\<close>, \<open>Block_Cycles\<close>, \<open>Lane_Values\<close>, \<open>Block_Grids\<close>: a
    rely/guarantee argument for kernels whose blocks meet at barriers. The client of the locale
    \<open>lane_kernel\<close> gives an assertion per position of a lane in its code and shows that the instruction
    of a lane establishes the next one, keeps the assertions of all other lanes between two
    barriers, and that a barrier turns the assertions of a whole block into those of the next
    phase. What no single lane knows, such as the sum of atomic additions, is an assertion \<open>joint\<close>
    over the positions of the block. The locale \<open>phased_kernel\<close> adds what a warp does with a program
    and is a sublocale of \<open>sm_kernel\<close>, so the kernel ends on every grid that fits, for every interleaving.
  \<^item> \<open>Block_Kernels\<close>: guarded programs, the locale \<open>block_kernel\<close>, as a \<open>phased_kernel\<close>.
  \<^item> \<open>Map_Kernels\<close>: kernels whose lanes write disjoint words, as a sublocale of \<open>block_kernel\<close>.
  \<^item> \<open>Vector_Add\<close>, \<open>Memcpy\<close>, \<open>Register_Kernels\<close>: interpretations of \<open>map_kernel\<close> on the generated
    vector-add and memory-copy kernels and on every program of register instructions.
  \<^item> \<open>Reduction\<close>, \<open>Reduction_Lanes\<close>, \<open>Reduction_Steps\<close>, \<open>Reduction_Blocks\<close>: the generated
    reduction kernel (its program, the assertion of a lane, each instruction, peers and barriers)
    and its interpretation of \<open>block_kernel\<close>.
  \<^item> \<open>Histogram\<close>, \<open>Histogram_Lanes\<close>, \<open>Histogram_Steps\<close>, \<open>Histogram_Blocks\<close>: the same for the
    histogram, whose bins count, between the barriers, the threads that have passed the atomic addition.
  \<^item> \<open>Uniform_Kernels\<close>: programs with loops in which all lanes take the same branches, as a
    \<open>phased_kernel\<close>: the client names the place of the code at every step of its schedule.
  \<^item> \<open>Gemm\<close>, \<open>Gemm_Lanes\<close>, \<open>Gemm_Steps\<close>, \<open>Gemm_Blocks\<close>, \<open>Gemm_Grid\<close>, \<open>Gemm_Runs\<close>: the tiled matrix
    multiplication (the schedule of its two nested loops, the assertion of a lane, each instruction,
    peers and barriers, its grid) as an interpretation of \<open>uniform_kernel\<close>, and what its runs and
    its driver leave and compare.
  \<^item> \<open>Well_Typed\<close>, \<open>Type_Properties\<close>: a type discipline for the register operands of a kernel, with
    preservation and progress from one lane to whole runs, and the kernels of the benchmarks.
  \<^item> \<open>Kernel_Runs\<close>, \<open>Benchmark_Runs\<close>: what the runs of the benchmark kernels leave in the memory of
    a GPU that is ready for a launch, and what the drivers fill in before and compare afterwards.
  \<^item> \<open>Example_GPU\<close>: a small GPU, the concrete input of the witnesses about runs.
  \<^item> \<open>Memory_Properties\<close>, \<open>Execution_Properties\<close>, \<open>Client_Properties\<close>, \<open>Kernel_Properties\<close>,
    \<open>Benchmark_Properties\<close> and this theory: the properties, each after a text with its number, and their witnesses.

  \<^bold>\<open>Loops and fuel.\<close> The cycle loop of \<^verbatim>\<open>run_to_completion\<close> may run for ever and is a
  \<open>partial_function (option)\<close>: \<open>None\<close> is a run that does not end. \<open>run_cycles n\<close> is its bounded
  form, and \<open>run_to_completion_fuel\<close> says that the loop returns a result exactly when some bound
  suffices, with the same result; so no fuel is chosen anywhere. That it does return is proved
  for straight kernels under all six policies and, under the four work-conserving ones, for the
  reduction and the histogram, whose regions are guarded and separated by barriers, and for the
  matrix multiplication with its loops; that it need not is proved for an early exit. Every other loop of the code is structural.

  \<^bold>\<open>Parameters.\<close> The parsed JSON document (\<^verbatim>\<open>nlohmann::json\<close>) is a record of lookup functions,
  the Mersenne twister with its distribution is the stream of the way numbers it draws, with
  the documented range as a hypothesis, \<open>std::sort\<close> is a function that permutes its argument
  into an order its comparison allows, and the file system is the predicate that says which
  files can be opened.

  \<^bold>\<open>Not modelled.\<close> What a driver leaves in its files when it throws, the interleaving of the
  trace text with other output on the console, and the rounding of \<open>double\<close>.
\<close>

section \<open>Running a kernel\<close>

text \<open>
  C23: \<open>launch_kernel\<close> establishes the invariant of the GPU, with every account within its limit, and
  deals the blocks of the grid out in order: every SM gets the next blocks of the grid and holds
  their warps and nothing else, until the first block that does not fit, with which the next SM
  goes on; the blocks left over fit none of them in their turn, and then every SM holds a block.
\<close>

theorem launch_deals_blocks:
  assumes "launch_kernel g gr config req = Inr g'" and "blocks_ok (g_blocks gr)"
    and "cache_inv (gpu_l2_cache g)" and "stats_inv (gpu_l2_cache g)"
    and "\<forall>s \<in> set (gpu_sms g). cache_inv (sm_l1_cache s) \<and> stats_inv (sm_l1_cache s)"
  shows "gpu_inv g' \<and> length (gpu_sms g') = length (gpu_sms g) \<and>
    (\<exists>bss. length bss = length (gpu_sms g) \<and> concat bss = take (gpu_current_block_idx g') (g_blocks gr) \<and>
      (\<forall>n < length (gpu_sms g). sm_warps (gpu_sms g' ! n) = concat (map tb_warps (bss ! n)) \<and>
         map rb_block_id (sm_resident_blocks (gpu_sms g' ! n)) = map tb_id (bss ! n) \<and>
         sm_allocated_blocks (gpu_sms g' ! n) = length (bss ! n) \<and>
         (let k = length (concat (take (Suc n) bss))
          in k < length (g_blocks gr) \<longrightarrow> \<not> can_admit (gpu_sms g' ! n) (g_blocks gr ! k) config req))) \<and>
    (gpu_current_block_idx g' < length (g_blocks gr) \<longrightarrow> (\<forall>s \<in> set (gpu_sms g'). sm_allocated_blocks s \<noteq> 0))"
proof -
  obtain idx sms where d: "dispatch_all clear_warps config req (g_blocks gr) 0 (gpu_sms g) = Inr (idx, sms)"
    and g': "g' = g\<lparr>gpu_sms := sms, gpu_pending_blocks := g_blocks gr, gpu_current_block_idx := idx,
              gpu_config := config, gpu_req := req\<rparr>"
    using assms(1) by (auto simp: launch_kernel_def)
  have clr: "sm_warps (clear_warps s) = []" "sm_allocated_blocks (clear_warps s) = 0" "sm_resident_blocks (clear_warps s) = []" for s
    by (simp_all add: clear_warps_def)
  have sl: "slice (g_blocks gr) 0 idx = take idx (g_blocks gr)" by (simp add: slice_def)
  show ?thesis
    using dispatch_all_effect[OF d] dispatch_all_fills[OF d] launch_kernel_inv[OF assms] by (simp add: g' clr sl Let_def)
qed

theorem launch_deals_blocks_witness:
  "\<exists>g'. launched = Inr g' \<and> gpu_inv g' \<and> length (gpu_sms g') = 1"
proof -
  obtain g' where g': "launched = Inr g'" using launched_eq by blast
  then obtain g where g: "new_gpu ex_rng ex_config = Inr g" "launch_kernel g ex_grid ex_config ex_req = Inr g'"
    by (auto simp: launched_def)
  note c = new_gpu_caches[OF ex_rng_range g(1)]
  have "length (gpu_sms g) = 1" using c(3) by (simp add: ex_config_def)
  with launch_deals_blocks[OF g(2) ex_blocks_ok(1)] c(1,2) g' show ?thesis by auto
qed

text \<open>
  C7: When \<open>run_to_completion\<close> returns normally every block of the grid has been dispatched,
  every warp still held by an SM has completed, and the invariant of the GPU holds: the
  resource accounts, the limits, the masks of the warps and both cache levels.
\<close>

theorem completion_is_complete:
  assumes "run_to_completion k g = Some (Inr g')" and "gpu_inv g" and "gpu_sms g \<noteq> []"
    and "fresh_blocks (gpu_pending_blocks g)"
  shows "gpu_inv g' \<and> gpu_current_block_idx g' = length (gpu_pending_blocks g) \<and>
    (\<forall>s \<in> set (gpu_sms g'). \<forall>w \<in> set (sm_warps s). w_state w = Completed)"
proof -
  obtain n where "run_cycles n k g = Some (Inr g')" using run_cycles_complete[OF assms(1)] by blast
  from run_cycles_done[OF this assms(2-4)] show ?thesis .
qed

theorem completion_is_complete_witness:
  "\<exists>g g'. launched = Inr g \<and> run_to_completion ex_short g = Some (Inr g') \<and> gpu_current_block_idx g' = 1"
proof -
  obtain l1 l2 p where l: "launched = Inr (two_warps l1 l2 p)" "gpu_inv (two_warps l1 l2 p)" by (rule launched_inv)
  obtain g' where "run_cycles (Suc (Suc (Suc 0))) ex_short (two_warps l1 l2 p) = Some (Inr g')" using ex_short_run by blast
  then have r: "run_to_completion ex_short (two_warps l1 l2 p) = Some (Inr g')" by (rule run_cycles_sound)
  have "gpu_sms (two_warps l1 l2 p) \<noteq> []" "gpu_pending_blocks (two_warps l1 l2 p) = g_blocks ex_grid"
    by (simp_all add: two_warps_def ex_grid_def)
  with completion_is_complete[OF r l(2)] ex_blocks_ok(2) l(1) r show ?thesis
    by (auto simp: ex_grid_def)
qed

text \<open>
  C24: One iteration of the cycle loop keeps the invariant and the launched grid and hands out
  blocks in order only. When it reports completion every warp has completed and no memory has
  changed; and on a GPU that has SMs, running a grid in which every block has a warp to run, it
  reports completion exactly when it finds no work at all: every warp on every SM has completed
  and no block is waiting.
\<close>

theorem cycle_keeps_invariant:
  assumes "gpu_inv g" and "gpu_cycle k g = Inr (d, g')"
  shows "gpu_inv g' \<and> gpu_pending_blocks g' = gpu_pending_blocks g \<and> gpu_config g' = gpu_config g \<and>
    length (gpu_sms g') = length (gpu_sms g) \<and> gpu_current_block_idx g \<le> gpu_current_block_idx g' \<and>
    (d \<longrightarrow> (\<forall>s \<in> set (gpu_sms g'). is_completed s) \<and> gpu_global_memory g' = gpu_global_memory g) \<and>
    (gpu_sms g \<noteq> [] \<and> fresh_blocks (gpu_pending_blocks g) \<longrightarrow>
       (d \<longleftrightarrow> (\<forall>s \<in> set (gpu_sms g). is_completed s) \<and> gpu_current_block_idx g = length (gpu_pending_blocks g)))"
proof -
  obtain idx sms sms' l2 gm where 1: "dispatch_all release_completed_blocks (gpu_config g) (gpu_req g)
      (gpu_pending_blocks g) (gpu_current_block_idx g) (gpu_sms g) = Inr (idx, sms)"
    and 2: "tick_all k (gpu_config g) sms (gpu_l2_cache g) (gpu_global_memory g) = Inr (d, sms', l2, gm)"
    and g': "g' = g\<lparr>gpu_sms := sms', gpu_l2_cache := l2, gpu_global_memory := gm, gpu_current_block_idx := idx\<rparr>"
    using assms(2) by (auto simp: gpu_cycle_def)
  have rel: "\<forall>s \<in> set (gpu_sms g). sm_good (gpu_config g) (release_completed_blocks s)"
    and bo: "gpu_current_block_idx g \<le> length (gpu_pending_blocks g)" "blocks_ok (gpu_pending_blocks g)"
    using assms(1) release_good by (auto simp: gpu_inv_def)
  have "\<forall>s \<in> set sms. sm_good (gpu_config g) s" using dispatch_all_good[OF 1 bo rel] .
  from tick_all_good[OF 2 this] assms(1)
  have "d \<longrightarrow> list_all is_completed sms' \<and> gm = gpu_global_memory g" by (auto simp: gpu_inv_def)
  then show ?thesis using gpu_cycle_inv[OF assms] cycle_done_iff[OF assms(1) _ _ assms(2)] by (auto simp: g' list_all_iff)
qed

theorem cycle_keeps_invariant_witness:
  "\<exists>g g'. launched = Inr g \<and> gpu_cycle ex_kernel g = Inr (False, g') \<and> gpu_inv g' \<and>
    \<not> ((\<forall>s \<in> set (gpu_sms g). is_completed s) \<and> gpu_current_block_idx g = length (gpu_pending_blocks g))"
proof -
  obtain l1 l2 p where l: "launched = Inr (two_warps l1 l2 p)" "gpu_inv (two_warps l1 l2 p)" by (rule launched_inv)
  obtain g' where c: "gpu_cycle ex_kernel (two_warps l1 l2 p) = Inr (False, g')"
    using ex_kernel_run[of l1 l2 p] by (auto split: sum.splits bool.splits)
  have "gpu_sms (two_warps l1 l2 p) \<noteq> []" "fresh_blocks (gpu_pending_blocks (two_warps l1 l2 p))"
    using ex_blocks_ok(2) by (simp_all add: two_warps_def ex_grid_def)
  with cycle_keeps_invariant[OF l(2) c] l(1) c show ?thesis by blast
qed

text \<open>
  The loop and its bounded form agree: \<open>run_to_completion\<close> returns a result, normally or
  with an exception, exactly when some number of iterations reaches it.
\<close>

theorem run_to_completion_fuel:
  "run_to_completion k g = Some r \<longleftrightarrow> (\<exists>n. run_cycles n k g = Some r)"
  using run_cycles_sound run_cycles_complete by blast

section \<open>Deadlock\<close>

text \<open>
  C13: A silent deadlock is reachable: in the launched example one warp waits at the barrier
  when the other leaves the kernel, and from then on every cycle succeeds without an end, so
  that \<open>run_to_completion\<close> neither returns nor throws.
\<close>

theorem silent_deadlock_reachable:
  "\<exists>g. launched = Inr g \<and> run_to_completion ex_kernel g = None"
proof -
  obtain l1 l2 p where l: "launched = Inr (two_warps l1 l2 p)" using launched_eq by blast
  obtain g where g: "after_cycles (Suc (Suc (Suc (Suc (Suc (Suc (Suc 0))))))) ex_kernel (two_warps l1 l2 p) = Some g"
    and o: "observe g = (1, 1, [[(StalledAtBarrier, True), (Completed, True)]])"
    using ex_kernel_run[of l1 l2 p] by (auto simp del: after_cycles.simps)
  obtain s where s: "gpu_sms g = [s]" "map (\<lambda>w. (w_state w, of_block 0 w)) (sm_warps s) = [(StalledAtBarrier, True), (Completed, True)]"
    using o by (auto simp: observe_def map_eq_Cons_conv)
  then have "stuck s" by (auto simp: stuck_def is_completed_def)
  then have "gpu_stuck g" using o s(1) by (simp add: gpu_stuck_def observe_def halted_def)
  then have "run_to_completion ex_kernel (two_warps l1 l2 p) = None"
    using after_cycles_run[OF g] gpu_stuck_diverges by simp
  with l show ?thesis by blast
qed

text \<open>
  C37: Once a block is caught that way, some of its warps waiting at the barrier and the others
  completed, the GPU never returns normally, whatever the other blocks do.
\<close>

theorem caught_block_never_returns:
  assumes "gpu_inv g" and "j < length (gpu_sms g)" and "doomed b (gpu_sms g ! j)"
    and "foreign_blocks b (undispatched g)"
  shows "run_to_completion k g \<noteq> Some (Inr g')"
  using doomed_never_returns[OF assms] run_cycles_complete by blast

theorem caught_block_never_returns_witness:
  "\<exists>g. (\<exists>s. gpu_sms g = [s] \<and> map w_state (sm_warps s) = [StalledAtBarrier, Completed]) \<and>
    (\<forall>g'. run_to_completion ex_kernel g \<noteq> Some (Inr g'))"
proof -
  obtain l1 l2 p where l: "launched = Inr (two_warps l1 l2 p)" "gpu_inv (two_warps l1 l2 p)" by (rule launched_inv)
  obtain g where g: "after_cycles (Suc (Suc (Suc (Suc (Suc (Suc (Suc 0))))))) ex_kernel (two_warps l1 l2 p) = Some g"
    and o: "observe g = (1, 1, [[(StalledAtBarrier, True), (Completed, True)]])"
    using ex_kernel_run[of l1 l2 p] by (auto simp del: after_cycles.simps)
  obtain s v w where s: "gpu_sms g = [s]" "sm_warps s = [v, w]" "w_state v = StalledAtBarrier" "w_state w = Completed"
      "of_block 0 v" "of_block 0 w"
    using o by (auto simp: observe_def map_eq_Cons_conv)
  then have d: "0 < length (gpu_sms g)" "doomed 0 (gpu_sms g ! 0)" by (auto simp: doomed_def of_block_def)
  have "foreign_blocks 0 (undispatched g)" using o by (simp add: observe_def foreign_blocks_def undispatched_def)
  then have "\<forall>g'. run_to_completion ex_kernel g \<noteq> Some (Inr g')"
    using caught_block_never_returns[OF after_cycles_inv[OF g l(2)] d] by blast
  moreover have "\<exists>s. gpu_sms g = [s] \<and> map w_state (sm_warps s) = [StalledAtBarrier, Completed]" using s by simp
  ultimately show ?thesis by (intro exI[of _ g] conjI)
qed

section \<open>The streaming multiprocessor\<close>

text \<open>A streaming multiprocessor with one ready warp of three lanes and its memory.\<close>

definition ex_sm :: sm where
  "ex_sm = (make_sm 0 (ex_cache 1 1 ''LRU'') (new_shared_memory 8 2))
     \<lparr>sm_warps := [ex_warp], sm_scheduler := Some (RoundRobin 0)\<rparr>"

lemma ex_sm_ok: "sm_ok ex_sm" "\<not> is_completed ex_sm" "sm_scheduler ex_sm \<noteq> None"
  using ex_warp_inv(1) by (simp_all add: sm_ok_def warp_ok_def ex_sm_def make_sm_def stall_inv_def is_completed_def ex_warp_fields)

lemma ex_sm_tick: "\<exists>s. tick ex_short ex_sm ex_memory = Inr (s, ex_memory)"
  by (simp add: ex_sm_def tick_def make_sm_def is_completed_def ex_warp_fields tick_stalled_warps_def tick_stall_def Let_def
      schedule_def select_warp_def rr_select_def rotation_def is_ready_def account_wait_def reset_wait_cycles_def
      check_and_set_starvation_def increment_wait_cycles_def issue_def ex_short_def update_warp_state_def run_defs plain_result_def)

text \<open>
  C14: One cycle of an SM that has work: it keeps the well-formedness of every warp and of the
  memory, touches no account, advances the cycle counter by one and retires at most one
  instruction; only the selected warp, which was ready after the stall ticks, may change its
  threads, program counter, mask or stack.
\<close>

theorem tick_issues_one_warp:
  assumes "\<not> is_completed s" and "sm_ok s" and "ms_inv m" and "tick k s m = Inr (s', m')"
  shows "sm_ok s' \<and> ms_inv m' \<and> same_accounts s s' \<and> length (sm_warps s') = length (sm_warps s) \<and>
    pf_cycles (sm_counters s') = pf_cycles (sm_counters s) + 1 \<and>
    pf_instructions_retired (sm_counters s) \<le> pf_instructions_retired (sm_counters s') \<and>
    pf_instructions_retired (sm_counters s') \<le> pf_instructions_retired (sm_counters s) + 1 \<and>
    (\<exists>sel. (\<forall>j < length (sm_warps s). sel \<noteq> Some j \<longrightarrow> same_core (sm_warps s ! j) (sm_warps s' ! j)) \<and>
      (\<forall>i. sel = Some i \<longrightarrow> i < length (sm_warps s) \<and>
         w_state (tick_stall (sm_warps s ! i) (pf_cycles (sm_counters s))) = Ready))"
  using tick_effect(1,2,3,7,8,9,10,12)[OF assms] by (intro conjI)

theorem tick_issues_one_warp_witness:
  "\<exists>s'. tick ex_short ex_sm ex_memory = Inr (s', ex_memory) \<and> pf_cycles (sm_counters s') = 1"
proof -
  obtain s' where t: "tick ex_short ex_sm ex_memory = Inr (s', ex_memory)" using ex_sm_tick by blast
  have "pf_cycles (sm_counters ex_sm) = 0" by (simp add: ex_sm_def make_sm_def new_counters_def)
  with tick_issues_one_warp[OF ex_sm_ok(2,1) ex_memory_inv t] t show ?thesis by auto
qed

text \<open>
  The stall reason \<open>NoReadyWarp\<close> is never recorded by an SM that has a scheduler, also in
  the cycles in which no warp is ready.
\<close>

theorem no_ready_warp_never_recorded:
  assumes "sm_scheduler s \<noteq> None" and "sm_ok s" and "ms_inv m" and "tick k s m = Inr (s', m')"
  shows "get_stalls NoReadyWarp (sm_counters s') = get_stalls NoReadyWarp (sm_counters s)"
proof (cases "is_completed s")
  case True
  then show ?thesis using assms(4) by (simp add: tick_def)
next
  case False
  from tick_effect(11)[OF this assms(2-4,1)] show ?thesis .
qed

theorem no_ready_warp_never_recorded_witness:
  "\<exists>s'. tick ex_short (ex_sm\<lparr>sm_warps := [stall ex_warp 5]\<rparr>) ex_memory = Inr (s', ex_memory) \<and>
    get_stalls NoReadyWarp (sm_counters s') = 0"
proof -
  let ?s = "ex_sm\<lparr>sm_warps := [stall ex_warp 5]\<rparr>"
  have "\<exists>s'. tick ex_short ?s ex_memory = Inr (s', ex_memory)"
    by (simp add: ex_sm_def tick_def make_sm_def is_completed_def ex_warp_fields tick_stalled_warps_def tick_stall_def Let_def
        schedule_def select_warp_def rr_select_def rotation_def is_ready_def account_wait_def stall_def reset_wait_cycles_def)
  then obtain s' where t: "tick ex_short ?s ex_memory = Inr (s', ex_memory)" by blast
  have "masks_inv (stall ex_warp 5)" using same_core_masks[OF same_core_ops(5) ex_warp_inv(1)] .
  then have ok: "sm_ok ?s" by (simp add: sm_ok_def warp_ok_def stall_inv_def stall_def reset_wait_cycles_def)
  have "sm_scheduler ?s \<noteq> None" using ex_sm_ok(3) by simp
  from no_ready_warp_never_recorded[OF this ok ex_memory_inv t] t show ?thesis
    by (auto simp: ex_sm_def make_sm_def new_counters_def get_stalls_def count_of_def)
qed

text \<open>
  C25: A warp that arrives at a barrier waits while a member of its block is still running;
  when the other members wait or have completed, the barrier throws if one has completed, and
  otherwise it makes every warp of the block ready again and leaves all other warps alone.
\<close>

theorem barrier_protocol:
  assumes "i < length (sm_warps s)" and "of_block b (sm_warps s ! i)"
  shows "handle_barrier_arrival i s =
    (if \<exists>w \<in> set (members b (arrived i s)). w_state w \<noteq> StalledAtBarrier \<and> w_state w \<noteq> Completed
     then Inr (s\<lparr>sm_warps := arrived i s\<rparr>)
     else if \<exists>w \<in> set (members b (arrived i s)). w_state w = Completed
     then Inl (Runtime_error ''Malformed barrier: some warps in the block completed without reaching the barrier.'')
     else Inr (s\<lparr>sm_warps := map (\<lambda>w. if of_block b w then set_ready w (pf_cycles (sm_counters s)) else w)
                               (arrived i s)\<rparr>))"
  by (rule barrier_arrival[OF assms])

theorem barrier_protocol_witness:
  "handle_barrier_arrival 0 (ex_sm\<lparr>sm_warps := [ex_warp, set_completed ex_warp]\<rparr>) =
     Inl (Runtime_error ''Malformed barrier: some warps in the block completed without reaching the barrier.'')"
proof -
  let ?s = "ex_sm\<lparr>sm_warps := [ex_warp, set_completed ex_warp]\<rparr>"
  have "of_block 0 (sm_warps ?s ! 0)" by (simp add: of_block_def ex_warp_fields ex_lanes_def new_thread_def)
  from barrier_protocol[OF _ this] show ?thesis
    by (simp add: members_def arrived_def of_block_def ex_warp_fields ex_lanes_def new_thread_def
        set_stalled_at_barrier_def reset_wait_cycles_def set_completed_def)
qed

text \<open>
  C26: Admission and release keep the books: a block that \<open>can_admit\<close> accepts fits below all
  five limits after it is allocated, the five counters are always the sums over the resident
  blocks, and a release removes completed warps only.
\<close>

theorem resource_accounting:
  assumes "accounts_ok s"
  shows "(can_admit s b c req \<longrightarrow> within_limits c (allocate_block s b req)) \<and>
    accounts_ok (allocate_block s b req) \<and> accounts_ok (release_completed_blocks s) \<and>
    sm_warps (allocate_block s b req) = sm_warps s @ tb_warps b \<and>
    (\<forall>w \<in> set (sm_warps s). w_state w \<noteq> Completed \<longrightarrow> w \<in> set (sm_warps (release_completed_blocks s)))"
  using allocate_limits[of s b c req] allocate_accounts[OF assms] release_accounts[OF assms] release_fields(2)[of _ s]
    allocate_block_fields(1)[of s b req]
  by blast

theorem resource_accounting_witness:
  "within_limits ex_config (allocate_block (clear_warps ex_sm) ex_block ex_req)"
proof -
  have ok: "accounts_ok (clear_warps ex_sm)"
    by (simp add: accounts_ok_def accounts_for_def clear_warps_def)
  have "can_admit (clear_warps ex_sm) ex_block ex_config ex_req"
    by (simp add: can_admit_def clear_warps_def ex_config_def default_config_def ex_block_def ex_req_def Let_def block_threads_def build_single
        size_mul_def)
  with resource_accounting[OF ok] show ?thesis by blast
qed

text \<open>
  C32: The analytic occupancy agrees with the dispatcher: whenever \<open>compute_occupancy\<close> returns, and
  predicts a block at all, an emptied SM admits exactly as many blocks of the configured shape as
  it predicts, or all of them when there are fewer, and the reported percentage lies between 0
  and 1. It returns unless a size is zero or the sum that rounds up wraps to less than a warp.
\<close>

theorem occupancy_predicts_dispatch:
  assumes "compute_occupancy c req = Inr occ" and "\<forall>b \<in> set p. uniform_block c b" and "0 < occ_resident_blocks occ"
  shows "(\<exists>s'. dispatch c req p 0 (clear_warps s) = Inr (min (length p) (occ_resident_blocks occ), s')) \<and>
    0 \<le> occ_percentage occ \<and> occ_percentage occ \<le> 1"
  using dispatch_occupancy[OF assms(1,2) cleared_holds _ assms(3), of 0 s] occupancy_percentage_range[OF assms(1)] by simp

theorem occupancy_predicts_dispatch_witness:
  "\<exists>s'. dispatch ex_config ex_req [ex_block, ex_block, ex_block] 0 (clear_warps ex_sm) = Inr (2, s')"
proof -
  have "\<exists>occ. compute_occupancy ex_config ex_req = Inr occ \<and> occ_resident_blocks occ = 2"
    by (simp add: compute_occupancy_def ex_config_def ex_req_def default_config_def Let_def resident_blocks_def
        max_blocks_by_threads_def max_blocks_by_warps_def max_blocks_by_regs_def max_blocks_by_shmem_def
        registers_per_block_def occ_warps_per_block_def size_add_def size_sub_def size_mul_def)
  then obtain occ where occ: "compute_occupancy ex_config ex_req = Inr occ" "occ_resident_blocks occ = 2" by blast
  have "\<forall>b \<in> set [ex_block, ex_block, ex_block]. uniform_block ex_config b"
    by (simp add: uniform_block_def block_threads_def ex_block_def build_single ex_config_def default_config_def occ_warps_per_block_def size_add_def size_sub_def)
  from occupancy_predicts_dispatch[OF occ(1) this, of ex_sm] occ(2) show ?thesis by (simp add: numeral_2_eq_2)
qed

section \<open>Metrics and configuration\<close>

text \<open>
  Jain's fairness index lies between 0 and 1, and is 1 when all warps that were counted
  have issued equally often.
\<close>

theorem fairness_index_range:
  "0 \<le> get_jains_fairness_index p \<and> get_jains_fairness_index p \<le> 1 \<and>
   (\<forall>n. pf_warp_issue_counts p \<noteq> [] \<longrightarrow> 0 < n \<longrightarrow> (\<forall>(w, c) \<in> set (pf_warp_issue_counts p). c = n) \<longrightarrow>
      get_jains_fairness_index p = 1)"
  using jain_range[of p] jain_equal_shares[of p] by blast

theorem fairness_index_range_witness:
  "get_jains_fairness_index (new_counters\<lparr>pf_warp_issue_counts := [(0, 5), (1, 5)]\<rparr>) = 1"
proof -
  let ?p = "new_counters\<lparr>pf_warp_issue_counts := [(0, 5), (1, 5)]\<rparr>"
  have "pf_warp_issue_counts ?p \<noteq> []" "(0 :: nat) < 5" "\<forall>(w, c) \<in> set (pf_warp_issue_counts ?p). c = 5" by simp_all
  with fairness_index_range[of ?p] show ?thesis by blast
qed

text \<open>
  \<open>load_config\<close> reads neither the scheduler policy nor the size of the active set: every
  configuration it returns has the default round robin and 8.
\<close>

theorem load_config_ignores_scheduler:
  assumes "load_config f doc = Inr c"
  shows "cfg_scheduler_policy c = ''RR'' \<and> cfg_active_set_size c = 8"
  by (rule load_config_scheduler[OF assms])

theorem load_config_ignores_scheduler_witness:
  "\<exists>c. load_config ''gpu.json'' (Some (empty_document\<lparr>j_string := \<lambda>key d. Inr ''GTO''\<rparr>)) = Inr c \<and> cfg_scheduler_policy c = ''RR''"
proof -
  have "\<exists>c. load_config ''gpu.json'' (Some (empty_document\<lparr>j_string := \<lambda>key d. Inr ''GTO''\<rparr>)) = Inr c"
    by (simp add: load_config_def load_occupancy_limits_def load_cache_hierarchy_def load_latencies_def empty_document_def
        int_value_def warps_default_def int_to_size_def)
  with load_config_ignores_scheduler show ?thesis by blast
qed

end
